(* ===== verification/Prelude.thy ===== *)
theory Prelude
  imports Main "HOL-Library.Word" "HOL-Library.Monad_Syntax"
begin

unbundle bit_operations_syntax

text \<open>
  Shared vocabulary of the development.

  Go values are represented as follows. A \<^verbatim>\<open>byte\<close> is an 8-bit word, a \<^verbatim>\<open>uint64\<close> a 64-bit
  word, a slice a list (its capacity is its length), a Go \<^verbatim>\<open>int\<close> that holds a buffer position an
  \<^typ>\<open>int\<close>. A \<^verbatim>\<open>uint\<close> that counts bits is a \<^typ>\<open>nat\<close> below \<open>2 ^ 64\<close> whose additions and
  subtractions go through \<open>uadd\<close> and \<open>usub\<close>, which write the wrap-around out. A run-time panic
  (an index or a slice bound out of range) is the value \<^const>\<open>None\<close> of an option type, so a theorem
  that an operation returns \<open>Some\<close> is a memory-safety theorem.

  The second half of the theory is the theory of bit strings: bits are listed in stream order,
  least significant bit of the first byte first, as RFC 7932 orders them.
\<close>

type_synonym byte = "8 word"
type_synonym u16 = "16 word"
type_synonym u32 = "32 word"
type_synonym u64 = "64 word"

named_theorems stream_simps \<open>how the bit stream of a reader or a writer changes under an operation\<close>
named_theorems inv_intros \<open>operations keep the representation invariants\<close>


subsection \<open>Unsigned arithmetic with the wrap-around written out\<close>

definition uadd :: "nat \<Rightarrow> nat \<Rightarrow> nat" where
  "uadd a b = (a + b) mod 2 ^ 64"

definition usub :: "nat \<Rightarrow> nat \<Rightarrow> nat" where
  "usub a b = (a + 2 ^ 64 - b) mod 2 ^ 64"

lemma uadd_exact [simp]: "a + b < 2 ^ 64 \<Longrightarrow> uadd a b = a + b"
  by (simp add: uadd_def)

lemma usub_exact [simp]: "b \<le> a \<Longrightarrow> a < 2 ^ 64 \<Longrightarrow> usub a b = a - b"
proof -
  assume "b \<le> a" "a < 2 ^ 64"
  then have e: "a + 2 ^ 64 - b = (a - b) + 2 ^ 64" and lt: "a - b < 2 ^ 64" by linarith+
  show ?thesis unfolding usub_def e mod_add_self2 using lt by (rule mod_less)
qed


lemma div8_eqI: "8 * q \<le> k \<Longrightarrow> k < 8 * q + 8 \<Longrightarrow> k div 8 = (q::nat)"
  by (rule div_nat_eqI) simp_all


subsection \<open>Bounds-checked slices\<close>

definition go_index :: "'a list \<Rightarrow> int \<Rightarrow> 'a option" where
  "go_index xs i = (if 0 \<le> i \<and> i < int (length xs) then Some (xs ! nat i) else None)"

definition go_update :: "'a list \<Rightarrow> int \<Rightarrow> 'a \<Rightarrow> 'a list option" where
  "go_update xs i v = (if 0 \<le> i \<and> i < int (length xs) then Some (xs[nat i := v]) else None)"

definition go_slice :: "'a list \<Rightarrow> int \<Rightarrow> int \<Rightarrow> 'a list option" where
  "go_slice xs i j = (if 0 \<le> i \<and> i \<le> j \<and> j \<le> int (length xs)
     then Some (take (nat (j - i)) (drop (nat i) xs)) else None)"

text \<open>\<open>overwrite xs i ys\<close> is the array after \<^verbatim>\<open>copy(xs[i:], ys)\<close> when \<open>ys\<close> fits.\<close>

definition overwrite :: "'a list \<Rightarrow> nat \<Rightarrow> 'a list \<Rightarrow> 'a list" where
  "overwrite xs i ys = take i xs @ ys @ drop (i + length ys) xs"

lemma length_overwrite [simp]:
  "i + length ys \<le> length xs \<Longrightarrow> length (overwrite xs i ys) = length xs"
  by (simp add: overwrite_def)

lemma overwrite_Nil [simp]: "overwrite xs i [] = xs"
  by (simp add: overwrite_def)

lemma nth_overwrite:
  "i + length ys \<le> length xs \<Longrightarrow> k < length xs \<Longrightarrow>
     overwrite xs i ys ! k = (if i \<le> k \<and> k < i + length ys then ys ! (k - i) else xs ! k)"
  by (auto simp: overwrite_def nth_append min_def)

lemma take_overwrite [simp]:
  "i + length ys \<le> length xs \<Longrightarrow> k \<le> i \<Longrightarrow> take k (overwrite xs i ys) = take k xs"
  by (simp add: overwrite_def min_def)

lemma take_overwrite_end:
  "i + length ys \<le> length xs \<Longrightarrow> take (i + length ys) (overwrite xs i ys) = take i xs @ ys"
  by (simp add: overwrite_def)

lemma go_index_Some [simp]: "go_index xs (int i) = Some x \<longleftrightarrow> i < length xs \<and> xs ! i = x"
  by (auto simp: go_index_def)

lemma go_index_at: "i < length xs \<Longrightarrow> go_index xs (int i) = Some (xs ! i)"
  by simp

lemma go_slice_Some:
  "0 \<le> i \<Longrightarrow> i \<le> j \<Longrightarrow> j \<le> int (length xs) \<Longrightarrow>
     go_slice xs i j = Some (take (nat (j - i)) (drop (nat i) xs))"
  by (simp add: go_slice_def)


text \<open>A slice whose capacity matters: the array from the slice's start to its capacity, and its length.
  \<open>sl_list\<close> is what the program can index.\<close>

record 'a goslice =
  sl_data :: "'a list"
  sl_len :: nat

definition sl_list :: "'a goslice \<Rightarrow> 'a list" where
  "sl_list s = take (sl_len s) (sl_data s)"

definition sl_ok :: "'a goslice \<Rightarrow> bool" where
  "sl_ok s \<longleftrightarrow> sl_len s \<le> length (sl_data s)"

definition sl_nil :: "'a goslice" where
  "sl_nil = \<lparr>sl_data = [], sl_len = 0\<rparr>"

definition sl_get :: "'a goslice \<Rightarrow> int \<Rightarrow> 'a option" where
  "sl_get s i = go_index (sl_list s) i"

definition sl_set :: "'a goslice \<Rightarrow> int \<Rightarrow> 'a \<Rightarrow> 'a goslice option" where
  "sl_set s i v = (if 0 \<le> i \<and> i < int (min (sl_len s) (length (sl_data s)))
     then Some (s\<lparr>sl_data := (sl_data s)[nat i := v]\<rparr>) else None)"

text \<open>\<^verbatim>\<open>if cap(buf) >= size { return buf[:size] }; return make([]T, size)\<close>; \<open>z\<close> is the zero value.\<close>

definition sl_reuse :: "'a \<Rightarrow> 'a goslice \<Rightarrow> nat \<Rightarrow> 'a goslice" where
  "sl_reuse z buf size1 = (if size1 \<le> length (sl_data buf) then buf\<lparr>sl_len := size1\<rparr>
     else \<lparr>sl_data = replicate size1 z, sl_len = size1\<rparr>)"

lemma length_sl_list [simp]: "sl_ok s \<Longrightarrow> length (sl_list s) = sl_len s"
  by (simp add: sl_ok_def sl_list_def)

lemma sl_reuse_ok [simp]: "sl_ok (sl_reuse z buf n)" "sl_len (sl_reuse z buf n) = n"
  by (simp_all add: sl_reuse_def sl_ok_def)

lemma sl_set_ok:
  assumes "sl_ok s" and "i < sl_len s"
  shows "sl_set s (int i) v = Some (s\<lparr>sl_data := (sl_data s)[i := v]\<rparr>)"
    and "sl_ok (s\<lparr>sl_data := (sl_data s)[i := v]\<rparr>)"
    and "sl_list (s\<lparr>sl_data := (sl_data s)[i := v]\<rparr>) = (sl_list s)[i := v]"
  using assms by (simp_all add: sl_set_def sl_ok_def sl_list_def take_update_swap)


subsection \<open>Bit strings\<close>

definition bits_of :: "nat \<Rightarrow> 'a::len word \<Rightarrow> bool list" where
  "bits_of n w = map (bit w) [0..<n]"

definition val_of :: "bool list \<Rightarrow> nat" where
  "val_of bs = horner_sum of_bool 2 bs"

fun bytes_bits :: "byte list \<Rightarrow> bool list" where
  "bytes_bits [] = []"
| "bytes_bits (b # bs) = bits_of 8 b @ bytes_bits bs"

lemma length_bits_of [simp]: "length (bits_of n w) = n"
  by (simp add: bits_of_def)

lemma nth_bits_of [simp]: "k < n \<Longrightarrow> bits_of n w ! k = bit w k"
  by (simp add: bits_of_def)

lemma bits_of_0 [simp]: "bits_of 0 w = []"
  by (simp add: bits_of_def)

lemma take_bits_of: "n \<le> m \<Longrightarrow> take n (bits_of m w) = bits_of n w"
  by (rule nth_equalityI) auto

lemma drop_bits_of: "drop n (bits_of m w) = bits_of (m - n) (drop_bit n w)"
  by (rule nth_equalityI) (auto simp: bit_drop_bit_eq)

lemma length_bytes_bits [simp]: "length (bytes_bits bs) = 8 * length bs"
  by (induction bs) auto

lemma bytes_bits_append [simp]: "bytes_bits (xs @ ys) = bytes_bits xs @ bytes_bits ys"
  by (induction xs) auto

lemma nth_bytes_bits:
  "k < 8 * length bs \<Longrightarrow> bytes_bits bs ! k = bit (bs ! (k div 8)) (k mod 8)"
proof (induction bs arbitrary: k)
  case Nil
  then show ?case by simp
next
  case (Cons b bs)
  show ?case
  proof (cases "k < 8")
    case True
    then show ?thesis by (simp add: nth_append)
  next
    case False
    then have "k div 8 = Suc ((k - 8) div 8)" "(k - 8) mod 8 = k mod 8"
      by (auto simp: le_div_geq le_mod_geq)
    with False Cons show ?thesis by (simp add: nth_append)
  qed
qed

lemma drop_bytes_bits: "drop (8 * n) (bytes_bits bs) = bytes_bits (drop n bs)"
proof (induction bs arbitrary: n)
  case (Cons b bs)
  then show ?case by (cases n) auto
qed simp

lemma take_bytes_bits: "take (8 * n) (bytes_bits bs) = bytes_bits (take n bs)"
proof (induction bs arbitrary: n)
  case (Cons b bs)
  then show ?case by (cases n) auto
qed simp

lemma val_of_Nil [simp]: "val_of [] = 0"
  by (simp add: val_of_def)

lemma val_of_Cons [simp]: "val_of (b # bs) = of_bool b + 2 * val_of bs"
  by (simp add: val_of_def)

lemma val_of_lt: "val_of bs < 2 ^ length bs"
  by (induction bs) auto

lemma val_of_append: "val_of (xs @ ys) = val_of xs + 2 ^ length xs * val_of ys"
  by (induction xs) (auto simp: algebra_simps)

lemma val_of_bits_of: "val_of (bits_of n w) = unat (take_bit n w)"
proof -
  have b: "bit (unat w) = bit w" by (rule ext) (simp add: bit_unsigned_iff)
  have "val_of (bits_of n w) = horner_sum of_bool 2 (map (bit (unat w)) [0..<n])"
    by (simp add: val_of_def bits_of_def b)
  also have "\<dots> = take_bit n (unat w)" by (rule horner_sum_bit_eq_take_bit)
  also have "\<dots> = unat (take_bit n w)" by (rule unsigned_take_bit_eq [symmetric])
  finally show ?thesis .
qed

lemma val_of_inj: "length xs = length ys \<Longrightarrow> val_of xs = val_of ys \<Longrightarrow> xs = ys"
proof (induction xs ys rule: list_induct2)
  case (Cons x xs y ys)
  then have "of_bool x + 2 * val_of xs = of_bool y + 2 * val_of ys" by simp
  then have "x = y \<and> val_of xs = val_of ys"
    by (cases x; cases y) (auto, presburger+)
  with Cons show ?case by simp
qed simp

text \<open>The bits of a number, least significant first: the inverse of \<open>val_of\<close> at a width.\<close>

definition nat_bits :: "nat \<Rightarrow> nat \<Rightarrow> bool list" where
  "nat_bits n v = map (bit v) [0..<n]"

lemma length_nat_bits [simp]: "length (nat_bits n v) = n"
  by (simp add: nat_bits_def)

lemma val_of_nat_bits [simp]: "v < 2 ^ n \<Longrightarrow> val_of (nat_bits n v) = v"
  by (simp add: val_of_def nat_bits_def horner_sum_bit_eq_take_bit take_bit_nat_eq_self)

lemma nat_bits_val_of [simp]: "nat_bits (length bs) (val_of bs) = bs"
  by (rule val_of_inj) (simp_all add: val_of_lt)

lemma bits_of_of_nat: "n \<le> LENGTH('a) \<Longrightarrow> bits_of n (of_nat v :: 'a::len word) = nat_bits n v"
  by (rule nth_equalityI) (auto simp: nat_bits_def bit_simps)


lemma bit_high_unset:
  fixes x :: "'a::len word"
  assumes "unat x < 2 ^ n" and "n \<le> i"
  shows "\<not> bit x i"
proof -
  have "unat x < 2 ^ i" using assms by (meson less_le_trans one_le_numeral power_increasing)
  then have "\<not> bit (unat x) i" by (simp add: bit_iff_odd)
  then show ?thesis by (auto simp: bit_unsigned_iff)
qed


subsection \<open>Sequences of fields\<close>

text \<open>A field is a width and a value; \<open>fields_bits\<close> is what a sequence of fields looks like in the
  stream.\<close>

definition fields_bits :: "(nat \<times> u64) list \<Rightarrow> bool list" where
  "fields_bits fs = concat (map (\<lambda>(n, v). bits_of n v) fs)"

fun fields_ok :: "(nat \<times> u64) list \<Rightarrow> bool" where
  "fields_ok [] \<longleftrightarrow> True"
| "fields_ok ((n, v) # fs) \<longleftrightarrow> n \<le> 56 \<and> unat v < 2 ^ n \<and> fields_ok fs"

lemma fields_bits_Nil [simp]: "fields_bits [] = []"
  by (simp add: fields_bits_def)

lemma fields_bits_Cons [simp]: "fields_bits ((n, v) # fs) = bits_of n v @ fields_bits fs"
  by (simp add: fields_bits_def)

lemma length_fields_bits: "length (fields_bits fs) = sum_list (map fst fs)"
  by (induction fs) auto


subsection \<open>Little-endian loads and stores\<close>

fun le_load :: "byte list \<Rightarrow> u64" where
  "le_load [] = 0"
| "le_load (b # bs) = ucast b OR push_bit 8 (le_load bs)"

definition le_store :: "u64 \<Rightarrow> byte list" where
  "le_store v = map (\<lambda>j. ucast (drop_bit (8 * j) v)) [0..<8]"

lemma length_le_store [simp]: "length (le_store v) = 8"
  by (simp add: le_store_def)

lemma bit_le_load:
  "length bs \<le> 8 \<Longrightarrow> bit (le_load bs) k \<longleftrightarrow> k < 8 * length bs \<and> bytes_bits bs ! k"
proof (induction bs arbitrary: k)
  case Nil
  then show ?case by simp
next
  case (Cons b bs)
  have b: "bit b k \<Longrightarrow> k < 8" using bit_imp_le_length [of b k] by simp
  have IH: "bit (le_load bs) (k - 8) \<longleftrightarrow> k - 8 < 8 * length bs \<and> bytes_bits bs ! (k - 8)"
    using Cons by simp
  have k: "8 \<le> k \<Longrightarrow> k - 8 < 8 * length bs \<longleftrightarrow> k < 8 * length (b # bs)" by auto
  have "bit (le_load (b # bs)) k \<longleftrightarrow>
      k < 64 \<and> bit b k \<or> 8 \<le> k \<and> k < 64 \<and> bit (le_load bs) (k - 8)"
    by (auto simp: bit_or_iff bit_push_bit_iff bit_ucast_iff)
  also have "\<dots> \<longleftrightarrow> k < 8 * length (b # bs) \<and> bytes_bits (b # bs) ! k"
  proof (cases "k < 8")
    case True
    then show ?thesis by (simp add: nth_append)
  next
    case False
    with b IH k Cons.prems show ?thesis by (auto simp: nth_append)
  qed
  finally show ?case .
qed

lemma bytes_bits_le_store: "bytes_bits (le_store v) = bits_of 64 v"
proof (rule nth_equalityI)
  fix k assume "k < length (bytes_bits (le_store v))"
  then have k: "k < 64" by simp
  then have d: "k div 8 < 8" and m: "k mod 8 < 8" by linarith+
  have "bytes_bits (le_store v) ! k = bit (le_store v ! (k div 8)) (k mod 8)"
    using k by (simp add: nth_bytes_bits)
  also have "\<dots> = bit v (8 * (k div 8) + k mod 8)"
    unfolding le_store_def using d m by (simp only: length_map length_upt nth_map nth_upt bit_simps) simp
  also have "8 * (k div 8) + k mod 8 = k" by simp
  finally show "bytes_bits (le_store v) ! k = bits_of 64 v ! k" using k by simp
qed simp

lemma bytes_bits_overwrite:
  assumes "i + length ys \<le> length xs"
  shows "bytes_bits (overwrite xs i ys) = overwrite (bytes_bits xs) (8 * i) (bytes_bits ys)"
proof -
  have "8 * i + 8 * length ys = 8 * (i + length ys)" by simp
  then show ?thesis
    by (simp only: overwrite_def bytes_bits_append length_bytes_bits take_bytes_bits drop_bytes_bits)
qed


subsection \<open>Bit length, \<^verbatim>\<open>bits.Len\<close>\<close>

fun bits_Len :: "nat \<Rightarrow> nat" where
  "bits_Len n = (if n = 0 then 0 else Suc (bits_Len (n div 2)))"

declare bits_Len.simps [simp del]

lemma bits_Len_0 [simp]: "bits_Len 0 = 0"
  by (subst bits_Len.simps) simp

lemma bits_Len_pos: "0 < n \<Longrightarrow> bits_Len n = Suc (bits_Len (n div 2))"
  by (subst bits_Len.simps) simp

lemma bits_Len_le_iff: "bits_Len n \<le> k \<longleftrightarrow> n < 2 ^ k"
proof (induction n arbitrary: k rule: bits_Len.induct)
  case (1 n)
  show ?case
  proof (cases "n = 0")
    case False
    show ?thesis
    proof (cases k)
      case 0
      with False show ?thesis by (simp add: bits_Len_pos)
    next
      case (Suc j)
      have "n div 2 < 2 ^ j \<longleftrightarrow> n < 2 ^ Suc j" by auto
      with 1 [OF False] False Suc show ?thesis by (simp add: bits_Len_pos)
    qed
  qed simp
qed

lemma less_bits_Len_iff: "k < bits_Len n \<longleftrightarrow> 2 ^ k \<le> n"
  using bits_Len_le_iff [of n k] by auto

lemma bits_Len_eq_iff: "0 < n \<Longrightarrow> bits_Len n = Suc k \<longleftrightarrow> 2 ^ k \<le> n \<and> n < 2 ^ Suc k"
  using bits_Len_le_iff [of n "Suc k"] less_bits_Len_iff [of k n] by auto

lemma unat_of_nat64: "n < 2 ^ 64 \<Longrightarrow> unat (of_nat n :: u64) = n"
  by (simp add: unsigned_of_nat take_bit_nat_eq_self)

lemma fields_ok_append: "fields_ok (fs @ gs) \<longleftrightarrow> fields_ok fs \<and> fields_ok gs"
  by (induction fs rule: fields_ok.induct) auto

lemma bits_Len_split:
  assumes "n \<noteq> 0"
  shows "2 ^ (bits_Len n - 1) \<le> n" and "n < 2 * 2 ^ (bits_Len n - 1)"
proof -
  show "2 ^ (bits_Len n - 1) \<le> n"
    using assms less_bits_Len_iff [of "bits_Len n - 1" n] by (simp add: bits_Len_pos)
  have "n < 2 ^ bits_Len n" using bits_Len_le_iff [of n "bits_Len n"] by simp
  moreover have "bits_Len n = Suc (bits_Len n - 1)" using assms by (simp add: bits_Len_pos)
  ultimately show "n < 2 * 2 ^ (bits_Len n - 1)" by (metis power_Suc)
qed

lemma nat_bits_split: "nat_bits (m + k) w = nat_bits m (w mod 2 ^ m) @ nat_bits k (w div 2 ^ m)"
  by (rule nth_equalityI)
    (auto simp: nat_bits_def nth_append bit_take_bit_iff bit_drop_bit_eq
      simp flip: take_bit_eq_mod drop_bit_eq_div)


lemma or_disjoint_add:
  assumes "(x :: nat) < 2 ^ n" shows "2 ^ n * q OR x = 2 ^ n * q + x"
proof -
  have "push_bit n q + take_bit n x = push_bit n q OR take_bit n x"
    by (rule disjunctive_add) (auto simp: bit_simps)
  then show ?thesis using assms by (simp add: take_bit_nat_eq_self push_bit_eq_mult mult.commute)
qed

lemma or_less_exp: "(x :: nat) < 2 ^ n \<Longrightarrow> y < 2 ^ n \<Longrightarrow> x OR y < 2 ^ n"
  by (metis take_bit_nat_eq_self take_bit_nat_less_exp take_bit_or)

end
