(* ===== verification/Bit_Reader.thy ===== *)
theory Bit_Reader
  imports Prelude
begin

unbundle bit_operations_syntax

text \<open>
  The decoder's bit reader, \<^verbatim>\<open>bitreader.go\<close> with the checked loads of \<^verbatim>\<open>decode_mem_checked.go\<close>.
  The accumulator \<open>br_val\<close> holds \<open>br_bitPos\<close> unread bits; whole bytes are pulled from the input
  either one at a time (the safe path, which stops at the end of the input) or four and eight at a
  time (the fast path, guarded by \<open>checkInputAmount\<close>). The field \<^verbatim>\<open>inputBase\<close> is the unchecked
  build's pointer to the same input and has no counterpart.

  The abstraction \<open>br_bits\<close> is the bit string still to be read. The representation invariant
  \<open>br_inv\<close> says that the accumulator mirrors the input bytes before \<open>br_pos\<close>, so that they can be
  pushed back, and that bits above \<open>br_bitPos\<close> are either zero or the bits that come next, so that a
  refill may or them in again. The locale \<open>bit_source\<close> is the interface decoders rely on.
\<close>

record bitReader =
  br_input :: "byte list"
  br_pos :: int
  br_val :: u64
  br_bitPos :: nat
  br_inputLen :: int
  br_fastEnd :: int

definition fastInputSlack :: int where
  "fastInputSlack = 32"

record bitReaderState =
  brs_pos :: int
  brs_val :: u64
  brs_bitPos :: nat

definition load32 :: "byte list \<Rightarrow> int \<Rightarrow> u64 option" where
  "load32 b i = map_option le_load (go_slice b i (i + 4))"

definition load64 :: "byte list \<Rightarrow> int \<Rightarrow> u64 option" where
  "load64 b i = map_option le_load (go_slice b i (i + 8))"

definition bitMask :: "nat \<Rightarrow> u64" where
  "bitMask n = push_bit (n mod 64) 1 - 1"

definition br_init :: "bitReader \<Rightarrow> bitReader" where
  "br_init br = br\<lparr>br_val := 0, br_bitPos := 0, br_input := [], br_inputLen := 0, br_pos := 0,
     br_fastEnd := -1\<rparr>"

definition setInput :: "byte list \<Rightarrow> bitReader \<Rightarrow> bitReader" where
  "setInput data br = br\<lparr>br_input := data, br_inputLen := int (length data), br_pos := 0,
     br_fastEnd := int (length data) - fastInputSlack\<rparr>"

definition pullByte :: "bitReader \<Rightarrow> (bool \<times> bitReader) option" where
  "pullByte br = (if br_pos br \<ge> br_inputLen br then Some (False, br) else do {
     x \<leftarrow> go_index (br_input br) (br_pos br);
     Some (True, br\<lparr>br_val := br_val br OR push_bit (br_bitPos br) (ucast x),
                   br_bitPos := uadd (br_bitPos br) 8, br_pos := br_pos br + 1\<rparr>) })"

definition warmup :: "bitReader \<Rightarrow> (bool \<times> bitReader) option" where
  "warmup br = (if br_bitPos br = 0 then pullByte (br\<lparr>br_val := 0\<rparr>) else Some (True, br))"

definition saveState :: "bitReader \<Rightarrow> bitReaderState" where
  "saveState br = \<lparr>brs_pos = br_pos br, brs_val = br_val br, brs_bitPos = br_bitPos br\<rparr>"

definition restoreState :: "bitReaderState \<Rightarrow> bitReader \<Rightarrow> bitReader" where
  "restoreState s br = br\<lparr>br_pos := brs_pos s, br_val := brs_val s, br_bitPos := brs_bitPos s\<rparr>"

definition availIn :: "bitReader \<Rightarrow> int" where
  "availIn br = br_inputLen br - br_pos br"

definition availBits :: "bitReader \<Rightarrow> nat" where
  "availBits br = br_bitPos br"

definition remainingBytes :: "bitReader \<Rightarrow> int" where
  "remainingBytes br = (let avail = availIn br in
     if avail > 2 ^ 30 then 2 ^ 30 else avail + int (br_bitPos br div 8))"

definition checkInputAmount :: "bitReader \<Rightarrow> bool" where
  "checkInputAmount br \<longleftrightarrow> br_pos br \<le> br_fastEnd br"

definition checkInputAmountAndBits :: "nat \<Rightarrow> bitReader \<Rightarrow> bool" where
  "checkInputAmountAndBits n br \<longleftrightarrow>
     (br_fastEnd br - br_pos br) OR (int (br_bitPos br) - int n) \<ge> 0"

definition fillBitWindow :: "bitReader \<Rightarrow> bitReader option" where
  "fillBitWindow br = (if br_bitPos br < 32 then do {
     x \<leftarrow> load32 (br_input br) (br_pos br);
     Some (br\<lparr>br_val := br_val br OR push_bit (br_bitPos br) x,
             br_bitPos := uadd (br_bitPos br) 32, br_pos := br_pos br + 4\<rparr>) }
     else Some br)"

text \<open>\<^verbatim>\<open>refill64\<close> works on the caller's copies of \<open>br_val\<close> and \<open>br_bitPos\<close> and returns them;
  \<open>bitPos | 56\<close> is the bitwise or.\<close>

definition refill64 :: "u64 \<Rightarrow> nat \<Rightarrow> bitReader \<Rightarrow> (u64 \<times> nat \<times> bitReader) option" where
  "refill64 v bp br = do {
     x \<leftarrow> load64 (br_input br) (br_pos br);
     Some (v OR push_bit (bp mod 64) x, bp OR 56,
           br\<lparr>br_pos := br_pos br + int (usub 63 bp div 8)\<rparr>) }"

definition bitsUnmasked :: "bitReader \<Rightarrow> u64" where
  "bitsUnmasked br = br_val br"

definition dropBits :: "nat \<Rightarrow> bitReader \<Rightarrow> bitReader" where
  "dropBits n br = br\<lparr>br_bitPos := usub (br_bitPos br) n, br_val := drop_bit (n mod 64) (br_val br)\<rparr>"

definition takeBits :: "nat \<Rightarrow> bitReader \<Rightarrow> u64 \<times> bitReader" where
  "takeBits n br = (br_val br AND bitMask n, dropBits n br)"

definition getBits :: "nat \<Rightarrow> bitReader \<Rightarrow> (u64 \<times> bitReader) option" where
  "getBits n br = do { br \<leftarrow> fillBitWindow br; Some (br_val br AND bitMask n, br) }"

definition readBits :: "nat \<Rightarrow> bitReader \<Rightarrow> (u64 \<times> bitReader) option" where
  "readBits n br = do { br \<leftarrow> fillBitWindow br; Some (takeBits n br) }"

definition readBits32 :: "nat \<Rightarrow> bitReader \<Rightarrow> (u64 \<times> bitReader) option" where
  "readBits32 n br = do { br \<leftarrow> fillBitWindow br; Some (takeBits n br) }"

text \<open>The loop \<^verbatim>\<open>for br.bitPos < n { if !br.pullByte() {...} }\<close>. Each round either stops or moves
  \<open>br_pos\<close> towards \<open>br_inputLen\<close>, which is the termination measure.\<close>

function pullUntil :: "nat \<Rightarrow> bitReader \<Rightarrow> (bool \<times> bitReader) option" where
  "pullUntil n br = (if br_bitPos br < n
     then (case pullByte br of
             None \<Rightarrow> None
           | Some (False, br') \<Rightarrow> Some (False, br')
           | Some (True, br') \<Rightarrow> pullUntil n br')
     else Some (True, br))"
  by pat_completeness auto
termination
proof (relation "measure (\<lambda>(n, br). nat (br_inputLen br - br_pos br))", goal_cases)
  case (2 n br p b br')
  then show ?case by (auto simp: pullByte_def split: if_splits bind_splits)
qed simp

declare pullUntil.simps [simp del]

definition safeGetBits :: "nat \<Rightarrow> bitReader \<Rightarrow> (u64 option \<times> bitReader) option" where
  "safeGetBits n br = do { (ok, br) \<leftarrow> pullUntil n br;
     Some (if ok then (Some (br_val br AND bitMask n), br) else (None, br)) }"

definition safeReadBits :: "nat \<Rightarrow> bitReader \<Rightarrow> (u64 option \<times> bitReader) option" where
  "safeReadBits n br = do { (ok, br) \<leftarrow> pullUntil n br;
     Some (if ok then (case takeBits n br of (v, br) \<Rightarrow> (Some v, br)) else (None, br)) }"

definition safeReadBits32Slow :: "nat \<Rightarrow> bitReader \<Rightarrow> (u64 option \<times> bitReader) option" where
  "safeReadBits32Slow n br = (let memento = saveState br in do {
     (lo, br) \<leftarrow> safeReadBits 16 br;
     case lo of None \<Rightarrow> Some (None, restoreState memento br)
     | Some lowVal \<Rightarrow> do {
         (hi, br) \<leftarrow> safeReadBits (usub n 16) br;
         case hi of None \<Rightarrow> Some (None, restoreState memento br)
         | Some highVal \<Rightarrow> Some (Some (lowVal OR push_bit 16 highVal), br) } })"

definition safeReadBits32 :: "nat \<Rightarrow> bitReader \<Rightarrow> (u64 option \<times> bitReader) option" where
  "safeReadBits32 n br = (if n \<le> 24 then safeReadBits n br else safeReadBits32Slow n br)"

definition normalize :: "bitReader \<Rightarrow> bitReader" where
  "normalize br = (if br_bitPos br < 64 then br\<lparr>br_val := br_val br AND bitMask (br_bitPos br)\<rparr> else br)"

definition unload :: "bitReader \<Rightarrow> bitReader" where
  "unload br = (let unusedBytes = br_bitPos br div 8; unusedBits = unusedBytes * 8;
     br = (if unusedBytes > 0 then br\<lparr>br_pos := br_pos br - int unusedBytes\<rparr> else br) in
     normalize (br\<lparr>br_bitPos := usub (br_bitPos br) unusedBits\<rparr>))"

definition jumpToByteBoundary :: "bitReader \<Rightarrow> bool \<times> bitReader" where
  "jumpToByteBoundary br = (let padBitsCount = br_bitPos br mod 8;
     (padBits, br) = (if padBitsCount \<noteq> 0 then takeBits padBitsCount br else (0, br)) in
     (padBits = 0, normalize br))"

definition dropBytes :: "int \<Rightarrow> bitReader \<Rightarrow> bitReader" where
  "dropBytes n br = br\<lparr>br_pos := br_pos br + n\<rparr>"

text \<open>\<^verbatim>\<open>copyBytes\<close>: first the whole bytes of the accumulator, then the input. The destination is the
  list of bytes returned.\<close>

fun copyBytesAcc :: "nat \<Rightarrow> bitReader \<Rightarrow> byte list \<times> bitReader" where
  "copyBytesAcc 0 br = ([], br)"
| "copyBytesAcc (Suc n) br = (if 8 \<le> br_bitPos br
     then (case copyBytesAcc n (dropBits 8 br) of (bs, br') \<Rightarrow> (ucast (br_val br) # bs, br'))
     else ([], br))"

definition copyBytes :: "nat \<Rightarrow> bitReader \<Rightarrow> (byte list \<times> bitReader) option" where
  "copyBytes num br = (case copyBytesAcc num br of (bs, br) \<Rightarrow>
     let br = normalize br; i = length bs in
     if i < num then do {
       xs \<leftarrow> go_slice (br_input br) (br_pos br) (br_pos br + int (num - i));
       Some (bs @ xs, br\<lparr>br_pos := br_pos br + int (num - i)\<rparr>) }
     else Some (bs, br))"


subsection \<open>The bits to be read and the representation invariant\<close>

definition br_bits :: "bitReader \<Rightarrow> bool list" where
  "br_bits br = bits_of (br_bitPos br) (br_val br) @ bytes_bits (drop (nat (br_pos br)) (br_input br))"

text \<open>\<open>acc_ok ib bp v p\<close>: bit \<open>i\<close> of the accumulator \<open>v\<close> stands for bit \<open>8 p + i - bp\<close> of the input;
  it must be that bit when it is valid (\<open>i < bp\<close>), and may be that bit or zero when it is not. Bits
  with \<open>8 p + i < bp\<close> were loaded from an earlier input buffer.\<close>

definition acc_ok :: "bool list \<Rightarrow> nat \<Rightarrow> u64 \<Rightarrow> nat \<Rightarrow> bool" where
  "acc_ok ib bp v p \<longleftrightarrow> (\<forall>i<64. bp \<le> 8 * p + i \<longrightarrow>
     (if i < bp then bit v i = ib ! (8 * p + i - bp)
      else bit v i \<longrightarrow> 8 * p + i - bp < length ib \<and> ib ! (8 * p + i - bp)))"

definition br_inv :: "bitReader \<Rightarrow> bool" where
  "br_inv br \<longleftrightarrow> br_inputLen br = int (length (br_input br)) \<and>
     0 \<le> br_pos br \<and> br_pos br \<le> br_inputLen br \<and> br_bitPos br \<le> 64 \<and>
     br_bitPos br \<le> 8 * nat (br_pos br) + 7 \<and>
     acc_ok (bytes_bits (br_input br)) (br_bitPos br) (br_val br) (nat (br_pos br))"

lemma acc_okI:
  assumes "\<And>i. i < 64 \<Longrightarrow> bp \<le> 8 * p + i \<Longrightarrow> i < bp \<Longrightarrow> bit v i = ib ! (8 * p + i - bp)"
    and "\<And>i. i < 64 \<Longrightarrow> bp \<le> i \<Longrightarrow> bit v i \<Longrightarrow> 8 * p + i - bp < length ib \<and> ib ! (8 * p + i - bp)"
  shows "acc_ok ib bp v p"
  using assms by (auto simp: acc_ok_def)

lemma acc_okD:
  assumes "acc_ok ib bp v p" and "i < 64" and "bp \<le> 8 * p + i"
  shows "i < bp \<Longrightarrow> bit v i = ib ! (8 * p + i - bp)"
    and "bp \<le> i \<Longrightarrow> bit v i \<Longrightarrow> 8 * p + i - bp < length ib \<and> ib ! (8 * p + i - bp)"
  using assms by (auto simp: acc_ok_def)

text \<open>The precondition of the fast path: \<open>setInput\<close> has been called.\<close>

definition br_ready :: "bitReader \<Rightarrow> bool" where
  "br_ready br \<longleftrightarrow> br_fastEnd br = br_inputLen br - fastInputSlack"

lemma acc_ok_refill:
  assumes ok: "acc_ok ib bp v p" and bp: "bp + 8 * d \<le> 64" and d: "d \<le> m"
    and X: "\<And>j. j < 64 \<Longrightarrow> bit X j \<longleftrightarrow> j < 8 * m \<and> ib ! (8 * p + j)" and len: "8 * (p + m) \<le> length ib"
  shows "acc_ok ib (bp + 8 * d) (v OR push_bit bp X) (p + d)"
    and "bits_of (bp + 8 * d) (v OR push_bit bp X) = bits_of bp v @ take (8 * d) (drop (8 * p) ib)"
proof -
  have V: "bit (v OR push_bit bp X) i \<longleftrightarrow> bit v i \<or> bp \<le> i \<and> i - bp < 8 * m \<and> ib ! (8 * p + (i - bp))"
    if "i < 64" for i
    using that X [of "i - bp"] by (auto simp: bit_or_iff bit_push_bit_iff)
  have low: "bit v i \<longrightarrow> ib ! (8 * p + (i - bp))" if "i < 64" "bp \<le> i" for i
    using ok that by (auto simp: acc_ok_def)
  show "acc_ok ib (bp + 8 * d) (v OR push_bit bp X) (p + d)"
    unfolding acc_ok_def
  proof (intro allI impI)
    fix i assume i: "i < 64" "bp + 8 * d \<le> 8 * (p + d) + i"
    have k: "8 * (p + d) + i - (bp + 8 * d) = 8 * p + i - bp" by simp
    have pre: "bp \<le> 8 * p + i" using i by simp
    show "if i < bp + 8 * d then bit (v OR push_bit bp X) i = ib ! (8 * (p + d) + i - (bp + 8 * d))
      else bit (v OR push_bit bp X) i \<longrightarrow> 8 * (p + d) + i - (bp + 8 * d) < length ib \<and>
           ib ! (8 * (p + d) + i - (bp + 8 * d))"
      unfolding k
    proof (cases "i < bp")
      case True
      with ok i(1) pre V [OF i(1)]
      show "if i < bp + 8 * d then bit (v OR push_bit bp X) i = ib ! (8 * p + i - bp)
        else bit (v OR push_bit bp X) i \<longrightarrow> 8 * p + i - bp < length ib \<and> ib ! (8 * p + i - bp)"
        by (auto simp: acc_ok_def)
    next
      case False
      then have e: "8 * p + i - bp = 8 * p + (i - bp)" by simp
      have "bit v i \<longrightarrow> 8 * p + (i - bp) < length ib"
        using ok i(1) pre False e by (auto simp: acc_ok_def)
      with low [OF i(1)] V [OF i(1)] False d len
      show "if i < bp + 8 * d then bit (v OR push_bit bp X) i = ib ! (8 * p + i - bp)
        else bit (v OR push_bit bp X) i \<longrightarrow> 8 * p + i - bp < length ib \<and> ib ! (8 * p + i - bp)"
        unfolding e by auto
    qed
  qed
  show "bits_of (bp + 8 * d) (v OR push_bit bp X) = bits_of bp v @ take (8 * d) (drop (8 * p) ib)"
  proof (rule nth_equalityI)
    show "length (bits_of (bp + 8 * d) (v OR push_bit bp X)) =
        length (bits_of bp v @ take (8 * d) (drop (8 * p) ib))"
      using len d by simp
    fix i assume "i < length (bits_of (bp + 8 * d) (v OR push_bit bp X))"
    then have i: "i < bp + 8 * d" "i < 64" using bp by simp_all
    with V [OF i(2)] low [OF i(2)] d len
    show "bits_of (bp + 8 * d) (v OR push_bit bp X) ! i =
        (bits_of bp v @ take (8 * d) (drop (8 * p) ib)) ! i"
      by (auto simp: nth_append)
  qed
qed

text \<open>What a load of \<open>m\<close> bytes returns.\<close>

lemma load_bits:
  assumes "p + m \<le> length b" and "m \<le> 8" and "j < 64"
  shows "bit (le_load (take m (drop p b))) j \<longleftrightarrow> j < 8 * m \<and> bytes_bits b ! (8 * p + j)"
proof -
  have "length (take m (drop p b)) = m" using assms by simp
  moreover have "bytes_bits (take m (drop p b)) ! j = bytes_bits b ! (8 * p + j)" if "j < 8 * m"
    using that assms by (simp flip: take_bytes_bits drop_bytes_bits)
  ultimately show ?thesis using bit_le_load [of "take m (drop p b)" j] assms(2) by auto
qed

text \<open>One refill of \<open>m\<close> loaded bytes of which \<open>d\<close> are consumed: it moves bits from the input to the
  accumulator and leaves the stream as it was.\<close>

lemma refill_stream:
  assumes inv: "br_inv br" and p: "br_pos br = int p" and load: "p + m \<le> length (br_input br)" "m \<le> 8"
    and d: "d \<le> m" "br_bitPos br + 8 * d \<le> 64"
  defines "br' \<equiv> br\<lparr>br_val := br_val br OR push_bit (br_bitPos br) (le_load (take m (drop p (br_input br)))),
      br_bitPos := br_bitPos br + 8 * d, br_pos := int (p + d)\<rparr>"
  shows "br_inv br'" and "br_bits br' = br_bits br"
proof -
  let ?ib = "bytes_bits (br_input br)" and ?X = "le_load (take m (drop p (br_input br)))"
  have ok: "acc_ok ?ib (br_bitPos br) (br_val br) p" using inv p by (simp add: br_inv_def)
  have X: "\<And>j. j < 64 \<Longrightarrow> bit ?X j \<longleftrightarrow> j < 8 * m \<and> ?ib ! (8 * p + j)"
    using load by (intro load_bits)
  have len: "8 * (p + m) \<le> length ?ib" using load by simp
  note r = acc_ok_refill [OF ok d(2,1) X len]
  show "br_inv br'" using r(1) inv load d p by (auto simp: br_inv_def br'_def nat_add_distrib)
  have "take (8 * d) (drop (8 * p) ?ib) @ bytes_bits (drop (p + d) (br_input br)) =
      bytes_bits (drop p (br_input br))"
  proof -
    have "bytes_bits (drop (p + d) (br_input br)) = drop (8 * d) (drop (8 * p) ?ib)"
      by (simp add: drop_bytes_bits add.commute)
    then show ?thesis by (simp only: append_take_drop_id drop_bytes_bits [symmetric])
  qed
  then show "br_bits br' = br_bits br" using r(2) p by (simp add: br_bits_def br'_def nat_add_distrib)
qed


subsection \<open>Masks, normalization, taking bits\<close>

lemma bit_bitMask: "j < 64 \<Longrightarrow> bit (bitMask n) j \<longleftrightarrow> j < n mod 64"
  unfolding bitMask_def push_bit_of_1 mask_eq_exp_minus_1 [symmetric] by (simp add: bit_mask_iff)

lemma and_bitMask: "n < 64 \<Longrightarrow> v AND bitMask n = take_bit n v"
  by (rule bit_word_eqI) (auto simp: bit_and_iff bit_bitMask bit_take_bit_iff)

lemma unat_and_bitMask: "n < 64 \<Longrightarrow> unat (v AND bitMask n) = val_of (bits_of n v)"
  by (simp add: and_bitMask val_of_bits_of)

lemma br_invD:
  assumes "br_inv br"
  shows "br_inputLen br = int (length (br_input br))" "0 \<le> br_pos br"
    "br_pos br \<le> int (length (br_input br))" "br_bitPos br \<le> 64"
    "nat (br_pos br) \<le> length (br_input br)"
    "br_pos br = int (nat (br_pos br))" "br_bitPos br \<le> 8 * nat (br_pos br) + 7"
  using assms by (auto simp: br_inv_def)

lemma acc_ok_mask: "bp < 64 \<Longrightarrow> acc_ok ib bp v p \<Longrightarrow> acc_ok ib bp (v AND bitMask bp) p"
proof (rule acc_okI)
  fix i :: nat assume a: "bp < 64" "acc_ok ib bp v p" "i < 64"
  have m: "bit (v AND bitMask bp) i \<longleftrightarrow> bit v i \<and> i < bp"
    using a by (simp add: bit_and_iff bit_bitMask)
  show "bp \<le> 8 * p + i \<Longrightarrow> i < bp \<Longrightarrow> bit (v AND bitMask bp) i = ib ! (8 * p + i - bp)"
    using acc_okD(1) [OF a(2,3)] m by simp
  show "bp \<le> i \<Longrightarrow> bit (v AND bitMask bp) i \<Longrightarrow> 8 * p + i - bp < length ib \<and> ib ! (8 * p + i - bp)"
    using m by simp
qed

lemma bits_of_mask: "n < 64 \<Longrightarrow> bits_of n (v AND bitMask n) = bits_of n v"
  by (rule nth_equalityI) (simp_all add: bit_and_iff bit_bitMask)

lemma normalize_ok [inv_intros, stream_simps]:
  assumes "br_inv br"
  shows "br_inv (normalize br)" and "br_bits (normalize br) = br_bits br"
  using assms acc_ok_mask [of "br_bitPos br" "bytes_bits (br_input br)" "br_val br" "nat (br_pos br)"]
  by (simp_all add: normalize_def br_inv_def br_bits_def bits_of_mask)

lemma normalize_fields [simp]:
  "br_pos (normalize br) = br_pos br" "br_bitPos (normalize br) = br_bitPos br"
  "br_input (normalize br) = br_input br" "br_inputLen (normalize br) = br_inputLen br"
  "br_fastEnd (normalize br) = br_fastEnd br"
  by (simp_all add: normalize_def)

lemma bit_normalize:
  "i < 64 \<Longrightarrow> bit (br_val (normalize br)) i \<Longrightarrow> br_bitPos br \<le> 64 \<Longrightarrow> i < br_bitPos br"
  by (auto simp: normalize_def bit_and_iff bit_bitMask split: if_splits)

lemma acc_ok_drop:
  assumes ok: "acc_ok ib bp v p" and n: "n \<le> bp" "n < 64" and bp: "bp \<le> 64"
  shows "acc_ok ib (bp - n) (drop_bit n v) p"
proof (rule acc_okI)
  fix i :: nat assume i: "i < 64"
  have e: "8 * p + (n + i) - bp = 8 * p + i - (bp - n)" using n by simp
  show "bit (drop_bit n v) i = ib ! (8 * p + i - (bp - n))" if "bp - n \<le> 8 * p + i" "i < bp - n"
    using acc_okD(1) [OF ok, of "n + i"] that bp e by (simp add: bit_drop_bit_eq)
  show "8 * p + i - (bp - n) < length ib \<and> ib ! (8 * p + i - (bp - n))"
    if "bp - n \<le> i" "bit (drop_bit n v) i"
  proof -
    have b: "bit v (n + i)" using that by (simp add: bit_drop_bit_eq)
    then have "n + i < 64" using bit_imp_le_length [of v "n + i"] by simp
    with acc_okD(2) [OF ok, of "n + i"] that n b e show ?thesis by simp
  qed
qed

lemma dropBits_ok:
  assumes inv: "br_inv br" and n: "n \<le> br_bitPos br" "n < 64"
  shows "br_inv (dropBits n br)" and "br_bits (dropBits n br) = drop n (br_bits br)"
    and "br_bitPos (dropBits n br) = br_bitPos br - n"
proof -
  let ?p = "nat (br_pos br)" and ?ib = "bytes_bits (br_input br)"
  have bp: "br_bitPos br \<le> 64" using br_invD [OF inv] by simp
  then have lt: "br_bitPos br < 2 ^ 64" by (simp add: order_le_less_trans)
  show bp': "br_bitPos (dropBits n br) = br_bitPos br - n" using n lt by (simp add: dropBits_def)
  have ok: "acc_ok ?ib (br_bitPos br) (br_val br) ?p" using inv by (simp add: br_inv_def)
  have "acc_ok ?ib (br_bitPos br - n) (drop_bit n (br_val br)) ?p"
    using ok n bp by (rule acc_ok_drop)
  then show "br_inv (dropBits n br)"
    using inv n lt by (auto simp: br_inv_def dropBits_def)
  show "br_bits (dropBits n br) = drop n (br_bits br)"
    using n lt by (simp add: br_bits_def dropBits_def drop_bits_of)
qed

lemma dropBits_fields [simp]:
  "br_pos (dropBits n br) = br_pos br" "br_input (dropBits n br) = br_input br"
  "br_inputLen (dropBits n br) = br_inputLen br" "br_fastEnd (dropBits n br) = br_fastEnd br"
  by (simp_all add: dropBits_def)

lemma length_br_bits: "br_bitPos br \<le> length (br_bits br)"
  by (simp add: br_bits_def)

lemma takeBits_ok:
  assumes "br_inv br" "n \<le> br_bitPos br" "n < 64"
  shows "unat (fst (takeBits n br)) = val_of (take n (br_bits br))"
    and "br_inv (snd (takeBits n br))" and "br_bits (snd (takeBits n br)) = drop n (br_bits br)"
  using assms dropBits_ok [OF assms]
  by (simp_all add: takeBits_def unat_and_bitMask br_bits_def take_bits_of)


subsection \<open>The safe path\<close>

lemma pullByte_True:
  assumes inv: "br_inv br" and bp: "br_bitPos br \<le> 56" and more: "br_pos br < br_inputLen br"
  obtains br' where "pullByte br = Some (True, br')" "br_inv br'" "br_bits br' = br_bits br"
    "br_bitPos br' = br_bitPos br + 8" "br_pos br' = br_pos br + 1"
    "br_input br' = br_input br" "br_inputLen br' = br_inputLen br" "br_fastEnd br' = br_fastEnd br"
proof -
  define p where "p = nat (br_pos br)"
  have p: "br_pos br = int p" using br_invD [OF inv] by (simp add: p_def)
  have lt: "p < length (br_input br)" using more p br_invD(1) [OF inv] by simp
  then have "take 1 (drop p (br_input br)) = [br_input br ! p]"
    by (simp add: take_Suc_conv_app_nth take_Suc hd_drop_conv_nth)
  then have X: "le_load (take 1 (drop p (br_input br))) = ucast (br_input br ! p)" by simp
  have "br_bitPos br + 8 < 2 ^ 64" using bp by (simp add: order_le_less_trans)
  then have "pullByte br = Some (True, br\<lparr>br_val := br_val br OR push_bit (br_bitPos br)
        (le_load (take 1 (drop p (br_input br)))), br_bitPos := br_bitPos br + 8 * 1,
        br_pos := int (p + 1)\<rparr>)"
    using more lt unfolding X by (simp add: pullByte_def go_index_def p)
  moreover have "p + 1 \<le> length (br_input br)" "br_bitPos br + 8 * 1 \<le> 64" using lt bp by simp_all
  note refill_stream [OF inv p this(1) _ order_refl this(2)]
  ultimately show thesis using that p by simp
qed

lemma pullByte_False: "br_inputLen br \<le> br_pos br \<Longrightarrow> pullByte br = Some (False, br)"
  by (simp add: pullByte_def)

lemma pullUntil_ok:
  assumes "br_inv br" and "n \<le> 57"
  shows "\<exists>br'. pullUntil n br = Some (n \<le> length (br_bits br), br') \<and> br_inv br' \<and>
     br_bits br' = br_bits br \<and> (n \<le> length (br_bits br) \<longrightarrow> n \<le> br_bitPos br') \<and>
     br_input br' = br_input br \<and> br_inputLen br' = br_inputLen br \<and> br_fastEnd br' = br_fastEnd br"
  using assms
proof (induction n br rule: pullUntil.induct)
  case (1 n br)
  show ?case
  proof (cases "br_bitPos br < n")
    case False
    with length_br_bits [of br] 1 show ?thesis by (subst pullUntil.simps) auto
  next
    case lt: True
    show ?thesis
    proof (cases "br_pos br < br_inputLen br")
      case True
      from lt 1 have "br_bitPos br \<le> 56" by simp
      from pullByte_True [OF 1(2) this True] obtain br1 where
        b1: "pullByte br = Some (True, br1)" "br_inv br1" "br_bits br1 = br_bits br"
        "br_input br1 = br_input br" "br_inputLen br1 = br_inputLen br" "br_fastEnd br1 = br_fastEnd br"
        by metis
      from 1(1) [OF lt b1(1) refl _ b1(2) 1(3)] b1 lt show ?thesis
        by (subst pullUntil.simps) simp
    next
      case False
      then have d: "nat (br_pos br) = length (br_input br)" using br_invD [OF 1(2)] by simp
      then have "length (br_bits br) = br_bitPos br" by (simp add: br_bits_def)
      with False lt 1 show ?thesis by (subst pullUntil.simps) (simp add: pullByte_False)
    qed
  qed
qed

text \<open>\<open>safeReadBits n\<close> reads the next \<open>n\<close> bits, or consumes nothing of the stream when fewer are
  left (the bytes it pulled stay in the accumulator).\<close>

lemma safeReadBits_ok:
  assumes inv: "br_inv br" and n: "n \<le> 57"
  shows "\<exists>br' r. safeReadBits n br = Some (r, br') \<and> br_inv br' \<and>
     (if n \<le> length (br_bits br)
      then map_option unat r = Some (val_of (take n (br_bits br))) \<and> br_bits br' = drop n (br_bits br)
      else r = None \<and> br_bits br' = br_bits br) \<and>
     br_input br' = br_input br \<and> br_inputLen br' = br_inputLen br \<and> br_fastEnd br' = br_fastEnd br"
proof -
  from pullUntil_ok [OF inv n] obtain br1 where b1: "pullUntil n br = Some (n \<le> length (br_bits br), br1)"
    "br_inv br1" "br_bits br1 = br_bits br" "n \<le> length (br_bits br) \<longrightarrow> n \<le> br_bitPos br1"
    "br_input br1 = br_input br" "br_inputLen br1 = br_inputLen br" "br_fastEnd br1 = br_fastEnd br"
    by blast
  show ?thesis
  proof (cases "n \<le> length (br_bits br)")
    case True
    then have "n \<le> br_bitPos br1" "n < 64" using b1 n by auto
    from takeBits_ok [OF b1(2) this] b1 True show ?thesis
      by (simp add: safeReadBits_def takeBits_def)
  next
    case False
    with b1 show ?thesis by (simp add: safeReadBits_def)
  qed
qed

lemma safeGetBits_ok:
  assumes inv: "br_inv br" and n: "n \<le> 57"
  shows "\<exists>br' r. safeGetBits n br = Some (r, br') \<and> br_inv br' \<and> br_bits br' = br_bits br \<and>
     (if n \<le> length (br_bits br)
      then map_option unat r = Some (val_of (take n (br_bits br))) \<and> n \<le> br_bitPos br' else r = None) \<and>
     br_input br' = br_input br \<and> br_inputLen br' = br_inputLen br \<and> br_fastEnd br' = br_fastEnd br"
proof -
  from pullUntil_ok [OF inv n] obtain br1 where b1: "pullUntil n br = Some (n \<le> length (br_bits br), br1)"
    "br_inv br1" "br_bits br1 = br_bits br" "n \<le> length (br_bits br) \<longrightarrow> n \<le> br_bitPos br1"
    "br_input br1 = br_input br" "br_inputLen br1 = br_inputLen br" "br_fastEnd br1 = br_fastEnd br"
    by blast
  have "take n (br_bits br) = bits_of n (br_val br1)" if "n \<le> length (br_bits br)"
    using that b1(4) unfolding b1(3) [symmetric] by (simp add: br_bits_def take_bits_of)
  with b1 n show ?thesis by (auto simp: safeGetBits_def unat_and_bitMask)
qed

lemma val_of_bits_of_exact: "unat v < 2 ^ n \<Longrightarrow> val_of (bits_of n v) = unat v"
  by (simp add: val_of_bits_of unsigned_take_bit_eq take_bit_nat_eq_self)


subsection \<open>The interface of a bit source\<close>

fun get_fields :: "(nat \<Rightarrow> 'r \<Rightarrow> (u64 option \<times> 'r) option) \<Rightarrow> nat list \<Rightarrow> 'r \<Rightarrow> (u64 list option \<times> 'r) option" where
  "get_fields get [] r = Some (Some [], r)"
| "get_fields get (n # ns) r = do { (x, r) \<leftarrow> get n r;
     case x of None \<Rightarrow> Some (None, r)
     | Some v \<Rightarrow> do { (xs, r) \<leftarrow> get_fields get ns r; Some (map_option (Cons v) xs, r) } }"

locale bit_source =
  fixes get :: "nat \<Rightarrow> 'r \<Rightarrow> (u64 option \<times> 'r) option"
    and bits :: "'r \<Rightarrow> bool list"
    and inv :: "'r \<Rightarrow> bool"
    and width :: nat
  assumes get_ok: "inv r \<Longrightarrow> n \<le> width \<Longrightarrow> \<exists>x r'. get n r = Some (x, r') \<and> inv r' \<and>
     (if n \<le> length (bits r)
      then map_option unat x = Some (val_of (take n (bits r))) \<and> bits r' = drop n (bits r)
      else x = None \<and> bits r' = bits r)"
begin

lemma get_field:
  assumes "inv r" and "n \<le> width" and "bits r = bits_of n v @ rest" and "unat v < 2 ^ n"
  obtains r' where "get n r = Some (Some v, r')" "inv r'" "bits r' = rest"
proof -
  from get_ok [OF assms(1,2)] obtain x r' where r': "get n r = Some (x, r')" "inv r'"
    "map_option unat x = Some (val_of (take n (bits r)))" "bits r' = drop n (bits r)"
    using assms(3) by auto
  then have "map_option unat x = Some (unat v)"
    using assms(3,4) by (simp add: val_of_bits_of_exact)
  then have "x = Some v" by (auto simp: word_unat_eq_iff)
  with r' that assms(3) show thesis by simp
qed

text \<open>A bit source recovers the fields that a bit sink appended.\<close>

lemma get_fields_ok:
  "inv r \<Longrightarrow> fields_ok fs \<Longrightarrow> (\<forall>(n, v) \<in> set fs. n \<le> width) \<Longrightarrow> bits r = fields_bits fs @ rest \<Longrightarrow>
    \<exists>r'. get_fields get (map fst fs) r = Some (Some (map snd fs), r') \<and> inv r' \<and> bits r' = rest"
proof (induction fs arbitrary: r)
  case Nil
  then show ?case by simp
next
  case (Cons f fs)
  obtain n v where f: "f = (n, v)" by force
  with Cons.prems have "inv r" "n \<le> width" "bits r = bits_of n v @ (fields_bits fs @ rest)"
    "unat v < 2 ^ n" by auto
  then obtain r1 where r1: "get n r = Some (Some v, r1)" "inv r1" "bits r1 = fields_bits fs @ rest"
    by (rule get_field)
  with Cons.IH [of r1] Cons.prems f show ?case by auto
qed

lemma get_short:
  assumes "inv r" and "n \<le> width" and "length (bits r) < n"
  obtains r' where "get n r = Some (None, r')" "inv r'" "bits r' = bits r"
  using get_ok [OF assms(1,2)] assms(3) that by auto

end

interpretation safe_source: bit_source safeReadBits br_bits br_inv 57
proof
  fix r :: bitReader and n :: nat
  assume "br_inv r" "n \<le> 57"
  from safeReadBits_ok [OF this] show "\<exists>x r'. safeReadBits n r = Some (x, r') \<and> br_inv r' \<and>
     (if n \<le> length (br_bits r)
      then map_option unat x = Some (val_of (take n (br_bits r))) \<and> br_bits r' = drop n (br_bits r)
      else x = None \<and> br_bits r' = br_bits r)" by blast
qed

lemma restoreState_saveState:
  "br_input br' = br_input br \<Longrightarrow> br_inputLen br' = br_inputLen br \<Longrightarrow> br_fastEnd br' = br_fastEnd br \<Longrightarrow>
   restoreState (saveState br) br' = br"
  by (cases br; cases br') (simp add: restoreState_def saveState_def)

lemma or_shifted:
  fixes a b :: u64
  assumes "unat a < 2 ^ 16" and "unat b < 2 ^ 48"
  shows "unat (a OR push_bit 16 b) = unat a + 2 ^ 16 * unat b"
proof -
  have "a OR push_bit 16 b = a + push_bit 16 b"
  proof (rule disjunctive_add [symmetric])
    fix n show "\<not> bit a n \<or> \<not> bit (push_bit 16 b) n"
      using bit_high_unset [OF assms(1), of n] by (auto simp: bit_push_bit_iff)
  qed
  moreover have "unat (push_bit 16 b) = 2 ^ 16 * unat b"
    using assms(2) by (simp add: push_bit_eq_mult unat_word_ariths)
  moreover have "unat a + 2 ^ 16 * unat b < 2 ^ 64" using assms by simp
  ultimately show ?thesis by (simp add: unat_word_ariths)
qed

lemma safeReadBits32_ok:
  assumes inv: "br_inv br" and n: "n \<le> 32"
  shows "\<exists>x br'. safeReadBits32 n br = Some (x, br') \<and> br_inv br' \<and>
     (if n \<le> length (br_bits br)
      then map_option unat x = Some (val_of (take n (br_bits br))) \<and> br_bits br' = drop n (br_bits br)
      else x = None \<and> br_bits br' = br_bits br)"
proof (cases "n \<le> 24")
  case True
  then have eq: "safeReadBits32 n br = safeReadBits n br" and le: "n \<le> 57"
    by (simp_all add: safeReadBits32_def)
  from safeReadBits_ok [OF inv le] show ?thesis unfolding eq by blast
next
  case False
  let ?m = "n - 16"
  have um: "usub n 16 = ?m" using False n by (intro usub_exact) simp_all
  from safeReadBits_ok [OF inv, of 16] obtain b1 r1 where
    b1: "safeReadBits 16 br = Some (r1, b1)" "br_inv b1" and
    c1: "if 16 \<le> length (br_bits br)
      then map_option unat r1 = Some (val_of (take 16 (br_bits br))) \<and> br_bits b1 = drop 16 (br_bits br)
      else r1 = None \<and> br_bits b1 = br_bits br"
    and f1: "br_input b1 = br_input br" "br_inputLen b1 = br_inputLen br" "br_fastEnd b1 = br_fastEnd br"
    by auto
  show ?thesis
  proof (cases "16 \<le> length (br_bits br)")
    case False
    with c1 b1 inv \<open>\<not> n \<le> 24\<close> show ?thesis
      by (auto simp: safeReadBits32_def safeReadBits32Slow_def Let_def restoreState_saveState f1)
  next
    case l16: True
    from l16 c1 obtain lo where lo: "r1 = Some lo" "unat lo = val_of (take 16 (br_bits br))"
      "br_bits b1 = drop 16 (br_bits br)" by auto
    have m57: "?m \<le> 57" using n by simp
    from safeReadBits_ok [OF b1(2) m57] obtain b2 r2 where
      b2: "safeReadBits ?m b1 = Some (r2, b2)" "br_inv b2" and
      c2: "if ?m \<le> length (br_bits b1)
        then map_option unat r2 = Some (val_of (take ?m (br_bits b1))) \<and> br_bits b2 = drop ?m (br_bits b1)
        else r2 = None \<and> br_bits b2 = br_bits b1"
      and f2: "br_input b2 = br_input br" "br_inputLen b2 = br_inputLen br" "br_fastEnd b2 = br_fastEnd br"
      using f1 by auto
    have slow: "safeReadBits32 n br = safeReadBits32Slow n br" using False by (simp add: safeReadBits32_def)
    show ?thesis
    proof (cases "n \<le> length (br_bits br)")
      case nl: False
      then have "r2 = None" using c2 lo False by (auto split: if_splits)
      with nl b1 lo b2 inv slow show ?thesis
        by (auto simp: safeReadBits32Slow_def Let_def um restoreState_saveState f2)
    next
      case nl: True
      then have "?m \<le> length (br_bits b1)" using lo False by simp
      with c2 obtain hi where hi: "r2 = Some hi" "unat hi = val_of (take ?m (br_bits b1))"
        "br_bits b2 = drop ?m (br_bits b1)" by auto
      have len: "length (take 16 (br_bits br)) = 16" using l16 by simp
      have "val_of (take 16 (br_bits br)) < 2 ^ 16" by (metis len val_of_lt)
      moreover have "val_of (take ?m (br_bits b1)) < 2 ^ 48"
      proof -
        have "val_of (take ?m (br_bits b1)) < 2 ^ length (take ?m (br_bits b1))" by (rule val_of_lt)
        also have "\<dots> \<le> 2 ^ 48" using n by (intro power_increasing) auto
        finally show ?thesis .
      qed
      ultimately have "unat (lo OR push_bit 16 hi) =
          val_of (take 16 (br_bits br)) + 2 ^ 16 * val_of (take ?m (drop 16 (br_bits br)))"
        using lo hi by (simp add: or_shifted)
      also have "\<dots> = val_of (take 16 (br_bits br) @ take ?m (drop 16 (br_bits br)))"
        by (simp only: val_of_append len)
      also have "take 16 (br_bits br) @ take ?m (drop 16 (br_bits br)) = take n (br_bits br)"
        using False by (simp flip: take_add)
      finally have "unat (lo OR push_bit 16 hi) = val_of (take n (br_bits br))" .
      moreover have "br_bits b2 = drop n (br_bits br)" using hi lo False by simp
      ultimately show ?thesis using b1 lo b2 hi nl slow
        by (simp add: safeReadBits32Slow_def Let_def um)
    qed
  qed
qed

interpretation safe32_source: bit_source safeReadBits32 br_bits br_inv 32
  by unfold_locales (rule safeReadBits32_ok)


subsection \<open>The fast path\<close>

lemma checkInputAmountAndBits_iff:
  "checkInputAmountAndBits n br \<longleftrightarrow> checkInputAmount br \<and> n \<le> br_bitPos br"
  by (auto simp: checkInputAmountAndBits_def checkInputAmount_def or_nonnegative_int_iff)

lemma fast_room:
  assumes "br_inv br" "br_ready br" "checkInputAmount br"
  shows "nat (br_pos br) + 32 \<le> length (br_input br)"
proof -
  have "br_pos br \<le> int (length (br_input br)) - 32"
    using assms br_invD(1) [OF assms(1)]
    by (simp add: br_ready_def checkInputAmount_def fastInputSlack_def)
  with br_invD(2) [OF assms(1)] show ?thesis by arith
qed

lemma fillBitWindow_ok:
  assumes inv: "br_inv br" and room: "nat (br_pos br) + 4 \<le> length (br_input br)"
  obtains br' where "fillBitWindow br = Some br'" "br_inv br'" "br_bits br' = br_bits br"
    "32 \<le> br_bitPos br'"
proof (cases "br_bitPos br < 32")
  case False
  with inv that show thesis by (simp add: fillBitWindow_def)
next
  case True
  define p where "p = nat (br_pos br)"
  have p: "br_pos br = int p" using br_invD [OF inv] by (simp add: p_def)
  have r: "p + 4 \<le> length (br_input br)" using room p_def by simp
  have bp: "br_bitPos br + 8 * 4 \<le> 64" using True by simp
  have ua: "uadd (br_bitPos br) 32 = br_bitPos br + 32" using True by (intro uadd_exact) simp
  have ld: "load32 (br_input br) (int p) = Some (le_load (take 4 (drop p (br_input br))))"
    using r by (simp add: load32_def go_slice_def)
  note rs = refill_stream [OF inv p r _ order_refl bp]
  have "fillBitWindow br = Some (br\<lparr>br_val := br_val br OR push_bit (br_bitPos br)
      (le_load (take 4 (drop p (br_input br)))), br_bitPos := br_bitPos br + 8 * 4, br_pos := int (p + 4)\<rparr>)"
    using True ua ld p by (simp add: fillBitWindow_def)
  with rs that show thesis by simp
qed

lemma or_56: "bp < 64 \<Longrightarrow> bp OR (56::nat) = bp + 8 * ((63 - bp) div 8)"
proof -
  assume "bp < 64"
  then have "bp \<in> set [0..<64]" by simp
  moreover have "\<forall>b \<in> set [0..<64]. b OR (56::nat) = b + 8 * ((63 - b) div 8)" by code_simp
  ultimately show ?thesis by blast
qed

text \<open>\<open>refill64\<close> on the reader's own accumulator.\<close>

lemma refill64_ok:
  assumes inv: "br_inv br" and bp: "br_bitPos br < 64" and room: "nat (br_pos br) + 8 \<le> length (br_input br)"
  obtains v bp' br' where "refill64 (br_val br) (br_bitPos br) br = Some (v, bp', br')"
    "br_inv (br'\<lparr>br_val := v, br_bitPos := bp'\<rparr>)"
    "br_bits (br'\<lparr>br_val := v, br_bitPos := bp'\<rparr>) = br_bits br" "56 \<le> bp'" "bp' < 64"
proof -
  define p d where "p = nat (br_pos br)" and "d = (63 - br_bitPos br) div 8"
  have p: "br_pos br = int p" using br_invD [OF inv] by (simp add: p_def)
  have r: "p + 8 \<le> length (br_input br)" using room p_def by simp
  have d8: "d \<le> 8" by (simp add: d_def)
  have lo: "8 * d \<le> 63 - br_bitPos br" unfolding d_def by (rule times_div_less_eq_dividend)
  then have b64: "br_bitPos br + 8 * d \<le> 63" using bp by simp
  have "63 - br_bitPos br < 8 * d + 8" unfolding d_def using dividend_less_div_times [of 8 "63 - br_bitPos br"] by simp
  then have b56: "56 \<le> br_bitPos br + 8 * d" by simp
  have us: "usub 63 (br_bitPos br) = 63 - br_bitPos br" using bp by (intro usub_exact) simp_all
  have ld: "load64 (br_input br) (int p) = Some (le_load (take 8 (drop p (br_input br))))"
    using r by (simp add: load64_def go_slice_def)
  have "refill64 (br_val br) (br_bitPos br) br = Some (br_val br OR push_bit (br_bitPos br)
      (le_load (take 8 (drop p (br_input br)))), br_bitPos br + 8 * d, br\<lparr>br_pos := int (p + d)\<rparr>)"
    using bp ld by (simp add: refill64_def p us or_56 d_def)
  moreover have "br_bitPos br + 8 * d \<le> 64" using b64 by simp
  note rs = refill_stream [OF inv p r order_refl d8 this]
  then have "br_inv (br\<lparr>br_pos := int (p + d)\<rparr>\<lparr>br_val := br_val br OR push_bit (br_bitPos br)
        (le_load (take 8 (drop p (br_input br)))), br_bitPos := br_bitPos br + 8 * d\<rparr>)"
    "br_bits (br\<lparr>br_pos := int (p + d)\<rparr>\<lparr>br_val := br_val br OR push_bit (br_bitPos br)
        (le_load (take 8 (drop p (br_input br)))), br_bitPos := br_bitPos br + 8 * d\<rparr>) = br_bits br"
    by (simp_all add: br_inv_def br_bits_def)
  moreover have "br_bitPos br + 8 * d < 64" using b64 by simp
  ultimately show thesis using b56 by (intro that) simp_all
qed

lemma readBits_ok:
  assumes inv: "br_inv br" and room: "nat (br_pos br) + 4 \<le> length (br_input br)" and n: "n \<le> 32"
  shows "\<exists>v br'. readBits n br = Some (v, br') \<and> br_inv br' \<and>
     unat v = val_of (take n (br_bits br)) \<and> br_bits br' = drop n (br_bits br) \<and> n \<le> length (br_bits br)"
proof -
  from fillBitWindow_ok [OF inv room] obtain b1 where
    b1: "fillBitWindow br = Some b1" "br_inv b1" "br_bits b1 = br_bits br" "32 \<le> br_bitPos b1" .
  then have "n \<le> br_bitPos b1" "n < 64" using n by simp_all
  from takeBits_ok [OF b1(2) this] b1 n length_br_bits [of b1] show ?thesis
    by (auto simp: readBits_def takeBits_def)
qed


subsection \<open>Changing the input: \<^verbatim>\<open>warmup\<close>, \<^verbatim>\<open>unload\<close>, \<^verbatim>\<open>setInput\<close>\<close>

lemma acc_ok_empty: "acc_ok ib 0 0 p"
  by (simp add: acc_ok_def)

lemma warmup_ok:
  assumes inv: "br_inv br"
  obtains ok br' where "warmup br = Some (ok, br')" "br_inv br'" "br_bits br' = br_bits br"
    "ok \<longleftrightarrow> br_bits br \<noteq> []" "ok \<Longrightarrow> 0 < br_bitPos br'"
proof (cases "br_bitPos br = 0")
  case False
  with inv that [of True br] show thesis by (auto simp: warmup_def br_bits_def bits_of_def)
next
  case True
  let ?b = "br\<lparr>br_val := 0\<rparr>"
  have b: "br_inv ?b" "br_bits ?b = br_bits br"
    using inv True by (simp_all add: br_inv_def br_bits_def acc_ok_empty)
  show thesis
  proof (cases "br_pos br < br_inputLen br")
    case more: True
    have "br_bitPos ?b \<le> 56" "br_pos ?b < br_inputLen ?b" using True more by simp_all
    from pullByte_True [OF b(1) this] obtain b1 where
      b1: "pullByte ?b = Some (True, b1)" "br_inv b1" "br_bits b1 = br_bits br" "0 < br_bitPos b1"
      unfolding b(2) by (metis add_gr_0 zero_less_numeral)
    then have "br_bits br \<noteq> []" using length_br_bits [of b1] by auto
    with that [of True b1] b1 True show thesis by (simp add: warmup_def)
  next
    case False
    then have "br_bits br = []" using True br_invD [OF inv] by (simp add: br_bits_def)
    with that [of False ?b] b True False show thesis by (simp add: warmup_def pullByte_False)
  qed
qed

text \<open>\<open>unload\<close> gives whole bytes back to the input: the stream is unchanged and fewer than eight bits
  stay in the accumulator, the rest of which is zero.\<close>

lemma unload_ok:
  assumes inv: "br_inv br"
  shows "br_inv (unload br)" and "br_bits (unload br) = br_bits br"
    and "br_bitPos (unload br) = br_bitPos br mod 8"
    and "br_pos (unload br) = br_pos br - int (br_bitPos br div 8)"
    and "br_input (unload br) = br_input br" and "br_inputLen (unload br) = br_inputLen br"
proof -
  define p q r where "p = nat (br_pos br)" and "q = br_bitPos br div 8" and "r = br_bitPos br mod 8"
  have bp: "br_bitPos br = 8 * q + r" and r8: "r < 8" by (simp_all add: q_def r_def)
  have p: "br_pos br = int p" using br_invD [OF inv] by (simp add: p_def)
  have le: "8 * q + r \<le> 64" "8 * q + r \<le> 8 * p + 7" using br_invD [OF inv] bp p_def by simp_all
  then have qp: "q \<le> p" by simp
  let ?u = "br\<lparr>br_pos := int (p - q), br_bitPos := r\<rparr>"
  have "8 * q + r < 2 ^ 64" using le(1) by (rule order_le_less_trans) simp
  then have us: "usub (br_bitPos br) (q * 8) = r" unfolding bp by (subst usub_exact) simp_all
  have "(if 0 < q then br\<lparr>br_pos := br_pos br - int q\<rparr> else br) = br\<lparr>br_pos := int (p - q)\<rparr>"
    using p qp by (cases br) (simp add: of_nat_diff)
  then have u: "unload br = normalize ?u"
    by (simp only: unload_def Let_def q_def [symmetric]) (simp add: us)
  have ok: "acc_ok (bytes_bits (br_input br)) (8 * q + r) (br_val br) p"
    using inv p_def bp by (simp add: br_inv_def)
  have ok': "acc_ok (bytes_bits (br_input br)) r (br_val br) (p - q)"
  proof (rule acc_okI)
    fix i :: nat assume i: "i < 64"
    have e: "8 * p + i - (8 * q + r) = 8 * (p - q) + i - r" using qp by (simp add: diff_mult_distrib2)
    show "bit (br_val br) i = bytes_bits (br_input br) ! (8 * (p - q) + i - r)"
      if "r \<le> 8 * (p - q) + i" "i < r"
      using acc_okD(1) [OF ok i] that qp unfolding e by simp
    show "8 * (p - q) + i - r < length (bytes_bits (br_input br)) \<and>
        bytes_bits (br_input br) ! (8 * (p - q) + i - r)" if "r \<le> i" "bit (br_val br) i"
    proof (cases "i < 8 * q + r")
      case True
      have l: "8 * (p - q) + i - r < 8 * p" using True that qp by (simp add: diff_mult_distrib2)
      moreover have "p \<le> length (br_input br)" using br_invD [OF inv] p_def by simp
      ultimately have "8 * (p - q) + i - r < length (bytes_bits (br_input br))" by simp
      with acc_okD(1) [OF ok i] that True qp show ?thesis unfolding e by auto
    next
      case False
      with acc_okD(2) [OF ok i] that qp show ?thesis unfolding e by simp
    qed
  qed
  have inv': "br_inv ?u" using inv ok' p qp r8 by (simp add: br_inv_def nat_diff_distrib)
  have "bits_of (8 * q + r) (br_val br) = bits_of r (br_val br) @
      take (8 * q) (bytes_bits (drop (p - q) (br_input br)))"
  proof (rule nth_equalityI)
    have "8 * q \<le> 8 * (length (br_input br) - (p - q))"
      using qp br_invD [OF inv] p_def by simp
    then show "length (bits_of (8 * q + r) (br_val br)) = length (bits_of r (br_val br) @
        take (8 * q) (bytes_bits (drop (p - q) (br_input br))))" by simp
    fix i assume "i < length (bits_of (8 * q + r) (br_val br))"
    then have i: "i < 8 * q + r" "i < 64" using le by simp_all
    have "8 * p + i - (8 * q + r) = 8 * (p - q) + (i - r)" if "r \<le> i"
      using that qp by (simp add: diff_mult_distrib2)
    moreover have "bit (br_val br) i = bytes_bits (br_input br) ! (8 * p + i - (8 * q + r))" if "r \<le> i"
      using acc_okD(1) [OF ok i(2) _ i(1)] that qp by simp
    ultimately show "bits_of (8 * q + r) (br_val br) ! i = (bits_of r (br_val br) @
        take (8 * q) (bytes_bits (drop (p - q) (br_input br)))) ! i"
      using i qp br_invD [OF inv] p_def by (simp add: nth_append flip: drop_bytes_bits)
  qed
  moreover have "take (8 * q) (bytes_bits (drop (p - q) (br_input br))) @ bytes_bits (drop p (br_input br)) =
      bytes_bits (drop (p - q) (br_input br))"
  proof -
    have "drop p (br_input br) = drop q (drop (p - q) (br_input br))" using qp by simp
    then show ?thesis by (simp only: drop_bytes_bits [symmetric] append_take_drop_id)
  qed
  ultimately have bits': "br_bits ?u = br_bits br"
    using qp by (simp add: br_bits_def bp p nat_diff_distrib)
  show "br_inv (unload br)" "br_bits (unload br) = br_bits br"
    using normalize_ok [OF inv'] bits' u by simp_all
  show "br_bitPos (unload br) = br_bitPos br mod 8"
    "br_pos (unload br) = br_pos br - int (br_bitPos br div 8)"
    "br_input (unload br) = br_input br" "br_inputLen (unload br) = br_inputLen br"
    using u qp p by (simp_all add: q_def r_def of_nat_diff)
qed

lemma setInput_ok:
  assumes inv: "br_inv br" and bp: "br_bitPos br < 8" and z: "\<And>i. br_bitPos br \<le> i \<Longrightarrow> \<not> bit (br_val br) i"
  shows "br_inv (setInput data br)" and "br_ready (setInput data br)"
    and "br_bits (setInput data br) = bits_of (br_bitPos br) (br_val br) @ bytes_bits data"
  using bp z by (auto simp: setInput_def br_inv_def acc_ok_def br_ready_def br_bits_def)

lemma unload_high_zero:
  assumes "br_inv br" and "br_bitPos (unload br) \<le> i"
  shows "\<not> bit (br_val (unload br)) i"
proof
  assume b: "bit (br_val (unload br)) i"
  then have "i < 64" using bit_imp_le_length by fastforce
  moreover obtain x where u: "unload br = normalize x" by (simp add: unload_def Let_def)
  moreover have "br_bitPos x \<le> 64"
    using unload_ok(3) [OF assms(1)] u by (metis less_imp_le_nat mod_less_divisor
        normalize_fields(2) order_trans zero_less_numeral numeral_le_iff semiring_norm(68,71,78))
  ultimately have "i < br_bitPos x" using bit_normalize b by metis
  with assms(2) u show False by simp
qed

text \<open>Refilling the input buffer the way \<^verbatim>\<open>Reader.fill\<close> does: push whole bytes back, keep the unread
  tail in front of the new data. The stream grows by exactly the new data.\<close>

lemma refeed_ok:
  assumes inv: "br_inv br"
  defines "u \<equiv> unload br"
  defines "tail \<equiv> drop (nat (br_pos u)) (br_input u)"
  shows "br_inv (setInput (tail @ data) u)" and "br_ready (setInput (tail @ data) u)"
    and "br_bits (setInput (tail @ data) u) = br_bits br @ bytes_bits data"
proof -
  have u: "br_inv u" "br_bits u = br_bits br" "br_bitPos u < 8"
    using unload_ok [OF inv] by (simp_all add: u_def)
  have z: "\<And>i. br_bitPos u \<le> i \<Longrightarrow> \<not> bit (br_val u) i"
    using unload_high_zero [OF inv] by (simp add: u_def)
  note si = setInput_ok [OF u(1,3) z]
  show "br_inv (setInput (tail @ data) u)" "br_ready (setInput (tail @ data) u)" using si by simp_all
  show "br_bits (setInput (tail @ data) u) = br_bits br @ bytes_bits data"
    using si(3) u(2) by (simp add: tail_def br_bits_def)
qed


subsection \<open>Byte boundaries and raw bytes\<close>

lemma val_of_zero_iff: "val_of bs = 0 \<longleftrightarrow> (\<forall>b \<in> set bs. \<not> b)"
  by (induction bs) auto

lemma jumpToByteBoundary_ok:
  assumes inv: "br_inv br"
  obtains ok br' where "jumpToByteBoundary br = (ok, br')" "br_inv br'"
    "br_bits br' = drop (br_bitPos br mod 8) (br_bits br)"
    "ok \<longleftrightarrow> (\<forall>b \<in> set (take (br_bitPos br mod 8) (br_bits br)). \<not> b)"
    "br_bitPos br' = 8 * (br_bitPos br div 8)" "br_input br' = br_input br"
    "br_fastEnd br' = br_fastEnd br" "br_inputLen br' = br_inputLen br"
proof -
  let ?c = "br_bitPos br mod 8"
  have c: "?c \<le> br_bitPos br" "?c < 64" using mod_less_divisor [of 8 "br_bitPos br"] by simp_all
  have e: "br_bitPos br - ?c = 8 * (br_bitPos br div 8)" by (simp add: minus_mod_eq_mult_div)
  show thesis
  proof (cases "?c = 0")
    case True
    with inv that [of True "normalize br"] normalize_ok [OF inv] e show thesis
      by (simp add: jumpToByteBoundary_def Let_def)
  next
    case False
    note t = takeBits_ok [OF inv c] and d = dropBits_ok [OF inv c]
    have "fst (takeBits ?c br) = 0 \<longleftrightarrow> (\<forall>b \<in> set (take ?c (br_bits br)). \<not> b)"
      using t(1) by (simp add: unat_eq_0 [symmetric] val_of_zero_iff)
    with False t d e normalize_ok [OF d(1)]
      that [of "fst (takeBits ?c br) = 0" "normalize (dropBits ?c br)"]
    show thesis by (simp add: jumpToByteBoundary_def Let_def takeBits_def)
  qed
qed

lemma bits_of_ucast_byte: "bits_of 8 (ucast v :: byte) = bits_of 8 (v :: u64)"
  by (rule nth_equalityI) (simp_all add: bit_ucast_iff)

lemma copyBytesAcc_ok:
  assumes "br_inv br" and "br_bitPos br mod 8 = 0"
  shows "\<exists>bs br'. copyBytesAcc n br = (bs, br') \<and> length bs = min n (br_bitPos br div 8) \<and> br_inv br' \<and>
     br_bits br = bytes_bits bs @ br_bits br' \<and> br_bitPos br' = br_bitPos br - 8 * length bs \<and>
     br_pos br' = br_pos br \<and> br_input br' = br_input br \<and> br_inputLen br' = br_inputLen br \<and>
     br_fastEnd br' = br_fastEnd br"
  using assms
proof (induction n arbitrary: br)
  case 0
  then show ?case by simp
next
  case (Suc n)
  show ?case
  proof (cases "8 \<le> br_bitPos br")
    case False
    with Suc.prems show ?thesis by simp
  next
    case True
    note d = dropBits_ok [OF Suc.prems(1) True, simplified]
    have m: "br_bitPos (dropBits 8 br) mod 8 = 0" using d(3) Suc.prems(2) True by (simp add: le_mod_geq)
    from Suc.IH [OF d(1) m] obtain bs br' where
      IH: "copyBytesAcc n (dropBits 8 br) = (bs, br')" "length bs = min n (br_bitPos (dropBits 8 br) div 8)"
      "br_inv br'" "br_bits (dropBits 8 br) = bytes_bits bs @ br_bits br'"
      "br_bitPos br' = br_bitPos (dropBits 8 br) - 8 * length bs" "br_pos br' = br_pos br"
      "br_input br' = br_input br" "br_inputLen br' = br_inputLen br" "br_fastEnd br' = br_fastEnd br"
      by auto
    have "take 8 (br_bits br) = bits_of 8 (br_val br)" using True by (simp add: br_bits_def take_bits_of)
    then have "br_bits br = bytes_bits (ucast (br_val br) # bs) @ br_bits br'"
      using IH(4) d(2) append_take_drop_id [of 8 "br_bits br"] by (simp add: bits_of_ucast_byte)
    moreover have "br_bitPos br div 8 = Suc ((br_bitPos br - 8) div 8)" using True by (simp add: le_div_geq)
    ultimately show ?thesis using IH True d(3) by simp
  qed
qed

lemma copyBytes_ok:
  assumes inv: "br_inv br" and al: "br_bitPos br mod 8 = 0" and len: "8 * num \<le> length (br_bits br)"
  obtains bs br' where "copyBytes num br = Some (bs, br')" "br_inv br'" "length bs = num"
    "br_bits br = bytes_bits bs @ br_bits br'" "br_bitPos br' mod 8 = 0"
    "br_input br' = br_input br" "br_inputLen br' = br_inputLen br" "br_fastEnd br' = br_fastEnd br"
proof -
  from copyBytesAcc_ok [OF inv al, of num] obtain bs b1 where
    b1: "copyBytesAcc num br = (bs, b1)" "length bs = min num (br_bitPos br div 8)" "br_inv b1"
    "br_bits br = bytes_bits bs @ br_bits b1" "br_bitPos b1 = br_bitPos br - 8 * length bs"
    "br_input b1 = br_input br" "br_inputLen b1 = br_inputLen br" "br_fastEnd b1 = br_fastEnd br" by blast
  define b2 where "b2 = normalize b1"
  have b2: "br_inv b2" "br_bits b2 = br_bits b1" using normalize_ok [OF b1(3)] by (simp_all add: b2_def)
  have al1: "br_bitPos b1 mod 8 = 0" using b1(5) al by (simp add: mod_eq_0_iff_dvd)
  show thesis
  proof (cases "length bs < num")
    case False
    then have "length bs = num" using b1(2) by simp
    with that [of bs b2] b1 b2 al1 show thesis by (simp add: copyBytes_def Let_def b2_def)
  next
    case True
    then have l: "length bs = br_bitPos br div 8" using b1(2) by simp
    then have bp0: "br_bitPos b1 = 0" using b1(5) al by (simp add: mod_eq_0_iff_dvd)
    define p k where "p = nat (br_pos b2)" and "k = num - length bs"
    have p: "br_pos b2 = int p" using br_invD [OF b2(1)] by (simp add: p_def)
    have bits2: "br_bits b2 = bytes_bits (drop p (br_input br))"
      using bp0 b1 by (simp add: br_bits_def p_def b2_def)
    have "length (br_bits br) = 8 * length bs + 8 * (length (br_input br) - p)"
      unfolding b1(4) b2(2) [symmetric] bits2 by simp
    then have fits: "p + k \<le> length (br_input br)" using len True by (simp add: k_def)
    let ?xs = "take k (drop p (br_input br))"
    have v0: "br_val b2 = 0" using bp0 by (simp add: b2_def normalize_def bitMask_def)
    let ?b = "b2\<lparr>br_pos := int p + int k\<rparr>"
    have i2: "br_input b2 = br_input br" using b1 by (simp add: b2_def)
    have sl: "go_slice (br_input b2) (br_pos b2) (br_pos b2 + int k) = Some ?xs"
      unfolding i2 p using fits by (simp add: go_slice_def)
    have "copyBytes num br = Some (bs @ ?xs, ?b)"
      using True sl by (simp only: copyBytes_def Let_def b1(1) prod.case b2_def [symmetric]
          k_def [symmetric] if_True bind.bind_lunit p)
    moreover have "br_inv ?b"
      using b2(1) fits v0 bp0 p b1 by (simp add: br_inv_def b2_def nat_add_distrib acc_ok_empty)
    moreover have st: "bytes_bits (drop p (br_input br)) = bytes_bits ?xs @ br_bits ?b"
    proof -
      have "br_bits ?b = bytes_bits (drop (p + k) (br_input br))"
        using bp0 b1 by (simp add: br_bits_def b2_def nat_add_distrib)
      moreover have "drop p (br_input br) = ?xs @ drop (p + k) (br_input br)"
        by (metis append_take_drop_id drop_drop add.commute)
      ultimately show ?thesis by (metis bytes_bits_append)
    qed
    moreover have "length (bs @ ?xs) = num" using fits True by (simp add: k_def)
    moreover have "br_bitPos ?b mod 8 = 0" using bp0 by (simp add: b2_def)
    moreover have "br_bits br = bytes_bits (bs @ ?xs) @ br_bits ?b"
      unfolding b1(4) b2(2) [symmetric] bits2 st by simp
    moreover have "br_input ?b = br_input br" "br_inputLen ?b = br_inputLen br" "br_fastEnd ?b = br_fastEnd br"
      using b1(6-8) by (simp_all add: b2_def)
    ultimately show thesis by - (rule that; assumption)
  qed
qed

end
