(* ===== verification/Core_Constants.thy ===== *)
theory Core_Constants
  imports Prelude
begin

text \<open>
  The constants of the format shared by the encoder and the decoder, \<^verbatim>\<open>internal/core/constants.go\<close> and the
  coding limits of \<^verbatim>\<open>internal/core/huffman.go\<close>.
\<close>

definition HuffmanMaxCodeLength :: nat where "HuffmanMaxCodeLength = 15"
definition HuffmanMaxCodeLengthCodeLength :: nat where "HuffmanMaxCodeLengthCodeLength = 5"
definition AlphabetSizeLiteral :: nat where "AlphabetSizeLiteral = 256"
definition AlphabetSizeInsertAndCopyLength :: nat where "AlphabetSizeInsertAndCopyLength = 704"
definition AlphabetSizeBlockCount :: nat where "AlphabetSizeBlockCount = 26"
definition NumDistanceShortCodes :: nat where "NumDistanceShortCodes = 16"
definition AlphabetSizeCodeLengths :: nat where "AlphabetSizeCodeLengths = 18"
definition NumHistogramDistanceSymbols :: nat where "NumHistogramDistanceSymbols = 544"
definition MaxDistanceBits :: nat where "MaxDistanceBits = 24"
definition WindowGap :: int where "WindowGap = 16"
definition RepeatPreviousCodeLength :: nat where "RepeatPreviousCodeLength = 16"
definition InitialRepeatedCodeLength :: nat where "InitialRepeatedCodeLength = 8"
definition LiteralContextBits :: nat where "LiteralContextBits = 6"
definition DistanceContextBits :: nat where "DistanceContextBits = 2"

definition CodeLengthCodeOrder :: "nat list" where
  "CodeLengthCodeOrder = [1, 2, 3, 4, 0, 5, 17, 6, 16, 7, 8, 9, 10, 11, 12, 13, 14, 15]"

definition BlockLengthOffset :: "nat list" where
  "BlockLengthOffset = [1, 5, 9, 13, 17, 25, 33, 41, 49, 65, 81, 97,
     113, 145, 177, 209, 241, 305, 369, 497, 753, 1265, 2289, 4337, 8433, 16625]"

definition BlockLengthNBits :: "nat list" where
  "BlockLengthNBits = [2, 2, 2, 2, 3, 3, 3, 3, 4, 4, 4, 4, 5, 5, 5, 5, 6, 6, 7, 8, 9, 10, 11, 12, 13, 24]"

end
