(* ===== verification/Huffman_Table.thy ===== *)
theory Huffman_Table
  imports Core_Constants
begin

text \<open>
  The decoder's prefix code lookup tables, \<^verbatim>\<open>internal/core/huffman.go\<close> with the checked helpers of
  \<^verbatim>\<open>internal/core/mem_checked.go\<close>.

  A table is a list of entries. \<^verbatim>\<open>table = table[tableSize:]\<close> moves an offset into the root table, so
  that writes through the inner slice are writes to the root table and \<^verbatim>\<open>cap(rootTable) - cap(table)\<close>
  is the offset. \<^const>\<open>None\<close> is a panic (index, slice bound, failed assertion) or a loop that does not
  end, neither of which happens on the inputs the decoder passes.
\<close>

subsection \<open>Constants and entries\<close>

definition reverseBitsWidth :: nat where "reverseBitsWidth = 8"
definition reverseBitsHigh :: nat where "reverseBitsHigh = 2 ^ (reverseBitsWidth - 1)"

lemmas huffman_consts = HuffmanMaxCodeLength_def HuffmanMaxCodeLengthCodeLength_def reverseBitsWidth_def
  reverseBitsHigh_def AlphabetSizeCodeLengths_def

text \<open>\<^verbatim>\<open>Bits\<close> is a \<^verbatim>\<open>byte\<close>, \<^verbatim>\<open>Value\<close> a \<^verbatim>\<open>uint16\<close>: constructions reduce modulo \<open>2 ^ 8\<close> and \<open>2 ^ 16\<close>.\<close>

record HuffmanCode =
  Bits :: nat
  Value :: nat

definition mkCode :: "nat \<Rightarrow> nat \<Rightarrow> HuffmanCode" where
  "mkCode b v = \<lparr>Bits = b mod 2 ^ 8, Value = v mod 2 ^ 16\<rparr>"

record SymbolList =
  Storage :: "nat list"
  Offset :: int

definition SymbolList_get :: "SymbolList \<Rightarrow> int \<Rightarrow> nat option" where
  "SymbolList_get sl i = go_index (Storage sl) (Offset sl + i)"

text \<open>\<^verbatim>\<open>bits.Reverse8\<close>.\<close>

definition Reverse8 :: "nat \<Rightarrow> nat" where
  "Reverse8 n = val_of (rev (nat_bits 8 (n mod 2 ^ 8)))"

text \<open>Running an operation on \<^verbatim>\<open>xs[off:]\<close>, and \<^verbatim>\<open>copy(xs[off:], ys)\<close>.\<close>

definition in_slice :: "nat \<Rightarrow> ('a list \<Rightarrow> 'a list option) \<Rightarrow> 'a list \<Rightarrow> 'a list option" where
  "in_slice off f xs = (if off \<le> length xs
     then map_option (\<lambda>ys. take off xs @ ys) (f (drop off xs)) else None)"

definition go_copy :: "'a list \<Rightarrow> nat \<Rightarrow> 'a list \<Rightarrow> 'a list option" where
  "go_copy xs off ys = (if off \<le> length xs
     then Some (overwrite xs off (take (length xs - off) ys)) else None)"


subsection \<open>Helpers of the table builders\<close>

text \<open>\<^verbatim>\<open>replicateValue\<close> with a step that is not positive would never reach its exit.\<close>

function replicateValue :: "HuffmanCode list \<Rightarrow> HuffmanCode \<Rightarrow> int \<Rightarrow> int \<Rightarrow> HuffmanCode list option" where
  "replicateValue table code step end1 = (if step \<le> 0 then None else
     case go_update table (end1 - step) code of
       None \<Rightarrow> None
     | Some table \<Rightarrow> if end1 - step \<le> 0 then Some table
                     else replicateValue table code step (end1 - step))"
  by pat_completeness auto
termination by (relation "measure (\<lambda>(t, c, s, e). nat e)") auto

declare replicateValue.simps [simp del]

function nextTableBitSize_loop :: "nat list \<Rightarrow> int \<Rightarrow> nat \<Rightarrow> nat option" where
  "nextTableBitSize_loop count left len = (if len < HuffmanMaxCodeLength
     then (case go_index count (int len) of
             None \<Rightarrow> None
           | Some c \<Rightarrow> if left - int c \<le> 0 then Some len
                       else nextTableBitSize_loop count (2 * (left - int c)) (len + 1))
     else Some len)"
  by pat_completeness auto
termination by (relation "measure (\<lambda>(c, l, len). HuffmanMaxCodeLength - len)") auto

declare nextTableBitSize_loop.simps [simp del]

definition nextTableBitSize :: "nat list \<Rightarrow> nat \<Rightarrow> nat \<Rightarrow> nat option" where
  "nextTableBitSize count len rootBits =
     map_option (\<lambda>l. l - rootBits) (nextTableBitSize_loop count (2 ^ (len - rootBits)) len)"

text \<open>\<^verbatim>\<open>for totalSize != tableSize { copy(table[tableSize:], table[:tableSize]); tableSize <<= 1 }\<close>\<close>

function double_table :: "nat \<Rightarrow> nat \<Rightarrow> HuffmanCode list \<Rightarrow> HuffmanCode list option" where
  "double_table totalSize tableSize table = (if totalSize = tableSize then Some table
     else if tableSize = 0 \<or> totalSize < tableSize then None
     else case go_slice table 0 (int tableSize) of
            None \<Rightarrow> None
          | Some src \<Rightarrow> (case go_copy table tableSize src of
              None \<Rightarrow> None
            | Some table \<Rightarrow> double_table totalSize (2 * tableSize) table))"
  by pat_completeness auto
termination by (relation "measure (\<lambda>(t, s, xs). t - s)") auto

declare double_table.simps [simp del]

fun set_entries :: "(nat \<times> HuffmanCode) list \<Rightarrow> HuffmanCode list \<Rightarrow> HuffmanCode list option" where
  "set_entries [] table = Some table"
| "set_entries ((i, c) # es) table = do { table \<leftarrow> go_update table (int i) c; set_entries es table }"


subsection \<open>Simple prefix codes\<close>

text \<open>The nested loops of case 3 compare these pairs in this order.\<close>

fun sort_pairs :: "(nat \<times> nat) list \<Rightarrow> nat list \<Rightarrow> nat list" where
  "sort_pairs [] val = val"
| "sort_pairs ((i, k) # ps) val =
     sort_pairs ps (if val ! k < val ! i then val[k := val ! i, i := val ! k] else val)"

definition BuildSimpleHuffmanTable ::
  "HuffmanCode list \<Rightarrow> nat \<Rightarrow> nat list \<Rightarrow> nat \<Rightarrow> (HuffmanCode list \<times> nat list \<times> nat) option" where
  "BuildSimpleHuffmanTable table rootBits val numSymbols =
     (let goalSize = 2 ^ rootBits;
          c = (\<lambda>b i. \<lparr>Bits = b, Value = val ! i\<rparr>) in
      if length val < (if numSymbols \<le> 3 then numSymbols + 1 else if numSymbols = 4 then 4 else 0) then None else
      if numSymbols = 0 then do {
        table \<leftarrow> set_entries [(0, c 0 0)] table;
        table \<leftarrow> double_table goalSize 1 table; Some (table, val, goalSize) }
      else if numSymbols = 1 then do {
        table \<leftarrow> set_entries (if val ! 1 > val ! 0 then [(0, c 1 0), (1, c 1 1)]
                               else [(0, c 1 1), (1, c 1 0)]) table;
        table \<leftarrow> double_table goalSize 2 table; Some (table, val, goalSize) }
      else if numSymbols = 2 then do {
        table \<leftarrow> set_entries ([(0, c 1 0), (2, c 1 0)] @
                               (if val ! 2 > val ! 1 then [(1, c 2 1), (3, c 2 2)]
                                else [(1, c 2 2), (3, c 2 1)])) table;
        table \<leftarrow> double_table goalSize 4 table; Some (table, val, goalSize) }
      else if numSymbols = 3 then
        (let val = sort_pairs [(0,1), (0,2), (0,3), (1,2), (1,3), (2,3)] val;
             c = (\<lambda>b i. \<lparr>Bits = b, Value = val ! i\<rparr>) in do {
        table \<leftarrow> set_entries [(0, c 2 0), (2, c 2 1), (1, c 2 2), (3, c 2 3)] table;
        table \<leftarrow> double_table goalSize 4 table; Some (table, val, goalSize) })
      else if numSymbols = 4 then
        (let val = (if val ! 3 < val ! 2 then val[3 := val ! 2, 2 := val ! 3] else val);
             c = (\<lambda>b i. \<lparr>Bits = b, Value = val ! i\<rparr>) in do {
        table \<leftarrow> set_entries [(0, c 1 0), (1, c 2 1), (2, c 1 0), (3, c 3 2),
                                (4, c 1 0), (5, c 2 1), (6, c 1 0), (7, c 3 3)] table;
        table \<leftarrow> double_table goalSize 8 table; Some (table, val, goalSize) })
      else do { table \<leftarrow> double_table goalSize 1 table; Some (table, val, goalSize) })"


subsection \<open>The code length code\<close>

fun clens_offsets :: "nat list \<Rightarrow> nat \<Rightarrow> int \<Rightarrow> int list \<Rightarrow> int list option" where
  "clens_offsets count 0 sy offset = Some offset"
| "clens_offsets count (Suc k) sy offset =
     (let bitLen = HuffmanMaxCodeLengthCodeLength - k in do {
      c \<leftarrow> go_index count (int bitLen);
      offset \<leftarrow> go_update offset (int bitLen) (sy + int c);
      clens_offsets count k (sy + int c) offset })"

text \<open>The sorting loop takes the symbols from the last to the first.\<close>

fun clens_sort :: "nat list \<Rightarrow> nat \<Rightarrow> int list \<Rightarrow> int list \<Rightarrow> (int list \<times> int list) option" where
  "clens_sort codeLengths 0 sorted1 offset = Some (sorted1, offset)"
| "clens_sort codeLengths (Suc sy) sorted1 offset = do {
     l \<leftarrow> go_index codeLengths (int sy);
     i \<leftarrow> go_index offset (int l);
     sorted1 \<leftarrow> go_update sorted1 i (int sy);
     offset \<leftarrow> go_update offset (int l) (i - 1);
     clens_sort codeLengths sy sorted1 offset }"

text \<open>One round of the inner loop: \<open>n\<close> symbols of one length.\<close>

fun clens_fill :: "nat \<Rightarrow> nat \<Rightarrow> int list \<Rightarrow> int \<Rightarrow> nat \<Rightarrow> nat \<Rightarrow> int \<Rightarrow> HuffmanCode list
    \<Rightarrow> (nat \<times> nat \<times> HuffmanCode list) option" where
  "clens_fill 0 sy sorted1 step key keyStep bitLen table = Some (sy, key, table)"
| "clens_fill (Suc n) sy sorted1 step key keyStep bitLen table = do {
     s \<leftarrow> go_index sorted1 (int sy);
     table \<leftarrow> in_slice (Reverse8 key)
       (\<lambda>t. replicateValue t (mkCode (nat bitLen) (nat (s mod 2 ^ 16))) step
              (2 ^ HuffmanMaxCodeLengthCodeLength)) table;
     clens_fill n (sy + 1) sorted1 step (key + keyStep) keyStep bitLen table }"

fun clens_lengths :: "nat list \<Rightarrow> nat \<Rightarrow> nat \<Rightarrow> int list \<Rightarrow> int \<Rightarrow> nat \<Rightarrow> nat \<Rightarrow> HuffmanCode list
    \<Rightarrow> HuffmanCode list option" where
  "clens_lengths count 0 sy sorted1 step key keyStep table = Some table"
| "clens_lengths count (Suc k) sy sorted1 step key keyStep table =
     (let bitLen = HuffmanMaxCodeLengthCodeLength - k in do {
      n \<leftarrow> go_index count (int bitLen);
      (sy, key, table) \<leftarrow> clens_fill n sy sorted1 step key keyStep (int bitLen) table;
      clens_lengths count k sy sorted1 (2 * step) key (keyStep div 2) table })"

definition BuildCodeLengthsHuffmanTable :: "HuffmanCode list \<Rightarrow> nat list \<Rightarrow> nat list \<Rightarrow> HuffmanCode list option" where
  "BuildCodeLengthsHuffmanTable table codeLengths count = do {
     offset \<leftarrow> clens_offsets count HuffmanMaxCodeLengthCodeLength (-1)
       (replicate (HuffmanMaxCodeLengthCodeLength + 1) 0);
     (sorted1, offset) \<leftarrow> clens_sort codeLengths AlphabetSizeCodeLengths (replicate AlphabetSizeCodeLengths 0)
       (offset[0 := int AlphabetSizeCodeLengths - 1]);
     let tableSize = 2 ^ HuffmanMaxCodeLengthCodeLength;
     if offset ! 0 = 0 then do {
       table \<leftarrow> go_update table 0 (mkCode 0 (nat (sorted1 ! 0 mod 2 ^ 16)));
       double_table tableSize 1 table }
     else clens_lengths count HuffmanMaxCodeLengthCodeLength 0 sorted1 2 0 reverseBitsHigh table }"


subsection \<open>Two-level tables\<close>

function max_length_loop :: "SymbolList \<Rightarrow> int \<Rightarrow> int option" where
  "max_length_loop symbols i = (case SymbolList_get symbols i of
      None \<Rightarrow> None
    | Some v \<Rightarrow> if v = 0xFFFF then max_length_loop symbols (i - 1) else Some i)"
  by pat_completeness auto
termination by (relation "measure (\<lambda>(s, i). nat (Offset s + i + 1))")
  (auto simp: SymbolList_get_def go_index_def split: if_splits)

declare max_length_loop.simps [simp del]

fun root_fill :: "nat \<Rightarrow> SymbolList \<Rightarrow> int \<Rightarrow> nat \<Rightarrow> int \<Rightarrow> nat \<Rightarrow> nat \<Rightarrow> int \<Rightarrow> HuffmanCode list
    \<Rightarrow> (nat \<times> HuffmanCode list) option" where
  "root_fill 0 symbols sy bitLen step key keyStep tableSize table = Some (key, table)"
| "root_fill (Suc n) symbols sy bitLen step key keyStep tableSize table = do {
     s \<leftarrow> SymbolList_get symbols sy;
     table \<leftarrow> in_slice (Reverse8 key) (\<lambda>t. replicateValue t (mkCode bitLen s) step tableSize) table;
     root_fill n symbols (int s) bitLen step (key + keyStep) keyStep tableSize table }"

text \<open>The lengths \<open>bitLen, ..., tableBits\<close>; the first argument is how many are left.\<close>

fun root_lengths :: "nat \<Rightarrow> nat \<Rightarrow> SymbolList \<Rightarrow> nat list \<Rightarrow> int \<Rightarrow> nat \<Rightarrow> nat \<Rightarrow> int \<Rightarrow> HuffmanCode list
    \<Rightarrow> (nat \<times> HuffmanCode list) option" where
  "root_lengths 0 bitLen symbols count step key keyStep tableSize table = Some (key, table)"
| "root_lengths (Suc k) bitLen symbols count step key keyStep tableSize table = do {
     n \<leftarrow> go_index count (int bitLen);
     (key, table) \<leftarrow> root_fill n symbols (int bitLen - (int HuffmanMaxCodeLength + 1)) bitLen step key keyStep
       tableSize table;
     root_lengths k (bitLen + 1) symbols count (2 * step) key (keyStep div 2) tableSize table }"

text \<open>The variables of the second loop: the root table with the offset of the current second-level
  table, the remaining histogram, the keys and sizes.\<close>

record level2 =
  l2_table :: "HuffmanCode list"
  l2_off :: nat
  l2_count :: "nat list"
  l2_tableSize :: nat
  l2_totalSize :: nat
  l2_key :: nat
  l2_subKey :: nat

definition level2_open :: "nat \<Rightarrow> nat \<Rightarrow> nat \<Rightarrow> level2 \<Rightarrow> level2 option" where
  "level2_open rootBits keyStep codeLen x =
     (if l2_subKey x = 2 * reverseBitsHigh then
        (let off = l2_off x + l2_tableSize x in
         if length (l2_table x) < off then None else do {
         tableBits \<leftarrow> nextTableBitSize (l2_count x) codeLen rootBits;
         let subKey = Reverse8 (l2_key x);
         table \<leftarrow> go_update (l2_table x) (int subKey)
           \<lparr>Bits = (tableBits + rootBits) mod 2 ^ 8, Value = nat ((int off - int subKey) mod 2 ^ 16)\<rparr>;
         Some (x\<lparr>l2_table := table, l2_off := off, l2_tableSize := 2 ^ tableBits,
                l2_totalSize := l2_totalSize x + 2 ^ tableBits, l2_key := l2_key x + keyStep,
                l2_subKey := 0\<rparr>) })
      else Some x)"

fun level2_fill :: "nat \<Rightarrow> nat \<Rightarrow> nat \<Rightarrow> SymbolList \<Rightarrow> int \<Rightarrow> nat \<Rightarrow> int \<Rightarrow> nat \<Rightarrow> level2 \<Rightarrow> level2 option" where
  "level2_fill 0 rootBits keyStep symbols sy codeLen step subKeyStep x = Some x"
| "level2_fill (Suc n) rootBits keyStep symbols sy codeLen step subKeyStep x = do {
     x \<leftarrow> level2_open rootBits keyStep codeLen x;
     s \<leftarrow> SymbolList_get symbols sy;
     table \<leftarrow> in_slice (l2_off x + Reverse8 (l2_subKey x))
       (\<lambda>t. replicateValue t (mkCode (codeLen - rootBits) s) step (int (l2_tableSize x))) (l2_table x);
     level2_fill n rootBits keyStep symbols (int s) codeLen step subKeyStep
       (x\<lparr>l2_table := table, l2_subKey := l2_subKey x + subKeyStep,
          l2_count := (l2_count x)[codeLen := l2_count x ! codeLen - 1]\<rparr>) }"

fun level2_lengths :: "nat \<Rightarrow> nat \<Rightarrow> nat \<Rightarrow> nat \<Rightarrow> SymbolList \<Rightarrow> int \<Rightarrow> nat \<Rightarrow> level2 \<Rightarrow> level2 option" where
  "level2_lengths 0 codeLen rootBits keyStep symbols step subKeyStep x = Some x"
| "level2_lengths (Suc k) codeLen rootBits keyStep symbols step subKeyStep x = do {
     n \<leftarrow> go_index (l2_count x) (int codeLen);
     x \<leftarrow> level2_fill n rootBits keyStep symbols (int codeLen - (int HuffmanMaxCodeLength + 1)) codeLen step
       subKeyStep x;
     level2_lengths k (codeLen + 1) rootBits keyStep symbols (2 * step) (subKeyStep div 2) x }"

definition BuildHuffmanTable :: "HuffmanCode list \<Rightarrow> nat \<Rightarrow> SymbolList \<Rightarrow> nat list
    \<Rightarrow> (HuffmanCode list \<times> nat list \<times> nat) option" where
  "BuildHuffmanTable rootTable rootBits symbols count =
     (if \<not> rootBits \<le> reverseBitsWidth \<or> \<not> HuffmanMaxCodeLength - rootBits \<le> reverseBitsWidth then None else do {
      m \<leftarrow> max_length_loop symbols (-1);
      let maxLength = nat (m + int HuffmanMaxCodeLength + 1);
      let tableBits = min rootBits maxLength;
      let totalSize = 2 ^ rootBits;
      (key, table) \<leftarrow> root_lengths tableBits 1 symbols count 2 0 reverseBitsHigh (2 ^ tableBits) rootTable;
      table \<leftarrow> double_table totalSize (2 ^ tableBits) table;
      x \<leftarrow> level2_lengths (maxLength - rootBits) (rootBits + 1) rootBits
        (reverseBitsHigh div 2 ^ (rootBits - 1)) symbols 2 reverseBitsHigh
        \<lparr>l2_table = table, l2_off = 0, l2_count = count, l2_tableSize = totalSize, l2_totalSize = totalSize,
         l2_key = key, l2_subKey = 2 * reverseBitsHigh\<rparr>;
      Some (l2_table x, l2_count x, l2_totalSize x) })"

end
