(* ===== verification/Output_Chunks.thy ===== *)
theory Output_Chunks
  imports Prelude
begin

text \<open>
  The chunked output buffer of one-shot compression and decompression, \<^verbatim>\<open>output_chunks.go\<close>.

  The chunk pool is a \<^verbatim>\<open>sync.Pool\<close>: what \<^verbatim>\<open>Get\<close> returns is a parameter \<open>get\<close> of \<open>chunk_write\<close> (the
  \<open>k\<close>-th chunk of the writer is \<open>get k\<close>), of which the writer relies only on the length. The
  abstraction \<open>chunk_content\<close> is the byte string written so far.
\<close>

record chunkWriter =
  cw_chunks :: "byte list list"
  cw_size :: nat
  cw_n :: nat

definition encodeChunkSize :: nat where "encodeChunkSize = 64 * 2 ^ 10"
definition decodeChunkSize :: nat where "decodeChunkSize = 272 * 2 ^ 10"

definition chunk_room :: "(nat \<Rightarrow> byte list) \<Rightarrow> chunkWriter \<Rightarrow> chunkWriter" where
  "chunk_room get w = (if cw_n w = length (cw_chunks w) * cw_size w
     then w\<lparr>cw_chunks := cw_chunks w @ [get (length (cw_chunks w))]\<rparr> else w)"

text \<open>One round of the loop of \<^verbatim>\<open>write\<close>: the number of bytes copied and the writer after it. A zero size
  (integer division by zero) and a writer without chunks panic.\<close>

definition chunk_round :: "(nat \<Rightarrow> byte list) \<Rightarrow> byte list \<Rightarrow> chunkWriter \<Rightarrow> (nat \<times> chunkWriter) option" where
  "chunk_round get p w = (let w = chunk_room get w; k = length (cw_chunks w) - 1 in
     if cw_size w = 0 \<or> cw_chunks w = [] \<or> length (cw_chunks w ! k) < cw_n w mod cw_size w then None
     else let chunk = cw_chunks w ! k; o1 = cw_n w mod cw_size w; copied = min (length chunk - o1) (length p) in
       Some (copied, w\<lparr>cw_chunks := (cw_chunks w)[k := overwrite chunk o1 (take copied p)],
                       cw_n := cw_n w + copied\<rparr>))"

partial_function (option) chunk_write :: "(nat \<Rightarrow> byte list) \<Rightarrow> byte list \<Rightarrow> chunkWriter \<Rightarrow> chunkWriter option" where
  "chunk_write get p w = (if p = [] then Some w else do {
     (copied, w) \<leftarrow> chunk_round get p w;
     chunk_write get (drop copied p) w })"

definition chunk_discard :: "chunkWriter \<Rightarrow> chunkWriter" where
  "chunk_discard w = w\<lparr>cw_chunks := [], cw_n := 0\<rparr>"

text \<open>\<^verbatim>\<open>copy(out[i*w.size:], *chunk)\<close> for the chunks from number \<open>i\<close> on.\<close>

fun chunk_gather :: "nat \<Rightarrow> nat \<Rightarrow> byte list list \<Rightarrow> byte list \<Rightarrow> byte list option" where
  "chunk_gather sz i [] out = Some out"
| "chunk_gather sz i (c # cs) out = (if length out < i * sz then None
     else chunk_gather sz (i + 1) cs (overwrite out (i * sz) (take (length out - i * sz) c)))"

text \<open>The empty result is \<^verbatim>\<open>nil\<close>, a slice of length 0.\<close>

definition chunk_take :: "chunkWriter \<Rightarrow> (byte list \<times> chunkWriter) option" where
  "chunk_take w = (if cw_n w = 0 then Some ([], chunk_discard w) else do {
     out \<leftarrow> chunk_gather (cw_size w) 0 (cw_chunks w) (replicate (cw_n w) 0);
     Some (out, chunk_discard w) })"


subsection \<open>The content of a writer\<close>

definition cw_inv :: "chunkWriter \<Rightarrow> bool" where
  "cw_inv w \<longleftrightarrow> 0 < cw_size w \<and> (\<forall>c \<in> set (cw_chunks w). length c = cw_size w) \<and>
     cw_n w \<le> length (cw_chunks w) * cw_size w \<and> length (cw_chunks w) * cw_size w < cw_n w + cw_size w"

definition chunk_content :: "chunkWriter \<Rightarrow> byte list" where
  "chunk_content w = take (cw_n w) (concat (cw_chunks w))"

lemma length_concat_eq: "\<forall>c \<in> set cs. length c = n \<Longrightarrow> length (concat cs) = length cs * n"
  by (induction cs) auto

lemma chunk_round_ok:
  assumes inv: "cw_inv w" and p: "p \<noteq> []" and g: "\<forall>k. length (get k) = cw_size w"
  obtains copied w' where "chunk_round get p w = Some (copied, w')" "cw_inv w'" "0 < copied"
    "copied \<le> length p" "cw_size w' = cw_size w" "chunk_content w' = chunk_content w @ take copied p"
proof -
  define S n where "S = cw_size w" and "n = cw_n w"
  have S: "0 < S" using inv by (simp add: cw_inv_def S_def)
  text \<open>The writer before the copy: all chunks but the last are full.\<close>
  obtain fs c where rm: "chunk_room get w = w\<lparr>cw_chunks := fs @ [c]\<rparr>" and fs: "\<forall>c \<in> set fs. length c = S"
    and c: "length c = S" and n: "length fs * S \<le> n" "n < length fs * S + S"
    and ct: "take n (concat (cw_chunks w)) = concat fs @ take (n - length fs * S) c"
  proof (cases "n = length (cw_chunks w) * S")
    case True
    have l: "length (concat (cw_chunks w)) = n"
      using inv True by (simp add: cw_inv_def length_concat_eq S_def)
    show ?thesis
      by (rule that [of "cw_chunks w" "get (length (cw_chunks w))"])
        (use inv True g S l in \<open>simp_all add: chunk_room_def cw_inv_def S_def n_def\<close>)
  next
    case False
    then have ne: "cw_chunks w \<noteq> []" and lt: "n < length (cw_chunks w) * S"
      using inv by (auto simp: cw_inv_def S_def n_def)
    define fs c where "fs = butlast (cw_chunks w)" and "c = last (cw_chunks w)"
    have e: "cw_chunks w = fs @ [c]" using ne by (simp add: fs_def c_def)
    have len: "length (concat fs) = length fs * S"
      using inv e by (intro length_concat_eq) (simp add: cw_inv_def S_def)
    show ?thesis
      by (rule that [of fs c])
        (use inv e False lt len in \<open>simp_all add: chunk_room_def cw_inv_def S_def n_def\<close>)
  qed
  have md: "n mod S = n - length fs * S"
    using n by (metis add.commute add_diff_inverse_nat mod_less mod_mult_self3 not_less less_diff_conv2)
  define o1 where "o1 = n - length fs * S"
  have o1: "o1 < S" "n = length fs * S + o1" using n by (simp_all add: o1_def)
  define k where "k = min (S - o1) (length p)"
  define w' where "w' = w\<lparr>cw_chunks := fs @ [overwrite c o1 (take k p)], cw_n := n + k\<rparr>"
  have k: "0 < k" "k \<le> length p" "o1 + k \<le> S" using p o1 by (auto simp: k_def)
  have r: "chunk_round get p w = Some (k, w')"
    using S c o1 unfolding chunk_round_def Let_def rm w'_def
    by (simp add: md [unfolded n_def S_def] flip: n_def S_def) (simp add: o1_def [symmetric] k_def)
  have lo: "length (overwrite c o1 (take k p)) = S" using c k by simp
  have "concat fs @ take (o1 + k) (overwrite c o1 (take k p)) = (concat fs @ take o1 c) @ take k p"
    using take_overwrite_end [of o1 "take k p" c] k c by simp
  moreover have "length (concat fs) = length fs * S" using fs by (rule length_concat_eq)
  ultimately have ct': "chunk_content w' = chunk_content w @ take k p"
    using ct o1 by (simp add: chunk_content_def w'_def n_def [symmetric] o1_def [symmetric])
  have "cw_inv w'"
    using inv fs lo k o1 S by (auto simp: cw_inv_def w'_def S_def [symmetric])
  with r k ct' show thesis by (intro that [of k w']) (simp_all add: w'_def)
qed

lemma chunk_write_ok:
  assumes "cw_inv w" and "\<forall>k. length (get k) = cw_size w"
  shows "\<exists>w'. chunk_write get p w = Some w' \<and> cw_inv w' \<and> cw_size w' = cw_size w \<and>
    chunk_content w' = chunk_content w @ p"
  using assms
proof (induction "length p" arbitrary: p w rule: less_induct)
  case less
  show ?case
  proof (cases "p = []")
    case True
    then show ?thesis using less.prems by (subst chunk_write.simps) simp
  next
    case False
    from chunk_round_ok [OF less.prems(1) False less.prems(2)] obtain k w1 where
      r: "chunk_round get p w = Some (k, w1)" "cw_inv w1" "0 < k" "k \<le> length p"
      "cw_size w1 = cw_size w" "chunk_content w1 = chunk_content w @ take k p" by blast
    then have lt: "length (drop k p) < length p" using False by simp
    have g1: "\<forall>j. length (get j) = cw_size w1" using less.prems(2) r(5) by simp
    from less.hyps [OF lt r(2) g1] obtain w' where w': "chunk_write get (drop k p) w1 = Some w'" "cw_inv w'"
      "cw_size w' = cw_size w1" "chunk_content w' = chunk_content w1 @ drop k p" by blast
    have "chunk_write get p w = Some w'" using r(1) False w'(1) by (subst chunk_write.simps) simp
    then show ?thesis using w' r(5,6) by simp
  qed
qed

lemma chunk_gather_ok:
  assumes "\<forall>c \<in> set cs. length c = S" and "i * S \<le> length out"
    and "cs \<noteq> [] \<Longrightarrow> (i + length cs) * S < length out + S" and "length out \<le> (i + length cs) * S"
  shows "chunk_gather S i cs out = Some (take (i * S) out @ take (length out - i * S) (concat cs))"
  using assms
proof (induction cs arbitrary: i out)
  case Nil
  then show ?case by simp
next
  case (Cons c cs)
  define N m where "N = length out" and "m = i * S"
  have c: "length c = S" and m: "m \<le> N" using Cons.prems by (simp_all add: N_def m_def)
  let ?o = "overwrite out m (take (N - m) c)"
  have lo: "length ?o = N" using m by (simp add: N_def)
  have ms: "(i + 1) * S = m + S" by (simp add: m_def)
  show ?case
  proof (cases "cs = []")
    case True
    then have "N \<le> m + S" using Cons.prems(4) by (simp add: N_def m_def)
    then show ?thesis using True m c by (simp add: overwrite_def N_def m_def)
  next
    case False
    have "(i + Suc (length cs)) * S < N + S" using Cons.prems(3) by (simp add: N_def)
    moreover have "S \<le> length cs * S" using False by (cases cs) auto
    moreover have "(i + Suc (length cs)) * S = m + length cs * S + S" by (simp add: m_def add_mult_distrib)
    ultimately have le: "m + S \<le> N" by linarith
    have "chunk_gather S (i + 1) cs ?o =
        Some (take ((i + 1) * S) ?o @ take (length ?o - (i + 1) * S) (concat cs))"
    proof (rule Cons.IH)
      show "\<forall>c \<in> set cs. length c = S" using Cons.prems(1) by simp
      show "(i + 1) * S \<le> length ?o" using le lo ms by simp
      show "(i + 1 + length cs) * S < length ?o + S" using Cons.prems(3) lo by (simp add: N_def)
      show "length ?o \<le> (i + 1 + length cs) * S" using Cons.prems(4) lo by (simp add: N_def)
    qed
    moreover have "take (m + S) ?o = take m out @ c"
      using le c take_overwrite_end [of m c out] by (simp add: N_def)
    ultimately show ?thesis using m le c lo ms by (simp add: N_def [symmetric] m_def [symmetric] add.commute)
  qed
qed

lemma chunk_take_ok:
  assumes inv: "cw_inv w"
  shows "chunk_take w = Some (chunk_content w, chunk_discard w)"
proof (cases "cw_n w = 0")
  case True
  then show ?thesis by (simp add: chunk_take_def chunk_content_def)
next
  case False
  have "chunk_gather (cw_size w) 0 (cw_chunks w) (replicate (cw_n w) 0) =
      Some (take (0 * cw_size w) (replicate (cw_n w) 0) @
        take (length (replicate (cw_n w) (0 :: byte)) - 0 * cw_size w) (concat (cw_chunks w)))"
    by (rule chunk_gather_ok) (use inv in \<open>auto simp: cw_inv_def\<close>)
  with False show ?thesis by (simp add: chunk_take_def chunk_content_def)
qed

text \<open>A sequence of writes, as the encoder and the decoder issue them.\<close>

fun chunk_writes :: "(nat \<Rightarrow> byte list) \<Rightarrow> byte list list \<Rightarrow> chunkWriter \<Rightarrow> chunkWriter option" where
  "chunk_writes get [] w = Some w"
| "chunk_writes get (p # ps) w = do { w \<leftarrow> chunk_write get p w; chunk_writes get ps w }"

lemma chunk_writes_ok:
  assumes "cw_inv w" and "\<forall>k. length (get k) = cw_size w"
  shows "\<exists>w'. chunk_writes get ps w = Some w' \<and> cw_inv w' \<and> chunk_content w' = chunk_content w @ concat ps"
  using assms
proof (induction ps arbitrary: w)
  case Nil
  then show ?case by simp
next
  case (Cons p ps)
  from chunk_write_ok [OF Cons.prems, where p = p] obtain w1 where w1: "chunk_write get p w = Some w1" "cw_inv w1"
    "cw_size w1 = cw_size w" "chunk_content w1 = chunk_content w @ p" by blast
  with Cons.IH [OF w1(2)] Cons.prems(2) show ?case by auto
qed

text \<open>C11. The chunked output loses and reorders nothing: after any sequence of writes to an empty
  writer, whatever the recycled chunks of the pool contain, \<^verbatim>\<open>take\<close> returns the concatenation of the
  bytes written, and leaves the writer empty.\<close>

theorem chunk_writes_take:
  assumes "0 < sz" and "\<And>k. length (get k) = sz"
  shows "\<exists>w. chunk_writes get ps \<lparr>cw_chunks = [], cw_size = sz, cw_n = 0\<rparr> = Some w \<and>
    chunk_take w = Some (concat ps, w\<lparr>cw_chunks := [], cw_n := 0\<rparr>)"
proof -
  let ?w = "\<lparr>cw_chunks = [], cw_size = sz, cw_n = 0\<rparr>"
  have "cw_inv ?w" using assms(1) by (simp add: cw_inv_def)
  from chunk_writes_ok [OF this, of get ps] assms(2) obtain w where
    "chunk_writes get ps ?w = Some w" "cw_inv w" "chunk_content w = concat ps"
    by (auto simp: chunk_content_def)
  then show ?thesis using chunk_take_ok [of w] by (auto simp: chunk_discard_def)
qed

theorem chunk_writes_take_witness:
  "\<exists>w. chunk_writes (\<lambda>k. replicate 4 (of_nat k)) [[1, 2, 3], [4, 5, 6]] \<lparr>cw_chunks = [], cw_size = 4, cw_n = 0\<rparr> = Some w \<and>
    chunk_take w = Some ([1, 2, 3, 4, 5, 6], w\<lparr>cw_chunks := [], cw_n := 0\<rparr>)"
  using chunk_writes_take [of 4 "\<lambda>k. replicate 4 (of_nat k)" "[[1, 2, 3], [4, 5, 6]]"] by simp

end
