(* ===== verification/Decode_State.thy ===== *)
theory Decode_State
  imports Bit_Reader Huffman_Table Output_Chunks
begin

unbundle bit_operations_syntax

text \<open>
  The state of the streaming decoder, \<^verbatim>\<open>decode_state.go\<close>, and the operations that initialise it.

  Enumerations are datatypes, so the \<^verbatim>\<open>default\<close> branches of the source that report an unreachable
  substate have no counterpart. \<^verbatim>\<open>uint\<close> fields are \<^typ>\<open>nat\<close>, \<^verbatim>\<open>int\<close> fields \<^typ>\<open>int\<close>. Slices that are
  recycled by capacity (\<^verbatim>\<open>reuseBytes\<close> and its siblings) are \<open>goslice\<close>; \<^verbatim>\<open>h.symbolLists\<close>, a view of
  \<^verbatim>\<open>h.symbolListsArray\<close>, \<^verbatim>\<open>blockLenTrees\<close>, a view of the array behind \<^verbatim>\<open>blockTypeTrees\<close>, and
  \<^verbatim>\<open>htreeCommandLut\<close>, a view of \<^verbatim>\<open>cmdLuts\<close>, are the starts of the views; \<^verbatim>\<open>htreeCommand\<close> and \<^verbatim>\<open>literalHTree\<close>, views of code
  tables that are complete when the views are taken, are copies. \<^verbatim>\<open>sink\<close> is nil or the address of
  \<^verbatim>\<open>outChunks\<close> and is a boolean. \<^verbatim>\<open>literalCodesPtrs\<close> belongs to the unchecked build.
\<close>

subsection \<open>Enumerations\<close>

datatype decoderResult = ResultError | ResultSuccess | ResultNeedsMoreInput | ResultNeedsMoreOutput

datatype decoderState =
    StateUninited | StateLargeWindowBits | StateInitialize | StateMetablockBegin
  | StateMetablockHeader | StateMetablockHeader2 | StateContextModes | StateCommandBegin
  | StateCommandInner | StateCommandPostDecodeLiterals | StateCommandPostWrapCopy
  | StateUncompressed | StateMetadata | StateCommandInnerWrite | StateMetablockDone
  | StateCommandPostWrite1 | StateCommandPostWrite2 | StateBeforeCompressedMetablockHeader
  | StateHuffmanCode0 | StateHuffmanCode1 | StateHuffmanCode2 | StateHuffmanCode3
  | StateContextMap1 | StateContextMap2 | StateTreeGroup | StateBeforeCompressedMetablockBody
  | StateDone

datatype metablockHeaderState =
    metablockHeaderNone | metablockHeaderEmpty | metablockHeaderNibbles | metablockHeaderSize
  | metablockHeaderUncompressed | metablockHeaderReserved | metablockHeaderBytes | metablockHeaderMetadata

datatype uncompressedState = uncompressedNone | uncompressedWrite

datatype treeGroupState = treeGroupNone | treeGroupLoop

datatype contextMapState =
  contextMapNone | contextMapReadPrefix | contextMapHuffman | contextMapDecode | contextMapTransform

datatype huffmanState =
  huffmanNone | huffmanSimpleSize | huffmanSimpleRead | huffmanSimpleBuild | huffmanComplex
| huffmanLengthSymbols

datatype decodeUint8State = decodeUint8None | decodeUint8Short | decodeUint8Long

datatype readBlockLengthState = readBlockLengthNone | readBlockLengthSuffix


subsection \<open>Constants\<close>

definition blockSizeCap :: nat where "blockSizeCap = 2 ^ 24"
definition huffmanMaxSize272 :: nat where "huffmanMaxSize272 = 646"
definition huffmanMaxSize258 :: nat where "huffmanMaxSize258 = 632"
definition huffmanMaxSize26 :: nat where "huffmanMaxSize26 = 396"
definition huffmanTableBits :: nat where "huffmanTableBits = 8"
definition ringBufferWriteAheadSlack :: nat where "ringBufferWriteAheadSlack = 542"
definition maxAllowedDistance :: int where "maxAllowedDistance = 0x7FFFFFFC"
definition symListBase :: int where "symListBase = int HuffmanMaxCodeLength + 1"


subsection \<open>Records\<close>

record huffmanTreeGroup =
  g_htrees :: "int goslice"
  g_codes :: "HuffmanCode goslice"
  g_alphabetSizeMax :: nat
  g_alphabetSizeLimit :: nat
  g_numHTrees :: nat

record metablockHeaderArena =
  h_symbolLists :: "nat option"
  h_substateTreeGroup :: treeGroupState
  h_substateContextMap :: contextMapState
  h_substateHuffman :: huffmanState
  h_subLoopCounter :: nat
  h_repeatCodeLen :: nat
  h_prevCodeLen :: nat
  h_symbol :: nat
  h_repeat :: nat
  h_space :: nat
  h_table :: "HuffmanCode list"
  h_symbolListsArray :: "nat list"
  h_nextSymbol :: "int list"
  h_codeLengthCodeLengths :: "nat list"
  h_codeLengthHisto :: "nat list"
  h_htreeIndex :: int
  h_next :: int
  h_contextIndex :: nat
  h_maxRunLengthPrefix :: nat
  h_code :: nat
  h_contextMapTable :: "HuffmanCode list"

record metablockBodyArena =
  b_distExtraBits :: "nat list"
  b_distOffset :: "nat list"
  b_cachedPostfix :: nat
  b_cachedDirect :: nat
  b_cachedAlphabetSizeLim :: nat
  b_cachedValid :: bool

record decoderCompoundDictionary =
  cd_chunks :: "byte list list"
  cd_chunkOffsets :: "int list"
  cd_numChunks :: int
  cd_totalSize :: int
  cd_blockBits :: int
  cd_blockMap :: "nat list"
  cd_brIndex :: int
  cd_brOffset :: int
  cd_brLength :: int
  cd_brCopied :: int

record decodeState =
  ds_br :: bitReader
  ds_err :: "string option"
  ds_ringbuffer :: "byte goslice"
  ds_htreeCommand :: "HuffmanCode list"
  ds_htreeCommandLut :: "nat option"
  ds_cmdLuts :: "u64 goslice"
  ds_contextLookup :: "byte list"
  ds_distContextMap :: "byte goslice"
  ds_literalHTree :: "HuffmanCode list"
  ds_contextMap :: "byte goslice"
  ds_contextModes :: "byte goslice"
  ds_blockTypeTrees :: "HuffmanCode goslice"
  ds_blockLenTrees :: "nat option"
  ds_literalHGroup :: huffmanTreeGroup
  ds_insertCopyHGroup :: huffmanTreeGroup
  ds_distanceHGroup :: huffmanTreeGroup
  ds_compoundDict :: "decoderCompoundDictionary option"
  ds_sink :: bool
  ds_outChunks :: chunkWriter
  ds_headerArena :: metablockHeaderArena
  ds_state :: decoderState
  ds_loopCounter :: int
  ds_bufferLength :: nat
  ds_buffer :: "byte list"
  ds_pos :: int
  ds_maxBackwardDistance :: int
  ds_maxDistance :: int
  ds_ringbufferSize :: int
  ds_ringbufferMask :: int
  ds_distRBIdx :: int
  ds_distRB :: "int list"
  ds_safeCmdMemento :: bitReaderState
  ds_metaBlockRemainingLen :: int
  ds_maxDecodedBytes :: nat
  ds_declaredTotal :: nat
  ds_contextMapSliceIdx :: int
  ds_distContextMapSliceIdx :: int
  ds_trivialLiteralContext :: int
  ds_distanceContext :: int
  ds_blockLength :: "nat list"
  ds_blockLengthIndex :: nat
  ds_numBlockTypes :: "nat list"
  ds_blockTypeRB :: "nat list"
  ds_distancePostfixBits :: nat
  ds_numDirectDistanceCodes :: nat
  ds_numDistHTrees :: nat
  ds_numLiteralHTrees :: nat
  ds_rbRoundtrips :: nat
  ds_partialPosOut :: nat
  ds_mtfUpperBound :: nat
  ds_copyLength :: int
  ds_distanceCode :: int
  ds_substateMetablockHeader :: metablockHeaderState
  ds_substateUncompressed :: uncompressedState
  ds_substateDecodeUint8 :: decodeUint8State
  ds_substateReadBlockLength :: readBlockLengthState
  ds_newRingbufferSize :: int
  ds_windowBits :: int
  ds_sizeNibbles :: int
  ds_trivialLiteralContexts :: "u32 list"
  ds_isLastMetablock :: bool
  ds_isUncompressed :: bool
  ds_isMetadata :: bool
  ds_cannyRingbufferAllocation :: bool
  ds_distHTreeIndex :: nat
  ds_distCodesOffset :: int
  ds_distCodesCache :: "int list"
  ds_bodyArena :: metablockBodyArena
  ds_literalCodesOffsets :: "int list"

definition blockLenTrees :: "decodeState \<Rightarrow> HuffmanCode list" where
  "blockLenTrees s = (case ds_blockLenTrees s of None \<Rightarrow> [] | Some o1 \<Rightarrow> drop o1 (sl_data (ds_blockTypeTrees s)))"

abbreviation zeroCode :: HuffmanCode where "zeroCode \<equiv> \<lparr>Bits = 0, Value = 0\<rparr>"

text \<open>The zero values of the structs, which \<^verbatim>\<open>decodeState{}\<close> denotes.\<close>

definition zero_br :: bitReader where
  "zero_br = \<lparr>br_input = [], br_pos = 0, br_val = 0, br_bitPos = 0, br_inputLen = 0, br_fastEnd = 0\<rparr>"

definition zero_group :: huffmanTreeGroup where
  "zero_group = \<lparr>g_htrees = sl_nil, g_codes = sl_nil, g_alphabetSizeMax = 0, g_alphabetSizeLimit = 0, g_numHTrees = 0\<rparr>"

definition zero_header :: metablockHeaderArena where
  "zero_header = \<lparr>h_symbolLists = None, h_substateTreeGroup = treeGroupNone, h_substateContextMap = contextMapNone,
     h_substateHuffman = huffmanNone, h_subLoopCounter = 0, h_repeatCodeLen = 0, h_prevCodeLen = 0,
     h_symbol = 0, h_repeat = 0, h_space = 0, h_table = replicate 32 zeroCode,
     h_symbolListsArray = replicate (HuffmanMaxCodeLength + 1 + AlphabetSizeInsertAndCopyLength) 0,
     h_nextSymbol = replicate 32 0, h_codeLengthCodeLengths = replicate AlphabetSizeCodeLengths 0,
     h_codeLengthHisto = replicate 16 0, h_htreeIndex = 0, h_next = 0, h_contextIndex = 0,
     h_maxRunLengthPrefix = 0, h_code = 0, h_contextMapTable = replicate huffmanMaxSize272 zeroCode\<rparr>"

definition zero_body :: metablockBodyArena where
  "zero_body = \<lparr>b_distExtraBits = replicate NumHistogramDistanceSymbols 0,
     b_distOffset = replicate NumHistogramDistanceSymbols 0, b_cachedPostfix = 0, b_cachedDirect = 0,
     b_cachedAlphabetSizeLim = 0, b_cachedValid = False\<rparr>"

definition zero_state :: decodeState where
  "zero_state = \<lparr>ds_br = zero_br, ds_err = None, ds_ringbuffer = sl_nil, ds_htreeCommand = [],
     ds_htreeCommandLut = None, ds_cmdLuts = sl_nil, ds_contextLookup = [], ds_distContextMap = sl_nil,
     ds_literalHTree = [], ds_contextMap = sl_nil, ds_contextModes = sl_nil, ds_blockTypeTrees = sl_nil,
     ds_blockLenTrees = None, ds_literalHGroup = zero_group, ds_insertCopyHGroup = zero_group,
     ds_distanceHGroup = zero_group, ds_compoundDict = None, ds_sink = False,
     ds_outChunks = \<lparr>cw_chunks = [], cw_size = 0, cw_n = 0\<rparr>, ds_headerArena = zero_header,
     ds_state = StateUninited, ds_loopCounter = 0, ds_bufferLength = 0, ds_buffer = replicate 8 0,
     ds_pos = 0, ds_maxBackwardDistance = 0, ds_maxDistance = 0, ds_ringbufferSize = 0,
     ds_ringbufferMask = 0, ds_distRBIdx = 0, ds_distRB = replicate 4 0,
     ds_safeCmdMemento = \<lparr>brs_pos = 0, brs_val = 0, brs_bitPos = 0\<rparr>, ds_metaBlockRemainingLen = 0,
     ds_maxDecodedBytes = 0, ds_declaredTotal = 0, ds_contextMapSliceIdx = 0,
     ds_distContextMapSliceIdx = 0, ds_trivialLiteralContext = 0, ds_distanceContext = 0,
     ds_blockLength = replicate 3 0, ds_blockLengthIndex = 0, ds_numBlockTypes = replicate 3 0,
     ds_blockTypeRB = replicate 6 0, ds_distancePostfixBits = 0, ds_numDirectDistanceCodes = 0,
     ds_numDistHTrees = 0, ds_numLiteralHTrees = 0, ds_rbRoundtrips = 0, ds_partialPosOut = 0,
     ds_mtfUpperBound = 0, ds_copyLength = 0, ds_distanceCode = 0,
     ds_substateMetablockHeader = metablockHeaderNone, ds_substateUncompressed = uncompressedNone,
     ds_substateDecodeUint8 = decodeUint8None, ds_substateReadBlockLength = readBlockLengthNone,
     ds_newRingbufferSize = 0, ds_windowBits = 0, ds_sizeNibbles = 0,
     ds_trivialLiteralContexts = replicate 8 0, ds_isLastMetablock = False, ds_isUncompressed = False,
     ds_isMetadata = False, ds_cannyRingbufferAllocation = False, ds_distHTreeIndex = 0,
     ds_distCodesOffset = 0, ds_distCodesCache = replicate 4 0, ds_bodyArena = zero_body,
     ds_literalCodesOffsets = replicate 64 0\<rparr>"


subsection \<open>Initialisation\<close>

definition reuseBytes :: "byte goslice \<Rightarrow> nat \<Rightarrow> byte goslice" where
  "reuseBytes = sl_reuse 0"

definition reuseInts :: "int goslice \<Rightarrow> nat \<Rightarrow> int goslice" where
  "reuseInts = sl_reuse 0"

definition reuseHuffmanCodes :: "HuffmanCode goslice \<Rightarrow> nat \<Rightarrow> HuffmanCode goslice" where
  "reuseHuffmanCodes = sl_reuse zeroCode"

definition huffmanTreeGroup_init :: "nat \<Rightarrow> nat \<Rightarrow> nat \<Rightarrow> huffmanTreeGroup \<Rightarrow> huffmanTreeGroup" where
  "huffmanTreeGroup_init alphabetSizeMax alphabetSizeLimit ntrees g =
     (let maxTableSize = alphabetSizeLimit + 376 in
      g\<lparr>g_alphabetSizeMax := alphabetSizeMax, g_alphabetSizeLimit := alphabetSizeLimit,
        g_numHTrees := ntrees, g_codes := reuseHuffmanCodes (g_codes g) (ntrees * maxTableSize),
        g_htrees := reuseInts (g_htrees g) ntrees\<rparr>)"

definition initDefaults :: "decodeState \<Rightarrow> decodeState" where
  "initDefaults s = s\<lparr>ds_state := StateUninited, ds_cannyRingbufferAllocation := True,
     ds_distRB := [16, 15, 11, 4], ds_mtfUpperBound := 63\<rparr>"

definition decodeState_init :: "decodeState \<Rightarrow> decodeState" where
  "decodeState_init s = initDefaults zero_state"

text \<open>\<^verbatim>\<open>clearScalarFields\<close> of the checked build: every field in the order the code lists them.\<close>

definition clearScalarFields :: "decodeState \<Rightarrow> decodeState" where
  "clearScalarFields s = s\<lparr>ds_state := StateUninited, ds_loopCounter := 0, ds_bufferLength := 0,
     ds_buffer := replicate 8 0, ds_pos := 0, ds_maxBackwardDistance := 0, ds_maxDistance := 0,
     ds_ringbufferSize := 0, ds_ringbufferMask := 0, ds_distRBIdx := 0, ds_distRB := replicate 4 0,
     ds_safeCmdMemento := \<lparr>brs_pos = 0, brs_val = 0, brs_bitPos = 0\<rparr>, ds_metaBlockRemainingLen := 0,
     ds_maxDecodedBytes := 0, ds_declaredTotal := 0, ds_contextMapSliceIdx := 0,
     ds_distContextMapSliceIdx := 0, ds_trivialLiteralContext := 0, ds_distanceContext := 0,
     ds_blockLength := replicate 3 0, ds_blockLengthIndex := 0, ds_numBlockTypes := replicate 3 0,
     ds_blockTypeRB := replicate 6 0, ds_distancePostfixBits := 0, ds_numDirectDistanceCodes := 0,
     ds_numDistHTrees := 0, ds_numLiteralHTrees := 0, ds_rbRoundtrips := 0, ds_partialPosOut := 0,
     ds_mtfUpperBound := 0, ds_copyLength := 0, ds_distanceCode := 0,
     ds_substateMetablockHeader := metablockHeaderNone, ds_substateUncompressed := uncompressedNone,
     ds_substateDecodeUint8 := decodeUint8None, ds_substateReadBlockLength := readBlockLengthNone,
     ds_newRingbufferSize := 0, ds_windowBits := 0, ds_sizeNibbles := 0,
     ds_trivialLiteralContexts := replicate 8 0, ds_isLastMetablock := False,
     ds_isUncompressed := False, ds_isMetadata := False, ds_cannyRingbufferAllocation := False,
     ds_distHTreeIndex := 0, ds_distCodesOffset := 0, ds_distCodesCache := replicate 4 0\<rparr>"

definition clear_group :: "huffmanTreeGroup \<Rightarrow> huffmanTreeGroup" where
  "clear_group g = g\<lparr>g_alphabetSizeMax := 0, g_alphabetSizeLimit := 0, g_numHTrees := 0\<rparr>"

definition initForReuse :: "decodeState \<Rightarrow> decodeState" where
  "initForReuse s = initDefaults (clearScalarFields (s\<lparr>
     ds_br := (ds_br s)\<lparr>br_val := 0, br_bitPos := 0, br_pos := 0, br_inputLen := 0, br_fastEnd := 0\<rparr>,
     ds_err := None, ds_htreeCommand := [], ds_htreeCommandLut := None, ds_contextLookup := [],
     ds_literalHTree := [], ds_blockLenTrees := None, ds_compoundDict := None,
     ds_literalHGroup := clear_group (ds_literalHGroup s),
     ds_insertCopyHGroup := clear_group (ds_insertCopyHGroup s),
     ds_distanceHGroup := clear_group (ds_distanceHGroup s),
     ds_headerArena := (ds_headerArena s)\<lparr>h_symbolLists := None, h_substateTreeGroup := treeGroupNone,
       h_substateContextMap := contextMapNone, h_substateHuffman := huffmanNone, h_subLoopCounter := 0,
       h_repeatCodeLen := 0, h_prevCodeLen := 0, h_symbol := 0, h_repeat := 0, h_space := 0,
       h_htreeIndex := 0, h_next := 0, h_contextIndex := 0, h_maxRunLengthPrefix := 0, h_code := 0\<rparr>\<rparr>))"

definition metablockBegin :: "decodeState \<Rightarrow> decodeState" where
  "metablockBegin s = s\<lparr>ds_metaBlockRemainingLen := 0,
     ds_blockLength := [blockSizeCap, blockSizeCap, blockSizeCap], ds_numBlockTypes := [1, 1, 1],
     ds_blockTypeRB := [1, 0, 1, 0, 1, 0], ds_contextMap := (ds_contextMap s)\<lparr>sl_len := 0\<rparr>,
     ds_contextModes := (ds_contextModes s)\<lparr>sl_len := 0\<rparr>,
     ds_distContextMap := (ds_distContextMap s)\<lparr>sl_len := 0\<rparr>, ds_contextMapSliceIdx := 0,
     ds_distContextMapSliceIdx := 0, ds_distHTreeIndex := 0, ds_distCodesOffset := 0,
     ds_distCodesCache := replicate 4 0\<rparr>"

fun updateDistCodesCache_loop :: "nat list \<Rightarrow> decodeState \<Rightarrow> decodeState option" where
  "updateDistCodesCache_loop [] s = Some s"
| "updateDistCodesCache_loop (ctx # cs) s = do {
     idx \<leftarrow> sl_get (ds_distContextMap s) (ds_distContextMapSliceIdx s + int ctx);
     t \<leftarrow> sl_get (g_htrees (ds_distanceHGroup s)) (uint idx);
     updateDistCodesCache_loop cs (s\<lparr>ds_distCodesCache := (ds_distCodesCache s)[ctx := t]\<rparr>) }"

definition updateDistCodesCache :: "decodeState \<Rightarrow> decodeState option" where
  "updateDistCodesCache s = updateDistCodesCache_loop [0..<4] s"

text \<open>\<^verbatim>\<open>copy(s.buffer[:avail], ...)\<close>; a negative \<open>availIn\<close> would panic.\<close>

definition stashTail :: "decodeState \<Rightarrow> decodeState option" where
  "stashTail s = (let br = unload (ds_br s); avail = min (availIn br) (int (length (ds_buffer s))) in do {
     src \<leftarrow> go_slice (br_input br) (br_pos br) (br_pos br + avail);
     Some (s\<lparr>ds_br := br, ds_buffer := overwrite (ds_buffer s) 0 src, ds_bufferLength := nat avail\<rparr>) })"

definition useStashedTail :: "decodeState \<Rightarrow> decodeState option" where
  "useStashedTail s = do {
     data \<leftarrow> go_slice (ds_buffer s) 0 (int (ds_bufferLength s));
     Some (s\<lparr>ds_br := setInput data (ds_br s)\<rparr>) }"

definition compoundDictSize :: "decodeState \<Rightarrow> int" where
  "compoundDictSize s = (case ds_compoundDict s of None \<Rightarrow> 0 | Some cd \<Rightarrow> cd_totalSize cd)"

end
