(* ===== verification/Suspend.thy ===== *)
theory Suspend
  imports Decode_State
begin

text \<open>
  Suspendable parsing. Most of the decoder consists of operations that stop with
  \<open>ResultNeedsMoreInput\<close> anywhere in the middle, keep what they have in substates and counters, and
  are called again when more input is there. What such an operation computes is a parser on bit
  strings (\<open>parse\<close>); a state in the middle of the operation denotes the parser of what remains.

  \<open>refines\<close> says that one call of the operation does what a parser prescribes on the bits at hand,
  and that a state left by a suspension denotes the rest of that parser. The locale \<open>suspendable\<close> is
  the contract, and its theorem \<open>feed_parse\<close> the reason for it: however the input is cut into chunks,
  and wherever the reader suspends, the outcome is that of the parser on the whole input.
\<close>

subsection \<open>Parsers\<close>

datatype 'a parse = Short | Bad string | Good 'a "bool list"

text \<open>\<open>p_bits n k\<close>: an \<open>n\<close>-bit number, then \<open>k\<close>.\<close>

definition p_bits :: "nat \<Rightarrow> (nat \<Rightarrow> bool list \<Rightarrow> 'a parse) \<Rightarrow> bool list \<Rightarrow> 'a parse" where
  "p_bits n k bs = (if length bs < n then Short else k (val_of (take n bs)) (drop n bs))"

lemma p_bits_append: "length a = n \<Longrightarrow> p_bits n k (a @ bs) = k (val_of a) bs"
  by (simp add: p_bits_def)

lemma p_bits_nat: "v < 2 ^ n \<Longrightarrow> p_bits n k (nat_bits n v @ bs) = k v bs"
  by (simp add: p_bits_append)

lemma p_bits_word: "unat v < 2 ^ n \<Longrightarrow> p_bits n k (bits_of n v @ bs) = k (unat v) bs"
  by (simp add: p_bits_append val_of_bits_of_exact)

text \<open>What a stable parser says does not change when more input follows.\<close>

definition stable_parse :: "(bool list \<Rightarrow> 'a parse) \<Rightarrow> bool" where
  "stable_parse p \<longleftrightarrow> (\<forall>bs x. (\<forall>v rest. p bs = Good v rest \<longrightarrow> p (bs @ x) = Good v (rest @ x)) \<and>
     (\<forall>e. p bs = Bad e \<longrightarrow> p (bs @ x) = Bad e))"

lemma stable_parseD:
  assumes "stable_parse p"
  shows "p bs = Good v rest \<Longrightarrow> p (bs @ x) = Good v (rest @ x)" and "p bs = Bad e \<Longrightarrow> p (bs @ x) = Bad e"
  using assms by (auto simp: stable_parse_def)

lemma stable_p_bits: "(\<And>v. stable_parse (k v)) \<Longrightarrow> stable_parse (p_bits n k)"
  by (auto simp: stable_parse_def p_bits_def split: if_splits)

lemma stable_Good: "stable_parse (Good v)"
  by (simp add: stable_parse_def)

lemma stable_Bad: "stable_parse (\<lambda>_. Bad e)"
  by (simp add: stable_parse_def)


subsection \<open>One call of an operation\<close>

definition refines :: "('s \<Rightarrow> bitReader) \<Rightarrow> ('s \<Rightarrow> string option) \<Rightarrow> ('s \<Rightarrow> bool) \<Rightarrow> ('s \<Rightarrow> bool list \<Rightarrow> 'a parse)
    \<Rightarrow> ('s \<Rightarrow> 'a) \<Rightarrow> (decoderResult \<times> 's) option \<Rightarrow> (bool list \<Rightarrow> 'a parse) \<Rightarrow> bool list \<Rightarrow> bool" where
  "refines rd er good resid fin m p bits \<longleftrightarrow> (\<exists>r s. m = Some (r, s) \<and> br_inv (rd s) \<and>
     (case p bits of
        Good v rest \<Rightarrow> r = ResultSuccess \<and> fin s = v \<and> br_bits (rd s) = rest
      | Bad e \<Rightarrow> r = ResultError \<and> er s = Some e
      | Short \<Rightarrow> r = ResultNeedsMoreInput \<and> good s \<and> (\<forall>x. resid s (br_bits (rd s) @ x) = p (bits @ x))))"

lemma refines_Good:
  "br_inv (rd s) \<Longrightarrow> p bits = Good (fin s) (br_bits (rd s)) \<Longrightarrow>
     refines rd er good resid fin (Some (ResultSuccess, s)) p bits"
  by (simp add: refines_def)

lemma refines_Bad:
  "br_inv (rd s) \<Longrightarrow> er s = Some e \<Longrightarrow> p bits = Bad e \<Longrightarrow>
     refines rd er good resid fin (Some (ResultError, s)) p bits"
  by (simp add: refines_def)

text \<open>Reading \<open>n\<close> bits in the middle of an operation. \<open>set_rd\<close> writes the reader back, \<open>susp\<close> is what
  the code does to the state when the bits are not there.\<close>

lemma refines_read:
  assumes inv: "br_inv br" and n: "n \<le> 57" and bits: "bits = br_bits br"
    and short: "\<And>br'. br_inv br' \<Longrightarrow> br_bits br' = bits \<Longrightarrow> length bits < n \<Longrightarrow>
      rd (susp br') = br' \<and> good (susp br') \<and> resid (susp br') = p_bits n k"
    and cont: "\<And>v br'. br_inv br' \<Longrightarrow> br_bits br' = drop n bits \<Longrightarrow> unat v < 2 ^ n \<Longrightarrow>
      refines rd er good resid fin (next1 v br') (k (unat v)) (drop n bits)"
  shows "refines rd er good resid fin
    (do { (x, br') \<leftarrow> safeReadBits n br;
          case x of None \<Rightarrow> Some (ResultNeedsMoreInput, susp br') | Some v \<Rightarrow> next1 v br' })
    (p_bits n k) bits"
proof -
  from safe_source.get_ok [OF inv n] obtain x br' where x: "safeReadBits n br = Some (x, br')" "br_inv br'"
    "if n \<le> length (br_bits br) then map_option unat x = Some (val_of (take n (br_bits br))) \<and>
       br_bits br' = drop n (br_bits br) else x = None \<and> br_bits br' = br_bits br" by blast
  show ?thesis
  proof (cases "n \<le> length bits")
    case False
    with x short [of br'] bits show ?thesis by (simp add: refines_def p_bits_def)
  next
    case True
    with x bits obtain v where v: "x = Some v" "unat v = val_of (take n bits)" "br_bits br' = drop n bits"
      by auto
    have "unat v < 2 ^ n" using v(2) val_of_lt [of "take n bits"] True by simp
    from cont [OF x(2) v(3) this] obtain r s where rs: "next1 v br' = Some (r, s)" "br_inv (rd s)"
      "case k (unat v) (drop n bits) of
         Good w rest \<Rightarrow> r = ResultSuccess \<and> fin s = w \<and> br_bits (rd s) = rest
       | Bad e \<Rightarrow> r = ResultError \<and> er s = Some e
       | Short \<Rightarrow> r = ResultNeedsMoreInput \<and> good s \<and>
           (\<forall>x. resid s (br_bits (rd s) @ x) = k (unat v) (drop n bits @ x))"
      unfolding refines_def by blast
    have p: "p_bits n k (bits @ y) = k (unat v) (drop n bits @ y)" for y
      using True v(2) by (simp add: p_bits_def)
    from rs p [of "[]"] p show ?thesis
      unfolding refines_def x(1) v(1) by (auto split: parse.splits)
  qed
qed


subsection \<open>The contract and chunk independence\<close>

text \<open>\<open>feed\<close> calls the operation, and on \<open>ResultNeedsMoreInput\<close> puts the next chunk behind the unread
  tail, the way \<^verbatim>\<open>Reader.fill\<close> does, and calls it again.\<close>

fun feed :: "('s \<Rightarrow> bitReader) \<Rightarrow> (bitReader \<Rightarrow> 's \<Rightarrow> 's) \<Rightarrow> ('s \<Rightarrow> (decoderResult \<times> 's) option)
    \<Rightarrow> byte list list \<Rightarrow> 's \<Rightarrow> (decoderResult \<times> 's \<times> byte list list) option" where
  "feed rd set_rd run [] s = map_option (\<lambda>(r, s). (r, s, [])) (run s)"
| "feed rd set_rd run (c # cs) s = do {
     (r, s) \<leftarrow> run s;
     if r = ResultNeedsMoreInput
     then let u = unload (rd s) in
       feed rd set_rd run cs (set_rd (setInput (drop (nat (br_pos u)) (br_input u) @ c) u) s)
     else Some (r, s, c # cs) }"

locale suspendable =
  fixes rd :: "'s \<Rightarrow> bitReader"
    and set_rd :: "bitReader \<Rightarrow> 's \<Rightarrow> 's"
    and er :: "'s \<Rightarrow> string option"
    and run :: "'s \<Rightarrow> (decoderResult \<times> 's) option"
    and good :: "'s \<Rightarrow> bool"
    and resid :: "'s \<Rightarrow> bool list \<Rightarrow> 'a parse"
    and fin :: "'s \<Rightarrow> 'a"
  assumes rd_set: "rd (set_rd br s) = br"
    and good_set: "good (set_rd br s) = good s"
    and resid_set: "resid (set_rd br s) = resid s"
    and resid_stable: "good s \<Longrightarrow> stable_parse (resid s)"
    and run_refines: "good s \<Longrightarrow> br_inv (rd s) \<Longrightarrow>
      refines rd er good resid fin (run s) (resid s) (br_bits (rd s))"
begin

lemma run_Good:
  assumes "good s" "br_inv (rd s)" "resid s (br_bits (rd s)) = Good v rest"
  obtains s' where "run s = Some (ResultSuccess, s')" "fin s' = v" "br_inv (rd s')" "br_bits (rd s') = rest"
  using run_refines [OF assms(1,2)] assms(3) that by (auto simp: refines_def)

lemma run_total:
  assumes "good s" "br_inv (rd s)"
  obtains r s' where "run s = Some (r, s')" "br_inv (rd s')" "r \<noteq> ResultNeedsMoreOutput"
  using run_refines [OF assms] that by (cases "resid s (br_bits (rd s))") (auto simp: refines_def)

text \<open>The outcome of feeding the chunks is that of the parser on the whole input: success with its
  value and with the rest of the input unread, its error, or a state that still needs input.\<close>

theorem feed_parse:
  assumes "good s" "br_inv (rd s)"
  shows "\<exists>r s' rest. feed rd set_rd run cs s = Some (r, s', rest) \<and> br_inv (rd s') \<and>
    (case resid s (br_bits (rd s) @ bytes_bits (concat cs)) of
       Good v bs \<Rightarrow> r = ResultSuccess \<and> fin s' = v \<and> br_bits (rd s') @ bytes_bits (concat rest) = bs
     | Bad e \<Rightarrow> r = ResultError \<and> er s' = Some e
     | Short \<Rightarrow> r = ResultNeedsMoreInput \<and> good s' \<and> rest = [])"
  using assms
proof (induction cs arbitrary: s)
  case Nil
  from run_refines [OF Nil] show ?case
    by (cases "resid s (br_bits (rd s))") (auto simp: refines_def)
next
  case (Cons c cs)
  from run_refines [OF Cons.prems] obtain r s1 where r: "run s = Some (r, s1)" "br_inv (rd s1)"
    "case resid s (br_bits (rd s)) of
        Good v rest \<Rightarrow> r = ResultSuccess \<and> fin s1 = v \<and> br_bits (rd s1) = rest
      | Bad e \<Rightarrow> r = ResultError \<and> er s1 = Some e
      | Short \<Rightarrow> r = ResultNeedsMoreInput \<and> good s1 \<and>
          (\<forall>x. resid s1 (br_bits (rd s1) @ x) = resid s (br_bits (rd s) @ x))"
    unfolding refines_def by blast
  note st = stable_parseD [OF resid_stable [OF Cons.prems(1)]]
  show ?case
  proof (cases "resid s (br_bits (rd s))")
    case Short
    let ?u = "unload (rd s1)"
    let ?s = "set_rd (setInput (drop (nat (br_pos ?u)) (br_input ?u) @ c) ?u) s1"
    have g: "good ?s" "br_inv (rd ?s)" "br_bits (rd ?s) = br_bits (rd s1) @ bytes_bits c"
      using r Short refeed_ok [OF r(2), of c] by (simp_all add: rd_set good_set)
    have "resid ?s (br_bits (rd ?s) @ bytes_bits (concat cs)) =
        resid s (br_bits (rd s) @ bytes_bits (concat (c # cs)))"
      using r(3) Short g(3) by (simp add: resid_set)
    with Cons.IH [OF g(1,2)] r Short show ?thesis by (simp add: Let_def)
  next
    case (Bad e)
    with r show ?thesis by (simp add: st(2) [OF Bad])
  next
    case (Good v rest)
    with r show ?thesis by (simp add: st(1) [OF Good])
  qed
qed

text \<open>Two ways to cut the same input into chunks give the same outcome.\<close>

theorem feed_independent:
  assumes "good s" "br_inv (rd s)" "concat cs = concat ds"
  shows "\<exists>r s1 t1 s2 t2. feed rd set_rd run cs s = Some (r, s1, t1) \<and> feed rd set_rd run ds s = Some (r, s2, t2) \<and>
    (r = ResultSuccess \<longrightarrow> fin s1 = fin s2 \<and>
       br_bits (rd s1) @ bytes_bits (concat t1) = br_bits (rd s2) @ bytes_bits (concat t2)) \<and>
    (r = ResultError \<longrightarrow> er s1 = er s2)"
proof -
  from feed_parse [OF assms(1,2), of cs] feed_parse [OF assms(1,2), of ds] show ?thesis
    unfolding assms(3) by (cases "resid s (br_bits (rd s) @ bytes_bits (concat ds))") auto
qed

end

end
