(* ===== verification/Bit_Writer.thy ===== *)
theory Bit_Writer
  imports Prelude
begin

unbundle bit_operations_syntax

text \<open>
  The bit writer of \<^verbatim>\<open>internal/encoder/bitwriter.go\<close> with the portable stores of
  \<^verbatim>\<open>le_generic.go\<close>: every write is one 8-byte little-endian store at the current byte, which
  overwrites the 7 bytes that follow with zeros. The abstraction \<open>bw_bits\<close> is the bit string
  written so far; the invariant \<open>bw_inv\<close> says that the rest of the current byte is zero, which is
  what lets the next store combine with a bitwise or.

  The locale \<open>bit_sink\<close> is the interface the rest of the encoder relies on: writing a field
  appends its bits. It is interpreted on \<open>writeBits\<close> and on \<open>writeBitsAt\<close>.
\<close>

record bitWriter =
  buf :: "byte list"
  bitOffset :: nat

definition writeBitsAt :: "byte list \<Rightarrow> nat \<Rightarrow> nat \<Rightarrow> u64 \<Rightarrow> (byte list \<times> nat) option" where
  "writeBitsAt bf off nbits value =
     (let bytePos = off div 8; bitOff = off mod 8 in do {
        p \<leftarrow> go_slice bf (int bytePos) (int (bytePos + 8));
        let v = ucast (p ! 0) OR push_bit bitOff value;
        Some (overwrite bf bytePos (le_store v), off + nbits) })"

definition writeBits :: "nat \<Rightarrow> u64 \<Rightarrow> bitWriter \<Rightarrow> bitWriter option" where
  "writeBits nbits value b =
     (let bytePos = bitOffset b div 8; bitOff = bitOffset b mod 8 in do {
        p \<leftarrow> go_slice (buf b) (int bytePos) (int (bytePos + 8));
        let v = ucast (p ! 0) OR push_bit bitOff value;
        Some (b\<lparr>buf := overwrite (buf b) bytePos (le_store v),
               bitOffset := bitOffset b + nbits\<rparr>) })"

fun writeLiteralBitsAt ::
  "byte list \<Rightarrow> nat \<Rightarrow> byte list \<Rightarrow> (byte \<Rightarrow> nat) \<Rightarrow> (byte \<Rightarrow> u16) \<Rightarrow> (byte list \<times> nat) option" where
  "writeLiteralBitsAt bf off [] depths bs = Some (bf, off)"
| "writeLiteralBitsAt bf off (lit # input) depths bs =
     (let bytePos = off div 8; bitOff = off mod 8 in do {
        p \<leftarrow> go_slice bf (int bytePos) (int (bytePos + 8));
        let v = ucast (p ! 0) OR push_bit bitOff (ucast (bs lit));
        writeLiteralBitsAt (overwrite bf bytePos (le_store v)) (off + depths lit) input depths bs })"

definition byteAlign :: "bitWriter \<Rightarrow> bitWriter" where
  "byteAlign b = b\<lparr>bitOffset := (bitOffset b + 7) div 8 * 8\<rparr>"

text \<open>\<^verbatim>\<open>copy(b.buf[off:], data)\<close> copies what fits; the write of the zero byte after the data panics
  unless that byte exists, so a normal return means all of \<open>data\<close> fitted.\<close>

definition writeBytes :: "byte list \<Rightarrow> bitWriter \<Rightarrow> bitWriter option" where
  "writeBytes data b =
     (let off = bitOffset b div 8;
          n = min (length data) (length (buf b) - off);
          bo = bitOffset b + length data * 8 in
      if off \<le> length (buf b) then do {
        bf \<leftarrow> go_update (overwrite (buf b) off (take n data)) (int (bo div 8)) 0;
        Some (b\<lparr>buf := bf, bitOffset := bo\<rparr>) }
      else None)"

definition rewindTo :: "nat \<Rightarrow> bitWriter \<Rightarrow> bitWriter option" where
  "rewindTo off b =
     (let mask = (push_bit (off mod 8) 1 - 1 :: byte) in do {
        x \<leftarrow> go_index (buf b) (int (off div 8));
        bf \<leftarrow> go_update (buf b) (int (off div 8)) (x AND mask);
        Some (b\<lparr>buf := bf, bitOffset := off\<rparr>) })"


subsection \<open>The bits written and the representation invariant\<close>

definition bits_upto :: "byte list \<Rightarrow> nat \<Rightarrow> bool list" where
  "bits_upto bf off = take off (bytes_bits bf)"

definition clean_at :: "byte list \<Rightarrow> nat \<Rightarrow> bool" where
  "clean_at bf off \<longleftrightarrow> off < 8 * length bf \<and>
     (\<forall>k. off \<le> k \<and> k < 8 * (off div 8 + 1) \<longrightarrow> \<not> bytes_bits bf ! k)"

definition bw_bits :: "bitWriter \<Rightarrow> bool list" where
  "bw_bits b = bits_upto (buf b) (bitOffset b)"

definition bw_inv :: "bitWriter \<Rightarrow> bool" where
  "bw_inv b \<longleftrightarrow> clean_at (buf b) (bitOffset b)"

definition bw_room :: "bitWriter \<Rightarrow> nat" where
  "bw_room b = 8 * length (buf b) - 56 - bitOffset b"

lemma length_bw_bits [simp]: "bw_inv b \<Longrightarrow> length (bw_bits b) = bitOffset b"
  by (auto simp: bw_bits_def bits_upto_def bw_inv_def clean_at_def)

text \<open>The value stored is the current byte with the field above it.\<close>

lemma bit_store_value:
  fixes x :: u64
  assumes clean: "clean_at bf (8 * d + r)" and r: "r < 8"
    and n: "n \<le> 56" and v: "unat x < 2 ^ n" and j: "j < 64"
  shows "bit (ucast (bf ! d) OR push_bit r x :: u64) j \<longleftrightarrow>
           (if j < r then bytes_bits bf ! (8 * d + j) else j < r + n \<and> bit x (j - r))"
proof -
  have d: "d < length bf" using clean by (simp add: clean_at_def)
  have byte: "bit (bf ! d) i = bytes_bits bf ! (8 * d + i)" if "i < 8" for i
    using d that by (simp add: nth_bytes_bits)
  have zero: "\<not> bit (bf ! d) i" if "r \<le> i" for i
  proof (cases "i < 8")
    case True
    with that r clean byte [OF True] show ?thesis by (simp add: clean_at_def)
  next
    case False
    then show ?thesis using bit_imp_le_length [of "bf ! d" i] by auto
  qed
  have "bit (ucast (bf ! d) OR push_bit r x :: u64) j \<longleftrightarrow> bit (bf ! d) j \<or> r \<le> j \<and> bit x (j - r)"
    using j by (auto simp: bit_or_iff bit_push_bit_iff bit_ucast_iff)
  also have "\<dots> \<longleftrightarrow> (if j < r then bytes_bits bf ! (8 * d + j) else j < r + n \<and> bit x (j - r))"
  proof (cases "j < r")
    case True
    with r byte show ?thesis by simp
  next
    case False
    moreover have "bit x (j - r) \<Longrightarrow> j < r + n"
      using bit_high_unset [OF v, of "j - r"] False by (cases "j < r + n") auto
    ultimately show ?thesis using zero [of j] by auto
  qed
  finally show ?thesis .
qed

lemma nth_store:
  fixes w :: u64
  assumes "d + 8 \<le> length bf" "k < 8 * length bf"
  shows "bytes_bits (overwrite bf d (le_store w)) ! k =
     (if 8 * d \<le> k \<and> k < 8 * d + 64 then bit w (k - 8 * d) else bytes_bits bf ! k)"
  using assms by (subst bytes_bits_overwrite) (auto simp: nth_overwrite bytes_bits_le_store)

lemma store_clean:
  fixes x :: u64
  assumes clean: "clean_at bf (8 * d + r)" and r: "r < 8"
    and n: "n \<le> 56" and v: "unat x < 2 ^ n" and room: "d + 8 \<le> length bf"
  defines "bf' \<equiv> overwrite bf d (le_store (ucast (bf ! d) OR push_bit r x))"
  shows "clean_at bf' (8 * d + r + n)"
  unfolding clean_at_def
proof (intro conjI allI impI)
  have len: "length bf' = length bf" using room by (simp add: bf'_def)
  show "8 * d + r + n < 8 * length bf'" using r n room len by linarith
  fix k assume *: "8 * d + r + n \<le> k \<and> k < 8 * ((8 * d + r + n) div 8 + 1)"
  have "(8 * d + r + n) div 8 \<le> d + 7" using r n by linarith
  then have "8 * ((8 * d + r + n) div 8 + 1) \<le> 8 * d + 64" by simp
  with * have k: "8 * d + r + n \<le> k" "k < 8 * d + 64" by simp_all
  define j where "j = k - 8 * d"
  have j: "k = 8 * d + j" "j < 64" "\<not> j < r" "\<not> j < r + n" using k by (auto simp: j_def)
  have "bytes_bits bf' ! k \<longleftrightarrow> bit (ucast (bf ! d) OR push_bit r x :: u64) j"
    unfolding bf'_def using j room by (subst nth_store) auto
  with bit_store_value [OF clean r n v j(2)] j(3,4) show "\<not> bytes_bits bf' ! k" by simp
qed

lemma store_bits:
  fixes x :: u64
  assumes clean: "clean_at bf (8 * d + r)" and r: "r < 8"
    and n: "n \<le> 56" and v: "unat x < 2 ^ n" and room: "d + 8 \<le> length bf"
  defines "bf' \<equiv> overwrite bf d (le_store (ucast (bf ! d) OR push_bit r x))"
  shows "bits_upto bf' (8 * d + r + n) = bits_upto bf (8 * d + r) @ bits_of n x"
proof (rule nth_equalityI)
  have len: "length bf' = length bf" using room by (simp add: bf'_def)
  have fits: "8 * d + r + n < 8 * length bf" using r n room by linarith
  then show "length (bits_upto bf' (8 * d + r + n)) = length (bits_upto bf (8 * d + r) @ bits_of n x)"
    using len by (simp add: bits_upto_def)
  fix k assume "k < length (bits_upto bf' (8 * d + r + n))"
  then have k: "k < 8 * d + r + n" by (simp add: bits_upto_def)
  have l: "bits_upto bf' (8 * d + r + n) ! k = bytes_bits bf' ! k"
    using k by (simp add: bits_upto_def)
  have rhs: "(bits_upto bf (8 * d + r) @ bits_of n x) ! k =
      (if k < 8 * d + r then bytes_bits bf ! k else bit x (k - (8 * d + r)))"
    using k fits by (simp add: bits_upto_def nth_append)
  show "bits_upto bf' (8 * d + r + n) ! k = (bits_upto bf (8 * d + r) @ bits_of n x) ! k"
  proof (cases "k < 8 * d")
    case True
    then have "bytes_bits bf' ! k = bytes_bits bf ! k"
      unfolding bf'_def using room by (subst nth_store) auto
    with True l rhs show ?thesis by simp
  next
    case False
    define j where "j = k - 8 * d"
    have j: "k = 8 * d + j" "j < 64" "j < r + n" using k False r n by (auto simp: j_def)
    have "bytes_bits bf' ! k \<longleftrightarrow> bit (ucast (bf ! d) OR push_bit r x :: u64) j"
      unfolding bf'_def using j room by (subst nth_store) auto
    with bit_store_value [OF clean r n v j(2)] j(1,3) l rhs show ?thesis by auto
  qed
qed

lemma writeBitsAt_ok:
  fixes x :: u64
  assumes clean: "clean_at bf off" and n: "n \<le> 56" and v: "unat x < 2 ^ n"
    and room: "off div 8 + 8 \<le> length bf"
  obtains bf' where "writeBitsAt bf off n x = Some (bf', off + n)"
    and "length bf' = length bf" and "clean_at bf' (off + n)"
    and "bits_upto bf' (off + n) = bits_upto bf off @ bits_of n x"
proof -
  define d r where "d = off div 8" and "r = off mod 8"
  have off: "off = 8 * d + r" and r: "r < 8" by (simp_all add: d_def r_def)
  have room': "d + 8 \<le> length bf" using room by (simp add: d_def)
  let ?bf = "overwrite bf d (le_store (ucast (bf ! d) OR push_bit r x))"
  have "go_slice bf (int d) (int (d + 8)) = Some (take 8 (drop d bf))"
    using room' by (simp add: go_slice_def)
  moreover have "take 8 (drop d bf) ! 0 = bf ! d" using room' by simp
  ultimately have "writeBitsAt bf off n x = Some (?bf, off + n)"
    by (simp add: writeBitsAt_def Let_def d_def [symmetric] r_def [symmetric] del: of_nat_add)
  moreover note store_clean [OF clean [unfolded off] r n v room']
    store_bits [OF clean [unfolded off] r n v room']
  moreover have "length ?bf = length bf" using room' by simp
  ultimately show thesis using that unfolding off by blast
qed


subsection \<open>The interface of a bit sink\<close>

text \<open>Writing a sequence of fields, for any sink.\<close>

fun put_fields :: "(nat \<Rightarrow> u64 \<Rightarrow> 'w \<Rightarrow> 'w option) \<Rightarrow> (nat \<times> u64) list \<Rightarrow> 'w \<Rightarrow> 'w option" where
  "put_fields put [] w = Some w"
| "put_fields put ((n, v) # fs) w = do { w' \<leftarrow> put n v w; put_fields put fs w' }"

lemma put_fields_fun:
  "put_fields put [] = Some"
  "put_fields put ((n, v) # fs) = (\<lambda>w. put n v w \<bind> put_fields put fs)"
  by (auto simp: fun_eq_iff)

lemma put_fields_append:
  "put_fields put (fs @ gs) w = do { w' \<leftarrow> put_fields put fs w; put_fields put gs w' }"
  by (induction put fs w rule: put_fields.induct) (auto split: bind_splits)

locale bit_sink =
  fixes put :: "nat \<Rightarrow> u64 \<Rightarrow> 'w \<Rightarrow> 'w option"
    and out :: "'w \<Rightarrow> bool list"
    and room :: "'w \<Rightarrow> nat"
    and inv :: "'w \<Rightarrow> bool"
  assumes put_ok: "inv w \<Longrightarrow> n \<le> 56 \<Longrightarrow> unat v < 2 ^ n \<Longrightarrow> n < room w \<Longrightarrow>
    \<exists>w'. put n v w = Some w' \<and> inv w' \<and> out w' = out w @ bits_of n v \<and> room w' = room w - n"
begin

lemma put_fields_ok:
  "inv w \<Longrightarrow> fields_ok fs \<Longrightarrow> length (fields_bits fs) < room w \<Longrightarrow>
    \<exists>w'. put_fields put fs w = Some w' \<and> inv w' \<and> out w' = out w @ fields_bits fs \<and>
         room w' = room w - length (fields_bits fs)"
proof (induction fs arbitrary: w)
  case Nil
  then show ?case by simp
next
  case (Cons f fs)
  obtain n v where f: "f = (n, v)" by force
  with Cons.prems put_ok [of w n v] obtain w1 where
    w1: "put n v w = Some w1" "inv w1" "out w1 = out w @ bits_of n v" "room w1 = room w - n"
    by auto
  with Cons.prems f have "fields_ok fs" "length (fields_bits fs) < room w1" by auto
  from Cons.IH [OF w1(2) this] w1 f show ?case by auto
qed

end

definition bwa_room :: "byte list \<times> nat \<Rightarrow> nat" where
  "bwa_room = (\<lambda>(bf, off). 8 * length bf - 56 - off)"

interpretation at_sink: bit_sink
  "\<lambda>n v (bf, off). writeBitsAt bf off n v" "\<lambda>(bf, off). bits_upto bf off" bwa_room
  "\<lambda>(bf, off). clean_at bf off"
proof (unfold_locales, clarify)
  fix bf :: "byte list" and off n :: nat and v :: u64
  assume *: "clean_at bf off" "n \<le> 56" "unat v < 2 ^ n" "n < bwa_room (bf, off)"
  then have "off div 8 + 8 \<le> length bf" by (simp add: bwa_room_def)
  from writeBitsAt_ok [OF *(1-3) this] obtain bf' where
    "writeBitsAt bf off n v = Some (bf', off + n)" "length bf' = length bf"
    "clean_at bf' (off + n)" "bits_upto bf' (off + n) = bits_upto bf off @ bits_of n v" by blast
  then show "\<exists>w'. writeBitsAt bf off n v = Some w' \<and> (case w' of (bf, off) \<Rightarrow> clean_at bf off) \<and>
     (case w' of (bf, off) \<Rightarrow> bits_upto bf off) = bits_upto bf off @ bits_of n v \<and>
     bwa_room w' = bwa_room (bf, off) - n"
    by (auto simp: bwa_room_def)
qed

text \<open>\<open>writeBits\<close> is \<open>writeBitsAt\<close> on the fields of the writer.\<close>

lemma writeBits_At:
  "writeBits n v b = do { (bf, off) \<leftarrow> writeBitsAt (buf b) (bitOffset b) n v;
                          Some (b\<lparr>buf := bf, bitOffset := off\<rparr>) }"
  by (simp add: writeBits_def writeBitsAt_def Let_def split: bind_splits)

interpretation writer_sink: bit_sink writeBits bw_bits bw_room bw_inv
proof
  fix b :: bitWriter and n :: nat and v :: u64
  assume *: "bw_inv b" "n \<le> 56" "unat v < 2 ^ n" "n < bw_room b"
  then have "clean_at (buf b) (bitOffset b)" "bitOffset b div 8 + 8 \<le> length (buf b)"
    by (simp_all add: bw_inv_def bw_room_def)
  with * obtain bf where "writeBitsAt (buf b) (bitOffset b) n v = Some (bf, bitOffset b + n)"
    "length bf = length (buf b)" "clean_at bf (bitOffset b + n)"
    "bits_upto bf (bitOffset b + n) = bits_upto (buf b) (bitOffset b) @ bits_of n v"
    using writeBitsAt_ok [of "buf b" "bitOffset b" n v] by metis
  then show "\<exists>w'. writeBits n v b = Some w' \<and> bw_inv w' \<and> bw_bits w' = bw_bits b @ bits_of n v \<and>
      bw_room w' = bw_room b - n"
    by (auto simp: writeBits_At bw_inv_def bw_bits_def bw_room_def)
qed


subsection \<open>Alignment, raw bytes, rewinding\<close>

lemma bw_bits_byteAlign:
  assumes "bw_inv b" and "bitOffset (byteAlign b) \<le> 8 * length (buf b)"
  shows "bw_bits (byteAlign b) = bw_bits b @ replicate (bitOffset (byteAlign b) - bitOffset b) False"
proof (rule nth_equalityI)
  let ?o = "bitOffset b" and ?a = "bitOffset (byteAlign b)"
  have a: "?o \<le> ?a" "?a \<le> 8 * (?o div 8 + 1)" unfolding byteAlign_def by simp_all presburger+
  show "length (bw_bits (byteAlign b)) = length (bw_bits b @ replicate (?a - ?o) False)"
    using assms a by (simp add: bw_bits_def bits_upto_def bw_inv_def clean_at_def byteAlign_def)
  fix k assume "k < length (bw_bits (byteAlign b))"
  then have k: "k < ?a" by (simp add: bw_bits_def bits_upto_def)
  have "\<not> bytes_bits (buf b) ! k" if "?o \<le> k"
    using that k a assms(1) by (auto simp: bw_inv_def clean_at_def)
  with k a assms(1) show "bw_bits (byteAlign b) ! k = (bw_bits b @ replicate (?a - ?o) False) ! k"
    by (auto simp: bw_bits_def bits_upto_def nth_append bw_inv_def clean_at_def byteAlign_def)
qed

lemma writeBytes_ok:
  assumes "bitOffset b mod 8 = 0" and "bitOffset b div 8 + length data < length (buf b)"
  obtains b' where "writeBytes data b = Some b'" "bw_inv b'"
    "bw_bits b' = bw_bits b @ bytes_bits data" "length (buf b') = length (buf b)"
proof -
  define d where "d = bitOffset b div 8"
  have o: "bitOffset b = 8 * d" using assms(1) by (auto simp: d_def)
  have fits: "d + length data < length (buf b)" using assms(2) by (simp add: d_def)
  let ?bf = "(overwrite (buf b) d data)[d + length data := 0]"
  let ?b = "b\<lparr>buf := ?bf, bitOffset := 8 * d + length data * 8\<rparr>"
  have dv: "(8 * d + length data * 8) div 8 = d + length data" by simp
  have "writeBytes data b = Some ?b"
    using fits by (simp add: writeBytes_def Let_def o dv go_update_def min_def nat_add_distrib)
  moreover have "bw_inv ?b"
    unfolding bw_inv_def clean_at_def
  proof (intro conjI allI impI)
    show "bitOffset ?b < 8 * length (buf ?b)" using fits by simp
    fix k assume "bitOffset ?b \<le> k \<and> k < 8 * (bitOffset ?b div 8 + 1)"
    then have "8 * (d + length data) \<le> k" "k < 8 * (d + length data) + 8" by (auto simp: dv)
    then have "k div 8 = d + length data" by (rule div8_eqI)
    moreover have "k < 8 * length ?bf" using fits \<open>k < 8 * (d + length data) + 8\<close> by simp
    ultimately show "\<not> bytes_bits (buf ?b) ! k" using fits by (simp add: nth_bytes_bits)
  qed
  moreover have "bw_bits ?b = bw_bits b @ bytes_bits data"
  proof -
    have "8 * d + length data * 8 = 8 * (d + length data)" by simp
    then have "bw_bits ?b = bytes_bits (take (d + length data) ?bf)"
      unfolding bw_bits_def bits_upto_def take_bytes_bits [symmetric] by (simp add: mult.commute)
    also have "take (d + length data) ?bf = take d (buf b) @ data"
      using fits by (simp add: take_overwrite_end)
    finally show ?thesis by (simp add: bw_bits_def bits_upto_def o take_bytes_bits)
  qed
  moreover have "length (buf ?b) = length (buf b)" using fits by simp
  ultimately show thesis using that by blast
qed

lemma rewindTo_ok:
  assumes "off < 8 * length (buf b)" and "off \<le> bitOffset b"
  obtains b' where "rewindTo off b = Some b'" "bw_inv b'" "bw_bits b' = take off (bw_bits b)"
    "length (buf b') = length (buf b)"
proof -
  define d r where "d = off div 8" and "r = off mod 8"
  have o: "off = 8 * d + r" and r: "r < 8" by (simp_all add: d_def r_def)
  have d: "d < length (buf b)" using assms(1) o by linarith
  define m where "m = (push_bit r 1 - 1 :: byte)"
  have m: "bit m i \<longleftrightarrow> i < r" if "i < 8" for i
    using that unfolding m_def push_bit_of_1 mask_eq_exp_minus_1 [symmetric]
    by (simp add: bit_mask_iff)
  let ?bf = "(buf b)[d := buf b ! d AND m]"
  let ?b = "b\<lparr>buf := ?bf, bitOffset := off\<rparr>"
  have "rewindTo off b = Some ?b"
    using d by (simp add: rewindTo_def Let_def go_index_def go_update_def
        d_def [symmetric] r_def [symmetric] m_def)
  moreover have nth: "bytes_bits ?bf ! k \<longleftrightarrow> bytes_bits (buf b) ! k \<and> (k div 8 = d \<longrightarrow> k mod 8 < r)"
    if "k < 8 * length (buf b)" for k
    using that d m [of "k mod 8"] by (auto simp: nth_bytes_bits nth_list_update bit_and_iff)
  moreover have "bw_inv ?b"
    unfolding bw_inv_def clean_at_def
  proof (intro conjI allI impI)
    show "bitOffset ?b < 8 * length (buf ?b)" using assms(1) by simp
    fix k assume "bitOffset ?b \<le> k \<and> k < 8 * (bitOffset ?b div 8 + 1)"
    then have k: "8 * d + r \<le> k" "k < 8 * d + 8" using r by (auto simp: o)
    then have "k div 8 = d" by (intro div8_eqI) auto
    moreover have "8 * (k div 8) + k mod 8 = k" by simp
    ultimately have "k div 8 = d" "\<not> k mod 8 < r" using k by linarith+
    with nth [of k] k d show "\<not> bytes_bits (buf ?b) ! k" by auto
  qed
  moreover have "bw_bits ?b = take off (bw_bits b)"
  proof (rule nth_equalityI)
    show "length (bw_bits ?b) = length (take off (bw_bits b))"
      using assms by (simp add: bw_bits_def bits_upto_def)
    fix k assume "k < length (bw_bits ?b)"
    then have k: "k < off" by (simp add: bw_bits_def bits_upto_def)
    moreover have "8 * (k div 8) + k mod 8 = k" by simp
    ultimately have "k div 8 = d \<longrightarrow> k mod 8 < r" using o by linarith
    with nth [of k] k assms show "bw_bits ?b ! k = take off (bw_bits b) ! k"
      by (auto simp: bw_bits_def bits_upto_def)
  qed
  moreover have "length (buf ?b) = length (buf b)" by simp
  ultimately show thesis using that by blast
qed

end
