(* ===== verification/Stream_Writer.thy ===== *)
theory Stream_Writer
  imports Bit_Writer
begin

unbundle bit_operations_syntax

text \<open>
  The fixed parts of a brotli stream as the encoder writes them: window size, metablock headers,
  uncompressed metablocks, the variable-length byte and the precomputed prefix codes
  (\<^verbatim>\<open>internal/encoder/encoder.go\<close>, \<^verbatim>\<open>metablock.go\<close>, \<^verbatim>\<open>bitwriter.go\<close>). Each writer is a sequence of
  \<open>writeBits\<close> calls; the \<open>_fields\<close> functions list the fields, and the lemmas of this theory say
  that the writer appends exactly those fields.
\<close>

subsection \<open>Operations\<close>

record mlenEncoding =
  mlen_bits :: u64
  numBits :: nat
  nibbleBits :: u64

text \<open>\<^verbatim>\<open>uint(length - 1)\<close> wraps for a length below 1.\<close>

definition encodeMlen :: "int \<Rightarrow> mlenEncoding" where
  "encodeMlen len =
     (let lg = bits_Len (nat ((len - 1) mod 2 ^ 64));
          lg = (if lg = 0 then 1 else lg);
          mnibbles = (max lg 16 + 3) div 4 in
      \<lparr>mlen_bits = of_int (len - 1), numBits = mnibbles * 4, nibbleBits = of_nat (mnibbles - 4)\<rparr>)"

definition writeMetaBlockHeader :: "int \<Rightarrow> bool \<Rightarrow> bool \<Rightarrow> bitWriter \<Rightarrow> bitWriter option" where
  "writeMetaBlockHeader len isLast uncompressed b =
     (let mlen = encodeMlen len in
      if isLast then do {
        b \<leftarrow> writeBits 1 1 b;
        b \<leftarrow> writeBits 1 0 b;
        b \<leftarrow> writeBits 2 (nibbleBits mlen) b;
        writeBits (numBits mlen) (mlen_bits mlen) b }
      else do {
        b \<leftarrow> writeBits 1 0 b;
        b \<leftarrow> writeBits 2 (nibbleBits mlen) b;
        b \<leftarrow> writeBits (numBits mlen) (mlen_bits mlen) b;
        writeBits 1 (if uncompressed then 1 else 0) b })"

definition writeUncompressedMetaBlock :: "byte list \<Rightarrow> bitWriter \<Rightarrow> bitWriter option" where
  "writeUncompressedMetaBlock data b = do {
     b \<leftarrow> writeMetaBlockHeader (int (length data)) False True b;
     writeBytes data (byteAlign b) }"

text \<open>\<^verbatim>\<open>encodeWindowBits\<close> returns the header bits and their number.\<close>

definition encodeWindowBits :: "int \<Rightarrow> u16 \<times> nat" where
  "encodeWindowBits lgwin =
     (if lgwin = 16 then (0, 1)
      else if lgwin = 17 then (1, 7)
      else if lgwin > 17 then (of_int (push_bit 1 (lgwin - 17) OR 1), 4)
      else (of_int (push_bit 4 (lgwin - 8) OR 1), 7))"

definition storeVarLenUint8 :: "nat \<Rightarrow> bitWriter \<Rightarrow> bitWriter option" where
  "storeVarLenUint8 n b =
     (if n = 0 then writeBits 1 0 b
      else let nbits = bits_Len n - 1 in do {
        b \<leftarrow> writeBits 1 1 b;
        b \<leftarrow> writeBits 3 (of_nat nbits) b;
        writeBits nbits (of_nat n - of_nat (2 ^ nbits)) b })"

definition writeStaticCodeLengthCode :: "bitWriter \<Rightarrow> bitWriter option" where
  "writeStaticCodeLengthCode = writeBits 40 0x0000FF55555554"

definition writeStaticCommandHuffmanTree :: "bitWriter \<Rightarrow> bitWriter option" where
  "writeStaticCommandHuffmanTree b = do { b \<leftarrow> writeBits 56 0x0092624416307003 b; writeBits 3 0 b }"

definition writeStaticDistanceHuffmanTree :: "bitWriter \<Rightarrow> bitWriter option" where
  "writeStaticDistanceHuffmanTree = writeBits 28 0x0369DC03"

text \<open>A 64-bit input position as a 32-bit ring position that is never on the first lap again.\<close>

definition wrapPosition :: "u64 \<Rightarrow> u64" where
  "wrapPosition position =
     (let result = (ucast position :: u32); gb = drop_bit 30 position in
      ucast (if gb > 2
        then (result AND (2 ^ 30 - 1)) OR push_bit 30 (ucast ((gb - 1) AND 1) + 1)
        else result))"


subsection \<open>The fields each writer appends\<close>

definition varlen_fields :: "nat \<Rightarrow> (nat \<times> u64) list" where
  "varlen_fields n = (if n = 0 then [(1, 0)]
     else [(1, 1), (3, of_nat (bits_Len n - 1)),
           (bits_Len n - 1, of_nat (n - 2 ^ (bits_Len n - 1)))])"

definition header_fields :: "nat \<Rightarrow> bool \<Rightarrow> bool \<Rightarrow> (nat \<times> u64) list" where
  "header_fields len isLast uncompressed =
     (let nib = (max (bits_Len (len - 1)) 16 + 3) div 4 in
      (if isLast then [(1, 1), (1, 0)] else [(1, 0)]) @
      [(2, of_nat (nib - 4)), (nib * 4, of_nat (len - 1))] @
      (if isLast then [] else [(1, if uncompressed then 1 else 0)]))"

lemma storeVarLenUint8_fields:
  "storeVarLenUint8 n b = put_fields writeBits (varlen_fields n) b"
proof (cases "n = 0")
  case False
  define k where "k = bits_Len n - 1"
  have "2 ^ k \<le> n" using bits_Len_split [OF False] by (simp add: k_def)
  then have "(of_nat (n - 2 ^ k) :: u64) = of_nat n - of_nat (2 ^ k)" by (rule of_nat_diff)
  then show ?thesis using False
    unfolding storeVarLenUint8_def varlen_fields_def Let_def k_def [symmetric]
    by (simp add: put_fields_fun)
qed (simp add: storeVarLenUint8_def varlen_fields_def put_fields_fun)

lemma varlen_fields_ok:
  assumes "n < 256"
  shows "fields_ok (varlen_fields n)"
proof (cases "n = 0")
  case False
  define k where "k = bits_Len n - 1"
  have "bits_Len n \<le> 8" using assms bits_Len_le_iff [of n 8] by simp
  then have k: "k < 8" using False bits_Len_pos [of n] by (simp add: k_def)
  have "n - 2 ^ k < 2 ^ k" using bits_Len_split [OF False] by (simp add: k_def)
  moreover have "unat (of_nat (n - 2 ^ k) :: u64) = n - 2 ^ k"
    using assms by (intro unat_of_nat64) simp
  moreover have "unat (of_nat k :: u64) = k" using k by (intro unat_of_nat64) simp
  ultimately show ?thesis using False k
    unfolding varlen_fields_def k_def [symmetric] by simp
qed (simp add: varlen_fields_def)

lemma writeMetaBlockHeader_fields:
  assumes "0 < len" and "len \<le> 2 ^ 24"
  shows "writeMetaBlockHeader (int len) isLast unc b = put_fields writeBits (header_fields len isLast unc) b"
proof -
  have "(int len - 1) mod 2 ^ 64 = int (len - 1)" using assms by simp
  then have n: "nat ((int len - 1) mod 2 ^ 64) = len - 1" by simp
  have i: "(of_int (int len - 1) :: u64) = of_nat (len - 1)" using assms by (simp add: of_nat_diff)
  have m: "max (if bits_Len (len - 1) = 0 then 1 else bits_Len (len - 1)) 16 = max (bits_Len (len - 1)) 16"
    by simp
  show ?thesis
    unfolding writeMetaBlockHeader_def encodeMlen_def header_fields_def Let_def n i m
    by (simp add: put_fields_fun)
qed

lemma nibble_bounds:
  fixes l nib :: nat
  assumes "l \<le> 24" and "nib = (max l 16 + 3) div 4"
  shows "4 \<le> nib" and "nib \<le> 6" and "l \<le> 4 * nib" and "4 < nib \<Longrightarrow> 4 * (nib - 1) < l"
proof -
  define m where "m = max l 16"
  have m: "m \<le> 24" "16 \<le> m" "l \<le> m" "m = l \<or> m = 16" using assms(1) by (auto simp: m_def)
  have n: "nib = (m + 3) div 4" using assms(2) by (simp add: m_def)
  show "4 \<le> nib" "nib \<le> 6" using m n by linarith+
  show "l \<le> 4 * nib" using m(3) n by linarith
  show "4 < nib \<Longrightarrow> 4 * (nib - 1) < l" using m n by linarith
qed

lemma header_nibbles:
  assumes "0 < len" and "len \<le> 2 ^ 24" and nib: "nib = (max (bits_Len (len - 1)) 16 + 3) div 4"
  shows "4 \<le> nib" and "nib \<le> 6" and "len - 1 < 2 ^ (4 * nib)"
    and "4 < nib \<Longrightarrow> 2 ^ (4 * (nib - 1)) \<le> len - 1"
proof -
  have l24: "bits_Len (len - 1) \<le> 24" using assms bits_Len_le_iff [of "len - 1" 24] by simp
  note nb = nibble_bounds [OF l24 nib]
  show "4 \<le> nib" "nib \<le> 6" by (fact nb(1,2))+
  show "len - 1 < 2 ^ (4 * nib)" using nb(3) by (simp only: bits_Len_le_iff)
  show "4 < nib \<Longrightarrow> 2 ^ (4 * (nib - 1)) \<le> len - 1" using nb(4) by (simp only: less_bits_Len_iff)
qed

lemma header_fields_ok:
  assumes "0 < len" and "len \<le> 2 ^ 24"
  shows "fields_ok (header_fields len isLast unc)"
proof -
  define nib where nib: "nib = (max (bits_Len (len - 1)) 16 + 3) div 4"
  note h = header_nibbles [OF assms nib]
  have "unat (of_nat (len - 1) :: u64) = len - 1" using assms by (intro unat_of_nat64) simp
  moreover have "len - 1 < 2 ^ (nib * 4)" using h(3) by (simp only: mult.commute)
  moreover have "unat (of_nat (nib - 4) :: u64) = nib - 4" using h(2) by (intro unat_of_nat64) simp
  ultimately show ?thesis using h(1,2)
    unfolding header_fields_def Let_def nib [symmetric] by (simp add: fields_ok_append)
qed

end
