(* ===== verification/Decode_Header.thy ===== *)
theory Decode_Header
  imports Suspend Stream_Writer
begin

unbundle bit_operations_syntax

text \<open>
  Reading the uncompressed headers of a stream, \<^verbatim>\<open>decode.go\<close>: the window size, the variable-length
  byte, the metablock header, the literal context modes.

  The switch statements with fallthrough are chains of definitions, one per case; a \<^verbatim>\<open>break\<close> that
  goes back to the switch with a later substate is a call of that substate's definition. A pointer
  parameter is an argument and a result. The specification of each operation is a parser on bit
  strings, the state in the middle of an operation denotes the residual parser, and the operations
  are instances of \<open>suspendable\<close>.
\<close>

subsection \<open>Operations\<close>

definition decompressError :: "string \<Rightarrow> string" where
  "decompressError msg = ''brotli: '' @ msg"

text \<open>\<^verbatim>\<open>decodeWindowBits\<close> returns the error, if any.\<close>

definition decodeWindowBits :: "decodeState \<Rightarrow> string option \<times> decodeState" where
  "decodeWindowBits s =
     (let (n, br) = takeBits 1 (ds_br s) in
      if n = 0 then (None, s\<lparr>ds_br := br, ds_windowBits := 16\<rparr>)
      else let (n, br) = takeBits 3 br in
      if n \<noteq> 0 then (None, s\<lparr>ds_br := br, ds_windowBits := uint (17 + n) AND 63\<rparr>)
      else let (n, br) = takeBits 3 br in
      if n = 1 then (Some (decompressError ''invalid window bits''), s\<lparr>ds_br := br\<rparr>)
      else if n \<noteq> 0 then (None, s\<lparr>ds_br := br, ds_windowBits := uint (8 + n) AND 63\<rparr>)
      else (None, s\<lparr>ds_br := br, ds_windowBits := 17\<rparr>))"

definition decodeVarLenUint8_Long :: "nat \<times> decodeState \<Rightarrow> (decoderResult \<times> nat \<times> decodeState) option" where
  "decodeVarLenUint8_Long = (\<lambda>(val, s). do {
     (x, br) \<leftarrow> safeReadBits val (ds_br s);
     case x of
       None \<Rightarrow> Some (ResultNeedsMoreInput, val, s\<lparr>ds_br := br, ds_substateDecodeUint8 := decodeUint8Long\<rparr>)
     | Some bs \<Rightarrow> Some (ResultSuccess, uadd (2 ^ val) (unat bs), s\<lparr>ds_br := br, ds_substateDecodeUint8 := decodeUint8None\<rparr>) })"

definition decodeVarLenUint8_Short :: "nat \<times> decodeState \<Rightarrow> (decoderResult \<times> nat \<times> decodeState) option" where
  "decodeVarLenUint8_Short = (\<lambda>(val, s). do {
     (x, br) \<leftarrow> safeReadBits 3 (ds_br s);
     case x of
       None \<Rightarrow> Some (ResultNeedsMoreInput, val, s\<lparr>ds_br := br, ds_substateDecodeUint8 := decodeUint8Short\<rparr>)
     | Some bs \<Rightarrow> if bs = 0
         then Some (ResultSuccess, 1, s\<lparr>ds_br := br, ds_substateDecodeUint8 := decodeUint8None\<rparr>)
         else decodeVarLenUint8_Long (unat bs, s\<lparr>ds_br := br\<rparr>) })"

definition decodeVarLenUint8 :: "nat \<times> decodeState \<Rightarrow> (decoderResult \<times> nat \<times> decodeState) option" where
  "decodeVarLenUint8 = (\<lambda>(val, s). case ds_substateDecodeUint8 s of
     decodeUint8None \<Rightarrow> do {
       (x, br) \<leftarrow> safeReadBits 1 (ds_br s);
       case x of
         None \<Rightarrow> Some (ResultNeedsMoreInput, val, s\<lparr>ds_br := br\<rparr>)
       | Some bs \<Rightarrow> if bs = 0 then Some (ResultSuccess, 0, s\<lparr>ds_br := br\<rparr>)
           else decodeVarLenUint8_Short (val, s\<lparr>ds_br := br\<rparr>) }
   | decodeUint8Short \<Rightarrow> decodeVarLenUint8_Short (val, s)
   | decodeUint8Long \<Rightarrow> decodeVarLenUint8_Long (val, s))"

definition header_Uncompressed :: "decodeState \<Rightarrow> (decoderResult \<times> decodeState) option" where
  "header_Uncompressed s =
     (if \<not> ds_isLastMetablock s then do {
        (x, br) \<leftarrow> safeReadBits 1 (ds_br s);
        case x of
          None \<Rightarrow> Some (ResultNeedsMoreInput, s\<lparr>ds_br := br\<rparr>)
        | Some bs \<Rightarrow> Some (ResultSuccess, s\<lparr>ds_br := br, ds_isUncompressed := bs \<noteq> 0,
            ds_metaBlockRemainingLen := ds_metaBlockRemainingLen s + 1,
            ds_substateMetablockHeader := metablockHeaderNone\<rparr>) }
      else Some (ResultSuccess, s\<lparr>ds_metaBlockRemainingLen := ds_metaBlockRemainingLen s + 1,
            ds_substateMetablockHeader := metablockHeaderNone\<rparr>))"

text \<open>The nibble loop, over the values of \<^verbatim>\<open>i\<close> still to come.\<close>

fun header_Size_loop :: "int list \<Rightarrow> decodeState \<Rightarrow> (decoderResult \<times> decodeState) option" where
  "header_Size_loop [] s = header_Uncompressed (s\<lparr>ds_substateMetablockHeader := metablockHeaderUncompressed\<rparr>)"
| "header_Size_loop (i # is) s = do {
     (x, br) \<leftarrow> safeReadBits 4 (ds_br s);
     case x of
       None \<Rightarrow> Some (ResultNeedsMoreInput, s\<lparr>ds_br := br, ds_loopCounter := i\<rparr>)
     | Some bs \<Rightarrow> if i + 1 = ds_sizeNibbles s \<and> ds_sizeNibbles s > 4 \<and> bs = 0
         then Some (ResultError, s\<lparr>ds_br := br, ds_err := Some (decompressError ''exuberant nibble'')\<rparr>)
         else header_Size_loop is (s\<lparr>ds_br := br,
           ds_metaBlockRemainingLen := ds_metaBlockRemainingLen s OR push_bit (nat (i * 4)) (uint bs)\<rparr>) }"

definition header_Size :: "decodeState \<Rightarrow> (decoderResult \<times> decodeState) option" where
  "header_Size s = header_Size_loop [ds_loopCounter s..ds_sizeNibbles s - 1] s"

fun header_Metadata_loop :: "int list \<Rightarrow> decodeState \<Rightarrow> (decoderResult \<times> decodeState) option" where
  "header_Metadata_loop [] s = Some (ResultSuccess, s\<lparr>ds_metaBlockRemainingLen := ds_metaBlockRemainingLen s + 1,
     ds_substateMetablockHeader := metablockHeaderNone\<rparr>)"
| "header_Metadata_loop (i # is) s = do {
     (x, br) \<leftarrow> safeReadBits 8 (ds_br s);
     case x of
       None \<Rightarrow> Some (ResultNeedsMoreInput, s\<lparr>ds_br := br, ds_loopCounter := i\<rparr>)
     | Some bs \<Rightarrow> if i + 1 = ds_sizeNibbles s \<and> ds_sizeNibbles s > 1 \<and> bs = 0
         then Some (ResultError, s\<lparr>ds_br := br, ds_err := Some (decompressError ''exuberant metadata nibble'')\<rparr>)
         else header_Metadata_loop is (s\<lparr>ds_br := br,
           ds_metaBlockRemainingLen := ds_metaBlockRemainingLen s OR push_bit (nat (i * 8)) (uint bs)\<rparr>) }"

definition header_Metadata :: "decodeState \<Rightarrow> (decoderResult \<times> decodeState) option" where
  "header_Metadata s = header_Metadata_loop [ds_loopCounter s..ds_sizeNibbles s - 1] s"

definition header_Bytes :: "decodeState \<Rightarrow> (decoderResult \<times> decodeState) option" where
  "header_Bytes s = do {
     (x, br) \<leftarrow> safeReadBits 2 (ds_br s);
     case x of
       None \<Rightarrow> Some (ResultNeedsMoreInput, s\<lparr>ds_br := br\<rparr>)
     | Some bs \<Rightarrow> if bs = 0
         then Some (ResultSuccess, s\<lparr>ds_br := br, ds_substateMetablockHeader := metablockHeaderNone\<rparr>)
         else header_Metadata (s\<lparr>ds_br := br, ds_sizeNibbles := uint bs, ds_loopCounter := 0,
           ds_substateMetablockHeader := metablockHeaderMetadata\<rparr>) }"

definition header_Reserved :: "decodeState \<Rightarrow> (decoderResult \<times> decodeState) option" where
  "header_Reserved s = do {
     (x, br) \<leftarrow> safeReadBits 1 (ds_br s);
     case x of
       None \<Rightarrow> Some (ResultNeedsMoreInput, s\<lparr>ds_br := br\<rparr>)
     | Some bs \<Rightarrow> if bs \<noteq> 0
         then Some (ResultError, s\<lparr>ds_br := br, ds_err := Some (decompressError ''reserved bit set in metadata header'')\<rparr>)
         else header_Bytes (s\<lparr>ds_br := br, ds_substateMetablockHeader := metablockHeaderBytes\<rparr>) }"

definition header_Nibbles :: "decodeState \<Rightarrow> (decoderResult \<times> decodeState) option" where
  "header_Nibbles s = do {
     (x, br) \<leftarrow> safeReadBits 2 (ds_br s);
     case x of
       None \<Rightarrow> Some (ResultNeedsMoreInput, s\<lparr>ds_br := br\<rparr>)
     | Some bs \<Rightarrow>
         (let s = s\<lparr>ds_br := br, ds_sizeNibbles := uint (bs + 4), ds_loopCounter := 0\<rparr> in
          if bs = 3
          then header_Reserved (s\<lparr>ds_isMetadata := True, ds_substateMetablockHeader := metablockHeaderReserved\<rparr>)
          else header_Size (s\<lparr>ds_substateMetablockHeader := metablockHeaderSize\<rparr>)) }"

definition header_Empty :: "decodeState \<Rightarrow> (decoderResult \<times> decodeState) option" where
  "header_Empty s = do {
     (x, br) \<leftarrow> safeReadBits 1 (ds_br s);
     case x of
       None \<Rightarrow> Some (ResultNeedsMoreInput, s\<lparr>ds_br := br\<rparr>)
     | Some bs \<Rightarrow> if bs \<noteq> 0
         then Some (ResultSuccess, s\<lparr>ds_br := br, ds_substateMetablockHeader := metablockHeaderNone\<rparr>)
         else header_Nibbles (s\<lparr>ds_br := br, ds_substateMetablockHeader := metablockHeaderNibbles\<rparr>) }"

definition header_None :: "decodeState \<Rightarrow> (decoderResult \<times> decodeState) option" where
  "header_None s = do {
     (x, br) \<leftarrow> safeReadBits 1 (ds_br s);
     case x of
       None \<Rightarrow> Some (ResultNeedsMoreInput, s\<lparr>ds_br := br\<rparr>)
     | Some bs \<Rightarrow>
         (let s = s\<lparr>ds_br := br, ds_isLastMetablock := bs \<noteq> 0, ds_metaBlockRemainingLen := 0,
                   ds_isUncompressed := False, ds_isMetadata := False\<rparr> in
          if \<not> ds_isLastMetablock s
          then header_Nibbles (s\<lparr>ds_substateMetablockHeader := metablockHeaderNibbles\<rparr>)
          else header_Empty (s\<lparr>ds_substateMetablockHeader := metablockHeaderEmpty\<rparr>)) }"

definition decodeMetaBlockLength :: "decodeState \<Rightarrow> (decoderResult \<times> decodeState) option" where
  "decodeMetaBlockLength s = (case ds_substateMetablockHeader s of
     metablockHeaderNone \<Rightarrow> header_None s
   | metablockHeaderEmpty \<Rightarrow> header_Empty s
   | metablockHeaderNibbles \<Rightarrow> header_Nibbles s
   | metablockHeaderSize \<Rightarrow> header_Size s
   | metablockHeaderUncompressed \<Rightarrow> header_Uncompressed s
   | metablockHeaderReserved \<Rightarrow> header_Reserved s
   | metablockHeaderBytes \<Rightarrow> header_Bytes s
   | metablockHeaderMetadata \<Rightarrow> header_Metadata s)"

text \<open>The loop of \<^verbatim>\<open>readContextModes\<close>, over the block types still to come.\<close>

fun readContextModes_loop :: "nat list \<Rightarrow> decodeState \<Rightarrow> (decoderResult \<times> decodeState) option" where
  "readContextModes_loop [] s = Some (ResultSuccess,
     s\<lparr>ds_loopCounter := max (ds_loopCounter s) (int (ds_numBlockTypes s ! 0))\<rparr>)"
| "readContextModes_loop (i # is) s = do {
     (x, br) \<leftarrow> safeReadBits 2 (ds_br s);
     case x of
       None \<Rightarrow> Some (ResultNeedsMoreInput, s\<lparr>ds_br := br, ds_loopCounter := int i\<rparr>)
     | Some bs \<Rightarrow> do {
         modes \<leftarrow> sl_set (ds_contextModes s) (int i) (ucast bs);
         readContextModes_loop is (s\<lparr>ds_br := br, ds_contextModes := modes\<rparr>) } }"

definition readContextModes :: "decodeState \<Rightarrow> (decoderResult \<times> decodeState) option" where
  "readContextModes s = readContextModes_loop [nat (ds_loopCounter s)..<ds_numBlockTypes s ! 0] s"


subsection \<open>The variable-length byte\<close>

text \<open>The parsers carry the state \<open>f\<close> that the operation leaves behind, its reader erased.\<close>

definition vl_long :: "decodeState \<Rightarrow> nat \<Rightarrow> bool list \<Rightarrow> (nat \<times> decodeState) parse" where
  "vl_long f n = p_bits n (\<lambda>b. Good (2 ^ n + b, f))"

definition vl_short :: "decodeState \<Rightarrow> bool list \<Rightarrow> (nat \<times> decodeState) parse" where
  "vl_short f = p_bits 3 (\<lambda>n. if n = 0 then Good (1, f) else vl_long f n)"

definition vl_parse :: "decodeState \<Rightarrow> bool list \<Rightarrow> (nat \<times> decodeState) parse" where
  "vl_parse f = p_bits 1 (\<lambda>b. if b = 0 then Good (0, f) else vl_short f)"

definition vl_frame :: "decodeState \<Rightarrow> decodeState" where
  "vl_frame s = s\<lparr>ds_br := zero_br, ds_substateDecodeUint8 := decodeUint8None\<rparr>"

definition vl_good :: "nat \<times> decodeState \<Rightarrow> bool" where
  "vl_good = (\<lambda>(v, s). ds_substateDecodeUint8 s = decodeUint8Long \<longrightarrow> v < 8)"

definition vl_resid :: "nat \<times> decodeState \<Rightarrow> bool list \<Rightarrow> (nat \<times> decodeState) parse" where
  "vl_resid = (\<lambda>(v, s). case ds_substateDecodeUint8 s of
     decodeUint8None \<Rightarrow> vl_parse (vl_frame s)
   | decodeUint8Short \<Rightarrow> vl_short (vl_frame s)
   | decodeUint8Long \<Rightarrow> vl_long (vl_frame s) v)"

definition vl_fin :: "nat \<times> decodeState \<Rightarrow> nat \<times> decodeState" where
  "vl_fin = (\<lambda>(v, s). (v, s\<lparr>ds_br := zero_br\<rparr>))"

definition vl_rd :: "nat \<times> decodeState \<Rightarrow> bitReader" where
  "vl_rd p = ds_br (snd p)"

definition vl_set_rd :: "bitReader \<Rightarrow> nat \<times> decodeState \<Rightarrow> nat \<times> decodeState" where
  "vl_set_rd br p = (fst p, (snd p)\<lparr>ds_br := br\<rparr>)"

definition vl_er :: "nat \<times> decodeState \<Rightarrow> string option" where
  "vl_er p = ds_err (snd p)"

lemma vl_frame_simps [simp]:
  "vl_frame (s\<lparr>ds_br := br\<rparr>) = vl_frame s" "vl_frame (s\<lparr>ds_substateDecodeUint8 := x\<rparr>) = vl_frame s"
  "vl_frame (s\<lparr>ds_br := br, ds_substateDecodeUint8 := x\<rparr>) = vl_frame s"
  "s\<lparr>ds_br := zero_br, ds_substateDecodeUint8 := decodeUint8None\<rparr> = vl_frame s"
  "s\<lparr>ds_substateDecodeUint8 := decodeUint8None, ds_br := zero_br\<rparr> = vl_frame s"
  by (simp_all add: vl_frame_def)

lemma vl_frame_None:
  assumes "ds_substateDecodeUint8 s = decodeUint8None"
  shows "s\<lparr>ds_br := zero_br\<rparr> = vl_frame s"
proof -
  have "s\<lparr>ds_br := zero_br\<rparr> = s\<lparr>ds_br := zero_br, ds_substateDecodeUint8 := ds_substateDecodeUint8 s\<rparr>" by simp
  then show ?thesis by (simp only: assms vl_frame_def)
qed

lemmas vl_defs = vl_good_def vl_resid_def vl_fin_def vl_rd_def vl_er_def

lemma vl_stable: "stable_parse (vl_long f n)" "stable_parse (vl_short f)" "stable_parse (vl_parse f)"
  by (auto simp: vl_long_def vl_short_def vl_parse_def intro!: stable_p_bits stable_Good)

lemma vl_long_refines:
  assumes "br_inv (ds_br s)" "v < 8" "bits = br_bits (ds_br s)"
  shows "refines vl_rd vl_er vl_good vl_resid vl_fin (decodeVarLenUint8_Long (v, s)) (vl_long (vl_frame s) v) bits"
  unfolding decodeVarLenUint8_Long_def vl_long_def prod.case
proof (rule refines_read)
  fix x :: u64 and br'
  assume *: "br_inv br'" "br_bits br' = drop v bits" "unat x < 2 ^ v"
  have "(2::nat) ^ v \<le> 2 ^ 7" using assms(2) by (intro power_increasing) simp_all
  then have "uadd (2 ^ v) (unat x) = 2 ^ v + unat x" using *(3) by (intro uadd_exact) simp
  then show "refines vl_rd vl_er vl_good vl_resid vl_fin
      (Some (ResultSuccess, uadd (2 ^ v) (unat x), s\<lparr>ds_br := br', ds_substateDecodeUint8 := decodeUint8None\<rparr>))
      (Good (2 ^ v + unat x, vl_frame s)) (drop v bits)"
    using * by (intro refines_Good) (simp_all add: vl_defs)
qed (use assms in \<open>simp_all add: vl_defs vl_long_def\<close>)

lemma vl_short_refines:
  assumes "br_inv (ds_br s)" "bits = br_bits (ds_br s)"
  shows "refines vl_rd vl_er vl_good vl_resid vl_fin (decodeVarLenUint8_Short (v, s)) (vl_short (vl_frame s)) bits"
  unfolding decodeVarLenUint8_Short_def vl_short_def prod.case
proof (rule refines_read)
  fix x :: u64 and br'
  assume *: "br_inv br'" "br_bits br' = drop 3 bits" "unat x < 2 ^ 3"
  show "refines vl_rd vl_er vl_good vl_resid vl_fin
     (if x = 0 then Some (ResultSuccess, 1, s\<lparr>ds_br := br', ds_substateDecodeUint8 := decodeUint8None\<rparr>)
      else decodeVarLenUint8_Long (unat x, s\<lparr>ds_br := br'\<rparr>))
     (if unat x = 0 then Good (1, vl_frame s) else vl_long (vl_frame s) (unat x)) (drop 3 bits)"
    using * vl_long_refines [of "s\<lparr>ds_br := br'\<rparr>" "unat x" "drop 3 bits"]
    by (auto intro!: refines_Good simp: vl_defs unat_eq_0)
qed (use assms in \<open>simp_all add: vl_defs vl_short_def\<close>)

lemma vl_refines:
  assumes "vl_good (v, s)" "br_inv (ds_br s)" "bits = br_bits (ds_br s)"
  shows "refines vl_rd vl_er vl_good vl_resid vl_fin (decodeVarLenUint8 (v, s)) (vl_resid (v, s)) bits"
proof (cases "ds_substateDecodeUint8 s")
  case decodeUint8None
  then have "decodeVarLenUint8 (v, s) = do { (x, br) \<leftarrow> safeReadBits 1 (ds_br s);
       case x of
         None \<Rightarrow> Some (ResultNeedsMoreInput, v, s\<lparr>ds_br := br\<rparr>)
       | Some bs \<Rightarrow> if bs = 0 then Some (ResultSuccess, 0, s\<lparr>ds_br := br\<rparr>)
           else decodeVarLenUint8_Short (v, s\<lparr>ds_br := br\<rparr>) }"
    by (simp add: decodeVarLenUint8_def)
  moreover have "vl_resid (v, s) = p_bits 1 (\<lambda>b. if b = 0 then Good (0, vl_frame s) else vl_short (vl_frame s))"
    using decodeUint8None by (simp add: vl_resid_def vl_parse_def)
  moreover have "refines vl_rd vl_er vl_good vl_resid vl_fin
      (do { (x, br) \<leftarrow> safeReadBits 1 (ds_br s);
       case x of
         None \<Rightarrow> Some (ResultNeedsMoreInput, v, s\<lparr>ds_br := br\<rparr>)
       | Some bs \<Rightarrow> if bs = 0 then Some (ResultSuccess, 0, s\<lparr>ds_br := br\<rparr>)
           else decodeVarLenUint8_Short (v, s\<lparr>ds_br := br\<rparr>) })
      (p_bits 1 (\<lambda>b. if b = 0 then Good (0, vl_frame s) else vl_short (vl_frame s))) bits"
  proof (rule refines_read)
    fix x :: u64 and br'
    assume *: "br_inv br'" "br_bits br' = drop 1 bits" "unat x < 2 ^ 1"
    show "refines vl_rd vl_er vl_good vl_resid vl_fin
       (if x = 0 then Some (ResultSuccess, 0, s\<lparr>ds_br := br'\<rparr>) else decodeVarLenUint8_Short (v, s\<lparr>ds_br := br'\<rparr>))
       (if unat x = 0 then Good (0, vl_frame s) else vl_short (vl_frame s)) (drop 1 bits)"
      using * vl_short_refines [of "s\<lparr>ds_br := br'\<rparr>" "drop 1 bits" v] decodeUint8None
      by (auto intro!: refines_Good simp: vl_defs unat_eq_0 vl_frame_None)
  qed (use assms decodeUint8None in \<open>simp_all add: vl_defs vl_parse_def\<close>)
  ultimately show ?thesis by simp
next
  case decodeUint8Short
  then show ?thesis using vl_short_refines assms by (simp add: decodeVarLenUint8_def vl_resid_def)
next
  case decodeUint8Long
  then show ?thesis using vl_long_refines assms by (simp add: decodeVarLenUint8_def vl_resid_def vl_good_def)
qed

interpretation varlen: suspendable vl_rd vl_set_rd vl_er decodeVarLenUint8 vl_good vl_resid vl_fin
proof
  fix s :: "nat \<times> decodeState" and br :: bitReader
  show "vl_rd (vl_set_rd br s) = br" "vl_good (vl_set_rd br s) = vl_good s" "vl_resid (vl_set_rd br s) = vl_resid s"
    by (cases "ds_substateDecodeUint8 (snd s)"; simp add: vl_defs vl_set_rd_def split_beta)+
  show "stable_parse (vl_resid s)"
    by (auto simp: vl_resid_def vl_stable split: decodeUint8State.splits prod.splits)
  assume "vl_good s" "br_inv (vl_rd s)"
  then show "refines vl_rd vl_er vl_good vl_resid vl_fin (decodeVarLenUint8 s) (vl_resid s) (br_bits (vl_rd s))"
    using vl_refines [of "fst s" "snd s"] by (simp add: vl_rd_def)
qed

text \<open>The encoder's fields are what the parser reads.\<close>

lemma vl_parse_fields:
  assumes "n < 256"
  shows "vl_parse f (fields_bits (varlen_fields n) @ rest) = Good (n, f) rest"
proof (cases "n = 0")
  case False
  define k where "k = bits_Len n - 1"
  have "bits_Len n \<le> 8" using assms bits_Len_le_iff [of n 8] by simp
  then have k: "k < 8" using bits_Len_pos [of n] False by (simp add: k_def)
  have n: "2 ^ k \<le> n" "n < 2 * 2 ^ k" using bits_Len_split [OF False] by (simp_all add: k_def)
  have u: "unat (of_nat (n - 2 ^ k) :: u64) = n - 2 ^ k" "unat (of_nat k :: u64) = k"
    using assms k by (simp_all add: unat_of_nat64)
  have "vl_short f (bits_of 3 (of_nat k :: u64) @ bits_of k (of_nat (n - 2 ^ k) :: u64) @ rest) = Good (n, f) rest"
    unfolding vl_short_def vl_long_def using k n u by (cases "k = 0") (simp_all add: p_bits_word del: of_nat_diff)
  moreover have "vl_parse f (bits_of 1 (1 :: u64) @ x) = vl_short f x" for x
    unfolding vl_parse_def by (subst p_bits_word) simp_all
  ultimately show ?thesis using False unfolding varlen_fields_def k_def [symmetric] by simp
qed (simp add: vl_parse_def varlen_fields_def p_bits_word)


subsection \<open>The metablock header\<close>

text \<open>The header as RFC 7932 section 9.2 lays it out. The result is (ISLAST, ISUNCOMPRESSED, metadata,
  MLEN or MSKIPLEN) with the substate \<^verbatim>\<open>metablockHeaderNone\<close>; \<open>is\<close> lists the nibbles or bytes of the
  length still to come, \<open>acc\<close> is the length read so far.\<close>

type_synonym hdr_result = "(bool \<times> bool \<times> bool \<times> int) \<times> metablockHeaderState \<times> decodeState"

definition hdr_unc :: "decodeState \<Rightarrow> bool \<Rightarrow> nat \<Rightarrow> bool list \<Rightarrow> hdr_result parse" where
  "hdr_unc f isLast len = (if isLast then Good ((True, False, False, int len + 1), metablockHeaderNone, f)
     else p_bits 1 (\<lambda>b. Good ((False, b \<noteq> 0, False, int len + 1), metablockHeaderNone, f)))"

fun hdr_size :: "decodeState \<Rightarrow> bool \<Rightarrow> nat \<Rightarrow> nat list \<Rightarrow> nat \<Rightarrow> bool list \<Rightarrow> hdr_result parse" where
  "hdr_size f isLast n [] acc = hdr_unc f isLast acc"
| "hdr_size f isLast n (i # is) acc = p_bits 4 (\<lambda>v.
     if i + 1 = n \<and> n > 4 \<and> v = 0 then (\<lambda>_. Bad (decompressError ''exuberant nibble''))
     else hdr_size f isLast n is (acc + v * 2 ^ (4 * i)))"

fun hdr_meta :: "decodeState \<Rightarrow> bool \<Rightarrow> nat \<Rightarrow> nat list \<Rightarrow> nat \<Rightarrow> bool list \<Rightarrow> hdr_result parse" where
  "hdr_meta f isLast n [] acc = Good ((isLast, False, True, int acc + 1), metablockHeaderNone, f)"
| "hdr_meta f isLast n (i # is) acc = p_bits 8 (\<lambda>v.
     if i + 1 = n \<and> n > 1 \<and> v = 0 then (\<lambda>_. Bad (decompressError ''exuberant metadata nibble''))
     else hdr_meta f isLast n is (acc + v * 2 ^ (8 * i)))"

definition hdr_bytes :: "decodeState \<Rightarrow> bool \<Rightarrow> bool list \<Rightarrow> hdr_result parse" where
  "hdr_bytes f isLast = p_bits 2 (\<lambda>n. if n = 0 then Good ((isLast, False, True, 0), metablockHeaderNone, f)
     else hdr_meta f isLast n [0..<n] 0)"

definition hdr_reserved :: "decodeState \<Rightarrow> bool \<Rightarrow> bool list \<Rightarrow> hdr_result parse" where
  "hdr_reserved f isLast = p_bits 1 (\<lambda>b. if b \<noteq> 0
     then (\<lambda>_. Bad (decompressError ''reserved bit set in metadata header'')) else hdr_bytes f isLast)"

definition hdr_nibbles :: "decodeState \<Rightarrow> bool \<Rightarrow> bool list \<Rightarrow> hdr_result parse" where
  "hdr_nibbles f isLast = p_bits 2 (\<lambda>n. if n = 3 then hdr_reserved f isLast
     else hdr_size f isLast (n + 4) [0..<n + 4] 0)"

definition hdr_empty :: "decodeState \<Rightarrow> bool list \<Rightarrow> hdr_result parse" where
  "hdr_empty f = p_bits 1 (\<lambda>b. if b \<noteq> 0 then Good ((True, False, False, 0), metablockHeaderNone, f)
     else hdr_nibbles f True)"

definition hdr_parse :: "decodeState \<Rightarrow> bool list \<Rightarrow> hdr_result parse" where
  "hdr_parse f = p_bits 1 (\<lambda>b. if b \<noteq> 0 then hdr_empty f else hdr_nibbles f False)"

text \<open>Everything the operation does not set.\<close>

definition hdr_frame :: "decodeState \<Rightarrow> decodeState" where
  "hdr_frame s = s\<lparr>ds_br := zero_br, ds_loopCounter := 0, ds_metaBlockRemainingLen := 0,
     ds_substateMetablockHeader := metablockHeaderNone, ds_sizeNibbles := 0, ds_isLastMetablock := False,
     ds_isUncompressed := False, ds_isMetadata := False\<rparr>"

definition hdr_fin :: "decodeState \<Rightarrow> hdr_result" where
  "hdr_fin s = ((ds_isLastMetablock s, ds_isUncompressed s, ds_isMetadata s, ds_metaBlockRemainingLen s),
     ds_substateMetablockHeader s, hdr_frame s)"

definition hdr_good :: "decodeState \<Rightarrow> bool" where
  "hdr_good s = (let plain = (\<not> ds_isUncompressed s \<and> \<not> ds_isMetadata s);
       counts = (\<lambda>w. 0 \<le> ds_loopCounter s \<and> 0 \<le> ds_sizeNibbles s \<and> 0 \<le> ds_metaBlockRemainingLen s \<and>
         nat (ds_metaBlockRemainingLen s) < 2 ^ (w * nat (ds_loopCounter s))) in
     case ds_substateMetablockHeader s of
       metablockHeaderNone \<Rightarrow> True
     | metablockHeaderEmpty \<Rightarrow> plain \<and> ds_isLastMetablock s \<and> ds_metaBlockRemainingLen s = 0
     | metablockHeaderNibbles \<Rightarrow> plain \<and> ds_metaBlockRemainingLen s = 0
     | metablockHeaderSize \<Rightarrow> plain \<and> counts 4
     | metablockHeaderUncompressed \<Rightarrow> plain \<and> 0 \<le> ds_metaBlockRemainingLen s
     | metablockHeaderMetadata \<Rightarrow> \<not> ds_isUncompressed s \<and> ds_isMetadata s \<and> counts 8
     | _ \<Rightarrow> \<not> ds_isUncompressed s \<and> ds_isMetadata s \<and> ds_metaBlockRemainingLen s = 0)"

definition hdr_resid :: "decodeState \<Rightarrow> bool list \<Rightarrow> hdr_result parse" where
  "hdr_resid s = (let f = hdr_frame s; isLast = ds_isLastMetablock s; acc = nat (ds_metaBlockRemainingLen s);
       n = nat (ds_sizeNibbles s); is = [nat (ds_loopCounter s)..<n] in
     case ds_substateMetablockHeader s of
       metablockHeaderNone \<Rightarrow> hdr_parse f
     | metablockHeaderEmpty \<Rightarrow> hdr_empty f
     | metablockHeaderNibbles \<Rightarrow> hdr_nibbles f isLast
     | metablockHeaderSize \<Rightarrow> hdr_size f isLast n is acc
     | metablockHeaderUncompressed \<Rightarrow> hdr_unc f isLast acc
     | metablockHeaderReserved \<Rightarrow> hdr_reserved f isLast
     | metablockHeaderBytes \<Rightarrow> hdr_bytes f isLast
     | metablockHeaderMetadata \<Rightarrow> hdr_meta f isLast n is acc)"

lemma hdr_frame_simps [simp]:
  "hdr_frame (s\<lparr>ds_br := a\<rparr>) = hdr_frame s" "hdr_frame (s\<lparr>ds_loopCounter := b\<rparr>) = hdr_frame s"
  "hdr_frame (s\<lparr>ds_metaBlockRemainingLen := b\<rparr>) = hdr_frame s"
  "hdr_frame (s\<lparr>ds_substateMetablockHeader := c\<rparr>) = hdr_frame s"
  "hdr_frame (s\<lparr>ds_sizeNibbles := b\<rparr>) = hdr_frame s" "hdr_frame (s\<lparr>ds_isLastMetablock := d\<rparr>) = hdr_frame s"
  "hdr_frame (s\<lparr>ds_isUncompressed := d\<rparr>) = hdr_frame s" "hdr_frame (s\<lparr>ds_isMetadata := d\<rparr>) = hdr_frame s"
  by (simp_all add: hdr_frame_def)

lemma hdr_size_stable: "stable_parse (hdr_size f isLast n is acc)"
  by (induction f isLast n "is" acc rule: hdr_size.induct)
    (auto simp: hdr_unc_def intro!: stable_p_bits stable_Good stable_Bad)

lemma hdr_meta_stable: "stable_parse (hdr_meta f isLast n is acc)"
  by (induction f isLast n "is" acc rule: hdr_meta.induct)
    (auto intro!: stable_p_bits stable_Good stable_Bad)

lemma hdr_stable:
  "stable_parse (hdr_unc f isLast len)" "stable_parse (hdr_bytes f isLast)" "stable_parse (hdr_reserved f isLast)"
  "stable_parse (hdr_nibbles f isLast)" "stable_parse (hdr_empty f)" "stable_parse (hdr_parse f)"
  by (auto simp: hdr_unc_def hdr_bytes_def hdr_reserved_def hdr_nibbles_def hdr_empty_def hdr_parse_def
      intro!: stable_p_bits stable_Good stable_Bad hdr_size_stable hdr_meta_stable)

abbreviation hdr_refines :: "(decoderResult \<times> decodeState) option \<Rightarrow> (bool list \<Rightarrow> hdr_result parse) \<Rightarrow> bool list \<Rightarrow> bool" where
  "hdr_refines \<equiv> refines ds_br ds_err hdr_good hdr_resid hdr_fin"

lemma hdr_unc_refines:
  assumes "br_inv (ds_br s)" "bits = br_bits (ds_br s)" "\<not> ds_isUncompressed s" "\<not> ds_isMetadata s"
    "ds_metaBlockRemainingLen s = int len" "ds_substateMetablockHeader s = metablockHeaderUncompressed"
  shows "hdr_refines (header_Uncompressed s) (hdr_unc (hdr_frame s) (ds_isLastMetablock s) len) bits"
proof (cases "ds_isLastMetablock s")
  case True
  then show ?thesis using assms
    by (auto simp: header_Uncompressed_def hdr_unc_def hdr_fin_def intro!: refines_Good)
next
  case False
  have "hdr_refines (do {
        (x, br) \<leftarrow> safeReadBits 1 (ds_br s);
        case x of
          None \<Rightarrow> Some (ResultNeedsMoreInput, s\<lparr>ds_br := br\<rparr>)
        | Some bs \<Rightarrow> Some (ResultSuccess, s\<lparr>ds_br := br, ds_isUncompressed := bs \<noteq> 0,
            ds_metaBlockRemainingLen := ds_metaBlockRemainingLen s + 1,
            ds_substateMetablockHeader := metablockHeaderNone\<rparr>) })
     (p_bits 1 (\<lambda>b. Good ((False, b \<noteq> 0, False, int len + 1), metablockHeaderNone, hdr_frame s))) bits"
    by (rule refines_read) (use assms False in
      \<open>auto simp: hdr_good_def hdr_resid_def hdr_unc_def hdr_fin_def unat_eq_0 intro!: refines_Good\<close>)
  then show ?thesis using False by (simp add: header_Uncompressed_def hdr_unc_def)
qed

lemma or_push_bit_add:
  assumes "a < 2 ^ k"
  shows "int a OR push_bit k (uint v) = int (a + unat v * 2 ^ k)"
proof -
  have "take_bit k (int a) = int a" using assms by (simp add: take_bit_int_eq_self)
  then have "\<not> bit (int a) n" if "k \<le> n" for n using that by (metis bit_take_bit_iff not_less)
  then have "int a OR push_bit k (uint v) = int a + push_bit k (uint v)"
    by (intro disjunctive_add [symmetric]) (auto simp: bit_push_bit_iff)
  moreover have "uint v = int (unat v)" by simp
  ultimately show ?thesis
    by (simp only: push_bit_eq_mult of_nat_add of_nat_mult of_nat_power of_nat_numeral)
qed

lemma upto_map_int: "[int a..int b - 1] = map int [a..<b]"
proof (induction b)
  case (Suc b)
  show ?case
  proof (cases "a \<le> b")
    case True
    then have "[int a..int b] = [int a..int b - 1] @ [int b]" by (intro upto_rec2) simp
    with Suc True show ?thesis by simp
  qed simp
qed simp

lemma acc_step:
  assumes "acc < 2 ^ (w * i)" and "v < 2 ^ w"
  shows "acc + v * 2 ^ (w * i) < (2::nat) ^ (w * Suc i)"
proof -
  have "(1 + v) * 2 ^ (w * i) \<le> 2 ^ w * (2::nat) ^ (w * i)"
    using assms(2) by (intro mult_right_mono) simp_all
  moreover have "(1 + v) * 2 ^ (w * i) = 2 ^ (w * i) + v * 2 ^ (w * i)" by (simp only: distrib_right mult_1)
  moreover have "(2::nat) ^ (w * Suc i) = 2 ^ w * 2 ^ (w * i)" by (simp only: mult_Suc_right power_add)
  ultimately show ?thesis using assms(1) by linarith
qed

lemma hdr_size_refines:
  assumes "br_inv (ds_br s)" "bits = br_bits (ds_br s)" "\<not> ds_isUncompressed s" "\<not> ds_isMetadata s"
    "ds_metaBlockRemainingLen s = int acc" "acc < 2 ^ (4 * i)" "ds_sizeNibbles s = int n"
    "ds_substateMetablockHeader s = metablockHeaderSize"
  shows "hdr_refines (header_Size_loop (map int [i..<n]) s) (hdr_size (hdr_frame s) (ds_isLastMetablock s) n [i..<n] acc) bits"
  using assms
proof (induction "n - i" arbitrary: i s bits acc)
  case 0
  then have e: "[i..<n] = []" by simp
  show ?case unfolding e
    using 0 hdr_unc_refines [of "s\<lparr>ds_substateMetablockHeader := metablockHeaderUncompressed\<rparr>" bits acc] by simp
next
  case (Suc m)
  then have e: "[i..<n] = i # [Suc i..<n]" by (simp add: upt_conv_Cons)
  show ?case
    unfolding e list.map header_Size_loop.simps hdr_size.simps
  proof (rule refines_read)
    fix v :: u64 and br'
    assume *: "br_inv br'" "br_bits br' = drop 4 bits" "unat v < 2 ^ 4"
    show "hdr_refines
       (if int i + 1 = ds_sizeNibbles s \<and> ds_sizeNibbles s > 4 \<and> v = 0
         then Some (ResultError, s\<lparr>ds_br := br', ds_err := Some (decompressError ''exuberant nibble'')\<rparr>)
         else header_Size_loop (map int [Suc i..<n]) (s\<lparr>ds_br := br',
           ds_metaBlockRemainingLen := ds_metaBlockRemainingLen s OR push_bit (nat (int i * 4)) (uint v)\<rparr>))
       (if i + 1 = n \<and> n > 4 \<and> unat v = 0 then (\<lambda>_. Bad (decompressError ''exuberant nibble''))
        else hdr_size (hdr_frame s) (ds_isLastMetablock s) n [Suc i..<n] (acc + unat v * 2 ^ (4 * i))) (drop 4 bits)"
    proof (cases "i + 1 = n \<and> n > 4 \<and> unat v = 0")
      case True
      then have c: "int i + 1 = ds_sizeNibbles s \<and> ds_sizeNibbles s > 4 \<and> v = 0"
        using Suc.prems by (auto simp: unat_eq_0)
      show ?thesis unfolding if_P [OF True] if_P [OF c]
        by (intro refines_Bad) (use * in simp_all)
    next
      case False
      then have c: "\<not> (int i + 1 = ds_sizeNibbles s \<and> ds_sizeNibbles s > 4 \<and> v = 0)"
        using Suc.prems by (auto simp: unat_eq_0)
      have e: "nat (int i * 4) = 4 * i" by simp
      have acc: "acc + unat v * 2 ^ (4 * i) < 2 ^ (4 * Suc i)"
        using Suc.prems(6) *(3) by (rule acc_step)
      have "m = n - Suc i" using Suc.hyps(2) by simp
      from Suc.hyps(1) [OF this, of "s\<lparr>ds_br := br', ds_metaBlockRemainingLen := int (acc + unat v * 2 ^ (4 * i))\<rparr>"
          "drop 4 bits" "acc + unat v * 2 ^ (4 * i)"] acc * Suc.prems
      show ?thesis unfolding if_not_P [OF False] if_not_P [OF c] e Suc.prems(5)
        unfolding or_push_bit_add [OF Suc.prems(6)] by simp
    qed
  next
    fix br' assume *: "br_inv br'" "br_bits br' = bits"
    have u: "nat (ds_sizeNibbles s) = n" "nat (ds_metaBlockRemainingLen s) = acc" using Suc.prems by simp_all
    show "ds_br (s\<lparr>ds_br := br', ds_loopCounter := int i\<rparr>) = br' \<and>
      hdr_good (s\<lparr>ds_br := br', ds_loopCounter := int i\<rparr>) \<and>
      hdr_resid (s\<lparr>ds_br := br', ds_loopCounter := int i\<rparr>) =
       p_bits 4 (\<lambda>v. if i + 1 = n \<and> 4 < n \<and> v = 0 then \<lambda>_. Bad (decompressError ''exuberant nibble'')
         else hdr_size (hdr_frame s) (ds_isLastMetablock s) n [Suc i..<n] (acc + v * 2 ^ (4 * i)))"
      using Suc.prems u e by (simp add: hdr_good_def hdr_resid_def)
  qed (use Suc.prems in simp_all)
qed

lemma hdr_meta_refines:
  assumes "br_inv (ds_br s)" "bits = br_bits (ds_br s)" "\<not> ds_isUncompressed s" "ds_isMetadata s"
    "ds_metaBlockRemainingLen s = int acc" "acc < 2 ^ (8 * i)" "ds_sizeNibbles s = int n"
    "ds_substateMetablockHeader s = metablockHeaderMetadata"
  shows "hdr_refines (header_Metadata_loop (map int [i..<n]) s) (hdr_meta (hdr_frame s) (ds_isLastMetablock s) n [i..<n] acc) bits"
  using assms
proof (induction "n - i" arbitrary: i s bits acc)
  case 0
  then have e: "[i..<n] = []" by simp
  show ?case unfolding e using 0 by (auto intro!: refines_Good simp: hdr_fin_def)
next
  case (Suc m)
  then have e: "[i..<n] = i # [Suc i..<n]" by (simp add: upt_conv_Cons)
  show ?case
    unfolding e list.map header_Metadata_loop.simps hdr_meta.simps
  proof (rule refines_read)
    fix v :: u64 and br'
    assume *: "br_inv br'" "br_bits br' = drop 8 bits" "unat v < 2 ^ 8"
    show "hdr_refines
       (if int i + 1 = ds_sizeNibbles s \<and> ds_sizeNibbles s > 1 \<and> v = 0
         then Some (ResultError, s\<lparr>ds_br := br', ds_err := Some (decompressError ''exuberant metadata nibble'')\<rparr>)
         else header_Metadata_loop (map int [Suc i..<n]) (s\<lparr>ds_br := br',
           ds_metaBlockRemainingLen := ds_metaBlockRemainingLen s OR push_bit (nat (int i * 8)) (uint v)\<rparr>))
       (if i + 1 = n \<and> n > 1 \<and> unat v = 0 then (\<lambda>_. Bad (decompressError ''exuberant metadata nibble''))
        else hdr_meta (hdr_frame s) (ds_isLastMetablock s) n [Suc i..<n] (acc + unat v * 2 ^ (8 * i))) (drop 8 bits)"
    proof (cases "i + 1 = n \<and> n > 1 \<and> unat v = 0")
      case True
      then have c: "int i + 1 = ds_sizeNibbles s \<and> ds_sizeNibbles s > 1 \<and> v = 0"
        using Suc.prems by (auto simp: unat_eq_0)
      show ?thesis unfolding if_P [OF True] if_P [OF c]
        by (intro refines_Bad) (use * in simp_all)
    next
      case False
      then have c: "\<not> (int i + 1 = ds_sizeNibbles s \<and> ds_sizeNibbles s > 1 \<and> v = 0)"
        using Suc.prems by (auto simp: unat_eq_0)
      have e: "nat (int i * 8) = 8 * i" by simp
      have acc: "acc + unat v * 2 ^ (8 * i) < 2 ^ (8 * Suc i)"
        using Suc.prems(6) *(3) by (rule acc_step)
      have "m = n - Suc i" using Suc.hyps(2) by simp
      from Suc.hyps(1) [OF this, of "s\<lparr>ds_br := br', ds_metaBlockRemainingLen := int (acc + unat v * 2 ^ (8 * i))\<rparr>"
          "drop 8 bits" "acc + unat v * 2 ^ (8 * i)"] acc * Suc.prems
      show ?thesis unfolding if_not_P [OF False] if_not_P [OF c] e Suc.prems(5)
        unfolding or_push_bit_add [OF Suc.prems(6)] by simp
    qed
  next
    fix br' assume *: "br_inv br'" "br_bits br' = bits"
    have u: "nat (ds_sizeNibbles s) = n" "nat (ds_metaBlockRemainingLen s) = acc" using Suc.prems by simp_all
    show "ds_br (s\<lparr>ds_br := br', ds_loopCounter := int i\<rparr>) = br' \<and>
      hdr_good (s\<lparr>ds_br := br', ds_loopCounter := int i\<rparr>) \<and>
      hdr_resid (s\<lparr>ds_br := br', ds_loopCounter := int i\<rparr>) =
       p_bits 8 (\<lambda>v. if i + 1 = n \<and> 1 < n \<and> v = 0 then \<lambda>_. Bad (decompressError ''exuberant metadata nibble'')
         else hdr_meta (hdr_frame s) (ds_isLastMetablock s) n [Suc i..<n] (acc + v * 2 ^ (8 * i)))"
      using Suc.prems u e by (simp add: hdr_good_def hdr_resid_def)
  qed (use Suc.prems in simp_all)
qed

lemma uint_int_unat: "uint x = int (unat x)"
  by simp

lemma uint_add_4: "unat (x::u64) < 2 ^ 2 \<Longrightarrow> uint (x + 4) = int (unat x + 4)"
proof -
  assume a: "unat x < 2 ^ 2"
  then have "unat x + unat (4 :: u64) < 2 ^ LENGTH(64)" by simp
  then have "unat (x + 4) = unat x + unat (4 :: u64)" by (simp only: unat_add_lem [THEN iffD1])
  then have "unat (x + 4) = unat x + 4" by simp
  then show ?thesis by (simp only: uint_int_unat)
qed

lemma hdr_bytes_refines:
  assumes "br_inv (ds_br s)" "bits = br_bits (ds_br s)" "\<not> ds_isUncompressed s" "ds_isMetadata s"
    "ds_metaBlockRemainingLen s = 0" "ds_substateMetablockHeader s = metablockHeaderBytes"
  shows "hdr_refines (header_Bytes s) (hdr_bytes (hdr_frame s) (ds_isLastMetablock s)) bits"
  unfolding header_Bytes_def hdr_bytes_def
proof (rule refines_read)
  fix x :: u64 and br' assume *: "br_inv br'" "br_bits br' = drop 2 bits" "unat x < 2 ^ 2"
  let ?s = "s\<lparr>ds_br := br', ds_sizeNibbles := uint x, ds_loopCounter := 0,
     ds_substateMetablockHeader := metablockHeaderMetadata\<rparr>"
  have "header_Metadata ?s = header_Metadata_loop (map int [0..<unat x]) ?s"
    using upto_map_int [of 0 "unat x"] by (simp add: header_Metadata_def)
  moreover have "hdr_refines (header_Metadata_loop (map int [0..<unat x]) ?s)
      (hdr_meta (hdr_frame ?s) (ds_isLastMetablock ?s) (unat x) [0..<unat x] 0) (drop 2 bits)"
    using * assms by (intro hdr_meta_refines) simp_all
  ultimately show "hdr_refines
     (if x = 0 then Some (ResultSuccess, s\<lparr>ds_br := br', ds_substateMetablockHeader := metablockHeaderNone\<rparr>)
      else header_Metadata ?s)
     (if unat x = 0 then Good ((ds_isLastMetablock s, False, True, 0), metablockHeaderNone, hdr_frame s)
      else hdr_meta (hdr_frame s) (ds_isLastMetablock s) (unat x) [0..<unat x] 0) (drop 2 bits)"
    using * assms by (auto intro!: refines_Good simp: hdr_fin_def unat_eq_0)
qed (use assms in \<open>simp_all add: hdr_good_def hdr_resid_def hdr_bytes_def Let_def\<close>)

lemma hdr_reserved_refines:
  assumes "br_inv (ds_br s)" "bits = br_bits (ds_br s)" "\<not> ds_isUncompressed s" "ds_isMetadata s"
    "ds_metaBlockRemainingLen s = 0" "ds_substateMetablockHeader s = metablockHeaderReserved"
  shows "hdr_refines (header_Reserved s) (hdr_reserved (hdr_frame s) (ds_isLastMetablock s)) bits"
  unfolding header_Reserved_def hdr_reserved_def
proof (rule refines_read)
  fix x :: u64 and br' assume *: "br_inv br'" "br_bits br' = drop 1 bits" "unat x < 2 ^ 1"
  then show "hdr_refines
     (if x \<noteq> 0 then Some (ResultError, s\<lparr>ds_br := br',
         ds_err := Some (decompressError ''reserved bit set in metadata header'')\<rparr>)
      else header_Bytes (s\<lparr>ds_br := br', ds_substateMetablockHeader := metablockHeaderBytes\<rparr>))
     (if unat x \<noteq> 0 then (\<lambda>_. Bad (decompressError ''reserved bit set in metadata header''))
      else hdr_bytes (hdr_frame s) (ds_isLastMetablock s)) (drop 1 bits)"
    using assms hdr_bytes_refines [of "s\<lparr>ds_br := br', ds_substateMetablockHeader := metablockHeaderBytes\<rparr>" "drop 1 bits"]
    by (auto intro!: refines_Bad simp: unat_eq_0)
qed (use assms in \<open>simp_all add: hdr_good_def hdr_resid_def hdr_reserved_def Let_def\<close>)

lemma hdr_nibbles_refines:
  assumes "br_inv (ds_br s)" "bits = br_bits (ds_br s)" "\<not> ds_isUncompressed s" "\<not> ds_isMetadata s"
    "ds_metaBlockRemainingLen s = 0" "ds_substateMetablockHeader s = metablockHeaderNibbles"
  shows "hdr_refines (header_Nibbles s) (hdr_nibbles (hdr_frame s) (ds_isLastMetablock s)) bits"
  unfolding header_Nibbles_def hdr_nibbles_def Let_def
proof (rule refines_read)
  fix x :: u64 and br' assume *: "br_inv br'" "br_bits br' = drop 2 bits" "unat x < 2 ^ 2"
  let ?t = "s\<lparr>ds_br := br', ds_sizeNibbles := uint (x + 4), ds_loopCounter := 0\<rparr>"
  let ?s = "?t\<lparr>ds_substateMetablockHeader := metablockHeaderSize\<rparr>"
  have x: "uint (x + 4) = int (unat x + 4)" using *(3) by (rule uint_add_4)
  have "header_Size ?s = header_Size_loop (map int [0..<unat x + 4]) ?s"
    unfolding header_Size_def using upto_map_int [of 0 "unat x + 4"] x by simp
  moreover have "hdr_refines (header_Size_loop (map int [0..<unat x + 4]) ?s)
      (hdr_size (hdr_frame ?s) (ds_isLastMetablock ?s) (unat x + 4) [0..<unat x + 4] 0) (drop 2 bits)"
    using * assms x by (intro hdr_size_refines) simp_all
  ultimately have sz: "hdr_refines (header_Size ?s)
      (hdr_size (hdr_frame s) (ds_isLastMetablock s) (unat x + 4) [0..<unat x + 4] 0) (drop 2 bits)" by simp
  let ?r = "?t\<lparr>ds_isMetadata := True, ds_substateMetablockHeader := metablockHeaderReserved\<rparr>"
  have "hdr_refines (header_Reserved ?r) (hdr_reserved (hdr_frame ?r) (ds_isLastMetablock ?r)) (drop 2 bits)"
    using * assms by (intro hdr_reserved_refines) simp_all
  then have rs: "hdr_refines (header_Reserved ?r) (hdr_reserved (hdr_frame s) (ds_isLastMetablock s)) (drop 2 bits)"
    by simp
  have "x = 3 \<longleftrightarrow> unat x = 3" by (simp add: word_unat_eq_iff)
  with sz rs show "hdr_refines (if x = 3 then header_Reserved ?r else header_Size ?s)
     (if unat x = 3 then hdr_reserved (hdr_frame s) (ds_isLastMetablock s)
      else hdr_size (hdr_frame s) (ds_isLastMetablock s) (unat x + 4) [0..<unat x + 4] 0) (drop 2 bits)"
    by (simp only: split: if_split) blast
qed (use assms in \<open>simp_all add: hdr_good_def hdr_resid_def hdr_nibbles_def Let_def\<close>)

lemma hdr_empty_refines:
  assumes "br_inv (ds_br s)" "bits = br_bits (ds_br s)" "\<not> ds_isUncompressed s" "\<not> ds_isMetadata s"
    "ds_metaBlockRemainingLen s = 0" "ds_isLastMetablock s" "ds_substateMetablockHeader s = metablockHeaderEmpty"
  shows "hdr_refines (header_Empty s) (hdr_empty (hdr_frame s)) bits"
  unfolding header_Empty_def hdr_empty_def
proof (rule refines_read)
  fix x :: u64 and br' assume *: "br_inv br'" "br_bits br' = drop 1 bits" "unat x < 2 ^ 1"
  then show "hdr_refines
     (if x \<noteq> 0 then Some (ResultSuccess, s\<lparr>ds_br := br', ds_substateMetablockHeader := metablockHeaderNone\<rparr>)
      else header_Nibbles (s\<lparr>ds_br := br', ds_substateMetablockHeader := metablockHeaderNibbles\<rparr>))
     (if unat x \<noteq> 0 then Good ((True, False, False, 0), metablockHeaderNone, hdr_frame s)
      else hdr_nibbles (hdr_frame s) True) (drop 1 bits)"
    using assms hdr_nibbles_refines [of "s\<lparr>ds_br := br', ds_substateMetablockHeader := metablockHeaderNibbles\<rparr>" "drop 1 bits"]
    by (auto intro!: refines_Good simp: unat_eq_0 hdr_fin_def)
qed (use assms in \<open>simp_all add: hdr_good_def hdr_resid_def hdr_empty_def Let_def\<close>)

lemma hdr_none_refines:
  assumes "br_inv (ds_br s)" "bits = br_bits (ds_br s)" "ds_substateMetablockHeader s = metablockHeaderNone"
  shows "hdr_refines (header_None s) (hdr_parse (hdr_frame s)) bits"
  unfolding header_None_def hdr_parse_def Let_def
proof (rule refines_read)
  fix x :: u64 and br' assume *: "br_inv br'" "br_bits br' = drop 1 bits" "unat x < 2 ^ 1"
  let ?t = "s\<lparr>ds_br := br', ds_isLastMetablock := x \<noteq> 0, ds_metaBlockRemainingLen := 0,
     ds_isUncompressed := False, ds_isMetadata := False\<rparr>"
  show "hdr_refines
     (if \<not> ds_isLastMetablock ?t then header_Nibbles (?t\<lparr>ds_substateMetablockHeader := metablockHeaderNibbles\<rparr>)
      else header_Empty (?t\<lparr>ds_substateMetablockHeader := metablockHeaderEmpty\<rparr>))
     (if unat x \<noteq> 0 then hdr_empty (hdr_frame s) else hdr_nibbles (hdr_frame s) False) (drop 1 bits)"
    using assms * hdr_nibbles_refines [of "?t\<lparr>ds_substateMetablockHeader := metablockHeaderNibbles\<rparr>" "drop 1 bits"]
      hdr_empty_refines [of "?t\<lparr>ds_substateMetablockHeader := metablockHeaderEmpty\<rparr>" "drop 1 bits"]
    by (auto simp: unat_eq_0)
qed (use assms in \<open>simp_all add: hdr_good_def hdr_resid_def hdr_parse_def Let_def\<close>)

lemma hdr_refines:
  assumes good: "hdr_good s" and inv: "br_inv (ds_br s)"
  shows "hdr_refines (decodeMetaBlockLength s) (hdr_resid s) (br_bits (ds_br s))"
proof (cases "ds_substateMetablockHeader s")
  case metablockHeaderSize
  define i n acc where "i = nat (ds_loopCounter s)" and "n = nat (ds_sizeNibbles s)"
    and "acc = nat (ds_metaBlockRemainingLen s)"
  have *: "ds_loopCounter s = int i" "ds_sizeNibbles s = int n" "ds_metaBlockRemainingLen s = int acc"
    "acc < 2 ^ (4 * i)" using good metablockHeaderSize by (simp_all add: hdr_good_def i_def n_def acc_def)
  then have "header_Size s = header_Size_loop (map int [i..<n]) s" by (simp add: header_Size_def upto_map_int)
  with hdr_size_refines [OF inv refl _ _ *(3,4,2) metablockHeaderSize] good metablockHeaderSize *
  show ?thesis by (simp add: decodeMetaBlockLength_def hdr_resid_def hdr_good_def)
next
  case metablockHeaderMetadata
  define i n acc where "i = nat (ds_loopCounter s)" and "n = nat (ds_sizeNibbles s)"
    and "acc = nat (ds_metaBlockRemainingLen s)"
  have *: "ds_loopCounter s = int i" "ds_sizeNibbles s = int n" "ds_metaBlockRemainingLen s = int acc"
    "acc < 2 ^ (8 * i)" using good metablockHeaderMetadata by (simp_all add: hdr_good_def i_def n_def acc_def)
  then have "header_Metadata s = header_Metadata_loop (map int [i..<n]) s" by (simp add: header_Metadata_def upto_map_int)
  with hdr_meta_refines [OF inv refl _ _ *(3,4,2) metablockHeaderMetadata] good metablockHeaderMetadata *
  show ?thesis by (simp add: decodeMetaBlockLength_def hdr_resid_def hdr_good_def)
next
  case metablockHeaderUncompressed
  with good obtain acc where "ds_metaBlockRemainingLen s = int acc"
    by (auto simp: hdr_good_def elim: nonneg_int_cases)
  with hdr_unc_refines [OF inv refl] good metablockHeaderUncompressed
  show ?thesis by (simp add: decodeMetaBlockLength_def hdr_resid_def hdr_good_def)
qed (use assms hdr_none_refines hdr_empty_refines hdr_nibbles_refines hdr_reserved_refines hdr_bytes_refines
  in \<open>simp_all add: decodeMetaBlockLength_def hdr_resid_def hdr_good_def\<close>)

interpretation header: suspendable ds_br "\<lambda>br s. s\<lparr>ds_br := br\<rparr>" ds_err decodeMetaBlockLength hdr_good hdr_resid hdr_fin
proof
  fix s :: decodeState and br :: bitReader
  show "ds_br (s\<lparr>ds_br := br\<rparr>) = br" "hdr_good (s\<lparr>ds_br := br\<rparr>) = hdr_good s" "hdr_resid (s\<lparr>ds_br := br\<rparr>) = hdr_resid s"
    by (cases "ds_substateMetablockHeader s"; simp add: hdr_good_def hdr_resid_def)+
  show "stable_parse (hdr_resid s)"
    by (simp add: hdr_resid_def Let_def hdr_stable hdr_size_stable hdr_meta_stable split: metablockHeaderState.split)
  show "hdr_good s \<Longrightarrow> br_inv (ds_br s) \<Longrightarrow> hdr_refines (decodeMetaBlockLength s) (hdr_resid s) (br_bits (ds_br s))"
    by (rule hdr_refines)
qed


text \<open>The encoder's metablock header is what the parser reads.\<close>

lemma hdr_size_fields:
  assumes "i \<le> n" "w < 2 ^ (4 * (n - i))" "4 < n \<longrightarrow> i < n \<longrightarrow> 2 ^ (4 * (n - i - 1)) \<le> w"
  shows "hdr_size f isLast n [i..<n] acc (nat_bits (4 * (n - i)) w @ rest) = hdr_unc f isLast (acc + w * 2 ^ (4 * i)) rest"
  using assms
proof (induction "n - i" arbitrary: i w acc)
  case 0
  then show ?case by (simp add: nat_bits_def)
next
  case (Suc m)
  then have e: "[i..<n] = i # [Suc i..<n]" and lt: "i < n" by (simp_all add: upt_conv_Cons)
  have m: "4 * (n - i) = 4 + 4 * (n - Suc i)" using lt by simp
  have top: "\<not> (i + 1 = n \<and> n > 4 \<and> w mod 2 ^ 4 = 0)"
    using Suc.prems(2,3) lt by auto
  have div: "w div 2 ^ 4 < 2 ^ (4 * (n - Suc i))"
    using Suc.prems(2) unfolding m power_add by (simp add: less_mult_imp_div_less mult.commute)
  have low: "4 < n \<longrightarrow> Suc i < n \<longrightarrow> 2 ^ (4 * (n - Suc i - 1)) \<le> w div 2 ^ 4"
  proof (intro impI)
    assume "4 < n" "Suc i < n"
    then have "2 ^ (4 * (n - i - 1)) \<le> w" "4 * (n - i - 1) = 4 * (n - Suc i - 1) + 4" using Suc.prems(3) by simp_all
    then have "2 ^ (4 * (n - Suc i - 1)) * 2 ^ 4 \<le> w" by (simp add: power_add)
    then show "2 ^ (4 * (n - Suc i - 1)) \<le> w div 2 ^ 4" by (simp add: less_eq_div_iff_mult_less_eq)
  qed
  have "m = n - Suc i" "Suc i \<le> n" using Suc.hyps(2) lt by simp_all
  from Suc.hyps(1) [OF this div low, of "acc + w mod 2 ^ 4 * 2 ^ (4 * i)"]
  have "hdr_size f isLast n [Suc i..<n] (acc + w mod 2 ^ 4 * 2 ^ (4 * i)) (nat_bits (4 * (n - Suc i)) (w div 2 ^ 4) @ rest)
    = hdr_unc f isLast (acc + w mod 2 ^ 4 * 2 ^ (4 * i) + w div 2 ^ 4 * 2 ^ (4 * Suc i)) rest" .
  moreover have "w mod 2 ^ 4 * 2 ^ (4 * i) + w div 2 ^ 4 * 2 ^ (4 * Suc i) = w * 2 ^ (4 * i)"
  proof -
    have "w div 2 ^ 4 * 2 ^ (4 * Suc i) = (w div 2 ^ 4 * 2 ^ 4) * 2 ^ (4 * i)" by (simp add: power_add)
    then show ?thesis by (simp only: distrib_right [symmetric] mod_div_mult_eq)
  qed
  ultimately show ?case
    unfolding e m nat_bits_split hdr_size.simps append_assoc
    by (subst p_bits_nat) (simp, simp only: if_not_P [OF top] add.assoc)
qed

lemma hdr_parse_fields:
  assumes "0 < len" "len \<le> 2 ^ 24"
  shows "hdr_parse f (fields_bits (header_fields len isLast unc) @ rest) =
    Good ((isLast, unc \<and> \<not> isLast, False, int len), metablockHeaderNone, f) rest"
proof -
  define n where n: "n = (max (bits_Len (len - 1)) 16 + 3) div 4"
  note h = header_nibbles [OF assms n]
  define body where "body = bits_of (n * 4) (of_nat (len - 1) :: u64)"
  have nb: "body = nat_bits (4 * (n - 0)) (len - 1)" using h(2) by (simp add: body_def bits_of_of_nat mult.commute)
  have sz: "hdr_size f l n [0..<n] 0 (body @ x) = hdr_unc f l (len - 1) x" for l x
    unfolding nb using h hdr_size_fields [of 0 n "len - 1" f l 0 x] by simp
  have u: "unat (of_nat (n - 4) :: u64) = n - 4" using h(2) by (intro unat_of_nat64) simp
  have nib: "hdr_nibbles f l (bits_of 2 (of_nat (n - 4) :: u64) @ body @ x) = hdr_unc f l (len - 1) x" for l x
  proof -
    have n3: "n - 4 \<noteq> 3" "n - 4 + 4 = n" using h(1,2) by linarith+
    show ?thesis unfolding hdr_nibbles_def
      by (subst p_bits_word) (use h(1,2) n3 u sz in \<open>simp_all del: of_nat_diff\<close>)
  qed
  have fb: "fields_bits (header_fields len isLast unc) =
      (if isLast then bits_of 1 (1 :: u64) @ bits_of 1 (0 :: u64) else bits_of 1 (0 :: u64)) @
      bits_of 2 (of_nat (n - 4) :: u64) @ body @ (if isLast then [] else bits_of 1 (if unc then 1 else 0 :: u64))"
    unfolding header_fields_def Let_def n [symmetric] body_def by (simp del: of_nat_diff)
  have il: "int (len - 1) + 1 = int len" using assms(1) by simp
  show ?thesis
  proof (cases isLast)
    case True
    then show ?thesis using nib [of True rest] il unfolding fb
      by (simp add: hdr_parse_def hdr_empty_def p_bits_word hdr_unc_def del: of_nat_diff)
  next
    case False
    then show ?thesis using nib [of False "bits_of 1 (if unc then 1 else 0 :: u64) @ rest"] il unfolding fb
      by (simp add: hdr_parse_def p_bits_word hdr_unc_def del: of_nat_diff)
  qed
qed


subsection \<open>The window size\<close>

text \<open>RFC 7932 section 9.1.\<close>

definition win_parse :: "bool list \<Rightarrow> int parse" where
  "win_parse = p_bits 1 (\<lambda>b. if b = 0 then Good 16 else p_bits 3 (\<lambda>n. if n \<noteq> 0 then Good (17 + int n)
     else p_bits 3 (\<lambda>n. if n = 1 then (\<lambda>_. Bad (decompressError ''invalid window bits''))
       else if n \<noteq> 0 then Good (8 + int n) else Good 17)))"

lemma win_fields:
  "\<forall>L\<in>set [10, 11, 12, 13, 14, 15, 16, 17, 18, 19, 20, 21, 22, 23, 24].
     win_parse (bits_of (snd (encodeWindowBits L)) (fst (encodeWindowBits L)) @ rest) = Good L rest"
  by (simp add: encodeWindowBits_def bits_of_def upt_rec win_parse_def p_bits_def)

lemma window_and_63: "unat (n::u64) < 8 \<Longrightarrow> k \<le> 17 \<Longrightarrow> uint (of_nat k + n) AND 63 = int (k + unat n)"
proof -
  assume a: "unat n < 8" "k \<le> 17"
  have "unat (of_nat k + n :: u64) = k + unat n"
    using a by (subst unat_word_ariths) (simp add: unat_of_nat64)
  then have "uint (of_nat k + n :: u64) = int (k + unat n)" by (simp only: uint_int_unat)
  moreover have "int m AND 63 = int m" if "m < 64" for m
    using take_bit_eq_mask [of 6 "int m"] that by (simp add: mask_numeral take_bit_int_eq_self)
  ultimately show ?thesis using a by (simp only:)
qed

lemma take_field:
  assumes "br_inv br" "n \<le> br_bitPos br" "n < 64"
  obtains v br' where "takeBits n br = (v, br')" "br_inv br'" "br_bits br = bits_of n v @ br_bits br'" "unat v < 2 ^ n"
    "br_bitPos br' = br_bitPos br - n"
proof -
  note t = takeBits_ok [OF assms] and d = dropBits_ok [OF assms]
  let ?v = "fst (takeBits n br)"
  have lt: "unat ?v < 2 ^ n" using t(1) val_of_lt [of "take n (br_bits br)"] assms by (simp add: br_bits_def)
  have b: "bits_of n ?v = take n (br_bits br)"
    by (rule val_of_inj) (use t(1) lt assms in \<open>simp_all add: val_of_bits_of_exact br_bits_def\<close>)
  have "br_bits br = bits_of n ?v @ br_bits (dropBits n br)" unfolding b d(2) by simp
  moreover have "takeBits n br = (?v, dropBits n br)" by (simp add: takeBits_def)
  ultimately show thesis using lt d by (intro that [of ?v "dropBits n br"])
qed

lemma decodeWindowBits_parse:
  assumes inv: "br_inv (ds_br s)" and bp: "7 \<le> br_bitPos (ds_br s)"
  obtains e br' w where "decodeWindowBits s = (e, s\<lparr>ds_br := br', ds_windowBits := w\<rparr>)" "br_inv br'"
    "win_parse (br_bits (ds_br s)) = (case e of None \<Rightarrow> Good w (br_bits br') | Some m \<Rightarrow> Bad m)"
proof -
  obtain v1 b1 where 1: "takeBits 1 (ds_br s) = (v1, b1)" "br_inv b1" "br_bits (ds_br s) = bits_of 1 v1 @ br_bits b1"
    "unat v1 < 2 ^ 1" "br_bitPos b1 = br_bitPos (ds_br s) - 1" by (rule take_field [OF inv, of 1]) (use bp in simp_all)
  obtain v2 b2 where 2: "takeBits 3 b1 = (v2, b2)" "br_inv b2" "br_bits b1 = bits_of 3 v2 @ br_bits b2"
    "unat v2 < 2 ^ 3" "br_bitPos b2 = br_bitPos b1 - 3" by (rule take_field [OF 1(2), of 3]) (use bp 1 in simp_all)
  obtain v3 b3 where 3: "takeBits 3 b2 = (v3, b3)" "br_inv b3" "br_bits b2 = bits_of 3 v3 @ br_bits b3"
    "unat v3 < 2 ^ 3" by (rule take_field [OF 2(2), of 3]) (use bp 1 2 in simp_all)
  have w: "uint (17 + v2) AND 63 = 17 + int (unat v2)" "uint (8 + v3) AND 63 = 8 + int (unat v3)"
    using window_and_63 [of v2 17] window_and_63 [of v3 8] 2(4) 3(4) by simp_all
  have p: "win_parse (br_bits (ds_br s)) = (if unat v1 = 0 then Good 16 (br_bits b1)
    else if unat v2 \<noteq> 0 then Good (17 + int (unat v2)) (br_bits b2)
    else if unat v3 = 1 then Bad (decompressError ''invalid window bits'')
    else if unat v3 \<noteq> 0 then Good (8 + int (unat v3)) (br_bits b3) else Good 17 (br_bits b3))"
    unfolding 1(3) 2(3) 3(3) win_parse_def p_bits_word [OF 1(4)]
    by (simp add: p_bits_word [OF 2(4)] p_bits_word [OF 3(4)])
  consider "v1 = 0" | "v1 \<noteq> 0" "v2 \<noteq> 0" | "v1 \<noteq> 0" "v2 = 0" "v3 = 1" | "v1 \<noteq> 0" "v2 = 0" "v3 \<noteq> 1" "v3 \<noteq> 0"
    | "v1 \<noteq> 0" "v2 = 0" "v3 = 0" by auto
  then show thesis
  proof cases
    case 1
    with \<open>takeBits 1 (ds_br s) = (v1, b1)\<close> \<open>br_inv b1\<close> p that [where e = None and br' = b1 and w = 16] show ?thesis
      by (simp add: decodeWindowBits_def)
  next
    case 2
    with \<open>takeBits 1 (ds_br s) = (v1, b1)\<close> \<open>takeBits 3 b1 = (v2, b2)\<close> \<open>br_inv b2\<close> p w
      that [where e = None and br' = b2 and w = "17 + int (unat v2)"] show ?thesis
      by (simp add: decodeWindowBits_def unat_eq_0)
  next
    case 3
    with \<open>takeBits 1 (ds_br s) = (v1, b1)\<close> \<open>takeBits 3 b1 = (v2, b2)\<close> \<open>takeBits 3 b2 = (v3, b3)\<close> \<open>br_inv b3\<close> p
      that [where e = "Some (decompressError ''invalid window bits'')" and br' = b3 and w = "ds_windowBits s"] show ?thesis
      by (simp add: decodeWindowBits_def unat_eq_0)
  next
    case 4
    with \<open>takeBits 1 (ds_br s) = (v1, b1)\<close> \<open>takeBits 3 b1 = (v2, b2)\<close> \<open>takeBits 3 b2 = (v3, b3)\<close> \<open>br_inv b3\<close> p w
      that [where e = None and br' = b3 and w = "8 + int (unat v3)"] show ?thesis
      by (simp add: decodeWindowBits_def unat_eq_0 word_unat_eq_iff [of v3 1])
  next
    case 5
    with \<open>takeBits 1 (ds_br s) = (v1, b1)\<close> \<open>takeBits 3 b1 = (v2, b2)\<close> \<open>takeBits 3 b2 = (v3, b3)\<close> \<open>br_inv b3\<close> p
      that [where e = None and br' = b3 and w = 17] show ?thesis
      by (simp add: decodeWindowBits_def unat_eq_0)
  qed
qed


subsection \<open>Properties\<close>

text \<open>C7. The metablock header parser does not depend on how its input arrives. Starting from any
  resumable state, feed two different cuttings of the same bytes to \<^verbatim>\<open>decodeMetaBlockLength\<close>, resuming it with the
  next chunk whenever it asks for input: both runs end with the same result; on success in the same state (the reader
  and the loop counters of the header aside) with the same bits unread, on error with the same error.\<close>

theorem decodeMetaBlockLength_chunks:
  assumes "hdr_good s" and "br_inv (ds_br s)" and "concat cs = concat ds"
  shows "\<exists>r s1 t1 s2 t2.
    feed ds_br (\<lambda>br s. s\<lparr>ds_br := br\<rparr>) decodeMetaBlockLength cs s = Some (r, s1, t1) \<and>
    feed ds_br (\<lambda>br s. s\<lparr>ds_br := br\<rparr>) decodeMetaBlockLength ds s = Some (r, s2, t2) \<and>
    (r = ResultSuccess \<longrightarrow> hdr_fin s1 = hdr_fin s2 \<and>
       br_bits (ds_br s1) @ bytes_bits (concat t1) = br_bits (ds_br s2) @ bytes_bits (concat t2)) \<and>
    (r = ResultError \<longrightarrow> ds_err s1 = ds_err s2)"
  using assms by (rule header.feed_independent)

theorem decodeMetaBlockLength_chunks_witness:
  "\<exists>r s1 t1 s2 t2.
    feed ds_br (\<lambda>br s. s\<lparr>ds_br := br\<rparr>) decodeMetaBlockLength [[8], [1, 2]] zero_state = Some (r, s1, t1) \<and>
    feed ds_br (\<lambda>br s. s\<lparr>ds_br := br\<rparr>) decodeMetaBlockLength [[8, 1, 2]] zero_state = Some (r, s2, t2)"
proof -
  have "hdr_good zero_state" "br_inv (ds_br zero_state)"
    by (auto simp: hdr_good_def zero_state_def zero_br_def br_inv_def acc_ok_def)
  from decodeMetaBlockLength_chunks [OF this, of "[[8], [1, 2]]" "[[8, 1, 2]]"] show ?thesis by auto
qed

text \<open>C8. Metablock headers round trip: the bits that \<^verbatim>\<open>writeMetaBlockHeader\<close> appends for a length in its range
  are read by \<^verbatim>\<open>decodeMetaBlockLength\<close>, whatever follows them, as that length with the same ISLAST flag, and with the
  same ISUNCOMPRESSED flag when the metablock is not the last; the reader stands behind the header.\<close>

theorem metablock_header_roundtrip:
  assumes "0 < len" and "len \<le> 2 ^ 24" and "bw_inv b" and "64 \<le> bw_room b"
  shows "\<exists>b' hdr. writeMetaBlockHeader (int len) isLast unc b = Some b' \<and> bw_inv b' \<and> bw_bits b' = bw_bits b @ hdr \<and>
    (\<forall>s rest. br_inv (ds_br s) \<and> ds_substateMetablockHeader s = metablockHeaderNone \<and> br_bits (ds_br s) = hdr @ rest \<longrightarrow>
      (\<exists>s'. decodeMetaBlockLength s = Some (ResultSuccess, s') \<and> br_inv (ds_br s') \<and> br_bits (ds_br s') = rest \<and>
        ds_isLastMetablock s' = isLast \<and> ds_isUncompressed s' = (unc \<and> \<not> isLast) \<and> \<not> ds_isMetadata s' \<and>
        ds_metaBlockRemainingLen s' = int len))"
proof -
  let ?hdr = "fields_bits (header_fields len isLast unc)"
  define n where n: "n = (max (bits_Len (len - 1)) 16 + 3) div 4"
  have "length ?hdr < bw_room b"
    using header_nibbles(2) [OF assms(1,2) n] assms(4) unfolding header_fields_def Let_def n [symmetric]
    by (simp add: length_fields_bits)
  from writer_sink.put_fields_ok [OF assms(3) header_fields_ok [OF assms(1,2)] this] obtain b' where
    b': "writeMetaBlockHeader (int len) isLast unc b = Some b'" "bw_inv b'" "bw_bits b' = bw_bits b @ ?hdr"
    using writeMetaBlockHeader_fields [OF assms(1,2)] by auto
  moreover have "\<exists>s'. decodeMetaBlockLength s = Some (ResultSuccess, s') \<and> br_inv (ds_br s') \<and> br_bits (ds_br s') = rest \<and>
        ds_isLastMetablock s' = isLast \<and> ds_isUncompressed s' = (unc \<and> \<not> isLast) \<and> \<not> ds_isMetadata s' \<and>
        ds_metaBlockRemainingLen s' = int len"
    if s: "br_inv (ds_br s)" "ds_substateMetablockHeader s = metablockHeaderNone" "br_bits (ds_br s) = ?hdr @ rest" for s rest
  proof -
    have "hdr_good s" using s(2) by (simp add: hdr_good_def)
    moreover have "hdr_resid s (br_bits (ds_br s)) =
        Good ((isLast, unc \<and> \<not> isLast, False, int len), metablockHeaderNone, hdr_frame s) rest"
      using hdr_parse_fields [OF assms(1,2)] s by (simp add: hdr_resid_def)
    ultimately obtain s' where "decodeMetaBlockLength s = Some (ResultSuccess, s')"
      "hdr_fin s' = ((isLast, unc \<and> \<not> isLast, False, int len), metablockHeaderNone, hdr_frame s)"
      "br_inv (ds_br s')" "br_bits (ds_br s') = rest"
      using header.run_Good [of s] s(1) by metis
    then show ?thesis by (auto simp: hdr_fin_def)
  qed
  ultimately show ?thesis by blast
qed

theorem metablock_header_roundtrip_witness:
  "\<exists>b' hdr. writeMetaBlockHeader 70000 False True \<lparr>buf = replicate 16 0, bitOffset = 0\<rparr> = Some b' \<and> bw_inv b' \<and>
    bw_bits b' = hdr"
proof -
  have "bw_inv \<lparr>buf = replicate 16 0, bitOffset = 0\<rparr>" "64 \<le> bw_room \<lparr>buf = replicate 16 0, bitOffset = 0\<rparr>"
    "bw_bits \<lparr>buf = replicate 16 0, bitOffset = 0\<rparr> = []"
    by (auto simp: bw_inv_def clean_at_def bw_room_def bw_bits_def bits_upto_def nth_bytes_bits)
  with metablock_header_roundtrip [of 70000 "\<lparr>buf = replicate 16 0, bitOffset = 0\<rparr>" False True] show ?thesis by auto
qed

text \<open>C34. The variable-length byte round trips: for every value below 256 the bits \<^verbatim>\<open>storeVarLenUint8\<close> appends
  are decoded to that value, and the reader stands behind them.\<close>

theorem varlen_roundtrip:
  assumes "n < 256" and "bw_inv b" and "16 \<le> bw_room b"
  shows "\<exists>b' code. storeVarLenUint8 n b = Some b' \<and> bw_inv b' \<and> bw_bits b' = bw_bits b @ code \<and>
    (\<forall>s rest v. br_inv (ds_br s) \<and> ds_substateDecodeUint8 s = decodeUint8None \<and> br_bits (ds_br s) = code @ rest \<longrightarrow>
      (\<exists>s'. decodeVarLenUint8 (v, s) = Some (ResultSuccess, n, s') \<and> br_inv (ds_br s') \<and> br_bits (ds_br s') = rest))"
proof -
  let ?c = "fields_bits (varlen_fields n)"
  have "bits_Len n \<le> 8" using assms(1) bits_Len_le_iff [of n 8] by simp
  then have "length ?c < bw_room b" using assms(3) by (auto simp: varlen_fields_def length_fields_bits)
  from writer_sink.put_fields_ok [OF assms(2) varlen_fields_ok [OF assms(1)] this] obtain b' where
    b': "storeVarLenUint8 n b = Some b'" "bw_inv b'" "bw_bits b' = bw_bits b @ ?c"
    using storeVarLenUint8_fields by auto
  moreover have "\<exists>s'. decodeVarLenUint8 (v, s) = Some (ResultSuccess, n, s') \<and> br_inv (ds_br s') \<and> br_bits (ds_br s') = rest"
    if s: "br_inv (ds_br s)" "ds_substateDecodeUint8 s = decodeUint8None" "br_bits (ds_br s) = ?c @ rest" for s rest v
  proof -
    have "vl_good (v, s)" "br_inv (vl_rd (v, s))" "vl_resid (v, s) (br_bits (vl_rd (v, s))) = Good (n, vl_frame s) rest"
      using s vl_parse_fields [OF assms(1), of "vl_frame s" rest] by (simp_all add: vl_good_def vl_rd_def vl_resid_def)
    then obtain p where "decodeVarLenUint8 (v, s) = Some (ResultSuccess, p)" "vl_fin p = (n, vl_frame s)"
      "br_inv (vl_rd p)" "br_bits (vl_rd p) = rest" by (rule varlen.run_Good)
    then show ?thesis by (cases p) (auto simp: vl_fin_def vl_rd_def)
  qed
  ultimately show ?thesis by blast
qed

theorem varlen_roundtrip_witness:
  "\<exists>b' code. storeVarLenUint8 200 \<lparr>buf = replicate 16 0, bitOffset = 0\<rparr> = Some b' \<and> bw_inv b' \<and> bw_bits b' = code"
proof -
  have "bw_inv \<lparr>buf = replicate 16 0, bitOffset = 0\<rparr>" "16 \<le> bw_room \<lparr>buf = replicate 16 0, bitOffset = 0\<rparr>"
    "bw_bits \<lparr>buf = replicate 16 0, bitOffset = 0\<rparr> = []"
    by (auto simp: bw_inv_def clean_at_def bw_room_def bw_bits_def bits_upto_def nth_bytes_bits)
  with varlen_roundtrip [of 200 "\<lparr>buf = replicate 16 0, bitOffset = 0\<rparr>"] show ?thesis by auto
qed

text \<open>C35. Window sizes round trip: for every window size the format has, the header of \<^verbatim>\<open>encodeWindowBits\<close>
  is decoded by \<^verbatim>\<open>decodeWindowBits\<close> to that size. The reader has the 7 bits that \<^verbatim>\<open>warmup\<close> provides.\<close>

theorem window_bits_roundtrip:
  assumes "10 \<le> lgwin" and "lgwin \<le> 24" and "encodeWindowBits lgwin = (v, n)"
    and "br_inv (ds_br s)" and "7 \<le> br_bitPos (ds_br s)" and "br_bits (ds_br s) = bits_of n v @ rest"
  shows "\<exists>br'. decodeWindowBits s = (None, s\<lparr>ds_br := br', ds_windowBits := lgwin\<rparr>) \<and> br_inv br' \<and> br_bits br' = rest"
proof -
  have l: "lgwin = 10 \<or> lgwin = 11 \<or> lgwin = 12 \<or> lgwin = 13 \<or> lgwin = 14 \<or> lgwin = 15 \<or> lgwin = 16 \<or>
      lgwin = 17 \<or> lgwin = 18 \<or> lgwin = 19 \<or> lgwin = 20 \<or> lgwin = 21 \<or> lgwin = 22 \<or> lgwin = 23 \<or> lgwin = 24"
    using assms(1,2) by presburger
  have "win_parse (bits_of n v @ rest) = Good lgwin rest"
    using l assms(3) win_fields [of rest] by auto
  then have w: "win_parse (br_bits (ds_br s)) = Good lgwin rest" using assms(6) by simp
  obtain e br' w where "decodeWindowBits s = (e, s\<lparr>ds_br := br', ds_windowBits := w\<rparr>)" "br_inv br'"
    "win_parse (br_bits (ds_br s)) = (case e of None \<Rightarrow> Good w (br_bits br') | Some m \<Rightarrow> Bad m)"
    by (rule decodeWindowBits_parse [OF assms(4,5)])
  with w show ?thesis by (auto split: option.splits)
qed

theorem window_bits_roundtrip_witness:
  "\<exists>br'. decodeWindowBits (zero_state\<lparr>ds_br := \<lparr>br_input = [7], br_pos = 1, br_val = 7, br_bitPos = 8, br_inputLen = 1,
      br_fastEnd = -31\<rparr>\<rparr>) =
    (None, zero_state\<lparr>ds_br := br', ds_windowBits := 20\<rparr>)"
proof -
  let ?br = "\<lparr>br_input = [7], br_pos = 1, br_val = 7, br_bitPos = 8, br_inputLen = 1, br_fastEnd = -31\<rparr>"
  have "br_bits ?br = bits_of 4 (7 :: u16) @ [False, False, False, False]"
    by (simp add: br_bits_def bits_of_def upt_rec)
  moreover have "br_inv ?br"
    by (auto simp: br_inv_def acc_ok_def bits_of_def upt_rec less_Suc_eq numeral_eq_Suc)
  moreover have "encodeWindowBits 20 = (7, 4)" by (simp add: encodeWindowBits_def)
  ultimately show ?thesis using window_bits_roundtrip [of 20 7 4 "zero_state\<lparr>ds_br := ?br\<rparr>"] by auto
qed

end
