(* ===== verification/Decode_Ring.thy ===== *)
theory Decode_Ring
  imports Decode_Header
begin

unbundle bit_operations_syntax

text \<open>
  The decoder's ring buffer, its output side and the two kinds of metablock that are copied or skipped
  byte by byte, \<^verbatim>\<open>decode.go\<close>.

  What the buffer pool \<^verbatim>\<open>decRingBufPool\<close> returns is the parameter \<open>pool\<close> (numbered by the call of
  \<^verbatim>\<open>getDecRingBuf\<close> within one operation), what the chunk pool returns the parameter \<open>get\<close>. Returning a
  buffer to the pool has no effect on the decoder. \<^verbatim>\<open>int(s.partialPosOut)\<close> and its kin are exact for
  outputs below \<open>2 ^ 63\<close> bytes and are written as conversions.
\<close>

subsection \<open>Operations\<close>

type_synonym ring_pool = "nat \<Rightarrow> byte goslice option"
type_synonym chunk_pool = "nat \<Rightarrow> byte list"

definition getDecRingBuf :: "byte goslice option \<Rightarrow> nat \<Rightarrow> byte goslice" where
  "getDecRingBuf v size1 = (case v of
     Some bp \<Rightarrow> if size1 \<le> length (sl_data bp) then bp\<lparr>sl_len := size1\<rparr> else \<lparr>sl_data = replicate size1 0, sl_len = size1\<rparr>
   | None \<Rightarrow> \<lparr>sl_data = replicate size1 0, sl_len = size1\<rparr>)"

text \<open>\<^verbatim>\<open>b[i:j]\<close> of a slice is bounded by its capacity.\<close>

definition sl_slice :: "'a goslice \<Rightarrow> int \<Rightarrow> int \<Rightarrow> 'a list option" where
  "sl_slice b i j = go_slice (sl_data b) i j"

definition flushed_pos :: "decodeState \<Rightarrow> int" where
  "flushed_pos s = int (ds_partialPosOut s) - int (ds_rbRoundtrips s) * ds_ringbufferSize s"

definition pendingOutput :: "decodeState \<Rightarrow> byte list option" where
  "pendingOutput s = (if ds_metaBlockRemainingLen s < 0 then Some []
     else let ps = min (ds_pos s) (ds_ringbufferSize s) in
       if ps \<le> flushed_pos s then Some [] else sl_slice (ds_ringbuffer s) (flushed_pos s) ps)"

definition consumeOutput :: "int \<Rightarrow> decodeState \<Rightarrow> decodeState" where
  "consumeOutput n s = s\<lparr>ds_partialPosOut := uadd (ds_partialPosOut s) (nat (n mod 2 ^ 64))\<rparr>"

text \<open>Bytes leave through the sink when there is one, otherwise they are appended to the output.\<close>

definition emit :: "chunk_pool \<Rightarrow> byte list \<Rightarrow> byte list \<times> decodeState \<Rightarrow> (byte list \<times> decodeState) option" where
  "emit get data = (\<lambda>(outp, s). if ds_sink s
     then do { w \<leftarrow> chunk_write get data (ds_outChunks s); Some (outp, s\<lparr>ds_outChunks := w\<rparr>) }
     else Some (outp @ data, s))"

definition flushOutput :: "chunk_pool \<Rightarrow> byte list \<times> decodeState \<Rightarrow> (byte list \<times> decodeState) option" where
  "flushOutput get = (\<lambda>(outp, s). do {
     pending \<leftarrow> pendingOutput s;
     if length pending = 0 then Some (outp, s) else do {
       (outp, s) \<leftarrow> emit get pending (outp, s);
       Some (outp, consumeOutput (int (length pending)) s) } })"

definition calculateRingBufferSize_min :: "decodeState \<Rightarrow> int" where
  "calculateRingBufferSize_min s =
     (let outputSize = ds_pos s + ds_metaBlockRemainingLen s;
          minSize = (if ds_ringbufferSize s = 0 then 1024 else ds_ringbufferSize s) in
      if minSize < outputSize then outputSize else minSize)"

text \<open>\<^verbatim>\<open>for (newSize >> 1) >= minSize { newSize >>= 1 }\<close>; with a minimum below 1 it would not end.\<close>

function shrink_size :: "int \<Rightarrow> int \<Rightarrow> int option" where
  "shrink_size minSize newSize = (if minSize \<le> newSize div 2
     then (if minSize \<le> 0 then None else shrink_size minSize (newSize div 2)) else Some newSize)"
  by pat_completeness auto
termination by (relation "measure (\<lambda>(m, n). nat n)") auto

declare shrink_size.simps [simp del]

definition calculateRingBufferSize :: "decodeState \<Rightarrow> decodeState option" where
  "calculateRingBufferSize s = (let windowSize = 2 ^ nat (ds_windowBits s) in
     if ds_ringbufferSize s = windowSize then Some s
     else if ds_isMetadata s then Some s
     else if ds_cannyRingbufferAllocation s
     then do { n \<leftarrow> shrink_size (calculateRingBufferSize_min s) windowSize; Some (s\<lparr>ds_newRingbufferSize := n\<rparr>) }
     else Some (s\<lparr>ds_newRingbufferSize := windowSize\<rparr>))"

text \<open>The reallocation both \<^verbatim>\<open>ensureRingBuffer\<close> and \<^verbatim>\<open>writeRingBuffer\<close> do: \<open>size1\<close> bytes, the first \<^verbatim>\<open>pos\<close> bytes
  kept. A nil buffer has capacity 0 and nothing to copy.\<close>

definition ring_realloc :: "byte goslice option \<Rightarrow> nat \<Rightarrow> decodeState \<Rightarrow> decodeState option" where
  "ring_realloc v size1 s =
     (if size1 \<le> length (sl_data (ds_ringbuffer s))
      then Some (s\<lparr>ds_ringbuffer := (ds_ringbuffer s)\<lparr>sl_len := size1\<rparr>\<rparr>)
      else let newBuf = getDecRingBuf v size1 in
        if sl_data (ds_ringbuffer s) = [] then Some (s\<lparr>ds_ringbuffer := newBuf\<rparr>)
        else do {
          src \<leftarrow> sl_slice (ds_ringbuffer s) 0 (ds_pos s);
          Some (s\<lparr>ds_ringbuffer := newBuf\<lparr>sl_data := overwrite (sl_data newBuf) 0 (take size1 src)\<rparr>\<rparr>) })"

definition ensureRingBuffer :: "ring_pool \<Rightarrow> decodeState \<Rightarrow> decodeState option" where
  "ensureRingBuffer pool s = (if ds_ringbufferSize s = ds_newRingbufferSize s then Some s else do {
     s \<leftarrow> ring_realloc (pool 0) (nat (ds_newRingbufferSize s + int ringBufferWriteAheadSlack)) s;
     rb \<leftarrow> sl_set (ds_ringbuffer s) (ds_newRingbufferSize s - 2) 0;
     rb \<leftarrow> sl_set rb (ds_newRingbufferSize s - 1) 0;
     Some (s\<lparr>ds_ringbuffer := rb, ds_ringbufferSize := ds_newRingbufferSize s,
            ds_ringbufferMask := ds_newRingbufferSize s - 1\<rparr>) })"

partial_function (option) grow_size :: "int \<Rightarrow> int \<Rightarrow> int \<Rightarrow> int option" where
  "grow_size window ps newSize = (if newSize \<le> ps then grow_size window ps (min (2 * newSize) window) else Some newSize)"

definition ring_grow :: "ring_pool \<Rightarrow> decodeState \<Rightarrow> decodeState option" where
  "ring_grow pool s = do {
     s \<leftarrow> ensureRingBuffer pool s;
     newSize \<leftarrow> grow_size (2 ^ nat (ds_windowBits s)) (ds_pos s) (ds_ringbufferSize s);
     if newSize \<noteq> ds_ringbufferSize s then do {
       s \<leftarrow> ring_realloc (pool 1) (nat (newSize + int ringBufferWriteAheadSlack)) s;
       Some (s\<lparr>ds_ringbufferSize := newSize, ds_ringbufferMask := newSize - 1, ds_newRingbufferSize := newSize\<rparr>) }
     else Some s }"

text \<open>The part of \<^verbatim>\<open>writeRingBuffer\<close> that hands out the buffer and starts the next round.\<close>

definition ring_wrap :: "chunk_pool \<Rightarrow> byte list \<times> decodeState \<Rightarrow> (byte list \<times> decodeState) option" where
  "ring_wrap get = (\<lambda>(outp, s). do {
     data \<leftarrow> sl_slice (ds_ringbuffer s) (flushed_pos s) (ds_ringbufferSize s);
     (outp, s) \<leftarrow> emit get data (outp, s);
     let s = s\<lparr>ds_partialPosOut := uadd (ds_rbRoundtrips s * nat (ds_ringbufferSize s) mod 2 ^ 64) (nat (ds_ringbufferSize s)),
               ds_pos := ds_pos s - ds_ringbufferSize s, ds_rbRoundtrips := uadd (ds_rbRoundtrips s) 1\<rparr>;
     s \<leftarrow> (if ds_pos s > 0 then do {
              src \<leftarrow> sl_slice (ds_ringbuffer s) (ds_ringbufferSize s) (ds_ringbufferSize s + ds_pos s);
              Some (s\<lparr>ds_ringbuffer := (ds_ringbuffer s)\<lparr>sl_data :=
                overwrite (sl_data (ds_ringbuffer s)) 0 (take (sl_len (ds_ringbuffer s)) src)\<rparr>\<rparr>) }
            else Some s);
     Some (outp, s\<lparr>ds_maxDistance := ds_maxBackwardDistance s\<rparr>) })"

definition writeRingBuffer :: "chunk_pool \<Rightarrow> ring_pool \<Rightarrow> byte list \<times> decodeState \<Rightarrow> (byte list \<times> decodeState) option" where
  "writeRingBuffer get pool = (\<lambda>(outp, s).
     if ds_pos s < ds_ringbufferSize s then Some (outp, s)
     else if ds_ringbufferSize s < 2 ^ nat (ds_windowBits s) then do {
       s \<leftarrow> ring_grow pool s;
       if ds_pos s < ds_ringbufferSize s then Some (outp, s) else ring_wrap get (outp, s) }
     else ring_wrap get (outp, s))"

fun skip_bytes :: "nat \<Rightarrow> bitReader \<Rightarrow> bitReader" where
  "skip_bytes 0 br = br"
| "skip_bytes (Suc n) br = skip_bytes n (if br_bitPos br \<ge> 8 then dropBits 8 br else br\<lparr>br_pos := br_pos br + 1\<rparr>)"

text \<open>\<^verbatim>\<open>for range n\<close> with a negative \<open>n\<close> runs no round, but the length then grows: such a loop need not
  end, which the option covers.\<close>

partial_function (option) skipMetadataBlock :: "decodeState \<Rightarrow> (decoderResult \<times> decodeState) option" where
  "skipMetadataBlock s = (if ds_metaBlockRemainingLen s > 0 then
     (let avail = remainingBytes (ds_br s) in
      if avail = 0 then Some (ResultNeedsMoreInput, s)
      else let n = min avail (ds_metaBlockRemainingLen s) in
        skipMetadataBlock (s\<lparr>ds_br := skip_bytes (nat n) (ds_br s),
          ds_metaBlockRemainingLen := ds_metaBlockRemainingLen s - n\<rparr>))
     else Some (ResultSuccess, s))"

text \<open>One round of \<^verbatim>\<open>copyUncompressedBlock\<close> that copies: the new state, to be written when full.\<close>

definition uncompressed_copy :: "decodeState \<Rightarrow> decodeState option" where
  "uncompressed_copy s =
     (let avail = remainingBytes (ds_br s);
          n = min avail (ds_metaBlockRemainingLen s);
          n = (if ds_pos s + n > ds_ringbufferSize s then ds_ringbufferSize s - ds_pos s else n) in do {
      _ \<leftarrow> sl_slice (ds_ringbuffer s) (ds_pos s) (ds_pos s + n);
      (bs, br) \<leftarrow> copyBytes (nat n) (ds_br s);
      Some (s\<lparr>ds_br := br, ds_ringbuffer := (ds_ringbuffer s)\<lparr>sl_data :=
              overwrite (sl_data (ds_ringbuffer s)) (nat (ds_pos s)) bs\<rparr>,
            ds_pos := ds_pos s + n, ds_metaBlockRemainingLen := ds_metaBlockRemainingLen s - n\<rparr>) })"

partial_function (option) copyUncompressed_loop ::
    "chunk_pool \<Rightarrow> (nat \<Rightarrow> ring_pool) \<Rightarrow> nat \<Rightarrow> byte list \<Rightarrow> decodeState \<Rightarrow> (decoderResult \<times> byte list \<times> decodeState) option" where
  "copyUncompressed_loop get pools k outp s =
     (if ds_substateUncompressed s = uncompressedWrite then do {
       x \<leftarrow> writeRingBuffer get (pools k) (outp, s);
       copyUncompressed_loop get pools (k + 1) (fst x) ((snd x)\<lparr>ds_substateUncompressed := uncompressedNone\<rparr>) }
     else if ds_metaBlockRemainingLen s = 0 then Some (ResultSuccess, outp, s)
     else if remainingBytes (ds_br s) = 0 then Some (ResultNeedsMoreInput, outp, s)
     else do {
       s \<leftarrow> uncompressed_copy s;
       if ds_pos s \<ge> ds_ringbufferSize s
       then Some (ResultNeedsMoreOutput, outp, s\<lparr>ds_substateUncompressed := uncompressedWrite\<rparr>)
       else copyUncompressed_loop get pools k outp s })"

definition copyUncompressedBlock :: "chunk_pool \<Rightarrow> (nat \<Rightarrow> ring_pool) \<Rightarrow> byte list \<times> decodeState
    \<Rightarrow> (decoderResult \<times> byte list \<times> decodeState) option" where
  "copyUncompressedBlock get pools = (\<lambda>(outp, s). do {
     s \<leftarrow> ensureRingBuffer (pools 0) s;
     copyUncompressed_loop get pools 1 outp s })"


subsection \<open>What has been decoded\<close>

text \<open>The decoded bytes are those handed out (\<open>delivered\<close>) followed by those still in the buffer
  (\<open>pending\<close>), which may reach into the write-ahead slack.\<close>

definition sink_ok :: "chunk_pool \<Rightarrow> decodeState \<Rightarrow> bool" where
  "sink_ok get s \<longleftrightarrow> (ds_sink s \<longrightarrow> cw_inv (ds_outChunks s) \<and> (\<forall>k. length (get k) = cw_size (ds_outChunks s)))"

definition delivered :: "byte list \<Rightarrow> decodeState \<Rightarrow> byte list" where
  "delivered outp s = (if ds_sink s then chunk_content (ds_outChunks s) else outp)"

definition pending :: "decodeState \<Rightarrow> byte list" where
  "pending s = take (nat (ds_pos s - flushed_pos s)) (drop (nat (flushed_pos s)) (sl_data (ds_ringbuffer s)))"

text \<open>The invariant between operations: a power-of-two ring of at least 1024 bytes with its slack, never
  larger than the window, and smaller than the window only before the first wrap.\<close>

definition ring_inv :: "decodeState \<Rightarrow> bool" where
  "ring_inv s \<longleftrightarrow> sl_ok (ds_ringbuffer s) \<and>
     int (sl_len (ds_ringbuffer s)) = ds_ringbufferSize s + int ringBufferWriteAheadSlack \<and>
     (\<exists>k\<ge>10. k \<le> nat (ds_windowBits s) \<and> ds_ringbufferSize s = 2 ^ k) \<and> nat (ds_windowBits s) \<le> 30 \<and>
     ds_newRingbufferSize s = ds_ringbufferSize s \<and>
     (ds_rbRoundtrips s = 0 \<or> ds_ringbufferSize s = 2 ^ nat (ds_windowBits s)) \<and>
     0 \<le> flushed_pos s \<and> flushed_pos s \<le> ds_pos s \<and> flushed_pos s \<le> ds_ringbufferSize s \<and>
     ds_pos s \<le> ds_ringbufferSize s + int ringBufferWriteAheadSlack \<and>
     (ds_rbRoundtrips s + 1) * nat (ds_ringbufferSize s) < 2 ^ 62"

lemma emit_ok:
  assumes "sink_ok get s"
  obtains outp' w where "emit get data (outp, s) = Some (outp', s\<lparr>ds_outChunks := w\<rparr>)"
    "delivered outp' (s\<lparr>ds_outChunks := w\<rparr>) = delivered outp s @ data" "sink_ok get (s\<lparr>ds_outChunks := w\<rparr>)"
proof (cases "ds_sink s")
  case True
  with assms have "cw_inv (ds_outChunks s)" "\<forall>k. length (get k) = cw_size (ds_outChunks s)"
    by (simp_all add: sink_ok_def)
  from chunk_write_ok [OF this, of data] obtain w where "chunk_write get data (ds_outChunks s) = Some w"
    "cw_inv w" "cw_size w = cw_size (ds_outChunks s)" "chunk_content w = chunk_content (ds_outChunks s) @ data" by blast
  with True assms that [of outp w] show thesis by (simp add: emit_def sink_ok_def delivered_def)
next
  case False
  with assms that [of "outp @ data" "ds_outChunks s"] show thesis
    by (simp add: emit_def sink_ok_def delivered_def)
qed

lemma ring_invE:
  assumes "ring_inv s"
  obtains S P F where "ds_ringbufferSize s = int S" "ds_pos s = int P" "flushed_pos s = int F"
    "F \<le> S" "F \<le> P" "P \<le> S + 542" "1024 \<le> S" "S + 542 \<le> length (sl_data (ds_ringbuffer s))"
    "sl_len (ds_ringbuffer s) = S + 542" "ds_partialPosOut s = ds_rbRoundtrips s * S + F"
    "(ds_rbRoundtrips s + 1) * S < 2 ^ 62"
proof -
  from assms obtain k where k: "k \<ge> 10" "ds_ringbufferSize s = 2 ^ k" by (auto simp: ring_inv_def)
  define S where "S = (2 ^ k :: nat)"
  have S: "ds_ringbufferSize s = int S" using k by (simp add: S_def)
  have "(2::nat) ^ 10 \<le> S" unfolding S_def using k(1) by (intro power_increasing) simp_all
  moreover obtain P where P: "ds_pos s = int P" using assms by (auto simp: ring_inv_def intro!: that [of "nat (ds_pos s)"])
  moreover obtain F where F: "flushed_pos s = int F" using assms by (auto simp: ring_inv_def intro!: that [of "nat (flushed_pos s)"])
  moreover have "int (ds_partialPosOut s) = int (ds_rbRoundtrips s * S + F)"
    using F S by (simp add: flushed_pos_def)
  then have "ds_partialPosOut s = ds_rbRoundtrips s * S + F" by (simp only: of_nat_eq_iff)
  ultimately show thesis using assms S
    by (intro that [of S P F]) (auto simp: ring_inv_def sl_ok_def ringBufferWriteAheadSlack_def)
qed

lemma ring_wrap_ok:
  assumes inv: "ring_inv s" and win: "ds_ringbufferSize s = 2 ^ nat (ds_windowBits s)"
    and full: "ds_ringbufferSize s \<le> ds_pos s" and sink: "sink_ok get s"
    and total: "(ds_rbRoundtrips s + 2) * nat (ds_ringbufferSize s) < 2 ^ 62"
  obtains outp' s' where "ring_wrap get (outp, s) = Some (outp', s')" "ring_inv s'" "sink_ok get s'"
    "delivered outp' s' @ pending s' = delivered outp s @ pending s" "ds_pos s' = ds_pos s - ds_ringbufferSize s"
    "ds_br s' = ds_br s" "ds_metaBlockRemainingLen s' = ds_metaBlockRemainingLen s"
    "ds_rbRoundtrips s' = ds_rbRoundtrips s + 1" "ds_ringbufferSize s' = ds_ringbufferSize s"
proof -
  from ring_invE [OF inv] obtain S P F where
    S: "ds_ringbufferSize s = int S" and P: "ds_pos s = int P" and F: "flushed_pos s = int F"
    and FS: "F \<le> S" "F \<le> P" "P \<le> S + 542" "1024 \<le> S"
    and D: "S + 542 \<le> length (sl_data (ds_ringbuffer s))" "sl_len (ds_ringbuffer s) = S + 542"
    and b: "(ds_rbRoundtrips s + 1) * S < 2 ^ 62" by blast
  let ?D = "sl_data (ds_ringbuffer s)" and ?r = "ds_rbRoundtrips s"
  have SP: "S \<le> P" using full S P by simp
  from emit_ok [OF sink, of "take (S - F) (drop F ?D)" outp] obtain outp' w where
    e: "emit get (take (S - F) (drop F ?D)) (outp, s) = Some (outp', s\<lparr>ds_outChunks := w\<rparr>)"
    "delivered outp' (s\<lparr>ds_outChunks := w\<rparr>) = delivered outp s @ take (S - F) (drop F ?D)"
    "sink_ok get (s\<lparr>ds_outChunks := w\<rparr>)" by blast
  have sl: "sl_slice (ds_ringbuffer s) (flushed_pos s) (int S) = Some (take (S - F) (drop F ?D))"
    using FS D F S by (simp add: sl_slice_def go_slice_def nat_diff_distrib)
  have b2: "(?r + 2) * S < 2 ^ 62" using total S by simp
  have r64: "?r * S < 2 ^ 64" "?r * S + S < 2 ^ 64" using b by simp_all
  have "(?r + 1) * 1 \<le> (?r + 1) * S" using FS(4) by (intro mult_left_mono) simp_all
  then have "?r + 1 < 2 ^ 62" using b unfolding mult_1_right by (rule le_less_trans)
  then have r1: "?r + 1 < 2 ^ 64" by simp
  have u: "uadd (?r * S mod 2 ^ 64) S = (?r + 1) * S" "uadd ?r (Suc 0) = ?r + 1"
    using r64 r1 by simp_all
  let ?src = "take (P - S) (drop S ?D)"
  let ?rb = "(ds_ringbuffer s)\<lparr>sl_data := overwrite ?D 0 ?src\<rparr>"
  define s' where "s' = s\<lparr>ds_outChunks := w, ds_partialPosOut := (?r + 1) * S, ds_pos := int P - int S,
     ds_rbRoundtrips := ?r + 1, ds_ringbuffer := ?rb, ds_maxDistance := ds_maxBackwardDistance s\<rparr>"
  have lsrc: "length ?src = P - S" "length ?src \<le> S + 542" using FS D by auto
  have rb0: "?rb = ds_ringbuffer s" if "P = S" using that by (simp add: overwrite_def)
  have copy: "sl_slice (ds_ringbuffer s) (int S) (int P) = Some ?src"
    using FS D SP by (simp add: sl_slice_def go_slice_def nat_diff_distrib)
  have tk: "min (sl_len (ds_ringbuffer s)) (P - S) = P - S" using D(2) FS by simp
  have w: "ring_wrap get (outp, s) = Some (outp', s')"
  proof (cases "P = S")
    case True
    then show ?thesis unfolding ring_wrap_def
      using u by (simp add: sl e(1) S P s'_def rb0 Let_def)
  next
    case False
    then have "0 < int P - int S" using SP by simp
    then show ?thesis unfolding ring_wrap_def using u
      by (simp add: sl e(1) S P s'_def Let_def copy tk)
  qed
  have len: "length (overwrite ?D 0 ?src) = length ?D" using lsrc D by (intro length_overwrite) simp
  have fl: "flushed_pos s' = 0" using S by (simp add: flushed_pos_def s'_def distrib_right)
  have ss: "ds_ringbuffer s' = ?rb" "ds_ringbufferSize s' = int S" "ds_pos s' = int P - int S"
    "ds_windowBits s' = ds_windowBits s" "ds_newRingbufferSize s' = int S" "ds_rbRoundtrips s' = ?r + 1"
    using inv S by (simp_all add: s'_def ring_inv_def)
  have i: "\<exists>k\<ge>10. k \<le> nat (ds_windowBits s) \<and> int S = 2 ^ k" "nat (ds_windowBits s) \<le> 30"
    using inv S by (simp_all add: ring_inv_def)
  have d: "?r + 1 = 0 \<or> int S = 2 ^ nat (ds_windowBits s)" using win S by simp
  have b3: "(?r + 1 + 1) * nat (int S) < 2 ^ 62" using b2 by simp
  have inv': "ring_inv s'"
    unfolding ring_inv_def ss fl
    by (intro conjI i d b3) (use D FS SP len in \<open>simp_all add: sl_ok_def ringBufferWriteAheadSlack_def\<close>)
  have "pending s' = ?src"
    using lsrc SP unfolding pending_def ss fl by (simp add: overwrite_def nat_diff_distrib)
  moreover have "pending s = take (S - F) (drop F ?D) @ ?src"
  proof -
    have "take (P - F) (drop F ?D) = take ((S - F) + (P - S)) (drop F ?D)" using SP FS by simp
    also have "\<dots> = take (S - F) (drop F ?D) @ take (P - S) (drop (S - F) (drop F ?D))" by (rule take_add)
    also have "drop (S - F) (drop F ?D) = drop S ?D" using FS by simp
    finally show ?thesis using P F FS by (simp add: pending_def nat_diff_distrib)
  qed
  moreover have "delivered outp' s' = delivered outp' (s\<lparr>ds_outChunks := w\<rparr>)"
    by (simp add: delivered_def s'_def)
  ultimately have dl: "delivered outp' s' @ pending s' = delivered outp s @ pending s"
    using e(2) by simp
  have sk: "sink_ok get s'" using e(3) by (simp add: s'_def sink_ok_def)
  show thesis by (rule that [OF w inv' sk dl]) (simp_all add: s'_def S P)
qed

lemma getDecRingBuf_ok: "sl_len (getDecRingBuf v n) = n" "n \<le> length (sl_data (getDecRingBuf v n))"
  by (auto simp: getDecRingBuf_def split: option.splits)

lemma ring_realloc_ok:
  assumes "ds_pos s = int P" and "P \<le> n" and "P \<le> length (sl_data (ds_ringbuffer s))"
  obtains rb where "ring_realloc v n s = Some (s\<lparr>ds_ringbuffer := rb\<rparr>)" "sl_len rb = n" "sl_ok rb"
    "take P (sl_data rb) = take P (sl_data (ds_ringbuffer s))"
proof (cases "n \<le> length (sl_data (ds_ringbuffer s))")
  case True
  then show ?thesis
    by (intro that [of "(ds_ringbuffer s)\<lparr>sl_len := n\<rparr>"]) (simp_all add: ring_realloc_def sl_ok_def)
next
  case False
  note g = getDecRingBuf_ok [where v = v and n = n]
  show ?thesis
  proof (cases "sl_data (ds_ringbuffer s) = []")
    case True
    then show ?thesis using False g assms
      by (intro that [of "getDecRingBuf v n"]) (simp_all add: ring_realloc_def sl_ok_def)
  next
    case ne: False
    let ?src = "take P (sl_data (ds_ringbuffer s))"
    have sl: "sl_slice (ds_ringbuffer s) 0 (ds_pos s) = Some ?src"
      using assms by (simp add: sl_slice_def go_slice_def)
    have src: "take n ?src = ?src" "length ?src = P" using assms by (simp_all add: min_def)
    have r: "ring_realloc v n s = Some (s\<lparr>ds_ringbuffer := (getDecRingBuf v n)\<lparr>sl_data :=
        overwrite (sl_data (getDecRingBuf v n)) 0 ?src\<rparr>\<rparr>)"
      using False ne sl src by (simp add: ring_realloc_def Let_def)
    have o: "length (overwrite (sl_data (getDecRingBuf v n)) 0 ?src) = length (sl_data (getDecRingBuf v n))"
      using src g assms(2) by (intro length_overwrite) simp
    show ?thesis by (rule that [OF r]) (use o g src in \<open>simp_all add: sl_ok_def overwrite_def\<close>)
  qed
qed

lemma pending_cong:
  assumes "flushed_pos s' = flushed_pos s" "ds_pos s' = ds_pos s" "0 \<le> flushed_pos s" "flushed_pos s \<le> ds_pos s"
    "take (nat (ds_pos s)) (sl_data (ds_ringbuffer s')) = take (nat (ds_pos s)) (sl_data (ds_ringbuffer s))"
  shows "pending s' = pending s"
proof -
  define F P where "F = nat (flushed_pos s)" and "P = nat (ds_pos s)"
  have FP: "F \<le> P" "nat (ds_pos s - flushed_pos s) = P - F" using assms by (auto simp: F_def P_def)
  have "take (P - F) (drop F xs) = drop F (take P xs)" for xs :: "byte list" using FP by (simp add: drop_take)
  with assms FP show ?thesis unfolding pending_def by (simp add: F_def [symmetric] P_def [symmetric])
qed

lemma ring_grow_ok:
  assumes inv: "ring_inv s" and lt: "ds_ringbufferSize s < 2 ^ nat (ds_windowBits s)"
    and full: "ds_ringbufferSize s \<le> ds_pos s"
  obtains rb where "ring_grow pool s = Some (s\<lparr>ds_ringbuffer := rb, ds_ringbufferSize := 2 * ds_ringbufferSize s,
      ds_ringbufferMask := 2 * ds_ringbufferSize s - 1, ds_newRingbufferSize := 2 * ds_ringbufferSize s\<rparr>)"
    "ring_inv (s\<lparr>ds_ringbuffer := rb, ds_ringbufferSize := 2 * ds_ringbufferSize s,
      ds_ringbufferMask := 2 * ds_ringbufferSize s - 1, ds_newRingbufferSize := 2 * ds_ringbufferSize s\<rparr>)"
    "pending (s\<lparr>ds_ringbuffer := rb, ds_ringbufferSize := 2 * ds_ringbufferSize s,
      ds_ringbufferMask := 2 * ds_ringbufferSize s - 1, ds_newRingbufferSize := 2 * ds_ringbufferSize s\<rparr>) = pending s"
    "ds_pos s < 2 * ds_ringbufferSize s"
proof -
  from ring_invE [OF inv] obtain S P F where
    S: "ds_ringbufferSize s = int S" and P: "ds_pos s = int P" and F: "flushed_pos s = int F"
    and FS: "F \<le> S" "F \<le> P" "P \<le> S + 542" "1024 \<le> S"
    and D: "S + 542 \<le> length (sl_data (ds_ringbuffer s))" "sl_len (ds_ringbuffer s) = S + 542" by blast
  from inv obtain k where k: "k \<ge> 10" "k \<le> nat (ds_windowBits s)" "ds_ringbufferSize s = 2 ^ k"
    and w30: "nat (ds_windowBits s) \<le> 30" by (auto simp: ring_inv_def)
  have kw: "Suc k \<le> nat (ds_windowBits s)" using k lt by (cases "k = nat (ds_windowBits s)") auto
  then have "(2::int) ^ Suc k \<le> 2 ^ nat (ds_windowBits s)" by (intro power_increasing) simp_all
  then have w2: "2 * int S \<le> 2 ^ nat (ds_windowBits s)" unfolding S [symmetric] k(3) by simp
  have r0: "ds_rbRoundtrips s = 0" using inv lt by (auto simp: ring_inv_def)
  have PS: "S \<le> P" "P < 2 * S" using full S P FS by simp_all
  have e: "ensureRingBuffer pool s = Some s" using inv by (simp add: ensureRingBuffer_def ring_inv_def)
  have "grow_size (2 ^ nat (ds_windowBits s)) (int P) (int S) = grow_size (2 ^ nat (ds_windowBits s)) (int P) (2 * int S)"
    using PS w2 by (subst grow_size.simps) (simp add: min_def)
  also have "\<dots> = Some (2 * int S)" using PS by (subst grow_size.simps) simp
  finally have g: "grow_size (2 ^ nat (ds_windowBits s)) (ds_pos s) (ds_ringbufferSize s) = Some (2 * int S)" using S P by simp
  define n where "n = 2 * S + 542"
  have n: "nat (2 * int S + int ringBufferWriteAheadSlack) = n" by (simp add: n_def ringBufferWriteAheadSlack_def)
  have Pn: "P \<le> n" "P \<le> length (sl_data (ds_ringbuffer s))" using FS PS D by (simp_all add: n_def)
  from ring_realloc_ok [OF P Pn, of "pool 1"] obtain rb where
    rb: "ring_realloc (pool 1) n s = Some (s\<lparr>ds_ringbuffer := rb\<rparr>)" "sl_len rb = n" "sl_ok rb"
    "take P (sl_data rb) = take P (sl_data (ds_ringbuffer s))" by blast
  let ?s = "s\<lparr>ds_ringbuffer := rb, ds_ringbufferSize := 2 * ds_ringbufferSize s,
      ds_ringbufferMask := 2 * ds_ringbufferSize s - 1, ds_newRingbufferSize := 2 * ds_ringbufferSize s\<rparr>"
  have "ring_grow pool s = Some ?s"
    unfolding ring_grow_def using FS by (simp add: e g [unfolded S P] n rb(1) [unfolded One_nat_def] S P)
  moreover have fl: "flushed_pos ?s = flushed_pos s" using r0 by (simp add: flushed_pos_def)
  moreover have "ring_inv ?s"
  proof -
    have "\<exists>k'\<ge>10. k' \<le> nat (ds_windowBits s) \<and> 2 * ds_ringbufferSize s = 2 ^ k'"
      using k kw by (intro exI [of _ "Suc k"]) simp
    moreover have "nat (2 * ds_ringbufferSize s) < 2 ^ 62"
    proof -
      have "(2::int) ^ nat (ds_windowBits s) \<le> 2 ^ 30" using w30 by (intro power_increasing) simp_all
      then have "2 * int S \<le> 2 ^ 30" using w2 by linarith
      then show ?thesis using S by simp
    qed
    ultimately show ?thesis using inv fl rb FS r0 S P F w30 unfolding ring_inv_def
      by (simp add: n_def ringBufferWriteAheadSlack_def)
  qed
  moreover have "pending ?s = pending s"
    by (rule pending_cong) (use fl rb F P FS in simp_all)
  ultimately show thesis using PS S P by (intro that [of rb]) simp_all
qed

lemma writeRingBuffer_ok:
  assumes inv: "ring_inv s" and sink: "sink_ok get s"
    and total: "(ds_rbRoundtrips s + 2) * nat (ds_ringbufferSize s) < 2 ^ 62"
  obtains outp' s' where "writeRingBuffer get pool (outp, s) = Some (outp', s')" "ring_inv s'" "sink_ok get s'"
    "delivered outp' s' @ pending s' = delivered outp s @ pending s" "ds_pos s' < ds_ringbufferSize s'"
    "ds_br s' = ds_br s" "ds_metaBlockRemainingLen s' = ds_metaBlockRemainingLen s"
proof (cases "ds_pos s < ds_ringbufferSize s")
  case True
  then show ?thesis using inv sink by (intro that [of outp s]) (simp_all add: writeRingBuffer_def)
next
  case full: False
  show ?thesis
  proof (cases "ds_ringbufferSize s < 2 ^ nat (ds_windowBits s)")
    case True
    have le: "ds_ringbufferSize s \<le> ds_pos s" using full by simp
    obtain rb where g: "ring_grow pool s = Some (s\<lparr>ds_ringbuffer := rb, ds_ringbufferSize := 2 * ds_ringbufferSize s,
        ds_ringbufferMask := 2 * ds_ringbufferSize s - 1, ds_newRingbufferSize := 2 * ds_ringbufferSize s\<rparr>)"
      "ring_inv (s\<lparr>ds_ringbuffer := rb, ds_ringbufferSize := 2 * ds_ringbufferSize s,
        ds_ringbufferMask := 2 * ds_ringbufferSize s - 1, ds_newRingbufferSize := 2 * ds_ringbufferSize s\<rparr>)"
      "pending (s\<lparr>ds_ringbuffer := rb, ds_ringbufferSize := 2 * ds_ringbufferSize s,
        ds_ringbufferMask := 2 * ds_ringbufferSize s - 1, ds_newRingbufferSize := 2 * ds_ringbufferSize s\<rparr>) = pending s"
      "ds_pos s < 2 * ds_ringbufferSize s"
      by (rule ring_grow_ok [OF inv True le, where pool = pool])
    show ?thesis by (rule that [of outp, OF _ g(2)])
      (use full True g sink in \<open>simp_all add: writeRingBuffer_def sink_ok_def delivered_def\<close>)
  next
    case False
    then have win: "ds_ringbufferSize s = 2 ^ nat (ds_windowBits s)"
    proof -
      from inv obtain k where "k \<le> nat (ds_windowBits s)" "ds_ringbufferSize s = 2 ^ k" by (auto simp: ring_inv_def)
      then have "ds_ringbufferSize s \<le> 2 ^ nat (ds_windowBits s)" by (simp add: power_increasing)
      with False show ?thesis by simp
    qed
    have "1024 \<le> ds_ringbufferSize s" "ds_pos s \<le> ds_ringbufferSize s + 542"
      using ring_invE [OF inv] by (metis of_nat_numeral of_nat_le_iff of_nat_add)+
    then have lt: "ds_pos s - ds_ringbufferSize s < ds_ringbufferSize s" by simp
    have "ds_ringbufferSize s \<le> ds_pos s" using full by simp
    from ring_wrap_ok [OF inv win this sink total, where outp = outp] obtain outp' s' where
      "ring_wrap get (outp, s) = Some (outp', s')" "ring_inv s'" "sink_ok get s'"
      "delivered outp' s' @ pending s' = delivered outp s @ pending s" "ds_pos s' = ds_pos s - ds_ringbufferSize s"
      "ds_br s' = ds_br s" "ds_metaBlockRemainingLen s' = ds_metaBlockRemainingLen s"
      "ds_ringbufferSize s' = ds_ringbufferSize s" by blast
    with full False lt show ?thesis by (intro that [of outp' s']) (simp_all add: writeRingBuffer_def)
  qed
qed


subsection \<open>Allocation\<close>

text \<open>The state between \<^verbatim>\<open>calculateRingBufferSize\<close> and \<^verbatim>\<open>ensureRingBuffer\<close>: nothing to do, or a buffer not yet
  wrapped that is to be replaced by one that holds its content with room to spare.\<close>

definition ring_wait :: "decodeState \<Rightarrow> bool" where
  "ring_wait s \<longleftrightarrow> ring_inv s \<or>
     (ds_rbRoundtrips s = 0 \<and> int (ds_partialPosOut s) \<le> ds_pos s \<and> ds_pos s + 2 \<le> ds_newRingbufferSize s \<and>
      (\<exists>k\<ge>10. k \<le> nat (ds_windowBits s) \<and> ds_newRingbufferSize s = 2 ^ k) \<and> nat (ds_windowBits s) \<le> 30 \<and>
      ds_ringbufferSize s \<noteq> ds_newRingbufferSize s \<and> ds_pos s \<le> int (length (sl_data (ds_ringbuffer s))))"

lemma ensureRingBuffer_ok:
  assumes "ring_wait s"
  obtains rb mask where "ensureRingBuffer pool s = Some (s\<lparr>ds_ringbuffer := rb, ds_ringbufferSize := ds_newRingbufferSize s,
      ds_ringbufferMask := mask\<rparr>)"
    "ring_inv (s\<lparr>ds_ringbuffer := rb, ds_ringbufferSize := ds_newRingbufferSize s, ds_ringbufferMask := mask\<rparr>)"
    "pending (s\<lparr>ds_ringbuffer := rb, ds_ringbufferSize := ds_newRingbufferSize s, ds_ringbufferMask := mask\<rparr>) = pending s"
proof (cases "ds_ringbufferSize s = ds_newRingbufferSize s")
  case True
  then have inv: "ring_inv s" using assms by (auto simp: ring_wait_def)
  have same: "s\<lparr>ds_ringbuffer := ds_ringbuffer s, ds_ringbufferSize := ds_newRingbufferSize s,
      ds_ringbufferMask := ds_ringbufferMask s\<rparr> = s"
    unfolding True [symmetric] by simp
  show thesis by (rule that [where rb = "ds_ringbuffer s" and mask = "ds_ringbufferMask s"]; unfold same)
    (use True inv in \<open>simp_all add: ensureRingBuffer_def\<close>)
next
  case False
  with assms have w: "ds_rbRoundtrips s = 0" "int (ds_partialPosOut s) \<le> ds_pos s"
    "ds_pos s + 2 \<le> ds_newRingbufferSize s" "nat (ds_windowBits s) \<le> 30"
    "ds_pos s \<le> int (length (sl_data (ds_ringbuffer s)))"
    by (auto simp: ring_wait_def ring_inv_def)
  from assms False obtain k where k: "k \<ge> 10" "k \<le> nat (ds_windowBits s)" "ds_newRingbufferSize s = 2 ^ k"
    by (auto simp: ring_wait_def ring_inv_def)
  define N P F where "N = (2 ^ k :: nat)" and "P = nat (ds_pos s)" and "F = ds_partialPosOut s"
  have N: "ds_newRingbufferSize s = int N" and P: "ds_pos s = int P" using k w by (simp_all add: N_def P_def)
  have b: "F \<le> P" "P + 2 \<le> N" "P \<le> length (sl_data (ds_ringbuffer s))" using w P N by (simp_all add: F_def)
  have "(2::nat) ^ k \<le> 2 ^ 30" using k w by (intro power_increasing) simp_all
  then have N30: "N \<le> 2 ^ 30" by (simp add: N_def)
  have n: "nat (int N + int ringBufferWriteAheadSlack) = N + 542" by (simp add: ringBufferWriteAheadSlack_def)
  from ring_realloc_ok [OF P, of "N + 542" "pool 0"] b obtain rb where
    rb: "ring_realloc (pool 0) (N + 542) s = Some (s\<lparr>ds_ringbuffer := rb\<rparr>)" "sl_len rb = N + 542" "sl_ok rb"
    "take P (sl_data rb) = take P (sl_data (ds_ringbuffer s))" by auto
  define rb2 where "rb2 = rb\<lparr>sl_data := (sl_data rb)[N - 2 := 0, N - 1 := 0]\<rparr>"
  have sets: "sl_set rb (int N - 2) 0 = Some (rb\<lparr>sl_data := (sl_data rb)[N - 2 := 0]\<rparr>)"
    "sl_set (rb\<lparr>sl_data := (sl_data rb)[N - 2 := 0]\<rparr>) (int N - 1) 0 = Some rb2"
    using rb b by (simp_all add: sl_set_def sl_ok_def rb2_def nat_diff_distrib)
  let ?s = "s\<lparr>ds_ringbuffer := rb2, ds_ringbufferSize := ds_newRingbufferSize s, ds_ringbufferMask := int N - 1\<rparr>"
  have e: "ensureRingBuffer pool s = Some ?s"
    unfolding ensureRingBuffer_def using False by (simp add: N n rb(1) sets)
  have fl: "flushed_pos ?s = int F" "flushed_pos s = int F" using w(1) by (simp_all add: flushed_pos_def F_def)
  have rb2: "sl_len rb2 = N + 542" "sl_ok rb2" "take P (sl_data rb2) = take P (sl_data (ds_ringbuffer s))"
    using rb b by (simp_all add: rb2_def sl_ok_def)
  have ex: "\<exists>k\<ge>10. k \<le> nat (ds_windowBits s) \<and> int N = 2 ^ k" using k N by auto
  have "ring_inv ?s"
    unfolding ring_inv_def fl
    by (intro conjI) (use rb2 b N P N30 w ex in \<open>simp_all add: ringBufferWriteAheadSlack_def\<close>)
  moreover have "pending ?s = pending s"
    by (rule pending_cong) (use fl rb2 b P in simp_all)
  ultimately show thesis using e by (intro that [where rb = rb2 and mask = "int N - 1"]) simp_all
qed

lemma shrink_size_ok:
  assumes "0 < m"
  shows "\<exists>k\<le>w. shrink_size m (2 ^ w) = Some (2 ^ k) \<and> (m \<le> 2 ^ w \<longrightarrow> m \<le> 2 ^ k) \<and> (2 ^ w < m \<longrightarrow> k = w) \<and>
    (0 < k \<longrightarrow> 2 ^ (k - 1) < m)"
  using assms
proof (induction w)
  case 0
  then show ?case by (subst shrink_size.simps) auto
next
  case (Suc w)
  show ?case
  proof (cases "m \<le> 2 ^ w")
    case True
    then have "shrink_size m (2 ^ Suc w) = shrink_size m (2 ^ w)" using Suc.prems by (subst shrink_size.simps) simp
    with Suc True show ?thesis by (auto intro: le_SucI)
  next
    case False
    then have "shrink_size m (2 ^ Suc w) = Some (2 ^ Suc w)" by (subst shrink_size.simps) simp
    with False show ?thesis by (intro exI [of _ "Suc w"]) auto
  qed
qed

text \<open>A decoder that has not allocated yet, or one between metablocks.\<close>

definition ring_idle :: "decodeState \<Rightarrow> bool" where
  "ring_idle s \<longleftrightarrow> 10 \<le> nat (ds_windowBits s) \<and> nat (ds_windowBits s) \<le> 30 \<and>
     (ds_ringbufferSize s = 0 \<and> ds_pos s = 0 \<and> ds_rbRoundtrips s = 0 \<and> ds_partialPosOut s = 0 \<or>
      ring_inv s \<and> ds_pos s < ds_ringbufferSize s)"

lemma calculateRingBufferSize_ok:
  assumes idle: "ring_idle s" and len: "0 < ds_metaBlockRemainingLen s" and md: "\<not> ds_isMetadata s"
    and canny: "ds_cannyRingbufferAllocation s"
  obtains n where "calculateRingBufferSize s = Some (s\<lparr>ds_newRingbufferSize := n\<rparr>)"
    "ring_wait (s\<lparr>ds_newRingbufferSize := n\<rparr>)"
    "n \<le> 2 ^ nat (ds_windowBits s)"
    "n = 2 ^ nat (ds_windowBits s) \<or> ds_pos s + ds_metaBlockRemainingLen s \<le> n"
proof (cases "ds_ringbufferSize s = 2 ^ nat (ds_windowBits s)")
  case True
  then have "ring_inv s" using idle by (auto simp: ring_idle_def)
  with True that [of "ds_newRingbufferSize s"] show thesis
    by (simp add: calculateRingBufferSize_def ring_wait_def ring_inv_def)
next
  case False
  define m w where "m = calculateRingBufferSize_min s" and "w = nat (ds_windowBits s)"
  have pos: "0 \<le> ds_pos s" using idle by (auto simp: ring_idle_def ring_inv_def)
  have m: "1024 \<le> m" "ds_pos s + ds_metaBlockRemainingLen s \<le> m" "ds_ringbufferSize s \<le> m"
    using idle by (auto simp: m_def calculateRingBufferSize_min_def Let_def ring_idle_def elim!: ring_invE)
  have w: "10 \<le> w" "w \<le> 30" using idle by (simp_all add: ring_idle_def w_def)
  from shrink_size_ok [of m w] m obtain k where k: "k \<le> w" "shrink_size m (2 ^ w) = Some (2 ^ k)"
    "m \<le> 2 ^ w \<longrightarrow> m \<le> 2 ^ k" "2 ^ w < m \<longrightarrow> k = w" by auto
  have k10: "10 \<le> k"
  proof (cases "m \<le> 2 ^ w")
    case True
    then have "(2::int) ^ 10 \<le> 2 ^ k" using k m by simp
    then show ?thesis by (rule power_le_imp_le_exp [rotated]) simp
  qed (use k w in simp)
  let ?s = "s\<lparr>ds_newRingbufferSize := 2 ^ k\<rparr>"
  have c: "calculateRingBufferSize s = Some ?s"
    using False md canny k(2) by (simp add: calculateRingBufferSize_def m_def w_def)
  have out: "(2::int) ^ k = 2 ^ w \<or> ds_pos s + ds_metaBlockRemainingLen s \<le> 2 ^ k"
    using k m by (cases "m \<le> 2 ^ w") auto
  have "ring_wait ?s"
  proof (cases "ds_ringbufferSize s = 2 ^ k")
    case True
    then have "ds_ringbufferSize s \<noteq> 0" by simp
    then have inv: "ring_inv s" using idle by (auto simp: ring_idle_def)
    then have "ds_newRingbufferSize s = 2 ^ k" using True by (simp add: ring_inv_def)
    then have "?s = s\<lparr>ds_newRingbufferSize := ds_newRingbufferSize s\<rparr>" by (simp only:)
    then have "?s = s" by simp
    then show ?thesis using inv by (simp add: ring_wait_def)
  next
    case ne: False
    have K: "(1024::int) \<le> 2 ^ k" using power_increasing [OF k10, of "2::int"] by simp
    show ?thesis
    proof (cases "ds_ringbufferSize s = 0")
      case True
      then have "ds_pos s = 0" "ds_rbRoundtrips s = 0" "ds_partialPosOut s = 0"
        using idle by (auto simp: ring_idle_def elim!: ring_invE)
      then show ?thesis using K k10 k(1) w True
        by (auto simp: ring_wait_def w_def)
    next
      case sz: False
      then have inv: "ring_inv s" "ds_pos s < ds_ringbufferSize s" using idle by (auto simp: ring_idle_def)
      from inv(1) obtain j where j: "ds_ringbufferSize s = 2 ^ j" "j \<le> w" by (auto simp: ring_inv_def w_def)
      have r0: "ds_rbRoundtrips s = 0" using inv False by (auto simp: ring_inv_def)
      have "j < k"
      proof -
        have "(2::int) ^ j \<le> 2 ^ k"
        proof (cases "m \<le> 2 ^ w")
          case True
          then show ?thesis using k(3) m(3) j(1) by linarith
        next
          case False
          then show ?thesis using k(4) j(2) by (intro power_increasing) simp_all
        qed
        then have "j \<le> k" by (rule power_le_imp_le_exp [rotated]) simp
        then show ?thesis using ne j by (cases "j = k") auto
      qed
      then have "(2::int) ^ Suc j \<le> 2 ^ k" by (intro power_increasing) simp_all
      then have "ds_pos s + 2 \<le> 2 ^ k" using inv(2) j K by simp
      moreover have "int (ds_partialPosOut s) \<le> ds_pos s" using inv(1) r0 by (simp add: ring_inv_def flushed_pos_def)
      moreover have "ds_pos s \<le> int (length (sl_data (ds_ringbuffer s)))" using inv(1)
        by (auto simp: ring_inv_def sl_ok_def)
      ultimately show ?thesis using r0 w k10 k(1) ne by (auto simp: ring_wait_def w_def)
    qed
  qed
  with c out k(1) show thesis
    by (intro that [of "2 ^ k"]) (simp_all add: w_def power_increasing)
qed


subsection \<open>Skipped and uncompressed metablocks\<close>

lemma remainingBytes_ok:
  assumes inv: "br_inv br" and al: "br_bitPos br mod 8 = 0"
  obtains R where "remainingBytes br = int R" "8 * R \<le> length (br_bits br)" "R = 0 \<longleftrightarrow> br_bits br = []"
proof -
  define q p where "q = br_bitPos br div 8" and "p = nat (br_pos br)"
  have q: "br_bitPos br = 8 * q" using al by (auto simp: q_def)
  have p: "br_pos br = int p" "p \<le> length (br_input br)" "br_inputLen br = int (length (br_input br))"
    using inv by (auto simp: br_inv_def p_def)
  have len: "length (br_bits br) = 8 * q + 8 * (length (br_input br) - p)"
    by (simp add: br_bits_def q p_def [symmetric])
  have av: "availIn br = int (length (br_input br) - p)" using p by (simp add: availIn_def of_nat_diff)
  define A where "A = length (br_input br) - p"
  have av: "availIn br = int A" using av by (simp add: A_def)
  have len: "length (br_bits br) = 8 * q + 8 * A" using len by (simp add: A_def)
  then have e: "br_bits br = [] \<longleftrightarrow> q = 0 \<and> A = 0" by (metis add_is_0 length_0_conv mult_is_0 zero_neq_numeral)
  show thesis
  proof (cases "A > 2 ^ 30")
    case True
    then have "remainingBytes br = int (2 ^ 30)" using av by (simp add: remainingBytes_def)
    with True len e show thesis by (intro that [of "2 ^ 30"]) simp_all
  next
    case False
    then have "remainingBytes br = int (A + q)" using av q by (simp add: remainingBytes_def)
    with len e show thesis by (intro that [of "A + q"]) auto
  qed
qed

lemma uncompressed_copy_ok:
  assumes inv: "ring_inv s" and br: "br_inv (ds_br s)" and al: "br_bitPos (ds_br s) mod 8 = 0"
    and ps: "ds_pos s < ds_ringbufferSize s" and rem: "0 < ds_metaBlockRemainingLen s"
    and ne: "remainingBytes (ds_br s) \<noteq> 0"
  obtains bs br' rb where "uncompressed_copy s = Some (s\<lparr>ds_br := br', ds_ringbuffer := rb,
      ds_pos := ds_pos s + int (length bs), ds_metaBlockRemainingLen := ds_metaBlockRemainingLen s - int (length bs)\<rparr>)"
    "ring_inv (s\<lparr>ds_br := br', ds_ringbuffer := rb,
      ds_pos := ds_pos s + int (length bs), ds_metaBlockRemainingLen := ds_metaBlockRemainingLen s - int (length bs)\<rparr>)"
    "pending (s\<lparr>ds_br := br', ds_ringbuffer := rb, ds_pos := ds_pos s + int (length bs),
      ds_metaBlockRemainingLen := ds_metaBlockRemainingLen s - int (length bs)\<rparr>) = pending s @ bs"
    "br_inv br'" "br_bitPos br' mod 8 = 0" "br_bits (ds_br s) = bytes_bits bs @ br_bits br'" "bs \<noteq> []"
    "int (length bs) \<le> ds_metaBlockRemainingLen s" "ds_pos s + int (length bs) \<le> ds_ringbufferSize s"
proof -
  from ring_invE [OF inv] obtain S P F where
    S: "ds_ringbufferSize s = int S" and P: "ds_pos s = int P" and F: "flushed_pos s = int F"
    and FS: "F \<le> S" "F \<le> P" "1024 \<le> S"
    and D: "S + 542 \<le> length (sl_data (ds_ringbuffer s))" "sl_len (ds_ringbuffer s) = S + 542" by blast
  have PS: "P < S" using ps S P by simp
  obtain R where R: "remainingBytes (ds_br s) = int R" "8 * R \<le> length (br_bits (ds_br s))"
    by (rule remainingBytes_ok [OF br al])
  define L where "L = nat (ds_metaBlockRemainingLen s)"
  have L: "ds_metaBlockRemainingLen s = int L" "0 < L" using rem by (simp_all add: L_def)
  define n where "n = min (min R L) (S - P)"
  have n: "0 < n" "n \<le> R" "n \<le> L" "P + n \<le> S" using ne R L PS by (auto simp: n_def)
  have ni: "(let n = min (int R) (int L) in if int P + n > int S then int S - int P else n) = int n"
    using PS by (auto simp: n_def min_def Let_def)
  have "8 * n \<le> length (br_bits (ds_br s))" using n(2) R(2) by linarith
  then obtain bs br' where
    cb: "copyBytes n (ds_br s) = Some (bs, br')" "br_inv br'" "length bs = n"
    "br_bits (ds_br s) = bytes_bits bs @ br_bits br'" "br_bitPos br' mod 8 = 0"
    "br_input br' = br_input (ds_br s)" "br_inputLen br' = br_inputLen (ds_br s)" "br_fastEnd br' = br_fastEnd (ds_br s)"
    by (rule copyBytes_ok [OF br al])
  let ?D = "sl_data (ds_ringbuffer s)"
  let ?rb = "(ds_ringbuffer s)\<lparr>sl_data := overwrite ?D P bs\<rparr>"
  let ?s = "s\<lparr>ds_br := br', ds_ringbuffer := ?rb, ds_pos := ds_pos s + int (length bs),
      ds_metaBlockRemainingLen := ds_metaBlockRemainingLen s - int (length bs)\<rparr>"
  have sl: "sl_slice (ds_ringbuffer s) (int P) (int P + int n) \<noteq> None"
    using D n by (simp add: sl_slice_def go_slice_def)
  then obtain x where x: "sl_slice (ds_ringbuffer s) (int P) (int P + int n) = Some x" by auto
  have u: "uncompressed_copy s = Some ?s"
    unfolding uncompressed_copy_def Let_def R(1) L(1) S P
    using ni [unfolded Let_def] x cb by simp
  have ol: "length (overwrite ?D P bs) = length ?D" using cb(3) n D by (intro length_overwrite) simp
  have fl: "flushed_pos ?s = int F" using F by (simp add: flushed_pos_def)
  have i: "\<exists>k\<ge>10. k \<le> nat (ds_windowBits s) \<and> ds_ringbufferSize s = 2 ^ k" "nat (ds_windowBits s) \<le> 30"
    "ds_newRingbufferSize s = ds_ringbufferSize s"
    "ds_rbRoundtrips s = 0 \<or> ds_ringbufferSize s = 2 ^ nat (ds_windowBits s)"
    "(ds_rbRoundtrips s + 1) * nat (ds_ringbufferSize s) < 2 ^ 62" using inv by (simp_all add: ring_inv_def)
  have inv': "ring_inv ?s"
    unfolding ring_inv_def fl
    by (intro conjI) (use i S P FS D n cb(3) ol in \<open>simp_all add: sl_ok_def ringBufferWriteAheadSlack_def\<close>)
  have pd: "pending ?s = pending s @ bs"
  proof -
    have "pending ?s = take (P + n - F) (drop F (overwrite ?D P bs))"
      using fl P cb(3) FS by (simp add: pending_def nat_diff_distrib flip: of_nat_add)
    also have "\<dots> = drop F (take (P + length bs) (overwrite ?D P bs))" using cb(3) FS by (simp add: drop_take)
    also have "\<dots> = drop F (take P ?D @ bs)" using take_overwrite_end [of P bs ?D] D n cb(3) by simp
    also have "\<dots> = drop F (take P ?D) @ bs" using FS D PS by simp
    also have "drop F (take P ?D) = pending s"
      using F P FS by (simp add: pending_def drop_take nat_diff_distrib)
    finally show ?thesis .
  qed
  show thesis
    by (rule that [OF u inv' pd cb(2,5,4)]) (use n cb(3) L S P in auto)
qed

text \<open>What one call of the copying loop does, whatever it returns: it consumes some bytes \<open>bs\<close> of the input
  and they are the next decoded bytes.\<close>

definition copied :: "chunk_pool \<Rightarrow> byte list \<Rightarrow> decodeState \<Rightarrow> decoderResult \<Rightarrow> byte list \<Rightarrow> decodeState \<Rightarrow> byte list \<Rightarrow> bool" where
  "copied get outp s r outp' s' bs \<longleftrightarrow> ring_inv s' \<and> sink_ok get s' \<and> br_inv (ds_br s') \<and>
     br_bitPos (ds_br s') mod 8 = 0 \<and> br_bits (ds_br s) = bytes_bits bs @ br_bits (ds_br s') \<and>
     delivered outp' s' @ pending s' = delivered outp s @ pending s @ bs \<and>
     ds_metaBlockRemainingLen s' = ds_metaBlockRemainingLen s - int (length bs) \<and>
     (case r of
        ResultSuccess \<Rightarrow> ds_metaBlockRemainingLen s' = 0 \<and> ds_substateUncompressed s' = uncompressedNone \<and> ds_pos s' < ds_ringbufferSize s'
      | ResultNeedsMoreInput \<Rightarrow> 0 < ds_metaBlockRemainingLen s' \<and> br_bits (ds_br s') = [] \<and>
          ds_substateUncompressed s' = uncompressedNone \<and> ds_pos s' < ds_ringbufferSize s'
      | ResultNeedsMoreOutput \<Rightarrow> bs \<noteq> [] \<and> 0 \<le> ds_metaBlockRemainingLen s' \<and>
          ds_substateUncompressed s' = uncompressedWrite \<and> ds_pos s' = ds_ringbufferSize s'
      | ResultError \<Rightarrow> False)"

lemma copyUncompressed_loop_ok:
  assumes "ring_inv s" "sink_ok get s" "br_inv (ds_br s)" "br_bitPos (ds_br s) mod 8 = 0"
    "ds_pos s < ds_ringbufferSize s" "0 \<le> ds_metaBlockRemainingLen s" "ds_substateUncompressed s = uncompressedNone"
  shows "\<exists>r outp' s' bs. copyUncompressed_loop get pools k outp s = Some (r, outp', s') \<and> copied get outp s r outp' s' bs"
  using assms
proof (induction "nat (ds_metaBlockRemainingLen s)" arbitrary: s rule: less_induct)
  case less
  note step = copyUncompressed_loop.simps [of get pools k outp s]
  consider "ds_metaBlockRemainingLen s = 0"
    | "ds_metaBlockRemainingLen s > 0" "remainingBytes (ds_br s) = 0"
    | "ds_metaBlockRemainingLen s > 0" "remainingBytes (ds_br s) \<noteq> 0" using less.prems(6) by linarith
  then show ?case
  proof cases
    case 1
    then have "copied get outp s ResultSuccess outp s []" using less.prems by (simp add: copied_def)
    with 1 less.prems(7) step show ?thesis by auto
  next
    case 2
    obtain R where "remainingBytes (ds_br s) = int R" "8 * R \<le> length (br_bits (ds_br s))" "R = 0 \<longleftrightarrow> br_bits (ds_br s) = []"
      by (rule remainingBytes_ok [OF less.prems(3,4)])
    then have "copied get outp s ResultNeedsMoreInput outp s []" using 2 less.prems by (simp add: copied_def)
    with 2 less.prems(7) step show ?thesis by auto
  next
    case 3
    obtain bs br' rb where u: "uncompressed_copy s = Some (s\<lparr>ds_br := br', ds_ringbuffer := rb,
        ds_pos := ds_pos s + int (length bs), ds_metaBlockRemainingLen := ds_metaBlockRemainingLen s - int (length bs)\<rparr>)"
      "ring_inv (s\<lparr>ds_br := br', ds_ringbuffer := rb,
        ds_pos := ds_pos s + int (length bs), ds_metaBlockRemainingLen := ds_metaBlockRemainingLen s - int (length bs)\<rparr>)"
      "pending (s\<lparr>ds_br := br', ds_ringbuffer := rb, ds_pos := ds_pos s + int (length bs),
        ds_metaBlockRemainingLen := ds_metaBlockRemainingLen s - int (length bs)\<rparr>) = pending s @ bs"
      "br_inv br'" "br_bitPos br' mod 8 = 0" "br_bits (ds_br s) = bytes_bits bs @ br_bits br'" "bs \<noteq> []"
      "int (length bs) \<le> ds_metaBlockRemainingLen s" "ds_pos s + int (length bs) \<le> ds_ringbufferSize s"
      by (rule uncompressed_copy_ok [OF less.prems(1,3,4,5) 3])
    define t where "t = s\<lparr>ds_br := br', ds_ringbuffer := rb, ds_pos := ds_pos s + int (length bs),
        ds_metaBlockRemainingLen := ds_metaBlockRemainingLen s - int (length bs)\<rparr>"
    have t: "uncompressed_copy s = Some t" "ring_inv t" "pending t = pending s @ bs" "ds_br t = br'"
      "ds_metaBlockRemainingLen t = ds_metaBlockRemainingLen s - int (length bs)" "sink_ok get t"
      "delivered outp t = delivered outp s" "ds_substateUncompressed t = uncompressedNone"
      "ds_pos t \<le> ds_ringbufferSize t"
      using u less.prems(2,7) by (simp_all add: t_def sink_ok_def delivered_def)
    show ?thesis
    proof (cases "ds_pos t \<ge> ds_ringbufferSize t")
      case True
      let ?w = "t\<lparr>ds_substateUncompressed := uncompressedWrite\<rparr>"
      have "copyUncompressed_loop get pools k outp s = Some (ResultNeedsMoreOutput, outp, ?w)"
        using 3 less.prems(7) t(1) True by (simp add: step)
      moreover have "ring_inv ?w = ring_inv t" "pending ?w = pending t" "delivered outp ?w = delivered outp t"
        "sink_ok get ?w = sink_ok get t"
        by (simp_all add: ring_inv_def flushed_pos_def pending_def delivered_def sink_ok_def)
      then have "copied get outp s ResultNeedsMoreOutput outp ?w bs"
        using t u True by (simp add: copied_def)
      ultimately show ?thesis by blast
    next
      case False
      have "nat (ds_metaBlockRemainingLen t) < nat (ds_metaBlockRemainingLen s)" using t(5) u(7) 3(1) by simp
      from less.hyps [OF this t(2,6)] t u False obtain r outp' s' bs' where
        ih: "copyUncompressed_loop get pools k outp t = Some (r, outp', s')" "copied get outp t r outp' s' bs'" by auto
      have "copyUncompressed_loop get pools k outp s = Some (r, outp', s')"
        using 3 less.prems(7) t(1) False ih(1) by (simp add: step)
      moreover have "copied get outp s r outp' s' (bs @ bs')"
        using ih(2) t u(6,7) unfolding copied_def by (cases r) simp_all
      ultimately show ?thesis by blast
    qed
  qed
qed

lemma copyUncompressedBlock_ok:
  assumes w: "ring_wait s" and sink: "sink_ok get s" and br: "br_inv (ds_br s)" "br_bitPos (ds_br s) mod 8 = 0"
    and rem: "0 \<le> ds_metaBlockRemainingLen s"
    and ps: "ds_substateUncompressed s = uncompressedNone \<longrightarrow> ds_pos s < ds_newRingbufferSize s"
    and total: "(ds_rbRoundtrips s + 2) * nat (ds_newRingbufferSize s) < 2 ^ 62"
  shows "\<exists>r outp' s' bs. copyUncompressedBlock get pools (outp, s) = Some (r, outp', s') \<and> copied get outp s r outp' s' bs"
proof -
  obtain rb mask where e: "ensureRingBuffer (pools 0) s = Some (s\<lparr>ds_ringbuffer := rb, ds_ringbufferSize := ds_newRingbufferSize s,
      ds_ringbufferMask := mask\<rparr>)"
    "ring_inv (s\<lparr>ds_ringbuffer := rb, ds_ringbufferSize := ds_newRingbufferSize s, ds_ringbufferMask := mask\<rparr>)"
    "pending (s\<lparr>ds_ringbuffer := rb, ds_ringbufferSize := ds_newRingbufferSize s, ds_ringbufferMask := mask\<rparr>) = pending s"
    by (rule ensureRingBuffer_ok [OF w])
  define t where "t = s\<lparr>ds_ringbuffer := rb, ds_ringbufferSize := ds_newRingbufferSize s, ds_ringbufferMask := mask\<rparr>"
  have t: "ensureRingBuffer (pools 0) s = Some t" "ring_inv t" "pending t = pending s" "delivered outp t = delivered outp s"
    "sink_ok get t" "ds_br t = ds_br s" "ds_metaBlockRemainingLen t = ds_metaBlockRemainingLen s"
    "ds_substateUncompressed t = ds_substateUncompressed s" "ds_pos t = ds_pos s" "ds_ringbufferSize t = ds_newRingbufferSize s"
    "ds_rbRoundtrips t = ds_rbRoundtrips s"
    using e sink by (simp_all add: t_def delivered_def sink_ok_def)
  have cb: "copyUncompressedBlock get pools (outp, s) = copyUncompressed_loop get pools 1 outp t"
    by (simp add: copyUncompressedBlock_def t(1))
  have cp: "copied get outp t r outp' s' bs \<Longrightarrow> copied get outp s r outp' s' bs" for r outp' s' bs
    using t by (simp add: copied_def)
  show ?thesis
  proof (cases "ds_substateUncompressed s")
    case uncompressedNone
    obtain r outp' s' bs where "copyUncompressed_loop get pools 1 outp t = Some (r, outp', s')"
      "copied get outp t r outp' s' bs"
      using copyUncompressed_loop_ok [of t get pools 1 outp] uncompressedNone t br rem ps by auto
    with cb cp [of r outp' s' bs] show ?thesis by auto
  next
    case uncompressedWrite
    have tot: "(ds_rbRoundtrips t + 2) * nat (ds_ringbufferSize t) < 2 ^ 62" using total t by simp
    obtain outp1 s1 where w1: "writeRingBuffer get (pools 1) (outp, t) = Some (outp1, s1)" "ring_inv s1" "sink_ok get s1"
      "delivered outp1 s1 @ pending s1 = delivered outp t @ pending t" "ds_pos s1 < ds_ringbufferSize s1"
      "ds_br s1 = ds_br t" "ds_metaBlockRemainingLen s1 = ds_metaBlockRemainingLen t"
      by (rule writeRingBuffer_ok [OF t(2,5) tot])
    define s2 where "s2 = s1\<lparr>ds_substateUncompressed := uncompressedNone\<rparr>"
    have s2: "ring_inv s2" "sink_ok get s2" "pending s2 = pending s1" "delivered outp1 s2 = delivered outp1 s1"
      "ds_br s2 = ds_br s1" "ds_pos s2 < ds_ringbufferSize s2" "ds_substateUncompressed s2 = uncompressedNone"
      "ds_metaBlockRemainingLen s2 = ds_metaBlockRemainingLen s1"
      using w1 by (simp_all add: s2_def ring_inv_def flushed_pos_def pending_def delivered_def sink_ok_def)
    have "copyUncompressed_loop get pools 1 outp t = copyUncompressed_loop get pools 2 outp1 s2"
      using copyUncompressed_loop.simps [of get pools 1 outp t] w1(1) t(8) uncompressedWrite
      by (simp add: s2_def numeral_2_eq_2)
    moreover obtain r outp' s' bs where lp: "copyUncompressed_loop get pools 2 outp1 s2 = Some (r, outp', s')"
      "copied get outp1 s2 r outp' s' bs"
      using copyUncompressed_loop_ok [of s2 get pools 2 outp1] s2 w1 t br rem by auto
    moreover have "copied get outp s r outp' s' bs"
    proof -
      have "delivered outp1 s2 @ pending s2 @ bs = delivered outp s @ pending s @ bs"
        using w1(4) s2 t by (metis append.assoc)
      then show ?thesis using lp(2) s2 w1 t unfolding copied_def by (cases r) simp_all
    qed
    ultimately show ?thesis using cb by auto
  qed
qed

text \<open>Skipping moves the input position past bytes that were never loaded, so it needs an accumulator without
  lookahead above the valid bits. \<^verbatim>\<open>jumpToByteBoundary\<close>, which comes before, leaves it so.\<close>

definition br_clean :: "bitReader \<Rightarrow> bool" where
  "br_clean br \<longleftrightarrow> (\<forall>i. bit (br_val br) i \<longrightarrow> i < br_bitPos br)"

lemma jumpToByteBoundary_clean:
  assumes "br_inv br"
  shows "br_clean (snd (jumpToByteBoundary br))"
proof -
  obtain b where b: "snd (jumpToByteBoundary br) = normalize b" "br_inv b"
  proof (cases "br_bitPos br mod 8 = 0")
    case True
    then show thesis using assms that [of br] by (simp add: jumpToByteBoundary_def Let_def)
  next
    case False
    have "br_bitPos br mod 8 \<le> br_bitPos br" "br_bitPos br mod 8 < 64"
      using mod_less_divisor [of 8 "br_bitPos br"] by simp_all
    from dropBits_ok(1) [OF assms this] False that [of "dropBits (br_bitPos br mod 8) br"] show thesis
      by (simp add: jumpToByteBoundary_def Let_def takeBits_def)
  qed
  have "i < br_bitPos b" if "bit (br_val (normalize b)) i" for i
    using bit_normalize [of i b] that b(2) bit_imp_le_length [OF that] by (auto simp: br_inv_def)
  then show ?thesis unfolding b(1) by (simp add: br_clean_def)
qed

lemma skip_bytes_ok:
  assumes "br_inv br" "br_bitPos br mod 8 = 0" "8 * n \<le> length (br_bits br)" "br_clean br"
  shows "br_inv (skip_bytes n br) \<and> br_bitPos (skip_bytes n br) mod 8 = 0 \<and> br_clean (skip_bytes n br) \<and>
    br_bits (skip_bytes n br) = drop (8 * n) (br_bits br)"
  using assms
proof (induction n arbitrary: br)
  case 0
  then show ?case by simp
next
  case (Suc n)
  show ?case
  proof (cases "8 \<le> br_bitPos br")
    case True
    note d = dropBits_ok [OF Suc.prems(1) True, simplified]
    have "br_bitPos (dropBits 8 br) mod 8 = 0" using d(3) Suc.prems(2) True by (simp add: le_mod_geq)
    moreover have "br_clean (dropBits 8 br)"
      using Suc.prems(4) d(3) True by (auto simp: br_clean_def dropBits_def bit_drop_bit_eq)
    ultimately show ?thesis using Suc.IH [OF d(1)] d(2) Suc.prems(3) True by (simp add: add.commute)
  next
    case False
    then have bp: "br_bitPos br = 0" using Suc.prems(2) by auto
    then have v: "\<not> bit (br_val br) i" for i using Suc.prems(4) by (auto simp: br_clean_def)
    define p where "p = nat (br_pos br)"
    have p: "br_pos br = int p" "br_inputLen br = int (length (br_input br))" using Suc.prems(1) by (auto simp: br_inv_def p_def)
    have bits: "br_bits br = bytes_bits (drop p (br_input br))" using bp by (simp add: br_bits_def p_def)
    then have lt: "p < length (br_input br)" using Suc.prems(3) by simp
    let ?b = "br\<lparr>br_pos := br_pos br + 1\<rparr>"
    have "br_bits ?b = bytes_bits (drop (Suc p) (br_input br))" using bp p by (simp add: br_bits_def nat_add_distrib)
    also have "drop (Suc p) (br_input br) = drop 1 (drop p (br_input br))" by simp
    finally have b: "br_bits ?b = drop 8 (br_bits br)" unfolding bits using drop_bytes_bits [of 1 "drop p (br_input br)"] by simp
    have "br_inv ?b" "br_clean ?b"
      using Suc.prems(1) bp p lt v by (auto simp: br_inv_def acc_ok_def br_clean_def)
    with Suc.IH [of ?b] b bp Suc.prems(3) False show ?thesis by (simp add: add.commute)
  qed
qed

lemma skipMetadataBlock_ok:
  assumes "br_inv (ds_br s)" "br_bitPos (ds_br s) mod 8 = 0" "br_clean (ds_br s)" "0 \<le> ds_metaBlockRemainingLen s"
  shows "\<exists>r br' n. skipMetadataBlock s = Some (r, s\<lparr>ds_br := br', ds_metaBlockRemainingLen := ds_metaBlockRemainingLen s - int n\<rparr>) \<and>
    br_inv br' \<and> br_clean br' \<and> br_bits br' = drop (8 * n) (br_bits (ds_br s)) \<and>
    8 * n \<le> length (br_bits (ds_br s)) \<and> int n \<le> ds_metaBlockRemainingLen s \<and>
    (if 8 * ds_metaBlockRemainingLen s \<le> int (length (br_bits (ds_br s)))
     then r = ResultSuccess \<and> int n = ds_metaBlockRemainingLen s
     else r = ResultNeedsMoreInput \<and> br_bits br' = [])"
  using assms
proof (induction "nat (ds_metaBlockRemainingLen s)" arbitrary: s rule: less_induct)
  case less
  obtain R where R: "remainingBytes (ds_br s) = int R" "8 * R \<le> length (br_bits (ds_br s))"
    "R = 0 \<longleftrightarrow> br_bits (ds_br s) = []"
    by (rule remainingBytes_ok [OF less.prems(1,2)])
  note step = skipMetadataBlock.simps [of s]
  consider "ds_metaBlockRemainingLen s = 0" | "ds_metaBlockRemainingLen s > 0" "R = 0"
    | "ds_metaBlockRemainingLen s > 0" "R > 0" using less.prems(4) by linarith
  then show ?case
  proof cases
    case 1
    then show ?thesis using less.prems
      by (intro exI [of _ ResultSuccess] exI [of _ "ds_br s"] exI [of _ 0]) (simp add: step)
  next
    case 2
    then show ?thesis using less.prems R
      by (intro exI [of _ ResultNeedsMoreInput] exI [of _ "ds_br s"] exI [of _ 0]) (simp add: step)
  next
    case 3
    define n where "n = nat (min (int R) (ds_metaBlockRemainingLen s))"
    have n: "int n = min (int R) (ds_metaBlockRemainingLen s)" "0 < n" "n \<le> R" using 3 by (auto simp: n_def)
    define t where "t = s\<lparr>ds_br := skip_bytes n (ds_br s), ds_metaBlockRemainingLen := ds_metaBlockRemainingLen s - int n\<rparr>"
    have "8 * n \<le> length (br_bits (ds_br s))" using n(3) R(2) by linarith
    note sb = this skip_bytes_ok [OF less.prems(1,2) this less.prems(3)]
    have st: "skipMetadataBlock s = skipMetadataBlock t"
      using 3 by (simp add: step Let_def R(1) t_def n_def)
    have "nat (ds_metaBlockRemainingLen t) < nat (ds_metaBlockRemainingLen s)" using n 3 by (simp add: t_def)
    from less.hyps [OF this] sb n obtain r br' m where
      ih: "skipMetadataBlock t = Some (r, t\<lparr>ds_br := br', ds_metaBlockRemainingLen := ds_metaBlockRemainingLen t - int m\<rparr>)"
      "br_inv br'" "br_clean br'" "br_bits br' = drop (8 * m) (br_bits (ds_br t))" "8 * m \<le> length (br_bits (ds_br t))"
      "int m \<le> ds_metaBlockRemainingLen t"
      "if 8 * ds_metaBlockRemainingLen t \<le> int (length (br_bits (ds_br t)))
       then r = ResultSuccess \<and> int m = ds_metaBlockRemainingLen t
       else r = ResultNeedsMoreInput \<and> br_bits br' = []" by (auto simp: t_def)
    have bt: "br_bits (ds_br t) = drop (8 * n) (br_bits (ds_br s))"
      "ds_metaBlockRemainingLen t = ds_metaBlockRemainingLen s - int n" using sb by (simp_all add: t_def)
    have "8 * ds_metaBlockRemainingLen t \<le> int (length (br_bits (ds_br t))) \<longleftrightarrow>
        8 * ds_metaBlockRemainingLen s \<le> int (length (br_bits (ds_br s)))" using bt sb(1) by auto
    with ih bt sb(1) st show ?thesis
      by (intro exI [of _ r] exI [of _ br'] exI [of _ "n + m"]) (auto simp: t_def algebra_simps)
  qed
qed


subsection \<open>Properties\<close>

text \<open>C10. Flushing the ring buffer neither loses nor duplicates a byte: from any state that satisfies the
  ring invariant (whatever the pools return), \<^verbatim>\<open>writeRingBuffer\<close> does not panic, the bytes delivered followed by
  those still in the buffer are the same before and after, the buffer has room again, and the invariant
  holds. The bound is on the total output, below \<open>2 ^ 62\<close> bytes.\<close>

theorem writeRingBuffer_lossless:
  assumes "ring_inv s" and "sink_ok get s" and "(ds_rbRoundtrips s + 2) * nat (ds_ringbufferSize s) < 2 ^ 62"
  shows "\<exists>outp' s'. writeRingBuffer get pool (outp, s) = Some (outp', s') \<and> ring_inv s' \<and> sink_ok get s' \<and>
    delivered outp' s' @ pending s' = delivered outp s @ pending s \<and> ds_pos s' < ds_ringbufferSize s'"
proof -
  obtain outp' s' where "writeRingBuffer get pool (outp, s) = Some (outp', s')" "ring_inv s'" "sink_ok get s'"
    "delivered outp' s' @ pending s' = delivered outp s @ pending s" "ds_pos s' < ds_ringbufferSize s'"
    "ds_br s' = ds_br s" "ds_metaBlockRemainingLen s' = ds_metaBlockRemainingLen s"
    by (rule writeRingBuffer_ok [OF assms])
  then show ?thesis by blast
qed

text \<open>A full ring of 1024 bytes with 3 bytes of slack in use, window 10.\<close>

definition full_ring :: decodeState where
  "full_ring = zero_state\<lparr>ds_ringbuffer := \<lparr>sl_data = replicate 1566 7, sl_len = 1566\<rparr>, ds_ringbufferSize := 1024,
     ds_newRingbufferSize := 1024, ds_windowBits := 10, ds_pos := 1027\<rparr>"

lemma full_ring_inv: "ring_inv full_ring"
proof -
  have "\<exists>k\<ge>10. k \<le> nat 10 \<and> (1024 :: int) = 2 ^ k" by (intro exI [of _ 10]) simp
  then show ?thesis
    unfolding ring_inv_def flushed_pos_def full_ring_def
    by (simp add: zero_state_def sl_ok_def ringBufferWriteAheadSlack_def)
qed

theorem writeRingBuffer_lossless_witness:
  "\<exists>outp' s'. writeRingBuffer (\<lambda>_. []) (\<lambda>_. None) ([], full_ring) = Some (outp', s') \<and> ring_inv s' \<and> sink_ok (\<lambda>_. []) s' \<and>
    delivered outp' s' @ pending s' = replicate 1027 7 \<and> ds_pos s' < ds_ringbufferSize s'"
proof -
  have "sink_ok (\<lambda>_. []) full_ring" "delivered [] full_ring = []" "pending full_ring = replicate 1027 7"
    "(ds_rbRoundtrips full_ring + 2) * nat (ds_ringbufferSize full_ring) < 2 ^ 62"
    by (simp_all add: sink_ok_def delivered_def pending_def flushed_pos_def full_ring_def zero_state_def)
  with writeRingBuffer_lossless [OF full_ring_inv, of "\<lambda>_. []" "\<lambda>_. None" "[]"] show ?thesis by simp
qed

text \<open>C9. One call of \<^verbatim>\<open>copyUncompressedBlock\<close>, from any state after \<^verbatim>\<open>calculateRingBufferSize\<close> (allocated or
  not) with the reader on a byte boundary: it does not panic, it consumes some whole bytes of the input, and
  exactly these bytes are appended to the decoded bytes. It reports success only when the metablock is
  complete, asks for input only when all input is consumed, and asks for output only when the ring is
  full and progress was made.\<close>

theorem copyUncompressedBlock_appends:
  assumes "ring_wait s" and "sink_ok get s" and "br_inv (ds_br s)" and "br_bitPos (ds_br s) mod 8 = 0"
    and "0 \<le> ds_metaBlockRemainingLen s"
    and "ds_substateUncompressed s = uncompressedNone \<longrightarrow> ds_pos s < ds_newRingbufferSize s"
    and "(ds_rbRoundtrips s + 2) * nat (ds_newRingbufferSize s) < 2 ^ 62"
  shows "\<exists>r outp' s' bs. copyUncompressedBlock get pools (outp, s) = Some (r, outp', s') \<and>
    br_bits (ds_br s) = bytes_bits bs @ br_bits (ds_br s') \<and>
    delivered outp' s' @ pending s' = delivered outp s @ pending s @ bs \<and>
    ds_metaBlockRemainingLen s' = ds_metaBlockRemainingLen s - int (length bs) \<and> ring_inv s' \<and>
    (case r of
       ResultSuccess \<Rightarrow> ds_metaBlockRemainingLen s' = 0
     | ResultNeedsMoreInput \<Rightarrow> 0 < ds_metaBlockRemainingLen s' \<and> br_bits (ds_br s') = []
     | ResultNeedsMoreOutput \<Rightarrow> bs \<noteq> [] \<and> ds_pos s' = ds_ringbufferSize s'
     | ResultError \<Rightarrow> False)"
proof -
  from copyUncompressedBlock_ok [OF assms] obtain r outp' s' bs where
    *: "copyUncompressedBlock get pools (outp, s) = Some (r, outp', s')" "copied get outp s r outp' s' bs" by blast
  show ?thesis
    by (rule exI [of _ r], rule exI [of _ outp'], rule exI [of _ s'], rule exI [of _ bs])
      (use * in \<open>cases r; simp add: copied_def\<close>)
qed

text \<open>The first metablock of a stream: 5 bytes, window 16, nothing allocated yet.\<close>

definition first_block :: decodeState where
  "first_block = zero_state\<lparr>ds_br := setInput [1, 2, 3, 4, 5, 6] zero_br, ds_newRingbufferSize := 1024,
     ds_windowBits := 16, ds_metaBlockRemainingLen := 5\<rparr>"

lemma first_block_wait: "ring_wait first_block"
proof -
  have "\<exists>k\<ge>10. k \<le> nat 16 \<and> (1024 :: int) = 2 ^ k" by (intro exI [of _ 10]) simp
  then show ?thesis by (simp add: ring_wait_def first_block_def zero_state_def)
qed

theorem copyUncompressedBlock_appends_witness:
  "\<exists>r outp' s' bs. copyUncompressedBlock (\<lambda>_. []) (\<lambda>_ _. None) ([], first_block) = Some (r, outp', s') \<and>
    bytes_bits [1, 2, 3, 4, 5, 6] = bytes_bits bs @ br_bits (ds_br s') \<and> delivered outp' s' @ pending s' = bs \<and>
    ds_metaBlockRemainingLen s' = 5 - int (length bs)"
proof -
  have "br_inv (ds_br first_block)" "br_bits (ds_br first_block) = bytes_bits [1, 2, 3, 4, 5, 6]"
    by (auto simp: first_block_def zero_br_def setInput_def br_inv_def acc_ok_def br_bits_def)
  moreover have "br_bitPos (ds_br first_block) mod 8 = 0" "sink_ok (\<lambda>_. []) first_block"
    "(ds_rbRoundtrips first_block + 2) * nat (ds_newRingbufferSize first_block) < 2 ^ 62"
    "ds_metaBlockRemainingLen first_block = 5" "ds_pos first_block < ds_newRingbufferSize first_block"
    "delivered [] first_block = []" "pending first_block = []"
    by (simp_all add: first_block_def zero_br_def setInput_def zero_state_def sink_ok_def delivered_def pending_def flushed_pos_def)
  ultimately show ?thesis
    using copyUncompressedBlock_appends [OF first_block_wait, of "\<lambda>_. []" "\<lambda>_ _. None" "[]"] by auto
qed

text \<open>C13. \<^verbatim>\<open>skipMetadataBlock\<close> terminates and skips: on a reader that \<^verbatim>\<open>jumpToByteBoundary\<close> left on a byte
  boundary it drops exactly as many bytes as the metablock still has, or all that are there, and
  reports which; nothing else of the state changes.\<close>

theorem skipMetadataBlock_skips:
  assumes "br_inv br" and "jumpToByteBoundary br = (ok, ds_br s)" and "0 \<le> ds_metaBlockRemainingLen s"
  shows "\<exists>r br' n. skipMetadataBlock s =
      Some (r, s\<lparr>ds_br := br', ds_metaBlockRemainingLen := ds_metaBlockRemainingLen s - int n\<rparr>) \<and>
    br_inv br' \<and> br_bits br' = drop (8 * n) (br_bits (ds_br s)) \<and>
    (if 8 * ds_metaBlockRemainingLen s \<le> int (length (br_bits (ds_br s)))
     then r = ResultSuccess \<and> int n = ds_metaBlockRemainingLen s
     else r = ResultNeedsMoreInput \<and> br_bits br' = [])"
proof -
  obtain ok1 br1 where j: "jumpToByteBoundary br = (ok1, br1)" "br_inv br1"
    "br_bits br1 = drop (br_bitPos br mod 8) (br_bits br)"
    "ok1 \<longleftrightarrow> (\<forall>b \<in> set (take (br_bitPos br mod 8) (br_bits br)). \<not> b)"
    "br_bitPos br1 = 8 * (br_bitPos br div 8)" "br_input br1 = br_input br"
    "br_fastEnd br1 = br_fastEnd br" "br_inputLen br1 = br_inputLen br"
    by (rule jumpToByteBoundary_ok [OF assms(1)])
  then have s: "br_inv (ds_br s)" "br_bitPos (ds_br s) mod 8 = 0" using assms(2) by simp_all
  have "br_clean (ds_br s)" using jumpToByteBoundary_clean [OF assms(1)] assms(2) by simp
  from skipMetadataBlock_ok [OF s this assms(3)] show ?thesis by blast
qed

theorem skipMetadataBlock_skips_witness:
  "\<exists>r br' n. skipMetadataBlock (first_block\<lparr>ds_br := snd (jumpToByteBoundary (ds_br first_block))\<rparr>) =
      Some (r, (first_block\<lparr>ds_br := snd (jumpToByteBoundary (ds_br first_block))\<rparr>)
        \<lparr>ds_br := br', ds_metaBlockRemainingLen := 5 - int n\<rparr>) \<and> br_inv br' \<and> r = ResultSuccess \<and> n = 5"
proof -
  let ?s = "first_block\<lparr>ds_br := snd (jumpToByteBoundary (ds_br first_block))\<rparr>"
  have i: "br_inv (ds_br first_block)"
    by (auto simp: first_block_def zero_br_def setInput_def br_inv_def acc_ok_def)
  have j: "jumpToByteBoundary (ds_br first_block) = (True, ds_br ?s)"
    by (simp add: jumpToByteBoundary_def first_block_def zero_br_def setInput_def)
  have l: "ds_metaBlockRemainingLen ?s = 5" "length (br_bits (ds_br ?s)) = 48"
    by (simp_all add: first_block_def zero_br_def setInput_def jumpToByteBoundary_def br_bits_def normalize_def)
  from skipMetadataBlock_skips [OF i j] l show ?thesis by auto
qed

end
