(* ===== verification/Decode_Symbol.thy ===== *)
theory Decode_Symbol
  imports Suspend
begin

unbundle bit_operations_syntax

text \<open>
  Reading prefix code symbols, \<^verbatim>\<open>decode.go\<close> and \<^verbatim>\<open>decode_mem_checked.go\<close>: the lookups in two-level tables, with
  a fast path for input with slack and a careful one for the end of a chunk, block lengths, and the batched
  literal decoders, which keep the reader's fields in local variables.

  \<open>sym_look\<close> is what a lookup means: the symbol and the number of bits a window of the stream starts with.
  \<open>table_ok\<close> says that a table answers every window and that the answer depends on the consumed bits only.
  For such tables all the readers agree with the parser \<open>p_symbol\<close>.
\<close>

subsection \<open>Lookups\<close>

definition huffmanTableMask :: u64 where "huffmanTableMask = 0xFF"

definition huffmanEntry :: "HuffmanCode list \<Rightarrow> int \<Rightarrow> u64 \<Rightarrow> nat option" where
  "huffmanEntry t offset i = do {
     xs \<leftarrow> go_slice t offset (int (length t));
     e \<leftarrow> go_index xs (uint i);
     Some (Bits e OR push_bit 16 (Value e)) }"

definition decodeSymbol :: "u64 \<Rightarrow> HuffmanCode list \<Rightarrow> bitReader \<Rightarrow> (nat \<times> bitReader) option" where
  "decodeSymbol bits table br = (let idx = unat (bits AND huffmanTableMask) in do {
     e \<leftarrow> go_index table (int idx);
     if Bits e > huffmanTableBits
     then (let nbits = Bits e - huffmanTableBits in do {
       e \<leftarrow> go_index table (int (uadd (uadd idx (Value e)) (unat (drop_bit huffmanTableBits bits AND bitMask nbits))));
       Some (Value e, dropBits (huffmanTableBits + Bits e) br) })
     else Some (Value e, dropBits (Bits e) br) })"

definition safeDecodeSymbol :: "HuffmanCode list \<Rightarrow> bitReader \<Rightarrow> (nat option \<times> bitReader) option" where
  "safeDecodeSymbol table br = (let avail = availBits br in
     if avail = 0 then do {
       e \<leftarrow> go_index table 0;
       Some (if Bits e = 0 then Some (Value e) else None, br) }
     else let br = normalize br; v = bitsUnmasked br; idx = unat (v AND huffmanTableMask) in do {
       e \<leftarrow> go_index table (int idx);
       if Bits e \<le> huffmanTableBits
       then Some (if Bits e \<le> avail then (Some (Value e), dropBits (Bits e) br) else (None, br))
       else if avail \<le> huffmanTableBits then Some (None, br)
       else let sub = unat (drop_bit huffmanTableBits (v AND bitMask (Bits e))) in do {
         e2 \<leftarrow> go_index table (int (uadd (uadd idx (Value e)) sub));
         Some (if avail - huffmanTableBits < Bits e2 then (None, br)
               else (Some (Value e2), dropBits (huffmanTableBits + Bits e2) br)) } })"

definition safeReadSymbol :: "HuffmanCode list \<Rightarrow> bitReader \<Rightarrow> (nat option \<times> bitReader) option" where
  "safeReadSymbol table br = do {
     (v, br) \<leftarrow> safeGetBits 15 br;
     case v of
       Some v \<Rightarrow> map_option (\<lambda>(x, br). (Some x, br)) (decodeSymbol v table br)
     | None \<Rightarrow> safeDecodeSymbol table br }"


subsection \<open>What a table means\<close>

definition sym_look :: "HuffmanCode list \<Rightarrow> nat \<Rightarrow> (nat \<times> nat) option" where
  "sym_look table w = do {
     e \<leftarrow> go_index table (int (w mod 256));
     if Bits e \<le> 8 then Some (Value e, Bits e)
     else do {
       e2 \<leftarrow> go_index table (int (w mod 256 + Value e + (w div 256) mod 2 ^ (Bits e - 8)));
       Some (Value e2, 8 + Bits e2) } }"

definition table_ok :: "HuffmanCode list \<Rightarrow> bool" where
  "table_ok table \<longleftrightarrow> 256 \<le> length table \<and> length table < 2 ^ 32 \<and>
     (\<forall>i<256. Bits (table ! i) \<le> HuffmanMaxCodeLength \<and> Value (table ! i) < 2 ^ 16) \<and>
     (\<forall>w<2 ^ 15. case sym_look table w of None \<Rightarrow> False
        | Some (v, d) \<Rightarrow> d \<le> HuffmanMaxCodeLength \<and> (8 < Bits (table ! (w mod 256)) \<longrightarrow> 8 < d) \<and>
            (\<forall>w'<2 ^ 15. w' mod 2 ^ d = w mod 2 ^ d \<longrightarrow> sym_look table w' = Some (v, d)))"

definition window :: "bool list \<Rightarrow> nat" where
  "window bs = val_of (take 15 bs)"

definition p_symbol :: "HuffmanCode list \<Rightarrow> (nat \<Rightarrow> bool list \<Rightarrow> 'a parse) \<Rightarrow> bool list \<Rightarrow> 'a parse" where
  "p_symbol table k bs = (case sym_look table (window bs) of None \<Rightarrow> Bad ''''
     | Some (v, d) \<Rightarrow> if d \<le> length bs then k v (drop d bs) else Short)"

lemma window_less: "window bs < 2 ^ 15"
proof -
  have "window bs < 2 ^ length (take 15 bs)" unfolding window_def by (rule val_of_lt)
  also have "\<dots> \<le> 2 ^ 15" by (intro power_increasing) auto
  finally show ?thesis .
qed

lemma table_okD:
  assumes "table_ok table" and "w < 2 ^ 15"
  obtains v d where "sym_look table w = Some (v, d)" "d \<le> 15" "8 < Bits (table ! (w mod 256)) \<Longrightarrow> 8 < d"
    "\<And>w'. w' < 2 ^ 15 \<Longrightarrow> w' mod 2 ^ d = w mod 2 ^ d \<Longrightarrow> sym_look table w' = Some (v, d)"
proof -
  have c: "case sym_look table w of None \<Rightarrow> False
        | Some (v, d) \<Rightarrow> d \<le> 15 \<and> (8 < Bits (table ! (w mod 256)) \<longrightarrow> 8 < d) \<and>
            (\<forall>w'<2 ^ 15. w' mod 2 ^ d = w mod 2 ^ d \<longrightarrow> sym_look table w' = Some (v, d))"
    using assms unfolding table_ok_def HuffmanMaxCodeLength_def by blast
  show thesis
  proof (cases "sym_look table w")
    case None
    then show ?thesis using c by simp
  next
    case (Some x)
    obtain v d where x: "x = (v, d)" by force
    have c': "d \<le> 15" "8 < Bits (table ! (w mod 256)) \<longrightarrow> 8 < d"
      "\<forall>w'<2 ^ 15. w' mod 2 ^ d = w mod 2 ^ d \<longrightarrow> sym_look table w' = Some (v, d)"
      using c unfolding Some x option.case prod.case by blast+
    show ?thesis by (rule that [of v d]) (use c' Some x in blast)+
  qed
qed

lemma table_entry:
  assumes "table_ok table" and "i < 256"
  shows "go_index table (int i) = Some (table ! i)" and "Bits (table ! i) \<le> 15" and "Value (table ! i) < 2 ^ 16"
  using assms by (auto simp: table_ok_def HuffmanMaxCodeLength_def)

text \<open>The window of a longer bit string agrees with that of a prefix on the bits the prefix has.\<close>

lemma val_of_take_mod: "d \<le> length bs \<Longrightarrow> val_of bs mod 2 ^ d = val_of (take d bs)"
proof -
  assume d: "d \<le> length bs"
  have "val_of bs = val_of (take d bs) + 2 ^ d * val_of (drop d bs)"
    using val_of_append [of "take d bs" "drop d bs"] d by simp
  moreover have "val_of (take d bs) < 2 ^ d" using val_of_lt [of "take d bs"] d by simp
  ultimately show ?thesis by simp
qed

lemma window_prefix:
  assumes "d \<le> 15" and "d \<le> length bs"
  shows "window (bs @ x) mod 2 ^ d = window bs mod 2 ^ d"
  using assms by (simp add: window_def val_of_take_mod min_def)

lemma stable_p_symbol:
  assumes "table_ok table" and "\<And>v. stable_parse (k v)"
  shows "stable_parse (p_symbol table k)"
proof -
  have ext: "p_symbol table k (bs @ x) = k v (drop d bs @ x)"
    if "sym_look table (window bs) = Some (v, d)" "d \<le> length bs" for bs x v d
  proof -
    obtain v' d' where l: "sym_look table (window bs) = Some (v', d')" "d' \<le> 15"
      "\<And>w'. w' < 2 ^ 15 \<Longrightarrow> w' mod 2 ^ d' = window bs mod 2 ^ d' \<Longrightarrow> sym_look table w' = Some (v', d')"
      using table_okD [OF assms(1) window_less [of bs]] by metis
    have "d' = d" "v' = v" using l(1) that(1) by auto
    then have "sym_look table (window (bs @ x)) = Some (v, d)"
      using l(2,3) window_prefix [of d bs x] window_less [of "bs @ x"] that(2) by blast
    then show ?thesis using that(2) by (simp add: p_symbol_def)
  qed
  have tot: "\<exists>v d. sym_look table (window bs) = Some (v, d)" for bs
    using table_okD [OF assms(1) window_less [of bs]] by metis
  show ?thesis unfolding stable_parse_def
  proof (intro allI conjI impI)
    fix bs x
    obtain v d where l: "sym_look table (window bs) = Some (v, d)" using tot by blast
    show "p_symbol table k (bs @ x) = Good w (rest @ x)" if "p_symbol table k bs = Good w rest" for w rest
      using that l ext [OF l, of x] stable_parseD(1) [OF assms(2)] by (auto simp: p_symbol_def split: if_splits)
    show "p_symbol table k (bs @ x) = Bad e" if "p_symbol table k bs = Bad e" for e
      using that l ext [OF l, of x] stable_parseD(2) [OF assms(2)] by (auto simp: p_symbol_def split: if_splits)
  qed
qed


subsection \<open>The lookups agree with their meaning\<close>

lemma unat_table_mask: "unat (bits AND huffmanTableMask :: u64) = unat bits mod 256"
proof -
  have "(bits AND huffmanTableMask :: u64) = take_bit 8 bits"
    using take_bit_eq_mask [of 8 bits] by (simp add: huffmanTableMask_def mask_eq_exp_minus_1)
  then have "unat (bits AND huffmanTableMask :: u64) = take_bit 8 (unat bits)"
    by (simp only: unsigned_take_bit_eq)
  then show ?thesis by (simp add: take_bit_eq_mod)
qed

lemma unat_sub_bits: "n < 64 \<Longrightarrow> unat (drop_bit 8 bits AND bitMask n :: u64) = (unat bits div 256) mod 2 ^ n"
proof -
  assume "n < 64"
  then have "unat (drop_bit 8 bits AND bitMask n :: u64) = take_bit n (drop_bit 8 (take_bit 64 (unat bits)))"
    by (simp only: and_bitMask unsigned_take_bit_eq unsigned_drop_bit_eq) simp
  moreover have "unat bits < 2 ^ LENGTH(64)" by (rule unsigned_less)
  then have "take_bit 64 (unat bits) = unat bits" by (simp add: take_bit_nat_eq_self)
  ultimately show ?thesis by (simp only: take_bit_eq_mod drop_bit_eq_div) simp
qed

lemma mod_div_mod: "n \<le> 7 \<Longrightarrow> ((x::nat) mod 2 ^ 15) div 256 mod 2 ^ n = x div 256 mod 2 ^ n"
proof -
  assume "n \<le> 7"
  then have "take_bit n (drop_bit 8 (take_bit 15 x)) = take_bit n (drop_bit 8 x)"
    by (intro bit_eqI) (auto simp: bit_simps)
  then show ?thesis by (simp add: take_bit_eq_mod drop_bit_eq_div)
qed

lemma mod_mod_256: "((x::nat) mod 2 ^ 15) mod 256 = x mod 256"
  using mod_mod_cancel [of 256 "2 ^ 15" x] by simp

text \<open>The sum of root index, offset and second-level bits does not wrap.\<close>

lemma uadd_index:
  assumes "i < 256" and "v < 2 ^ 16" and "x < 2 ^ 56"
  shows "uadd (uadd i v) x = i + v + x"
  using assms by (simp add: uadd_def)

lemma decodeSymbol_look:
  assumes "table_ok table"
  shows "decodeSymbol bits table br = map_option (\<lambda>(v, d). (v, dropBits d br)) (sym_look table (unat bits mod 2 ^ 15))"
proof -
  define w i where "w = unat bits" and "i = w mod 256"
  have i: "i < 256" by (simp add: i_def)
  note e = table_entry [OF assms i]
  show ?thesis
  proof (cases "Bits (table ! i) \<le> 8")
    case True
    then show ?thesis
      unfolding decodeSymbol_def sym_look_def unat_table_mask mod_mod_256 w_def [symmetric] i_def [symmetric] Let_def e(1)
      by (simp add: huffmanTableBits_def)
  next
    case False
    define n where "n = Bits (table ! i) - 8"
    have n: "n \<le> 7" using e(2) by (simp add: n_def)
    have "w div 256 mod 2 ^ n < 2 ^ n" by simp
    also have "\<dots> < (2::nat) ^ 56" using n by (intro power_strict_increasing) auto
    finally have u: "uadd (uadd i (Value (table ! i))) (w div 256 mod 2 ^ n) = i + Value (table ! i) + w div 256 mod 2 ^ n"
      by (rule uadd_index [OF i e(3)])
    have s: "unat (drop_bit huffmanTableBits bits AND bitMask n) = w div 256 mod 2 ^ n"
      using n by (simp add: unat_sub_bits huffmanTableBits_def w_def)
    have g: "\<not> Bits (table ! i) \<le> huffmanTableBits" "Bits (table ! i) - huffmanTableBits = n" using False
      by (simp_all add: huffmanTableBits_def n_def)
    show ?thesis using False g(1)
      unfolding decodeSymbol_def sym_look_def unat_table_mask mod_mod_256 w_def [symmetric] i_def [symmetric] Let_def e(1)
        Option.bind.bind_lunit g(2) s u n_def [symmetric] mod_div_mod [OF n]
      by (cases "go_index table (int (i + Value (table ! i) + w div 256 mod 2 ^ n))")
        (simp_all only: if_False if_True not_le Option.bind.simps option.map prod.case huffmanTableBits_def, simp_all)
  qed
qed

lemma window_unat:
  assumes "15 \<le> br_bitPos br"
  shows "unat (br_val br) mod 2 ^ 15 = window (br_bits br)"
proof -
  have "take 15 (br_bits br) = bits_of 15 (br_val br)" using assms by (simp add: br_bits_def take_bits_of)
  then have "window (br_bits br) = unat (take_bit 15 (br_val br))" by (simp only: window_def val_of_bits_of)
  then have "window (br_bits br) = take_bit 15 (unat (br_val br))" by (simp only: unsigned_take_bit_eq)
  then show ?thesis by (simp only: take_bit_eq_mod)
qed

text \<open>The fast path: 15 bits are in the accumulator.\<close>

lemma decodeSymbol_ok:
  assumes "table_ok table" and "br_inv br" and "15 \<le> br_bitPos br" and "unat bits mod 2 ^ 15 = window (br_bits br)"
  obtains v d br' where "decodeSymbol bits table br = Some (v, br')" "sym_look table (window (br_bits br)) = Some (v, d)"
    "d \<le> 15" "br_inv br'" "br_bits br' = drop d (br_bits br)" "br_bitPos br' = br_bitPos br - d"
    "br_input br' = br_input br" "br_inputLen br' = br_inputLen br" "br_fastEnd br' = br_fastEnd br" "br_pos br' = br_pos br"
proof -
  obtain v d where l: "sym_look table (window (br_bits br)) = Some (v, d)" "d \<le> 15"
    using table_okD [OF assms(1) window_less] by metis
  have "decodeSymbol bits table br = Some (v, dropBits d br)"
    unfolding decodeSymbol_look [OF assms(1)] assms(4) l(1) by simp
  then show thesis using that l dropBits_ok [OF assms(2), of d] assms(3) by simp
qed

lemma pullUntil_short: "pullUntil n br = Some (False, br') \<Longrightarrow> br_inputLen br' \<le> br_pos br'"
proof (induction n br rule: pullUntil.induct)
  case (1 n br)
  show ?case
  proof (cases "br_bitPos br < n")
    case False
    then show ?thesis using 1(2) by (simp add: pullUntil.simps [of n br])
  next
    case True
    then show ?thesis using 1(2) 1(1) [OF True]
      by (subst (asm) pullUntil.simps) (auto simp: pullByte_def split: option.splits prod.splits bool.splits if_splits bind_splits)
  qed
qed

lemma exhausted_bits:
  assumes "br_inv br" and "br_inputLen br \<le> br_pos br"
  shows "br_bits br = bits_of (br_bitPos br) (br_val br)"
  using assms br_invD [OF assms(1)] by (simp add: br_bits_def)

text \<open>The careful path: fewer than 15 bits are left, all of them in the accumulator.\<close>

lemma safeDecodeSymbol_ok:
  assumes "table_ok table" and "br_inv br" and "br_bits br = bits_of (br_bitPos br) (br_val br)" and "br_bitPos br < 15"
    and "sym_look table (window (br_bits br)) = Some (v, d)"
  shows "\<exists>x br'. safeDecodeSymbol table br = Some (x, br') \<and> br_inv br' \<and>
    (if d \<le> br_bitPos br then x = Some v \<and> br_bits br' = drop d (br_bits br) else x = None \<and> br_bits br' = br_bits br) \<and>
    br_input br' = br_input br \<and> br_inputLen br' = br_inputLen br \<and> br_fastEnd br' = br_fastEnd br"
proof -
  define w i where "w = window (br_bits br)" and "i = w mod 256"
  have i: "i < 256" by (simp add: i_def)
  note e = table_entry [OF assms(1) i]
  have look8: "8 < Bits (table ! i) \<Longrightarrow> 8 < d"
    using table_okD [OF assms(1) window_less, of "br_bits br"] assms(5) by (metis i_def option.inject prod.inject w_def)
  note sl = assms(5) [unfolded sym_look_def, folded w_def, folded i_def, unfolded e(1) Option.bind.bind_lunit]
  show ?thesis
  proof (cases "br_bitPos br = 0")
    case True
    then have "w = 0" using assms(3) by (simp add: w_def window_def)
    then have "i = 0" by (simp add: i_def)
    then have g: "go_index table 0 = Some (table ! i)" using e(1) by simp
    show ?thesis using True g sl look8 assms(2) by (auto simp: safeDecodeSymbol_def availBits_def split: if_splits)
  next
    case False
    let ?br = "normalize br"
    have inv: "br_inv ?br" "br_bits ?br = br_bits br" using normalize_ok [OF assms(2)] by simp_all
    have v: "unat (br_val ?br) = w"
    proof -
      have "br_val ?br = br_val br AND bitMask (br_bitPos br)" using assms(4) by (simp add: normalize_def)
      then have "unat (br_val ?br) = val_of (br_bits br)" using assms(3,4) by (simp add: unat_and_bitMask)
      moreover have "take 15 (br_bits br) = br_bits br" using assms(3,4) by simp
      ultimately show ?thesis by (simp add: w_def window_def)
    qed
    have drops: "br_inv (dropBits n ?br)" "br_bits (dropBits n ?br) = drop n (br_bits br)" if "n \<le> br_bitPos br" for n
      using dropBits_ok [OF inv(1), of n] that assms(4) inv(2) by simp_all
    show ?thesis
    proof (cases "Bits (table ! i) \<le> 8")
      case True
      then have "v = Value (table ! i)" "d = Bits (table ! i)" using sl by auto
      then show ?thesis using False True drops [of d] inv
        unfolding safeDecodeSymbol_def availBits_def bitsUnmasked_def Let_def unat_table_mask v i_def [symmetric] e(1)
        by (simp add: huffmanTableBits_def)
    next
      case big: False
      define n where "n = Bits (table ! i) - 8"
      have n: "n \<le> 7" "Bits (table ! i) = n + 8" using e(2) big by (auto simp: n_def)
      have "w div 256 mod 2 ^ n < 2 ^ n" by simp
      also have "\<dots> < (2::nat) ^ 56" using n by (intro power_strict_increasing) auto
      finally have u: "uadd (uadd i (Value (table ! i))) (w div 256 mod 2 ^ n) = i + Value (table ! i) + w div 256 mod 2 ^ n"
        by (rule uadd_index [OF i e(3)])
      have sub: "unat (drop_bit huffmanTableBits (br_val ?br AND bitMask (Bits (table ! i)))) = w div 256 mod 2 ^ n"
      proof -
        have "drop_bit 8 (take_bit (n + 8) (br_val ?br)) = take_bit n (drop_bit 8 (br_val ?br))"
          by (rule bit_eqI) (auto simp: bit_simps)
        then show ?thesis using n unat_sub_bits [of n "br_val ?br"] by (simp add: and_bitMask huffmanTableBits_def v)
      qed
      have sl2: "(do { e2 \<leftarrow> go_index table (int (i + Value (table ! i) + w div 256 mod 2 ^ n)); Some (Value e2, 8 + Bits e2) }) = Some (v, d)"
        using sl big by (simp add: n_def)
      then obtain e2 where e2: "go_index table (int (i + Value (table ! i) + w div 256 mod 2 ^ n)) = Some e2"
        "v = Value e2" "d = 8 + Bits e2" by (auto split: bind_splits)
      have d8: "8 < d" using look8 big by simp
      have not8: "\<not> Bits (table ! i) \<le> huffmanTableBits" using big by (simp add: huffmanTableBits_def)
      show ?thesis
      proof (cases "br_bitPos br \<le> 8")
        case True
        then show ?thesis using False not8 d8 inv
          unfolding safeDecodeSymbol_def availBits_def bitsUnmasked_def Let_def unat_table_mask v i_def [symmetric] e(1)
          by (simp add: huffmanTableBits_def)
      next
        case more: False
        then show ?thesis using False not8 inv drops [of d] e2(3)
          unfolding safeDecodeSymbol_def availBits_def bitsUnmasked_def Let_def unat_table_mask v i_def [symmetric] e(1)
            Option.bind.bind_lunit sub u e2(1) e2(2)
          by (auto simp: huffmanTableBits_def)
      qed
    qed
  qed
qed

lemma safeReadSymbol_ok:
  assumes "table_ok table" and "br_inv br" and "sym_look table (window (br_bits br)) = Some (v, d)"
  shows "\<exists>x br'. safeReadSymbol table br = Some (x, br') \<and> br_inv br' \<and>
    (if d \<le> length (br_bits br) then x = Some v \<and> br_bits br' = drop d (br_bits br) else x = None \<and> br_bits br' = br_bits br) \<and>
    br_input br' = br_input br \<and> br_inputLen br' = br_inputLen br \<and> br_fastEnd br' = br_fastEnd br"
proof -
  obtain br1 r where g: "safeGetBits 15 br = Some (r, br1)" "br_inv br1" "br_bits br1 = br_bits br"
    "if 15 \<le> length (br_bits br) then map_option unat r = Some (val_of (take 15 (br_bits br))) \<and> 15 \<le> br_bitPos br1 else r = None"
    "br_input br1 = br_input br" "br_inputLen br1 = br_inputLen br" "br_fastEnd br1 = br_fastEnd br"
    using safeGetBits_ok [OF assms(2), of 15] by auto
  have d: "d \<le> 15" using table_okD [OF assms(1) window_less, of "br_bits br"] assms(3) by (metis option.inject prod.inject)
  show ?thesis
  proof (cases "15 \<le> length (br_bits br)")
    case True
    then obtain b where b: "r = Some b" "unat b = window (br_bits br1)" "15 \<le> br_bitPos br1"
      using g(3,4) by (auto simp: window_def)
    have "unat b mod 2 ^ 15 = window (br_bits br1)" using b(2) window_less [of "br_bits br1"] by simp
    then obtain v' d' br' where br': "decodeSymbol b table br1 = Some (v', br')" "sym_look table (window (br_bits br1)) = Some (v', d')"
      "br_inv br'" "br_bits br' = drop d' (br_bits br1)" "br_input br' = br_input br1" "br_inputLen br' = br_inputLen br1"
      "br_fastEnd br' = br_fastEnd br1"
      by (rule decodeSymbol_ok [OF assms(1) g(2) b(3)])
    have "v' = v" "d' = d" using br'(2) assms(3) g(3) by auto
    then show ?thesis using True br' g d b(1) by (simp add: safeReadSymbol_def)
  next
    case False
    then have p: "pullUntil 15 br = Some (False, br1)" using g(1,4)
      by (auto simp: safeGetBits_def split: if_splits bind_splits)
    have e: "br_bits br1 = bits_of (br_bitPos br1) (br_val br1)"
      using exhausted_bits [OF g(2)] pullUntil_short [OF p] by simp
    then have len: "br_bitPos br1 = length (br_bits br)" using arg_cong [OF e, of length] g(3) by simp
    obtain x br' where "safeDecodeSymbol table br1 = Some (x, br')" "br_inv br'"
      "if d \<le> br_bitPos br1 then x = Some v \<and> br_bits br' = drop d (br_bits br1) else x = None \<and> br_bits br' = br_bits br1"
      "br_input br' = br_input br1" "br_inputLen br' = br_inputLen br1" "br_fastEnd br' = br_fastEnd br1"
      using safeDecodeSymbol_ok [OF assms(1) g(2) e, of v d] False len assms(3) g(3) by auto
    then show ?thesis using False g len by (simp add: safeReadSymbol_def)
  qed
qed

text \<open>Reading a symbol in the middle of a suspendable operation.\<close>

lemma refines_symbol:
  assumes ok: "table_ok table" and inv: "br_inv br" and bits: "bits = br_bits br"
    and short: "\<And>br'. br_inv br' \<Longrightarrow> br_bits br' = bits \<Longrightarrow>
      rd (susp br') = br' \<and> good (susp br') \<and> resid (susp br') = p_symbol table k"
    and cont: "\<And>v d br'. br_inv br' \<Longrightarrow> br_bits br' = drop d bits \<Longrightarrow> sym_look table (window bits) = Some (v, d) \<Longrightarrow>
      refines rd er good resid fin (next1 v br') (k v) (drop d bits)"
    and st: "\<And>v. stable_parse (k v)"
  shows "refines rd er good resid fin
    (do { (x, br') \<leftarrow> safeReadSymbol table br;
          case x of None \<Rightarrow> Some (ResultNeedsMoreInput, susp br') | Some v \<Rightarrow> next1 v br' })
    (p_symbol table k) bits"
proof -
  obtain v d where l: "sym_look table (window bits) = Some (v, d)" "d \<le> 15"
    "\<And>w'. w' < 2 ^ 15 \<Longrightarrow> w' mod 2 ^ d = window bits mod 2 ^ d \<Longrightarrow> sym_look table w' = Some (v, d)"
    using table_okD [OF ok window_less] by metis
  obtain x br' where x: "safeReadSymbol table br = Some (x, br')" "br_inv br'"
    "if d \<le> length bits then x = Some v \<and> br_bits br' = drop d bits else x = None \<and> br_bits br' = bits"
    using safeReadSymbol_ok [OF ok inv, of v d] l(1) bits by auto
  show ?thesis
  proof (cases "d \<le> length bits")
    case False
    then have p: "p_symbol table k bits = Short" by (simp add: p_symbol_def l(1))
    have "br_bits br' = bits" "x = None" using False x(3) by simp_all
    then show ?thesis using x(1,2) short [of br'] p by (simp add: refines_def)
  next
    case True
    have p: "p_symbol table k (bits @ y) = k v (drop d bits @ y)" for y
    proof -
      have "sym_look table (window (bits @ y)) = Some (v, d)"
        using l(3) [OF window_less window_prefix [OF l(2) True]] .
      then show ?thesis using True by (simp add: p_symbol_def)
    qed
    have xv: "x = Some v" "br_bits br' = drop d bits" using x(3) True by auto
    from cont [OF x(2) xv(2) l(1)] obtain r s where rs: "next1 v br' = Some (r, s)" "br_inv (rd s)"
      "case k v (drop d bits) of
         Good w rest \<Rightarrow> r = ResultSuccess \<and> fin s = w \<and> br_bits (rd s) = rest
       | Bad e \<Rightarrow> r = ResultError \<and> er s = Some e
       | Short \<Rightarrow> r = ResultNeedsMoreInput \<and> good s \<and> (\<forall>x. resid s (br_bits (rd s) @ x) = k v (drop d bits @ x))"
      unfolding refines_def by blast
    from rs p [of "[]"] p show ?thesis
      unfolding refines_def x(1) xv(1) by (auto split: parse.splits)
  qed
qed


subsection \<open>Block lengths\<close>

definition readBlockLength :: "HuffmanCode list \<Rightarrow> bitReader \<Rightarrow> (nat \<times> bitReader) option" where
  "readBlockLength table br = do {
     br \<leftarrow> fillBitWindow br;
     (code, br) \<leftarrow> decodeSymbol (br_val br) table br;
     nbits \<leftarrow> go_index BlockLengthNBits (int code);
     off \<leftarrow> go_index BlockLengthOffset (int code);
     (bits, br) \<leftarrow> readBits nbits br;
     Some (uadd off (unat bits), br) }"

text \<open>The part of \<^verbatim>\<open>safeReadBlockLength\<close> after the symbol.\<close>

definition block_suffix :: "nat \<Rightarrow> decodeState \<Rightarrow> (nat option \<times> decodeState) option" where
  "block_suffix index s = do {
     nbits \<leftarrow> go_index BlockLengthNBits (int index);
     (bits, br) \<leftarrow> safeReadBits nbits (ds_br s);
     case bits of
       None \<Rightarrow> Some (None, s\<lparr>ds_br := br, ds_blockLengthIndex := index,
                              ds_substateReadBlockLength := readBlockLengthSuffix\<rparr>)
     | Some bits \<Rightarrow> do {
         off \<leftarrow> go_index BlockLengthOffset (int index);
         Some (Some (uadd off (unat bits)), s\<lparr>ds_br := br, ds_substateReadBlockLength := readBlockLengthNone\<rparr>) } }"

definition safeReadBlockLength :: "HuffmanCode list \<Rightarrow> decodeState \<Rightarrow> (nat option \<times> decodeState) option" where
  "safeReadBlockLength table s =
     (if ds_substateReadBlockLength s = readBlockLengthNone
      then do {
        (x, br) \<leftarrow> safeReadSymbol table (ds_br s);
        case x of None \<Rightarrow> Some (None, s\<lparr>ds_br := br\<rparr>) | Some index \<Rightarrow> block_suffix index (s\<lparr>ds_br := br\<rparr>) }
      else block_suffix (ds_blockLengthIndex s) s)"

text \<open>What both read: a symbol of the block length alphabet and its extra bits.\<close>

definition block_length_at :: "HuffmanCode list \<Rightarrow> bool list \<Rightarrow> (nat \<times> nat) option" where
  "block_length_at table bs = do {
     (code, d) \<leftarrow> sym_look table (window bs);
     Some (BlockLengthOffset ! code + val_of (take (BlockLengthNBits ! code) (drop d bs)), d + BlockLengthNBits ! code) }"

definition symbols_below :: "nat \<Rightarrow> HuffmanCode list \<Rightarrow> bool" where
  "symbols_below n table \<longleftrightarrow> (\<forall>w < 2 ^ 15. \<forall>v d. sym_look table w = Some (v, d) \<longrightarrow> v < n)"

lemma block_tables:
  assumes "code < 26"
  shows "go_index BlockLengthNBits (int code) = Some (BlockLengthNBits ! code)"
    and "go_index BlockLengthOffset (int code) = Some (BlockLengthOffset ! code)"
    and "BlockLengthNBits ! code \<le> 24" and "BlockLengthOffset ! code \<le> 16625"
proof -
  have l: "length BlockLengthNBits = 26" "length BlockLengthOffset = 26"
    by (simp_all add: BlockLengthNBits_def BlockLengthOffset_def)
  show "go_index BlockLengthNBits (int code) = Some (BlockLengthNBits ! code)"
    "go_index BlockLengthOffset (int code) = Some (BlockLengthOffset ! code)"
    using assms by (simp_all add: l)
  have "list_all (\<lambda>x. x \<le> 24) BlockLengthNBits" "list_all (\<lambda>x. x \<le> 16625) BlockLengthOffset"
    by (simp_all add: BlockLengthNBits_def BlockLengthOffset_def)
  then show "BlockLengthNBits ! code \<le> 24" "BlockLengthOffset ! code \<le> 16625"
    using assms l by (simp_all add: list_all_length)
qed

lemma readBlockLength_ok:
  assumes "table_ok table" and "symbols_below 26 table" and "br_inv br" and "nat (br_pos br) + 8 \<le> length (br_input br)"
  obtains len n br' where "readBlockLength table br = Some (len, br')" "block_length_at table (br_bits br) = Some (len, n)"
    "n \<le> length (br_bits br)" "br_inv br'" "br_bits br' = drop n (br_bits br)"
proof -
  obtain b1 where b1: "fillBitWindow br = Some b1" "br_inv b1" "br_bits b1 = br_bits br" "32 \<le> br_bitPos b1"
    using fillBitWindow_ok [OF assms(3)] assms(4) by auto
  have pos: "nat (br_pos b1) + 4 \<le> length (br_input b1)"
    using b1(1) assms(3,4) br_invD [OF assms(3)]
    by (auto simp: fillBitWindow_def nat_add_distrib split: if_splits bind_splits)
  have w: "15 \<le> br_bitPos b1" using b1(4) by simp
  obtain code d b2 where b2: "decodeSymbol (br_val b1) table b1 = Some (code, b2)"
    "sym_look table (window (br_bits b1)) = Some (code, d)" "d \<le> 15" "br_inv b2" "br_bits b2 = drop d (br_bits b1)"
    "br_bitPos b2 = br_bitPos b1 - d" "br_input b2 = br_input b1" "br_inputLen b2 = br_inputLen b1" "br_fastEnd b2 = br_fastEnd b1"
    "br_pos b2 = br_pos b1"
    by (rule decodeSymbol_ok [OF assms(1) b1(2) w window_unat [OF w]])
  have code: "code < 26" using assms(2) b2(2) window_less [of "br_bits b1"] by (auto simp: symbols_below_def)
  note bt = block_tables [OF code]
  obtain v b3 where b3: "readBits (BlockLengthNBits ! code) b2 = Some (v, b3)" "br_inv b3"
    "unat v = val_of (take (BlockLengthNBits ! code) (br_bits b2))" "br_bits b3 = drop (BlockLengthNBits ! code) (br_bits b2)"
    "BlockLengthNBits ! code \<le> length (br_bits b2)"
    using readBits_ok [OF b2(4), of "BlockLengthNBits ! code"] pos b2(7,10) bt(3) by auto
  have "unat v < 2 ^ BlockLengthNBits ! code" using b3(3,5) val_of_lt [of "take (BlockLengthNBits ! code) (br_bits b2)"] by simp
  also have "\<dots> \<le> 2 ^ 24" using bt(3) by (intro power_increasing) auto
  finally have u: "uadd (BlockLengthOffset ! code) (unat v) = BlockLengthOffset ! code + unat v"
    using bt(4) by (intro uadd_exact) simp
  have len: "d \<le> length (br_bits b1)" using length_br_bits [of b1] b1(4) b2(3) by simp
  show thesis
  proof (rule that)
    show "readBlockLength table br = Some (BlockLengthOffset ! code + unat v, b3)"
      unfolding readBlockLength_def by (simp only: b1(1) b2(1) b3(1) bt(1,2) u Option.bind.bind_lunit prod.case)
    show "block_length_at table (br_bits br) = Some (BlockLengthOffset ! code + unat v, d + BlockLengthNBits ! code)"
      using b2(2,5) b3(3) b1(3) by (simp add: block_length_at_def)
  qed (use b1(3) b2(5) b3 len in \<open>auto simp: add.commute\<close>)
qed

definition p_block_length :: "HuffmanCode list \<Rightarrow> bool list \<Rightarrow> nat parse" where
  "p_block_length table = p_symbol table (\<lambda>code. p_bits (BlockLengthNBits ! code) (\<lambda>x. Good (BlockLengthOffset ! code + x)))"

lemma stable_suffix: "stable_parse (p_bits (BlockLengthNBits ! code) (\<lambda>x. Good (BlockLengthOffset ! code + x)))"
  by (intro stable_p_bits stable_Good)

text \<open>The careful reader resumes after the symbol when only the extra bits are missing.\<close>

definition bl_good :: "decodeState \<Rightarrow> bool" where
  "bl_good s \<longleftrightarrow> (ds_substateReadBlockLength s = readBlockLengthSuffix \<longrightarrow> ds_blockLengthIndex s < 26)"

definition bl_resid :: "HuffmanCode list \<Rightarrow> decodeState \<Rightarrow> bool list \<Rightarrow> nat parse" where
  "bl_resid table s = (case ds_substateReadBlockLength s of
     readBlockLengthNone \<Rightarrow> p_block_length table
   | readBlockLengthSuffix \<Rightarrow> p_bits (BlockLengthNBits ! ds_blockLengthIndex s)
       (\<lambda>x. Good (BlockLengthOffset ! ds_blockLengthIndex s + x)))"

text \<open>\<^verbatim>\<open>decompressStream\<close> stores the length for the alphabet \<open>i\<close>.\<close>

definition run_block_length :: "nat \<Rightarrow> HuffmanCode list \<Rightarrow> decodeState \<Rightarrow> (decoderResult \<times> decodeState) option" where
  "run_block_length i table s = do {
     (x, s) \<leftarrow> safeReadBlockLength table s;
     case x of None \<Rightarrow> Some (ResultNeedsMoreInput, s)
     | Some bl \<Rightarrow> do { xs \<leftarrow> go_update (ds_blockLength s) (int i) bl; Some (ResultSuccess, s\<lparr>ds_blockLength := xs\<rparr>) } }"

definition store_length :: "nat \<Rightarrow> nat option \<times> decodeState \<Rightarrow> (decoderResult \<times> decodeState) option" where
  "store_length i = (\<lambda>(x, s). case x of None \<Rightarrow> Some (ResultNeedsMoreInput, s)
     | Some bl \<Rightarrow> do { xs \<leftarrow> go_update (ds_blockLength s) (int i) bl; Some (ResultSuccess, s\<lparr>ds_blockLength := xs\<rparr>) })"

lemma run_store: "run_block_length i table s = safeReadBlockLength table s \<bind> store_length i"
  by (simp add: run_block_length_def store_length_def)

lemma block_suffix_refines:
  assumes "i < length (ds_blockLength s)" and "index < 26" and "br_inv (ds_br s)"
  shows "refines ds_br ds_err bl_good (bl_resid table) (\<lambda>s. ds_blockLength s ! i)
    (block_suffix index s \<bind> store_length i)
    (p_bits (BlockLengthNBits ! index) (\<lambda>x. Good (BlockLengthOffset ! index + x))) (br_bits (ds_br s))"
proof -
  note bt = block_tables [OF assms(2)]
  have n: "BlockLengthNBits ! index \<le> 57" using bt(3) by simp
  let ?susp = "\<lambda>br. s\<lparr>ds_br := br, ds_blockLengthIndex := index, ds_substateReadBlockLength := readBlockLengthSuffix\<rparr>"
  let ?next = "\<lambda>v br. store_length i (Some (uadd (BlockLengthOffset ! index) (unat v)),
      s\<lparr>ds_br := br, ds_substateReadBlockLength := readBlockLengthNone\<rparr>)"
  have "block_suffix index s \<bind> store_length i = do { (x, br') \<leftarrow> safeReadBits (BlockLengthNBits ! index) (ds_br s);
      case x of None \<Rightarrow> Some (ResultNeedsMoreInput, ?susp br') | Some v \<Rightarrow> ?next v br' }"
    by (cases "safeReadBits (BlockLengthNBits ! index) (ds_br s)")
      (auto simp: block_suffix_def bt(1,2) store_length_def simp del: go_index_Some split: option.splits)
  moreover have "refines ds_br ds_err bl_good (bl_resid table) (\<lambda>s. ds_blockLength s ! i)
    (do { (x, br') \<leftarrow> safeReadBits (BlockLengthNBits ! index) (ds_br s);
      case x of None \<Rightarrow> Some (ResultNeedsMoreInput, ?susp br') | Some v \<Rightarrow> ?next v br' })
    (p_bits (BlockLengthNBits ! index) (\<lambda>x. Good (BlockLengthOffset ! index + x))) (br_bits (ds_br s))"
  proof (rule refines_read [OF assms(3) n refl], goal_cases)
    case (1 br')
    then show ?case using assms(2) by (simp add: bl_good_def bl_resid_def)
  next
    case (2 v br')
    have "unat v < 2 ^ BlockLengthNBits ! index" by (rule 2)
    also have "\<dots> \<le> 2 ^ 24" using bt(3) by (intro power_increasing) auto
    finally have u: "uadd (BlockLengthOffset ! index) (unat v) = BlockLengthOffset ! index + unat v"
      using bt(4) by (intro uadd_exact) simp
    show ?case using 2(1,2) assms(1) unfolding store_length_def
      by (simp add: u go_update_def refines_def)
  qed
  ultimately show ?thesis by simp
qed

lemma block_length_refines:
  assumes "table_ok table" and "symbols_below 26 table" and "i < length (ds_blockLength s)" and "bl_good s" and "br_inv (ds_br s)"
  shows "refines ds_br ds_err bl_good (bl_resid table) (\<lambda>s. ds_blockLength s ! i)
    (run_block_length i table s) (bl_resid table s) (br_bits (ds_br s))"
proof (cases "ds_substateReadBlockLength s")
  case readBlockLengthSuffix
  then show ?thesis using block_suffix_refines [OF assms(3) _ assms(5), of "ds_blockLengthIndex s"] assms(4)
    by (simp add: run_store safeReadBlockLength_def bl_good_def bl_resid_def)
next
  case readBlockLengthNone
  let ?next = "\<lambda>index br. block_suffix index (s\<lparr>ds_br := br\<rparr>) \<bind> store_length i"
  have "run_block_length i table s = do { (x, br) \<leftarrow> safeReadSymbol table (ds_br s);
      case x of None \<Rightarrow> Some (ResultNeedsMoreInput, s\<lparr>ds_br := br\<rparr>) | Some index \<Rightarrow> ?next index br }"
    using readBlockLengthNone by (cases "safeReadSymbol table (ds_br s)")
      (auto simp: run_store safeReadBlockLength_def store_length_def split: option.splits)
  moreover have "refines ds_br ds_err bl_good (bl_resid table) (\<lambda>s. ds_blockLength s ! i)
     (do { (x, br) \<leftarrow> safeReadSymbol table (ds_br s);
      case x of None \<Rightarrow> Some (ResultNeedsMoreInput, s\<lparr>ds_br := br\<rparr>) | Some index \<Rightarrow> ?next index br })
     (p_block_length table) (br_bits (ds_br s))"
    unfolding p_block_length_def
  proof (rule refines_symbol [OF assms(1,5) refl], goal_cases)
    case (1 br')
    then show ?case using readBlockLengthNone by (simp add: bl_good_def bl_resid_def p_block_length_def)
  next
    case (2 code d br')
    then have "code < 26" using assms(2) window_less [of "br_bits (ds_br s)"] by (auto simp: symbols_below_def)
    then show ?case using block_suffix_refines [of i "s\<lparr>ds_br := br'\<rparr>" code table] assms(3) 2(1,2) by simp
  qed (rule stable_suffix)
  ultimately show ?thesis using readBlockLengthNone by (simp add: bl_resid_def)
qed
end
