(* ===== verification/Cmd_Lut.thy ===== *)
theory Cmd_Lut
  imports Core_Constants
begin

text \<open>
  The decoder's table of the 704 insert-and-copy length symbols, \<^verbatim>\<open>internal/core/cmdlut.go\<close>, literally,
  in eleven blocks of 64 entries, the cells of RFC 7932 section 5. The second part of the theory shows
  that the table is the one the RFC describes: each entry is determined by the insert and the copy
  length code of its cell and position.
\<close>

record CmdLutElement =
  InsertLenExtraBits :: nat
  CopyLenExtraBits :: nat
  DistanceCode :: int
  Context :: nat
  InsertLenOffset :: nat
  CopyLenOffset :: nat

text \<open>The literals: insert extra bits, copy extra bits, distance code, context, insert offset, copy offset.\<close>

definition cmdE :: "nat \<Rightarrow> nat \<Rightarrow> int \<Rightarrow> nat \<Rightarrow> nat \<Rightarrow> nat \<Rightarrow> CmdLutElement" where
  "cmdE a b c d e f = \<lparr>InsertLenExtraBits = a, CopyLenExtraBits = b, DistanceCode = c, Context = d,
     InsertLenOffset = e, CopyLenOffset = f\<rparr>"

definition CmdLut_0 :: "CmdLutElement list" where
  "CmdLut_0 = [
   cmdE 0 0 0 0 0 2, cmdE 0 0 0 1 0 3, cmdE 0 0 0 2 0 4, cmdE 0 0 0 3 0 5,
   cmdE 0 0 0 3 0 6, cmdE 0 0 0 3 0 7, cmdE 0 0 0 3 0 8, cmdE 0 0 0 3 0 9,
   cmdE 0 0 0 0 1 2, cmdE 0 0 0 1 1 3, cmdE 0 0 0 2 1 4, cmdE 0 0 0 3 1 5,
   cmdE 0 0 0 3 1 6, cmdE 0 0 0 3 1 7, cmdE 0 0 0 3 1 8, cmdE 0 0 0 3 1 9,
   cmdE 0 0 0 0 2 2, cmdE 0 0 0 1 2 3, cmdE 0 0 0 2 2 4, cmdE 0 0 0 3 2 5,
   cmdE 0 0 0 3 2 6, cmdE 0 0 0 3 2 7, cmdE 0 0 0 3 2 8, cmdE 0 0 0 3 2 9,
   cmdE 0 0 0 0 3 2, cmdE 0 0 0 1 3 3, cmdE 0 0 0 2 3 4, cmdE 0 0 0 3 3 5,
   cmdE 0 0 0 3 3 6, cmdE 0 0 0 3 3 7, cmdE 0 0 0 3 3 8, cmdE 0 0 0 3 3 9,
   cmdE 0 0 0 0 4 2, cmdE 0 0 0 1 4 3, cmdE 0 0 0 2 4 4, cmdE 0 0 0 3 4 5,
   cmdE 0 0 0 3 4 6, cmdE 0 0 0 3 4 7, cmdE 0 0 0 3 4 8, cmdE 0 0 0 3 4 9,
   cmdE 0 0 0 0 5 2, cmdE 0 0 0 1 5 3, cmdE 0 0 0 2 5 4, cmdE 0 0 0 3 5 5,
   cmdE 0 0 0 3 5 6, cmdE 0 0 0 3 5 7, cmdE 0 0 0 3 5 8, cmdE 0 0 0 3 5 9,
   cmdE 1 0 0 0 6 2, cmdE 1 0 0 1 6 3, cmdE 1 0 0 2 6 4, cmdE 1 0 0 3 6 5,
   cmdE 1 0 0 3 6 6, cmdE 1 0 0 3 6 7, cmdE 1 0 0 3 6 8, cmdE 1 0 0 3 6 9,
   cmdE 1 0 0 0 8 2, cmdE 1 0 0 1 8 3, cmdE 1 0 0 2 8 4, cmdE 1 0 0 3 8 5,
   cmdE 1 0 0 3 8 6, cmdE 1 0 0 3 8 7, cmdE 1 0 0 3 8 8, cmdE 1 0 0 3 8 9]"

definition CmdLut_1 :: "CmdLutElement list" where
  "CmdLut_1 = [
   cmdE 0 1 0 3 0 10, cmdE 0 1 0 3 0 12, cmdE 0 2 0 3 0 14, cmdE 0 2 0 3 0 18,
   cmdE 0 3 0 3 0 22, cmdE 0 3 0 3 0 30, cmdE 0 4 0 3 0 38, cmdE 0 4 0 3 0 54,
   cmdE 0 1 0 3 1 10, cmdE 0 1 0 3 1 12, cmdE 0 2 0 3 1 14, cmdE 0 2 0 3 1 18,
   cmdE 0 3 0 3 1 22, cmdE 0 3 0 3 1 30, cmdE 0 4 0 3 1 38, cmdE 0 4 0 3 1 54,
   cmdE 0 1 0 3 2 10, cmdE 0 1 0 3 2 12, cmdE 0 2 0 3 2 14, cmdE 0 2 0 3 2 18,
   cmdE 0 3 0 3 2 22, cmdE 0 3 0 3 2 30, cmdE 0 4 0 3 2 38, cmdE 0 4 0 3 2 54,
   cmdE 0 1 0 3 3 10, cmdE 0 1 0 3 3 12, cmdE 0 2 0 3 3 14, cmdE 0 2 0 3 3 18,
   cmdE 0 3 0 3 3 22, cmdE 0 3 0 3 3 30, cmdE 0 4 0 3 3 38, cmdE 0 4 0 3 3 54,
   cmdE 0 1 0 3 4 10, cmdE 0 1 0 3 4 12, cmdE 0 2 0 3 4 14, cmdE 0 2 0 3 4 18,
   cmdE 0 3 0 3 4 22, cmdE 0 3 0 3 4 30, cmdE 0 4 0 3 4 38, cmdE 0 4 0 3 4 54,
   cmdE 0 1 0 3 5 10, cmdE 0 1 0 3 5 12, cmdE 0 2 0 3 5 14, cmdE 0 2 0 3 5 18,
   cmdE 0 3 0 3 5 22, cmdE 0 3 0 3 5 30, cmdE 0 4 0 3 5 38, cmdE 0 4 0 3 5 54,
   cmdE 1 1 0 3 6 10, cmdE 1 1 0 3 6 12, cmdE 1 2 0 3 6 14, cmdE 1 2 0 3 6 18,
   cmdE 1 3 0 3 6 22, cmdE 1 3 0 3 6 30, cmdE 1 4 0 3 6 38, cmdE 1 4 0 3 6 54,
   cmdE 1 1 0 3 8 10, cmdE 1 1 0 3 8 12, cmdE 1 2 0 3 8 14, cmdE 1 2 0 3 8 18,
   cmdE 1 3 0 3 8 22, cmdE 1 3 0 3 8 30, cmdE 1 4 0 3 8 38, cmdE 1 4 0 3 8 54]"

definition CmdLut_2 :: "CmdLutElement list" where
  "CmdLut_2 = [
   cmdE 0 0 (-1) 0 0 2, cmdE 0 0 (-1) 1 0 3, cmdE 0 0 (-1) 2 0 4, cmdE 0 0 (-1) 3 0 5,
   cmdE 0 0 (-1) 3 0 6, cmdE 0 0 (-1) 3 0 7, cmdE 0 0 (-1) 3 0 8, cmdE 0 0 (-1) 3 0 9,
   cmdE 0 0 (-1) 0 1 2, cmdE 0 0 (-1) 1 1 3, cmdE 0 0 (-1) 2 1 4, cmdE 0 0 (-1) 3 1 5,
   cmdE 0 0 (-1) 3 1 6, cmdE 0 0 (-1) 3 1 7, cmdE 0 0 (-1) 3 1 8, cmdE 0 0 (-1) 3 1 9,
   cmdE 0 0 (-1) 0 2 2, cmdE 0 0 (-1) 1 2 3, cmdE 0 0 (-1) 2 2 4, cmdE 0 0 (-1) 3 2 5,
   cmdE 0 0 (-1) 3 2 6, cmdE 0 0 (-1) 3 2 7, cmdE 0 0 (-1) 3 2 8, cmdE 0 0 (-1) 3 2 9,
   cmdE 0 0 (-1) 0 3 2, cmdE 0 0 (-1) 1 3 3, cmdE 0 0 (-1) 2 3 4, cmdE 0 0 (-1) 3 3 5,
   cmdE 0 0 (-1) 3 3 6, cmdE 0 0 (-1) 3 3 7, cmdE 0 0 (-1) 3 3 8, cmdE 0 0 (-1) 3 3 9,
   cmdE 0 0 (-1) 0 4 2, cmdE 0 0 (-1) 1 4 3, cmdE 0 0 (-1) 2 4 4, cmdE 0 0 (-1) 3 4 5,
   cmdE 0 0 (-1) 3 4 6, cmdE 0 0 (-1) 3 4 7, cmdE 0 0 (-1) 3 4 8, cmdE 0 0 (-1) 3 4 9,
   cmdE 0 0 (-1) 0 5 2, cmdE 0 0 (-1) 1 5 3, cmdE 0 0 (-1) 2 5 4, cmdE 0 0 (-1) 3 5 5,
   cmdE 0 0 (-1) 3 5 6, cmdE 0 0 (-1) 3 5 7, cmdE 0 0 (-1) 3 5 8, cmdE 0 0 (-1) 3 5 9,
   cmdE 1 0 (-1) 0 6 2, cmdE 1 0 (-1) 1 6 3, cmdE 1 0 (-1) 2 6 4, cmdE 1 0 (-1) 3 6 5,
   cmdE 1 0 (-1) 3 6 6, cmdE 1 0 (-1) 3 6 7, cmdE 1 0 (-1) 3 6 8, cmdE 1 0 (-1) 3 6 9,
   cmdE 1 0 (-1) 0 8 2, cmdE 1 0 (-1) 1 8 3, cmdE 1 0 (-1) 2 8 4, cmdE 1 0 (-1) 3 8 5,
   cmdE 1 0 (-1) 3 8 6, cmdE 1 0 (-1) 3 8 7, cmdE 1 0 (-1) 3 8 8, cmdE 1 0 (-1) 3 8 9]"

definition CmdLut_3 :: "CmdLutElement list" where
  "CmdLut_3 = [
   cmdE 0 1 (-1) 3 0 10, cmdE 0 1 (-1) 3 0 12, cmdE 0 2 (-1) 3 0 14, cmdE 0 2 (-1) 3 0 18,
   cmdE 0 3 (-1) 3 0 22, cmdE 0 3 (-1) 3 0 30, cmdE 0 4 (-1) 3 0 38, cmdE 0 4 (-1) 3 0 54,
   cmdE 0 1 (-1) 3 1 10, cmdE 0 1 (-1) 3 1 12, cmdE 0 2 (-1) 3 1 14, cmdE 0 2 (-1) 3 1 18,
   cmdE 0 3 (-1) 3 1 22, cmdE 0 3 (-1) 3 1 30, cmdE 0 4 (-1) 3 1 38, cmdE 0 4 (-1) 3 1 54,
   cmdE 0 1 (-1) 3 2 10, cmdE 0 1 (-1) 3 2 12, cmdE 0 2 (-1) 3 2 14, cmdE 0 2 (-1) 3 2 18,
   cmdE 0 3 (-1) 3 2 22, cmdE 0 3 (-1) 3 2 30, cmdE 0 4 (-1) 3 2 38, cmdE 0 4 (-1) 3 2 54,
   cmdE 0 1 (-1) 3 3 10, cmdE 0 1 (-1) 3 3 12, cmdE 0 2 (-1) 3 3 14, cmdE 0 2 (-1) 3 3 18,
   cmdE 0 3 (-1) 3 3 22, cmdE 0 3 (-1) 3 3 30, cmdE 0 4 (-1) 3 3 38, cmdE 0 4 (-1) 3 3 54,
   cmdE 0 1 (-1) 3 4 10, cmdE 0 1 (-1) 3 4 12, cmdE 0 2 (-1) 3 4 14, cmdE 0 2 (-1) 3 4 18,
   cmdE 0 3 (-1) 3 4 22, cmdE 0 3 (-1) 3 4 30, cmdE 0 4 (-1) 3 4 38, cmdE 0 4 (-1) 3 4 54,
   cmdE 0 1 (-1) 3 5 10, cmdE 0 1 (-1) 3 5 12, cmdE 0 2 (-1) 3 5 14, cmdE 0 2 (-1) 3 5 18,
   cmdE 0 3 (-1) 3 5 22, cmdE 0 3 (-1) 3 5 30, cmdE 0 4 (-1) 3 5 38, cmdE 0 4 (-1) 3 5 54,
   cmdE 1 1 (-1) 3 6 10, cmdE 1 1 (-1) 3 6 12, cmdE 1 2 (-1) 3 6 14, cmdE 1 2 (-1) 3 6 18,
   cmdE 1 3 (-1) 3 6 22, cmdE 1 3 (-1) 3 6 30, cmdE 1 4 (-1) 3 6 38, cmdE 1 4 (-1) 3 6 54,
   cmdE 1 1 (-1) 3 8 10, cmdE 1 1 (-1) 3 8 12, cmdE 1 2 (-1) 3 8 14, cmdE 1 2 (-1) 3 8 18,
   cmdE 1 3 (-1) 3 8 22, cmdE 1 3 (-1) 3 8 30, cmdE 1 4 (-1) 3 8 38, cmdE 1 4 (-1) 3 8 54]"

definition CmdLut_4 :: "CmdLutElement list" where
  "CmdLut_4 = [
   cmdE 2 0 (-1) 0 10 2, cmdE 2 0 (-1) 1 10 3, cmdE 2 0 (-1) 2 10 4, cmdE 2 0 (-1) 3 10 5,
   cmdE 2 0 (-1) 3 10 6, cmdE 2 0 (-1) 3 10 7, cmdE 2 0 (-1) 3 10 8, cmdE 2 0 (-1) 3 10 9,
   cmdE 2 0 (-1) 0 14 2, cmdE 2 0 (-1) 1 14 3, cmdE 2 0 (-1) 2 14 4, cmdE 2 0 (-1) 3 14 5,
   cmdE 2 0 (-1) 3 14 6, cmdE 2 0 (-1) 3 14 7, cmdE 2 0 (-1) 3 14 8, cmdE 2 0 (-1) 3 14 9,
   cmdE 3 0 (-1) 0 18 2, cmdE 3 0 (-1) 1 18 3, cmdE 3 0 (-1) 2 18 4, cmdE 3 0 (-1) 3 18 5,
   cmdE 3 0 (-1) 3 18 6, cmdE 3 0 (-1) 3 18 7, cmdE 3 0 (-1) 3 18 8, cmdE 3 0 (-1) 3 18 9,
   cmdE 3 0 (-1) 0 26 2, cmdE 3 0 (-1) 1 26 3, cmdE 3 0 (-1) 2 26 4, cmdE 3 0 (-1) 3 26 5,
   cmdE 3 0 (-1) 3 26 6, cmdE 3 0 (-1) 3 26 7, cmdE 3 0 (-1) 3 26 8, cmdE 3 0 (-1) 3 26 9,
   cmdE 4 0 (-1) 0 34 2, cmdE 4 0 (-1) 1 34 3, cmdE 4 0 (-1) 2 34 4, cmdE 4 0 (-1) 3 34 5,
   cmdE 4 0 (-1) 3 34 6, cmdE 4 0 (-1) 3 34 7, cmdE 4 0 (-1) 3 34 8, cmdE 4 0 (-1) 3 34 9,
   cmdE 4 0 (-1) 0 50 2, cmdE 4 0 (-1) 1 50 3, cmdE 4 0 (-1) 2 50 4, cmdE 4 0 (-1) 3 50 5,
   cmdE 4 0 (-1) 3 50 6, cmdE 4 0 (-1) 3 50 7, cmdE 4 0 (-1) 3 50 8, cmdE 4 0 (-1) 3 50 9,
   cmdE 5 0 (-1) 0 66 2, cmdE 5 0 (-1) 1 66 3, cmdE 5 0 (-1) 2 66 4, cmdE 5 0 (-1) 3 66 5,
   cmdE 5 0 (-1) 3 66 6, cmdE 5 0 (-1) 3 66 7, cmdE 5 0 (-1) 3 66 8, cmdE 5 0 (-1) 3 66 9,
   cmdE 5 0 (-1) 0 98 2, cmdE 5 0 (-1) 1 98 3, cmdE 5 0 (-1) 2 98 4, cmdE 5 0 (-1) 3 98 5,
   cmdE 5 0 (-1) 3 98 6, cmdE 5 0 (-1) 3 98 7, cmdE 5 0 (-1) 3 98 8, cmdE 5 0 (-1) 3 98 9]"

definition CmdLut_5 :: "CmdLutElement list" where
  "CmdLut_5 = [
   cmdE 2 1 (-1) 3 10 10, cmdE 2 1 (-1) 3 10 12, cmdE 2 2 (-1) 3 10 14, cmdE 2 2 (-1) 3 10 18,
   cmdE 2 3 (-1) 3 10 22, cmdE 2 3 (-1) 3 10 30, cmdE 2 4 (-1) 3 10 38, cmdE 2 4 (-1) 3 10 54,
   cmdE 2 1 (-1) 3 14 10, cmdE 2 1 (-1) 3 14 12, cmdE 2 2 (-1) 3 14 14, cmdE 2 2 (-1) 3 14 18,
   cmdE 2 3 (-1) 3 14 22, cmdE 2 3 (-1) 3 14 30, cmdE 2 4 (-1) 3 14 38, cmdE 2 4 (-1) 3 14 54,
   cmdE 3 1 (-1) 3 18 10, cmdE 3 1 (-1) 3 18 12, cmdE 3 2 (-1) 3 18 14, cmdE 3 2 (-1) 3 18 18,
   cmdE 3 3 (-1) 3 18 22, cmdE 3 3 (-1) 3 18 30, cmdE 3 4 (-1) 3 18 38, cmdE 3 4 (-1) 3 18 54,
   cmdE 3 1 (-1) 3 26 10, cmdE 3 1 (-1) 3 26 12, cmdE 3 2 (-1) 3 26 14, cmdE 3 2 (-1) 3 26 18,
   cmdE 3 3 (-1) 3 26 22, cmdE 3 3 (-1) 3 26 30, cmdE 3 4 (-1) 3 26 38, cmdE 3 4 (-1) 3 26 54,
   cmdE 4 1 (-1) 3 34 10, cmdE 4 1 (-1) 3 34 12, cmdE 4 2 (-1) 3 34 14, cmdE 4 2 (-1) 3 34 18,
   cmdE 4 3 (-1) 3 34 22, cmdE 4 3 (-1) 3 34 30, cmdE 4 4 (-1) 3 34 38, cmdE 4 4 (-1) 3 34 54,
   cmdE 4 1 (-1) 3 50 10, cmdE 4 1 (-1) 3 50 12, cmdE 4 2 (-1) 3 50 14, cmdE 4 2 (-1) 3 50 18,
   cmdE 4 3 (-1) 3 50 22, cmdE 4 3 (-1) 3 50 30, cmdE 4 4 (-1) 3 50 38, cmdE 4 4 (-1) 3 50 54,
   cmdE 5 1 (-1) 3 66 10, cmdE 5 1 (-1) 3 66 12, cmdE 5 2 (-1) 3 66 14, cmdE 5 2 (-1) 3 66 18,
   cmdE 5 3 (-1) 3 66 22, cmdE 5 3 (-1) 3 66 30, cmdE 5 4 (-1) 3 66 38, cmdE 5 4 (-1) 3 66 54,
   cmdE 5 1 (-1) 3 98 10, cmdE 5 1 (-1) 3 98 12, cmdE 5 2 (-1) 3 98 14, cmdE 5 2 (-1) 3 98 18,
   cmdE 5 3 (-1) 3 98 22, cmdE 5 3 (-1) 3 98 30, cmdE 5 4 (-1) 3 98 38, cmdE 5 4 (-1) 3 98 54]"

definition CmdLut_6 :: "CmdLutElement list" where
  "CmdLut_6 = [
   cmdE 0 5 (-1) 3 0 70, cmdE 0 5 (-1) 3 0 102, cmdE 0 6 (-1) 3 0 134, cmdE 0 7 (-1) 3 0 198,
   cmdE 0 8 (-1) 3 0 326, cmdE 0 9 (-1) 3 0 582, cmdE 0 10 (-1) 3 0 1094, cmdE 0 24 (-1) 3 0 2118,
   cmdE 0 5 (-1) 3 1 70, cmdE 0 5 (-1) 3 1 102, cmdE 0 6 (-1) 3 1 134, cmdE 0 7 (-1) 3 1 198,
   cmdE 0 8 (-1) 3 1 326, cmdE 0 9 (-1) 3 1 582, cmdE 0 10 (-1) 3 1 1094, cmdE 0 24 (-1) 3 1 2118,
   cmdE 0 5 (-1) 3 2 70, cmdE 0 5 (-1) 3 2 102, cmdE 0 6 (-1) 3 2 134, cmdE 0 7 (-1) 3 2 198,
   cmdE 0 8 (-1) 3 2 326, cmdE 0 9 (-1) 3 2 582, cmdE 0 10 (-1) 3 2 1094, cmdE 0 24 (-1) 3 2 2118,
   cmdE 0 5 (-1) 3 3 70, cmdE 0 5 (-1) 3 3 102, cmdE 0 6 (-1) 3 3 134, cmdE 0 7 (-1) 3 3 198,
   cmdE 0 8 (-1) 3 3 326, cmdE 0 9 (-1) 3 3 582, cmdE 0 10 (-1) 3 3 1094, cmdE 0 24 (-1) 3 3 2118,
   cmdE 0 5 (-1) 3 4 70, cmdE 0 5 (-1) 3 4 102, cmdE 0 6 (-1) 3 4 134, cmdE 0 7 (-1) 3 4 198,
   cmdE 0 8 (-1) 3 4 326, cmdE 0 9 (-1) 3 4 582, cmdE 0 10 (-1) 3 4 1094, cmdE 0 24 (-1) 3 4 2118,
   cmdE 0 5 (-1) 3 5 70, cmdE 0 5 (-1) 3 5 102, cmdE 0 6 (-1) 3 5 134, cmdE 0 7 (-1) 3 5 198,
   cmdE 0 8 (-1) 3 5 326, cmdE 0 9 (-1) 3 5 582, cmdE 0 10 (-1) 3 5 1094, cmdE 0 24 (-1) 3 5 2118,
   cmdE 1 5 (-1) 3 6 70, cmdE 1 5 (-1) 3 6 102, cmdE 1 6 (-1) 3 6 134, cmdE 1 7 (-1) 3 6 198,
   cmdE 1 8 (-1) 3 6 326, cmdE 1 9 (-1) 3 6 582, cmdE 1 10 (-1) 3 6 1094, cmdE 1 24 (-1) 3 6 2118,
   cmdE 1 5 (-1) 3 8 70, cmdE 1 5 (-1) 3 8 102, cmdE 1 6 (-1) 3 8 134, cmdE 1 7 (-1) 3 8 198,
   cmdE 1 8 (-1) 3 8 326, cmdE 1 9 (-1) 3 8 582, cmdE 1 10 (-1) 3 8 1094, cmdE 1 24 (-1) 3 8 2118]"

definition CmdLut_7 :: "CmdLutElement list" where
  "CmdLut_7 = [
   cmdE 6 0 (-1) 0 130 2, cmdE 6 0 (-1) 1 130 3, cmdE 6 0 (-1) 2 130 4, cmdE 6 0 (-1) 3 130 5,
   cmdE 6 0 (-1) 3 130 6, cmdE 6 0 (-1) 3 130 7, cmdE 6 0 (-1) 3 130 8, cmdE 6 0 (-1) 3 130 9,
   cmdE 7 0 (-1) 0 194 2, cmdE 7 0 (-1) 1 194 3, cmdE 7 0 (-1) 2 194 4, cmdE 7 0 (-1) 3 194 5,
   cmdE 7 0 (-1) 3 194 6, cmdE 7 0 (-1) 3 194 7, cmdE 7 0 (-1) 3 194 8, cmdE 7 0 (-1) 3 194 9,
   cmdE 8 0 (-1) 0 322 2, cmdE 8 0 (-1) 1 322 3, cmdE 8 0 (-1) 2 322 4, cmdE 8 0 (-1) 3 322 5,
   cmdE 8 0 (-1) 3 322 6, cmdE 8 0 (-1) 3 322 7, cmdE 8 0 (-1) 3 322 8, cmdE 8 0 (-1) 3 322 9,
   cmdE 9 0 (-1) 0 578 2, cmdE 9 0 (-1) 1 578 3, cmdE 9 0 (-1) 2 578 4, cmdE 9 0 (-1) 3 578 5,
   cmdE 9 0 (-1) 3 578 6, cmdE 9 0 (-1) 3 578 7, cmdE 9 0 (-1) 3 578 8, cmdE 9 0 (-1) 3 578 9,
   cmdE 10 0 (-1) 0 1090 2, cmdE 10 0 (-1) 1 1090 3, cmdE 10 0 (-1) 2 1090 4, cmdE 10 0 (-1) 3 1090 5,
   cmdE 10 0 (-1) 3 1090 6, cmdE 10 0 (-1) 3 1090 7, cmdE 10 0 (-1) 3 1090 8, cmdE 10 0 (-1) 3 1090 9,
   cmdE 12 0 (-1) 0 2114 2, cmdE 12 0 (-1) 1 2114 3, cmdE 12 0 (-1) 2 2114 4, cmdE 12 0 (-1) 3 2114 5,
   cmdE 12 0 (-1) 3 2114 6, cmdE 12 0 (-1) 3 2114 7, cmdE 12 0 (-1) 3 2114 8, cmdE 12 0 (-1) 3 2114 9,
   cmdE 14 0 (-1) 0 6210 2, cmdE 14 0 (-1) 1 6210 3, cmdE 14 0 (-1) 2 6210 4, cmdE 14 0 (-1) 3 6210 5,
   cmdE 14 0 (-1) 3 6210 6, cmdE 14 0 (-1) 3 6210 7, cmdE 14 0 (-1) 3 6210 8, cmdE 14 0 (-1) 3 6210 9,
   cmdE 24 0 (-1) 0 22594 2, cmdE 24 0 (-1) 1 22594 3, cmdE 24 0 (-1) 2 22594 4, cmdE 24 0 (-1) 3 22594 5,
   cmdE 24 0 (-1) 3 22594 6, cmdE 24 0 (-1) 3 22594 7, cmdE 24 0 (-1) 3 22594 8, cmdE 24 0 (-1) 3 22594 9]"

definition CmdLut_8 :: "CmdLutElement list" where
  "CmdLut_8 = [
   cmdE 2 5 (-1) 3 10 70, cmdE 2 5 (-1) 3 10 102, cmdE 2 6 (-1) 3 10 134, cmdE 2 7 (-1) 3 10 198,
   cmdE 2 8 (-1) 3 10 326, cmdE 2 9 (-1) 3 10 582, cmdE 2 10 (-1) 3 10 1094, cmdE 2 24 (-1) 3 10 2118,
   cmdE 2 5 (-1) 3 14 70, cmdE 2 5 (-1) 3 14 102, cmdE 2 6 (-1) 3 14 134, cmdE 2 7 (-1) 3 14 198,
   cmdE 2 8 (-1) 3 14 326, cmdE 2 9 (-1) 3 14 582, cmdE 2 10 (-1) 3 14 1094, cmdE 2 24 (-1) 3 14 2118,
   cmdE 3 5 (-1) 3 18 70, cmdE 3 5 (-1) 3 18 102, cmdE 3 6 (-1) 3 18 134, cmdE 3 7 (-1) 3 18 198,
   cmdE 3 8 (-1) 3 18 326, cmdE 3 9 (-1) 3 18 582, cmdE 3 10 (-1) 3 18 1094, cmdE 3 24 (-1) 3 18 2118,
   cmdE 3 5 (-1) 3 26 70, cmdE 3 5 (-1) 3 26 102, cmdE 3 6 (-1) 3 26 134, cmdE 3 7 (-1) 3 26 198,
   cmdE 3 8 (-1) 3 26 326, cmdE 3 9 (-1) 3 26 582, cmdE 3 10 (-1) 3 26 1094, cmdE 3 24 (-1) 3 26 2118,
   cmdE 4 5 (-1) 3 34 70, cmdE 4 5 (-1) 3 34 102, cmdE 4 6 (-1) 3 34 134, cmdE 4 7 (-1) 3 34 198,
   cmdE 4 8 (-1) 3 34 326, cmdE 4 9 (-1) 3 34 582, cmdE 4 10 (-1) 3 34 1094, cmdE 4 24 (-1) 3 34 2118,
   cmdE 4 5 (-1) 3 50 70, cmdE 4 5 (-1) 3 50 102, cmdE 4 6 (-1) 3 50 134, cmdE 4 7 (-1) 3 50 198,
   cmdE 4 8 (-1) 3 50 326, cmdE 4 9 (-1) 3 50 582, cmdE 4 10 (-1) 3 50 1094, cmdE 4 24 (-1) 3 50 2118,
   cmdE 5 5 (-1) 3 66 70, cmdE 5 5 (-1) 3 66 102, cmdE 5 6 (-1) 3 66 134, cmdE 5 7 (-1) 3 66 198,
   cmdE 5 8 (-1) 3 66 326, cmdE 5 9 (-1) 3 66 582, cmdE 5 10 (-1) 3 66 1094, cmdE 5 24 (-1) 3 66 2118,
   cmdE 5 5 (-1) 3 98 70, cmdE 5 5 (-1) 3 98 102, cmdE 5 6 (-1) 3 98 134, cmdE 5 7 (-1) 3 98 198,
   cmdE 5 8 (-1) 3 98 326, cmdE 5 9 (-1) 3 98 582, cmdE 5 10 (-1) 3 98 1094, cmdE 5 24 (-1) 3 98 2118]"

definition CmdLut_9 :: "CmdLutElement list" where
  "CmdLut_9 = [
   cmdE 6 1 (-1) 3 130 10, cmdE 6 1 (-1) 3 130 12, cmdE 6 2 (-1) 3 130 14, cmdE 6 2 (-1) 3 130 18,
   cmdE 6 3 (-1) 3 130 22, cmdE 6 3 (-1) 3 130 30, cmdE 6 4 (-1) 3 130 38, cmdE 6 4 (-1) 3 130 54,
   cmdE 7 1 (-1) 3 194 10, cmdE 7 1 (-1) 3 194 12, cmdE 7 2 (-1) 3 194 14, cmdE 7 2 (-1) 3 194 18,
   cmdE 7 3 (-1) 3 194 22, cmdE 7 3 (-1) 3 194 30, cmdE 7 4 (-1) 3 194 38, cmdE 7 4 (-1) 3 194 54,
   cmdE 8 1 (-1) 3 322 10, cmdE 8 1 (-1) 3 322 12, cmdE 8 2 (-1) 3 322 14, cmdE 8 2 (-1) 3 322 18,
   cmdE 8 3 (-1) 3 322 22, cmdE 8 3 (-1) 3 322 30, cmdE 8 4 (-1) 3 322 38, cmdE 8 4 (-1) 3 322 54,
   cmdE 9 1 (-1) 3 578 10, cmdE 9 1 (-1) 3 578 12, cmdE 9 2 (-1) 3 578 14, cmdE 9 2 (-1) 3 578 18,
   cmdE 9 3 (-1) 3 578 22, cmdE 9 3 (-1) 3 578 30, cmdE 9 4 (-1) 3 578 38, cmdE 9 4 (-1) 3 578 54,
   cmdE 10 1 (-1) 3 1090 10, cmdE 10 1 (-1) 3 1090 12, cmdE 10 2 (-1) 3 1090 14, cmdE 10 2 (-1) 3 1090 18,
   cmdE 10 3 (-1) 3 1090 22, cmdE 10 3 (-1) 3 1090 30, cmdE 10 4 (-1) 3 1090 38, cmdE 10 4 (-1) 3 1090 54,
   cmdE 12 1 (-1) 3 2114 10, cmdE 12 1 (-1) 3 2114 12, cmdE 12 2 (-1) 3 2114 14, cmdE 12 2 (-1) 3 2114 18,
   cmdE 12 3 (-1) 3 2114 22, cmdE 12 3 (-1) 3 2114 30, cmdE 12 4 (-1) 3 2114 38, cmdE 12 4 (-1) 3 2114 54,
   cmdE 14 1 (-1) 3 6210 10, cmdE 14 1 (-1) 3 6210 12, cmdE 14 2 (-1) 3 6210 14, cmdE 14 2 (-1) 3 6210 18,
   cmdE 14 3 (-1) 3 6210 22, cmdE 14 3 (-1) 3 6210 30, cmdE 14 4 (-1) 3 6210 38, cmdE 14 4 (-1) 3 6210 54,
   cmdE 24 1 (-1) 3 22594 10, cmdE 24 1 (-1) 3 22594 12, cmdE 24 2 (-1) 3 22594 14, cmdE 24 2 (-1) 3 22594 18,
   cmdE 24 3 (-1) 3 22594 22, cmdE 24 3 (-1) 3 22594 30, cmdE 24 4 (-1) 3 22594 38, cmdE 24 4 (-1) 3 22594 54]"

definition CmdLut_10 :: "CmdLutElement list" where
  "CmdLut_10 = [
   cmdE 6 5 (-1) 3 130 70, cmdE 6 5 (-1) 3 130 102, cmdE 6 6 (-1) 3 130 134, cmdE 6 7 (-1) 3 130 198,
   cmdE 6 8 (-1) 3 130 326, cmdE 6 9 (-1) 3 130 582, cmdE 6 10 (-1) 3 130 1094, cmdE 6 24 (-1) 3 130 2118,
   cmdE 7 5 (-1) 3 194 70, cmdE 7 5 (-1) 3 194 102, cmdE 7 6 (-1) 3 194 134, cmdE 7 7 (-1) 3 194 198,
   cmdE 7 8 (-1) 3 194 326, cmdE 7 9 (-1) 3 194 582, cmdE 7 10 (-1) 3 194 1094, cmdE 7 24 (-1) 3 194 2118,
   cmdE 8 5 (-1) 3 322 70, cmdE 8 5 (-1) 3 322 102, cmdE 8 6 (-1) 3 322 134, cmdE 8 7 (-1) 3 322 198,
   cmdE 8 8 (-1) 3 322 326, cmdE 8 9 (-1) 3 322 582, cmdE 8 10 (-1) 3 322 1094, cmdE 8 24 (-1) 3 322 2118,
   cmdE 9 5 (-1) 3 578 70, cmdE 9 5 (-1) 3 578 102, cmdE 9 6 (-1) 3 578 134, cmdE 9 7 (-1) 3 578 198,
   cmdE 9 8 (-1) 3 578 326, cmdE 9 9 (-1) 3 578 582, cmdE 9 10 (-1) 3 578 1094, cmdE 9 24 (-1) 3 578 2118,
   cmdE 10 5 (-1) 3 1090 70, cmdE 10 5 (-1) 3 1090 102, cmdE 10 6 (-1) 3 1090 134, cmdE 10 7 (-1) 3 1090 198,
   cmdE 10 8 (-1) 3 1090 326, cmdE 10 9 (-1) 3 1090 582, cmdE 10 10 (-1) 3 1090 1094, cmdE 10 24 (-1) 3 1090 2118,
   cmdE 12 5 (-1) 3 2114 70, cmdE 12 5 (-1) 3 2114 102, cmdE 12 6 (-1) 3 2114 134, cmdE 12 7 (-1) 3 2114 198,
   cmdE 12 8 (-1) 3 2114 326, cmdE 12 9 (-1) 3 2114 582, cmdE 12 10 (-1) 3 2114 1094, cmdE 12 24 (-1) 3 2114 2118,
   cmdE 14 5 (-1) 3 6210 70, cmdE 14 5 (-1) 3 6210 102, cmdE 14 6 (-1) 3 6210 134, cmdE 14 7 (-1) 3 6210 198,
   cmdE 14 8 (-1) 3 6210 326, cmdE 14 9 (-1) 3 6210 582, cmdE 14 10 (-1) 3 6210 1094, cmdE 14 24 (-1) 3 6210 2118,
   cmdE 24 5 (-1) 3 22594 70, cmdE 24 5 (-1) 3 22594 102, cmdE 24 6 (-1) 3 22594 134, cmdE 24 7 (-1) 3 22594 198,
   cmdE 24 8 (-1) 3 22594 326, cmdE 24 9 (-1) 3 22594 582, cmdE 24 10 (-1) 3 22594 1094, cmdE 24 24 (-1) 3 22594 2118]"

definition CmdLut :: "CmdLutElement list" where
  "CmdLut = CmdLut_0 @ CmdLut_1 @ CmdLut_2 @ CmdLut_3 @ CmdLut_4 @ CmdLut_5 @ CmdLut_6 @ CmdLut_7 @ CmdLut_8 @
     CmdLut_9 @ CmdLut_10"


subsection \<open>The table of the RFC\<close>

text \<open>Insert and copy length codes: extra bits (\<^verbatim>\<open>insertExtra\<close> and \<^verbatim>\<open>copyExtra\<close> of \<^verbatim>\<open>internal/encoder/constants.go\<close>)
  and the offsets of RFC 7932 section 5.\<close>

definition insertExtra :: "nat list" where
  "insertExtra = [0, 0, 0, 0, 0, 0, 1, 1, 2, 2, 3, 3, 4, 4, 5, 5, 6, 7, 8, 9, 10, 12, 14, 24]"

definition copyExtra :: "nat list" where
  "copyExtra = [0, 0, 0, 0, 0, 0, 0, 0, 1, 1, 2, 2, 3, 3, 4, 4, 5, 5, 6, 7, 8, 9, 10, 24]"

definition insert_offset :: "nat list" where
  "insert_offset = [0, 1, 2, 3, 4, 5, 6, 8, 10, 14, 18, 26, 34, 50, 66, 98, 130, 194, 322, 578, 1090, 2114, 6210, 22594]"

definition copy_offset :: "nat list" where
  "copy_offset = [2, 3, 4, 5, 6, 7, 8, 9, 10, 12, 14, 18, 22, 30, 38, 54, 70, 102, 134, 198, 326, 582, 1094, 2118]"

text \<open>The entry for insert code \<open>i\<close> and copy code \<open>c\<close>; \<open>u\<close> says that the last distance is implied.\<close>

definition rfc_entry :: "bool \<Rightarrow> nat \<Rightarrow> nat \<Rightarrow> CmdLutElement" where
  "rfc_entry u i c = cmdE (insertExtra ! i) (copyExtra ! c) (if u then 0 else -1) (min c 3) (insert_offset ! i) (copy_offset ! c)"

text \<open>The cells in the order of the symbols: implied distance, insert codes from \<open>8 r\<close>, copy codes from \<open>8 k\<close>.\<close>

definition rfc_cells :: "(bool \<times> nat \<times> nat) list" where
  "rfc_cells = [(True, 0, 0), (True, 0, 1), (False, 0, 0), (False, 0, 1), (False, 1, 0), (False, 1, 1),
     (False, 0, 2), (False, 2, 0), (False, 1, 2), (False, 2, 1), (False, 2, 2)]"

definition rfc_cell :: "bool \<times> nat \<times> nat \<Rightarrow> CmdLutElement list" where
  "rfc_cell = (\<lambda>(u, r, k). map (\<lambda>j. rfc_entry u (8 * r + j div 8) (8 * k + j mod 8)) [0..<64])"

lemmas rfc_eval = cmdE_def rfc_cell_def rfc_entry_def upt_rec insertExtra_def copyExtra_def insert_offset_def copy_offset_def

lemma CmdLut_0_rfc: "CmdLut_0 = rfc_cell (True, 0, 0)"
  by (simp add: CmdLut_0_def rfc_eval)

lemma CmdLut_1_rfc: "CmdLut_1 = rfc_cell (True, 0, 1)"
  by (simp add: CmdLut_1_def rfc_eval)

lemma CmdLut_2_rfc: "CmdLut_2 = rfc_cell (False, 0, 0)"
  by (simp add: CmdLut_2_def rfc_eval)

lemma CmdLut_3_rfc: "CmdLut_3 = rfc_cell (False, 0, 1)"
  by (simp add: CmdLut_3_def rfc_eval)

lemma CmdLut_4_rfc: "CmdLut_4 = rfc_cell (False, 1, 0)"
  by (simp add: CmdLut_4_def rfc_eval)

lemma CmdLut_5_rfc: "CmdLut_5 = rfc_cell (False, 1, 1)"
  by (simp add: CmdLut_5_def rfc_eval)

lemma CmdLut_6_rfc: "CmdLut_6 = rfc_cell (False, 0, 2)"
  by (simp add: CmdLut_6_def rfc_eval)

lemma CmdLut_7_rfc: "CmdLut_7 = rfc_cell (False, 2, 0)"
  by (simp add: CmdLut_7_def rfc_eval)

lemma CmdLut_8_rfc: "CmdLut_8 = rfc_cell (False, 1, 2)"
  by (simp add: CmdLut_8_def rfc_eval)

lemma CmdLut_9_rfc: "CmdLut_9 = rfc_cell (False, 2, 1)"
  by (simp add: CmdLut_9_def rfc_eval)

lemma CmdLut_10_rfc: "CmdLut_10 = rfc_cell (False, 2, 2)"
  by (simp add: CmdLut_10_def rfc_eval)

lemma length_rfc_cell [simp]: "length (rfc_cell x) = 64"
  by (simp add: rfc_cell_def split: prod.splits)

lemma CmdLut_cells: "CmdLut = concat (map rfc_cell rfc_cells)"
  by (simp add: CmdLut_def rfc_cells_def CmdLut_0_rfc CmdLut_1_rfc CmdLut_2_rfc CmdLut_3_rfc CmdLut_4_rfc
      CmdLut_5_rfc CmdLut_6_rfc CmdLut_7_rfc CmdLut_8_rfc CmdLut_9_rfc CmdLut_10_rfc)

lemma nth_concat_uniform:
  assumes "\<forall>x \<in> set xs. length (f x) = n" and "q < length xs" and "r < n"
  shows "concat (map f xs) ! (n * q + r) = f (xs ! q) ! r"
  using assms
proof (induction xs arbitrary: q)
  case (Cons x xs)
  then show ?case by (cases q) (simp_all add: nth_append)
qed simp

lemma CmdLut_nth:
  assumes "q < 11" and "i < 8" and "c < 8" and "rfc_cells ! q = (u, r, k)"
  shows "CmdLut ! (64 * q + (8 * i + c)) = rfc_entry u (8 * r + i) (8 * k + c)"
proof -
  have "(8 * i + c) div 8 = i" "(8 * i + c) mod 8 = c" "8 * i + c < 64" using assms(2,3) by auto
  moreover have "length rfc_cells = 11" by (simp add: rfc_cells_def)
  moreover have "\<forall>x \<in> set rfc_cells. length (rfc_cell x) = 64" by simp
  ultimately have "CmdLut ! (64 * q + (8 * i + c)) = rfc_cell (rfc_cells ! q) ! (8 * i + c)"
    unfolding CmdLut_cells using assms(1) by (intro nth_concat_uniform) simp_all
  then show ?thesis using \<open>(8 * i + c) div 8 = i\<close> \<open>(8 * i + c) mod 8 = c\<close> \<open>8 * i + c < 64\<close> assms(4)
    by (simp add: rfc_cell_def)
qed

lemma length_CmdLut: "length CmdLut = 704"
  by (simp add: CmdLut_cells rfc_cells_def)

end
