(* ===== verification/Command_Codes.thy ===== *)
theory Command_Codes
  imports Cmd_Lut
begin

unbundle bit_operations_syntax

text \<open>
  Commands as the encoder stores them, \<^verbatim>\<open>internal/encoder/command.go\<close> and \<^verbatim>\<open>distance_params.go\<close>, and the block
  length codes of \<^verbatim>\<open>constants.go\<close>: the mapping of lengths and distances to prefix codes with extra bits.

  \<^verbatim>\<open>uint\<close> values are \<^typ>\<open>nat\<close>; \<open>u16\<close>, \<open>u32\<close> and the subtractions that can wrap write the reduction out. The
  locale \<open>code_ranges\<close> is the scheme \<^verbatim>\<open>coderange.go\<close> describes: consecutive ranges of power-of-two size. Its
  lemmas say that a value has exactly one code and that code and extra bits determine the value; it
  is interpreted for insert lengths, copy lengths and block lengths.
\<close>

subsection \<open>Lengths\<close>

definition to_u16 :: "nat \<Rightarrow> nat" where "to_u16 n = n mod 2 ^ 16"
definition to_u32 :: "nat \<Rightarrow> nat" where "to_u32 n = n mod 2 ^ 32"

definition getInsertLenCodeSlow :: "nat \<Rightarrow> nat" where
  "getInsertLenCodeSlow insertLen =
     (if insertLen < 6 then to_u16 insertLen
      else if insertLen < 130 then
        (let nbits = bits_Len (insertLen - 2) - 2 in to_u16 (2 * nbits + (insertLen - 2) div 2 ^ nbits + 2))
      else if insertLen < 2114 then to_u16 (bits_Len (insertLen - 66) + 9)
      else if insertLen < 6210 then 21
      else if insertLen < 22594 then 22
      else 23)"

text \<open>A copy length below 2 wraps in the first case.\<close>

definition getCopyLenCodeSlow :: "nat \<Rightarrow> nat" where
  "getCopyLenCodeSlow copyLen =
     (if copyLen < 10 then to_u16 (usub copyLen 2)
      else if copyLen < 134 then
        (let nbits = bits_Len (copyLen - 6) - 2 in to_u16 (2 * nbits + (copyLen - 6) div 2 ^ nbits + 4))
      else if copyLen < 2118 then to_u16 (bits_Len (copyLen - 70) + 11)
      else 23)"

definition insertLenCodeLUT :: "nat list" where
  "insertLenCodeLUT = map getInsertLenCodeSlow [0..<130]"

definition copyLenCodeLUT :: "nat list" where
  "copyLenCodeLUT = [0, 0] @ map getCopyLenCodeSlow [2..<134]"

definition getInsertLenCode :: "nat \<Rightarrow> nat" where
  "getInsertLenCode insertLen = (if insertLen < length insertLenCodeLUT then insertLenCodeLUT ! insertLen
     else getInsertLenCodeSlow insertLen)"

definition getCopyLenCode :: "nat \<Rightarrow> nat" where
  "getCopyLenCode copyLen = (if copyLen < length copyLenCodeLUT \<and> copyLen \<ge> 2 then copyLenCodeLUT ! copyLen
     else getCopyLenCodeSlow copyLen)"

definition combineLengthCodesBase :: "nat list list" where
  "combineLengthCodesBase = [[128, 192, 384], [256, 320, 512], [448, 576, 640]]"

text \<open>Codes above 23 index outside the grid, a panic.\<close>

definition combineLengthCodes :: "nat \<Rightarrow> nat \<Rightarrow> bool \<Rightarrow> nat option" where
  "combineLengthCodes insCode copyCode useLastDistance =
     (let bits64 = (copyCode AND 7) OR push_bit 3 (insCode AND 7) in
      if useLastDistance \<and> insCode < 8 \<and> copyCode < 16
      then Some (if copyCode < 8 then bits64 else bits64 OR 64)
      else do {
        row \<leftarrow> go_index combineLengthCodesBase (int (drop_bit 3 insCode));
        base \<leftarrow> go_index row (int (drop_bit 3 copyCode));
        Some (base OR bits64) })"

text \<open>The linear scan of \<^verbatim>\<open>getBlockLengthPrefixCode\<close>.\<close>

function block_scan :: "nat \<Rightarrow> nat \<Rightarrow> nat" where
  "block_scan len code = (if code < AlphabetSizeBlockCount - 1 \<and> len \<ge> BlockLengthOffset ! (code + 1)
     then block_scan len (code + 1) else code)"
  by pat_completeness auto
termination by (relation "measure (\<lambda>(len, code). AlphabetSizeBlockCount - code)") auto

declare block_scan.simps [simp del]

text \<open>\<^verbatim>\<open>extra\<close> is a \<^verbatim>\<open>uint32\<close> difference; a length of 0 wraps.\<close>

definition getBlockLengthPrefixCode :: "nat \<Rightarrow> nat \<times> nat \<times> nat" where
  "getBlockLengthPrefixCode len =
     (let code = block_scan len (if len \<ge> 753 then 20 else if len \<ge> 177 then 14 else if len \<ge> 41 then 7 else 0) in
      (code, BlockLengthNBits ! code, nat ((int len - int (BlockLengthOffset ! code)) mod 2 ^ 32)))"


subsection \<open>Distances\<close>

definition prefixEncodeCopyDistance :: "nat \<Rightarrow> nat \<Rightarrow> nat \<Rightarrow> nat \<times> nat" where
  "prefixEncodeCopyDistance distanceCode numDirectCodes postfixBits =
     (if distanceCode < NumDistanceShortCodes + numDirectCodes then (to_u16 distanceCode, 0)
      else let dist = uadd (2 ^ (postfixBits + 2)) (distanceCode - NumDistanceShortCodes - numDirectCodes);
               bucket = bits_Len dist - 2;
               postfix = dist mod 2 ^ postfixBits;
               prefix = (dist div 2 ^ bucket) mod 2;
               offset = (2 + prefix) * 2 ^ bucket;
               nbits = bucket - postfixBits in
        (to_u16 ((nbits * 2 ^ 10) OR
           (NumDistanceShortCodes + numDirectCodes + (2 * (nbits - 1) + prefix) * 2 ^ postfixBits + postfix)),
         to_u32 ((dist - offset) div 2 ^ postfixBits)))"

definition prefixEncodeSimpleDistance :: "nat \<Rightarrow> nat \<times> nat" where
  "prefixEncodeSimpleDistance distanceCode =
     (if distanceCode < NumDistanceShortCodes then (to_u16 distanceCode, 0)
      else let dist = uadd 4 (distanceCode - NumDistanceShortCodes);
               bucket = bits_Len dist - 2;
               prefix = (dist div 2 ^ bucket) mod 2;
               offset = (2 + prefix) * 2 ^ bucket in
        (to_u16 ((bucket * 2 ^ 10) OR (NumDistanceShortCodes + 2 * (bucket - 1) + prefix)), to_u32 (dist - offset)))"

definition computeDistanceCode :: "nat \<Rightarrow> nat \<Rightarrow> nat list \<Rightarrow> nat" where
  "computeDistanceCode distance maxDistance distCache =
     (let far = uadd distance (NumDistanceShortCodes - 1) in
      if distance \<le> maxDistance then
        (let dp3 = uadd distance 3; offset0 = usub dp3 (distCache ! 0); offset1 = usub dp3 (distCache ! 1) in
         if distance = distCache ! 0 then 0
         else if distance = distCache ! 1 then 1
         else if offset0 < 7 then drop_bit (4 * offset0) 0x9750468 AND 0xF
         else if offset1 < 7 then drop_bit (4 * offset1) 0xFDB1ACE AND 0xF
         else if distance = distCache ! 2 then 2
         else if distance = distCache ! 3 then 3
         else far)
      else far)"


subsection \<open>Commands\<close>

record commandConfig =
  cfg_insertLen :: nat
  cfg_copyLen :: nat
  cfg_copyLenDelta :: int
  cfg_distanceCode :: nat
  cfg_numDirectCodes :: nat
  cfg_postfixBits :: nat

record command =
  insertLen :: nat
  copyLen :: nat
  distExtra :: nat
  cmdPrefix :: nat
  distPrefix :: nat

text \<open>\<^verbatim>\<open>uint32(copyLen) | uint32(uint8(int8(delta))) << 25\<close>\<close>

definition packCopyLen :: "nat \<Rightarrow> int \<Rightarrow> nat" where
  "packCopyLen len delta = to_u32 len OR to_u32 (nat (delta mod 2 ^ 8) * 2 ^ 25)"

definition newCommand :: "commandConfig \<Rightarrow> command option" where
  "newCommand cfg =
     (let (dp, de) = prefixEncodeCopyDistance (cfg_distanceCode cfg) (cfg_numDirectCodes cfg) (cfg_postfixBits cfg);
          effectiveCopyLen = nat ((int (cfg_copyLen cfg) + cfg_copyLenDelta cfg) mod 2 ^ 64);
          insCode = getInsertLenCode (cfg_insertLen cfg);
          copyCode = getCopyLenCode effectiveCopyLen in do {
      cp \<leftarrow> combineLengthCodes insCode copyCode (dp AND 0x3FF = 0);
      Some \<lparr>insertLen = to_u32 (cfg_insertLen cfg), copyLen = packCopyLen (cfg_copyLen cfg) (cfg_copyLenDelta cfg),
            distExtra = de, cmdPrefix = cp, distPrefix = dp\<rparr> })"

text \<open>\<^verbatim>\<open>appendCommand\<close> and \<^verbatim>\<open>pushCommandSimpleDist\<close> work on the command list of the encoder state.\<close>

definition appendCommand :: "nat \<Rightarrow> nat \<Rightarrow> nat \<Rightarrow> nat \<Rightarrow> nat \<Rightarrow> command list \<Rightarrow> command list" where
  "appendCommand il cl de cp dp cmds = cmds @ [\<lparr>insertLen = il, copyLen = cl, distExtra = de, cmdPrefix = cp, distPrefix = dp\<rparr>]"

definition pushCommandSimpleDist :: "nat \<Rightarrow> nat \<Rightarrow> int \<Rightarrow> nat \<Rightarrow> command list \<Rightarrow> command list option" where
  "pushCommandSimpleDist il cl delta distanceCode cmds =
     (let (dp, de) = prefixEncodeSimpleDistance distanceCode;
          effectiveCopyLen = nat ((int cl + delta) mod 2 ^ 64);
          insCode = getInsertLenCode il;
          copyCode = getCopyLenCode effectiveCopyLen in do {
      cp \<leftarrow> combineLengthCodes insCode copyCode (dp AND 0x3FF = 0);
      Some (appendCommand (to_u32 il) (packCopyLen cl delta) de cp dp cmds) })"

definition newInsertCommand :: "nat \<Rightarrow> command option" where
  "newInsertCommand il =
     (let insCode = getInsertLenCode il; copyCode = getCopyLenCode 4 in do {
      cp \<leftarrow> combineLengthCodes insCode copyCode False;
      Some \<lparr>insertLen = to_u32 il, copyLen = 4 * 2 ^ 25, distExtra = 0, cmdPrefix = cp,
            distPrefix = NumDistanceShortCodes\<rparr> })"

definition usesLastDistance :: "command \<Rightarrow> bool" where
  "usesLastDistance c \<longleftrightarrow> cmdPrefix c < 128"

definition distanceContext :: "command \<Rightarrow> nat" where
  "distanceContext c = (let r = drop_bit 6 (cmdPrefix c); col = cmdPrefix c AND 7 in
     if (r = 0 \<or> r = 2 \<or> r = 4 \<or> r = 7) \<and> col \<le> 2 then col else 3)"

definition copyLength :: "command \<Rightarrow> nat" where
  "copyLength c = copyLen c AND 0x1FFFFFF"

definition distPrefixCode :: "command \<Rightarrow> nat" where
  "distPrefixCode c = distPrefix c AND 0x3FF"

text \<open>The high 7 bits of \<^verbatim>\<open>copyLen\<close> are a signed number: bit 6 is copied to bit 7 and the byte read as \<^verbatim>\<open>int8\<close>.\<close>

definition int8_of :: "nat \<Rightarrow> int" where
  "int8_of n = (if n mod 2 ^ 8 < 2 ^ 7 then int (n mod 2 ^ 8) else int (n mod 2 ^ 8) - 2 ^ 8)"

definition copyLenCode :: "command \<Rightarrow> nat" where
  "copyLenCode c = (let modifier = drop_bit 25 (copyLen c);
       delta = int8_of (modifier OR push_bit 1 (modifier AND 0x40)) in
     nat ((int (copyLen c AND 0x1FFFFFF) + delta) mod 2 ^ 32))"

definition command_distanceCode :: "nat \<Rightarrow> nat \<Rightarrow> command \<Rightarrow> nat" where
  "command_distanceCode numDirectCodes postfixBits c =
     (let dcode = distPrefix c AND 0x3FF in
      if dcode < NumDistanceShortCodes + numDirectCodes then dcode
      else let nbits = drop_bit 10 (distPrefix c);
               hcode = (dcode - numDirectCodes - NumDistanceShortCodes) div 2 ^ postfixBits;
               lcode = (dcode - numDirectCodes - NumDistanceShortCodes) mod 2 ^ postfixBits in
        nat ((((2 + int (hcode mod 2)) * 2 ^ nbits - 4 + int (distExtra c)) * 2 ^ postfixBits + int lcode +
               int numDirectCodes + int NumDistanceShortCodes) mod 2 ^ 32))"

record distanceParams =
  postfixBits :: nat
  numDirectCodes :: nat
  alphabetSizeMax :: nat
  alphabetSizeLimit :: nat
  maxDistance :: nat

definition distanceAlphabetSize :: "nat \<Rightarrow> nat \<Rightarrow> nat \<Rightarrow> nat" where
  "distanceAlphabetSize npostfix ndirect maxnbits =
     to_u32 (NumDistanceShortCodes + ndirect + maxnbits * 2 ^ (npostfix + 1))"

definition initDistanceParams :: "nat \<Rightarrow> nat \<Rightarrow> distanceParams" where
  "initDistanceParams npostfix ndirect =
     (let size1 = distanceAlphabetSize npostfix ndirect MaxDistanceBits in
      \<lparr>postfixBits = npostfix, numDirectCodes = ndirect, alphabetSizeMax = size1, alphabetSizeLimit = size1,
       maxDistance = nat ((int ndirect + 2 ^ (MaxDistanceBits + npostfix + 2) - 2 ^ (npostfix + 2)) mod 2 ^ 32)\<rparr>)"

definition recompute_one :: "distanceParams \<Rightarrow> distanceParams \<Rightarrow> command \<Rightarrow> command" where
  "recompute_one origParams newParams cmd =
     (if copyLength cmd \<noteq> 0 \<and> cmdPrefix cmd \<ge> 128 then
        (let dist = command_distanceCode (numDirectCodes origParams) (postfixBits origParams) cmd;
             (dp, de) = prefixEncodeCopyDistance dist (numDirectCodes newParams) (postfixBits newParams) in
         cmd\<lparr>distPrefix := dp, distExtra := de\<rparr>)
      else cmd)"

definition recomputeDistancePrefixes :: "command list \<Rightarrow> distanceParams \<Rightarrow> distanceParams \<Rightarrow> command list" where
  "recomputeDistancePrefixes cmds origParams newParams =
     (if postfixBits origParams = postfixBits newParams \<and> numDirectCodes origParams = numDirectCodes newParams
      then cmds else map (recompute_one origParams newParams) cmds)"


subsection \<open>Consecutive power-of-two ranges\<close>

text \<open>Range \<open>k\<close> starts at \<open>off ! k\<close> and has \<open>2 ^ (ext ! k)\<close> values, the extra bits say which.\<close>

definition in_range :: "nat list \<Rightarrow> nat list \<Rightarrow> nat \<Rightarrow> nat \<Rightarrow> bool" where
  "in_range off ext k v \<longleftrightarrow> k < length off \<and> off ! k \<le> v \<and> v < off ! k + 2 ^ (ext ! k)"

definition consecutive :: "nat list \<Rightarrow> nat list \<Rightarrow> bool" where
  "consecutive off ext \<longleftrightarrow> off \<noteq> [] \<and> (\<forall>k \<in> set [0..<length off - 1]. off ! Suc k = off ! k + 2 ^ (ext ! k))"

definition range_top :: "nat list \<Rightarrow> nat list \<Rightarrow> nat" where
  "range_top off ext = off ! (length off - 1) + 2 ^ (ext ! (length off - 1))"

locale code_ranges =
  fixes off ext :: "nat list" and code :: "nat \<Rightarrow> nat"
  assumes ranges: "consecutive off ext"
    and code_in: "in_range off ext k v \<Longrightarrow> code v = k"
begin

lemma next_range: "Suc k < length off \<Longrightarrow> off ! Suc k = off ! k + 2 ^ (ext ! k)"
  using ranges by (simp add: consecutive_def)

lemma covered: "m < length off \<Longrightarrow> off ! 0 \<le> v \<Longrightarrow> v < off ! m + 2 ^ (ext ! m) \<Longrightarrow> \<exists>k. in_range off ext k v"
proof (induction m)
  case (Suc m)
  show ?case
  proof (cases "v < off ! Suc m")
    case True
    then show ?thesis using Suc next_range [of m] by simp
  next
    case False
    then have "in_range off ext (Suc m) v" using Suc.prems by (simp add: in_range_def)
    then show ?thesis ..
  qed
qed (auto simp: in_range_def)

lemma code_range: "off ! 0 \<le> v \<Longrightarrow> v < range_top off ext \<Longrightarrow> in_range off ext (code v) v"
  using covered [of "length off - 1" v] code_in ranges by (auto simp: range_top_def consecutive_def)

lemma code_eq_iff:
  "off ! 0 \<le> v \<Longrightarrow> v < range_top off ext \<Longrightarrow> code v = k \<longleftrightarrow> in_range off ext k v"
  using code_range code_in by auto

text \<open>What the decoder adds up is what the encoder was given.\<close>

lemma encode_decode:
  assumes "off ! 0 \<le> v" and "v < range_top off ext"
  shows "code v < length off" and "v - off ! code v < 2 ^ (ext ! code v)" and "off ! code v + (v - off ! code v) = v"
  using code_range [OF assms] by (auto simp: in_range_def)

lemma decode_encode: "k < length off \<Longrightarrow> e < 2 ^ (ext ! k) \<Longrightarrow> code (off ! k + e) = k"
  by (rule code_in) (simp add: in_range_def)

end

lemma bits_Len_band:
  assumes "h = 2 \<or> h = 3" and "h * 2 ^ b \<le> n" and "n < Suc h * 2 ^ b"
  shows "bits_Len n = b + 2" and "n div 2 ^ b = h"
proof -
  have "2 ^ Suc b \<le> n" "n < 2 ^ Suc (Suc b)" using assms by auto
  then show "bits_Len n = b + 2" using bits_Len_eq_iff [of n "Suc b"] by (cases n) auto
  show "n div 2 ^ b = h" using assms(2,3) by (intro div_nat_eqI) (auto simp: algebra_simps)
qed

lemma insert_mid:
  assumes "h = 2 \<or> h = 3" and "2 + h * 2 ^ b \<le> v" and "v < 2 + Suc h * 2 ^ b" and "6 \<le> v" and "v < 130"
  shows "getInsertLenCodeSlow v = to_u16 (2 * b + h + 2)"
  using bits_Len_band [of h b "v - 2"] assms by (simp add: getInsertLenCodeSlow_def)

lemma copy_mid:
  assumes "h = 2 \<or> h = 3" and "6 + h * 2 ^ b \<le> v" and "v < 6 + Suc h * 2 ^ b" and "10 \<le> v" and "v < 134"
  shows "getCopyLenCodeSlow v = to_u16 (2 * b + h + 4)"
  using bits_Len_band [of h b "v - 6"] assms by (simp add: getCopyLenCodeSlow_def)

lemma insert_long:
  assumes "66 + 2 ^ b \<le> v" and "v < 66 + 2 * 2 ^ b" and "130 \<le> v" and "v < 2114"
  shows "getInsertLenCodeSlow v = to_u16 (b + 10)"
proof -
  have "bits_Len (v - 66) = Suc b" using bits_Len_eq_iff [of "v - 66" b] assms by auto
  then show ?thesis using assms(3,4) by (simp add: getInsertLenCodeSlow_def add.commute)
qed

lemma copy_long:
  assumes "70 + 2 ^ b \<le> v" and "v < 70 + 2 * 2 ^ b" and "134 \<le> v" and "v < 2118"
  shows "getCopyLenCodeSlow v = to_u16 (b + 12)"
proof -
  have "bits_Len (v - 70) = Suc b" using bits_Len_eq_iff [of "v - 70" b] assms by auto
  then show ?thesis using assms(3,4) by (simp add: getCopyLenCodeSlow_def add.commute)
qed

lemma less_24_cases: "k < 24 \<Longrightarrow> k \<in> {0,1,2,3,4,5,6,7,8,9,10,11,12,13,14,15,16,17,18,19,20,21,22,23::nat}"
  by (auto simp: eval_nat_numeral less_Suc_eq)

lemma less_26_cases: "k < 26 \<Longrightarrow> k \<in> {0,1,2,3,4,5,6,7,8,9,10,11,12,13,14,15,16,17,18,19,20,21,22,23,24,25::nat}"
  by (auto simp: eval_nat_numeral less_Suc_eq)

lemma getInsertLenCode_slow: "getInsertLenCode v = getInsertLenCodeSlow v"
  by (simp add: getInsertLenCode_def insertLenCodeLUT_def)

lemma getCopyLenCode_slow: "getCopyLenCode v = getCopyLenCodeSlow v"
proof (cases "2 \<le> v \<and> v < 134")
  case True
  then obtain w where "v = Suc (Suc w)" "w < 132" by (intro that [of "v - 2"]) auto
  then show ?thesis by (simp add: getCopyLenCode_def copyLenCodeLUT_def del: upt_rec_numeral)
next
  case False
  then show ?thesis by (auto simp: getCopyLenCode_def copyLenCodeLUT_def)
qed

lemma copy_short: "2 \<le> v \<Longrightarrow> v < 10 \<Longrightarrow> getCopyLenCodeSlow v = v - 2"
  by (simp add: getCopyLenCodeSlow_def to_u16_def)

lemma insert_code_in: "in_range insert_offset insertExtra c v \<Longrightarrow> getInsertLenCode v = c"
  unfolding getInsertLenCode_slow
proof -
  assume a: "in_range insert_offset insertExtra c v"
  then have c: "c < 24" by (simp add: in_range_def insert_offset_def)
  show "getInsertLenCodeSlow v = c"
    using less_24_cases [OF c] unfolding insert_iff empty_iff
    apply (elim disjE)
    using a insert_mid [of 2 1 v] insert_mid [of 3 1 v] insert_mid [of 2 2 v] insert_mid [of 3 2 v]
      insert_mid [of 2 3 v] insert_mid [of 3 3 v] insert_mid [of 2 4 v] insert_mid [of 3 4 v] insert_mid [of 2 5 v] insert_mid [of 3 5 v]
      insert_long [of 6 v] insert_long [of 7 v] insert_long [of 8 v] insert_long [of 9 v] insert_long [of 10 v]
    by (simp_all add: in_range_def insert_offset_def insertExtra_def to_u16_def getInsertLenCodeSlow_def)
qed

lemma copy_code_in: "in_range copy_offset copyExtra c v \<Longrightarrow> getCopyLenCode v = c"
  unfolding getCopyLenCode_slow
proof -
  assume a: "in_range copy_offset copyExtra c v"
  then have c: "c < 24" by (simp add: in_range_def copy_offset_def)
  show "getCopyLenCodeSlow v = c"
    using less_24_cases [OF c] unfolding insert_iff empty_iff
    apply (elim disjE)
    using a copy_mid [of 2 1 v] copy_mid [of 3 1 v] copy_mid [of 2 2 v] copy_mid [of 3 2 v]
      copy_mid [of 2 3 v] copy_mid [of 3 3 v] copy_mid [of 2 4 v] copy_mid [of 3 4 v] copy_mid [of 2 5 v] copy_mid [of 3 5 v]
      copy_short [of v] copy_long [of 6 v] copy_long [of 7 v] copy_long [of 8 v] copy_long [of 9 v] copy_long [of 10 v]
    by (simp_all add: in_range_def copy_offset_def copyExtra_def to_u16_def) (auto simp: getCopyLenCodeSlow_def)
qed

interpretation insert_len: code_ranges insert_offset insertExtra getInsertLenCode
  by unfold_locales (simp_all add: insert_code_in consecutive_def insert_offset_def insertExtra_def upt_rec)

interpretation copy_len: code_ranges copy_offset copyExtra getCopyLenCode
  by unfold_locales (simp_all add: copy_code_in consecutive_def copy_offset_def copyExtra_def upt_rec)


lemma block_ranges: "consecutive BlockLengthOffset BlockLengthNBits"
  by (simp add: consecutive_def BlockLengthOffset_def BlockLengthNBits_def upt_rec)

lemma length_BlockLengthOffset: "length BlockLengthOffset = 26"
  by (simp add: BlockLengthOffset_def)

lemma block_next: "Suc k < 26 \<Longrightarrow> BlockLengthOffset ! Suc k = BlockLengthOffset ! k + 2 ^ (BlockLengthNBits ! k)"
  using block_ranges by (auto simp: consecutive_def length_BlockLengthOffset simp del: upt_rec_numeral)

lemma block_mono: "j \<le> k \<Longrightarrow> k < 26 \<Longrightarrow> BlockLengthOffset ! j \<le> BlockLengthOffset ! k"
proof (induction k)
  case (Suc k)
  then show ?case using block_next [of k] by (cases "j = Suc k") auto
qed simp

lemma block_scan_finds:
  assumes "in_range BlockLengthOffset BlockLengthNBits k len" and "c \<le> k"
  shows "block_scan len c = k"
  using assms(2)
proof (induction "k - c" arbitrary: c)
  case 0
  then have "c = k" by simp
  then show ?case using assms(1) block_next [of k]
    by (subst block_scan.simps) (auto simp: in_range_def AlphabetSizeBlockCount_def)
next
  case (Suc n)
  then have "k < 26" "c < k" using assms(1) by (simp_all add: in_range_def BlockLengthOffset_def)
  then have "BlockLengthOffset ! (c + 1) \<le> len"
    using block_mono [of "c + 1" k] assms(1) by (simp add: in_range_def)
  then show ?case using Suc \<open>k < 26\<close> \<open>c < k\<close>
    by (subst block_scan.simps) (simp add: AlphabetSizeBlockCount_def)
qed

lemma block_start:
  assumes "in_range BlockLengthOffset BlockLengthNBits k len" and "BlockLengthOffset ! c \<le> len" and "c < 26"
  shows "c \<le> k"
proof (rule ccontr)
  assume "\<not> c \<le> k"
  then show False using block_mono [of "Suc k" c] block_next [of k] assms by (simp add: in_range_def)
qed

definition blockLengthCode :: "nat \<Rightarrow> nat" where
  "blockLengthCode len = fst (getBlockLengthPrefixCode len)"

lemma block_code_in:
  assumes "in_range BlockLengthOffset BlockLengthNBits k v"
  shows "blockLengthCode v = k"
  using block_start [OF assms, of 20] block_start [OF assms, of 14] block_start [OF assms, of 7]
  by (simp add: blockLengthCode_def getBlockLengthPrefixCode_def Let_def block_scan_finds [OF assms] BlockLengthOffset_def)

interpretation block_len: code_ranges BlockLengthOffset BlockLengthNBits blockLengthCode
  by unfold_locales (rule block_ranges, erule block_code_in)


subsection \<open>Insert-and-copy symbols\<close>

lemma code_split: "(c::nat) AND 7 = c mod 8" "drop_bit 3 c = c div 8"
  using take_bit_eq_mask [of 3 c] by (simp_all add: take_bit_eq_mod drop_bit_eq_div mask_eq_exp_minus_1)

definition cell_of :: "bool \<Rightarrow> nat \<Rightarrow> nat \<Rightarrow> nat" where
  "cell_of u r k = (if u then k else [[2, 3, 6], [4, 5, 8], [7, 9, 10]] ! r ! k)"

definition implied :: "bool \<Rightarrow> nat \<Rightarrow> nat \<Rightarrow> bool" where
  "implied useLast insCode copyCode \<longleftrightarrow> useLast \<and> insCode < 8 \<and> copyCode < 16"

lemma div8_cases: "c < 24 \<Longrightarrow> c div 8 \<in> {0, 1, 2::nat}"
  by auto

lemma grid_cell:
  assumes "r \<in> {0, 1, 2}" and "k \<in> {0, 1, 2}" and "x < 64"
  shows "do { row \<leftarrow> go_index combineLengthCodesBase (int r); base \<leftarrow> go_index row (int k); Some (base OR x) }
    = Some (64 * cell_of False r k + x)"
proof -
  have base: "(64 * q) OR x = 64 * q + x" for q using or_disjoint_add [of x 6 q] assms(3) by simp
  show ?thesis
    using assms(1,2) base [of 2] base [of 3] base [of 6] base [of 4] base [of 5] base [of 8] base [of 7] base [of 9] base [of 10]
    by (elim insertE emptyE) (simp_all add: cell_of_def go_index_def combineLengthCodesBase_def)
qed

lemma combineLengthCodes_cell:
  assumes "insCode < 24" and "copyCode < 24"
  shows "combineLengthCodes insCode copyCode useLast =
    Some (64 * cell_of (implied useLast insCode copyCode) (insCode div 8) (copyCode div 8) + (8 * (insCode mod 8) + copyCode mod 8))"
proof -
  let ?x = "8 * (insCode mod 8) + copyCode mod 8"
  have x: "(copyCode AND 7) OR push_bit 3 (insCode AND 7) = ?x"
    using or_disjoint_add [of "copyCode mod 8" 3 "insCode mod 8"]
    by (simp add: code_split push_bit_eq_mult or.commute mult.commute)
  have lt: "?x < 64" by linarith
  have base: "(64 * q) OR ?x = 64 * q + ?x" for q using or_disjoint_add [of ?x 6 q] lt by simp
  show ?thesis
  proof (cases "implied useLast insCode copyCode")
    case True
    then have "copyCode div 8 = (if copyCode < 8 then 0 else 1)" by (auto simp: implied_def)
    then show ?thesis using True base [of 1]
      unfolding combineLengthCodes_def x Let_def by (auto simp: cell_of_def implied_def or.commute)
  next
    case False
    then show ?thesis using grid_cell [OF div8_cases [OF assms(1)] div8_cases [OF assms(2)] lt]
      unfolding combineLengthCodes_def x Let_def unfolding code_split by (auto simp: implied_def)
  qed
qed

lemma cell_of_rfc:
  assumes "r \<in> {0, 1, 2}" and "k \<in> {0, 1, 2}" and "u \<longrightarrow> r = 0 \<and> k < 2"
  shows "cell_of u r k < 11" and "rfc_cells ! cell_of u r k = (u, r, k)"
  using assms by (auto simp: cell_of_def rfc_cells_def)

lemma combineLengthCodes_rfc:
  assumes "insCode < 24" and "copyCode < 24"
  obtains p where "combineLengthCodes insCode copyCode useLast = Some p" and "p < 704"
    and "CmdLut ! p = rfc_entry (implied useLast insCode copyCode) insCode copyCode"
    and "p < 128 \<longleftrightarrow> implied useLast insCode copyCode"
proof
  let ?u = "implied useLast insCode copyCode" and ?r = "insCode div 8" and ?k = "copyCode div 8"
  let ?x = "8 * (insCode mod 8) + copyCode mod 8"
  have u: "?u \<longrightarrow> ?r = 0 \<and> ?k < 2" by (auto simp: implied_def)
  note c = cell_of_rfc [OF div8_cases [OF assms(1)] div8_cases [OF assms(2)] u]
  show "combineLengthCodes insCode copyCode useLast = Some (64 * cell_of ?u ?r ?k + ?x)"
    using combineLengthCodes_cell [OF assms] .
  have lt: "?x < 64" by linarith
  show "64 * cell_of ?u ?r ?k + ?x < 704" using c(1) lt by linarith
  show "CmdLut ! (64 * cell_of ?u ?r ?k + ?x) = rfc_entry ?u insCode copyCode"
    using CmdLut_nth [OF c(1) _ _ c(2), of "insCode mod 8" "copyCode mod 8"] by simp
  have "cell_of ?u ?r ?k < 2 \<longleftrightarrow> ?u"
    using u div8_cases [OF assms(1)] div8_cases [OF assms(2)] by (auto simp: cell_of_def)
  then show "64 * cell_of ?u ?r ?k + ?x < 128 \<longleftrightarrow> ?u" using lt by linarith
qed

lemma copyLength_pack:
  assumes "cl < 2 ^ 25" and "- 64 \<le> d" and "d < 64"
  shows "packCopyLen cl d AND 0x1FFFFFF = cl" and "drop_bit 25 (packCopyLen cl d) = nat (d mod 128)"
proof -
  have "nat (d mod 256) mod 128 = nat (d mod 128)"
    using nat_mod_distrib [of "d mod 256" 128] mod_mod_cancel [of 128 256 d] by simp
  moreover have "(n * 2 ^ 25) mod 2 ^ 32 = 2 ^ 25 * (n mod 128)" for n :: nat
    using mult_mod_right [of "2 ^ 25" n 128] by (simp add: mult.commute)
  ultimately have m: "nat (d mod 2 ^ 8) * 2 ^ 25 mod 2 ^ 32 = 2 ^ 25 * nat (d mod 128)" by simp
  have p: "packCopyLen cl d = 2 ^ 25 * nat (d mod 128) + cl"
    using or_disjoint_add [OF assms(1), of "nat (d mod 128)"] assms(1) m
    by (simp add: packCopyLen_def to_u32_def or.commute)
  show "packCopyLen cl d AND 0x1FFFFFF = cl" using take_bit_eq_mask [of 25 "packCopyLen cl d"] assms(1)
    by (simp add: p take_bit_eq_mod mask_eq_exp_minus_1)
  show "drop_bit 25 (packCopyLen cl d) = nat (d mod 128)" using assms(1) by (simp add: p drop_bit_eq_div)
qed

lemma and_exp_small: "(m::nat) < 2 ^ n \<Longrightarrow> m AND 2 ^ n = 0"
  by (simp add: and_exp_eq_0_iff_not_bit bit_iff_odd)

lemma int8_roundtrip:
  assumes "- 64 \<le> d" and "d < 64"
  shows "int8_of (nat (d mod 128) OR push_bit 1 (nat (d mod 128) AND 0x40)) = d"
proof (cases "0 \<le> d")
  case True
  then have n: "nat (d mod 128) = nat d" "nat d < 64" using assms by auto
  then have "nat d AND 64 = 0" using and_exp_small [of "nat d" 6] by simp
  then show ?thesis using n True by (simp add: int8_of_def)
next
  case False
  obtain m where m: "d = int m - 64" "m < 64" using assms False that [of "nat (d + 64)"] by auto
  have "d mod 128 = d + 128" using assms False by (intro int_mod_pos_eq [where q = "-1"]) auto
  then have n: "nat (d mod 128) = 64 + m" using m by simp
  have "(64 OR m) AND 64 = 64 OR (m AND 64)" by (rule bit_eqI) (auto simp: bit_simps)
  moreover have "64 OR m = 64 + m" using or_disjoint_add [of m 6 1] m(2) by simp
  ultimately have "(64 + m) AND 64 = 64" using and_exp_small [of m 6] m(2) by simp
  moreover have "(64 + m) OR 128 = 192 + m" using or_disjoint_add [of "64 + m" 7 1] m(2) by (simp add: or.commute)
  ultimately show ?thesis unfolding n using m by (simp add: int8_of_def push_bit_eq_mult)
qed


text \<open>A distance code above the direct ones is \<open>16 + nd + ((2 + p) 2^nb - 4 + e) 2^pb + l\<close> for exactly the number of
  extra bits \<open>nb\<close>, the prefix bit \<open>p\<close>, the extra bits \<open>e\<close> and the postfix \<open>l\<close> that the encoder picks.\<close>

lemma distance_split:
  assumes "NumDistanceShortCodes + nd \<le> code" and "code + 2 ^ (pb + 2) < 2 ^ 64"
  obtains nb p e l where "1 \<le> nb" "p < 2" "e < 2 ^ nb" "l < 2 ^ pb"
    and "code + 2 ^ (pb + 2) = NumDistanceShortCodes + nd + ((2 + p) * 2 ^ nb + e) * 2 ^ pb + l"
    and "prefixEncodeCopyDistance code nd pb =
      (to_u16 ((nb * 2 ^ 10) OR (NumDistanceShortCodes + nd + (2 * (nb - 1) + p) * 2 ^ pb + l)), to_u32 e)"
proof -
  define dist where "dist = 2 ^ (pb + 2) + (code - NumDistanceShortCodes - nd)"
  define bucket where "bucket = bits_Len dist - 2"
  define p where "p = (dist div 2 ^ bucket) mod 2"
  have "pb + 2 < bits_Len dist" using less_bits_Len_iff [of "pb + 2" dist] by (simp add: dist_def)
  then have b: "pb + 1 \<le> bucket" "bits_Len dist = Suc (Suc bucket)" by (auto simp: bucket_def)
  have lo: "2 * 2 ^ bucket \<le> dist" and hi: "dist < 4 * 2 ^ bucket"
    using bits_Len_split [of dist] b(2) by (auto simp: dist_def)
  have q: "dist div 2 ^ bucket \<in> {2, 3}"
  proof -
    have "2 \<le> dist div 2 ^ bucket" using lo by (simp add: less_eq_div_iff_mult_less_eq)
    moreover have "dist div 2 ^ bucket < 4" using hi by (simp add: less_mult_imp_div_less)
    ultimately show ?thesis by auto
  qed
  then have q': "dist div 2 ^ bucket = 2 + p" and p2: "p < 2" by (auto simp: p_def)
  define r where "r = dist mod 2 ^ bucket"
  have d: "dist = (2 + p) * 2 ^ bucket + r" and r: "r < 2 ^ bucket"
    using div_mult_mod_eq [of dist "2 ^ bucket"] by (auto simp: q' r_def)
  define nb where "nb = bucket - pb"
  have bk: "2 ^ bucket = 2 ^ nb * (2::nat) ^ pb" using b(1) by (simp add: nb_def flip: power_add)
  define e l where "e = r div 2 ^ pb" and "l = r mod 2 ^ pb"
  have re: "r = e * 2 ^ pb + l" unfolding e_def l_def by (rule div_mult_mod_eq [symmetric])
  have l: "l < 2 ^ pb" by (simp add: l_def)
  have e: "e < 2 ^ nb" using r by (simp add: e_def bk less_mult_imp_div_less)
  have "dist = ((2 + p) * 2 ^ nb) * 2 ^ pb + r" using d by (simp only: bk mult.assoc)
  then have dl: "dist mod 2 ^ pb = l" by (simp only: l_def mod_mult_self3)
  have de: "(dist - (2 + p) * 2 ^ bucket) div 2 ^ pb = e" by (simp add: d e_def)
  have u: "uadd (2 ^ (pb + 2)) (code - NumDistanceShortCodes - nd) = dist"
    using assms by (simp add: uadd_def dist_def)
  show thesis
  proof (rule that [of nb p e l])
    show "code + 2 ^ (pb + 2) = NumDistanceShortCodes + nd + ((2 + p) * 2 ^ nb + e) * 2 ^ pb + l"
      using assms(1) d re bk by (simp add: dist_def algebra_simps)
    show "prefixEncodeCopyDistance code nd pb =
      (to_u16 ((nb * 2 ^ 10) OR (NumDistanceShortCodes + nd + (2 * (nb - 1) + p) * 2 ^ pb + l)), to_u32 e)"
      using assms(1)
      unfolding prefixEncodeCopyDistance_def Let_def u bucket_def [symmetric] p_def [symmetric] nb_def [symmetric] dl de
      by simp
  qed (use b p2 e l in \<open>auto simp: nb_def\<close>)
qed

text \<open>The decoder's bound on distances leaves at most \<open>MaxDistanceBits\<close> extra bits.\<close>

lemma distance_nbits:
  assumes "1 \<le> nb" and "code + 2 ^ (pb + 2) = NumDistanceShortCodes + nd + ((2 + p) * 2 ^ nb + e) * 2 ^ pb + l"
    and "code + 2 ^ (pb + 2) < NumDistanceShortCodes + nd + 2 ^ (MaxDistanceBits + 2) * 2 ^ pb"
  shows "nb \<le> MaxDistanceBits"
proof (rule ccontr)
  assume "\<not> nb \<le> MaxDistanceBits"
  then have "(2::nat) ^ (MaxDistanceBits + 1) \<le> 2 ^ nb" by (intro power_increasing) auto
  then have "2 ^ (MaxDistanceBits + 2) * 2 ^ pb \<le> ((2 + p) * 2 ^ nb + e) * 2 ^ pb"
    by (intro mult_right_mono) (auto simp: algebra_simps)
  then show False using assms(2,3) by linarith
qed

definition distance_params_ok :: "nat \<Rightarrow> nat \<Rightarrow> bool" where
  "distance_params_ok nd pb \<longleftrightarrow> pb \<le> 3 \<and> nd \<le> 15 * 2 ^ pb"

definition distance_code_ok :: "nat \<Rightarrow> nat \<Rightarrow> nat \<Rightarrow> bool" where
  "distance_code_ok nd pb code \<longleftrightarrow>
     code + 2 ^ (pb + 2) < NumDistanceShortCodes + nd + 2 ^ (MaxDistanceBits + 2) * 2 ^ pb"

lemma dist_symbol_bound:
  assumes "distance_params_ok nd pb" and "p < 2" and "l < 2 ^ pb" and "1 \<le> nb" and "nb \<le> MaxDistanceBits"
  shows "NumDistanceShortCodes + nd + (2 * (nb - 1) + p) * 2 ^ pb + l < 2 ^ 10"
proof -
  have "2 * (nb - 1) + p \<le> 47" using assms(2,5) by (simp add: MaxDistanceBits_def)
  then have "(2 * (nb - 1) + p) * 2 ^ pb \<le> 47 * 2 ^ pb" by (rule mult_right_mono) simp
  moreover have "(2::nat) ^ pb \<le> 8" "nd \<le> 15 * 2 ^ pb"
    using assms(1) power_increasing [of pb 3 "2::nat"] by (simp_all add: distance_params_ok_def)
  moreover have "(2::nat) ^ 10 = 1024" by simp
  ultimately show ?thesis using assms(3) unfolding NumDistanceShortCodes_def by linarith
qed

lemma prefix_fields:
  assumes "s < 2 ^ 10" and "nb \<le> MaxDistanceBits"
  shows "to_u16 ((nb * 2 ^ 10) OR s) AND 0x3FF = s" and "drop_bit 10 (to_u16 ((nb * 2 ^ 10) OR s)) = nb"
proof -
  have v: "to_u16 ((nb * 2 ^ 10) OR s) = 2 ^ 10 * nb + s"
    using or_disjoint_add [OF assms(1), of nb] assms by (simp add: to_u16_def MaxDistanceBits_def mult.commute)
  show "to_u16 ((nb * 2 ^ 10) OR s) AND 0x3FF = s"
    unfolding v using take_bit_eq_mask [of 10 "2 ^ 10 * nb + s"] assms(1)
    by (simp add: take_bit_eq_mod mask_eq_exp_minus_1)
  show "drop_bit 10 (to_u16 ((nb * 2 ^ 10) OR s)) = nb" unfolding v drop_bit_eq_div using assms(1) by simp
qed

lemma small_and_mask: "(x::nat) < 2 ^ 10 \<Longrightarrow> to_u16 x AND 0x3FF = x"
  using take_bit_eq_mask [of 10 "to_u16 x"] by (simp add: to_u16_def take_bit_eq_mod mask_eq_exp_minus_1)

lemma distance_roundtrip:
  assumes ok: "distance_params_ok nd pb" and code: "distance_code_ok nd pb code"
    and c: "(distPrefix c, distExtra c) = prefixEncodeCopyDistance code nd pb"
  shows "command_distanceCode nd pb c = code"
proof (cases "code < NumDistanceShortCodes + nd")
  case True
  have "nd \<le> 120" using ok power_increasing [of pb 3 "2::nat"] by (simp add: distance_params_ok_def)
  then show ?thesis using True c small_and_mask [of code]
    by (simp add: prefixEncodeCopyDistance_def command_distanceCode_def NumDistanceShortCodes_def)
next
  case False
  have "(2::nat) ^ pb \<le> 2 ^ 3" using ok unfolding distance_params_ok_def by (intro power_increasing) auto
  then have big: "code + 2 ^ (pb + 2) < 2 ^ 32" using code ok
    by (simp add: distance_code_ok_def distance_params_ok_def NumDistanceShortCodes_def MaxDistanceBits_def)
  then have no_wrap: "code + 2 ^ (pb + 2) < 2 ^ 64" by simp
  obtain nb p e l where n: "1 \<le> nb" "p < 2" "e < 2 ^ nb" "l < 2 ^ pb"
    and sum: "code + 2 ^ (pb + 2) = NumDistanceShortCodes + nd + ((2 + p) * 2 ^ nb + e) * 2 ^ pb + l"
    and enc: "prefixEncodeCopyDistance code nd pb =
      (to_u16 ((nb * 2 ^ 10) OR (NumDistanceShortCodes + nd + (2 * (nb - 1) + p) * 2 ^ pb + l)), to_u32 e)"
    using distance_split [of nd code pb] False no_wrap by (metis not_le)
  have nb: "nb \<le> MaxDistanceBits" using distance_nbits [OF n(1) sum] code by (simp add: distance_code_ok_def)
  note f = prefix_fields [OF dist_symbol_bound [OF ok n(2,4,1) nb] nb]
  have "e < 2 ^ 32" using n(3) nb power_increasing [of nb 24 "2::nat"] by (simp add: MaxDistanceBits_def)
  then have c': "distPrefix c AND 0x3FF = NumDistanceShortCodes + nd + (2 * (nb - 1) + p) * 2 ^ pb + l"
    "drop_bit 10 (distPrefix c) = nb" "distExtra c = e" using c f by (simp_all add: enc to_u32_def)
  define hc where "hc = 2 * (nb - 1) + p"
  have h: "(hc * 2 ^ pb + l) div 2 ^ pb = hc" "(hc * 2 ^ pb + l) mod 2 ^ pb = l" using n(4) by simp_all
  have p: "hc mod 2 = p" using n(2) by (simp add: hc_def)
  have s: "NumDistanceShortCodes + nd + hc * 2 ^ pb + l - nd - NumDistanceShortCodes = hc * 2 ^ pb + l" by simp
  have "((2 + int p) * 2 ^ nb - 4 + int e) * 2 ^ pb + int l + int nd + int NumDistanceShortCodes = int code"
    using arg_cong [OF sum, of int] by (simp add: algebra_simps)
  then show ?thesis using big unfolding command_distanceCode_def c' Let_def hc_def [symmetric] s h p by simp
qed

lemma simple_is_general: "prefixEncodeSimpleDistance code = prefixEncodeCopyDistance code 0 0"
  by (simp add: prefixEncodeSimpleDistance_def prefixEncodeCopyDistance_def Let_def add.assoc)

lemma initDistanceParams_sel: "postfixBits (initDistanceParams a b) = a" "numDirectCodes (initDistanceParams a b) = b"
  by (simp_all add: initDistanceParams_def Let_def)

lemma recompute_one_distance:
  assumes "distance_params_ok (numDirectCodes p) (postfixBits p)" and "distance_params_ok (numDirectCodes q) (postfixBits q)"
    and "distance_code_ok (numDirectCodes q) (postfixBits q) (command_distanceCode (numDirectCodes p) (postfixBits p) c)"
    and "copyLength c \<noteq> 0" and "128 \<le> cmdPrefix c"
  shows "command_distanceCode (numDirectCodes q) (postfixBits q) (recompute_one p q c) =
    command_distanceCode (numDirectCodes p) (postfixBits p) c"
  using assms(4,5) by (intro distance_roundtrip [OF assms(2,3)])
    (simp add: recompute_one_def Let_def split: prod.splits)

text \<open>C24. The prefix code of a distance loses nothing: decoding symbol and extra bits with the parameters
  they were made with gives the distance code back, for all parameters the format allows and all
  distances it can express; the special case without parameters is the general routine at zero.\<close>

theorem distance_prefix_roundtrip:
  assumes "distance_params_ok nd pb" and "distance_code_ok nd pb code"
  shows "command_distanceCode nd pb \<lparr>insertLen = il, copyLen = cl, distExtra = snd (prefixEncodeCopyDistance code nd pb),
           cmdPrefix = cp, distPrefix = fst (prefixEncodeCopyDistance code nd pb)\<rparr> = code \<and>
         prefixEncodeSimpleDistance code = prefixEncodeCopyDistance code 0 0"
  by (simp add: distance_roundtrip [OF assms] simple_is_general)

theorem distance_prefix_roundtrip_witness:
  "distance_params_ok 12 2 \<and> distance_code_ok 12 2 5000 \<and>
   command_distanceCode 12 2 \<lparr>insertLen = 0, copyLen = 4, distExtra = snd (prefixEncodeCopyDistance 5000 12 2),
           cmdPrefix = 130, distPrefix = fst (prefixEncodeCopyDistance 5000 12 2)\<rparr> = 5000"
proof -
  have "distance_params_ok 12 2" "distance_code_ok 12 2 5000"
    by (simp_all add: distance_params_ok_def distance_code_ok_def NumDistanceShortCodes_def MaxDistanceBits_def)
  then show ?thesis using distance_prefix_roundtrip [of 12 2 5000 0 4 130] by simp
qed

definition carries_distance :: "command \<Rightarrow> bool" where
  "carries_distance c \<longleftrightarrow> copyLength c \<noteq> 0 \<and> \<not> usesLastDistance c"

text \<open>C25. Changing the distance parameters of a metablock keeps what every command means. There are as many commands as
  before. A command that writes a distance, one that copies and does not use the last distance, has with the new parameters
  the distance code it had with the old ones, and its lengths and its symbol stay.
  Every other command stays as it is, its distance fields included.\<close>

theorem recomputeDistancePrefixes_keeps:
  assumes "distance_params_ok (numDirectCodes p) (postfixBits p)" and "distance_params_ok (numDirectCodes q) (postfixBits q)"
    and "\<forall>c \<in> set cmds. carries_distance c \<longrightarrow>
      distance_code_ok (numDirectCodes q) (postfixBits q) (command_distanceCode (numDirectCodes p) (postfixBits p) c)"
  shows "length (recomputeDistancePrefixes cmds p q) = length cmds \<and>
    (\<forall>i < length cmds. let c = cmds ! i; c' = recomputeDistancePrefixes cmds p q ! i in
       if carries_distance c
       then command_distanceCode (numDirectCodes q) (postfixBits q) c' = command_distanceCode (numDirectCodes p) (postfixBits p) c \<and>
         (insertLen c', copyLen c', cmdPrefix c') = (insertLen c, copyLen c, cmdPrefix c)
       else c' = c)"
proof (cases "postfixBits p = postfixBits q \<and> numDirectCodes p = numDirectCodes q")
  case True
  then show ?thesis by (simp add: recomputeDistancePrefixes_def Let_def)
next
  case False
  then have r: "recomputeDistancePrefixes cmds p q = map (recompute_one p q) cmds" by (auto simp: recomputeDistancePrefixes_def)
  have "if carries_distance c
      then command_distanceCode (numDirectCodes q) (postfixBits q) (recompute_one p q c) = command_distanceCode (numDirectCodes p) (postfixBits p) c \<and>
         (insertLen (recompute_one p q c), copyLen (recompute_one p q c), cmdPrefix (recompute_one p q c)) = (insertLen c, copyLen c, cmdPrefix c)
      else recompute_one p q c = c" if "c \<in> set cmds" for c
    using assms(3) that recompute_one_distance [OF assms(1,2), of c]
    by (auto simp: carries_distance_def usesLastDistance_def recompute_one_def split: prod.splits)
  then show ?thesis unfolding r by (simp add: Let_def)
qed

text \<open>A command with a distance, one without a copy and one that uses the last distance.\<close>

theorem recomputeDistancePrefixes_keeps_witness:
  "\<exists>a b c. recomputeDistancePrefixes [\<lparr>insertLen = 3, copyLen = 5, distExtra = 1, cmdPrefix = 200, distPrefix = 1040\<rparr>,
      \<lparr>insertLen = 7, copyLen = 0, distExtra = 0, cmdPrefix = 200, distPrefix = 1040\<rparr>,
      \<lparr>insertLen = 1, copyLen = 4, distExtra = 0, cmdPrefix = 10, distPrefix = 0\<rparr>] (initDistanceParams 0 0) (initDistanceParams 1 4) = [a, b, c] \<and>
    command_distanceCode 4 1 a = 17 \<and> copyLen a = 5 \<and> distPrefix b = 1040 \<and> distPrefix c = 0"
proof -
  let ?a = "\<lparr>insertLen = 3, copyLen = 5, distExtra = 1, cmdPrefix = 200, distPrefix = 1040\<rparr>"
  let ?b = "\<lparr>insertLen = 7, copyLen = 0, distExtra = 0, cmdPrefix = 200, distPrefix = 1040\<rparr>"
  let ?c = "\<lparr>insertLen = 1, copyLen = 4, distExtra = 0, cmdPrefix = 10, distPrefix = 0\<rparr>"
  let ?r = "recomputeDistancePrefixes [?a, ?b, ?c] (initDistanceParams 0 0) (initDistanceParams 1 4)"
  have d: "command_distanceCode 0 0 ?a = 17"
    by (simp add: command_distanceCode_def NumDistanceShortCodes_def drop_bit_eq_div)
  have cd: "carries_distance ?a" "\<not> carries_distance ?b" "\<not> carries_distance ?c"
    by (simp_all add: carries_distance_def copyLength_def usesLastDistance_def)
  have ok: "distance_params_ok 0 0" "distance_params_ok 4 1" "\<forall>c \<in> set [?a, ?b, ?c]. carries_distance c \<longrightarrow>
      distance_code_ok 4 1 (command_distanceCode 0 0 c)"
    using cd d by (simp_all add: distance_params_ok_def distance_code_ok_def NumDistanceShortCodes_def MaxDistanceBits_def)
  note k = recomputeDistancePrefixes_keeps [of "initDistanceParams 0 0" "initDistanceParams 1 4" "[?a, ?b, ?c]",
    unfolded initDistanceParams_sel, OF ok, unfolded Let_def]
  have "length ?r = Suc (Suc (Suc 0))" using k by simp
  then obtain a b c where r: "?r = [a, b, c]" unfolding length_Suc_conv length_0_conv by blast
  have "command_distanceCode 4 1 a = 17 \<and> copyLen a = 5" using k [THEN conjunct2, rule_format, of 0] cd(1) d unfolding r by simp
  moreover have "b = ?b" using k [THEN conjunct2, rule_format, of 1] cd(2) unfolding r by simp
  moreover have "c = ?c" using k [THEN conjunct2, rule_format, of 2] cd(3) unfolding r by simp
  ultimately show ?thesis using r by simp
qed

subsection \<open>Commands\<close>

lemma distanceContext_cell:
  assumes "insCode < 24" and "copyCode < 24" and "combineLengthCodes insCode copyCode useLast = Some (cmdPrefix c)"
  shows "distanceContext c = min copyCode 3"
proof -
  let ?u = "implied useLast insCode copyCode" and ?r = "insCode div 8" and ?k = "copyCode div 8"
  define q where "q = cell_of ?u ?r ?k"
  define x where "x = 8 * (insCode mod 8) + copyCode mod 8"
  have x: "x < 64" "x mod 8 = copyCode mod 8" unfolding x_def by (linarith, simp)
  have p: "cmdPrefix c = 64 * q + x" using combineLengthCodes_cell [OF assms(1,2), of useLast] assms(3)
    by (simp add: q_def x_def)
  have "64 * q + x = 8 * (8 * q) + x" by simp
  then have "(64 * q + x) mod 8 = copyCode mod 8" using x(2) by (metis mod_mult_self4)
  then have col: "cmdPrefix c AND 7 = copyCode mod 8" by (simp only: p code_split)
  have row: "drop_bit 6 (cmdPrefix c) = q" using x(1) by (simp add: p drop_bit_eq_div)
  have "(q = 0 \<or> q = 2 \<or> q = 4 \<or> q = 7) \<longleftrightarrow> ?k = 0"
    using div8_cases [OF assms(1)] div8_cases [OF assms(2)] by (auto simp: q_def cell_of_def implied_def)
  moreover have "?k = 0 \<Longrightarrow> copyCode mod 8 = copyCode" "?k \<noteq> 0 \<Longrightarrow> 8 \<le> copyCode" by auto
  ultimately show ?thesis unfolding distanceContext_def col row Let_def by auto
qed

text \<open>What the decoder's table says of a command symbol: the ranges the insert and the copy length fall in, the
  distance context, and whether the last distance is implied.\<close>

definition command_symbol_ok :: "command \<Rightarrow> bool" where
  "command_symbol_ok c \<longleftrightarrow> cmdPrefix c < length CmdLut \<and>
     (let e = CmdLut ! cmdPrefix c in
       InsertLenOffset e \<le> insertLen c \<and> insertLen c - InsertLenOffset e < 2 ^ InsertLenExtraBits e \<and>
       CopyLenOffset e \<le> copyLenCode c \<and> copyLenCode c - CopyLenOffset e < 2 ^ CopyLenExtraBits e \<and>
       Context e = distanceContext c \<and>
       DistanceCode e = (if usesLastDistance c then 0 else -1) \<and>
       (usesLastDistance c \<longrightarrow> distPrefixCode c = 0))"

definition insert_len_ok :: "nat \<Rightarrow> bool" where
  "insert_len_ok n \<longleftrightarrow> n < 22594 + 2 ^ 24"

definition copy_len_ok :: "nat \<Rightarrow> int \<Rightarrow> bool" where
  "copy_len_ok cl d \<longleftrightarrow> cl < 2 ^ 25 \<and> - 64 \<le> d \<and> d < 64 \<and> 2 \<le> int cl + d \<and> int cl + d < 2118 + 2 ^ 24"

lemma insert_top: "range_top insert_offset insertExtra = 22594 + 2 ^ 24" "insert_offset ! 0 = 0" "length insert_offset = 24"
  by (simp_all add: range_top_def insert_offset_def insertExtra_def)

lemma copy_top: "range_top copy_offset copyExtra = 2118 + 2 ^ 24" "copy_offset ! 0 = 2" "length copy_offset = 24"
  by (simp_all add: range_top_def copy_offset_def copyExtra_def)

lemma rfc_entry_sel:
  "InsertLenExtraBits (rfc_entry u i c) = insertExtra ! i" "CopyLenExtraBits (rfc_entry u i c) = copyExtra ! c"
  "DistanceCode (rfc_entry u i c) = (if u then 0 else -1)" "Context (rfc_entry u i c) = min c 3"
  "InsertLenOffset (rfc_entry u i c) = insert_offset ! i" "CopyLenOffset (rfc_entry u i c) = copy_offset ! c"
  by (simp_all add: rfc_entry_def cmdE_def)

lemma symbol_ok:
  assumes "insert_len_ok (insertLen c)" and "2 \<le> copyLenCode c" and "copyLenCode c < 2118 + 2 ^ 24"
    and "combineLengthCodes (getInsertLenCode (insertLen c)) (getCopyLenCode (copyLenCode c)) u = Some (cmdPrefix c)"
    and "u \<longrightarrow> distPrefixCode c = 0"
  shows "command_symbol_ok c"
proof -
  let ?i = "getInsertLenCode (insertLen c)" and ?k = "getCopyLenCode (copyLenCode c)"
  have i: "in_range insert_offset insertExtra ?i (insertLen c)"
    using assms(1) by (intro insert_len.code_range) (simp_all add: insert_top insert_len_ok_def)
  have k: "in_range copy_offset copyExtra ?k (copyLenCode c)"
    using assms(2,3) by (intro copy_len.code_range) (simp_all add: copy_top)
  have lt: "?i < 24" "?k < 24" using i k by (simp_all add: in_range_def insert_top copy_top)
  obtain p where p: "combineLengthCodes ?i ?k u = Some p" "p < 704" "CmdLut ! p = rfc_entry (implied u ?i ?k) ?i ?k"
    "p < 128 \<longleftrightarrow> implied u ?i ?k" by (rule combineLengthCodes_rfc [OF lt, of u])
  have "cmdPrefix c = p" using p(1) assms(4) by simp
  then show ?thesis using p distanceContext_cell [OF lt assms(4)] i k assms(5)
    by (auto simp: command_symbol_ok_def length_CmdLut rfc_entry_sel usesLastDistance_def in_range_def implied_def)
qed

lemma pack_lengths:
  assumes "copy_len_ok cl d" and "copyLen c = packCopyLen cl d"
  shows "copyLength c = cl" and "int (copyLenCode c) = int cl + d"
proof -
  have b: "cl < 2 ^ 25" "- 64 \<le> d" "d < 64" "0 \<le> int cl + d" "int cl + d < 2 ^ 32"
    using assms(1) by (auto simp: copy_len_ok_def)
  note pk = copyLength_pack [OF b(1-3)]
  show "copyLength c = cl" using pk by (simp add: copyLength_def assms(2))
  have m: "(int cl + d) mod 2 ^ 32 = int cl + d" using b(4,5) by (rule mod_pos_pos_trivial)
  have "copyLenCode c = nat (int cl + d)"
    unfolding copyLenCode_def assms(2) Let_def pk int8_roundtrip [OF b(2,3)] m ..
  then show "int (copyLenCode c) = int cl + d" using b(4) by simp
qed

lemma newCommand_made:
  assumes "insert_len_ok (cfg_insertLen cfg)" and "copy_len_ok (cfg_copyLen cfg) (cfg_copyLenDelta cfg)"
    and "distance_params_ok (cfg_numDirectCodes cfg) (cfg_postfixBits cfg)"
    and "distance_code_ok (cfg_numDirectCodes cfg) (cfg_postfixBits cfg) (cfg_distanceCode cfg)"
  shows "\<exists>c. newCommand cfg = Some c \<and> insertLen c = cfg_insertLen cfg \<and> copyLength c = cfg_copyLen cfg \<and>
    int (copyLenCode c) = int (cfg_copyLen cfg) + cfg_copyLenDelta cfg \<and> command_symbol_ok c \<and>
    command_distanceCode (cfg_numDirectCodes cfg) (cfg_postfixBits cfg) c = cfg_distanceCode cfg"
proof -
  let ?dp = "prefixEncodeCopyDistance (cfg_distanceCode cfg) (cfg_numDirectCodes cfg) (cfg_postfixBits cfg)"
  let ?n = "nat ((int (cfg_copyLen cfg) + cfg_copyLenDelta cfg) mod 2 ^ 64)"
  let ?i = "getInsertLenCode (cfg_insertLen cfg)" and ?k = "getCopyLenCode ?n"
  have n: "int ?n = int (cfg_copyLen cfg) + cfg_copyLenDelta cfg" "2 \<le> ?n" "?n < 2118 + 2 ^ 24"
    using assms(2) by (auto simp: copy_len_ok_def)
  have lt: "?i < 24" "?k < 24"
    using insert_len.encode_decode(1) [of "cfg_insertLen cfg"] copy_len.encode_decode(1) [of ?n] assms(1) n(2,3)
    by (auto simp: insert_top copy_top insert_len_ok_def)
  obtain p where p: "combineLengthCodes ?i ?k (fst ?dp AND 0x3FF = 0) = Some p"
    by (rule combineLengthCodes_rfc [OF lt, of "fst ?dp AND 0x3FF = 0"])
  define c where "c = \<lparr>insertLen = cfg_insertLen cfg, copyLen = packCopyLen (cfg_copyLen cfg) (cfg_copyLenDelta cfg),
            distExtra = snd ?dp, cmdPrefix = p, distPrefix = fst ?dp\<rparr>"
  have "newCommand cfg = Some c" using p assms(1)
    by (simp add: newCommand_def Let_def c_def to_u32_def insert_len_ok_def case_prod_unfold)
  moreover have l: "copyLength c = cfg_copyLen cfg" "int (copyLenCode c) = int (cfg_copyLen cfg) + cfg_copyLenDelta cfg"
    using pack_lengths [OF assms(2), of c] by (simp_all add: c_def)
  moreover have "command_symbol_ok c"
  proof (rule symbol_ok)
    have cl: "copyLenCode c = ?n" using l(2) n(1) by simp
    show "2 \<le> copyLenCode c" "copyLenCode c < 2118 + 2 ^ 24" using n(2,3) by (simp_all add: cl)
    show "combineLengthCodes (getInsertLenCode (insertLen c)) (getCopyLenCode (copyLenCode c)) (fst ?dp AND 0x3FF = 0) =
      Some (cmdPrefix c)" unfolding cl using p by (simp add: c_def)
  qed (use assms(1) in \<open>simp_all add: c_def distPrefixCode_def\<close>)
  moreover have "command_distanceCode (cfg_numDirectCodes cfg) (cfg_postfixBits cfg) c = cfg_distanceCode cfg"
    by (rule distance_roundtrip [OF assms(3,4)]) (simp add: c_def)
  ultimately show ?thesis by (auto simp: c_def)
qed

text \<open>C23. A command built from a match says what it was built from: it exists, keeps insert and copy length, its
  effective copy length is the copy length plus the delta, the decoder's table at its symbol has exactly
  the ranges these lengths fall in and the same distance context, the distance is implied only for the
  last distance, and its distance is the one given.\<close>

theorem newCommand_ok:
  assumes "insert_len_ok (cfg_insertLen cfg)" and "copy_len_ok (cfg_copyLen cfg) (cfg_copyLenDelta cfg)"
    and "distance_params_ok (cfg_numDirectCodes cfg) (cfg_postfixBits cfg)"
    and "distance_code_ok (cfg_numDirectCodes cfg) (cfg_postfixBits cfg) (cfg_distanceCode cfg)"
  shows "\<exists>c. newCommand cfg = Some c \<and> insertLen c = cfg_insertLen cfg \<and> copyLength c = cfg_copyLen cfg \<and>
    int (copyLenCode c) = int (cfg_copyLen cfg) + cfg_copyLenDelta cfg \<and> command_symbol_ok c \<and>
    command_distanceCode (cfg_numDirectCodes cfg) (cfg_postfixBits cfg) c = cfg_distanceCode cfg"
  by (rule newCommand_made [OF assms])

theorem newCommand_ok_witness:
  "\<exists>c. newCommand \<lparr>cfg_insertLen = 10, cfg_copyLen = 20, cfg_copyLenDelta = -3, cfg_distanceCode = 1015,
     cfg_numDirectCodes = 0, cfg_postfixBits = 0\<rparr> = Some c \<and> insertLen c = 10 \<and> copyLenCode c = 17 \<and> command_symbol_ok c"
  using newCommand_ok [of "\<lparr>cfg_insertLen = 10, cfg_copyLen = 20, cfg_copyLenDelta = -3, cfg_distanceCode = 1015,
     cfg_numDirectCodes = 0, cfg_postfixBits = 0\<rparr>"]
  by (auto simp: insert_len_ok_def copy_len_ok_def distance_params_ok_def distance_code_ok_def NumDistanceShortCodes_def
      MaxDistanceBits_def)

lemma push_is_newCommand:
  "pushCommandSimpleDist il cl delta code cmds =
     map_option (\<lambda>c. cmds @ [c]) (newCommand \<lparr>cfg_insertLen = il, cfg_copyLen = cl, cfg_copyLenDelta = delta,
       cfg_distanceCode = code, cfg_numDirectCodes = 0, cfg_postfixBits = 0\<rparr>)"
  by (simp add: pushCommandSimpleDist_def newCommand_def simple_is_general appendCommand_def Let_def case_prod_unfold
      bind_eq_Some_conv map_option_case split: option.splits bind_splits)

text \<open>C27. The command pushed by the fast path is the one \<^verbatim>\<open>newCommand\<close> builds without distance parameters, appended
  at the end of the command list; it fails only where that fails.\<close>

theorem pushCommandSimpleDist_newCommand:
  "pushCommandSimpleDist il cl delta code cmds =
     map_option (\<lambda>c. cmds @ [c]) (newCommand \<lparr>cfg_insertLen = il, cfg_copyLen = cl, cfg_copyLenDelta = delta,
       cfg_distanceCode = code, cfg_numDirectCodes = 0, cfg_postfixBits = 0\<rparr>)"
  by (rule push_is_newCommand)

text \<open>C28. The command that ends a metablock with literals only: it keeps the insert length, copies nothing, and its
  symbol is that of copy length 4 with the ranges of the decoder's table.\<close>

theorem newInsertCommand_ok:
  assumes "insert_len_ok il"
  shows "\<exists>c. newInsertCommand il = Some c \<and> insertLen c = il \<and> copyLength c = 0 \<and> copyLenCode c = 4 \<and>
    command_symbol_ok c \<and> \<not> usesLastDistance c"
proof -
  let ?i = "getInsertLenCode il" and ?k = "getCopyLenCode 4"
  have lt: "?i < 24" "?k < 24"
    using insert_len.encode_decode(1) [of il] copy_len.encode_decode(1) [of 4] assms
    by (auto simp: insert_top copy_top insert_len_ok_def)
  obtain p where p: "combineLengthCodes ?i ?k False = Some p" "p < 128 \<longleftrightarrow> implied False ?i ?k"
    by (rule combineLengthCodes_rfc [OF lt, of False])
  define c where "c = \<lparr>insertLen = il, copyLen = 4 * 2 ^ 25, distExtra = 0, cmdPrefix = p, distPrefix = NumDistanceShortCodes\<rparr>"
  have "newInsertCommand il = Some c"
    using p assms by (simp add: newInsertCommand_def c_def to_u32_def insert_len_ok_def)
  moreover have l: "copyLength c = 0" "copyLenCode c = 4"
    by (simp_all add: c_def copyLength_def copyLenCode_def drop_bit_eq_div push_bit_eq_mult int8_of_def)
  moreover have "command_symbol_ok c" by (rule symbol_ok [of _ False]) (use assms p(1) l in \<open>simp_all add: c_def\<close>)
  ultimately show ?thesis using p(2) by (auto simp: c_def usesLastDistance_def implied_def)
qed

theorem newInsertCommand_ok_witness:
  "\<exists>c. newInsertCommand 1000 = Some c \<and> insertLen c = 1000 \<and> copyLength c = 0 \<and> command_symbol_ok c"
  using newInsertCommand_ok [of 1000] by (auto simp: insert_len_ok_def)

text \<open>C26. The code of a block length: for every length up to the largest the format has, the code selects the range
  the length lies in, the number of extra bits is that range's, and offset plus extra bits is the length.\<close>

theorem getBlockLengthPrefixCode_ok:
  assumes "1 \<le> len" and "len < 16625 + 2 ^ 24" and "getBlockLengthPrefixCode len = (code, n, extra)"
  shows "code < AlphabetSizeBlockCount \<and> n = BlockLengthNBits ! code \<and> extra < 2 ^ n \<and>
    BlockLengthOffset ! code + extra = len"
proof -
  have b: "BlockLengthOffset ! 0 \<le> len" "len < range_top BlockLengthOffset BlockLengthNBits"
    using assms(1,2) by (simp_all add: range_top_def BlockLengthOffset_def BlockLengthNBits_def)
  have r: "in_range BlockLengthOffset BlockLengthNBits code len" "n = BlockLengthNBits ! code"
    "extra = nat ((int len - int (BlockLengthOffset ! code)) mod 2 ^ 32)"
    using block_len.code_range [OF b] assms(3) by (auto simp: blockLengthCode_def getBlockLengthPrefixCode_def Let_def)
  then have "extra = len - BlockLengthOffset ! code" using assms(2) by (auto simp: in_range_def)
  then show ?thesis using r(1,2) by (auto simp: in_range_def length_BlockLengthOffset AlphabetSizeBlockCount_def)
qed

theorem getBlockLengthPrefixCode_ok_witness:
  "BlockLengthOffset ! fst (getBlockLengthPrefixCode 1000) + snd (snd (getBlockLengthPrefixCode 1000)) = 1000"
  using getBlockLengthPrefixCode_ok [of 1000] by (cases "getBlockLengthPrefixCode 1000") auto

end
