(* ===== verification/Decode_Distance.thy ===== *)
theory Decode_Distance
  imports Decode_State Command_Codes
begin

unbundle bit_operations_syntax

text \<open>
  Distances on the decoder's side, \<^verbatim>\<open>decode.go\<close>: the table of distance offsets and extra bits
  (\<^verbatim>\<open>calculateDistanceLut\<close>) and the ring buffer of the last four distances (\<^verbatim>\<open>takeDistanceFromRingBuffer\<close>).
  The lemmas relate them to the encoder's \<^verbatim>\<open>prefixEncodeCopyDistance\<close> and \<^verbatim>\<open>computeDistanceCode\<close>: what the
  encoder emits for a distance is what the decoder turns back into that distance.
\<close>

subsection \<open>The distance table\<close>

text \<open>\<^verbatim>\<open>x << n\<close> on \<^verbatim>\<open>uint\<close>.\<close>

definition shl :: "nat \<Rightarrow> nat \<Rightarrow> nat" where
  "shl x n = (x * 2 ^ n) mod 2 ^ 64"

definition lut_set :: "nat \<Rightarrow> nat \<Rightarrow> nat \<Rightarrow> metablockBodyArena \<Rightarrow> metablockBodyArena option" where
  "lut_set i ebits off b = do {
     xs \<leftarrow> go_update (b_distExtraBits b) (int i) (ebits mod 2 ^ 8);
     ys \<leftarrow> go_update (b_distOffset b) (int i) off;
     Some (b\<lparr>b_distExtraBits := xs, b_distOffset := ys\<rparr>) }"

text \<open>\<^verbatim>\<open>for j := range n\<close>: entry \<open>i + j\<close> gets the offset \<open>base + j\<close>.\<close>

fun lut_run :: "nat \<Rightarrow> nat \<Rightarrow> nat \<Rightarrow> nat \<Rightarrow> metablockBodyArena \<Rightarrow> metablockBodyArena option" where
  "lut_run 0 i ebits base b = Some b"
| "lut_run (Suc n) i ebits base b = do { b \<leftarrow> lut_set i ebits base b; lut_run n (i + 1) ebits (uadd base 1) b }"

text \<open>The loop over the regular codes; \<^verbatim>\<open>1 << npostfix\<close> is 0 from 64 on, and the loop would not advance.\<close>

function lut_regular :: "nat \<Rightarrow> nat \<Rightarrow> nat \<Rightarrow> nat \<Rightarrow> nat \<Rightarrow> nat \<Rightarrow> metablockBodyArena \<Rightarrow> metablockBodyArena option" where
  "lut_regular npostfix ndirect limit i bits half b =
     (if i < limit then
        if 64 \<le> npostfix then None
        else (let base = uadd (uadd ndirect (shl (usub (shl (2 + half) bits) 4) npostfix)) 1 in
              case lut_run (2 ^ npostfix) i bits base b of
                None \<Rightarrow> None
              | Some b \<Rightarrow> lut_regular npostfix ndirect limit (i + 2 ^ npostfix) (bits + half) (half XOR 1) b)
      else Some b)"
  by pat_completeness auto
termination by (relation "measure (\<lambda>(np, nd, limit, i, bits, half, b). limit - i)") (auto intro: diff_less_mono2)

declare lut_regular.simps [simp del]

definition calculateDistanceLut :: "decodeState \<Rightarrow> decodeState option" where
  "calculateDistanceLut s =
     (let b = ds_bodyArena s; npostfix = ds_distancePostfixBits s; ndirect = ds_numDirectDistanceCodes s;
          limit = g_alphabetSizeLimit (ds_distanceHGroup s) in
      if b_cachedValid b \<and> b_cachedPostfix b = npostfix \<and> b_cachedDirect b = ndirect \<and>
         b_cachedAlphabetSizeLim b = limit then Some s
      else do {
        b \<leftarrow> lut_run ndirect NumDistanceShortCodes 0 1 b;
        b \<leftarrow> lut_regular npostfix ndirect limit (NumDistanceShortCodes + ndirect) 1 0 b;
        Some (s\<lparr>ds_bodyArena := b\<lparr>b_cachedPostfix := npostfix, b_cachedDirect := ndirect,
                  b_cachedAlphabetSizeLim := limit, b_cachedValid := True\<rparr>\<rparr>) })"

definition distExtra :: "metablockBodyArena \<Rightarrow> nat \<Rightarrow> (nat \<times> nat) option" where
  "distExtra b code = do {
     e \<leftarrow> go_index (b_distExtraBits b) (int code);
     o1 \<leftarrow> go_index (b_distOffset b) (int code);
     Some (e, o1) }"


subsection \<open>The last distances\<close>

text \<open>A shift by a negative count is a panic, an index of \<^verbatim>\<open>distRB\<close> never is: it is masked.\<close>

definition takeDistanceFromRingBuffer :: "decodeState \<Rightarrow> decodeState option" where
  "takeDistanceFromRingBuffer s =
     (let code = ds_distanceCode s; offset = code - 3 in
      if code \<le> 3 then
        if code < 0 then None
        else let ctx = drop_bit (nat code) 1; d = ds_distRB s ! nat ((ds_distRBIdx s - offset) AND 3) in
             Some (s\<lparr>ds_distanceContext := ctx, ds_distanceCode := d, ds_distRBIdx := ds_distRBIdx s - ctx\<rparr>)
      else
        let base = (if code < 10 then code - 4 else code - 10);
            indexDelta = (if code < 10 then 3 else 2);
            delta = (drop_bit (nat (4 * base)) 0x605142 AND 0xF) - 3;
            d = ds_distRB s ! nat ((ds_distRBIdx s + indexDelta) AND 3) + delta in
        Some (s\<lparr>ds_distanceCode := (if d \<le> 0 then 0x7FFFFFFF else d)\<rparr>))"


subsection \<open>Contents of the table\<close>

definition body_ok :: "metablockBodyArena \<Rightarrow> bool" where
  "body_ok b \<longleftrightarrow> length (b_distExtraBits b) = NumHistogramDistanceSymbols \<and>
     length (b_distOffset b) = NumHistogramDistanceSymbols"

text \<open>Entry \<open>i\<close> of the tables.\<close>

definition entry :: "metablockBodyArena \<Rightarrow> nat \<Rightarrow> nat \<times> nat" where
  "entry b i = (b_distExtraBits b ! i, b_distOffset b ! i)"

lemma lut_run_ok:
  assumes "body_ok b" and "i + n \<le> NumHistogramDistanceSymbols" and "base + n < 2 ^ 64" and "ebits < 2 ^ 8"
  shows "\<exists>b'. lut_run n i ebits base b = Some b' \<and> body_ok b' \<and>
    (\<forall>j < n. entry b' (i + j) = (ebits, base + j)) \<and> (\<forall>k. k < i \<or> i + n \<le> k \<longrightarrow> entry b' k = entry b k)"
  using assms
proof (induction n arbitrary: i base b)
  case (Suc n)
  let ?b = "b\<lparr>b_distExtraBits := (b_distExtraBits b)[i := ebits], b_distOffset := (b_distOffset b)[i := base]\<rparr>"
  have st: "lut_set i ebits base b = Some ?b" "body_ok ?b"
    using Suc.prems by (auto simp: lut_set_def go_update_def body_ok_def)
  obtain b' where b': "lut_run n (i + 1) ebits (base + 1) ?b = Some b'" "body_ok b'"
    "\<forall>j < n. entry b' (i + 1 + j) = (ebits, base + 1 + j)"
    "\<forall>k. k < i + 1 \<or> i + 1 + n \<le> k \<longrightarrow> entry b' k = entry ?b k"
    using Suc.IH [of ?b "i + 1" "base + 1"] Suc.prems st by auto
  have "entry b' (i + j) = (ebits, base + j)" if "j < Suc n" for j
  proof (cases j)
    case 0
    then show ?thesis using b'(4) Suc.prems(1,2) by (auto simp: entry_def body_ok_def)
  next
    case (Suc m)
    then show ?thesis using b'(3) that by (auto simp: algebra_simps)
  qed
  moreover have "entry b' k = entry b k" if "k < i \<or> i + Suc n \<le> k" for k
    using b'(4) that by (auto simp: entry_def)
  ultimately show ?case using st b' Suc.prems(3) by auto
qed auto


text \<open>The regular codes come in groups of \<open>2 ^ npostfix\<close>; group \<open>q\<close> has \<open>q div 2 + 1\<close> extra bits.\<close>

definition group_start :: "nat \<Rightarrow> nat \<Rightarrow> nat \<Rightarrow> nat" where
  "group_start nd np q = NumDistanceShortCodes + nd + q * 2 ^ np"

definition group_base :: "nat \<Rightarrow> nat \<Rightarrow> nat \<Rightarrow> nat" where
  "group_base nd np q = nd + ((2 + q mod 2) * 2 ^ (q div 2 + 1) - 4) * 2 ^ np + 1"

lemma params_bounds:
  assumes "distance_params_ok nd np"
  shows "(2::nat) ^ np \<le> 8" and "nd \<le> 120"
  using assms power_increasing [of np 3 "2::nat"] by (simp_all add: distance_params_ok_def)

lemma group_small:
  assumes "distance_params_ok nd np" and "q < 48"
  shows "(2 + q mod 2) * 2 ^ (q div 2 + 1) < 2 ^ 27" and "4 \<le> (2 + q mod 2) * (2::nat) ^ (q div 2 + 1)"
    and "group_base nd np q + 2 ^ np < 2 ^ 32" and "group_start nd np q + 2 ^ np \<le> NumHistogramDistanceSymbols"
proof -
  let ?x = "(2 + q mod 2) * (2::nat) ^ (q div 2 + 1)"
  have pw: "(2::nat) ^ (q div 2 + 1) \<le> 2 ^ 24" using assms(2) by (intro power_increasing) auto
  have "?x \<le> 3 * 2 ^ 24" using mult_le_mono [OF _ pw, of "2 + q mod 2" 3] by simp
  then show lt: "?x < 2 ^ 27" by simp
  have "(2::nat) ^ 1 \<le> 2 ^ (q div 2 + 1)" by (intro power_increasing) auto
  then have "2 * 2 \<le> ?x" by (intro mult_le_mono) auto
  then show "4 \<le> ?x" by simp
  note pb = params_bounds [OF assms(1)]
  have "(?x - 4) * 2 ^ np \<le> (?x - 4) * 8" using pb(1) by (rule mult_le_mono2)
  moreover have "(?x - 4) * 8 < 2 ^ 30" using lt by simp
  moreover have "(2::nat) ^ 30 = 1073741824" "(2::nat) ^ 32 = 4294967296" by simp_all
  ultimately show "group_base nd np q + 2 ^ np < 2 ^ 32" using pb unfolding group_base_def by linarith
  have "q * 2 ^ np \<le> 47 * 2 ^ np" using assms(2) by simp
  then show "group_start nd np q + 2 ^ np \<le> NumHistogramDistanceSymbols"
    using pb assms(1) unfolding group_start_def NumDistanceShortCodes_def NumHistogramDistanceSymbols_def distance_params_ok_def
    by linarith
qed

lemma group_base_go:
  assumes "distance_params_ok nd np" and "q < 48"
  shows "uadd (uadd nd (shl (usub (shl (2 + q mod 2) (q div 2 + 1)) 4) np)) 1 = group_base nd np q"
proof -
  note g = group_small [OF assms]
  have "shl (2 + q mod 2) (q div 2 + 1) = (2 + q mod 2) * 2 ^ (q div 2 + 1)" using g(1) by (simp add: shl_def)
  moreover have "usub ((2 + q mod 2) * 2 ^ (q div 2 + 1)) 4 = (2 + q mod 2) * 2 ^ (q div 2 + 1) - 4"
    using g(1,2) by (intro usub_exact) auto
  moreover have "shl ((2 + q mod 2) * 2 ^ (q div 2 + 1) - 4) np = ((2 + q mod 2) * 2 ^ (q div 2 + 1) - 4) * 2 ^ np"
    using g(3) by (simp add: shl_def group_base_def)
  ultimately show ?thesis using g(3) by (simp add: group_base_def)
qed

lemma lut_regular_ok:
  assumes "distance_params_ok nd np" and "limit \<le> group_start nd np 48"
  shows "body_ok b \<Longrightarrow> q \<le> 48 \<Longrightarrow>
    \<exists>b'. lut_regular np nd limit (group_start nd np q) (q div 2 + 1) (q mod 2) b = Some b' \<and> body_ok b' \<and>
      (\<forall>k < group_start nd np q. entry b' k = entry b k) \<and>
      (\<forall>r l. q \<le> r \<longrightarrow> group_start nd np r < limit \<longrightarrow> l < 2 ^ np \<longrightarrow>
         entry b' (group_start nd np r + l) = (r div 2 + 1, group_base nd np r + l))"
proof (induction "48 - q" arbitrary: q b)
  case 0
  then have "\<not> group_start nd np q < limit" using assms(2) by simp
  moreover have "group_start nd np q \<le> group_start nd np r" if "q \<le> r" for r using that by (simp add: group_start_def)
  ultimately show ?case using 0 by (subst lut_regular.simps) fastforce
next
  case (Suc n)
  show ?case
  proof (cases "group_start nd np q < limit")
    case False
    moreover have "group_start nd np q \<le> group_start nd np r" if "q \<le> r" for r using that by (simp add: group_start_def)
    ultimately show ?thesis using Suc.prems by (subst lut_regular.simps) fastforce
  next
    case True
    have q: "q < 48" using Suc.hyps(2) by simp
    note g = group_small [OF assms(1) q]
    have lt: "group_base nd np q + 2 ^ np < 2 ^ 64" "q div 2 + 1 < 2 ^ 8" using g(3) q by auto
    obtain b1 where b1: "lut_run (2 ^ np) (group_start nd np q) (q div 2 + 1) (group_base nd np q) b = Some b1" "body_ok b1"
      "\<forall>j < 2 ^ np. entry b1 (group_start nd np q + j) = (q div 2 + 1, group_base nd np q + j)"
      "\<forall>k. k < group_start nd np q \<or> group_start nd np q + 2 ^ np \<le> k \<longrightarrow> entry b1 k = entry b k"
      using lut_run_ok [OF Suc.prems(1) g(4) lt] by auto
    have nx: "group_start nd np q + 2 ^ np = group_start nd np (Suc q)" by (simp add: group_start_def)
    have st: "q div 2 + 1 + q mod 2 = Suc q div 2 + 1" "q mod 2 XOR 1 = Suc q mod 2"
      by (cases "even q"; auto elim!: evenE oddE)+
    have ih: "n = 48 - Suc q" "Suc q \<le> 48" using Suc.hyps(2) by auto
    obtain b' where b': "lut_regular np nd limit (group_start nd np (Suc q)) (Suc q div 2 + 1) (Suc q mod 2) b1 = Some b'"
      "body_ok b'" "\<forall>k < group_start nd np (Suc q). entry b' k = entry b1 k"
      "\<forall>r l. Suc q \<le> r \<longrightarrow> group_start nd np r < limit \<longrightarrow> l < 2 ^ np \<longrightarrow>
         entry b' (group_start nd np r + l) = (r div 2 + 1, group_base nd np r + l)"
      using Suc.hyps(1) [OF ih(1) b1(2) ih(2)] by blast
    have np: "np < 64" using assms(1) by (simp add: distance_params_ok_def)
    have "lut_regular np nd limit (group_start nd np q) (q div 2 + 1) (q mod 2) b = Some b'"
      unfolding lut_regular.simps [of np nd limit "group_start nd np q"] Let_def group_base_go [OF assms(1) q] nx st
      using True np b1(1) b'(1) by simp
    moreover have "entry b' k = entry b k" if "k < group_start nd np q" for k
      using that b'(3) b1(4) nx by auto
    moreover have "entry b' (group_start nd np r + l) = (r div 2 + 1, group_base nd np r + l)"
      if "q \<le> r" "group_start nd np r < limit" "l < 2 ^ np" for r l
    proof (cases "r = q")
      case True
      then show ?thesis using b'(3) b1(3) that(3) nx by auto
    next
      case False
      then show ?thesis using b'(4) that by auto
    qed
    ultimately show ?thesis using b'(2) by blast
  qed
qed

definition lut_entries :: "nat \<Rightarrow> nat \<Rightarrow> nat \<Rightarrow> metablockBodyArena \<Rightarrow> bool" where
  "lut_entries nd np limit b \<longleftrightarrow> (\<forall>j < nd. entry b (NumDistanceShortCodes + j) = (0, j + 1)) \<and>
     (\<forall>r l. group_start nd np r < limit \<longrightarrow> l < 2 ^ np \<longrightarrow>
        entry b (group_start nd np r + l) = (r div 2 + 1, group_base nd np r + l))"

text \<open>The invariant of the cached table: when it is valid, it is the table of the cached parameters.\<close>

definition body_inv :: "metablockBodyArena \<Rightarrow> bool" where
  "body_inv b \<longleftrightarrow> body_ok b \<and>
     (b_cachedValid b \<longrightarrow> lut_entries (b_cachedDirect b) (b_cachedPostfix b) (b_cachedAlphabetSizeLim b) b)"

lemma entry_cached [simp]:
  "entry (b\<lparr>b_cachedPostfix := x, b_cachedDirect := y, b_cachedAlphabetSizeLim := z, b_cachedValid := v\<rparr>) = entry b"
  by (simp add: entry_def fun_eq_iff)

definition dist_setup :: "nat \<Rightarrow> nat \<Rightarrow> decodeState \<Rightarrow> bool" where
  "dist_setup nd np s \<longleftrightarrow> distance_params_ok nd np \<and> ds_numDirectDistanceCodes s = nd \<and> ds_distancePostfixBits s = np \<and>
     g_alphabetSizeLimit (ds_distanceHGroup s) \<le> group_start nd np 48 \<and> body_inv (ds_bodyArena s)"

lemma calculateDistanceLut_ok:
  assumes "dist_setup nd np s"
  obtains b where "calculateDistanceLut s = Some (s\<lparr>ds_bodyArena := b\<rparr>)" and "body_inv b"
    and "lut_entries nd np (g_alphabetSizeLimit (ds_distanceHGroup s)) b"
proof -
  let ?lim = "g_alphabetSizeLimit (ds_distanceHGroup s)"
  note a = assms [unfolded dist_setup_def]
  show thesis
  proof (cases "b_cachedValid (ds_bodyArena s) \<and> b_cachedPostfix (ds_bodyArena s) = np \<and>
      b_cachedDirect (ds_bodyArena s) = nd \<and> b_cachedAlphabetSizeLim (ds_bodyArena s) = ?lim")
    case True
    then show ?thesis using a that [of "ds_bodyArena s"] by (auto simp: calculateDistanceLut_def body_inv_def)
  next
    case False
    have b0: "body_ok (ds_bodyArena s)" using a by (simp add: body_inv_def)
    have nd: "NumDistanceShortCodes + nd \<le> NumHistogramDistanceSymbols" "1 + nd < 2 ^ 64"
      using params_bounds(2) [of nd np] a by (auto simp: NumDistanceShortCodes_def NumHistogramDistanceSymbols_def)
    obtain b1 where b1: "lut_run nd NumDistanceShortCodes 0 1 (ds_bodyArena s) = Some b1" "body_ok b1"
      "\<forall>j < nd. entry b1 (NumDistanceShortCodes + j) = (0, 1 + j)"
      using lut_run_ok [OF b0 nd, of 0] by auto
    obtain b2 where b2: "lut_regular np nd ?lim (group_start nd np 0) 1 0 b1 = Some b2" "body_ok b2"
      "\<forall>k < group_start nd np 0. entry b2 k = entry b1 k"
      "\<forall>r l. group_start nd np r < ?lim \<longrightarrow> l < 2 ^ np \<longrightarrow>
         entry b2 (group_start nd np r + l) = (r div 2 + 1, group_base nd np r + l)"
      using lut_regular_ok [of nd np ?lim b1 0] a b1(2) by auto
    have e: "lut_entries nd np ?lim b2" using b2(3,4) b1(3) by (simp add: lut_entries_def group_start_def)
    let ?b = "b2\<lparr>b_cachedPostfix := np, b_cachedDirect := nd, b_cachedAlphabetSizeLim := ?lim, b_cachedValid := True\<rparr>"
    show ?thesis
    proof (rule that [of ?b])
      show "calculateDistanceLut s = Some (s\<lparr>ds_bodyArena := ?b\<rparr>)"
        using False a b1(1) b2(1) by (auto simp: calculateDistanceLut_def Let_def group_start_def)
      show "lut_entries nd np ?lim ?b" using e by (simp add: lut_entries_def)
      then show "body_inv ?b" using b2(2) by (simp add: body_inv_def body_ok_def)
    qed
  qed
qed

text \<open>What the table says of the prefix code of a distance.\<close>

lemma lut_inverts:
  assumes ok: "distance_params_ok nd np" and b: "body_ok b" and lut: "lut_entries nd np limit b" and lim: "limit \<le> NumHistogramDistanceSymbols"
    and pos: "1 \<le> distance" and far: "distance_code_ok nd np (distance + 15)"
    and enc0: "prefixEncodeCopyDistance (distance + 15) nd np = (dp, de)" and lim0: "dp AND 0x3FF < limit"
  shows "\<exists>eb off. distExtra b (dp AND 0x3FF) = Some (eb, off) \<and> eb = drop_bit 10 dp \<and> eb \<le> 24 \<and> de < 2 ^ eb \<and>
    off + de * 2 ^ np = distance \<and> 16 \<le> dp AND 0x3FF"
proof -
  have look: "distExtra b i = Some (entry b i)" if "i < NumHistogramDistanceSymbols" for i
    using b that by (simp add: distExtra_def entry_def body_ok_def go_index_def)
  show ?thesis
  proof (cases "distance + 15 < NumDistanceShortCodes + nd")
    case True
    then have d: "dp = distance + 15" "de = 0" using enc0 params_bounds(2) [OF ok]
      by (auto simp: prefixEncodeCopyDistance_def to_u16_def NumDistanceShortCodes_def)
    have m: "(distance + 15) AND 0x3FF = distance + 15" using small_and_mask [of "distance + 15"] True params_bounds(2) [OF ok]
      by (simp add: to_u16_def NumDistanceShortCodes_def)
    have "entry b (distance + 15) = (0, distance)"
    proof -
      have "distance - 1 < nd" using True pos by (simp add: NumDistanceShortCodes_def)
      then have "entry b (NumDistanceShortCodes + (distance - 1)) = (0, distance - 1 + 1)"
        using lut unfolding lut_entries_def by blast
      then show ?thesis using pos by (simp add: NumDistanceShortCodes_def add.commute)
    qed
    moreover have "drop_bit 10 (distance + 15) = 0"
      using True params_bounds(2) [OF ok] by (simp add: drop_bit_eq_div NumDistanceShortCodes_def)
    ultimately show ?thesis using look [of "distance + 15"] lim0 lim pos by (auto simp: d m)
  next
    case False
    have "distance + 15 + 2 ^ (np + 2) < 2 ^ 64"
      using far params_bounds [OF ok] mult_le_mono2 [OF params_bounds(1) [OF ok], of "2 ^ (MaxDistanceBits + 2)"]
      by (simp add: distance_code_ok_def NumDistanceShortCodes_def MaxDistanceBits_def)
    then obtain nb p e l where n: "1 \<le> nb" "p < 2" "e < 2 ^ nb" "l < 2 ^ np"
      and sum: "distance + 15 + 2 ^ (np + 2) = NumDistanceShortCodes + nd + ((2 + p) * 2 ^ nb + e) * 2 ^ np + l"
      and enc: "prefixEncodeCopyDistance (distance + 15) nd np =
        (to_u16 ((nb * 2 ^ 10) OR (NumDistanceShortCodes + nd + (2 * (nb - 1) + p) * 2 ^ np + l)), to_u32 e)"
      using distance_split [of nd "distance + 15" np] False by (metis not_le)
    have nb: "nb \<le> MaxDistanceBits" using distance_nbits [OF n(1) sum] far by (simp add: distance_code_ok_def)
    define r where "r = 2 * (nb - 1) + p"
    have r: "r div 2 + 1 = nb" "r mod 2 = p" using n(1,2) by (auto simp: r_def)
    note f = prefix_fields [OF dist_symbol_bound [OF ok n(2,4,1) nb] nb, folded r_def]
    have sy: "dp AND 0x3FF = group_start nd np r + l" "drop_bit 10 dp = nb"
      using f enc0 by (auto simp: enc group_start_def r_def)
    have "e < 2 ^ 32" using n(3) nb power_increasing [of nb 24 "2::nat"] by (simp add: MaxDistanceBits_def)
    then have de: "de = e" using enc0 by (simp add: enc to_u32_def)
    have en: "entry b (group_start nd np r + l) = (nb, group_base nd np r + l)"
      using lut n(4) lim0 r(1) by (auto simp: lut_entries_def sy)
    have "(2::nat) ^ 1 \<le> 2 ^ nb" using n(1) by (intro power_increasing) auto
    then have "2 * 2 \<le> (2 + p) * (2::nat) ^ nb" by (intro mult_le_mono) auto
    then have "((2 + p) * 2 ^ nb - 4) * 2 ^ np + 4 * 2 ^ np = (2 + p) * 2 ^ nb * 2 ^ np"
      by (simp flip: add_mult_distrib)
    then have "group_base nd np r + l + e * 2 ^ np = distance"
      using sum unfolding group_base_def r by (simp add: algebra_simps NumDistanceShortCodes_def)
    then show ?thesis using look [of "group_start nd np r + l"] lim0 lim en n(3) nb by (auto simp: sy de MaxDistanceBits_def group_start_def NumDistanceShortCodes_def)
  qed
qed

text \<open>C30. The decoder's distance table inverts the encoder's prefix codes: for every parameter choice of the format
  and every distance, the entry at the symbol the encoder emits has the number of extra bits the encoder
  writes, and its offset plus the shifted extra bits is the distance. The cached table stays consistent.\<close>

theorem distance_lut_inverts:
  assumes "dist_setup nd np s" and "1 \<le> distance" and "distance_code_ok nd np (distance + 15)"
    and "prefixEncodeCopyDistance (distance + 15) nd np = (dp, de)"
    and "dp AND 0x3FF < g_alphabetSizeLimit (ds_distanceHGroup s)"
  shows "\<exists>s' eb off. calculateDistanceLut s = Some s' \<and> body_inv (ds_bodyArena s') \<and>
    distExtra (ds_bodyArena s') (dp AND 0x3FF) = Some (eb, off) \<and> eb = drop_bit 10 dp \<and> de < 2 ^ eb \<and>
    off + de * 2 ^ np = distance"
proof -
  have ok: "distance_params_ok nd np" using assms(1) by (simp add: dist_setup_def)
  obtain b where b: "calculateDistanceLut s = Some (s\<lparr>ds_bodyArena := b\<rparr>)" "body_inv b"
    "lut_entries nd np (g_alphabetSizeLimit (ds_distanceHGroup s)) b"
    by (rule calculateDistanceLut_ok [OF assms(1)])
  have lim: "g_alphabetSizeLimit (ds_distanceHGroup s) \<le> NumHistogramDistanceSymbols"
    using assms(1) group_small(4) [OF ok, of 47] by (auto simp: dist_setup_def group_start_def)
  show ?thesis using lut_inverts [OF ok _ b(3) lim assms(2-5)] b by (auto simp: body_inv_def)
qed

theorem distance_lut_inverts_witness:
  "\<exists>s' eb off. calculateDistanceLut (zero_state\<lparr>ds_numDirectDistanceCodes := 4, ds_distancePostfixBits := 1,
       ds_distanceHGroup := zero_group\<lparr>g_alphabetSizeLimit := 116\<rparr>\<rparr>) = Some s' \<and>
     distExtra (ds_bodyArena s') (fst (prefixEncodeCopyDistance 1015 4 1) AND 0x3FF) = Some (eb, off) \<and>
     off + snd (prefixEncodeCopyDistance 1015 4 1) * 2 = 1000"
proof -
  let ?s = "zero_state\<lparr>ds_numDirectDistanceCodes := 4, ds_distancePostfixBits := 1,
       ds_distanceHGroup := zero_group\<lparr>g_alphabetSizeLimit := 116\<rparr>\<rparr>"
  have "dist_setup 4 1 ?s"
    by (simp add: dist_setup_def distance_params_ok_def group_start_def NumDistanceShortCodes_def zero_state_def zero_body_def
        body_inv_def body_ok_def)
  moreover have "distance_code_ok 4 1 (1000 + 15)"
    by (simp add: distance_code_ok_def NumDistanceShortCodes_def MaxDistanceBits_def)
  moreover have "fst (prefixEncodeCopyDistance 1015 4 1) AND 0x3FF < 116"
    using bits_Len_eq_iff [of 1003 9] by (simp add: prefixEncodeCopyDistance_def NumDistanceShortCodes_def to_u16_def Let_def)
  ultimately show ?thesis
    using distance_lut_inverts [of 4 1 ?s 1000 "fst (prefixEncodeCopyDistance 1015 4 1)" "snd (prefixEncodeCopyDistance 1015 4 1)"]
    by auto
qed


subsection \<open>Short codes\<close>

text \<open>The encoder's cache of the last four distances, newest first, as the decoder's ring holds them.\<close>

definition dist_cache_rel :: "nat list \<Rightarrow> decodeState \<Rightarrow> bool" where
  "dist_cache_rel cache s \<longleftrightarrow> length cache = 4 \<and> length (ds_distRB s) = 4 \<and>
     (\<forall>k < 4. int (cache ! k) = ds_distRB s ! nat ((ds_distRBIdx s - 1 - int k) AND 3) \<and> 0 < cache ! k \<and> cache ! k < 2 ^ 62)"

lemma and_3_mod: "(x::int) AND 3 = x mod 4"
  using take_bit_eq_mask [of 2 x] by (simp add: take_bit_eq_mod mask_eq_exp_minus_1)

lemma take_last:
  assumes "dist_cache_rel cache s" and "k < 4"
  shows "takeDistanceFromRingBuffer (s\<lparr>ds_distanceCode := int k\<rparr>) =
    Some (s\<lparr>ds_distanceCode := int (cache ! k), ds_distanceContext := (if k = 0 then 1 else 0),
             ds_distRBIdx := ds_distRBIdx s - (if k = 0 then 1 else 0)\<rparr>)"
proof -
  have "(ds_distRBIdx s - (int k - 3)) AND 3 = (ds_distRBIdx s - 1 - int k) AND 3"
    unfolding and_3_mod by presburger
  moreover have "drop_bit k (1::int) = (if k = 0 then 1 else 0)" using assms(2) by (auto simp: drop_bit_eq_div)
  ultimately show ?thesis using assms by (simp add: takeDistanceFromRingBuffer_def dist_cache_rel_def Let_def)
qed

text \<open>The deltas \<open>-1, 1, -2, 2, -3, 3\<close> of the codes 4 to 9 and 10 to 15.\<close>

definition short_delta :: "nat \<Rightarrow> int" where
  "short_delta j = [-1, 1, -2, 2, -3, 3] ! j"

lemma take_near:
  assumes "dist_cache_rel cache s" and "j < 6" and "k < 2" and "0 < int (cache ! k) + short_delta j"
  shows "takeDistanceFromRingBuffer (s\<lparr>ds_distanceCode := int (4 + 6 * k + j)\<rparr>) =
    Some (s\<lparr>ds_distanceCode := int (cache ! k) + short_delta j\<rparr>)"
proof -
  have dl: "(drop_bit (4 * j) (0x605142::int) AND 0xF) - 3 = short_delta j"
  proof -
    have "j \<in> {0, 1, 2, 3, 4, 5}" using assms(2) by auto
    then show ?thesis by (elim insertE emptyE) (simp_all add: short_delta_def drop_bit_eq_div)
  qed
  have ix: "(ds_distRBIdx s + (3 - int k)) AND 3 = (ds_distRBIdx s - 1 - int k) AND 3"
    unfolding and_3_mod by presburger
  have "k = 0 \<or> k = 1" using assms(3) by auto
  then show ?thesis
  proof
    assume k: "k = 0"
    then show ?thesis using assms dl ix by (simp add: takeDistanceFromRingBuffer_def dist_cache_rel_def Let_def nat_mult_distrib)
  next
    assume k: "k = 1"
    then show ?thesis using assms dl ix by (simp add: takeDistanceFromRingBuffer_def dist_cache_rel_def Let_def nat_mult_distrib)
  qed
qed

definition short_index :: "nat \<Rightarrow> nat" where
  "short_index o1 = [4, 2, 0, 0, 1, 3, 5] ! o1"

lemma short_index_less: "o1 < 7 \<Longrightarrow> short_index o1 < 6"
  by (auto simp: short_index_def less_Suc_eq numeral_eq_Suc)

lemma offset_nibbles:
  assumes "o1 < 7" and "o1 \<noteq> 3"
  shows "short_index o1 < 6" and "drop_bit (4 * o1) (0x9750468::nat) AND 0xF = 4 + short_index o1"
    and "drop_bit (4 * o1) (0xFDB1ACE::nat) AND 0xF = 10 + short_index o1" and "short_delta (short_index o1) = int o1 - 3"
proof -
  have "o1 \<in> {0, 1, 2, 4, 5, 6}" using assms by auto
  then show "short_index o1 < 6" and "drop_bit (4 * o1) (0x9750468::nat) AND 0xF = 4 + short_index o1"
    and "drop_bit (4 * o1) (0xFDB1ACE::nat) AND 0xF = 10 + short_index o1" and "short_delta (short_index o1) = int o1 - 3"
    by (elim insertE emptyE; simp add: short_delta_def short_index_def drop_bit_eq_div)+
qed

lemma usub_window:
  assumes "d < 2 ^ 62" and "c < 2 ^ 62" and "usub (uadd d 3) c < 7"
  shows "int (usub (uadd d 3) c) = int d + 3 - int c"
proof -
  have u: "uadd d 3 = d + 3" using assms(1) by (simp add: uadd_def)
  show ?thesis
  proof (cases "c \<le> d + 3")
    case True
    then show ?thesis using assms(1) by (simp add: u)
  next
    case False
    then have "usub (d + 3) c = d + 3 + 2 ^ 64 - c" using assms(2) by (simp add: usub_def)
    then show ?thesis using assms False by (simp add: u)
  qed
qed

text \<open>The distance a short code stands for, given the last distances.\<close>

definition cache_distance :: "nat list \<Rightarrow> nat \<Rightarrow> int" where
  "cache_distance cache c = (if c < 4 then int (cache ! c) else if c < 10 then int (cache ! 0) + short_delta (c - 4)
     else int (cache ! 1) + short_delta (c - 10))"

lemma take_cache:
  assumes "dist_cache_rel cache s" and "c < 16" and "0 < cache_distance cache c"
  shows "\<exists>s'. takeDistanceFromRingBuffer (s\<lparr>ds_distanceCode := int c\<rparr>) = Some s' \<and> ds_distanceCode s' = cache_distance cache c"
proof -
  consider "c < 4" | j where "c = 4 + j" "j < 6" | j where "c = 10 + j" "j < 6"
    using assms(2) that(1) that(2) [of "c - 4"] that(3) [of "c - 10"] by linarith
  then show ?thesis
  proof cases
    case 1
    then show ?thesis using take_last [OF assms(1) 1] by (simp add: cache_distance_def)
  next
    case (2 j)
    then show ?thesis using take_near [OF assms(1) 2(2), of 0] assms(3) by (simp add: cache_distance_def)
  next
    case (3 j)
    then show ?thesis using take_near [OF assms(1) 3(2), of 1] assms(3) by (simp add: cache_distance_def)
  qed
qed

lemma near_distance:
  assumes "d < 2 ^ 62" and "c < 2 ^ 62" and "x = usub (uadd d 3) c" and "x < 7" and "d \<noteq> c"
  shows "x \<noteq> 3" "short_index x < 6" "int c + short_delta (short_index x) = int d"
proof -
  have x: "int x = int d + 3 - int c" using usub_window [OF assms(1,2)] assms(3,4) by simp
  then show "x \<noteq> 3" using assms(5) by auto
  then show "short_index x < 6" "int c + short_delta (short_index x) = int d"
    using offset_nibbles(1,4) [OF assms(4)] x by simp_all
qed

lemma computeDistanceCode_cache:
  assumes "\<And>k. k < 4 \<Longrightarrow> cache ! k < 2 ^ 62" and "d < 2 ^ 62" and "1 \<le> d"
    and c_def: "c = computeDistanceCode d maxDist cache"
  shows "if c < 16 then cache_distance cache c = int d else c = d + 15"
proof -
  have far: "uadd d (NumDistanceShortCodes - 1) = d + 15" using assms(2)
    by (simp add: NumDistanceShortCodes_def uadd_def)
  define o0 o1 where "o0 = usub (uadd d 3) (cache ! 0)" and "o1 = usub (uadd d 3) (cache ! 1)"
  define d0 d1 where "d0 = drop_bit (4 * o0) (0x9750468::nat) AND 0xF" and "d1 = drop_bit (4 * o1) (0xFDB1ACE::nat) AND 0xF"
  note n0 = near_distance [OF assms(2) assms(1) [of 0] o0_def] and n1 = near_distance [OF assms(2) assms(1) [of 1] o1_def]
  have c: "c = (if d \<le> maxDist then
      if d = cache ! 0 then 0 else if d = cache ! 1 then 1 else if o0 < 7 then d0 else if o1 < 7 then d1
      else if d = cache ! 2 then 2 else if d = cache ! 3 then 3 else d + 15
    else d + 15)"
    unfolding c_def computeDistanceCode_def far Let_def o0_def [symmetric] o1_def [symmetric] d0_def [symmetric]
      d1_def [symmetric] ..
  have x0: "cache_distance cache d0 = int d \<and> d0 < 16" if "o0 < 7" "d \<noteq> cache ! 0"
    using offset_nibbles(2) [OF that(1)] n0 that by (simp add: d0_def cache_distance_def)
  have x1: "cache_distance cache d1 = int d \<and> d1 < 16" if "o1 < 7" "d \<noteq> cache ! 1"
    using offset_nibbles(3) [OF that(1)] n1 that by (simp add: d1_def cache_distance_def)
  have x: "cache_distance cache k = int (cache ! k)" if "k < 4" for k using that by (simp add: cache_distance_def)
  show ?thesis unfolding c using assms(3) x0 x1 x [of 0] x [of 1] x [of 2] x [of 3] by (simp split: if_split)
qed

text \<open>The code the encoder computes and the ring of the decoder.\<close>

lemma computeDistanceCode_ring:
  assumes "dist_cache_rel cache s" and "1 \<le> distance" and "distance < 2 ^ 62"
    and "c = computeDistanceCode distance maxDist cache"
  shows "(if c < NumDistanceShortCodes
          then \<exists>s'. takeDistanceFromRingBuffer (s\<lparr>ds_distanceCode := int c\<rparr>) = Some s' \<and> ds_distanceCode s' = int distance
          else c = distance + 15)"
proof -
  have "if c < 16 then cache_distance cache c = int distance else c = distance + 15"
    using computeDistanceCode_cache [of cache distance c maxDist] assms by (simp add: dist_cache_rel_def)
  then show ?thesis using take_cache [OF assms(1), of c] assms(2) by (auto simp: NumDistanceShortCodes_def split: if_splits)
qed

end
