(* ===== verification/Decode_Blocks.thy ===== *)
theory Decode_Blocks
  imports Decode_Symbol Decode_Distance Context_Table
begin

unbundle bit_operations_syntax

text \<open>
  Block switching and the operations that read inside a block, \<^verbatim>\<open>decode.go\<close> and \<^verbatim>\<open>decode_mem_checked.go\<close>:
  \<^verbatim>\<open>decodeBlockTypeAndLength\<close>, the literal trees of a block type, \<^verbatim>\<open>readDistance\<close> and the batched literal
  decoders, which keep \<open>br_val\<close>, \<open>br_bitPos\<close> and \<open>br_pos\<close> in local variables.
\<close>

subsection \<open>Block types\<close>

definition next_block_type :: "nat \<Rightarrow> nat \<Rightarrow> nat \<Rightarrow> nat \<Rightarrow> nat" where
  "next_block_type maxBlockType prev cur code =
     (let t = (if code = 1 then uadd cur 1 else if code = 0 then prev else usub code 2) in
      if t \<ge> maxBlockType then usub t maxBlockType else t)"

definition switch_block_type :: "nat \<Rightarrow> nat \<Rightarrow> nat \<Rightarrow> decodeState \<Rightarrow> decodeState option" where
  "switch_block_type maxBlockType treeType code s = do {
     prev \<leftarrow> go_index (ds_blockTypeRB s) (int (treeType * 2));
     cur \<leftarrow> go_index (ds_blockTypeRB s) (int (treeType * 2 + 1));
     Some (s\<lparr>ds_blockTypeRB := (ds_blockTypeRB s)[treeType * 2 := cur,
               treeType * 2 + 1 := next_block_type maxBlockType prev cur code]\<rparr>) }"

definition decodeBlockTypeAndLength :: "bool \<Rightarrow> nat \<Rightarrow> decodeState \<Rightarrow> (bool \<times> decodeState) option" where
  "decodeBlockTypeAndLength safe treeType s = do {
     maxBlockType \<leftarrow> go_index (ds_numBlockTypes s) (int treeType);
     if maxBlockType \<le> 1 then Some (False, s) else do {
     typeTree \<leftarrow> (let t = sl_list (ds_blockTypeTrees s) in go_slice t (int (treeType * huffmanMaxSize258)) (int (length t)));
     lenTree \<leftarrow> (let t = blockLenTrees s in go_slice t (int (treeType * huffmanMaxSize26)) (int (length t)));
     if \<not> safe then do {
       br \<leftarrow> fillBitWindow (ds_br s);
       (code, br) \<leftarrow> decodeSymbol (br_val br) typeTree br;
       (bl, br) \<leftarrow> readBlockLength lenTree br;
       bls \<leftarrow> go_update (ds_blockLength s) (int treeType) bl;
       s \<leftarrow> switch_block_type maxBlockType treeType code (s\<lparr>ds_br := br, ds_blockLength := bls\<rparr>);
       Some (True, s) }
     else (let memento = saveState (ds_br s) in do {
       (x, br) \<leftarrow> safeReadSymbol typeTree (ds_br s);
       case x of
         None \<Rightarrow> Some (False, s\<lparr>ds_br := br\<rparr>)
       | Some code \<Rightarrow> do {
           (y, s) \<leftarrow> safeReadBlockLength lenTree (s\<lparr>ds_br := br\<rparr>);
           case y of
             None \<Rightarrow> Some (False, s\<lparr>ds_substateReadBlockLength := readBlockLengthNone,
                                     ds_br := restoreState memento (ds_br s)\<rparr>)
           | Some bl \<Rightarrow> do {
               bls \<leftarrow> go_update (ds_blockLength s) (int treeType) bl;
               s \<leftarrow> switch_block_type maxBlockType treeType code (s\<lparr>ds_blockLength := bls\<rparr>);
               Some (True, s) } } }) } }"


subsection \<open>Literal trees\<close>

text \<open>\<^verbatim>\<open>trivialLiteralContexts\<close> has a bit per block type; an index past the 8 words is a panic.\<close>

fun trivial_loop :: "byte list \<Rightarrow> byte \<Rightarrow> nat list \<Rightarrow> bool option" where
  "trivial_loop cmap sample [] = Some True"
| "trivial_loop cmap sample (j # js) = do {
     x \<leftarrow> go_index cmap (int j);
     if x \<noteq> sample then Some False else trivial_loop cmap sample js }"

definition trivial_block :: "byte list \<Rightarrow> nat \<Rightarrow> bool option" where
  "trivial_block cmap i = (let offset = i * 2 ^ LiteralContextBits in do {
     sample \<leftarrow> go_index cmap (int offset);
     trivial_loop cmap sample [offset..<offset + 2 ^ LiteralContextBits] })"

fun detect_loop :: "byte list \<Rightarrow> nat list \<Rightarrow> u32 list \<Rightarrow> u32 list option" where
  "detect_loop cmap [] ws = Some ws"
| "detect_loop cmap (i # is) ws = do {
     t \<leftarrow> trivial_block cmap i;
     if t then do {
       w \<leftarrow> go_index ws (int (i div 32));
       detect_loop cmap is (ws[i div 32 := w OR push_bit (i mod 32) 1]) }
     else detect_loop cmap is ws }"

definition detectTrivialLiteralBlockTypes :: "decodeState \<Rightarrow> decodeState option" where
  "detectTrivialLiteralBlockTypes s = do {
     ws \<leftarrow> detect_loop (sl_list (ds_contextMap s)) [0..<ds_numBlockTypes s ! 0] (replicate 8 0);
     Some (s\<lparr>ds_trivialLiteralContexts := ws\<rparr>) }"

fun offsets_loop :: "byte list \<Rightarrow> int goslice \<Rightarrow> nat list \<Rightarrow> int list \<Rightarrow> int list option" where
  "offsets_loop ctxMap htrees [] offs = Some offs"
| "offsets_loop ctxMap htrees (ctx # cs) offs = do {
     m \<leftarrow> go_index ctxMap (int ctx);
     o1 \<leftarrow> sl_get htrees (uint m);
     offs \<leftarrow> go_update offs (int ctx) o1;
     offsets_loop ctxMap htrees cs offs }"

definition prepareLiteralDecoding :: "decodeState \<Rightarrow> decodeState option" where
  "prepareLiteralDecoding s =
     (let blockType = ds_blockTypeRB s ! 1;
          idx = int (blockType * 2 ^ LiteralContextBits);
          cmap = sl_list (ds_contextMap s);
          htrees = g_htrees (ds_literalHGroup s);
          codes = sl_list (g_codes (ds_literalHGroup s)) in do {
      w \<leftarrow> go_index (ds_trivialLiteralContexts s) (int (blockType div 32));
      let trivial = (if bit w (blockType mod 32) then 1 else 0);
      m \<leftarrow> go_index cmap idx;
      o1 \<leftarrow> sl_get htrees (uint m);
      tree \<leftarrow> go_slice codes o1 (int (length codes));
      mode \<leftarrow> sl_get (ds_contextModes s) (int blockType);
      lookup \<leftarrow> go_slice ContextLookupTable (int (unat (mode AND 3) * 2 ^ 9)) (int (length ContextLookupTable));
      let s = s\<lparr>ds_contextMapSliceIdx := idx, ds_trivialLiteralContext := trivial, ds_literalHTree := tree,
                ds_contextLookup := lookup\<rparr>;
      if trivial = 0 then do {
        ctxMap \<leftarrow> go_slice cmap idx (int (length cmap));
        offs \<leftarrow> offsets_loop ctxMap htrees [0..<64] (ds_literalCodesOffsets s);
        Some (s\<lparr>ds_literalCodesOffsets := offs\<rparr>) }
      else Some s })"


subsection \<open>Distances\<close>

definition dist_value :: "nat \<Rightarrow> nat \<Rightarrow> u64 \<Rightarrow> int" where
  "dist_value off postfix bits = (let n = uadd off (shl (unat bits) postfix) in
     if n < 2 ^ 63 then int n else int n - 2 ^ 64)"

definition readDistance :: "decodeState \<Rightarrow> (decoderResult \<times> decodeState) option" where
  "readDistance s = do {
     let codes = sl_list (g_codes (ds_distanceHGroup s));
     distTree \<leftarrow> go_slice codes (ds_distCodesOffset s) (int (length codes));
     if checkInputAmount (ds_br s) then do {
       br \<leftarrow> fillBitWindow (ds_br s);
       (code, br) \<leftarrow> decodeSymbol (br_val br) distTree br;
       bl \<leftarrow> go_index (ds_blockLength s) 2;
       let s = s\<lparr>ds_br := br, ds_blockLength := (ds_blockLength s)[2 := usub bl 1], ds_distanceContext := 0\<rparr>;
       if code < 16 then do {
         s \<leftarrow> takeDistanceFromRingBuffer (s\<lparr>ds_distanceCode := int code\<rparr>);
         Some (ResultSuccess, s) }
       else do {
         (nbits, off) \<leftarrow> distExtra (ds_bodyArena s) code;
         (bits, br) \<leftarrow> readBits32 nbits (ds_br s);
         Some (ResultSuccess, s\<lparr>ds_br := br, ds_distanceCode := dist_value off (ds_distancePostfixBits s) bits\<rparr>) } }
     else (let memento = saveState (ds_br s) in do {
       (x, br) \<leftarrow> safeReadSymbol distTree (ds_br s);
       case x of
         None \<Rightarrow> Some (ResultNeedsMoreInput, s\<lparr>ds_br := br\<rparr>)
       | Some code \<Rightarrow> do {
           bl \<leftarrow> go_index (ds_blockLength s) 2;
           let s = s\<lparr>ds_br := br, ds_blockLength := (ds_blockLength s)[2 := usub bl 1], ds_distanceContext := 0\<rparr>;
           if code < 16 then do {
             s \<leftarrow> takeDistanceFromRingBuffer (s\<lparr>ds_distanceCode := int code\<rparr>);
             Some (ResultSuccess, s) }
           else do {
             (nbits, off) \<leftarrow> distExtra (ds_bodyArena s) code;
             (y, br) \<leftarrow> (if nbits \<noteq> 0 then safeReadBits32 nbits (ds_br s) else Some (Some 0, ds_br s));
             case y of
               None \<Rightarrow> Some (ResultNeedsMoreInput, s\<lparr>ds_blockLength := (ds_blockLength s)[2 := uadd (usub bl 1) 1],
                                ds_br := restoreState memento br\<rparr>)
             | Some bits \<Rightarrow> Some (ResultSuccess,
                 s\<lparr>ds_br := br, ds_distanceCode := dist_value off (ds_distancePostfixBits s) bits\<rparr>) } } }) }"


subsection \<open>Batches of literals\<close>

text \<open>The local variables \<^verbatim>\<open>val\<close>, \<^verbatim>\<open>bitPos\<close>, \<^verbatim>\<open>brPos\<close>, refilled as in \<^verbatim>\<open>refill64\<close>.\<close>

type_synonym acc = "u64 \<times> nat \<times> int"

definition batch_refill :: "byte list \<Rightarrow> acc \<Rightarrow> acc option" where
  "batch_refill inp = (\<lambda>(v, bp, pos).
     if bp < HuffmanMaxCodeLength
     then do { x \<leftarrow> load64 inp pos; Some (v OR push_bit (bp mod 64) x, bp OR 56, pos + int (usub 63 bp div 8)) }
     else Some (v, bp, pos))"

definition batch_symbol :: "HuffmanCode list \<Rightarrow> int \<Rightarrow> acc \<Rightarrow> (nat \<times> acc) option" where
  "batch_symbol codes offset = (\<lambda>(v, bp, pos).
     let idx = v AND huffmanTableMask in do {
       raw \<leftarrow> huffmanEntry codes offset idx;
       let drop1 = raw AND 0xFF;
       let val1 = drop_bit 16 raw;
       (drop1, val1) \<leftarrow> (if drop1 > huffmanTableBits then
          (let nbits = drop1 - huffmanTableBits;
               idx2 = idx + of_nat val1 + (drop_bit huffmanTableBits v AND bitMask nbits) in do {
             raw \<leftarrow> huffmanEntry codes offset idx2;
             Some (huffmanTableBits + (raw AND 0xFF), drop_bit 16 raw) })
        else Some (drop1, val1));
       Some (val1, drop_bit (drop1 mod 64) v, usub bp drop1, pos) })"

fun batch_loop :: "byte list \<Rightarrow> HuffmanCode list \<Rightarrow> nat \<Rightarrow> int \<Rightarrow> byte list \<Rightarrow> acc \<Rightarrow> (byte list \<times> acc) option" where
  "batch_loop inp table 0 j dst a = Some (dst, a)"
| "batch_loop inp table (Suc n) j dst a = do {
     a \<leftarrow> batch_refill inp a;
     (x, a) \<leftarrow> batch_symbol table 0 a;
     dst \<leftarrow> go_update dst j (of_nat x);
     batch_loop inp table n (j + 1) dst a }"

definition acc_of :: "bitReader \<Rightarrow> acc" where
  "acc_of br = (br_val br, br_bitPos br, br_pos br)"

definition put_acc :: "acc \<Rightarrow> bitReader \<Rightarrow> bitReader" where
  "put_acc a br = br\<lparr>br_val := fst a, br_bitPos := fst (snd a), br_pos := snd (snd a)\<rparr>"

definition decodeLiteralsBatch :: "byte list \<Rightarrow> nat \<Rightarrow> HuffmanCode list \<Rightarrow> bitReader \<Rightarrow> (byte list \<times> bitReader) option" where
  "decodeLiteralsBatch dst n table br = do {
     (dst, a) \<leftarrow> batch_loop (br_input br) table n 0 dst (acc_of br);
     Some (dst, put_acc a br) }"

fun context_loop :: "byte list \<Rightarrow> HuffmanCode list \<Rightarrow> int list \<Rightarrow> byte list \<Rightarrow> nat \<Rightarrow> int \<Rightarrow> byte list \<Rightarrow> nat \<Rightarrow> nat \<Rightarrow> acc
    \<Rightarrow> (byte list \<times> nat \<times> nat \<times> acc) option" where
  "context_loop inp codes offsets lookup 0 j dst c1 c2 a = Some (dst, c1, c2, a)"
| "context_loop inp codes offsets lookup (Suc n) j dst c1 c2 a = do {
     a \<leftarrow> batch_refill inp a;
     x \<leftarrow> go_index lookup (int c1);
     y \<leftarrow> go_index lookup (int (uadd 256 c2));
     offset \<leftarrow> go_index offsets (int (unat x OR unat y));
     (val1, a) \<leftarrow> batch_symbol codes offset a;
     dst \<leftarrow> go_update dst j (of_nat val1);
     context_loop inp codes offsets lookup n (j + 1) dst val1 c1 a }"

definition decodeLiteralsContextBatch ::
  "byte list \<Rightarrow> nat \<Rightarrow> decodeState \<Rightarrow> byte list \<Rightarrow> byte \<Rightarrow> byte \<Rightarrow> bitReader \<Rightarrow> (byte list \<times> byte \<times> byte \<times> bitReader) option" where
  "decodeLiteralsContextBatch dst n s lookup p1 p2 br = do {
     (dst, c1, c2, a) \<leftarrow> context_loop (br_input br) (sl_list (g_codes (ds_literalHGroup s))) (ds_literalCodesOffsets s)
        lookup n 0 dst (unat p1) (unat p2) (acc_of br);
     Some (dst, of_nat c1, of_nat c2, put_acc a br) }"


subsection \<open>A block switch\<close>

definition type_tree :: "nat \<Rightarrow> decodeState \<Rightarrow> HuffmanCode list" where
  "type_tree t s = drop (t * huffmanMaxSize258) (sl_list (ds_blockTypeTrees s))"

definition length_tree :: "nat \<Rightarrow> decodeState \<Rightarrow> HuffmanCode list" where
  "length_tree t s = drop (t * huffmanMaxSize26) (blockLenTrees s)"

definition block_setup :: "nat \<Rightarrow> decodeState \<Rightarrow> bool" where
  "block_setup t s \<longleftrightarrow> t < 3 \<and> length (ds_numBlockTypes s) = 3 \<and> length (ds_blockLength s) = 3 \<and>
     length (ds_blockTypeRB s) = 6 \<and> ds_numBlockTypes s ! t \<le> 256 \<and> ds_substateReadBlockLength s = readBlockLengthNone \<and>
     table_ok (type_tree t s) \<and> symbols_below (ds_numBlockTypes s ! t + 2) (type_tree t s) \<and>
     table_ok (length_tree t s) \<and> symbols_below 26 (length_tree t s) \<and>
     (1 < ds_numBlockTypes s ! t \<longrightarrow> ds_blockTypeRB s ! (2 * t) < ds_numBlockTypes s ! t \<and>
        ds_blockTypeRB s ! (2 * t + 1) < ds_numBlockTypes s ! t)"

text \<open>The rule of RFC 7932 section 6: 0 is the previous block type, 1 the next one, other codes name a type.\<close>

definition rfc_block_type :: "nat \<Rightarrow> nat \<Rightarrow> nat \<Rightarrow> nat \<Rightarrow> nat" where
  "rfc_block_type n prev cur code = (if code = 0 then prev else if code = 1 then (cur + 1) mod n else code - 2)"

lemma next_block_type_rfc:
  assumes "prev < n" and "cur < n" and "code < n + 2" and "n \<le> 256"
  shows "next_block_type n prev cur code = rfc_block_type n prev cur code" and "rfc_block_type n prev cur code < n"
  using assms by (auto simp: next_block_type_def rfc_block_type_def Let_def mod_if)

definition p_block_switch :: "nat \<Rightarrow> decodeState \<Rightarrow> bool list \<Rightarrow> (nat \<times> nat) parse" where
  "p_block_switch t s = p_symbol (type_tree t s) (\<lambda>code. p_symbol (length_tree t s)
     (\<lambda>l. p_bits (BlockLengthNBits ! l) (\<lambda>x. Good (code, BlockLengthOffset ! l + x))))"

definition switched :: "nat \<Rightarrow> nat \<Rightarrow> nat \<Rightarrow> bitReader \<Rightarrow> decodeState \<Rightarrow> decodeState" where
  "switched t code len br s = s\<lparr>ds_br := br, ds_blockLength := (ds_blockLength s)[t := len],
     ds_blockTypeRB := (ds_blockTypeRB s)[2 * t := ds_blockTypeRB s ! (2 * t + 1), 2 * t + 1 :=
       rfc_block_type (ds_numBlockTypes s ! t) (ds_blockTypeRB s ! (2 * t)) (ds_blockTypeRB s ! (2 * t + 1)) code]\<rparr>"

lemma switch_block_type_ok:
  assumes "t < 3" and "length (ds_blockTypeRB s) = 6" and "n \<le> 256" and "code < n + 2"
    and "ds_blockTypeRB s ! (2 * t) < n" and "ds_blockTypeRB s ! (2 * t + 1) < n"
  shows "switch_block_type n t code s = Some (s\<lparr>ds_blockTypeRB := (ds_blockTypeRB s)[2 * t := ds_blockTypeRB s ! (2 * t + 1),
     2 * t + 1 := rfc_block_type n (ds_blockTypeRB s ! (2 * t)) (ds_blockTypeRB s ! (2 * t + 1)) code]\<rparr>)"
proof -
  have "go_index (ds_blockTypeRB s) (int (2 * t)) = Some (ds_blockTypeRB s ! (2 * t))"
    "go_index (ds_blockTypeRB s) (int (2 * t + 1)) = Some (ds_blockTypeRB s ! (2 * t + 1))"
    unfolding go_index_Some using assms(1,2) by simp_all
  then show ?thesis
    unfolding switch_block_type_def mult.commute [of t 2] next_block_type_rfc(1) [OF assms(5,6,4,3), symmetric]
    by (simp only: Option.bind.bind_lunit)
qed

lemma go_slice_drop: "i \<le> length xs \<Longrightarrow> go_slice xs (int i) (int (length xs)) = Some (drop i xs)"
  by (simp add: go_slice_def)

lemma tree_slices:
  assumes "table_ok (type_tree t s)" and "table_ok (length_tree t s)"
  shows "(let x = sl_list (ds_blockTypeTrees s) in go_slice x (int (t * huffmanMaxSize258)) (int (length x))) = Some (type_tree t s)"
    and "(let x = blockLenTrees s in go_slice x (int (t * huffmanMaxSize26)) (int (length x))) = Some (length_tree t s)"
proof -
  have "256 \<le> length (type_tree t s)" "256 \<le> length (length_tree t s)" using assms by (auto simp: table_ok_def)
  then have "t * huffmanMaxSize258 \<le> length (sl_list (ds_blockTypeTrees s))" "t * huffmanMaxSize26 \<le> length (blockLenTrees s)"
    by (auto simp: type_tree_def length_tree_def)
  then show "(let x = sl_list (ds_blockTypeTrees s) in go_slice x (int (t * huffmanMaxSize258)) (int (length x))) = Some (type_tree t s)"
    "(let x = blockLenTrees s in go_slice x (int (t * huffmanMaxSize26)) (int (length x))) = Some (length_tree t s)"
    unfolding Let_def type_tree_def length_tree_def by (simp_all only: go_slice_drop)
qed

lemma block_suffix_ok:
  assumes "index < 26" and "br_inv (ds_br s)"
  obtains y b s' where "block_suffix index s = Some (y, s')" "br_inv b" "ds_br s' = b"
    "if BlockLengthNBits ! index \<le> length (br_bits (ds_br s))
     then y = Some (BlockLengthOffset ! index + val_of (take (BlockLengthNBits ! index) (br_bits (ds_br s)))) \<and>
       s' = s\<lparr>ds_br := b, ds_substateReadBlockLength := readBlockLengthNone\<rparr> \<and>
       br_bits b = drop (BlockLengthNBits ! index) (br_bits (ds_br s))
     else y = None \<and> s' = s\<lparr>ds_br := b, ds_blockLengthIndex := index, ds_substateReadBlockLength := readBlockLengthSuffix\<rparr>"
    "br_input b = br_input (ds_br s)" "br_inputLen b = br_inputLen (ds_br s)" "br_fastEnd b = br_fastEnd (ds_br s)"
proof -
  let ?n = "BlockLengthNBits ! index"
  note bt = block_tables [OF assms(1)]
  obtain b x where x: "safeReadBits ?n (ds_br s) = Some (x, b)" "br_inv b"
    "if ?n \<le> length (br_bits (ds_br s))
     then map_option unat x = Some (val_of (take ?n (br_bits (ds_br s)))) \<and> br_bits b = drop ?n (br_bits (ds_br s)) else x = None"
    "br_input b = br_input (ds_br s)" "br_inputLen b = br_inputLen (ds_br s)" "br_fastEnd b = br_fastEnd (ds_br s)"
    using safeReadBits_ok [OF assms(2), of ?n] bt(3) by (auto split: if_splits)
  show thesis
  proof (cases "?n \<le> length (br_bits (ds_br s))")
    case False
    then have "x = None" using x(3) by simp
    then have "block_suffix index s = Some (None, s\<lparr>ds_br := b, ds_blockLengthIndex := index,
        ds_substateReadBlockLength := readBlockLengthSuffix\<rparr>)"
      unfolding block_suffix_def using x(1) by (simp only: bt(1,2) Option.bind.bind_lunit prod.case option.case)
    then show ?thesis by (rule that [where b = b]) (use False x in simp_all)
  next
    case True
    then obtain v where v: "x = Some v" "unat v = val_of (take ?n (br_bits (ds_br s)))" using x(3) by auto
    have "unat v < 2 ^ ?n" using v(2) True val_of_lt [of "take ?n (br_bits (ds_br s))"] by simp
    also have "\<dots> \<le> 2 ^ 24" using bt(3) by (intro power_increasing) auto
    finally have u: "uadd (BlockLengthOffset ! index) (unat v) = BlockLengthOffset ! index + unat v"
      using bt(4) by (intro uadd_exact) simp
    have "block_suffix index s = Some (Some (BlockLengthOffset ! index + unat v),
       s\<lparr>ds_br := b, ds_substateReadBlockLength := readBlockLengthNone\<rparr>)"
      unfolding block_suffix_def by (simp only: bt(1,2) x(1) v(1) u Option.bind.bind_lunit prod.case option.case)
    then show ?thesis by (rule that [where b = b]) (use True x v(2) in simp_all)
  qed
qed

text \<open>At the end of a chunk the switch is read completely or not at all; a failed attempt leaves a trace only in
  \<open>ds_blockLengthIndex\<close>, which is not read before it is written.\<close>

lemma decodeBlockTypeAndLength_safe:
  assumes "block_setup t s" and "1 < ds_numBlockTypes s ! t" and "br_inv (ds_br s)"
  obtains br j where "br_inv br" and "case p_block_switch t s (br_bits (ds_br s)) of
      Good (code, len) rest \<Rightarrow> decodeBlockTypeAndLength True t s = Some (True, switched t code len br s) \<and> br_bits br = rest
    | Short \<Rightarrow> decodeBlockTypeAndLength True t s = Some (False, s\<lparr>ds_br := br, ds_blockLengthIndex := j\<rparr>) \<and>
        br_bits br = br_bits (ds_br s)
    | Bad e \<Rightarrow> False"
proof -
  note st = assms(1) [unfolded block_setup_def]
  have ok: "table_ok (type_tree t s)" "table_ok (length_tree t s)" using st by auto
  note ts = tree_slices [OF ok]
  have n: "go_index (ds_numBlockTypes s) (int t) = Some (ds_numBlockTypes s ! t)" using st by simp
  obtain code d where l1: "sym_look (type_tree t s) (window (br_bits (ds_br s))) = Some (code, d)"
    using table_okD [OF ok(1) window_less] by metis
  have code: "code < ds_numBlockTypes s ! t + 2" using st l1 window_less unfolding symbols_below_def by blast
  obtain x b1 where x: "safeReadSymbol (type_tree t s) (ds_br s) = Some (x, b1)" "br_inv b1"
    "if d \<le> length (br_bits (ds_br s)) then x = Some code \<and> br_bits b1 = drop d (br_bits (ds_br s))
     else x = None \<and> br_bits b1 = br_bits (ds_br s)"
    "br_input b1 = br_input (ds_br s)" "br_inputLen b1 = br_inputLen (ds_br s)" "br_fastEnd b1 = br_fastEnd (ds_br s)"
    using safeReadSymbol_ok [OF ok(1) assms(3) l1] by auto
  note unf = decodeBlockTypeAndLength_def n Option.bind.bind_lunit ts x(1) prod.case
  have notle: "\<not> ds_numBlockTypes s ! t \<le> 1" using assms(2) by simp
  show thesis
  proof (cases "d \<le> length (br_bits (ds_br s))")
    case False
    then have "p_block_switch t s (br_bits (ds_br s)) = Short" by (simp add: p_block_switch_def p_symbol_def l1)
    moreover have "decodeBlockTypeAndLength True t s = Some (False, s\<lparr>ds_br := b1\<rparr>)"
      unfolding unf using False x(3) assms(2) by (simp add: Let_def)
    ultimately show ?thesis using that [of b1 "ds_blockLengthIndex s"] x(2,3) False by simp
  next
    case True
    then have x': "x = Some code" "br_bits b1 = drop d (br_bits (ds_br s))" using x(3) by auto
    obtain idx d2 where l2: "sym_look (length_tree t s) (window (br_bits b1)) = Some (idx, d2)"
      using table_okD [OF ok(2) window_less] by metis
    have idx: "idx < 26" using st l2 window_less unfolding symbols_below_def by blast
    let ?n = "BlockLengthNBits ! idx"
    have p: "p_block_switch t s (br_bits (ds_br s)) = (if d2 \<le> length (br_bits b1) then
        p_bits ?n (\<lambda>x. Good (code, BlockLengthOffset ! idx + x)) (drop d2 (br_bits b1)) else Short)"
      using True l2 by (simp add: p_block_switch_def p_symbol_def [of _ _ "br_bits (ds_br s)"] l1 x'(2) p_symbol_def)
    obtain y b2 where y: "safeReadSymbol (length_tree t s) b1 = Some (y, b2)" "br_inv b2"
      "if d2 \<le> length (br_bits b1) then y = Some idx \<and> br_bits b2 = drop d2 (br_bits b1) else y = None \<and> br_bits b2 = br_bits b1"
      "br_input b2 = br_input b1" "br_inputLen b2 = br_inputLen b1" "br_fastEnd b2 = br_fastEnd b1"
      using safeReadSymbol_ok [OF ok(2) x(2) l2] by auto
    have sub: "ds_substateReadBlockLength s = readBlockLengthNone" using st by simp
    have sr: "safeReadBlockLength (length_tree t s) (s\<lparr>ds_br := b1\<rparr>) =
        (case y of None \<Rightarrow> Some (None, s\<lparr>ds_br := b1, ds_br := b2\<rparr>)
         | Some index \<Rightarrow> block_suffix index (s\<lparr>ds_br := b1, ds_br := b2\<rparr>))"
      unfolding safeReadBlockLength_def using sub y(1) by simp
    have rest_st: "restoreState (saveState (ds_br s)) b = ds_br s"
      if "br_input b = br_input b2" "br_inputLen b = br_inputLen b2" "br_fastEnd b = br_fastEnd b2" for b
      using restoreState_saveState that x(4-6) y(4-6) by simp
    have fail: "decodeBlockTypeAndLength True t s = Some (False, s2\<lparr>ds_substateReadBlockLength := readBlockLengthNone,
        ds_br := ds_br s\<rparr>)"
      if "safeReadBlockLength (length_tree t s) (s\<lparr>ds_br := b1\<rparr>) = Some (None, s2)"
        "restoreState (saveState (ds_br s)) (ds_br s2) = ds_br s" for s2
      unfolding unf x'(1) using that assms(2) by (simp add: Let_def)
    show ?thesis
    proof (cases "d2 \<le> length (br_bits b1)")
      case False
      then have yN: "y = None" using y(3) by simp
      have "decodeBlockTypeAndLength True t s = Some (False, s\<lparr>ds_br := ds_br s\<rparr>)"
        using fail [of "s\<lparr>ds_br := b1, ds_br := b2\<rparr>"] sr yN rest_st [of b2] by (simp flip: sub)
      then show ?thesis using that [of "ds_br s" "ds_blockLengthIndex s"] assms(3) p False by simp
    next
      case True
      then have y': "y = Some idx" "br_bits b2 = drop d2 (br_bits b1)" using y(3) by auto
      let ?s2 = "s\<lparr>ds_br := b1, ds_br := b2\<rparr>"
      have inv2: "br_inv (ds_br ?s2)" using y(2) by simp
      obtain z b3 s3 where z: "block_suffix idx ?s2 = Some (z, s3)" "br_inv b3" "ds_br s3 = b3"
        "if ?n \<le> length (br_bits (ds_br ?s2))
         then z = Some (BlockLengthOffset ! idx + val_of (take ?n (br_bits (ds_br ?s2)))) \<and>
           s3 = ?s2\<lparr>ds_br := b3, ds_substateReadBlockLength := readBlockLengthNone\<rparr> \<and>
           br_bits b3 = drop ?n (br_bits (ds_br ?s2))
         else z = None \<and> s3 = ?s2\<lparr>ds_br := b3, ds_blockLengthIndex := idx, ds_substateReadBlockLength := readBlockLengthSuffix\<rparr>"
        "br_input b3 = br_input (ds_br ?s2)" "br_inputLen b3 = br_inputLen (ds_br ?s2)" "br_fastEnd b3 = br_fastEnd (ds_br ?s2)"
        by (rule block_suffix_ok [OF idx inv2])
      show ?thesis
      proof (cases "?n \<le> length (br_bits b2)")
        case False
        then have s3: "z = None" "s3 = ?s2\<lparr>ds_br := b3, ds_blockLengthIndex := idx, ds_substateReadBlockLength := readBlockLengthSuffix\<rparr>"
          using z(4) by simp_all
        have "decodeBlockTypeAndLength True t s = Some (False, s\<lparr>ds_br := ds_br s, ds_blockLengthIndex := idx\<rparr>)"
          using fail [of s3] sr y'(1) z(1,3) s3 sub rest_st [of b3] z(5-7) by simp
        then show ?thesis using that [of "ds_br s" idx] assms(3) p True False y'(2) by (simp add: p_bits_def)
      next
        case more: True
        let ?len = "BlockLengthOffset ! idx + val_of (take ?n (br_bits b2))"
        have s3: "z = Some ?len" "s3 = ?s2\<lparr>ds_br := b3, ds_substateReadBlockLength := readBlockLengthNone\<rparr>"
          "br_bits b3 = drop ?n (br_bits b2)" using z(4) more by simp_all
        have sr': "safeReadBlockLength (length_tree t s) (s\<lparr>ds_br := b1\<rparr>) = Some (Some ?len, s3)"
          using sr y'(1) z(1) s3(1) by simp
        have "decodeBlockTypeAndLength True t s = Some (True, switched t code ?len b3 s)"
        proof -
          have s3': "s3 = s\<lparr>ds_br := b3\<rparr>" using s3(2) by (simp flip: sub)
          have "switch_block_type (ds_numBlockTypes s ! t) t code (s\<lparr>ds_br := b3, ds_blockLength := (ds_blockLength s)[t := ?len]\<rparr>) =
              Some (switched t code ?len b3 s)"
            using st assms(2) code by (subst switch_block_type_ok) (simp_all add: switched_def)
          moreover have "go_update (ds_blockLength s) (int t) ?len = Some ((ds_blockLength s)[t := ?len])"
            using st by (simp add: go_update_def)
          ultimately show ?thesis unfolding unf x'(1) sr' using notle s3' by (simp add: Let_def sr')
        qed
        then show ?thesis using that [of b3] z(2) p True more y'(2) s3(3) by (simp add: p_bits_def)
      qed
    qed
  qed
qed

text \<open>With input to spare the switch is read without checks.\<close>

lemma decodeBlockTypeAndLength_fast:
  assumes "block_setup t s" and "1 < ds_numBlockTypes s ! t" and "br_inv (ds_br s)" and "br_ready (ds_br s)"
    and "checkInputAmount (ds_br s)"
  obtains code len br where "decodeBlockTypeAndLength False t s = Some (True, switched t code len br s)" "br_inv br"
    "p_block_switch t s (br_bits (ds_br s)) = Good (code, len) (br_bits br)"
proof -
  note st = assms(1) [unfolded block_setup_def]
  have ok: "table_ok (type_tree t s)" "table_ok (length_tree t s)" using st by auto
  note ts = tree_slices [OF ok]
  have n: "go_index (ds_numBlockTypes s) (int t) = Some (ds_numBlockTypes s ! t)" using st by simp
  have room: "nat (br_pos (ds_br s)) + 32 \<le> length (br_input (ds_br s))" by (rule fast_room [OF assms(3-5)])
  obtain b1 where b1: "fillBitWindow (ds_br s) = Some b1" "br_inv b1" "br_bits b1 = br_bits (ds_br s)" "32 \<le> br_bitPos b1"
    using fillBitWindow_ok [OF assms(3)] room by auto
  have pos: "nat (br_pos b1) + 28 \<le> length (br_input b1)"
    using b1(1) room br_invD [OF assms(3)] by (auto simp: fillBitWindow_def nat_add_distrib split: if_splits bind_splits)
  have w: "15 \<le> br_bitPos b1" using b1(4) by simp
  obtain code d b2 where b2: "decodeSymbol (br_val b1) (type_tree t s) b1 = Some (code, b2)"
    "sym_look (type_tree t s) (window (br_bits b1)) = Some (code, d)" "d \<le> 15" "br_inv b2" "br_bits b2 = drop d (br_bits b1)"
    "br_bitPos b2 = br_bitPos b1 - d" "br_input b2 = br_input b1" "br_inputLen b2 = br_inputLen b1" "br_fastEnd b2 = br_fastEnd b1"
    "br_pos b2 = br_pos b1"
    by (rule decodeSymbol_ok [OF ok(1) b1(2) w window_unat [OF w]])
  have room2: "nat (br_pos b2) + 8 \<le> length (br_input b2)" using pos b2(7,10) by simp
  obtain len m b3 where b3: "readBlockLength (length_tree t s) b2 = Some (len, b3)"
    "block_length_at (length_tree t s) (br_bits b2) = Some (len, m)" "m \<le> length (br_bits b2)" "br_inv b3"
    "br_bits b3 = drop m (br_bits b2)"
    using readBlockLength_ok [OF ok(2) _ b2(4) room2] st by metis
  have code: "code < ds_numBlockTypes s ! t + 2" using st b2(2) window_less unfolding symbols_below_def by blast
  have dl: "d \<le> length (br_bits b1)" using length_br_bits [of b1] b1(4) b2(3) by simp
  obtain idx d2 where i: "sym_look (length_tree t s) (window (br_bits b2)) = Some (idx, d2)"
    "len = BlockLengthOffset ! idx + val_of (take (BlockLengthNBits ! idx) (drop d2 (br_bits b2)))" "m = d2 + BlockLengthNBits ! idx"
    using b3(2) by (auto simp: block_length_at_def split: bind_splits)
  have "p_block_switch t s (br_bits (ds_br s)) = Good (code, len) (br_bits b3)"
    using b1(3) b2(2,5) dl i b3(3,5) by (auto simp: p_block_switch_def p_symbol_def p_bits_def ac_simps)
  moreover have "decodeBlockTypeAndLength False t s = Some (True, switched t code len b3 s)"
  proof -
    have "switch_block_type (ds_numBlockTypes s ! t) t code (s\<lparr>ds_br := b3, ds_blockLength := (ds_blockLength s)[t := len]\<rparr>) =
        Some (switched t code len b3 s)"
      using st assms(2) code by (subst switch_block_type_ok) (simp_all add: switched_def)
    moreover have "go_update (ds_blockLength s) (int t) len = Some ((ds_blockLength s)[t := len])"
      using st by (simp add: go_update_def)
    ultimately show ?thesis
      unfolding decodeBlockTypeAndLength_def n Option.bind.bind_lunit ts using assms(2) b1(1) b2(1) b3(1) by simp
  qed
  ultimately show thesis using that b3(4) by blast
qed

lemma switched_trees [simp]:
  "type_tree t (switched u code len br s) = type_tree t s" "length_tree t (switched u code len br s) = length_tree t s"
  "ds_numBlockTypes (switched u code len br s) = ds_numBlockTypes s"
  "ds_substateReadBlockLength (switched u code len br s) = ds_substateReadBlockLength s"
  by (simp_all add: switched_def type_tree_def length_tree_def blockLenTrees_def cong: option.case_cong)

lemma switched_setup:
  assumes "block_setup t s" and "1 < ds_numBlockTypes s ! t" and "code < ds_numBlockTypes s ! t + 2"
  shows "block_setup t (switched t code len br s)"
proof -
  have r: "length (ds_blockLength (switched t code len br s)) = length (ds_blockLength s)"
    "length (ds_blockTypeRB (switched t code len br s)) = length (ds_blockTypeRB s)"
    by (simp_all add: switched_def)
  note st = assms(1) [unfolded block_setup_def]
  have rb: "ds_blockTypeRB (switched t code len br s) ! (2 * t) = ds_blockTypeRB s ! (2 * t + 1)"
    "ds_blockTypeRB (switched t code len br s) ! (2 * t + 1) =
      rfc_block_type (ds_numBlockTypes s ! t) (ds_blockTypeRB s ! (2 * t)) (ds_blockTypeRB s ! (2 * t + 1)) code"
    using st by (simp_all add: switched_def)
  show ?thesis unfolding block_setup_def switched_trees r rb
    using st assms(2,3) next_block_type_rfc(2) [of "ds_blockTypeRB s ! (2 * t)" "ds_numBlockTypes s ! t"
      "ds_blockTypeRB s ! (2 * t + 1)" code] by simp
qed

lemma p_block_switch_code:
  assumes "block_setup t s" and "p_block_switch t s bits = Good (code, len) rest"
  shows "code < ds_numBlockTypes s ! t + 2"
proof -
  have ok: "table_ok (type_tree t s)" "symbols_below (ds_numBlockTypes s ! t + 2) (type_tree t s)"
    using assms(1) by (simp_all add: block_setup_def)
  obtain c d where l: "sym_look (type_tree t s) (window bits) = Some (c, d)" using table_okD [OF ok(1) window_less] by metis
  then have "c < ds_numBlockTypes s ! t + 2" using ok(2) window_less unfolding symbols_below_def by blast
  moreover have "c = code"
    using assms(2) unfolding p_block_switch_def p_symbol_def l p_bits_def by (auto split: if_splits option.splits)
  ultimately show ?thesis by simp
qed

text \<open>C29. Reading a block switch: on input with slack and at the end of a chunk alike, the type code, the length code
  and its extra bits are read as the format prescribes, the block length is set, the ring of block types moves
  as RFC 7932 says and stays in range; when the chunk ends first, nothing of the stream is consumed and the
  state stays as it was.\<close>

theorem decodeBlockTypeAndLength_switches:
  assumes "block_setup t s" and "1 < ds_numBlockTypes s ! t" and "br_inv (ds_br s)" and "br_ready (ds_br s)"
    and "safe = (\<not> checkInputAmount (ds_br s))"
  shows "case p_block_switch t s (br_bits (ds_br s)) of
      Good (code, len) rest \<Rightarrow> \<exists>br. decodeBlockTypeAndLength safe t s = Some (True, switched t code len br s) \<and>
        br_inv br \<and> br_bits br = rest \<and> block_setup t (switched t code len br s)
    | Short \<Rightarrow> \<exists>br j. decodeBlockTypeAndLength safe t s = Some (False, s\<lparr>ds_br := br, ds_blockLengthIndex := j\<rparr>) \<and>
        br_inv br \<and> br_bits br = br_bits (ds_br s)
    | Bad e \<Rightarrow> False"
proof (cases "checkInputAmount (ds_br s)")
  case True
  obtain code len br where f: "decodeBlockTypeAndLength False t s = Some (True, switched t code len br s)" "br_inv br"
    "p_block_switch t s (br_bits (ds_br s)) = Good (code, len) (br_bits br)"
    by (rule decodeBlockTypeAndLength_fast [OF assms(1-4) True])
  have "safe = False" using assms(5) True by simp
  then show ?thesis using f switched_setup [OF assms(1,2) p_block_switch_code [OF assms(1) f(3)]] by auto
next
  case False
  obtain br j where br: "br_inv br" "case p_block_switch t s (br_bits (ds_br s)) of
      Good (code, len) rest \<Rightarrow> decodeBlockTypeAndLength True t s = Some (True, switched t code len br s) \<and> br_bits br = rest
    | Short \<Rightarrow> decodeBlockTypeAndLength True t s = Some (False, s\<lparr>ds_br := br, ds_blockLengthIndex := j\<rparr>) \<and>
        br_bits br = br_bits (ds_br s)
    | Bad e \<Rightarrow> False" by (rule decodeBlockTypeAndLength_safe [OF assms(1-3)])
  have safe: "safe = True" using assms(5) False by simp
  show ?thesis
  proof (cases "p_block_switch t s (br_bits (ds_br s))")
    case (Good x rest)
    obtain code len where "x = (code, len)" by force
    then show ?thesis using br Good safe switched_setup [OF assms(1,2) p_block_switch_code [OF assms(1)]] by auto
  qed (use br safe in auto)
qed

lemma const_look:
  assumes "256 \<le> length table" and "\<And>i. i < 256 \<Longrightarrow> table ! i = \<lparr>Bits = 0, Value = v\<rparr>"
  shows "sym_look table w = Some (v, 0)"
proof -
  have "go_index table (int (w mod 256)) = Some \<lparr>Bits = 0, Value = v\<rparr>"
    unfolding go_index_Some using assms(1) assms(2) [of "w mod 256"] by (simp add: less_le_trans [of _ 256])
  then show ?thesis by (simp only: sym_look_def Option.bind.bind_lunit) simp
qed

lemma const_table_ok:
  assumes "256 \<le> length table" and "length table < 2 ^ 32" and "\<And>i. i < 256 \<Longrightarrow> table ! i = \<lparr>Bits = 0, Value = v\<rparr>" and "v < 2 ^ 16"
  shows "table_ok table" and "v < n \<Longrightarrow> symbols_below n table"
  using assms const_look [OF assms(1,3)] by (simp_all add: table_ok_def symbols_below_def)

theorem decodeBlockTypeAndLength_switches_witness:
  "\<exists>s br. ds_br s = setInput [0xA5] zero_br \<and> ds_numBlockTypes s = [2, 2, 2] \<and>
     decodeBlockTypeAndLength True 1 s = Some (True, switched 1 0 2 br s) \<and> br_inv br"
proof -
  define s where "s = zero_state\<lparr>ds_br := setInput [0xA5] zero_br, ds_numBlockTypes := [2, 2, 2], ds_blockTypeRB := [1, 0, 1, 0, 1, 0],
     ds_blockTypeTrees := \<lparr>sl_data = replicate 3084 zeroCode, sl_len = 1896\<rparr>, ds_blockLenTrees := Some 1896\<rparr>"
  have f: "ds_br s = setInput [0xA5] zero_br" "ds_numBlockTypes s = [2, 2, 2]" "ds_blockTypeRB s = [1, 0, 1, 0, 1, 0]"
    "length (ds_blockLength s) = 3" "ds_substateReadBlockLength s = readBlockLengthNone"
    "type_tree 1 s = replicate 1264 zeroCode" "length_tree 1 s = replicate 792 zeroCode"
    by (simp_all add: s_def zero_state_def type_tree_def length_tree_def blockLenTrees_def sl_list_def huffmanMaxSize258_def
        huffmanMaxSize26_def)
  have ok: "table_ok (replicate n zeroCode)" "symbols_below (Suc k) (replicate n zeroCode)" if "256 \<le> n" "n < 2 ^ 32" for n k
    using const_table_ok(1) [of "replicate n zeroCode" 0] const_table_ok(2) [of "replicate n zeroCode" 0 "Suc k"] that
    by simp_all
  have set1: "block_setup 1 s" unfolding block_setup_def f
    using ok(1) [of 1264] ok(1) [of 792] ok(2) [of 1264 3] ok(2) [of 792 25] by (simp add: f)
  have inv: "br_inv (ds_br s)" "br_ready (ds_br s)" "\<not> checkInputAmount (ds_br s)"
    by (simp_all add: f setInput_def zero_br_def br_inv_def acc_ok_empty br_ready_def checkInputAmount_def fastInputSlack_def)
  have bits: "br_bits (setInput [0xA5] zero_br) = [True, False, True, False, False, True, False, True]"
    by (simp add: br_bits_def setInput_def zero_br_def bits_of_def upt_rec)
  have sym: "sym_look (replicate n zeroCode) w = Some (0, 0)" if "256 \<le> n" for n w
    using const_look [of "replicate n zeroCode" 0] that by simp
  have p: "p_block_switch 1 s (br_bits (ds_br s)) = Good (0, 2) (drop 2 (br_bits (ds_br s)))"
    unfolding p_block_switch_def p_symbol_def f bits p_block_length_def p_bits_def
    by (simp add: sym [of 1264, simplified] sym [of 792, simplified] BlockLengthOffset_def BlockLengthNBits_def)
  have "1 < ds_numBlockTypes s ! 1" and "True = (\<not> checkInputAmount (ds_br s))" using inv(3) f by simp_all
  then show ?thesis using decodeBlockTypeAndLength_switches [OF set1 _ inv(1,2)] p f(1,2) by fastforce
qed
end
