(* ===== verification/Decode_Huffman.thy ===== *)
theory Decode_Huffman
  imports Decode_Header Decode_Distance Decode_Symbol
begin

unbundle bit_operations_syntax

text \<open>
  Reading prefix codes and context maps, \<^verbatim>\<open>decode.go\<close>: the code length code, the code lengths with their repeat
  codes, simple codes, groups of codes, and context maps with their run lengths and move-to-front coding.

  Operations that take a slice take and return its contents; the table of \<open>readHuffmanCode\<close> is a view of
  \<open>h_contextMapTable\<close>, of a tree group or of the block type trees, and callers write it back. The loops over
  symbols are \<^verbatim>\<open>partial_function\<close>s: that they end is a theorem.
\<close>

subsection \<open>Constants\<close>

definition codeLengthPrefixLength :: "nat list" where
  "codeLengthPrefixLength = [2, 2, 2, 3, 2, 2, 2, 4, 2, 2, 2, 3, 2, 2, 2, 4]"

definition codeLengthPrefixValue :: "nat list" where
  "codeLengthPrefixValue = [0, 4, 3, 2, 0, 4, 3, 1, 0, 4, 3, 2, 0, 4, 3, 5]"


subsection \<open>One code length\<close>

text \<open>\<open>upd_header\<close> changes the header arena in place.\<close>

definition upd_header :: "(metablockHeaderArena \<Rightarrow> metablockHeaderArena) \<Rightarrow> decodeState \<Rightarrow> decodeState" where
  "upd_header f s = s\<lparr>ds_headerArena := f (ds_headerArena s)\<rparr>"

definition put_header :: "decodeState \<Rightarrow> metablockHeaderArena \<Rightarrow> decodeState" where
  "put_header s h = s\<lparr>ds_headerArena := h\<rparr>"

definition add_histo :: "nat \<Rightarrow> nat \<Rightarrow> metablockHeaderArena \<Rightarrow> metablockHeaderArena option" where
  "add_histo l n h = do {
     c \<leftarrow> go_index (h_codeLengthHisto h) (int l);
     xs \<leftarrow> go_update (h_codeLengthHisto h) (int l) ((c + n mod 2 ^ 16) mod 2 ^ 16);
     Some (h\<lparr>h_codeLengthHisto := xs\<rparr>) }"

text \<open>\<^verbatim>\<open>processSingleCodeLength\<close> before the symbol advances; the batched loop inlines it with the symbol in a
  local variable.\<close>

definition single_code :: "nat \<Rightarrow> nat \<Rightarrow> metablockHeaderArena \<Rightarrow> metablockHeaderArena option" where
  "single_code codeLen symbol h = (let h = h\<lparr>h_repeat := 0\<rparr> in
     if codeLen \<noteq> 0 then do {
       nxt \<leftarrow> go_index (h_nextSymbol h) (int codeLen);
       arr \<leftarrow> go_update (h_symbolListsArray h) (nxt + symListBase) (symbol mod 2 ^ 16);
       nxts \<leftarrow> go_update (h_nextSymbol h) (int codeLen) (int symbol);
       add_histo codeLen 1 (h\<lparr>h_symbolListsArray := arr, h_nextSymbol := nxts, h_prevCodeLen := codeLen,
         h_space := usub (h_space h) (32768 div 2 ^ codeLen)\<rparr>) }
     else Some h)"

definition processSingleCodeLength :: "nat \<Rightarrow> metablockHeaderArena \<Rightarrow> metablockHeaderArena option" where
  "processSingleCodeLength codeLen h = do {
     h \<leftarrow> single_code codeLen (h_symbol h) h;
     Some (h\<lparr>h_symbol := uadd (h_symbol h) 1\<rparr>) }"

text \<open>The loop that links \<open>n\<close> symbols of one length.\<close>

fun link_run :: "nat \<Rightarrow> nat \<Rightarrow> int \<Rightarrow> nat list \<Rightarrow> (int \<times> nat list) option" where
  "link_run 0 symbol nxt arr = Some (nxt, arr)"
| "link_run (Suc n) symbol nxt arr = do {
     arr \<leftarrow> go_update arr (nxt + symListBase) (symbol mod 2 ^ 16);
     link_run n (symbol + 1) (int symbol) arr }"

text \<open>\<^verbatim>\<open>processRepeatedCodeLength\<close> with the symbol as an argument and a result, as the batched loop has it.\<close>

definition repeat_code :: "nat \<Rightarrow> nat \<Rightarrow> nat \<Rightarrow> nat \<Rightarrow> metablockHeaderArena \<Rightarrow> (nat \<times> metablockHeaderArena) option" where
  "repeat_code codeLen repeatDelta alphabetSize symbol h =
     (let extraBits = (if codeLen = RepeatPreviousCodeLength then 2 else 3);
          newLen = (if codeLen = RepeatPreviousCodeLength then h_prevCodeLen h else 0);
          h = (if h_repeatCodeLen h \<noteq> newLen then h\<lparr>h_repeat := 0, h_repeatCodeLen := newLen\<rparr> else h);
          oldRepeat = h_repeat h;
          h = (if 0 < h_repeat h then h\<lparr>h_repeat := shl (usub (h_repeat h) 2) extraBits\<rparr> else h);
          h = h\<lparr>h_repeat := uadd (h_repeat h) (uadd repeatDelta 3)\<rparr>;
          delta = usub (h_repeat h) oldRepeat in
      if uadd symbol delta > alphabetSize then Some (alphabetSize, h\<lparr>h_space := 0xFFFFF\<rparr>)
      else if h_repeatCodeLen h \<noteq> 0 then do {
        nxt \<leftarrow> go_index (h_nextSymbol h) (int (h_repeatCodeLen h));
        (nxt, arr) \<leftarrow> link_run (uadd symbol delta - symbol) symbol nxt (h_symbolListsArray h);
        nxts \<leftarrow> go_update (h_nextSymbol h) (int (h_repeatCodeLen h)) nxt;
        h \<leftarrow> add_histo (h_repeatCodeLen h) delta (h\<lparr>h_symbolListsArray := arr, h_nextSymbol := nxts,
          h_space := usub (h_space h) (shl delta (usub 15 (h_repeatCodeLen h)))\<rparr>);
        Some (uadd symbol delta, h) }
      else Some (uadd symbol delta, h))"

definition processRepeatedCodeLength :: "nat \<Rightarrow> nat \<Rightarrow> nat \<Rightarrow> metablockHeaderArena \<Rightarrow> metablockHeaderArena option" where
  "processRepeatedCodeLength codeLen repeatDelta alphabetSize h = do {
     (symbol, h) \<leftarrow> repeat_code codeLen repeatDelta alphabetSize (h_symbol h) h;
     Some (h\<lparr>h_symbol := symbol\<rparr>) }"


subsection \<open>The code lengths\<close>

text \<open>The batched loop keeps the reader's fields and the symbol in local variables. A round of it; the flag says
  that the loop is left by the \<^verbatim>\<open>goto\<close>.\<close>

definition lengths_refill :: "byte list \<Rightarrow> u64 \<times> nat \<times> int \<Rightarrow> (u64 \<times> nat \<times> int) option" where
  "lengths_refill inp = (\<lambda>(v, bp, pos).
     if bp < 32 then do { x \<leftarrow> load32 inp pos; Some (v OR push_bit bp x, uadd bp 32, pos + 4) }
     else Some (v, bp, pos))"

definition lengths_round :: "int \<Rightarrow> nat \<Rightarrow> nat \<Rightarrow> u64 \<times> nat \<times> int \<Rightarrow> metablockHeaderArena
    \<Rightarrow> (bool \<times> (u64 \<times> nat \<times> int) \<times> nat \<times> metablockHeaderArena) option" where
  "lengths_round fastEnd alphabetSize symbol = (\<lambda>(v, bp, pos) h. do {
     raw \<leftarrow> huffmanEntry (h_table h) 0 (v AND 0x1F);
     let drop1 = raw AND 0xFF;
     let codeLen = drop_bit 16 raw;
     let bp = usub bp drop1;
     let v = drop_bit (drop1 mod 64) v;
     if codeLen \<ge> RepeatPreviousCodeLength then
       (let extraBits = (if codeLen = RepeatPreviousCodeLength then 2 else 3);
            repeatDelta = unat (v AND bitMask extraBits);
            bp = usub bp extraBits;
            v = drop_bit extraBits v in do {
        (symbol, h) \<leftarrow> repeat_code codeLen repeatDelta alphabetSize symbol h;
        Some (fastEnd < pos, (v, bp, pos), symbol, h) })
     else do {
       h \<leftarrow> single_code codeLen symbol h;
       Some (False, (v, bp, pos), uadd symbol 1, h) } })"

partial_function (option) lengths_fast :: "byte list \<Rightarrow> int \<Rightarrow> nat \<Rightarrow> nat \<Rightarrow> u64 \<times> nat \<times> int \<Rightarrow> metablockHeaderArena
    \<Rightarrow> ((u64 \<times> nat \<times> int) \<times> nat \<times> metablockHeaderArena) option" where
  "lengths_fast inp fastEnd alphabetSize symbol a h =
     (if symbol < alphabetSize \<and> 0 < h_space h then
        if fst (snd a) < 32 \<and> fastEnd < snd (snd a) then Some (a, symbol, h)
        else Option.bind (lengths_refill inp a) (\<lambda>a.
          Option.bind (lengths_round fastEnd alphabetSize symbol a h) (\<lambda>(stop, a, symbol, h).
            if stop then Some (a, symbol, h) else lengths_fast inp fastEnd alphabetSize symbol a h))
      else Some (a, symbol, h))"

definition fillBitWindow16 :: "bitReader \<Rightarrow> bitReader option" where
  "fillBitWindow16 br = fillBitWindow br"

text \<open>A round of the careful loop; the flag says that the input has ended.\<close>

definition lengths_step :: "nat \<Rightarrow> decodeState \<Rightarrow> (bool \<times> decodeState) option" where
  "lengths_step alphabetSize s = (let h = ds_headerArena s in
     if checkInputAmount (ds_br s) then do {
       br \<leftarrow> fillBitWindow16 (ds_br s);
       entry \<leftarrow> go_index (h_table h) (uint (bitsUnmasked br AND bitMask HuffmanMaxCodeLengthCodeLength));
       let br = dropBits (Bits entry) br;
       let codeLen = Value entry;
       if codeLen < RepeatPreviousCodeLength then do {
         h \<leftarrow> processSingleCodeLength codeLen h;
         Some (False, s\<lparr>ds_br := br, ds_headerArena := h\<rparr>) }
       else do {
         let extraBits = (if codeLen \<noteq> RepeatPreviousCodeLength then 3 else 2);
         let repeatDelta = unat (bitsUnmasked br AND bitMask extraBits);
         let br = dropBits extraBits br;
         h \<leftarrow> processRepeatedCodeLength codeLen repeatDelta alphabetSize h;
         Some (False, s\<lparr>ds_br := br, ds_headerArena := h\<rparr>) } }
     else do {
       let avail = availBits (ds_br s);
       let br = (if avail \<noteq> 0 then normalize (ds_br s) else ds_br s);
       let bits = (if avail \<noteq> 0 then bitsUnmasked br else 0);
       entry \<leftarrow> go_index (h_table h) (uint (bits AND bitMask HuffmanMaxCodeLengthCodeLength));
       if Bits entry > avail then do {
         (ok, br) \<leftarrow> pullByte br;
         Some (\<not> ok, s\<lparr>ds_br := br\<rparr>) }
       else let codeLen = Value entry in
         if codeLen < RepeatPreviousCodeLength then do {
           h \<leftarrow> processSingleCodeLength codeLen h;
           Some (False, s\<lparr>ds_br := dropBits (Bits entry) br, ds_headerArena := h\<rparr>) }
         else do {
           let extraBits = usub codeLen 14;
           let repeatDelta = unat (drop_bit (Bits entry) bits AND bitMask extraBits);
           if avail < uadd (Bits entry) extraBits then do {
             (ok, br) \<leftarrow> pullByte br;
             Some (\<not> ok, s\<lparr>ds_br := br\<rparr>) }
           else do {
             h \<leftarrow> processRepeatedCodeLength codeLen repeatDelta alphabetSize h;
             Some (False, s\<lparr>ds_br := dropBits (uadd (Bits entry) extraBits) br, ds_headerArena := h\<rparr>) } } })"

partial_function (option) lengths_slow :: "nat \<Rightarrow> decodeState \<Rightarrow> (decoderResult \<times> decodeState) option" where
  "lengths_slow alphabetSize s =
     (if h_symbol (ds_headerArena s) < alphabetSize \<and> 0 < h_space (ds_headerArena s) then
        Option.bind (lengths_step alphabetSize s) (\<lambda>(stop, s).
          if stop then Some (ResultNeedsMoreInput, s) else lengths_slow alphabetSize s)
      else Some (ResultSuccess, s))"

definition readSymbolCodeLengths :: "nat \<Rightarrow> decodeState \<Rightarrow> (decoderResult \<times> decodeState) option" where
  "readSymbolCodeLengths alphabetSize s = do {
     (ok, br) \<leftarrow> warmup (ds_br s);
     s \<leftarrow> (if checkInputAmount br then do {
              ((v, bp, pos), symbol, h) \<leftarrow> lengths_fast (br_input br) (br_fastEnd br) alphabetSize
                (h_symbol (ds_headerArena s)) (br_val br, br_bitPos br, br_pos br) (ds_headerArena s);
              Some (s\<lparr>ds_headerArena := h\<lparr>h_symbol := symbol\<rparr>,
                      ds_br := br\<lparr>br_val := v, br_bitPos := bp, br_pos := pos\<rparr>\<rparr>) }
            else Some (s\<lparr>ds_br := br\<rparr>));
     lengths_slow alphabetSize s }"


subsection \<open>The code length code\<close>

text \<open>The loop over the code lengths of the code length alphabet, with its local variables \<^verbatim>\<open>i\<close>, \<^verbatim>\<open>numCodes\<close>, \<^verbatim>\<open>space\<close>.
  \<open>Inl\<close> is the suspension, \<open>Inr\<close> the end of the loop.\<close>

definition clcl_peek :: "bitReader \<Rightarrow> ((nat \<times> bool) \<times> bitReader) option" where
  "clcl_peek br = do {
     (x, br) \<leftarrow> safeGetBits 4 br;
     case x of
       Some ix \<Rightarrow> Some ((unat ix, True), br)
     | None \<Rightarrow>
         (let avail = availBits br;
              br = (if avail \<noteq> 0 then normalize br else br);
              ix = (if avail \<noteq> 0 then unat (bitsUnmasked br AND 0xF) else 0) in do {
          l \<leftarrow> go_index codeLengthPrefixLength (int ix);
          Some ((ix, l \<le> avail), br) }) }"

function clcl_loop :: "nat \<Rightarrow> nat \<Rightarrow> nat \<Rightarrow> decodeState \<Rightarrow> (decodeState + nat \<times> nat \<times> decodeState) option" where
  "clcl_loop i numCodes space s =
     (if i < AlphabetSizeCodeLengths then do {
        codeLenIdx \<leftarrow> go_index CodeLengthCodeOrder (int i);
        ((ix, ok), br) \<leftarrow> clcl_peek (ds_br s);
        if \<not> ok then Some (Inl (upd_header (\<lambda>h. h\<lparr>h_subLoopCounter := i, h_repeat := numCodes, h_space := space,
            h_substateHuffman := huffmanComplex\<rparr>) (s\<lparr>ds_br := br\<rparr>)))
        else do {
          v \<leftarrow> go_index codeLengthPrefixValue (int ix);
          l \<leftarrow> go_index codeLengthPrefixLength (int ix);
          lengths \<leftarrow> go_update (h_codeLengthCodeLengths (ds_headerArena s)) (int codeLenIdx) v;
          let s = upd_header (\<lambda>h. h\<lparr>h_codeLengthCodeLengths := lengths\<rparr>) (s\<lparr>ds_br := dropBits l br\<rparr>);
          if v \<noteq> 0 then do {
            let space = usub space (32 div 2 ^ v);
            h \<leftarrow> add_histo v 1 (ds_headerArena s);
            let s = put_header s h;
            if usub space 1 \<ge> 32 then Some (Inr (uadd numCodes 1, space, s))
            else clcl_loop (i + 1) (uadd numCodes 1) space s }
          else clcl_loop (i + 1) numCodes space s } }
      else Some (Inr (numCodes, space, s)))"
  by pat_completeness auto
termination by (relation "measure (\<lambda>(i, n, sp, s). AlphabetSizeCodeLengths - i)") auto

declare clcl_loop.simps [simp del]

definition readCodeLengthCodeLengths :: "decodeState \<Rightarrow> (decoderResult \<times> decodeState) option" where
  "readCodeLengthCodeLengths s = (let h = ds_headerArena s in do {
     x \<leftarrow> clcl_loop (h_subLoopCounter h) (h_repeat h) (h_space h) s;
     case x of
       Inl s \<Rightarrow> Some (ResultNeedsMoreInput, s)
     | Inr (numCodes, space, s) \<Rightarrow>
         if numCodes \<noteq> 1 \<and> space \<noteq> 0
         then Some (ResultError, s\<lparr>ds_err := Some (decompressError ''invalid code length code space'')\<rparr>)
         else Some (ResultSuccess, s) })"


subsection \<open>Simple codes\<close>

definition simple_bits :: "nat \<Rightarrow> nat" where
  "simple_bits sizeMax = (if 1 < sizeMax then bits_Len (sizeMax - 1) else 0)"

function simple_loop :: "nat \<Rightarrow> nat \<Rightarrow> nat \<Rightarrow> nat \<Rightarrow> decodeState \<Rightarrow> (decoderResult \<times> decodeState) option" where
  "simple_loop maxBits limit numSymbols i s =
     (if i \<le> numSymbols then do {
        (x, br) \<leftarrow> safeReadBits maxBits (ds_br s);
        case x of
          None \<Rightarrow> Some (ResultNeedsMoreInput, upd_header (\<lambda>h. h\<lparr>h_subLoopCounter := i, h_substateHuffman := huffmanSimpleRead\<rparr>)
            (s\<lparr>ds_br := br\<rparr>))
        | Some v \<Rightarrow>
            if unat v \<ge> limit
            then Some (ResultError, s\<lparr>ds_br := br, ds_err := Some (decompressError ''simple huffman alphabet overflow'')\<rparr>)
            else do {
              arr \<leftarrow> go_update (h_symbolListsArray (ds_headerArena s)) (int i) (unat v mod 2 ^ 16);
              simple_loop maxBits limit numSymbols (i + 1) (upd_header (\<lambda>h. h\<lparr>h_symbolListsArray := arr\<rparr>) (s\<lparr>ds_br := br\<rparr>)) } }
      else Some (ResultSuccess, s))"
  by pat_completeness auto
termination by (relation "measure (\<lambda>(b, l, n, i, s). Suc n - i)") auto

declare simple_loop.simps [simp del]

definition simple_duplicates :: "nat list \<Rightarrow> nat \<Rightarrow> bool" where
  "simple_duplicates arr numSymbols \<longleftrightarrow>
     list_ex (\<lambda>i. list_ex (\<lambda>k. arr ! i = arr ! k) [i + 1..<numSymbols + 1]) [0..<numSymbols]"

definition readSimpleHuffmanSymbols :: "nat \<Rightarrow> nat \<Rightarrow> decodeState \<Rightarrow> (decoderResult \<times> decodeState) option" where
  "readSimpleHuffmanSymbols sizeMax sizeLimit s = (let h = ds_headerArena s in do {
     (r, s) \<leftarrow> simple_loop (simple_bits sizeMax) sizeLimit (h_symbol h) (h_subLoopCounter h) s;
     if r \<noteq> ResultSuccess then Some (r, s)
     else if simple_duplicates (h_symbolListsArray (ds_headerArena s)) (h_symbol h)
     then Some (ResultError, s\<lparr>ds_err := Some (decompressError ''duplicate simple huffman symbols'')\<rparr>)
     else Some (ResultSuccess, s) })"


subsection \<open>A prefix code\<close>

text \<open>One definition per case of the switch. The results are the outcome, the table, the table size, which
  \<^verbatim>\<open>optTableSize\<close> receives, and the state.\<close>

type_synonym code_result = "(decoderResult \<times> HuffmanCode list \<times> nat \<times> decodeState) option"

definition huffman_SimpleBuild :: "HuffmanCode list \<Rightarrow> decodeState \<Rightarrow> code_result" where
  "huffman_SimpleBuild table s = do {
     (ok, s) \<leftarrow> (if h_symbol (ds_headerArena s) = 3 then do {
        (x, br) \<leftarrow> safeReadBits 1 (ds_br s);
        case x of
          None \<Rightarrow> Some (False, upd_header (\<lambda>h. h\<lparr>h_substateHuffman := huffmanSimpleBuild\<rparr>) (s\<lparr>ds_br := br\<rparr>))
        | Some bs \<Rightarrow> Some (True, upd_header (\<lambda>h. h\<lparr>h_symbol := uadd (h_symbol h) (unat bs)\<rparr>) (s\<lparr>ds_br := br\<rparr>)) }
      else Some (True, s));
     if \<not> ok then Some (ResultNeedsMoreInput, table, 0, s)
     else do {
       let h = ds_headerArena s;
       val \<leftarrow> go_slice (h_symbolListsArray h) 0 4;
       (table, val, tableSize) \<leftarrow> BuildSimpleHuffmanTable table huffmanTableBits val (h_symbol h);
       Some (ResultSuccess, table, tableSize,
         put_header s (h\<lparr>h_symbolListsArray := overwrite (h_symbolListsArray h) 0 val, h_substateHuffman := huffmanNone\<rparr>)) } }"

definition huffman_SimpleRead :: "nat \<Rightarrow> nat \<Rightarrow> HuffmanCode list \<Rightarrow> decodeState \<Rightarrow> code_result" where
  "huffman_SimpleRead sizeMax sizeLimit table s = do {
     (r, s) \<leftarrow> readSimpleHuffmanSymbols sizeMax sizeLimit s;
     if r \<noteq> ResultSuccess then Some (r, table, 0, s) else huffman_SimpleBuild table s }"

definition huffman_SimpleSize :: "nat \<Rightarrow> nat \<Rightarrow> HuffmanCode list \<Rightarrow> decodeState \<Rightarrow> code_result" where
  "huffman_SimpleSize sizeMax sizeLimit table s = do {
     (x, br) \<leftarrow> safeReadBits 2 (ds_br s);
     case x of
       None \<Rightarrow> Some (ResultNeedsMoreInput, table, 0, upd_header (\<lambda>h. h\<lparr>h_substateHuffman := huffmanSimpleSize\<rparr>) (s\<lparr>ds_br := br\<rparr>))
     | Some bs \<Rightarrow> huffman_SimpleRead sizeMax sizeLimit table
         (upd_header (\<lambda>h. h\<lparr>h_symbol := unat bs, h_subLoopCounter := 0\<rparr>) (s\<lparr>ds_br := br\<rparr>)) }"

definition huffman_LengthSymbols :: "nat \<Rightarrow> HuffmanCode list \<Rightarrow> decodeState \<Rightarrow> code_result" where
  "huffman_LengthSymbols sizeLimit table s = do {
     (r, s) \<leftarrow> readSymbolCodeLengths sizeLimit s;
     if r \<noteq> ResultSuccess then Some (r, table, 0, s)
     else if h_space (ds_headerArena s) \<noteq> 0
     then Some (ResultError, table, 0, s\<lparr>ds_err := Some (decompressError ''huffman space not zero'')\<rparr>)
     else do {
       let h = ds_headerArena s;
       let sl = \<lparr>Storage = (case h_symbolLists h of None \<Rightarrow> [] | Some o1 \<Rightarrow> drop o1 (h_symbolListsArray h)), Offset = symListBase\<rparr>;
       (table, histo, tableSize) \<leftarrow> BuildHuffmanTable table huffmanTableBits sl (h_codeLengthHisto h);
       Some (ResultSuccess, table, tableSize, put_header s (h\<lparr>h_codeLengthHisto := histo, h_substateHuffman := huffmanNone\<rparr>)) } }"

text \<open>The loop that empties the lists.\<close>

definition lists_init :: "metablockHeaderArena \<Rightarrow> metablockHeaderArena" where
  "lists_init h = h\<lparr>h_symbolLists := Some 0,
     h_nextSymbol := overwrite (h_nextSymbol h) 0 (map (\<lambda>i. int i - symListBase) [0..<HuffmanMaxCodeLength + 1]),
     h_symbolListsArray := overwrite (h_symbolListsArray h) 0 (replicate (HuffmanMaxCodeLength + 1) 0xFFFF)\<rparr>"

text \<open>The state in which the code lengths are read.\<close>

definition lengths_start :: "metablockHeaderArena \<Rightarrow> metablockHeaderArena" where
  "lengths_start h = (lists_init (h\<lparr>h_codeLengthHisto := replicate 16 0\<rparr>))\<lparr>h_symbol := 0, h_prevCodeLen := InitialRepeatedCodeLength,
     h_repeat := 0, h_repeatCodeLen := 0, h_space := 32768, h_substateHuffman := huffmanLengthSymbols\<rparr>"

definition huffman_Complex :: "nat \<Rightarrow> HuffmanCode list \<Rightarrow> decodeState \<Rightarrow> code_result" where
  "huffman_Complex sizeLimit table s = do {
     (r, s) \<leftarrow> readCodeLengthCodeLengths s;
     if r \<noteq> ResultSuccess then Some (r, table, 0, s)
     else do {
       let h = ds_headerArena s;
       codes \<leftarrow> BuildCodeLengthsHuffmanTable (h_table h) (h_codeLengthCodeLengths h) (h_codeLengthHisto h);
       huffman_LengthSymbols sizeLimit table (put_header s (lengths_start (h\<lparr>h_table := codes\<rparr>))) } }"

definition huffman_None :: "nat \<Rightarrow> nat \<Rightarrow> HuffmanCode list \<Rightarrow> decodeState \<Rightarrow> code_result" where
  "huffman_None sizeMax sizeLimit table s = do {
     (x, br) \<leftarrow> safeReadBits 2 (ds_br s);
     case x of
       None \<Rightarrow> Some (ResultNeedsMoreInput, table, 0, s\<lparr>ds_br := br\<rparr>)
     | Some bs \<Rightarrow>
         (let s = upd_header (\<lambda>h. h\<lparr>h_subLoopCounter := unat bs\<rparr>) (s\<lparr>ds_br := br\<rparr>) in
          if bs \<noteq> 1 then huffman_Complex sizeLimit table
            (upd_header (\<lambda>h. h\<lparr>h_space := 32, h_repeat := 0, h_codeLengthHisto := replicate 16 0,
               h_codeLengthCodeLengths := replicate AlphabetSizeCodeLengths 0, h_substateHuffman := huffmanComplex\<rparr>) s)
          else huffman_SimpleSize sizeMax sizeLimit table s) }"

definition readHuffmanCode :: "nat \<Rightarrow> nat \<Rightarrow> HuffmanCode list \<Rightarrow> decodeState \<Rightarrow> code_result" where
  "readHuffmanCode sizeMax sizeLimit table s = (case h_substateHuffman (ds_headerArena s) of
     huffmanNone \<Rightarrow> huffman_None sizeMax sizeLimit table s
   | huffmanSimpleSize \<Rightarrow> huffman_SimpleSize sizeMax sizeLimit table s
   | huffmanSimpleRead \<Rightarrow> huffman_SimpleRead sizeMax sizeLimit table s
   | huffmanSimpleBuild \<Rightarrow> huffman_SimpleBuild table s
   | huffmanComplex \<Rightarrow> huffman_Complex sizeLimit table s
   | huffmanLengthSymbols \<Rightarrow> huffman_LengthSymbols sizeLimit table s)"


subsection \<open>Groups of prefix codes\<close>

text \<open>The group is one of the three of the state; it is passed and returned.\<close>

function group_loop :: "huffmanTreeGroup \<Rightarrow> decodeState \<Rightarrow> (decoderResult \<times> huffmanTreeGroup \<times> decodeState) option" where
  "group_loop g s = (let h = ds_headerArena s in
     if h_htreeIndex h < int (g_numHTrees g) then do {
       let codes = sl_list (g_codes g);
       table \<leftarrow> go_slice codes (h_next h) (int (length codes));
       (r, table, tableSize, s) \<leftarrow> readHuffmanCode (g_alphabetSizeMax g) (g_alphabetSizeLimit g) table s;
       let g = g\<lparr>g_codes := (g_codes g)\<lparr>sl_data := overwrite (sl_data (g_codes g)) (nat (h_next h)) table\<rparr>\<rparr>;
       if r \<noteq> ResultSuccess then Some (r, g, s)
       else do {
         trees \<leftarrow> sl_set (g_htrees g) (h_htreeIndex h) (h_next h);
         group_loop (g\<lparr>g_htrees := trees\<rparr>)
           (upd_header (\<lambda>h1. h1\<lparr>h_next := h_next h + int tableSize, h_htreeIndex := h_htreeIndex h + 1\<rparr>) s) } }
     else Some (ResultSuccess, g, upd_header (\<lambda>h. h\<lparr>h_substateTreeGroup := treeGroupNone\<rparr>) s))"
  by pat_completeness auto
termination by (relation "measure (\<lambda>(g, s). nat (int (g_numHTrees g) - h_htreeIndex (ds_headerArena s)))")
  (auto simp: upd_header_def)

declare group_loop.simps [simp del]

definition huffmanTreeGroupDecode :: "huffmanTreeGroup \<Rightarrow> decodeState \<Rightarrow> (decoderResult \<times> huffmanTreeGroup \<times> decodeState) option" where
  "huffmanTreeGroupDecode g s = group_loop g
     (if h_substateTreeGroup (ds_headerArena s) \<noteq> treeGroupLoop
      then upd_header (\<lambda>h. h\<lparr>h_htreeIndex := 0, h_next := 0, h_substateTreeGroup := treeGroupLoop\<rparr>) s else s)"


subsection \<open>Context maps\<close>

fun imtf_loop :: "byte list \<Rightarrow> byte list \<Rightarrow> nat \<Rightarrow> byte list \<times> nat" where
  "imtf_loop mtf [] upperBound = ([], upperBound)"
| "imtf_loop mtf (x # xs) upperBound =
     (let idx = unat x; val = mtf ! idx;
          (ys, ub) = imtf_loop ((overwrite mtf 1 (take idx mtf))[0 := val]) xs (upperBound OR idx) in
      (val # ys, ub))"

definition inverseMoveToFrontTransform :: "byte list \<Rightarrow> decodeState \<Rightarrow> byte list \<times> decodeState" where
  "inverseMoveToFrontTransform v s = (let (v, ub) = imtf_loop (map of_nat [0..<256]) v 0 in
     (v, s\<lparr>ds_mtfUpperBound := drop_bit 2 ub\<rparr>))"

text \<open>The context map and the number of trees are pointer parameters: arguments and results.\<close>

type_synonym map_result = "(decoderResult \<times> byte goslice \<times> nat \<times> decodeState) option"

definition map_Transform :: "byte goslice \<Rightarrow> nat \<Rightarrow> decodeState \<Rightarrow> map_result" where
  "map_Transform contextMap numHTrees s = do {
     (x, br) \<leftarrow> safeReadBits 1 (ds_br s);
     case x of
       None \<Rightarrow> Some (ResultNeedsMoreInput, contextMap, numHTrees, s\<lparr>ds_br := br\<rparr>)
     | Some bs \<Rightarrow>
         (let s = s\<lparr>ds_br := br\<rparr>;
              (v, s) = (if bs \<noteq> 0 then inverseMoveToFrontTransform (sl_list contextMap) s else (sl_list contextMap, s)) in
          Some (ResultSuccess, contextMap\<lparr>sl_data := overwrite (sl_data contextMap) 0 v\<rparr>, numHTrees,
            upd_header (\<lambda>h. h\<lparr>h_substateContextMap := contextMapNone\<rparr>) s)) }"

text \<open>The decoding loop; \<open>code = 0xFFFF\<close> stands for the flag \<^verbatim>\<open>skipPreamble\<close> being false. A round either stores one
  entry, or a run of zeros, or leaves with a result.\<close>

definition map_zeros :: "nat \<Rightarrow> nat \<Rightarrow> byte goslice \<Rightarrow> decodeState \<Rightarrow> (decoderResult option \<times> byte goslice \<times> decodeState) option" where
  "map_zeros code contextMapSize contextMap s = do {
     (x, br) \<leftarrow> safeReadBits code (ds_br s);
     case x of
       None \<Rightarrow> Some (Some ResultNeedsMoreInput, contextMap, upd_header (\<lambda>h. h\<lparr>h_code := code\<rparr>) (s\<lparr>ds_br := br\<rparr>))
     | Some r \<Rightarrow>
         (let s = s\<lparr>ds_br := br\<rparr>; i = h_contextIndex (ds_headerArena s); reps = unat (r + push_bit code 1) in
          if uadd i reps > contextMapSize
          then Some (Some ResultError, contextMap, s\<lparr>ds_err := Some (decompressError ''context map repeat overflow'')\<rparr>)
          else do {
            _ \<leftarrow> go_slice (sl_list contextMap) (int i) (int (uadd i reps));
            Some (None, contextMap\<lparr>sl_data := overwrite (sl_data contextMap) i (replicate (uadd i reps - i) 0)\<rparr>,
              upd_header (\<lambda>h. h\<lparr>h_contextIndex := uadd i reps\<rparr>) s) }) }"

definition map_entry :: "nat \<Rightarrow> byte goslice \<Rightarrow> decodeState \<Rightarrow> (decoderResult option \<times> byte goslice \<times> decodeState) option" where
  "map_entry contextMapSize contextMap s = do {
     (x, br) \<leftarrow> safeReadSymbol (h_contextMapTable (ds_headerArena s)) (ds_br s);
     let s = s\<lparr>ds_br := br\<rparr>;
     let i = h_contextIndex (ds_headerArena s);
     case x of
       None \<Rightarrow> Some (Some ResultNeedsMoreInput, contextMap, upd_header (\<lambda>h. h\<lparr>h_code := 0xFFFF\<rparr>) s)
     | Some code \<Rightarrow>
         if code = 0 then do {
           contextMap \<leftarrow> sl_set contextMap (int i) 0;
           Some (None, contextMap, upd_header (\<lambda>h. h\<lparr>h_contextIndex := uadd i 1\<rparr>) s) }
         else if code > h_maxRunLengthPrefix (ds_headerArena s) then do {
           contextMap \<leftarrow> sl_set contextMap (int i) (of_nat (usub code (h_maxRunLengthPrefix (ds_headerArena s))));
           Some (None, contextMap, upd_header (\<lambda>h. h\<lparr>h_contextIndex := uadd i 1\<rparr>) s) }
         else map_zeros code contextMapSize contextMap s }"

partial_function (option) map_loop :: "nat \<Rightarrow> byte goslice \<Rightarrow> nat \<Rightarrow> decodeState \<Rightarrow> map_result" where
  "map_loop contextMapSize contextMap numHTrees s =
     (if h_contextIndex (ds_headerArena s) < contextMapSize
      then Option.bind (map_entry contextMapSize contextMap s) (\<lambda>(r, contextMap, s).
        case r of Some r \<Rightarrow> Some (r, contextMap, numHTrees, s) | None \<Rightarrow> map_loop contextMapSize contextMap numHTrees s)
      else map_Transform contextMap numHTrees (upd_header (\<lambda>h. h\<lparr>h_substateContextMap := contextMapTransform\<rparr>) s))"

definition map_Decode :: "nat \<Rightarrow> byte goslice \<Rightarrow> nat \<Rightarrow> decodeState \<Rightarrow> map_result" where
  "map_Decode contextMapSize contextMap numHTrees s = (let code = h_code (ds_headerArena s) in
     if code \<noteq> 0xFFFF then do {
       (r, contextMap, s) \<leftarrow> map_zeros code contextMapSize contextMap s;
       case r of Some r \<Rightarrow> Some (r, contextMap, numHTrees, s) | None \<Rightarrow> map_loop contextMapSize contextMap numHTrees s }
     else map_loop contextMapSize contextMap numHTrees s)"

definition map_Huffman :: "nat \<Rightarrow> byte goslice \<Rightarrow> nat \<Rightarrow> decodeState \<Rightarrow> map_result" where
  "map_Huffman contextMapSize contextMap numHTrees s = do {
     let alphabetSize = uadd numHTrees (h_code (ds_headerArena s));
     (r, table, _, s) \<leftarrow> readHuffmanCode alphabetSize alphabetSize (h_contextMapTable (ds_headerArena s)) s;
     let s = upd_header (\<lambda>h. h\<lparr>h_contextMapTable := table\<rparr>) s;
     if r \<noteq> ResultSuccess then Some (r, contextMap, numHTrees, s)
     else map_Decode contextMapSize contextMap numHTrees
       (upd_header (\<lambda>h. h\<lparr>h_contextIndex := 0, h_code := 0xFFFF, h_substateContextMap := contextMapDecode\<rparr>) s) }"

definition map_ReadPrefix :: "nat \<Rightarrow> byte goslice \<Rightarrow> nat \<Rightarrow> decodeState \<Rightarrow> map_result" where
  "map_ReadPrefix contextMapSize contextMap numHTrees s = do {
     (x, br) \<leftarrow> safeGetBits 5 (ds_br s);
     case x of
       None \<Rightarrow> Some (ResultNeedsMoreInput, contextMap, numHTrees, s\<lparr>ds_br := br\<rparr>)
     | Some bs \<Rightarrow>
         (let m = (if bs AND 1 \<noteq> 0 then uadd (unat (drop_bit 1 bs)) 1 else 0);
              br = (if bs AND 1 \<noteq> 0 then dropBits 5 br else dropBits 1 br) in
          map_Huffman contextMapSize contextMap numHTrees (upd_header (\<lambda>h. h\<lparr>h_maxRunLengthPrefix := m,
            h_substateHuffman := huffmanNone, h_substateContextMap := contextMapHuffman, h_code := m\<rparr>) (s\<lparr>ds_br := br\<rparr>))) }"

definition map_None :: "nat \<Rightarrow> byte goslice \<Rightarrow> nat \<Rightarrow> decodeState \<Rightarrow> map_result" where
  "map_None contextMapSize contextMap numHTrees s = do {
     (r, numHTrees, s) \<leftarrow> decodeVarLenUint8 (numHTrees, s);
     if r \<noteq> ResultSuccess then Some (r, contextMap, numHTrees, s)
     else (let numHTrees = uadd numHTrees 1; contextMap = reuseBytes contextMap contextMapSize in
       if numHTrees \<le> 1 then Some (ResultSuccess,
         contextMap\<lparr>sl_data := overwrite (sl_data contextMap) 0 (replicate (sl_len contextMap) 0)\<rparr>, numHTrees, s)
       else map_ReadPrefix contextMapSize contextMap numHTrees
         (upd_header (\<lambda>h. h\<lparr>h_substateContextMap := contextMapReadPrefix\<rparr>) s)) }"

definition decodeContextMap :: "nat \<Rightarrow> byte goslice \<Rightarrow> nat \<Rightarrow> decodeState \<Rightarrow> map_result" where
  "decodeContextMap contextMapSize contextMap numHTrees s = (case h_substateContextMap (ds_headerArena s) of
     contextMapNone \<Rightarrow> map_None contextMapSize contextMap numHTrees s
   | contextMapReadPrefix \<Rightarrow> map_ReadPrefix contextMapSize contextMap numHTrees s
   | contextMapHuffman \<Rightarrow> map_Huffman contextMapSize contextMap numHTrees s
   | contextMapDecode \<Rightarrow> map_Decode contextMapSize contextMap numHTrees s
   | contextMapTransform \<Rightarrow> map_Transform contextMap numHTrees s)"

end
