(* ===== verification/Canonical_Code.thy ===== *)
theory Canonical_Code
  imports Huffman_Table
begin

text \<open>
  Canonical prefix codes, the specification of the tables of \<^verbatim>\<open>internal/core/huffman.go\<close>. A code is the list of
  its pairs (length, symbol) in increasing order of the lengths, as RFC 7932, section 3.2, numbers the codes.
  \<open>base cs j\<close> is the code of the \<open>j\<close>th pair, left aligned in 15 bits; \<open>code_bits cs j\<close> is the number whose
  lowest bits, first bit lowest, are the code as it stands in the stream. In a complete code every window of 15
  bits starts with exactly one code: \<open>code_match\<close> turns a comparison of the low bits into an interval of the
  reversed window, and the intervals tile.
\<close>

subsection \<open>Bit reversal\<close>

definition bitrev :: "nat \<Rightarrow> nat \<Rightarrow> nat" where
  "bitrev n x = val_of (rev (nat_bits n x))"

lemma bitrev_less: "bitrev n x < 2 ^ n"
  using val_of_lt [of "rev (nat_bits n x)"] by (simp add: bitrev_def)

lemma nat_bits_mod: "n \<le> m \<Longrightarrow> nat_bits n (x mod 2 ^ m) = nat_bits n x"
  by (rule nth_equalityI) (auto simp: nat_bits_def bit_take_bit_iff simp flip: take_bit_eq_mod)

lemma bitrev_mod: "n \<le> m \<Longrightarrow> bitrev n (x mod 2 ^ m) = bitrev n x"
  by (simp add: bitrev_def nat_bits_mod)

lemma bitrev_bitrev: "bitrev n (bitrev n x) = x mod 2 ^ n"
proof -
  have "nat_bits n (bitrev n x) = rev (nat_bits n x)"
    using nat_bits_val_of [of "rev (nat_bits n x)"] by (simp add: bitrev_def)
  then have "bitrev n (bitrev n x) = val_of (nat_bits n (x mod 2 ^ n))" by (simp add: bitrev_def nat_bits_mod)
  then show ?thesis by simp
qed

lemma bitrev_split:
  assumes "l \<le> n"
  shows "bitrev n x = bitrev (n - l) (x div 2 ^ l) + 2 ^ (n - l) * bitrev l x"
proof -
  have "nat_bits n x = nat_bits l x @ nat_bits (n - l) (x div 2 ^ l)"
    using nat_bits_split [of l "n - l" x] assms by (simp add: nat_bits_mod)
  then show ?thesis by (simp add: bitrev_def val_of_append)
qed

lemma bitrev_div: "l \<le> n \<Longrightarrow> bitrev n x div 2 ^ (n - l) = bitrev l x"
  using bitrev_split [of l n x] bitrev_less [of "n - l" "x div 2 ^ l"] by simp

lemma bitrev_low: "l \<le> n \<Longrightarrow> bitrev n x mod 2 ^ (n - l) = bitrev (n - l) (x div 2 ^ l)"
  using bitrev_split [of l n x] bitrev_less [of "n - l" "x div 2 ^ l"] by simp

lemma bitrev_shift:
  assumes "l \<le> n"
  shows "bitrev n (2 ^ (n - l) * x) = bitrev l x"
proof -
  have "nat_bits n (2 ^ (n - l) * x) = nat_bits (n - l) 0 @ nat_bits l x"
    using nat_bits_split [of "n - l" l "2 ^ (n - l) * x"] assms by simp
  moreover have "val_of (rev (nat_bits k 0)) = 0" for k
    using bitrev_less by (induction k) (simp_all add: nat_bits_def val_of_append)
  ultimately show ?thesis by (simp add: bitrev_def val_of_append)
qed

lemma bitrev_inject: "bitrev n x = bitrev n y \<longleftrightarrow> x mod 2 ^ n = y mod 2 ^ n"
  by (metis bitrev_bitrev bitrev_mod order_refl)

lemma Reverse8_bitrev: "Reverse8 n = bitrev 8 n"
  using bitrev_mod [of 8 8 n] by (simp add: Reverse8_def bitrev_def)


subsection \<open>Codes in canonical order\<close>

definition weight :: "(nat \<times> nat) list \<Rightarrow> nat" where
  "weight cs = sum_list (map (\<lambda>c. 2 ^ (15 - fst c)) cs)"

definition base :: "(nat \<times> nat) list \<Rightarrow> nat \<Rightarrow> nat" where
  "base cs j = weight (take j cs)"

definition canon :: "(nat \<times> nat) list \<Rightarrow> bool" where
  "canon cs \<longleftrightarrow> sorted (map fst cs) \<and> (\<forall>c\<in>set cs. 1 \<le> fst c \<and> fst c \<le> 15 \<and> snd c < 0xFFFF) \<and> weight cs = 2 ^ 15"

definition code_bits :: "(nat \<times> nat) list \<Rightarrow> nat \<Rightarrow> nat" where
  "code_bits cs j = bitrev (fst (cs ! j)) (base cs j div 2 ^ (15 - fst (cs ! j)))"

definition matches :: "(nat \<times> nat) list \<Rightarrow> nat \<Rightarrow> nat \<Rightarrow> bool" where
  "matches cs j x \<longleftrightarrow> x mod 2 ^ fst (cs ! j) = code_bits cs j"

lemma base_0 [simp]: "base cs 0 = 0" by (simp add: base_def weight_def)

lemma base_Suc: "j < length cs \<Longrightarrow> base cs (Suc j) = base cs j + 2 ^ (15 - fst (cs ! j))"
  by (simp add: base_def weight_def take_Suc_conv_app_nth)

lemma base_mono: "i \<le> j \<Longrightarrow> base cs i \<le> base cs j"
proof -
  assume "i \<le> j"
  then have "take j cs = take i cs @ take (j - i) (drop i cs)" by (metis le_add_diff_inverse take_add)
  then show ?thesis by (simp add: base_def weight_def)
qed

lemma canonD:
  assumes "canon cs" and "j < length cs"
  shows "1 \<le> fst (cs ! j)" and "fst (cs ! j) \<le> 15" and "snd (cs ! j) < 0xFFFF"
  using assms nth_mem [of j cs] unfolding canon_def by blast+

lemma canon_sorted: "canon cs \<Longrightarrow> i \<le> j \<Longrightarrow> j < length cs \<Longrightarrow> fst (cs ! i) \<le> fst (cs ! j)"
  using sorted_nth_mono [of "map fst cs" i j] by (simp add: canon_def)

lemma base_length: "canon cs \<Longrightarrow> base cs (length cs) = 2 ^ 15"
  by (simp add: base_def canon_def)

lemma base_le: "canon cs \<Longrightarrow> j \<le> length cs \<Longrightarrow> base cs j \<le> 2 ^ 15"
  using base_mono [of j "length cs" cs] by (simp add: base_length)

lemma base_less: "canon cs \<Longrightarrow> j < length cs \<Longrightarrow> base cs j + 2 ^ (15 - fst (cs ! j)) \<le> 2 ^ 15"
  using base_le [of cs "Suc j"] by (simp add: base_Suc)

lemma base_strict: "i < j \<Longrightarrow> j \<le> length cs \<Longrightarrow> base cs i < base cs j"
  by (rule less_le_trans [OF _ base_mono [of "Suc i" j]]) (simp_all add: base_Suc)

text \<open>Every code is aligned to the lengths up to it.\<close>

lemma base_dvd:
  assumes "j \<le> length cs" and "\<And>i. i < j \<Longrightarrow> fst (cs ! i) \<le> l"
  shows "2 ^ (15 - l) dvd base cs j"
  using assms
proof (induction j)
  case (Suc j)
  have "(2::nat) ^ (15 - l) dvd 2 ^ (15 - fst (cs ! j))" using Suc.prems(2) [of j] by (intro le_imp_power_dvd) auto
  moreover have "2 ^ (15 - l) dvd base cs j" using Suc by simp
  ultimately show ?case using Suc.prems(1) by (simp add: base_Suc dvd_add)
qed simp

lemma base_aligned: "canon cs \<Longrightarrow> j < length cs \<Longrightarrow> 2 ^ (15 - fst (cs ! j)) dvd base cs j"
  by (rule base_dvd) (auto intro: canon_sorted)

lemma code_match:
  assumes "canon cs" and "j < length cs"
  shows "matches cs j x \<longleftrightarrow> base cs j \<le> bitrev 15 x \<and> bitrev 15 x < base cs (Suc j)"
proof -
  define l where "l = fst (cs ! j)"
  have l: "l \<le> 15" using canonD [OF assms] by (simp add: l_def)
  obtain c where c: "base cs j = 2 ^ (15 - l) * c" using base_aligned [OF assms] by (auto simp: l_def)
  have "2 ^ (15 - l) * (c + 1) \<le> 2 ^ (15 - l) * 2 ^ l"
    using base_less [OF assms] l by (simp add: c l_def [symmetric] flip: power_add)
  then have "c + 1 \<le> 2 ^ l" by (simp only: mult_le_cancel1) simp
  then have "c < 2 ^ l" by simp
  then have m: "matches cs j x \<longleftrightarrow> bitrev l x = c"
    unfolding matches_def code_bits_def l_def [symmetric] c
    by (metis bitrev_bitrev bitrev_mod mod_less nonzero_mult_div_cancel_left order_refl power_not_zero zero_neq_numeral)
  have "bitrev l x = bitrev 15 x div 2 ^ (15 - l)" using bitrev_div [OF l] by simp
  moreover have "bitrev 15 x div 2 ^ (15 - l) = c \<longleftrightarrow> 2 ^ (15 - l) * c \<le> bitrev 15 x \<and> bitrev 15 x < 2 ^ (15 - l) * c + 2 ^ (15 - l)"
    by (auto simp: algebra_simps dividend_less_times_div times_div_less_eq_dividend intro: div_nat_eqI)
  ultimately show ?thesis unfolding m using assms(2) by (simp add: base_Suc c l_def [symmetric])
qed

lemma code_unique: "canon cs \<Longrightarrow> i < length cs \<Longrightarrow> j < length cs \<Longrightarrow> matches cs i x \<Longrightarrow> matches cs j x \<Longrightarrow> i = j"
  using base_mono [of "Suc i" j cs] base_mono [of "Suc j" i cs] by (cases i j rule: linorder_cases) (auto simp: code_match)

lemma code_exists:
  assumes "canon cs"
  obtains j where "j < length cs" "matches cs j x"
proof -
  define j where "j = (LEAST k. bitrev 15 x < base cs k)"
  have ex: "bitrev 15 x < base cs (length cs)" using bitrev_less [of 15 x] base_length [OF assms] by simp
  have j: "bitrev 15 x < base cs j" "j \<le> length cs" unfolding j_def using ex by (auto intro: LeastI Least_le)
  then obtain i where i: "j = Suc i" by (cases j) auto
  have "\<not> bitrev 15 x < base cs i" using not_less_Least [of i "\<lambda>k. bitrev 15 x < base cs k"] i by (simp add: j_def)
  then show thesis using that [of i] j i code_match [OF assms, of i x] by simp
qed

end
