(* ===== verification/Table_Build.thy ===== *)
theory Table_Build
  imports Canonical_Code Decode_Symbol
begin

text \<open>
  The two-level tables that \<open>BuildHuffmanTable\<close> of \<^verbatim>\<open>internal/core/huffman.go\<close> builds from a complete canonical
  code. Every window of the stream is answered by the code it starts with, whatever the lengths; the number of
  entries is at most the number of codes plus 376, the room the decoder allocates; and entries beyond are left alone.
\<close>

subsection \<open>Replicated entries\<close>

lemma go_update_Some: "i < length xs \<Longrightarrow> go_update xs (int i) v = Some (xs[i := v])"
  by (simp add: go_update_def)

text \<open>Filling every \<open>2 ^ b\<close>th entry of the first \<open>2 ^ b * n\<close> from the last one down.\<close>

lemma replicateValue_ok:
  assumes "0 < n" and "2 ^ b * (n - 1) < length t"
  shows "\<exists>t'. replicateValue t c (2 ^ b) (2 ^ b * int n) = Some t' \<and> length t' = length t \<and>
    (\<forall>p<length t. t' ! p = (if p < 2 ^ b * n \<and> p mod 2 ^ b = 0 then c else t ! p))"
  using assms
proof (induction n arbitrary: t)
  case (Suc n)
  have e: "2 ^ b * int (Suc n) - 2 ^ b = int (2 ^ b * n)" by (simp add: algebra_simps)
  have u: "go_update t (int (2 ^ b * n)) c = Some (t[2 ^ b * n := c])" using Suc.prems by (intro go_update_Some) simp
  have step: "replicateValue t c (2 ^ b) (2 ^ b * int (Suc n)) =
      (if n = 0 then Some (t[2 ^ b * n := c]) else replicateValue (t[2 ^ b * n := c]) c (2 ^ b) (2 ^ b * int n))"
    by (subst replicateValue.simps, unfold e u option.case) (simp add: mult_le_0_iff)
  have hit: "p < 2 ^ b * Suc n \<and> p mod 2 ^ b = 0 \<longleftrightarrow> p = 2 ^ b * n \<or> p < 2 ^ b * n \<and> p mod 2 ^ b = 0" for p
  proof
    assume p: "p < 2 ^ b * Suc n \<and> p mod 2 ^ b = 0"
    then obtain q where q: "p = 2 ^ b * q" by (auto simp: mod_eq_0_iff_dvd dvd_def)
    then have "q < Suc n" using p by (simp only: mult_less_cancel1)
    then show "p = 2 ^ b * n \<or> p < 2 ^ b * n \<and> p mod 2 ^ b = 0" using q by (cases "q = n") auto
  qed auto
  show ?case
  proof (cases "n = 0")
    case True
    then show ?thesis using step hit Suc.prems by (intro exI [of _ "t[2 ^ b * n := c]"]) (auto simp: nth_list_update)
  next
    case False
    have "2 ^ b * (n - 1) \<le> 2 ^ b * n" by simp
    then have pr: "2 ^ b * (n - 1) < length (t[2 ^ b * n := c])" using Suc.prems by (simp only: length_list_update diff_Suc_1) 
    obtain t' where t': "replicateValue (t[2 ^ b * n := c]) c (2 ^ b) (2 ^ b * int n) = Some t'" "length t' = length t"
      "\<And>p. p < length t \<Longrightarrow> t' ! p = (if p < 2 ^ b * n \<and> p mod 2 ^ b = 0 then c else t[2 ^ b * n := c] ! p)"
      using Suc.IH [OF _ pr] False by auto
    show ?thesis
      by (rule exI [of _ t']) (use t' step False hit in \<open>auto simp: nth_list_update\<close>)
  qed
qed simp

lemma in_slice_replicate:
  assumes "r < 2 ^ b" and "b \<le> e" and "o1 + 2 ^ e \<le> length table"
  shows "\<exists>table'. in_slice (o1 + r) (\<lambda>t. replicateValue t c (2 ^ b) (2 ^ e)) table = Some table' \<and>
    length table' = length table \<and>
    (\<forall>p<length table. table' ! p = (if o1 \<le> p \<and> p < o1 + 2 ^ e \<and> (p - o1) mod 2 ^ b = r then c else table ! p))"
proof -
  define n :: nat where "n = 2 ^ (e - b)"
  have n: "2 ^ b * n = 2 ^ e" "0 < n" using assms(2) by (simp_all add: n_def flip: power_add)
  then have ni: "(2::int) ^ e = 2 ^ b * int n" by (metis of_nat_mult of_nat_numeral of_nat_power)
  have "2 ^ b * (n - 1) + 2 ^ b = 2 ^ b * n" using n(2) by (cases n) auto
  then have room: "2 ^ b * (n - 1) + r < 2 ^ e" using assms(1) n(1) by linarith
  have off: "o1 + r \<le> length table" using room assms(3) by linarith
  have dr: "2 ^ b * (n - 1) < length (drop (o1 + r) table)" using room assms(3) by simp
  obtain t' where t': "replicateValue (drop (o1 + r) table) c (2 ^ b) (2 ^ e) = Some t'" "length t' = length table - (o1 + r)"
    "\<And>p. p < length table - (o1 + r) \<Longrightarrow>
      t' ! p = (if p < 2 ^ e \<and> p mod 2 ^ b = 0 then c else drop (o1 + r) table ! p)"
    using replicateValue_ok [OF n(2) dr, of c] n(1) unfolding ni length_drop by metis
  have pos: "(o1 \<le> p \<and> p < o1 + 2 ^ e \<and> (p - o1) mod 2 ^ b = r) \<longleftrightarrow>
      (o1 + r \<le> p \<and> p - (o1 + r) < 2 ^ e \<and> (p - (o1 + r)) mod 2 ^ b = 0)" for p
  proof
    assume p: "o1 \<le> p \<and> p < o1 + 2 ^ e \<and> (p - o1) mod 2 ^ b = r"
    then have r: "r \<le> p - o1" by (metis mod_less_eq_dividend)
    have "(p - o1 - r) mod 2 ^ b = 0" using p by (metis minus_mod_eq_mult_div mod_mult_self1_is_0 mult.commute)
    then show "o1 + r \<le> p \<and> p - (o1 + r) < 2 ^ e \<and> (p - (o1 + r)) mod 2 ^ b = 0"
      unfolding diff_diff_add [symmetric] using p r by linarith
  next
    assume p: "o1 + r \<le> p \<and> p - (o1 + r) < 2 ^ e \<and> (p - (o1 + r)) mod 2 ^ b = 0"
    define q where "q = p - (o1 + r)"
    have q: "q < 2 ^ b * n" "q mod 2 ^ b = 0" "p - o1 = q + r" using p n by (auto simp: q_def)
    then obtain k where k: "q = 2 ^ b * k" by (auto simp: mod_eq_0_iff_dvd dvd_def)
    then have "k < n" using q by (simp only: mult_less_cancel1)
    then have "2 ^ b * k \<le> 2 ^ b * (n - 1)" by simp
    then have "q + r < 2 ^ e" using room k by linarith
    moreover have "(q + r) mod 2 ^ b = r" using assms(1) k by simp
    ultimately show "o1 \<le> p \<and> p < o1 + 2 ^ e \<and> (p - o1) mod 2 ^ b = r" using p q(3) by auto
  qed
  show ?thesis
  proof (intro exI [of _ "take (o1 + r) table @ t'"] conjI allI impI)
    show "in_slice (o1 + r) (\<lambda>t. replicateValue t c (2 ^ b) (2 ^ e)) table = Some (take (o1 + r) table @ t')"
      using off t'(1) by (simp add: in_slice_def)
    show "length (take (o1 + r) table @ t') = length table" using off t'(2) by simp
    fix p assume p: "p < length table"
    show "(take (o1 + r) table @ t') ! p =
        (if o1 \<le> p \<and> p < o1 + 2 ^ e \<and> (p - o1) mod 2 ^ b = r then c else table ! p)"
      unfolding pos using p off t'(3) [of "p - (o1 + r)"] by (auto simp: nth_append)
  qed
qed

subsection \<open>Doubling\<close>

lemma double_table_ok:
  assumes "t \<le> m" and "2 ^ m \<le> length table"
  shows "\<exists>table'. double_table (2 ^ m) (2 ^ t) table = Some table' \<and> length table' = length table \<and>
    (\<forall>p<length table. table' ! p = (if p < 2 ^ m then table ! (p mod 2 ^ t) else table ! p))"
  using assms
proof (induction "m - t" arbitrary: t table)
  case 0
  then have "m = t" by simp
  then show ?case by (subst double_table.simps) auto
next
  case (Suc k)
  then have t: "t < m" by simp
  have T: "2 ^ t + 2 ^ t \<le> (2::nat) ^ m" using power_increasing [of "Suc t" m "2::nat"] t by simp
  define table1 where "table1 = overwrite table (2 ^ t) (take (2 ^ t) table)"
  have len: "2 ^ t \<le> length table" "length (take (2 ^ t) table) = 2 ^ t" using T Suc.prems by simp_all
  have sl: "go_slice table 0 (int (2 ^ t)) = Some (take (2 ^ t) table)" using len by (simp add: go_slice_def del: of_nat_power)
  have cp: "go_copy table (2 ^ t) (take (2 ^ t) table) = Some table1"
  proof -
    have "take (length table - 2 ^ t) (take (2 ^ t) table) = take (2 ^ t) table"
      unfolding take_take using T Suc.prems(2) by (intro arg_cong [of _ _ "\<lambda>n. take n table"]) linarith
    then show ?thesis using len(1) by (simp only: go_copy_def table1_def if_True)
  qed
  have t1: "length table1 = length table" "\<And>p. p < length table \<Longrightarrow> table1 ! p = (if 2 ^ t \<le> p \<and> p < 2 ^ Suc t then table ! (p - 2 ^ t) else table ! p)"
    using len T Suc.prems by (auto simp: table1_def nth_overwrite)
  have step: "double_table (2 ^ m) (2 ^ t) table = double_table (2 ^ m) (2 ^ Suc t) table1"
    using T t by (subst double_table.simps, unfold sl option.case cp) simp
  obtain table' where t': "double_table (2 ^ m) (2 ^ Suc t) table1 = Some table'" "length table' = length table"
    "\<And>p. p < length table \<Longrightarrow> table' ! p = (if p < 2 ^ m then table1 ! (p mod 2 ^ Suc t) else table1 ! p)"
  proof -
    have "k = m - Suc t" using Suc.hyps(2) by simp
    then show ?thesis using Suc.hyps(1) [of "Suc t" table1] Suc.prems t t1(1) that by auto
  qed
  have "table1 ! (p mod 2 ^ Suc t) = table ! (p mod 2 ^ t)" for p
  proof -
    have lt: "p mod 2 ^ Suc t < 2 ^ Suc t" by (rule mod_less_divisor) simp
    moreover have "(2::nat) ^ Suc t \<le> 2 ^ m" using T by simp
    ultimately have "p mod 2 ^ Suc t < length table" using Suc.prems(2) by linarith
    moreover note lt
    moreover have "p mod 2 ^ t = (if 2 ^ t \<le> p mod 2 ^ Suc t then p mod 2 ^ Suc t - 2 ^ t else p mod 2 ^ Suc t)"
    proof -
      have m: "p mod 2 ^ t = p mod 2 ^ Suc t mod 2 ^ t" by (simp add: mod_mod_cancel)
      show ?thesis
      proof (cases "2 ^ t \<le> p mod 2 ^ Suc t")
        case True
        moreover have "p mod 2 ^ Suc t - 2 ^ t < 2 ^ t" using lt True by (simp only: power_Suc)
        ultimately show ?thesis using m by (simp add: le_mod_geq)
      qed (use m in simp)
    qed
    ultimately show ?thesis using t1(2) by simp
  qed
  moreover have "table1 ! p = table ! p" if "p < length table" "\<not> p < 2 ^ m" for p
  proof -
    have "\<not> p < 2 ^ Suc t" using T that(2) by simp
    then show ?thesis using t1(2) [OF that(1)] by simp
  qed
  ultimately have "\<forall>p<length table. table' ! p = (if p < 2 ^ m then table ! (p mod 2 ^ t) else table ! p)"
    using t'(3) by simp
  then show ?case using step t'(1,2) by auto
qed


subsection \<open>Lists of symbols and what is filled\<close>

fun chain :: "SymbolList \<Rightarrow> int \<Rightarrow> nat list \<Rightarrow> bool" where
  "chain symbols sy [] \<longleftrightarrow> True"
| "chain symbols sy (s # ss) \<longleftrightarrow> SymbolList_get symbols sy = Some s \<and> chain symbols (int s) ss"

text \<open>The linked lists and the histogram describe the code.\<close>

definition start :: "(nat \<times> nat) list \<Rightarrow> nat \<Rightarrow> nat" where
  "start cs l = length (filter (\<lambda>c. fst c < l) cs)"

definition lists_ok :: "SymbolList \<Rightarrow> nat list \<Rightarrow> (nat \<times> nat) list \<Rightarrow> bool" where
  "lists_ok symbols count cs \<longleftrightarrow> length count = 16 \<and> (\<forall>l. 1 \<le> l \<and> l \<le> 15 \<longrightarrow>
     count ! l = start cs (Suc l) - start cs l \<and>
     chain symbols (int l - 16) (map (\<lambda>i. snd (cs ! i)) [start cs l..<start cs (Suc l)]) \<and>
     (start cs (Suc l) = start cs l \<longrightarrow> SymbolList_get symbols (int l - 16) = Some 0xFFFF))"

definition code_entry :: "(nat \<times> nat) list \<Rightarrow> nat \<Rightarrow> HuffmanCode" where
  "code_entry cs i = \<lparr>Bits = fst (cs ! i), Value = snd (cs ! i)\<rparr>"

definition filled :: "(nat \<times> nat) list \<Rightarrow> nat \<Rightarrow> nat \<Rightarrow> HuffmanCode list \<Rightarrow> bool" where
  "filled cs T j table \<longleftrightarrow> T \<le> length table \<and> (\<forall>p<T. \<forall>i<j. matches cs i p \<longrightarrow> table ! p = code_entry cs i)"

lemma start_length:
  assumes "canon cs"
  shows "i < length cs \<Longrightarrow> fst (cs ! i) < l \<longleftrightarrow> i < start cs l" and "start cs l \<le> length cs"
proof -
  have s: "sorted (map fst cs)" using assms by (simp add: canon_def)
  then have "filter (\<lambda>c. fst c < l) cs = takeWhile (\<lambda>c. fst c < l) cs"
  proof (induction cs)
    case (Cons c cs)
    show ?case
    proof (cases "fst c < l")
      case False
      then have "\<forall>d\<in>set cs. \<not> fst d < l" using Cons.prems by fastforce
      then show ?thesis using False by (simp add: filter_False)
    qed (use Cons in simp)
  qed simp
  then have n: "start cs l = length (takeWhile (\<lambda>c. fst c < l) cs)" by (simp add: start_def)
  show "start cs l \<le> length cs" by (simp add: start_def)
  assume i: "i < length cs"
  show "fst (cs ! i) < l \<longleftrightarrow> i < start cs l"
  proof
    assume a: "fst (cs ! i) < l"
    show "i < start cs l"
    proof (rule ccontr)
      assume "\<not> i < start cs l"
      then have k: "start cs l \<le> i" by simp
      then have "\<not> fst (cs ! start cs l) < l" using nth_length_takeWhile [of "\<lambda>c. fst c < l" cs] n i by simp
      then show False using canon_sorted [OF assms k i] a by simp
    qed
  next
    assume "i < start cs l"
    then show "fst (cs ! i) < l" using nth_mem [of i "takeWhile (\<lambda>c. fst c < l) cs"] set_takeWhileD
      unfolding n by (metis takeWhile_nth)
  qed
qed

lemma start_mono: "l \<le> m \<Longrightarrow> start cs l \<le> start cs m"
  unfolding start_def by (induction cs) auto


subsection \<open>The root table\<close>

lemma code_bits_less: "code_bits cs j < 2 ^ fst (cs ! j)"
  by (simp add: code_bits_def bitrev_less)

lemma mkCode_entry: "canon cs \<Longrightarrow> j < length cs \<Longrightarrow> mkCode (fst (cs ! j)) (snd (cs ! j)) = code_entry cs j"
  using canonD [of cs j] by (simp add: mkCode_def code_entry_def)

text \<open>The key of a code of at most 8 bits, and how it advances.\<close>

lemma root_key:
  assumes "canon cs" and "j < length cs" and "fst (cs ! j) \<le> 8"
  shows "Reverse8 (base cs j div 128) = code_bits cs j" and "base cs (Suc j) div 128 = base cs j div 128 + 2 ^ (8 - fst (cs ! j))"
proof -
  define b where "b = fst (cs ! j)"
  have b: "b \<le> 8" "15 - b = 7 + (8 - b)" using assms(3) by (simp_all add: b_def)
  have p: "(2::nat) ^ (15 - b) = 128 * 2 ^ (8 - b)" unfolding b(2) power_add by simp
  obtain c where c: "base cs j = 2 ^ (15 - b) * c" using base_aligned [OF assms(1,2)] by (auto simp: b_def)
  have "code_bits cs j = bitrev b c" by (simp add: code_bits_def b_def [symmetric] c)
  moreover have "base cs j div 128 = 2 ^ (8 - b) * c" unfolding c p by simp
  ultimately show "Reverse8 (base cs j div 128) = code_bits cs j" using bitrev_shift [OF b(1), of c] by (simp add: Reverse8_bitrev)
  show "base cs (Suc j) div 128 = base cs j div 128 + 2 ^ (8 - fst (cs ! j))"
    using assms(2) p by (simp add: base_Suc b_def [symmetric])
qed

lemma filled_step:
  assumes "canon cs" and "j < length cs" and "filled cs T j table" and "length table' = length table"
    and "\<And>p. p < T \<Longrightarrow> table' ! p = (if matches cs j p then code_entry cs j else table ! p)"
  shows "filled cs T (Suc j) table'"
  unfolding filled_def
proof (intro conjI allI impI)
  show "T \<le> length table'" using assms(3,4) by (simp add: filled_def)
  fix p i assume p: "p < T" "i < Suc j" "matches cs i p"
  show "table' ! p = code_entry cs i"
  proof (cases "i = j")
    case True
    then show ?thesis using p assms(5) by simp
  next
    case False
    then have "i < j" using p by simp
    moreover have "\<not> matches cs j p" using code_unique [OF assms(1) _ assms(2) p(3)] False \<open>i < j\<close> assms(2) by auto
    ultimately show ?thesis using p assms(3,5) by (simp add: filled_def)
  qed
qed

lemma root_fill_ok:
  assumes "canon cs" and "j + n \<le> length cs" and "\<And>i. j \<le> i \<Longrightarrow> i < j + n \<Longrightarrow> fst (cs ! i) = b" and "b \<le> e" and "e \<le> 8"
    and "chain symbols sy (map (\<lambda>i. snd (cs ! i)) [j..<j + n])" and "filled cs (2 ^ e) j table"
  shows "\<exists>table'. root_fill n symbols sy b (2 ^ b) (base cs j div 128) (2 ^ (8 - b)) (2 ^ e) table =
      Some (base cs (j + n) div 128, table') \<and> length table' = length table \<and> filled cs (2 ^ e) (j + n) table' \<and>
      (\<forall>p<length table. 2 ^ e \<le> p \<longrightarrow> table' ! p = table ! p)"
  using assms(2,3,6,7)
proof (induction n arbitrary: j sy table)
  case (Suc n)
  have j: "j < length cs" "fst (cs ! j) = b" using Suc.prems(1,2) by auto
  note key = root_key [OF assms(1) j(1), unfolded j(2), OF le_trans [OF assms(4,5)]]
  have r: "code_bits cs j < 2 ^ b" using code_bits_less [of cs j] j(2) by simp
  have T: "0 + 2 ^ e \<le> length table" using Suc.prems(4) by (simp add: filled_def)
  obtain table1 where t1: "in_slice (0 + code_bits cs j) (\<lambda>t. replicateValue t (code_entry cs j) (2 ^ b) (2 ^ e)) table = Some table1"
    "length table1 = length table"
    "\<And>p. p < length table \<Longrightarrow> table1 ! p = (if 0 \<le> p \<and> p < 0 + 2 ^ e \<and> (p - 0) mod 2 ^ b = code_bits cs j then code_entry cs j else table ! p)"
    using in_slice_replicate [OF r assms(4) T, of "code_entry cs j"] by blast
  have up: "[j..<j + Suc n] = j # [Suc j..<Suc j + n]" using upt_conv_Cons [of j "j + Suc n"] by simp
  have ch: "SymbolList_get symbols sy = Some (snd (cs ! j))" "chain symbols (int (snd (cs ! j))) (map (\<lambda>i. snd (cs ! i)) [Suc j..<Suc j + n])"
    using Suc.prems(3) unfolding up by simp_all
  have f1: "filled cs (2 ^ e) (Suc j) table1"
    by (rule filled_step [OF assms(1) j(1) Suc.prems(4) t1(2)]) (use T t1(3) in \<open>simp add: matches_def j(2)\<close>)
  have IH: "\<exists>table'. root_fill n symbols (int (snd (cs ! j))) b (2 ^ b) (base cs (Suc j) div 128) (2 ^ (8 - b)) (2 ^ e) table1 =
      Some (base cs (Suc j + n) div 128, table') \<and> length table' = length table1 \<and> filled cs (2 ^ e) (Suc j + n) table' \<and>
      (\<forall>p<length table1. 2 ^ e \<le> p \<longrightarrow> table' ! p = table1 ! p)"
    by (rule Suc.IH [OF _ _ ch(2) f1]) (use Suc.prems(1,2) in auto)
  have "root_fill (Suc n) symbols sy b (2 ^ b) (base cs j div 128) (2 ^ (8 - b)) (2 ^ e) table =
      root_fill n symbols (int (snd (cs ! j))) b (2 ^ b) (base cs (Suc j) div 128) (2 ^ (8 - b)) (2 ^ e) table1"
    using ch(1) t1(1) mkCode_entry [OF assms(1) j(1)] by (simp add: key j(2))
  then show ?case using IH t1(2,3) by auto
qed simp

lemma start_range:
  assumes "canon cs"
  shows "start cs l \<le> i \<Longrightarrow> i < start cs (Suc l) \<Longrightarrow> fst (cs ! i) = l"
proof -
  assume i: "start cs l \<le> i" "i < start cs (Suc l)"
  then have "i < length cs" using start_length(2) [OF assms, of "Suc l"] by simp
  then show "fst (cs ! i) = l" using i start_length(1) [OF assms, of i l] start_length(1) [OF assms, of i "Suc l"] by simp
qed

lemma lists_okD:
  assumes "lists_ok symbols count cs" and "1 \<le> l" and "l \<le> 15"
  shows "go_index count (int l) = Some (start cs (Suc l) - start cs l)"
    and "chain symbols (int l - 16) (map (\<lambda>i. snd (cs ! i)) [start cs l..<start cs (Suc l)])"
  using assms by (auto simp: lists_ok_def)

lemma half_power: "b < n \<Longrightarrow> (2::nat) ^ (n - b) div 2 = 2 ^ (n - Suc b)"
proof -
  assume "b < n"
  then have "n - b = Suc (n - Suc b)" by simp
  then show ?thesis by (simp only: power_Suc)
qed

lemma root_lengths_ok:
  assumes "canon cs" and "lists_ok symbols count cs" and "1 \<le> b" and "b + k = Suc e" and "e \<le> 8"
    and "filled cs (2 ^ e) (start cs b) table"
  shows "\<exists>table'. root_lengths k b symbols count (2 ^ b) (base cs (start cs b) div 128) (2 ^ (8 - b)) (2 ^ e) table =
      Some (base cs (start cs (Suc e)) div 128, table') \<and> length table' = length table \<and>
      filled cs (2 ^ e) (start cs (Suc e)) table' \<and> (\<forall>p<length table. 2 ^ e \<le> p \<longrightarrow> table' ! p = table ! p)"
  using assms(3,4,6)
proof (induction k arbitrary: b table)
  case (Suc k)
  have b: "b \<le> e" "b \<le> 15" using Suc.prems(2) assms(5) by simp_all
  define j n where "j = start cs b" and "n = start cs (Suc b) - start cs b"
  have jn: "j + n = start cs (Suc b)" using start_mono [of b "Suc b" cs] by (simp add: j_def n_def)
  note L = lists_okD [OF assms(2) Suc.prems(1) b(2), folded jn, folded j_def]
  obtain table1 where t1: "root_fill n symbols (int b - 16) b (2 ^ b) (base cs j div 128) (2 ^ (8 - b)) (2 ^ e) table =
      Some (base cs (j + n) div 128, table1)" "length table1 = length table" "filled cs (2 ^ e) (j + n) table1"
      "\<forall>p<length table. 2 ^ e \<le> p \<longrightarrow> table1 ! p = table ! p"
  proof -
    have "j + n \<le> length cs" using start_length(2) [OF assms(1), of "Suc b"] by (simp only: jn)
    moreover have "fst (cs ! i) = b" if "j \<le> i" "i < j + n" for i
      using start_range [OF assms(1), of b i] that by (simp only: jn) (simp only: j_def)
    ultimately show ?thesis using root_fill_ok [OF assms(1) _ _ b(1) assms(5) L(2) Suc.prems(3) [folded j_def]] that by blast
  qed
  have IH: "\<exists>table'. root_lengths k (Suc b) symbols count (2 ^ Suc b) (base cs (start cs (Suc b)) div 128) (2 ^ (8 - Suc b)) (2 ^ e) table1 =
      Some (base cs (start cs (Suc e)) div 128, table') \<and> length table' = length table1 \<and>
      filled cs (2 ^ e) (start cs (Suc e)) table' \<and> (\<forall>p<length table1. 2 ^ e \<le> p \<longrightarrow> table' ! p = table1 ! p)"
    by (rule Suc.IH) (use Suc.prems(2) t1(3) in \<open>simp_all add: jn\<close>)
  have ks: "(2::nat) ^ (8 - b) div 2 = 2 ^ (8 - Suc b)" if "b < 8" using that by (rule half_power)
  have g: "go_index count (int b) = Some n" using L(1) by simp
  have "root_lengths (Suc k) b symbols count (2 ^ b) (base cs j div 128) (2 ^ (8 - b)) (2 ^ e) table =
      root_lengths k (Suc b) symbols count (2 ^ Suc b) (base cs (j + n) div 128) (2 ^ (8 - b) div 2) (2 ^ e) table1"
    unfolding root_lengths.simps(2) g using t1(1) by (simp add: HuffmanMaxCodeLength_def)
  moreover have "root_lengths k (Suc b) symbols count (2 ^ Suc b) x (2 ^ (8 - b) div 2) (2 ^ e) table1 =
      root_lengths k (Suc b) symbols count (2 ^ Suc b) x (2 ^ (8 - Suc b)) (2 ^ e) table1" for x
    using ks Suc.prems(2) assms(5) by (cases k) simp_all
  ultimately have eq: "root_lengths (Suc k) b symbols count (2 ^ b) (base cs (start cs b) div 128) (2 ^ (8 - b)) (2 ^ e) table =
      root_lengths k (Suc b) symbols count (2 ^ Suc b) (base cs (start cs (Suc b)) div 128) (2 ^ (8 - Suc b)) (2 ^ e) table1"
    using jn by (simp add: j_def)
  obtain table' where t': "root_lengths k (Suc b) symbols count (2 ^ Suc b) (base cs (start cs (Suc b)) div 128) (2 ^ (8 - Suc b)) (2 ^ e) table1 =
      Some (base cs (start cs (Suc e)) div 128, table')" "length table' = length table1" "filled cs (2 ^ e) (start cs (Suc e)) table'"
      "\<forall>p<length table1. 2 ^ e \<le> p \<longrightarrow> table' ! p = table1 ! p" using IH by blast
  show ?case unfolding eq by (rule exI [of _ table']) (use t' t1(2,4) in simp)
qed auto

end
