(* ===== verification/Table_Levels.thy ===== *)
theory Table_Levels
  imports Table_Build
begin

text \<open>
  The second-level tables of \<open>BuildHuffmanTable\<close>, and its correctness. The codes of more than 8 bits are taken in
  order; those with the same first 8 bits form a slot, a complete code of its own, and share one table. The table of
  a slot is as wide as its longest code requires (\<open>nextTableBitSize\<close> finds that width from the histogram of the
  remaining codes), and a potential argument over the slots bounds the sum of the sizes: a slot of codes between
  \<open>m\<close> and \<open>w\<close> bits has at least \<open>2 ^ m + w - m\<close> codes.
\<close>

subsection \<open>The longest code\<close>

lemma canon_nonempty: "canon cs \<Longrightarrow> cs \<noteq> []"
  by (auto simp: canon_def weight_def)

lemma max_length_ok:
  assumes "canon cs" and "lists_ok symbols count cs"
  shows "max_length_loop symbols (-1) = Some (int (fst (last cs)) - 16)"
proof -
  define m where "m = fst (last cs)"
  have N: "0 < length cs" using canon_nonempty [OF assms(1)] by simp
  have lst: "last cs = cs ! (length cs - 1)" using N by (simp add: last_conv_nth)
  have m: "1 \<le> m" "m \<le> 15" using canonD [OF assms(1), of "length cs - 1"] N by (simp_all add: m_def lst)
  have all: "fst (cs ! i) \<le> m" if "i < length cs" for i
    using canon_sorted [OF assms(1), of i "length cs - 1"] that by (simp add: m_def lst)
  have full: "start cs l = length cs" if "m < l" for l
  proof -
    have "\<forall>c\<in>set cs. fst c < l" using all that by (metis in_set_conv_nth le_less_trans)
    then show ?thesis by (simp add: start_def)
  qed
  have "\<not> length cs - 1 < start cs m" using start_length(1) [OF assms(1), of "length cs - 1" m] N by (simp add: m_def lst)
  then have start: "start cs m < length cs" using N by linarith
  have "max_length_loop symbols (int l - 16) = Some (int m - 16)" if "m \<le> l" "l \<le> 15" for l
    using that
  proof (induction l rule: dec_induct)
    case base
    define i where "i = start cs m"
    have "[i..<start cs (Suc m)] = i # [Suc i..<start cs (Suc m)]"
      using start full [of "Suc m"] by (simp add: i_def upt_conv_Cons)
    then have "SymbolList_get symbols (int m - 16) = Some (snd (cs ! i))"
      using lists_okD(2) [OF assms(2) m] by (simp add: i_def)
    moreover have "snd (cs ! i) < 0xFFFF" using canonD(3) [OF assms(1)] start by (simp add: i_def)
    ultimately show ?case by (subst max_length_loop.simps) simp
  next
    case (step l)
    have "SymbolList_get symbols (int (Suc l) - 16) = Some 0xFFFF"
      using assms(2) step full [of "Suc l"] full [of "Suc (Suc l)"] by (auto simp: lists_ok_def simp del: of_nat_Suc)
    then show ?case using step by (subst max_length_loop.simps) simp
  qed
  from this [of 15] m show ?thesis by (simp add: m_def)
qed


subsection \<open>Slots\<close>

lemma long_start: "canon cs \<Longrightarrow> start cs 9 \<le> i \<Longrightarrow> i < length cs \<Longrightarrow> 9 \<le> fst (cs ! i)"
  using start_length(1) [of cs i 9] by simp

lemma long_aligned: "(l::nat) \<le> 15 \<Longrightarrow> 9 \<le> l \<Longrightarrow> (2::nat) ^ (15 - l) * 2 ^ (l - 8) = 128"
  by (subst power_add [symmetric]) simp

lemma dvd_step_le:
  assumes "(d::nat) dvd x" and "d dvd y" and "x < y"
  shows "x + d \<le> y"
proof -
  obtain a b where ab: "x = d * a" "y = d * b" using assms(1,2) by (auto simp: dvd_def)
  then have "a < b" using assms(3) by (simp only: mult_less_cancel1)
  then have "d * Suc a \<le> d * b" by (intro mult_le_mono2) simp
  then show ?thesis using ab by simp
qed

lemma slot_end:
  assumes "canon cs" and "start cs 9 \<le> j" and "j < length cs" and "128 dvd base cs j"
  obtains e where "j < e" "e \<le> length cs" "base cs e = base cs j + 128"
proof -
  define e where "e = (LEAST k. base cs j + 128 \<le> base cs k)"
  have "(128::nat) dvd 2 ^ 15" by simp
  moreover have "base cs j < 2 ^ 15" using base_strict [OF assms(3) order_refl] base_length [OF assms(1)] by simp
  ultimately have ex: "base cs j + 128 \<le> base cs (length cs)" unfolding base_length [OF assms(1)] using dvd_step_le assms(4) by blast
  have e: "base cs j + 128 \<le> base cs e" "e \<le> length cs" unfolding e_def using ex by (auto intro: LeastI Least_le)
  have je: "j < e" using e(1) base_mono [of e j cs] by (cases "j < e") auto
  then obtain i where i: "e = Suc i" "j \<le> i" by (cases e) auto
  have il: "i < length cs" using i(1) e(2) by simp
  define l where "l = fst (cs ! i)"
  have l: "9 \<le> l" "l \<le> 15" using long_start [OF assms(1) _ il] canonD [OF assms(1) il] assms(2) i(2) by (simp_all add: l_def)
  have lt: "base cs i < base cs j + 128" using not_less_Least [of i "\<lambda>k. base cs j + 128 \<le> base cs k"] i by (simp add: e_def [symmetric])
  have "2 ^ (15 - l) dvd (128::nat)" using long_aligned [OF l(2,1)] by (metis dvd_triv_left)
  then have "2 ^ (15 - l) dvd base cs j + 128" using assms(4) dvd_trans by (intro dvd_add) blast+
  moreover have "2 ^ (15 - l) dvd base cs i" using base_aligned [OF assms(1) il] by (simp add: l_def)
  ultimately have "base cs i + 2 ^ (15 - l) \<le> base cs j + 128" using dvd_step_le lt by blast
  then have "base cs e \<le> base cs j + 128" using il i by (simp add: base_Suc l_def)
  then show thesis using that je e by simp
qed

text \<open>How many codes a slot has at least.\<close>

lemma slot_count:
  assumes "canon cs" and "start cs 9 \<le> j" and "j < i" and "i \<le> e" and "e \<le> length cs" and "base cs e = base cs j + 128" and "128 dvd base cs j"
  shows "2 ^ (fst (cs ! j) - 8) + fst (cs ! (i - 1)) \<le> (i - j) + (base cs e - base cs i) div 2 ^ (15 - fst (cs ! (i - 1))) + fst (cs ! j)"
  using assms(3,4)
proof (induction i)
  case (Suc i)
  have il: "i < length cs" using Suc.prems(2) assms(5) by simp
  define l where "l = fst (cs ! i)"
  have l: "9 \<le> l" "l \<le> 15" using long_start [OF assms(1) _ il] canonD [OF assms(1) il] assms(2) Suc.prems(1) by (simp_all add: l_def)
  have de: "2 ^ (15 - k) dvd base cs e" if "9 \<le> k" "k \<le> 15" "2 ^ (15 - k) dvd base cs j" for k
    unfolding assms(6) using that long_aligned [of k] by (metis dvd_add dvd_triv_left)
  have bs: "base cs (Suc i) = base cs i + 2 ^ (15 - l)" using il by (simp add: base_Suc l_def)
  show ?case
  proof (cases "i = j")
    case True
    have "base cs e - base cs (Suc i) = 2 ^ (15 - l) * (2 ^ (l - 8) - 1)"
      using assms(6) bs long_aligned [OF l(2,1)] by (simp add: True right_diff_distrib')
    moreover have "fst (cs ! j) = l" using True by (simp add: l_def)
    ultimately show ?thesis by (simp add: True)
  next
    case False
    then have ji: "j < i" using Suc.prems(1) by simp
    define k where "k = fst (cs ! (i - 1))"
    have k: "9 \<le> k" "k \<le> l" "k \<le> 15"
      using long_start [OF assms(1), of "i - 1"] canon_sorted [OF assms(1), of "i - 1" i] assms(2) ji il l(2) by (simp_all add: k_def l_def)
    have al: "2 ^ (15 - k) dvd base cs i" "2 ^ (15 - k) dvd base cs j"
      using canon_sorted [OF assms(1), of _ "i - 1"] ji il by (auto intro!: base_dvd simp: k_def)
    have "base cs i < base cs e" using base_strict [of i e cs] Suc.prems(2) assms(5) by simp
    moreover obtain u where u: "base cs e - base cs i = 2 ^ (15 - k) * u" using dvd_diff_nat [OF de [OF k(1,3) al(2)] al(1)] by (auto simp: dvd_def)
    ultimately have u0: "1 \<le> u" by (cases u) auto
    have p: "(2::nat) ^ (15 - k) = 2 ^ (15 - l) * 2 ^ (l - k)" using k l by (simp flip: power_add)
    have "base cs e - base cs (Suc i) = (base cs e - base cs i) - 2 ^ (15 - l)" using bs by simp
    then have "base cs e - base cs (Suc i) = 2 ^ (15 - l) * (2 ^ (l - k) * u - 1)" unfolding u p by (simp add: right_diff_distrib' mult.assoc)
    then have u': "(base cs e - base cs (Suc i)) div 2 ^ (15 - l) = 2 ^ (l - k) * u - 1" by simp
    have "l - k + u \<le> 2 ^ (l - k) * u"
    proof -
      obtain v where v: "u = Suc v" using u0 by (cases u) auto
      have "Suc (l - k) \<le> 2 ^ (l - k)" by (rule Suc_leI) (rule less_exp)
      moreover have "v \<le> 2 ^ (l - k) * v" by simp
      ultimately show ?thesis unfolding v mult_Suc_right by linarith
    qed
    moreover have "2 ^ (fst (cs ! j) - 8) + k \<le> i - j + u + fst (cs ! j)" using Suc.IH ji Suc.prems(2) u by (simp add: k_def)
    ultimately show ?thesis using u' k(2) ji by (simp add: l_def [symmetric]) linarith
  qed
qed simp

lemma slot_size:
  assumes "canon cs" and "start cs 9 \<le> j" and "j < e" and "e \<le> length cs" and "base cs e = base cs j + 128" and "128 dvd base cs j"
  shows "2 ^ (fst (cs ! j) - 8) + (fst (cs ! (e - 1)) - fst (cs ! j)) \<le> e - j" and "9 \<le> fst (cs ! j)"
    and "fst (cs ! j) \<le> fst (cs ! (e - 1))" and "fst (cs ! (e - 1)) \<le> 15"
proof -
  have e: "e - 1 < length cs" using assms(3,4) by simp
  show m: "fst (cs ! j) \<le> fst (cs ! (e - 1))" using canon_sorted [OF assms(1), of j "e - 1"] assms(3) e by simp
  show "2 ^ (fst (cs ! j) - 8) + (fst (cs ! (e - 1)) - fst (cs ! j)) \<le> e - j"
    using slot_count [OF assms(1-3) order_refl assms(4-6)] m by simp
  show "9 \<le> fst (cs ! j)" using long_start [OF assms(1,2)] assms(3,4) by simp
  show "fst (cs ! (e - 1)) \<le> 15" using canonD [OF assms(1) e] by simp
qed


subsection \<open>The width of a table\<close>

text \<open>The histogram of the codes from the \<open>j\<close>th on.\<close>

definition remaining :: "(nat \<times> nat) list \<Rightarrow> nat \<Rightarrow> nat list \<Rightarrow> bool" where
  "remaining cs j count \<longleftrightarrow> length count = 16 \<and> (\<forall>l. 9 \<le> l \<and> l \<le> 15 \<longrightarrow> count ! l = start cs (Suc l) - max j (start cs l))"

lemma base_same_length:
  assumes "canon cs" and "a \<le> b" and "b \<le> length cs" and "\<And>i. a \<le> i \<Longrightarrow> i < b \<Longrightarrow> fst (cs ! i) = l"
  shows "base cs b = base cs a + (b - a) * 2 ^ (15 - l)"
  using assms(2-)
proof (induction b)
  case (Suc b)
  show ?case
  proof (cases "a = Suc b")
    case False
    then have ab: "a \<le> b" "b < length cs" "Suc b - a = Suc (b - a)" using Suc.prems by simp_all
    have "base cs b = base cs a + (b - a) * 2 ^ (15 - l)" using Suc.IH [OF ab(1)] Suc.prems ab by simp
    then show ?thesis using ab Suc.prems(3) [of b] by (simp add: base_Suc)
  qed simp
qed simp

lemma nextTableBitSize_ok:
  assumes "canon cs" and "remaining cs j count" and "start cs 9 \<le> j" and "j < e" and "e \<le> length cs" and "128 dvd base cs j"
    and "base cs e = base cs j + 128"
  shows "nextTableBitSize count (fst (cs ! j)) 8 = Some (fst (cs ! (e - 1)) - 8)"
proof -
  define t where "t = fst (cs ! (e - 1))"
  note size = slot_size [OF assms(1,3,4,5,7,6)]
  have t: "fst (cs ! j) \<le> t" "t \<le> 15" using size by (simp_all add: t_def)
  have j: "j < length cs" and e1: "e - 1 < length cs" using assms(4,5) by simp_all
  have mono: "fst (cs ! i) \<le> t" if "i < e" for i using canon_sorted [OF assms(1), of i "e - 1"] that assms(5) by (simp add: t_def)
  define f where "f l = max j (start cs l)" for l
  have fe: "f (Suc l) = start cs (Suc l)" if "fst (cs ! j) \<le> l" for l
    using start_length(1) [OF assms(1) j, of "Suc l"] that by (simp add: f_def)
  have fb: "f l \<le> length cs" for l using start_length(2) [OF assms(1), of l] j by (simp add: f_def)
  have step: "go_index count (int l) = Some (f (Suc l) - f l)"
      "(left - int (f (Suc l) - f l)) * 2 ^ (15 - l) = int (base cs e) - int (base cs (f (Suc l)))"
      "left - int (f (Suc l) - f l) \<le> 0 \<longleftrightarrow> t \<le> l"
    if l: "fst (cs ! j) \<le> l" "l < 15" "left * 2 ^ (15 - l) = int (base cs e) - int (base cs (f l))" for left l
  proof -
    show "go_index count (int l) = Some (f (Suc l) - f l)"
      using assms(2) size(2) l fe [of l] by (simp add: remaining_def f_def)
    have ff: "f l \<le> f (Suc l)" using start_mono [of l "Suc l" cs] by (simp add: f_def)
    have "base cs (f (Suc l)) = base cs (f l) + (f (Suc l) - f l) * 2 ^ (15 - l)"
      by (rule base_same_length [OF assms(1) ff fb]) (use start_range [OF assms(1), of l] fe l in \<open>auto simp: f_def\<close>)
    then show eq: "(left - int (f (Suc l) - f l)) * 2 ^ (15 - l) = int (base cs e) - int (base cs (f (Suc l)))"
      using l(3) by (simp add: left_diff_distrib)
    have "left - int (f (Suc l) - f l) \<le> 0 \<longleftrightarrow> (left - int (f (Suc l) - f l)) * 2 ^ (15 - l) \<le> 0"
      by (simp add: mult_le_0_iff)
    also have "\<dots> \<longleftrightarrow> base cs e \<le> base cs (f (Suc l))" unfolding eq by simp
    also have "\<dots> \<longleftrightarrow> e \<le> f (Suc l)"
      using base_mono [of e "f (Suc l)" cs] base_strict [of "f (Suc l)" e cs] assms(5) by (meson leD leI)
    also have "\<dots> \<longleftrightarrow> e - 1 < start cs (Suc l)" using fe [OF l(1)] assms(4) by auto
    also have "\<dots> \<longleftrightarrow> t \<le> l" using start_length(1) [OF assms(1) e1, of "Suc l"] by (simp add: t_def less_Suc_eq_le)
    finally show "left - int (f (Suc l) - f l) \<le> 0 \<longleftrightarrow> t \<le> l" .
  qed
  have loop: "nextTableBitSize_loop count left l = Some t"
    if "fst (cs ! j) \<le> l" "l \<le> t" "left * 2 ^ (15 - l) = int (base cs e) - int (base cs (f l))" for left l
    using that
  proof (induction "t - l" arbitrary: l left)
    case 0
    then have lt: "l = t" by simp
    show ?case
    proof (cases "t < 15")
      case True
      then have "l < 15" using lt by simp
      note st = step [OF 0(2) this 0(4)]
      show ?thesis using st(3) lt True
        by (subst nextTableBitSize_loop.simps, unfold st(1) option.case) (simp add: HuffmanMaxCodeLength_def)
    next
      case False
      then have "\<not> l < HuffmanMaxCodeLength" using lt by (simp add: HuffmanMaxCodeLength_def)
      then show ?thesis using lt by (subst nextTableBitSize_loop.simps) simp
    qed
  next
    case (Suc k)
    have l: "l < 15" "l < t" using Suc.hyps(2) t by simp_all
    have p: "2 ^ (15 - l) = 2 * (2::int) ^ (15 - Suc l)"
      using l(1) by (metis Suc_diff_Suc power_Suc)
    have "2 * (left - int (f (Suc l) - f l)) * 2 ^ (15 - Suc l) = int (base cs e) - int (base cs (f (Suc l)))"
      unfolding step(2) [OF Suc.prems(1) l(1) Suc.prems(3), symmetric] p by (simp only: mult_ac)
    then have "nextTableBitSize_loop count (2 * (left - int (f (Suc l) - f l))) (Suc l) = Some t"
      using Suc.hyps Suc.prems l by (intro Suc.hyps(1)) simp_all
    moreover note st = step [OF Suc.prems(1) l(1) Suc.prems(3)]
    ultimately show ?case using l st(3)
      by (subst nextTableBitSize_loop.simps, unfold st(1) option.case) (simp add: HuffmanMaxCodeLength_def)
  qed
  have "start cs (fst (cs ! j)) \<le> j" using start_length(1) [OF assms(1) j, of "fst (cs ! j)"] by simp
  moreover have "(2::int) ^ (fst (cs ! j) - 8) * 2 ^ (15 - fst (cs ! j)) = 128"
    using size t by (subst power_add [symmetric]) simp
  ultimately have "nextTableBitSize_loop count (2 ^ (fst (cs ! j) - 8)) (fst (cs ! j)) = Some t"
    using t assms(7) by (intro loop) (simp_all add: f_def max_def)
  then show ?thesis by (simp add: nextTableBitSize_def t_def)
qed

end
