(* ===== verification/Table_Correct.thy ===== *)
theory Table_Correct
  imports Table_Levels
begin

text \<open>
  The correctness of \<open>BuildHuffmanTable\<close>: the invariant of the loop over the codes of more than 8 bits, and the
  theorem about the whole table.
\<close>

subsection \<open>Codes of more than 8 bits in two parts\<close>

definition root_slot :: "(nat \<times> nat) list \<Rightarrow> nat \<Rightarrow> nat" where
  "root_slot cs i = code_bits cs i mod 256"

definition sub_match :: "(nat \<times> nat) list \<Rightarrow> nat \<Rightarrow> nat \<Rightarrow> bool" where
  "sub_match cs i p \<longleftrightarrow> p mod 2 ^ (fst (cs ! i) - 8) = code_bits cs i div 256"

definition sub_entry :: "(nat \<times> nat) list \<Rightarrow> nat \<Rightarrow> HuffmanCode" where
  "sub_entry cs i = \<lparr>Bits = fst (cs ! i) - 8, Value = snd (cs ! i)\<rparr>"

lemma matches_split:
  assumes "8 \<le> fst (cs ! i)"
  shows "matches cs i w \<longleftrightarrow> w mod 256 = root_slot cs i \<and> sub_match cs i (w div 256)"
proof -
  define l where "l = fst (cs ! i) - 8"
  have l: "fst (cs ! i) = 8 + l" using assms by (simp add: l_def)
  have "w mod 2 ^ (8 + l) = 256 * (w div 256 mod 2 ^ l) + w mod 256"
    by (simp add: power_add mod_mult2_eq)
  moreover have "code_bits cs i = 256 * (code_bits cs i div 256) + code_bits cs i mod 256" by simp
  ultimately show ?thesis unfolding matches_def sub_match_def root_slot_def l
    by (metis (no_types, lifting) add_diff_cancel_left' div_mult_self4 div_less mod_less_divisor mod_mult_self4 mod_mod_trivial
        add.left_neutral add.commute zero_less_numeral zero_neq_numeral)
qed

text \<open>The two keys of a long code.\<close>

lemma long_keys:
  assumes "canon cs" and "i < length cs" and "8 \<le> fst (cs ! i)"
  shows "Reverse8 (base cs i div 128) = root_slot cs i" and "Reverse8 (2 * (base cs i mod 128)) = code_bits cs i div 256"
    and "code_bits cs i div 256 < 2 ^ (fst (cs ! i) - 8)"
proof -
  define l where "l = fst (cs ! i) - 8"
  have l: "fst (cs ! i) = 8 + l" "l \<le> 7" using assms(3) canonD(2) [OF assms(1,2)] by (simp_all add: l_def)
  obtain c where c: "base cs i = 2 ^ (7 - l) * c" using base_aligned [OF assms(1,2)] l by (auto simp: dvd_def)
  have cb: "code_bits cs i = bitrev (8 + l) c" unfolding code_bits_def l(1) using l(2) by (simp add: c)
  have p: "(128::nat) = 2 ^ (7 - l) * 2 ^ l" using l(2) by (simp flip: power_add)
  have "base cs i div 128 = c div 2 ^ l" unfolding p c by simp
  then show "Reverse8 (base cs i div 128) = root_slot cs i"
    using bitrev_low [of l "8 + l" c] by (simp add: Reverse8_bitrev root_slot_def cb)
  have sub: "code_bits cs i div 256 = bitrev l c" using bitrev_div [of l "8 + l" c] by (simp add: cb)
  have "base cs i mod 128 = 2 ^ (7 - l) * (c mod 2 ^ l)" unfolding p c by (simp only: mult_mod_right)
  moreover have "2 * (2::nat) ^ (7 - l) = 2 ^ (8 - l)" using l(2) by (simp flip: power_Suc add: Suc_diff_le)
  ultimately have "2 * (base cs i mod 128) = 2 ^ (8 - l) * (c mod 2 ^ l)" by simp
  then show "Reverse8 (2 * (base cs i mod 128)) = code_bits cs i div 256"
    using l(2) bitrev_shift [of l 8 "c mod 2 ^ l"] bitrev_mod [of l l c] by (simp add: Reverse8_bitrev sub)
  show "code_bits cs i div 256 < 2 ^ (fst (cs ! i) - 8)" unfolding sub l(1) using bitrev_less [of l c] by simp
qed

lemma sub_unique:
  assumes "canon cs" and "i < length cs" and "j < length cs" and "8 \<le> fst (cs ! i)" and "8 \<le> fst (cs ! j)"
    and "root_slot cs i = root_slot cs j" and "sub_match cs i p" and "sub_match cs j p"
  shows "i = j"
proof -
  have "root_slot cs i < 256" by (simp add: root_slot_def)
  then have "matches cs i (256 * p + root_slot cs i)" "matches cs j (256 * p + root_slot cs i)"
    using assms by (simp_all add: matches_split)
  then show ?thesis by (rule code_unique [OF assms(1-3)])
qed

text \<open>Which root entry belongs to which slot.\<close>

lemma root_slot_eq:
  assumes "canon cs" and "i < length cs" and "8 \<le> fst (cs ! i)" and "Reverse8 q = root_slot cs i" and "q < 256"
  shows "q = base cs i div 128"
proof -
  have "base cs i div 128 < 256"
    using base_strict [OF assms(2) order_refl] base_length [OF assms(1)] by (simp add: div_less_iff_less_mult)
  moreover have "bitrev 8 q = bitrev 8 (base cs i div 128)" using assms(4) long_keys(1) [OF assms(1-3)] by (simp add: Reverse8_bitrev)
  ultimately show ?thesis using assms(5) by (simp add: bitrev_inject)
qed

lemma short_not_slot:
  assumes "canon cs" and "i < start cs 9" and "matches cs i (Reverse8 q)" and "q < 256"
  shows "128 * q < base cs (start cs 9)"
proof -
  have i: "i < length cs" using assms(2) start_length(2) [OF assms(1), of 9] by simp
  have "bitrev 15 (Reverse8 q) = bitrev 7 (bitrev 8 q div 256) + 128 * bitrev 8 (bitrev 8 q)"
    using bitrev_split [of 8 15 "bitrev 8 q"] by (simp add: Reverse8_bitrev)
  moreover have "bitrev 8 q div 256 = 0" using bitrev_less [of 8 q] by simp
  moreover have "bitrev 7 0 = 0" by (simp add: bitrev_def nat_bits_def upt_rec)
  ultimately have "bitrev 15 (Reverse8 q) = 128 * q" using assms(4) by (simp add: bitrev_bitrev)
  then have "128 * q < base cs (Suc i)" using assms(3) i by (simp add: code_match [OF assms(1)])
  also have "\<dots> \<le> base cs (start cs 9)" using assms(2) by (intro base_mono) simp
  finally show ?thesis .
qed


subsection \<open>The invariant of the second loop\<close>

text \<open>The table of code \<open>i\<close> is in place at \<open>o1\<close>, of width \<open>tb\<close>.\<close>

definition rooted :: "HuffmanCode list \<Rightarrow> nat \<Rightarrow> nat \<Rightarrow> nat \<Rightarrow> bool" where
  "rooted table q o1 tb \<longleftrightarrow> 1 \<le> tb \<and> tb \<le> 7 \<and> 256 \<le> o1 \<and> o1 < 2 ^ 16 \<and> table ! q = \<lparr>Bits = tb + 8, Value = o1 - q\<rparr>"

definition placed :: "(nat \<times> nat) list \<Rightarrow> HuffmanCode list \<Rightarrow> nat \<Rightarrow> nat \<Rightarrow> nat \<Rightarrow> bool" where
  "placed cs table i o1 tb \<longleftrightarrow> rooted table (root_slot cs i) o1 tb \<and> fst (cs ! i) \<le> tb + 8 \<and>
     (\<forall>p<2 ^ tb. sub_match cs i p \<longrightarrow> table ! (o1 + p) = sub_entry cs i)"

definition placed_below :: "(nat \<times> nat) list \<Rightarrow> HuffmanCode list \<Rightarrow> nat \<Rightarrow> nat \<Rightarrow> bool" where
  "placed_below cs table i lim \<longleftrightarrow> (\<exists>o1 tb. o1 + 2 ^ tb \<le> lim \<and> placed cs table i o1 tb)"

definition root_done :: "(nat \<times> nat) list \<Rightarrow> HuffmanCode list \<Rightarrow> bool" where
  "root_done cs table \<longleftrightarrow> (\<forall>p<256. \<forall>i < start cs 9. matches cs i p \<longrightarrow> table ! p = code_entry cs i)"

text \<open>What holds throughout. \<open>table0\<close> is the table at the start of the loop.\<close>

definition level2_base :: "(nat \<times> nat) list \<Rightarrow> HuffmanCode list \<Rightarrow> nat \<Rightarrow> level2 \<Rightarrow> bool" where
  "level2_base cs table0 j x \<longleftrightarrow> length (l2_table x) = length table0 \<and> remaining cs j (l2_count x) \<and>
     l2_totalSize x = l2_off x + l2_tableSize x \<and> 256 \<le> l2_totalSize x \<and> l2_totalSize x \<le> length table0 \<and>
     root_done cs (l2_table x) \<and> (\<forall>p<length table0. l2_totalSize x \<le> p \<longrightarrow> l2_table x ! p = table0 ! p)"

definition boundary :: "(nat \<times> nat) list \<Rightarrow> nat \<Rightarrow> level2 \<Rightarrow> bool" where
  "boundary cs j x \<longleftrightarrow> l2_subKey x = 256 \<and> 128 * l2_key x = base cs j \<and>
     (\<forall>i. start cs 9 \<le> i \<and> i < j \<longrightarrow> placed_below cs (l2_table x) i (l2_totalSize x)) \<and>
     (\<exists>d\<ge>1. d \<le> 7 \<and> (\<forall>i. j \<le> i \<and> i < length cs \<longrightarrow> d + 8 \<le> fst (cs ! i)) \<and>
        l2_totalSize x + 1 + d \<le> 256 + (j - start cs 9) + 2 ^ d)"

text \<open>Within a slot that ends at code \<open>e\<close>.\<close>

definition opened :: "(nat \<times> nat) list \<Rightarrow> nat \<Rightarrow> nat \<Rightarrow> level2 \<Rightarrow> bool" where
  "opened cs j e x \<longleftrightarrow> (\<exists>tb. l2_tableSize x = 2 ^ tb \<and> j < e \<and> e \<le> length cs \<and> base cs e = 128 * l2_key x \<and> 1 \<le> l2_key x \<and>
     base cs e \<le> base cs j + 128 \<and> l2_subKey x = 2 * (base cs j mod 128) \<and> fst (cs ! (e - 1)) = tb + 8 \<and>
     rooted (l2_table x) (Reverse8 (l2_key x - 1)) (l2_off x) tb \<and>
     l2_totalSize x + 1 + tb \<le> 256 + (e - start cs 9) + 2 ^ tb \<and>
     (\<forall>i. start cs 9 \<le> i \<and> i < j \<longrightarrow> (if base cs i + 128 < base cs e then placed_below cs (l2_table x) i (l2_off x)
        else placed cs (l2_table x) i (l2_off x) tb)))"

text \<open>Opening a table.\<close>

lemma potential_mono:
  assumes "(d::nat) \<le> m" and "1 \<le> d" shows "2 ^ d + m \<le> 2 ^ m + d"
  using assms
proof (induction m rule: dec_induct)
  case (step m)
  have "(1::nat) \<le> 2 ^ m" by simp
  then show ?case using step.IH assms(2) unfolding power_Suc by linarith
qed simp

lemma potential_7: "(tb::nat) \<le> 7 \<Longrightarrow> 2 ^ tb \<le> 121 + tb"
proof -
  assume "tb \<le> 7"
  show ?thesis
  proof (cases "tb = 0")
    case False
    then show ?thesis using potential_mono [of tb 7] \<open>tb \<le> 7\<close> by simp
  qed simp
qed

lemma placed_update:
  assumes "placed cs table i o1 tb" and "q < 256" and "root_slot cs i \<noteq> q"
  shows "placed cs (table[q := c]) i o1 tb"
  using assms by (simp add: placed_def rooted_def)

lemma placed_below_mono: "placed_below cs table i a \<Longrightarrow> a \<le> b \<Longrightarrow> placed_below cs table i b"
  unfolding placed_below_def by (meson le_trans)

lemma placed_belowI: "placed cs table i o1 tb \<Longrightarrow> placed_below cs table i (o1 + 2 ^ tb)"
  unfolding placed_below_def by blast

lemma level2_open_boundary:
  assumes "canon cs" and "start cs 9 \<le> j" and "j < length cs" and "level2_base cs table0 j x" and "boundary cs j x"
    and "376 + (length cs - start cs 9) \<le> length table0" and "376 + (length cs - start cs 9) \<le> 2 ^ 16"
  shows "\<exists>x' e. level2_open 8 1 (fst (cs ! j)) x = Some x' \<and> level2_base cs table0 j x' \<and> opened cs j e x'"
proof -
  obtain d where b: "l2_subKey x = 256" "128 * l2_key x = base cs j"
    "\<And>i. start cs 9 \<le> i \<Longrightarrow> i < j \<Longrightarrow> placed_below cs (l2_table x) i (l2_totalSize x)" "1 \<le> d" "d \<le> 7"
    "\<And>i. j \<le> i \<Longrightarrow> i < length cs \<Longrightarrow> d + 8 \<le> fst (cs ! i)"
    "l2_totalSize x + 1 + d \<le> 256 + (j - start cs 9) + 2 ^ d" using assms(5) unfolding boundary_def by blast
  note base = assms(4) [unfolded level2_base_def]
  have dv: "128 dvd base cs j" unfolding b(2) [symmetric] by simp
  obtain e where e: "j < e" "e \<le> length cs" "base cs e = base cs j + 128" by (rule slot_end [OF assms(1-3) dv])
  note size = slot_size [OF assms(1,2) e dv]
  define tb where "tb = fst (cs ! (e - 1)) - 8"
  define m where "m = fst (cs ! j) - 8"
  have tb: "fst (cs ! (e - 1)) = tb + 8" "1 \<le> tb" "tb \<le> 7" "m \<le> tb" "1 \<le> m" "fst (cs ! j) = m + 8"
    using size by (simp_all add: tb_def m_def)
  have next1: "nextTableBitSize (l2_count x) (fst (cs ! j)) 8 = Some tb"
    using nextTableBitSize_ok [OF assms(1) _ assms(2) e(1,2) dv e(3)] base by (simp add: tb_def)
  define q where "q = Reverse8 (l2_key x)"
  have q: "q < 256" using bitrev_less [of 8 "l2_key x"] by (simp add: q_def Reverse8_bitrev)
  have "base cs j < 2 ^ 15" using base_strict [OF assms(3) order_refl] base_length [OF assms(1)] by simp
  then have key: "l2_key x < 256" using b(2) by simp
  define off where "off = l2_totalSize x"
  define table' where "table' = (l2_table x)[q := \<lparr>Bits = tb + 8, Value = off - q\<rparr>]"
  define x' where "x' = x\<lparr>l2_table := table', l2_off := off, l2_tableSize := 2 ^ tb,
      l2_totalSize := l2_totalSize x + 2 ^ tb, l2_key := l2_key x + 1, l2_subKey := 0\<rparr>"
  have count: "2 ^ m + (tb - m) \<le> e - j" using size(1) unfolding tb by simp
  have pm: "2 ^ d + m \<le> 2 ^ m + d" using b(4) b(6) [of j] e(1,2) by (intro potential_mono) (simp_all add: m_def)
  have sum: "off + 2 ^ tb + 1 + tb \<le> 256 + (e - start cs 9) + 2 ^ tb"
    using b(7) count pm tb(4) e(1) assms(2) unfolding off_def by linarith
  have room: "off + 2 ^ tb \<le> 376 + (length cs - start cs 9)" using sum potential_7 [OF tb(3)] e(2) by linarith
  have "(1::nat) \<le> 2 ^ tb" by simp
  then have "off < 2 ^ 16" using room assms(7) by linarith
  then have off: "256 \<le> off" "off < 2 ^ 16" "off \<le> length (l2_table x)" using base room assms(6) by (simp_all add: off_def)
  have "0 \<le> int off - int q" using q off by simp
  moreover have "int off - int q < 2 ^ 16" using off by simp
  ultimately have v: "nat ((int off - int q) mod 2 ^ 16) = off - q" by (simp add: mod_pos_pos_trivial nat_diff_distrib)
  have sub: "(l2_subKey x = 2 * reverseBitsHigh) = True" using b(1) by (simp add: reverseBitsHigh_def reverseBitsWidth_def)
  have oo: "l2_off x + l2_tableSize x = off" using base by (simp add: off_def)
  have "(tb + 8) mod 2 ^ 8 = tb + 8" using tb(3) by simp
  then have u: "go_update (l2_table x) (int q) \<lparr>Bits = (tb + 8) mod 2 ^ 8, Value = off - q\<rparr> = Some table'"
    using q off by (simp only: go_update_Some table'_def)
  have "level2_open 8 1 (fst (cs ! j)) x = Some x'"
    unfolding level2_open_def sub if_True Let_def oo next1 Option.bind.bind_lunit q_def [symmetric] v u using off(3)
    by (simp add: x'_def off_def)
  moreover have "level2_base cs table0 j x'"
  proof -
    have "root_done cs table'" unfolding root_done_def
    proof (intro allI impI)
      fix p i assume p: "p < 256" "i < start cs 9" "matches cs i p"
      have "p \<noteq> q"
      proof
        assume "p = q"
        then have "128 * l2_key x < base cs (start cs 9)" using short_not_slot [OF assms(1) p(2) _ key] p(3) by (simp add: q_def)
        then show False using base_mono [OF assms(2), of cs] b(2) by simp
      qed
      then show "table' ! p = code_entry cs i" using p base by (simp add: table'_def root_done_def)
    qed
    then show ?thesis using base room assms(6) q off unfolding level2_base_def x'_def by (auto simp: table'_def off_def)
  qed
  moreover have "opened cs j e x'"
  proof -
    have "base cs i + 128 < base cs e \<and> placed_below cs table' i off" if "start cs 9 \<le> i" "i < j" for i
    proof -
      have i: "i < length cs" "8 \<le> fst (cs ! i)" using long_start [OF assms(1) that(1)] that assms(3) by simp_all
      have lt: "base cs i < 128 * l2_key x" unfolding b(2) using base_strict [OF that(2)] assms(3) by simp
      have "root_slot cs i \<noteq> q" using root_slot_eq [OF assms(1) i, of "l2_key x"] key lt by (auto simp: q_def)
      then have "placed_below cs table' i off"
        using b(3) [OF that] placed_update [OF _ q] unfolding placed_below_def table'_def off_def by blast
      then show ?thesis using lt b(2) e(3) by simp
    qed
    moreover have "rooted table' q off tb" using q off tb by (simp add: rooted_def table'_def)
    ultimately show ?thesis unfolding opened_def
      using e tb(1) sum b(2) dv by (intro exI [of _ tb]) (simp add: x'_def q_def off_def)
  qed
  ultimately show ?thesis by blast
qed

text \<open>Within a slot nothing is opened.\<close>

lemma level2_open_inside:
  assumes "opened cs j e x" and "base cs e < base cs j + 128" and "base cs j < base cs e"
  shows "level2_open 8 1 l x = Some x"
proof -
  have "l2_subKey x = 2 * (base cs j mod 128)" using assms(1) by (auto simp: opened_def)
  then have "l2_subKey x < 256" by simp
  then have "(l2_subKey x = 2 * reverseBitsHigh) = False" by (simp add: reverseBitsHigh_def reverseBitsWidth_def)
  then show ?thesis by (simp only: level2_open_def if_False)
qed

text \<open>Placing one code.\<close>

definition advance :: "nat \<Rightarrow> HuffmanCode list \<Rightarrow> level2 \<Rightarrow> level2" where
  "advance l table x = x\<lparr>l2_table := table, l2_subKey := l2_subKey x + 2 ^ (16 - l),
     l2_count := (l2_count x)[l := l2_count x ! l - 1]\<rparr>"

lemma remaining_step:
  assumes "canon cs" and "j < length cs" and "remaining cs j count"
  shows "remaining cs (Suc j) (count[fst (cs ! j) := count ! fst (cs ! j) - 1])"
  unfolding remaining_def
proof (intro conjI allI impI)
  show "length (count[fst (cs ! j) := count ! fst (cs ! j) - 1]) = 16" using assms(3) by (simp add: remaining_def)
  fix l :: nat assume l: "9 \<le> l \<and> l \<le> 15"
  have r: "count ! l = start cs (Suc l) - max j (start cs l)" "length count = 16" using assms(3) l by (simp_all add: remaining_def)
  have s: "fst (cs ! j) < l \<longleftrightarrow> j < start cs l" "fst (cs ! j) < Suc l \<longleftrightarrow> j < start cs (Suc l)"
    using start_length(1) [OF assms(1,2)] by blast+
  show "count[fst (cs ! j) := count ! fst (cs ! j) - 1] ! l = start cs (Suc l) - max (Suc j) (start cs l)"
    using r l s by (cases "l = fst (cs ! j)") (auto simp: max_def not_less_eq_eq)
qed

lemma place_fill:
  assumes "canon cs" and "start cs 9 \<le> j" and "j < length cs" and "level2_base cs table0 j x" and "opened cs j e x"
  shows "\<exists>table'. in_slice (l2_off x + Reverse8 (l2_subKey x))
       (\<lambda>t. replicateValue t (mkCode (fst (cs ! j) - 8) (snd (cs ! j))) (2 ^ (fst (cs ! j) - 8)) (int (l2_tableSize x))) (l2_table x) = Some table' \<and>
     length table' = length table0 \<and> level2_base cs table0 (Suc j) (advance (fst (cs ! j)) table' x) \<and>
     (base cs (Suc j) < base cs e \<longrightarrow> opened cs (Suc j) e (advance (fst (cs ! j)) table' x)) \<and>
     (base cs (Suc j) = base cs e \<longrightarrow> boundary cs (Suc j) (advance (fst (cs ! j)) table' x)) \<and> base cs (Suc j) \<le> base cs e"
proof -
  obtain tb where o: "l2_tableSize x = 2 ^ tb" "j < e" "e \<le> length cs" "base cs e = 128 * l2_key x" "1 \<le> l2_key x"
     "base cs e \<le> base cs j + 128" "l2_subKey x = 2 * (base cs j mod 128)" "fst (cs ! (e - 1)) = tb + 8"
     "rooted (l2_table x) (Reverse8 (l2_key x - 1)) (l2_off x) tb"
     "l2_totalSize x + 1 + tb \<le> 256 + (e - start cs 9) + 2 ^ tb"
     "\<And>i. start cs 9 \<le> i \<Longrightarrow> i < j \<Longrightarrow> (if base cs i + 128 < base cs e then placed_below cs (l2_table x) i (l2_off x)
        else placed cs (l2_table x) i (l2_off x) tb)"
    using assms(5) unfolding opened_def by blast
  note base = assms(4) [unfolded level2_base_def]
  define l where "l = fst (cs ! j)"
  have l: "9 \<le> l" "l \<le> 15" "l \<le> tb + 8"
    using long_start [OF assms(1-3)] canonD [OF assms(1,3)] canon_sorted [OF assms(1), of j "e - 1"] o(2,3,8) by (simp_all add: l_def)
  have l8: "8 \<le> fst (cs ! j)" using l by (simp add: l_def)
  note keys = long_keys [OF assms(1,3) l8]
  have bj: "base cs j < base cs e" using base_strict [OF o(2,3)] .
  have slot: "base cs i div 128 = l2_key x - 1" if "base cs i < base cs e" "base cs e \<le> base cs i + 128" for i
    using that o(4,5) by (intro div_nat_eqI) (simp_all add: diff_mult_distrib2)
  note q = slot [OF bj o(6)]
  have se: "mkCode (l - 8) (snd (cs ! j)) = sub_entry cs j"
    using l canonD(3) [OF assms(1,3)] by (simp add: mkCode_def sub_entry_def l_def)
  have lt8: "l - 8 \<le> tb" using l by simp
  have room: "l2_off x + 2 ^ tb \<le> length (l2_table x)" using base o(1) by simp
  obtain table' where t': "in_slice (l2_off x + code_bits cs j div 256) (\<lambda>t. replicateValue t (sub_entry cs j) (2 ^ (l - 8)) (2 ^ tb)) (l2_table x) = Some table'"
    "length table' = length (l2_table x)"
    "\<And>p. p < length (l2_table x) \<Longrightarrow> table' ! p = (if l2_off x \<le> p \<and> p < l2_off x + 2 ^ tb \<and> (p - l2_off x) mod 2 ^ (l - 8) = code_bits cs j div 256
        then sub_entry cs j else l2_table x ! p)"
    using in_slice_replicate [OF keys(3) [folded l_def] lt8 room, of "sub_entry cs j"] by blast
  have off: "256 \<le> l2_off x" "1 \<le> tb" "tb \<le> 7" using o(9) by (simp_all add: rooted_def)
  have low: "table' ! p = l2_table x ! p" if "p < l2_off x" for p using t'(3) [of p] that room by simp
  have high: "table' ! (l2_off x + p) = (if sub_match cs j p then sub_entry cs j else l2_table x ! (l2_off x + p))" if "p < 2 ^ tb" for p
    using t'(3) [of "l2_off x + p"] that room by (simp add: sub_match_def l_def)
  have root: "rooted table' r o1 t \<longleftrightarrow> rooted (l2_table x) r o1 t" if "r < 256" for r o1 t
    using low [of r] that off(1) by (simp add: rooted_def)
  have rs: "root_slot cs i < 256" for i by (simp add: root_slot_def)
  have below: "placed_below cs table' i (l2_off x)" if pb: "placed_below cs (l2_table x) i (l2_off x)" for i
  proof -
    obtain o1 t where p: "o1 + 2 ^ t \<le> l2_off x" "placed cs (l2_table x) i o1 t" using pb by (auto simp: placed_below_def)
    then have "table' ! (o1 + k) = l2_table x ! (o1 + k)" if "k < 2 ^ t" for k using low that by simp
    then have "placed cs table' i o1 t" using p(2) unfolding placed_def root [OF rs] by simp
    then show ?thesis using p(1) by (auto simp: placed_below_def)
  qed
  have all: "if base cs i + 128 < base cs e then placed_below cs table' i (l2_off x) else placed cs table' i (l2_off x) tb"
    if i: "start cs 9 \<le> i" "i < Suc j" for i
  proof (cases "i = j")
    case True
    have "placed cs table' j (l2_off x) tb"
      unfolding placed_def root [OF rs] using o(9) keys(1) l(3) high by (simp add: q l_def)
    then show ?thesis using True o(6) by simp
  next
    case False
    then have ij: "i < j" using i(2) by simp
    show ?thesis
    proof (cases "base cs i + 128 < base cs e")
      case True
      then show ?thesis using o(11) [OF i(1) ij] below by simp
    next
      case False
      have il: "i < length cs" "8 \<le> fst (cs ! i)" using ij assms(3) long_start [OF assms(1) i(1)] by simp_all
      have p: "placed cs (l2_table x) i (l2_off x) tb" using o(11) [OF i(1) ij] False by simp
      have "base cs i div 128 = l2_key x - 1" using slot [of i] False base_strict [OF ij, of cs] assms(3) bj by simp
      then have "root_slot cs i = root_slot cs j" using long_keys(1) [OF assms(1) il] keys(1) q by simp
      then have "\<not> sub_match cs j k" if "sub_match cs i k" for k
        using sub_unique [OF assms(1) il(1) assms(3) il(2) l8] that ij by blast
      then show ?thesis using p False high unfolding placed_def root [OF rs] by simp
    qed
  qed
  define x' where "x' = advance l table' x"
  have sel: "l2_table x' = table'" "l2_off x' = l2_off x" "l2_tableSize x' = l2_tableSize x" "l2_totalSize x' = l2_totalSize x"
    "l2_key x' = l2_key x" "l2_count x' = (l2_count x)[l := l2_count x ! l - 1]" "l2_subKey x' = l2_subKey x + 2 ^ (16 - l)"
    by (simp_all add: x'_def advance_def)
  have "root_done cs table'" using base low off(1) unfolding root_done_def by auto
  then have b': "level2_base cs table0 (Suc j) x'"
    using base t'(2,3) remaining_step [OF assms(1,3), of "l2_count x"] o(1) unfolding level2_base_def sel by (simp add: l_def)
  have bs: "base cs (Suc j) = base cs j + 2 ^ (15 - l)" using assms(3) by (simp add: base_Suc l_def)
  have le: "base cs (Suc j) \<le> base cs e" using o(2) by (intro base_mono) simp
  have two: "2 ^ (16 - l) = 2 * (2::nat) ^ (15 - l)" using l(2) by (simp flip: power_Suc add: Suc_diff_le)
  have sub: "l2_subKey x + 2 ^ (16 - l) = 2 * (base cs (Suc j) - 128 * (l2_key x - 1))"
    using q div_mult_mod_eq [of "base cs j" 128] unfolding o(7) bs two by simp
  have "opened cs (Suc j) e x'" if lt: "base cs (Suc j) < base cs e"
  proof -
    have "Suc j < e" using lt o(2) by (cases "Suc j = e") auto
    moreover have "base cs e \<le> base cs (Suc j) + 128" using o(6) bs by simp
    moreover from this have "base cs (Suc j) div 128 = l2_key x - 1" using slot lt by blast
    then have "2 * (base cs (Suc j) - 128 * (l2_key x - 1)) = 2 * (base cs (Suc j) mod 128)"
      by (simp add: minus_div_mult_eq_mod [symmetric] mult.commute)
    ultimately show ?thesis unfolding opened_def sel using o all sub root [OF bitrev_less [of 8, folded Reverse8_bitrev, simplified]]
      by (intro exI [of _ tb]) simp
  qed
  moreover have "boundary cs (Suc j) x'" if eq: "base cs (Suc j) = base cs e"
  proof -
    have e: "e = Suc j" using base_strict [of "Suc j" e cs] eq o(2,3) by (cases "Suc j < e") auto
    have "placed_below cs table' i (l2_totalSize x)" if "start cs 9 \<le> i" "i < Suc j" for i
    proof -
      have "l2_totalSize x = l2_off x + 2 ^ tb" using base o(1) by simp
      then show ?thesis using all [OF that] placed_below_mono [of cs table' i "l2_off x"] placed_belowI [of cs table' i "l2_off x" tb]
        by (simp split: if_splits)
    qed
    moreover have "tb + 8 \<le> fst (cs ! i)" if "Suc j \<le> i" "i < length cs" for i
      using canon_sorted [OF assms(1), of j i] that o(8) e by simp
    moreover have "l2_subKey x + 2 ^ (16 - l) = 256" unfolding sub eq o(4) using o(5) by (simp add: diff_mult_distrib2)
    moreover have "l2_totalSize x + 1 + tb \<le> 256 + (Suc j - start cs 9) + 2 ^ tb" using o(10) e by simp
    moreover have "128 * l2_key x = base cs (Suc j)" using o(4) eq by simp
    ultimately show ?thesis unfolding boundary_def sel using off(2,3) by blast
  qed
  moreover have "in_slice (l2_off x + Reverse8 (l2_subKey x))
       (\<lambda>t. replicateValue t (mkCode (l - 8) (snd (cs ! j))) (2 ^ (l - 8)) (int (l2_tableSize x))) (l2_table x) = Some table'"
    unfolding o(1,7) keys(2) se using t'(1) by simp
  moreover have "length table' = length table0" using t'(2) base by simp
  ultimately show ?thesis unfolding l_def [symmetric] using b' le unfolding x'_def by blast
qed


subsection \<open>The loops\<close>

definition level2_inv :: "(nat \<times> nat) list \<Rightarrow> HuffmanCode list \<Rightarrow> nat \<Rightarrow> level2 \<Rightarrow> bool" where
  "level2_inv cs table0 j x \<longleftrightarrow> level2_base cs table0 j x \<and>
     (boundary cs j x \<or> (\<exists>e. opened cs j e x \<and> base cs e < base cs j + 128))"

definition room_ok :: "(nat \<times> nat) list \<Rightarrow> HuffmanCode list \<Rightarrow> bool" where
  "room_ok cs table \<longleftrightarrow> 376 + (length cs - start cs 9) \<le> length table \<and> 376 + (length cs - start cs 9) \<le> 2 ^ 16"

lemma level2_step:
  assumes "canon cs" and "start cs 9 \<le> j" and "j < length cs" and "level2_inv cs table0 j x" and "room_ok cs table0"
    and "SymbolList_get symbols sy = Some (snd (cs ! j))" and "fst (cs ! j) = l"
  shows "\<exists>x'. level2_fill (Suc n) 8 1 symbols sy l (2 ^ (l - 8)) (2 ^ (16 - l)) x =
       level2_fill n 8 1 symbols (int (snd (cs ! j))) l (2 ^ (l - 8)) (2 ^ (16 - l)) x' \<and> level2_inv cs table0 (Suc j) x'"
proof -
  have "\<exists>x1 e. level2_open 8 1 (fst (cs ! j)) x = Some x1 \<and> level2_base cs table0 j x1 \<and> opened cs j e x1"
  proof (cases "boundary cs j x")
    case True
    then show ?thesis using level2_open_boundary [OF assms(1-3)] assms(4,5) unfolding level2_inv_def room_ok_def by blast
  next
    case False
    then obtain e where e: "opened cs j e x" "base cs e < base cs j + 128" using assms(4) by (auto simp: level2_inv_def)
    then have "base cs j < base cs e" using base_strict [of j e cs] by (auto simp: opened_def)
    then show ?thesis using level2_open_inside [OF e] e(1) assms(4) by (auto simp: level2_inv_def)
  qed
  then obtain x1 e where x1: "level2_open 8 1 l x = Some x1" "level2_base cs table0 j x1" "opened cs j e x1"
    using assms(7) by blast
  obtain table' where t': "in_slice (l2_off x1 + Reverse8 (l2_subKey x1))
       (\<lambda>t. replicateValue t (mkCode (l - 8) (snd (cs ! j))) (2 ^ (l - 8)) (int (l2_tableSize x1))) (l2_table x1) = Some table'"
     "level2_base cs table0 (Suc j) (advance l table' x1)"
     "base cs (Suc j) < base cs e \<longrightarrow> opened cs (Suc j) e (advance l table' x1)"
     "base cs (Suc j) = base cs e \<longrightarrow> boundary cs (Suc j) (advance l table' x1)" "base cs (Suc j) \<le> base cs e"
    using place_fill [OF assms(1-3) x1(2,3)] unfolding assms(7) by blast
  have "base cs e \<le> base cs j + 128" using x1(3) by (auto simp: opened_def)
  then have "base cs e < base cs (Suc j) + 128" using base_strict [of j "Suc j" cs] assms(3) by simp
  then have "level2_inv cs table0 (Suc j) (advance l table' x1)"
    using t'(2-5) unfolding level2_inv_def by (cases "base cs (Suc j) = base cs e") auto
  moreover have "level2_fill (Suc n) 8 1 symbols sy l (2 ^ (l - 8)) (2 ^ (16 - l)) x =
       level2_fill n 8 1 symbols (int (snd (cs ! j))) l (2 ^ (l - 8)) (2 ^ (16 - l)) (advance l table' x1)"
    unfolding level2_fill.simps(2) x1(1) assms(6) Option.bind.bind_lunit t'(1) advance_def ..
  ultimately show ?thesis by blast
qed

lemma level2_fill_ok:
  assumes "canon cs" and "room_ok cs table0" and "start cs 9 \<le> j" and "j + n \<le> length cs"
    and "\<And>i. j \<le> i \<Longrightarrow> i < j + n \<Longrightarrow> fst (cs ! i) = l"
    and "chain symbols sy (map (\<lambda>i. snd (cs ! i)) [j..<j + n])" and "level2_inv cs table0 j x"
  shows "\<exists>x'. level2_fill n 8 1 symbols sy l (2 ^ (l - 8)) (2 ^ (16 - l)) x = Some x' \<and> level2_inv cs table0 (j + n) x'"
  using assms(3-7)
proof (induction n arbitrary: j sy x)
  case (Suc n)
  have j: "j < length cs" "fst (cs ! j) = l" using Suc.prems(2,3) by auto
  have up: "[j..<j + Suc n] = j # [Suc j..<Suc j + n]" using upt_conv_Cons [of j "j + Suc n"] by simp
  have ch: "SymbolList_get symbols sy = Some (snd (cs ! j))" "chain symbols (int (snd (cs ! j))) (map (\<lambda>i. snd (cs ! i)) [Suc j..<Suc j + n])"
    using Suc.prems(4) unfolding up by simp_all
  obtain x1 where x1: "level2_fill (Suc n) 8 1 symbols sy l (2 ^ (l - 8)) (2 ^ (16 - l)) x =
       level2_fill n 8 1 symbols (int (snd (cs ! j))) l (2 ^ (l - 8)) (2 ^ (16 - l)) x1" "level2_inv cs table0 (Suc j) x1"
    using level2_step [OF assms(1) Suc.prems(1) j(1) Suc.prems(5) assms(2) ch(1) j(2)] by blast
  have "\<exists>x'. level2_fill n 8 1 symbols (int (snd (cs ! j))) l (2 ^ (l - 8)) (2 ^ (16 - l)) x1 = Some x' \<and>
      level2_inv cs table0 (Suc j + n) x'"
    by (rule Suc.IH [OF _ _ _ ch(2) x1(2)]) (use Suc.prems(1-3) in auto)
  then show ?case unfolding x1(1) by simp
qed simp

lemma level2_lengths_ok:
  assumes "canon cs" and "room_ok cs table0" and "lists_ok symbols count cs" and "9 \<le> l" and "l + k \<le> 16"
    and "level2_inv cs table0 (start cs l) x"
  shows "\<exists>x'. level2_lengths k l 8 1 symbols (2 ^ (l - 8)) (2 ^ (16 - l)) x = Some x' \<and> level2_inv cs table0 (start cs (l + k)) x'"
  using assms(4-6)
proof (induction k arbitrary: l x)
  case (Suc k)
  define j n where "j = start cs l" and "n = start cs (Suc l) - start cs l"
  have jn: "j + n = start cs (Suc l)" using start_mono [of l "Suc l" cs] by (simp add: j_def n_def)
  have j9: "start cs 9 \<le> j" unfolding j_def by (rule start_mono) (rule Suc.prems(1))
  have jb: "j + n \<le> length cs" unfolding jn by (rule start_length(2) [OF assms(1)])
  have lr: "1 \<le> l" "l \<le> 15" using Suc.prems by simp_all
  have same: "fst (cs ! i) = l" if "j \<le> i" "i < j + n" for i
    using start_range [OF assms(1), of l i] that unfolding jn by (simp add: j_def)
  have "remaining cs j (l2_count x)" using Suc.prems(3) by (simp add: level2_inv_def level2_base_def j_def)
  then have g: "go_index (l2_count x) (int l) = Some n" using Suc.prems lr by (simp add: remaining_def n_def j_def)
  have ch: "chain symbols (int l - 16) (map (\<lambda>i. snd (cs ! i)) [j..<j + n])"
    unfolding jn using lists_okD(2) [OF assms(3) lr] by (simp add: j_def)
  obtain x1 where x1: "level2_fill n 8 1 symbols (int l - 16) l (2 ^ (l - 8)) (2 ^ (16 - l)) x = Some x1" "level2_inv cs table0 (start cs (Suc l)) x1"
    using level2_fill_ok [OF assms(1,2) j9 jb same ch, of x] Suc.prems(3) unfolding jn by (auto simp: j_def)
  have IH: "\<exists>x'. level2_lengths k (Suc l) 8 1 symbols (2 ^ (Suc l - 8)) (2 ^ (16 - Suc l)) x1 = Some x' \<and>
      level2_inv cs table0 (start cs (Suc l + k)) x'"
    by (rule Suc.IH) (use Suc.prems x1(2) in auto)
  have e: "2 * (2::int) ^ (l - 8) = 2 ^ (Suc l - 8)"
    using Suc_diff_le [of 8 l] Suc.prems(1) by (simp only: power_Suc)
  have h: "(2::nat) ^ (16 - l) div 2 = 2 ^ (16 - Suc l)" by (rule half_power) (use lr in simp)
  have "level2_lengths (Suc k) l 8 1 symbols (2 ^ (l - 8)) (2 ^ (16 - l)) x =
      level2_lengths k (Suc l) 8 1 symbols (2 ^ (Suc l - 8)) (2 ^ (16 - Suc l)) x1"
    unfolding level2_lengths.simps(2) g Option.bind.bind_lunit e h using x1(1) by (simp add: HuffmanMaxCodeLength_def)
  then show ?case using IH by simp
qed simp


subsection \<open>The table\<close>

text \<open>Every window is answered by the code it starts with.\<close>

definition decodes :: "(nat \<times> nat) list \<Rightarrow> HuffmanCode list \<Rightarrow> bool" where
  "decodes cs table \<longleftrightarrow> (\<forall>i<length cs. \<forall>w. matches cs i w \<longrightarrow> sym_look table w = Some (snd (cs ! i), fst (cs ! i)))"

lemma decodes_table_ok:
  assumes "canon cs" and "decodes cs table" and "256 \<le> length table" and "length table < 2 ^ 32"
    and "\<And>p. p < 256 \<Longrightarrow> Bits (table ! p) \<le> 15 \<and> Value (table ! p) < 2 ^ 16"
    and "\<And>p i. p < 256 \<Longrightarrow> i < length cs \<Longrightarrow> matches cs i p \<Longrightarrow> fst (cs ! i) \<le> 8 \<Longrightarrow> Bits (table ! p) \<le> 8"
  shows "table_ok table"
  unfolding table_ok_def HuffmanMaxCodeLength_def
proof (intro conjI allI impI)
  fix w :: nat
  obtain i where i: "i < length cs" "matches cs i w" using code_exists [OF assms(1)] by blast
  have same: "sym_look table w' = Some (snd (cs ! i), fst (cs ! i))" if "w' mod 2 ^ fst (cs ! i) = w mod 2 ^ fst (cs ! i)" for w'
    using assms(2) i that by (simp add: decodes_def matches_def)
  have "8 < fst (cs ! i)" if "8 < Bits (table ! (w mod 256))"
  proof (rule ccontr)
    assume s: "\<not> 8 < fst (cs ! i)"
    then have "(2::nat) ^ fst (cs ! i) dvd 2 ^ 8" by (intro le_imp_power_dvd) simp
    then have "matches cs i (w mod 256)" using i(2) by (simp add: matches_def mod_mod_cancel)
    then show False using assms(6) [of "w mod 256" i] i(1) s that by simp
  qed
  then show "case sym_look table w of None \<Rightarrow> False
        | Some (v, d) \<Rightarrow> d \<le> 15 \<and> (8 < Bits (table ! (w mod 256)) \<longrightarrow> 8 < d) \<and>
            (\<forall>w'<2 ^ 15. w' mod 2 ^ d = w mod 2 ^ d \<longrightarrow> sym_look table w' = Some (v, d))"
    using same [OF refl] same canonD(2) [OF assms(1) i(1)] by simp
qed (use assms in auto)

lemma root_decodes:
  assumes "canon cs" and "root_done cs table" and "i < start cs 9" and "matches cs i w" and "256 \<le> length table"
  shows "table ! (w mod 256) = code_entry cs i" and "sym_look table w = Some (snd (cs ! i), fst (cs ! i))"
proof -
  have i: "i < length cs" using assms(3) start_length(2) [OF assms(1), of 9] by simp
  have l: "fst (cs ! i) \<le> 8" using start_length(1) [OF assms(1) i, of 9] assms(3) by simp
  have "(2::nat) ^ fst (cs ! i) dvd 2 ^ 8" using l by (intro le_imp_power_dvd) simp
  then have "matches cs i (w mod 256)" using assms(4) by (simp add: matches_def mod_mod_cancel)
  then show t: "table ! (w mod 256) = code_entry cs i" using assms(2,3) by (simp add: root_done_def)
  have "go_index table (int (w mod 256)) = Some (code_entry cs i)"
    unfolding go_index_Some using t assms(5) by (simp add: less_le_trans [of _ 256])
  then show "sym_look table w = Some (snd (cs ! i), fst (cs ! i))"
    unfolding sym_look_def by (simp only: Option.bind.bind_lunit) (simp add: code_entry_def l)
qed

lemma placed_decodes:
  assumes "canon cs" and "start cs 9 \<le> i" and "i < length cs" and "placed_below cs table i (length table)" and "matches cs i w"
  shows "\<exists>t o1. 1 \<le> t \<and> t \<le> 7 \<and> o1 < 2 ^ 16 \<and> table ! (w mod 256) = \<lparr>Bits = t + 8, Value = o1 - w mod 256\<rparr>"
    and "sym_look table w = Some (snd (cs ! i), fst (cs ! i))"
proof -
  have l: "9 \<le> fst (cs ! i)" by (rule long_start [OF assms(1-3)])
  obtain o1 t where p: "o1 + 2 ^ t \<le> length table" "placed cs table i o1 t" using assms(4) by (auto simp: placed_below_def)
  have m: "w mod 256 = root_slot cs i" "sub_match cs i (w div 256)" using matches_split [of cs i w] l assms(5) by simp_all
  have r: "1 \<le> t" "t \<le> 7" "256 \<le> o1" "o1 < 2 ^ 16" "table ! (w mod 256) = \<lparr>Bits = t + 8, Value = o1 - w mod 256\<rparr>"
    using p(2) m(1) by (simp_all add: placed_def rooted_def)
  then show "\<exists>t o1. 1 \<le> t \<and> t \<le> 7 \<and> o1 < 2 ^ 16 \<and> table ! (w mod 256) = \<lparr>Bits = t + 8, Value = o1 - w mod 256\<rparr>" by blast
  define k where "k = w div 256 mod 2 ^ t"
  have k: "k < 2 ^ t" by (simp add: k_def)
  have lt: "fst (cs ! i) \<le> t + 8" using p(2) by (simp add: placed_def)
  have "(2::nat) ^ (fst (cs ! i) - 8) dvd 2 ^ t" using lt by (intro le_imp_power_dvd) simp
  then have "sub_match cs i k" using m(2) by (simp add: sub_match_def k_def mod_mod_cancel)
  then have e2: "table ! (o1 + k) = sub_entry cs i" using p(2) k by (simp add: placed_def)
  have "(1::nat) \<le> 2 ^ t" by simp
  then have i1: "go_index table (int (w mod 256)) = Some \<lparr>Bits = t + 8, Value = o1 - w mod 256\<rparr>"
    unfolding go_index_Some using r p(1) mod_less_divisor [of 256 w] by linarith
  have lt2: "o1 + k < length table" using k p(1) by linarith
  have "w mod 256 + (o1 - w mod 256) + k = o1 + k" using r(3) mod_less_divisor [of 256 w] by linarith
  then have i2: "go_index table (int (w mod 256 + (o1 - w mod 256) + w div 256 mod 2 ^ (t + 8 - 8))) = Some (sub_entry cs i)"
    unfolding go_index_Some using e2 lt2 by (simp flip: k_def)
  show "sym_look table w = Some (snd (cs ! i), fst (cs ! i))"
    unfolding sym_look_def i1 Option.bind.bind_lunit HuffmanCode.simps i2 using r l by (simp add: sub_entry_def)
qed

lemma last_longest: "canon cs \<Longrightarrow> c \<in> set cs \<Longrightarrow> fst c \<le> fst (last cs)"
proof -
  assume a: "canon cs" "c \<in> set cs"
  then obtain i where i: "i < length cs" "c = cs ! i" by (auto simp: in_set_conv_nth)
  then have "fst (cs ! i) \<le> fst (cs ! (length cs - 1))" using canon_sorted [OF a(1), of i "length cs - 1"] by simp
  then show ?thesis using i canon_nonempty [OF a(1)] by (simp add: last_conv_nth)
qed

lemma start_all: "(\<And>c. c \<in> set cs \<Longrightarrow> fst c < l) \<Longrightarrow> start cs l = length cs"
  by (simp add: start_def)

text \<open>The state in which the second loop starts.\<close>

lemma level2_start:
  assumes "canon cs" and "lists_ok symbols count cs" and "fst (last cs) = m" and "e = min 8 m" and "256 \<le> length table"
    and "filled cs (2 ^ e) (start cs (Suc e)) table1" and "length table1 = length table"
    and "\<And>p. p < length table \<Longrightarrow> table2 ! p = (if p < 2 ^ 8 then table1 ! (p mod 2 ^ e) else table1 ! p)"
    and "length table2 = length table"
  shows "level2_inv cs table2 (start cs 9) \<lparr>l2_table = table2, l2_off = 0, l2_count = count, l2_tableSize = 256, l2_totalSize = 256,
      l2_key = base cs (start cs (Suc e)) div 128, l2_subKey = 256\<rparr>"
proof -
  have all: "fst c \<le> m" if "c \<in> set cs" for c using last_longest [OF assms(1) that] assms(3) by simp
  have se: "start cs (Suc e) = start cs 9"
  proof (cases "m < 8")
    case True
    have "start cs 9 = length cs" using all True by (intro start_all) fastforce
    moreover have "start cs (Suc e) = length cs" using all assms(4) True by (intro start_all) (simp add: le_imp_less_Suc)
    ultimately show ?thesis by simp
  qed (use assms(4) in simp)
  have short: "fst (cs ! i) \<le> e" if "i < start cs 9" for i
    using start_length(1) [OF assms(1), of i "Suc e"] that se start_length(2) [OF assms(1), of 9] by simp
  have "root_done cs table2" unfolding root_done_def
  proof (intro allI impI)
    fix p i assume p: "p < 256" "i < start cs 9" "matches cs i p"
    have "(2::nat) ^ fst (cs ! i) dvd 2 ^ e" using short [OF p(2)] by (rule le_imp_power_dvd)
    then have "matches cs i (p mod 2 ^ e)" using p(3) by (simp add: matches_def mod_mod_cancel)
    then have "table1 ! (p mod 2 ^ e) = code_entry cs i" using assms(6) p(2) by (simp add: filled_def se)
    then show "table2 ! p = code_entry cs i" using assms(5,8) p(1) by simp
  qed
  moreover have "remaining cs (start cs 9) count"
    using assms(2) start_mono [of 9 _ cs] unfolding remaining_def lists_ok_def by (simp add: max_def)
  moreover have "128 dvd base cs (start cs 9)"
    using base_dvd [of "start cs 9" cs 8] start_length [OF assms(1)] short assms(4) by (fastforce intro: le_trans)
  moreover have "9 \<le> fst (cs ! i)" if "start cs 9 \<le> i" "i < length cs" for i using long_start [OF assms(1) that] .
  ultimately show ?thesis using assms(5,9)
    unfolding level2_inv_def level2_base_def boundary_def se by (auto intro!: exI [of _ "1::nat"])
qed

theorem BuildHuffmanTable_decodes:
  assumes "canon cs" and "lists_ok symbols count cs" and "length cs + 376 \<le> length table" and "length cs + 376 \<le> 2 ^ 16"
  obtains table' count' n where "BuildHuffmanTable table 8 symbols count = Some (table', count', n)" "length table' = length table"
    "256 \<le> n" "n \<le> length cs + 376" "decodes cs (take n table')" "table_ok (take n table')"
    "\<And>p. n \<le> p \<Longrightarrow> p < length table \<Longrightarrow> table' ! p = table ! p"
proof -
  define m where "m = fst (last cs)"
  define e where "e = min 8 m"
  have N: "0 < length cs" using canon_nonempty [OF assms(1)] by simp
  have lst: "last cs = cs ! (length cs - 1)" using N by (simp add: last_conv_nth)
  have m: "1 \<le> m" "m \<le> 15" using canonD [OF assms(1), of "length cs - 1"] N by (simp_all add: m_def lst)
  have full: "start cs (Suc m) = length cs"
    using last_longest [OF assms(1)] by (intro start_all) (simp add: m_def le_imp_less_Suc)
  have e: "1 \<le> e" "e \<le> 8" "2 ^ e \<le> (256::nat)" using m power_increasing [of e 8 "2::nat"] by (simp_all add: e_def)
  have T: "256 \<le> length table" using assms(3) by simp
  have st1: "start cs 1 = 0" using assms(1) by (fastforce simp: start_def canon_def filter_empty_conv)
  have f0: "filled cs (2 ^ e) (start cs 1) table" unfolding filled_def st1 using e(3) T by simp
  obtain table1 where t1: "root_lengths e 1 symbols count 2 0 128 (2 ^ e) table =
      Some (base cs (start cs (Suc e)) div 128, table1)" "length table1 = length table" "filled cs (2 ^ e) (start cs (Suc e)) table1"
      "\<forall>p<length table. 2 ^ e \<le> p \<longrightarrow> table1 ! p = table ! p"
    using root_lengths_ok [OF assms(1,2) order_refl _ e(2) f0, of e] by (auto simp: st1 [unfolded One_nat_def])
  obtain table2 where t2: "double_table (2 ^ 8) (2 ^ e) table1 = Some table2" "length table2 = length table1"
    "\<And>p. p < length table1 \<Longrightarrow> table2 ! p = (if p < 2 ^ 8 then table1 ! (p mod 2 ^ e) else table1 ! p)"
    using double_table_ok [OF e(2), of table1] t1(2) T by auto
  define x0 where "x0 = \<lparr>l2_table = table2, l2_off = 0, l2_count = count, l2_tableSize = 256, l2_totalSize = 256,
      l2_key = base cs (start cs (Suc e)) div 128, l2_subKey = 256\<rparr>"
  have i0: "level2_inv cs table2 (start cs 9) x0" unfolding x0_def
    by (rule level2_start [OF assms(1,2) m_def [symmetric] e_def T t1(3,2)]) (use t2 t1(2) in simp_all)
  have room: "room_ok cs table2" using assms(3,4) t1(2) t2(2) diff_le_self [of "length cs" "start cs 9"]
    unfolding room_ok_def by linarith
  obtain x where x: "level2_lengths (m - 8) 9 8 1 symbols 2 128 x0 = Some x" "level2_inv cs table2 (length cs) x"
  proof (cases "8 \<le> m")
    case True
    then show ?thesis using level2_lengths_ok [OF assms(1) room assms(2) order_refl, of "m - 8" x0] i0 m full that by auto
  next
    case False
    have "start cs 9 = length cs" using start_mono [of "Suc m" 9 cs] False full start_length(2) [OF assms(1), of 9] by simp
    then show ?thesis using that [of x0] i0 False by simp
  qed
  have bd: "boundary cs (length cs) x"
    using x(2) unfolding level2_inv_def opened_def by auto
  obtain d where d: "d \<le> 7" "l2_totalSize x + 1 + d \<le> 256 + (length cs - start cs 9) + 2 ^ d"
    "\<And>i. start cs 9 \<le> i \<Longrightarrow> i < length cs \<Longrightarrow> placed_below cs (l2_table x) i (l2_totalSize x)"
    using bd unfolding boundary_def by blast
  define n where "n = l2_totalSize x"
  have b: "length (l2_table x) = length table" "256 \<le> n" "n \<le> length table" "root_done cs (l2_table x)"
    "\<And>p. p < length table \<Longrightarrow> n \<le> p \<Longrightarrow> l2_table x ! p = table2 ! p"
    using x(2) t2(2) t1(2) by (auto simp: level2_inv_def level2_base_def n_def)
  have nb: "n \<le> length cs + 376" using d(2) potential_7 [OF d(1)] by (simp add: n_def)
  have mx: "max_length_loop symbols (-1) = Some (int m - 16)" using max_length_ok [OF assms(1,2)] by (simp add: m_def)
  have nm: "nat (int m - 16 + int HuffmanMaxCodeLength + 1) = m" by (simp add: HuffmanMaxCodeLength_def)
  have c: "(\<not> 8 \<le> reverseBitsWidth \<or> \<not> HuffmanMaxCodeLength - 8 \<le> reverseBitsWidth) = False" "reverseBitsHigh = 128"
    by (simp_all add: huffman_consts)
  have c2: "(2::nat) ^ 8 = 256" "2 * (128::nat) = 256" "128 div 2 ^ (8 - 1) = (1::nat)" "8 + 1 = (9::nat)" by simp_all
  have run: "BuildHuffmanTable table 8 symbols count = Some (l2_table x, l2_count x, n)"
    unfolding BuildHuffmanTable_def c if_False mx Option.bind.bind_lunit Let_def nm e_def [symmetric] t1(1) prod.case c2 t2(1) [unfolded c2(1)]
      x0_def [symmetric] x(1) n_def ..
  define tk where "tk = take n (l2_table x)"
  have len: "length tk = n" using b(1,3) by (simp add: tk_def)
  have tk: "tk ! p = l2_table x ! p" if "p < n" for p using that by (simp add: tk_def)
  have rd: "root_done cs tk" using b(2,4) tk unfolding root_done_def by simp
  have pb: "placed_below cs tk i (length tk)" if i: "start cs 9 \<le> i" "i < length cs" for i
  proof -
    obtain o1 t where p: "o1 + 2 ^ t \<le> n" "placed cs (l2_table x) i o1 t"
      using d(3) [OF i] by (auto simp: placed_below_def n_def)
    have "root_slot cs i < n" using b(2) by (simp add: root_slot_def less_le_trans [of _ 256])
    moreover have "tk ! (o1 + k) = l2_table x ! (o1 + k)" if "k < 2 ^ t" for k using tk p(1) that by simp
    ultimately have "placed cs tk i o1 t" using p(2) tk by (simp add: placed_def rooted_def)
    then show ?thesis using p(1) unfolding placed_below_def len by blast
  qed
  have dec: "decodes cs tk" unfolding decodes_def
  proof (intro allI impI)
    fix i w assume i: "i < length cs" "matches cs i w"
    show "sym_look tk w = Some (snd (cs ! i), fst (cs ! i))"
      using root_decodes(2) [OF assms(1) rd _ i(2)] placed_decodes(2) [OF assms(1) _ i(1) pb [OF _ i(1)] i(2)] b(2) len
      by (cases "i < start cs 9") simp_all
  qed
  have ent: "Bits (tk ! p) \<le> 15 \<and> Value (tk ! p) < 2 ^ 16 \<and> (i < start cs 9 \<longrightarrow> Bits (tk ! p) \<le> 8)"
    if p: "p < 256" "i < length cs" "matches cs i p" for p i
  proof (cases "i < start cs 9")
    case True
    then have "tk ! p = code_entry cs i" using root_decodes(1) [OF assms(1) rd True p(3)] p(1) b(2) len by simp
    moreover have "fst (cs ! i) \<le> 8" using start_length(1) [OF assms(1) p(2), of 9] True by simp
    ultimately show ?thesis using canonD(3) [OF assms(1) p(2)] by (simp add: code_entry_def)
  next
    case False
    then show ?thesis using placed_decodes(1) [OF assms(1) _ p(2) pb [OF _ p(2)] p(3)] p(1) by auto
  qed
  have "table_ok tk"
  proof (rule decodes_table_ok [OF assms(1) dec])
    show "256 \<le> length tk" "length tk < 2 ^ 32" using b(2) len nb assms(4) by simp_all
    show "Bits (tk ! p) \<le> 15 \<and> Value (tk ! p) < 2 ^ 16" if "p < 256" for p
      using ent [OF that] code_exists [OF assms(1), of p] by blast
    show "Bits (tk ! p) \<le> 8" if "p < 256" "i < length cs" "matches cs i p" "fst (cs ! i) \<le> 8" for p i
      using ent [OF that(1-3)] that(4) start_length(1) [OF assms(1) that(2), of 9] by simp
  qed
  moreover have "l2_table x ! p = table ! p" if "n \<le> p" "p < length table" for p
    using that b(2) b(5) [of p] t2(3) [of p] t1(2,4) e(3) by (simp add: le_trans [of "2 ^ e" 256 p])
  ultimately show thesis using that [OF run b(1,2) nb] dec by (simp add: tk_def)
qed

end
