(* ===== verification/Huffman_Lists.thy ===== *)
theory Huffman_Lists
  imports Decode_Huffman Table_Correct
begin

text \<open>
  From code lengths to tables. \<open>codes_of ls\<close> is the canonical code with the lengths \<open>ls\<close> of RFC 7932, section 3.2,
  where 0 stands for an unused symbol. The decoder links the symbols of each length while it reads the lengths;
  \<open>lists_rep ls h\<close> says that the arrays of the arena describe the lengths read so far.
\<close>

subsection \<open>The code with given lengths\<close>

definition syms :: "nat list \<Rightarrow> nat \<Rightarrow> nat list" where
  "syms ls l = filter (\<lambda>s. ls ! s = l) [0..<length ls]"

definition codes_of :: "nat list \<Rightarrow> (nat \<times> nat) list" where
  "codes_of ls = concat (map (\<lambda>l. map (\<lambda>s. (l, s)) (syms ls l)) [1..<16])"

definition kraft :: "nat list \<Rightarrow> nat" where
  "kraft ls = sum_list (map (\<lambda>x. if x = 0 then 0 else 2 ^ (15 - x)) ls)"

text \<open>Lengths a complete code has.\<close>

definition complete :: "nat list \<Rightarrow> bool" where
  "complete ls \<longleftrightarrow> (\<forall>x\<in>set ls. x \<le> 15) \<and> kraft ls = 2 ^ 15"

lemma syms_Nil [simp]: "syms [] l = []" by (simp add: syms_def)

lemma syms_snoc: "syms (ls @ [x]) l = syms ls l @ (if x = l then [length ls] else [])"
proof -
  have "filter (\<lambda>s. (ls @ [x]) ! s = l) [0..<length ls] = filter (\<lambda>s. ls ! s = l) [0..<length ls]"
    by (rule filter_cong) (simp_all add: nth_append)
  then show ?thesis by (simp add: syms_def nth_append)
qed

lemma in_syms: "s \<in> set (syms ls l) \<longleftrightarrow> s < length ls \<and> ls ! s = l"
  by (auto simp: syms_def)

lemma distinct_syms: "distinct (syms ls l)"
  by (simp add: syms_def)

lemma length_syms_le: "length (syms ls l) \<le> length ls"
  using length_filter_le [of "\<lambda>s. ls ! s = l" "[0..<length ls]"] by (simp add: syms_def)

lemma kraft_snoc: "kraft (ls @ [x]) = kraft ls + (if x = 0 then 0 else 2 ^ (15 - x))"
  by (simp add: kraft_def)

lemma weight_append [simp]: "weight (xs @ ys) = weight xs + weight ys"
  by (simp add: weight_def)

lemma weight_concat: "weight (concat xss) = sum_list (map weight xss)"
  by (induction xss) (simp_all add: weight_def)

lemma weight_level: "weight (map (\<lambda>s. (l, s)) ss) = length ss * 2 ^ (15 - l)"
  by (induction ss) (simp_all add: weight_def)

lemma sum_list_level: "distinct ks \<Longrightarrow> sum_list (map (\<lambda>k. if x = k then f k else (0::nat)) ks) = (if x \<in> set ks then f x else 0)"
  by (induction ks) auto

lemma weight_codes_of:
  assumes "\<forall>x\<in>set ls. x \<le> 15"
  shows "weight (codes_of ls) = kraft ls"
proof -
  have "sum_list (map (\<lambda>l. length (syms ls l) * 2 ^ (15 - l)) [1..<16]) = kraft ls"
    using assms
  proof (induction ls rule: rev_induct)
    case (snoc x ls)
    have "sum_list (map (\<lambda>l. length (syms (ls @ [x]) l) * 2 ^ (15 - l)) [1..<16]) =
        sum_list (map (\<lambda>l. length (syms ls l) * 2 ^ (15 - l) + (if x = l then 2 ^ (15 - l) else 0)) [1..<16])"
      by (intro arg_cong [of _ _ sum_list] map_cong refl) (simp add: syms_snoc)
    also have "\<dots> = kraft ls + sum_list (map (\<lambda>l. if x = l then 2 ^ (15 - l) else 0) [1..<16])"
      using snoc by (simp only: sum_list_addf) simp
    also have "\<dots> = kraft (ls @ [x])"
      using snoc.prems by (subst sum_list_level) (auto simp: kraft_snoc)
    finally show ?case .
  qed (simp add: kraft_def sum_list_0 map_replicate_const)
  then show ?thesis by (simp add: codes_of_def weight_concat comp_def weight_level del: upt.simps upt_rec_numeral)
qed

lemma filter_upt_less: "l \<le> n \<Longrightarrow> filter (\<lambda>k. k < l) [m..<n] = [m..<l]"
  by (induction n) (auto simp: le_Suc_eq filter_id_conv)

lemma codes_of_filter: "l \<le> 16 \<Longrightarrow> filter (\<lambda>c. fst c < l) (codes_of ls) = concat (map (\<lambda>k. map (\<lambda>s. (k, s)) (syms ls k)) [1..<l])"
proof -
  assume l: "l \<le> 16"
  have f: "filter (\<lambda>c. fst c < l) (map (\<lambda>s. (k, s)) (syms ls k)) = (if k < l then map (\<lambda>s. (k, s)) (syms ls k) else [])" for k
    by (simp add: filter_map comp_def)
  have "filter (\<lambda>c. fst c < l) (concat (map (\<lambda>k. map (\<lambda>s. (k, s)) (syms ls k)) ks)) =
      concat (map (\<lambda>k. map (\<lambda>s. (k, s)) (syms ls k)) (filter (\<lambda>k. k < l) ks))" for ks
    by (induction ks) (simp_all add: f)
  moreover have "filter (\<lambda>k. k < l) [1..<16] = [1..<l]" by (rule filter_upt_less [OF l])
  ultimately show ?thesis by (simp only: codes_of_def)
qed

lemma start_codes_of: "l \<le> 16 \<Longrightarrow> start (codes_of ls) l = sum_list (map (\<lambda>k. length (syms ls k)) [1..<l])"
  by (simp add: start_def codes_of_filter length_concat comp_def del: upt_rec_numeral)

lemma canon_codes_of:
  assumes "complete ls" and "length ls \<le> 0xFFFF"
  shows "canon (codes_of ls)"
  unfolding canon_def
proof (intro conjI)
  have "sorted (map fst (concat (map (\<lambda>l. map (\<lambda>s. (l, s)) (syms ls l)) [m..<n])))" for m n
    by (induction n) (auto simp: sorted_append comp_def map_replicate_const)
  then show "sorted (map fst (codes_of ls))" by (simp only: codes_of_def)
  show "\<forall>c\<in>set (codes_of ls). 1 \<le> fst c \<and> fst c \<le> 15 \<and> snd c < 0xFFFF"
    using assms(2) unfolding codes_of_def by (auto simp: in_syms simp del: upt_rec_numeral)
  show "weight (codes_of ls) = 2 ^ 15" using assms(1) by (simp add: complete_def weight_codes_of)
qed

lemma codes_of_level:
  assumes "1 \<le> l" and "l \<le> 15"
  shows "map (\<lambda>i. snd (codes_of ls ! i)) [start (codes_of ls) l..<start (codes_of ls) (Suc l)] = syms ls l"
    and "start (codes_of ls) (Suc l) - start (codes_of ls) l = length (syms ls l)"
proof -
  define f where "f k = map (\<lambda>s. (k, s)) (syms ls k)" for k
  have up: "[1..<16] = [1..<l] @ l # [Suc l..<16]"
  proof -
    have "[1..<l + (16 - l)] = [1..<l] @ [l..<l + (16 - l)]" using assms by (intro upt_add_eq_append) simp
    moreover have "[l..<16] = l # [Suc l..<16]" using assms by (intro upt_conv_Cons) simp
    ultimately show ?thesis using assms by (simp del: upt_rec_numeral)
  qed
  have cs: "codes_of ls = concat (map f [1..<l]) @ f l @ concat (map f [Suc l..<16])"
    unfolding codes_of_def up f_def [symmetric] by simp
  have st: "start (codes_of ls) l = length (concat (map f [1..<l]))" using assms(2)
    by (simp add: start_codes_of length_concat comp_def f_def)
  have st2: "start (codes_of ls) (Suc l) = length (concat (map f [1..<l])) + length (f l)" using assms
    by (simp add: start_codes_of length_concat comp_def f_def)
  show "start (codes_of ls) (Suc l) - start (codes_of ls) l = length (syms ls l)" unfolding st st2 by (simp add: f_def)
  show "map (\<lambda>i. snd (codes_of ls ! i)) [start (codes_of ls) l..<start (codes_of ls) (Suc l)] = syms ls l"
    unfolding st st2 by (rule nth_equalityI) (simp_all add: cs nth_append f_def)
qed

lemma length_codes_of: "length (codes_of ls) \<le> length ls"
proof -
  have "length (codes_of ls) = sum_list (map (\<lambda>l. length (syms ls l)) [1..<16])"
    by (simp add: codes_of_def length_concat comp_def del: upt_rec_numeral)
  also have "\<dots> \<le> length ls"
  proof (induction ls rule: rev_induct)
    case (snoc x ls)
    have "sum_list (map (\<lambda>l. length (syms (ls @ [x]) l)) [1..<16]) =
        sum_list (map (\<lambda>l. length (syms ls l) + (if x = l then 1 else 0)) [1..<16])"
      by (intro arg_cong [of _ _ sum_list] map_cong refl) (simp add: syms_snoc)
    also have "\<dots> = sum_list (map (\<lambda>l. length (syms ls l)) [1..<16]) + sum_list (map (\<lambda>l. if x = l then 1 else 0) [1..<16])"
      by (rule sum_list_addf)
    also have "sum_list (map (\<lambda>l. if x = l then 1 else 0) [1..<16]) \<le> (1::nat)"
      by (subst sum_list_level) simp_all
    finally show ?case using snoc by simp
  qed simp
  finally show ?thesis .
qed


subsection \<open>Linked lists in the array\<close>

fun linked :: "nat list \<Rightarrow> nat \<Rightarrow> nat list \<Rightarrow> bool" where
  "linked arr p [] \<longleftrightarrow> True"
| "linked arr p (s # ss) \<longleftrightarrow> p < length arr \<and> arr ! p = s \<and> linked arr (16 + s) ss"

definition tail_pos :: "nat \<Rightarrow> nat list \<Rightarrow> nat" where
  "tail_pos p ss = (if ss = [] then p else 16 + last ss)"

lemma linked_chain: "linked arr p ss \<Longrightarrow> chain \<lparr>Storage = arr, Offset = 16\<rparr> (int p - 16) ss"
proof (induction ss arbitrary: p)
  case (Cons s ss)
  then show ?case using Cons.IH [of "16 + s"] by (simp add: SymbolList_get_def)
qed simp

lemma linked_snoc:
  "linked arr p (ss @ [x]) \<longleftrightarrow> linked arr p ss \<and> tail_pos p ss < length arr \<and> arr ! tail_pos p ss = x"
  by (induction ss arbitrary: p) (auto simp: tail_pos_def)

lemma linked_update:
  "linked arr p ss \<Longrightarrow> q \<noteq> p \<or> ss = [] \<Longrightarrow> (\<And>s. s \<in> set (butlast ss) \<Longrightarrow> q \<noteq> 16 + s) \<Longrightarrow> linked (arr[q := v]) p ss"
proof (induction ss arbitrary: p)
  case (Cons s ss)
  have "linked (arr[q := v]) (16 + s) ss"
  proof (cases "ss = []")
    case False
    then show ?thesis using Cons.prems by (intro Cons.IH) auto
  qed simp
  then show ?case using Cons.prems by simp
qed simp


subsection \<open>The arrays describe the lengths\<close>

definition lists_rep :: "nat list \<Rightarrow> metablockHeaderArena \<Rightarrow> bool" where
  "lists_rep ls h \<longleftrightarrow> length (h_symbolListsArray h) = 720 \<and> 16 \<le> length (h_nextSymbol h) \<and> length (h_codeLengthHisto h) = 16 \<and>
     (\<forall>x\<in>set ls. x \<le> 15) \<and> length ls \<le> 704 \<and> h_space h = usub 32768 (kraft ls) \<and>
     (\<forall>l. 1 \<le> l \<and> l \<le> 15 \<longrightarrow> linked (h_symbolListsArray h) l (syms ls l) \<and> h_codeLengthHisto h ! l = length (syms ls l) \<and>
        h_nextSymbol h ! l = int (tail_pos l (syms ls l)) - 16 \<and> (syms ls l = [] \<longrightarrow> h_symbolListsArray h ! l = 0xFFFF))"

lemma lists_repD:
  assumes "lists_rep ls h" and "1 \<le> l" and "l \<le> 15"
  shows "linked (h_symbolListsArray h) l (syms ls l)" and "h_codeLengthHisto h ! l = length (syms ls l)"
    and "h_nextSymbol h ! l = int (tail_pos l (syms ls l)) - 16" and "syms ls l = [] \<Longrightarrow> h_symbolListsArray h ! l = 0xFFFF"
  using assms by (simp_all add: lists_rep_def)

lemma tail_pos_less:
  assumes "length ls \<le> 704" and "l \<le> 15"
  shows "tail_pos l (syms ls l) < 720"
proof (cases "syms ls l = []")
  case False
  then have "last (syms ls l) < length ls" using last_in_set [OF False] by (simp add: in_syms)
  then show ?thesis using assms False by (simp add: tail_pos_def)
qed (use assms in \<open>simp add: tail_pos_def\<close>)

lemma tail_pos_other:
  assumes "l \<noteq> m" and "l \<le> 15" and "m \<le> 15"
  shows "tail_pos l (syms ls l) \<noteq> m" and "s \<in> set (syms ls m) \<Longrightarrow> tail_pos l (syms ls l) \<noteq> 16 + s"
proof -
  show "tail_pos l (syms ls l) \<noteq> m" using assms by (simp add: tail_pos_def)
  assume s: "s \<in> set (syms ls m)"
  show "tail_pos l (syms ls l) \<noteq> 16 + s"
  proof (cases "syms ls l = []")
    case False
    then have "last (syms ls l) \<noteq> s" using last_in_set [OF False] s assms(1) by (auto simp: in_syms)
    then show ?thesis using False by (simp add: tail_pos_def)
  qed (use assms in \<open>simp add: tail_pos_def\<close>)
qed

lemma linked_link:
  assumes "linked arr l (syms ls l)" and "length arr = 720" and "length ls \<le> 704" and "l \<le> 15"
  shows "linked (arr[tail_pos l (syms ls l) := length ls]) l (syms (ls @ [l]) l)"
proof -
  have d: "last xs \<notin> set (butlast xs)" if "distinct xs" "xs \<noteq> []" for xs :: "nat list"
    using that by (induction xs rule: rev_induct) auto
  have "linked (arr[tail_pos l (syms ls l) := length ls]) l (syms ls l)"
    by (rule linked_update [OF assms(1)])
      (use assms(4) d [OF distinct_syms [of ls l]] in \<open>auto simp: tail_pos_def split: if_splits\<close>)
  then show ?thesis using tail_pos_less [OF assms(3,4)] assms(2) by (simp add: syms_snoc linked_snoc)
qed

text \<open>Linking one symbol, as both loops do it.\<close>

lemma link_one:
  assumes "lists_rep ls h" and "1 \<le> l" and "l \<le> 15" and "length ls < 704"
    and "arr = (h_symbolListsArray h)[tail_pos l (syms ls l) := length ls]"
    and "nxts = (h_nextSymbol h)[l := int (length ls)]" and "histo = (h_codeLengthHisto h)[l := length (syms ls l) + 1]"
    and "h_symbolListsArray h' = arr" and "h_nextSymbol h' = nxts" and "h_codeLengthHisto h' = histo"
    and "h_space h' = usub 32768 (kraft (ls @ [l]))"
  shows "lists_rep (ls @ [l]) h'"
  unfolding lists_rep_def assms(8-11)
proof (intro conjI allI impI)
  note rep = assms(1) [unfolded lists_rep_def]
  show "length arr = 720" "16 \<le> length nxts" "length histo = 16" using rep assms(5-7) by simp_all
  show "\<forall>x\<in>set (ls @ [l]). x \<le> 15" "length (ls @ [l]) \<le> 704" using rep assms(3,4) by auto
  fix m :: nat assume m: "1 \<le> m \<and> m \<le> 15"
  note R = lists_repD [OF assms(1), of m] 
  have tl: "tail_pos l (syms ls l) < 720" using tail_pos_less [of ls l] assms(3,4) by simp
  have idx: "l < length (h_nextSymbol h)" "m < length (h_nextSymbol h)" "l < length (h_codeLengthHisto h)" "m < length (h_codeLengthHisto h)"
    using rep assms(3) m by simp_all
  show "linked arr m (syms (ls @ [l]) m)"
  proof (cases "m = l")
    case True
    then show ?thesis using linked_link [of "h_symbolListsArray h" l ls] R(1) rep assms(4,5) m by simp
  next
    case False
    then show ?thesis unfolding assms(5)
      using linked_update [OF R(1)] tail_pos_other [where l = l and m = m and ls = ls] m assms(3) by (auto simp: syms_snoc dest: in_set_butlastD)
  qed
  show "histo ! m = length (syms (ls @ [l]) m)" using R(2) m idx assms(7) by (simp add: syms_snoc nth_list_update)
  show "nxts ! m = int (tail_pos m (syms (ls @ [l]) m)) - 16" using R(3) m idx assms(6) by (simp add: syms_snoc nth_list_update tail_pos_def)
  show "arr ! m = 65535" if "syms (ls @ [l]) m = []"
  proof -
    have ml: "m \<noteq> l" "syms ls m = []" using that by (auto simp: syms_snoc split: if_splits)
    then have "arr ! m = h_symbolListsArray h ! m" using tail_pos_other(1) [of l m ls] m assms(3,5) by simp
    then show ?thesis using R(4) m ml by simp
  qed
qed (simp)


subsection \<open>Code lengths with repeat codes\<close>

text \<open>What the code length symbols mean (RFC 7932, section 3.5): the lengths so far, the last length that was not 0,
  the size of the current run of repeat codes and the length it repeats. \<open>None\<close> is a run beyond the alphabet.\<close>

type_synonym rle = "nat list \<times> nat \<times> nat \<times> nat"

definition rle_single :: "nat \<Rightarrow> rle \<Rightarrow> rle" where
  "rle_single l = (\<lambda>(ls, prev, n, len). (ls @ [l], if l = 0 then prev else l, 0, len))"

definition rle_repeat :: "nat \<Rightarrow> bool \<Rightarrow> nat \<Rightarrow> rle \<Rightarrow> rle option" where
  "rle_repeat size1 previous extra = (\<lambda>(ls, prev, n, len).
     let newLen = (if previous then prev else 0);
         old = (if len = newLen then n else 0);
         new = (if old = 0 then 0 else (old - 2) * 2 ^ (if previous then 2 else 3)) + extra + 3 in
     if length ls + (new - old) > size1 then None
     else Some (ls @ replicate (new - old) newLen, prev, new, newLen))"

definition rle_init :: rle where
  "rle_init = ([], InitialRepeatedCodeLength, 0, 0)"

definition rle_ok :: "rle \<Rightarrow> bool" where
  "rle_ok = (\<lambda>(ls, prev, n, len). 1 \<le> prev \<and> prev \<le> 15 \<and> len \<le> 15 \<and> n \<le> length ls \<and> (n = 0 \<or> 3 \<le> n))"

definition run_rep :: "rle \<Rightarrow> metablockHeaderArena \<Rightarrow> bool" where
  "run_rep = (\<lambda>(ls, prev, n, len) h. lists_rep ls h \<and> rle_ok (ls, prev, n, len) \<and>
     h_prevCodeLen h = prev \<and> h_repeat h = n \<and> h_repeatCodeLen h = len)"

lemma usub_usub:
  assumes "b + c \<le> 2 ^ 64"
  shows "usub (usub a b) c = usub a (b + c)"
proof -
  have e: "(a + 2 ^ 64 - b) mod 2 ^ 64 + 2 ^ 64 - c = (a + 2 ^ 64 - b) mod 2 ^ 64 + (2 ^ 64 - c)" using assms by simp
  have f: "(a + 2 ^ 64 - b) + (2 ^ 64 - c) = (a + 2 ^ 64 - (b + c)) + 2 ^ 64" using assms by simp
  show ?thesis unfolding usub_def e mod_add_left_eq f mod_add_self2 ..
qed

lemma kraft_bound: "kraft ls \<le> length ls * 2 ^ 14"
proof (induction ls)
  case (Cons x ls)
  have "(if x = 0 then 0 else 2 ^ (15 - x)) \<le> (2::nat) ^ 14" using power_increasing [of "15 - x" 14 "2::nat"] by simp
  then show ?case using Cons by (simp add: kraft_def)
qed (simp add: kraft_def)

lemma kraft_small: "length ls \<le> 704 \<Longrightarrow> kraft ls < 2 ^ 24"
  using kraft_bound [of ls] by simp

lemma go_update_at: "i < length xs \<Longrightarrow> p = int i \<Longrightarrow> go_update xs p v = Some (xs[i := v])"
  by (simp add: go_update_def)

lemma add_histo_ok:
  assumes "l < length (h_codeLengthHisto h)" and "h_codeLengthHisto h ! l + n < 2 ^ 16"
  shows "add_histo l n h = Some (h\<lparr>h_codeLengthHisto := (h_codeLengthHisto h)[l := h_codeLengthHisto h ! l + n]\<rparr>)"
proof -
  have "(h_codeLengthHisto h ! l + n mod 2 ^ 16) mod 2 ^ 16 = h_codeLengthHisto h ! l + n" using assms(2) by simp
  then show ?thesis unfolding add_histo_def go_index_at [OF assms(1)] go_update_at [OF assms(1) refl] Option.bind.bind_lunit by simp
qed

lemma single_code_ok:
  assumes "run_rep r h" and "l \<le> 15" and "length (fst r) < 704"
  shows "\<exists>h'. single_code l (length (fst r)) h = Some h' \<and> run_rep (rle_single l r) h' \<and> h_table h' = h_table h \<and> h_symbol h' = h_symbol h"
proof -
  obtain ls prev n len where r: "r = (ls, prev, n, len)" by (metis prod_cases4)
  have rep: "lists_rep ls h" "rle_ok (ls, prev, n, len)" "h_prevCodeLen h = prev" "h_repeatCodeLen h = len"
    using assms(1) by (simp_all add: run_rep_def r)
  show ?thesis
  proof (cases "l = 0")
    case True
    have "lists_rep (ls @ [0]) (h\<lparr>h_repeat := 0\<rparr>)"
      using rep(1) assms(3) r by (auto simp: lists_rep_def syms_snoc kraft_snoc)
    then show ?thesis using True rep r by (simp add: single_code_def run_rep_def rle_single_def rle_ok_def)
  next
    case False
    then have l: "1 \<le> l" "l \<noteq> 0" by simp_all
    note R = lists_repD [OF rep(1) l(1) assms(2)]
    define t where "t = tail_pos l (syms ls l)"
    define h0 where "h0 = h\<lparr>h_repeat := 0\<rparr>"
    have sel: "h_nextSymbol h0 = h_nextSymbol h" "h_symbolListsArray h0 = h_symbolListsArray h" "h_space h0 = h_space h"
      by (simp_all add: h0_def)
    have len: "length (h_symbolListsArray h) = 720" "l < length (h_nextSymbol h)" "l < length (h_codeLengthHisto h)" "length ls < 704"
      using rep(1) assms(2,3) r by (simp_all add: lists_rep_def)
    have t: "t < 720" using tail_pos_less [of ls l] assms(2) len(4) by (simp add: t_def)
    define arr where "arr = (h_symbolListsArray h)[t := length ls]"
    define nxts where "nxts = (h_nextSymbol h)[l := int (length ls)]"
    have u1: "go_index (h_nextSymbol h) (int l) = Some (int t - 16)" unfolding go_index_at [OF len(2)] R(3) t_def ..
    have u2: "go_update (h_symbolListsArray h) (int t - 16 + symListBase) (length ls mod 2 ^ 16) = Some arr"
      using len(1,4) t by (subst go_update_at [of t]) (simp_all add: symListBase_def HuffmanMaxCodeLength_def arr_def)
    have u3: "go_update (h_nextSymbol h) (int l) (int (length ls)) = Some nxts" unfolding nxts_def by (rule go_update_at [OF len(2) refl])
    have c: "length (syms ls l) + 1 < 2 ^ 16" using length_syms_le [of ls l] len(4) by simp
    define h1 where "h1 = h0\<lparr>h_symbolListsArray := arr, h_nextSymbol := nxts, h_prevCodeLen := l,
        h_space := usub (h_space h) (32768 div 2 ^ l)\<rparr>"
    define h' where "h' = h1\<lparr>h_codeLengthHisto := (h_codeLengthHisto h)[l := length (syms ls l) + 1]\<rparr>"
    have hh: "add_histo l 1 h1 = Some h'"
      using add_histo_ok [of l h1 1] len(3) c R(2) by (simp add: h'_def h1_def h0_def)
    have run: "single_code l (length ls) h = Some h'"
      unfolding single_code_def Let_def h0_def [symmetric] sel u1 Option.bind.bind_lunit u2 u3
      using l(2) hh by (simp add: h1_def)
    have sp: "(32768::nat) div 2 ^ l = 2 ^ (15 - l)"
      using power_diff [of "2::nat" l 15] assms(2) by simp
    have "2 ^ (15 - l) \<le> (2::nat) ^ 15" by (intro power_increasing) simp_all
    then have "kraft ls + 2 ^ (15 - l) \<le> 2 ^ 64" using kraft_small [of ls] len(4) by simp
    then have "lists_rep (ls @ [l]) h'"
      by (intro link_one [OF rep(1) l(1) assms(2) len(4) arr_def [unfolded t_def] nxts_def refl])
        (use rep(1) l in \<open>simp_all add: h'_def h1_def h0_def kraft_snoc sp usub_usub lists_rep_def\<close>)
    then have "run_rep (rle_single l r) h'" using rep l assms(2) r
      by (simp add: run_rep_def rle_single_def rle_ok_def h'_def h1_def h0_def)
    then show ?thesis using run r by (simp add: h'_def h1_def h0_def)
  qed
qed

text \<open>A run of equal lengths is linked in one go.\<close>

lemma link_run_ok:
  assumes "lists_rep ls h" and "1 \<le> l" and "l \<le> 15" and "length ls + n \<le> 704"
  shows "\<exists>arr. link_run n (length ls) (int (tail_pos l (syms ls l)) - 16) (h_symbolListsArray h) =
      Some (int (tail_pos l (syms (ls @ replicate n l) l)) - 16, arr) \<and>
    (\<forall>h'. h_symbolListsArray h' = arr \<and> h_nextSymbol h' = (h_nextSymbol h)[l := int (tail_pos l (syms (ls @ replicate n l) l)) - 16] \<and>
       h_codeLengthHisto h' = (h_codeLengthHisto h)[l := length (syms ls l) + n] \<and> h_space h' = usub 32768 (kraft ls + n * 2 ^ (15 - l)) \<longrightarrow>
       lists_rep (ls @ replicate n l) h')"
  using assms(1,4)
proof (induction n arbitrary: ls h)
  case 0
  have n: "(h_nextSymbol h)[l := int (tail_pos l (syms ls l)) - 16] = h_nextSymbol h"
    using lists_repD(3) [OF 0(1) assms(2,3)] by (metis list_update_id)
  have c: "(h_codeLengthHisto h)[l := length (syms ls l)] = h_codeLengthHisto h"
    using lists_repD(2) [OF 0(1) assms(2,3)] by (metis list_update_id)
  show ?case using 0(1) by (simp add: n c lists_rep_def)
next
  case (Suc n)
  define t where "t = tail_pos l (syms ls l)"
  define h1 where "h1 = h\<lparr>h_symbolListsArray := (h_symbolListsArray h)[t := length ls], h_nextSymbol := (h_nextSymbol h)[l := int (length ls)],
    h_codeLengthHisto := (h_codeLengthHisto h)[l := length (syms ls l) + 1], h_space := usub 32768 (kraft (ls @ [l]))\<rparr>"
  have rep1: "lists_rep (ls @ [l]) h1"
    by (rule link_one [OF Suc.prems(1) assms(2,3) _ refl refl refl]) (use Suc.prems(2) in \<open>simp_all add: h1_def t_def\<close>)
  have len: "length (h_symbolListsArray h) = 720" using Suc.prems(1) by (simp add: lists_rep_def)
  have t: "t < 720" using tail_pos_less [of ls l] assms(3) Suc.prems(2) by (simp add: t_def)
  have u: "go_update (h_symbolListsArray h) (int t - 16 + symListBase) (length ls mod 2 ^ 16) = Some (h_symbolListsArray h1)"
    using len t Suc.prems(2) by (subst go_update_at [of t]) (simp_all add: symListBase_def HuffmanMaxCodeLength_def h1_def)
  have tl: "int (length ls) = int (tail_pos l (syms (ls @ [l]) l)) - 16" by (simp add: syms_snoc tail_pos_def)
  have app: "(ls @ [l]) @ replicate n l = ls @ replicate (Suc n) l" by (simp add: replicate_app_Cons_same)
  obtain arr where arr: "link_run n (length (ls @ [l])) (int (tail_pos l (syms (ls @ [l]) l)) - 16) (h_symbolListsArray h1) =
      Some (int (tail_pos l (syms (ls @ replicate (Suc n) l) l)) - 16, arr)"
    "\<And>h'. h_symbolListsArray h' = arr \<Longrightarrow> h_nextSymbol h' = (h_nextSymbol h1)[l := int (tail_pos l (syms (ls @ replicate (Suc n) l) l)) - 16] \<Longrightarrow>
       h_codeLengthHisto h' = (h_codeLengthHisto h1)[l := length (syms (ls @ [l]) l) + n] \<Longrightarrow>
       h_space h' = usub 32768 (kraft (ls @ [l]) + n * 2 ^ (15 - l)) \<Longrightarrow> lists_rep (ls @ replicate (Suc n) l) h'"
    using Suc.IH [OF rep1] Suc.prems(2) unfolding app by auto
  have "link_run (Suc n) (length ls) (int t - 16) (h_symbolListsArray h) =
      Some (int (tail_pos l (syms (ls @ replicate (Suc n) l) l)) - 16, arr)"
    unfolding link_run.simps(2) u Option.bind.bind_lunit tl using arr(1) by simp
  moreover have "lists_rep (ls @ replicate (Suc n) l) h'"
    if "h_symbolListsArray h' = arr" "h_nextSymbol h' = (h_nextSymbol h)[l := int (tail_pos l (syms (ls @ replicate (Suc n) l) l)) - 16]"
      "h_codeLengthHisto h' = (h_codeLengthHisto h)[l := length (syms ls l) + Suc n]" "h_space h' = usub 32768 (kraft ls + Suc n * 2 ^ (15 - l))" for h'
    by (rule arr(2)) (use that assms(2) in \<open>simp_all add: h1_def syms_snoc kraft_snoc add.assoc\<close>)
  ultimately show ?case unfolding t_def by blast
qed

lemma kraft_replicate: "kraft (ls @ replicate n l) = kraft ls + (if l = 0 then 0 else n * 2 ^ (15 - l))"
  by (simp add: kraft_def sum_list_replicate)

lemma syms_replicate_zero: "1 \<le> l \<Longrightarrow> syms (ls @ replicate n 0) l = syms ls l"
proof (induction n)
  case (Suc n)
  have "ls @ replicate (Suc n) 0 = (ls @ replicate n 0) @ [0]" by (simp add: replicate_append_same)
  then show ?case using Suc by (simp only: syms_snoc) simp
qed simp

lemma length_syms_replicate: "length (syms (ls @ replicate n l) l) = length (syms ls l) + n"
proof (induction n)
  case (Suc n)
  have "ls @ replicate (Suc n) l = (ls @ replicate n l) @ [l]" by (simp add: replicate_append_same)
  then show ?case using Suc by (simp only: syms_snoc) simp
qed simp

lemma repeat_code_ok:
  assumes "run_rep r h" and "length (fst r) \<le> size1" and "size1 \<le> 704" and "extra < 8"
    and "previous = (codeLen = RepeatPreviousCodeLength)"
  shows "case rle_repeat size1 previous extra r of
      Some r' \<Rightarrow> \<exists>h'. repeat_code codeLen extra size1 (length (fst r)) h = Some (length (fst r'), h') \<and> run_rep r' h' \<and>
        h_table h' = h_table h \<and> h_symbol h' = h_symbol h \<and> length (fst r) < length (fst r') \<and> length (fst r') \<le> size1
    | None \<Rightarrow> \<exists>h'. repeat_code codeLen extra size1 (length (fst r)) h = Some (size1, h') \<and> h_space h' = 0xFFFFF"
proof -
  obtain ls prev n len where r: "r = (ls, prev, n, len)" by (metis prod_cases4)
  have rep: "lists_rep ls h" "rle_ok (ls, prev, n, len)" "h_prevCodeLen h = prev" "h_repeat h = n" "h_repeatCodeLen h = len"
    using assms(1) by (simp_all add: run_rep_def r)
  have ok: "1 \<le> prev" "prev \<le> 15" "n \<le> length ls" "n = 0 \<or> 3 \<le> n" "length ls \<le> size1" using rep(2) assms(2) r by (simp_all add: rle_ok_def)
  define newLen where "newLen = (if previous then prev else 0)"
  define eb :: nat where "eb = (if previous then 2 else 3)"
  define old where "old = (if len = newLen then n else 0)"
  define new where "new = (if old = 0 then 0 else (old - 2) * 2 ^ eb) + extra + 3"
  define h1 where "h1 = h\<lparr>h_repeat := new, h_repeatCodeLen := newLen\<rparr>"
  have ol: "old \<le> 704" "old = 0 \<or> 3 \<le> old" "old \<le> length ls" using ok assms(3) by (auto simp: old_def)
  have eb: "eb = 2 \<or> eb = 3" by (simp add: eb_def)
  have grow: "old < new \<and> new < 2 ^ 16"
    using ol assms(4) eb unfolding new_def by auto
  have r1: "repeat_code codeLen extra size1 (length ls) h = (let delta = new - old in
      if uadd (length ls) delta > size1 then Some (size1, h1\<lparr>h_space := 0xFFFFF\<rparr>)
      else if newLen \<noteq> 0 then do {
        nxt \<leftarrow> go_index (h_nextSymbol h1) (int newLen);
        (nxt, arr) \<leftarrow> link_run (uadd (length ls) delta - length ls) (length ls) nxt (h_symbolListsArray h1);
        nxts \<leftarrow> go_update (h_nextSymbol h1) (int newLen) nxt;
        h \<leftarrow> add_histo newLen delta (h1\<lparr>h_symbolListsArray := arr, h_nextSymbol := nxts,
          h_space := usub (h_space h1) (shl delta (usub 15 newLen))\<rparr>);
        Some (uadd (length ls) delta, h) }
      else Some (uadd (length ls) delta, h1))"
  proof -
    have e: "(if codeLen = RepeatPreviousCodeLength then 2 else 3) = eb" by (simp add: eb_def assms(5))
    have nl: "(if codeLen = RepeatPreviousCodeLength then h_prevCodeLen h else 0) = newLen" by (simp add: newLen_def assms(5) rep(3))
    have hA: "(if h_repeatCodeLen h \<noteq> newLen then h\<lparr>h_repeat := 0, h_repeatCodeLen := newLen\<rparr> else h) = h\<lparr>h_repeat := old, h_repeatCodeLen := newLen\<rparr>"
      using rep(4,5) by (cases h) (auto simp: old_def)
    define mid where "mid = (if old = 0 then 0 else (old - 2) * 2 ^ eb)"
    have mid: "mid + extra + 3 = new" "shl (usub old 2) eb = mid" if "0 < old" using that ol eb by (auto simp: mid_def new_def shl_def)
    have hB: "(if 0 < old then h\<lparr>h_repeat := shl (usub old 2) eb, h_repeatCodeLen := newLen\<rparr> else h\<lparr>h_repeat := old, h_repeatCodeLen := newLen\<rparr>)
        = h\<lparr>h_repeat := mid, h_repeatCodeLen := newLen\<rparr>"
      using mid(2) by (simp add: mid_def)
    have up: "uadd mid (uadd extra 3) = new" using grow assms(4) by (simp add: mid_def new_def)
    have dl: "usub new old = new - old" using grow by simp
    have sel: "h_repeat (h\<lparr>h_repeat := a, h_repeatCodeLen := newLen\<rparr>) = a"
      "(h\<lparr>h_repeat := a, h_repeatCodeLen := newLen\<rparr>)\<lparr>h_repeat := b\<rparr> = h\<lparr>h_repeat := b, h_repeatCodeLen := newLen\<rparr>" for a b by simp_all
    show ?thesis unfolding repeat_code_def e nl Let_def hA sel hB up h1_def [symmetric] by (simp add: h1_def dl)
  qed
  have sum: "uadd (length ls) (new - old) = length ls + (new - old)"
  proof (rule uadd_exact)
    have "new - old < 2 ^ 16" "length ls < 2 ^ 16" using grow ok assms(3) by (simp_all add: less_imp_diff_less)
    then show "length ls + (new - old) < 2 ^ 64" by simp
  qed
  have R: "rle_repeat size1 previous extra r = (if length ls + (new - old) > size1 then None else Some (ls @ replicate (new - old) newLen, prev, new, newLen))"
    by (simp add: rle_repeat_def r Let_def newLen_def eb_def old_def new_def)
  show ?thesis
  proof (cases "length ls + (new - old) > size1")
    case True
    then show ?thesis unfolding R using r1 sum r by simp
  next
    case False
    define d where "d = new - old"
    have d: "0 < d" "length ls + d \<le> size1" "new \<le> length ls + d" "3 \<le> new" using False grow ol by (auto simp: d_def new_def)
    have rok: "rle_ok (ls @ replicate d newLen, prev, new, newLen)" using ok d by (simp add: rle_ok_def newLen_def)
    have "\<exists>h'. repeat_code codeLen extra size1 (length ls) h = Some (length ls + d, h') \<and> lists_rep (ls @ replicate d newLen) h' \<and>
        h_prevCodeLen h' = prev \<and> h_repeat h' = new \<and> h_repeatCodeLen h' = newLen \<and> h_table h' = h_table h \<and> h_symbol h' = h_symbol h"
    proof (cases "newLen = 0")
      case True
      have "lists_rep (ls @ replicate d 0) h1"
        using rep(1) d assms(3) by (auto simp: lists_rep_def h1_def kraft_replicate syms_replicate_zero)
      then show ?thesis using True r1 sum d rep(3) by (simp add: Let_def d_def [symmetric] h1_def)
    next
      case False
      define l where "l = newLen"
      have l: "1 \<le> l" "l \<le> 15" "l \<noteq> 0" using False ok by (simp_all add: l_def newLen_def split: if_splits)
      have rep1: "lists_rep ls h1" using rep(1) by (simp add: lists_rep_def h1_def)
      note P = lists_repD [OF rep1 l(1,2)]
      have len: "l < length (h_nextSymbol h1)" "l < length (h_codeLengthHisto h1)" using rep1 l by (simp_all add: lists_rep_def)
      have ds: "length ls + d \<le> 704" using d assms(3) by simp
      define t where "t = int (tail_pos l (syms (ls @ replicate d l) l)) - 16"
      obtain arr where arr: "link_run d (length ls) (int (tail_pos l (syms ls l)) - 16) (h_symbolListsArray h1) = Some (t, arr)"
        "\<And>h'. h_symbolListsArray h' = arr \<Longrightarrow> h_nextSymbol h' = (h_nextSymbol h1)[l := t] \<Longrightarrow>
           h_codeLengthHisto h' = (h_codeLengthHisto h1)[l := length (syms ls l) + d] \<Longrightarrow> h_space h' = usub 32768 (kraft ls + d * 2 ^ (15 - l)) \<Longrightarrow>
           lists_rep (ls @ replicate d l) h'"
        using link_run_ok [OF rep1 l(1,2) ds] unfolding t_def by blast
      have u1: "go_index (h_nextSymbol h1) (int l) = Some (int (tail_pos l (syms ls l)) - 16)" unfolding go_index_at [OF len(1)] P(3) ..
      have u2: "go_update (h_nextSymbol h1) (int l) t = Some ((h_nextSymbol h1)[l := t])" by (rule go_update_at [OF len(1) refl])
      define h2 where "h2 = h1\<lparr>h_symbolListsArray := arr, h_nextSymbol := (h_nextSymbol h1)[l := t], h_space := usub (h_space h1) (shl d (usub 15 l))\<rparr>"
      define h3 where "h3 = h2\<lparr>h_codeLengthHisto := (h_codeLengthHisto h1)[l := length (syms ls l) + d]\<rparr>"
      have hh: "add_histo l d h2 = Some h3"
        using add_histo_ok [of l h2 d] len(2) P(2) length_syms_le [of ls l] ds by (simp add: h3_def h2_def)
      have "d * 2 ^ (15 - l) \<le> 704 * 2 ^ 15" using ds l(2) by (intro mult_le_mono power_increasing) simp_all
      then have sp: "shl d (usub 15 l) = d * 2 ^ (15 - l)" "kraft ls + d * 2 ^ (15 - l) \<le> 2 ^ 64"
        using l(2) kraft_small [of ls] ds by (simp_all add: shl_def)
      have "lists_rep (ls @ replicate d l) h3"
        by (rule arr(2)) (use rep1 sp in \<open>simp_all add: h3_def h2_def usub_usub lists_rep_def\<close>)
      moreover have "repeat_code codeLen extra size1 (length ls) h = Some (length ls + d, h3)"
        unfolding r1 Let_def d_def [symmetric] l_def [symmetric] using d(2) l(3) hh arr(1) u1 u2 sum [folded d_def]
        by (simp add: h2_def [symmetric] del: go_index_Some)
      ultimately show ?thesis using rep(3) by (simp add: h3_def h2_def h1_def l_def)
    qed
    then show ?thesis unfolding R using False rok d(1,2) r by (auto simp: d_def [symmetric] run_rep_def)
  qed
qed


subsection \<open>From the empty lists to the table\<close>

lemma lists_init_rep:
  assumes "length (h_symbolListsArray h) = 720" and "16 \<le> length (h_nextSymbol h)" and "h_codeLengthHisto h = replicate 16 0"
    and "h_symbolListsArray h' = h_symbolListsArray (lists_init h)" and "h_nextSymbol h' = h_nextSymbol (lists_init h)"
    and "h_codeLengthHisto h' = h_codeLengthHisto h" and "h_space h' = 32768" and "h_prevCodeLen h' = InitialRepeatedCodeLength"
    and "h_repeat h' = 0" and "h_repeatCodeLen h' = 0"
  shows "run_rep rle_init h'"
proof -
  have a: "h_symbolListsArray h' ! l = 0xFFFF" if "l < 16" for l
    using that assms(1,4) by (simp add: lists_init_def HuffmanMaxCodeLength_def nth_overwrite)
  have n: "h_nextSymbol h' ! l = int l - 16" if "l < 16" for l
    using that assms(2,5) by (simp add: lists_init_def HuffmanMaxCodeLength_def symListBase_def nth_overwrite del: upt_Suc upt_rec_numeral)
  have len: "length (h_symbolListsArray h') = 720" "16 \<le> length (h_nextSymbol h')"
    using assms(1,2,4,5) by (simp_all add: lists_init_def HuffmanMaxCodeLength_def del: upt_Suc upt_rec_numeral)
  show ?thesis unfolding run_rep_def rle_init_def lists_rep_def prod.case assms(3,6,7,8,9,10)
    using a n len by (simp add: rle_ok_def InitialRepeatedCodeLength_def tail_pos_def kraft_def)
qed

lemma usub_zero: "k < 2 ^ 24 \<Longrightarrow> usub 32768 k = 0 \<longleftrightarrow> k = 32768"
proof -
  assume k: "k < 2 ^ 24"
  show ?thesis
  proof (cases "k \<le> 32768")
    case False
    then have "usub 32768 k = 32768 + 2 ^ 64 - k" using k by (simp add: usub_def)
    then show ?thesis using False k by simp
  qed simp
qed

lemma lists_rep_complete:
  assumes "lists_rep ls h" and "h_space h = 0"
  shows "complete ls" and "lists_ok \<lparr>Storage = h_symbolListsArray h, Offset = 16\<rparr> (h_codeLengthHisto h) (codes_of ls)"
proof -
  have len: "length ls \<le> 704" "length (h_symbolListsArray h) = 720" "length (h_codeLengthHisto h) = 16" using assms(1) by (simp_all add: lists_rep_def)
  have "kraft ls = 32768" using assms usub_zero [OF kraft_small [OF len(1)]] by (simp add: lists_rep_def)
  then show "complete ls" using assms(1) by (simp add: complete_def lists_rep_def)
  show "lists_ok \<lparr>Storage = h_symbolListsArray h, Offset = 16\<rparr> (h_codeLengthHisto h) (codes_of ls)"
    unfolding lists_ok_def
  proof (intro conjI allI impI)
    fix l :: nat assume l: "1 \<le> l \<and> l \<le> 15"
    note R = lists_repD [OF assms(1), of l] and C = codes_of_level [of l ls]
    show "h_codeLengthHisto h ! l = start (codes_of ls) (Suc l) - start (codes_of ls) l" using R(2) C(2) l by simp
    show "chain \<lparr>Storage = h_symbolListsArray h, Offset = 16\<rparr> (int l - 16)
        (map (\<lambda>i. snd (codes_of ls ! i)) [start (codes_of ls) l..<start (codes_of ls) (Suc l)])"
      using linked_chain [OF R(1)] C(1) l by simp
    show "SymbolList_get \<lparr>Storage = h_symbolListsArray h, Offset = 16\<rparr> (int l - 16) = Some 65535"
      if "start (codes_of ls) (Suc l) = start (codes_of ls) l"
    proof -
      have "syms ls l = []" using C(2) l that by simp
      then show ?thesis using R(4) l len(2) by (simp add: SymbolList_get_def)
    qed
  qed (use len in simp)
qed

end
