(* ===== verification/Huffman_Encode.thy ===== *)
theory Huffman_Encode
  imports Huffman_Lists
begin

unbundle bit_operations_syntax

text \<open>
  The encoder's prefix codes, \<^verbatim>\<open>internal/encoder/huffman_encode.go\<close>: code values from code lengths, and the
  run-length coding of the lengths. Bytes and \<^verbatim>\<open>uint16\<close> values are naturals reduced modulo their width.
\<close>

definition maxHuffmanBits :: nat where "maxHuffmanBits = 16"
definition alphabetSizeRepeatZeroCodeLength :: nat where "alphabetSizeRepeatZeroCodeLength = 17"

subsection \<open>Code values\<close>

text \<open>\<^verbatim>\<open>bits.Reverse16\<close>.\<close>

definition Reverse16 :: "nat \<Rightarrow> nat" where
  "Reverse16 n = val_of (rev (nat_bits 16 (n mod 2 ^ 16)))"

definition reverseBits :: "nat \<Rightarrow> nat \<Rightarrow> nat" where
  "reverseBits nbits v = drop_bit (16 - nbits) (Reverse16 v)"

definition inc_count :: "nat \<Rightarrow> nat list \<Rightarrow> nat list" where
  "inc_count d c = c[d AND 0x0F := (c ! (d AND 0x0F) + 1) mod 2 ^ 16]"

text \<open>The histogram in four interleaved parts.\<close>

fun count_loop :: "nat list \<Rightarrow> nat list \<times> nat list \<times> nat list \<times> nat list \<Rightarrow> nat list \<times> nat list \<times> nat list \<times> nat list" where
  "count_loop (a # b # c # d # ds) (c0, c1, c2, c3) = count_loop ds (inc_count a c0, inc_count b c1, inc_count c c2, inc_count d c3)"
| "count_loop ds (c0, c1, c2, c3) = (fold inc_count ds c0, c1, c2, c3)"

definition bl_counts :: "nat list \<Rightarrow> nat list" where
  "bl_counts depth = (let z = replicate maxHuffmanBits 0; (c0, c1, c2, c3) = count_loop depth (z, z, z, z) in
     map (\<lambda>j. (c0 ! j + (c1 ! j + c2 ! j + c3 ! j)) mod 2 ^ 16) [0..<maxHuffmanBits])"

fun next_codes :: "nat list \<Rightarrow> nat \<Rightarrow> nat list \<Rightarrow> nat list \<Rightarrow> nat list" where
  "next_codes blCount code [] nextCode = nextCode"
| "next_codes blCount code (i # is) nextCode =
     (let code = 2 * (code + blCount ! (i - 1)) in next_codes blCount code is (nextCode[i := code mod 2 ^ 16]))"

fun assign_codes :: "nat \<Rightarrow> nat list \<Rightarrow> nat list \<Rightarrow> nat list \<Rightarrow> nat list" where
  "assign_codes i [] nextCode symbols = symbols"
| "assign_codes i (d # ds) nextCode symbols =
     (if d \<noteq> 0 then
        let dm = d AND 0x0F in
        assign_codes (i + 1) ds (nextCode[dm := (nextCode ! dm + 1) mod 2 ^ 16]) (symbols[i := reverseBits dm (nextCode ! dm)])
      else assign_codes (i + 1) ds nextCode symbols)"

definition convertBitDepthsToSymbols :: "nat list \<Rightarrow> nat list \<Rightarrow> nat list option" where
  "convertBitDepthsToSymbols depth symbols =
     (let blCount = (bl_counts depth)[0 := 0];
          nextCode = next_codes blCount 0 [1..<maxHuffmanBits] (replicate maxHuffmanBits 0) in
      if length depth \<le> length symbols then Some (assign_codes 0 depth nextCode symbols) else None)"


subsection \<open>The values are the canonical code\<close>

lemma reverseBits_bitrev: "l \<le> 16 \<Longrightarrow> reverseBits l v = bitrev l v"
proof -
  assume l: "l \<le> 16"
  have "Reverse16 v = bitrev 16 v" using bitrev_mod [of 16 16 v] by (simp add: Reverse16_def bitrev_def)
  then show ?thesis using bitrev_div [OF l, of v] by (simp add: reverseBits_def drop_bit_eq_div)
qed

lemma and_15: "x AND 0x0F = x mod (16::nat)"
  using take_bit_eq_mask [of 4 x] by (simp add: mask_eq_exp_minus_1 take_bit_eq_mod)

lemma inc_count_ok:
  assumes "x \<le> 15" and "length y = 16" and "y ! x + 1 < 2 ^ 16"
  shows "length (inc_count x y) = 16" and "j < 16 \<Longrightarrow> inc_count x y ! j = y ! j + of_bool (j = x)"
  using assms by (auto simp: inc_count_def and_15 nth_list_update)

lemma inc_counts:
  assumes "\<forall>x\<in>set ds. x \<le> 15" and "length c = 16" and "j < 16" and "\<And>j. j < 16 \<Longrightarrow> c ! j + length ds < 2 ^ 16"
  shows "fold inc_count ds c ! j = c ! j + count_list ds j" and "length (fold inc_count ds c) = 16"
proof -
  have "length (fold inc_count ds c) = 16 \<and> (\<forall>j<16. fold inc_count ds c ! j = c ! j + count_list ds j)"
    using assms(1,2,4)
  proof (induction ds arbitrary: c)
    case (Cons d ds)
    have d: "d \<le> 15" "c ! d + 1 < 2 ^ 16" using Cons.prems(1) Cons.prems(3) [of d] by simp_all
    note c = inc_count_ok [OF d(1) Cons.prems(2) d(2)]
    have "length (fold inc_count ds (inc_count d c)) = 16 \<and>
        (\<forall>j<16. fold inc_count ds (inc_count d c) ! j = inc_count d c ! j + count_list ds j)"
    proof (rule Cons.IH [OF _ c(1)])
      show "inc_count d c ! j + length ds < 2 ^ 16" if "j < 16" for j using c(2) [OF that] Cons.prems(3) [OF that] by (cases "j = d") simp_all
    qed (use Cons.prems(1) in simp)
    then show ?case using c by simp
  qed simp
  then show "fold inc_count ds c ! j = c ! j + count_list ds j" "length (fold inc_count ds c) = 16" using assms(3) by simp_all
qed

lemma count_syms: "count_list ls l = length (syms ls l)"
proof (induction ls rule: rev_induct)
  case (snoc x ls)
  then show ?case by (simp add: syms_snoc)
qed simp

lemma count_loop_short: "length ds < 4 \<Longrightarrow> count_loop ds (c0, c1, c2, c3) = (fold inc_count ds c0, c1, c2, c3)"
  by (cases "(ds, (c0, c1, c2, c3))" rule: count_loop.cases) auto

lemma count_loop_tail:
  assumes "length ds < 4" and "\<forall>x\<in>set ds. x \<le> 15" and "length c0 = 16"
    and "\<And>j. j < 16 \<Longrightarrow> c0 ! j + c1 ! j + c2 ! j + c3 ! j + length ds < 2 ^ 16"
  shows "case count_loop ds (c0, c1, c2, c3) of (d0, d1, d2, d3) \<Rightarrow>
    (\<forall>j<16. d0 ! j + (d1 ! j + d2 ! j + d3 ! j) = c0 ! j + c1 ! j + c2 ! j + c3 ! j + count_list ds j)"
proof -
  have "fold inc_count ds c0 ! j = c0 ! j + count_list ds j" if "j < 16" for j
  proof (rule inc_counts(1) [OF assms(2,3) that])
    show "c0 ! k + length ds < 2 ^ 16" if "k < 16" for k using assms(4) [OF that] by linarith
  qed
  then show ?thesis unfolding count_loop_short [OF assms(1)] by simp
qed

lemma count_loop_ok:
  assumes "\<forall>x\<in>set ds. x \<le> 15" and "length c0 = 16" and "length c1 = 16" and "length c2 = 16" and "length c3 = 16"
    and "\<And>j. j < 16 \<Longrightarrow> c0 ! j + c1 ! j + c2 ! j + c3 ! j + length ds < 2 ^ 16"
  shows "case count_loop ds (c0, c1, c2, c3) of (d0, d1, d2, d3) \<Rightarrow>
    (\<forall>j<16. d0 ! j + (d1 ! j + d2 ! j + d3 ! j) = c0 ! j + c1 ! j + c2 ! j + c3 ! j + count_list ds j)"
  using assms
proof (induction ds "(c0, c1, c2, c3)" arbitrary: c0 c1 c2 c3 rule: count_loop.induct)
  case (1 a b c d ds c0 c1 c2 c3)
  have b: "c0 ! j + c1 ! j + c2 ! j + c3 ! j + length ds + 4 < 2 ^ 16" if "j < 16" for j using "1.prems"(6) [OF that] by simp
  have x: "a \<le> 15" "b \<le> 15" "c \<le> 15" "d \<le> 15" using "1.prems"(1) by simp_all
  have I0: "length (inc_count a c0) = 16" "\<And>j. j < 16 \<Longrightarrow> inc_count a c0 ! j = c0 ! j + of_bool (j = a)"
    using inc_count_ok [OF x(1) "1.prems"(2)] b [of a] x by simp_all
  have I1: "length (inc_count b c1) = 16" "\<And>j. j < 16 \<Longrightarrow> inc_count b c1 ! j = c1 ! j + of_bool (j = b)"
    using inc_count_ok [OF x(2) "1.prems"(3)] b [of b] x by simp_all
  have I2: "length (inc_count c c2) = 16" "\<And>j. j < 16 \<Longrightarrow> inc_count c c2 ! j = c2 ! j + of_bool (j = c)"
    using inc_count_ok [OF x(3) "1.prems"(4)] b [of c] x by simp_all
  have I3: "length (inc_count d c3) = 16" "\<And>j. j < 16 \<Longrightarrow> inc_count d c3 ! j = c3 ! j + of_bool (j = d)"
    using inc_count_ok [OF x(4) "1.prems"(5)] b [of d] x by simp_all
  have o: "of_bool p \<le> (1::nat)" for p by simp
  have "case count_loop ds (inc_count a c0, inc_count b c1, inc_count c c2, inc_count d c3) of (d0, d1, d2, d3) \<Rightarrow>
    (\<forall>j<16. d0 ! j + (d1 ! j + d2 ! j + d3 ! j) =
       inc_count a c0 ! j + inc_count b c1 ! j + inc_count c c2 ! j + inc_count d c3 ! j + count_list ds j)"
  proof (rule "1.hyps" [OF _ I0(1) I1(1) I2(1) I3(1)])
    fix j :: nat assume j: "j < 16"
    show "inc_count a c0 ! j + inc_count b c1 ! j + inc_count c c2 ! j + inc_count d c3 ! j + length ds < 2 ^ 16"
      unfolding I0(2) [OF j] I1(2) [OF j] I2(2) [OF j] I3(2) [OF j]
      using b [OF j] o [of "j = a"] o [of "j = b"] o [of "j = c"] o [of "j = d"] by linarith
  qed (use "1.prems"(1) in simp)
  moreover have "inc_count a c0 ! j + inc_count b c1 ! j + inc_count c c2 ! j + inc_count d c3 ! j + count_list ds j =
      c0 ! j + c1 ! j + c2 ! j + c3 ! j + count_list (a # b # c # d # ds) j" if "j < 16" for j
    by (simp add: I0(2) [OF that] I1(2) [OF that] I2(2) [OF that] I3(2) [OF that])
  ultimately show ?case by (auto split: prod.splits)
qed (rule count_loop_tail, simp, assumption+)+


lemma bl_counts_ok:
  assumes "\<forall>x\<in>set ls. x \<le> 15" and "length ls < 2 ^ 16" and "l < 16"
  shows "bl_counts ls ! l = length (syms ls l)" and "length (bl_counts ls) = 16"
proof -
  define z where "z = replicate 16 (0::nat)"
  obtain d0 d1 d2 d3 where d: "count_loop ls (z, z, z, z) = (d0, d1, d2, d3)" by (metis prod_cases4)
  have "\<forall>j<16. d0 ! j + (d1 ! j + d2 ! j + d3 ! j) = count_list ls j"
    using count_loop_ok [of ls z z z z] assms(1,2) unfolding d by (simp add: z_def)
  then have "(d0 ! l + (d1 ! l + d2 ! l + d3 ! l)) mod 2 ^ 16 = length (syms ls l)"
    using assms(2,3) length_syms_le [of ls l] by (simp add: count_syms)
  then show "bl_counts ls ! l = length (syms ls l)" using assms(3) d
    by (simp add: bl_counts_def maxHuffmanBits_def z_def [symmetric] del: upt_Suc upt_rec_numeral)
  show "length (bl_counts ls) = 16" by (simp add: bl_counts_def maxHuffmanBits_def Let_def split: prod.splits del: upt_Suc upt_rec_numeral)
qed

text \<open>The first code of each length.\<close>

definition first_code :: "nat list \<Rightarrow> nat \<Rightarrow> nat" where
  "first_code ls l = base (codes_of ls) (start (codes_of ls) l) div 2 ^ (15 - l)"

lemma first_code_base:
  assumes "complete ls" and "length ls \<le> 704" and "1 \<le> l" and "l \<le> 15"
  shows "base (codes_of ls) (start (codes_of ls) l) = 2 ^ (15 - l) * first_code ls l"
    and "r \<le> length (syms ls l) \<Longrightarrow> base (codes_of ls) (start (codes_of ls) l + r) = 2 ^ (15 - l) * (first_code ls l + r)"
proof -
  define cs where "cs = codes_of ls"
  have c: "canon cs" using canon_codes_of [OF assms(1)] assms(2) by (simp add: cs_def)
  have "2 ^ (15 - l) dvd base cs (start cs l)"
  proof (rule base_dvd)
    show le: "start cs l \<le> length cs" by (rule start_length(2) [OF c])
    show "fst (cs ! i) \<le> l" if "i < start cs l" for i using start_length(1) [OF c, of i l] le that by simp
  qed
  then show b: "base (codes_of ls) (start (codes_of ls) l) = 2 ^ (15 - l) * first_code ls l" by (simp add: first_code_def cs_def)
  assume r: "r \<le> length (syms ls l)"
  have s: "start cs (Suc l) = start cs l + length (syms ls l)"
    using codes_of_level(2) [OF assms(3,4), of ls] start_mono [of l "Suc l" cs] by (simp add: cs_def)
  have "base cs (start cs l + r) = base cs (start cs l) + (start cs l + r - start cs l) * 2 ^ (15 - l)"
    by (rule base_same_length [OF c]) (use r s start_range [OF c, of l] start_length(2) [OF c, of "Suc l"] in auto)
  then show "base (codes_of ls) (start (codes_of ls) l + r) = 2 ^ (15 - l) * (first_code ls l + r)"
    using b by (simp add: cs_def [symmetric] algebra_simps)
qed

lemma first_code_less:
  assumes "complete ls" and "length ls \<le> 704" and "1 \<le> l" and "l \<le> 15" and "r \<le> length (syms ls l)"
  shows "first_code ls l + r \<le> 2 ^ l"
proof -
  have c: "canon (codes_of ls)" using canon_codes_of [OF assms(1)] assms(2) by simp
  have "start (codes_of ls) l + r \<le> length (codes_of ls)"
    using codes_of_level(2) [OF assms(3,4), of ls] start_mono [of l "Suc l" "codes_of ls"] start_length(2) [OF c, of "Suc l"] assms(5) by simp
  then have "2 ^ (15 - l) * (first_code ls l + r) \<le> 2 ^ (15 - l) * 2 ^ l"
    using base_le [OF c, of "start (codes_of ls) l + r"] unfolding first_code_base(2) [OF assms] using assms(4)
    by (simp flip: power_add)
  then show ?thesis by (simp only: mult_le_cancel1) simp
qed

lemma first_code_Suc:
  assumes "complete ls" and "length ls \<le> 704" and "1 \<le> l" and "l < 15"
  shows "first_code ls (Suc l) = 2 * (first_code ls l + length (syms ls l))"
proof -
  have s: "start (codes_of ls) (Suc l) = start (codes_of ls) l + length (syms ls l)"
    using codes_of_level(2) [of l ls] start_mono [of l "Suc l" "codes_of ls"] assms(3,4) by simp
  have "base (codes_of ls) (start (codes_of ls) (Suc l)) = 2 ^ (15 - l) * (first_code ls l + length (syms ls l))"
    unfolding s using first_code_base(2) [OF assms(1-3)] assms(4) by simp
  moreover have "(2::nat) ^ (15 - l) = 2 ^ (15 - Suc l) * 2" using assms(4) by (metis Suc_diff_Suc power_Suc2)
  ultimately show ?thesis by (simp add: first_code_def mult.assoc)
qed

lemma next_codes_ok:
  assumes "complete ls" and "length ls \<le> 704" and "blCount = (bl_counts ls)[0 := 0]" and "1 \<le> k" and "k \<le> 16"
    and "length nc = 16" and "\<And>l. 1 \<le> l \<Longrightarrow> l < k \<Longrightarrow> nc ! l = first_code ls l"
    and "code = (if k = 1 then 0 else first_code ls (k - 1))"
  shows "length (next_codes blCount code [k..<16] nc) = 16 \<and>
    (\<forall>l. 1 \<le> l \<and> l \<le> 15 \<longrightarrow> next_codes blCount code [k..<16] nc ! l = first_code ls l)"
  using assms(4-8)
proof (induction "16 - k" arbitrary: k code nc)
  case 0
  then show ?case by simp
next
  case (Suc n)
  have k: "k < 16" "k \<le> 15" using Suc.hyps(2) by simp_all
  have up: "[k..<16] = k # [Suc k..<16]" using k by (simp add: upt_conv_Cons del: upt_rec_numeral)
  have c: "2 * (code + blCount ! (k - 1)) = first_code ls k"
  proof (cases "k = 1")
    case True
    have "length (bl_counts ls) = 16" using bl_counts_ok(2) [of ls 0] assms(1,2) by (simp add: complete_def)
    then have "blCount ! 0 = 0" by (simp add: assms(3))
    moreover have "start (codes_of ls) 1 = 0" by (simp add: start_codes_of)
    ultimately show ?thesis using True Suc.prems(5) by (simp add: first_code_def)
  next
    case False
    then have k1: "1 \<le> k - 1" "k - 1 < 15" "Suc (k - 1) = k" using k Suc.prems(1) by simp_all
    have "blCount ! (k - 1) = length (syms ls (k - 1))"
      using bl_counts_ok(1) [of ls "k - 1"] assms(1-3) k1 by (simp add: complete_def)
    then show ?thesis using first_code_Suc [OF assms(1,2) k1(1,2)] False Suc.prems(5) k1(3) by simp
  qed
  have "first_code ls k + 0 \<le> 2 ^ k" by (rule first_code_less [OF assms(1,2) Suc.prems(1) k(2)]) simp
  also have "(2::nat) ^ k \<le> 2 ^ 15" using k by (intro power_increasing) simp_all
  finally have m: "first_code ls k mod 2 ^ 16 = first_code ls k" by simp
  have step: "next_codes blCount code [k..<16] nc = next_codes blCount (first_code ls k) [Suc k..<16] (nc[k := first_code ls k])"
    unfolding up next_codes.simps(2) Let_def c m ..
  show ?case unfolding step
    by (rule Suc.hyps(1)) (use Suc.prems Suc.hyps(2) k in \<open>auto simp: nth_list_update\<close>)
qed

text \<open>Where a symbol stands in the code.\<close>

lemma syms_split: "k < length ls \<Longrightarrow> ls ! k = l \<Longrightarrow> \<exists>ys. syms ls l = syms (take k ls) l @ k # ys"
proof -
  assume k: "k < length ls" "ls ! k = l"
  have "[0..<length ls] = [0..<k] @ k # [Suc k..<length ls]"
    using upt_add_eq_append [of 0 k "length ls - k"] k(1) by (simp add: upt_conv_Cons)
  moreover have "filter (\<lambda>s. ls ! s = l) [0..<k] = filter (\<lambda>s. take k ls ! s = l) [0..<k]" by (rule filter_cong) simp_all
  ultimately show ?thesis using k by (simp add: syms_def)
qed

lemma codes_of_nth:
  assumes "complete ls" and "length ls \<le> 704" and "k < length ls" and "ls ! k \<noteq> 0"
  shows "\<exists>j. j = start (codes_of ls) (ls ! k) + length (syms (take k ls) (ls ! k)) \<and> j < length (codes_of ls) \<and> codes_of ls ! j = (ls ! k, k)"
proof -
  define l r j where "l = ls ! k" and "r = length (syms (take k ls) l)" and "j = start (codes_of ls) l + r"
  have l: "1 \<le> l" "l \<le> 15" using assms by (auto simp: l_def complete_def)
  have c: "canon (codes_of ls)" using canon_codes_of [OF assms(1)] assms(2) by simp
  obtain ys where ys: "syms ls l = syms (take k ls) l @ k # ys" using syms_split [OF assms(3)] l_def by blast
  have r: "r < length (syms ls l)" "syms ls l ! r = k" using ys by (simp_all add: r_def)
  note L = codes_of_level [OF l, of ls]
  have j: "start (codes_of ls) l \<le> j" "j < start (codes_of ls) (Suc l)" using L(2) r(1) by (simp_all add: j_def)
  have "map (\<lambda>i. snd (codes_of ls ! i)) [start (codes_of ls) l..<start (codes_of ls) (Suc l)] ! r = k" using L(1) r(2) by simp
  then have "snd (codes_of ls ! j) = k" using L(2) r(1) by (simp add: j_def)
  moreover have "fst (codes_of ls ! j) = l" "j < length (codes_of ls)"
    using start_range [OF c j] start_length(2) [OF c, of "Suc l"] j(2) by simp_all
  ultimately show ?thesis by (intro exI [of _ j]) (simp add: prod_eq_iff l_def [symmetric] r_def [symmetric] j_def [symmetric])
qed

text \<open>The value the encoder gives a symbol.\<close>

definition symbol_code :: "nat list \<Rightarrow> nat \<Rightarrow> nat" where
  "symbol_code ls k = bitrev (ls ! k) (first_code ls (ls ! k) + length (syms (take k ls) (ls ! k)))"

lemma symbol_code_matches:
  assumes "complete ls" and "length ls \<le> 704" and "k < length ls" and "ls ! k \<noteq> 0" and "w mod 2 ^ (ls ! k) = symbol_code ls k"
  shows "\<exists>j<length (codes_of ls). codes_of ls ! j = (ls ! k, k) \<and> matches (codes_of ls) j w"
proof -
  obtain j where j: "j = start (codes_of ls) (ls ! k) + length (syms (take k ls) (ls ! k))" "j < length (codes_of ls)"
    "codes_of ls ! j = (ls ! k, k)" using codes_of_nth [OF assms(1-4)] by blast
  have l: "1 \<le> ls ! k" "ls ! k \<le> 15" using assms by (auto simp: complete_def)
  obtain ys where "syms ls (ls ! k) = syms (take k ls) (ls ! k) @ k # ys" using syms_split [OF assms(3)] by blast
  then have "base (codes_of ls) j = 2 ^ (15 - ls ! k) * (first_code ls (ls ! k) + length (syms (take k ls) (ls ! k)))"
    unfolding j(1) by (intro first_code_base(2) [OF assms(1,2) l]) simp
  then have "code_bits (codes_of ls) j = symbol_code ls k" by (simp add: code_bits_def j(3) symbol_code_def)
  then show ?thesis using j(2,3) assms(5) by (auto simp: matches_def)
qed

lemma assign_codes_ok:
  assumes "complete ls" and "length ls \<le> 704" and "ls = pre @ ds" and "length nc = 16" and "length ls \<le> length symbols"
    and "\<And>l. 1 \<le> l \<Longrightarrow> l \<le> 15 \<Longrightarrow> nc ! l = first_code ls l + length (syms pre l)"
  shows "length (assign_codes (length pre) ds nc symbols) = length symbols \<and>
    (\<forall>k<length symbols. assign_codes (length pre) ds nc symbols ! k =
       (if length pre \<le> k \<and> k < length ls \<and> ls ! k \<noteq> 0 then symbol_code ls k else symbols ! k))"
  using assms(3-6)
proof (induction ds arbitrary: pre nc symbols)
  case (Cons d ds)
  have ls: "ls = (pre @ [d]) @ ds" and at: "length pre < length ls" "ls ! length pre = d" "take (length pre) ls = pre"
    using Cons.prems(1) by simp_all
  have other: "Suc (length pre) \<le> k \<longleftrightarrow> length pre \<le> k \<and> k \<noteq> length pre" for k by auto
  show ?case
  proof (cases "d = 0")
    case True
    have "length (assign_codes (length (pre @ [d])) ds nc symbols) = length symbols \<and>
      (\<forall>k<length symbols. assign_codes (length (pre @ [d])) ds nc symbols ! k =
       (if length (pre @ [d]) \<le> k \<and> k < length ls \<and> ls ! k \<noteq> 0 then symbol_code ls k else symbols ! k))"
      by (rule Cons.IH [OF ls Cons.prems(2,3)]) (use Cons.prems(4) True in \<open>simp add: syms_snoc\<close>)
    then show ?thesis using True at by (auto simp: other)
  next
    case False
    have d: "1 \<le> d" "d \<le> 15" using False assms(1) at(1,2) nth_mem [OF at(1)] by (auto simp: complete_def)
    have dm: "d AND 0x0F = d" using d by (simp add: and_15)
    obtain ys where "syms ls d = syms pre d @ length pre # ys" using syms_split [OF at(1,2)] at(3) by auto
    then have "first_code ls d + (length (syms pre d) + 1) \<le> 2 ^ d" by (intro first_code_less [OF assms(1,2) d]) simp
    also have "(2::nat) ^ d \<le> 2 ^ 15" using d by (intro power_increasing) simp_all
    finally have m: "(nc ! d + 1) mod 2 ^ 16 = nc ! d + 1" using Cons.prems(4) [OF d] by simp
    define nc' where "nc' = nc[d := nc ! d + 1]"
    define sy' where "sy' = symbols[length pre := reverseBits d (nc ! d)]"
    have code: "reverseBits d (nc ! d) = symbol_code ls (length pre)"
      using d Cons.prems(4) [OF d] at by (simp add: reverseBits_bitrev symbol_code_def)
    have "length (assign_codes (length (pre @ [d])) ds nc' sy') = length sy' \<and>
      (\<forall>k<length sy'. assign_codes (length (pre @ [d])) ds nc' sy' ! k =
       (if length (pre @ [d]) \<le> k \<and> k < length ls \<and> ls ! k \<noteq> 0 then symbol_code ls k else sy' ! k))"
      by (rule Cons.IH [OF ls]) (use Cons.prems d in \<open>auto simp: nc'_def sy'_def syms_snoc nth_list_update\<close>)
    moreover have "sy' ! k = (if k = length pre then symbol_code ls k else symbols ! k)" if "k < length symbols" for k
      using that by (auto simp: sy'_def code)
    moreover have "assign_codes (length pre) (d # ds) nc symbols = assign_codes (length (pre @ [d])) ds nc' sy'"
      using False by (simp add: dm m [simplified] nc'_def sy'_def)
    moreover have "length sy' = length symbols" by (simp add: sy'_def)
    ultimately show ?thesis using at(1,2) False by (auto simp: other)
  qed
qed simp

lemma convert_symbol_code:
  assumes "complete ls" and "length ls \<le> 704" and "length ls \<le> length symbols"
  shows "\<exists>r. convertBitDepthsToSymbols ls symbols = Some r \<and> length r = length symbols \<and>
    (\<forall>k<length symbols. r ! k = (if k < length ls \<and> ls ! k \<noteq> 0 then symbol_code ls k else symbols ! k))"
proof -
  define nc where "nc = next_codes ((bl_counts ls)[0 := 0]) 0 [1..<16] (replicate 16 0)"
  have nc: "length nc = 16 \<and> (\<forall>l. 1 \<le> l \<and> l \<le> 15 \<longrightarrow> nc ! l = first_code ls l)" unfolding nc_def
    by (rule next_codes_ok [OF assms(1,2) refl]) simp_all
  have "convertBitDepthsToSymbols ls symbols = Some (assign_codes (length []) ls nc symbols)" using assms(3)
    by (simp add: convertBitDepthsToSymbols_def maxHuffmanBits_def nc_def del: upt_rec_numeral)
  then show ?thesis using assign_codes_ok [OF assms(1,2), of "[]" ls nc symbols] nc assms(3) by simp
qed

end
