(* ===== verification/Rle_Encode.thy ===== *)
theory Rle_Encode
  imports Huffman_Encode
begin

unbundle bit_operations_syntax

text \<open>
  The run-length coding of code lengths, \<^verbatim>\<open>encodeHuffmanTree\<close> of \<^verbatim>\<open>internal/encoder/huffman_encode.go\<close> and its helpers,
  against the decoder's reading of the codes. The two output buffers and the number of codes written form a triple;
  a function that receives \<^verbatim>\<open>tree[size:]\<close> works on the buffers without their first \<open>size\<close> elements.
\<close>

subsection \<open>Writing codes\<close>

type_synonym rle_buf = "nat list \<times> nat list \<times> nat"

definition put_code :: "nat \<Rightarrow> nat \<Rightarrow> rle_buf \<Rightarrow> rle_buf option" where
  "put_code v x = (\<lambda>(tree, extraBitsData, n). do {
     tree \<leftarrow> go_update tree (int n) v;
     extraBitsData \<leftarrow> go_update extraBitsData (int n) x;
     Some (tree, extraBitsData, n + 1) })"

fun put_copies :: "nat \<Rightarrow> nat \<Rightarrow> rle_buf \<Rightarrow> rle_buf option" where
  "put_copies 0 v st = Some st"
| "put_copies (Suc k) v st = Option.bind (put_code v 0 st) (put_copies k v)"

text \<open>The loop that writes the digits of a run, \<open>width\<close> bits each.\<close>

function put_repeats :: "nat \<Rightarrow> nat \<Rightarrow> nat \<Rightarrow> rle_buf \<Rightarrow> rle_buf option" where
  "put_repeats code width repetitions st =
     Option.bind (put_code code (repetitions AND (2 ^ width - 1)) st) (\<lambda>st.
       if drop_bit width repetitions = 0 then Some st
       else put_repeats code width (drop_bit width repetitions - 1) st)"
  by pat_completeness auto
termination
proof (relation "measure (\<lambda>(_, _, r, _). r)")
  fix code width r st x
  assume "drop_bit width r \<noteq> (0::nat)"
  moreover have "drop_bit width r \<le> r" by (simp add: drop_bit_eq_div)
  ultimately show "((code, width, drop_bit width r - 1, x), code, width, r, st) \<in> measure (\<lambda>(_, _, r, _). r)" by simp
qed simp

declare put_repeats.simps [simp del]

text \<open>\<^verbatim>\<open>slices.Reverse(tree[start:n])\<close> on both buffers.\<close>

definition reverse_from :: "nat \<Rightarrow> rle_buf \<Rightarrow> rle_buf" where
  "reverse_from s0 = (\<lambda>(tree, extraBitsData, n).
     (overwrite tree s0 (rev (drop s0 (take n tree))),
      overwrite extraBitsData s0 (rev (drop s0 (take n extraBitsData))), n))"

definition encodeHuffmanTreeRepetitions :: "nat list \<Rightarrow> nat list \<Rightarrow> nat \<Rightarrow> nat \<Rightarrow> nat \<Rightarrow> rle_buf option" where
  "encodeHuffmanTreeRepetitions tree extraBitsData prevValue v repetitions =
     (if repetitions = 0 then None else do {
        let st = (tree, extraBitsData, 0);
        (st, repetitions) \<leftarrow> (if prevValue \<noteq> v then do { st \<leftarrow> put_code v 0 st; Some (st, repetitions - 1) }
                              else Some (st, repetitions));
        (st, repetitions) \<leftarrow> (if repetitions = 7 then do { st \<leftarrow> put_code v 0 st; Some (st, repetitions - 1) }
                              else Some (st, repetitions));
        if repetitions < 3 then put_copies repetitions v st
        else map_option (reverse_from (snd (snd st))) (put_repeats RepeatPreviousCodeLength 2 (repetitions - 3) st) })"

definition encodeHuffmanTreeRepetitionsZeros :: "nat list \<Rightarrow> nat list \<Rightarrow> nat \<Rightarrow> rle_buf option" where
  "encodeHuffmanTreeRepetitionsZeros tree extraBitsData repetitions = do {
     let st = (tree, extraBitsData, 0);
     (st, repetitions) \<leftarrow> (if repetitions = 11 then do { st \<leftarrow> put_code 0 0 st; Some (st, repetitions - 1) }
                           else Some (st, repetitions));
     if repetitions < 3 then put_copies repetitions 0 st
     else map_option (reverse_from (snd (snd st))) (put_repeats alphabetSizeRepeatZeroCodeLength 3 (repetitions - 3) st) }"


subsection \<open>Runs\<close>

text \<open>\<^verbatim>\<open>bits.TrailingZeros64\<close>.\<close>

definition TrailingZeros64 :: "u64 \<Rightarrow> nat" where
  "TrailingZeros64 w = length (takeWhile (\<lambda>k. \<not> bit w k) [0..<64])"

function run_words :: "nat list \<Rightarrow> nat \<Rightarrow> u64 \<Rightarrow> (nat + nat) option" where
  "run_words depth n v64 =
     (if n + 8 \<le> length depth then do {
        x \<leftarrow> load64 (map of_nat depth) (int n);
        let diff = x XOR v64;
        if diff \<noteq> 0 then Some (Inl (n + TrailingZeros64 diff div 8)) else run_words depth (n + 8) v64 }
      else Some (Inr n))"
  by pat_completeness auto
termination by (relation "measure (\<lambda>(depth, n, _). length depth - n)") auto

declare run_words.simps [simp del]

function run_bytes :: "nat list \<Rightarrow> nat \<Rightarrow> nat \<Rightarrow> nat" where
  "run_bytes depth n v = (if n < length depth \<and> depth ! n = v then run_bytes depth (n + 1) v else n)"
  by pat_completeness auto
termination by (relation "measure (\<lambda>(depth, n, _). length depth - n)") auto

declare run_bytes.simps [simp del]

definition findRunEnd :: "nat list \<Rightarrow> nat \<Rightarrow> nat \<Rightarrow> nat option" where
  "findRunEnd depth i v = do {
     r \<leftarrow> run_words depth i (of_nat v * 0x0101010101010101);
     case r of Inl n \<Rightarrow> Some n | Inr n \<Rightarrow> Some (run_bytes depth n v) }"

text \<open>The byte by byte loop of the comment.\<close>

definition run_end :: "nat list \<Rightarrow> nat \<Rightarrow> nat \<Rightarrow> nat" where
  "run_end depth i v = i + length (takeWhile (\<lambda>x. x = v) (drop i depth))"

lemma run_bytes_eq: "run_bytes depth n v = run_end depth n v"
proof (induction depth n v rule: run_bytes.induct)
  case (1 depth n v)
  show ?case
  proof (cases "n < length depth \<and> depth ! n = v")
    case True
    then show ?thesis using 1 by (subst run_bytes.simps) (simp add: run_end_def Cons_nth_drop_Suc [symmetric])
  next
    case False
    then show ?thesis by (subst run_bytes.simps) (cases "drop n depth"; auto simp: run_end_def drop_eq_Nil2 hd_drop_conv_nth [symmetric])
  qed
qed

lemma bits_of_le_load: "length bs = 8 \<Longrightarrow> bits_of 64 (le_load bs) = bytes_bits bs"
  by (rule nth_equalityI) (simp_all add: bit_le_load)

lemma le_load_replicate:
  assumes "v < 256"
  shows "le_load (replicate 8 (of_nat v)) = of_nat v * 0x0101010101010101"
proof -
  have b: "val_of (bits_of 8 (of_nat v :: byte)) = v" using assms by (simp add: bits_of_of_nat)
  have r: "replicate 8 x = [x, x, x, x, x, x, x, x]" for x :: byte by (simp add: eval_nat_numeral)
  have "unat (le_load (replicate 8 (of_nat v))) = val_of (bytes_bits (replicate 8 (of_nat v)))"
    using val_of_bits_of [of 64 "le_load (replicate 8 (of_nat v))"] by (simp add: bits_of_le_load take_bit_word_eq_self)
  also have "\<dots> = v * 0x0101010101010101" unfolding r by (simp add: val_of_append b)
  also have "\<dots> = unat (of_nat (v * 0x0101010101010101) :: u64)" using assms by (simp only: unat_of_nat) simp
  finally show ?thesis by (simp only: unat_arith_simps(3) of_nat_mult) simp
qed

lemma TrailingZeros64_first:
  assumes "w \<noteq> 0"
  shows "TrailingZeros64 w < 64" and "bit w (TrailingZeros64 w)" and "k < TrailingZeros64 w \<Longrightarrow> \<not> bit w k"
proof -
  obtain p where p: "p < 64" "bit w p" using assms bit_imp_le_length [of w] by (auto simp: bit_eq_iff)
  have "takeWhile (\<lambda>k. \<not> bit w k) [0..<64] \<noteq> [0..<64]" using p by (auto simp: takeWhile_eq_all_conv)
  then have l: "length (takeWhile (\<lambda>k. \<not> bit w k) [0..<64]) < 64"
    by (metis length_takeWhile_le length_upt le_neq_implies_less minus_nat.diff_0 takeWhile_eq_take take_all_iff order_refl)
  then show "TrailingZeros64 w < 64" by (simp only: TrailingZeros64_def)
  show "bit w (TrailingZeros64 w)"
    using nth_length_takeWhile [of "\<lambda>k. \<not> bit w k" "[0..<64]"] l unfolding TrailingZeros64_def by (simp del: upt_rec_numeral)
  show "\<not> bit w k" if "k < TrailingZeros64 w"
  proof -
    have "[0..<64] ! k = k" using that l by (simp add: TrailingZeros64_def del: upt_rec_numeral)
    then show ?thesis using takeWhile_nth [of k "\<lambda>k. \<not> bit w k" "[0..<64]"] set_takeWhileD nth_mem that
      unfolding TrailingZeros64_def by metis
  qed
qed

lemma run_words_step:
  assumes "n + 8 \<le> length depth" and "\<forall>x\<in>set depth. x < 256" and "v < 256"
    and "diff = le_load (take 8 (drop n (map of_nat depth))) XOR of_nat v * 0x0101010101010101"
  shows "diff = 0 \<Longrightarrow> run_end depth n v = run_end depth (n + 8) v"
    and "diff \<noteq> 0 \<Longrightarrow> run_end depth n v = n + TrailingZeros64 diff div 8"
proof -
  define xs where "xs = take 8 (drop n depth)"
  have l: "length xs = 8" using assms(1) by (simp add: xs_def)
  have d: "drop n depth = xs @ drop (n + 8) depth" using append_take_drop_id [of 8 "drop n depth"] by (simp add: xs_def add.commute)
  have small: "xs ! k < 256" if "k < 8" for k using assms(2) l that nth_mem [of k xs] by (auto simp: xs_def dest!: in_set_takeD in_set_dropD)
  have inj: "(of_nat (xs ! k) :: byte) = of_nat v \<longleftrightarrow> xs ! k = v" if "k < 8" for k
    using small [OF that] assms(3) by (simp add: word_unat_eq_iff unat_of_nat)
  have b: "bit diff k \<longleftrightarrow> bit (of_nat (xs ! (k div 8)) :: byte) (k mod 8) \<noteq> bit (of_nat v :: byte) (k mod 8)" if "k < 64" for k
  proof -
    have "k div 8 < 8" using that by simp
    then show ?thesis using that l
      by (simp add: assms(4) le_load_replicate [OF assms(3), symmetric] bit_xor_iff bit_le_load nth_bytes_bits drop_map take_map xs_def [symmetric]
        del: replicate_Suc)
  qed
  have eq: "(of_nat (xs ! j) :: byte) = of_nat v" if "j < 8" "\<And>k. k < 8 * j + 8 \<Longrightarrow> 8 * j \<le> k \<Longrightarrow> \<not> bit diff k" for j
  proof (rule bit_word_eqI)
    fix m :: nat assume m: "m < LENGTH(8)"
    then have "\<not> bit diff (8 * j + m)" by (intro that(2)) simp_all
    then show "bit (of_nat (xs ! j) :: byte) m = bit (of_nat v :: byte) m" using b [of "8 * j + m"] m that(1) by simp
  qed
  show "run_end depth n v = run_end depth (n + 8) v" if "diff = 0"
  proof -
    have "\<forall>x\<in>set xs. x = v" using eq inj l that by (auto simp: in_set_conv_nth)
    then show ?thesis by (simp add: run_end_def d l)
  qed
  show "run_end depth n v = n + TrailingZeros64 diff div 8" if "diff \<noteq> 0"
  proof -
    note T = TrailingZeros64_first [OF that]
    define q where "q = TrailingZeros64 diff div 8"
    have q: "q < 8" "8 * q \<le> TrailingZeros64 diff" using T(1) by (simp_all add: q_def)
    have before: "xs ! j = v" if "j < q" for j
    proof -
      have j: "8 * j + 8 \<le> 8 * q" "j < 8" using that q(1) by simp_all
      have "(of_nat (xs ! j) :: byte) = of_nat v" by (rule eq [OF j(2)]) (rule T(3), use j(1) q(2) in linarith)
      then show ?thesis using inj [OF j(2)] by simp
    qed
    have at: "xs ! q \<noteq> v"
    proof
      assume "xs ! q = v"
      then show False using b [OF T(1)] T(2) by (simp add: q_def)
    qed
    have "xs ! q \<in> set xs" using q l by simp
    then have "takeWhile (\<lambda>x. x = v) (drop n depth) = takeWhile (\<lambda>x. x = v) xs"
      unfolding d by (rule takeWhile_append1) (rule at)
    also have "\<dots> = take q xs" by (rule takeWhile_eq_take_P_nth) (use before at in auto)
    finally have "takeWhile (\<lambda>x. x = v) (drop n depth) = take q xs" .
    then show ?thesis using q l by (simp add: run_end_def q_def)
  qed
qed

theorem findRunEnd_eq:
  assumes "\<forall>x\<in>set depth. x < 256" and "v < 256"
  shows "findRunEnd depth i v = Some (run_end depth i v)"
proof -
  have "case run_words depth n (of_nat v * 0x0101010101010101) of Some (Inl m) \<Rightarrow> m = run_end depth n v
     | Some (Inr m) \<Rightarrow> run_end depth m v = run_end depth n v | None \<Rightarrow> False" for n
    using assms
  proof (induction depth n "of_nat v * 0x0101010101010101 :: u64" rule: run_words.induct)
    case (1 depth n)
    show ?case
    proof (cases "n + 8 \<le> length depth")
      case True
      define diff where "diff = le_load (take 8 (drop n (map of_nat depth))) XOR of_nat v * 0x0101010101010101"
      have ld: "load64 (map of_nat depth) (int n) = Some (le_load (take 8 (drop n (map of_nat depth))))"
        using True by (simp add: load64_def go_slice_Some)
      note S = run_words_step [OF True 1(2,3) diff_def]
      show ?thesis
      proof (cases "diff = 0")
        case False
        then show ?thesis using S(2) by (subst run_words.simps) (simp add: True ld diff_def [symmetric])
      next
        case T0: True
        have "case run_words depth (n + 8) (of_nat v * 0x0101010101010101) of Some (Inl m) \<Rightarrow> m = run_end depth (n + 8) v
           | Some (Inr m) \<Rightarrow> run_end depth m v = run_end depth (n + 8) v | None \<Rightarrow> False"
          by (rule 1(1) [OF True ld refl _ 1(2,3)]) (use T0 in \<open>simp add: diff_def\<close>)
        then show ?thesis using S(1) [OF T0] T0
          by (subst run_words.simps) (auto simp: True ld diff_def [symmetric] split: option.splits sum.splits)
      qed
    qed (subst run_words.simps, simp)
  qed
  from this [of i] show ?thesis by (auto simp: findRunEnd_def run_bytes_eq split: option.splits sum.splits)
qed

lemma run_end_bounds: "i \<le> run_end depth i v" "i \<le> length depth \<Longrightarrow> run_end depth i v \<le> length depth"
  using length_takeWhile_le [of "\<lambda>x. x = v" "drop i depth"] by (simp_all add: run_end_def)

lemma findRunEnd_ge:
  assumes "findRunEnd depth i v = Some e"
  shows "i \<le> e"
proof -
  have "case run_words depth n w of Some (Inl m) \<Rightarrow> n \<le> m | Some (Inr m) \<Rightarrow> n \<le> m | None \<Rightarrow> True" for n w
  proof (induction depth n w rule: run_words.induct)
    case (1 depth n w)
    show ?case
      by (subst run_words.simps) (auto simp: Let_def split: option.splits sum.splits bind_splits dest: 1)
  qed
  from this [of i "of_nat v * 0x0101010101010101"] assms show ?thesis
    using run_end_bounds(1) [of _ depth v] unfolding findRunEnd_def
    by (auto simp: run_bytes_eq split: option.splits sum.splits bind_splits intro: le_trans)
qed


subsection \<open>The whole list\<close>

function decide_loop :: "nat list \<Rightarrow> nat \<Rightarrow> nat \<Rightarrow> nat \<Rightarrow> nat \<Rightarrow> nat \<Rightarrow> (nat \<times> nat \<times> nat \<times> nat) option" where
  "decide_loop depth i totalRepsZero totalRepsNonZero countRepsZero countRepsNonZero =
     (if i < length depth then
        case findRunEnd depth (i + 1) (depth ! i) of
          None \<Rightarrow> None
        | Some end1 \<Rightarrow>
            (let v = depth ! i; reps = end1 - i;
                 zero = (reps \<ge> 3 \<and> v = 0); nonZero = (reps \<ge> 4 \<and> v \<noteq> 0) in
             decide_loop depth end1 (if zero then totalRepsZero + reps else totalRepsZero)
               (if nonZero then totalRepsNonZero + reps else totalRepsNonZero)
               (if zero then countRepsZero + 1 else countRepsZero)
               (if nonZero then countRepsNonZero + 1 else countRepsNonZero))
      else Some (totalRepsZero, totalRepsNonZero, countRepsZero, countRepsNonZero))"
  by pat_completeness auto
termination
  by (relation "measure (\<lambda>(depth, i, _). length depth - i)") (auto dest!: findRunEnd_ge)

declare decide_loop.simps [simp del]

definition decideOverRLEUse :: "nat list \<Rightarrow> (bool \<times> bool) option" where
  "decideOverRLEUse depth = do {
     (totalRepsZero, totalRepsNonZero, countRepsZero, countRepsNonZero) \<leftarrow> decide_loop depth 0 0 0 1 1;
     Some (totalRepsNonZero > countRepsNonZero * 2, totalRepsZero > countRepsZero * 2) }"

fun trim_zeros :: "nat list \<Rightarrow> nat \<Rightarrow> nat" where
  "trim_zeros depth 0 = 0"
| "trim_zeros depth (Suc n) = (if depth ! n = 0 then trim_zeros depth n else Suc n)"

text \<open>A call on \<^verbatim>\<open>tree[size:]\<close> and \<^verbatim>\<open>extraBitsData[size:]\<close>.\<close>

definition from_size :: "(nat list \<Rightarrow> nat list \<Rightarrow> rle_buf option) \<Rightarrow> rle_buf \<Rightarrow> rle_buf option" where
  "from_size f = (\<lambda>(tree, extraBitsData, size1). do {
     t \<leftarrow> go_slice tree (int size1) (int (length tree));
     x \<leftarrow> go_slice extraBitsData (int size1) (int (length extraBitsData));
     (t, x, n) \<leftarrow> f t x;
     Some (overwrite tree size1 t, overwrite extraBitsData size1 x, size1 + n) })"

text \<open>The depths are those up to the last one that is not 0.\<close>

definition rle_reps :: "bool \<Rightarrow> bool \<Rightarrow> nat list \<Rightarrow> nat \<Rightarrow> nat option" where
  "rle_reps useRLENonZero useRLEZero depth i = (let v = depth ! i in
     if v \<noteq> 0 \<and> useRLENonZero \<or> v = 0 \<and> useRLEZero
     then map_option (\<lambda>end1. end1 - i) (findRunEnd depth (i + 1) v) else Some 1)"

lemma rle_reps_pos: "rle_reps nz z depth i = Some n \<Longrightarrow> 0 < n"
  using findRunEnd_ge [of depth "i + 1" "depth ! i"] by (fastforce simp: rle_reps_def Let_def split: if_splits)

function rle_loop :: "bool \<Rightarrow> bool \<Rightarrow> nat list \<Rightarrow> nat \<Rightarrow> nat \<Rightarrow> rle_buf \<Rightarrow> rle_buf option" where
  "rle_loop useRLENonZero useRLEZero depth i prevValue st =
     (if i < length depth then
        case rle_reps useRLENonZero useRLEZero depth i of
          None \<Rightarrow> None
        | Some reps \<Rightarrow>
            (let v = depth ! i in
             if v = 0 then
               Option.bind (from_size (\<lambda>t x. encodeHuffmanTreeRepetitionsZeros t x reps) st)
                 (rle_loop useRLENonZero useRLEZero depth (i + reps) prevValue)
             else
               Option.bind (from_size (\<lambda>t x. encodeHuffmanTreeRepetitions t x prevValue v reps) st)
                 (rle_loop useRLENonZero useRLEZero depth (i + reps) v))
      else Some st)"
  by pat_completeness auto
termination
  by (relation "measure (\<lambda>(_, _, depth, i, _). length depth - i)") (auto dest!: rle_reps_pos)

declare rle_loop.simps [simp del]

definition encodeHuffmanTree :: "nat list \<Rightarrow> nat list \<Rightarrow> nat list \<Rightarrow> rle_buf option" where
  "encodeHuffmanTree depth tree extraBitsData = (let d = take (trim_zeros depth (length depth)) depth in do {
     (useRLENonZero, useRLEZero) \<leftarrow> (if length depth > 50 then decideOverRLEUse d else Some (False, False));
     rle_loop useRLENonZero useRLEZero d 0 InitialRepeatedCodeLength (tree, extraBitsData, 0) })"


subsection \<open>What is written\<close>

text \<open>The buffers hold the codes \<open>toks\<close>, pairs of a code length symbol and its extra bits.\<close>

definition holds :: "nat \<Rightarrow> nat \<Rightarrow> (nat \<times> nat) list \<Rightarrow> rle_buf \<Rightarrow> bool" where
  "holds T X toks = (\<lambda>(tree, x, n). length tree = T \<and> length x = X \<and> n = length toks \<and> n \<le> T \<and> n \<le> X \<and>
     take n tree = map fst toks \<and> take n x = map snd toks)"

lemma put_code_ok:
  assumes "holds T X toks st" and "length toks < T" and "length toks < X"
  shows "\<exists>st'. put_code v e st = Some st' \<and> holds T X (toks @ [(v, e)]) st'"
  using assms by (cases st) (auto simp: holds_def put_code_def go_update_def take_Suc_conv_app_nth)

lemma put_copies_ok:
  assumes "holds T X toks st" and "length toks + k \<le> T" and "length toks + k \<le> X"
  shows "\<exists>st'. put_copies k v st = Some st' \<and> holds T X (toks @ replicate k (v, 0)) st'"
  using assms
proof (induction k arbitrary: toks st)
  case (Suc k)
  obtain st1 where "put_code v 0 st = Some st1" "holds T X (toks @ [(v, 0)]) st1" 
    using put_code_ok [OF Suc.prems(1), of v 0] Suc.prems by auto
  then show ?case using Suc.IH [of "toks @ [(v, 0)]" st1] Suc.prems by auto
qed simp

text \<open>The digits of a run, last digit first.\<close>

function rep_digits :: "nat \<Rightarrow> nat \<Rightarrow> nat list" where
  "rep_digits w r = (r mod 2 ^ w) # (if r div 2 ^ w = 0 then [] else rep_digits w (r div 2 ^ w - 1))"
  by pat_completeness auto
termination
proof (relation "measure (\<lambda>(w, r). r)")
  fix w r :: nat assume "r div 2 ^ w \<noteq> 0"
  then have "r div 2 ^ w - 1 < r" using div_le_dividend [of r "2 ^ w"] by linarith
  then show "((w, r div 2 ^ w - 1), w, r) \<in> measure (\<lambda>(w, r). r)" by simp
qed simp

declare rep_digits.simps [simp del]

lemma length_rep_digits: "length (rep_digits w r) \<le> r + 1"
proof (induction w r rule: rep_digits.induct)
  case (1 w r)
  show ?case
  proof (cases "r div 2 ^ w = 0")
    case False
    then have "length (rep_digits w (r div 2 ^ w - 1)) \<le> r" using 1 div_le_dividend [of r "2 ^ w"] by linarith
    then show ?thesis using False by (subst rep_digits.simps) simp
  qed (subst rep_digits.simps, simp)
qed

lemma put_repeats_ok:
  assumes "holds T X toks st" and "length toks + length (rep_digits w r) \<le> T" and "length toks + length (rep_digits w r) \<le> X"
  shows "\<exists>st'. put_repeats c w r st = Some st' \<and> holds T X (toks @ map (Pair c) (rep_digits w r)) st'"
  using assms
proof (induction w r arbitrary: toks st rule: rep_digits.induct)
  case (1 w r)
  have m: "r AND (2 ^ w - 1) = r mod 2 ^ w" using take_bit_eq_mask [of w r] by (simp add: mask_eq_exp_minus_1 take_bit_eq_mod)
  have d: "rep_digits w r = (r mod 2 ^ w) # (if r div 2 ^ w = 0 then [] else rep_digits w (r div 2 ^ w - 1))" by (rule rep_digits.simps)
  obtain st1 where st1: "put_code c (r mod 2 ^ w) st = Some st1" "holds T X (toks @ [(c, r mod 2 ^ w)]) st1"
    using put_code_ok [OF 1(2), of c "r mod 2 ^ w"] 1(3,4) unfolding d by auto
  show ?case
  proof (cases "r div 2 ^ w = 0")
    case True
    then show ?thesis unfolding d by (subst put_repeats.simps) (simp add: m [simplified] st1 drop_bit_eq_div)
  next
    case False
    obtain st2 where "put_repeats c w (r div 2 ^ w - 1) st1 = Some st2"
      "holds T X ((toks @ [(c, r mod 2 ^ w)]) @ map (Pair c) (rep_digits w (r div 2 ^ w - 1))) st2"
      using 1(1) [OF False st1(2)] 1(3,4) False unfolding d by auto
    then show ?thesis using False unfolding d by (subst put_repeats.simps) (simp add: m [simplified] st1 drop_bit_eq_div)
  qed
qed

lemma reverse_from_ok:
  assumes "holds T X (toks @ new) st" and "k = length toks"
  shows "holds T X (toks @ rev new) (reverse_from k st)"
proof -
  have r: "take n (overwrite xs k (rev (drop k (take n xs)))) = map f (toks @ rev new)"
    "length (overwrite xs k (rev (drop k (take n xs)))) = length xs"
    if "n \<le> length xs" "take n xs = map f (toks @ new)" "n = length (toks @ new)" for xs :: "nat list" and n f
  proof -
    have d: "drop k (take n xs) = map f new" using that assms(2) by simp
    have "take k xs = map f toks" using that assms(2) by (metis append_eq_conv_conj length_map map_append take_take min.absorb1 le_add1 length_append)
    then show "take n (overwrite xs k (rev (drop k (take n xs)))) = map f (toks @ rev new)"
      using that assms(2) unfolding d by (simp add: overwrite_def rev_map)
    show "length (overwrite xs k (rev (drop k (take n xs)))) = length xs" using that(1,3) assms(2) unfolding d by simp
  qed
  obtain tree x n where st: "st = (tree, x, n)" by (metis prod_cases3)
  have h: "n = length (toks @ new)" "length tree = T" "length x = X" "n \<le> T" "n \<le> X" "take n tree = map fst (toks @ new)"
    "take n x = map snd (toks @ new)" using assms(1) unfolding holds_def st prod.case by blast+
  have a: "n \<le> length tree" "n \<le> length x" using h by simp_all
  note R = r [OF a(1) h(6,1)] r [OF a(2) h(7,1)]
  show ?thesis unfolding st reverse_from_def holds_def prod.case using h(1-5) R by simp
qed

definition zero_toks :: "nat \<Rightarrow> (nat \<times> nat) list" where
  "zero_toks reps = (let first = (if reps = 11 then [(0, 0)] else []); k = reps - length first in
     first @ (if k < 3 then replicate k (0, 0) else rev (map (Pair 17) (rep_digits 3 (k - 3)))))"

definition nonzero_toks :: "nat \<Rightarrow> nat \<Rightarrow> nat \<Rightarrow> (nat \<times> nat) list" where
  "nonzero_toks prev v reps = (let first = (if prev \<noteq> v then [(v, 0)] else []); k = reps - length first;
     second = (if k = 7 then [(v, 0)] else []); m = k - length second in
     first @ second @ (if m < 3 then replicate m (v, 0) else rev (map (Pair 16) (rep_digits 2 (m - 3)))))"

lemma length_zero_toks: "length (zero_toks reps) \<le> reps"
  using length_rep_digits [of 3 "reps - 3"] length_rep_digits [of 3 "7"] by (auto simp: zero_toks_def Let_def)

lemma length_nonzero_toks: "0 < reps \<Longrightarrow> length (nonzero_toks prev v reps) \<le> reps"
proof -
  have d: "length (rep_digits 2 (k - 3)) \<le> k" if "3 \<le> k" for k using length_rep_digits [of 2 "k - 3"] that by simp
  assume "0 < reps"
  then show ?thesis using d [of 6] d [of reps] d [of "reps - 1"] d [of "reps - 2"]
    by (cases "reps = 8") (auto simp: nonzero_toks_def Let_def)
qed

lemma rep_run_ok:
  assumes "holds T X toks st" and "length toks + k \<le> T" and "length toks + k \<le> X" and "3 \<le> k"
  shows "\<exists>st'. map_option (reverse_from (snd (snd st))) (put_repeats c w (k - 3) st) = Some st' \<and>
    holds T X (toks @ rev (map (Pair c) (rep_digits w (k - 3)))) st'"
proof -
  have "length (rep_digits w (k - 3)) \<le> k" using length_rep_digits [of w "k - 3"] assms(4) by simp
  then obtain st1 where st1: "put_repeats c w (k - 3) st = Some st1" "holds T X (toks @ map (Pair c) (rep_digits w (k - 3))) st1"
    using put_repeats_ok [OF assms(1), of w "k - 3" c] assms(2,3) by auto
  have "snd (snd st) = length toks" using assms(1) by (auto simp: holds_def)
  then show ?thesis using reverse_from_ok [OF st1(2), of "snd (snd st)"] st1(1) by simp
qed

lemma put_first_ok:
  assumes "holds T X toks st" and "length toks + k \<le> T" and "length toks + k \<le> X" and "b \<longrightarrow> 0 < k"
  shows "\<exists>st'. (if b then do { st \<leftarrow> put_code v 0 st; Some (st, k - 1) } else Some (st, k)) =
      Some (st', k - length (if b then [(v, 0::nat)] else [])) \<and> holds T X (toks @ (if b then [(v, 0)] else [])) st'"
proof (cases b)
  case True
  then obtain st' where "put_code v 0 st = Some st'" "holds T X (toks @ [(v, 0)]) st'" using put_code_ok [OF assms(1), of v 0] assms by auto
  then show ?thesis using True by simp
qed (use assms(1) in simp)

lemma zeros_ok:
  assumes "reps \<le> length t" and "reps \<le> length x"
  shows "\<exists>st. encodeHuffmanTreeRepetitionsZeros t x reps = Some st \<and> holds (length t) (length x) (zero_toks reps) st"
proof -
  define first where "first = (if reps = 11 then [(0::nat, 0::nat)] else [])"
  define k where "k = reps - length first"
  have h0: "holds (length t) (length x) [] (t, x, 0)" by (simp add: holds_def)
  obtain st1 where st1: "(if reps = 11 then do { st \<leftarrow> put_code 0 0 (t, x, 0); Some (st, reps - 1) } else Some ((t, x, 0), reps)) = Some (st1, k)"
    "holds (length t) (length x) first st1"
    using put_first_ok [OF h0, of reps "reps = 11" 0] assms unfolding first_def k_def by force
  have k: "length first + k = reps" by (simp add: first_def k_def)
  have "\<exists>st. (if k < 3 then put_copies k 0 st1 else map_option (reverse_from (snd (snd st1))) (put_repeats 17 3 (k - 3) st1)) = Some st \<and>
      holds (length t) (length x) (zero_toks reps) st"
    using put_copies_ok [OF st1(2), of k 0] rep_run_ok [OF st1(2), of k 17 3] assms k
    by (auto simp: zero_toks_def Let_def first_def [symmetric] k_def [symmetric])
  then show ?thesis unfolding encodeHuffmanTreeRepetitionsZeros_def Let_def st1(1) alphabetSizeRepeatZeroCodeLength_def
      Option.bind.bind_lunit prod.case by blast
qed

lemma nonzeros_ok:
  assumes "0 < reps" and "reps \<le> length t" and "reps \<le> length x"
  shows "\<exists>st. encodeHuffmanTreeRepetitions t x prev v reps = Some st \<and> holds (length t) (length x) (nonzero_toks prev v reps) st"
proof -
  define first where "first = (if prev \<noteq> v then [(v, 0::nat)] else [])"
  define k where "k = reps - length first"
  define second where "second = (if k = 7 then [(v, 0::nat)] else [])"
  define m where "m = k - length second"
  have h0: "holds (length t) (length x) [] (t, x, 0)" by (simp add: holds_def)
  obtain st1 where st1: "(if prev \<noteq> v then do { st \<leftarrow> put_code v 0 (t, x, 0); Some (st, reps - 1) } else Some ((t, x, 0), reps)) = Some (st1, k)"
    "holds (length t) (length x) first st1"
    using put_first_ok [OF h0, of reps "prev \<noteq> v" v] assms unfolding first_def k_def by force
  have k: "length first + k = reps" using assms(1) by (simp add: first_def k_def)
  obtain st2 where st2: "(if k = 7 then do { st \<leftarrow> put_code v 0 st1; Some (st, k - 1) } else Some (st1, k)) = Some (st2, m)"
    "holds (length t) (length x) (first @ second) st2"
    using put_first_ok [OF st1(2), of k "k = 7" v] assms k unfolding second_def m_def by force
  have m: "length (first @ second) + m = reps" using k by (simp add: second_def m_def)
  have "\<exists>st. (if m < 3 then put_copies m v st2 else map_option (reverse_from (snd (snd st2))) (put_repeats 16 2 (m - 3) st2)) = Some st \<and>
      holds (length t) (length x) (nonzero_toks prev v reps) st"
    using put_copies_ok [OF st2(2), of m v] rep_run_ok [OF st2(2), of m 16 2] assms m
    by (auto simp: nonzero_toks_def Let_def first_def [symmetric] k_def [symmetric] second_def [symmetric] m_def [symmetric])
  moreover have z: "(reps = 0) = False" using assms(1) by simp
  ultimately show ?thesis unfolding encodeHuffmanTreeRepetitions_def Let_def st1(1) RepeatPreviousCodeLength_def
      Option.bind.bind_lunit prod.case st2(1) z if_False by - assumption
qed

lemma from_size_ok:
  assumes "holds T X toks st" and "length toks + n \<le> T" and "length toks + n \<le> X"
    and "\<And>t x. n \<le> length t \<Longrightarrow> n \<le> length x \<Longrightarrow> \<exists>st. f t x = Some st \<and> holds (length t) (length x) new st"
  shows "\<exists>st'. from_size f st = Some st' \<and> holds T X (toks @ new) st'"
proof -
  obtain tree x k where st: "st = (tree, x, k)" by (metis prod_cases3)
  have h: "length tree = T" "length x = X" "k = length toks" "k \<le> T" "k \<le> X" "take k tree = map fst toks" "take k x = map snd toks"
    using assms(1) unfolding holds_def st prod.case by blast+
  define t' x' where "t' = drop k tree" and "x' = drop k x"
  have "n \<le> length t'" "n \<le> length x'" using assms(2,3) h by (simp_all add: t'_def x'_def)
  then obtain t1 x1 m where f: "f t' x' = Some (t1, x1, m)" "holds (length t') (length x') new (t1, x1, m)" using assms(4) by (metis prod_cases3)
  have s: "go_slice tree (int k) (int (length tree)) = Some t'" "go_slice x (int k) (int (length x)) = Some x'"
    using h by (simp_all add: go_slice_Some t'_def x'_def)
  have "from_size f st = Some (overwrite tree k t1, overwrite x k x1, k + m)" using s f(1) by (simp add: from_size_def st)
  moreover have "holds T X (toks @ new) (overwrite tree k t1, overwrite x k x1, k + m)"
    using f(2) h by (auto simp: holds_def overwrite_def t'_def x'_def take_add)
  ultimately show ?thesis by blast
qed


subsection \<open>How the codes are read\<close>

definition rle_tok :: "nat \<Rightarrow> nat \<times> nat \<Rightarrow> rle \<Rightarrow> rle option" where
  "rle_tok size1 = (\<lambda>(c, e) r. if c < 16 then Some (rle_single c r) else rle_repeat size1 (c = 16) e r)"

fun rle_toks :: "nat \<Rightarrow> (nat \<times> nat) list \<Rightarrow> rle \<Rightarrow> rle option" where
  "rle_toks size1 [] r = Some r"
| "rle_toks size1 (t # ts) r = Option.bind (rle_tok size1 t r) (rle_toks size1 ts)"

lemma rle_toks_append: "rle_toks size1 (ts @ us) r = Option.bind (rle_toks size1 ts r) (rle_toks size1 us)"
  by (induction ts arbitrary: r) (auto split: bind_splits)

lemma rle_toks_copies:
  "v < 16 \<Longrightarrow> rle_toks size1 (replicate (Suc k) (v, 0)) (ls, prev, n, len) =
     Some (ls @ replicate (Suc k) v, if v = 0 then prev else v, 0, len)"
proof (induction k arbitrary: ls prev n)
  case (Suc k)
  have "rle_toks size1 (replicate (Suc (Suc k)) (v, 0)) (ls, prev, n, len) =
      rle_toks size1 (replicate (Suc k) (v, 0)) (ls @ [v], if v = 0 then prev else v, 0, len)"
    using Suc.prems by (simp add: rle_tok_def rle_single_def)
  then show ?case using Suc by simp
qed (simp add: rle_tok_def rle_single_def)

text \<open>The digits add up to the run.\<close>

lemma rle_toks_digits:
  assumes "c = (if previous then 16 else 17)" and "w = (if previous then 2 else 3)" and "v = (if previous then prev else 0)"
    and "n = 0 \<or> len \<noteq> v" and "length ls + r + 3 \<le> size1"
  shows "rle_toks size1 (rev (map (Pair c) (rep_digits w r))) (ls, prev, n, len) = Some (ls @ replicate (r + 3) v, prev, r + 3, v)"
  using assms(2,5)
proof (induction w r rule: rep_digits.induct)
  case (1 w r)
  have d: "rep_digits w r = (r mod 2 ^ w) # (if r div 2 ^ w = 0 then [] else rep_digits w (r div 2 ^ w - 1))" by (rule rep_digits.simps)
  have c: "\<not> c < 16" "(c = 16) = previous" using assms(1) by auto
  have v: "(if previous then prev else 0) = v" and w: "(if previous then 2 else 3) = w" using assms(3) 1(2) by simp_all
  have e: "2 ^ w * (r div 2 ^ w) + r mod 2 ^ w = r" by simp
  show ?case
  proof (cases "r div 2 ^ w = 0")
    case True
    then have m: "r mod 2 ^ w = r" using e by simp
    have "(if len = v then n else 0) = 0" using assms(4) by auto
    then show ?thesis using 1(3) True unfolding d by (simp add: rle_tok_def rle_repeat_def c v m Let_def)
  next
    case False
    define q where "q = r div 2 ^ w - 1"
    have q: "(q + 1) * 2 ^ w + r mod 2 ^ w = r" "q < r"
      using e False div_le_dividend [of r "2 ^ w"] by (simp add: q_def mult.commute, unfold q_def, linarith)
    have "rle_toks size1 (rev (map (Pair c) (rep_digits w q))) (ls, prev, n, len) = Some (ls @ replicate (q + 3) v, prev, q + 3, v)"
      using 1(1) [OF False 1(2)] 1(3) q(2) by (simp add: q_def)
    moreover have "rle_tok size1 (c, r mod 2 ^ w) (ls @ replicate (q + 3) v, prev, q + 3, v) = Some (ls @ replicate (r + 3) v, prev, r + 3, v)"
    proof -
      have new: "2 ^ w + q * 2 ^ w + r mod 2 ^ w = r" using q(1) by (simp add: algebra_simps)
      have "ls @ replicate (q + 3) v @ replicate (r + 3 - (q + 3)) v = ls @ replicate (r + 3) v" using q(2) by (simp flip: replicate_add)
      then show ?thesis using 1(3) q(2) by (simp add: rle_tok_def rle_repeat_def c v w Let_def new del: replicate.simps)
    qed
    ultimately show ?thesis using False unfolding d q_def [symmetric] by (simp add: rle_toks_append)
  qed
qed

declare rle_toks.simps(2) [simp del]

definition tok_ok :: "nat \<times> nat \<Rightarrow> bool" where
  "tok_ok = (\<lambda>(c, e). c < 16 \<and> e = 0 \<or> c = 16 \<and> e < 4 \<or> c = 17 \<and> e < 8)"

lemma rep_digits_less: "x \<in> set (rep_digits w r) \<Longrightarrow> x < 2 ^ w"
proof (induction w r rule: rep_digits.induct)
  case (1 w r)
  then show ?case by (subst (asm) (2) rep_digits.simps) (auto split: if_splits)
qed

definition rest_toks :: "bool \<Rightarrow> nat \<Rightarrow> nat \<Rightarrow> (nat \<times> nat) list" where
  "rest_toks previous v m = (if m < 3 then replicate m (v, 0)
     else rev (map (Pair (if previous then 16 else 17)) (rep_digits (if previous then 2 else 3) (m - 3))))"

lemma rest_toks_ok: "v < 16 \<Longrightarrow> \<forall>t\<in>set (rest_toks previous v m). tok_ok t"
  using rep_digits_less [of _ 2 "m - 3"] rep_digits_less [of _ 3 "m - 3"] by (auto simp: rest_toks_def tok_ok_def)

lemma rle_toks_rest:
  assumes "v = (if previous then prev else 0)" and "v < 16" and "n = 0 \<or> len \<noteq> v" and "length ls + m \<le> size1"
  shows "\<exists>n' len'. rle_toks size1 (rest_toks previous v m) (ls, prev, n, len) = Some (ls @ replicate m v, prev, n', len') \<and>
    (m = 0 \<and> n' = n \<or> n' = 0 \<or> 3 \<le> m \<and> len' = v)"
proof (cases "m < 3")
  case True
  show ?thesis
  proof (cases m)
    case (Suc k)
    have "(if v = 0 then prev else v) = prev" using assms(1) by auto
    then show ?thesis using rle_toks_copies [OF assms(2), of size1 k ls prev n len] True Suc by (simp add: rest_toks_def)
  qed (simp add: rest_toks_def)
next
  case False
  then have "rle_toks size1 (rest_toks previous v m) (ls, prev, n, len) = Some (ls @ replicate (m - 3 + 3) v, prev, m - 3 + 3, v)"
    using rle_toks_digits [OF refl refl assms(1,3), of ls "m - 3" size1] assms(4) by (simp add: rest_toks_def)
  then show ?thesis using False by simp
qed

lemma zero_toks_rest: "zero_toks reps = (if reps = 11 then (0, 0) # rest_toks False 0 10 else rest_toks False 0 reps)"
  by (simp add: zero_toks_def rest_toks_def)

lemma nonzero_toks_rest: "nonzero_toks prev v reps = (if prev \<noteq> v
    then (v, 0) # (if reps - 1 = 7 then (v, 0) # rest_toks True v 6 else rest_toks True v (reps - 1))
    else if reps = 7 then (v, 0) # rest_toks True v 6 else rest_toks True v reps)"
  by (auto simp: nonzero_toks_def rest_toks_def Let_def)

lemma rle_toks_single: "c < 16 \<Longrightarrow> rle_toks size1 ((c, e) # ts) (ls, prev, n, len) =
    rle_toks size1 ts (ls @ [c], if c = 0 then prev else c, 0, len)"
  by (simp add: rle_tok_def rle_single_def rle_toks.simps)

lemma append_replicate_Suc: "(ls @ [x]) @ replicate n x = ls @ replicate (Suc n) x"
  by simp

lemma zero_toks_read:
  assumes "n = 0 \<or> len \<noteq> 0" and "length ls + reps \<le> size1" and "0 < reps"
  shows "\<exists>n' len'. rle_toks size1 (zero_toks reps) (ls, prev, n, len) = Some (ls @ replicate reps 0, prev, n', len') \<and>
    (n' = 0 \<or> 3 \<le> reps \<and> len' = 0)"
proof (cases "reps = 11")
  case True
  have "rle_toks size1 (zero_toks reps) (ls, prev, n, len) = rle_toks size1 (rest_toks False 0 10) (ls @ [0], prev, 0, len)"
    unfolding zero_toks_rest using True by (simp add: rle_toks_single)
  then show ?thesis using rle_toks_rest [of 0 False prev 0 len "ls @ [0]" 10 size1] True assms(2)
    unfolding append_replicate_Suc by fastforce
next
  case False
  then show ?thesis using rle_toks_rest [of 0 False prev n len ls reps size1] assms unfolding zero_toks_rest by auto
qed

lemma nonzero_toks_read:
  assumes "n = 0 \<or> len \<noteq> v" and "length ls + reps \<le> size1" and "0 < reps" and "v < 16" and "v \<noteq> 0"
  shows "\<exists>n' len'. rle_toks size1 (nonzero_toks prev v reps) (ls, prev, n, len) = Some (ls @ replicate reps v, v, n', len') \<and>
    (n' = 0 \<or> 3 \<le> reps \<and> len' = v)"
proof -
  have mid: "\<exists>n' len'. rle_toks size1 (if k = 7 then (v, 0) # rest_toks True v 6 else rest_toks True v k) (us, v, n1, len) =
      Some (us @ replicate k v, v, n', len') \<and> (k = 0 \<and> n' = n1 \<or> n' = 0 \<or> 3 \<le> k \<and> len' = v)"
    if "n1 = 0 \<or> len \<noteq> v" "length us + k \<le> size1" for us k n1
  proof (cases "k = 7")
    case True
    have "rle_toks size1 ((v, 0) # rest_toks True v 6) (us, v, n1, len) = rle_toks size1 (rest_toks True v 6) (us @ [v], v, 0, len)"
      using assms(4) by (simp add: rle_toks_single)
    moreover have "Suc 6 = k" using True by simp
    ultimately show ?thesis using rle_toks_rest [of v True v 0 len "us @ [v]" 6 size1] assms(4) that(2) True
      unfolding append_replicate_Suc by auto
  next
    case False
    then show ?thesis using rle_toks_rest [of v True v n1 len us k size1] assms(4) that by auto
  qed
  show ?thesis
  proof (cases "prev = v")
    case True
    then show ?thesis using mid [OF assms(1,2)] assms(3) unfolding nonzero_toks_rest by auto
  next
    case False
    have "rle_toks size1 (nonzero_toks prev v reps) (ls, prev, n, len) =
        rle_toks size1 (if reps - 1 = 7 then (v, 0) # rest_toks True v 6 else rest_toks True v (reps - 1)) (ls @ [v], v, 0, len)"
      using False assms(4,5) unfolding nonzero_toks_rest by (simp add: rle_toks_single)
    moreover have "Suc (reps - 1) = reps" using assms(3) by simp
    ultimately show ?thesis using mid [of 0 "ls @ [v]" "reps - 1"] assms(2,3) unfolding append_replicate_Suc by fastforce
  qed
qed

lemma toks_ok: "\<forall>t\<in>set (zero_toks reps). tok_ok t" "v < 16 \<Longrightarrow> \<forall>t\<in>set (nonzero_toks prev v reps). tok_ok t"
proof -
  have s: "tok_ok (v, 0)" if "v < 16" for v using that by (simp add: tok_ok_def)
  show "\<forall>t\<in>set (zero_toks reps). tok_ok t" "v < 16 \<Longrightarrow> \<forall>t\<in>set (nonzero_toks prev v reps). tok_ok t"
    using rest_toks_ok [of 0] rest_toks_ok [of v] s by (auto simp: zero_toks_rest nonzero_toks_rest split: if_splits)
qed


subsection \<open>The round trip of the lengths\<close>

lemma run_end_take:
  assumes "i < length d"
  shows "take (run_end d (i + 1) (d ! i) - i) (drop i d) = replicate (run_end d (i + 1) (d ! i) - i) (d ! i)"
    and "run_end d (i + 1) (d ! i) < length d \<Longrightarrow> d ! run_end d (i + 1) (d ! i) \<noteq> d ! i"
proof -
  define t where "t = takeWhile (\<lambda>x. x = d ! i) (drop (i + 1) d)"
  have e: "run_end d (i + 1) (d ! i) = i + 1 + length t" by (simp add: run_end_def t_def)
  have "take (length t) (drop (i + 1) d) = t" by (simp add: t_def takeWhile_eq_take [symmetric])
  moreover have "t = replicate (length t) (d ! i)" by (rule replicate_length_same [symmetric]) (auto simp: t_def dest: set_takeWhileD)
  ultimately have "take (Suc (length t)) (drop i d) = replicate (Suc (length t)) (d ! i)"
    using assms by (simp add: Cons_nth_drop_Suc [symmetric])
  then show "take (run_end d (i + 1) (d ! i) - i) (drop i d) = replicate (run_end d (i + 1) (d ! i) - i) (d ! i)" by (simp add: e [simplified])
  show "d ! run_end d (i + 1) (d ! i) \<noteq> d ! i" if "run_end d (i + 1) (d ! i) < length d"
    using nth_length_takeWhile [of "\<lambda>x. x = d ! i" "drop (i + 1) d"] that by (simp add: e [simplified] t_def)
qed

lemma rle_reps_ok:
  assumes "i < length d" and "\<forall>x\<in>set d. x < 256"
  shows "\<exists>reps. rle_reps nz z d i = Some reps \<and> 0 < reps \<and> i + reps \<le> length d \<and>
    take (i + reps) d = take i d @ replicate reps (d ! i) \<and> (1 < reps \<longrightarrow> i + reps < length d \<longrightarrow> d ! (i + reps) \<noteq> d ! i)"
proof (cases "d ! i \<noteq> 0 \<and> nz \<or> d ! i = 0 \<and> z")
  case True
  define e where "e = run_end d (i + 1) (d ! i)"
  have "findRunEnd d (i + 1) (d ! i) = Some e" using findRunEnd_eq [OF assms(2)] assms by (simp add: e_def)
  moreover have "i + 1 \<le> e" "e \<le> length d" using run_end_bounds [where i = "i + 1" and depth = d and v = "d ! i"] assms(1) by (simp_all add: e_def)
  moreover note run_end_take [OF assms(1), folded e_def]
  moreover have "take e d = take i d @ take (e - i) (drop i d)" using take_add [of i "e - i" d] \<open>i + 1 \<le> e\<close> by simp
  ultimately show ?thesis using True by (intro exI [of _ "e - i"]) (auto simp: rle_reps_def Let_def)
next
  case False
  then show ?thesis using assms(1) by (intro exI [of _ 1]) (auto simp: rle_reps_def Let_def take_Suc_conv_app_nth)
qed

lemma rle_loop_ok:
  assumes "\<forall>x\<in>set d. x < 16" and "i \<le> length d" and "holds T X toks st" and "length d \<le> T" and "length d \<le> X" and "length d \<le> size1"
    and "length toks \<le> i" and "rle_toks size1 toks rle_init = Some (take i d, prev, n, len)"
    and "n = 0 \<or> i = length d \<or> len \<noteq> d ! i" and "\<forall>t\<in>set toks. tok_ok t"
  shows "\<exists>st' toks' prev' n' len'. rle_loop nz z d i prev st = Some st' \<and> holds T X toks' st' \<and> length toks' \<le> length d \<and>
    rle_toks size1 toks' rle_init = Some (d, prev', n', len') \<and> (\<forall>t\<in>set toks'. tok_ok t)"
  using assms
proof (induction nz z d i prev st arbitrary: toks n len rule: rle_loop.induct)
  case (1 nz z d i prev st)
  show ?case
  proof (cases "i < length d")
    case True
    define v where "v = d ! i"
    have small: "\<forall>x\<in>set d. x < 256" using 1(3) by fastforce
    obtain reps where r: "rle_reps nz z d i = Some reps" "0 < reps" "i + reps \<le> length d" "take (i + reps) d = take i d @ replicate reps v"
      "1 < reps \<Longrightarrow> i + reps < length d \<Longrightarrow> d ! (i + reps) \<noteq> v"
      using rle_reps_ok [OF True small, of nz z] unfolding v_def by blast
    have v: "v < 16" using 1(3) True by (simp add: v_def)
    have len: "length (take i d) + reps \<le> size1" using r(3) 1(8) by simp
    have room: "length toks + reps \<le> T" "length toks + reps \<le> X" using r(3) 1(6,7,9) by simp_all
    have n: "n = 0 \<or> len \<noteq> v" using 1(11) True by (auto simp: v_def)
    show ?thesis
    proof (cases "v = 0")
      case zero: True
      obtain st1 where st1: "from_size (\<lambda>t x. encodeHuffmanTreeRepetitionsZeros t x reps) st = Some st1" "holds T X (toks @ zero_toks reps) st1"
        using from_size_ok [OF 1(5) room, where new = "zero_toks reps", OF zeros_ok] by blast
      obtain n1 len1 where q: "rle_toks size1 (zero_toks reps) (take i d, prev, n, len) = Some (take (i + reps) d, prev, n1, len1)"
        "n1 = 0 \<or> 3 \<le> reps \<and> len1 = 0"
        using zero_toks_read [OF n [unfolded zero] len r(2), of prev] r(4) zero by auto
      have "\<exists>st' toks' prev' n' len'. rle_loop nz z d (i + reps) prev st1 = Some st' \<and> holds T X toks' st' \<and> length toks' \<le> length d \<and>
          rle_toks size1 toks' rle_init = Some (d, prev', n', len') \<and> (\<forall>t\<in>set toks'. tok_ok t)"
      proof (rule 1(1) [OF True r(1) refl])
        show "rle_toks size1 (toks @ zero_toks reps) rle_init = Some (take (i + reps) d, prev, n1, len1)"
          using 1(10) q(1) by (simp add: rle_toks_append)
        show "n1 = 0 \<or> i + reps = length d \<or> len1 \<noteq> d ! (i + reps)" using q(2) r(3,5) zero by fastforce
        show "length (toks @ zero_toks reps) \<le> i + reps" using 1(9) length_zero_toks [of reps] by simp
        show "\<forall>t\<in>set (toks @ zero_toks reps). tok_ok t" using 1(12) toks_ok(1) by auto
      qed (use 1(3,6,7,8) r(3) zero st1 in \<open>simp_all add: v_def\<close>)
      then show ?thesis using True r(1) zero st1(1) by (subst rle_loop.simps) (simp add: v_def [symmetric])
    next
      case nonzero: False
      obtain st1 where st1: "from_size (\<lambda>t x. encodeHuffmanTreeRepetitions t x prev v reps) st = Some st1" "holds T X (toks @ nonzero_toks prev v reps) st1"
        using from_size_ok [OF 1(5) room, where new = "nonzero_toks prev v reps", OF nonzeros_ok [OF r(2)]] by blast
      obtain n1 len1 where q: "rle_toks size1 (nonzero_toks prev v reps) (take i d, prev, n, len) = Some (take (i + reps) d, v, n1, len1)"
        "n1 = 0 \<or> 3 \<le> reps \<and> len1 = v"
        using nonzero_toks_read [OF n len r(2) v nonzero, of prev] r(4) by auto
      have "\<exists>st' toks' prev' n' len'. rle_loop nz z d (i + reps) v st1 = Some st' \<and> holds T X toks' st' \<and> length toks' \<le> length d \<and>
          rle_toks size1 toks' rle_init = Some (d, prev', n', len') \<and> (\<forall>t\<in>set toks'. tok_ok t)"
      proof (rule 1(2) [OF True r(1) v_def])
        show "rle_toks size1 (toks @ nonzero_toks prev v reps) rle_init = Some (take (i + reps) d, v, n1, len1)"
          using 1(10) q(1) by (simp add: rle_toks_append)
        show "n1 = 0 \<or> i + reps = length d \<or> len1 \<noteq> d ! (i + reps)" using q(2) r(3,5) by fastforce
        show "length (toks @ nonzero_toks prev v reps) \<le> i + reps" using 1(9) length_nonzero_toks [OF r(2), of prev v] by simp
        show "\<forall>t\<in>set (toks @ nonzero_toks prev v reps). tok_ok t" using 1(12) toks_ok(2) [OF v] by auto
      qed (use 1(3,6,7,8) r(3) nonzero st1 in \<open>simp_all add: v_def\<close>)
      then show ?thesis using True r(1) nonzero st1(1) by (subst rle_loop.simps) (simp add: v_def [symmetric])
    qed
  next
    case False
    then show ?thesis using 1 by (subst rle_loop.simps) auto
  qed
qed

lemma decideOverRLEUse_total:
  assumes "\<forall>x\<in>set d. x < 256"
  shows "\<exists>r. decideOverRLEUse d = Some r"
proof -
  have "\<exists>r. decide_loop d i a b c e = Some r" for i a b c e
    using assms
  proof (induction d i a b c e rule: decide_loop.induct)
    case (1 d i a b c e)
    show ?case
    proof (cases "i < length d")
      case True
      have f: "findRunEnd d (i + 1) (d ! i) = Some (run_end d (i + 1) (d ! i))" using 1(2) True by (intro findRunEnd_eq) simp_all
      show ?thesis using 1(1) [OF True f refl refl refl refl 1(2)] True f by (subst decide_loop.simps) (simp only: if_True option.case Let_def)
    qed (subst decide_loop.simps, simp)
  qed
  from this [of 0 0 0 1 1] show ?thesis by (auto simp: decideOverRLEUse_def)
qed

lemma trim_zeros_ok:
  "trim_zeros depth n \<le> n" "n \<le> length depth \<Longrightarrow> take n depth = take (trim_zeros depth n) depth @ replicate (n - trim_zeros depth n) 0"
proof -
  show t: "trim_zeros depth n \<le> n" for n by (induction n) auto
  show "n \<le> length depth \<Longrightarrow> take n depth = take (trim_zeros depth n) depth @ replicate (n - trim_zeros depth n) 0"
  proof (induction n)
    case (Suc n)
    then show ?case using t [of n] by (auto simp: take_Suc_conv_app_nth Suc_diff_le replicate_append_same)
  qed simp
qed

lemma trim_zeros_last: "0 < trim_zeros depth n \<Longrightarrow> depth ! (trim_zeros depth n - 1) \<noteq> 0"
  by (induction n) auto

theorem encodeHuffmanTree_read:
  assumes "\<forall>x\<in>set depth. x < 16" and "length depth \<le> length tree" and "length depth \<le> length extra" and "length depth \<le> size1"
  obtains st toks d prev n len where "encodeHuffmanTree depth tree extra = Some st" "holds (length tree) (length extra) toks st"
    "rle_toks size1 toks rle_init = Some (d, prev, n, len)" "depth = d @ replicate (length depth - length d) 0"
    "length toks \<le> length depth" "\<forall>t\<in>set toks. tok_ok t" "d \<noteq> [] \<Longrightarrow> last d \<noteq> 0"
proof -
  define k where "k = trim_zeros depth (length depth)"
  define d where "d = take k depth"
  have k: "k \<le> length depth" "depth = d @ replicate (length depth - k) 0"
    using trim_zeros_ok [where n = "length depth" and depth = depth] by (simp_all add: k_def d_def)
  have small: "\<forall>x\<in>set d. x < 16" using assms(1) by (auto simp: d_def dest: in_set_takeD)
  then have "\<forall>x\<in>set d. x < 256" by fastforce
  then obtain nz z where u: "(if length depth > 50 then decideOverRLEUse d else Some (False, False)) = Some (nz, z)"
    using decideOverRLEUse_total [of d] by (cases "length depth > 50") auto
  have h0: "holds (length tree) (length extra) [] (tree, extra, 0)" by (simp add: holds_def)
  have "length d \<le> length depth" using k(1) by (simp add: d_def)
  moreover have le0: "0 \<le> length d" by simp
  ultimately obtain st toks prev n len where "rle_loop nz z d 0 InitialRepeatedCodeLength (tree, extra, 0) = Some st" "holds (length tree) (length extra) toks st"
    "length toks \<le> length d" "rle_toks size1 toks rle_init = Some (d, prev, n, len)" "\<forall>t\<in>set toks. tok_ok t"
    using rle_loop_ok [OF small le0 h0, where ?size1.0 = size1 and prev = InitialRepeatedCodeLength and n = 0 and len = 0 and nz = nz and z = z]
      assms(2-4) by (auto simp: rle_init_def)
  moreover have "last d \<noteq> 0" if "d \<noteq> []"
  proof -
    have "length d = k" using k(1) by (simp add: d_def)
    then have "0 < k" "last d = depth ! (k - 1)" using that by (auto simp: d_def last_conv_nth)
    then show ?thesis using trim_zeros_last [of depth "length depth"] by (simp add: k_def)
  qed
  ultimately show thesis using that [of st toks d prev n len] u k \<open>length d \<le> length depth\<close>
    by (simp add: encodeHuffmanTree_def Let_def k_def [symmetric] d_def [symmetric]) (simp add: d_def)
qed

end
