(* ===== verification/Huffman_Create.thy ===== *)
theory Huffman_Create
  imports Huffman_Lists "HOL-Library.Multiset"
begin

text \<open>
  Code lengths from counts, \<^verbatim>\<open>createHuffmanTree\<close> and \<^verbatim>\<open>setDepth\<close> of \<^verbatim>\<open>internal/encoder/huffman_encode.go\<close>. The nodes
  live in one array: the sorted leaves, a sentinel, the parents in the order they are made, a sentinel. The two
  queues are the rest of the leaves and the rest of the parents. A run of the loop over the minimum count is one
  \<open>huffman_round\<close>. The array of nodes is scratch memory the caller provides;
  its indices and the symbols, at most 2 * 704, fit the \<^verbatim>\<open>int16\<close> fields of a node.
\<close>

record huffmanTreeNode =
  totalCount :: nat
  left :: int
  rightOrValue :: int

definition leaf_node :: "nat \<Rightarrow> nat \<Rightarrow> huffmanTreeNode" where
  "leaf_node c i = \<lparr>totalCount = c, left = -1, rightOrValue = int i\<rparr>"

definition sentinel :: huffmanTreeNode where
  "sentinel = \<lparr>totalCount = 2 ^ 32 - 1, left = -1, rightOrValue = -1\<rparr>"


subsection \<open>One round\<close>

text \<open>The leaves, last symbol first.\<close>

definition leaf_nodes :: "nat list \<Rightarrow> nat \<Rightarrow> huffmanTreeNode list" where
  "leaf_nodes data countLimit = map (\<lambda>i. leaf_node (max (data ! i) countLimit) i) (filter (\<lambda>i. data ! i \<noteq> 0) (rev [0..<length data]))"

text \<open>The nodes are sorted as 64-bit keys.\<close>

definition sort_key :: "huffmanTreeNode \<Rightarrow> nat" where
  "sort_key x = (let rv = nat (rightOrValue x mod 2 ^ 16) in totalCount x * 2 ^ 32 + ((0x7FFF + 2 ^ 16 - rv) mod 2 ^ 16) * 2 ^ 16 + rv)"

definition unpack_key :: "nat \<Rightarrow> huffmanTreeNode" where
  "unpack_key packed = (let rv = packed mod 2 ^ 16 in
     \<lparr>totalCount = packed div 2 ^ 32, left = -1, rightOrValue = (if rv < 2 ^ 15 then int rv else int rv - 2 ^ 16)\<rparr>)"

definition sort_leaves :: "huffmanTreeNode list \<Rightarrow> huffmanTreeNode list" where
  "sort_leaves xs = map unpack_key (sort (map sort_key xs))"

text \<open>The queue with the smaller head.\<close>

definition pick :: "huffmanTreeNode list \<Rightarrow> nat \<times> nat \<Rightarrow> (nat \<times> nat \<times> nat) option" where
  "pick tree = (\<lambda>(i, j). do {
     a \<leftarrow> go_index tree (int i);
     b \<leftarrow> go_index tree (int j);
     Some (if totalCount a \<le> totalCount b then (i, i + 1, j) else (j, i, j + 1)) })"

definition merge_step :: "nat \<Rightarrow> huffmanTreeNode list \<Rightarrow> nat \<times> nat \<Rightarrow> (huffmanTreeNode list \<times> nat \<times> nat) option" where
  "merge_step jEnd tree q = do {
     (l, q) \<leftarrow> pick tree q;
     (r, q) \<leftarrow> pick tree q;
     a \<leftarrow> go_index tree (int l);
     b \<leftarrow> go_index tree (int r);
     tree \<leftarrow> go_update tree (int jEnd) \<lparr>totalCount = (totalCount a + totalCount b) mod 2 ^ 32, left = int l, rightOrValue = int r\<rparr>;
     tree \<leftarrow> go_update tree (int (jEnd + 1)) sentinel;
     Some (tree, q) }"

fun merge_loop :: "nat \<Rightarrow> nat \<Rightarrow> huffmanTreeNode list \<Rightarrow> nat \<times> nat \<Rightarrow> huffmanTreeNode list option" where
  "merge_loop n 0 tree q = Some tree"
| "merge_loop n (Suc k) tree q = do {
     (tree, q) \<leftarrow> merge_step (2 * n - Suc k) tree q;
     merge_loop n k tree q }"

text \<open>\<^verbatim>\<open>setDepth\<close>: the stack of right siblings still to be visited, -1 for none.\<close>

fun pop_level :: "int list \<Rightarrow> nat \<Rightarrow> nat option" where
  "pop_level stack 0 = (if stack ! 0 = -1 then None else Some 0)"
| "pop_level stack (Suc l) = (if stack ! Suc l = -1 then pop_level stack l else Some (Suc l))"

partial_function (option) depth_loop :: "huffmanTreeNode list \<Rightarrow> nat \<Rightarrow> int \<Rightarrow> nat \<Rightarrow> int list \<Rightarrow> nat list \<Rightarrow> (bool \<times> nat list) option" where
  "depth_loop pool maxDepth p level stack depth =
     Option.bind (go_index pool p) (\<lambda>x.
       if left x \<ge> 0 then
         if level + 1 > maxDepth then Some (False, depth)
         else Option.bind (go_update stack (int (level + 1)) (rightOrValue x)) (\<lambda>stack.
           depth_loop pool maxDepth (left x) (level + 1) stack depth)
       else Option.bind (go_update depth (rightOrValue x) (level mod 2 ^ 8)) (\<lambda>depth.
         case pop_level stack level of
           None \<Rightarrow> Some (True, depth)
         | Some level \<Rightarrow> depth_loop pool maxDepth (stack ! level) level (stack[level := -1]) depth))"

definition setDepth :: "huffmanTreeNode list \<Rightarrow> nat list \<Rightarrow> int \<Rightarrow> nat \<Rightarrow> (bool \<times> nat list) option" where
  "setDepth pool depth p0 maxDepth = (if maxDepth \<le> 15 then depth_loop pool maxDepth p0 0 ((replicate 16 0)[0 := -1]) depth else None)"

text \<open>The first result says that the lengths fit. For no leaves at all the loop over \<open>k\<close> starts at -1 and
  runs until an index is out of range.\<close>

definition huffman_round :: "nat list \<Rightarrow> nat \<Rightarrow> nat \<Rightarrow> huffmanTreeNode list \<Rightarrow> nat list \<Rightarrow> (bool \<times> huffmanTreeNode list \<times> nat list) option" where
  "huffman_round data treeLimit countLimit tree depth = (let leaves = leaf_nodes data countLimit; n = length leaves in
     if length tree < n then None
     else let tree = overwrite tree 0 leaves in
     if n = 0 then None
     else if n = 1 then do {
       depth \<leftarrow> go_update depth (rightOrValue (tree ! 0)) 1;
       Some (True, tree, depth) }
     else if n = 2 then do {
       depth \<leftarrow> go_update depth (rightOrValue (tree ! 0)) 1;
       depth \<leftarrow> go_update depth (rightOrValue (tree ! 1)) 1;
       Some (True, tree, depth) }
     else do {
       let tree = overwrite tree 0 (sort_leaves leaves);
       tree \<leftarrow> go_update tree (int n) sentinel;
       tree \<leftarrow> go_update tree (int (n + 1)) sentinel;
       tree \<leftarrow> merge_loop n (n - 1) tree (0, n + 1);
       (ok, depth) \<leftarrow> setDepth tree depth (int (2 * n - 1)) treeLimit;
       Some (ok, tree, depth) })"

partial_function (option) huffman_rounds :: "nat list \<Rightarrow> nat \<Rightarrow> nat \<Rightarrow> huffmanTreeNode list \<Rightarrow> nat list \<Rightarrow> (huffmanTreeNode list \<times> nat list) option" where
  "huffman_rounds data treeLimit countLimit tree depth =
     Option.bind (huffman_round data treeLimit countLimit tree depth) (\<lambda>(ok, tree, depth).
       if ok then Some (tree, depth) else huffman_rounds data treeLimit (countLimit * 2 mod 2 ^ 32) tree depth)"

definition createHuffmanTree :: "nat list \<Rightarrow> nat \<Rightarrow> huffmanTreeNode list \<Rightarrow> nat list \<Rightarrow> (huffmanTreeNode list \<times> nat list) option" where
  "createHuffmanTree data treeLimit tree depth = huffman_rounds data treeLimit 1 tree depth"


subsection \<open>The trees in the array\<close>

datatype htree = Tip nat | Fork htree htree

fun tips :: "htree \<Rightarrow> nat list" where
  "tips (Tip s) = [s]"
| "tips (Fork l r) = tips l @ tips r"

fun height :: "htree \<Rightarrow> nat" where
  "height (Tip s) = 0"
| "height (Fork l r) = Suc (max (height l) (height r))"

text \<open>\<open>at_node pool e p t\<close>: the tree \<open>t\<close> hangs at \<open>p\<close>, with all its nodes below \<open>e\<close>.\<close>

fun at_node :: "huffmanTreeNode list \<Rightarrow> nat \<Rightarrow> nat \<Rightarrow> htree \<Rightarrow> bool" where
  "at_node pool e p (Tip s) \<longleftrightarrow> p < e \<and> left (pool ! p) = -1 \<and> rightOrValue (pool ! p) = int s"
| "at_node pool e p (Fork l r) \<longleftrightarrow> p < e \<and> (\<exists>a b. left (pool ! p) = int a \<and> rightOrValue (pool ! p) = int b \<and>
     at_node pool e a l \<and> at_node pool e b r)"

lemma at_node_cong: "at_node pool e p t \<Longrightarrow> e \<le> e' \<Longrightarrow> (\<And>k. k < e \<Longrightarrow> pool' ! k = pool ! k) \<Longrightarrow> at_node pool' e' p t"
  by (induction t arbitrary: p) fastforce+

lemma at_node_less: "at_node pool e p t \<Longrightarrow> p < e"
  by (cases t) auto

text \<open>The depths \<open>setDepth\<close> writes.\<close>

fun put_depths :: "htree \<Rightarrow> nat \<Rightarrow> nat list \<Rightarrow> nat list" where
  "put_depths (Tip s) l depth = depth[s := l]"
| "put_depths (Fork a b) l depth = put_depths b (Suc l) (put_depths a (Suc l) depth)"

lemma length_put_depths [simp]: "length (put_depths t l depth) = length depth"
  by (induction t arbitrary: l depth) auto

text \<open>How the walk goes on once a subtree is done.\<close>

definition after :: "huffmanTreeNode list \<Rightarrow> nat \<Rightarrow> nat \<Rightarrow> int list \<Rightarrow> nat list \<Rightarrow> (bool \<times> nat list) option" where
  "after pool maxDepth level stack depth = (case pop_level stack level of
     None \<Rightarrow> Some (True, depth)
   | Some level \<Rightarrow> depth_loop pool maxDepth (stack ! level) level (stack[level := -1]) depth)"

lemma depth_loop_ok:
  assumes "at_node pool e p t" and "e \<le> length pool" and "maxDepth \<le> 15" and "length stack = 16" and "\<forall>s\<in>set (tips t). s < length depth"
    and "level \<le> maxDepth"
  shows "if level + height t \<le> maxDepth
    then \<exists>stack'. length stack' = 16 \<and> (\<forall>k\<le>level. stack' ! k = stack ! k) \<and>
      depth_loop pool maxDepth (int p) level stack depth = after pool maxDepth level stack' (put_depths t level depth)
    else \<exists>depth'. length depth' = length depth \<and> (\<forall>k. k \<notin> set (tips t) \<longrightarrow> depth' ! k = depth ! k) \<and>
      depth_loop pool maxDepth (int p) level stack depth = Some (False, depth')"
  using assms(1,4-6)
proof (induction t arbitrary: p level stack depth)
  case (Tip s)
  have x: "go_index pool (int p) = Some (pool ! p)" using Tip.prems(1) assms(2) by simp
  have u: "go_update depth (int s) (level mod 2 ^ 8) = Some (depth[s := level])" using Tip.prems(3,4) assms(3) by (simp add: go_update_def)
  have "depth_loop pool maxDepth (int p) level stack depth = after pool maxDepth level stack (put_depths (Tip s) level depth)"
    by (subst depth_loop.simps) (use Tip.prems(1) in \<open>simp add: after_def x u [simplified] del: go_index_Some\<close>)
  then show ?case using Tip.prems(2,4) by auto
next
  case (Fork a b)
  obtain l r where n: "left (pool ! p) = int l" "rightOrValue (pool ! p) = int r" "at_node pool e l a" "at_node pool e r b" "p < e"
    using Fork.prems(1) by auto
  have x: "go_index pool (int p) = Some (pool ! p)" using n(5) assms(2) by simp
  show ?case
  proof (cases "level + 1 > maxDepth")
    case True
    have "depth_loop pool maxDepth (int p) level stack depth = Some (False, depth)"
      by (subst depth_loop.simps) (use True n(1) in \<open>simp add: x del: go_index_Some\<close>)
    then show ?thesis using True by auto
  next
    case False
    define st1 where "st1 = stack[level + 1 := int r]"
    have u: "go_update stack (int (level + 1)) (int r) = Some st1" unfolding st1_def
      by (rule go_update_at [OF _ refl]) (use Fork.prems(2) False assms(3) in simp)
    have run: "depth_loop pool maxDepth (int p) level stack depth = depth_loop pool maxDepth (int l) (level + 1) st1 depth"
      by (subst depth_loop.simps) (use False n(1,2) in \<open>simp add: x u [simplified] del: go_index_Some\<close>)
    have len1: "length st1 = 16" using Fork.prems(2) by (simp add: st1_def)
    have L: "level + 1 \<le> maxDepth" using False by simp
    have ta: "\<forall>s\<in>set (tips a). s < length depth" and tb: "\<forall>s\<in>set (tips b). s < length depth" using Fork.prems(3) by simp_all
    note IHa = Fork.IH(1) [OF n(3) len1 ta L]
    show ?thesis
    proof (cases "level + 1 + height a \<le> maxDepth")
      case fa: False
      then show ?thesis using IHa run by auto
    next
      case ga: True
      then obtain st2 where st2: "length st2 = 16" "\<forall>k\<le>level + 1. st2 ! k = st1 ! k"
        "depth_loop pool maxDepth (int l) (level + 1) st1 depth = after pool maxDepth (level + 1) st2 (put_depths a (level + 1) depth)"
        using IHa by auto
      have top: "st2 ! (level + 1) = int r" using st2(2) Fork.prems(2) L assms(3) by (simp add: st1_def)
      define d1 st3 where "d1 = put_depths a (level + 1) depth" and "st3 = st2[level + 1 := -1]"
      have run2: "depth_loop pool maxDepth (int p) level stack depth = depth_loop pool maxDepth (int r) (level + 1) st3 d1"
        unfolding run st2(3) after_def using top by (simp add: d1_def st3_def)
      have len3: "length st3 = 16" using st2(1) by (simp add: st3_def)
      have tb': "\<forall>s\<in>set (tips b). s < length d1" using tb by (simp add: d1_def)
      note IHb = Fork.IH(2) [OF n(4) len3 tb' L]
      show ?thesis
      proof (cases "level + 1 + height b \<le> maxDepth")
        case gb: True
        then obtain st4 where st4: "length st4 = 16" "\<forall>k\<le>level + 1. st4 ! k = st3 ! k"
          "depth_loop pool maxDepth (int r) (level + 1) st3 d1 = after pool maxDepth (level + 1) st4 (put_depths b (level + 1) d1)"
          using IHb by auto
        have "st4 ! (level + 1) = -1" using st4(2) st2(1) L assms(3) by (simp add: st3_def)
        then have "after pool maxDepth (level + 1) st4 = after pool maxDepth level st4" by (simp add: after_def fun_eq_iff)
        moreover have "st4 ! k = stack ! k" if "k \<le> level" for k using that st4(2) st2(2) by (simp add: st3_def st1_def)
        ultimately show ?thesis using ga gb st4(1,3) run2 by (auto simp: d1_def)
      next
        case False
        have same: "d1 ! k = depth ! k" if "k \<notin> set (tips a)" for k
          unfolding d1_def using that
        proof (induction a arbitrary: level depth)
          case (Fork a1 a2)
          then show ?case by auto
        qed auto
        obtain depth' where d': "length depth' = length d1" "\<forall>k. k \<notin> set (tips b) \<longrightarrow> depth' ! k = d1 ! k"
          "depth_loop pool maxDepth (int r) (level + 1) st3 d1 = Some (False, depth')" using IHb False by auto
        then show ?thesis using False same run2 by (auto simp: d1_def)
      qed
    qed
  qed
qed

lemma setDepth_ok:
  assumes "at_node pool e p t" and "e \<le> length pool" and "maxDepth \<le> 15" and "\<forall>s\<in>set (tips t). s < length depth"
  shows "if height t \<le> maxDepth then setDepth pool depth (int p) maxDepth = Some (True, put_depths t 0 depth)
    else \<exists>depth'. length depth' = length depth \<and> (\<forall>k. k \<notin> set (tips t) \<longrightarrow> depth' ! k = depth ! k) \<and>
      setDepth pool depth (int p) maxDepth = Some (False, depth')"
proof -
  define st :: "int list" where "st = (replicate 16 0)[0 := -1]"
  have st: "length st = 16" "st ! 0 = -1" by (simp_all add: st_def)
  have "after pool maxDepth 0 stack' d = Some (True, d)" if "stack' ! 0 = -1" for stack' :: "int list" and d
    using that by (simp add: after_def)
  then show ?thesis using depth_loop_ok [OF assms(1-3) st(1) assms(4), of 0] assms(3) st(2)
    by (auto simp: setDepth_def st_def [symmetric] split: if_splits)
qed


subsection \<open>The lengths form a complete code\<close>

lemma put_depths_other: "k \<notin> set (tips t) \<Longrightarrow> put_depths t l d ! k = d ! k"
  by (induction t arbitrary: l d) auto

lemma put_depths_forget:
  assumes "\<And>k. k \<notin> B \<Longrightarrow> k < length d \<Longrightarrow> d ! k = d' ! k" and "length d = length d'" and "k \<notin> B - set (tips t)" and "k < length d"
  shows "put_depths t l d ! k = put_depths t l d' ! k"
  using assms
proof (induction t arbitrary: l d d' B k)
  case (Tip s)
  then show ?case by (cases "k = s") (auto simp: nth_list_update)
next
  case (Fork a b)
  show ?case unfolding put_depths.simps
  proof (rule Fork.IH(2))
    show "put_depths a (Suc l) d ! m = put_depths a (Suc l) d' ! m"
      if "m \<notin> B - set (tips a)" "m < length (put_depths a (Suc l) d)" for m
      by (rule Fork.IH(1) [OF Fork.prems(1,2) that(1)]) (use that(2) in simp_all)
  qed (use Fork.prems(2-4) in auto)
qed

lemma put_depths_range: "k \<in> set (tips t) \<Longrightarrow> k < length d \<Longrightarrow> l \<le> put_depths t l d ! k \<and> put_depths t l d ! k \<le> l + height t"
proof (induction t arbitrary: l d)
  case (Fork a b)
  show ?case
  proof (cases "k \<in> set (tips b)")
    case True
    then show ?thesis using Fork.IH(2) [of "put_depths a (Suc l) d" "Suc l"] Fork.prems(2) by fastforce
  next
    case False
    then show ?thesis using Fork.IH(1) [of d "Suc l"] Fork.prems by (fastforce simp: put_depths_other)
  qed
qed simp

lemma kraft_update: "s < length d \<Longrightarrow> d ! s = 0 \<Longrightarrow> 1 \<le> l \<Longrightarrow> kraft (d[s := l]) = kraft d + 2 ^ (15 - l)"
proof (induction d arbitrary: s)
  case (Cons x d)
  then show ?case by (cases s) (auto simp: kraft_def)
qed simp

lemma kraft_put_depths:
  assumes "distinct (tips t)" and "\<forall>s\<in>set (tips t). s < length d \<and> d ! s = 0" and "1 \<le> l" and "l + height t \<le> 15"
  shows "kraft (put_depths t l d) = kraft d + 2 ^ (15 - l)"
  using assms
proof (induction t arbitrary: l d)
  case (Tip s)
  then show ?case by (simp add: kraft_update)
next
  case (Fork a b)
  define d1 where "d1 = put_depths a (Suc l) d"
  have l: "Suc l + height a \<le> 15" "Suc l + height b \<le> 15" using Fork.prems(4) by simp_all
  have "kraft d1 = kraft d + 2 ^ (15 - Suc l)" unfolding d1_def using Fork.IH(1) [OF _ _ _ l(1)] Fork.prems by simp
  moreover have "kraft (put_depths b (Suc l) d1) = kraft d1 + 2 ^ (15 - Suc l)"
  proof (rule Fork.IH(2) [OF _ _ _ l(2)])
    show "\<forall>s\<in>set (tips b). s < length d1 \<and> d1 ! s = 0"
    proof
      fix s assume s: "s \<in> set (tips b)"
      then have "s \<notin> set (tips a)" using Fork.prems(1) by auto
      then show "s < length d1 \<and> d1 ! s = 0" using Fork.prems(2) s by (simp add: d1_def put_depths_other)
    qed
  qed (use Fork.prems in simp_all)
  moreover have "15 - l = Suc (15 - Suc l)" using Fork.prems(4) by simp
  ultimately show ?case by (simp add: d1_def)
qed

lemma put_depths_complete:
  assumes "distinct (tips (Fork a b))" and "\<forall>s\<in>set (tips (Fork a b)). s < length d" and "height (Fork a b) \<le> 15"
    and "\<forall>k<length d. k \<notin> set (tips (Fork a b)) \<longrightarrow> d ! k = 0"
  shows "complete (put_depths (Fork a b) 0 d)"
    and "k < length d \<Longrightarrow> put_depths (Fork a b) 0 d ! k = 0 \<longleftrightarrow> k \<notin> set (tips (Fork a b))"
    and "k < length d \<Longrightarrow> put_depths (Fork a b) 0 d ! k \<le> height (Fork a b)"
proof -
  define z where "z = replicate (length d) (0::nat)"
  define t where "t = Fork a b"
  have len: "length z = length d" by (simp add: z_def)
  have same: "put_depths t 0 d ! k = put_depths t 0 z ! k" if "k < length d" for k
  proof (cases "k \<in> set (tips t)")
    case True
    then show ?thesis by (intro put_depths_forget [where B = UNIV]) (use len that in simp_all)
  next
    case False
    then show ?thesis using assms(4) that by (simp add: put_depths_other z_def t_def)
  qed
  then have eq: "put_depths t 0 d = put_depths t 0 z" by (intro nth_equalityI) (simp_all add: len)
  have D: "distinct (tips a)" "distinct (tips b)" "set (tips a) \<inter> set (tips b) = {}" using assms(1) by simp_all
  have H: "1 + height a \<le> 15" "1 + height b \<le> 15" using assms(3) by simp_all
  have R: "\<forall>s\<in>set (tips a). s < length z \<and> z ! s = 0" using assms(2) by (simp add: z_def)
  have "kraft z = 0" by (simp add: z_def kraft_def sum_list_replicate)
  moreover have "kraft (put_depths a 1 z) = kraft z + 2 ^ (15 - 1)"
    by (rule kraft_put_depths [OF D(1) R order_refl H(1)])
  moreover have "kraft (put_depths b 1 (put_depths a 1 z)) = kraft (put_depths a 1 z) + 2 ^ (15 - 1)"
  proof (rule kraft_put_depths [OF D(2) _ order_refl H(2)])
    show "\<forall>s\<in>set (tips b). s < length (put_depths a 1 z) \<and> put_depths a 1 z ! s = 0"
    proof
      fix s assume s: "s \<in> set (tips b)"
      then have "s \<notin> set (tips a)" "s < length d" using assms(1,2) by auto
      then show "s < length (put_depths a 1 z) \<and> put_depths a 1 z ! s = 0" by (simp add: put_depths_other z_def)
    qed
  qed
  ultimately have k: "kraft (put_depths t 0 z) = 2 ^ 15" by (simp add: t_def)
  have r: "put_depths t 0 z ! k \<le> height t \<and> (put_depths t 0 z ! k = 0 \<longleftrightarrow> k \<notin> set (tips t))" if k: "k < length d" for k
  proof (cases "k \<in> set (tips b)")
    case True
    then show ?thesis using put_depths_range [of k b "put_depths a 1 z" 1] k len by (auto simp: t_def)
  next
    case nb: False
    show ?thesis
    proof (cases "k \<in> set (tips a)")
      case True
      then show ?thesis using put_depths_range [of k a z 1] k len nb by (auto simp: t_def put_depths_other)
    next
      case False
      then show ?thesis using nb k by (simp add: t_def put_depths_other z_def)
    qed
  qed
  have "x \<le> 15" if x: "x \<in> set (put_depths t 0 z)" for x
  proof -
    obtain k where "k < length d" "x = put_depths t 0 z ! k" using x len by (auto simp: in_set_conv_nth)
    then show ?thesis using r [of k] assms(3) unfolding t_def [symmetric] by linarith
  qed
  then show "complete (put_depths (Fork a b) 0 d)" using k unfolding t_def [symmetric] eq complete_def by blast
  show "k < length d \<Longrightarrow> put_depths (Fork a b) 0 d ! k = 0 \<longleftrightarrow> k \<notin> set (tips (Fork a b))"
    "k < length d \<Longrightarrow> put_depths (Fork a b) 0 d ! k \<le> height (Fork a b)"
    using r [of k] unfolding t_def [symmetric] eq by blast+
qed


subsection \<open>Merging\<close>

text \<open>The heads of the trees not merged yet, when the next parent will stand at \<open>e\<close>.\<close>

definition roots :: "nat \<Rightarrow> nat \<Rightarrow> nat \<times> nat \<Rightarrow> nat list" where
  "roots n e = (\<lambda>(i, j). [i..<n] @ [j..<e])"

definition queue_ok :: "nat \<Rightarrow> huffmanTreeNode list \<Rightarrow> nat \<Rightarrow> nat \<times> nat \<Rightarrow> bool" where
  "queue_ok n tree e q \<longleftrightarrow> fst q \<le> n \<and> n < snd q \<and> snd q \<le> e \<and> e < length tree \<and> tree ! n = sentinel \<and> tree ! e = sentinel \<and>
     (\<forall>p\<in>set (roots n e q). totalCount (tree ! p) < 2 ^ 32 - 1)"

text \<open>With equal leaves, the leaves go first.\<close>

definition leaves_first :: "nat \<Rightarrow> huffmanTreeNode list \<Rightarrow> nat \<Rightarrow> nat \<times> nat \<Rightarrow> bool" where
  "leaves_first n tree e q \<longleftrightarrow> (\<exists>c. (\<forall>p\<in>{fst q..<n}. totalCount (tree ! p) = c) \<and> (\<forall>p\<in>set (roots n e q). c \<le> totalCount (tree ! p)))"

lemma pick_ok:
  assumes "queue_ok n tree e q" and "roots n e q \<noteq> []"
  shows "\<exists>p q'. pick tree q = Some (p, q') \<and> p \<in> set (roots n e q) \<and> mset (roots n e q) = add_mset p (mset (roots n e q')) \<and>
    queue_ok n tree e q' \<and> (leaves_first n tree e q \<longrightarrow> roots n e q = p # roots n e q' \<and> leaves_first n tree e q')"
proof -
  obtain i j where q: "q = (i, j)" by fastforce
  note Q = assms(1) [unfolded queue_ok_def q, simplified]
  have ne: "i < n \<or> j < e" using assms(2) by (auto simp: roots_def q)
  have x: "go_index tree (int i) = Some (tree ! i)" "go_index tree (int j) = Some (tree ! j)" using Q by simp_all
  have ui: "[i..<n] = i # [i + 1..<n]" if "i < n" using that by (simp add: upt_conv_Cons)
  have uj: "[j..<e] = j # [j + 1..<e]" if "j < e" using that by (simp add: upt_conv_Cons)
  show ?thesis
  proof (cases "totalCount (tree ! i) \<le> totalCount (tree ! j)")
    case True
    have i: "i < n"
    proof (rule ccontr)
      assume "\<not> i < n"
      then have e: "i = n" "j < e" using Q ne by auto
      then have "totalCount (tree ! j) < 2 ^ 32 - 1" using assms(1) by (simp add: queue_ok_def roots_def q)
      then show False using True Q e(1) by (simp add: sentinel_def)
    qed
    have r: "roots n e q = i # roots n e (i + 1, j)" using ui [OF i] by (simp add: roots_def q)
    have "pick tree q = Some (i, i + 1, j)" unfolding pick_def q prod.case x Option.bind.bind_lunit using True by simp
    moreover have "queue_ok n tree e (i + 1, j)" using assms(1) i r by (auto simp: queue_ok_def q)
    moreover have "leaves_first n tree e (i + 1, j)" if "leaves_first n tree e q" using that r by (auto simp: leaves_first_def q)
    ultimately show ?thesis using r by auto
  next
    case False
    have j: "j < e"
    proof (rule ccontr)
      assume "\<not> j < e"
      then have e: "j = e" "i < n" using Q ne by auto
      then have "totalCount (tree ! i) < 2 ^ 32 - 1" using assms(1) by (simp add: queue_ok_def roots_def q)
      then show False using False Q e(1) by (simp add: sentinel_def)
    qed
    have r: "mset (roots n e q) = add_mset j (mset (roots n e (i, j + 1)))" using uj [OF j] by (simp add: roots_def q)
    have s: "set (roots n e (i, j + 1)) \<subseteq> set (roots n e q)" "j \<in> set (roots n e q)" using uj [OF j] by (auto simp: roots_def q)
    have "pick tree q = Some (j, i, j + 1)" unfolding pick_def q prod.case x Option.bind.bind_lunit using False by simp
    moreover have "queue_ok n tree e (i, j + 1)" using assms(1) j s(1) by (auto simp: queue_ok_def q)
    moreover have "roots n e q = j # roots n e (i, j + 1) \<and> leaves_first n tree e (i, j + 1)" if lf: "leaves_first n tree e q"
    proof -
      have "\<not> i < n" using lf False s(2) by (force simp: leaves_first_def q)
      then show ?thesis using lf s(1) uj [OF j] by (force simp: leaves_first_def roots_def q)
    qed
    ultimately show ?thesis using r s(2) by auto
  qed
qed

definition forest :: "nat \<Rightarrow> huffmanTreeNode list \<Rightarrow> nat \<Rightarrow> nat \<times> nat \<Rightarrow> (nat \<Rightarrow> htree) \<Rightarrow> nat multiset \<Rightarrow> bool" where
  "forest n tree e q f used \<longleftrightarrow> queue_ok n tree e q \<and> 2 * n < length tree \<and> length (roots n e q) + e = 2 * n + 1 \<and>
     (\<forall>p\<in>set (roots n e q). at_node tree e p (f p)) \<and> sum_list (map (\<lambda>p. totalCount (tree ! p)) (roots n e q)) < 2 ^ 32 - 1 \<and>
     mset (concat (map (\<lambda>p. tips (f p)) (roots n e q))) = used \<and> (e = n + 1 \<or> snd q < e)"

lemma mset_concat_map: "mset (concat (map f xs)) = \<Sum>\<^sub># (image_mset (\<lambda>x. mset (f x)) (mset xs))"
  by (induction xs) simp_all

lemma merge_step_ok:
  assumes "forest n tree e q f used" and "e < 2 * n"
  shows "\<exists>tree' q' l r rest. merge_step e tree q = Some (tree', q') \<and> length tree' = length tree \<and>
    forest n tree' (e + 1) q' (f(e := Fork (f l) (f r))) used \<and>
    (leaves_first n tree e q \<longrightarrow> roots n e q = l # r # rest \<and> roots n (e + 1) q' = rest @ [e] \<and> e \<notin> set rest \<and> leaves_first n tree' (e + 1) q')"
proof -
  note F = assms(1) [unfolded forest_def]
  have len: "2 \<le> length (roots n e q)" using F assms(2) by linarith
  have ne: "roots n e q \<noteq> []" using len by (cases "roots n e q") simp_all
  have Q0: "queue_ok n tree e q" using F by simp
  obtain l q1 where l: "pick tree q = Some (l, q1)" "l \<in> set (roots n e q)" "mset (roots n e q) = add_mset l (mset (roots n e q1))"
    "queue_ok n tree e q1" "leaves_first n tree e q \<Longrightarrow> roots n e q = l # roots n e q1 \<and> leaves_first n tree e q1"
    using pick_ok [OF Q0 ne] by blast
  have "size (mset (roots n e q)) = Suc (length (roots n e q1))" unfolding l(3) by simp
  then have ne1: "roots n e q1 \<noteq> []" using len by auto
  obtain r q2 where r: "pick tree q1 = Some (r, q2)" "r \<in> set (roots n e q1)" "mset (roots n e q1) = add_mset r (mset (roots n e q2))"
    "queue_ok n tree e q2" "leaves_first n tree e q1 \<Longrightarrow> roots n e q1 = r # roots n e q2 \<and> leaves_first n tree e q2"
    using pick_ok [OF l(4) ne1] by blast
  have ms: "mset (roots n e q) = add_mset l (add_mset r (mset (roots n e q2)))" using l(3) r(3) by simp
  then have st: "set (roots n e q) = insert l (insert r (set (roots n e q2)))" by (metis set_mset_add_mset_insert set_mset_mset)
  have below: "p < e \<and> p \<noteq> n" if "p \<in> set (roots n e q)" for p using that Q0 by (auto simp: roots_def queue_ok_def split: prod.splits)
  have e: "e + 1 < length tree" "n < e" using F assms(2) Q0 by (auto simp: queue_ok_def)
  define x where "x = \<lparr>totalCount = totalCount (tree ! l) + totalCount (tree ! r), left = int l, rightOrValue = int r\<rparr>"
  define tree' where "tree' = (tree[e := x])[e + 1 := sentinel]"
  have old: "tree' ! p = tree ! p" if "p < e" for p using that by (simp add: tree'_def)
  have new: "tree' ! e = x" "tree' ! (e + 1) = sentinel" "length tree' = length tree" using e by (simp_all add: tree'_def)
  have sum: "sum_list (map (\<lambda>p. totalCount (tree ! p)) (roots n e q)) =
      totalCount (tree ! l) + totalCount (tree ! r) + sum_list (map (\<lambda>p. totalCount (tree ! p)) (roots n e q2))"
    using arg_cong [OF ms, of "\<lambda>m. \<Sum>\<^sub># (image_mset (\<lambda>p. totalCount (tree ! p)) m)"] by (simp flip: sum_mset_sum_list mset_map)
  have small: "totalCount (tree ! l) + totalCount (tree ! r) < 2 ^ 32 - 1" using sum F by linarith
  have m: "(totalCount (tree ! l) + totalCount (tree ! r)) mod 2 ^ 32 = totalCount (tree ! l) + totalCount (tree ! r)" using small by simp
  have g: "go_index tree (int l) = Some (tree ! l)" "go_index tree (int r) = Some (tree ! r)"
    using below [of l] below [of r] e(1) st by simp_all
  have u: "go_update tree (int e) x = Some (tree[e := x])" "go_update (tree[e := x]) (int (e + 1)) sentinel = Some tree'"
    unfolding tree'_def by (rule go_update_at [OF _ refl], use e in simp)+
  have run: "merge_step e tree q = Some (tree', q2)"
    unfolding merge_step_def l(1) Option.bind.bind_lunit prod.case r(1) g m x_def [symmetric] u ..
  obtain i j where q2: "q2 = (i, j)" by fastforce
  have je: "j \<le> e" using r(4) by (simp add: queue_ok_def q2)
  have rt: "roots n (e + 1) q2 = roots n e q2 @ [e]" using je by (simp add: roots_def q2)
  have sub: "set (roots n e q2) \<subseteq> set (roots n e q)" using st by auto
  have cnt: "totalCount (tree' ! p) < 2 ^ 32 - 1" if "p \<in> set (roots n (e + 1) q2)" for p
  proof (cases "p = e")
    case True
    then show ?thesis using small new(1) by (simp add: x_def)
  next
    case False
    then have "p \<in> set (roots n e q2)" using that rt by simp
    then show ?thesis using r(4) old [of p] below [of p] sub by (auto simp: queue_ok_def)
  qed
  have Q2: "queue_ok n tree' (e + 1) q2"
    using r(4) e new old cnt by (auto simp: queue_ok_def)
  have at: "at_node tree' (e + 1) p (f p)" if "p \<in> set (roots n e q)" for p
    by (rule at_node_cong [of tree e]) (use F that old in auto)
  define f' where "f' = f(e := Fork (f l) (f r))"
  have f': "f' p = f p" if "p \<in> set (roots n e q)" for p using below [OF that] by (simp add: f'_def)
  have mp: "map (\<lambda>p. g' p) (roots n e q2) = map g (roots n e q2)" if "\<And>p. p \<in> set (roots n e q) \<Longrightarrow> g' p = g p" for g g' :: "nat \<Rightarrow> 'b"
    using that sub by (intro map_cong refl) auto
  have us: "mset (concat (map (\<lambda>p. tips (f p)) (roots n e q))) = mset (tips (f l)) + mset (tips (f r)) +
      mset (concat (map (\<lambda>p. tips (f p)) (roots n e q2)))" unfolding mset_concat_map ms by simp
  have "forest n tree' (e + 1) q2 f' used" unfolding forest_def
  proof (intro conjI)
    show "length (roots n (e + 1) q2) + (e + 1) = 2 * n + 1" using arg_cong [OF ms, of size] F rt by simp
    show "\<forall>p\<in>set (roots n (e + 1) q2). at_node tree' (e + 1) p (f' p)"
    proof
      fix p assume "p \<in> set (roots n (e + 1) q2)"
      then consider "p \<in> set (roots n e q)" | "p = e" using rt sub by auto
      then show "at_node tree' (e + 1) p (f' p)"
      proof cases
        case 2
        then show ?thesis using new(1) at [of l] at [of r] st by (simp add: f'_def x_def)
      qed (use at f' in simp)
    qed
    have mt: "map (\<lambda>p. totalCount (tree' ! p)) (roots n e q2) = map (\<lambda>p. totalCount (tree ! p)) (roots n e q2)"
      by (rule mp) (use below old in simp)
    have "sum_list (map (\<lambda>p. totalCount (tree' ! p)) (roots n (e + 1) q2)) = sum_list (map (\<lambda>p. totalCount (tree ! p)) (roots n e q))"
      unfolding rt map_append sum_list_append mt sum by (simp add: new(1) x_def)
    then show "sum_list (map (\<lambda>p. totalCount (tree' ! p)) (roots n (e + 1) q2)) < 2 ^ 32 - 1" using F by simp
    have mf: "map (\<lambda>p. tips (f' p)) (roots n e q2) = map (\<lambda>p. tips (f p)) (roots n e q2)" by (rule mp) (use f' in simp)
    have "mset (concat (map (\<lambda>p. tips (f' p)) (roots n (e + 1) q2))) = mset (concat (map (\<lambda>p. tips (f p)) (roots n e q)))"
      unfolding rt map_append concat_append mset_append mf us by (simp add: f'_def)
    then show "mset (concat (map (\<lambda>p. tips (f' p)) (roots n (e + 1) q2))) = used" using F by simp
  qed (use Q2 F new(3) je q2 in auto)
  moreover have "roots n e q = l # r # roots n e q2 \<and> roots n (e + 1) q2 = roots n e q2 @ [e] \<and> e \<notin> set (roots n e q2) \<and>
      leaves_first n tree' (e + 1) q2" if lf: "leaves_first n tree e q"
  proof -
    have r2: "roots n e q = l # r # roots n e q2" "leaves_first n tree e q2" using l(5) [OF lf] r(5) by auto
    obtain c where c: "\<forall>p\<in>{i..<n}. totalCount (tree ! p) = c" "\<forall>p\<in>set (roots n e q2). c \<le> totalCount (tree ! p)"
      using r2(2) by (auto simp: leaves_first_def q2)
    obtain c0 where c0: "\<forall>p\<in>{fst q..<n}. totalCount (tree ! p) = c0" "\<forall>p\<in>set (roots n e q). c0 \<le> totalCount (tree ! p)"
      using lf by (auto simp: leaves_first_def)
    have "fst q \<le> i"
    proof (cases "i < n")
      case True
      then have "i \<in> set (roots n e q)" using sub by (auto simp: roots_def q2)
      then show ?thesis using True Q0 by (auto simp: roots_def queue_ok_def split: prod.splits)
    next
      case False
      then show ?thesis using Q0 r(4) by (simp add: queue_ok_def q2)
    qed
    then have "leaves_first n tree' (e + 1) q2" unfolding leaves_first_def
      by (intro exI [of _ c0]) (use c0 old new(1) e below sub rt q2 st in \<open>auto simp: x_def subset_iff\<close>)
    then show ?thesis using r2 rt below sub by auto
  qed
  ultimately show ?thesis using run new(3) unfolding f'_def by blast
qed

text \<open>A queue of trees of two neighbouring heights; with the leaves of one weight, merging its two first trees
  keeps it one, so \<open>2 ^ L\<close> leaves fit in a tree of height \<open>L\<close>.\<close>

definition fifo :: "nat \<Rightarrow> htree list \<Rightarrow> bool" where
  "fifo L ts \<longleftrightarrow> (\<exists>h p r. ts = p @ r \<and> (\<forall>t\<in>set p. height t \<le> h) \<and> (\<forall>t\<in>set r. height t \<le> Suc h) \<and>
     length p + 2 * length r \<le> 2 ^ (L - h) \<and> h \<le> L)"

lemma fifo_up:
  assumes "\<forall>t\<in>set r. height t \<le> Suc h" and "height x \<le> Suc (Suc h)" and "length r + 1 < 2 ^ (L - h)" and "2 * length r + 3 \<le> 2 ^ (L - h)"
  shows "fifo L (r @ [x])"
proof -
  have "L - h \<noteq> 0" using assms(4) by (intro notI) simp
  then have d: "L - h = Suc (L - Suc h)" "Suc h \<le> L" by simp_all
  have "length r + 2 \<le> 2 ^ (L - Suc h)" using assms(4) unfolding d(1) by simp
  then show ?thesis unfolding fifo_def by (intro exI [of _ "Suc h"] exI [of _ r] exI [of _ "[x]"]) (use assms d in simp)
qed

lemma fifo_step: "fifo L (a # b # ts) \<Longrightarrow> fifo L (ts @ [Fork a b])"
proof -
  assume "fifo L (a # b # ts)"
  then obtain h p r where f: "a # b # ts = p @ r" "\<forall>t\<in>set p. height t \<le> h" "\<forall>t\<in>set r. height t \<le> Suc h"
    "length p + 2 * length r \<le> 2 ^ (L - h)" "h \<le> L" unfolding fifo_def by blast
  consider p' where "p = a # b # p'" "ts = p' @ r" | "p = [a]" "r = b # ts" | "p = []" "r = a # b # ts"
    using f(1) by (auto simp: Cons_eq_append_conv)
  then show ?thesis
  proof cases
    case 1
    then show ?thesis unfolding fifo_def using f by (intro exI [of _ h] exI [of _ p'] exI [of _ "r @ [Fork a b]"]) auto
  next
    case 2
    then have "2 * length ts + 3 \<le> 2 ^ (L - h)" using f(4) by simp
    then show ?thesis using 2 f(2,3) by (intro fifo_up [where h = h]) auto
  next
    case 3
    then have "2 * length ts + 4 \<le> 2 ^ (L - h)" using f(4) by simp
    then show ?thesis using 3 f(2,3) by (intro fifo_up [where h = h]) auto
  qed
qed

lemma fifo_end: "fifo L [t] \<Longrightarrow> height t \<le> L"
proof -
  assume "fifo L [t]"
  then obtain h p r where f: "[t] = p @ r" "\<forall>t\<in>set p. height t \<le> h" "\<forall>t\<in>set r. height t \<le> Suc h"
    "length p + 2 * length r \<le> 2 ^ (L - h)" "h \<le> L" unfolding fifo_def by blast
  show ?thesis
  proof (cases p)
    case Nil
    then have "2 \<le> (2::nat) ^ (L - h)" "height t \<le> Suc h" using f by auto
    moreover from this have "L - h \<noteq> 0" by (intro notI) simp
    ultimately show ?thesis by simp
  qed (use f in auto)
qed

lemma merge_loop_ok:
  assumes "forest n tree (2 * n - k) q f used" and "k \<le> 2 * n"
  shows "\<exists>tree' q' f'. merge_loop n k tree q = Some tree' \<and> length tree' = length tree \<and> forest n tree' (2 * n) q' f' used \<and>
    (leaves_first n tree (2 * n - k) q \<longrightarrow> fifo L (map f (roots n (2 * n - k) q)) \<longrightarrow> fifo L (map f' (roots n (2 * n) q')))"
  using assms
proof (induction k arbitrary: tree q f)
  case (Suc k)
  define e where "e = 2 * n - Suc k"
  have e: "e < 2 * n" "2 * n - k = e + 1" using Suc.prems(2) by (simp_all add: e_def)
  obtain tree1 q1 l r rest where st: "merge_step e tree q = Some (tree1, q1)" "length tree1 = length tree"
    "forest n tree1 (e + 1) q1 (f(e := Fork (f l) (f r))) used"
    "leaves_first n tree e q \<Longrightarrow> roots n e q = l # r # rest \<and> roots n (e + 1) q1 = rest @ [e] \<and> e \<notin> set rest \<and> leaves_first n tree1 (e + 1) q1"
    using merge_step_ok [OF Suc.prems(1) [folded e_def] e(1)] by blast
  obtain tree' q' f' where ih: "merge_loop n k tree1 q1 = Some tree'" "length tree' = length tree1" "forest n tree' (2 * n) q' f' used"
    "leaves_first n tree1 (e + 1) q1 \<Longrightarrow> fifo L (map (f(e := Fork (f l) (f r))) (roots n (e + 1) q1)) \<Longrightarrow> fifo L (map f' (roots n (2 * n) q'))"
    using Suc.IH [unfolded e(2), OF st(3)] Suc.prems(2) by (metis Suc_leD)
  have "fifo L (map f' (roots n (2 * n) q'))" if lf: "leaves_first n tree e q" "fifo L (map f (roots n e q))"
  proof -
    have "map (f(e := Fork (f l) (f r))) (roots n (e + 1) q1) = map f rest @ [Fork (f l) (f r)]" using st(4) [OF lf(1)] by auto
    then show ?thesis using ih(4) st(4) [OF lf(1)] fifo_step [of L "f l" "f r" "map f rest"] lf(2) by simp
  qed
  moreover have "merge_loop n (Suc k) tree q = Some tree'" using st(1) ih(1) by (simp add: e_def)
  moreover have "length tree' = length tree" using st(2) ih(2) by simp
  ultimately show ?case unfolding e_def [symmetric] using ih(3) by blast
qed auto

lemma forest_end:
  assumes "forest n tree (2 * n) q f used" and "2 \<le> n"
  shows "roots n (2 * n) q = [2 * n - 1]"
proof -
  have j: "snd q < 2 * n" "length (roots n (2 * n) q) = 1" using assms by (auto simp: forest_def)
  obtain i j where q: "q = (i, j)" by fastforce
  have "2 * n - 1 \<in> set [j..<2 * n]" using j(1) by (auto simp: q)
  then have "2 * n - 1 \<in> set (roots n (2 * n) q)" by (simp only: q roots_def prod.case set_append) simp
  then show ?thesis using j(2) by (cases "roots n (2 * n) q") simp_all
qed


subsection \<open>Sorting\<close>

lemma unpack_sort_key: "c < 2 ^ 32 \<Longrightarrow> i < 2 ^ 15 \<Longrightarrow> unpack_key (sort_key (leaf_node c i)) = leaf_node c i"
proof -
  assume i: "c < 2 ^ 32" "i < 2 ^ 15"
  have rv: "nat (int i mod 2 ^ 16) = i" using i(2) by (simp add: nat_mod_distrib)
  define m where "m = (0x7FFF + 2 ^ 16 - i) mod 2 ^ 16"
  have m: "m < 2 ^ 16" by (simp add: m_def)
  have k: "sort_key (leaf_node c i) = c * 2 ^ 32 + (m * 2 ^ 16 + i)" 
    unfolding sort_key_def leaf_node_def Let_def by (simp only: huffmanTreeNode.simps rv m_def)
  have s: "m * 2 ^ 16 + i < 2 ^ 32" using m i(2) by simp
  have "sort_key (leaf_node c i) div 2 ^ 32 = c" unfolding k using s by simp
  moreover have "sort_key (leaf_node c i) mod 2 ^ 16 = i"
  proof -
    have "c * 2 ^ 32 + (m * 2 ^ 16 + i) = i + (c * 2 ^ 16 + m) * 2 ^ 16" by simp
    then show ?thesis unfolding k using i(2) by (simp only: mod_mult_self1) simp
  qed
  ultimately show ?thesis using i(2) by (simp add: unpack_key_def leaf_node_def)
qed

lemma sort_leaves_mset:
  assumes "\<And>x. x \<in> set xs \<Longrightarrow> \<exists>c<2 ^ 32. \<exists>i<2 ^ 15. x = leaf_node c i"
  shows "mset (sort_leaves xs) = mset xs"
proof -
  have "unpack_key (sort_key x) = x" if "x \<in> set xs" for x using assms [OF that] unpack_sort_key by blast
  then have "map (\<lambda>x. unpack_key (sort_key x)) xs = xs" by (simp add: map_idI)
  then have "image_mset (\<lambda>x. unpack_key (sort_key x)) (mset xs) = mset xs" by (simp only: mset_map [symmetric])
  then show ?thesis by (simp add: sort_leaves_def multiset.map_comp comp_def)
qed


subsection \<open>A round\<close>

definition used_symbols :: "nat list \<Rightarrow> nat list" where
  "used_symbols data = filter (\<lambda>i. data ! i \<noteq> 0) [0..<length data]"

lemma leaf_nodes_used: "leaf_nodes data cl = map (\<lambda>i. leaf_node (max (data ! i) cl) i) (rev (used_symbols data))"
  by (simp only: leaf_nodes_def used_symbols_def rev_filter)

lemma used_symbols: "i \<in> set (used_symbols data) \<longleftrightarrow> i < length data \<and> data ! i \<noteq> 0" "distinct (used_symbols data)"
  by (auto simp: used_symbols_def)

lemma length_used: "length (used_symbols data) \<le> length data"
  using length_filter_le [of "\<lambda>i. data ! i \<noteq> 0" "[0..<length data]"] by (simp add: used_symbols_def)

text \<open>What the depths mean in the end.\<close>

definition depths_of :: "nat list \<Rightarrow> nat \<Rightarrow> nat list \<Rightarrow> bool" where
  "depths_of data treeLimit depth \<longleftrightarrow> complete (take (length data) depth) \<and>
     (\<forall>k<length data. (depth ! k = 0 \<longleftrightarrow> data ! k = 0) \<and> depth ! k \<le> treeLimit)"

lemma take_put_depths: "\<forall>s\<in>set (tips t). s < m \<Longrightarrow> take m (put_depths t l d) = put_depths t l (take m d)"
  by (induction t arbitrary: l d) (simp_all add: take_update_swap)

lemma put_depths_of:
  assumes "mset (tips t) = mset (used_symbols data)" and "2 \<le> length (used_symbols data)" and "length data \<le> length depth"
    and "\<forall>k<length data. data ! k = 0 \<longrightarrow> depth ! k = 0" and "height t \<le> treeLimit" and "treeLimit \<le> 15"
  shows "depths_of data treeLimit (put_depths t 0 depth)"
proof -
  have len: "length (tips t) = length (used_symbols data)" using mset_eq_length [OF assms(1)] .
  obtain a b where t: "t = Fork a b" using assms(2) len by (cases t) auto
  have tips: "s \<in> set (tips t) \<longleftrightarrow> s < length data \<and> data ! s \<noteq> 0" for s using mset_eq_setD [OF assms(1)] used_symbols(1) by auto
  have d: "distinct (tips t)" using assms(1) used_symbols(2) by (metis mset_eq_imp_distinct_iff)
  define d0 where "d0 = take (length data) depth"
  have l0: "length d0 = length data" using assms(3) by (simp add: d0_def)
  have tk: "take (length data) (put_depths t 0 depth) = put_depths t 0 d0" unfolding d0_def by (rule take_put_depths) (use tips in simp)
  note C = put_depths_complete [OF d [unfolded t], of d0]
  have in_range: "\<forall>s\<in>set (tips (Fork a b)). s < length d0" using tips l0 by (simp add: t [symmetric])
  have h: "height (Fork a b) \<le> 15" using assms(5,6) by (simp only: t [symmetric])
  have z: "\<forall>k<length d0. k \<notin> set (tips (Fork a b)) \<longrightarrow> d0 ! k = 0" unfolding t [symmetric] tips using assms(4) l0 by (simp add: d0_def)
  have nth: "put_depths t 0 depth ! k = put_depths t 0 d0 ! k" if "k < length data" for k
    using arg_cong [OF tk, of "\<lambda>xs. xs ! k"] that by simp
  show ?thesis unfolding depths_of_def
  proof (intro conjI allI impI)
    show "complete (take (length data) (put_depths t 0 depth))" unfolding tk unfolding t by (rule C(1) [OF in_range h z])
    fix k assume k: "k < length data"
    show "(put_depths t 0 depth ! k = 0) = (data ! k = 0)" unfolding nth [OF k] using C(2) [OF in_range h z, of k] k l0 tips [of k] by (auto simp: t)
    show "put_depths t 0 depth ! k \<le> treeLimit" unfolding nth [OF k] using C(3) [OF in_range h z, of k] k l0 assms(5) by (simp add: t)
  qed
qed

lemma huffman_round_ok:
  assumes "length data \<le> 704" and "n = length (used_symbols data)" and "2 \<le> n" and "2 * n < length tree" and "length data \<le> length depth"
    and "\<forall>k<length data. data ! k = 0 \<longrightarrow> depth ! k = 0" and "1 \<le> treeLimit" and "treeLimit \<le> 15"
    and "sum_list (map (\<lambda>i. max (data ! i) cl) (used_symbols data)) < 2 ^ 32 - 1"
  shows "\<exists>ok tree' depth'. huffman_round data treeLimit cl tree depth = Some (ok, tree', depth') \<and> length tree' = length tree \<and>
    length depth' = length depth \<and> (\<forall>k<length data. data ! k = 0 \<longrightarrow> depth' ! k = depth ! k) \<and>
    (\<forall>k. length data \<le> k \<longrightarrow> depth' ! k = depth ! k) \<and> (ok \<longrightarrow> depths_of data treeLimit depth') \<and>
    ((\<forall>i\<in>set (used_symbols data). data ! i \<le> cl) \<longrightarrow> n \<le> 2 ^ treeLimit \<longrightarrow> ok)"
proof -
  define leaves where "leaves = leaf_nodes data cl"
  have nl: "length leaves = n" by (simp add: leaves_def leaf_nodes_used assms(2))
  have n1: "n \<le> 704" using length_used [of data] assms(1,2) by simp
  define tree1 where "tree1 = overwrite tree 0 leaves"
  have t1: "length tree1 = length tree" "\<And>k. k < n \<Longrightarrow> tree1 ! k = leaves ! k" using assms(4) nl by (simp_all add: tree1_def nth_overwrite)
  have inr: "s < length depth \<and> s < length data" if "s \<in> set (used_symbols data)" for s using that assms(5) by (simp add: used_symbols(1))
  show ?thesis
  proof (cases "n = 2")
    case True
    obtain s0 s1 where u: "used_symbols data = [s0, s1]" using True assms(2) by (auto simp: length_Suc_conv numeral_2_eq_2)
    have lv: "leaves = [leaf_node (max (data ! s1) cl) s1, leaf_node (max (data ! s0) cl) s0]" by (simp add: leaves_def leaf_nodes_used u)
    have x: "rightOrValue (tree1 ! 0) = int s1" "rightOrValue (tree1 ! 1) = int s0" using t1(2) [of 0] t1(2) [of 1] True lv by (simp_all add: leaf_node_def)
    have s: "s0 < length depth" "s1 < length depth" "s0 < length data" "s1 < length data" using inr by (simp_all add: u)
    define t where "t = Fork (Tip s1) (Tip s0)"
    have p: "put_depths t 0 depth = depth[s1 := 1, s0 := 1]" by (simp add: t_def)
    have "huffman_round data treeLimit cl tree depth = Some (True, tree1, put_depths t 0 depth)"
      unfolding huffman_round_def leaves_def [symmetric] Let_def nl tree1_def [symmetric] p using True assms(4) s
      by (simp add: x [unfolded One_nat_def] go_update_def)
    moreover have "depths_of data treeLimit (put_depths t 0 depth)"
      by (rule put_depths_of) (use assms u True in \<open>simp_all add: t_def\<close>)
    moreover have "put_depths t 0 depth ! k = depth ! k" if "k < length data \<longrightarrow> data ! k = 0" for k
    proof -
      have "k \<noteq> s0" "k \<noteq> s1" using used_symbols(1) [of k data] that s(3,4) u by auto
      then show ?thesis by (simp add: p)
    qed
    ultimately show ?thesis using t1(1) s by auto
  next
    case False
    then have n3: "3 \<le> n" using assms(3) by simp
    define ns where "ns = sort_leaves leaves"
    have cnt: "max (data ! i) cl < 2 ^ 32" if "i \<in> set (used_symbols data)" for i
    proof -
      have "max (data ! i) cl \<le> sum_list (map (\<lambda>i. max (data ! i) cl) (used_symbols data))" using that by (intro member_le_sum_list) auto
      then show ?thesis using assms(9) by simp
    qed
    have ms: "mset ns = mset leaves" unfolding ns_def
    proof (rule sort_leaves_mset)
      fix x assume "x \<in> set leaves"
      then obtain i where i: "i \<in> set (used_symbols data)" "x = leaf_node (max (data ! i) cl) i" by (auto simp: leaves_def leaf_nodes_used)
      then have "i < 2 ^ 15" using inr assms(1) by fastforce
      then show "\<exists>c<2 ^ 32. \<exists>i<2 ^ 15. x = leaf_node c i" using cnt [OF i(1)] i(2) by blast
    qed
    have nn: "length ns = n" using mset_eq_length [OF ms] nl by simp
    define tree2 where "tree2 = (overwrite tree1 0 ns)[n := sentinel, n + 1 := sentinel]"
    have t2: "length tree2 = length tree" "tree2 ! n = sentinel" "tree2 ! (n + 1) = sentinel" "\<And>k. k < n \<Longrightarrow> tree2 ! k = ns ! k"
      using assms(3,4) t1(1) nn by (simp_all add: tree2_def nth_overwrite)
    have leaf: "\<exists>i\<in>set (used_symbols data). ns ! k = leaf_node (max (data ! i) cl) i" if "k < n" for k
    proof -
      have "ns ! k \<in> set leaves" using that nn mset_eq_setD [OF ms] nth_mem by metis
      then show ?thesis by (auto simp: leaves_def leaf_nodes_used)
    qed
    have rts: "roots n (n + 1) (0, n + 1) = [0..<n]" by (simp add: roots_def)
    define f where "f p = Tip (nat (rightOrValue (ns ! p)))" for p
    have mp: "map (\<lambda>p. g (tree2 ! p)) [0..<n] = map g ns" for g :: "huffmanTreeNode \<Rightarrow> 'b"
      by (rule nth_equalityI) (simp_all add: nn t2(4))
    have "mset (map (\<lambda>x. nat (rightOrValue x)) ns) = mset (map (\<lambda>x. nat (rightOrValue x)) leaves)" using ms by simp
    also have "map (\<lambda>x. nat (rightOrValue x)) leaves = rev (used_symbols data)" by (simp add: leaves_def leaf_nodes_used comp_def leaf_node_def map_idI)
    finally have vals: "mset (map (\<lambda>x. nat (rightOrValue x)) ns) = mset (used_symbols data)" by simp
    have tot: "sum_list (map totalCount ns) = sum_list (map (\<lambda>i. max (data ! i) cl) (used_symbols data))"
    proof -
      have "sum_list (map totalCount ns) = sum_list (map totalCount leaves)" using ms by (metis mset_map sum_mset_sum_list)
      also have "\<dots> = sum_list (rev (map (\<lambda>i. max (data ! i) cl) (used_symbols data)))" by (simp add: leaves_def leaf_nodes_used comp_def leaf_node_def rev_map)
      finally show ?thesis by simp
    qed
    have F0: "forest n tree2 (n + 1) (0, n + 1) f (mset (used_symbols data))" unfolding forest_def rts
    proof (intro conjI)
      show "queue_ok n tree2 (n + 1) (0, n + 1)" unfolding queue_ok_def rts
        using t2 assms(3,4) member_le_sum_list [of _ "map totalCount ns"] tot assms(9) nn by (fastforce simp: in_set_conv_nth)
      show "\<forall>p\<in>set [0..<n]. at_node tree2 (n + 1) p (f p)"
      proof
        fix p assume "p \<in> set [0..<n]"
        then have "p < n" by simp
        then show "at_node tree2 (n + 1) p (f p)" using leaf [of p] t2(4) [of p] by (auto simp: f_def leaf_node_def)
      qed
      show "sum_list (map (\<lambda>p. totalCount (tree2 ! p)) [0..<n]) < 2 ^ 32 - 1" unfolding mp using tot assms(9) by simp
      have "concat (map (\<lambda>p. tips (f p)) [0..<n]) = map (\<lambda>p. nat (rightOrValue (tree2 ! p))) [0..<n]" using t2(4) by (simp add: f_def concat_map_singleton)
      also have "\<dots> = map (\<lambda>x. nat (rightOrValue x)) ns" by (rule mp)
      finally show "mset (concat (map (\<lambda>p. tips (f p)) [0..<n])) = mset (used_symbols data)" using vals by simp
    qed (use t2(1) assms(4) in simp_all)
    have e: "2 * n - (n - 1) = n + 1" "n - 1 \<le> 2 * n" using assms(3) by simp_all
    obtain tree3 q3 f3 where M: "merge_loop n (n - 1) tree2 (0, n + 1) = Some tree3" "length tree3 = length tree2"
      "forest n tree3 (2 * n) q3 f3 (mset (used_symbols data))"
      "leaves_first n tree2 (n + 1) (0, n + 1) \<Longrightarrow> fifo treeLimit (map f [0..<n]) \<Longrightarrow> fifo treeLimit (map f3 (roots n (2 * n) q3))"
      using merge_loop_ok [of n tree2 "n - 1" "(0, n + 1)" f "mset (used_symbols data)" treeLimit] F0 e(2) unfolding e(1) rts by blast
    define t where "t = f3 (2 * n - 1)"
    have R: "roots n (2 * n) q3 = [2 * n - 1]" by (rule forest_end [OF M(3) assms(3)])
    have t: "at_node tree3 (2 * n) (2 * n - 1) t" "mset (tips t) = mset (used_symbols data)" using M(3) R by (simp_all add: forest_def t_def)
    have tips: "s \<in> set (tips t) \<longleftrightarrow> s < length data \<and> data ! s \<noteq> 0" for s using mset_eq_setD [OF t(2)] used_symbols(1) by auto
    have tin: "\<forall>s\<in>set (tips t). s < length depth" using tips assms(5) by auto
    have u1: "go_update (overwrite tree1 0 ns) (int n) sentinel = Some ((overwrite tree1 0 ns)[n := sentinel])"
      by (rule go_update_at [OF _ refl]) (use t1(1) nn assms(4) in simp)
    have u2: "go_update ((overwrite tree1 0 ns)[n := sentinel]) (int (n + 1)) sentinel = Some tree2" unfolding tree2_def
      by (rule go_update_at [OF _ refl]) (use t1(1) nn assms(3,4) in simp)
    have c: "(length tree < n) = False" "(n = 0) = False" "(n = 1) = False" "(n = 2) = False" using assms(3,4) False by simp_all
    have run: "huffman_round data treeLimit cl tree depth = Option.bind (setDepth tree3 depth (int (2 * n - 1)) treeLimit) (\<lambda>(ok, depth). Some (ok, tree3, depth))"
      unfolding huffman_round_def leaves_def [symmetric] Let_def nl tree1_def [symmetric] c if_False ns_def [symmetric] u1 u2 M(1) Option.bind.bind_lunit ..
    have small: "2 * n \<le> length tree3" using M(2) t2(1) assms(4) by simp
    note S = setDepth_ok [OF t(1) small assms(8) tin]
    have fits: "height t \<le> treeLimit" if eq: "\<forall>i\<in>set (used_symbols data). data ! i \<le> cl" and fit: "n \<le> 2 ^ treeLimit"
    proof -
      have "totalCount (tree2 ! p) = cl" if "p < n" for p using leaf [OF that] t2(4) [OF that] eq by (auto simp: leaf_node_def max_def)
      then have "leaves_first n tree2 (n + 1) (0, n + 1)" unfolding leaves_first_def rts by (intro exI [of _ cl]) auto
      moreover have "fifo treeLimit (map f [0..<n])" unfolding fifo_def
        by (intro exI [of _ 0] exI [of _ "map f [0..<n]"] exI [of _ "[]"]) (use fit in \<open>simp add: f_def\<close>)
      ultimately have "fifo treeLimit [t]" using M(4) R by (simp add: t_def)
      then show ?thesis by (rule fifo_end)
    qed
    show ?thesis
    proof (cases "height t \<le> treeLimit")
      case True
      have "depths_of data treeLimit (put_depths t 0 depth)"
        by (rule put_depths_of [OF t(2)]) (use assms True in simp_all)
      then show ?thesis using S True run M(2) t2(1) tips by (intro exI [of _ True]) (simp add: put_depths_other)
    next
      case False
      then obtain depth' where "setDepth tree3 depth (int (2 * n - 1)) treeLimit = Some (False, depth')" "length depth' = length depth"
        "\<forall>k. k \<notin> set (tips t) \<longrightarrow> depth' ! k = depth ! k" using S by auto
      then show ?thesis using run M(2) t2(1) tips fits False by auto
    qed
  qed
qed


subsection \<open>Raising the minimum count\<close>

lemma sum_max_less:
  assumes "\<forall>c\<in>set data. c \<le> 2 ^ 21" and "length data \<le> 704" and "cl \<le> 2 ^ 21"
  shows "sum_list (map (\<lambda>i. max (data ! i) cl) (used_symbols data)) < 2 ^ 32 - 1"
proof -
  have "sum_list (map (\<lambda>i. max (data ! i) cl) (used_symbols data)) \<le> sum_list (map (\<lambda>i. 2 ^ 21) (used_symbols data))"
    by (rule sum_list_mono) (use assms(1,3) in \<open>simp add: used_symbols(1)\<close>)
  also have "\<dots> \<le> 704 * 2 ^ 21" using length_used [of data] assms(2) by (simp add: sum_list_triv)
  finally show ?thesis by simp
qed

lemma huffman_rounds_ok:
  assumes "length data \<le> 704" and "n = length (used_symbols data)" and "2 \<le> n" and "length data \<le> length depth"
    and "1 \<le> treeLimit" and "treeLimit \<le> 15" and "\<forall>c\<in>set data. c \<le> 2 ^ 21" and "n \<le> 2 ^ treeLimit"
    and "\<forall>k<length data. data ! k = 0 \<longrightarrow> depth ! k = 0" and "2 * n < length tree" and "j \<le> 21"
  shows "\<exists>tree' depth'. huffman_rounds data treeLimit (2 ^ (21 - j)) tree depth = Some (tree', depth') \<and> length tree' = length tree \<and>
    length depth' = length depth \<and> (\<forall>k. length data \<le> k \<longrightarrow> depth' ! k = depth ! k) \<and> depths_of data treeLimit depth'"
  using assms(4,9,10,11)
proof (induction j arbitrary: tree depth)
  case 0
  note S = sum_max_less [OF assms(7,1) order_refl]
  have "\<forall>i\<in>set (used_symbols data). data ! i \<le> 2 ^ 21" using assms(7) by (simp add: used_symbols(1))
  then obtain ok tree' depth' where r: "huffman_round data treeLimit (2 ^ 21) tree depth = Some (ok, tree', depth')" "length tree' = length tree"
    "length depth' = length depth" "\<forall>k. length data \<le> k \<longrightarrow> depth' ! k = depth ! k" "ok \<Longrightarrow> depths_of data treeLimit depth'" "ok"
    using huffman_round_ok [OF assms(1-3) 0(3,1,2) assms(5,6) S] assms(8) by metis
  have "huffman_rounds data treeLimit (2 ^ (21 - 0)) tree depth = Some (tree', depth')"
    by (subst huffman_rounds.simps) (simp only: diff_zero r(1) Option.bind.bind_lunit prod.case if_P [OF r(6)])
  then show ?case using r by blast
next
  case (Suc j)
  define cl :: nat where "cl = 2 ^ (21 - Suc j)"
  have "(2::nat) ^ (21 - Suc j) \<le> 2 ^ 21" by (intro power_increasing) simp_all
  then have cl: "cl \<le> 2 ^ 21" by (simp add: cl_def)
  have "(2::nat) ^ (21 - j) \<le> 2 ^ 21" by (intro power_increasing) simp_all
  moreover have "cl * 2 = 2 ^ (21 - j)" using Suc.prems(4) by (simp add: cl_def Suc_diff_Suc [of j 21, symmetric] del: Suc_diff_Suc)
  ultimately have dbl: "cl * 2 mod 2 ^ 32 = 2 ^ (21 - j)" by simp
  obtain ok tree1 depth1 where r: "huffman_round data treeLimit cl tree depth = Some (ok, tree1, depth1)" "length tree1 = length tree"
    "length depth1 = length depth" "\<forall>k<length data. data ! k = 0 \<longrightarrow> depth1 ! k = depth ! k" "\<forall>k. length data \<le> k \<longrightarrow> depth1 ! k = depth ! k"
    "ok \<Longrightarrow> depths_of data treeLimit depth1"
    using huffman_round_ok [OF assms(1-3) Suc.prems(3,1,2) assms(5,6) sum_max_less [OF assms(7,1) cl]] by blast
  have step: "huffman_rounds data treeLimit cl tree depth =
      (if ok then Some (tree1, depth1) else huffman_rounds data treeLimit (2 ^ (21 - j)) tree1 depth1)"
    by (subst huffman_rounds.simps) (simp only: r(1) Option.bind.bind_lunit prod.case dbl)
  show ?case
  proof (cases ok)
    case True
    then show ?thesis using step r unfolding cl_def by auto
  next
    case False
    have z: "\<forall>k<length data. data ! k = 0 \<longrightarrow> depth1 ! k = 0" using r(4) Suc.prems(2) by simp
    have "\<exists>tree' depth'. huffman_rounds data treeLimit (2 ^ (21 - j)) tree1 depth1 = Some (tree', depth') \<and> length tree' = length tree1 \<and>
      length depth' = length depth1 \<and> (\<forall>k. length data \<le> k \<longrightarrow> depth' ! k = depth1 ! k) \<and> depths_of data treeLimit depth'"
      by (rule Suc.IH) (use r(2,3) Suc.prems z in simp_all)
    then show ?thesis using step False r(2,3,5) unfolding cl_def by auto
  qed
qed

text \<open>The code the tree gives.\<close>

lemma createHuffmanTree_ok:
  assumes "length data \<le> 704" and "2 \<le> length (used_symbols data)" and "length (used_symbols data) \<le> 2 ^ treeLimit"
    and "1 \<le> treeLimit" and "treeLimit \<le> 15" and "\<forall>c\<in>set data. c \<le> 2 ^ 21"
    and "length data \<le> length depth" and "\<forall>k<length data. depth ! k = 0" and "2 * length (used_symbols data) < length tree"
  shows "\<exists>tree' depth'. createHuffmanTree data treeLimit tree depth = Some (tree', depth') \<and> length tree' = length tree \<and>
    length depth' = length depth \<and> (\<forall>k. length data \<le> k \<longrightarrow> depth' ! k = depth ! k) \<and>
    complete (take (length data) depth') \<and> (\<forall>k<length data. (depth' ! k = 0 \<longleftrightarrow> data ! k = 0) \<and> depth' ! k \<le> treeLimit)"
proof -
  have "\<exists>tree' depth'. huffman_rounds data treeLimit (2 ^ (21 - 21)) tree depth = Some (tree', depth') \<and> length tree' = length tree \<and>
    length depth' = length depth \<and> (\<forall>k. length data \<le> k \<longrightarrow> depth' ! k = depth ! k) \<and> depths_of data treeLimit depth'"
    by (rule huffman_rounds_ok [OF assms(1) refl assms(2,7,4-6,3)]) (use assms(8,9) in simp_all)
  then show ?thesis unfolding createHuffmanTree_def depths_of_def by simp
qed

text \<open>C6. \<^verbatim>\<open>createHuffmanTree\<close> returns the lengths of a complete prefix code within its limit: for two to
  \<open>2 ^ treeLimit\<close> symbols with counts of at most \<open>2 ^ 21\<close>, a cleared array of depths and room for the nodes, the loop that raises the
  minimum count ends, exactly the symbols that occur get a depth, no depth exceeds the limit, and the depths
  fill the code space exactly; entries beyond the alphabet are kept.\<close>

theorem createHuffmanTree_complete:
  assumes "length data \<le> 704" and "2 \<le> length (used_symbols data)" and "length (used_symbols data) \<le> 2 ^ treeLimit"
    and "1 \<le> treeLimit" and "treeLimit \<le> 15" and "\<forall>c\<in>set data. c \<le> 2 ^ 21"
    and "length data \<le> length depth" and "\<forall>k<length data. depth ! k = 0" and "2 * length (used_symbols data) < length tree"
  shows "\<exists>tree' depth'. createHuffmanTree data treeLimit tree depth = Some (tree', depth') \<and> length tree' = length tree \<and>
    length depth' = length depth \<and> (\<forall>k. length data \<le> k \<longrightarrow> depth' ! k = depth ! k) \<and>
    complete (take (length data) depth') \<and> (\<forall>k<length data. (depth' ! k = 0 \<longleftrightarrow> data ! k = 0) \<and> depth' ! k \<le> treeLimit)"
  by (rule createHuffmanTree_ok [OF assms])

theorem createHuffmanTree_complete_witness:
  "\<exists>tree' depth'. createHuffmanTree [5, 0, 1, 1] 15 (replicate 7 sentinel) [0, 0, 0, 0, 9] = Some (tree', depth') \<and> length tree' = length (replicate 7 sentinel) \<and>
    length depth' = length [0, 0, 0, 0, 9 :: nat] \<and> (\<forall>k. length [5, 0, 1, 1 :: nat] \<le> k \<longrightarrow> depth' ! k = [0, 0, 0, 0, 9] ! k) \<and>
    complete (take (length [5, 0, 1, 1 :: nat]) depth') \<and>
    (\<forall>k<length [5, 0, 1, 1 :: nat]. (depth' ! k = 0 \<longleftrightarrow> [5, 0, 1, 1] ! k = (0::nat)) \<and> depth' ! k \<le> 15)"
  by (rule createHuffmanTree_complete)
    (simp_all add: used_symbols_def nth_Cons' upt_rec)

end
