(* ===== verification/Prefix_Write.thy ===== *)
theory Prefix_Write
  imports Rle_Encode Huffman_Create Stream_Writer
begin

unbundle bit_operations_syntax

text \<open>
  Prefix codes in the stream, encoder side, \<^verbatim>\<open>internal/encoder/bitwriter.go\<close>: simple codes, and complex codes with the
  lengths of the code length code, and the lengths of the code behind them. Every writer is a sequence of fields.
  Depths and codes are naturals; the node array is scratch memory, an argument and a result.
\<close>

definition codeLengthCodeSymbols :: "nat list" where
  "codeLengthCodeSymbols = [0, 7, 3, 2, 1, 15]"

definition codeLengthCodeBitLengths :: "nat list" where
  "codeLengthCodeBitLengths = [2, 4, 3, 2, 2, 4]"

subsection \<open>Complex codes\<close>

text \<open>The depth at a place of the transmission order.\<close>

definition order_depth :: "nat list \<Rightarrow> nat \<Rightarrow> nat option" where
  "order_depth bitDepth i = do { k \<leftarrow> go_index CodeLengthCodeOrder (int i); go_index bitDepth (int k) }"

fun trim_order :: "nat list \<Rightarrow> nat \<Rightarrow> nat option" where
  "trim_order bitDepth 0 = Some 0"
| "trim_order bitDepth (Suc n) = do { d \<leftarrow> order_depth bitDepth n; if d = 0 then trim_order bitDepth n else Some (Suc n) }"

definition order_skip :: "nat list \<Rightarrow> nat option" where
  "order_skip bitDepth = do {
     d0 \<leftarrow> order_depth bitDepth 0;
     if d0 \<noteq> 0 then Some 0 else do {
       d1 \<leftarrow> order_depth bitDepth 1;
       if d1 \<noteq> 0 then Some 0 else do {
         d2 \<leftarrow> order_depth bitDepth 2;
         Some (if d2 = 0 then 3 else 2) } } }"

fun write_depths :: "nat list \<Rightarrow> nat list \<Rightarrow> bitWriter \<Rightarrow> bitWriter option" where
  "write_depths bitDepth [] b = Some b"
| "write_depths bitDepth (i # is) b = do {
     depth \<leftarrow> order_depth bitDepth i;
     n \<leftarrow> go_index codeLengthCodeBitLengths (int depth);
     v \<leftarrow> go_index codeLengthCodeSymbols (int depth);
     b \<leftarrow> writeBits n (of_nat v) b;
     write_depths bitDepth is b }"

definition writeHuffmanTreeOfHuffmanTreeToBitmask :: "nat \<Rightarrow> nat list \<Rightarrow> bitWriter \<Rightarrow> bitWriter option" where
  "writeHuffmanTreeOfHuffmanTreeToBitmask numCodes bitDepth b = do {
     codesToStore \<leftarrow> (if numCodes > 1 then trim_order bitDepth AlphabetSizeCodeLengths else Some AlphabetSizeCodeLengths);
     skip \<leftarrow> order_skip bitDepth;
     b \<leftarrow> writeBits 2 (of_nat skip) b;
     write_depths bitDepth [skip..<codesToStore] b }"

fun writeHuffmanTreeToBitmask :: "nat \<Rightarrow> nat list \<Rightarrow> nat list \<Rightarrow> nat list \<Rightarrow> nat list \<Rightarrow> bitWriter \<Rightarrow> bitWriter option" where
  "writeHuffmanTreeToBitmask i [] extraBits bitDepth symbols b = Some b"
| "writeHuffmanTreeToBitmask i (code # tree) extraBits bitDepth symbols b = do {
     n \<leftarrow> go_index bitDepth (int code);
     v \<leftarrow> go_index symbols (int code);
     b \<leftarrow> writeBits n (of_nat v) b;
     b \<leftarrow> (if code = RepeatPreviousCodeLength then do { x \<leftarrow> go_index extraBits (int i); writeBits 2 (of_nat x) b }
          else if code = alphabetSizeRepeatZeroCodeLength then do { x \<leftarrow> go_index extraBits (int i); writeBits 3 (of_nat x) b }
          else Some b);
     writeHuffmanTreeToBitmask (i + 1) tree extraBits bitDepth symbols b }"

text \<open>\<^verbatim>\<open>for _, v := range xs { histogram[v]++ }\<close>\<close>

fun count_symbols :: "nat list \<Rightarrow> nat list \<Rightarrow> nat list option" where
  "count_symbols [] histogram = Some histogram"
| "count_symbols (v # vs) histogram = do {
     n \<leftarrow> go_index histogram (int v);
     histogram \<leftarrow> go_update histogram (int v) ((n + 1) mod 2 ^ 32);
     count_symbols vs histogram }"

text \<open>The loop over the histogram: how many codes, up to 2, and the first.\<close>

fun count_codes :: "nat \<Rightarrow> nat list \<Rightarrow> nat \<times> nat \<Rightarrow> nat \<times> nat" where
  "count_codes i [] (numCodes, code) = (numCodes, code)"
| "count_codes i (v # vs) (numCodes, code) =
     (if v \<noteq> 0 then
        if numCodes = 0 then count_codes (i + 1) vs (1, i)
        else if numCodes = 1 then (2, code) else count_codes (i + 1) vs (numCodes, code)
      else count_codes (i + 1) vs (numCodes, code))"

definition writeHuffmanTree :: "nat list \<Rightarrow> huffmanTreeNode list \<Rightarrow> bitWriter \<Rightarrow> (huffmanTreeNode list \<times> bitWriter) option" where
  "writeHuffmanTree depths tree b = do {
     (treeArray, extraBitsArray, treeSize) \<leftarrow> encodeHuffmanTree depths (replicate AlphabetSizeInsertAndCopyLength 0)
       (replicate AlphabetSizeInsertAndCopyLength 0);
     treeBuf \<leftarrow> go_slice treeArray 0 (int treeSize);
     histogram \<leftarrow> count_symbols treeBuf (replicate AlphabetSizeCodeLengths 0);
     let (numCodes, code) = count_codes 0 histogram (0, 0);
     (tree, bitDepth) \<leftarrow> createHuffmanTree histogram 5 tree (replicate AlphabetSizeCodeLengths 0);
     symbols \<leftarrow> convertBitDepthsToSymbols bitDepth (replicate AlphabetSizeCodeLengths 0);
     b \<leftarrow> writeHuffmanTreeOfHuffmanTreeToBitmask numCodes bitDepth b;
     bitDepth \<leftarrow> (if numCodes = 1 then go_update bitDepth (int code) 0 else Some bitDepth);
     extraBits \<leftarrow> go_slice extraBitsArray 0 (int treeSize);
     b \<leftarrow> writeHuffmanTreeToBitmask 0 treeBuf extraBits bitDepth symbols b;
     Some (tree, b) }"


subsection \<open>Simple codes\<close>

text \<open>The nested loops visit these pairs in this order.\<close>

definition swap_order :: "nat \<Rightarrow> (nat \<times> nat) list" where
  "swap_order numSymbols = concat (map (\<lambda>i. map (\<lambda>j. (i, j)) [i + 1..<numSymbols]) [0..<numSymbols])"

fun swap_pairs :: "nat list \<Rightarrow> (nat \<times> nat) list \<Rightarrow> nat list \<Rightarrow> nat list option" where
  "swap_pairs depths [] symbols = Some symbols"
| "swap_pairs depths ((i, j) # ps) symbols = do {
     sj \<leftarrow> go_index symbols (int j);
     si \<leftarrow> go_index symbols (int i);
     dj \<leftarrow> go_index depths (int sj);
     di \<leftarrow> go_index depths (int si);
     swap_pairs depths ps (if dj < di then symbols[i := sj, j := si] else symbols) }"

fun write_symbols :: "nat \<Rightarrow> nat list \<Rightarrow> bitWriter \<Rightarrow> bitWriter option" where
  "write_symbols maxBits [] b = Some b"
| "write_symbols maxBits (s # ss) b = do { b \<leftarrow> writeBits maxBits (of_nat s) b; write_symbols maxBits ss b }"

definition writeSimpleHuffmanTree :: "nat list \<Rightarrow> nat list \<Rightarrow> nat \<Rightarrow> nat \<Rightarrow> bitWriter \<Rightarrow> bitWriter option" where
  "writeSimpleHuffmanTree depths symbols numSymbols maxBits b = do {
     b \<leftarrow> writeBits 2 1 b;
     b \<leftarrow> writeBits 2 (of_nat numSymbols - 1) b;
     symbols \<leftarrow> swap_pairs depths (swap_order numSymbols) symbols;
     if numSymbols = 2 then write_symbols maxBits (take 2 symbols) b
     else if numSymbols = 3 then write_symbols maxBits (take 3 symbols) b
     else do {
       b \<leftarrow> write_symbols maxBits (take 4 symbols) b;
       d \<leftarrow> go_index depths (int (symbols ! 0));
       writeBits 1 (if d = 1 then 1 else 0) b } }"


subsection \<open>Any code\<close>

text \<open>The scan for up to five used symbols; the first four are kept.\<close>

fun scan_used :: "nat \<Rightarrow> nat list \<Rightarrow> nat \<times> nat list \<Rightarrow> nat \<times> nat list" where
  "scan_used i [] (cnt, s4) = (cnt, s4)"
| "scan_used i (v # vs) (cnt, s4) =
     (if v \<noteq> 0 then
        if cnt < 4 then scan_used (i + 1) vs (cnt + 1, s4[cnt := i])
        else if cnt > 4 then (cnt, s4)
        else scan_used (i + 1) vs (cnt + 1, s4)
      else scan_used (i + 1) vs (cnt, s4))"

fun alphabet_bits :: "nat \<Rightarrow> nat" where
  "alphabet_bits v = (if v = 0 then 0 else alphabet_bits (v div 2) + 1)"

declare alphabet_bits.simps [simp del]

definition buildAndWriteHuffmanTree :: "nat list \<Rightarrow> nat \<Rightarrow> huffmanTreeNode list \<Rightarrow> nat list \<Rightarrow> nat list \<Rightarrow> bitWriter
    \<Rightarrow> (huffmanTreeNode list \<times> nat list \<times> nat list \<times> bitWriter) option" where
  "buildAndWriteHuffmanTree histogram alphabetSize tree depth codes b = (let n = length histogram in do {
     _ \<leftarrow> go_slice depth 0 (int n);
     _ \<leftarrow> go_slice codes 0 (int n);
     let depth = overwrite depth 0 (replicate n 0);
     let codes = overwrite codes 0 (replicate n 0);
     let (cnt, s4) = scan_used 0 histogram (0, [0, 0, 0, 0]);
     let maxBits = alphabet_bits (usub alphabetSize 1);
     if cnt \<le> 1 then do {
       b \<leftarrow> writeBits 4 1 b;
       b \<leftarrow> writeBits maxBits (of_nat (s4 ! 0)) b;
       depth \<leftarrow> go_update depth (int (s4 ! 0)) 0;
       codes \<leftarrow> go_update codes (int (s4 ! 0)) 0;
       Some (tree, depth, codes, b) }
     else do {
       (tree, depth) \<leftarrow> createHuffmanTree histogram 15 tree depth;
       cs \<leftarrow> convertBitDepthsToSymbols (take n depth) (take n codes);
       let codes = overwrite codes 0 cs;
       if cnt \<le> 4 then do {
         b \<leftarrow> writeSimpleHuffmanTree depth s4 cnt maxBits b;
         Some (tree, depth, codes, b) }
       else do {
         (tree, b) \<leftarrow> writeHuffmanTree (take n depth) tree b;
         Some (tree, depth, codes, b) } } })"


subsection \<open>The writers as fields\<close>

lemma CodeLengthCodeOrder_perm: "length CodeLengthCodeOrder = 18" "distinct CodeLengthCodeOrder" "set CodeLengthCodeOrder = {..<18}"
proof -
  show l: "length CodeLengthCodeOrder = 18" and d: "distinct CodeLengthCodeOrder" by code_simp+
  have "\<forall>x\<in>set CodeLengthCodeOrder. x < 18" by code_simp
  then show "set CodeLengthCodeOrder = {..<18}" using card_subset_eq [of "{..<18::nat}" "set CodeLengthCodeOrder"] distinct_card [OF d] l by auto
qed

lemma order_nth: "i < 18 \<Longrightarrow> CodeLengthCodeOrder ! i < 18"
  using CodeLengthCodeOrder_perm nth_mem [of i CodeLengthCodeOrder] by auto

text \<open>Depths of a code length code.\<close>

definition clen_depths :: "nat list \<Rightarrow> bool" where
  "clen_depths bd \<longleftrightarrow> length bd = 18 \<and> (\<forall>x\<in>set bd. x \<le> 5)"

lemma order_depth_ok: "clen_depths bd \<Longrightarrow> i < 18 \<Longrightarrow> order_depth bd i = Some (bd ! (CodeLengthCodeOrder ! i))"
  using order_nth [of i] by (simp add: order_depth_def clen_depths_def go_index_def CodeLengthCodeOrder_perm)

lemma clen_depths_le: "clen_depths bd \<Longrightarrow> k < 18 \<Longrightarrow> bd ! k \<le> 5"
  by (auto simp: clen_depths_def)

definition depth_field :: "nat \<Rightarrow> nat \<times> u64" where
  "depth_field d = (codeLengthCodeBitLengths ! d, of_nat (codeLengthCodeSymbols ! d))"

definition depth_fields :: "nat list \<Rightarrow> nat list \<Rightarrow> (nat \<times> u64) list" where
  "depth_fields bd is = map (\<lambda>i. depth_field (bd ! (CodeLengthCodeOrder ! i))) is"

lemma less_6: "(d :: nat) \<le> 5 \<longleftrightarrow> d = 0 \<or> d = 1 \<or> d = 2 \<or> d = 3 \<or> d = 4 \<or> d = 5"
  by auto

lemma depth_field_ok:
  assumes "d \<le> 5"
  shows "go_index codeLengthCodeBitLengths (int d) = Some (fst (depth_field d))"
    and "map_option of_nat (go_index codeLengthCodeSymbols (int d)) = Some (snd (depth_field d))" and "fields_ok [depth_field d]"
  using assms unfolding less_6 depth_field_def codeLengthCodeBitLengths_def codeLengthCodeSymbols_def
  by (auto simp: go_index_def)

lemma write_depths_fields:
  assumes "clen_depths bd" and "\<forall>i\<in>set is. i < 18"
  shows "write_depths bd is = put_fields writeBits (depth_fields bd is)" and "fields_ok (depth_fields bd is)"
proof -
  show "write_depths bd is = put_fields writeBits (depth_fields bd is)"
    using assms(2)
  proof (induction "is")
    case (Cons i "is")
    note d = depth_field_ok [OF clen_depths_le [OF assms(1) order_nth [of i]]]
    obtain v where v: "go_index codeLengthCodeSymbols (int (bd ! (CodeLengthCodeOrder ! i))) = Some v"
      "of_nat v = snd (depth_field (bd ! (CodeLengthCodeOrder ! i)))" using d(2) Cons.prems by auto
    obtain m w where mw: "depth_field (bd ! (CodeLengthCodeOrder ! i)) = (m, w)" by fastforce
    have o: "order_depth bd i = Some (bd ! (CodeLengthCodeOrder ! i))" using order_depth_ok [OF assms(1), of i] Cons.prems by simp
    have i: "i < 18" using Cons.prems by simp
    show ?case
    proof (rule ext)
      fix b
      have "write_depths bd (i # is) b = do { b \<leftarrow> writeBits m w b; write_depths bd is b }"
        unfolding write_depths.simps(2) o Option.bind.bind_lunit d(1) [OF i] v(1) using v(2) by (simp add: mw)
      then show "write_depths bd (i # is) b = put_fields writeBits (depth_fields bd (i # is)) b"
        using Cons by (simp add: depth_fields_def mw)
    qed
  qed (simp add: depth_fields_def fun_eq_iff)
  show "fields_ok (depth_fields bd is)"
    using assms(2)
  proof (induction "is")
    case (Cons i "is")
    then show ?case using depth_field_ok(3) [OF clen_depths_le [OF assms(1) order_nth [of i]]]
      by (cases "depth_field (bd ! (CodeLengthCodeOrder ! i))") (simp add: depth_fields_def)
  qed (simp add: depth_fields_def)
qed

text \<open>The places of the transmission order that are sent: from \<open>skip\<close> to \<open>n\<close>.\<close>

definition sent_range :: "nat list \<Rightarrow> nat \<Rightarrow> nat \<Rightarrow> bool" where
  "sent_range bd skip n \<longleftrightarrow> skip \<in> {0, 2, 3} \<and> n \<le> 18 \<and> (\<forall>i<18. i < skip \<or> n \<le> i \<longrightarrow> bd ! (CodeLengthCodeOrder ! i) = 0)"

definition clen_fields :: "nat list \<Rightarrow> nat \<Rightarrow> nat \<Rightarrow> (nat \<times> u64) list" where
  "clen_fields bd skip n = (2, of_nat skip) # depth_fields bd [skip..<n]"

lemma trim_order_ok:
  assumes "clen_depths bd" and "n \<le> 18"
  shows "\<exists>m. trim_order bd n = Some m \<and> m \<le> n \<and> (\<forall>i<n. m \<le> i \<longrightarrow> bd ! (CodeLengthCodeOrder ! i) = 0) \<and>
    (0 < m \<longrightarrow> bd ! (CodeLengthCodeOrder ! (m - 1)) \<noteq> 0)"
  using assms(2)
proof (induction n)
  case (Suc n)
  then show ?case using order_depth_ok [OF assms(1), of n] by (cases "bd ! (CodeLengthCodeOrder ! n) = 0") (auto simp: less_Suc_eq)
qed simp

lemma order_skip_ok:
  assumes "clen_depths bd"
  shows "\<exists>skip. order_skip bd = Some skip \<and> skip \<in> {0, 2, 3} \<and> (\<forall>i < skip. bd ! (CodeLengthCodeOrder ! i) = 0)"
proof -
  define d where "d i = bd ! (CodeLengthCodeOrder ! i)" for i
  have o: "order_depth bd 0 = Some (d 0)" "order_depth bd 1 = Some (d 1)" "order_depth bd 2 = Some (d 2)"
    using order_depth_ok [OF assms] by (simp_all add: d_def)
  have l: "i < 2 \<longleftrightarrow> i = 0 \<or> i = 1" "i < 3 \<longleftrightarrow> i = 0 \<or> i = 1 \<or> i = 2" for i :: nat by auto
  show ?thesis unfolding order_skip_def d_def [symmetric] o Option.bind.bind_lunit
    by (cases "d 0 = 0"; cases "d 1 = 0"; cases "d 2 = 0") (auto simp: l)
qed

lemma writeHuffmanTreeOfHuffmanTreeToBitmask_fields:
  assumes "clen_depths bd"
  obtains skip n where "writeHuffmanTreeOfHuffmanTreeToBitmask numCodes bd = put_fields writeBits (clen_fields bd skip n)"
    "fields_ok (clen_fields bd skip n)" "sent_range bd skip n" "numCodes \<le> 1 \<longrightarrow> n = 18"
    "1 < numCodes \<longrightarrow> 0 < n \<longrightarrow> bd ! (CodeLengthCodeOrder ! (n - 1)) \<noteq> 0"
proof -
  obtain skip where k: "order_skip bd = Some skip" "skip \<in> {0, 2, 3}" "\<forall>i < skip. bd ! (CodeLengthCodeOrder ! i) = 0"
    using order_skip_ok [OF assms] by blast
  obtain n where n: "(if numCodes > 1 then trim_order bd 18 else Some 18) = Some n" "n \<le> 18"
    "\<forall>i<18. n \<le> i \<longrightarrow> bd ! (CodeLengthCodeOrder ! i) = 0" "\<not> 1 < numCodes \<longrightarrow> n = 18"
    "1 < numCodes \<longrightarrow> 0 < n \<longrightarrow> bd ! (CodeLengthCodeOrder ! (n - 1)) \<noteq> 0"
  proof (cases "1 < numCodes")
    case True
    obtain m where "trim_order bd 18 = Some m" "m \<le> 18" "\<forall>i<18. m \<le> i \<longrightarrow> bd ! (CodeLengthCodeOrder ! i) = 0"
      "0 < m \<longrightarrow> bd ! (CodeLengthCodeOrder ! (m - 1)) \<noteq> 0" using trim_order_ok [OF assms order_refl] by blast
    then show thesis using that [of m] True by simp
  next
    case False
    then show thesis using that [of 18] by simp
  qed
  have r: "\<forall>i\<in>set [skip..<n]. i < 18" using n(2) by simp
  note w = write_depths_fields [OF assms r]
  have "unat (of_nat skip :: u64) < 2 ^ 2" using k(2) by auto
  then have "fields_ok (clen_fields bd skip n)" using w(2) by (simp add: clen_fields_def)
  moreover have "sent_range bd skip n" using k n by (auto simp: sent_range_def)
  moreover have "writeHuffmanTreeOfHuffmanTreeToBitmask numCodes bd b = put_fields writeBits (clen_fields bd skip n) b" for b
    unfolding writeHuffmanTreeOfHuffmanTreeToBitmask_def AlphabetSizeCodeLengths_def n(1) k(1) by (simp add: clen_fields_def w(1))
  ultimately show thesis using that [of skip n] n by (simp add: fun_eq_iff)
qed

definition tok_fields :: "nat list \<Rightarrow> nat list \<Rightarrow> nat \<times> nat \<Rightarrow> (nat \<times> u64) list" where
  "tok_fields bd sy = (\<lambda>(c, e). (bd ! c, of_nat (sy ! c)) #
     (if c = 16 then [(2, of_nat e)] else if c = 17 then [(3, of_nat e)] else []))"

lemma writeHuffmanTreeToBitmask_fields:
  assumes "\<forall>t\<in>set toks. tok_ok t" and "length bd = 18" and "length sy = 18" and "drop i extra = map snd toks"
  shows "writeHuffmanTreeToBitmask i (map fst toks) extra bd sy b = put_fields writeBits (concat (map (tok_fields bd sy) toks)) b"
  using assms(1,4)
proof (induction toks arbitrary: i b)
  case (Cons t toks)
  obtain c e where t: "t = (c, e)" by fastforce
  have c: "c < 18" using Cons.prems(1) by (auto simp: t tok_ok_def)
  have x: "go_index extra (int i) = Some e" "drop (i + 1) extra = map snd toks"
  proof -
    have "i < length extra" using Cons.prems(2) by (metis drop_all list.discI list.simps(9) not_le)
    then have "drop i extra = extra ! i # drop (Suc i) extra" by (simp add: Cons_nth_drop_Suc)
    then show "go_index extra (int i) = Some e" "drop (i + 1) extra = map snd toks"
      using Cons.prems(2) \<open>i < length extra\<close> by (simp_all add: t go_index_def)
  qed
  have g: "go_index bd (int c) = Some (bd ! c)" "go_index sy (int c) = Some (sy ! c)" using c assms(2,3) by (simp_all add: go_index_def)
  have IH: "writeHuffmanTreeToBitmask (i + 1) (map fst toks) extra bd sy b = put_fields writeBits (concat (map (tok_fields bd sy) toks)) b" for b
    using Cons.IH [OF _ x(2)] Cons.prems(1) by simp
  show ?case
    unfolding t list.map fst_conv writeHuffmanTreeToBitmask.simps(2) g x(1) IH Option.bind.bind_lunit
    by (auto simp: tok_fields_def RepeatPreviousCodeLength_def alphabetSizeRepeatZeroCodeLength_def put_fields_fun)
qed simp


subsection \<open>The code length code\<close>

lemma count_symbols_ok:
  assumes "\<forall>v\<in>set vs. v < length h" and "\<forall>k<length h. h ! k + length vs < 2 ^ 32"
  shows "\<exists>h'. count_symbols vs h = Some h' \<and> length h' = length h \<and> (\<forall>k<length h. h' ! k = h ! k + count_list vs k)"
  using assms
proof (induction vs arbitrary: h)
  case (Cons v vs)
  define h1 where "h1 = h[v := h ! v + 1]"
  have v: "v < length h" "h ! v + 1 < 2 ^ 32" using Cons.prems by (auto simp: less_diff_conv)
  have s: "count_symbols (v # vs) h = count_symbols vs h1"
    using v by (simp add: h1_def go_index_def go_update_def)
  have "\<forall>k<length h1. h1 ! k + length vs < 2 ^ 32"
  proof (intro allI impI)
    fix k assume k: "k < length h1"
    then have "h ! k + length (v # vs) < 2 ^ 32" using Cons.prems(2) by (simp add: h1_def)
    then show "h1 ! k + length vs < 2 ^ 32" using k by (cases "k = v") (simp_all add: h1_def)
  qed
  then obtain h' where "count_symbols vs h1 = Some h'" "length h' = length h1" "\<forall>k<length h1. h' ! k = h1 ! k + count_list vs k"
    using Cons.IH [of h1] Cons.prems(1) by (auto simp: h1_def)
  then show ?case unfolding s by (auto simp: h1_def nth_list_update)
qed simp

lemma used_symbols_Cons: "used_symbols (v # vs) = (if v = 0 then [] else [0]) @ map Suc (used_symbols vs)"
proof -
  have "[0..<length (v # vs)] = 0 # map Suc [0..<length vs]" by (simp add: upt_conv_Cons map_Suc_upt del: upt_Suc)
  then show ?thesis by (simp add: used_symbols_def filter_map comp_def)
qed

lemma count_codes_ok:
  "count_codes i vs (n, c) = (let u = map (\<lambda>k. i + k) (used_symbols vs) in
     if n = 0 then (min 2 (length u), if u = [] then c else hd u) else if n = 1 then (if u = [] then 1 else 2, c) else (n, c))"
proof (induction vs arbitrary: i n c)
  case (Cons v vs)
  show ?case by (cases "used_symbols vs") (auto simp: Cons.IH used_symbols_Cons Let_def)
qed (simp add: used_symbols_def)

lemma createHuffmanTree_single:
  assumes "used_symbols data = [k]" and "k < length depth" and "tree \<noteq> []"
  shows "\<exists>tree'. createHuffmanTree data treeLimit tree depth = Some (tree', depth[k := 1]) \<and> length tree' = length tree"
proof -
  have l: "leaf_nodes data 1 = [leaf_node (max (data ! k) 1) k]" by (simp add: leaf_nodes_used assms(1))
  define tree' where "tree' = overwrite tree 0 [leaf_node (max (data ! k) 1) k]"
  have t: "length tree' = length tree" "tree' ! 0 = leaf_node (max (data ! k) 1) k"
    using assms(3) by (cases tree; simp add: tree'_def overwrite_def)+
  have "1 \<le> length tree" using assms(3) by (cases tree) auto
  with assms(3) have "huffman_round data treeLimit 1 tree depth = Some (True, tree', depth[k := 1])"
    using assms(2) t unfolding huffman_round_def l tree'_def [symmetric] Let_def by (simp add: leaf_node_def go_update_def tree'_def [symmetric])
  then have "createHuffmanTree data treeLimit tree depth = Some (tree', depth[k := 1])"
    unfolding createHuffmanTree_def by (subst huffman_rounds.simps) simp
  then show ?thesis using t by blast
qed

lemma assign_codes_zeros: "assign_codes i (replicate n 0) nextCode symbols = symbols"
  by (induction n arbitrary: i) simp_all

lemma assign_codes_single:
  "assign_codes i (replicate a 0 @ 1 # replicate b 0) nextCode symbols = symbols[i + a := reverseBits 1 (nextCode ! 1)]"
  by (induction a arbitrary: i) (simp_all add: assign_codes_zeros and_15)

lemma single_symbols_zero:
  assumes "k < 18"
  shows "convertBitDepthsToSymbols ((replicate 18 0)[k := 1]) (replicate 18 0) = Some (replicate 18 0)"
proof -
  have d: "(replicate 18 0)[k := 1] = replicate k 0 @ 1 # replicate (17 - k) (0 :: nat)"
    using assms by (intro nth_equalityI) (auto simp: nth_append nth_list_update nth_Cons split: nat.splits)
  have up: "[1..<16] = 1 # [2..<16 :: nat]" by (simp add: upt_rec)
  have keep: "next_codes bl c is r ! 1 = r ! 1" if "1 \<notin> set is" for bl c "is" r
    using that by (induction "is" arbitrary: c r) (simp_all add: Let_def)
  define dd where "dd = (replicate 18 0)[k := 1 :: nat]"
  define nc where "nc = next_codes ((bl_counts dd)[0 := 0]) 0 [1..<16] (replicate 16 0)"
  have "set dd \<subseteq> {0, 1}" using set_update_subset_insert [of "replicate 18 (0 :: nat)" k 1] by (auto simp: dd_def)
  then have "\<forall>x\<in>set dd. x \<le> 15" by auto
  then have "length (bl_counts dd) = 16" using bl_counts_ok(2) [of dd 0] by (simp add: dd_def)
  then have "nc ! 1 = 0" unfolding nc_def up using keep [of "[2..<16]"] by (simp add: Let_def)
  moreover have "reverseBits 1 0 = 0" using bitrev_shift [of 0 1 0] bitrev_less [of 0 0] by (simp add: reverseBits_bitrev)
  moreover have "(replicate 18 0)[k := 0] = replicate 18 (0 :: nat)" using assms by (metis list_update_id nth_replicate)
  moreover have "convertBitDepthsToSymbols dd (replicate 18 0) = Some (assign_codes 0 dd nc (replicate 18 0))"
    unfolding convertBitDepthsToSymbols_def maxHuffmanBits_def Let_def nc_def [symmetric] by (simp add: dd_def)
  ultimately show ?thesis unfolding dd_def d using assign_codes_single [of 0 k "17 - k" nc "replicate 18 0"] by simp
qed

text \<open>The code length code as it is built (\<open>bd0\<close>) and as it is used for the symbols in \<open>toks\<close>: a code of one symbol takes
  no bits.\<close>

definition clen_code :: "nat list \<Rightarrow> nat list \<Rightarrow> nat list \<Rightarrow> (nat \<times> nat) list \<Rightarrow> bool" where
  "clen_code bd0 bd sy toks \<longleftrightarrow> clen_depths bd0 \<and> length bd = 18 \<and> length sy = 18 \<and> (\<forall>t\<in>set toks. fst t < 18 \<and> bd0 ! fst t \<noteq> 0) \<and>
     (complete bd0 \<and> bd = bd0 \<and> (\<forall>k<18. bd0 ! k \<noteq> 0 \<longrightarrow> sy ! k = symbol_code bd0 k) \<or>
      (\<exists>c<18. bd0 = (replicate 18 0)[c := 1] \<and> bd = replicate 18 0 \<and> sy = replicate 18 0))"

lemma tok_fields_ok:
  assumes "clen_code bd0 bd sy toks" and "\<forall>t\<in>set toks. tok_ok t"
  shows "fields_ok (concat (map (tok_fields bd sy) toks))"
proof -
  have "fields_ok (tok_fields bd sy t)" if t: "t \<in> set toks" for t
  proof -
    obtain c e where ce: "t = (c, e)" by fastforce
    have c: "c < 18" "bd0 ! c \<noteq> 0" using assms(1) t by (auto simp: clen_code_def ce)
    have "bd ! c \<le> 5 \<and> sy ! c < 2 ^ (bd ! c)"
    proof (cases "bd = replicate 18 0")
      case True
      then have "sy = replicate 18 0 \<or> complete bd0 \<and> bd0 = replicate 18 0" using assms(1) by (auto simp: clen_code_def)
      then show ?thesis using c True by auto
    next
      case False
      then show ?thesis using assms(1) c clen_depths_le [of bd0 c] bitrev_less by (auto simp: clen_code_def symbol_code_def)
    qed
    moreover have "(2::nat) ^ (bd ! c) \<le> 2 ^ 5" if "bd ! c \<le> 5" using that by (intro power_increasing) simp_all
    ultimately have "bd ! c \<le> 56" "unat (of_nat (sy ! c) :: u64) < 2 ^ (bd ! c)" by (simp_all add: unat_of_nat64)
    moreover have "c = 16 \<and> e < 4 \<or> c = 17 \<and> e < 8 \<or> c < 16" using assms(2) t by (auto simp: ce tok_ok_def)
    ultimately show ?thesis by (auto simp: ce tok_fields_def unat_of_nat64)
  qed
  then show ?thesis by (induction toks) (simp_all add: fields_ok_append)
qed

lemma used_symbols_single:
  assumes "used_symbols data = [k]"
  shows "k < length data" and "data ! k \<noteq> 0" and "\<And>i. i < length data \<Longrightarrow> data ! i \<noteq> 0 \<Longrightarrow> i = k"
  using used_symbols(1) [of _ data] unfolding assms by auto

text \<open>The code for the code lengths.\<close>

lemma clen_code_built:
  assumes "\<forall>t\<in>set toks. fst t < 18" and "toks \<noteq> []" and "length toks \<le> 704" and "37 \<le> length tree"
    and "count_symbols (map fst toks) (replicate 18 0) = Some histo"
  obtains tree' bd0 bd sy code where "createHuffmanTree histo 5 tree (replicate 18 0) = Some (tree', bd0)" "length tree' = length tree"
    "convertBitDepthsToSymbols bd0 (replicate 18 0) = Some sy" "clen_code bd0 bd sy toks"
    "(if fst (count_codes 0 histo (0, 0)) = 1 then go_update bd0 (int (snd (count_codes 0 histo (0, 0)))) 0 else Some bd0) = Some bd"
    "fst (count_codes 0 histo (0, 0)) \<le> 1 \<longleftrightarrow> \<not> complete bd0"
proof -
  obtain h' where h': "count_symbols (map fst toks) (replicate 18 0) = Some h'" "length h' = 18" "\<forall>k<18. h' ! k = count_list (map fst toks) k"
    using count_symbols_ok [of "map fst toks" "replicate 18 0"] assms(1,3) by auto
  have h: "length histo = 18" "\<And>k. k < 18 \<Longrightarrow> histo ! k = count_list (map fst toks) k" using h' assms(5) by auto
  have used: "k \<in> set (used_symbols histo) \<longleftrightarrow> k < 18 \<and> k \<in> fst ` set toks" for k
    using h count_list_0_iff [of "map fst toks" k] by (auto simp: used_symbols)
  have ne: "used_symbols histo \<noteq> []" using used [of "fst (hd toks)"] assms(1,2) by (cases toks) auto
  have l18: "length (used_symbols histo) \<le> 18" using length_used [of histo] h(1) by simp
  have cc: "count_codes 0 histo (0, 0) = (min 2 (length (used_symbols histo)), hd (used_symbols histo))"
    using ne by (simp add: count_codes_ok Let_def)
  show thesis
  proof (cases "length (used_symbols histo) = 1")
    case True
    then obtain c where c: "used_symbols histo = [c]" by (metis length_0_conv length_Suc_conv One_nat_def)
    define bd0 :: "nat list" where "bd0 = (replicate 18 0)[c := 1]"
    have c18: "c < 18" using used_symbols_single(1) [OF c] h(1) by simp
    obtain tree' where t: "createHuffmanTree histo 5 tree (replicate 18 0) = Some (tree', bd0)" "length tree' = length tree"
    proof -
      have "tree \<noteq> []" using assms(4) by auto
      then show thesis using createHuffmanTree_single [OF c, of "replicate 18 0" tree 5] c18 that by (auto simp: bd0_def)
    qed
    have "clen_code bd0 (replicate 18 0) (replicate 18 0) toks"
      using used c c18 assms(1) by (force simp: clen_code_def clen_depths_def bd0_def nth_list_update dest!: set_update_subset_insert [THEN subsetD])
    moreover have "go_update bd0 (int c) 0 = Some (replicate 18 0)" using c18
      by (simp add: go_update_def bd0_def) (metis length_replicate list_update_id list_update_overwrite nth_replicate)
    moreover have "\<not> complete bd0"
    proof -
      have "kraft bd0 = kraft [1]" unfolding bd0_def using c18
        by (simp add: kraft_def list_update_append upd_conv_take_nth_drop min_def)
      then show ?thesis by (simp add: complete_def kraft_def)
    qed
    ultimately show thesis using that [OF t, of "replicate 18 0" "replicate 18 0"] single_symbols_zero [OF c18] cc c by (simp add: bd0_def)
  next
    case False
    then have two: "2 \<le> length (used_symbols histo)" using ne by (cases "used_symbols histo") (auto simp: Suc_le_eq)
    have small: "\<forall>c\<in>set histo. c \<le> 2 ^ 21"
    proof
      fix x assume "x \<in> set histo"
      then obtain k where "k < 18" "x = count_list (map fst toks) k" using h by (metis in_set_conv_nth)
      then show "x \<le> 2 ^ 21" using count_le_length [of "map fst toks" k] assms(3) by simp
    qed
    obtain tree' bd0 where t: "createHuffmanTree histo 5 tree (replicate 18 0) = Some (tree', bd0)" "length tree' = length tree"
      "length bd0 = 18" "complete (take 18 bd0)" "\<forall>k<18. (bd0 ! k = 0 \<longleftrightarrow> histo ! k = 0) \<and> bd0 ! k \<le> 5"
      using createHuffmanTree_ok [of histo 5 "replicate 18 0" tree] two l18 small h(1) assms(4) by auto
    have comp: "complete bd0" using t(3,4) by simp
    obtain sy where s: "convertBitDepthsToSymbols bd0 (replicate 18 0) = Some sy" "length sy = 18" "\<forall>k<18. bd0 ! k \<noteq> 0 \<longrightarrow> sy ! k = symbol_code bd0 k"
      using convert_symbol_code [OF comp, of "replicate 18 0"] t(3) by auto
    have "clen_depths bd0" using t(3,5) by (auto simp: clen_depths_def in_set_conv_nth)
    moreover have "\<forall>t\<in>set toks. fst t < 18 \<and> bd0 ! fst t \<noteq> 0" using t(5) assms(1) h(2) by (auto simp: count_list_0_iff)
    ultimately have "clen_code bd0 bd0 sy toks" using comp s t(3) by (simp add: clen_code_def)
    then show thesis using that [OF t(1,2) s(1)] cc two comp by simp
  qed
qed

text \<open>What \<^verbatim>\<open>writeHuffmanTree\<close> sends: the lengths of the code length code from \<open>skip\<close> to \<open>n\<close>, and the code length
  symbols.\<close>

definition complex_code :: "nat list \<Rightarrow> nat list \<Rightarrow> nat list \<Rightarrow> nat \<Rightarrow> nat \<Rightarrow> (nat \<times> nat) list \<Rightarrow> bool" where
  "complex_code bd0 bd sy skip n toks \<longleftrightarrow> clen_code bd0 bd sy toks \<and> sent_range bd0 skip n \<and> (\<forall>t\<in>set toks. tok_ok t) \<and> toks \<noteq> [] \<and>
     (if complete bd0 then 0 < n \<longrightarrow> bd0 ! (CodeLengthCodeOrder ! (n - 1)) \<noteq> 0 else n = 18)"

definition complex_fields :: "nat list \<Rightarrow> nat list \<Rightarrow> nat list \<Rightarrow> nat \<Rightarrow> nat \<Rightarrow> (nat \<times> nat) list \<Rightarrow> (nat \<times> u64) list" where
  "complex_fields bd0 bd sy skip n toks = clen_fields bd0 skip n @ concat (map (tok_fields bd sy) toks)"

text \<open>The symbols say what the lengths are.\<close>

definition spells :: "(nat \<times> nat) list \<Rightarrow> nat list \<Rightarrow> bool" where
  "spells toks depths \<longleftrightarrow> (\<exists>r. rle_toks (length depths) toks rle_init = Some r \<and>
     depths = fst r @ replicate (length depths - length (fst r)) 0 \<and> (fst r \<noteq> [] \<longrightarrow> last (fst r) \<noteq> 0))"

lemma complete_lengths: "complete depths \<Longrightarrow> \<forall>x\<in>set depths. x < 16"
  by (fastforce simp: complete_def)

lemma writeHuffmanTree_fields:
  assumes "complete depths" and "length depths \<le> 704" and "37 \<le> length tree"
  obtains tree' toks bd0 bd sy skip n where
    "writeHuffmanTree depths tree b = map_option (Pair tree') (put_fields writeBits (complex_fields bd0 bd sy skip n toks) b)"
    "complex_code bd0 bd sy skip n toks" "spells toks depths" "fields_ok (complex_fields bd0 bd sy skip n toks)" "length tree' = length tree"
    "length toks \<le> length depths"
proof -
  define z where "z = replicate 704 (0 :: nat)"
  obtain ta xa ts toks d prev rn len where e: "encodeHuffmanTree depths z z = Some (ta, xa, ts)" "holds 704 704 toks (ta, xa, ts)"
    "rle_toks (length depths) toks rle_init = Some (d, prev, rn, len)" "depths = d @ replicate (length depths - length d) 0"
    "length toks \<le> length depths" "\<forall>t\<in>set toks. tok_ok t" "d \<noteq> [] \<Longrightarrow> last d \<noteq> 0"
    using encodeHuffmanTree_read [OF complete_lengths [OF assms(1)], of z z "length depths"] assms(2) unfolding z_def
    by (metis length_replicate order_refl prod_cases3)
  have h: "take ts ta = map fst toks" "take ts xa = map snd toks" "ts \<le> length ta" "ts \<le> length xa"
    using e(2) by (auto simp: holds_def)
  have g: "go_slice ta 0 (int ts) = Some (map fst toks)" "go_slice xa 0 (int ts) = Some (map snd toks)"
    using h by (simp_all add: go_slice_def)
  have tok18: "\<forall>t\<in>set toks. fst t < 18" using e(6) by (fastforce simp: tok_ok_def)
  have "kraft d = 2 ^ 15"
  proof -
    have "kraft (d @ replicate m 0) = kraft d" for m by (simp add: kraft_def)
    then show ?thesis using e(4) assms(1) by (metis complete_def)
  qed
  then have ne: "toks \<noteq> []" using e(3) by (auto simp: rle_init_def kraft_def)
  obtain histo where c: "count_symbols (map fst toks) (replicate 18 0) = Some histo"
    using count_symbols_ok [of "map fst toks" "replicate 18 0"] tok18 e(5) assms(2) by auto
  have small: "length toks \<le> 704" using e(5) assms(2) by simp
  obtain tree' bd0 bd sy code where k: "createHuffmanTree histo 5 tree (replicate 18 0) = Some (tree', bd0)" "length tree' = length tree"
    "convertBitDepthsToSymbols bd0 (replicate 18 0) = Some sy" "clen_code bd0 bd sy toks"
    "(if fst (count_codes 0 histo (0, 0)) = 1 then go_update bd0 (int (snd (count_codes 0 histo (0, 0)))) 0 else Some bd0) = Some bd"
    "fst (count_codes 0 histo (0, 0)) \<le> 1 \<longleftrightarrow> \<not> complete bd0"
    by (rule clen_code_built [OF tok18 ne small assms(3) c])
  have cd: "clen_depths bd0" and len: "length bd = 18" "length sy = 18" using k(4) by (simp_all add: clen_code_def)
  define nc cc where "nc = fst (count_codes 0 histo (0, 0))" and "cc = snd (count_codes 0 histo (0, 0))"
  have ncc: "count_codes 0 histo (0, 0) = (nc, cc)" by (simp add: nc_def cc_def)
  obtain skip n where w: "writeHuffmanTreeOfHuffmanTreeToBitmask nc bd0 = put_fields writeBits (clen_fields bd0 skip n)"
    "fields_ok (clen_fields bd0 skip n)" "sent_range bd0 skip n" "nc \<le> 1 \<longrightarrow> n = 18"
    "1 < nc \<longrightarrow> 0 < n \<longrightarrow> bd0 ! (CodeLengthCodeOrder ! (n - 1)) \<noteq> 0"
    by (rule writeHuffmanTreeOfHuffmanTreeToBitmask_fields [OF cd, of nc])
  note t = writeHuffmanTreeToBitmask_fields [OF e(6) len, of 0 "map snd toks"]
  have "writeHuffmanTree depths tree b = map_option (Pair tree') (put_fields writeBits (complex_fields bd0 bd sy skip n toks) b)"
    unfolding writeHuffmanTree_def AlphabetSizeInsertAndCopyLength_def AlphabetSizeCodeLengths_def z_def [symmetric] e(1) Option.bind.bind_lunit
      prod.case g c Let_def ncc k(1,3) w(1) k(5) [unfolded ncc fst_conv snd_conv]
    by (simp add: complex_fields_def put_fields_append t map_option_case split: option.splits bind_splits)
  moreover have "complex_code bd0 bd sy skip n toks"
    using k(4,6) w(3-5) e(6) ne by (auto simp: complex_code_def nc_def [symmetric])
  moreover have "spells toks depths" using e(3,4,7) by (auto simp: spells_def)
  moreover have "fields_ok (complex_fields bd0 bd sy skip n toks)"
    using w(2) tok_fields_ok [OF k(4) e(6)] by (simp add: complex_fields_def fields_ok_append)
  ultimately show thesis by (rule that) (use k(2) e(5) in simp_all)
qed

end
