(* ===== verification/Clen_Table.thy ===== *)
theory Clen_Table
  imports Table_Levels Huffman_Encode
begin

text \<open>
  The table of the code length code, \<^verbatim>\<open>BuildCodeLengthsHuffmanTable\<close> of \<^verbatim>\<open>internal/core/huffman.go\<close>: a counting sort of
  the 18 symbols into canonical order, and a table of 32 entries filled code by code. For every complete code of at
  most 5 bits the table answers each window with the code it starts with.
\<close>

subsection \<open>The canonical order\<close>

text \<open>The symbols by length, those without a code last, and the place of a symbol among them.\<close>

definition canon_order :: "nat list \<Rightarrow> nat list" where
  "canon_order ls = map snd (codes_of ls) @ syms ls 0"

definition level_start :: "nat list \<Rightarrow> nat \<Rightarrow> nat" where
  "level_start ls l = (if l = 0 then length (codes_of ls) else start (codes_of ls) l)"

definition place :: "nat list \<Rightarrow> nat \<Rightarrow> nat" where
  "place ls k = level_start ls (ls ! k) + length (syms (take k ls) (ls ! k))"

lemma length_codes_of_sum: "length (codes_of ls) = sum_list (map (\<lambda>l. length (syms ls l)) [1..<16])"
  by (simp add: codes_of_def length_concat comp_def del: upt_rec_numeral)

lemma length_codes_zero:
  assumes "\<forall>x\<in>set ls. x \<le> 15"
  shows "length (codes_of ls) + length (syms ls 0) = length ls"
  using assms
proof (induction ls rule: rev_induct)
  case (snoc x ls)
  have "length (codes_of (ls @ [x])) = sum_list (map (\<lambda>l. length (syms ls l) + (if x = l then 1 else 0)) [1..<16])"
    unfolding length_codes_of_sum syms_snoc by (intro arg_cong [of _ _ sum_list] map_cong) simp_all
  also have "\<dots> = length (codes_of ls) + sum_list (map (\<lambda>l. if x = l then 1 else 0) [1..<16])"
    unfolding sum_list_addf length_codes_of_sum ..
  also have "sum_list (map (\<lambda>l. if x = l then 1 else 0) [1..<16]) = (if x = 0 then 0 else 1::nat)"
    using sum_list_level [of "[1..<16]" x "\<lambda>_. 1"] snoc.prems by auto
  finally show ?case using snoc by (simp add: syms_snoc)
qed (simp add: codes_of_def)

lemma nth_upt_map:
  assumes "map f [a..<b] = xs" and "r < length xs"
  shows "f (a + r) = xs ! r" and "a + r < b"
proof -
  have "length xs = b - a" using assms(1) by auto
  then show "a + r < b" using assms(2) by simp
  then show "f (a + r) = xs ! r" using assms(1) by (metis nth_map_upt less_diff_conv add.commute)
qed

lemma place_order:
  assumes "\<forall>x\<in>set ls. x \<le> 15" and "k < length ls"
  shows "place ls k < length ls" and "canon_order ls ! place ls k = k"
proof -
  define l r where "l = ls ! k" and "r = length (syms (take k ls) l)"
  obtain ys where ys: "syms ls l = syms (take k ls) l @ k # ys" using syms_split [OF assms(2)] l_def by blast
  then have r: "r < length (syms ls l)" "syms ls l ! r = k" by (simp_all add: r_def)
  have p: "place ls k = level_start ls l + r" by (simp add: place_def l_def r_def)
  have tot: "length (codes_of ls) + length (syms ls 0) = length ls" by (rule length_codes_zero [OF assms(1)])
  show "place ls k < length ls" "canon_order ls ! place ls k = k"
  proof (atomize (full), cases "l = 0")
    case True
    then show "place ls k < length ls \<and> canon_order ls ! place ls k = k"
      using p r tot by (simp add: level_start_def canon_order_def nth_append)
  next
    case False
    then have l: "1 \<le> l" "l \<le> 15" using assms by (auto simp: l_def)
    note u = nth_upt_map [OF codes_of_level(1) [OF l] r(1)]
    have "start (codes_of ls) (Suc l) \<le> length (codes_of ls)" by (simp add: start_def)
    then show "place ls k < length ls \<and> canon_order ls ! place ls k = k"
      using p u r(2) tot False by (simp add: level_start_def canon_order_def nth_append)
  qed
qed

lemma canon_order_perm:
  assumes "\<forall>x\<in>set ls. x \<le> 15"
  shows "distinct (canon_order ls)" and "length (canon_order ls) = length ls" and "set (canon_order ls) = {..<length ls}"
proof -
  show l: "length (canon_order ls) = length ls" using length_codes_zero [OF assms] by (simp add: canon_order_def)
  have "k \<in> set (canon_order ls)" if "k < length ls" for k
    using place_order [OF assms that] l by (metis nth_mem)
  moreover have "k < length ls" if "k \<in> set (canon_order ls)" for k
    using that by (auto simp: canon_order_def codes_of_def in_syms)
  ultimately show s: "set (canon_order ls) = {..<length ls}" by blast
  show "distinct (canon_order ls)" by (rule card_distinct) (simp add: l s)
qed

lemma order_place:
  assumes "\<forall>x\<in>set ls. x \<le> 15" and "j < length ls"
  obtains k where "k < length ls" "place ls k = j" "canon_order ls ! j = k"
proof -
  note p = canon_order_perm [OF assms(1)]
  define k where "k = canon_order ls ! j"
  have k: "k < length ls" using p assms(2) unfolding k_def by (metis lessThan_iff nth_mem)
  have "place ls k = j" using place_order [OF assms(1) k] p assms(2) by (simp add: nth_eq_iff_index_eq k_def)
  then show thesis using that k k_def by simp
qed

lemma place_inj:
  assumes "\<forall>x\<in>set ls. x \<le> 15" and "k < length ls" and "k' < length ls" and "place ls k = place ls k'"
  shows "k = k'"
  using place_order(2) [OF assms(1,2)] place_order(2) [OF assms(1,3)] assms(4) by metis


subsection \<open>Sorting\<close>

text \<open>The histogram the builder is given.\<close>

definition clen_counts :: "nat list \<Rightarrow> nat list \<Rightarrow> bool" where
  "clen_counts ls count \<longleftrightarrow> 6 \<le> length count \<and> (\<forall>l. 1 \<le> l \<and> l \<le> 5 \<longrightarrow> count ! l = length (syms ls l))"

definition offsets_at :: "nat list \<Rightarrow> nat \<Rightarrow> int list \<Rightarrow> bool" where
  "offsets_at ls sy offset \<longleftrightarrow> length offset = 6 \<and>
     (\<forall>l\<le>5. offset ! l = int (level_start ls l) + int (length (syms (take sy ls) l)) - 1)"

lemma clens_offsets_ok:
  assumes "length ls = 18" and "\<forall>x\<in>set ls. x \<le> 5" and "clen_counts ls count"
  shows "\<exists>offset. clens_offsets count 5 (-1) (replicate 6 0) = Some offset \<and> length offset = 6 \<and> offsets_at ls 18 (offset[0 := 17])"
proof -
  define c1 c2 c3 c4 c5 where cs: "c1 = length (syms ls 1)" "c2 = length (syms ls 2)" "c3 = length (syms ls 3)"
    "c4 = length (syms ls 4)" "c5 = length (syms ls 5)"
  have c: "go_index count 1 = Some c1" "go_index count 2 = Some c2" "go_index count 3 = Some c3" "go_index count 4 = Some c4"
    "go_index count 5 = Some c5"
    using assms(3) by (simp_all add: go_index_def clen_counts_def cs)
  have s: "start (codes_of ls) l = sum_list (map (\<lambda>k. length (syms ls k)) [1..<l])" if "l \<le> 16" for l
    by (rule start_codes_of [OF that])
  have upts: "[Suc 0..<Suc 0] = []" "[Suc 0..<2] = [1]" "[Suc 0..<3] = [1, 2]" "[Suc 0..<4] = [1, 2, 3]" "[Suc 0..<5] = [1, 2, 3, 4]"
    by code_simp+
  have s1: "start (codes_of ls) 1 = 0" "start (codes_of ls) 2 = c1" "start (codes_of ls) 3 = c1 + c2" "start (codes_of ls) 4 = c1 + c2 + c3"
    "start (codes_of ls) 5 = c1 + c2 + c3 + c4"
    unfolding s [of 1, simplified] s [of 2, simplified] s [of 3, simplified] s [of 4, simplified] s [of 5, simplified]
      upts cs using s [of 1] by simp_all
  have tot: "length (codes_of ls) + length (syms ls 0) = 18" using length_codes_zero [of ls] assms(1,2) by fastforce
  define off where "off = [0, int c1 - 1, int c1 + int c2 - 1, int c1 + int c2 + int c3 - 1, int c1 + int c2 + int c3 + int c4 - 1,
    int c1 + int c2 + int c3 + int c4 + int c5 - 1]"
  have run: "clens_offsets count 5 (-1) (replicate 6 0) = Some off"
    unfolding off_def by (simp add: eval_nat_numeral(2,3) c go_update_def HuffmanMaxCodeLengthCodeLength_def)
  have l6: "l \<le> 5 \<longleftrightarrow> l = 0 \<or> l = 1 \<or> l = 2 \<or> l = 3 \<or> l = 4 \<or> l = 5" for l :: nat by auto
  have "offsets_at ls 18 (off[0 := 17])" unfolding offsets_at_def l6 off_def using tot assms(1) s1 cs
    by (auto simp: level_start_def)
  then show ?thesis using run by (intro exI [of _ off]) (simp add: off_def)
qed

lemma clens_sort_ok:
  assumes "length ls = 18" and "\<forall>x\<in>set ls. x \<le> 5" and "sy \<le> 18" and "offsets_at ls sy offset" and "length sorted1 = 18"
    and "\<forall>k. sy \<le> k \<and> k < 18 \<longrightarrow> sorted1 ! place ls k = int k"
  shows "\<exists>sorted2 offset'. clens_sort ls sy sorted1 offset = Some (sorted2, offset') \<and> offsets_at ls 0 offset' \<and> length sorted2 = 18 \<and>
    (\<forall>k<18. sorted2 ! place ls k = int k)"
  using assms(3-)
proof (induction sy arbitrary: sorted1 offset)
  case (Suc sy)
  have ls: "\<forall>x\<in>set ls. x \<le> 15" using assms(2) by fastforce
  define l where "l = ls ! sy"
  have sy: "sy < length ls" using Suc.prems(1) assms(1) by simp
  have l: "l \<le> 5" using sy assms(2) by (simp add: l_def)
  have tk: "syms (take (Suc sy) ls) m = syms (take sy ls) m @ (if l = m then [sy] else [])" for m
    using sy by (simp add: take_Suc_conv_app_nth syms_snoc l_def)
  have off: "offset ! l = int (place ls sy)" "length offset = 6"
    using Suc.prems(2) l tk [of l] by (simp_all add: offsets_at_def place_def l_def)
  have pl: "place ls sy < 18" using place_order(1) [OF ls sy] assms(1) by simp
  define off1 sorted2 where "off1 = offset[l := int (place ls sy) - 1]" and "sorted2 = sorted1[place ls sy := int sy]"
  have o1: "offsets_at ls sy off1"
    using Suc.prems(2) l tk off by (auto simp: offsets_at_def off1_def nth_list_update place_def l_def)
  have s2: "sorted2 ! place ls k = int k" if "sy \<le> k" "k < 18" for k
    using Suc.prems(3,4) that place_inj [OF ls, of sy k] sy assms(1) pl by (cases "k = sy") (auto simp: sorted2_def nth_list_update)
  have step: "clens_sort ls (Suc sy) sorted1 offset = clens_sort ls sy sorted2 off1"
    using sy off l pl Suc.prems(3) by (simp add: go_index_def go_update_def l_def [symmetric] sorted2_def off1_def)
  show ?case unfolding step by (rule Suc.IH) (use Suc.prems o1 s2 in \<open>simp_all add: sorted2_def\<close>)
qed simp


subsection \<open>Filling\<close>

definition in_order :: "(nat \<times> nat) list \<Rightarrow> int list \<Rightarrow> bool" where
  "in_order cs sorted1 \<longleftrightarrow> (\<forall>j<length cs. go_index sorted1 (int j) = Some (int (snd (cs ! j))))"

lemma clens_fill_ok:
  assumes "canon cs" and "j + n \<le> length cs" and "\<And>i. j \<le> i \<Longrightarrow> i < j + n \<Longrightarrow> fst (cs ! i) = b" and "b \<le> 5"
    and "in_order cs sorted1" and "filled cs 32 j table"
  shows "\<exists>table'. clens_fill n j sorted1 (2 ^ b) (base cs j div 128) (2 ^ (8 - b)) (int b) table =
      Some (j + n, base cs (j + n) div 128, table') \<and> length table' = length table \<and> filled cs 32 (j + n) table'"
  using assms(2,3,6)
proof (induction n arbitrary: j table)
  case (Suc n)
  have j: "j < length cs" "fst (cs ! j) = b" using Suc.prems(1,2) by auto
  have b8: "b \<le> 8" using assms(4) by simp
  note key = root_key [OF assms(1) j(1), unfolded j(2), OF b8]
  have r: "code_bits cs j < 2 ^ b" using code_bits_less [of cs j] j(2) by simp
  have T: "0 + 2 ^ 5 \<le> length table" using Suc.prems(3) by (simp add: filled_def)
  obtain table1 where t1: "in_slice (0 + code_bits cs j) (\<lambda>t. replicateValue t (code_entry cs j) (2 ^ b) (2 ^ 5)) table = Some table1"
    "length table1 = length table"
    "\<And>p. p < length table \<Longrightarrow> table1 ! p = (if 0 \<le> p \<and> p < 0 + 2 ^ 5 \<and> (p - 0) mod 2 ^ b = code_bits cs j then code_entry cs j else table ! p)"
    using in_slice_replicate [OF r assms(4) T, of "code_entry cs j"] by blast
  have f1: "filled cs 32 (Suc j) table1"
    by (rule filled_step [OF assms(1) j(1) Suc.prems(3) t1(2)]) (use T t1(3) in \<open>simp add: matches_def j(2)\<close>)
  have IH: "\<exists>table'. clens_fill n (Suc j) sorted1 (2 ^ b) (base cs (Suc j) div 128) (2 ^ (8 - b)) (int b) table1 =
      Some (Suc j + n, base cs (Suc j + n) div 128, table') \<and> length table' = length table1 \<and> filled cs 32 (Suc j + n) table'"
    by (rule Suc.IH [OF _ _ f1]) (use Suc.prems(1,2) in auto)
  have v: "nat (int (snd (cs ! j)) mod 65536) = snd (cs ! j)" using canonD(3) [OF assms(1) j(1)] by simp
  have g: "go_index sorted1 (int j) = Some (int (snd (cs ! j)))" using assms(5) j(1) by (simp add: in_order_def)
  have "mkCode b (snd (cs ! j)) = code_entry cs j" using mkCode_entry [OF assms(1) j(1)] j(2) by simp
  then have "clens_fill (Suc n) j sorted1 (2 ^ b) (base cs j div 128) (2 ^ (8 - b)) (int b) table =
      clens_fill n (Suc j) sorted1 (2 ^ b) (base cs (Suc j) div 128) (2 ^ (8 - b)) (int b) table1"
    unfolding clens_fill.simps(2) g using t1(1) by (simp add: key v HuffmanMaxCodeLengthCodeLength_def)
  then show ?case using IH t1(2) by auto
qed simp

lemma clens_lengths_ok:
  assumes "canon cs" and "\<forall>l. 1 \<le> l \<and> l \<le> 5 \<longrightarrow> go_index count (int l) = Some (start cs (Suc l) - start cs l)"
    and "in_order cs sorted1" and "k \<le> 5" and "filled cs 32 (start cs (6 - k)) table"
  shows "\<exists>table'. clens_lengths count k (start cs (6 - k)) sorted1 (2 ^ (6 - k)) (base cs (start cs (6 - k)) div 128) (2 ^ (2 + k)) table =
      Some table' \<and> length table' = length table \<and> filled cs 32 (start cs 6) table'"
  using assms(4,5)
proof (induction k arbitrary: table)
  case (Suc k)
  define b where "b = 5 - k"
  have b: "1 \<le> b" "b \<le> 5" "6 - Suc k = b" "6 - k = Suc b" "8 - b = 2 + Suc k" using Suc.prems(1) by (simp_all add: b_def)
  define j n where "j = start cs b" and "n = start cs (Suc b) - start cs b"
  have jn: "j + n = start cs (Suc b)" using start_mono [of b "Suc b" cs] by (simp add: j_def n_def)
  have "j + n \<le> length cs" using start_length(2) [OF assms(1), of "Suc b"] by (simp only: jn)
  moreover have "fst (cs ! i) = b" if "j \<le> i" "i < j + n" for i
    using start_range [OF assms(1), of b i] that by (simp only: jn) (simp only: j_def)
  ultimately obtain table1 where t1: "clens_fill n j sorted1 (2 ^ b) (base cs j div 128) (2 ^ (2 + Suc k)) (int b) table =
      Some (j + n, base cs (j + n) div 128, table1)" "length table1 = length table" "filled cs 32 (j + n) table1"
    using clens_fill_ok [OF assms(1) _ _ b(2) assms(3), of j n table] Suc.prems(2) unfolding b(3,5) j_def [symmetric] by blast
  have g: "go_index count (int b) = Some n" using assms(2) b(1,2) by (simp only: n_def)
  have k2: "(2::nat) ^ (2 + Suc k) div 2 = 2 ^ (2 + k)" by simp
  have l5: "HuffmanMaxCodeLengthCodeLength - k = b" by (simp add: HuffmanMaxCodeLengthCodeLength_def b_def)
  have "clens_lengths count (Suc k) j sorted1 (2 ^ b) (base cs j div 128) (2 ^ (2 + Suc k)) table =
      clens_lengths count k (start cs (6 - k)) sorted1 (2 ^ (6 - k)) (base cs (start cs (6 - k)) div 128) (2 ^ (2 + k)) table1"
    unfolding clens_lengths.simps(2) l5 Let_def g Option.bind.bind_lunit t1(1) k2 jn b(4) by simp
  moreover have "filled cs 32 (start cs (6 - k)) table1" using t1(3) by (simp only: jn b(4))
  ultimately show ?case using Suc.IH [of table1] Suc.prems(1) t1(2) unfolding b(3) j_def [symmetric] by simp
qed simp


subsection \<open>The table\<close>

lemma sorted_in_order:
  assumes "length ls = 18" and "\<forall>x\<in>set ls. x \<le> 15" and "length sorted1 = 18" and "\<forall>k<18. sorted1 ! place ls k = int k"
  shows "in_order (codes_of ls) sorted1"
  unfolding in_order_def
proof (intro allI impI)
  fix j assume j: "j < length (codes_of ls)"
  then have "j < length ls" using length_codes_zero [OF assms(2)] by simp
  then obtain k where k: "k < length ls" "place ls k = j" "canon_order ls ! j = k" by (rule order_place [OF assms(2)])
  have "canon_order ls ! j = snd (codes_of ls ! j)" using j by (simp add: canon_order_def nth_append)
  then show "go_index sorted1 (int j) = Some (int (snd (codes_of ls ! j)))"
    using k(3) assms(4) [rule_format, of k] k(1,2) assms(1,3) \<open>j < length ls\<close> by (simp add: go_index_def)
qed

text \<open>What both branches of the builder have done before they differ.\<close>

lemma clens_prepare:
  assumes "length ls = 18" and "\<forall>x\<in>set ls. x \<le> 5" and "clen_counts ls count"
  obtains sorted2 offset' where "BuildCodeLengthsHuffmanTable table ls count =
      (if length (codes_of ls) = 1 then do {
         table \<leftarrow> go_update table 0 (mkCode 0 (nat (sorted2 ! 0 mod 2 ^ 16))); double_table 32 1 table }
       else clens_lengths count 5 0 sorted2 2 0 128 table)"
    "in_order (codes_of ls) sorted2"
proof -
  have ls: "\<forall>x\<in>set ls. x \<le> 15" using assms(2) by fastforce
  obtain offset where o: "clens_offsets count 5 (-1) (replicate 6 0) = Some offset" "offsets_at ls 18 (offset[0 := 17])"
    using clens_offsets_ok [OF assms] by blast
  obtain sorted2 offset' where s: "clens_sort ls 18 (replicate 18 0) (offset[0 := 17]) = Some (sorted2, offset')" "offsets_at ls 0 offset'"
    "length sorted2 = 18" "\<forall>k<18. sorted2 ! place ls k = int k"
    using clens_sort_ok [OF assms(1,2) order_refl o(2), of "replicate 18 0"] by auto
  have "offset' ! 0 = 0 \<longleftrightarrow> length (codes_of ls) = 1" using s(2) by (auto simp: offsets_at_def level_start_def)
  then have "BuildCodeLengthsHuffmanTable table ls count =
      (if length (codes_of ls) = 1 then do {
         table \<leftarrow> go_update table 0 (mkCode 0 (nat (sorted2 ! 0 mod 2 ^ 16))); double_table 32 1 table }
       else clens_lengths count 5 0 sorted2 2 0 128 table)"
    using o(1) s(1) by (simp add: BuildCodeLengthsHuffmanTable_def HuffmanMaxCodeLengthCodeLength_def AlphabetSizeCodeLengths_def
      reverseBitsHigh_def reverseBitsWidth_def)
  then show thesis using that sorted_in_order [OF assms(1) ls s(3,4)] by blast
qed

lemma complete_not_single:
  assumes "complete ls" and "length ls \<le> 704"
  shows "length (codes_of ls) \<noteq> 1"
proof
  assume one: "length (codes_of ls) = 1"
  have c: "canon (codes_of ls)" using canon_codes_of [OF assms(1)] assms(2) by simp
  have "base (codes_of ls) 1 = 2 ^ 15" using base_length [OF c] one by simp
  then have "(2::nat) ^ (15 - fst (codes_of ls ! 0)) = 2 ^ 15" using one by (simp add: base_Suc)
  then have "15 - fst (codes_of ls ! 0) = 15" by (metis power_inject_exp one_less_numeral_iff semiring_norm(76))
  then show False using canonD(1) [OF c, of 0] one by simp
qed

lemma codes_of_short:
  assumes "\<forall>x\<in>set ls. x \<le> b" and "c \<in> set (codes_of ls)"
  shows "fst c \<le> b"
proof -
  have "\<exists>l s. c = (l, s) \<and> s \<in> set (syms ls l)"
    using assms(2) unfolding codes_of_def set_concat set_map image_iff Union_iff by (elim bexE) (auto simp del: upt_rec_numeral)
  then show ?thesis using assms(1) by (fastforce simp: in_syms dest: nth_mem)
qed

text \<open>The entry of a window depends only on the bits it says are used.\<close>

definition prefix_table :: "HuffmanCode list \<Rightarrow> bool" where
  "prefix_table table \<longleftrightarrow> 32 \<le> length table \<and> (\<forall>x. Bits (table ! (x mod 32)) \<le> 5 \<and>
     (\<forall>w. w mod 2 ^ Bits (table ! (x mod 32)) = x mod 2 ^ Bits (table ! (x mod 32)) \<longrightarrow> table ! (w mod 32) = table ! (x mod 32)))"

lemma short_matches:
  assumes "fst (cs ! j) \<le> 5"
  shows "matches cs j (x mod 32) \<longleftrightarrow> matches cs j x"
proof -
  have "(2::nat) ^ fst (cs ! j) dvd 2 ^ 5" using assms by (rule le_imp_power_dvd)
  then show ?thesis by (simp add: matches_def mod_mod_cancel)
qed

lemma filled_prefix_table:
  assumes "canon cs" and "\<forall>j<length cs. fst (cs ! j) \<le> 5" and "filled cs 32 (length cs) table"
  shows "prefix_table table" and "j < length cs \<Longrightarrow> matches cs j x \<Longrightarrow> table ! (x mod 32) = code_entry cs j"
proof -
  have entry: "table ! (x mod 32) = code_entry cs j" if "j < length cs" "matches cs j x" for j x
  proof -
    have "x mod 32 < 32" by simp
    moreover have "matches cs j (x mod 32)" using that short_matches assms(2) by blast
    ultimately show ?thesis using assms(3) that(1) unfolding filled_def by blast
  qed
  then show "j < length cs \<Longrightarrow> matches cs j x \<Longrightarrow> table ! (x mod 32) = code_entry cs j" .
  show "prefix_table table"
    unfolding prefix_table_def
  proof (intro conjI allI)
    show "32 \<le> length table" using assms(3) by (simp add: filled_def)
    fix x
    obtain j where j: "j < length cs" "matches cs j x" by (rule code_exists [OF assms(1)])
    have e: "table ! (x mod 32) = code_entry cs j" by (rule entry [OF j])
    show "Bits (table ! (x mod 32)) \<le> 5" using assms(2) j(1) by (simp add: e code_entry_def)
    fix w
    have "table ! (w mod 32) = code_entry cs j" if "w mod 2 ^ fst (cs ! j) = x mod 2 ^ fst (cs ! j)"
      by (rule entry [OF j(1)]) (use that j(2) in \<open>simp add: matches_def\<close>)
    then show "w mod 2 ^ Bits (table ! (x mod 32)) = x mod 2 ^ Bits (table ! (x mod 32)) \<longrightarrow> table ! (w mod 32) = table ! (x mod 32)"
      by (simp add: e code_entry_def)
  qed
qed

text \<open>The table, for a complete code.\<close>

lemma BuildCodeLengthsHuffmanTable_complete:
  assumes "complete ls" and "length ls = 18" and "\<forall>x\<in>set ls. x \<le> 5" and "clen_counts ls count" and "32 \<le> length table"
  shows "\<exists>table'. BuildCodeLengthsHuffmanTable table ls count = Some table' \<and> length table' = length table \<and> prefix_table table' \<and>
    (\<forall>k w. k < 18 \<and> ls ! k \<noteq> 0 \<and> w mod 2 ^ (ls ! k) = symbol_code ls k \<longrightarrow> table' ! (w mod 32) = \<lparr>Bits = ls ! k, Value = k\<rparr>)"
proof -
  define cs where "cs = codes_of ls"
  have c: "canon cs" using canon_codes_of [OF assms(1)] assms(2) by (simp add: cs_def)
  obtain sorted2 where b: "BuildCodeLengthsHuffmanTable table ls count =
      (if length cs = 1 then do {
         table \<leftarrow> go_update table 0 (mkCode 0 (nat (sorted2 ! 0 mod 2 ^ 16))); double_table 32 1 table }
       else clens_lengths count 5 0 sorted2 2 0 128 table)" "in_order cs sorted2"
    using clens_prepare [OF assms(2-4), of table] unfolding cs_def by metis
  have two: "length cs \<noteq> 1" unfolding cs_def by (rule complete_not_single [OF assms(1)]) (use assms(2) in simp)
  have s0: "start cs 1 = 0" using start_codes_of [of 1 ls] by (simp add: cs_def)
  have cnt: "\<forall>l. 1 \<le> l \<and> l \<le> 5 \<longrightarrow> go_index count (int l) = Some (start cs (Suc l) - start cs l)"
    using assms(4) codes_of_level(2) [of _ ls] by (auto simp: clen_counts_def cs_def go_index_def)
  have "filled cs 32 (start cs (6 - 5)) table" using assms(5) s0 by (simp add: filled_def)
  then obtain table' where t: "clens_lengths count 5 0 sorted2 2 0 128 table = Some table'" "length table' = length table"
    "filled cs 32 (start cs 6) table'"
    using clens_lengths_ok [OF c cnt b(2) order_refl, of table] s0 by auto
  have short: "fst x \<le> 5" if "x \<in> set cs" for x
    using codes_of_short [OF assms(3)] that by (simp add: cs_def)
  then have "filter (\<lambda>c. fst c < 6) cs = cs" by (intro filter_True ballI) (simp add: order_le_less_trans [of _ 5])
  then have "start cs 6 = length cs" by (simp add: start_def)
  then have f: "filled cs 32 (length cs) table'" using t(3) by simp
  note p = filled_prefix_table [OF c _ f]
  have sh: "\<forall>j<length cs. fst (cs ! j) \<le> 5" using short by simp
  have "table' ! (w mod 32) = \<lparr>Bits = ls ! k, Value = k\<rparr>" if k: "k < 18" "ls ! k \<noteq> 0" "w mod 2 ^ (ls ! k) = symbol_code ls k" for k w
  proof -
    obtain j where j: "j < length cs" "cs ! j = (ls ! k, k)" "matches cs j w"
      using symbol_code_matches [OF assms(1), of k w] k assms(2) by (auto simp: cs_def)
    then show ?thesis using p(2) [OF sh j(1,3)] by (simp add: code_entry_def)
  qed
  then show ?thesis using b(1) two t(1,2) p(1) [OF sh] by auto
qed

text \<open>A code length code with a single symbol takes no bits.\<close>

lemma BuildCodeLengthsHuffmanTable_single:
  assumes "length ls = 18" and "\<forall>x\<in>set ls. x \<le> 5" and "clen_counts ls count" and "32 \<le> length table"
    and "k < 18" and "ls ! k \<noteq> 0" and "\<forall>i<18. i \<noteq> k \<longrightarrow> ls ! i = 0"
  shows "\<exists>table'. BuildCodeLengthsHuffmanTable table ls count = Some table' \<and> length table' = length table \<and> prefix_table table' \<and>
    (\<forall>w. table' ! (w mod 32) = \<lparr>Bits = 0, Value = k\<rparr>)"
proof -
  have ls: "\<forall>x\<in>set ls. x \<le> 15" using assms(2) by fastforce
  obtain sorted2 where b: "BuildCodeLengthsHuffmanTable table ls count =
      (if length (codes_of ls) = 1 then do {
         table \<leftarrow> go_update table 0 (mkCode 0 (nat (sorted2 ! 0 mod 2 ^ 16))); double_table 32 1 table }
       else clens_lengths count 5 0 sorted2 2 0 128 table)" "in_order (codes_of ls) sorted2"
    using clens_prepare [OF assms(1-3), of table] by metis
  have "set (syms ls 0) = {..<18} - {k}" using assms by (auto simp: in_syms)
  then have "length (syms ls 0) = 17" using distinct_card [OF distinct_syms [of ls 0]] assms(5) by simp
  then have one: "length (codes_of ls) = 1" using length_codes_zero [OF ls] assms(1) by simp
  have "snd (codes_of ls ! 0) = k"
  proof -
    have "codes_of ls ! 0 \<in> set (codes_of ls)" using one by simp
    then obtain l where "1 \<le> l" "codes_of ls ! 0 = (l, snd (codes_of ls ! 0))" "snd (codes_of ls ! 0) \<in> set (syms ls l)"
      by (auto simp: codes_of_def)
    then show ?thesis using assms(1,7) by (auto simp: in_syms)
  qed
  then have s0: "sorted2 ! 0 = int k" using b(2) one by (auto simp: in_order_def go_index_def split: if_splits)
  define e where "e = \<lparr>Bits = 0, Value = k\<rparr>"
  have e: "mkCode 0 (nat (sorted2 ! 0 mod 2 ^ 16)) = e" using assms(5) by (simp add: s0 mkCode_def e_def)
  obtain table' where t: "double_table (2 ^ 5) (2 ^ 0) (table[0 := e]) = Some table'" "length table' = length (table[0 := e])"
    "\<forall>p<length (table[0 := e]). table' ! p = (if p < 2 ^ 5 then table[0 := e] ! (p mod 2 ^ 0) else table[0 := e] ! p)"
    using double_table_ok [of 0 5 "table[0 := e]"] assms(4) by auto
  have "0 < length table" using assms(4) by linarith
  then have "go_update table 0 e = Some (table[0 := e])" by (simp add: go_update_def)
  then have "BuildCodeLengthsHuffmanTable table ls count = Some table'" using b(1) one e t(1) by simp
  moreover have "table' ! (w mod 32) = e" for w
  proof -
    have "w mod 32 < length table" using assms(4) mod_less_divisor [of 32 w] by linarith
    then show ?thesis using t(3) \<open>0 < length table\<close> by simp
  qed
  ultimately show ?thesis using t(2) assms(4) by (auto simp: e_def prefix_table_def)
qed

text \<open>C33. The table of the code length code: for every complete list of 18 lengths of at most 5 bits, with their histogram,
  \<^verbatim>\<open>BuildCodeLengthsHuffmanTable\<close> fills 32 entries so that the entry at the low 5 bits of a window that starts with the code of a
  symbol is this symbol with its length, and every entry depends only on the bits it says it uses.\<close>

theorem BuildCodeLengthsHuffmanTable_decodes:
  assumes "complete ls" and "length ls = 18" and "\<forall>x\<in>set ls. x \<le> 5" and "clen_counts ls count" and "32 \<le> length table"
  shows "\<exists>table'. BuildCodeLengthsHuffmanTable table ls count = Some table' \<and> length table' = length table \<and> prefix_table table' \<and>
    (\<forall>k w. k < 18 \<and> ls ! k \<noteq> 0 \<and> w mod 2 ^ (ls ! k) = symbol_code ls k \<longrightarrow> table' ! (w mod 32) = \<lparr>Bits = ls ! k, Value = k\<rparr>)"
  by (rule BuildCodeLengthsHuffmanTable_complete [OF assms])

definition flat_lengths :: "nat list" where
  "flat_lengths = replicate 16 4 @ [0, 0]"

theorem BuildCodeLengthsHuffmanTable_decodes_witness:
  "\<exists>table'. BuildCodeLengthsHuffmanTable (replicate 32 (mkCode 0 0)) flat_lengths ((replicate 16 0)[4 := 16]) = Some table' \<and>
    length table' = length (replicate 32 (mkCode 0 0)) \<and> prefix_table table' \<and>
    (\<forall>k w. k < 18 \<and> flat_lengths ! k \<noteq> 0 \<and> w mod 2 ^ (flat_lengths ! k) = symbol_code flat_lengths k \<longrightarrow>
       table' ! (w mod 32) = \<lparr>Bits = flat_lengths ! k, Value = k\<rparr>)"
proof (rule BuildCodeLengthsHuffmanTable_decodes)
  have l5: "1 \<le> l \<and> l \<le> 5 \<longleftrightarrow> l = 1 \<or> l = 2 \<or> l = 3 \<or> l = 4 \<or> l = 5" for l :: nat by auto
  have "length (syms flat_lengths l) = (if l = 4 then 16 else 0)" if "l = 1 \<or> l = 2 \<or> l = 3 \<or> l = 4 \<or> l = 5" for l
    using that by (elim disjE; simp only:; code_simp)
  then show "clen_counts flat_lengths ((replicate 16 0)[4 := 16])"
    unfolding clen_counts_def l5 by (simp add: nth_list_update)
  show "complete flat_lengths" by (simp add: complete_def kraft_def flat_lengths_def sum_list_replicate)
qed (simp_all add: flat_lengths_def)

end
