(* ===== verification/Huffman_Roundtrip.thy ===== *)
theory Huffman_Roundtrip
  imports Rle_Encode Table_Correct
begin

text \<open>
  The encoder's code lengths through the decoder: the run-length codes \<^verbatim>\<open>encodeHuffmanTree\<close> writes drive
  \<^verbatim>\<open>processSingleCodeLength\<close> and \<^verbatim>\<open>processRepeatedCodeLength\<close>, the lists they leave go to \<^verbatim>\<open>BuildHuffmanTable\<close>, and
  the table decodes the values \<^verbatim>\<open>convertBitDepthsToSymbols\<close> gives the symbols.
\<close>

subsection \<open>Reading the codes\<close>

text \<open>What \<^verbatim>\<open>readSymbolCodeLengths\<close> does with a code length symbol and its extra bits.\<close>

definition process_code :: "nat \<Rightarrow> nat \<times> nat \<Rightarrow> metablockHeaderArena \<Rightarrow> metablockHeaderArena option" where
  "process_code alphabetSize = (\<lambda>(c, e) h. if c < RepeatPreviousCodeLength then processSingleCodeLength c h
     else processRepeatedCodeLength c e alphabetSize h)"

fun process_codes :: "nat \<Rightarrow> (nat \<times> nat) list \<Rightarrow> metablockHeaderArena \<Rightarrow> metablockHeaderArena option" where
  "process_codes alphabetSize [] h = Some h"
| "process_codes alphabetSize (t # ts) h = Option.bind (process_code alphabetSize t h) (process_codes alphabetSize ts)"

lemma run_rep_symbol [simp]: "run_rep r (h\<lparr>h_symbol := k\<rparr>) = run_rep r h"
  by (cases r) (simp add: run_rep_def lists_rep_def)

lemma rle_tok_grows: "rle_tok size1 t r = Some r' \<Longrightarrow> length (fst r) \<le> length (fst r')"
  by (auto simp: rle_tok_def rle_single_def rle_repeat_def Let_def split: prod.splits if_splits)

lemma rle_toks_grows: "rle_toks size1 ts r = Some r' \<Longrightarrow> length (fst r) \<le> length (fst r')"
proof (induction ts arbitrary: r)
  case (Cons t ts)
  then obtain r1 where "rle_tok size1 t r = Some r1" "rle_toks size1 ts r1 = Some r'" by (auto simp: rle_toks.simps split: bind_splits)
  then show ?case using rle_tok_grows Cons.IH by (meson le_trans)
qed simp

lemma process_code_ok:
  assumes "run_rep r h" and "h_symbol h = length (fst r)" and "size1 \<le> 704" and "tok_ok t"
    and "rle_tok size1 t r = Some r'" and "length (fst r') \<le> size1"
  shows "\<exists>h'. process_code size1 t h = Some h' \<and> run_rep r' h' \<and> h_symbol h' = length (fst r')"
proof -
  obtain c e where t: "t = (c, e)" by fastforce
  show ?thesis
  proof (cases "c < 16")
    case True
    then have r': "r' = rle_single c r" using assms(5) by (simp add: t rle_tok_def)
    then have "length (fst r') = length (fst r) + 1" by (cases r) (simp add: rle_single_def)
    moreover obtain h' where "single_code c (length (fst r)) h = Some h'" "run_rep r' h'" "h_symbol h' = h_symbol h"
      using single_code_ok [OF assms(1), of c] True r' assms(3,6) calculation by auto
    ultimately show ?thesis using True assms(2,3,6)
      by (simp add: t process_code_def processSingleCodeLength_def RepeatPreviousCodeLength_def)
  next
    case False
    then have r': "rle_repeat size1 (c = 16) e r = Some r'" using assms(5) by (simp add: t rle_tok_def)
    have e: "e < 8" using assms(4) False by (auto simp: t tok_ok_def)
    have "length (fst r) \<le> size1" using rle_tok_grows [OF assms(5)] assms(6) by simp
    then obtain h' where "repeat_code c e size1 (length (fst r)) h = Some (length (fst r'), h')" "run_rep r' h'"
      using repeat_code_ok [OF assms(1) _ assms(3) e, of "c = 16" c] r' by (auto simp: RepeatPreviousCodeLength_def)
    then show ?thesis using False assms(2) by (simp add: t process_code_def processRepeatedCodeLength_def RepeatPreviousCodeLength_def)
  qed
qed

lemma process_codes_ok:
  assumes "run_rep r h" and "h_symbol h = length (fst r)" and "size1 \<le> 704" and "\<forall>t\<in>set ts. tok_ok t"
    and "rle_toks size1 ts r = Some r'" and "length (fst r') \<le> size1"
  shows "\<exists>h'. process_codes size1 ts h = Some h' \<and> run_rep r' h' \<and> h_symbol h' = length (fst r')"
  using assms
proof (induction ts arbitrary: r h)
  case (Cons t ts)
  then obtain r1 where r1: "rle_tok size1 t r = Some r1" "rle_toks size1 ts r1 = Some r'" by (auto simp: rle_toks.simps split: bind_splits)
  have "length (fst r1) \<le> size1" using rle_toks_grows [OF r1(2)] Cons.prems(6) by simp
  then obtain h1 where "process_code size1 t h = Some h1" "run_rep r1 h1" "h_symbol h1 = length (fst r1)"
    using process_code_ok [OF Cons.prems(1-3) _ r1(1)] Cons.prems(4) by auto
  then show ?case using Cons.IH [of r1 h1] Cons.prems r1(2) by simp
qed simp


subsection \<open>Unused symbols at the end\<close>

lemma syms_zeros: "1 \<le> l \<Longrightarrow> syms (ls @ replicate k 0) l = syms ls l"
  by (induction k) (simp_all add: syms_snoc replicate_append_same [symmetric] flip: append_assoc)

lemma codes_of_zeros: "codes_of (ls @ replicate k 0) = codes_of ls"
  unfolding codes_of_def by (intro arg_cong [of _ _ concat] map_cong refl) (simp add: syms_zeros)

lemma kraft_zeros: "kraft (ls @ replicate k 0) = kraft ls"
  by (induction k) (simp_all add: kraft_snoc replicate_append_same [symmetric] flip: append_assoc)


subsection \<open>The round trip\<close>

lemma lengths_start_rep:
  assumes "length (h_symbolListsArray h) = 720" and "16 \<le> length (h_nextSymbol h)"
  shows "run_rep rle_init (lengths_start h)" and "h_symbol (lengths_start h) = 0"
proof -
  show "run_rep rle_init (lengths_start h)"
    by (rule lists_init_rep [of "h\<lparr>h_codeLengthHisto := replicate 16 0\<rparr>"]) (use assms in \<open>simp_all add: lengths_start_def lists_init_def\<close>)
  show "h_symbol (lengths_start h) = 0" by (simp add: lengths_start_def)
qed

lemma codes_decode:
  assumes "complete ls" and "length ls \<le> 704" and "decodes (codes_of ls) table" and "table_ok table" and "k < length ls" and "ls ! k \<noteq> 0"
    and "unat bits mod 2 ^ (ls ! k) = symbol_code ls k"
  shows "decodeSymbol bits table br = Some (k, dropBits (ls ! k) br)"
proof -
  have l: "ls ! k \<le> 15" using assms(1,5) by (simp add: complete_def)
  have "(2::nat) ^ (ls ! k) dvd 2 ^ 15" using l by (rule le_imp_power_dvd)
  then have "unat bits mod 2 ^ 15 mod 2 ^ (ls ! k) = symbol_code ls k" using assms(7) by (simp add: mod_mod_cancel)
  then obtain j where "j < length (codes_of ls)" "codes_of ls ! j = (ls ! k, k)" "matches (codes_of ls) j (unat bits mod 2 ^ 15)"
    using symbol_code_matches [OF assms(1,2,5,6)] by blast
  then have "sym_look table (unat bits mod 2 ^ 15) = Some (k, ls ! k)" using assms(3) unfolding decodes_def by fastforce
  then show ?thesis using decodeSymbol_look [OF assms(4)] by simp
qed

text \<open>C5. The code lengths of a prefix code survive their way to the decoder: for every complete list of at most 704
  code lengths, \<^verbatim>\<open>encodeHuffmanTree\<close> succeeds when its buffers are as long as the list; the decoder, reading the
  codes it wrote, ends with no space left, and \<^verbatim>\<open>BuildHuffmanTable\<close> makes of its lists a table of at most 376 entries more
  than symbols, with which \<^verbatim>\<open>decodeSymbol\<close> turns a window that starts with the value
  \<^verbatim>\<open>convertBitDepthsToSymbols\<close> gave a symbol into this symbol, dropping as many bits as its code length.\<close>

theorem code_lengths_roundtrip:
  assumes "complete ls" and "length ls \<le> 704" and "length ls \<le> length tree" and "length ls \<le> length extra" and "length ls \<le> length symbols"
    and "length (h_symbolListsArray h) = 720" and "16 \<le> length (h_nextSymbol h)" and "length ls + 376 \<le> length table"
  shows "\<exists>tree' extra' n h' codes table' histo' m.
    encodeHuffmanTree ls tree extra = Some (tree', extra', n) \<and>
    process_codes (length ls) (zip (take n tree') (take n extra')) (lengths_start h) = Some h' \<and> h_space h' = 0 \<and>
    convertBitDepthsToSymbols ls symbols = Some codes \<and>
    BuildHuffmanTable table huffmanTableBits \<lparr>Storage = h_symbolListsArray h', Offset = symListBase\<rparr> (h_codeLengthHisto h') =
      Some (table', histo', m) \<and> m \<le> length ls + 376 \<and>
    (\<forall>k bits br. k < length ls \<and> ls ! k \<noteq> 0 \<and> unat bits mod 2 ^ (ls ! k) = codes ! k \<longrightarrow>
       decodeSymbol bits (take m table') br = Some (k, dropBits (ls ! k) br))"
proof -
  have small: "\<forall>x\<in>set ls. x < 16" using assms(1) by (fastforce simp: complete_def)
  obtain tree' extra' n toks d prev rn len where enc: "encodeHuffmanTree ls tree extra = Some (tree', extra', n)"
    "holds (length tree) (length extra) toks (tree', extra', n)" "rle_toks (length ls) toks rle_init = Some (d, prev, rn, len)"
    "ls = d @ replicate (length ls - length d) 0" "\<forall>t\<in>set toks. tok_ok t"
    using encodeHuffmanTree_read [OF small assms(3,4) order_refl] by (metis prod_cases3)
  have "take n tree' = map fst toks" "take n extra' = map snd toks" using enc(2) unfolding holds_def prod.case by blast+
  then have toks: "zip (take n tree') (take n extra') = toks" by (simp only: zip_map_fst_snd)
  have dl: "length d \<le> length ls" using arg_cong [OF enc(4), of length] by simp
  obtain h' where h': "process_codes (length ls) toks (lengths_start h) = Some h'" "run_rep (d, prev, rn, len) h'"
    using process_codes_ok [OF lengths_start_rep(1) _ assms(2) enc(5,3)] lengths_start_rep(2) assms(6,7) dl by (auto simp: rle_init_def)
  have k: "kraft d = 2 ^ 15" using assms(1) kraft_zeros [of d "length ls - length d"] enc(4) by (simp add: complete_def)
  have rep: "lists_rep d h'" and sp: "h_space h' = 0" using h'(2) k by (simp_all add: run_rep_def lists_rep_def)
  have co: "codes_of ls = codes_of d" by (subst enc(4)) (rule codes_of_zeros)
  have c: "canon (codes_of d)" using canon_codes_of [OF assms(1)] assms(2) by (simp add: co)
  have room: "length (codes_of d) + 376 \<le> length table" "length (codes_of d) + 376 \<le> 2 ^ 16"
    using length_codes_of [of d] dl assms(2,8) by simp_all
  have sl: "\<lparr>Storage = h_symbolListsArray h', Offset = symListBase\<rparr> = \<lparr>Storage = h_symbolListsArray h', Offset = 16\<rparr>"
    by (simp add: symListBase_def HuffmanMaxCodeLength_def)
  obtain table' histo' m where t: "BuildHuffmanTable table 8 \<lparr>Storage = h_symbolListsArray h', Offset = 16\<rparr> (h_codeLengthHisto h') =
      Some (table', histo', m)" "m \<le> length (codes_of d) + 376" "decodes (codes_of d) (take m table')" "table_ok (take m table')"
    using BuildHuffmanTable_decodes [OF c lists_rep_complete(2) [OF rep sp] room] by metis
  obtain codes where co1: "convertBitDepthsToSymbols ls symbols = Some codes"
    "\<And>k. k < length symbols \<Longrightarrow> k < length ls \<Longrightarrow> ls ! k \<noteq> 0 \<Longrightarrow> codes ! k = symbol_code ls k"
    using convert_symbol_code [OF assms(1,2,5)] by auto
  have dec: "decodeSymbol bits (take m table') br = Some (k, dropBits (ls ! k) br)"
    if "k < length ls" "ls ! k \<noteq> 0" "unat bits mod 2 ^ (ls ! k) = codes ! k" for k bits br
    using codes_decode [OF assms(1,2) t(3) [folded co] t(4) that(1,2)] co1(2) [of k] that assms(5) by simp
  have m: "m \<le> length ls + 376" using t(2) length_codes_of [of d] dl by simp
  have proc: "process_codes (length ls) (zip (take n tree') (take n extra')) (lengths_start h) = Some h'" using h'(1) by (simp only: toks)
  have tab: "BuildHuffmanTable table huffmanTableBits \<lparr>Storage = h_symbolListsArray h', Offset = symListBase\<rparr> (h_codeLengthHisto h') =
      Some (table', histo', m)" using t(1) by (simp only: sl huffmanTableBits_def)
  show ?thesis using enc(1) proc sp co1(1) tab m dec by blast
qed

theorem code_lengths_roundtrip_witness:
  "\<exists>tree' extra' n h' codes table' histo' m.
    encodeHuffmanTree [1, 2, 2] [0, 0, 0] [0, 0, 0] = Some (tree', extra', n) \<and>
    process_codes (length [1, 2, 2 :: nat]) (zip (take n tree') (take n extra')) (lengths_start zero_header) = Some h' \<and> h_space h' = 0 \<and>
    convertBitDepthsToSymbols [1, 2, 2] [0, 0, 0] = Some codes \<and>
    BuildHuffmanTable (replicate 379 (mkCode 0 0)) huffmanTableBits \<lparr>Storage = h_symbolListsArray h', Offset = symListBase\<rparr>
      (h_codeLengthHisto h') = Some (table', histo', m) \<and> m \<le> length [1, 2, 2 :: nat] + 376 \<and>
    (\<forall>k bits br. k < length [1, 2, 2 :: nat] \<and> [1, 2, 2] ! k \<noteq> (0::nat) \<and> unat bits mod 2 ^ ([1, 2, 2] ! k) = codes ! k \<longrightarrow>
       decodeSymbol bits (take m table') br = Some (k, dropBits ([1, 2, 2] ! k) br))"
  by (rule code_lengths_roundtrip)
    (simp_all add: complete_def kraft_def zero_header_def HuffmanMaxCodeLength_def AlphabetSizeInsertAndCopyLength_def)

end
