(* ===== verification/Prefix_Read.thy ===== *)
theory Prefix_Read
  imports Prefix_Write Clen_Table Huffman_Roundtrip
begin

unbundle bit_operations_syntax

text \<open>
  Reading complex prefix codes, \<^verbatim>\<open>readCodeLengthCodeLengths\<close>, \<^verbatim>\<open>readSymbolCodeLengths\<close> and \<^verbatim>\<open>readHuffmanCode\<close> of \<^verbatim>\<open>decode.go\<close>,
  on the bits the encoder writes. The input is at hand, so no operation suspends; the batched loop, the loop with four
  bytes of room and the byte-wise loop are followed to the end of the symbols.
\<close>

subsection \<open>A peek at a code length\<close>

lemma prefix_tables:
  assumes "d \<le> 5" and "ix < 16" and "ix mod 2 ^ (codeLengthCodeBitLengths ! d) = codeLengthCodeSymbols ! d"
  shows "codeLengthPrefixValue ! ix = d" and "codeLengthPrefixLength ! ix = codeLengthCodeBitLengths ! d"
proof -
  have "list_all (\<lambda>d. list_all (\<lambda>ix. ix mod 2 ^ (codeLengthCodeBitLengths ! d) = codeLengthCodeSymbols ! d \<longrightarrow>
      codeLengthPrefixValue ! ix = d \<and> codeLengthPrefixLength ! ix = codeLengthCodeBitLengths ! d) [0..<16]) [0..<6]" by code_simp
  moreover have "d < 6" using assms(1) by simp
  ultimately show "codeLengthPrefixValue ! ix = d" "codeLengthPrefixLength ! ix = codeLengthCodeBitLengths ! d"
    using assms(2,3) by (simp_all add: list_all_iff)
qed

lemma val_of_prefix:
  assumes "l \<le> n" and "unat v < 2 ^ l"
  shows "val_of (take n (bits_of l v @ rest)) mod 2 ^ l = unat v"
proof -
  have "val_of (take n (bits_of l v @ rest)) = unat v + 2 ^ l * val_of (take (n - l) rest)"
    using assms by (simp add: val_of_append val_of_bits_of_exact)
  then show ?thesis using assms(2) by simp
qed

lemma depth_field_bits:
  assumes "d \<le> 5"
  shows "depth_field d = (codeLengthCodeBitLengths ! d, of_nat (codeLengthCodeSymbols ! d))" and "codeLengthCodeBitLengths ! d \<le> 4"
    and "unat (of_nat (codeLengthCodeSymbols ! d) :: u64) = codeLengthCodeSymbols ! d" and "codeLengthCodeSymbols ! d < 2 ^ (codeLengthCodeBitLengths ! d)"
  using assms unfolding less_6 depth_field_def by (auto simp: codeLengthCodeBitLengths_def codeLengthCodeSymbols_def)

lemma clcl_peek_ok:
  assumes inv: "br_inv br" and d: "d \<le> 5" and bits: "br_bits br = fields_bits [depth_field d] @ rest"
  shows "\<exists>ix br'. clcl_peek br = Some ((ix, True), br') \<and> br_inv br' \<and> br_bits br' = br_bits br \<and> ix < 16 \<and>
    codeLengthPrefixValue ! ix = d \<and> codeLengthPrefixLength ! ix = fst (depth_field d) \<and> fst (depth_field d) \<le> br_bitPos br' \<and>
    br_fastEnd br' = br_fastEnd br \<and> br_inputLen br' = br_inputLen br"
proof -
  define l c where "l = codeLengthCodeBitLengths ! d" and "c = codeLengthCodeSymbols ! d"
  note f = depth_field_bits [OF d, folded l_def c_def]
  have bs: "br_bits br = bits_of l (of_nat c :: u64) @ rest" using bits f(1) by simp
  then have ll: "l \<le> length (br_bits br)" by simp
  have pre: "val_of (take 4 (br_bits br)) mod 2 ^ l = c" using val_of_prefix [of l 4 "of_nat c :: u64" rest] f(2-4) bs by simp
  have lt: "val_of (take 4 (br_bits br)) < 16" using val_of_lt [of "take 4 (br_bits br)"] power_increasing [of "length (take 4 (br_bits br))" 4 "2::nat"] by simp
  note tab = prefix_tables [OF d lt, folded l_def c_def, OF pre]
  obtain br1 r where g: "safeGetBits 4 br = Some (r, br1)" "br_inv br1" "br_bits br1 = br_bits br"
    "if 4 \<le> length (br_bits br) then map_option unat r = Some (val_of (take 4 (br_bits br))) \<and> 4 \<le> br_bitPos br1 else r = None"
    "br_inputLen br1 = br_inputLen br" "br_fastEnd br1 = br_fastEnd br"
    using safeGetBits_ok [OF inv, of 4] by auto
  show ?thesis
  proof (cases "4 \<le> length (br_bits br)")
    case True
    then obtain v where v: "r = Some v" "unat v = val_of (take 4 (br_bits br))" "4 \<le> br_bitPos br1" using g(4) by auto
    then show ?thesis using g tab f(1,2) lt
      by (intro exI [of _ "unat v"] exI [of _ br1]) (simp add: clcl_peek_def)
  next
    case False
    then have p: "pullUntil 4 br = Some (False, br1)" using g(1,4) by (auto simp: safeGetBits_def split: if_splits bind_splits)
    have e: "br_bits br1 = bits_of (br_bitPos br1) (br_val br1)" using exhausted_bits [OF g(2)] pullUntil_short [OF p] by simp
    then have len: "br_bitPos br1 = length (br_bits br)" using arg_cong [OF e, of length] g(3) by simp
    have bp: "0 < l" "l \<le> br_bitPos br1" "br_bitPos br1 < 4" using ll False len d
      by (auto simp: l_def codeLengthCodeBitLengths_def less_6)
    define br2 where "br2 = normalize br1"
    have n: "br_inv br2" "br_bits br2 = br_bits br" "br_bitPos br2 = br_bitPos br1" using normalize_ok [OF g(2)] g(3) by (simp_all add: br2_def)
    have m15: "(0xF :: u64) = bitMask 4" by (simp add: bitMask_def)
    have "unat (br_val br2 AND 0xF) = val_of (take 4 (br_bits br))"
    proof -
      have "br_val br2 AND 0xF = br_val br1 AND bitMask (br_bitPos br1)"
      proof (rule bit_word_eqI)
        fix i :: nat assume "i < LENGTH(64)"
        then show "bit (br_val br2 AND 0xF) i = bit (br_val br1 AND bitMask (br_bitPos br1)) i"
          using bp by (auto simp: br2_def normalize_def m15 bit_and_iff bit_bitMask)
      qed
      then have "unat (br_val br2 AND 0xF) = val_of (bits_of (br_bitPos br1) (br_val br1))"
        using bp by (simp add: unat_and_bitMask)
      then show ?thesis using e g(3) False by simp
    qed
    then have ix: "unat (bitsUnmasked br2 AND 0xF) = val_of (take 4 (br_bits br))" by (simp add: bitsUnmasked_def)
    have gl: "go_index codeLengthPrefixLength (int (val_of (take 4 (br_bits br)))) = Some l"
      using lt tab(2) by (simp add: go_index_def codeLengthPrefixLength_def)
    have r: "r = None" using g(4) False by simp
    have "clcl_peek br = Some ((val_of (take 4 (br_bits br)), True), br2)"
      unfolding clcl_peek_def g(1) r Option.bind.bind_lunit prod.case option.case Let_def availBits_def
      using bp by (simp only: br2_def [symmetric] ix gl if_True simp_thms neq0_conv order_less_le_trans Option.bind.bind_lunit)
    then show ?thesis using n bp g tab lt f(1)
      by (intro exI [of _ "val_of (take 4 (br_bits br))"] exI [of _ br2]) (simp add: br2_def)
  qed
qed


subsection \<open>The lengths of the code length code\<close>

text \<open>The depths in the order they are sent, up to place \<open>i\<close>, and the part of the 32 windows they take.\<close>

definition sent :: "nat list \<Rightarrow> nat \<Rightarrow> nat list" where
  "sent bd i = map (\<lambda>j. bd ! (CodeLengthCodeOrder ! j)) [0..<i]"

definition kraft5 :: "nat list \<Rightarrow> nat" where
  "kraft5 ds = sum_list (map (\<lambda>d. if d = 0 then 0 else 32 div 2 ^ d) ds)"

definition order_filled :: "nat list \<Rightarrow> nat \<Rightarrow> nat list \<Rightarrow> bool" where
  "order_filled bd i xs \<longleftrightarrow> length xs = 18 \<and>
     (\<forall>j<18. xs ! (CodeLengthCodeOrder ! j) = (if j < i then bd ! (CodeLengthCodeOrder ! j) else 0))"

definition sent_counts :: "nat list \<Rightarrow> nat list \<Rightarrow> bool" where
  "sent_counts ds cs \<longleftrightarrow> length cs = 16 \<and> (\<forall>v. 1 \<le> v \<and> v \<le> 5 \<longrightarrow> cs ! v = count_list ds v)"

lemma sent_Suc: "sent bd (Suc i) = sent bd i @ [bd ! (CodeLengthCodeOrder ! i)]"
  by (simp add: sent_def)

lemma kraft5_snoc: "kraft5 (ds @ [d]) = kraft5 ds + (if d = 0 then 0 else 32 div 2 ^ d)"
  by (simp add: kraft5_def)

lemma length_sent [simp]: "length (sent bd i) = i"
  by (simp add: sent_def)

lemma order_filled_Suc:
  assumes "order_filled bd i xs" and "i < 18"
  shows "order_filled bd (Suc i) (xs[CodeLengthCodeOrder ! i := bd ! (CodeLengthCodeOrder ! i)])"
proof -
  have "CodeLengthCodeOrder ! i = CodeLengthCodeOrder ! j \<longleftrightarrow> i = j" if "j < 18" for j
    using CodeLengthCodeOrder_perm that assms(2) by (simp add: nth_eq_iff_index_eq)
  then show ?thesis using assms order_nth [of i]
    by (auto simp: order_filled_def nth_list_update less_Suc_eq)
qed

text \<open>The header arena while the lengths are read.\<close>

definition clcl_state :: "nat list \<Rightarrow> nat \<Rightarrow> metablockHeaderArena \<Rightarrow> bool" where
  "clcl_state bd i h \<longleftrightarrow> order_filled bd i (h_codeLengthCodeLengths h) \<and> sent_counts (sent bd i) (h_codeLengthHisto h)"

lemma clcl_step:
  assumes "clen_depths bd" and "i < 18" and "clcl_state bd i (ds_headerArena s)" and "br_inv (ds_br s)"
    and "br_bits (ds_br s) = fields_bits (depth_fields bd [i]) @ rest" and "numCodes \<le> i" and "space = 32 - kraft5 (sent bd i)"
    and "kraft5 (sent bd (Suc i)) \<le> 32"
  shows "\<exists>br' ls hs. br_inv br' \<and> br_bits br' = rest \<and> br_fastEnd br' = br_fastEnd (ds_br s) \<and> br_inputLen br' = br_inputLen (ds_br s) \<and>
    clcl_state bd (Suc i) ((ds_headerArena s)\<lparr>h_codeLengthCodeLengths := ls, h_codeLengthHisto := hs\<rparr>) \<and>
    (let s' = s\<lparr>ds_br := br', ds_headerArena := (ds_headerArena s)\<lparr>h_codeLengthCodeLengths := ls, h_codeLengthHisto := hs\<rparr>\<rparr>;
         d = bd ! (CodeLengthCodeOrder ! i); n' = (if d = 0 then numCodes else numCodes + 1); space' = 32 - kraft5 (sent bd (Suc i)) in
     clcl_loop i numCodes space s = (if d \<noteq> 0 \<and> space' = 0 then Some (Inr (n', space', s')) else clcl_loop (i + 1) n' space' s'))"
proof -
  define k d h where "k = CodeLengthCodeOrder ! i" and "d = bd ! k" and "h = ds_headerArena s"
  have k: "k < 18" "go_index CodeLengthCodeOrder (int i) = Some k" using order_nth [OF assms(2)] assms(2)
    by (simp_all add: k_def go_index_def CodeLengthCodeOrder_perm)
  have d: "d \<le> 5" using clen_depths_le [OF assms(1) k(1)] by (simp add: d_def)
  have bits: "br_bits (ds_br s) = fields_bits [depth_field d] @ rest" using assms(5) by (simp add: depth_fields_def d_def k_def)
  obtain ix br1 where p: "clcl_peek (ds_br s) = Some ((ix, True), br1)" "br_inv br1" "br_bits br1 = br_bits (ds_br s)" "ix < 16"
    "codeLengthPrefixValue ! ix = d" "codeLengthPrefixLength ! ix = fst (depth_field d)" "fst (depth_field d) \<le> br_bitPos br1"
    "br_fastEnd br1 = br_fastEnd (ds_br s)" "br_inputLen br1 = br_inputLen (ds_br s)"
    using clcl_peek_ok [OF assms(4) d bits] by blast
  have g: "go_index codeLengthPrefixValue (int ix) = Some d" "go_index codeLengthPrefixLength (int ix) = Some (fst (depth_field d))"
    using p(4-6) by (simp_all add: go_index_def codeLengthPrefixValue_def codeLengthPrefixLength_def)
  define br2 where "br2 = dropBits (fst (depth_field d)) br1"
  have l4: "fst (depth_field d) \<le> 4" using depth_field_bits(1,2) [OF d] by simp
  have b2: "br_inv br2" "br_bits br2 = rest"
    using dropBits_ok [OF p(2,7)] l4 p(3) bits by (cases "depth_field d"; simp add: br2_def)+
  define ls where "ls = (h_codeLengthCodeLengths h)[k := d]"
  have f: "order_filled bd i (h_codeLengthCodeLengths h)" and c: "sent_counts (sent bd i) (h_codeLengthHisto h)"
    using assms(3) by (simp_all add: clcl_state_def h_def)
  have u: "go_update (h_codeLengthCodeLengths h) (int k) d = Some ls" using f k(1) by (simp add: go_update_def order_filled_def ls_def)
  have f2: "order_filled bd (Suc i) ls" using order_filled_Suc [OF f assms(2)] by (simp add: ls_def d_def k_def)
  have sn: "sent bd (Suc i) = sent bd i @ [d]" by (simp add: sent_Suc d_def k_def)
  have i18: "i < AlphabetSizeCodeLengths" using assms(2) by (simp add: AlphabetSizeCodeLengths_def)
  have nu: "uadd numCodes 1 = numCodes + 1" using assms(2,6) by (intro uadd_exact) simp
  show ?thesis
  proof (cases "d = 0")
    case True
    have "clcl_loop i numCodes space s = clcl_loop (i + 1) numCodes space
        (s\<lparr>ds_br := br2, ds_headerArena := h\<lparr>h_codeLengthCodeLengths := ls, h_codeLengthHisto := h_codeLengthHisto h\<rparr>\<rparr>)"
      by (subst clcl_loop.simps) (use True i18 in \<open>simp add: k(2) p(1) g u [unfolded h_def True] upd_header_def br2_def [unfolded True, symmetric] h_def del: go_index_Some\<close>)
    moreover have "sent_counts (sent bd (Suc i)) (h_codeLengthHisto h)" using c True by (auto simp: sn sent_counts_def)
    ultimately show ?thesis using True f2 b2 p(8,9) assms(7)
      by (intro exI [of _ br2] exI [of _ ls] exI [of _ "h_codeLengthHisto h"])
        (simp add: h_def [symmetric] clcl_state_def d_def k_def br2_def kraft5_snoc sent_Suc Let_def)
  next
    case False
    define hs where "hs = (h_codeLengthHisto h)[d := h_codeLengthHisto h ! d + 1]"
    have hd: "d < length (h_codeLengthHisto h)" "h_codeLengthHisto h ! d = count_list (sent bd i) d"
      using c d False by (auto simp: sent_counts_def)
    have "count_list (sent bd i) d \<le> i" using count_le_length [of "sent bd i" d] by simp
    then have hh: "add_histo d 1 (h\<lparr>h_codeLengthCodeLengths := ls\<rparr>) = Some (h\<lparr>h_codeLengthCodeLengths := ls, h_codeLengthHisto := hs\<rparr>)"
      using add_histo_ok [of d "h\<lparr>h_codeLengthCodeLengths := ls\<rparr>" 1] hd assms(2) by (simp add: hs_def)
    define sp' where "sp' = 32 - kraft5 (sent bd (Suc i))"
    have sp: "usub space (32 div 2 ^ d) = sp'"
      using assms(7,8) False unfolding sn kraft5_snoc sp'_def by (subst usub_exact) simp_all
    have "32 \<le> usub x 1 \<longleftrightarrow> x = 0" if "x \<le> 32" for x
      using that usub_exact [of 1 x] by (cases "x = 0") (simp_all add: usub_def)
    then have br: "32 \<le> usub sp' 1 \<longleftrightarrow> sp' = 0" by (simp add: sp'_def)
    define s' where "s' = s\<lparr>ds_br := br2, ds_headerArena := h\<lparr>h_codeLengthCodeLengths := ls, h_codeLengthHisto := hs\<rparr>\<rparr>"
    have "clcl_loop i numCodes space s = (if sp' = 0 then Some (Inr (numCodes + 1, sp', s')) else clcl_loop (i + 1) (numCodes + 1) sp' s')"
      by (subst clcl_loop.simps) (use False i18 in \<open>simp add: k(2) p(1) g u [unfolded h_def] upd_header_def br2_def [symmetric] put_header_def
        hh [unfolded h_def One_nat_def] sp Let_def br [unfolded One_nat_def] nu [unfolded One_nat_def] s'_def h_def del: go_index_Some\<close>)
    moreover have "sent_counts (sent bd (Suc i)) hs" using c d False hd by (auto simp: sn sent_counts_def hs_def nth_list_update)
    ultimately show ?thesis using False f2 b2 p(8,9)
      by (intro exI [of _ br2] exI [of _ ls] exI [of _ hs])
        (simp add: h_def [symmetric] clcl_state_def d_def k_def br2_def s'_def sp'_def Let_def)
  qed
qed

definition codes_sent :: "nat list \<Rightarrow> nat \<Rightarrow> nat" where
  "codes_sent bd i = length (filter (\<lambda>d. d \<noteq> 0) (sent bd i))"

lemma codes_sent_Suc: "codes_sent bd (Suc i) = codes_sent bd i + (if bd ! (CodeLengthCodeOrder ! i) = 0 then 0 else 1)"
  by (simp add: codes_sent_def sent_Suc)

lemma codes_sent_le: "codes_sent bd i \<le> i"
  using length_filter_le [of "\<lambda>d. d \<noteq> 0" "sent bd i"] by (simp add: codes_sent_def)

lemma clcl_step_sent:
  assumes "clen_depths bd" and "i < 18" and "clcl_state bd i (ds_headerArena s)" and "br_inv (ds_br s)"
    and "br_bits (ds_br s) = fields_bits (depth_fields bd [i]) @ rest" and "kraft5 (sent bd (Suc i)) \<le> 32"
  shows "\<exists>br' ls hs. br_inv br' \<and> br_bits br' = rest \<and> br_fastEnd br' = br_fastEnd (ds_br s) \<and> br_inputLen br' = br_inputLen (ds_br s) \<and>
    clcl_state bd (Suc i) ((ds_headerArena s)\<lparr>h_codeLengthCodeLengths := ls, h_codeLengthHisto := hs\<rparr>) \<and>
    clcl_loop i (codes_sent bd i) (32 - kraft5 (sent bd i)) s =
      (if bd ! (CodeLengthCodeOrder ! i) \<noteq> 0 \<and> 32 - kraft5 (sent bd (Suc i)) = 0
       then Some (Inr (codes_sent bd (Suc i), 32 - kraft5 (sent bd (Suc i)),
         s\<lparr>ds_br := br', ds_headerArena := (ds_headerArena s)\<lparr>h_codeLengthCodeLengths := ls, h_codeLengthHisto := hs\<rparr>\<rparr>))
       else clcl_loop (Suc i) (codes_sent bd (Suc i)) (32 - kraft5 (sent bd (Suc i)))
         (s\<lparr>ds_br := br', ds_headerArena := (ds_headerArena s)\<lparr>h_codeLengthCodeLengths := ls, h_codeLengthHisto := hs\<rparr>\<rparr>))"
proof -
  have n: "(if bd ! (CodeLengthCodeOrder ! i) = 0 then codes_sent bd i else codes_sent bd i + 1) = codes_sent bd (i + 1)"
    using codes_sent_Suc [of bd i] by simp
  show ?thesis using clcl_step [OF assms(1-5) codes_sent_le [of bd i] refl assms(6)] unfolding Let_def Suc_eq_plus1 n .
qed

text \<open>Where the loop stops: when the windows are used up, or at the end of the alphabet.\<close>

definition stops_at :: "nat list \<Rightarrow> nat \<Rightarrow> bool" where
  "stops_at bd n \<longleftrightarrow> (\<forall>m<n. kraft5 (sent bd m) < 32) \<and>
     (0 < n \<and> kraft5 (sent bd n) = 32 \<and> bd ! (CodeLengthCodeOrder ! (n - 1)) \<noteq> 0 \<or> n = 18 \<and> kraft5 (sent bd n) < 32)"

lemma clcl_loop_ok:
  assumes "clen_depths bd" and "n \<le> 18" and "i \<le> n" and "i = n \<longrightarrow> n = 18 \<and> kraft5 (sent bd n) < 32" and "stops_at bd n"
    and "clcl_state bd i (ds_headerArena s)" and "br_inv (ds_br s)"
    and "br_bits (ds_br s) = fields_bits (depth_fields bd [i..<n]) @ rest"
  shows "\<exists>br' ls hs. br_inv br' \<and> br_bits br' = rest \<and> br_fastEnd br' = br_fastEnd (ds_br s) \<and> br_inputLen br' = br_inputLen (ds_br s) \<and>
    clcl_state bd n ((ds_headerArena s)\<lparr>h_codeLengthCodeLengths := ls, h_codeLengthHisto := hs\<rparr>) \<and>
    clcl_loop i (codes_sent bd i) (32 - kraft5 (sent bd i)) s = Some (Inr (codes_sent bd n, 32 - kraft5 (sent bd n),
      s\<lparr>ds_br := br', ds_headerArena := (ds_headerArena s)\<lparr>h_codeLengthCodeLengths := ls, h_codeLengthHisto := hs\<rparr>\<rparr>))"
  using assms(3,4,6-)
proof (induction "n - i" arbitrary: i s)
  case 0
  then have "i = n" "n = 18" by simp_all
  then have "clcl_loop i m sp s = Some (Inr (m, sp, s))" for m sp
    by (subst clcl_loop.simps) (simp add: AlphabetSizeCodeLengths_def)
  then have loop: "clcl_loop i (codes_sent bd i) (32 - kraft5 (sent bd i)) s = Some (Inr (codes_sent bd i, 32 - kraft5 (sent bd i), s))" .
  have bits: "br_bits (ds_br s) = rest" using "0.prems"(5) \<open>i = n\<close> by (simp add: depth_fields_def)
  have same: "s\<lparr>ds_br := ds_br s, ds_headerArena := (ds_headerArena s)\<lparr>h_codeLengthCodeLengths := h_codeLengthCodeLengths (ds_headerArena s),
      h_codeLengthHisto := h_codeLengthHisto (ds_headerArena s)\<rparr>\<rparr> = s"
    "(ds_headerArena s)\<lparr>h_codeLengthCodeLengths := h_codeLengthCodeLengths (ds_headerArena s),
      h_codeLengthHisto := h_codeLengthHisto (ds_headerArena s)\<rparr> = ds_headerArena s"
    "s\<lparr>ds_br := ds_br s, ds_headerArena := ds_headerArena s\<rparr> = s" by simp_all
  show ?case
    by (rule exI [of _ "ds_br s"], rule exI [of _ "h_codeLengthCodeLengths (ds_headerArena s)"], rule exI [of _ "h_codeLengthHisto (ds_headerArena s)"],
      intro conjI; (rule bits refl "0.prems"(4))?)
      (use loop "0.prems"(3) in \<open>simp_all only: same \<open>i = n\<close>\<close>)
next
  case (Suc k)
  then have i: "i < n" "i < 18" using assms(2) by simp_all
  have K2: "kraft5 (sent bd (Suc i)) < 32" if "Suc i < n" using assms(5) that by (simp add: stops_at_def)
  have "kraft5 (sent bd n) \<le> 32" using assms(5) by (auto simp: stops_at_def)
  then have K1: "kraft5 (sent bd (Suc i)) \<le> 32" using K2 i(1) by (cases "Suc i = n") auto
  have bits: "br_bits (ds_br s) = fields_bits (depth_fields bd [i]) @ fields_bits (depth_fields bd [Suc i..<n]) @ rest"
    using Suc.prems(5) i(1) by (cases "depth_field (bd ! (CodeLengthCodeOrder ! i))") (simp add: depth_fields_def upt_conv_Cons)
  define d where "d = bd ! (CodeLengthCodeOrder ! i)"
  obtain br' ls hs where st: "br_inv br'" "br_bits br' = fields_bits (depth_fields bd [Suc i..<n]) @ rest"
    "br_fastEnd br' = br_fastEnd (ds_br s)" "br_inputLen br' = br_inputLen (ds_br s)"
    "clcl_state bd (Suc i) ((ds_headerArena s)\<lparr>h_codeLengthCodeLengths := ls, h_codeLengthHisto := hs\<rparr>)"
    "clcl_loop i (codes_sent bd i) (32 - kraft5 (sent bd i)) s =
      (if d \<noteq> 0 \<and> 32 - kraft5 (sent bd (Suc i)) = 0
       then Some (Inr (codes_sent bd (Suc i), 32 - kraft5 (sent bd (Suc i)),
         s\<lparr>ds_br := br', ds_headerArena := (ds_headerArena s)\<lparr>h_codeLengthCodeLengths := ls, h_codeLengthHisto := hs\<rparr>\<rparr>))
       else clcl_loop (Suc i) (codes_sent bd (Suc i)) (32 - kraft5 (sent bd (Suc i)))
         (s\<lparr>ds_br := br', ds_headerArena := (ds_headerArena s)\<lparr>h_codeLengthCodeLengths := ls, h_codeLengthHisto := hs\<rparr>\<rparr>))"
    using clcl_step_sent [OF assms(1) i(2) Suc.prems(3,4) bits K1] unfolding d_def [symmetric] by blast
  define s1 where "s1 = s\<lparr>ds_br := br', ds_headerArena := (ds_headerArena s)\<lparr>h_codeLengthCodeLengths := ls, h_codeLengthHisto := hs\<rparr>\<rparr>"
  show ?case
  proof (cases "d \<noteq> 0 \<and> 32 - kraft5 (sent bd (Suc i)) = 0")
    case True
    then have "Suc i = n" using K2 i(1) by (cases "Suc i = n") auto
    then show ?thesis using True st by (intro exI [of _ br'] exI [of _ ls] exI [of _ hs]) (simp add: depth_fields_def)
  next
    case False
    have last: "Suc i = n \<longrightarrow> n = 18 \<and> kraft5 (sent bd n) < 32"
      using assms(5) False K1 by (auto simp: stops_at_def d_def)
    have "\<exists>br' ls hs. br_inv br' \<and> br_bits br' = rest \<and> br_fastEnd br' = br_fastEnd (ds_br s1) \<and> br_inputLen br' = br_inputLen (ds_br s1) \<and>
      clcl_state bd n ((ds_headerArena s1)\<lparr>h_codeLengthCodeLengths := ls, h_codeLengthHisto := hs\<rparr>) \<and>
      clcl_loop (Suc i) (codes_sent bd (Suc i)) (32 - kraft5 (sent bd (Suc i))) s1 = Some (Inr (codes_sent bd n, 32 - kraft5 (sent bd n),
        s1\<lparr>ds_br := br', ds_headerArena := (ds_headerArena s1)\<lparr>h_codeLengthCodeLengths := ls, h_codeLengthHisto := hs\<rparr>\<rparr>))"
      by (rule Suc.hyps(1)) (use Suc.hyps(2) i st last in \<open>simp_all add: s1_def\<close>)
    moreover have "clcl_loop i (codes_sent bd i) (32 - kraft5 (sent bd i)) s =
        clcl_loop (Suc i) (codes_sent bd (Suc i)) (32 - kraft5 (sent bd (Suc i))) s1"
      unfolding st(6) s1_def by (rule if_not_P [OF False])
    ultimately show ?thesis using st(3,4) by (simp add: s1_def)
  qed
qed

lemma sent_all: "clen_depths bd \<Longrightarrow> mset (sent bd 18) = mset bd"
proof -
  assume bd: "clen_depths bd"
  have "sent bd 18 = map ((!) bd) CodeLengthCodeOrder"
    using CodeLengthCodeOrder_perm(1) by (intro nth_equalityI) (simp_all add: sent_def)
  moreover have "mset CodeLengthCodeOrder = mset [0..<18]"
    by (rule iffD1 [OF set_eq_iff_mset_eq_distinct]) (simp_all only: CodeLengthCodeOrder_perm distinct_upt set_upt atLeast0LessThan)
  ultimately have "mset (sent bd 18) = mset (map ((!) bd) [0..<18])" by (metis mset_map)
  also have "map ((!) bd) [0..<18] = bd" using bd map_nth [of bd] by (simp add: clen_depths_def)
  finally show ?thesis .
qed

lemma kraft5_kraft:
  assumes "clen_depths bd"
  shows "2 ^ 10 * kraft5 (sent bd 18) = kraft bd"
proof -
  have "2 ^ 10 * (if d = 0 then 0 else 32 div 2 ^ d) = (if d = 0 then 0 else 2 ^ (15 - d) :: nat)" if "d \<in> set bd" for d :: nat
  proof -
    have "d \<le> 5" using that assms by (simp add: clen_depths_def)
    then show ?thesis unfolding less_6 by (elim disjE) simp_all
  qed
  then have "2 ^ 10 * kraft5 bd = kraft bd"
    unfolding kraft5_def kraft_def sum_list_const_mult [symmetric] by (intro arg_cong [of _ _ sum_list] map_cong refl) simp
  moreover have "kraft5 (sent bd 18) = kraft5 bd"
  proof -
    have "kraft5 ds = sum_mset (image_mset (\<lambda>d. if d = 0 then 0 else 32 div 2 ^ d) (mset ds))" for ds
      unfolding kraft5_def by (simp only: sum_mset_sum_list mset_map [symmetric])
    then show ?thesis using sent_all [OF assms] by simp
  qed
  ultimately show ?thesis by simp
qed

end
