(* ===== verification/Prefix_Lengths.thy ===== *)
theory Prefix_Lengths
  imports Prefix_Read
begin

unbundle bit_operations_syntax

text \<open>
  A complex prefix code through \<^verbatim>\<open>readHuffmanCode\<close>: \<^verbatim>\<open>readCodeLengthCodeLengths\<close> ends with the lengths the encoder sent,
  \<^verbatim>\<open>readSymbolCodeLengths\<close> reads the symbols, and the table that is built decodes what the encoder writes.
\<close>

subsection \<open>The end of the code length code\<close>

lemma kraft5_mono: "i \<le> j \<Longrightarrow> kraft5 (sent bd i) \<le> kraft5 (sent bd j)"
proof (induction j)
  case (Suc j)
  then show ?case by (cases "i = Suc j") (auto simp: sent_Suc kraft5_snoc)
qed simp

lemma sent_zeros:
  assumes "\<forall>k<18. n \<le> k \<longrightarrow> bd ! (CodeLengthCodeOrder ! k) = 0" and "n \<le> m" and "m \<le> 18"
  shows "sent bd m = sent bd n @ replicate (m - n) 0"
  using assms(2,3)
proof (induction m)
  case (Suc m)
  show ?case
  proof (cases "n = Suc m")
    case False
    then have "n \<le> m" "m < 18" using Suc.prems by simp_all
    then have "sent bd (Suc m) = sent bd n @ replicate (m - n) 0 @ [0]" using Suc.IH assms(1) by (simp add: sent_Suc)
    also have "replicate (m - n) (0::nat) @ [0] = replicate (Suc m - n) 0" using \<open>n \<le> m\<close> by (simp add: Suc_diff_le replicate_append_same)
    finally show ?thesis .
  qed simp
qed simp

lemma kraft5_zeros: "kraft5 (ds @ replicate k 0) = kraft5 ds"
  by (simp add: kraft5_def)

lemma sent_skip:
  assumes "sent_range bd skip n" and "skip \<le> 18"
  shows "sent bd skip = replicate skip 0"
  using assms by (intro nth_equalityI) (auto simp: sent_def sent_range_def)

lemma sent_range_skip: "sent_range bd skip n \<Longrightarrow> skip \<le> 3"
  by (auto simp: sent_range_def)

lemma count_zeros: "v \<noteq> 0 \<Longrightarrow> count_list (ds @ replicate k 0) v = count_list ds v"
  by (induction k) (simp_all add: count_list_append)

lemma single_kraft:
  assumes "c < 18" and "bd = (replicate 18 0)[c := 1]"
  shows "kraft bd = 2 ^ 14"
proof -
  have "bd = replicate c 0 @ 1 # replicate (17 - c) 0"
    using assms by (intro nth_equalityI) (auto simp: nth_append nth_list_update nth_Cons split: nat.splits)
  then show ?thesis by (simp add: kraft_def)
qed

lemma complex_stops:
  assumes "complex_code bd0 bd sy skip n toks"
  shows "stops_at bd0 n" and "skip < n" and "kraft5 (sent bd0 n) = 32 \<or> codes_sent bd0 n = 1 \<and> n = 18 \<and> kraft5 (sent bd0 n) < 32"
    and "clen_depths bd0"
proof -
  have cd: "clen_depths bd0" and r: "sent_range bd0 skip n" and code: "clen_code bd0 bd sy toks"
    and comp: "if complete bd0 then 0 < n \<longrightarrow> bd0 ! (CodeLengthCodeOrder ! (n - 1)) \<noteq> 0 else n = 18"
    using assms unfolding complex_code_def clen_code_def by blast+
  show "clen_depths bd0" by (rule cd)
  have z: "\<forall>k<18. n \<le> k \<longrightarrow> bd0 ! (CodeLengthCodeOrder ! k) = 0" and n18: "n \<le> 18" using r by (auto simp: sent_range_def)
  have k18: "kraft5 (sent bd0 18) = kraft5 (sent bd0 n)" unfolding sent_zeros [OF z n18 order_refl] by (rule kraft5_zeros)
  have kn: "2 ^ 10 * kraft5 (sent bd0 n) = kraft bd0" using kraft5_kraft [OF cd] by (simp only: k18)
  have "stops_at bd0 n \<and> skip < n \<and> (kraft5 (sent bd0 n) = 32 \<or> codes_sent bd0 n = 1 \<and> n = 18 \<and> kraft5 (sent bd0 n) < 32)"
  proof (cases "complete bd0")
    case True
    then have k32: "kraft5 (sent bd0 n) = 32" using kn by (simp add: complete_def)
    have n0: "0 < n" using k32 by (cases n) (simp_all add: sent_def kraft5_def)
    define d where "d = bd0 ! (CodeLengthCodeOrder ! (n - 1))"
    have d0: "d \<noteq> 0" using comp True n0 by (simp add: d_def)
    have "d \<le> 5" using clen_depths_le [OF cd order_nth [of "n - 1"]] n0 n18 by (simp add: d_def)
    then have dpos: "0 < 32 div (2::nat) ^ d" unfolding less_6 by auto
    have "sent bd0 n = sent bd0 (n - 1) @ [d]" using sent_Suc [of bd0 "n - 1"] n0 by (simp add: d_def)
    then have "kraft5 (sent bd0 (n - 1)) < 32" using k32 d0 dpos by (simp only: kraft5_snoc) simp
    then have "kraft5 (sent bd0 m) < 32" if "m < n" for m using kraft5_mono [of m "n - 1" bd0] that n0 by linarith
    then have "stops_at bd0 n" using k32 n0 d0 by (simp add: stops_at_def d_def)
    moreover have "skip < n"
    proof (rule ccontr)
      assume "\<not> skip < n"
      then show False using r n0 n18 d0 by (auto simp: sent_range_def d_def)
    qed
    ultimately show ?thesis using k32 by simp
  next
    case False
    then obtain c where c: "c < 18" "bd0 = (replicate 18 0)[c := 1]" using code by (auto simp: clen_code_def)
    have n: "n = 18" using comp False by simp
    have k16: "kraft5 (sent bd0 n) = 16" using kn single_kraft [OF c] by simp
    have "kraft5 (sent bd0 m) < 32" if "m < n" for m using kraft5_mono [of m n bd0] that k16 by simp
    moreover have "codes_sent bd0 n = length (filter (\<lambda>d. d \<noteq> 0) bd0)"
      using mset_eq_length [of "filter (\<lambda>d. d \<noteq> 0) (sent bd0 18)" "filter (\<lambda>d. d \<noteq> 0) bd0"] sent_all [OF cd] n
      by (simp add: codes_sent_def mset_filter)
    moreover have "length (filter (\<lambda>d. d \<noteq> 0) bd0) = 1"
    proof -
      have "bd0 = replicate c 0 @ 1 # replicate (17 - c) 0"
        unfolding c(2) using c(1) by (intro nth_equalityI) (auto simp: nth_append nth_list_update nth_Cons split: nat.splits)
      then show ?thesis by simp
    qed
    ultimately show ?thesis using n k16 sent_range_skip [OF r] by (simp add: stops_at_def)
  qed
  then show "stops_at bd0 n" "skip < n" "kraft5 (sent bd0 n) = 32 \<or> codes_sent bd0 n = 1 \<and> n = 18 \<and> kraft5 (sent bd0 n) < 32"
    by blast+
qed

text \<open>The state in which the reading starts, and the one in which it ends.\<close>

lemma clcl_state_start:
  assumes "complex_code bd0 bd sy skip n toks" and "h_codeLengthHisto h = replicate 16 0" and "h_codeLengthCodeLengths h = replicate 18 0"
  shows "clcl_state bd0 skip h" and "codes_sent bd0 skip = 0" and "kraft5 (sent bd0 skip) = 0"
proof -
  have r: "sent_range bd0 skip n" using assms(1) by (simp add: complex_code_def)
  have sk: "skip \<le> 3" by (rule sent_range_skip [OF r])
  then have s: "sent bd0 skip = replicate skip 0" using sent_skip [OF r] by simp
  show "codes_sent bd0 skip = 0" "kraft5 (sent bd0 skip) = 0" by (simp_all add: codes_sent_def s kraft5_def)
  have "order_filled bd0 skip (replicate 18 0)" using r order_nth by (auto simp: order_filled_def sent_range_def)
  moreover have "sent_counts (sent bd0 skip) (replicate 16 0)"
    using count_zeros [of _ "[]"] by (auto simp: sent_counts_def s)
  ultimately show "clcl_state bd0 skip h" using assms(2,3) by (simp add: clcl_state_def)
qed

lemma clcl_state_end:
  assumes "complex_code bd0 bd sy skip n toks" and "clcl_state bd0 n h"
  shows "h_codeLengthCodeLengths h = bd0" and "clen_counts bd0 (h_codeLengthHisto h)"
proof -
  have r: "sent_range bd0 skip n" and cd: "clen_depths bd0" using assms(1) by (simp_all add: complex_code_def clen_code_def)
  have z: "\<forall>k<18. n \<le> k \<longrightarrow> bd0 ! (CodeLengthCodeOrder ! k) = 0" and n18: "n \<le> 18" using r by (auto simp: sent_range_def)
  have f: "order_filled bd0 n (h_codeLengthCodeLengths h)" and c: "sent_counts (sent bd0 n) (h_codeLengthHisto h)"
    using assms(2) by (simp_all add: clcl_state_def)
  have l: "length bd0 = 18" using cd by (simp add: clen_depths_def)
  show "h_codeLengthCodeLengths h = bd0"
  proof (intro nth_equalityI)
    show "length (h_codeLengthCodeLengths h) = length bd0" using f l by (simp add: order_filled_def)
    fix k assume "k < length (h_codeLengthCodeLengths h)"
    then have "k \<in> set CodeLengthCodeOrder" using f CodeLengthCodeOrder_perm(3) by (simp add: order_filled_def)
    then obtain j where "j < 18" "k = CodeLengthCodeOrder ! j" using CodeLengthCodeOrder_perm(1) by (metis in_set_conv_nth)
    then show "h_codeLengthCodeLengths h ! k = bd0 ! k" using f z by (auto simp: order_filled_def)
  qed
  have "count_list (sent bd0 n) v = length (syms bd0 v)" if "1 \<le> v" for v
  proof -
    have "count_list (sent bd0 n) v = count_list (sent bd0 18) v"
      using count_zeros [of v "sent bd0 n" "18 - n"] that by (simp add: sent_zeros [OF z n18 order_refl])
    also have "\<dots> = count_list bd0 v" using sent_all [OF cd] by (metis count_mset)
    also have "\<dots> = length (filter (\<lambda>x. x = v) (map ((!) bd0) [0..<length bd0]))"
      unfolding map_nth count_list_eq_length_filter by (rule arg_cong [of "(=) v"]) (rule ext, rule eq_commute)
    finally show ?thesis by (simp add: syms_def filter_map comp_def)
  qed
  then show "clen_counts bd0 (h_codeLengthHisto h)" using c by (simp add: clen_counts_def sent_counts_def)
qed

lemma readCodeLengthCodeLengths_ok:
  assumes "complex_code bd0 bd sy skip n toks" and "br_inv (ds_br s)" and "br_bits (ds_br s) = fields_bits (depth_fields bd0 [skip..<n]) @ rest"
    and "h = ds_headerArena s" and "h_subLoopCounter h = skip" and "h_repeat h = 0" and "h_space h = 32"
    and "h_codeLengthHisto h = replicate 16 0" and "h_codeLengthCodeLengths h = replicate 18 0"
  obtains br' hs where "readCodeLengthCodeLengths s = Some (ResultSuccess,
      s\<lparr>ds_br := br', ds_headerArena := h\<lparr>h_codeLengthCodeLengths := bd0, h_codeLengthHisto := hs\<rparr>\<rparr>)"
    "br_inv br'" "br_bits br' = rest" "br_fastEnd br' = br_fastEnd (ds_br s)" "br_inputLen br' = br_inputLen (ds_br s)" "clen_counts bd0 hs"
proof -
  note c = complex_stops [OF assms(1)]
  note st = clcl_state_start [OF assms(1,8,9)]
  have n18: "n \<le> 18" using assms(1) by (simp add: complex_code_def sent_range_def)
  obtain br' ls hs where l: "br_inv br'" "br_bits br' = rest" "br_fastEnd br' = br_fastEnd (ds_br s)" "br_inputLen br' = br_inputLen (ds_br s)"
    "clcl_state bd0 n (h\<lparr>h_codeLengthCodeLengths := ls, h_codeLengthHisto := hs\<rparr>)"
    "clcl_loop skip 0 32 s = Some (Inr (codes_sent bd0 n, 32 - kraft5 (sent bd0 n),
      s\<lparr>ds_br := br', ds_headerArena := h\<lparr>h_codeLengthCodeLengths := ls, h_codeLengthHisto := hs\<rparr>\<rparr>))"
  proof -
    have "skip = n \<longrightarrow> n = 18 \<and> kraft5 (sent bd0 n) < 32" using c(2) by simp
    note L = clcl_loop_ok [OF c(4) n18 less_imp_le [OF c(2)] this c(1), of s rest, folded assms(4), OF st(1) assms(2,3)]
    show thesis using L unfolding st(2,3) diff_zero by (elim exE conjE) (rule that)
  qed
  note e = clcl_state_end [OF assms(1) l(5)]
  have "readCodeLengthCodeLengths s = Some (ResultSuccess, s\<lparr>ds_br := br', ds_headerArena := h\<lparr>h_codeLengthCodeLengths := bd0, h_codeLengthHisto := hs\<rparr>\<rparr>)"
    unfolding readCodeLengthCodeLengths_def assms(4) [symmetric] Let_def assms(5-7) l(6) using c(3) e(1) by auto
  then show thesis by (rule that) (use l e(2) in simp_all)
qed

end
