(* ===== verification/Prefix_Tokens.thy ===== *)
theory Prefix_Tokens
  imports Prefix_Lengths
begin

unbundle bit_operations_syntax

text \<open>
  The symbols of a complex prefix code, \<^verbatim>\<open>readSymbolCodeLengths\<close>: a round of each of its loops reads one symbol of the
  encoder, or one byte more when the bits at hand do not hold it.
\<close>

subsection \<open>A symbol in the window\<close>

text \<open>The table maps the codes of the symbols in use.\<close>

definition clen_reads :: "HuffmanCode list \<Rightarrow> nat list \<Rightarrow> nat list \<Rightarrow> (nat \<times> nat) list \<Rightarrow> bool" where
  "clen_reads table bd sy ts \<longleftrightarrow> prefix_table table \<and> (\<forall>(c, e)\<in>set ts. bd ! c \<le> 5 \<and> sy ! c < 2 ^ (bd ! c) \<and>
     (\<forall>w. w mod 2 ^ (bd ! c) = sy ! c \<longrightarrow> table ! (w mod 32) = \<lparr>Bits = bd ! c, Value = c\<rparr>))"

lemma clen_reads_Cons: "clen_reads table bd sy (t # ts) \<Longrightarrow> clen_reads table bd sy [t] \<and> clen_reads table bd sy ts"
  by (simp add: clen_reads_def)

definition xbits :: "nat \<Rightarrow> nat" where
  "xbits c = (if c = 16 then 2 else if c = 17 then 3 else 0)"

lemma tok_bits:
  "fields_bits (tok_fields bd sy (c, e)) = bits_of (bd ! c) (of_nat (sy ! c) :: u64) @ bits_of (xbits c) (of_nat e :: u64)"
  by (simp add: tok_fields_def xbits_def)

lemma tok_xbits:
  assumes "tok_ok (c, e)"
  shows "xbits c \<le> 3" and "c < 18" and "c < 16 \<Longrightarrow> xbits c = 0" and "val_of (bits_of (xbits c) (of_nat e :: u64)) = e"
  using assms by (auto simp: tok_ok_def xbits_def val_of_bits_of_exact unat_of_nat64)

lemma small_code:
  assumes "L \<le> 5" and "S < 2 ^ L"
  shows "unat (of_nat S :: u64) = S"
proof -
  have "(2::nat) ^ L \<le> 2 ^ 5" using assms(1) by (intro power_increasing) simp_all
  then show ?thesis using assms(2) by (simp add: unat_of_nat64)
qed

text \<open>The entry at a window of which \<open>n\<close> bits are known.\<close>

lemma tok_entry:
  assumes "clen_reads table bd sy [(c, e)]" and "bits = fields_bits (tok_fields bd sy (c, e)) @ rest"
  shows "bd ! c \<le> n \<Longrightarrow> table ! (val_of (take n bits) mod 32) = \<lparr>Bits = bd ! c, Value = c\<rparr>"
    and "Bits (table ! (val_of (take n bits) mod 32)) \<le> n \<Longrightarrow> table ! (val_of (take n bits) mod 32) = \<lparr>Bits = bd ! c, Value = c\<rparr>"
proof -
  define L S where "L = bd ! c" and "S = sy ! c"
  have r: "prefix_table table" "L \<le> 5" "S < 2 ^ L" "\<And>w. w mod 2 ^ L = S \<Longrightarrow> table ! (w mod 32) = \<lparr>Bits = L, Value = c\<rparr>"
    using assms(1) by (simp_all add: clen_reads_def L_def S_def)
  have s: "unat (of_nat S :: u64) = S" by (rule small_code [OF r(2,3)])
  have bits: "bits = bits_of L (of_nat S :: u64) @ bits_of (xbits c) (of_nat e :: u64) @ rest"
    using assms(2) by (simp add: tok_bits L_def S_def)
  have full: "table ! (val_of (take n bits) mod 32) = \<lparr>Bits = L, Value = c\<rparr>" if "L \<le> n" for n
    using r(3) unfolding bits by (intro r(4)) (simp only: val_of_prefix [OF that] s)
  then show "bd ! c \<le> n \<Longrightarrow> table ! (val_of (take n bits) mod 32) = \<lparr>Bits = bd ! c, Value = c\<rparr>" by (simp add: L_def)
  show "table ! (val_of (take n bits) mod 32) = \<lparr>Bits = bd ! c, Value = c\<rparr>" if b: "Bits (table ! (val_of (take n bits) mod 32)) \<le> n"
  proof (cases "L \<le> n")
    case False
    define x B where "x = val_of (take n bits)" and "B = Bits (table ! (x mod 32))"
    have nL: "n \<le> L" and nl: "n \<le> length bits" using False by (simp_all add: bits)
    have "val_of (take L bits) mod 2 ^ n = x"
      using val_of_take_mod [of n "take L bits"] nL nl by (simp add: x_def min_def bits)
    then have "val_of (take L bits) mod 2 ^ B = x mod 2 ^ B"
      using b le_imp_power_dvd [of B n "2::nat"] by (metis B_def mod_mod_cancel x_def)
    moreover have "w mod 2 ^ B = x mod 2 ^ B \<Longrightarrow> table ! (w mod 32) = table ! (x mod 32)" for w
      using r(1) unfolding prefix_table_def B_def by blast
    ultimately have "table ! (val_of (take L bits) mod 32) = table ! (x mod 32)" by blast
    then show ?thesis using full [of L] by (simp add: x_def L_def)
  qed (simp add: full L_def)
qed

text \<open>The extra bits behind the code.\<close>

lemma tok_extra:
  assumes "clen_reads table bd sy [(c, e)]" and "tok_ok (c, e)" and "br_inv br" and "br_bits br = fields_bits (tok_fields bd sy (c, e)) @ rest"
    and "bd ! c + xbits c \<le> br_bitPos br"
  shows "br_inv (dropBits (bd ! c) br)" and "br_bits (dropBits (bd ! c) br) = bits_of (xbits c) (of_nat e :: u64) @ rest"
    and "br_bitPos (dropBits (bd ! c) br) = br_bitPos br - bd ! c"
    and "unat (drop_bit (bd ! c) (br_val br) AND bitMask (xbits c)) = e"
    and "br_inv (dropBits (bd ! c + xbits c) br)" and "br_bits (dropBits (bd ! c + xbits c) br) = rest"
    and "br_inv (dropBits (xbits c) (dropBits (bd ! c) br))" and "br_bits (dropBits (xbits c) (dropBits (bd ! c) br)) = rest"
proof -
  define L where "L = bd ! c"
  have L: "L \<le> 5" using assms(1) by (simp add: clen_reads_def L_def)
  note x = tok_xbits [OF assms(2)]
  have bits: "br_bits br = bits_of L (of_nat (sy ! c) :: u64) @ bits_of (xbits c) (of_nat e :: u64) @ rest"
    using assms(4) by (simp add: tok_bits L_def)
  have n: "L \<le> br_bitPos br" "L < 64" "L + xbits c \<le> br_bitPos br" "L + xbits c < 64" using assms(5) L x(1) by (simp_all add: L_def)
  note d = dropBits_ok [OF assms(3) n(1,2)] and d2 = dropBits_ok [OF assms(3) n(3,4)]
  show d': "br_inv (dropBits (bd ! c) br)" "br_bits (dropBits (bd ! c) br) = bits_of (xbits c) (of_nat e :: u64) @ rest"
    "br_bitPos (dropBits (bd ! c) br) = br_bitPos br - bd ! c" using d by (simp_all add: L_def [symmetric] bits)
  show "br_inv (dropBits (bd ! c + xbits c) br)" "br_bits (dropBits (bd ! c + xbits c) br) = rest"
    using d2 by (simp_all add: L_def [symmetric] bits)
  have m: "xbits c \<le> br_bitPos (dropBits (bd ! c) br)" "xbits c < 64" using d'(3) n(3) x(1) by (simp_all add: L_def)
  show "br_inv (dropBits (xbits c) (dropBits (bd ! c) br))" "br_bits (dropBits (xbits c) (dropBits (bd ! c) br)) = rest"
    using dropBits_ok [OF d'(1) m] d'(2) by simp_all
  have "drop_bit L (br_val br) = br_val (dropBits L br)" using n(2) by (simp add: dropBits_def)
  moreover have "unat (br_val (dropBits L br) AND bitMask (xbits c)) = e"
    using takeBits_ok(1) [OF d'(1) m] d'(2) x(4) by (simp add: takeBits_def L_def)
  ultimately show "unat (drop_bit (bd ! c) (br_val br) AND bitMask (xbits c)) = e" by (simp add: L_def)
qed


subsection \<open>A round of the careful loop\<close>

text \<open>What a symbol does to the header leaves the table and the place of the lists alone.\<close>

lemma add_histo_frame: "add_histo k n h = Some h' \<Longrightarrow> h_table h' = h_table h \<and> h_symbolLists h' = h_symbolLists h \<and> h_symbol h' = h_symbol h"
  by (auto simp: add_histo_def split: bind_splits)

lemma single_code_frame: "single_code c y h = Some h' \<Longrightarrow> h_table h' = h_table h \<and> h_symbolLists h' = h_symbolLists h"
  by (auto simp: single_code_def Let_def dest!: add_histo_frame split: if_splits bind_splits)

lemma repeat_code_frame:
  assumes "repeat_code c e size1 y h = Some (z, h')"
  shows "h_table h' = h_table h \<and> h_symbolLists h' = h_symbolLists h"
proof -
  define eb :: nat where "eb = (if c = RepeatPreviousCodeLength then 2 else 3)"
  define newLen where "newLen = (if c = RepeatPreviousCodeLength then h_prevCodeLen h else 0)"
  define h0 where "h0 = (if h_repeatCodeLen h \<noteq> newLen then h\<lparr>h_repeat := 0, h_repeatCodeLen := newLen\<rparr> else h)"
  define h1 where "h1 = (if 0 < h_repeat h0 then h0\<lparr>h_repeat := shl (usub (h_repeat h0) 2) eb\<rparr> else h0)"
  define h2 where "h2 = h1\<lparr>h_repeat := uadd (h_repeat h1) (uadd e 3)\<rparr>"
  have f: "h_table h2 = h_table h" "h_symbolLists h2 = h_symbolLists h" by (simp_all add: h2_def h1_def h0_def)
  show ?thesis
    using assms f unfolding repeat_code_def Let_def eb_def [symmetric] newLen_def [symmetric] h0_def [symmetric] h1_def [symmetric] h2_def [symmetric]
    by (auto dest!: add_histo_frame split: if_splits bind_splits prod.splits)
qed

lemma process_code_frame:
  assumes "process_code size1 t h = Some h'"
  shows "h_table h' = h_table h" and "h_symbolLists h' = h_symbolLists h"
proof -
  have "h_table h' = h_table h \<and> h_symbolLists h' = h_symbolLists h"
    using assms single_code_frame repeat_code_frame
    by (cases t) (auto simp: process_code_def processSingleCodeLength_def processRepeatedCodeLength_def split: if_splits bind_splits)
  then show "h_table h' = h_table h" "h_symbolLists h' = h_symbolLists h" by simp_all
qed

text \<open>Both branches of the loops end in \<open>process_code\<close>.\<close>

lemma process_code_cases:
  "c < 16 \<Longrightarrow> process_code size1 (c, e) h = processSingleCodeLength c h"
  "16 \<le> c \<Longrightarrow> process_code size1 (c, e) h = processRepeatedCodeLength c e size1 h"
  by (simp_all add: process_code_def RepeatPreviousCodeLength_def)

lemma window_entry:
  assumes "n < 64" and "n \<le> br_bitPos br" and "clen_reads (h_table h) bd sy [(c, e)]"
    and "br_bits br = fields_bits (tok_fields bd sy (c, e)) @ rest" and "bd ! c \<le> n" and "n \<le> 5"
  shows "go_index (h_table h) (uint (bitsUnmasked br AND bitMask n)) = Some \<lparr>Bits = bd ! c, Value = c\<rparr>"
proof -
  define x where "x = val_of (take n (br_bits br))"
  have "unat (bitsUnmasked br AND bitMask n) = x"
    using assms(1,2) by (simp add: unat_and_bitMask bitsUnmasked_def x_def br_bits_def take_bits_of)
  then have u: "uint (bitsUnmasked br AND bitMask n) = int x" by (metis uint_nat)
  have "(2::nat) ^ n \<le> 2 ^ 5" using assms(6) by (intro power_increasing) simp_all
  moreover have "x < 2 ^ length (take n (br_bits br))" unfolding x_def by (rule val_of_lt)
  moreover have "n \<le> length (br_bits br)" using assms(2) length_br_bits [of br] by simp
  ultimately have "x < 32" by simp
  then have "h_table h ! x = \<lparr>Bits = bd ! c, Value = c\<rparr>" using tok_entry(1) [OF assms(3,4,5)] by (simp add: x_def)
  moreover have "32 \<le> length (h_table h)" using assms(3) by (simp add: clen_reads_def prefix_table_def)
  ultimately show ?thesis using \<open>x < 32\<close> by (simp add: u go_index_def)
qed

lemma lengths_step_fast:
  assumes "br_inv (ds_br s)" and "br_ready (ds_br s)" and "checkInputAmount (ds_br s)" and "h = ds_headerArena s"
    and "clen_reads (h_table h) bd sy [t]" and "tok_ok t" and "br_bits (ds_br s) = fields_bits (tok_fields bd sy t) @ rest"
    and "process_code size1 t h = Some h'"
  shows "\<exists>br'. lengths_step size1 s = Some (False, s\<lparr>ds_br := br', ds_headerArena := h'\<rparr>) \<and> br_inv br' \<and> br_bits br' = rest \<and>
    br_fastEnd br' = br_fastEnd (ds_br s) \<and> br_inputLen br' = br_inputLen (ds_br s)"
proof -
  obtain c e where t: "t = (c, e)" by fastforce
  have room: "nat (br_pos (ds_br s)) + 4 \<le> length (br_input (ds_br s))" using fast_room [OF assms(1-3)] by simp
  obtain br1 where f: "fillBitWindow (ds_br s) = Some br1" "br_inv br1" "br_bits br1 = br_bits (ds_br s)" "32 \<le> br_bitPos br1"
    by (rule fillBitWindow_ok [OF assms(1) room])
  have ff: "br_fastEnd br1 = br_fastEnd (ds_br s)" "br_inputLen br1 = br_inputLen (ds_br s)"
    using f(1) by (auto simp: fillBitWindow_def split: if_splits bind_splits)
  have r: "clen_reads (h_table h) bd sy [(c, e)]" and ok: "tok_ok (c, e)" and bits: "br_bits br1 = fields_bits (tok_fields bd sy (c, e)) @ rest"
    using assms(5-7) f(3) by (simp_all add: t)
  have L: "bd ! c \<le> 5" using r by (simp add: clen_reads_def)
  note x = tok_xbits [OF ok]
  have g: "go_index (h_table h) (uint (bitsUnmasked br1 AND bitMask HuffmanMaxCodeLengthCodeLength)) = Some \<lparr>Bits = bd ! c, Value = c\<rparr>"
    using window_entry [of 5 br1, OF _ _ r bits L] f(4) by (simp add: HuffmanMaxCodeLengthCodeLength_def)
  have room2: "bd ! c + xbits c \<le> br_bitPos br1" using L x(1) f(4) by simp
  note d = tok_extra [OF r ok f(2) bits room2]
  have e: "unat (bitsUnmasked (dropBits (bd ! c) br1) AND bitMask (xbits c)) = e"
    using d(4) L by (simp add: bitsUnmasked_def dropBits_def)
  define br' where "br' = dropBits (xbits c) (dropBits (bd ! c) br1)"
  have st: "lengths_step size1 s = Some (False, s\<lparr>ds_br := br', ds_headerArena := h'\<rparr>)"
  proof (cases "c < 16")
    case True
    have "dropBits 0 b = b" if "br_inv b" for b using that br_invD(4) [OF that]
      by (simp add: dropBits_def usub_exact)
    then have b: "br' = dropBits (bd ! c) br1" using x(3) [OF True] d(1) by (simp add: br'_def)
    have "processSingleCodeLength c h = Some h'" using assms(8) process_code_cases(1) [OF True] by (simp add: t)
    then show ?thesis using True assms(3)
      by (simp add: lengths_step_def assms(4) [symmetric] fillBitWindow16_def f(1) g b RepeatPreviousCodeLength_def)
  next
    case False
    have c: "c = 16 \<and> xbits c = 2 \<or> c = 17 \<and> xbits c = 3" using False x(2) by (auto simp: xbits_def)
    have "processRepeatedCodeLength c e size1 h = Some h'" using assms(8) process_code_cases(2) [of c] False by (simp add: t)
    then show ?thesis using c assms(3) e
      by (elim disjE conjE) (simp_all add: lengths_step_def assms(4) [symmetric] fillBitWindow16_def f(1) g br'_def RepeatPreviousCodeLength_def Let_def)
  qed
  have "br_fastEnd br' = br_fastEnd (ds_br s)" "br_inputLen br' = br_inputLen (ds_br s)" by (simp_all add: br'_def ff)
  then show ?thesis using st d(7,8) unfolding br'_def [symmetric] by blast
qed

text \<open>The low bits of the accumulator when fewer bits than asked for may be valid.\<close>

lemma masked_window:
  assumes "br_inv br"
  shows "unat ((if br_bitPos br \<noteq> 0 then br_val (normalize br) else 0) AND bitMask 5) = val_of (take (br_bitPos br) (br_bits br)) mod 32"
proof -
  define a where "a = br_bitPos br"
  have t: "take a (br_bits br) = bits_of a (br_val br)" by (simp add: br_bits_def a_def)
  show ?thesis
  proof (cases "a < 5")
    case True
    have "(if a \<noteq> 0 then br_val (normalize br) else 0) AND bitMask 5 = br_val br AND bitMask a"
      using True by (intro bit_word_eqI) (auto simp: normalize_def a_def [symmetric] bit_and_iff bit_bitMask)
    moreover have "unat (br_val br AND bitMask a) = val_of (take a (br_bits br))" using True t by (simp add: unat_and_bitMask)
    moreover have "val_of (take a (br_bits br)) < 32"
      using val_of_lt [of "bits_of a (br_val br)"] power_increasing [of a 5 "2::nat"] True t by simp
    ultimately show ?thesis by (simp add: a_def)
  next
    case False
    have "br_val (normalize br) AND bitMask 5 = br_val br AND bitMask 5"
      using False by (intro bit_word_eqI) (auto simp: normalize_def a_def [symmetric] bit_and_iff bit_bitMask)
    then have "unat (br_val (normalize br) AND bitMask 5) = val_of (bits_of 5 (br_val br))" by (simp add: unat_and_bitMask)
    also have "\<dots> = val_of (take 5 (bits_of a (br_val br)))" using False by (simp add: take_bits_of)
    also have "\<dots> = val_of (bits_of a (br_val br)) mod 2 ^ 5" using False by (intro val_of_take_mod [symmetric]) simp
    finally show ?thesis using False t by (simp add: a_def)
  qed
qed

lemma lengths_step_slow:
  assumes "br_inv (ds_br s)" and "\<not> checkInputAmount (ds_br s)" and "h = ds_headerArena s"
    and "clen_reads (h_table h) bd sy [t]" and "tok_ok t" and "br_bits (ds_br s) = fields_bits (tok_fields bd sy t) @ rest"
    and "process_code size1 t h = Some h'"
  shows "\<exists>br'. br_inv br' \<and> br_fastEnd br' = br_fastEnd (ds_br s) \<and> br_inputLen br' = br_inputLen (ds_br s) \<and>
    (lengths_step size1 s = Some (False, s\<lparr>ds_br := br', ds_headerArena := h'\<rparr>) \<and> br_bits br' = rest \<or>
     lengths_step size1 s = Some (False, s\<lparr>ds_br := br'\<rparr>) \<and> br_bits br' = br_bits (ds_br s) \<and>
       br_pos br' = br_pos (ds_br s) + 1 \<and> br_pos (ds_br s) < br_inputLen (ds_br s))"
proof -
  obtain c e where t: "t = (c, e)" by fastforce
  define avail br where "avail = br_bitPos (ds_br s)" and "br = (if avail \<noteq> 0 then normalize (ds_br s) else ds_br s)"
  have b: "br_inv br" "br_bits br = br_bits (ds_br s)" "br_bitPos br = avail" "br_pos br = br_pos (ds_br s)"
    "br_fastEnd br = br_fastEnd (ds_br s)" "br_inputLen br = br_inputLen (ds_br s)"
    using normalize_ok [OF assms(1)] assms(1) by (simp_all add: br_def avail_def)
  have r: "clen_reads (h_table h) bd sy [(c, e)]" and ok: "tok_ok (c, e)" and bits: "br_bits br = fields_bits (tok_fields bd sy (c, e)) @ rest"
    using assms(4-6) b(2) by (simp_all add: t)
  have L: "bd ! c \<le> 5" using r by (simp add: clen_reads_def)
  note x = tok_xbits [OF ok]
  have bl: "bd ! c + xbits c \<le> length (br_bits br)" by (simp add: bits tok_bits)
  define w where "w = (if avail \<noteq> 0 then bitsUnmasked br else 0)"
  have wv: "unat (w AND bitMask 5) = val_of (take avail (br_bits br)) mod 32"
  proof -
    have "w = (if br_bitPos (ds_br s) \<noteq> 0 then br_val (normalize (ds_br s)) else 0)"
      by (simp add: w_def bitsUnmasked_def br_def avail_def)
    then show ?thesis using masked_window [OF assms(1)] by (simp only: b(2) avail_def)
  qed
  define en where "en = h_table h ! (val_of (take avail (br_bits br)) mod 32)"
  have "uint (w AND bitMask 5) = int (val_of (take avail (br_bits br)) mod 32)" using wv by (metis uint_nat)
  moreover have "32 \<le> length (h_table h)" using r by (simp add: clen_reads_def prefix_table_def)
  then have "val_of (take avail (br_bits br)) mod 32 < length (h_table h)" using mod_less_divisor [of 32] by (metis less_le_trans zero_less_numeral)
  ultimately have g: "go_index (h_table h) (uint (w AND bitMask HuffmanMaxCodeLengthCodeLength)) = Some en"
    by (simp add: HuffmanMaxCodeLengthCodeLength_def en_def)
  note en = tok_entry [OF r bits, of avail, folded en_def]
  have "br_pos br < br_inputLen br" if short: "avail < bd ! c + xbits c"
  proof (rule ccontr)
    assume "\<not> br_pos br < br_inputLen br"
    then have "br_bits br = bits_of avail (br_val br)" using exhausted_bits [OF b(1)] b(3) by simp
    then show False using bl short by simp
  qed
  then have p: "\<exists>br1. pullByte br = Some (True, br1) \<and> br_inv br1 \<and> br_bits br1 = br_bits br \<and> br_pos br1 = br_pos br + 1 \<and>
      br_inputLen br1 = br_inputLen br \<and> br_fastEnd br1 = br_fastEnd br \<and> br_pos br < br_inputLen br" if "avail < bd ! c + xbits c"
  proof -
    have "br_bitPos br \<le> 56" "br_pos br < br_inputLen br" using that L x(1) b(3) \<open>avail < bd ! c + xbits c \<Longrightarrow> br_pos br < br_inputLen br\<close> by simp_all
    then show ?thesis using pullByte_True [OF b(1)] by metis
  qed
  have lo: "uadd (bd ! c) (xbits c) = bd ! c + xbits c" using L x(1) by (intro uadd_exact) simp
  have xb: "usub c 14 = xbits c" if "16 \<le> c" using that x(2) by (auto simp: xbits_def usub_exact)
  note step = lengths_step_def [of size1 s, unfolded assms(3) [symmetric] Let_def availBits_def avail_def [symmetric] br_def [symmetric]
      w_def [symmetric] if_not_P [OF assms(2)] g Option.bind.bind_lunit]
  show ?thesis
  proof (cases "bd ! c + xbits c \<le> avail")
    case True
    have e: "en = \<lparr>Bits = bd ! c, Value = c\<rparr>" using en(1) True by simp
    note d = tok_extra [OF r ok b(1) bits, unfolded b(3), OF True]
    have "lengths_step size1 s = Some (False, s\<lparr>ds_br := dropBits (bd ! c + xbits c) br, ds_headerArena := h'\<rparr>)"
    proof (cases "c < 16")
      case c: True
      then show ?thesis using assms(7) True x(3) process_code_cases(1) [OF c]
        by (simp add: step e t RepeatPreviousCodeLength_def)
    next
      case False
      have "avail \<noteq> 0" using True False x(2) by (auto simp: xbits_def split: if_splits)
      then have "unat (drop_bit (bd ! c) w AND bitMask (xbits c)) = e" using d(4) by (simp add: w_def bitsUnmasked_def)
      then show ?thesis using assms(7) True False process_code_cases(2) [of c] xb
        by (simp add: step e t RepeatPreviousCodeLength_def lo)
    qed
    then show ?thesis using d(5,6) b(5,6) by (intro exI [of _ "dropBits (bd ! c + xbits c) br"]) simp
  next
    case False
    then obtain br1 where p: "pullByte br = Some (True, br1)" "br_inv br1" "br_bits br1 = br_bits br" "br_pos br1 = br_pos br + 1"
      "br_inputLen br1 = br_inputLen br" "br_fastEnd br1 = br_fastEnd br" "br_pos br < br_inputLen br" using p by auto
    have "lengths_step size1 s = Some (False, s\<lparr>ds_br := br1\<rparr>)"
    proof (cases "Bits en \<le> avail")
      case True
      then have e: "en = \<lparr>Bits = bd ! c, Value = c\<rparr>" by (rule en(2))
      then have c: "16 \<le> c" using False True x(3) by (cases "c < 16") simp_all
      then show ?thesis using e True False xb by (simp add: step RepeatPreviousCodeLength_def lo p(1))
    next
      case False
      then show ?thesis by (simp add: step p(1))
    qed
    then show ?thesis using p b by (intro exI [of _ br1]) simp
  qed
qed

end
