(* ===== verification/Decode_Copy.thy ===== *)
theory Decode_Copy
  imports Decode_Ring
begin

unbundle bit_operations_syntax

text \<open>
  Backward references inside the ring buffer: the copy primitives of \<^verbatim>\<open>decode_mem_checked.go\<close> and the part of
  \<^verbatim>\<open>processCommands\<close> between \<^verbatim>\<open>Copy from ring buffer\<close> and \<^verbatim>\<open>postCopy\<close>. Copies write in blocks of 16 bytes and
  may leave up to 15 bytes of rubbish behind the bytes they were asked for; the lemmas say that what counts is
  what a copy byte by byte from the bytes decoded so far would give.
\<close>

subsection \<open>Copy primitives\<close>

definition copy16 :: "byte goslice \<Rightarrow> int \<Rightarrow> int \<Rightarrow> byte goslice option" where
  "copy16 b dst src = do {
     xs \<leftarrow> sl_slice b src (src + 16);
     _ \<leftarrow> sl_slice b dst (dst + 16);
     Some (b\<lparr>sl_data := overwrite (sl_data b) (nat dst) xs\<rparr>) }"

definition checkRingCopy :: "int \<Rightarrow> int \<Rightarrow> int \<Rightarrow> unit option" where
  "checkRingCopy size1 ps n = (if ps < 0 \<or> n < 0 \<or> ps \<ge> size1 \<or> n > size1 - ps then None else Some ())"

text \<open>\<^verbatim>\<open>copy(b[d1:d2], b[s1:s2])\<close>: the source is read before the destination is written.\<close>

definition slice_copy :: "byte goslice \<Rightarrow> int \<Rightarrow> int \<Rightarrow> int \<Rightarrow> int \<Rightarrow> byte goslice option" where
  "slice_copy b d1 d2 s1 s2 = do {
     dst \<leftarrow> sl_slice b d1 d2;
     src \<leftarrow> sl_slice b s1 s2;
     Some (b\<lparr>sl_data := overwrite (sl_data b) (nat d1) (take (length dst) src)\<rparr>) }"

partial_function (option) pattern_double :: "byte goslice \<Rightarrow> int \<Rightarrow> int \<Rightarrow> int \<Rightarrow> (byte goslice \<times> int \<times> int) option" where
  "pattern_double rb p end1 dist = (if dist < 16 \<and> p < end1
     then do { rb \<leftarrow> copy16 rb p (p - dist); pattern_double rb (p + dist) end1 (dist + dist) }
     else Some (rb, p, dist))"

partial_function (option) pattern_fill :: "byte goslice \<Rightarrow> int \<Rightarrow> int \<Rightarrow> int \<Rightarrow> byte goslice option" where
  "pattern_fill rb p end1 dist = (if p < end1
     then do { rb \<leftarrow> copy16 rb p (p - dist); pattern_fill rb (p + 16) end1 dist }
     else Some rb)"

definition copyOverlappingPattern :: "byte goslice \<Rightarrow> int \<Rightarrow> int \<Rightarrow> int \<Rightarrow> byte goslice option" where
  "copyOverlappingPattern rb ps dist n = do {
     (rb, p, dist) \<leftarrow> pattern_double rb ps (ps + n) dist;
     pattern_fill rb p (ps + n) dist }"


subsection \<open>The copy of a command\<close>

text \<open>\<open>copy_blocks\<close>: the blocks after the first 16 bytes, \<open>ps\<close> being the end of the destination.\<close>

definition copy_blocks :: "byte goslice \<Rightarrow> int \<Rightarrow> int \<Rightarrow> int \<Rightarrow> byte goslice option" where
  "copy_blocks rb i srcStart ps =
     (if i > 16 then let src16 = srcStart + 16; dst16 = ps - i + 16; srcEnd = srcStart + i in do {
        rb \<leftarrow> copy16 rb dst16 src16;
        if i > 32 then do {
          rb \<leftarrow> copy16 rb (dst16 + 16) (src16 + 16);
          if i > 48 then do {
            rb \<leftarrow> copy16 rb (dst16 + 32) (src16 + 32);
            if i > 64 then do {
              rb \<leftarrow> copy16 rb (dst16 + 48) (src16 + 48);
              if i > 80 then do {
                rb \<leftarrow> copy16 rb (dst16 + 64) (src16 + 64);
                if i > 96 then slice_copy rb (dst16 + 80) ps (src16 + 80) srcEnd
                else Some rb }
              else Some rb }
            else Some rb }
          else Some rb }
        else Some rb }
      else Some rb)"

text \<open>The code from the eager copy to \<^verbatim>\<open>goto postCopy\<close>; the first component is \<open>True\<close> when it leaves through
  \<^verbatim>\<open>goto commandPostWrapCopy\<close>.\<close>

definition ring_copy :: "int \<Rightarrow> int \<Rightarrow> int \<Rightarrow> byte goslice \<Rightarrow> int \<Rightarrow> int \<Rightarrow> (bool \<times> byte goslice \<times> int) option" where
  "ring_copy size1 mask1 dist rb ps i =
     (let srcStart = (ps - dist) AND mask1; dstEnd = ps + i; srcEnd = srcStart + i in do {
        _ \<leftarrow> checkRingCopy size1 ps 0;
        rb \<leftarrow> copy16 rb ps srcStart;
        if dstEnd \<ge> size1 \<or> srcEnd \<ge> size1 then Some (True, rb, ps)
        else do {
          _ \<leftarrow> checkRingCopy size1 ps i;
          if srcEnd > ps \<and> dstEnd > srcStart then
            (if ps - srcStart > 0
             then do { rb \<leftarrow> copyOverlappingPattern rb ps (ps - srcStart) i; Some (False, rb, ps + i) }
             else Some (True, rb, ps))
          else do { rb \<leftarrow> copy_blocks rb i srcStart (ps + i); Some (False, rb, ps + i) } } })"

text \<open>The loop at \<^verbatim>\<open>commandPostWrapCopy\<close>; the first component is \<open>True\<close> when it stops at the end of the ring.\<close>

definition wrap_round :: "int \<Rightarrow> int \<Rightarrow> int \<Rightarrow> byte goslice \<Rightarrow> int \<Rightarrow> int \<Rightarrow> (byte goslice \<times> int \<times> int) option" where
  "wrap_round size1 mask1 dist rb ps i =
     (let srcStart = (ps - dist) AND mask1; n = min i (min (size1 - ps) (size1 - srcStart)) in do {
        _ \<leftarrow> checkRingCopy size1 ps n;
        if ps - srcStart > 0 then do {
          rb \<leftarrow> (if ps - srcStart \<ge> n then slice_copy rb ps (ps + n) srcStart (srcStart + n)
                 else copyOverlappingPattern rb ps (ps - srcStart) n);
          Some (rb, ps + n, i - n) }
        else do {
          b \<leftarrow> sl_get rb srcStart;
          rb \<leftarrow> sl_set rb ps b;
          Some (rb, ps + 1, i - 1) } })"

partial_function (option) wrap_copy ::
    "int \<Rightarrow> int \<Rightarrow> int \<Rightarrow> byte goslice \<Rightarrow> int \<Rightarrow> int \<Rightarrow> (bool \<times> byte goslice \<times> int \<times> int) option" where
  "wrap_copy size1 mask1 dist rb ps i =
     (if i > 0 then do {
        x \<leftarrow> wrap_round size1 mask1 dist rb ps i;
        if fst (snd x) = size1 then Some (True, x)
        else wrap_copy size1 mask1 dist (fst x) (fst (snd x)) (snd (snd x)) }
      else Some (False, rb, ps, i))"


subsection \<open>What has been decoded, and the ring that holds it\<close>

text \<open>A copy of \<open>n\<close> bytes from \<open>dist\<close> bytes back, one byte at a time.\<close>

fun lz_copy :: "nat \<Rightarrow> nat \<Rightarrow> 'a list \<Rightarrow> 'a list" where
  "lz_copy dist 0 hist = hist"
| "lz_copy dist (Suc n) hist = lz_copy dist n (hist @ [hist ! (length hist - dist)])"

text \<open>The index in a ring of \<open>size1\<close> bytes of the byte \<open>d\<close> before position \<open>p\<close>.\<close>

definition ring_at :: "nat \<Rightarrow> nat \<Rightarrow> nat \<Rightarrow> nat" where
  "ring_at size1 p d = (if d \<le> p then p - d else p + size1 - d)"

definition reach :: "nat \<Rightarrow> nat \<Rightarrow> nat \<Rightarrow> bool" where
  "reach size1 p d \<longleftrightarrow> d \<le> p \<or> d + 16 \<le> size1"

definition holds_hist :: "'a list \<Rightarrow> nat \<Rightarrow> nat \<Rightarrow> 'a list \<Rightarrow> bool" where
  "holds_hist xs size1 p hist \<longleftrightarrow> (\<forall>d. 1 \<le> d \<longrightarrow> d \<le> length hist \<longrightarrow> reach size1 p d \<longrightarrow>
     xs ! ring_at size1 p d = hist ! (length hist - d))"

text \<open>\<open>wrote xs ys p n\<close>: \<open>ys\<close> is \<open>xs\<close> with \<open>n\<close> bytes written from \<open>p\<close> and rubbish in at most 16 bytes after them.\<close>

definition wrote :: "'a list \<Rightarrow> 'a list \<Rightarrow> nat \<Rightarrow> nat \<Rightarrow> bool" where
  "wrote xs ys p n \<longleftrightarrow> length ys = length xs \<and> (\<forall>x. x < p \<or> p + n + 16 \<le> x \<longrightarrow> ys ! x = xs ! x)"

lemma wrote_refl: "wrote xs xs p n"
  by (simp add: wrote_def)

lemma wrote_mono: "wrote xs ys p m \<Longrightarrow> m \<le> n \<Longrightarrow> wrote xs ys p n"
  by (simp add: wrote_def)

lemma wrote_trans: "wrote xs ys p n \<Longrightarrow> wrote ys zs p n \<Longrightarrow> wrote xs zs p n"
  by (simp add: wrote_def)

lemma wrote_overwrite:
  assumes "p \<le> q" "q + length bs \<le> p + n + 16" "q + length bs \<le> length xs"
  shows "wrote xs (overwrite xs q bs) p n"
proof -
  have "overwrite xs q bs ! x = xs ! x" if "x < p \<or> p + n + 16 \<le> x" for x
  proof (cases "x < length xs")
    case True
    with that assms show ?thesis by (auto simp: nth_overwrite)
  next
    case False
    then show ?thesis using assms that by (auto simp: overwrite_def nth_append)
  qed
  with assms show ?thesis by (simp add: wrote_def)
qed

lemma length_lz_copy [simp]: "length (lz_copy dist n hist) = length hist + n"
  by (induction n arbitrary: hist) simp_all

lemma lz_copy_add: "lz_copy dist (m + n) hist = lz_copy dist n (lz_copy dist m hist)"
  by (induction m arbitrary: hist) simp_all

lemma lz_copy_nth_old: "x < length hist \<Longrightarrow> lz_copy dist n hist ! x = hist ! x"
  by (induction n arbitrary: hist) (simp_all add: nth_append)

lemma lz_copy_nth_new:
  assumes "1 \<le> dist" "dist \<le> length hist" "k < n"
  shows "lz_copy dist n hist ! (length hist + k) = hist ! (length hist - dist + k mod dist)"
  using assms
proof (induction k arbitrary: n hist rule: less_induct)
  case (less k)
  have step: "lz_copy dist n hist ! (length hist + k) = lz_copy dist k hist ! (length hist + k - dist)"
  proof -
    have "n = k + Suc (n - k - 1)" using less.prems by simp
    then have "lz_copy dist n hist = lz_copy dist (Suc (n - k - 1)) (lz_copy dist k hist)" by (metis lz_copy_add)
    moreover have "length hist + k < length (lz_copy dist k hist) + 1" by simp
    ultimately show ?thesis using lz_copy_nth_old [of "length hist + k" "lz_copy dist k hist @ [lz_copy dist k hist ! (length hist + k - dist)]" dist "n - k - 1"]
      by (simp add: nth_append)
  qed
  show ?case
  proof (cases "k < dist")
    case True
    then have "length hist + k - dist < length hist" "length hist + k - dist = length hist - dist + k"
      using less.prems by simp_all
    with step True show ?thesis by (simp add: lz_copy_nth_old)
  next
    case False
    then have k: "length hist + k - dist = length hist + (k - dist)" "k - dist < k" using less.prems by simp_all
    have "lz_copy dist k hist ! (length hist + (k - dist)) = hist ! (length hist - dist + (k - dist) mod dist)"
      using less.prems k(2) by (intro less.IH) simp_all
    also have "(k - dist) mod dist = k mod dist" using False by (simp add: le_mod_geq)
    finally show ?thesis using step k(1) by simp
  qed
qed

lemma ring_at_src:
  assumes "1 \<le> dist" "dist \<le> size1" "p < size1" "j < dist" "ring_at size1 p dist + j < size1"
  shows "ring_at size1 p dist + j = ring_at size1 p (dist - j)"
  using assms by (auto simp: ring_at_def split: if_splits)

text \<open>A block of bytes written at \<open>p\<close> that repeats what is \<open>dist\<close> bytes back extends the history by a copy.\<close>

lemma holds_copy:
  assumes h: "holds_hist xs size1 p hist" and w: "wrote xs ys p n" and pn: "p + n \<le> size1" "size1 + 16 \<le> length xs"
    and d: "1 \<le> dist" "dist \<le> length hist" "reach size1 p dist" "dist < size1" "p < size1"
    and src: "\<And>k. k < n \<Longrightarrow> ring_at size1 p dist + k mod dist < size1"
    and new: "\<And>k. k < n \<Longrightarrow> ys ! (p + k) = xs ! (ring_at size1 p dist + k mod dist)"
  shows "holds_hist ys size1 (p + n) (lz_copy dist n hist)"
  unfolding holds_hist_def
proof (intro allI impI)
  fix e assume e: "1 \<le> e" "e \<le> length (lz_copy dist n hist)" "reach size1 (p + n) e"
  show "ys ! ring_at size1 (p + n) e = lz_copy dist n hist ! (length (lz_copy dist n hist) - e)"
  proof (cases "e \<le> n")
    case True
    define k where "k = n - e"
    have k: "k < n" "p + n - e = p + k" "length hist + n - e = length hist + k" using True e unfolding k_def by simp_all
    have m: "k mod dist < dist" using d by simp
    have q: "ring_at size1 p dist + k mod dist = ring_at size1 p (dist - k mod dist)"
      using src [OF k(1)] m d by (intro ring_at_src) simp_all
    have "1 \<le> dist - k mod dist" "dist - k mod dist \<le> length hist" "reach size1 p (dist - k mod dist)"
      using m d(2,3) unfolding reach_def by linarith+
    then have "xs ! ring_at size1 p (dist - k mod dist) = hist ! (length hist - (dist - k mod dist))"
      using h unfolding holds_hist_def by blast
    also have "length hist - (dist - k mod dist) = length hist - dist + k mod dist" using m d by simp
    finally have "ys ! (p + k) = hist ! (length hist - dist + k mod dist)" using new [OF k(1)] q by simp
    moreover have "ring_at size1 (p + n) e = p + k" using True k by (simp add: ring_at_def)
    ultimately show ?thesis using lz_copy_nth_new [OF d(1,2) k(1)] k by simp
  next
    case False
    have r: "ring_at size1 (p + n) e = ring_at size1 p (e - n)"
      using False pn e(3) unfolding ring_at_def reach_def by (auto split: if_splits)
    have out: "ring_at size1 p (e - n) < p \<or> p + n + 16 \<le> ring_at size1 p (e - n)"
      using False pn e(1,3) unfolding ring_at_def reach_def by (auto split: if_splits)
    have "reach size1 p (e - n)" using e(3) False unfolding reach_def by auto
    then have "xs ! ring_at size1 p (e - n) = hist ! (length hist - (e - n))"
      using h False e(2) unfolding holds_hist_def by simp
    moreover have "ys ! ring_at size1 p (e - n) = xs ! ring_at size1 p (e - n)" using w out unfolding wrote_def by blast
    moreover have "length hist - (e - n) = length hist + n - e" "length hist + n - e < length hist" using False e(2) by simp_all
    ultimately show ?thesis using r by (simp add: lz_copy_nth_old)
  qed
qed


subsection \<open>The primitives\<close>

lemma copy16_ok:
  assumes "p + 16 \<le> length (sl_data rb)" "q + 16 \<le> length (sl_data rb)"
  shows "copy16 rb (int p) (int q) = Some (rb\<lparr>sl_data := overwrite (sl_data rb) p (take 16 (drop q (sl_data rb)))\<rparr>)"
  using assms by (simp add: copy16_def sl_slice_def go_slice_def)

lemma slice_copy_ok:
  assumes "p + n \<le> length (sl_data rb)" "q + n \<le> length (sl_data rb)"
  shows "slice_copy rb (int p) (int p + int n) (int q) (int q + int n) =
    Some (rb\<lparr>sl_data := overwrite (sl_data rb) p (take n (drop q (sl_data rb)))\<rparr>)"
  using assms by (simp add: slice_copy_def sl_slice_def go_slice_def)

text \<open>\<open>ys\<close> has, from \<open>p - d\<close> up to \<open>P\<close>, the \<open>d\<close> bytes before \<open>p\<close> of \<open>xs\<close> repeated; \<open>D\<close> is a multiple of \<open>d\<close>.\<close>

definition repeats :: "'a list \<Rightarrow> 'a list \<Rightarrow> nat \<Rightarrow> nat \<Rightarrow> nat \<Rightarrow> nat \<Rightarrow> bool" where
  "repeats xs ys p d P D \<longleftrightarrow> length ys = length xs \<and> d dvd D \<and> 1 \<le> D \<and> D + (p - d) \<le> P \<and> p \<le> P \<and>
     (\<forall>x. p - d \<le> x \<longrightarrow> x < P \<longrightarrow> ys ! x = xs ! (p - d + (x - (p - d)) mod d))"

lemma repeats_step:
  assumes r: "repeats xs ys p d P D" and P: "P + 16 \<le> length xs" and d: "1 \<le> d" "d \<le> p" and m: "m \<le> 16" "m \<le> D"
    and E: "d dvd E" "1 \<le> E" "E + (p - d) \<le> P + m"
  shows "repeats xs (overwrite ys P (take 16 (drop (P - D) ys))) p d (P + m) E"
proof -
  let ?b = "p - d" and ?zs = "overwrite ys P (take 16 (drop (P - D) ys))"
  from r have l: "length ys = length xs" and D: "d dvd D" "1 \<le> D" "D + ?b \<le> P" "p \<le> P"
    and v: "\<And>x. ?b \<le> x \<Longrightarrow> x < P \<Longrightarrow> ys ! x = xs ! (?b + (x - ?b) mod d)" by (auto simp: repeats_def)
  have lt: "length (take 16 (drop (P - D) ys)) = 16" using P l D by simp
  have "?zs ! x = xs ! (?b + (x - ?b) mod d)" if x: "?b \<le> x" "x < P + m" for x
  proof (cases "x < P")
    case True
    then have "?zs ! x = ys ! x" using P l lt by (simp add: nth_overwrite)
    with v x(1) True show ?thesis by simp
  next
    case False
    then have j: "x - P < 16" "x - P < D" "?b \<le> P - D + (x - P)" "P - D + (x - P) < P"
      using x m D by simp_all
    have "?zs ! x = ys ! (P - D + (x - P))" using False P l lt x j m by (simp add: nth_overwrite)
    also have "\<dots> = xs ! (?b + (P - D + (x - P) - ?b) mod d)" using v j(3,4) by blast
    also have "(P - D + (x - P) - ?b) mod d = (P - D + (x - P) - ?b + D) mod d" using D(1) by (metis mod_add_self2 dvd_def mod_mult_self2)
    also have "P - D + (x - P) - ?b + D = x - ?b" using j False D by simp
    finally show ?thesis .
  qed
  then show ?thesis using l P lt D E by (simp add: repeats_def)
qed

lemma pattern_fill_ok:
  assumes "repeats xs (sl_data rb) p d P D" "16 \<le> D \<or> p + n \<le> P" "1 \<le> d" "d \<le> p" "p + n + 15 \<le> length xs"
    "wrote xs (sl_data rb) p n"
  obtains ys where "pattern_fill rb (int P) (int (p + n)) (int D) = Some (rb\<lparr>sl_data := ys\<rparr>)" "wrote xs ys p n"
    "\<And>x. p \<le> x \<Longrightarrow> x < p + n \<Longrightarrow> ys ! x = xs ! (p - d + (x - (p - d)) mod d)"
  using assms
proof (induction "p + n - P" arbitrary: rb P thesis rule: less_induct)
  case less
  note r = less.prems(2) and w = less.prems(7)
  show ?case
  proof (cases "P < p + n")
    case False
    have "pattern_fill rb (int P) (int (p + n)) (int D) = Some (rb\<lparr>sl_data := sl_data rb\<rparr>)"
      using False by (subst pattern_fill.simps) simp
    then show thesis using w by (rule less.prems(1)) (use r False in \<open>auto simp: repeats_def\<close>)
  next
    case True
    let ?zs = "overwrite (sl_data rb) P (take 16 (drop (P - D) (sl_data rb)))"
    have D: "16 \<le> D" "D \<le> P" "p \<le> P" and l: "length (sl_data rb) = length xs"
      using less.prems(3) True r by (auto simp: repeats_def)
    have c: "copy16 rb (int P) (int P - int D) = Some (rb\<lparr>sl_data := ?zs\<rparr>)"
      using copy16_ok [of P rb "P - D"] D True less.prems(6) l by simp
    have r': "repeats xs ?zs p d (P + 16) D"
      using repeats_step [OF r, of 16 D] D True less.prems r by (simp add: repeats_def)
    have w': "wrote xs ?zs p n"
      by (rule wrote_trans [OF w wrote_overwrite]) (use D True l less.prems(6) in simp_all)
    obtain ys where ys: "pattern_fill (rb\<lparr>sl_data := ?zs\<rparr>) (int (P + 16)) (int (p + n)) (int D) = Some (rb\<lparr>sl_data := ?zs\<rparr>\<lparr>sl_data := ys\<rparr>)"
      "wrote xs ys p n" "\<And>x. p \<le> x \<Longrightarrow> x < p + n \<Longrightarrow> ys ! x = xs ! (p - d + (x - (p - d)) mod d)"
      by (rule less.hyps [of "P + 16" "rb\<lparr>sl_data := ?zs\<rparr>"]) (use True r' w' D less.prems(4-6) in simp_all)
    have "pattern_fill rb (int P) (int (p + n)) (int D) = Some (rb\<lparr>sl_data := ys\<rparr>)"
      using True c ys(1) by (subst pattern_fill.simps) simp
    then show thesis using ys(2,3) by (rule less.prems(1))
  qed
qed

lemma pattern_double_ok:
  assumes "repeats xs (sl_data rb) p d P D" "1 \<le> d" "d \<le> p" "p + n + 15 \<le> length xs" "wrote xs (sl_data rb) p n"
  obtains ys P' D' where "pattern_double rb (int P) (int (p + n)) (int D) = Some (rb\<lparr>sl_data := ys\<rparr>, int P', int D')"
    "wrote xs ys p n" "repeats xs ys p d P' D'" "16 \<le> D' \<or> p + n \<le> P'"
  using assms
proof (induction "p + n - P" arbitrary: rb P D thesis rule: less_induct)
  case less
  note r = less.prems(2) and w = less.prems(6)
  show ?case
  proof (cases "D < 16 \<and> P < p + n")
    case False
    then have "pattern_double rb (int P) (int (p + n)) (int D) = Some (rb\<lparr>sl_data := sl_data rb\<rparr>, int P, int D)"
      by (subst pattern_double.simps) auto
    then show thesis using w r by (rule less.prems(1)) (use False in auto)
  next
    case True
    let ?zs = "overwrite (sl_data rb) P (take 16 (drop (P - D) (sl_data rb)))"
    have D: "D \<le> P" "p \<le> P" "1 \<le> D" "D + (p - d) \<le> P" "d dvd D" and l: "length (sl_data rb) = length xs"
      using r by (auto simp: repeats_def)
    have b: "P + 16 \<le> length (sl_data rb)" "P - D + 16 \<le> length (sl_data rb)" using D True less.prems(5) l by linarith+
    have c: "copy16 rb (int P) (int P - int D) = Some (rb\<lparr>sl_data := ?zs\<rparr>)"
      using copy16_ok [OF b] D(1) by (simp add: of_nat_diff)
    have r': "repeats xs ?zs p d (P + D) (D + D)"
      using repeats_step [OF r, of D "D + D"] D True less.prems by simp
    have w': "wrote xs ?zs p n"
      by (rule wrote_trans [OF w wrote_overwrite]) (use D True l less.prems(5) b in simp_all)
    obtain ys P' D' where ys: "pattern_double (rb\<lparr>sl_data := ?zs\<rparr>) (int (P + D)) (int (p + n)) (int (D + D)) =
        Some (rb\<lparr>sl_data := ?zs\<rparr>\<lparr>sl_data := ys\<rparr>, int P', int D')"
      "wrote xs ys p n" "repeats xs ys p d P' D'" "16 \<le> D' \<or> p + n \<le> P'"
      by (rule less.hyps [of "P + D" "rb\<lparr>sl_data := ?zs\<rparr>" "D + D"]) (use True r' w' D less.prems(3-5) in \<open>simp_all, linarith\<close>)
    have "pattern_double rb (int P) (int (p + n)) (int D) = Some (rb\<lparr>sl_data := ys\<rparr>, int P', int D')"
      using True c ys(1) by (subst pattern_double.simps) simp
    then show thesis using ys(2-4) by (rule less.prems(1))
  qed
qed

lemma copyOverlappingPattern_ok:
  assumes d: "1 \<le> d" "d \<le> p" and l: "p + n + 15 \<le> length (sl_data rb)"
  obtains ys where "copyOverlappingPattern rb (int p) (int d) (int n) = Some (rb\<lparr>sl_data := ys\<rparr>)"
    "wrote (sl_data rb) ys p n" "\<And>k. k < n \<Longrightarrow> ys ! (p + k) = sl_data rb ! (p - d + k mod d)"
proof -
  let ?xs = "sl_data rb"
  have r0: "repeats ?xs ?xs p d p d" using d by (auto simp: repeats_def)
  obtain ys P D where 1: "pattern_double rb (int p) (int (p + n)) (int d) = Some (rb\<lparr>sl_data := ys\<rparr>, int P, int D)"
    "wrote ?xs ys p n" "repeats ?xs ys p d P D" "16 \<le> D \<or> p + n \<le> P"
    using pattern_double_ok [OF r0 d l wrote_refl] by metis
  obtain zs where 2: "pattern_fill (rb\<lparr>sl_data := ys\<rparr>) (int P) (int (p + n)) (int D) = Some (rb\<lparr>sl_data := ys\<rparr>\<lparr>sl_data := zs\<rparr>)"
    "wrote ?xs zs p n" "\<And>x. p \<le> x \<Longrightarrow> x < p + n \<Longrightarrow> zs ! x = ?xs ! (p - d + (x - (p - d)) mod d)"
    by (rule pattern_fill_ok [of ?xs "rb\<lparr>sl_data := ys\<rparr>" p d P D n]) (use 1 d l in simp_all)
  have "copyOverlappingPattern rb (int p) (int d) (int n) = Some (rb\<lparr>sl_data := zs\<rparr>)"
    using 1(1) 2(1) by (simp add: copyOverlappingPattern_def)
  moreover have "zs ! (p + k) = ?xs ! (p - d + k mod d)" if "k < n" for k
  proof -
    have "p + k - (p - d) = k + d" using d by simp
    then show ?thesis using 2(3) [of "p + k"] that by simp
  qed
  ultimately show thesis using 2(2) by (intro that)
qed


lemma sl_data_update_update [simp]: "rb\<lparr>sl_data := xs\<rparr>\<lparr>sl_data := ys\<rparr> = rb\<lparr>sl_data := ys\<rparr>"
  by simp

text \<open>The first \<open>a\<close> bytes of a copy of \<open>i\<close> bytes between disjoint areas are there.\<close>

definition block_done :: "'a list \<Rightarrow> 'a list \<Rightarrow> nat \<Rightarrow> nat \<Rightarrow> nat \<Rightarrow> nat \<Rightarrow> bool" where
  "block_done xs ys p q i a \<longleftrightarrow> length ys = length xs \<and> (\<forall>x. x < p \<or> p + a \<le> x \<longrightarrow> ys ! x = xs ! x) \<and>
     (\<forall>k<i. k < a \<longrightarrow> ys ! (p + k) = xs ! (q + k))"

definition apart :: "nat \<Rightarrow> nat \<Rightarrow> nat \<Rightarrow> bool" where
  "apart p q i \<longleftrightarrow> q + i \<le> p \<or> p + i \<le> q"

lemma block_write:
  assumes s: "block_done xs ys p q i a" and a: "a \<le> i" "apart p q i"
    and l: "p + a + n \<le> length xs" "q + a + n \<le> length xs"
  shows "block_done xs (overwrite ys (p + a) (take n (drop (q + a) ys))) p q i (a + n)"
proof -
  let ?bs = "take n (drop (q + a) ys)" and ?zs = "overwrite ys (p + a) (take n (drop (q + a) ys))"
  from s have ly: "length ys = length xs" and w: "\<And>x. x < p \<or> p + a \<le> x \<Longrightarrow> ys ! x = xs ! x"
    and v: "\<And>k. k < i \<Longrightarrow> k < a \<Longrightarrow> ys ! (p + k) = xs ! (q + k)" by (auto simp: block_done_def)
  have lb: "length ?bs = n" and fit: "p + a + length ?bs \<le> length ys" using l ly by simp_all
  have out: "?zs ! x = xs ! x" if x: "x < p \<or> p + (a + n) \<le> x" for x
  proof (cases "x < length ys")
    case True
    then show ?thesis using nth_overwrite [OF fit True] x w lb by auto
  next
    case False
    then have "\<not> x - (p + a) < n" "\<not> x < p + a" using l ly by linarith+
    then show ?thesis using w [of x] x fit lb l ly by (simp add: overwrite_def nth_append)
  qed
  have "?zs ! (p + k) = xs ! (q + k)" if k: "k < i" "k < a + n" for k
  proof (cases "k < a")
    case True
    then have "?zs ! (p + k) = ys ! (p + k)" using lb l ly by (simp add: nth_overwrite)
    with v k True show ?thesis by simp
  next
    case False
    then have "?zs ! (p + k) = ys ! (q + k)" using k lb l ly by (simp add: nth_overwrite)
    also have "ys ! (q + k) = xs ! (q + k)" by (rule w) (use a k in \<open>auto simp: apart_def\<close>)
    finally show ?thesis .
  qed
  with out ly fit show ?thesis by (simp add: block_done_def)
qed

lemma block16:
  assumes "block_done xs (sl_data rb) p q i a" "a \<le> i" "apart p q i" "p + i + 16 \<le> length xs" "q + i + 16 \<le> length xs"
  obtains ys where "copy16 rb (int (p + a)) (int (q + a)) = Some (rb\<lparr>sl_data := ys\<rparr>)" "block_done xs ys p q i (a + 16)"
proof -
  have l: "length (sl_data rb) = length xs" using assms(1) by (simp add: block_done_def)
  have b: "p + a + 16 \<le> length (sl_data rb)" "q + a + 16 \<le> length (sl_data rb)" using assms(2,4,5) l by linarith+
  show thesis using copy16_ok [OF b] block_write [OF assms(1-3), of 16] b l that by simp
qed

lemma block_done_wrote:
  assumes "block_done xs ys p q i a" "i \<le> a" "a \<le> i + 16"
  shows "wrote xs ys p i" "k < i \<Longrightarrow> ys ! (p + k) = xs ! (q + k)"
proof -
  have "x < p \<or> p + a \<le> x" if "x < p \<or> p + i + 16 \<le> x" for x using that assms(3) by linarith
  then show "wrote xs ys p i" using assms(1) unfolding block_done_def wrote_def by blast
  show "ys ! (p + k) = xs ! (q + k)" if "k < i" using assms that by (simp add: block_done_def)
qed

lemma block_done_start: "block_done xs xs p q i 0"
  by (simp add: block_done_def)

lemma copy_blocks_ok:
  assumes s: "block_done xs (sl_data rb) p q i 16" and a: "apart p q i"
    and l: "p + i + 16 \<le> length xs" "q + i + 16 \<le> length xs"
  obtains ys where "copy_blocks rb (int i) (int q) (int p + int i) = Some (rb\<lparr>sl_data := ys\<rparr>)"
    "wrote xs ys p i" "\<And>k. k < i \<Longrightarrow> ys ! (p + k) = xs ! (q + k)"
proof -
  define P where "P r \<longleftrightarrow> (\<exists>ys. r = Some (rb\<lparr>sl_data := ys\<rparr>) \<and> wrote xs ys p i \<and> (\<forall>k<i. ys ! (p + k) = xs ! (q + k)))" for r
  have fin: "P (Some (rb\<lparr>sl_data := ys\<rparr>))" if "block_done xs ys p q i b" "i \<le> b" "b \<le> i + 16" for ys b
    unfolding P_def using block_done_wrote [OF that] by blast
  have step: "P (copy16 (rb\<lparr>sl_data := ys\<rparr>) (int p + int b) (int q + int b) \<bind> f)"
    if h: "block_done xs ys p q i b" "b \<le> i" and "\<And>zs. block_done xs zs p q i (b + 16) \<Longrightarrow> P (f (rb\<lparr>sl_data := zs\<rparr>))" for ys b f
  proof -
    obtain zs where "copy16 (rb\<lparr>sl_data := ys\<rparr>) (int (p + b)) (int (q + b)) = Some (rb\<lparr>sl_data := zs\<rparr>)" "block_done xs zs p q i (b + 16)"
      using block16 [of xs "rb\<lparr>sl_data := ys\<rparr>" p q i b] h a l by auto
    with that show ?thesis by simp
  qed
  have tail: "P (slice_copy (rb\<lparr>sl_data := ys\<rparr>) (int p + 96) (int p + int i) (int q + 96) (int q + int i))"
    if b: "block_done xs ys p q i 96" "96 < i" for ys
  proof -
    have ly: "length ys = length xs" using b(1) by (simp add: block_done_def)
    have e: "int p + int i = int (p + 96) + int (i - 96)" "int q + int i = int (q + 96) + int (i - 96)"
      "int p + 96 = int (p + 96)" "int q + 96 = int (q + 96)" using b(2) by simp_all
    have "slice_copy (rb\<lparr>sl_data := ys\<rparr>) (int p + 96) (int p + int i) (int q + 96) (int q + int i) =
      Some (rb\<lparr>sl_data := overwrite ys (p + 96) (take (i - 96) (drop (q + 96) ys))\<rparr>)"
      unfolding e using slice_copy_ok [of "p + 96" "i - 96" "rb\<lparr>sl_data := ys\<rparr>" "q + 96"] b(2) l ly by simp
    moreover have "block_done xs (overwrite ys (p + 96) (take (i - 96) (drop (q + 96) ys))) p q i (96 + (i - 96))"
      by (rule block_write [OF b(1)]) (use b(2) a l in simp_all)
    ultimately show ?thesis using b(2) by (simp add: fin)
  qed
  have next_block: "P (copy16 (rb\<lparr>sl_data := ys\<rparr>) (int p + int b) (int q + int b) \<bind> (\<lambda>rb. if c < i then f rb else Some rb))"
    if "block_done xs ys p q i b" "b < i" "c = b + 16" "\<And>zs. block_done xs zs p q i c \<Longrightarrow> c < i \<Longrightarrow> P (f (rb\<lparr>sl_data := zs\<rparr>))" for ys b c f
  proof (rule step [OF that(1)])
    fix zs assume z: "block_done xs zs p q i (b + 16)"
    then show "P (if c < i then f (rb\<lparr>sl_data := zs\<rparr>) else Some (rb\<lparr>sl_data := zs\<rparr>))"
      using that(2-4) fin [OF z] by simp
  qed (use that(2) in simp)
  have "P (copy_blocks rb (int i) (int q) (int p + int i))"
  proof (cases "16 < i")
    case False
    then show ?thesis using fin [OF s] by (simp add: copy_blocks_def)
  next
    case True
    have "copy_blocks rb (int i) (int q) (int p + int i) = copy16 (rb\<lparr>sl_data := sl_data rb\<rparr>) (int p + int 16) (int q + int 16) \<bind> (\<lambda>rb.
        if 32 < i then copy16 rb (int p + int 32) (int q + int 32) \<bind> (\<lambda>rb.
        if 48 < i then copy16 rb (int p + int 48) (int q + int 48) \<bind> (\<lambda>rb.
        if 64 < i then copy16 rb (int p + int 64) (int q + int 64) \<bind> (\<lambda>rb.
        if 80 < i then copy16 rb (int p + int 80) (int q + int 80) \<bind> (\<lambda>rb.
        if 96 < i then slice_copy rb (int p + 96) (int p + int i) (int q + 96) (int q + int i)
        else Some rb) else Some rb) else Some rb) else Some rb) else Some rb)"
      using True by (simp add: copy_blocks_def Let_def add.assoc cong: if_cong)
    also have "P \<dots>"
      by (rule next_block [OF s], simp add: True, simp, (rule next_block, assumption, simp, simp)+, rule tail; simp)
    finally show ?thesis .
  qed
  then show thesis using that unfolding P_def by blast
qed


subsection \<open>The copy of a command, byte by byte\<close>

text \<open>\<open>copy_back\<close>: both parts of the copy, as \<^verbatim>\<open>processCommands\<close> runs them one after the other.\<close>

definition copy_back :: "int \<Rightarrow> int \<Rightarrow> int \<Rightarrow> byte goslice \<Rightarrow> int \<Rightarrow> int \<Rightarrow> (bool \<times> byte goslice \<times> int \<times> int) option" where
  "copy_back size1 mask1 dist rb ps i = do {
     (wraps, rb, ps) \<leftarrow> ring_copy size1 mask1 dist rb ps i;
     if wraps then wrap_copy size1 mask1 dist rb ps i else Some (False, rb, ps, i) }"

text \<open>What a copy needs: a ring with its slack that holds the history, and a distance into it.\<close>

definition copy_ready :: "nat \<Rightarrow> nat \<Rightarrow> byte goslice \<Rightarrow> nat \<Rightarrow> byte list \<Rightarrow> bool" where
  "copy_ready size1 dist rb p hist \<longleftrightarrow> (\<exists>k. size1 = 2 ^ k) \<and> sl_len rb = size1 + 542 \<and> sl_ok rb \<and> p < size1 \<and>
     1 \<le> dist \<and> dist \<le> length hist \<and> reach size1 p dist \<and> holds_hist (sl_data rb) size1 p hist"

lemma and_mask_mod: "x AND (2 ^ k - 1) = x mod (2 ^ k :: int)"
  by (simp add: mask_eq_exp_minus_1 [symmetric] take_bit_eq_mask [symmetric] take_bit_eq_mod)

lemma copy_ready_src:
  assumes "copy_ready size1 dist rb p hist"
  shows "(int p - int dist) AND (int size1 - 1) = int (ring_at size1 p dist)" "dist < size1"
    "ring_at size1 p dist < size1" "ring_at size1 p dist = (if dist \<le> p then p - dist else p + size1 - dist)"
    "size1 + 542 \<le> length (sl_data rb)"
proof -
  from assms obtain k where k: "size1 = 2 ^ k" and p: "p < size1" "1 \<le> dist" "reach size1 p dist"
    and l: "sl_len rb = size1 + 542" "sl_ok rb" by (auto simp: copy_ready_def)
  show d: "dist < size1" using p by (auto simp: reach_def)
  show "ring_at size1 p dist < size1" using p d by (auto simp: ring_at_def)
  have "(int p - int dist) mod int size1 = int (ring_at size1 p dist)"
  proof (cases "dist \<le> p")
    case True
    then show ?thesis using p by (simp add: ring_at_def of_nat_diff)
  next
    case False
    have "(int p - int dist) mod int size1 = (int p - int dist + int size1) mod int size1" by simp
    also have "\<dots> = int p - int dist + int size1" using False d by (intro mod_pos_pos_trivial) simp_all
    finally show ?thesis using False d by (simp add: ring_at_def of_nat_diff)
  qed
  then show "(int p - int dist) AND (int size1 - 1) = int (ring_at size1 p dist)"
    using and_mask_mod [of "int p - int dist" k] k by simp
  show "ring_at size1 p dist = (if dist \<le> p then p - dist else p + size1 - dist)" by (simp add: ring_at_def)
  show "size1 + 542 \<le> length (sl_data rb)" using l by (simp add: sl_ok_def)
qed

lemma copy_ready_step:
  assumes r: "copy_ready size1 dist rb p hist" and w: "wrote (sl_data rb) ys p n" and n: "p + n \<le> size1"
    and new: "\<And>k. k < n \<Longrightarrow> ring_at size1 p dist + k mod dist < size1 \<and> ys ! (p + k) = sl_data rb ! (ring_at size1 p dist + k mod dist)"
  shows "holds_hist ys size1 (p + n) (lz_copy dist n hist)"
    and "p + n < size1 \<Longrightarrow> copy_ready size1 dist (rb\<lparr>sl_data := ys\<rparr>) (p + n) (lz_copy dist n hist)"
proof -
  note src = copy_ready_src [OF r]
  show h: "holds_hist ys size1 (p + n) (lz_copy dist n hist)"
    by (rule holds_copy [OF _ w n]) (use r src new in \<open>auto simp: copy_ready_def\<close>)
  show "copy_ready size1 dist (rb\<lparr>sl_data := ys\<rparr>) (p + n) (lz_copy dist n hist)" if "p + n < size1"
    using r w h that unfolding copy_ready_def wrote_def sl_ok_def reach_def by auto
qed

lemma wrap_round_ok:
  assumes r: "copy_ready size1 dist rb p hist" and i: "0 < i"
  obtains ys n where "wrap_round (int size1) (int size1 - 1) (int dist) rb (int p) (int i) =
      Some (rb\<lparr>sl_data := ys\<rparr>, int (p + n), int (i - n))"
    "0 < n" "n \<le> i" "p + n \<le> size1" "wrote (sl_data rb) ys p n" "holds_hist ys size1 (p + n) (lz_copy dist n hist)"
proof -
  note src = copy_ready_src [OF r]
  let ?q = "ring_at size1 p dist" and ?xs = "sl_data rb"
  have p: "p < size1" "1 \<le> dist" and l: "sl_len rb = size1 + 542" "sl_ok rb" using r by (simp_all add: copy_ready_def)
  show thesis
  proof (cases "dist \<le> p")
    case True
    define n where "n = min i (size1 - p)"
    have q: "?q = p - dist" "int p - int ?q = int dist" using True src(4) by simp_all
    have n: "min (int i) (min (int size1 - int p) (int size1 - int ?q)) = int n" "0 < n" "n \<le> i" "p + n \<le> size1"
      using p(1) i q unfolding n_def by (auto simp: min_def)
    obtain ys where ys: "(if int dist \<ge> int n then slice_copy rb (int p) (int p + int n) (int ?q) (int ?q + int n)
         else copyOverlappingPattern rb (int p) (int dist) (int n)) = Some (rb\<lparr>sl_data := ys\<rparr>)"
      "wrote ?xs ys p n" "\<And>k. k < n \<Longrightarrow> ys ! (p + k) = ?xs ! (p - dist + k mod dist)"
    proof (cases "n \<le> dist")
      case le: True
      let ?bs = "take n (drop ?q ?xs)"
      have b: "p + n \<le> length ?xs" "?q + n \<le> length ?xs" using n q src(5) p True by linarith+
      then have lb: "length ?bs = n" by simp
      have "wrote ?xs (overwrite ?xs p ?bs) p n" by (rule wrote_overwrite) (use lb b in simp_all)
      moreover have "overwrite ?xs p ?bs ! (p + k) = ?xs ! (p - dist + k mod dist)" if "k < n" for k
        using that b lb le q by (simp add: nth_overwrite)
      ultimately show thesis using slice_copy_ok [OF b] le by (intro that) simp_all
    next
      case False
      have "p + n + 15 \<le> length ?xs" using n src(5) by linarith
      from copyOverlappingPattern_ok [OF p(2) True this] False show thesis by (metis that of_nat_le_iff)
    qed
    have "checkRingCopy (int size1) (int p) (int n) = Some ()" using p n by (simp add: checkRingCopy_def)
    then have "wrap_round (int size1) (int size1 - 1) (int dist) rb (int p) (int i) = Some (rb\<lparr>sl_data := ys\<rparr>, int (p + n), int (i - n))"
      using ys(1) p(2) n(3) unfolding wrap_round_def Let_def src(1) n(1) q(2) by (simp add: of_nat_diff)
    moreover have "holds_hist ys size1 (p + n) (lz_copy dist n hist)"
    proof (rule copy_ready_step(1) [OF r ys(2) n(4)])
      fix k assume k: "k < n"
      have "k mod dist < dist" using p by simp
      then have "?q + k mod dist < size1" using q True p by linarith
      then show "?q + k mod dist < size1 \<and> ys ! (p + k) = ?xs ! (?q + k mod dist)" using ys(3) [OF k] q by simp
    qed
    ultimately show thesis using n ys(2) by (intro that)
  next
    case False
    define n where "n = min i (size1 - ?q)"
    have q: "?q = p + size1 - dist" "p < ?q" "\<not> 0 < int p - int ?q" using False src(2,4) by simp_all
    have n: "min (int i) (min (int size1 - int p) (int size1 - int ?q)) = int n" "n \<le> size1 - p"
      using p(1) i q(2) src(3) unfolding n_def min_def by auto
    have c: "checkRingCopy (int size1) (int p) (int n) = Some ()" using p n by (simp add: checkRingCopy_def of_nat_diff)
    have g: "sl_get rb (int ?q) = Some (?xs ! ?q)" using l src(3) by (simp add: sl_get_def go_index_def sl_list_def sl_ok_def)
    have st: "sl_set rb (int p) b = Some (rb\<lparr>sl_data := ?xs[p := b]\<rparr>)" for b using l p by (simp add: sl_set_def sl_ok_def)
    have w: "wrote ?xs (?xs[p := ?xs ! ?q]) p 1" by (simp add: wrote_def)
    have "wrap_round (int size1) (int size1 - 1) (int dist) rb (int p) (int i) = Some (rb\<lparr>sl_data := ?xs[p := ?xs ! ?q]\<rparr>, int (p + 1), int (i - 1))"
      using i unfolding wrap_round_def Let_def src(1) n(1) using q(3) by (simp add: c g st of_nat_diff)
    moreover have "holds_hist (?xs[p := ?xs ! ?q]) size1 (p + 1) (lz_copy dist 1 hist)"
      by (rule copy_ready_step(1) [OF r w]) (use p src(3,5) in simp_all)
    ultimately show thesis using w i p by (intro that [of "?xs[p := ?xs ! ?q]" 1]) simp_all
  qed
qed


lemma wrap_copy_ok:
  assumes r: "copy_ready size1 dist rb p hist"
  obtains ys m where "wrap_copy (int size1) (int size1 - 1) (int dist) rb (int p) (int i) =
      Some (p + m = size1, rb\<lparr>sl_data := ys\<rparr>, int (p + m), int (i - m))"
    "m \<le> i" "p + m \<le> size1" "p + m < size1 \<longrightarrow> m = i" "length ys = length (sl_data rb)"
    "holds_hist ys size1 (p + m) (lz_copy dist m hist)"
  using r
proof (induction i arbitrary: rb p hist thesis rule: less_induct)
  case (less i)
  note r = less.prems(2)
  have p: "p < size1" using r by (simp add: copy_ready_def)
  show ?case
  proof (cases "i = 0")
    case True
    have "wrap_copy (int size1) (int size1 - 1) (int dist) rb (int p) (int i) = Some (p + 0 = size1, rb\<lparr>sl_data := sl_data rb\<rparr>, int (p + 0), int (i - 0))"
      using True p by (subst wrap_copy.simps) simp
    then show thesis by (rule less.prems(1)) (use True p r in \<open>simp_all add: copy_ready_def\<close>)
  next
    case False
    then have i: "0 < i" by simp
    obtain ys n where w: "wrap_round (int size1) (int size1 - 1) (int dist) rb (int p) (int i) = Some (rb\<lparr>sl_data := ys\<rparr>, int (p + n), int (i - n))"
      and n: "0 < n" "n \<le> i" "p + n \<le> size1" and wr: "wrote (sl_data rb) ys p n" and h: "holds_hist ys size1 (p + n) (lz_copy dist n hist)"
      by (rule wrap_round_ok [OF r i])
    have ly: "length ys = length (sl_data rb)" using wr by (simp add: wrote_def)
    have unf: "wrap_copy (int size1) (int size1 - 1) (int dist) rb (int p) (int i) =
      (if int (p + n) = int size1 then Some (True, rb\<lparr>sl_data := ys\<rparr>, int (p + n), int (i - n))
       else wrap_copy (int size1) (int size1 - 1) (int dist) (rb\<lparr>sl_data := ys\<rparr>) (int (p + n)) (int (i - n)))"
      using i by (subst wrap_copy.simps) (simp add: w)
    show thesis
    proof (cases "p + n = size1")
      case True
      then have "wrap_copy (int size1) (int size1 - 1) (int dist) rb (int p) (int i) = Some (p + n = size1, rb\<lparr>sl_data := ys\<rparr>, int (p + n), int (i - n))"
        using unf by simp
      then show thesis by (rule less.prems(1)) (use True n h ly in simp_all)
    next
      case False
      then have lt: "p + n < size1" using n by simp
      have r': "copy_ready size1 dist (rb\<lparr>sl_data := ys\<rparr>) (p + n) (lz_copy dist n hist)"
        using r wr h lt unfolding copy_ready_def wrote_def sl_ok_def reach_def by auto
      obtain zs m where m: "wrap_copy (int size1) (int size1 - 1) (int dist) (rb\<lparr>sl_data := ys\<rparr>) (int (p + n)) (int (i - n)) =
          Some (p + n + m = size1, rb\<lparr>sl_data := ys\<rparr>\<lparr>sl_data := zs\<rparr>, int (p + n + m), int (i - n - m))"
        "m \<le> i - n" "p + n + m \<le> size1" "p + n + m < size1 \<longrightarrow> m = i - n" "length zs = length (sl_data (rb\<lparr>sl_data := ys\<rparr>))"
        "holds_hist zs size1 (p + n + m) (lz_copy dist m (lz_copy dist n hist))"
        using less.IH [of "i - n", OF _ _ r'] n i by (metis diff_less)
      have "wrap_copy (int size1) (int size1 - 1) (int dist) rb (int p) (int i) = Some (p + (n + m) = size1, rb\<lparr>sl_data := zs\<rparr>, int (p + (n + m)), int (i - (n + m)))"
        using unf False m(1) by (simp add: add.assoc)
      then show thesis
        by (rule less.prems(1)) (use m n ly in \<open>simp_all add: lz_copy_add add.assoc, linarith\<close>)
    qed
  qed
qed

lemma ring_copy_ok:
  assumes r: "copy_ready size1 dist rb p hist"
  obtains (wrap) ys where "ring_copy (int size1) (int size1 - 1) (int dist) rb (int p) (int i) = Some (True, rb\<lparr>sl_data := ys\<rparr>, int p)"
      "copy_ready size1 dist (rb\<lparr>sl_data := ys\<rparr>) p hist" "length ys = length (sl_data rb)"
    | (done1) ys where "ring_copy (int size1) (int size1 - 1) (int dist) rb (int p) (int i) = Some (False, rb\<lparr>sl_data := ys\<rparr>, int (p + i))"
      "p + i < size1" "length ys = length (sl_data rb)" "holds_hist ys size1 (p + i) (lz_copy dist i hist)"
proof -
  note src = copy_ready_src [OF r]
  let ?q = "ring_at size1 p dist" and ?xs = "sl_data rb"
  have p: "p < size1" "1 \<le> dist" using r by (simp_all add: copy_ready_def)
  have c0: "checkRingCopy (int size1) (int p) 0 = Some ()" using p by (simp add: checkRingCopy_def)
  have b: "p + 16 \<le> length ?xs" "?q + 16 \<le> length ?xs" using p src(3,5) by linarith+
  define ys where "ys = overwrite ?xs p (take 16 (drop ?q ?xs))"
  have c16: "copy16 rb (int p) (int ?q) = Some (rb\<lparr>sl_data := ys\<rparr>)" unfolding ys_def by (rule copy16_ok [OF b])
  have w0: "wrote ?xs ys p 0" unfolding ys_def by (rule wrote_overwrite) (use b in simp_all)
  have ly: "length ys = length ?xs" using w0 by (simp add: wrote_def)
  have r0: "copy_ready size1 dist (rb\<lparr>sl_data := ys\<rparr>) p hist"
    using copy_ready_step(2) [OF r w0] p by simp
  show thesis
  proof (cases "size1 \<le> p + i \<or> size1 \<le> ?q + i")
    case True
    then have "ring_copy (int size1) (int size1 - 1) (int dist) rb (int p) (int i) = Some (True, rb\<lparr>sl_data := ys\<rparr>, int p)"
      unfolding ring_copy_def Let_def src(1) by (auto simp: c0 c16)
    then show thesis using r0 ly by (rule wrap)
  next
    case False
    then have le: "p + i < size1" "?q + i < size1" by simp_all
    have ci: "checkRingCopy (int size1) (int p) (int i) = Some ()" using le p by (simp add: checkRingCopy_def)
    show thesis
    proof (cases "p < ?q + i \<and> ?q < p + i")
      case ov: True
      show thesis
      proof (cases "?q < p")
        case True
        then have q: "?q = p - dist" "dist \<le> p" "int p - int ?q = int dist" using src(2,4) by (auto split: if_splits)
        have fit: "p + i + 15 \<le> length (sl_data (rb\<lparr>sl_data := ys\<rparr>))" using w0 le src(5) by (simp add: wrote_def)
        obtain zs where zs: "copyOverlappingPattern (rb\<lparr>sl_data := ys\<rparr>) (int p) (int dist) (int i) = Some (rb\<lparr>sl_data := ys\<rparr>\<lparr>sl_data := zs\<rparr>)"
          "wrote ys zs p i" "\<And>k. k < i \<Longrightarrow> zs ! (p + k) = ys ! (p - dist + k mod dist)"
          by (rule copyOverlappingPattern_ok [OF p(2) q(2) fit]) simp_all
        have w: "wrote ?xs zs p i" by (rule wrote_trans [OF wrote_mono [OF w0] zs(2)]) simp
        have "holds_hist zs size1 (p + i) (lz_copy dist i hist)"
        proof (rule copy_ready_step(1) [OF r w])
          fix k assume k: "k < i"
          have "k mod dist < dist" using p by simp
          then have lt: "p - dist + k mod dist < p" using q(2) by linarith
          then have "ys ! (p - dist + k mod dist) = ?xs ! (?q + k mod dist)" using w0 q(1) by (simp add: wrote_def)
          then show "?q + k mod dist < size1 \<and> zs ! (p + k) = ?xs ! (?q + k mod dist)"
            using zs(3) [OF k] q(1) p lt by simp
        qed (use le in simp)
        moreover have "ring_copy (int size1) (int size1 - 1) (int dist) rb (int p) (int i) = Some (False, rb\<lparr>sl_data := zs\<rparr>, int (p + i))"
          unfolding ring_copy_def Let_def src(1) using False ov True zs(1) p by (simp add: c0 c16 ci q(3))
        ultimately show thesis using le w by (intro done1) (simp_all add: wrote_def)
      next
        case False
        have "ring_copy (int size1) (int size1 - 1) (int dist) rb (int p) (int i) = Some (True, rb\<lparr>sl_data := ys\<rparr>, int p)"
          unfolding ring_copy_def Let_def src(1) using le ov False by (simp add: c0 c16 ci)
        then show thesis using r0 ly by (rule wrap)
      qed
    next
      case nov: False
      then have ap: "apart p ?q i" by (auto simp: apart_def)
      have b2: "p + i + 16 \<le> length ?xs" "?q + i + 16 \<le> length ?xs" using le src(5) by linarith+
      have bd: "block_done ?xs (sl_data (rb\<lparr>sl_data := ys\<rparr>)) p ?q i 16"
        using block_write [OF block_done_start, of i p ?q 16 ?xs] ap b by (simp add: ys_def)
      obtain zs where zs: "copy_blocks (rb\<lparr>sl_data := ys\<rparr>) (int i) (int ?q) (int p + int i) = Some (rb\<lparr>sl_data := ys\<rparr>\<lparr>sl_data := zs\<rparr>)"
        "wrote ?xs zs p i" "\<And>k. k < i \<Longrightarrow> zs ! (p + k) = ?xs ! (?q + k)"
        using copy_blocks_ok [OF bd ap b2] by blast
      have id: "i \<le> dist" using nov le src(4) p by (auto split: if_splits)
      have "holds_hist zs size1 (p + i) (lz_copy dist i hist)"
        by (rule copy_ready_step(1) [OF r zs(2)]) (use zs(3) id le in simp_all)
      moreover have "ring_copy (int size1) (int size1 - 1) (int dist) rb (int p) (int i) = Some (False, rb\<lparr>sl_data := zs\<rparr>, int (p + i))"
        unfolding ring_copy_def Let_def src(1) using False nov zs(1) by (auto simp: c0 c16 ci)
      ultimately show thesis using le zs(2) by (intro done1) (simp_all add: wrote_def)
    qed
  qed
qed


text \<open>C14. A backward reference: whatever mixture of 16-byte blocks, repeated patterns and single bytes the code
  uses, the ring afterwards holds the history extended by a copy byte by byte from \<open>dist\<close> bytes back, up to the
  end of the ring if that comes first; the rest is then still to do.\<close>

theorem copy_back_lz:
  assumes "copy_ready size1 dist rb p hist"
  shows "\<exists>m ys rest. copy_back (int size1) (int size1 - 1) (int dist) rb (int p) (int i) =
       Some (p + m = size1, rb\<lparr>sl_data := ys\<rparr>, int (p + m), rest) \<and> m \<le> i \<and>
     (if p + m = size1 then rest = int (i - m) else m = i \<and> p + m < size1) \<and>
     length ys = length (sl_data rb) \<and> holds_hist ys size1 (p + m) (lz_copy dist m hist)"
proof (rule ring_copy_ok [OF assms, where i = i])
  fix ys assume wrap: "ring_copy (int size1) (int size1 - 1) (int dist) rb (int p) (int i) = Some (True, rb\<lparr>sl_data := ys\<rparr>, int p)"
      "copy_ready size1 dist (rb\<lparr>sl_data := ys\<rparr>) p hist" "length ys = length (sl_data rb)"
  obtain zs m where "wrap_copy (int size1) (int size1 - 1) (int dist) (rb\<lparr>sl_data := ys\<rparr>) (int p) (int i) =
      Some (p + m = size1, rb\<lparr>sl_data := ys\<rparr>\<lparr>sl_data := zs\<rparr>, int (p + m), int (i - m))"
    "m \<le> i" "p + m \<le> size1" "p + m < size1 \<longrightarrow> m = i" "length zs = length (sl_data (rb\<lparr>sl_data := ys\<rparr>))"
    "holds_hist zs size1 (p + m) (lz_copy dist m hist)"
    by (rule wrap_copy_ok [OF wrap(2)])
  then show ?thesis using wrap(1,3)
    by (intro exI [of _ m] exI [of _ zs] exI [of _ "int (i - m)"]) (auto simp: copy_back_def)
next
  fix ys assume "ring_copy (int size1) (int size1 - 1) (int dist) rb (int p) (int i) = Some (False, rb\<lparr>sl_data := ys\<rparr>, int (p + i))"
      "p + i < size1" "length ys = length (sl_data rb)" "holds_hist ys size1 (p + i) (lz_copy dist i hist)"
  then show ?thesis
    by (intro exI [of _ i] exI [of _ ys] exI [of _ "int i"]) (auto simp: copy_back_def)
qed


definition small_ring :: "byte goslice" where
  "small_ring = \<lparr>sl_data = [1, 2, 3] @ replicate 555 0, sl_len = 558\<rparr>"

lemma small_ring_ready: "copy_ready 16 2 small_ring 3 [1, 2, 3]"
proof -
  have "holds_hist (sl_data small_ring) 16 3 [1, 2, 3]"
    unfolding holds_hist_def
  proof (intro allI impI)
    fix d :: nat assume "1 \<le> d" "d \<le> length [1, 2, 3 :: byte]"
    then consider "d = 1" | "d = 2" | "d = 3" by fastforce
    then show "sl_data small_ring ! ring_at 16 3 d = [1, 2, 3] ! (length [1, 2, 3 :: byte] - d)"
      by cases (simp_all add: small_ring_def ring_at_def)
  qed
  then show ?thesis unfolding copy_ready_def
    by (intro conjI) (rule exI [of _ 4], simp_all add: small_ring_def sl_ok_def reach_def)
qed

theorem copy_back_lz_witness:
  "\<exists>m ys rest. copy_back (int 16) (int 16 - 1) (int 2) small_ring (int 3) (int 20) =
       Some (3 + m = 16, small_ring\<lparr>sl_data := ys\<rparr>, int (3 + m), rest) \<and> m \<le> 20 \<and>
     (if 3 + m = 16 then rest = int (20 - m) else m = 20 \<and> 3 + m < 16) \<and>
     length ys = length (sl_data small_ring) \<and> holds_hist ys 16 (3 + m) (lz_copy 2 m [1, 2, 3])"
  by (rule copy_back_lz [OF small_ring_ready])

end
