(* ===== verification/Decode_Compound.thy ===== *)
theory Decode_Compound
  imports Decode_Ring
begin

unbundle bit_operations_syntax

text \<open>
  Compound dictionaries, \<^verbatim>\<open>decode_state.go\<close>: up to 15 chunks of bytes that lie, one after the other, before the
  decoded data. \<open>initCopy\<close> finds the chunk of an address through a table of blocks, \<open>copyTo\<close> copies into the ring
  buffer and can stop at its end and go on later. The lemmas compare both with the chunks appended.

  A chunk is a list: its capacity is taken to be its length.
\<close>

subsection \<open>Operations\<close>

definition ErrEmptyDict :: string where "ErrEmptyDict = ''brrr: empty dictionary data''"
definition ErrTooManyDicts :: string where "ErrTooManyDicts = ''brrr: maximum compound dictionaries exceeded''"

definition new_dict :: decoderCompoundDictionary where
  "new_dict = \<lparr>cd_chunks = replicate 16 [], cd_chunkOffsets = replicate 17 0, cd_numChunks = 0, cd_totalSize = 0,
     cd_blockBits = -1, cd_blockMap = replicate 256 0, cd_brIndex = 0, cd_brOffset = 0, cd_brLength = 0, cd_brCopied = 0\<rparr>"

definition attach :: "byte list \<Rightarrow> decoderCompoundDictionary \<Rightarrow> (string option \<times> decoderCompoundDictionary) option" where
  "attach data cd =
     (if length data = 0 then Some (Some ErrEmptyDict, cd)
      else if cd_numChunks cd = 15 then Some (Some ErrTooManyDicts, cd)
      else do {
        cs \<leftarrow> go_update (cd_chunks cd) (cd_numChunks cd) data;
        let n = cd_numChunks cd + 1;
        let tot = cd_totalSize cd + int (length data);
        os \<leftarrow> go_update (cd_chunkOffsets cd) n tot;
        Some (None, cd\<lparr>cd_chunks := cs, cd_numChunks := n, cd_totalSize := tot, cd_chunkOffsets := os\<rparr>) })"

definition attachCompoundDict :: "byte list \<Rightarrow> decodeState \<Rightarrow> (string option \<times> decodeState) option" where
  "attachCompoundDict data s = do {
     (e, cd) \<leftarrow> attach data (case ds_compoundDict s of None \<Rightarrow> new_dict | Some cd \<Rightarrow> cd);
     Some (e, s\<lparr>ds_compoundDict := Some cd\<rparr>) }"

text \<open>\<^verbatim>\<open>for (cd.totalSize-1)>>blockBits != 0 { blockBits++ }\<close>: endless for a size below 1.\<close>

partial_function (option) block_bits :: "int \<Rightarrow> nat \<Rightarrow> nat option" where
  "block_bits tot bits = (if drop_bit bits (tot - 1) \<noteq> 0 then block_bits tot (bits + 1) else Some bits)"

partial_function (option) skip_chunks :: "int list \<Rightarrow> int \<Rightarrow> int \<Rightarrow> int option" where
  "skip_chunks os bound index = do {
     o1 \<leftarrow> go_index os (index + 1);
     if o1 < bound then skip_chunks os bound (index + 1) else Some index }"

partial_function (option) fill_map :: "int list \<Rightarrow> int \<Rightarrow> nat \<Rightarrow> int \<Rightarrow> int \<Rightarrow> nat list \<Rightarrow> nat list option" where
  "fill_map os tot bits cursor index m = (if cursor < tot then do {
     index \<leftarrow> skip_chunks os cursor index;
     m \<leftarrow> go_update m (drop_bit bits cursor) (nat (index mod 256));
     fill_map os tot bits (cursor + 2 ^ bits) index m }
   else Some m)"

definition ensureInit :: "decoderCompoundDictionary \<Rightarrow> decoderCompoundDictionary option" where
  "ensureInit cd = (if cd_blockBits cd \<noteq> -1 then Some cd else do {
     bits \<leftarrow> block_bits (cd_totalSize cd) 8;
     let bits = bits - 8;
     m \<leftarrow> fill_map (cd_chunkOffsets cd) (cd_totalSize cd) bits 0 0 (cd_blockMap cd);
     Some (cd\<lparr>cd_blockBits := int bits, cd_blockMap := m\<rparr>) })"

text \<open>\<^verbatim>\<open>address>>cd.blockBits\<close> with a negative shift count would panic. \<^verbatim>\<open>for address >= offsets[index+1]\<close> is
  \<^verbatim>\<open>for offsets[index+1] < address+1\<close>.\<close>

definition initCopy :: "int \<Rightarrow> int \<Rightarrow> decodeState \<Rightarrow> (bool \<times> decodeState) option" where
  "initCopy address len s = (case ds_compoundDict s of None \<Rightarrow> None | Some cd \<Rightarrow> do {
     cd \<leftarrow> ensureInit cd;
     if cd_blockBits cd < 0 then None else do {
     b \<leftarrow> go_index (cd_blockMap cd) (drop_bit (nat (cd_blockBits cd)) address);
     index \<leftarrow> skip_chunks (cd_chunkOffsets cd) (address + 1) (int b);
     let s = s\<lparr>ds_compoundDict := Some cd\<rparr>;
     if cd_totalSize cd < address + len then Some (False, s) else do {
     off \<leftarrow> go_index (cd_chunkOffsets cd) index;
     Some (True, s\<lparr>ds_distRB := (ds_distRB s)[nat (ds_distRBIdx s AND 3) := ds_distanceCode s],
       ds_distRBIdx := ds_distRBIdx s + 1, ds_metaBlockRemainingLen := ds_metaBlockRemainingLen s - len,
       ds_compoundDict := Some (cd\<lparr>cd_brIndex := index, cd_brOffset := address - off, cd_brLength := len, cd_brCopied := 0\<rparr>)\<rparr>) } } })"

definition copy_chunk :: "int \<Rightarrow> decoderCompoundDictionary \<Rightarrow> byte goslice \<Rightarrow> int
    \<Rightarrow> (decoderCompoundDictionary \<times> byte goslice \<times> int) option" where
  "copy_chunk size1 cd rb ps = do {
     chunk \<leftarrow> go_index (cd_chunks cd) (cd_brIndex cd);
     copySrc \<leftarrow> go_slice chunk (cd_brOffset cd) (int (length chunk));
     o1 \<leftarrow> go_index (cd_chunkOffsets cd) (cd_brIndex cd + 1);
     o0 \<leftarrow> go_index (cd_chunkOffsets cd) (cd_brIndex cd);
     let remChunkLen = (o1 - o0) - cd_brOffset cd;
     let len = min (cd_brLength cd - cd_brCopied cd) (min remChunkLen (size1 - ps));
     src \<leftarrow> go_slice copySrc 0 len;
     dst \<leftarrow> sl_slice rb ps (int (sl_len rb));
     let rb = rb\<lparr>sl_data := overwrite (sl_data rb) (nat ps) (take (length dst) src)\<rparr>;
     let cd = cd\<lparr>cd_brOffset := cd_brOffset cd + len, cd_brCopied := cd_brCopied cd + len\<rparr>;
     let cd = (if len = remChunkLen then cd\<lparr>cd_brIndex := cd_brIndex cd + 1, cd_brOffset := 0\<rparr> else cd);
     Some (cd, rb, ps + len) }"

partial_function (option) copy_chunks :: "int \<Rightarrow> decoderCompoundDictionary \<Rightarrow> byte goslice \<Rightarrow> int
    \<Rightarrow> (decoderCompoundDictionary \<times> byte goslice \<times> int) option" where
  "copy_chunks size1 cd rb ps = (if cd_brLength cd \<noteq> cd_brCopied cd then do {
       x \<leftarrow> copy_chunk size1 cd rb ps;
       if snd (snd x) = size1 then Some x else copy_chunks size1 (fst x) (fst (snd x)) (snd (snd x)) }
     else Some (cd, rb, ps))"

definition copyTo :: "int \<Rightarrow> decodeState \<Rightarrow> (int \<times> decodeState) option" where
  "copyTo ps s = (case ds_compoundDict s of None \<Rightarrow> None | Some cd \<Rightarrow> do {
     (cd, rb, p) \<leftarrow> copy_chunks (ds_ringbufferSize s) cd (ds_ringbuffer s) ps;
     Some (p - ps, s\<lparr>ds_compoundDict := Some cd, ds_ringbuffer := rb\<rparr>) })"


subsection \<open>The chunks as one sequence\<close>

definition dict_data :: "decoderCompoundDictionary \<Rightarrow> byte list" where
  "dict_data cd = concat (take (nat (cd_numChunks cd)) (cd_chunks cd))"

text \<open>\<open>dict_ok\<close>: the offsets are those of the chunks, none of which is empty.\<close>

definition dict_ok :: "decoderCompoundDictionary \<Rightarrow> bool" where
  "dict_ok cd \<longleftrightarrow> length (cd_chunks cd) = 16 \<and> length (cd_chunkOffsets cd) = 17 \<and> length (cd_blockMap cd) = 256 \<and>
     0 \<le> cd_numChunks cd \<and> cd_numChunks cd \<le> 15 \<and>
     (\<forall>k \<le> nat (cd_numChunks cd). cd_chunkOffsets cd ! k = int (length (concat (take k (cd_chunks cd))))) \<and>
     (\<forall>k < nat (cd_numChunks cd). cd_chunks cd ! k \<noteq> []) \<and> cd_totalSize cd = int (length (dict_data cd))"

text \<open>\<open>map_ok\<close>: the table sends every address to a chunk that does not start behind it.\<close>

definition map_ok :: "decoderCompoundDictionary \<Rightarrow> bool" where
  "map_ok cd \<longleftrightarrow> 0 \<le> cd_blockBits cd \<and> (\<forall>a < length (dict_data cd). a div 2 ^ nat (cd_blockBits cd) < 256 \<and>
     cd_blockMap cd ! (a div 2 ^ nat (cd_blockBits cd)) < nat (cd_numChunks cd) \<and>
     cd_chunkOffsets cd ! (cd_blockMap cd ! (a div 2 ^ nat (cd_blockBits cd))) \<le> int a)"

definition dict_inv :: "decoderCompoundDictionary \<Rightarrow> bool" where
  "dict_inv cd \<longleftrightarrow> dict_ok cd \<and> (cd_blockBits cd = -1 \<or> map_ok cd)"

text \<open>\<open>copying cd a r\<close>: the copy under way has \<open>r\<close> bytes to go, from address \<open>a\<close>.\<close>

definition copying :: "decoderCompoundDictionary \<Rightarrow> nat \<Rightarrow> nat \<Rightarrow> bool" where
  "copying cd a r \<longleftrightarrow> a + r \<le> length (dict_data cd) \<and> cd_brLength cd - cd_brCopied cd = int r \<and>
     (r \<noteq> 0 \<longrightarrow> (\<exists>k j. cd_brIndex cd = int k \<and> cd_brOffset cd = int j \<and> k < nat (cd_numChunks cd) \<and>
        j < length (cd_chunks cd ! k) \<and> a = length (concat (take k (cd_chunks cd))) + j))"

lemma concat_take_Suc: "k < length xss \<Longrightarrow> concat (take (Suc k) xss) = concat (take k xss) @ xss ! k"
  by (simp add: take_Suc_conv_app_nth)

lemma concat_take_mono: "k \<le> n \<Longrightarrow> length (concat (take k xss)) \<le> length (concat (take n xss))"
proof (induction n)
  case (Suc n)
  show ?case
  proof (cases "k \<le> n \<and> n < length xss")
    case True
    with Suc show ?thesis by (simp add: concat_take_Suc)
  next
    case False
    then show ?thesis using Suc by (cases "k = Suc n") (simp_all add: not_less)
  qed
qed simp

lemma concat_take_split:
  assumes "k < n" "n \<le> length xss"
  shows "concat (take n xss) = concat (take k xss) @ xss ! k @ concat (drop (Suc k) (take n xss))"
proof -
  have "take n xss = take k (take n xss) @ take n xss ! k # drop (Suc k) (take n xss)"
    by (rule id_take_nth_drop) (use assms in simp)
  then have "concat (take n xss) = concat (take k (take n xss) @ take n xss ! k # drop (Suc k) (take n xss))" by (rule arg_cong)
  then show ?thesis using assms by (simp add: min_def)
qed

lemma attach_ok:
  assumes "dict_ok cd" "data \<noteq> []" "cd_numChunks cd < 15"
  obtains cd' where "attach data cd = Some (None, cd')" "dict_ok cd'" "dict_data cd' = dict_data cd @ data"
    "cd_blockBits cd' = cd_blockBits cd"
proof -
  from assms(1) obtain n where n: "cd_numChunks cd = int n" by (metis dict_ok_def nonneg_int_cases)
  let ?cs = "(cd_chunks cd)[n := data]" and ?t = "cd_totalSize cd + int (length data)"
  let ?cd = "cd\<lparr>cd_chunks := ?cs, cd_numChunks := int n + 1, cd_totalSize := ?t, cd_chunkOffsets := (cd_chunkOffsets cd)[Suc n := ?t]\<rparr>"
  have l: "length (cd_chunks cd) = 16" "length (cd_chunkOffsets cd) = 17" "length (cd_blockMap cd) = 256" "n < 15"
    "cd_totalSize cd = int (length (dict_data cd))" "\<And>k. k < n \<Longrightarrow> cd_chunks cd ! k \<noteq> []"
    "\<And>k. k \<le> n \<Longrightarrow> cd_chunkOffsets cd ! k = int (length (concat (take k (cd_chunks cd))))"
    using assms n by (simp_all add: dict_ok_def)
  have tk: "take k ?cs = take k (cd_chunks cd)" if "k \<le> n" for k using that by simp
  have d: "dict_data ?cd = dict_data cd @ data"
    using concat_take_Suc [of n ?cs] l n by (simp add: dict_data_def nat_add_distrib)
  have a: "attach data cd = Some (None, ?cd)"
    using assms l n by (simp add: attach_def go_update_def nat_add_distrib Let_def)
  have "dict_ok ?cd"
    unfolding dict_ok_def d
  proof (intro conjI allI impI)
    fix k assume "k \<le> nat (cd_numChunks ?cd)"
    then have "k \<le> n \<or> k = Suc n" by auto
    then show "cd_chunkOffsets ?cd ! k = int (length (concat (take k (cd_chunks ?cd))))"
      using l d n by (auto simp: dict_data_def nat_add_distrib)
  next
    fix k assume "k < nat (cd_numChunks ?cd)"
    then have "k < n \<or> k = n" by auto
    then show "cd_chunks ?cd ! k \<noteq> []" using l assms(2) by auto
  qed (use l in simp_all)
  then show thesis using a d by (intro that [of ?cd]) simp_all
qed

lemma copy_chunk_ok:
  assumes ok: "dict_ok cd" and c: "copying cd a r" and r: "0 < r" and p: "p < size1"
    and rb: "sl_ok rb" "size1 \<le> sl_len rb"
  obtains n cd' where "copy_chunk (int size1) cd rb (int p) = Some (cd', rb\<lparr>sl_data := overwrite (sl_data rb) p (take n (drop a (dict_data cd)))\<rparr>, int (p + n))"
    "0 < n" "n \<le> r" "p + n \<le> size1" "copying cd' (a + n) (r - n)" "dict_ok cd'" "dict_data cd' = dict_data cd" "map_ok cd' = map_ok cd"
proof -
  from c r obtain k j where k: "cd_brIndex cd = int k" "cd_brOffset cd = int j" "k < nat (cd_numChunks cd)"
    "j < length (cd_chunks cd ! k)" "a = length (concat (take k (cd_chunks cd))) + j" by (auto simp: copying_def)
  let ?c = "cd_chunks cd ! k" and ?N = "nat (cd_numChunks cd)" and ?pre = "concat (take k (cd_chunks cd))"
  have l: "length (cd_chunks cd) = 16" "length (cd_chunkOffsets cd) = 17" "?N \<le> 15"
    "cd_chunkOffsets cd ! k = int (length ?pre)" "cd_chunkOffsets cd ! Suc k = int (length ?pre + length ?c)"
    using ok k concat_take_Suc [of k "cd_chunks cd"] by (auto simp: dict_ok_def)
  define m where "m = length ?c - j"
  define n where "n = min r (min m (size1 - p))"
  have n: "0 < n" "n \<le> r" "p + n \<le> size1" "n \<le> m" "j + n \<le> length ?c" using r p k(4) unfolding n_def m_def by auto
  have split: "dict_data cd = ?pre @ ?c @ concat (drop (Suc k) (take ?N (cd_chunks cd)))"
    unfolding dict_data_def using k(3) l(1,3) by (intro concat_take_split) simp_all
  have src: "take n (drop j ?c) = take n (drop a (dict_data cd))"
    unfolding split k(5) using n by simp
  have lens: "int (length ?pre + length ?c) - int (length ?pre) - int j = int m" using k(4) unfolding m_def by simp
  have mn: "min (cd_brLength cd - cd_brCopied cd) (min (int m) (int size1 - int p)) = int n"
    using c p unfolding copying_def n_def by (auto simp: min_def)
  have fit: "length (take n (drop j ?c)) = n" using n by simp
  have sd: "sl_slice rb (int p) (int (sl_len rb)) = Some (take (sl_len rb - p) (drop p (sl_data rb)))"
    using rb p by (simp add: sl_slice_def go_slice_def sl_ok_def nat_diff_distrib)
  have ld: "n \<le> length (take (sl_len rb - p) (drop p (sl_data rb)))" using rb n(3) by (simp add: sl_ok_def)
  define cd' where "cd' = (if int n = int m then cd\<lparr>cd_brOffset := 0, cd_brCopied := cd_brCopied cd + int n, cd_brIndex := int k + 1\<rparr>
    else cd\<lparr>cd_brOffset := int j + int n, cd_brCopied := cd_brCopied cd + int n\<rparr>)"
  have g: "go_index (cd_chunks cd) (int k) = Some ?c" "go_index (cd_chunkOffsets cd) (int k + 1) = Some (int (length ?pre + length ?c))"
    "go_index (cd_chunkOffsets cd) (int k) = Some (int (length ?pre))"
    "go_slice ?c (int j) (int (length ?c)) = Some (drop j ?c)" "go_slice (drop j ?c) 0 (int n) = Some (take n (drop j ?c))"
    using l k n by (simp_all add: go_index_def nat_add_distrib go_slice_def nat_diff_distrib)
  have "copy_chunk (int size1) cd rb (int p) = Some (cd', rb\<lparr>sl_data := overwrite (sl_data rb) p (take n (drop a (dict_data cd)))\<rparr>, int (p + n))"
    unfolding copy_chunk_def Let_def k(1,2) g Option.bind.bind_lunit lens mn sd src [symmetric]
    using ld k(1) by (simp add: cd'_def)
  moreover have dd: "dict_data cd' = dict_data cd" "dict_ok cd' = dict_ok cd" "map_ok cd' = map_ok cd"
    by (simp_all add: cd'_def dict_data_def dict_ok_def map_ok_def)
  moreover have "copying cd' (a + n) (r - n)"
  proof -
    have le: "a + n + (r - n) \<le> length (dict_data cd')" using c n(2) dd(1) by (simp add: copying_def)
    have rest: "cd_brLength cd' - cd_brCopied cd' = int (r - n)" using c n(2) by (auto simp: copying_def cd'_def of_nat_diff)
    show ?thesis
    proof (cases "n = m")
      case False
      then have "j + n < length ?c" using n(4) k(4) unfolding m_def by simp
      then show ?thesis unfolding copying_def using le rest k False
        by (intro conjI impI exI [of _ k] exI [of _ "j + n"]) (simp_all add: cd'_def)
    next
      case True
      then have a: "a + n = length (concat (take (Suc k) (cd_chunks cd)))"
        using k(4,5) l(1,3) k(3) concat_take_Suc [of k "cd_chunks cd"] by (simp add: m_def)
      show ?thesis unfolding copying_def
      proof (intro conjI impI)
        assume "r - n \<noteq> 0"
        then have "length (concat (take (Suc k) (cd_chunks cd))) < length (dict_data cd)" using le a unfolding dd(1) by linarith
        then have "Suc k < ?N" unfolding dict_data_def using k(3) by (cases "Suc k = ?N") simp_all
        then have "cd_chunks cd ! Suc k \<noteq> []" "Suc k < ?N" using ok by (simp_all add: dict_ok_def)
        then show "\<exists>k j. cd_brIndex cd' = int k \<and> cd_brOffset cd' = int j \<and> k < nat (cd_numChunks cd') \<and>
            j < length (cd_chunks cd' ! k) \<and> a + n = length (concat (take k (cd_chunks cd'))) + j"
          using True a by (intro exI [of _ "Suc k"] exI [of _ 0]) (simp add: cd'_def)
      qed (use le rest in simp_all)
    qed
  qed
  ultimately show thesis using n ok that by simp
qed


lemma copy_chunks_ok:
  assumes "dict_ok cd" "copying cd a r" "p < size1" "sl_ok rb" "size1 \<le> sl_len rb"
  obtains n cd' where "copy_chunks (int size1) cd rb (int p) = Some (cd', rb\<lparr>sl_data := overwrite (sl_data rb) p (take n (drop a (dict_data cd)))\<rparr>, int (p + n))"
    "n = min r (size1 - p)" "copying cd' (a + n) (r - n)" "dict_ok cd'" "dict_data cd' = dict_data cd" "map_ok cd' = map_ok cd"
  using assms
proof (induction r arbitrary: cd a p rb thesis rule: less_induct)
  case (less r)
  note ok = less.prems(2) and c = less.prems(3) and p = less.prems(4) and rb = less.prems(5,6)
  show ?case
  proof (cases "r = 0")
    case True
    then have "cd_brLength cd = cd_brCopied cd" using c by (simp add: copying_def)
    then have "copy_chunks (int size1) cd rb (int p) = Some (cd, rb\<lparr>sl_data := overwrite (sl_data rb) p (take 0 (drop a (dict_data cd)))\<rparr>, int (p + 0))"
      by (subst copy_chunks.simps) simp
    then show thesis by (rule less.prems(1)) (use True ok c in simp_all)
  next
    case False
    then have ne: "cd_brLength cd \<noteq> cd_brCopied cd" using c by (auto simp: copying_def)
    obtain n cd' where n: "copy_chunk (int size1) cd rb (int p) = Some (cd', rb\<lparr>sl_data := overwrite (sl_data rb) p (take n (drop a (dict_data cd)))\<rparr>, int (p + n))"
      "0 < n" "n \<le> r" "p + n \<le> size1" "copying cd' (a + n) (r - n)" "dict_ok cd'" "dict_data cd' = dict_data cd" "map_ok cd' = map_ok cd"
      using copy_chunk_ok [OF ok c _ p rb] False by blast
    let ?ys = "overwrite (sl_data rb) p (take n (drop a (dict_data cd)))"
    have "n \<le> length (dict_data cd) - a" using c n(3) unfolding copying_def by linarith
    then have len: "length (take n (drop a (dict_data cd))) = n" by simp
    have fit: "p + n \<le> length (sl_data rb)" using rb n(4) by (simp add: sl_ok_def)
    have unf: "copy_chunks (int size1) cd rb (int p) = (if p + n = size1 then Some (cd', rb\<lparr>sl_data := ?ys\<rparr>, int (p + n))
       else copy_chunks (int size1) cd' (rb\<lparr>sl_data := ?ys\<rparr>) (int (p + n)))"
      using ne n(1) by (subst copy_chunks.simps) (simp del: of_nat_add)
    show thesis
    proof (cases "p + n = size1")
      case True
      show thesis by (rule less.prems(1) [of cd' n]) (use unf True n p in simp_all)
    next
      case False
      have lt: "p + n < size1" and sub: "r - n < r" using False n(2-4) by simp_all
      have rb': "sl_ok (rb\<lparr>sl_data := ?ys\<rparr>)" "size1 \<le> sl_len (rb\<lparr>sl_data := ?ys\<rparr>)"
        using rb fit len by (simp_all add: sl_ok_def)
      obtain m cd2 where m: "copy_chunks (int size1) cd' (rb\<lparr>sl_data := ?ys\<rparr>) (int (p + n)) =
          Some (cd2, rb\<lparr>sl_data := ?ys\<rparr>\<lparr>sl_data := overwrite (sl_data (rb\<lparr>sl_data := ?ys\<rparr>)) (p + n) (take m (drop (a + n) (dict_data cd')))\<rparr>, int (p + n + m))"
        "m = min (r - n) (size1 - (p + n))" "copying cd2 (a + n + m) (r - n - m)" "dict_ok cd2" "dict_data cd2 = dict_data cd'" "map_ok cd2 = map_ok cd'"
        using less.IH [OF sub _ n(6,5) lt rb'] by blast
      have "m \<le> length (dict_data cd') - (a + n)" using n(5) m(2) unfolding copying_def by linarith
      then have len2: "length (take m (drop (a + n) (dict_data cd))) = m" using n(7) by simp
      have "overwrite ?ys (p + n) (take m (drop (a + n) (dict_data cd))) = overwrite (sl_data rb) p (take n (drop a (dict_data cd)) @ take m (drop (a + n) (dict_data cd)))"
        using m(2) n(4) fit len len2 rb by (simp add: overwrite_def sl_ok_def ac_simps)
      also have "take n (drop a (dict_data cd)) @ take m (drop (a + n) (dict_data cd)) = take (n + m) (drop a (dict_data cd))"
        by (simp only: take_add drop_drop add.commute [of a n])
      finally have "copy_chunks (int size1) cd rb (int p) = Some (cd2, rb\<lparr>sl_data := overwrite (sl_data rb) p (take (n + m) (drop a (dict_data cd)))\<rparr>, int (p + (n + m)))"
        using unf False m(1) n(7) by (simp add: add.assoc)
      moreover have "n + m = min r (size1 - p)" using m(2) n(3,4) by linarith
      moreover have "copying cd2 (a + (n + m)) (r - (n + m))" using m(3) by (simp only: add.assoc diff_diff_left)
      ultimately show thesis using m(4) by (rule less.prems(1)) (simp_all only: m(5,6) n(7,8))
    qed
  qed
qed


subsection \<open>Finding the chunk\<close>

lemma block_bits_ok:
  assumes "0 < t"
  obtains b where "block_bits (int t) b0 = Some b" "b0 \<le> b" "t \<le> 2 ^ b"
  using assms
proof (induction "t - 2 ^ b0" arbitrary: b0 thesis rule: less_induct)
  case less
  have d: "drop_bit b0 (int t - 1) \<noteq> 0 \<longleftrightarrow> 2 ^ b0 < t"
  proof -
    have "drop_bit b0 (int t - 1) = drop_bit b0 (int (t - 1))" using less.prems(2) by (simp add: of_nat_diff)
    also have "\<dots> = int ((t - 1) div 2 ^ b0)" by (simp add: drop_bit_eq_div zdiv_int del: of_nat_diff)
    finally have "drop_bit b0 (int t - 1) = int ((t - 1) div 2 ^ b0)" .
    moreover have "(t - 1) div 2 ^ b0 \<noteq> 0 \<longleftrightarrow> 2 ^ b0 \<le> t - 1" by (simp add: div_eq_0_iff not_less)
    moreover have "2 ^ b0 \<le> t - 1 \<longleftrightarrow> 2 ^ b0 < t" using less.prems(2) by linarith
    ultimately show ?thesis by (simp only: of_nat_eq_0_iff)
  qed
  show ?case
  proof (cases "2 ^ b0 < t")
    case False
    then show thesis using d by (intro less.prems(1) [of b0]) (subst block_bits.simps, simp_all)
  next
    case True
    then have "t - 2 ^ (b0 + 1) < t - 2 ^ b0" by (intro diff_less_mono2) simp_all
    then obtain b where "block_bits (int t) (b0 + 1) = Some b" "b0 + 1 \<le> b" "t \<le> 2 ^ b"
      using less.hyps [of "b0 + 1"] less.prems(2) by metis
    then show thesis using True d by (intro less.prems(1) [of b]) (subst block_bits.simps, simp_all)
  qed
qed

lemma skip_chunks_ok:
  assumes "i \<le> k" "Suc k < length os" "bound \<le> os ! Suc k"
  obtains j where "skip_chunks os bound (int i) = Some (int j)" "i \<le> j" "j \<le> k" "bound \<le> os ! Suc j" "j = i \<or> os ! j < bound"
  using assms
proof (induction "k - i" arbitrary: i thesis)
  case 0
  then show thesis by (intro 0(2) [of i]) (subst skip_chunks.simps, simp_all add: go_index_def nat_add_distrib)
next
  case (Suc n)
  show thesis
  proof (cases "os ! Suc i < bound")
    case False
    with Suc.prems show thesis by (intro Suc.prems(1) [of i]) (subst skip_chunks.simps, simp_all add: go_index_def nat_add_distrib)
  next
    case True
    then have "Suc i \<le> k" using Suc.prems(2,4) by (cases "i = k") simp_all
    then obtain j where j: "skip_chunks os bound (int (Suc i)) = Some (int j)" "Suc i \<le> j" "j \<le> k" "bound \<le> os ! Suc j" "j = Suc i \<or> os ! j < bound"
      using Suc.hyps(1) [of "Suc i"] Suc.hyps(2) Suc.prems(3,4) by (metis Suc_diff_Suc Suc_inject Suc_le_lessD)
    have "skip_chunks os bound (int i) = Some (int j)"
      using j(1) True Suc.prems \<open>Suc i \<le> k\<close> by (subst skip_chunks.simps) (simp add: go_index_def nat_add_distrib add.commute)
    then show thesis using j True by (intro Suc.prems(1)) auto
  qed
qed

lemma fill_map_ok:
  assumes "0 < N" "N \<le> 15" "N < length os" "os ! N = int t" "t \<le> 256 * 2 ^ b" "length m = 256" "i < N" "os ! i \<le> int (c * 2 ^ b)"
    "\<forall>j<c. j * 2 ^ b < t \<longrightarrow> m ! j < N \<and> os ! (m ! j) \<le> int (j * 2 ^ b)"
  obtains m' where "fill_map os (int t) b (int (c * 2 ^ b)) (int i) m = Some m'" "length m' = 256"
    "\<forall>j. j * 2 ^ b < t \<longrightarrow> m' ! j < N \<and> os ! (m' ! j) \<le> int (j * 2 ^ b)"
  using assms
proof (induction "t - c * 2 ^ b" arbitrary: c i m thesis rule: less_induct)
  case less
  note e = less.prems
  show ?case
  proof (cases "c * 2 ^ b < t")
    case False
    have "j < c" if "j * 2 ^ b < t" for j
    proof (rule ccontr)
      assume "\<not> j < c"
      then have "c * 2 ^ b \<le> j * 2 ^ b" by simp
      with that False show False by simp
    qed
    moreover have "fill_map os (int t) b (int (c * 2 ^ b)) (int i) m = Some m" using False by (subst fill_map.simps) (simp del: of_nat_mult)
    ultimately show thesis using e by (intro e(1)) auto
  next
    case True
    obtain j where j: "skip_chunks os (int (c * 2 ^ b)) (int i) = Some (int j)" "i \<le> j" "j \<le> N - 1" "j = i \<or> os ! j < int (c * 2 ^ b)"
      using skip_chunks_ok [of i "N - 1" os "int (c * 2 ^ b)"] e(2,4,5,8) True by (metis Suc_diff_1 Suc_leI Suc_le_mono less_imp_le of_nat_le_iff)
    have "c * 2 ^ b < 256 * 2 ^ b" using True e(6) by linarith
    then have c: "c < 256" by simp
    have idx: "drop_bit b (int (c * 2 ^ b)) = int c" by (simp add: drop_bit_eq_div)
    have j256: "nat (int j mod 256) = j" using j(3) e(3) by simp
    have gu: "go_update m (int c) j = Some (m[c := j])" using c e(7) by (simp add: go_update_def)
    have nx: "int (c * 2 ^ b) + 2 ^ b = int (Suc c * 2 ^ b)" by (simp add: algebra_simps)
    have jo: "os ! j \<le> int (c * 2 ^ b)" using j(4) e(9) by auto
    have unf: "fill_map os (int t) b (int (c * 2 ^ b)) (int i) m = fill_map os (int t) b (int (Suc c * 2 ^ b)) (int j) (m[c := j])"
      using True by (subst fill_map.simps) (simp only: j(1) idx j256 gu nx Option.bind.bind_lunit of_nat_less_iff if_True)
    obtain m' where "fill_map os (int t) b (int (Suc c * 2 ^ b)) (int j) (m[c := j]) = Some m'" "length m' = 256"
      "\<forall>j. j * 2 ^ b < t \<longrightarrow> m' ! j < N \<and> os ! (m' ! j) \<le> int (j * 2 ^ b)"
    proof (rule less.hyps [of "Suc c" j "m[c := j]"])
      show "t - Suc c * 2 ^ b < t - c * 2 ^ b" using True by (intro diff_less_mono2) simp_all
      show "j < N" using j(3) e(2) by simp
      show "os ! j \<le> int (Suc c * 2 ^ b)" by (rule order_trans [OF jo]) simp
      show "\<forall>ja<Suc c. ja * 2 ^ b < t \<longrightarrow> m[c := j] ! ja < N \<and> os ! (m[c := j] ! ja) \<le> int (ja * 2 ^ b)"
        using e(2,7,10) c jo j(3) by (auto simp: less_Suc_eq nth_list_update)
    qed (use e in simp_all)
    then show thesis using unf by (intro e(1)) simp_all
  qed
qed

lemma ensureInit_ok:
  assumes inv: "dict_inv cd" and ne: "dict_data cd \<noteq> []"
  obtains cd' where "ensureInit cd = Some cd'" "dict_ok cd'" "map_ok cd'" "dict_data cd' = dict_data cd"
proof (cases "cd_blockBits cd = -1")
  case False
  then show thesis using inv by (intro that [of cd]) (auto simp: ensureInit_def dict_inv_def)
next
  case True
  have ok: "dict_ok cd" using inv by (simp add: dict_inv_def)
  let ?t = "length (dict_data cd)" and ?N = "nat (cd_numChunks cd)"
  have t: "0 < ?t" using ne by simp
  then have N: "0 < ?N" by (cases "?N") (simp_all add: dict_data_def)
  obtain b where b: "block_bits (int ?t) 8 = Some b" "8 \<le> b" "?t \<le> 2 ^ b" by (rule block_bits_ok [OF t])
  have "(2::nat) ^ b = 2 ^ (8 + (b - 8))" using b(2) by simp
  then have t256: "?t \<le> 256 * 2 ^ (b - 8)" using b(3) by (simp add: power_add)
  have o: "?N < length (cd_chunkOffsets cd)" "?N \<le> 15" "cd_chunkOffsets cd ! ?N = int ?t" "cd_chunkOffsets cd ! 0 \<le> int (0 * 2 ^ (b - 8))" "length (cd_blockMap cd) = 256"
    using ok by (auto simp: dict_ok_def dict_data_def)
  obtain m where m: "fill_map (cd_chunkOffsets cd) (int ?t) (b - 8) (int (0 * 2 ^ (b - 8))) (int 0) (cd_blockMap cd) = Some m" "length m = 256"
    "\<forall>j. j * 2 ^ (b - 8) < ?t \<longrightarrow> m ! j < ?N \<and> cd_chunkOffsets cd ! (m ! j) \<le> int (j * 2 ^ (b - 8))"
    by (rule fill_map_ok [OF N o(2,1,3) t256 o(5) N o(4)]) simp_all
  let ?cd = "cd\<lparr>cd_blockBits := int (b - 8), cd_blockMap := m\<rparr>"
  have 1: "ensureInit cd = Some ?cd" using True b(1) m(1) ok by (simp add: ensureInit_def dict_ok_def)
  have d: "dict_data ?cd = dict_data cd" by (simp add: dict_data_def)
  have 2: "dict_ok ?cd" using ok m(2) unfolding dict_ok_def d by simp
  have 3: "map_ok ?cd"
    unfolding map_ok_def d
  proof (intro conjI allI impI)
    fix a assume a: "a < ?t"
    have le: "a div 2 ^ (b - 8) * 2 ^ (b - 8) \<le> a" by simp
    have q: "a div 2 ^ (b - 8) < 256" using a t256 by (simp add: less_mult_imp_div_less)
    have e: "m ! (a div 2 ^ (b - 8)) < ?N" "cd_chunkOffsets cd ! (m ! (a div 2 ^ (b - 8))) \<le> int (a div 2 ^ (b - 8) * 2 ^ (b - 8))"
      using m(3) le a by (meson le_less_trans)+
    have "int (a div 2 ^ (b - 8) * 2 ^ (b - 8)) \<le> int a" using le by (simp only: of_nat_le_iff)
    with e(2) have "cd_chunkOffsets cd ! (m ! (a div 2 ^ (b - 8))) \<le> int a" by (rule order_trans)
    with q e(1) show "a div 2 ^ nat (cd_blockBits ?cd) < 256" "cd_blockMap ?cd ! (a div 2 ^ nat (cd_blockBits ?cd)) < nat (cd_numChunks ?cd)"
      "cd_chunkOffsets ?cd ! (cd_blockMap ?cd ! (a div 2 ^ nat (cd_blockBits ?cd))) \<le> int a"
      by simp_all
  qed simp
  show thesis by (rule that [OF 1 2 3 d])
qed


lemma initCopy_ok:
  assumes cd: "ds_compoundDict s = Some cd" "dict_inv cd" and a: "a < length (dict_data cd)" "a + len \<le> length (dict_data cd)"
  obtains cd' where "initCopy (int a) (int len) s = Some (True, s\<lparr>ds_distRB := (ds_distRB s)[nat (ds_distRBIdx s AND 3) := ds_distanceCode s],
       ds_distRBIdx := ds_distRBIdx s + 1, ds_metaBlockRemainingLen := ds_metaBlockRemainingLen s - int len, ds_compoundDict := Some cd'\<rparr>)"
    "copying cd' a len" "dict_ok cd'" "map_ok cd'" "dict_data cd' = dict_data cd"
proof -
  from a have ne: "dict_data cd \<noteq> []" by auto
  obtain c1 where c1: "ensureInit cd = Some c1" "dict_ok c1" "map_ok c1" "dict_data c1 = dict_data cd"
    by (rule ensureInit_ok [OF cd(2) ne])
  let ?N = "nat (cd_numChunks c1)" and ?os = "cd_chunkOffsets c1" and ?j = "a div 2 ^ nat (cd_blockBits c1)"
  have mp: "0 \<le> cd_blockBits c1" "?j < 256" "cd_blockMap c1 ! ?j < ?N" "?os ! (cd_blockMap c1 ! ?j) \<le> int a"
    using c1(3) a(1) c1(4) by (simp_all add: map_ok_def)
  have l: "length (cd_blockMap c1) = 256" "length ?os = 17" "?N \<le> 15" "length (cd_chunks c1) = 16"
    "?os ! ?N = int (length (dict_data c1))" "cd_totalSize c1 = int (length (dict_data c1))"
    "\<And>k. k \<le> ?N \<Longrightarrow> ?os ! k = int (length (concat (take k (cd_chunks c1))))"
    using c1(2) by (auto simp: dict_ok_def dict_data_def)
  have d: "drop_bit (nat (cd_blockBits c1)) (int a) = int ?j" by (simp add: drop_bit_eq_div zdiv_int)
  obtain k where k: "skip_chunks ?os (int a + 1) (int (cd_blockMap c1 ! ?j)) = Some (int k)" "cd_blockMap c1 ! ?j \<le> k" "k \<le> ?N - 1"
    "int a + 1 \<le> ?os ! Suc k" "k = cd_blockMap c1 ! ?j \<or> ?os ! k < int a + 1"
  proof (rule skip_chunks_ok [of "cd_blockMap c1 ! ?j" "?N - 1" ?os "int a + 1"])
    show "int a + 1 \<le> ?os ! Suc (?N - 1)" using mp(3) l(5) a(1) c1(4) by simp
  qed (use mp l in simp_all)
  have kN: "k < ?N" using k(3) mp(3) by simp
  have lo: "?os ! k \<le> int a" using k(5) mp(4) by auto
  let ?pre = "length (concat (take k (cd_chunks c1)))"
  have o: "?os ! k = int ?pre" "?os ! Suc k = int ?pre + int (length (cd_chunks c1 ! k))"
    using l kN concat_take_Suc [of k "cd_chunks c1"] by auto
  let ?c2 = "c1\<lparr>cd_brIndex := int k, cd_brOffset := int a - int ?pre, cd_brLength := int len, cd_brCopied := 0\<rparr>"
  have g: "go_index (cd_blockMap c1) (int ?j) = Some (cd_blockMap c1 ! ?j)" "go_index ?os (int k) = Some (int ?pre)"
    using mp l kN o by (simp_all add: go_index_def)
  have fits: "\<not> cd_totalSize c1 < int a + int len" "\<not> cd_blockBits c1 < 0" using l(6) c1(4) a(2) mp(1) by simp_all
  have "initCopy (int a) (int len) s = Some (True, s\<lparr>ds_distRB := (ds_distRB s)[nat (ds_distRBIdx s AND 3) := ds_distanceCode s],
       ds_distRBIdx := ds_distRBIdx s + 1, ds_metaBlockRemainingLen := ds_metaBlockRemainingLen s - int len, ds_compoundDict := Some ?c2\<rparr>)"
    unfolding initCopy_def cd(1) option.case
    by (simp only: c1(1) d g k(1) fits Option.bind.bind_lunit if_False Let_def) (simp add: g(2))
  moreover have "dict_ok ?c2 = dict_ok c1" "map_ok ?c2 = map_ok c1" "dict_data ?c2 = dict_data c1"
    by (simp_all add: dict_ok_def map_ok_def dict_data_def)
  moreover have "copying ?c2 a len"
    unfolding copying_def
  proof (intro conjI impI exI)
    show "cd_brOffset ?c2 = int (a - ?pre)" using lo o by (simp add: of_nat_diff)
    show "a - ?pre < length (cd_chunks ?c2 ! k)" using k(4) lo o by simp
    show "a = length (concat (take k (cd_chunks ?c2))) + (a - ?pre)" using lo o by simp
  qed (use a c1(4) kN calculation in simp_all)
  ultimately show thesis using c1 by (intro that [of ?c2]) simp_all
qed

text \<open>A state that is copying goes on where it stopped.\<close>

lemma copyTo_ok:
  assumes "ds_compoundDict s = Some cd" "dict_ok cd" "copying cd a r" "p < size1" "ds_ringbufferSize s = int size1"
    "sl_ok (ds_ringbuffer s)" "size1 \<le> sl_len (ds_ringbuffer s)"
  obtains cd' where "copyTo (int p) s = Some (int (min r (size1 - p)),
      s\<lparr>ds_compoundDict := Some cd', ds_ringbuffer := (ds_ringbuffer s)\<lparr>sl_data := overwrite (sl_data (ds_ringbuffer s)) p
          (take (min r (size1 - p)) (drop a (dict_data cd)))\<rparr>\<rparr>)"
    "copying cd' (a + min r (size1 - p)) (r - min r (size1 - p))" "dict_ok cd'" "dict_data cd' = dict_data cd" "map_ok cd' = map_ok cd"
proof -
  obtain n cd' where "copy_chunks (int size1) cd (ds_ringbuffer s) (int p) = Some (cd', (ds_ringbuffer s)\<lparr>sl_data := overwrite (sl_data (ds_ringbuffer s)) p (take n (drop a (dict_data cd)))\<rparr>, int (p + n))"
    "n = min r (size1 - p)" "copying cd' (a + n) (r - n)" "dict_ok cd'" "dict_data cd' = dict_data cd" "map_ok cd' = map_ok cd"
    by (rule copy_chunks_ok [OF assms(2-4,6,7)])
  then show thesis using assms(1,5) by (intro that [of cd']) (simp_all add: copyTo_def)
qed

text \<open>C19. A reference into a compound dictionary: \<^verbatim>\<open>initCopy\<close> accepts every range inside the chunks; \<^verbatim>\<open>copyTo\<close> puts the
  bytes of the chunks, taken as one sequence, into the ring up to its end, and a second \<^verbatim>\<open>copyTo\<close> in a later state
  of the ring puts those that follow.\<close>

theorem compound_copy_resumes:
  assumes "ds_compoundDict s = Some cd" and "dict_inv cd" and "a < length (dict_data cd)" and "a + len \<le> length (dict_data cd)"
    and "p < size1" "ds_ringbufferSize s = int size1" "sl_ok (ds_ringbuffer s)" "size1 \<le> sl_len (ds_ringbuffer s)"
    and "q < size1" "sl_ok rb" "size1 \<le> sl_len rb"
  shows "\<exists>s1 s2 s3. initCopy (int a) (int len) s = Some (True, s1) \<and>
     ds_metaBlockRemainingLen s1 = ds_metaBlockRemainingLen s - int len \<and>
     copyTo (int p) s1 = Some (int (min len (size1 - p)), s2) \<and>
     sl_data (ds_ringbuffer s2) = overwrite (sl_data (ds_ringbuffer s)) p (take (min len (size1 - p)) (drop a (dict_data cd))) \<and>
     copyTo (int q) (s2\<lparr>ds_ringbuffer := rb\<rparr>) = Some (int (min (len - min len (size1 - p)) (size1 - q)), s3) \<and>
     sl_data (ds_ringbuffer s3) = overwrite (sl_data rb) q
       (take (min (len - min len (size1 - p)) (size1 - q)) (drop (a + min len (size1 - p)) (dict_data cd)))"
proof -
  let ?n = "min len (size1 - p)"
  obtain s1 c1 where s1: "initCopy (int a) (int len) s = Some (True, s1)" "ds_compoundDict s1 = Some c1" "ds_ringbuffer s1 = ds_ringbuffer s"
    "ds_ringbufferSize s1 = int size1" "ds_metaBlockRemainingLen s1 = ds_metaBlockRemainingLen s - int len"
    and c1: "copying c1 a len" "dict_ok c1" "dict_data c1 = dict_data cd"
    by (rule initCopy_ok [OF assms(1-4)]) (use assms(6) in simp)
  have r1: "sl_ok (ds_ringbuffer s1)" "size1 \<le> sl_len (ds_ringbuffer s1)" using assms(7,8) s1(3) by simp_all
  obtain s2 c2 where s2: "copyTo (int p) s1 = Some (int ?n, s2)" "ds_compoundDict s2 = Some c2" "ds_ringbufferSize s2 = int size1"
    "sl_data (ds_ringbuffer s2) = overwrite (sl_data (ds_ringbuffer s1)) p (take ?n (drop a (dict_data c1)))"
    and c2: "copying c2 (a + ?n) (len - ?n)" "dict_ok c2" "dict_data c2 = dict_data c1"
    by (rule copyTo_ok [OF s1(2) c1(2,1) assms(5) s1(4) r1]) (use s1(4) in simp)
  let ?t = "s2\<lparr>ds_ringbuffer := rb\<rparr>"
  have t: "ds_compoundDict ?t = Some c2" "ds_ringbufferSize ?t = int size1" "sl_ok (ds_ringbuffer ?t)" "size1 \<le> sl_len (ds_ringbuffer ?t)"
    using s2 assms(10,11) by simp_all
  obtain s3 where s3: "copyTo (int q) ?t = Some (int (min (len - ?n) (size1 - q)), s3)"
    "sl_data (ds_ringbuffer s3) = overwrite (sl_data rb) q (take (min (len - ?n) (size1 - q)) (drop (a + ?n) (dict_data c2)))"
    by (rule copyTo_ok [OF t(1) c2(2,1) assms(9) t(2-4)]) simp
  show ?thesis
    using s1(1,3,5) s2(1,4) s3 c1(3) c2(3) by (intro exI [of _ s1] exI [of _ s2] exI [of _ s3]) simp
qed


definition small_dict :: decoderCompoundDictionary where
  "small_dict = new_dict\<lparr>cd_chunks := [7, 8, 9] # replicate 15 [], cd_chunkOffsets := 0 # 3 # replicate 15 0,
     cd_numChunks := 1, cd_totalSize := 3\<rparr>"

lemma small_dict_ok: "dict_ok small_dict" "dict_data small_dict = [7, 8, 9]" "dict_inv small_dict"
proof -
  show d: "dict_data small_dict = [7, 8, 9]" by (simp add: small_dict_def dict_data_def new_dict_def)
  show o: "dict_ok small_dict"
    unfolding dict_ok_def d
  proof (intro conjI allI impI)
    fix k assume "k \<le> nat (cd_numChunks small_dict)"
    then have "k = 0 \<or> k = 1" by (auto simp: small_dict_def)
    then show "cd_chunkOffsets small_dict ! k = int (length (concat (take k (cd_chunks small_dict))))"
      by (auto simp: small_dict_def)
  qed (simp_all add: small_dict_def new_dict_def)
  then show "dict_inv small_dict" by (simp add: dict_inv_def small_dict_def new_dict_def)
qed

definition dict_state :: decodeState where
  "dict_state = zero_state\<lparr>ds_compoundDict := Some small_dict, ds_ringbufferSize := 16,
     ds_ringbuffer := \<lparr>sl_data = replicate 16 0, sl_len = 16\<rparr>\<rparr>"

theorem compound_copy_resumes_witness:
  "\<exists>s1 s2 s3. initCopy (int 1) (int 2) dict_state = Some (True, s1) \<and>
     ds_metaBlockRemainingLen s1 = ds_metaBlockRemainingLen dict_state - int 2 \<and>
     copyTo (int 15) s1 = Some (int (min 2 (16 - 15)), s2) \<and>
     sl_data (ds_ringbuffer s2) = overwrite (sl_data (ds_ringbuffer dict_state)) 15 (take (min 2 (16 - 15)) (drop 1 (dict_data small_dict))) \<and>
     copyTo (int 0) (s2\<lparr>ds_ringbuffer := \<lparr>sl_data = replicate 16 5, sl_len = 16\<rparr>\<rparr>) = Some (int (min (2 - min 2 (16 - 15)) (16 - 0)), s3) \<and>
     sl_data (ds_ringbuffer s3) = overwrite (sl_data \<lparr>sl_data = replicate 16 5, sl_len = 16\<rparr>) 0
       (take (min (2 - min 2 (16 - 15)) (16 - 0)) (drop (1 + min 2 (16 - 15)) (dict_data small_dict)))"
  by (rule compound_copy_resumes) (simp_all add: dict_state_def small_dict_ok sl_ok_def)

text \<open>C22. Attaching a dictionary fails exactly for an empty one and for a sixteenth, and then changes nothing;
  otherwise its bytes follow those attached before and the bookkeeping stays consistent.\<close>

theorem attach_total:
  assumes "dict_ok cd"
  shows "\<exists>e cd'. attach data cd = Some (e, cd') \<and> dict_ok cd' \<and> (e = None) = (data \<noteq> [] \<and> cd_numChunks cd < 15) \<and>
    (if e = None then dict_data cd' = dict_data cd @ data else cd' = cd \<and> e = Some (if data = [] then ErrEmptyDict else ErrTooManyDicts))"
proof (cases "data \<noteq> [] \<and> cd_numChunks cd < 15")
  case True
  obtain cd' where "attach data cd = Some (None, cd')" "dict_ok cd'" "dict_data cd' = dict_data cd @ data"
    using attach_ok [OF assms] True by blast
  with True show ?thesis by auto
next
  case False
  have "cd_numChunks cd \<le> 15" using assms by (simp add: dict_ok_def)
  with False assms show ?thesis by (auto simp: attach_def)
qed

theorem attach_total_witness:
  "\<exists>e cd'. attach [1, 2] small_dict = Some (e, cd') \<and> dict_ok cd' \<and> (e = None) = ([1 :: byte, 2] \<noteq> [] \<and> cd_numChunks small_dict < 15) \<and>
    (if e = None then dict_data cd' = dict_data small_dict @ [1, 2]
     else cd' = small_dict \<and> e = Some (if [1 :: byte, 2] = [] then ErrEmptyDict else ErrTooManyDicts))"
  by (rule attach_total [OF small_dict_ok(1)])

end
