(* ===== verification/Transforms.thy ===== *)
theory Transforms
  imports Decode_Ring
begin

unbundle bit_operations_syntax

text \<open>
  The transforms of static dictionary words, \<^verbatim>\<open>internal/core/transforms.go\<close>, and the tables that locate a word,
  \<^verbatim>\<open>internal/core/dictionary.go\<close>. The dictionary itself, \<^verbatim>\<open>DictData\<close>, is an embedded file: a parameter \<open>dict\<close>.

  The code edits the destination in place, through slices of it; the lemmas show that what it leaves there is the
  prefix, the word as RFC 7932 transforms it, and the suffix.
\<close>

subsection \<open>Tables\<close>

definition NumTransforms :: int where "NumTransforms = 121"
definition TransformOmitLast9 :: nat where "TransformOmitLast9 = 9"
definition TransformUppercaseFirst :: nat where "TransformUppercaseFirst = 10"
definition TransformUppercaseAll :: nat where "TransformUppercaseAll = 11"
definition TransformOmitFirst1 :: nat where "TransformOmitFirst1 = 12"
definition TransformOmitFirst9 :: nat where "TransformOmitFirst9 = 20"

text \<open>The bytes of an ASCII string literal.\<close>

definition str :: "string \<Rightarrow> byte list" where
  "str cs = map of_char cs"

definition transformPrefixSuffix :: "byte list list" where
  "transformPrefixSuffix = [
     str '' '', str '', '', str '' of the '', str '' of '', str ''s '', str ''.'',
     str '' and '', str '' in '', [0x22], str '' to '', [0x22, 0x3E], [0x0A],
     str ''. '', str '']'', str '' for '', str '' a '', str '' that '', [0x27],
     str '' with '', str '' from '', str '' by '', str ''('', str ''. The '', str '' on '',
     str '' as '', str '' is '', str ''ing '', [0x0A, 0x09], str '':'', str ''ed '',
     [0x3D, 0x22], str '' at '', str ''ly '', str '','', [0x3D, 0x27], str ''.com/'',
     str ''. This '', str '' not '', str ''er '', str ''al '', str ''ful '', str ''ive '',
     str ''less '', str ''est '', str ''ize '', [0xC2, 0xA0], str ''ous '', str '' the '',
     str ''e '', []]"

definition TransformTriplets :: "nat list" where
  "TransformTriplets = [
     49, 0, 49, 49, 0, 0, 0, 0, 0, 49, 12, 49, 49, 10, 0, 49, 0, 47, 0, 0, 49, 4, 0, 0, 49, 0, 3, 49, 10, 49,
     49, 0, 6, 49, 13, 49, 49, 1, 49, 1, 0, 0, 49, 0, 1, 0, 10, 0, 49, 0, 7, 49, 0, 9, 48, 0, 0, 49, 0, 8,
     49, 0, 5, 49, 0, 10, 49, 0, 11, 49, 3, 49, 49, 0, 13, 49, 0, 14, 49, 14, 49, 49, 2, 49, 49, 0, 15, 49, 0, 16,
     0, 10, 49, 49, 0, 12, 5, 0, 49, 0, 0, 1, 49, 15, 49, 49, 0, 18, 49, 0, 17, 49, 0, 19, 49, 0, 20, 49, 16, 49,
     49, 17, 49, 47, 0, 49, 49, 4, 49, 49, 0, 22, 49, 11, 49, 49, 0, 23, 49, 0, 24, 49, 0, 25, 49, 7, 49, 49, 1, 26,
     49, 0, 27, 49, 0, 28, 0, 0, 12, 49, 0, 29, 49, 20, 49, 49, 18, 49, 49, 6, 49, 49, 0, 21, 49, 10, 1, 49, 8, 49,
     49, 0, 31, 49, 0, 32, 47, 0, 3, 49, 5, 49, 49, 9, 49, 0, 10, 1, 49, 10, 8, 5, 0, 21, 49, 11, 0, 49, 10, 10,
     49, 0, 30, 0, 0, 5, 35, 0, 49, 47, 0, 2, 49, 10, 17, 49, 0, 36, 49, 0, 33, 5, 0, 0, 49, 10, 21, 49, 10, 5,
     49, 0, 37, 0, 0, 30, 49, 0, 38, 0, 11, 0, 49, 0, 39, 0, 11, 49, 49, 0, 34, 49, 11, 8, 49, 10, 12, 0, 0, 21,
     49, 0, 40, 0, 10, 12, 49, 0, 41, 49, 0, 42, 49, 11, 17, 49, 0, 43, 0, 10, 5, 49, 11, 10, 0, 0, 34, 49, 10, 33,
     49, 0, 44, 49, 11, 5, 45, 0, 49, 0, 0, 33, 49, 10, 30, 49, 11, 30, 49, 0, 46, 49, 11, 1, 49, 10, 34, 0, 10, 33,
     0, 11, 30, 0, 11, 1, 49, 11, 33, 49, 11, 21, 49, 11, 12, 0, 11, 5, 49, 11, 34, 0, 11, 12, 0, 10, 30, 0, 11, 34,
     0, 10, 34]"

definition TransformCutOffs :: "int list" where
  "TransformCutOffs = [0, 12, 27, 23, 42, 63, 56, 48, 59, 64]"

definition DictMinWordLength :: int where "DictMinWordLength = 4"
definition DictMaxWordLength :: int where "DictMaxWordLength = 24"
definition DictDataSize :: nat where "DictDataSize = 122784"

definition DictSizeBitsByLength :: "nat list" where
  "DictSizeBitsByLength = [0, 0, 0, 0, 10, 10, 11, 11, 10, 10, 10, 10, 10, 9, 9, 8,
     7, 7, 8, 7, 7, 6, 6, 5, 5, 0, 0, 0, 0, 0, 0, 0]"

definition DictOffsetsByLength :: "nat list" where
  "DictOffsetsByLength = [0, 0, 0, 0, 0, 4096, 9216, 21504, 35840, 44032, 53248, 63488, 74752, 87040, 93696, 100864,
     104704, 106752, 108928, 113536, 115968, 118528, 119872, 121280, 122016, 122784, 122784, 122784,
     122784, 122784, 122784, 122784]"


subsection \<open>Upper case\<close>

definition toUpperCase :: "byte list \<Rightarrow> (byte list \<times> nat) option" where
  "toUpperCase p = do {
     b \<leftarrow> go_index p 0;
     if b < 0xC0 then Some (if 0x61 \<le> b \<and> b \<le> 0x7A then p[0 := b XOR 32] else p, 1)
     else if b < 0xE0 then Some (if length p > 1 then p[1 := p ! 1 XOR 32] else p, 2)
     else Some (if length p > 2 then p[2 := p ! 2 XOR 5] else p, 3) }"

lemma toUpperCase_length: "toUpperCase p = Some (q, n) \<Longrightarrow> length q = length p \<and> 1 \<le> n"
  by (auto simp: toUpperCase_def go_index_def split: if_splits)

text \<open>\<^verbatim>\<open>for p := dst[a:b]; len(p) > 0; { p = p[min(toUpperCase(p), len(p)):] }\<close>\<close>

function upper_all :: "byte list \<Rightarrow> byte list option" where
  "upper_all p = (if p = [] then Some [] else do {
     (q, n) \<leftarrow> toUpperCase p;
     rest \<leftarrow> upper_all (drop (min n (length q)) q);
     Some (take (min n (length q)) q @ rest) })"
  by pat_completeness auto
termination by (relation "measure length") (auto dest!: toUpperCase_length)

declare upper_all.simps [simp del]


subsection \<open>The transform of a word\<close>

text \<open>\<^verbatim>\<open>copy(dst[i:j], src)\<close> with \<open>j\<close> absent for \<^verbatim>\<open>dst[i:]\<close>; a slice \<^verbatim>\<open>dst[i:j]\<close> may reach into the capacity of \<open>dst\<close>.\<close>

definition copy_at :: "byte goslice \<Rightarrow> nat \<Rightarrow> nat \<Rightarrow> byte list \<Rightarrow> (byte goslice \<times> nat) option" where
  "copy_at dst i j src = do {
     d \<leftarrow> sl_slice dst (int i) (int j);
     let n = min (length d) (length src);
     Some (dst\<lparr>sl_data := overwrite (sl_data dst) i (take n src)\<rparr>, n) }"

definition word_range :: "nat \<Rightarrow> nat \<Rightarrow> nat \<times> nat" where
  "word_range t wordLen =
     (if t \<le> TransformOmitLast9 then (0, wordLen - t)
      else if TransformOmitFirst1 \<le> t \<and> t \<le> TransformOmitFirst9 then
        (let skip = min (t - (TransformOmitFirst1 - 1)) wordLen in (skip, wordLen - skip))
      else (0, wordLen))"

definition change_case :: "nat \<Rightarrow> nat \<Rightarrow> nat \<Rightarrow> byte goslice \<Rightarrow> byte goslice option" where
  "change_case t wordLen idx dst =
     (if t = TransformUppercaseFirst then
        if wordLen > 0 then do {
          p \<leftarrow> sl_slice dst (int idx - int wordLen) (int idx);
          (p, _) \<leftarrow> toUpperCase p;
          Some (dst\<lparr>sl_data := overwrite (sl_data dst) (idx - wordLen) p\<rparr>) }
        else Some dst
      else if t = TransformUppercaseAll then do {
        p \<leftarrow> sl_slice dst (int idx - int wordLen) (int idx);
        p \<leftarrow> upper_all p;
        Some (dst\<lparr>sl_data := overwrite (sl_data dst) (idx - wordLen) p\<rparr>) }
      else Some dst)"

definition TransformDictionaryWord :: "byte goslice \<Rightarrow> byte list \<Rightarrow> int \<Rightarrow> (byte goslice \<times> nat) option" where
  "TransformDictionaryWord dst word transformIdx = do {
     a \<leftarrow> go_index TransformTriplets (transformIdx * 3);
     prefix \<leftarrow> go_index transformPrefixSuffix (int a);
     t \<leftarrow> go_index TransformTriplets (transformIdx * 3 + 1);
     b \<leftarrow> go_index TransformTriplets (transformIdx * 3 + 2);
     suffix \<leftarrow> go_index transformPrefixSuffix (int b);
     (dst, idx) \<leftarrow> copy_at dst 0 (sl_len dst) prefix;
     let (wordStart, wordLen) = word_range t (length word);
     w \<leftarrow> go_slice word (int wordStart) (int (wordStart + wordLen));
     (dst, n) \<leftarrow> copy_at dst idx (idx + wordLen) w;
     let idx = idx + n;
     dst \<leftarrow> change_case t wordLen idx dst;
     (dst, n) \<leftarrow> copy_at dst idx (sl_len dst) suffix;
     Some (dst, idx + n) }"

definition TransformDictionaryWordAt :: "byte list \<Rightarrow> byte goslice \<Rightarrow> int \<Rightarrow> int \<Rightarrow> int \<Rightarrow> (byte goslice \<times> nat) option" where
  "TransformDictionaryWordAt dict dst offset len transformIdx = do {
     word \<leftarrow> go_slice dict offset (offset + len);
     TransformDictionaryWord dst word transformIdx }"


subsection \<open>The transforms of RFC 7932\<close>

text \<open>Section 8 of the RFC: \<open>Ferment\<close> changes the character at an index of a word and tells its length, and
  \<open>FermentAll\<close> walks over the word.\<close>

definition ferment :: "nat \<Rightarrow> byte list \<Rightarrow> byte list \<times> nat" where
  "ferment i w =
     (if w ! i < 192 then (if 97 \<le> w ! i \<and> w ! i \<le> 122 then w[i := w ! i XOR 32] else w, 1)
      else if w ! i < 224 then (if i + 1 < length w then w[i + 1 := w ! (i + 1) XOR 32] else w, 2)
      else (if i + 2 < length w then w[i + 2 := w ! (i + 2) XOR 5] else w, 3))"

function ferment_all :: "nat \<Rightarrow> byte list \<Rightarrow> byte list" where
  "ferment_all i w = (if i < length w then (case ferment i w of (v, n) \<Rightarrow> ferment_all (i + n) v) else w)"
  by pat_completeness auto
termination
  by (relation "measure (\<lambda>(i, w). length w - i)") (auto simp: ferment_def split: if_splits)

declare ferment_all.simps [simp del]

definition rfc_word :: "nat \<Rightarrow> byte list \<Rightarrow> byte list" where
  "rfc_word t w =
     (if t \<le> 9 then take (length w - t) w
      else if t = 10 then (if w = [] then [] else fst (ferment 0 w))
      else if t = 11 then ferment_all 0 w
      else if t \<le> 20 then drop (t - 11) w
      else w)"

definition rfc_transform :: "nat \<Rightarrow> byte list \<Rightarrow> byte list" where
  "rfc_transform i w = transformPrefixSuffix ! (TransformTriplets ! (3 * i)) @ rfc_word (TransformTriplets ! (3 * i + 1)) w @
     transformPrefixSuffix ! (TransformTriplets ! (3 * i + 2))"

lemma length_ferment [simp]: "length (fst (ferment i w)) = length w"
  by (simp add: ferment_def)

lemma length_ferment_all [simp]: "length (ferment_all i w) = length w"
proof (induction i w rule: ferment_all.induct)
  case (1 i w)
  show ?case
  proof (cases "i < length w")
    case True
    then have "length (ferment_all (i + snd (ferment i w)) (fst (ferment i w))) = length w"
      using 1 [of "fst (ferment i w)" "snd (ferment i w)"] by simp
    with True show ?thesis by (subst ferment_all.simps) (simp add: case_prod_beta)
  qed (subst ferment_all.simps, simp)
qed

lemma ferment_all_Nil [simp]: "ferment_all i [] = []"
  by (subst ferment_all.simps) simp

lemma length_rfc_word: "length (rfc_word t w) \<le> length w"
  by (auto simp: rfc_word_def)

lemma toUpperCase_ferment:
  assumes "i < length w"
  shows "toUpperCase (drop i w) = Some (drop i (fst (ferment i w)), snd (ferment i w))"
    and "take i (fst (ferment i w)) = take i w" and "1 \<le> snd (ferment i w)"
proof -
  have "go_index (drop i w) 0 = Some (w ! i)" using assms by (simp add: go_index_def)
  then show "toUpperCase (drop i w) = Some (drop i (fst (ferment i w)), snd (ferment i w))"
    using assms by (auto simp: toUpperCase_def ferment_def drop_update_swap)
qed (simp_all add: ferment_def)

lemma upper_all_ferment: "i \<le> length w \<Longrightarrow> upper_all (drop i w) = Some (drop i (ferment_all i w)) \<and> take i (ferment_all i w) = take i w"
proof (induction i w rule: ferment_all.induct)
  case (1 i w)
  show ?case
  proof (cases "i < length w")
    case False
    then have "ferment_all i w = w" by (subst ferment_all.simps) simp
    with False show ?thesis by (simp add: upper_all.simps)
  next
    case True
    obtain v n where f: "ferment i w = (v, n)" by (cases "ferment i w")
    note u = toUpperCase_ferment [OF True, unfolded f fst_conv snd_conv]
    have lv: "length v = length w" using length_ferment [of i w] f by simp
    have fa: "ferment_all i w = ferment_all (i + n) v" using True f by (subst ferment_all.simps) simp
    show ?thesis
    proof (cases "i + n \<le> length w")
      case le: True
      have ih: "upper_all (drop (i + n) v) = Some (drop (i + n) (ferment_all (i + n) v))" "take (i + n) (ferment_all (i + n) v) = take (i + n) v"
        using "1.IH" [OF True f [symmetric]] le lv by simp_all
      have "n \<le> length w - i" using le by simp
      then have "upper_all (drop i w) = Some (take n (drop i v) @ drop (i + n) (ferment_all (i + n) v))"
        using True u(1) le lv ih(1) by (subst upper_all.simps) (simp add: min_def add.commute)
      also have "take n (drop i v) = take n (drop i (ferment_all (i + n) v))"
        using ih(2) by (metis add.commute take_drop)
      also have "\<dots> @ drop (i + n) (ferment_all (i + n) v) = drop i (ferment_all (i + n) v)"
        by (metis add.commute append_take_drop_id drop_drop)
      finally show ?thesis using fa ih(2) u(2) by (metis le_add1 min.absorb1 take_take)
    next
      case False
      then have "ferment_all (i + n) v = v" using lv by (subst ferment_all.simps) simp
      moreover have "upper_all (drop i w) = Some (drop i v)"
        using True u(1) False lv by (subst upper_all.simps) (simp add: min_def upper_all.simps)
      ultimately show ?thesis using fa u(2) by simp
    qed
  qed
qed


text \<open>The tables: what the triplets can index, and how long the strings are.\<close>

lemma TransformTriplets_length [simp]: "length TransformTriplets = 363"
  by (simp add: TransformTriplets_def)

lemma transformPrefixSuffix_length [simp]: "length transformPrefixSuffix = 50"
  by (simp add: transformPrefixSuffix_def)

lemma TransformTriplets_all: "list_all (\<lambda>x. x < 50) TransformTriplets"
  by (simp add: TransformTriplets_def)

lemma TransformTriplets_types: "list_all (\<lambda>i. TransformTriplets ! (3 * i + 1) \<le> 20) [0..<121]"
  by code_simp

lemma transformPrefixSuffix_all: "list_all (\<lambda>s. length s \<le> 8) transformPrefixSuffix"
  by (simp add: transformPrefixSuffix_def str_def)

lemma triplet_ok:
  assumes "i < 121"
  shows "TransformTriplets ! (3 * i) < 50" "TransformTriplets ! (3 * i + 1) \<le> 20" "TransformTriplets ! (3 * i + 2) < 50"
    "length (transformPrefixSuffix ! (TransformTriplets ! (3 * i))) \<le> 8"
    "length (transformPrefixSuffix ! (TransformTriplets ! (3 * i + 2))) \<le> 8"
proof -
  show a: "TransformTriplets ! (3 * i) < 50" and b: "TransformTriplets ! (3 * i + 2) < 50"
    using TransformTriplets_all assms by (simp_all add: list_all_length)
  show "TransformTriplets ! (3 * i + 1) \<le> 20"
    using TransformTriplets_types assms by (simp add: list_all_iff)
  show "length (transformPrefixSuffix ! (TransformTriplets ! (3 * i))) \<le> 8"
    "length (transformPrefixSuffix ! (TransformTriplets ! (3 * i + 2))) \<le> 8"
    using transformPrefixSuffix_all a b by (simp_all add: list_all_length)
qed

lemma go_index_nat: "go_index xs (int i) = (if i < length xs then Some (xs ! i) else None)"
  by (simp add: go_index_def)

lemma overwrite_overwrite_append:
  assumes "i + length a + length b \<le> length xs"
  shows "overwrite (overwrite xs i a) (i + length a) b = overwrite xs i (a @ b)"
  using assms by (simp add: overwrite_def ac_simps)

lemma overwrite_same_length:
  assumes "i + length a + length b \<le> length xs" "length c = length b"
  shows "overwrite (overwrite xs i (a @ b)) (i + length a) c = overwrite xs i (a @ c)"
  using assms by (simp add: overwrite_def ac_simps)

lemma take_drop_overwrite:
  assumes "i + length a + length b \<le> length xs"
  shows "take (length b) (drop (i + length a) (overwrite xs i (a @ b))) = b"
  using assms by (simp add: overwrite_def)

lemma change_case_ok:
  assumes w: "word_range t (length word) = (ws, wl)" and t: "t \<le> 20" and d: "length pre + length word \<le> length (sl_data dst)"
    and s: "sl_data dst = overwrite xs 0 (pre @ take wl (drop ws word))" and l: "length (sl_data dst) = length xs"
  shows "change_case t wl (length pre + wl) dst = Some (dst\<lparr>sl_data := overwrite xs 0 (pre @ rfc_word t word)\<rparr>)"
    and "length (rfc_word t word) = wl" "ws + wl = length word \<or> ws = 0" "ws + wl \<le> length word"
proof -
  let ?w = "take wl (drop ws word)"
  have r: "ws + wl \<le> length word" using w t by (auto simp: word_range_def Let_def TransformOmitLast9_def TransformOmitFirst1_def TransformOmitFirst9_def split: if_splits)
  show "ws + wl = length word \<or> ws = 0" "ws + wl \<le> length word"
    using r w t by (auto simp: word_range_def Let_def TransformOmitLast9_def TransformOmitFirst1_def TransformOmitFirst9_def split: if_splits)
  have lw: "length ?w = wl" using r by simp
  have sl: "sl_slice dst (int (length pre + wl) - int wl) (int (length pre + wl)) = Some ?w"
    using take_drop_overwrite [of 0 pre ?w xs] s d l r lw by (simp add: sl_slice_def go_slice_def)
  have ow: "overwrite (sl_data dst) (length pre + wl - wl) c = overwrite xs 0 (pre @ c)" if "length c = wl" for c
    using overwrite_same_length [of 0 pre ?w xs c] that s d l r lw by simp
  consider (upper) "t = 10" | (all) "t = 11" | (omit) "t \<noteq> 10" "t \<noteq> 11" by blast
  then have "change_case t wl (length pre + wl) dst = Some (dst\<lparr>sl_data := overwrite xs 0 (pre @ rfc_word t word)\<rparr>) \<and>
    length (rfc_word t word) = wl"
  proof cases
    case upper
    then have e: "ws = 0" "wl = length word" using w by (auto simp: word_range_def TransformOmitLast9_def TransformOmitFirst1_def)
    show ?thesis
    proof (cases "word = []")
      case True
      then show ?thesis using upper e s by (simp add: change_case_def TransformUppercaseFirst_def rfc_word_def)
    next
      case False
      then have "toUpperCase word = Some (fst (ferment 0 word), snd (ferment 0 word))"
        using toUpperCase_ferment(1) [of 0 word] by simp
      then show ?thesis using upper False e sl ow
        by (simp add: change_case_def TransformUppercaseFirst_def rfc_word_def case_prod_beta)
    qed
  next
    case all
    then have e: "ws = 0" "wl = length word" using w by (auto simp: word_range_def TransformOmitLast9_def TransformOmitFirst1_def)
    show ?thesis using all e sl ow upper_all_ferment [of 0 word]
      by (simp add: change_case_def TransformUppercaseFirst_def TransformUppercaseAll_def rfc_word_def)
  next
    case omit
    have "rfc_word t word = ?w"
      using omit t w by (auto simp: rfc_word_def word_range_def Let_def TransformOmitLast9_def TransformOmitFirst1_def TransformOmitFirst9_def min_def split: if_splits)
    then show ?thesis using omit s lw by (simp add: change_case_def TransformUppercaseFirst_def TransformUppercaseAll_def)
  qed
  then show "change_case t wl (length pre + wl) dst = Some (dst\<lparr>sl_data := overwrite xs 0 (pre @ rfc_word t word)\<rparr>)"
    "length (rfc_word t word) = wl" by simp_all
qed


lemma copy_at_ok:
  assumes "i \<le> j" "j \<le> length (sl_data dst)" "length src \<le> j - i"
  shows "copy_at dst i j src = Some (dst\<lparr>sl_data := overwrite (sl_data dst) i src\<rparr>, length src)"
  using assms by (simp add: copy_at_def sl_slice_def go_slice_def Let_def)

lemma sl_len_data_update: "sl_len (s\<lparr>sl_data := xs\<rparr>) = sl_len s"
  by simp

lemma transform_ok:
  assumes i: "i < 121" and d: "sl_ok dst" "length word + 16 \<le> sl_len dst"
  shows "TransformDictionaryWord dst word (int i) = Some (dst\<lparr>sl_data := overwrite (sl_data dst) 0 (rfc_transform i word)\<rparr>, length (rfc_transform i word))"
    and "length (rfc_transform i word) \<le> length word + 16"
proof -
  let ?t = "TransformTriplets ! (3 * i + 1)"
  let ?p = "transformPrefixSuffix ! (TransformTriplets ! (3 * i))" and ?s = "transformPrefixSuffix ! (TransformTriplets ! (3 * i + 2))"
  let ?r = "rfc_word ?t word" and ?xs = "sl_data dst"
  note tr = triplet_ok [OF i]
  show "length (rfc_transform i word) \<le> length word + 16"
    using tr(4,5) length_rfc_word [of ?t word] by (simp add: rfc_transform_def)
  have g: "go_index TransformTriplets (int i * 3) = Some (TransformTriplets ! (3 * i))"
    "go_index TransformTriplets (int i * 3 + 1) = Some ?t" "go_index TransformTriplets (int i * 3 + 2) = Some (TransformTriplets ! (3 * i + 2))"
    "go_index transformPrefixSuffix (int (TransformTriplets ! (3 * i))) = Some ?p"
    "go_index transformPrefixSuffix (int (TransformTriplets ! (3 * i + 2))) = Some ?s"
    using i tr by (simp_all add: go_index_def nat_add_distrib nat_mult_distrib mult.commute)
  have l: "length word + 16 \<le> length ?xs" using d by (simp add: sl_ok_def)
  obtain ws wl where r: "word_range ?t (length word) = (ws, wl)" by (cases "word_range ?t (length word)")
  let ?w = "take wl (drop ws word)"
  let ?d1 = "dst\<lparr>sl_data := overwrite ?xs 0 ?p\<rparr>" and ?d2 = "dst\<lparr>sl_data := overwrite ?xs 0 (?p @ ?w)\<rparr>"
  let ?d3 = "dst\<lparr>sl_data := overwrite ?xs 0 (?p @ ?r)\<rparr>"
  have bnd: "ws + wl \<le> length word"
    using r tr(2) by (auto simp: word_range_def Let_def TransformOmitLast9_def TransformOmitFirst1_def TransformOmitFirst9_def split: if_splits)
  then have lw: "length ?w = wl" by simp
  have c1: "copy_at dst 0 (sl_len dst) ?p = Some (?d1, length ?p)"
    using tr(4) d by (intro copy_at_ok) (simp_all add: sl_ok_def)
  have w: "go_slice word (int ws) (int (ws + wl)) = Some ?w" using bnd by (simp add: go_slice_def)
  have c2: "copy_at ?d1 (length ?p) (length ?p + wl) ?w = Some (?d2, wl)"
    using copy_at_ok [of "length ?p" "length ?p + wl" ?d1 ?w] overwrite_overwrite_append [of 0 ?p ?w ?xs] lw bnd l tr(4) by simp
  have cc: "change_case ?t wl (length ?p + wl) ?d2 = Some ?d3" "length ?r = wl"
    using change_case_ok [OF r tr(2), of ?p ?d2 ?xs] l bnd tr(4) by simp_all
  have c3: "copy_at ?d3 (length ?p + wl) (sl_len dst) ?s = Some (dst\<lparr>sl_data := overwrite ?xs 0 (rfc_transform i word)\<rparr>, length ?s)"
    using copy_at_ok [of "length ?p + wl" "sl_len dst" ?d3 ?s] overwrite_overwrite_append [of 0 "?p @ ?r" ?s ?xs] cc(2) bnd l d tr(4,5)
    by (simp add: sl_ok_def rfc_transform_def)
  have len: "length (rfc_transform i word) = length ?p + wl + length ?s"
    by (simp only: rfc_transform_def length_append cc(2) add.assoc)
  show "TransformDictionaryWord dst word (int i) = Some (dst\<lparr>sl_data := overwrite ?xs 0 (rfc_transform i word)\<rparr>, length (rfc_transform i word))"
    unfolding TransformDictionaryWord_def
    by (simp only: g c1 c2 cc(1) c3 w r Option.bind.bind_lunit prod.case Let_def sl_len_data_update len)
qed

text \<open>C20. A static dictionary word transformed into a buffer: for each of the 121 transforms the buffer then starts
  with the prefix, the word as RFC 7932 changes it and the suffix, the result is their length, at most 16 more than
  the word's, and the rest of the buffer is untouched.\<close>

theorem TransformDictionaryWord_rfc:
  assumes "i < 121" and "sl_ok dst" and "length word + 16 \<le> sl_len dst"
  shows "TransformDictionaryWord dst word (int i) = Some (dst\<lparr>sl_data := overwrite (sl_data dst) 0 (rfc_transform i word)\<rparr>, length (rfc_transform i word)) \<and>
    length (rfc_transform i word) \<le> length word + 16"
  using transform_ok [OF assms] by simp

theorem TransformDictionaryWord_rfc_witness:
  "TransformDictionaryWord \<lparr>sl_data = replicate 30 0, sl_len = 30\<rparr> [0x74, 0x69, 0x6D, 0x65] (int 68) =
     Some (\<lparr>sl_data = replicate 30 0, sl_len = 30\<rparr>\<lparr>sl_data := overwrite (replicate 30 0) 0 (rfc_transform 68 [0x74, 0x69, 0x6D, 0x65])\<rparr>,
       length (rfc_transform 68 [0x74, 0x69, 0x6D, 0x65])) \<and> length (rfc_transform 68 [0x74, 0x69, 0x6D, 0x65]) \<le> 20"
  using TransformDictionaryWord_rfc [of 68 "\<lparr>sl_data = replicate 30 0, sl_len = 30\<rparr>" "[0x74, 0x69, 0x6D, 0x65]"]
  by (simp add: sl_ok_def)

lemma cutoff_shape:
  "list_all (\<lambda>n. TransformTriplets ! (3 * nat (TransformCutOffs ! n)) = 49 \<and>
     TransformTriplets ! (3 * nat (TransformCutOffs ! n) + 1) = n \<and>
     TransformTriplets ! (3 * nat (TransformCutOffs ! n) + 2) = 49 \<and> 0 \<le> TransformCutOffs ! n \<and> TransformCutOffs ! n < 121) [0..<10]"
  by code_simp

text \<open>C21. The transforms listed in \<^verbatim>\<open>TransformCutOffs\<close>, which the encoder uses to match a dictionary word by a prefix,
  drop the last \<open>n\<close> bytes and nothing else.\<close>

theorem TransformCutOffs_cut:
  assumes "n < 10" and "sl_ok dst" and "length word + 16 \<le> sl_len dst"
  shows "TransformDictionaryWord dst word (TransformCutOffs ! n) =
    Some (dst\<lparr>sl_data := overwrite (sl_data dst) 0 (take (length word - n) word)\<rparr>, length word - n)"
proof -
  let ?i = "nat (TransformCutOffs ! n)"
  from cutoff_shape assms(1) have c: "TransformTriplets ! (3 * ?i) = 49" "TransformTriplets ! (3 * ?i + 1) = n"
    "TransformTriplets ! (3 * ?i + 2) = 49" "0 \<le> TransformCutOffs ! n" "TransformCutOffs ! n < 121"
    by (auto simp: list_all_iff)
  then have i: "?i < 121" by simp
  have "rfc_transform ?i word = take (length word - n) word"
    using c(1-3) assms(1) by (simp add: rfc_transform_def rfc_word_def transformPrefixSuffix_def)
  then show ?thesis using transform_ok(1) [OF i assms(2,3)] c(4) by simp
qed

theorem TransformCutOffs_cut_witness:
  "TransformDictionaryWord \<lparr>sl_data = replicate 30 0, sl_len = 30\<rparr> [0x74, 0x69, 0x6D, 0x65] (TransformCutOffs ! 3) =
    Some (\<lparr>sl_data = replicate 30 0, sl_len = 30\<rparr>\<lparr>sl_data := overwrite (replicate 30 0) 0 [0x74]\<rparr>, 1)"
  using TransformCutOffs_cut [of 3 "\<lparr>sl_data = replicate 30 0, sl_len = 30\<rparr>" "[0x74, 0x69, 0x6D, 0x65]"]
  by (simp add: sl_ok_def)

end
