(* ===== verification/Decode_Commands.thy ===== *)
theory Decode_Commands
  imports Decode_Blocks Decode_Copy Decode_Compound Transforms
begin

unbundle bit_operations_syntax

text \<open>
  The command loop of the decoder, \<^verbatim>\<open>processCommands\<close> of \<^verbatim>\<open>decode.go\<close>, in the checked build. The labels of its
  \<^verbatim>\<open>goto\<close>s are the constructors of \<open>label\<close>; the code between two labels is a definition that takes the local
  variables \<^verbatim>\<open>pos\<close> and \<^verbatim>\<open>i\<close> and the state and either returns from the function (\<open>Inl\<close>) or goes to a label (\<open>Inr\<close>).
  The loops over literals, inside \<^verbatim>\<open>commandInner\<close>, are recursive functions over such rounds.

  \<open>dict\<close> is the static dictionary \<^verbatim>\<open>DictData\<close>. A slice \<^verbatim>\<open>s.ringbuffer[pos:]\<close> that a callee writes to is a list or
  goslice of its own that is put back afterwards.
\<close>

subsection \<open>Packed command entries\<close>

definition packEntry :: "CmdLutElement \<Rightarrow> u64" where
  "packEntry e = of_nat (InsertLenExtraBits e) OR push_bit 8 (of_nat (CopyLenExtraBits e)) OR
     push_bit 16 (ucast (of_int (DistanceCode e) :: byte)) OR push_bit 24 (of_nat (Context e)) OR
     push_bit 32 (of_nat (InsertLenOffset e)) OR push_bit 48 (of_nat (CopyLenOffset e))"

definition packCmdLut :: "u64 list" where
  "packCmdLut = map packEntry CmdLut"

definition cmdLutPacked :: "u64 list" where
  "cmdLutPacked = packCmdLut"

definition resetCmdLuts :: "decodeState \<Rightarrow> decodeState" where
  "resetCmdLuts s =
     (let n = g_numHTrees (ds_insertCopyHGroup s) * 2 ^ huffmanTableBits;
          luts = (if length (sl_data (ds_cmdLuts s)) < n then \<lparr>sl_data = replicate n 0, sl_len = n\<rparr> else ds_cmdLuts s) in
      s\<lparr>ds_cmdLuts := \<lparr>sl_data = replicate n 0 @ drop n (sl_data luts), sl_len = n\<rparr>\<rparr>)"


subsection \<open>Returns and jumps\<close>

datatype label = L_commandBegin | L_commandInner | L_commandPostDecodeLiterals | L_commandPostWrapCopy | L_postCopy

type_synonym return_value = "decoderResult \<times> decodeState"
type_synonym jump = "label \<times> int \<times> int \<times> decodeState"
type_synonym outcome = "return_value + jump"

text \<open>\<open>quit\<close> sets \<^verbatim>\<open>s.state\<close>, \<^verbatim>\<open>s.pos\<close> and \<^verbatim>\<open>s.loopCounter\<close> and returns, \<open>quit_begin\<close> leaves the counter, \<open>fail\<close> sets only the error.\<close>

definition quit :: "decoderResult \<Rightarrow> decoderState \<Rightarrow> int \<Rightarrow> int \<Rightarrow> decodeState \<Rightarrow> return_value" where
  "quit r st ps i s = (r, s\<lparr>ds_state := st, ds_pos := ps, ds_loopCounter := i\<rparr>)"

definition quit_begin :: "int \<Rightarrow> decodeState \<Rightarrow> return_value" where
  "quit_begin ps s = (ResultNeedsMoreInput, s\<lparr>ds_state := StateCommandBegin, ds_pos := ps\<rparr>)"

definition fail :: "string \<Rightarrow> decodeState \<Rightarrow> return_value" where
  "fail msg s = (ResultError, s\<lparr>ds_err := Some (decompressError msg)\<rparr>)"

text \<open>The start of a block of the given category, if the last one is used up: the flag of \<open>Inr\<close> says whether
  there was a switch. \<open>Inl True\<close>: no more input; \<open>Inl False\<close>: an invalid switch.\<close>

definition block_switch :: "nat \<Rightarrow> decodeState \<Rightarrow> ((bool \<times> decodeState) + (bool \<times> decodeState)) option" where
  "block_switch treeType s = do {
     len \<leftarrow> go_index (ds_blockLength s) (int treeType);
     if len \<noteq> 0 then Some (Inr (False, s)) else do {
       n \<leftarrow> go_index (ds_numBlockTypes s) (int treeType);
       if n \<le> 1 then Some (Inl (False, s))
       else if checkInputAmount (ds_br s) then do {
         (_, s) \<leftarrow> decodeBlockTypeAndLength False treeType s;
         Some (Inr (True, s)) }
       else do {
         (ok, s) \<leftarrow> decodeBlockTypeAndLength True treeType s;
         Some (if ok then Inr (True, s) else Inl (True, s)) } } }"

definition take_block :: "nat \<Rightarrow> nat \<Rightarrow> decodeState \<Rightarrow> decodeState" where
  "take_block treeType n s = s\<lparr>ds_blockLength := (ds_blockLength s)[treeType := usub (ds_blockLength s ! treeType) n]\<rparr>"


subsection \<open>\<^verbatim>\<open>commandBegin\<close>\<close>

definition command_trees :: "decodeState \<Rightarrow> decodeState option" where
  "command_trees s = do {
     t \<leftarrow> go_index (ds_blockTypeRB s) 3;
     h \<leftarrow> sl_get (g_htrees (ds_insertCopyHGroup s)) (int t);
     let codes = sl_list (g_codes (ds_insertCopyHGroup s));
     tree \<leftarrow> go_slice codes h (int (length codes));
     _ \<leftarrow> go_slice (sl_list (ds_cmdLuts s)) (int (t * 2 ^ huffmanTableBits)) (int (sl_len (ds_cmdLuts s)));
     Some (s\<lparr>ds_htreeCommand := tree, ds_htreeCommandLut := Some (t * 2 ^ huffmanTableBits)\<rparr>) }"

text \<open>The symbol on the fast path: bits used, packed entry, and the state with the entry cached.\<close>

definition command_lut :: "u64 \<Rightarrow> u64 \<Rightarrow> decodeState \<Rightarrow> (nat \<times> u64 \<times> decodeState) option" where
  "command_lut idx v s = do {
     raw \<leftarrow> huffmanEntry (ds_htreeCommand s) 0 idx;
     start1 \<leftarrow> ds_htreeCommandLut s;
     let slot = int start1 + uint idx;
     lut \<leftarrow> sl_get (ds_cmdLuts s) slot;
     let cmdDrop = raw AND 0xFF;
     if cmdDrop > huffmanTableBits then
       (let nbits = cmdDrop - huffmanTableBits;
            idx2 = idx + of_nat (drop_bit 16 raw) + (drop_bit huffmanTableBits v AND bitMask nbits) in do {
          raw \<leftarrow> huffmanEntry (ds_htreeCommand s) 0 idx2;
          lut \<leftarrow> go_index cmdLutPacked (int (drop_bit 16 raw));
          Some (huffmanTableBits + (raw AND 0xFF), lut, s) })
     else if lut = 0 then do {
       lut \<leftarrow> go_index cmdLutPacked (int (drop_bit 16 raw));
       luts \<leftarrow> sl_set (ds_cmdLuts s) slot lut;
       Some (cmdDrop, lut, s\<lparr>ds_cmdLuts := luts\<rparr>) }
     else Some (cmdDrop, lut, s) }"

definition lut_byte :: "nat \<Rightarrow> u64 \<Rightarrow> nat" where
  "lut_byte n lut = unat (ucast (drop_bit n lut) :: byte)"

text \<open>The command on the fast path: the insert length, without and with its extra bits.\<close>

definition command_fast :: "decodeState \<Rightarrow> (int \<times> u64 \<times> decodeState) option" where
  "command_fast s = (let idx = br_val (ds_br s) AND huffmanTableMask in do {
     (v, bp, br) \<leftarrow> refill64 (br_val (ds_br s)) (br_bitPos (ds_br s)) (ds_br s);
     (cmdDrop, lut, s) \<leftarrow> command_lut idx v (s\<lparr>ds_br := br\<rparr>);
     let s = s\<lparr>ds_distanceCode := sint (ucast (drop_bit 16 lut) :: byte), ds_distanceContext := int (lut_byte 24 lut)\<rparr>;
     off \<leftarrow> go_index (ds_distCodesCache s) (ds_distanceContext s AND 3);
     let i = uint (ucast (drop_bit 32 lut) :: u16);
     let insertBits = lut_byte 0 lut;
     let copyBits = lut_byte 8 lut;
     let v = drop_bit (cmdDrop mod 64) v;
     let bp = usub bp cmdDrop;
     (insertLenExtra, v, bp, br) \<leftarrow> (if insertBits \<noteq> 0 then do {
         (v', bp, br) \<leftarrow> refill64 (drop_bit (insertBits mod 64) v) (usub bp insertBits) (ds_br s);
         Some (v AND bitMask insertBits, v', bp, br) }
       else Some (0, v, bp, ds_br s));
     let copyExtra = v AND bitMask copyBits;
     Some (i, insertLenExtra, s\<lparr>ds_distCodesOffset := off,
       ds_br := br\<lparr>br_val := drop_bit (copyBits mod 64) v, br_bitPos := usub bp copyBits\<rparr>,
       ds_copyLength := uint (drop_bit 48 lut) + sint copyExtra\<rparr>) })"

text \<open>The command on the resumable path; \<open>Inl\<close>: no more input, the reader back at the start of the command.\<close>

definition command_safe :: "decodeState \<Rightarrow> (decodeState + (int \<times> u64 \<times> decodeState)) option" where
  "command_safe s = (let cmdMemento = saveState (ds_br s) in do {
     (x, br) \<leftarrow> safeReadSymbol (ds_htreeCommand s) (ds_br s);
     case x of None \<Rightarrow> Some (Inl (s\<lparr>ds_br := br\<rparr>)) | Some cmdCode \<Rightarrow> do {
       e \<leftarrow> go_index CmdLut (int cmdCode);
       off \<leftarrow> go_index (ds_distCodesCache s) (int (Context e));
       let s = s\<lparr>ds_br := br, ds_safeCmdMemento := cmdMemento, ds_distanceCode := DistanceCode e,
                 ds_distanceContext := int (Context e), ds_distCodesOffset := off\<rparr>;
       (y, br) \<leftarrow> (if InsertLenExtraBits e \<noteq> 0 then safeReadBits (InsertLenExtraBits e) (ds_br s) else Some (Some 0, ds_br s));
       case y of None \<Rightarrow> Some (Inl (s\<lparr>ds_br := restoreState (ds_safeCmdMemento s) br\<rparr>)) | Some insertLenExtra \<Rightarrow> do {
         (z, br) \<leftarrow> safeReadBits (CopyLenExtraBits e) br;
         case z of None \<Rightarrow> Some (Inl (s\<lparr>ds_br := restoreState (ds_safeCmdMemento s) br\<rparr>)) | Some v \<Rightarrow>
           Some (Inr (int (InsertLenOffset e), insertLenExtra,
             s\<lparr>ds_br := br, ds_copyLength := int (CopyLenOffset e) + sint v\<rparr>)) } } })"

definition command_done :: "int \<Rightarrow> int \<times> u64 \<times> decodeState \<Rightarrow> jump" where
  "command_done ps = (\<lambda>(i, insertLenExtra, s).
     let i = i + sint insertLenExtra;
         s = take_block 1 1 s;
         s = s\<lparr>ds_metaBlockRemainingLen := ds_metaBlockRemainingLen s - i\<rparr> in
     (if i = 0 then L_commandPostDecodeLiterals else L_commandInner, ps, i, s))"

definition commandBegin :: "int \<Rightarrow> decodeState \<Rightarrow> outcome option" where
  "commandBegin ps s = do {
     b \<leftarrow> block_switch 1 s;
     case b of
       Inl (starved, s) \<Rightarrow> Some (Inl (if starved then quit_begin ps s else fail ''invalid block switch'' s))
     | Inr (fresh, s) \<Rightarrow> do {
         s \<leftarrow> (if fresh then command_trees s else Some s);
         if checkInputAmountAndBits huffmanTableBits (ds_br s) then do {
           c \<leftarrow> command_fast s;
           Some (Inr (command_done ps c)) }
         else do {
           c \<leftarrow> command_safe s;
           Some (case c of Inl s \<Rightarrow> Inl (quit_begin ps s) | Inr c \<Rightarrow> Inr (command_done ps c)) } } }"


subsection \<open>\<^verbatim>\<open>commandInner\<close>\<close>

text \<open>Go's division truncates.\<close>

definition go_half :: "int \<Rightarrow> int" where
  "go_half x = (if x < 0 then - ((- x) div 2) else x div 2)"

text \<open>How many literals a batch may decode.\<close>

definition batch_size :: "int \<Rightarrow> int \<Rightarrow> decodeState \<Rightarrow> int" where
  "batch_size ps i s = min i (min (int (ds_blockLength s ! 0)) (min (ds_ringbufferSize s - ps) (go_half (availIn (ds_br s) - 8))))"

definition ring_put :: "int \<Rightarrow> byte \<Rightarrow> decodeState \<Rightarrow> decodeState option" where
  "ring_put ps b s = do { rb \<leftarrow> sl_set (ds_ringbuffer s) ps b; Some (s\<lparr>ds_ringbuffer := rb\<rparr>) }"

definition ring_tail :: "int \<Rightarrow> decodeState \<Rightarrow> byte list option" where
  "ring_tail ps s = sl_slice (ds_ringbuffer s) ps (int (sl_len (ds_ringbuffer s)))"

definition put_tail :: "int \<Rightarrow> byte list \<Rightarrow> decodeState \<Rightarrow> decodeState" where
  "put_tail ps xs s = s\<lparr>ds_ringbuffer := (ds_ringbuffer s)\<lparr>sl_data := overwrite (sl_data (ds_ringbuffer s)) (nat ps) xs\<rparr>\<rparr>"

text \<open>What a round of the literal loops comes to: leaving through a return or \<^verbatim>\<open>goto commandInner\<close>, or the next round
  with \<open>n\<close> literals written; a full ring is a return.\<close>

definition literals_written :: "int \<Rightarrow> int \<Rightarrow> decodeState \<Rightarrow> outcome + (int \<times> int \<times> decodeState)" where
  "literals_written ps i s = (if ps = ds_ringbufferSize s
     then Inl (Inl (quit ResultNeedsMoreOutput StateCommandInnerWrite ps i s)) else Inr (ps, i, s))"

text \<open>The block switch at the head of both loops, with the new literal trees.\<close>

definition literal_switch :: "int \<Rightarrow> int \<Rightarrow> decodeState \<Rightarrow> (return_value + (bool \<times> decodeState)) option" where
  "literal_switch ps i s = do {
     b \<leftarrow> block_switch 0 s;
     case b of
       Inl (starved, s) \<Rightarrow> Some (Inl (if starved then quit ResultNeedsMoreInput StateCommandInner ps i s
                                  else fail ''invalid block switch'' s))
     | Inr (fresh, s) \<Rightarrow> do {
         s \<leftarrow> (if fresh then prepareLiteralDecoding s else Some s);
         Some (Inr (fresh, s)) } }"

definition trivial_batch :: "int \<Rightarrow> int \<Rightarrow> decodeState \<Rightarrow> (outcome + (int \<times> int \<times> decodeState)) option" where
  "trivial_batch ps i s = (let n = batch_size ps i s in
     if n = 1 then do {
       br \<leftarrow> fillBitWindow (ds_br s);
       (x, br) \<leftarrow> decodeSymbol (br_val br) (ds_literalHTree s) br;
       s \<leftarrow> ring_put ps (of_nat x) (s\<lparr>ds_br := br\<rparr>);
       Some (literals_written (ps + 1) (i - 1) (take_block 0 1 s)) }
     else if n > 1 then do {
       _ \<leftarrow> checkRingCopy (ds_ringbufferSize s) ps n;
       dst \<leftarrow> ring_tail ps s;
       (dst, br) \<leftarrow> decodeLiteralsBatch dst (nat n) (ds_literalHTree s) (ds_br s);
       Some (literals_written (ps + n) (i - n) (take_block 0 (nat n) (put_tail ps dst (s\<lparr>ds_br := br\<rparr>)))) }
     else do {
       (x, br) \<leftarrow> (if checkInputAmount (ds_br s) then do {
           br \<leftarrow> fillBitWindow (ds_br s);
           (x, br) \<leftarrow> decodeSymbol (br_val br) (ds_literalHTree s) br;
           Some (Some x, br) }
         else safeReadSymbol (ds_literalHTree s) (ds_br s));
       let s = s\<lparr>ds_br := br\<rparr>;
       case x of None \<Rightarrow> Some (Inl (Inl (quit ResultNeedsMoreInput StateCommandInner ps i s)))
       | Some x \<Rightarrow> do {
           s \<leftarrow> ring_put ps (of_nat x) s;
           Some (literals_written (ps + 1) (i - 1) (take_block 0 1 s)) } })"

definition trivial_round :: "int \<Rightarrow> int \<Rightarrow> decodeState \<Rightarrow> (outcome + (int \<times> int \<times> decodeState)) option" where
  "trivial_round ps i s = do {
     b \<leftarrow> literal_switch ps i s;
     case b of
       Inl r \<Rightarrow> Some (Inl (Inl r))
     | Inr (fresh, s) \<Rightarrow>
         if fresh \<and> ds_trivialLiteralContext s = 0 then Some (Inl (Inr (L_commandInner, ps, i, s)))
         else trivial_batch ps i s }"

text \<open>After the loops: the end of the metablock, or the copy of the command.\<close>

definition literals_done :: "int \<Rightarrow> int \<Rightarrow> decodeState \<Rightarrow> outcome" where
  "literals_done ps i s = (if ds_metaBlockRemainingLen s \<le> 0
     then Inl (quit ResultSuccess StateMetablockDone ps i s) else Inr (L_commandPostDecodeLiterals, ps, i, s))"

partial_function (option) literals_trivial :: "int \<Rightarrow> int \<Rightarrow> decodeState \<Rightarrow> outcome option" where
  "literals_trivial ps i s = (if i > 0 then
     Option.bind (trivial_round ps i s) (\<lambda>r. case r of Inl x \<Rightarrow> Some x | Inr (ps, i, s) \<Rightarrow> literals_trivial ps i s)
   else Some (literals_done ps i s))"

text \<open>The same with a context: \<open>p1\<close> and \<open>p2\<close> are the last two bytes.\<close>

definition context_batch :: "byte \<Rightarrow> byte \<Rightarrow> int \<Rightarrow> int \<Rightarrow> decodeState
    \<Rightarrow> ((outcome + (int \<times> int \<times> decodeState)) \<times> byte \<times> byte) option" where
  "context_batch p1 p2 ps i s = (let n = batch_size ps i s in
     if n > 0 then do {
       _ \<leftarrow> checkRingCopy (ds_ringbufferSize s) ps n;
       dst \<leftarrow> ring_tail ps s;
       (dst, p1, p2, br) \<leftarrow> decodeLiteralsContextBatch dst (nat n) s (ds_contextLookup s) p1 p2 (ds_br s);
       Some (literals_written (ps + n) (i - n) (take_block 0 (nat n) (put_tail ps dst (s\<lparr>ds_br := br\<rparr>))), p1, p2) }
     else do {
       x \<leftarrow> go_index (ds_contextLookup s) (uint p1);
       y \<leftarrow> go_index (ds_contextLookup s) (256 + uint p2);
       off \<leftarrow> go_index (ds_literalCodesOffsets s) (uint (x OR y));
       let codes = sl_list (g_codes (ds_literalHGroup s));
       hc \<leftarrow> go_slice codes off (int (length codes));
       let p2 = p1;
       (z, br) \<leftarrow> (if checkInputAmount (ds_br s) then do {
           br \<leftarrow> fillBitWindow (ds_br s);
           (z, br) \<leftarrow> decodeSymbol (br_val br) hc br;
           Some (Some z, br) }
         else safeReadSymbol hc (ds_br s));
       let s = s\<lparr>ds_br := br\<rparr>;
       case z of None \<Rightarrow> Some (Inl (Inl (quit ResultNeedsMoreInput StateCommandInner ps i s)), p1, p2)
       | Some z \<Rightarrow> do {
           s \<leftarrow> ring_put ps (of_nat z) s;
           Some (literals_written (ps + 1) (i - 1) (take_block 0 1 s), of_nat z, p2) } })"

definition context_round :: "byte \<Rightarrow> byte \<Rightarrow> int \<Rightarrow> int \<Rightarrow> decodeState
    \<Rightarrow> ((outcome + (int \<times> int \<times> decodeState)) \<times> byte \<times> byte) option" where
  "context_round p1 p2 ps i s = do {
     b \<leftarrow> literal_switch ps i s;
     case b of
       Inl r \<Rightarrow> Some (Inl (Inl r), p1, p2)
     | Inr (fresh, s) \<Rightarrow>
         if fresh \<and> ds_trivialLiteralContext s \<noteq> 0 then Some (Inl (Inr (L_commandInner, ps, i, s)), p1, p2)
         else context_batch p1 p2 ps i s }"

partial_function (option) literals_context :: "byte \<Rightarrow> byte \<Rightarrow> int \<Rightarrow> int \<Rightarrow> decodeState \<Rightarrow> outcome option" where
  "literals_context p1 p2 ps i s = (if i > 0 then
     Option.bind (context_round p1 p2 ps i s) (\<lambda>(r, p1, p2).
       case r of Inl x \<Rightarrow> Some x | Inr (ps, i, s) \<Rightarrow> literals_context p1 p2 ps i s)
   else Some (literals_done ps i s))"

definition commandInner :: "int \<Rightarrow> int \<Rightarrow> decodeState \<Rightarrow> outcome option" where
  "commandInner ps i s = (if ds_trivialLiteralContext s \<noteq> 0 then literals_trivial ps i s else do {
     p1 \<leftarrow> sl_get (ds_ringbuffer s) ((ps - 1) AND ds_ringbufferMask s);
     p2 \<leftarrow> sl_get (ds_ringbuffer s) ((ps - 2) AND ds_ringbufferMask s);
     literals_context p1 p2 ps i s })"


subsection \<open>\<^verbatim>\<open>commandPostDecodeLiterals\<close>\<close>

definition distanceSymbolEntryFast :: "u64 \<Rightarrow> HuffmanCode list \<Rightarrow> int \<Rightarrow> nat option" where
  "distanceSymbolEntryFast bits table offset = huffmanEntry table offset (bits AND huffmanTableMask)"

definition decodeDistanceSymbolSecondLevel :: "u64 \<Rightarrow> HuffmanCode list \<Rightarrow> int \<Rightarrow> nat \<Rightarrow> nat \<Rightarrow> (nat \<times> nat) option" where
  "decodeDistanceSymbolSecondLevel bits table offset code drop1 =
     (let nbits = drop1 - huffmanTableBits;
          idx = (bits AND huffmanTableMask) + of_nat code + (drop_bit huffmanTableBits bits AND bitMask nbits) in do {
      raw \<leftarrow> huffmanEntry table offset idx;
      Some (drop_bit 16 raw, huffmanTableBits + (raw AND 0xFF)) })"

text \<open>The distance on the fast path.\<close>

definition distance_fast :: "decodeState \<Rightarrow> decodeState option" where
  "distance_fast s = (let codes = sl_list (g_codes (ds_distanceHGroup s)) in do {
     raw \<leftarrow> distanceSymbolEntryFast (br_val (ds_br s)) codes (ds_distCodesOffset s);
     (v, bp, br) \<leftarrow> refill64 (br_val (ds_br s)) (br_bitPos (ds_br s)) (ds_br s);
     let drop1 = raw AND 0xFF;
     let code = drop_bit 16 raw;
     (code, drop1) \<leftarrow> (if drop1 > huffmanTableBits
        then decodeDistanceSymbolSecondLevel v codes (ds_distCodesOffset s) code drop1 else Some (code, drop1));
     let v = drop_bit (drop1 mod 64) v;
     let bp = usub bp drop1;
     let s = (take_block 2 1 s)\<lparr>ds_distanceContext := 0\<rparr>;
     if code < 16 then
       takeDistanceFromRingBuffer (s\<lparr>ds_br := br\<lparr>br_val := v, br_bitPos := bp\<rparr>, ds_distanceCode := int code\<rparr>)
     else do {
       (nExtra, offset) \<leftarrow> distExtra (ds_bodyArena s) code;
       let bits = v AND bitMask nExtra;
       Some (s\<lparr>ds_br := br\<lparr>br_val := drop_bit (nExtra mod 64) v, br_bitPos := usub bp nExtra\<rparr>,
               ds_distanceCode := dist_value offset (ds_distancePostfixBits s) bits\<rparr>) } })"

text \<open>A distance with a code of its own: the block switch, then the symbol.\<close>

definition distance_block :: "int \<Rightarrow> int \<Rightarrow> decodeState \<Rightarrow> (return_value + decodeState) option" where
  "distance_block ps i s = do {
     b \<leftarrow> block_switch 2 s;
     case b of
       Inl (starved, s) \<Rightarrow> Some (Inl (if starved then quit ResultNeedsMoreInput StateCommandPostDecodeLiterals ps i s
                                  else fail ''invalid block switch'' s))
     | Inr (fresh, s) \<Rightarrow>
         if fresh then do {
           t \<leftarrow> go_index (ds_blockTypeRB s) 5;
           s \<leftarrow> updateDistCodesCache (s\<lparr>ds_distContextMapSliceIdx := int (t * 2 ^ DistanceContextBits)\<rparr>);
           off \<leftarrow> go_index (ds_distCodesCache s) (ds_distanceContext s);
           Some (Inr (s\<lparr>ds_distCodesOffset := off\<rparr>)) }
         else Some (Inr s) }"

definition command_distance :: "int \<Rightarrow> int \<Rightarrow> decodeState \<Rightarrow> (return_value + decodeState) option" where
  "command_distance ps i s =
     (if ds_distanceCode s \<ge> 0 then
        let s = s\<lparr>ds_distanceContext := (if ds_distanceCode s \<noteq> 0 then 0 else 1), ds_distRBIdx := ds_distRBIdx s - 1\<rparr> in
        Some (Inr (s\<lparr>ds_distanceCode := ds_distRB s ! nat (ds_distRBIdx s AND 3)\<rparr>))
      else do {
        b \<leftarrow> distance_block ps i s;
        case b of Inl r \<Rightarrow> Some (Inl r) | Inr s \<Rightarrow>
          if checkInputAmountAndBits huffmanTableBits (ds_br s) then do { s \<leftarrow> distance_fast s; Some (Inr s) }
          else do {
            (r, s) \<leftarrow> readDistance s;
            Some (if r \<noteq> ResultSuccess then Inl (quit r StateCommandPostDecodeLiterals ps i s) else Inr s) } })"

text \<open>After a dictionary reference has put its bytes up to \<open>ps\<close>: a full ring, the end of the metablock, or the next command.\<close>

definition reference_done :: "int \<Rightarrow> int \<Rightarrow> decodeState \<Rightarrow> outcome" where
  "reference_done ps i s =
     (if ps \<ge> ds_ringbufferSize s then Inl (quit ResultNeedsMoreOutput StateCommandPostWrite1 ps 0 s)
      else if ds_metaBlockRemainingLen s \<le> 0 then Inl (quit ResultSuccess StateMetablockDone ps 0 s)
      else Inr (L_commandBegin, ps, i, s))"

definition compound_reference :: "int \<Rightarrow> int \<Rightarrow> decodeState \<Rightarrow> outcome option" where
  "compound_reference ps i s = do {
     let address = compoundDictSize s - (ds_distanceCode s - ds_maxDistance s);
     (ok, s) \<leftarrow> initCopy address i s;
     if \<not> ok then Some (Inl (fail ''invalid compound dictionary reference'' s)) else do {
       (n, s) \<leftarrow> copyTo ps s;
       Some (reference_done (ps + n) i s) } }"

text \<open>A word of the static dictionary; \<open>ring_dst\<close> is \<^verbatim>\<open>s.ringbuffer[pos:]\<close>.\<close>

definition ring_dst :: "int \<Rightarrow> decodeState \<Rightarrow> byte goslice option" where
  "ring_dst ps s = (if 0 \<le> ps \<and> ps \<le> int (sl_len (ds_ringbuffer s))
     then Some \<lparr>sl_data = drop (nat ps) (sl_data (ds_ringbuffer s)), sl_len = sl_len (ds_ringbuffer s) - nat ps\<rparr> else None)"

definition word_reference :: "byte list \<Rightarrow> int \<Rightarrow> int \<Rightarrow> decodeState \<Rightarrow> outcome option" where
  "word_reference dict ps i s = (let address = ds_distanceCode s - ds_maxDistance s - 1 - compoundDictSize s in do {
     shift \<leftarrow> go_index DictSizeBitsByLength i;
     if shift = 0 then Some (Inl (fail ''invalid static dictionary reference'' s)) else do {
     let wordIdx = address AND (2 ^ shift - 1);
     let transformIdx = drop_bit shift address;
     if transformIdx \<ge> NumTransforms then Some (Inl (fail ''invalid dictionary transform'' s)) else do {
     off \<leftarrow> go_index DictOffsetsByLength i;
     let offset = int off + wordIdx * i;
     word \<leftarrow> go_slice dict offset (offset + i);
     let s = s\<lparr>ds_distRBIdx := ds_distRBIdx s + ds_distanceContext s\<rparr>;
     dst \<leftarrow> ring_dst ps s;
     (dst, i') \<leftarrow> (if transformIdx = TransformCutOffs ! 0
        then do { (dst, _) \<leftarrow> copy_at dst 0 (sl_len dst) word; Some (dst, i) }
        else do { (dst, n) \<leftarrow> TransformDictionaryWordAt dict dst offset i transformIdx; Some (dst, int n) });
     let s = put_tail ps (sl_data dst) s;
     if transformIdx \<noteq> TransformCutOffs ! 0 \<and> i' = 0 \<and> ds_distanceCode s \<le> 120
     then Some (Inl (fail ''invalid dictionary transform'' s))
     else Some (reference_done (ps + i') i' (s\<lparr>ds_metaBlockRemainingLen := ds_metaBlockRemainingLen s - i'\<rparr>)) } } })"

definition dictionary_reference :: "byte list \<Rightarrow> int \<Rightarrow> int \<Rightarrow> decodeState \<Rightarrow> outcome option" where
  "dictionary_reference dict ps i s =
     (if ds_distanceCode s > maxAllowedDistance then Some (Inl (fail ''invalid backward reference distance'' s))
      else if ds_distanceCode s - ds_maxDistance s \<le> compoundDictSize s then compound_reference ps i s
      else if DictMinWordLength \<le> i \<and> i \<le> DictMaxWordLength then word_reference dict ps i s
      else Some (Inl (fail ''invalid dictionary word length'' s)))"

definition ring_reference :: "int \<Rightarrow> int \<Rightarrow> decodeState \<Rightarrow> outcome option" where
  "ring_reference ps i s =
     (let s = s\<lparr>ds_distRB := (ds_distRB s)[nat (ds_distRBIdx s AND 3) := ds_distanceCode s],
                ds_distRBIdx := ds_distRBIdx s + 1, ds_metaBlockRemainingLen := ds_metaBlockRemainingLen s - i\<rparr> in do {
      (wraps, rb, ps) \<leftarrow> ring_copy (ds_ringbufferSize s) (ds_ringbufferMask s) (ds_distanceCode s) (ds_ringbuffer s) ps i;
      Some (Inr (if wraps then L_commandPostWrapCopy else L_postCopy, ps, i, s\<lparr>ds_ringbuffer := rb\<rparr>)) })"

definition commandPostDecodeLiterals :: "byte list \<Rightarrow> int \<Rightarrow> int \<Rightarrow> decodeState \<Rightarrow> outcome option" where
  "commandPostDecodeLiterals dict ps i s = do {
     d \<leftarrow> command_distance ps i s;
     case d of Inl r \<Rightarrow> Some (Inl r) | Inr s \<Rightarrow>
       (let s = (if ds_maxDistance s \<noteq> ds_maxBackwardDistance s
                 then s\<lparr>ds_maxDistance := min ps (ds_maxBackwardDistance s)\<rparr> else s);
            i = ds_copyLength s in
        if ds_distanceCode s > ds_maxDistance s then dictionary_reference dict ps i s else ring_reference ps i s) }"


subsection \<open>\<^verbatim>\<open>commandPostWrapCopy\<close>, \<^verbatim>\<open>postCopy\<close> and the loop\<close>

definition commandPostWrapCopy :: "int \<Rightarrow> int \<Rightarrow> decodeState \<Rightarrow> outcome option" where
  "commandPostWrapCopy ps i s = do {
     (full, rb, ps, i) \<leftarrow> wrap_copy (ds_ringbufferSize s) (ds_ringbufferMask s) (ds_distanceCode s) (ds_ringbuffer s) ps i;
     let s = s\<lparr>ds_ringbuffer := rb\<rparr>;
     Some (if full then Inl (quit ResultNeedsMoreOutput StateCommandPostWrite2 ps i s) else Inr (L_postCopy, ps, i, s)) }"

definition postCopy :: "int \<Rightarrow> int \<Rightarrow> decodeState \<Rightarrow> outcome" where
  "postCopy ps i s = (if ds_metaBlockRemainingLen s \<le> 0 then Inl (quit ResultSuccess StateMetablockDone ps i s)
     else Inr (L_commandBegin, ps, i, s))"

fun command_step :: "byte list \<Rightarrow> jump \<Rightarrow> outcome option" where
  "command_step dict (L_commandBegin, ps, i, s) = commandBegin ps s"
| "command_step dict (L_commandInner, ps, i, s) = commandInner ps i s"
| "command_step dict (L_commandPostDecodeLiterals, ps, i, s) = commandPostDecodeLiterals dict ps i s"
| "command_step dict (L_commandPostWrapCopy, ps, i, s) = commandPostWrapCopy ps i s"
| "command_step dict (L_postCopy, ps, i, s) = Some (postCopy ps i s)"

partial_function (option) command_loop :: "byte list \<Rightarrow> jump \<Rightarrow> return_value option" where
  "command_loop dict j = Option.bind (command_step dict j) (\<lambda>r. case r of Inl x \<Rightarrow> Some x | Inr j \<Rightarrow> command_loop dict j)"

definition processCommands :: "byte list \<Rightarrow> decodeState \<Rightarrow> return_value option" where
  "processCommands dict s = command_loop dict
     (case ds_state s of
        StateCommandInner \<Rightarrow> L_commandInner
      | StateCommandPostDecodeLiterals \<Rightarrow> L_commandPostDecodeLiterals
      | StateCommandPostWrapCopy \<Rightarrow> L_commandPostWrapCopy
      | _ \<Rightarrow> L_commandBegin, ds_pos s, ds_loopCounter s, s)"

end
