(* ===== verification/Decode_Stream.thy ===== *)
theory Decode_Stream
  imports Decode_Commands Decode_Huffman
begin

unbundle bit_operations_syntax

text \<open>
  The top of the decoder, \<^verbatim>\<open>decode.go\<close>: \<^verbatim>\<open>decompressStream\<close>, the loop over the states of a stream, and
  \<^verbatim>\<open>decodeAll\<close> and \<^verbatim>\<open>Decompress\<close>, which run it over a whole input.

  Each case of the \<^verbatim>\<open>switch\<close> is a definition over the output and the state; one that falls through ends with the
  next case. It returns a result (\<open>Inl\<close>) or goes round the loop again (\<open>Inr\<close>). Besides the static dictionary
  the environment has what the pools return in each round of the loop.
\<close>

subsection \<open>Environment and results\<close>

record environment =
  e_dict :: "byte list"
  e_get :: chunk_pool
  e_pool :: "nat \<Rightarrow> nat \<Rightarrow> ring_pool"

type_synonym stream_state = "byte list \<times> decodeState"
type_synonym stream_outcome = "(decoderResult \<times> stream_state) + stream_state"

definition s_return :: "byte list \<Rightarrow> decoderResult \<Rightarrow> decodeState \<Rightarrow> stream_outcome option" where
  "s_return outp r s = Some (Inl (r, outp, s))"

definition s_again :: "byte list \<Rightarrow> decodeState \<Rightarrow> stream_outcome option" where
  "s_again outp s = Some (Inr (outp, s))"

definition s_error :: "byte list \<Rightarrow> string \<Rightarrow> decodeState \<Rightarrow> stream_outcome option" where
  "s_error outp e s = s_return outp ResultError (s\<lparr>ds_err := Some e\<rparr>)"

definition errPadding :: string where "errPadding = ''brotli: non-zero padding bits''"
definition ErrExcessiveInput :: string where "ErrExcessiveInput = ''brotli: excessive input''"
definition ErrDecodedSizeLimit :: string where "ErrDecodedSizeLimit = ''brotli: decoded size limit exceeded''"


subsection \<open>The end of a metablock and of the stream\<close>

definition case_Done :: "byte list \<Rightarrow> decodeState \<Rightarrow> stream_outcome option" where
  "case_Done outp s = s_return outp ResultSuccess s"

definition case_MetablockDone :: "byte list \<Rightarrow> decodeState \<Rightarrow> stream_outcome option" where
  "case_MetablockDone outp s =
     (if ds_metaBlockRemainingLen s < 0 then s_error outp (decompressError ''negative remaining metablock length'') s
      else if \<not> ds_isLastMetablock s then s_again outp (s\<lparr>ds_state := StateMetablockBegin\<rparr>)
      else let (ok, br) = jumpToByteBoundary (ds_br s); s = s\<lparr>ds_br := br\<rparr> in
        if \<not> ok then s_error outp errPadding s else case_Done outp (s\<lparr>ds_state := StateDone\<rparr>))"

definition case_Uncompressed :: "environment \<Rightarrow> nat \<Rightarrow> byte list \<Rightarrow> decodeState \<Rightarrow> stream_outcome option" where
  "case_Uncompressed env k outp s = do {
     (r, outp, s) \<leftarrow> copyUncompressedBlock (e_get env) (e_pool env k) (outp, s);
     if r \<noteq> ResultSuccess then s_return outp r s else s_again outp (s\<lparr>ds_state := StateMetablockDone\<rparr>) }"

definition case_Metadata :: "byte list \<Rightarrow> decodeState \<Rightarrow> stream_outcome option" where
  "case_Metadata outp s = do {
     (r, s) \<leftarrow> skipMetadataBlock s;
     if r \<noteq> ResultSuccess then s_return outp r s else s_again outp (s\<lparr>ds_state := StateMetablockDone\<rparr>) }"


subsection \<open>The body of a compressed metablock\<close>

text \<open>After the ring buffer was written out: \<^verbatim>\<open>continue\<close> in the first case leaves the state as it is.\<close>

definition after_write :: "byte list \<Rightarrow> decodeState \<Rightarrow> stream_outcome option" where
  "after_write outp s = (case ds_state s of
     StateCommandPostWrite1 \<Rightarrow> do {
       (full, s) \<leftarrow> (case ds_compoundDict s of
          Some cd \<Rightarrow> if cd_brLength cd \<noteq> cd_brCopied cd then do {
              (n, s') \<leftarrow> copyTo (ds_pos s) s;
              Some (ds_pos s + n \<ge> ds_ringbufferSize s', s'\<lparr>ds_pos := ds_pos s + n\<rparr>) }
            else Some (False, s)
        | None \<Rightarrow> Some (False, s));
       if full then s_again outp s
       else s_again outp (s\<lparr>ds_state := (if ds_metaBlockRemainingLen s = 0 then StateMetablockDone else StateCommandBegin)\<rparr>) }
   | StateCommandPostWrite2 \<Rightarrow> s_again outp (s\<lparr>ds_state := StateCommandPostWrapCopy\<rparr>)
   | _ \<Rightarrow> s_again outp (s\<lparr>ds_state :=
       (if ds_loopCounter s = 0 then
          (if ds_metaBlockRemainingLen s = 0 then StateMetablockDone else StateCommandPostDecodeLiterals)
        else StateCommandInner)\<rparr>))"

definition case_Write :: "environment \<Rightarrow> nat \<Rightarrow> byte list \<Rightarrow> decodeState \<Rightarrow> stream_outcome option" where
  "case_Write env k outp s = do {
     (outp, s) \<leftarrow> writeRingBuffer (e_get env) (e_pool env k 0) (outp, s);
     after_write outp s }"

definition case_Command :: "environment \<Rightarrow> byte list \<Rightarrow> decodeState \<Rightarrow> stream_outcome option" where
  "case_Command env outp s = do {
     (r, s) \<leftarrow> processCommands (e_dict env) s;
     if r \<noteq> ResultSuccess then
       (if r \<noteq> ResultError \<and> ds_metaBlockRemainingLen s < 0
        then s_error outp (decompressError ''negative remaining metablock length'') s else s_return outp r s)
     else s_again outp s }"

definition case_BeforeBody :: "environment \<Rightarrow> nat \<Rightarrow> byte list \<Rightarrow> decodeState \<Rightarrow> stream_outcome option" where
  "case_BeforeBody env k outp s = do {
     s \<leftarrow> prepareLiteralDecoding s;
     s \<leftarrow> updateDistCodesCache (s\<lparr>ds_distContextMapSliceIdx := 0\<rparr>);
     let s = resetCmdLuts s;
     h \<leftarrow> sl_get (g_htrees (ds_insertCopyHGroup s)) 0;
     let codes = sl_list (g_codes (ds_insertCopyHGroup s));
     tree \<leftarrow> go_slice codes h (int (length codes));
     s \<leftarrow> ensureRingBuffer (e_pool env k 0) (s\<lparr>ds_htreeCommand := tree, ds_htreeCommandLut := Some 0\<rparr>);
     s \<leftarrow> calculateDistanceLut s;
     case_Command env outp (s\<lparr>ds_state := StateCommandBegin\<rparr>) }"


subsection \<open>The header of a compressed metablock\<close>

definition get_group :: "int \<Rightarrow> decodeState \<Rightarrow> huffmanTreeGroup" where
  "get_group i s = (if i = 0 then ds_literalHGroup s else if i = 1 then ds_insertCopyHGroup s else ds_distanceHGroup s)"

definition put_group :: "int \<Rightarrow> huffmanTreeGroup \<Rightarrow> decodeState \<Rightarrow> decodeState" where
  "put_group i g s = (if i = 0 then s\<lparr>ds_literalHGroup := g\<rparr> else if i = 1 then s\<lparr>ds_insertCopyHGroup := g\<rparr>
     else s\<lparr>ds_distanceHGroup := g\<rparr>)"

definition case_TreeGroup :: "environment \<Rightarrow> nat \<Rightarrow> byte list \<Rightarrow> decodeState \<Rightarrow> stream_outcome option" where
  "case_TreeGroup env k outp s =
     (let i = ds_loopCounter s in
      if i < 0 \<or> 2 < i then s_error outp (decompressError ''unreachable tree group index'') s
      else do {
        (r, g, s) \<leftarrow> huffmanTreeGroupDecode (get_group i s) s;
        let s = put_group i g s;
        if r \<noteq> ResultSuccess then s_return outp r s
        else let s = s\<lparr>ds_loopCounter := i + 1\<rparr> in
          if i + 1 < 3 then s_again outp s
          else case_BeforeBody env k outp (s\<lparr>ds_state := StateBeforeCompressedMetablockBody\<rparr>) })"

definition init_groups :: "nat \<Rightarrow> decodeState \<Rightarrow> decodeState" where
  "init_groups distAlphabetSizeMax s = s\<lparr>
     ds_literalHGroup := huffmanTreeGroup_init AlphabetSizeLiteral AlphabetSizeLiteral
       (ds_numLiteralHTrees s mod 2 ^ 16) (ds_literalHGroup s),
     ds_insertCopyHGroup := huffmanTreeGroup_init AlphabetSizeInsertAndCopyLength AlphabetSizeInsertAndCopyLength
       (ds_numBlockTypes s ! 1 mod 2 ^ 16) (ds_insertCopyHGroup s),
     ds_distanceHGroup := huffmanTreeGroup_init (distAlphabetSizeMax mod 2 ^ 16) (distAlphabetSizeMax mod 2 ^ 16)
       (ds_numDistHTrees s mod 2 ^ 16) (ds_distanceHGroup s)\<rparr>"

definition case_ContextMap2 :: "environment \<Rightarrow> nat \<Rightarrow> byte list \<Rightarrow> decodeState \<Rightarrow> stream_outcome option" where
  "case_ContextMap2 env k outp s =
     (let distAlphabetSizeMax = uadd (uadd NumDistanceShortCodes (ds_numDirectDistanceCodes s))
            (shl MaxDistanceBits (ds_distancePostfixBits s + 1)) in do {
      (r, m, n, s) \<leftarrow> decodeContextMap (shl (ds_numBlockTypes s ! 2) DistanceContextBits) (ds_distContextMap s) (ds_numDistHTrees s) s;
      let s = s\<lparr>ds_distContextMap := m, ds_numDistHTrees := n\<rparr>;
      if r \<noteq> ResultSuccess then s_return outp r s
      else case_TreeGroup env k outp ((init_groups distAlphabetSizeMax s)\<lparr>ds_loopCounter := 0, ds_state := StateTreeGroup\<rparr>) })"

definition case_ContextMap1 :: "environment \<Rightarrow> nat \<Rightarrow> byte list \<Rightarrow> decodeState \<Rightarrow> stream_outcome option" where
  "case_ContextMap1 env k outp s = do {
     (r, m, n, s) \<leftarrow> decodeContextMap (shl (ds_numBlockTypes s ! 0) LiteralContextBits) (ds_contextMap s) (ds_numLiteralHTrees s) s;
     let s = s\<lparr>ds_contextMap := m, ds_numLiteralHTrees := n\<rparr>;
     if r \<noteq> ResultSuccess then s_return outp r s else do {
       s \<leftarrow> detectTrivialLiteralBlockTypes s;
       case_ContextMap2 env k outp (s\<lparr>ds_state := StateContextMap2\<rparr>) } }"

definition case_ContextModes :: "environment \<Rightarrow> nat \<Rightarrow> byte list \<Rightarrow> decodeState \<Rightarrow> stream_outcome option" where
  "case_ContextModes env k outp s = do {
     (r, s) \<leftarrow> readContextModes s;
     if r \<noteq> ResultSuccess then s_return outp r s
     else case_ContextMap1 env k outp (s\<lparr>ds_state := StateContextMap1\<rparr>) }"

definition case_MetablockHeader2 :: "environment \<Rightarrow> nat \<Rightarrow> byte list \<Rightarrow> decodeState \<Rightarrow> stream_outcome option" where
  "case_MetablockHeader2 env k outp s = do {
     (x, br) \<leftarrow> safeReadBits 6 (ds_br s);
     case x of None \<Rightarrow> s_return outp ResultNeedsMoreInput (s\<lparr>ds_br := br\<rparr>)
     | Some bits \<Rightarrow>
         (let postfix = unat (bits AND bitMask 2) in
          case_ContextModes env k outp (s\<lparr>ds_br := br, ds_distancePostfixBits := postfix,
            ds_numDirectDistanceCodes := shl (unat (drop_bit 2 bits)) postfix,
            ds_contextModes := reuseBytes (ds_contextModes s) (ds_numBlockTypes s ! 0),
            ds_loopCounter := 0, ds_state := StateContextModes\<rparr>)) }"

definition case_HuffmanCode3 :: "byte list \<Rightarrow> decodeState \<Rightarrow> stream_outcome option" where
  "case_HuffmanCode3 outp s = do {
     let i = ds_loopCounter s;
     tree \<leftarrow> go_slice (blockLenTrees s) (i * int huffmanMaxSize26) (int (length (blockLenTrees s)));
     (x, s) \<leftarrow> safeReadBlockLength tree s;
     case x of None \<Rightarrow> s_return outp ResultNeedsMoreInput s
     | Some bl \<Rightarrow> do {
         ls \<leftarrow> go_update (ds_blockLength s) i bl;
         s_again outp (s\<lparr>ds_blockLength := ls, ds_loopCounter := i + 1, ds_state := StateHuffmanCode0\<rparr>) } }"

text \<open>A table that is a view of \<^verbatim>\<open>blockTypeTrees\<close> or \<^verbatim>\<open>blockLenTrees\<close> is read and put back into the array behind both.\<close>

definition put_trees :: "nat \<Rightarrow> HuffmanCode list \<Rightarrow> decodeState \<Rightarrow> decodeState" where
  "put_trees i table s = s\<lparr>ds_blockTypeTrees := (ds_blockTypeTrees s)\<lparr>sl_data := overwrite (sl_data (ds_blockTypeTrees s)) i table\<rparr>\<rparr>"

definition case_HuffmanCode2 :: "byte list \<Rightarrow> decodeState \<Rightarrow> stream_outcome option" where
  "case_HuffmanCode2 outp s = do {
     let treeOffset = ds_loopCounter s * int huffmanMaxSize26;
     table \<leftarrow> go_slice (blockLenTrees s) treeOffset (int (length (blockLenTrees s)));
     start1 \<leftarrow> ds_blockLenTrees s;
     (r, table, _, s) \<leftarrow> readHuffmanCode AlphabetSizeBlockCount AlphabetSizeBlockCount table s;
     let s = put_trees (start1 + nat treeOffset) table s;
     if r \<noteq> ResultSuccess then s_return outp r s else case_HuffmanCode3 outp (s\<lparr>ds_state := StateHuffmanCode3\<rparr>) }"

definition case_HuffmanCode1 :: "byte list \<Rightarrow> decodeState \<Rightarrow> stream_outcome option" where
  "case_HuffmanCode1 outp s = do {
     n \<leftarrow> go_index (ds_numBlockTypes s) (ds_loopCounter s);
     let treeOffset = ds_loopCounter s * int huffmanMaxSize258;
     let trees = sl_list (ds_blockTypeTrees s);
     table \<leftarrow> go_slice trees treeOffset (int (length trees));
     (r, table, _, s) \<leftarrow> readHuffmanCode (uadd n 2) (uadd n 2) table s;
     let s = put_trees (nat treeOffset) table s;
     if r \<noteq> ResultSuccess then s_return outp r s else case_HuffmanCode2 outp (s\<lparr>ds_state := StateHuffmanCode2\<rparr>) }"

definition case_HuffmanCode0 :: "byte list \<Rightarrow> decodeState \<Rightarrow> stream_outcome option" where
  "case_HuffmanCode0 outp s = (let i = ds_loopCounter s in
     if i \<ge> 3 then s_again outp (s\<lparr>ds_state := StateMetablockHeader2\<rparr>) else do {
       v \<leftarrow> go_index (ds_numBlockTypes s) i;
       (r, v, s) \<leftarrow> decodeVarLenUint8 (v, s);
       if r \<noteq> ResultSuccess then s_return outp r (s\<lparr>ds_numBlockTypes := (ds_numBlockTypes s)[nat i := v]\<rparr>)
       else let s = s\<lparr>ds_numBlockTypes := (ds_numBlockTypes s)[nat i := uadd v 1]\<rparr> in
         if uadd v 1 < 2 then s_again outp (s\<lparr>ds_loopCounter := i + 1\<rparr>)
         else case_HuffmanCode1 outp (s\<lparr>ds_state := StateHuffmanCode1\<rparr>) })"

definition case_BeforeHeader :: "byte list \<Rightarrow> decodeState \<Rightarrow> stream_outcome option" where
  "case_BeforeHeader outp s = case_HuffmanCode0 outp ((upd_header (\<lambda>h. h\<lparr>h_subLoopCounter := 0,
     h_symbolLists := Some (HuffmanMaxCodeLength + 1), h_substateHuffman := huffmanNone,
     h_substateTreeGroup := treeGroupNone, h_substateContextMap := contextMapNone\<rparr>) s)
     \<lparr>ds_loopCounter := 0, ds_state := StateHuffmanCode0\<rparr>)"


subsection \<open>The header of a metablock and of the stream\<close>

text \<open>The limit on the decoded size; \<open>None\<close> when the metablock exceeds it.\<close>

definition declare_length :: "decodeState \<Rightarrow> decodeState option" where
  "declare_length s =
     (if ds_maxDecodedBytes s \<noteq> 0 then
        (let mlen = nat (ds_metaBlockRemainingLen s mod 2 ^ 64) in
         if mlen > usub (ds_maxDecodedBytes s) (ds_declaredTotal s) then None
         else Some (s\<lparr>ds_declaredTotal := uadd (ds_declaredTotal s) mlen\<rparr>))
      else Some s)"

definition begin_body :: "byte list \<Rightarrow> decodeState \<Rightarrow> stream_outcome option" where
  "begin_body outp s = (case declare_length s of
     None \<Rightarrow> s_error outp ErrDecodedSizeLimit s
   | Some s \<Rightarrow> do {
       s \<leftarrow> calculateRingBufferSize s;
       if ds_isUncompressed s then s_again outp (s\<lparr>ds_state := StateUncompressed\<rparr>)
       else case_BeforeHeader outp (s\<lparr>ds_state := StateBeforeCompressedMetablockHeader\<rparr>) })"

definition header_done :: "byte list \<Rightarrow> decodeState \<Rightarrow> stream_outcome option" where
  "header_done outp s =
     (if ds_isMetadata s then s_again outp (s\<lparr>ds_state := StateMetadata\<rparr>)
      else if ds_metaBlockRemainingLen s = 0 then s_again outp (s\<lparr>ds_state := StateMetablockDone\<rparr>)
      else begin_body outp s)"

definition case_MetablockHeader :: "byte list \<Rightarrow> decodeState \<Rightarrow> stream_outcome option" where
  "case_MetablockHeader outp s = do {
     (r, s) \<leftarrow> decodeMetaBlockLength s;
     if r \<noteq> ResultSuccess then s_return outp r s
     else if ds_isMetadata s \<or> ds_isUncompressed s then
       (let (ok, br) = jumpToByteBoundary (ds_br s); s = s\<lparr>ds_br := br\<rparr> in
        if \<not> ok then s_error outp errPadding s else header_done outp s)
     else header_done outp s }"

definition case_MetablockBegin :: "byte list \<Rightarrow> decodeState \<Rightarrow> stream_outcome option" where
  "case_MetablockBegin outp s = case_MetablockHeader outp ((metablockBegin s)\<lparr>ds_state := StateMetablockHeader\<rparr>)"

definition case_Initialize :: "byte list \<Rightarrow> decodeState \<Rightarrow> stream_outcome option" where
  "case_Initialize outp s =
     (let allTrees = reuseHuffmanCodes (ds_blockTypeTrees s) (3 * (huffmanMaxSize258 + huffmanMaxSize26)) in
      case_MetablockBegin outp (s\<lparr>ds_maxBackwardDistance := 2 ^ nat (ds_windowBits s) - WindowGap,
        ds_blockTypeTrees := allTrees\<lparr>sl_len := 3 * huffmanMaxSize258\<rparr>,
        ds_blockLenTrees := Some (3 * huffmanMaxSize258), ds_state := StateMetablockBegin\<rparr>))"

definition case_Uninited :: "byte list \<Rightarrow> decodeState \<Rightarrow> stream_outcome option" where
  "case_Uninited outp s = do {
     (ok, br) \<leftarrow> warmup (ds_br s);
     let s = s\<lparr>ds_br := br\<rparr>;
     if \<not> ok then s_return outp ResultNeedsMoreInput s
     else let (e, s) = decodeWindowBits s in
       case e of Some e \<Rightarrow> s_error outp e s | None \<Rightarrow> case_Initialize outp (s\<lparr>ds_state := StateInitialize\<rparr>) }"


subsection \<open>The loop\<close>

definition stream_step :: "environment \<Rightarrow> nat \<Rightarrow> stream_state \<Rightarrow> stream_outcome option" where
  "stream_step env k = (\<lambda>(outp, s). case ds_state s of
     StateUninited \<Rightarrow> case_Uninited outp s
   | StateLargeWindowBits \<Rightarrow> s_error outp (decompressError ''unhandled decoder state'') s
   | StateInitialize \<Rightarrow> case_Initialize outp s
   | StateMetablockBegin \<Rightarrow> case_MetablockBegin outp s
   | StateMetablockHeader \<Rightarrow> case_MetablockHeader outp s
   | StateBeforeCompressedMetablockHeader \<Rightarrow> case_BeforeHeader outp s
   | StateHuffmanCode0 \<Rightarrow> case_HuffmanCode0 outp s
   | StateHuffmanCode1 \<Rightarrow> case_HuffmanCode1 outp s
   | StateHuffmanCode2 \<Rightarrow> case_HuffmanCode2 outp s
   | StateHuffmanCode3 \<Rightarrow> case_HuffmanCode3 outp s
   | StateMetablockHeader2 \<Rightarrow> case_MetablockHeader2 env k outp s
   | StateContextModes \<Rightarrow> case_ContextModes env k outp s
   | StateContextMap1 \<Rightarrow> case_ContextMap1 env k outp s
   | StateContextMap2 \<Rightarrow> case_ContextMap2 env k outp s
   | StateTreeGroup \<Rightarrow> case_TreeGroup env k outp s
   | StateBeforeCompressedMetablockBody \<Rightarrow> case_BeforeBody env k outp s
   | StateCommandBegin \<Rightarrow> case_Command env outp s
   | StateCommandInner \<Rightarrow> case_Command env outp s
   | StateCommandPostDecodeLiterals \<Rightarrow> case_Command env outp s
   | StateCommandPostWrapCopy \<Rightarrow> case_Command env outp s
   | StateCommandInnerWrite \<Rightarrow> case_Write env k outp s
   | StateCommandPostWrite1 \<Rightarrow> case_Write env k outp s
   | StateCommandPostWrite2 \<Rightarrow> case_Write env k outp s
   | StateMetadata \<Rightarrow> case_Metadata outp s
   | StateUncompressed \<Rightarrow> case_Uncompressed env k outp s
   | StateMetablockDone \<Rightarrow> case_MetablockDone outp s
   | StateDone \<Rightarrow> case_Done outp s)"

partial_function (option) stream_loop :: "environment \<Rightarrow> nat \<Rightarrow> stream_state \<Rightarrow> (decoderResult \<times> stream_state \<times> nat) option" where
  "stream_loop env k x = Option.bind (stream_step env k x)
     (\<lambda>r. case r of Inl y \<Rightarrow> Some (fst y, snd y, k + 1) | Inr x \<Rightarrow> stream_loop env (k + 1) x)"

text \<open>A call; \<open>k\<close> counts the rounds of all calls so far, and the count is returned.\<close>

definition decompressStream :: "environment \<Rightarrow> nat \<Rightarrow> stream_state \<Rightarrow> (decoderResult \<times> stream_state \<times> nat) option" where
  "decompressStream env k x = stream_loop env k x"

definition excessiveInput :: "decodeState \<Rightarrow> bool \<times> decodeState" where
  "excessiveInput s = (let br = unload (ds_br s) in (availIn br > 0, s\<lparr>ds_br := br\<rparr>))"

text \<open>\<open>decodeAll\<close> returns the error, if any, with the output and the state.\<close>

partial_function (option) decodeAll :: "environment \<Rightarrow> nat \<Rightarrow> stream_state \<Rightarrow> (string option \<times> stream_state) option" where
  "decodeAll env k x = Option.bind (decompressStream env k x) (\<lambda>(r, x, k).
     if r = ResultSuccess then
       (let (extra, s) = excessiveInput (snd x) in
        if extra then Some (Some ErrExcessiveInput, fst x, s)
        else Option.bind (flushOutput (e_get env) (fst x, s)) (\<lambda>x. Some (None, x)))
     else if r = ResultError then Some (ds_err (snd x), x)
     else if r = ResultNeedsMoreInput then Some (Some (decompressError ''truncated input''), x)
     else Option.bind (flushOutput (e_get env) x) (decodeAll env k))"

text \<open>\<^verbatim>\<open>Decompress\<close> with the recycled state \<open>s\<close> from \<^verbatim>\<open>decodeStatePool\<close>: an error or the decoded bytes, and the state
  returned to the pool. \<^verbatim>\<open>s.err\<close> is set whenever a result is an error.\<close>

definition Decompress :: "environment \<Rightarrow> byte list \<Rightarrow> decodeState \<Rightarrow> ((string + byte list) \<times> decodeState) option" where
  "Decompress env data s = do {
     let s = initForReuse s;
     let s = s\<lparr>ds_br := setInput data (ds_br s), ds_sink := True\<rparr>;
     (e, _, s) \<leftarrow> decodeAll env 0 ([], s);
     let s = s\<lparr>ds_sink := False\<rparr>;
     case e of
       Some e \<Rightarrow> Some (Inl e, s\<lparr>ds_outChunks := chunk_discard (ds_outChunks s)\<rparr>)
     | None \<Rightarrow> do { (out, w) \<leftarrow> chunk_take (ds_outChunks s); Some (Inr out, s\<lparr>ds_outChunks := w\<rparr>) } }"

end
