(* ===== verification/Decode_Fast.thy ===== *)
theory Decode_Fast
  imports Decode_Stream
begin

unbundle bit_operations_syntax

text \<open>
  The literal batches of the decoder against its resumable symbol reader. With enough input,
  \<^verbatim>\<open>decodeLiteralsBatch\<close> and \<^verbatim>\<open>decodeLiteralsContextBatch\<close>, which keep the bit reader in local variables and
  refill it by eight bytes, read what as many calls of \<^verbatim>\<open>safeReadSymbol\<close> read (\<open>safe_symbols\<close>, whose meaning is
  \<open>look_symbols\<close>). \<open>symbol_entry\<close> is the lookup by raw table entries all fast paths share.
\<close>

subsection \<open>Packed table entries\<close>

lemma pack_entry_fields:
  assumes "b < 256"
  shows "(b OR push_bit 16 v) AND 0xFF = (b :: nat)" and "drop_bit 16 (b OR push_bit 16 v) = (v :: nat)"
proof -
  have m: "(0xFF :: nat) = mask 8" by (simp add: mask_eq_exp_minus_1)
  have b: "take_bit 8 b = b" using assms by (simp add: take_bit_nat_eq_self)
  have "(b OR push_bit 16 v) AND 0xFF = take_bit 8 (b OR push_bit 16 v)" unfolding m by (simp add: take_bit_eq_mask)
  also have "\<dots> = take_bit 8 b OR take_bit 8 (push_bit 16 v)" by simp
  also have "take_bit 8 (push_bit 16 v) = 0" by (simp add: take_bit_push_bit)
  finally show "(b OR push_bit 16 v) AND 0xFF = b" using b by simp
  have "drop_bit 16 b = 0" using assms by (simp add: drop_bit_eq_div)
  moreover have "drop_bit 16 (push_bit 16 v) = v" by (simp add: drop_bit_eq_div push_bit_eq_mult)
  ultimately show "drop_bit 16 (b OR push_bit 16 v) = v" by simp
qed

lemma drop_push: "drop_bit 16 (push_bit 16 v) = (v :: nat)"
  by (simp add: drop_bit_eq_div push_bit_eq_mult)

lemma small_drop: "b < 256 \<Longrightarrow> drop_bit 16 b = (0 :: nat)"
  by (simp add: drop_bit_eq_div)

lemma huffmanEntry_drop:
  assumes "off \<le> length codes"
  shows "huffmanEntry codes (int off) i =
    map_option (\<lambda>e. Bits e OR push_bit 16 (Value e)) (go_index (drop off codes) (uint i))"
proof -
  have "go_slice codes (int off) (int (length codes)) = Some (drop off codes)" using assms by (simp add: go_slice_def)
  then show ?thesis
    by (cases "go_index (drop off codes) (uint i)") (simp_all add: huffmanEntry_def)
qed

lemma uint_mask_index: "uint (v AND huffmanTableMask :: u64) = int (unat v mod 256)"
  by (simp only: unat_table_mask [symmetric] uint_nat)

lemma second_index:
  assumes "i < 256" and "x < 2 ^ 16" and "n \<le> 7"
  shows "uint (of_nat i + of_nat x + (drop_bit 8 v AND bitMask n) :: u64) = int (i + x + (unat v div 256) mod 2 ^ n)"
proof -
  define y where "y = (unat v div 256) mod 2 ^ n"
  have "y < 2 ^ n" by (simp add: y_def)
  also have "\<dots> \<le> (2::nat) ^ 7" using assms(3) by (intro power_increasing) auto
  finally have y: "y < 2 ^ 7" .
  have "(drop_bit 8 v AND bitMask n :: u64) = of_nat y"
    using assms(3) by (simp add: y_def flip: unat_sub_bits)
  then have "(of_nat i + of_nat x + (drop_bit 8 v AND bitMask n) :: u64) = of_nat (i + x + y)" by simp
  moreover have "i + x + y < 2 ^ 64" using assms(1,2) y by simp
  then have "unat (of_nat (i + x + y) :: u64) = i + x + y" by (rule unat_of_nat64)
  ultimately show ?thesis by (simp add: uint_nat y_def)
qed

text \<open>The lookup by raw entries that the fast paths share, and its meaning.\<close>

definition symbol_entry :: "HuffmanCode list \<Rightarrow> int \<Rightarrow> u64 \<Rightarrow> (nat \<times> nat) option" where
  "symbol_entry codes offset v = do {
     raw \<leftarrow> huffmanEntry codes offset (v AND huffmanTableMask);
     if (raw AND 0xFF) > huffmanTableBits then do {
       raw2 \<leftarrow> huffmanEntry codes offset ((v AND huffmanTableMask) + of_nat (drop_bit 16 raw) +
         (drop_bit huffmanTableBits v AND bitMask ((raw AND 0xFF) - huffmanTableBits)));
       Some (drop_bit 16 raw2, huffmanTableBits + (raw2 AND 0xFF)) }
     else Some (drop_bit 16 raw, raw AND 0xFF) }"

lemma symbol_entry_look:
  assumes ok: "table_ok (drop off codes)" and off: "off \<le> length codes"
    and l: "sym_look (drop off codes) (unat v mod 2 ^ 15) = Some (x, d)" and d: "d \<le> 15"
  shows "symbol_entry codes (int off) v = Some (x, d)"
proof -
  define i where "i = unat v mod 256"
  have i: "i < 256" by (simp add: i_def)
  let ?t = "drop off codes"
  note e = table_entry [OF ok i]
  have mi: "(v AND huffmanTableMask) = of_nat i" unfolding i_def unat_table_mask [symmetric] by simp
  have h: "huffmanEntry codes (int off) (of_nat i) = Some (Bits (?t ! i) OR push_bit 16 (Value (?t ! i)))"
    using e(1) uint_mask_index [of v] unfolding mi i_def [symmetric] by (simp add: huffmanEntry_drop [OF off])
  have b: "Bits (?t ! i) < 256" using e(2) by simp
  note sl = l [unfolded sym_look_def mod_mod_256, folded i_def, unfolded e(1) Option.bind.bind_lunit]
  note p = pack_entry_fields [OF b, of "Value (?t ! i)"]
  have t8: "huffmanTableBits = 8" by (simp add: huffmanTableBits_def)
  show ?thesis
  proof (cases "Bits (?t ! i) \<le> 8")
    case True
    then show ?thesis using sl unfolding symbol_entry_def mi h Option.bind.bind_lunit p t8 by simp
  next
    case False
    define n where "n = Bits (?t ! i) - 8"
    have n: "n \<le> 7" "Bits (?t ! i) = n + 8" using e(2) False by (auto simp: n_def)
    have sl2: "(do { e2 \<leftarrow> go_index ?t (int (i + Value (?t ! i) + unat v div 256 mod 2 ^ n)); Some (Value e2, 8 + Bits e2) }) = Some (x, d)"
      using sl False unfolding n_def [symmetric] mod_div_mod [OF n(1)] by simp
    then obtain e2 where e2: "go_index ?t (int (i + Value (?t ! i) + unat v div 256 mod 2 ^ n)) = Some e2"
      "x = Value e2" "d = 8 + Bits e2" by (auto split: bind_splits)
    have b2: "Bits e2 < 256" using e2(3) d by simp
    have h2: "huffmanEntry codes (int off) (of_nat i + of_nat (Value (?t ! i)) + (drop_bit 8 v AND bitMask n)) =
        Some (Bits e2 OR push_bit 16 (Value e2))"
      using e2(1) by (simp add: huffmanEntry_drop [OF off] second_index [OF i e(3) n(1)])
    have g: "8 < n + 8" using False n(2) by auto
    show ?thesis using e2(2,3) unfolding symbol_entry_def mi h Option.bind.bind_lunit p t8 unfolding n(2) if_P [OF g]
      by (simp add: h2 pack_entry_fields [OF b2] drop_push small_drop [OF b2])
  qed
qed

text \<open>One symbol of a batch is the lookup in the table at \<open>off\<close>.\<close>

lemma batch_symbol_entry:
  "batch_symbol codes offset (v, bp, pos) =
     map_option (\<lambda>(x, d). (x, drop_bit (d mod 64) v, usub bp d, pos)) (symbol_entry codes offset v)"
  by (auto simp: batch_symbol_def symbol_entry_def Let_def split: bind_splits)

lemma batch_symbol_look:
  assumes "table_ok (drop off codes)" and "off \<le> length codes"
    and "sym_look (drop off codes) (unat v mod 2 ^ 15) = Some (x, d)" and "d \<le> 15"
  shows "batch_symbol codes (int off) (v, bp, pos) = Some (x, drop_bit d v, usub bp d, pos)"
  using symbol_entry_look [OF assms] assms(4) by (simp add: batch_symbol_entry)

lemma put_acc_simps [simp]:
  "br_val (put_acc (v, bp, pos) br) = v" "br_bitPos (put_acc (v, bp, pos) br) = bp" "br_pos (put_acc (v, bp, pos) br) = pos"
  "br_input (put_acc a br) = br_input br" "br_inputLen (put_acc a br) = br_inputLen br" "br_fastEnd (put_acc a br) = br_fastEnd br"
  "put_acc (acc_of br) br = br" "fst (snd (acc_of br)) = br_bitPos br" "put_acc a (put_acc b br) = put_acc a br"
  by (simp_all add: put_acc_def acc_of_def)

lemma dropBits_put: "dropBits d (put_acc (v, bp, pos) br) = put_acc (drop_bit (d mod 64) v, usub bp d, pos) br"
  by (simp add: dropBits_def put_acc_def)

lemma bits_room:
  assumes "br_inv br"
  shows "length (br_bits br) = br_bitPos br + 8 * nat (availIn br)"
  using br_invD(1,2) [OF assms] by (simp add: br_bits_def availIn_def nat_diff_distrib)

text \<open>The refill of a batch leaves the stream alone and provides the 15 bits of the longest symbol.\<close>

lemma batch_refill_ok:
  assumes inv: "br_inv (put_acc a br)" and bp: "fst (snd a) < 64" and room: "79 \<le> length (br_bits (put_acc a br))"
  obtains a' where "batch_refill (br_input br) a = Some a'" "br_inv (put_acc a' br)"
    "br_bits (put_acc a' br) = br_bits (put_acc a br)" "15 \<le> fst (snd a')" "fst (snd a') < 64"
proof -
  obtain v b pos where a: "a = (v, b, pos)" by (cases a)
  show thesis
  proof (cases "b < 15")
    case False
    then show thesis using that [of a] assms a by (simp add: batch_refill_def HuffmanMaxCodeLength_def)
  next
    case True
    let ?br = "put_acc a br"
    have "65 \<le> 8 * nat (availIn ?br)" using bits_room [OF inv] room True a by simp
    then have r: "nat (br_pos ?br) + 8 \<le> length (br_input ?br)"
      using br_invD(1,2) [OF inv] by (simp add: availIn_def)
    obtain v' b' br' where f: "refill64 (br_val ?br) (br_bitPos ?br) ?br = Some (v', b', br')"
      "br_inv (br'\<lparr>br_val := v', br_bitPos := b'\<rparr>)" "br_bits (br'\<lparr>br_val := v', br_bitPos := b'\<rparr>) = br_bits ?br" "56 \<le> b'" "b' < 64"
      by (rule refill64_ok [OF inv _ r]) (use bp a in simp_all)
    have e: "br'\<lparr>br_val := v', br_bitPos := b'\<rparr> = put_acc (v', b', br_pos br') br"
      using f(1) by (auto simp: refill64_def put_acc_def split: bind_splits)
    have "batch_refill (br_input br) a = Some (v', b', br_pos br')"
      using f(1) True a by (auto simp: refill64_def batch_refill_def HuffmanMaxCodeLength_def split: bind_splits)
    then show thesis using that f e by simp
  qed
qed

text \<open>One round: refill, then a symbol.\<close>

lemma batch_round_ok:
  assumes ok: "table_ok (drop off codes)" and off: "off \<le> length codes"
    and inv: "br_inv (put_acc a br)" and bp: "fst (snd a) < 64" and room: "79 \<le> length (br_bits (put_acc a br))"
  obtains x d a1 a2 where "sym_look (drop off codes) (window (br_bits (put_acc a br))) = Some (x, d)" "d \<le> 15"
    "batch_refill (br_input br) a = Some a1" "batch_symbol codes (int off) a1 = Some (x, a2)" "br_inv (put_acc a2 br)"
    "br_bits (put_acc a2 br) = drop d (br_bits (put_acc a br))" "fst (snd a2) < 64"
proof -
  obtain a1 where a1: "batch_refill (br_input br) a = Some a1" "br_inv (put_acc a1 br)"
    "br_bits (put_acc a1 br) = br_bits (put_acc a br)" "15 \<le> fst (snd a1)" "fst (snd a1) < 64"
    by (rule batch_refill_ok [OF inv bp room])
  obtain v b pos where v: "a1 = (v, b, pos)" by (cases a1)
  obtain x d where l: "sym_look (drop off codes) (window (br_bits (put_acc a br))) = Some (x, d)" "d \<le> 15"
    using table_okD [OF ok window_less] by metis
  have "unat v mod 2 ^ 15 = window (br_bits (put_acc a br))"
    using window_unat [of "put_acc a1 br"] a1(3,4) v by simp
  then have s: "batch_symbol codes (int off) a1 = Some (x, drop_bit d v, usub b d, pos)"
    using batch_symbol_look [OF ok off _ l(2), of v x b pos] l(1) v by simp
  have dr: "put_acc (drop_bit d v, usub b d, pos) br = dropBits d (put_acc a1 br)"
    using l(2) by (simp add: dropBits_put v)
  have "usub b d = b - d" using v a1(4,5) l(2) by simp
  then show thesis
    using that [OF l a1(1) s] dropBits_ok [OF a1(2), of d] a1 v l(2) unfolding dr by simp
qed

subsection \<open>Batches of literals\<close>

text \<open>\<open>n\<close> calls of the resumable reader, and what they read. The table of a symbol depends on a context \<open>c\<close>, which the
  symbol changes; for literals it is the last two bytes.\<close>

fun safe_symbols :: "('c \<Rightarrow> HuffmanCode list) \<Rightarrow> (nat \<Rightarrow> 'c \<Rightarrow> 'c) \<Rightarrow> nat \<Rightarrow> 'c \<Rightarrow> bitReader
    \<Rightarrow> (nat list option \<times> 'c \<times> bitReader) option" where
  "safe_symbols tree step 0 c br = Some (Some [], c, br)"
| "safe_symbols tree step (Suc n) c br = do {
     (x, br) \<leftarrow> safeReadSymbol (tree c) br;
     case x of None \<Rightarrow> Some (None, c, br) | Some x \<Rightarrow> do {
       (xs, c, br) \<leftarrow> safe_symbols tree step n (step x c) br;
       Some (map_option (Cons x) xs, c, br) } }"

fun look_symbols :: "('c \<Rightarrow> HuffmanCode list) \<Rightarrow> (nat \<Rightarrow> 'c \<Rightarrow> 'c) \<Rightarrow> nat \<Rightarrow> 'c \<Rightarrow> bool list \<Rightarrow> nat list \<times> 'c \<times> bool list" where
  "look_symbols tree step 0 c bs = ([], c, bs)"
| "look_symbols tree step (Suc n) c bs = (let (x, d) = the (sym_look (tree c) (window bs));
     (xs, c, bs) = look_symbols tree step n (step x c) (drop d bs) in (x # xs, c, bs))"

abbreviation (input) ctx_ok :: "('c \<Rightarrow> HuffmanCode list) \<Rightarrow> (nat \<Rightarrow> 'c \<Rightarrow> 'c) \<Rightarrow> ('c \<Rightarrow> bool) \<Rightarrow> bool" where
  "ctx_ok tree step good \<equiv> (\<forall>c. good c \<longrightarrow> table_ok (tree c) \<and> (\<forall>x w d. sym_look (tree c) w = Some (x, d) \<longrightarrow> w < 2 ^ 15 \<longrightarrow> good (step x c)))"

lemma look_symbols_Suc:
  assumes "sym_look (tree c) (window bs) = Some (x, d)"
  shows "look_symbols tree step (Suc n) c bs =
    (case look_symbols tree step n (step x c) (drop d bs) of (xs, c, bs) \<Rightarrow> (x # xs, c, bs))"
  using assms by simp

lemma safe_symbols_look:
  assumes ctx: "ctx_ok tree step good" and "good c" and "br_inv br" and "15 * n \<le> length (br_bits br)"
    and "look_symbols tree step n c (br_bits br) = (xs, c', bs)"
  shows "\<exists>br'. safe_symbols tree step n c br = Some (Some xs, c', br') \<and> br_inv br' \<and> br_bits br' = bs"
  using assms(2-)
proof (induction n arbitrary: c br xs)
  case 0
  then show ?case by simp
next
  case (Suc n)
  have t: "table_ok (tree c)" using ctx Suc.prems(1) by blast
  obtain x d where l: "sym_look (tree c) (window (br_bits br)) = Some (x, d)" "d \<le> 15"
    using table_okD [OF t window_less] by metis
  have g: "good (step x c)" using ctx Suc.prems(1) l(1) window_less by blast
  obtain r br1 where r: "safeReadSymbol (tree c) br = Some (r, br1)" "br_inv br1"
    "if d \<le> length (br_bits br) then r = Some x \<and> br_bits br1 = drop d (br_bits br) else r = None \<and> br_bits br1 = br_bits br"
    using safeReadSymbol_ok [OF t Suc.prems(2) l(1)] by blast
  have b1: "r = Some x" "br_bits br1 = drop d (br_bits br)" using r(3) l(2) Suc.prems(3) by auto
  have len: "15 * n \<le> length (br_bits br1)" using Suc.prems(3) b1(2) l(2) by simp
  obtain ys where ys: "look_symbols tree step n (step x c) (br_bits br1) = (ys, c', bs)" "xs = x # ys"
    using Suc.prems(4) unfolding look_symbols_Suc [where tree = tree and c = c, OF l(1)] b1(2) by (auto split: prod.splits)
  obtain br2 where "safe_symbols tree step n (step x c) br1 = Some (Some ys, c', br2)" "br_inv br2" "br_bits br2 = bs"
    using Suc.IH [OF g r(2) len ys(1)] by blast
  then show ?case using r(1) b1(1) ys(2) by simp
qed

lemma look_symbols_props:
  assumes ctx: "ctx_ok tree step good" and "good c" and "look_symbols tree step n c bs = (xs, c', bs')"
  shows "length xs = n \<and> good c' \<and> length bs \<le> length bs' + 15 * n"
  using assms(2,3)
proof (induction n arbitrary: c bs xs)
  case 0
  then show ?case by simp
next
  case (Suc n)
  have t: "table_ok (tree c)" using ctx Suc.prems(1) by blast
  obtain x d where l: "sym_look (tree c) (window bs) = Some (x, d)" "d \<le> 15"
    using table_okD [OF t window_less] by metis
  have g: "good (step x c)" using ctx Suc.prems(1) l(1) window_less by blast
  obtain ys where ys: "look_symbols tree step n (step x c) (drop d bs) = (ys, c', bs')" "xs = x # ys"
    using Suc.prems(2) unfolding look_symbols_Suc [where tree = tree and c = c, OF l(1)] by (auto split: prod.splits)
  show ?case using Suc.IH [OF g ys(1)] ys(2) l(2) by auto
qed

lemma overwrite_step: "j < length dst \<Longrightarrow> overwrite (dst[j := y]) (Suc j) ys = overwrite dst j (y # ys)"
  by (simp add: overwrite_def take_Suc_conv_app_nth)

text \<open>The two batch loops read what \<open>look_symbols\<close> says.\<close>

lemma batch_loop_ok:
  assumes "table_ok table" and "br_inv (put_acc a br)" and "fst (snd a) < 64"
    and "15 * n + 64 \<le> length (br_bits (put_acc a br))" and "j + n \<le> length dst"
    and "look_symbols (\<lambda>_. table) (\<lambda>_ c. c) n () (br_bits (put_acc a br)) = (xs, c', bs)"
  shows "\<exists>a'. batch_loop (br_input br) table n (int j) dst a = Some (overwrite dst j (map of_nat xs), a') \<and>
    br_inv (put_acc a' br) \<and> br_bits (put_acc a' br) = bs \<and> fst (snd a') < 64"
  using assms(2-)
proof (induction n arbitrary: a j dst xs)
  case 0
  then show ?case by simp
next
  case (Suc n)
  have room: "79 \<le> length (br_bits (put_acc a br))" using Suc.prems(3) by simp
  obtain x d a1 a2 where r: "sym_look table (window (br_bits (put_acc a br))) = Some (x, d)" "d \<le> 15"
    "batch_refill (br_input br) a = Some a1" "batch_symbol table 0 a1 = Some (x, a2)" "br_inv (put_acc a2 br)"
    "br_bits (put_acc a2 br) = drop d (br_bits (put_acc a br))" "fst (snd a2) < 64"
    by (rule batch_round_ok [of 0 table a br]) (use assms(1) Suc.prems(1,2) room in simp_all)
  have u: "go_update dst (int j) (of_nat x) = Some (dst[j := of_nat x])" using Suc.prems(4) by (simp add: go_update_def)
  have len: "15 * n + 64 \<le> length (br_bits (put_acc a2 br))" using r(2,6) Suc.prems(3) by simp
  obtain ys where ys: "look_symbols (\<lambda>_. table) (\<lambda>_ c. c) n () (br_bits (put_acc a2 br)) = (ys, c', bs)" "xs = x # ys"
    using Suc.prems(5) unfolding look_symbols_Suc [where tree = "\<lambda>_. table" and c = "()", OF r(1)] r(6)
    by (auto split: prod.splits)
  obtain a' where a': "batch_loop (br_input br) table n (int (Suc j)) (dst[j := of_nat x]) a2 =
      Some (overwrite (dst[j := of_nat x]) (Suc j) (map of_nat ys), a')"
    "br_inv (put_acc a' br)" "br_bits (put_acc a' br) = bs" "fst (snd a') < 64"
    using Suc.IH [OF r(5,7) len _ ys(1), of "Suc j" "dst[j := of_nat x]"] Suc.prems(4) by auto
  then show ?case using r(3,4) u ys(2) Suc.prems(4) overwrite_step [of j dst "of_nat x" "map of_nat ys"]
    by (simp add: add.commute)
qed

text \<open>The table of a literal: the context of the last two bytes picks an offset into the codes of the group.\<close>

definition literal_tree :: "HuffmanCode list \<Rightarrow> int list \<Rightarrow> byte list \<Rightarrow> nat \<times> nat \<Rightarrow> HuffmanCode list" where
  "literal_tree codes offsets lookup = (\<lambda>(c1, c2). drop (nat (offsets ! unat (lookup ! c1 OR lookup ! (256 + c2)))) codes)"

definition shift_literal :: "nat \<Rightarrow> nat \<times> nat \<Rightarrow> nat \<times> nat" where
  "shift_literal x = (\<lambda>(c1, c2). (x, c1))"

definition literals_ok :: "HuffmanCode list \<Rightarrow> int list \<Rightarrow> byte list \<Rightarrow> bool" where
  "literals_ok codes offsets lookup \<longleftrightarrow> 512 \<le> length lookup \<and> (\<forall>c1<256. \<forall>c2<256.
     unat (lookup ! c1 OR lookup ! (256 + c2)) < length offsets) \<and>
     (\<forall>off \<in> set offsets. 0 \<le> off \<and> off \<le> int (length codes) \<and> table_ok (drop (nat off) codes) \<and>
        symbols_below 256 (drop (nat off) codes))"

abbreviation (input) byte_pair :: "nat \<times> nat \<Rightarrow> bool" where
  "byte_pair \<equiv> \<lambda>(c1, c2). c1 < 256 \<and> c2 < 256"

lemma literals_okD:
  assumes "literals_ok codes offsets lookup" and "c1 < 256" and "c2 < 256"
  obtains off where "go_index lookup (int c1) = Some (lookup ! c1)" "go_index lookup (int (uadd 256 c2)) = Some (lookup ! (256 + c2))"
    "go_index offsets (int (unat (lookup ! c1) OR unat (lookup ! (256 + c2)))) = Some (int off)" "off \<le> length codes"
    "table_ok (drop off codes)" "symbols_below 256 (drop off codes)" "literal_tree codes offsets lookup (c1, c2) = drop off codes"
proof -
  let ?i = "unat (lookup ! c1 OR lookup ! (256 + c2))"
  have i: "?i < length offsets" using assms by (simp add: literals_ok_def)
  then have m: "offsets ! ?i \<in> set offsets" by simp
  have o: "0 \<le> offsets ! ?i" "offsets ! ?i \<le> int (length codes)" "table_ok (drop (nat (offsets ! ?i)) codes)"
    "symbols_below 256 (drop (nat (offsets ! ?i)) codes)"
    using assms(1) m unfolding literals_ok_def by blast+
  have u: "uadd 256 c2 = 256 + c2" using assms(3) by simp
  have l: "512 \<le> length lookup" using assms(1) by (simp add: literals_ok_def)
  have e: "unat (lookup ! c1) OR unat (lookup ! (256 + c2)) = ?i" by (simp only: unsigned_or_eq)
  have g: "go_index offsets (int ?i) = Some (offsets ! ?i)" using i by (simp only: go_index_Some)
  have g2: "go_index lookup (int c1) = Some (lookup ! c1)" "go_index lookup (int (256 + c2)) = Some (lookup ! (256 + c2))"
    using l assms(2,3) by (simp_all only: go_index_Some) simp_all
  show thesis
    by (rule that [of "nat (offsets ! ?i)"]) (unfold u e g g2, use o(1,2) in simp_all, use o(3,4) in \<open>simp_all add: literal_tree_def\<close>)
qed

lemma literals_ctx_ok:
  assumes "literals_ok codes offsets lookup"
  shows "ctx_ok (literal_tree codes offsets lookup) shift_literal byte_pair"
proof (intro allI impI)
  fix c :: "nat \<times> nat" assume c: "case c of (c1, c2) \<Rightarrow> c1 < 256 \<and> c2 < 256"
  obtain c1 c2 where p: "c = (c1, c2)" "c1 < 256" "c2 < 256" using c by (cases c) auto
  obtain off where off: "table_ok (drop off codes)" "symbols_below 256 (drop off codes)"
    "literal_tree codes offsets lookup (c1, c2) = drop off codes"
    by (rule literals_okD [OF assms p(2,3)])
  show "table_ok (literal_tree codes offsets lookup c) \<and> (\<forall>x w d. sym_look (literal_tree codes offsets lookup c) w = Some (x, d) \<longrightarrow>
      w < 2 ^ 15 \<longrightarrow> (case shift_literal x c of (c1, c2) \<Rightarrow> c1 < 256 \<and> c2 < 256))"
    using off p unfolding symbols_below_def by (auto simp: shift_literal_def)
qed

lemma context_loop_ok:
  assumes ok: "literals_ok codes offsets lookup"
    and "c1 < 256" and "c2 < 256" and "br_inv (put_acc a br)" and "fst (snd a) < 64"
    and "15 * n + 64 \<le> length (br_bits (put_acc a br))" and "j + n \<le> length dst"
    and "look_symbols (literal_tree codes offsets lookup) shift_literal n (c1, c2) (br_bits (put_acc a br)) = (xs, (d1, d2), bs)"
  shows "\<exists>a'. context_loop (br_input br) codes offsets lookup n (int j) dst c1 c2 a =
      Some (overwrite dst j (map of_nat xs), d1, d2, a') \<and>
    br_inv (put_acc a' br) \<and> br_bits (put_acc a' br) = bs \<and> fst (snd a') < 64"
  using assms(2-)
proof (induction n arbitrary: c1 c2 a j dst xs)
  case 0
  then show ?case by simp
next
  case (Suc n)
  obtain off where off: "go_index lookup (int c1) = Some (lookup ! c1)" "go_index lookup (int (uadd 256 c2)) = Some (lookup ! (256 + c2))"
    "go_index offsets (int (unat (lookup ! c1) OR unat (lookup ! (256 + c2)))) = Some (int off)" "off \<le> length codes"
    "table_ok (drop off codes)" "symbols_below 256 (drop off codes)" "literal_tree codes offsets lookup (c1, c2) = drop off codes"
    by (rule literals_okD [OF ok Suc.prems(1,2)])
  have room: "79 \<le> length (br_bits (put_acc a br))" using Suc.prems(5) by simp
  obtain x d a1 a2 where r: "sym_look (drop off codes) (window (br_bits (put_acc a br))) = Some (x, d)" "d \<le> 15"
    "batch_refill (br_input br) a = Some a1" "batch_symbol codes (int off) a1 = Some (x, a2)" "br_inv (put_acc a2 br)"
    "br_bits (put_acc a2 br) = drop d (br_bits (put_acc a br))" "fst (snd a2) < 64"
    by (rule batch_round_ok [OF off(5,4) Suc.prems(3,4) room])
  have u: "go_update dst (int j) (of_nat x) = Some (dst[j := of_nat x])" using Suc.prems(6) by (simp add: go_update_def)
  have len: "15 * n + 64 \<le> length (br_bits (put_acc a2 br))" using r(2,6) Suc.prems(5) by simp
  have x: "x < 256" using off(6) r(1) window_less unfolding symbols_below_def by blast
  obtain ys where ys: "look_symbols (literal_tree codes offsets lookup) shift_literal n (x, c1) (br_bits (put_acc a2 br)) = (ys, (d1, d2), bs)"
      "xs = x # ys"
    using Suc.prems(7) r(1)
    unfolding look_symbols_Suc [where tree = "literal_tree codes offsets lookup" and c = "(c1, c2)", unfolded off(7), OF r(1)] r(6)
    by (auto simp: shift_literal_def split: prod.splits)
  obtain a' where a': "context_loop (br_input br) codes offsets lookup n (int (Suc j)) (dst[j := of_nat x]) x c1 a2 =
      Some (overwrite (dst[j := of_nat x]) (Suc j) (map of_nat ys), d1, d2, a')"
    "br_inv (put_acc a' br)" "br_bits (put_acc a' br) = bs" "fst (snd a') < 64"
    using Suc.IH [OF x Suc.prems(1) r(5,7) len _ ys(1), of "Suc j" "dst[j := of_nat x]"] Suc.prems(6) by auto
  have "int j + 1 = int (Suc j)" by simp
  then have "context_loop (br_input br) codes offsets lookup (Suc n) (int j) dst c1 c2 a =
      context_loop (br_input br) codes offsets lookup n (int (Suc j)) (dst[j := of_nat x]) x c1 a2"
    by (simp only: context_loop.simps r(3,4) off(1-3) u Option.bind.bind_lunit prod.case)
  then show ?case using a' ys(2) Suc.prems(6) overwrite_step [of j dst "of_nat x" "map of_nat ys"] by simp
qed

lemma length_put_dst: "length xs = n \<Longrightarrow> n \<le> length dst \<Longrightarrow> overwrite dst 0 xs = xs @ drop n dst"
  by (simp add: overwrite_def)

lemma fast_bits:
  assumes "br_inv br" and "2 * int n + 8 \<le> availIn br"
  shows "15 * n + 64 \<le> length (br_bits br)"
  using bits_room [OF assms(1)] assms(2) by linarith

text \<open>The literal batch of a trivial block: what \<open>n\<close> calls of the resumable reader read.\<close>

lemma decodeLiteralsBatch_look:
  assumes "table_ok table" and "br_inv br" and "br_bitPos br < 64" and "2 * int n + 8 \<le> availIn br" and "n \<le> length dst"
    and l: "look_symbols (\<lambda>_. table) (\<lambda>_ c. c) n () (br_bits br) = (xs, c', bs)"
  shows "\<exists>br'. decodeLiteralsBatch dst n table br = Some (map of_nat xs @ drop n dst, br') \<and> br_inv br' \<and> br_bits br' = bs \<and>
    br_bitPos br' < 64 \<and> br_input br' = br_input br \<and> br_inputLen br' = br_inputLen br \<and> br_fastEnd br' = br_fastEnd br"
proof -
  have xs: "length xs = n" using look_symbols_props [where tree = "\<lambda>_. table" and good = "\<lambda>_. True", OF _ _ l] assms(1) by blast
  obtain a' where "batch_loop (br_input br) table n (int 0) dst (acc_of br) = Some (overwrite dst 0 (map of_nat xs), a')"
    "br_inv (put_acc a' br)" "br_bits (put_acc a' br) = bs" "fst (snd a') < 64"
    using batch_loop_ok [of table "acc_of br" br n 0 dst xs c' bs] assms fast_bits [OF assms(2,4)] by auto
  then show ?thesis using assms(5) xs by (cases a') (simp add: decodeLiteralsBatch_def length_put_dst [of _ n])
qed

lemma decodeLiteralsContextBatch_look:
  assumes "literals_ok (sl_list (g_codes (ds_literalHGroup s))) (ds_literalCodesOffsets s) lookup"
    and "br_inv br" and "br_bitPos br < 64" and "2 * int n + 8 \<le> availIn br" and "n \<le> length dst"
    and l: "look_symbols (literal_tree (sl_list (g_codes (ds_literalHGroup s))) (ds_literalCodesOffsets s) lookup) shift_literal n
      (unat p1, unat p2) (br_bits br) = (xs, (d1, d2), bs)"
  shows "\<exists>br'. decodeLiteralsContextBatch dst n s lookup p1 p2 br = Some (map of_nat xs @ drop n dst, of_nat d1, of_nat d2, br') \<and>
    br_inv br' \<and> br_bits br' = bs \<and>
    br_bitPos br' < 64 \<and> br_input br' = br_input br \<and> br_inputLen br' = br_inputLen br \<and> br_fastEnd br' = br_fastEnd br"
proof -
  have pair: "unat p1 < 256" "unat p2 < 256" using unsigned_less [of p1] unsigned_less [of p2] by simp_all
  have xs: "length xs = n" using look_symbols_props [OF literals_ctx_ok [OF assms(1)] _ l] pair by simp
  obtain a' where "context_loop (br_input br) (sl_list (g_codes (ds_literalHGroup s))) (ds_literalCodesOffsets s) lookup n (int 0) dst
      (unat p1) (unat p2) (acc_of br) = Some (overwrite dst 0 (map of_nat xs), d1, d2, a')"
    "br_inv (put_acc a' br)" "br_bits (put_acc a' br) = bs" "fst (snd a') < 64"
    using context_loop_ok [OF assms(1) pair, of "acc_of br" br n 0 dst xs d1 d2 bs] assms fast_bits [OF assms(2,4)]
    by auto
  then show ?thesis using assms(5) xs by (cases a') (simp add: decodeLiteralsContextBatch_def length_put_dst [of _ n])
qed

text \<open>C17. Decoding a batch of literals with context is the same as decoding them one by one. When the input has the slack
  the command loop checks for, \<^verbatim>\<open>decodeLiteralsContextBatch\<close>, which keeps the bit reader in local variables,
  refills eight bytes at a time and never asks whether there is input, writes exactly the bytes that \<open>n\<close> successful calls of
  the resumable \<^verbatim>\<open>safeReadSymbol\<close> read with the tables the last two bytes select, returns the last two bytes and
  leaves the same bits to be read; it writes nothing past the \<open>n\<close> bytes.
\<close>

theorem decodeLiteralsContextBatch_safe:
  assumes "literals_ok (sl_list (g_codes (ds_literalHGroup s))) (ds_literalCodesOffsets s) lookup"
    and "br_inv br" and "br_bitPos br < 64" and "2 * int n + 8 \<le> availIn br" and "n \<le> length dst"
  shows "\<exists>xs d1 d2 br1 br2.
    decodeLiteralsContextBatch dst n s lookup p1 p2 br = Some (map of_nat xs @ drop n dst, of_nat d1, of_nat d2, br1) \<and>
    safe_symbols (literal_tree (sl_list (g_codes (ds_literalHGroup s))) (ds_literalCodesOffsets s) lookup) shift_literal n
      (unat p1, unat p2) br = Some (Some xs, (d1, d2), br2) \<and>
    length xs = n \<and> br_inv br1 \<and> br_inv br2 \<and> br_bits br1 = br_bits br2"
proof -
  let ?tree = "literal_tree (sl_list (g_codes (ds_literalHGroup s))) (ds_literalCodesOffsets s) lookup"
  obtain xs d1 d2 bs where l: "look_symbols ?tree shift_literal n (unat p1, unat p2) (br_bits br) = (xs, (d1, d2), bs)"
    by (metis prod.exhaust)
  have pair: "case (unat p1, unat p2) of (c1, c2) \<Rightarrow> c1 < 256 \<and> c2 < 256"
    using unsigned_less [of p1] unsigned_less [of p2] by simp
  have room: "15 * n \<le> length (br_bits br)" using fast_bits [OF assms(2,4)] by simp
  show ?thesis
    using decodeLiteralsContextBatch_look [OF assms l] safe_symbols_look [OF literals_ctx_ok [OF assms(1)] pair assms(2) room l]
      look_symbols_props [OF literals_ctx_ok [OF assms(1)] pair l] by fast
qed

text \<open>C18. The same for literals of one table: \<^verbatim>\<open>decodeLiteralsBatch\<close> writes the bytes that \<open>n\<close> calls of
  \<^verbatim>\<open>safeReadSymbol\<close> with this table read, and nothing more, and leaves the same bits to be read.
\<close>

theorem decodeLiteralsBatch_safe:
  assumes "table_ok table" and "br_inv br" and "br_bitPos br < 64" and "2 * int n + 8 \<le> availIn br" and "n \<le> length dst"
  shows "\<exists>xs br1 br2. decodeLiteralsBatch dst n table br = Some (map of_nat xs @ drop n dst, br1) \<and>
    safe_symbols (\<lambda>_. table) (\<lambda>_ c. c) n () br = Some (Some xs, (), br2) \<and>
    length xs = n \<and> br_inv br1 \<and> br_inv br2 \<and> br_bits br1 = br_bits br2"
proof -
  have ctx: "ctx_ok (\<lambda>_ :: unit. table) (\<lambda>_ c. c) (\<lambda>_. True)" using assms(1) by blast
  obtain xs c bs where l: "look_symbols (\<lambda>_. table) (\<lambda>_ c. c) n () (br_bits br) = (xs, c, bs)" by (metis prod.exhaust)
  have room: "15 * n \<le> length (br_bits br)" using fast_bits [OF assms(2,4)] by simp
  show ?thesis
    using decodeLiteralsBatch_look [OF assms l] safe_symbols_look [OF ctx _ assms(2) room l] look_symbols_props [OF ctx _ l] by auto
qed

text \<open>A table with the one-bit codes of 0 and 1, for the witnesses.\<close>

definition bit_table :: "HuffmanCode list" where
  "bit_table = map (\<lambda>i. \<lparr>Bits = 1, Value = i mod 2\<rparr>) [0..<256]"

lemma bit_table_ok: "table_ok bit_table" "symbols_below 256 bit_table" "length bit_table = 256"
proof -
  have l: "sym_look bit_table w = Some (w mod 2, 1)" for w
  proof -
    have "w mod 256 mod 2 = w mod 2" using mod_mod_cancel [of 2 256 w] by simp
    moreover have "go_index bit_table (int (w mod 256)) = Some \<lparr>Bits = 1, Value = w mod 256 mod 2\<rparr>"
      by (simp only: go_index_Some) (simp add: bit_table_def)
    ultimately show ?thesis unfolding sym_look_def by (simp only: Option.bind.bind_lunit) simp
  qed
  show n: "length bit_table = 256" by (simp add: bit_table_def)
  have e: "Bits (bit_table ! i) = 1" "Value (bit_table ! i) < 2 ^ 16" if "i < 256" for i
    using that by (simp_all add: bit_table_def)
  show "table_ok bit_table" using e by (auto simp: table_ok_def l n HuffmanMaxCodeLength_def)
  show "symbols_below 256 bit_table" unfolding symbols_below_def l by auto
qed

theorem decodeLiteralsContextBatch_safe_witness:
  "\<exists>s lookup xs d1 d2 br1 br2.
    decodeLiteralsContextBatch [7, 7, 7] 2 s lookup 1 2 (setInput (replicate 16 0x55) zero_br) =
      Some (map of_nat xs @ [7], of_nat d1, of_nat d2, br1) \<and>
    safe_symbols (literal_tree (sl_list (g_codes (ds_literalHGroup s))) (ds_literalCodesOffsets s) lookup) shift_literal 2
      (unat (1 :: byte), unat (2 :: byte)) (setInput (replicate 16 0x55) zero_br) = Some (Some xs, (d1, d2), br2) \<and>
    length xs = 2 \<and> br_inv br1 \<and> br_inv br2 \<and> br_bits br1 = br_bits br2"
proof -
  define s where "s = zero_state\<lparr>ds_literalHGroup := (ds_literalHGroup zero_state)\<lparr>g_codes := \<lparr>sl_data = bit_table, sl_len = 256\<rparr>\<rparr>,
    ds_literalCodesOffsets := replicate 64 0\<rparr>"
  have f: "sl_list (g_codes (ds_literalHGroup s)) = bit_table" "ds_literalCodesOffsets s = replicate 64 0"
    by (simp_all add: s_def sl_list_def bit_table_ok)
  have ok: "literals_ok (sl_list (g_codes (ds_literalHGroup s))) (ds_literalCodesOffsets s) (replicate 512 0)"
    unfolding f literals_ok_def by (simp add: bit_table_ok)
  show ?thesis
    using decodeLiteralsContextBatch_safe [OF ok, of "setInput (replicate 16 0x55) zero_br" 2 "[7, 7, 7]" 1 2]
    by (simp add: setInput_def zero_br_def br_inv_def acc_ok_empty availIn_def) blast
qed

theorem decodeLiteralsBatch_safe_witness:
  "\<exists>xs br1 br2. decodeLiteralsBatch [7, 7, 7] 2 bit_table (setInput (replicate 16 0x55) zero_br) = Some (map of_nat xs @ [7], br1) \<and>
    safe_symbols (\<lambda>_. bit_table) (\<lambda>_ c. c) 2 () (setInput (replicate 16 0x55) zero_br) = Some (Some xs, (), br2) \<and>
    length xs = 2 \<and> br_inv br1 \<and> br_inv br2 \<and> br_bits br1 = br_bits br2"
  using decodeLiteralsBatch_safe [OF bit_table_ok(1), of "setInput (replicate 16 0x55) zero_br" 2 "[7, 7, 7]"]
  by (simp add: setInput_def zero_br_def br_inv_def acc_ok_empty availIn_def)

end
