(* ===== verification/Prefix_Loops.thy ===== *)
theory Prefix_Loops
  imports Prefix_Tokens Decode_Fast
begin

unbundle bit_operations_syntax

text \<open>
  The loops of \<^verbatim>\<open>readSymbolCodeLengths\<close> to the end of the symbols, and a complex prefix code as a whole.
\<close>

subsection \<open>Room for the symbols that are left\<close>

lemma rle_tok_extends:
  assumes "rle_tok size1 t r = Some r'" and "rle_ok r" and "tok_ok t"
  obtains new where "fst r' = fst r @ new" "new \<noteq> []"
proof -
  obtain c e where t: "t = (c, e)" by fastforce
  obtain ls prev n len where r: "r = (ls, prev, n, len)" using prod_cases4 by blast
  have n: "n = 0 \<or> 3 \<le> n" using assms(2) by (simp add: r rle_ok_def)
  show thesis
  proof (cases "c < 16")
    case True
    then show thesis using that [of "[c]"] assms(1) by (auto simp: t r rle_tok_def rle_single_def)
  next
    case False
    define v where "v = (if c = 16 then prev else 0)"
    define old where "old = (if len = v then n else 0)"
    define k :: nat where "k = (if c = 16 then 2 else 3)"
    define new where "new = (if old = 0 then 0 else (old - 2) * 2 ^ k) + e + 3"
    have "fst r' = ls @ replicate (new - old) v"
      using assms(1) False
      by (simp add: t r rle_tok_def rle_repeat_def Let_def v_def [symmetric] old_def [symmetric] k_def [symmetric] split: if_splits) (auto simp: new_def)
    moreover have "old < new" using n by (auto simp: new_def old_def k_def)
    ultimately show thesis using that [of "replicate (new - old) v"] by (simp add: r)
  qed
qed

lemma rle_tok_prefix:
  assumes "rle_tok size1 t r = Some r'"
  obtains new where "fst r' = fst r @ new"
  using assms by (cases t; cases r) (auto simp: rle_tok_def rle_single_def rle_repeat_def Let_def split: if_splits)

lemma rle_toks_prefix: "rle_toks size1 ts r = Some r' \<Longrightarrow> \<exists>new. fst r' = fst r @ new"
proof (induction ts arbitrary: r)
  case (Cons t ts)
  then obtain r1 where r1: "rle_tok size1 t r = Some r1" "rle_toks size1 ts r1 = Some r'" by (auto simp: rle_toks.simps split: bind_splits)
  obtain a where "fst r1 = fst r @ a" by (rule rle_tok_prefix [OF r1(1)])
  then show ?case using Cons.IH [OF r1(2)] by auto
qed simp

text \<open>The symbols end in a complete list of lengths without unused symbols at its end.\<close>

definition ends_full :: "rle \<Rightarrow> nat \<Rightarrow> bool" where
  "ends_full r size1 \<longleftrightarrow> kraft (fst r) = 2 ^ 15 \<and> length (fst r) \<le> size1 \<and> last (fst r) \<noteq> 0"

lemma symbols_go_on:
  assumes "run_rep r h" and "h_symbol h = length (fst r)" and "rle_toks size1 (t # ts) r = Some r'" and "tok_ok t" and "ends_full r' size1"
  shows "h_symbol h < size1" and "0 < h_space h"
proof -
  obtain r1 where r1: "rle_tok size1 t r = Some r1" "rle_toks size1 ts r1 = Some r'" using assms(3) by (auto simp: rle_toks.simps split: bind_splits)
  have ok: "rle_ok r" using assms(1) by (cases r) (simp add: run_rep_def)
  obtain a where a: "fst r1 = fst r @ a" "a \<noteq> []" by (rule rle_tok_extends [OF r1(1) ok assms(4)])
  obtain b where b: "fst r' = fst r1 @ b" using rle_toks_prefix [OF r1(2)] by blast
  define new where "new = a @ b"
  have new: "fst r' = fst r @ new" "new \<noteq> []" using a b by (simp_all add: new_def)
  show "h_symbol h < size1" using assms(2,5) new by (auto simp: ends_full_def length_greater_0_conv [symmetric] simp del: length_greater_0_conv)
  have "last new \<noteq> 0" using assms(5) new by (simp add: ends_full_def)
  then have "0 < kraft new" using new(2) kraft_snoc [of "butlast new" "last new"] by simp
  moreover have "kraft (fst r) + kraft new = 2 ^ 15" using assms(5) new(1) by (simp add: ends_full_def kraft_def)
  ultimately have "kraft (fst r) < 2 ^ 15" by simp
  moreover have "h_space h = usub 32768 (kraft (fst r))" using assms(1) by (cases r) (simp add: run_rep_def lists_rep_def)
  ultimately show "0 < h_space h" by (simp add: usub_exact)
qed

lemma symbols_at_end:
  assumes "run_rep r h" and "ends_full r size1"
  shows "h_space h = 0"
  using assms by (cases r) (simp add: run_rep_def lists_rep_def ends_full_def)


subsection \<open>The careful loop\<close>

lemma lengths_slow_tok:
  assumes "h_symbol h < size1" and "0 < h_space h" and "clen_reads (h_table h) bd sy [t]" and "tok_ok t" and "process_code size1 t h = Some h'"
    and "br_inv (ds_br s)" and "br_ready (ds_br s)" and "h = ds_headerArena s" and "br_bits (ds_br s) = fields_bits (tok_fields bd sy t) @ rest"
  shows "\<exists>br'. lengths_slow size1 s = lengths_slow size1 (s\<lparr>ds_br := br', ds_headerArena := h'\<rparr>) \<and> br_inv br' \<and> br_bits br' = rest \<and>
    br_fastEnd br' = br_fastEnd (ds_br s) \<and> br_inputLen br' = br_inputLen (ds_br s)"
  using assms(6-)
proof (induction "nat (br_inputLen (ds_br s) - br_pos (ds_br s))" arbitrary: s rule: less_induct)
  case less
  have go: "lengths_slow size1 s = Option.bind (lengths_step size1 s) (\<lambda>(stop, s).
      if stop then Some (ResultNeedsMoreInput, s) else lengths_slow size1 s)"
    by (subst lengths_slow.simps) (use assms(1,2) less.prems(3) in simp)
  show ?case
  proof (cases "checkInputAmount (ds_br s)")
    case True
    obtain br' where "lengths_step size1 s = Some (False, s\<lparr>ds_br := br', ds_headerArena := h'\<rparr>)" "br_inv br'" "br_bits br' = rest"
      "br_fastEnd br' = br_fastEnd (ds_br s)" "br_inputLen br' = br_inputLen (ds_br s)"
      using lengths_step_fast [OF less.prems(1,2) True less.prems(3) assms(3,4) less.prems(4) assms(5)] by blast
    then show ?thesis by (intro exI [of _ br']) (simp add: go)
  next
    case False
    obtain br' where b: "br_inv br'" "br_fastEnd br' = br_fastEnd (ds_br s)" "br_inputLen br' = br_inputLen (ds_br s)"
      "lengths_step size1 s = Some (False, s\<lparr>ds_br := br', ds_headerArena := h'\<rparr>) \<and> br_bits br' = rest \<or>
       lengths_step size1 s = Some (False, s\<lparr>ds_br := br'\<rparr>) \<and> br_bits br' = br_bits (ds_br s) \<and>
         br_pos br' = br_pos (ds_br s) + 1 \<and> br_pos (ds_br s) < br_inputLen (ds_br s)"
      using lengths_step_slow [OF less.prems(1) False less.prems(3) assms(3,4) less.prems(4) assms(5)] by blast
    from b(4) show ?thesis
    proof
      assume "lengths_step size1 s = Some (False, s\<lparr>ds_br := br', ds_headerArena := h'\<rparr>) \<and> br_bits br' = rest"
      then show ?thesis using b by (intro exI [of _ br']) (simp add: go)
    next
      assume p: "lengths_step size1 s = Some (False, s\<lparr>ds_br := br'\<rparr>) \<and> br_bits br' = br_bits (ds_br s) \<and>
         br_pos br' = br_pos (ds_br s) + 1 \<and> br_pos (ds_br s) < br_inputLen (ds_br s)"
      have "br_ready br'" using less.prems(2) b(2,3) by (simp add: br_ready_def)
      then have "\<exists>br''. lengths_slow size1 (s\<lparr>ds_br := br'\<rparr>) = lengths_slow size1 ((s\<lparr>ds_br := br'\<rparr>)\<lparr>ds_br := br'', ds_headerArena := h'\<rparr>) \<and>
          br_inv br'' \<and> br_bits br'' = rest \<and> br_fastEnd br'' = br_fastEnd (ds_br (s\<lparr>ds_br := br'\<rparr>)) \<and>
          br_inputLen br'' = br_inputLen (ds_br (s\<lparr>ds_br := br'\<rparr>))"
        using p b(1,3) less.prems(3,4) by (intro less.hyps) simp_all
      then show ?thesis using p b(2,3) by (simp add: go)
    qed
  qed
qed

lemma lengths_slow_ok:
  assumes "rle_toks size1 ts r = Some r'" and "run_rep r h" and "h_symbol h = length (fst r)" and "ends_full r' size1" and "size1 \<le> 704"
    and "\<forall>t\<in>set ts. tok_ok t" and "clen_reads (h_table h) bd sy ts" and "br_inv (ds_br s)" and "br_ready (ds_br s)" and "h = ds_headerArena s"
    and "br_bits (ds_br s) = fields_bits (concat (map (tok_fields bd sy) ts)) @ rest"
  shows "\<exists>br' h'. lengths_slow size1 s = Some (ResultSuccess, s\<lparr>ds_br := br', ds_headerArena := h'\<rparr>) \<and> br_inv br' \<and> br_bits br' = rest \<and>
    br_fastEnd br' = br_fastEnd (ds_br s) \<and> br_inputLen br' = br_inputLen (ds_br s) \<and>
    run_rep r' h' \<and> h_table h' = h_table h \<and> h_symbolLists h' = h_symbolLists h"
  using assms(1-3,6-)
proof (induction ts arbitrary: r h s)
  case Nil
  have "h_space h = 0" using symbols_at_end [of r h size1] Nil.prems(1,2) assms(4) by simp
  then have "lengths_slow size1 s = Some (ResultSuccess, s)" by (subst lengths_slow.simps) (simp add: Nil.prems(8) [symmetric])
  then show ?case using Nil.prems by (intro exI [of _ "ds_br s"] exI [of _ h]) simp
next
  case (Cons t ts)
  note go = symbols_go_on [OF Cons.prems(2,3,1) _ assms(4)]
  have ok: "tok_ok t" using Cons.prems(4) by simp
  obtain r1 where r1: "rle_tok size1 t r = Some r1" "rle_toks size1 ts r1 = Some r'" using Cons.prems(1) by (auto simp: rle_toks.simps split: bind_splits)
  have "length (fst r1) \<le> size1" using rle_toks_grows [OF r1(2)] assms(4) by (simp add: ends_full_def)
  then obtain h1 where h1: "process_code size1 t h = Some h1" "run_rep r1 h1" "h_symbol h1 = length (fst r1)"
    using process_code_ok [OF Cons.prems(2,3) assms(5) ok r1(1)] by blast
  note f = process_code_frame [OF h1(1)]
  note cr = clen_reads_Cons [OF Cons.prems(5)]
  have bits: "br_bits (ds_br s) = fields_bits (tok_fields bd sy t) @ fields_bits (concat (map (tok_fields bd sy) ts)) @ rest"
    using Cons.prems(9) by (simp add: fields_bits_def)
  obtain br1 where b1: "lengths_slow size1 s = lengths_slow size1 (s\<lparr>ds_br := br1, ds_headerArena := h1\<rparr>)" "br_inv br1"
    "br_bits br1 = fields_bits (concat (map (tok_fields bd sy) ts)) @ rest" "br_fastEnd br1 = br_fastEnd (ds_br s)" "br_inputLen br1 = br_inputLen (ds_br s)"
    using lengths_slow_tok [OF go [OF ok] _ ok h1(1) Cons.prems(6-8) bits] cr by blast
  define s1 where "s1 = s\<lparr>ds_br := br1, ds_headerArena := h1\<rparr>"
  have "br_ready br1" using Cons.prems(7) b1(4,5) by (simp add: br_ready_def)
  then have "\<exists>br' h'. lengths_slow size1 s1 = Some (ResultSuccess, s1\<lparr>ds_br := br', ds_headerArena := h'\<rparr>) \<and> br_inv br' \<and> br_bits br' = rest \<and>
    br_fastEnd br' = br_fastEnd (ds_br s1) \<and> br_inputLen br' = br_inputLen (ds_br s1) \<and>
    run_rep r' h' \<and> h_table h' = h_table h1 \<and> h_symbolLists h' = h_symbolLists h1"
    using Cons.prems(4) cr f(1) b1(2,3) by (intro Cons.IH [OF r1(2) h1(2,3)]) (simp_all add: s1_def)
  then show ?case unfolding b1(1) s1_def [symmetric] using b1(4,5) f by (auto simp: s1_def)
qed


subsection \<open>The batched loop\<close>

text \<open>The local variables of the loop as a reader.\<close>

definition at_reader :: "bitReader \<Rightarrow> u64 \<times> nat \<times> int \<Rightarrow> bitReader" where
  "at_reader br = (\<lambda>(v, bp, pos). br\<lparr>br_val := v, br_bitPos := bp, br_pos := pos\<rparr>)"

lemma at_reader_fields [simp]:
  "br_val (at_reader br (v, bp, pos)) = v" "br_bitPos (at_reader br (v, bp, pos)) = bp" "br_pos (at_reader br (v, bp, pos)) = pos"
  "br_input (at_reader br a) = br_input br" "br_inputLen (at_reader br a) = br_inputLen br" "br_fastEnd (at_reader br a) = br_fastEnd br"
  by (simp_all add: at_reader_def split: prod.splits)

lemma at_reader_drop:
  "dropBits n (at_reader br (v, bp, pos)) = at_reader br (drop_bit (n mod 64) v, usub bp n, pos)"
  by (simp add: dropBits_def at_reader_def)

lemma lengths_refill_ok:
  assumes "br_inv (at_reader br (v, bp, pos))" and "br_ready br" and "\<not> (bp < 32 \<and> br_fastEnd br < pos)"
  shows "\<exists>v' bp' pos'. lengths_refill (br_input br) (v, bp, pos) = Some (v', bp', pos') \<and> br_inv (at_reader br (v', bp', pos')) \<and>
    br_bits (at_reader br (v', bp', pos')) = br_bits (at_reader br (v, bp, pos)) \<and> 32 \<le> bp'"
proof (cases "bp < 32")
  case True
  have "br_ready (at_reader br (v, bp, pos))" using assms(2) by (simp add: br_ready_def)
  moreover have "checkInputAmount (at_reader br (v, bp, pos))" using assms(3) True by (simp add: checkInputAmount_def)
  ultimately have "nat (br_pos (at_reader br (v, bp, pos))) + 4 \<le> length (br_input (at_reader br (v, bp, pos)))" using fast_room [OF assms(1)] by simp
  from fillBitWindow_ok [OF assms(1) this]
  obtain b where b: "fillBitWindow (at_reader br (v, bp, pos)) = Some b" "br_inv b" "br_bits b = br_bits (at_reader br (v, bp, pos))" "32 \<le> br_bitPos b"
    by blast
  then obtain x where x: "load32 (br_input br) pos = Some x" "b = at_reader br (v OR push_bit bp x, uadd bp 32, pos + 4)"
    using True by (auto simp: fillBitWindow_def at_reader_def split: bind_splits)
  show ?thesis
    by (rule exI [of _ "v OR push_bit bp x"], rule exI [of _ "uadd bp 32"], rule exI [of _ "pos + 4"])
      (use b x True in \<open>simp add: lengths_refill_def\<close>)
qed (use assms(1) in \<open>simp add: lengths_refill_def\<close>)

lemma lengths_round_ok:
  assumes "run_rep r h" and "rle_tok size1 (c, e) r = Some r1" and "length (fst r1) \<le> size1" and "size1 \<le> 704"
    and "clen_reads (h_table h) bd sy [(c, e)]" and "tok_ok (c, e)" and "br_inv (at_reader br (v, bp, pos))" and "32 \<le> bp"
    and "br_bits (at_reader br (v, bp, pos)) = fields_bits (tok_fields bd sy (c, e)) @ rest"
  shows "\<exists>stop v' bp' h'. lengths_round fastEnd size1 (length (fst r)) (v, bp, pos) h = Some (stop, (v', bp', pos), length (fst r1), h') \<and>
    run_rep r1 h' \<and> h_table h' = h_table h \<and> h_symbolLists h' = h_symbolLists h \<and>
    br_inv (at_reader br (v', bp', pos)) \<and> br_bits (at_reader br (v', bp', pos)) = rest"
proof -
  let ?b = "at_reader br (v, bp, pos)"
  have L: "bd ! c \<le> 5" using assms(5) by (simp add: clen_reads_def)
  note x = tok_xbits [OF assms(6)]
  have m5: "(0x1F :: u64) = bitMask 5" by (simp add: bitMask_def)
  have g: "go_index (h_table h) (uint (v AND 0x1F)) = Some \<lparr>Bits = bd ! c, Value = c\<rparr>"
    using window_entry [of 5 ?b, OF _ _ assms(5,9) L] assms(8) by (simp add: m5 bitsUnmasked_def)
  have "huffmanEntry (h_table h) 0 (v AND 0x1F) = Some (bd ! c OR push_bit 16 c)"
    using huffmanEntry_drop [of 0 "h_table h" "v AND 0x1F"] g by simp
  note he = this and pk = pack_entry_fields [of "bd ! c" c]
  have b256: "bd ! c < 256" and l64: "bd ! c mod 64 = bd ! c" using L by simp_all
  have room: "bd ! c + xbits c \<le> br_bitPos ?b" using L x(1) assms(8) by simp
  note d = tok_extra [OF assms(5,6,7,9) room]
  show ?thesis
  proof (cases "c < 16")
    case True
    have r1: "r1 = rle_single c r" using assms(2) True by (simp add: rle_tok_def)
    then have len: "length (fst r1) = length (fst r) + 1" by (cases r) (simp add: rle_single_def)
    obtain h' where h': "single_code c (length (fst r)) h = Some h'" "run_rep r1 h'"
      using single_code_ok [OF assms(1), of c] True r1 len assms(3,4) by auto
    have "uadd (length (fst r)) 1 = length (fst r1)" using len assms(3,4) by (subst uadd_exact) simp_all
    then have "lengths_round fastEnd size1 (length (fst r)) (v, bp, pos) h =
        Some (False, (drop_bit (bd ! c mod 64) v, usub bp (bd ! c), pos), length (fst r1), h')"
      unfolding lengths_round_def prod.case he Option.bind.bind_lunit Let_def pk [OF b256]
      using True h'(1) by (simp add: RepeatPreviousCodeLength_def)
    then show ?thesis using h' single_code_frame [OF h'(1)] d(1,2) x(3) [OF True] by (intro exI [of _ False]) (simp add: at_reader_drop)
  next
    case False
    then have c: "c = 16 \<and> xbits c = 2 \<or> c = 17 \<and> xbits c = 3" using x(2) by (auto simp: xbits_def)
    have rr: "rle_repeat size1 (c = 16) e r = Some r1" using assms(2) False by (simp add: rle_tok_def)
    have e8: "e < 8" using assms(6) False by (auto simp: tok_ok_def)
    have "length (fst r) \<le> size1" using rle_tok_grows [OF assms(2)] assms(3) by simp
    then obtain h' where h': "repeat_code c e size1 (length (fst r)) h = Some (length (fst r1), h')" "run_rep r1 h'"
      using repeat_code_ok [OF assms(1) _ assms(4) e8, of "c = 16" c] rr by (auto simp: RepeatPreviousCodeLength_def)
    have ex: "(if c = RepeatPreviousCodeLength then 2 else 3) = xbits c" using c by (auto simp: RepeatPreviousCodeLength_def)
    have x64: "xbits c mod 64 = xbits c" using x(1) by simp
    have dd: "unat (drop_bit (bd ! c) v AND bitMask (xbits c)) = e" using d(4) by simp
    have "lengths_round fastEnd size1 (length (fst r)) (v, bp, pos) h =
        Some (fastEnd < pos, (drop_bit (xbits c) (drop_bit (bd ! c mod 64) v), usub (usub bp (bd ! c)) (xbits c), pos), length (fst r1), h')"
      unfolding lengths_round_def prod.case he Option.bind.bind_lunit Let_def pk [OF b256] ex l64 dd h'(1)
      using False by (simp add: RepeatPreviousCodeLength_def)
    then show ?thesis using h' repeat_code_frame [OF h'(1)] d(7,8) by (simp add: at_reader_drop x64)
  qed
qed


lemma lengths_fast_ok:
  assumes "rle_toks size1 ts r = Some r'" and "run_rep r h" and "ends_full r' size1" and "size1 \<le> 704"
    and "\<forall>t\<in>set ts. tok_ok t" and "clen_reads (h_table h) bd sy ts" and "br_inv (at_reader br a)" and "br_ready br"
    and "br_bits (at_reader br a) = fields_bits (concat (map (tok_fields bd sy) ts)) @ rest"
  shows "\<exists>a' h' ts' r1. lengths_fast (br_input br) (br_fastEnd br) size1 (length (fst r)) a h = Some (a', length (fst r1), h') \<and>
    run_rep r1 h' \<and> h_table h' = h_table h \<and> h_symbolLists h' = h_symbolLists h \<and> rle_toks size1 ts' r1 = Some r' \<and> set ts' \<subseteq> set ts \<and>
    br_inv (at_reader br a') \<and> br_bits (at_reader br a') = fields_bits (concat (map (tok_fields bd sy) ts')) @ rest"
  using assms(1,2,5-7,9)
proof (induction ts arbitrary: r h a)
  case Nil
  have "h_space h = 0" using symbols_at_end [of r h size1] Nil.prems(1,2) assms(3) by simp
  then have "lengths_fast (br_input br) (br_fastEnd br) size1 (length (fst r)) a h = Some (a, length (fst r), h)"
    by (subst lengths_fast.simps) simp
  then show ?case using Nil.prems by (intro exI [of _ a] exI [of _ h] exI [of _ "[]"] exI [of _ r]) simp
next
  case (Cons t ts)
  obtain v bp pos where a: "a = (v, bp, pos)" using prod_cases3 by blast
  obtain c e where t: "t = (c, e)" by fastforce
  have ok: "tok_ok (c, e)" using Cons.prems(3) by (simp add: t)
  have "run_rep r (h\<lparr>h_symbol := length (fst r)\<rparr>)" using Cons.prems(2) by simp
  note go = symbols_go_on [OF this _ Cons.prems(1)[unfolded t] ok assms(3)]
  show ?case
  proof (cases "bp < 32 \<and> br_fastEnd br < pos")
    case True
    then have "lengths_fast (br_input br) (br_fastEnd br) size1 (length (fst r)) a h = Some (a, length (fst r), h)"
      by (subst lengths_fast.simps) (simp add: a)
    then show ?thesis using Cons.prems by (intro exI [of _ a] exI [of _ h] exI [of _ "t # ts"] exI [of _ r]) simp
  next
    case False
    obtain v1 bp1 pos1 where f: "lengths_refill (br_input br) (v, bp, pos) = Some (v1, bp1, pos1)" "br_inv (at_reader br (v1, bp1, pos1))"
      "br_bits (at_reader br (v1, bp1, pos1)) = br_bits (at_reader br (v, bp, pos))" "32 \<le> bp1"
      using lengths_refill_ok [OF Cons.prems(5)[unfolded a] assms(8) False] by blast
    obtain r1 where r1: "rle_tok size1 (c, e) r = Some r1" "rle_toks size1 ts r1 = Some r'"
      using Cons.prems(1) by (auto simp: t rle_toks.simps split: bind_splits)
    have len: "length (fst r1) \<le> size1" using rle_toks_grows [OF r1(2)] assms(3) by (simp add: ends_full_def)
    have cr: "clen_reads (h_table h) bd sy [(c, e)]" "clen_reads (h_table h) bd sy ts" using clen_reads_Cons [OF Cons.prems(4)] by (simp_all add: t)
    have bits: "br_bits (at_reader br (v1, bp1, pos1)) = fields_bits (tok_fields bd sy (c, e)) @ fields_bits (concat (map (tok_fields bd sy) ts)) @ rest"
      using Cons.prems(6) f(3) by (simp add: a t fields_bits_def)
    obtain stop v2 bp2 h2 where rd: "lengths_round (br_fastEnd br) size1 (length (fst r)) (v1, bp1, pos1) h = Some (stop, (v2, bp2, pos1), length (fst r1), h2)"
      "run_rep r1 h2" "h_table h2 = h_table h" "h_symbolLists h2 = h_symbolLists h" "br_inv (at_reader br (v2, bp2, pos1))"
      "br_bits (at_reader br (v2, bp2, pos1)) = fields_bits (concat (map (tok_fields bd sy) ts)) @ rest"
      using lengths_round_ok [OF Cons.prems(2) r1(1) len assms(4) cr(1) ok f(2,4) bits, of "br_fastEnd br"] by blast
    have st: "lengths_fast (br_input br) (br_fastEnd br) size1 (length (fst r)) a h =
        (if stop then Some ((v2, bp2, pos1), length (fst r1), h2)
         else lengths_fast (br_input br) (br_fastEnd br) size1 (length (fst r1)) (v2, bp2, pos1) h2)"
      by (subst lengths_fast.simps) (use go f(1) rd(1) in \<open>simp add: a if_not_P [OF False]\<close>)
    show ?thesis
    proof (cases stop)
      case True
      then show ?thesis using st rd r1(2)
        by (intro exI [of _ "(v2, bp2, pos1)"] exI [of _ h2] exI [of _ ts] exI [of _ r1]) auto
    next
      case False
      have "\<forall>t\<in>set ts. tok_ok t" "clen_reads (h_table h2) bd sy ts" using Cons.prems(3) cr(2) rd(3) by simp_all
      from Cons.IH [OF r1(2) rd(2) this rd(5,6)]
      obtain a' h' ts' r2 where i: "lengths_fast (br_input br) (br_fastEnd br) size1 (length (fst r1)) (v2, bp2, pos1) h2 = Some (a', length (fst r2), h')"
        "run_rep r2 h'" "h_table h' = h_table h2" "h_symbolLists h' = h_symbolLists h2" "rle_toks size1 ts' r2 = Some r'" "set ts' \<subseteq> set ts"
        "br_inv (at_reader br a')" "br_bits (at_reader br a') = fields_bits (concat (map (tok_fields bd sy) ts')) @ rest" by blast
      then show ?thesis using False rd(3,4) by (intro exI [of _ a'] exI [of _ h'] exI [of _ ts'] exI [of _ r2]) (auto simp: st)
    qed
  qed
qed

lemma subset_ball: "\<forall>x\<in>B. P x \<Longrightarrow> A \<subseteq> B \<Longrightarrow> \<forall>x\<in>A. P x"
  by blast

lemma clen_reads_mono: "clen_reads table bd sy ts \<Longrightarrow> set ts' \<subseteq> set ts \<Longrightarrow> clen_reads table bd sy ts'"
  unfolding clen_reads_def by (elim conjE, rule conjI, assumption) (erule (1) subset_ball)

lemma warmup_fields: "warmup br = Some (ok, br') \<Longrightarrow> br_inputLen br' = br_inputLen br \<and> br_fastEnd br' = br_fastEnd br"
  by (auto simp: warmup_def pullByte_def split: if_splits bind_splits)

lemma readSymbolCodeLengths_ok:
  assumes "rle_toks size1 ts r = Some r'" and "run_rep r h" and "h_symbol h = length (fst r)" and "ends_full r' size1" and "size1 \<le> 704"
    and "\<forall>t\<in>set ts. tok_ok t" and "clen_reads (h_table h) bd sy ts" and "br_inv (ds_br s)" and "br_ready (ds_br s)" and "h = ds_headerArena s"
    and "br_bits (ds_br s) = fields_bits (concat (map (tok_fields bd sy) ts)) @ rest"
  shows "\<exists>br' h'. readSymbolCodeLengths size1 s = Some (ResultSuccess, s\<lparr>ds_br := br', ds_headerArena := h'\<rparr>) \<and> br_inv br' \<and> br_bits br' = rest \<and>
    br_fastEnd br' = br_fastEnd (ds_br s) \<and> br_inputLen br' = br_inputLen (ds_br s) \<and> run_rep r' h' \<and> h_table h' = h_table h \<and> h_symbolLists h' = h_symbolLists h"
proof -
  obtain ok br where w: "warmup (ds_br s) = Some (ok, br)" "br_inv br" "br_bits br = br_bits (ds_br s)"
    by (rule warmup_ok [OF assms(8)])
  note wf = warmup_fields [OF w(1)]
  have rdy: "br_ready br" using assms(9) wf by (simp add: br_ready_def)
  show ?thesis
  proof (cases "checkInputAmount br")
    case False
    define s1 where "s1 = s\<lparr>ds_br := br\<rparr>"
    have "\<exists>br' h'. lengths_slow size1 s1 = Some (ResultSuccess, s1\<lparr>ds_br := br', ds_headerArena := h'\<rparr>) \<and> br_inv br' \<and> br_bits br' = rest \<and>
        br_fastEnd br' = br_fastEnd (ds_br s1) \<and> br_inputLen br' = br_inputLen (ds_br s1) \<and>
        run_rep r' h' \<and> h_table h' = h_table h \<and> h_symbolLists h' = h_symbolLists h"
      using w rdy assms(10,11) by (intro lengths_slow_ok [OF assms(1-7)]) (simp_all add: s1_def)
    then show ?thesis using False w(1) wf by (auto simp: readSymbolCodeLengths_def s1_def)
  next
    case True
    have id: "at_reader br (br_val br, br_bitPos br, br_pos br) = br" by (simp add: at_reader_def)
    obtain a' h' ts' r1 where f: "lengths_fast (br_input br) (br_fastEnd br) size1 (length (fst r)) (br_val br, br_bitPos br, br_pos br) h =
        Some (a', length (fst r1), h')"
      "run_rep r1 h'" "h_table h' = h_table h" "h_symbolLists h' = h_symbolLists h" "rle_toks size1 ts' r1 = Some r'" "set ts' \<subseteq> set ts"
      "br_inv (at_reader br a')" "br_bits (at_reader br a') = fields_bits (concat (map (tok_fields bd sy) ts')) @ rest"
      using lengths_fast_ok [OF assms(1,2,4-7), of br "(br_val br, br_bitPos br, br_pos br)" rest] w(2,3) rdy assms(11) unfolding id by auto
    define s1 h1 where "s1 = s\<lparr>ds_headerArena := h'\<lparr>h_symbol := length (fst r1)\<rparr>, ds_br := at_reader br a'\<rparr>" and "h1 = h'\<lparr>h_symbol := length (fst r1)\<rparr>"
    have cr: "clen_reads (h_table h') bd sy ts'" using clen_reads_mono [OF assms(7) f(6)] f(3) by simp
    have h1: "run_rep r1 h1" "h_symbol h1 = length (fst r1)" "h_table h1 = h_table h'" "h_symbolLists h1 = h_symbolLists h'" "h1 = ds_headerArena s1"
      using f(2) by (simp_all add: h1_def s1_def)
    have tok: "\<forall>t\<in>set ts'. tok_ok t" using assms(6) f(6) by blast
    have r: "br_ready (at_reader br a')" using rdy by (simp add: br_ready_def)
    have "\<exists>br' h'. lengths_slow size1 s1 = Some (ResultSuccess, s1\<lparr>ds_br := br', ds_headerArena := h'\<rparr>) \<and> br_inv br' \<and> br_bits br' = rest \<and>
        br_fastEnd br' = br_fastEnd (ds_br s1) \<and> br_inputLen br' = br_inputLen (ds_br s1) \<and>
        run_rep r' h' \<and> h_table h' = h_table h1 \<and> h_symbolLists h' = h_symbolLists h1"
      using cr h1 r f(7,8) by (intro lengths_slow_ok [OF f(5) h1(1,2) assms(4,5) tok]) (simp_all add: s1_def)
    moreover have "readSymbolCodeLengths size1 s = lengths_slow size1 s1"
      using True w(1) f(1) assms(3,10) by (cases a') (simp add: readSymbolCodeLengths_def s1_def at_reader_def)
    ultimately show ?thesis using wf f(3,4) h1(3,4) by (auto simp: s1_def)
  qed
qed

end
