(* ===== verification/Prefix_Complex.thy ===== *)
theory Prefix_Complex
  imports Prefix_Loops
begin

unbundle bit_operations_syntax

text \<open>
  A complex prefix code as a whole: the header of the code length code, its table, the symbols and the table of the code.
\<close>

subsection \<open>The code length table\<close>

lemma clen_code_reads:
  assumes "clen_code bd0 bd sy toks" and "clen_counts bd0 cnt" and "32 \<le> length table"
  shows "\<exists>table'. BuildCodeLengthsHuffmanTable table bd0 cnt = Some table' \<and> length table' = length table \<and> clen_reads table' bd sy toks"
proof -
  have cd: "length bd0 = 18" "\<forall>x\<in>set bd0. x \<le> 5" and used: "\<forall>t\<in>set toks. fst t < 18 \<and> bd0 ! fst t \<noteq> 0"
    using assms(1) by (simp_all add: clen_code_def clen_depths_def)
  consider (complete) "complete bd0" "bd = bd0" "\<forall>k<18. bd0 ! k \<noteq> 0 \<longrightarrow> sy ! k = symbol_code bd0 k"
    | (single) c where "c < 18" "bd0 = (replicate 18 0)[c := 1]" "bd = replicate 18 0" "sy = replicate 18 0"
    using assms(1) unfolding clen_code_def by blast
  then show ?thesis
  proof cases
    case complete
    obtain table' where t: "BuildCodeLengthsHuffmanTable table bd0 cnt = Some table'" "length table' = length table" "prefix_table table'"
      "\<forall>k w. k < 18 \<and> bd0 ! k \<noteq> 0 \<and> w mod 2 ^ (bd0 ! k) = symbol_code bd0 k \<longrightarrow> table' ! (w mod 32) = \<lparr>Bits = bd0 ! k, Value = k\<rparr>"
      using BuildCodeLengthsHuffmanTable_complete [OF complete(1) cd assms(2,3)] by blast
    have "clen_reads table' bd sy toks"
      unfolding clen_reads_def
    proof (intro conjI ballI, rule t(3), clarify, intro conjI allI impI)
      fix c e w assume "(c, e) \<in> set toks"
      then have c: "c < 18" "bd0 ! c \<noteq> 0" using used by auto
      show "bd ! c \<le> 5" using cd c(1) complete(2) by simp
      show "sy ! c < 2 ^ (bd ! c)" using c complete(2,3) bitrev_less by (simp add: symbol_code_def)
      assume "w mod 2 ^ (bd ! c) = sy ! c"
      then show "table' ! (w mod 32) = \<lparr>Bits = bd ! c, Value = c\<rparr>" using t(4) c complete(2,3) by simp
    qed
    then show ?thesis using t by blast
  next
    case single
    have z: "\<forall>i<18. i \<noteq> c \<longrightarrow> bd0 ! i = 0" "bd0 ! c \<noteq> 0" using single by simp_all
    obtain table' where t: "BuildCodeLengthsHuffmanTable table bd0 cnt = Some table'" "length table' = length table" "prefix_table table'"
      "\<forall>w. table' ! (w mod 32) = \<lparr>Bits = 0, Value = c\<rparr>"
      using BuildCodeLengthsHuffmanTable_single [OF cd assms(2,3) single(1) z(2,1)] by blast
    have "fst t = c" if "t \<in> set toks" for t using used that z by force
    then have "clen_reads table' bd sy toks"
      unfolding clen_reads_def using t(3,4) single(1,3,4) by fastforce
    then show ?thesis using t by blast
  qed
qed


subsection \<open>The code of the lengths\<close>

lemma rle_tok_mono: "rle_tok size1 t r = Some r' \<Longrightarrow> size1 \<le> size2 \<Longrightarrow> rle_tok size2 t r = Some r'"
  by (cases t; cases r) (auto simp: rle_tok_def rle_repeat_def Let_def split: if_splits)

lemma rle_toks_mono: "rle_toks size1 ts r = Some r' \<Longrightarrow> size1 \<le> size2 \<Longrightarrow> rle_toks size2 ts r = Some r'"
  by (induction ts arbitrary: r) (auto simp: rle_toks.simps dest: rle_tok_mono split: bind_splits)

text \<open>A table made from the lists the symbols leave.\<close>

definition code_table :: "nat list \<Rightarrow> HuffmanCode list \<Rightarrow> bool" where
  "code_table ls table \<longleftrightarrow> decodes (codes_of ls) table \<and> table_ok table"

lemma spells_table:
  assumes "complete ls" and "length ls \<le> 704" and "spells toks ls" and "length ls + 376 \<le> length table"
  shows "\<exists>r. rle_toks (length ls) toks rle_init = Some r \<and> ends_full r (length ls) \<and>
    (\<forall>h. run_rep r h \<longrightarrow> h_space h = 0 \<and> (\<exists>table' histo' m. BuildHuffmanTable table huffmanTableBits
        \<lparr>Storage = h_symbolListsArray h, Offset = symListBase\<rparr> (h_codeLengthHisto h) = Some (table', histo', m) \<and> length table' = length table \<and>
        256 \<le> m \<and> m \<le> length ls + 376 \<and> code_table ls (take m table')))"
proof -
  obtain r where r: "rle_toks (length ls) toks rle_init = Some r" "ls = fst r @ replicate (length ls - length (fst r)) 0"
    "fst r \<noteq> [] \<longrightarrow> last (fst r) \<noteq> 0" using assms(3) by (auto simp: spells_def)
  define d where "d = fst r"
  have ls: "ls = d @ replicate (length ls - length d) 0" using r(2) by (simp add: d_def)
  have dl: "length d \<le> length ls" using arg_cong [OF ls, of length] by simp
  have k: "kraft d = 2 ^ 15" using assms(1) kraft_zeros [of d "length ls - length d"] ls by (simp add: complete_def)
  then have "d \<noteq> []" by (auto simp: kraft_def)
  then have full: "ends_full r (length ls)" using r(3) k dl by (simp add: ends_full_def d_def)
  have co: "codes_of ls = codes_of d" by (subst ls) (rule codes_of_zeros)
  have c: "canon (codes_of d)" using canon_codes_of [OF assms(1)] assms(2) by (simp add: co)
  have room: "length (codes_of d) + 376 \<le> length table" "length (codes_of d) + 376 \<le> 2 ^ 16"
    using length_codes_of [of d] dl assms(2,4) by simp_all
  have sl: "symListBase = 16" by (simp add: symListBase_def HuffmanMaxCodeLength_def)
  have "h_space h = 0 \<and> (\<exists>table' histo' m. BuildHuffmanTable table huffmanTableBits
        \<lparr>Storage = h_symbolListsArray h, Offset = symListBase\<rparr> (h_codeLengthHisto h) = Some (table', histo', m) \<and> length table' = length table \<and>
        256 \<le> m \<and> m \<le> length ls + 376 \<and> code_table ls (take m table'))" if h: "run_rep r h" for h
  proof -
    have rep: "lists_rep d h" using h by (cases r) (simp add: run_rep_def d_def)
    have sp: "h_space h = 0" using symbols_at_end [OF h full] .
    obtain table' histo' m where "BuildHuffmanTable table 8 \<lparr>Storage = h_symbolListsArray h, Offset = 16\<rparr> (h_codeLengthHisto h) =
        Some (table', histo', m)" "length table' = length table" "256 \<le> m" "m \<le> length (codes_of d) + 376"
        "decodes (codes_of d) (take m table')" "table_ok (take m table')"
      using BuildHuffmanTable_decodes [OF c lists_rep_complete(2) [OF rep sp] room] by metis
    then show ?thesis using sp length_codes_of [of d] dl by (auto simp: sl huffmanTableBits_def code_table_def co)
  qed
  then show ?thesis using r(1) full by blast
qed


subsection \<open>Reading the code\<close>

text \<open>The header arena between two codes.\<close>

definition prefix_arena :: "metablockHeaderArena \<Rightarrow> bool" where
  "prefix_arena h \<longleftrightarrow> h_substateHuffman h = huffmanNone \<and> length (h_symbolListsArray h) = 720 \<and> 16 \<le> length (h_nextSymbol h) \<and>
     32 \<le> length (h_table h)"

text \<open>What reading a code over \<open>sz\<close> symbols gives: a table with property \<open>P\<close>, and \<open>rest\<close>, the bits that follow.\<close>

definition code_read :: "(HuffmanCode list \<Rightarrow> bool) \<Rightarrow> nat \<Rightarrow> bool list \<Rightarrow> HuffmanCode list \<Rightarrow> decodeState \<Rightarrow> code_result \<Rightarrow> bool" where
  "code_read P sz rest table s result \<longleftrightarrow> (\<exists>br' h' table' m. result = Some (ResultSuccess, table', m, s\<lparr>ds_br := br', ds_headerArena := h'\<rparr>) \<and>
     br_inv br' \<and> br_ready br' \<and> br_bits br' = rest \<and> prefix_arena h' \<and> length table' = length table \<and>
     256 \<le> m \<and> m \<le> sz + 376 \<and> P (take m table'))"

lemma huffman_LengthSymbols_ok:
  assumes "complete ls" and "length ls \<le> sizeLimit" and "sizeLimit \<le> 704" and "spells toks ls" and "length ls + 376 \<le> length table"
    and "\<forall>t\<in>set toks. tok_ok t" and "ds_headerArena s = lengths_start h" and "clen_reads (h_table h) bd sy toks"
    and "length (h_symbolListsArray h) = 720" and "16 \<le> length (h_nextSymbol h)" and "br_inv (ds_br s)" and "br_ready (ds_br s)"
    and "br_bits (ds_br s) = fields_bits (concat (map (tok_fields bd sy) toks)) @ rest"
  shows "code_read (code_table ls) (length ls) rest table s (huffman_LengthSymbols sizeLimit table s)"
proof -
  have l704: "length ls \<le> 704" using assms(2,3) by simp
  obtain r where r: "rle_toks (length ls) toks rle_init = Some r" "ends_full r (length ls)"
    "\<forall>h. run_rep r h \<longrightarrow> h_space h = 0 \<and> (\<exists>table' histo' m. BuildHuffmanTable table huffmanTableBits
        \<lparr>Storage = h_symbolListsArray h, Offset = symListBase\<rparr> (h_codeLengthHisto h) = Some (table', histo', m) \<and> length table' = length table \<and>
        256 \<le> m \<and> m \<le> length ls + 376 \<and> code_table ls (take m table'))"
    using spells_table [OF assms(1) l704 assms(4,5)] by blast
  have full: "ends_full r sizeLimit" using r(2) assms(2) by (simp add: ends_full_def)
  note st = lengths_start_rep [OF assms(9,10)]
  have lt: "h_table (lengths_start h) = h_table h" "h_symbolLists (lengths_start h) = Some 0"
    by (simp_all add: lengths_start_def lists_init_def)
  have sy: "h_symbol (lengths_start h) = length (fst rle_init)" using st(2) by (simp add: rle_init_def)
  obtain br' h' where f: "readSymbolCodeLengths sizeLimit s = Some (ResultSuccess, s\<lparr>ds_br := br', ds_headerArena := h'\<rparr>)" "br_inv br'" "br_bits br' = rest"
    "br_fastEnd br' = br_fastEnd (ds_br s)" "br_inputLen br' = br_inputLen (ds_br s)" "run_rep r h'" "h_table h' = h_table h" "h_symbolLists h' = Some 0"
  proof -
    have "clen_reads (h_table (lengths_start h)) bd sy toks" using assms(8) lt by simp
    note readSymbolCodeLengths_ok [OF rle_toks_mono [OF r(1) assms(2)] st(1) sy full assms(3,6) this assms(11,12) assms(7) [symmetric] assms(13)]
    then show thesis unfolding lt by (elim exE conjE) (rule that)
  qed
  obtain table' histo' m where t: "BuildHuffmanTable table huffmanTableBits
      \<lparr>Storage = h_symbolListsArray h', Offset = symListBase\<rparr> (h_codeLengthHisto h') = Some (table', histo', m)" "length table' = length table"
    "256 \<le> m" "m \<le> length ls + 376" "code_table ls (take m table')" and sp: "h_space h' = 0"
    using r(3) [rule_format, OF f(6)] by blast
  define h2 where "h2 = h'\<lparr>h_codeLengthHisto := histo', h_substateHuffman := huffmanNone\<rparr>"
  have rd: "br_ready br'" using assms(12) f(4,5) by (simp add: br_ready_def)
  have "length (h_symbolListsArray h') = 720 \<and> 16 \<le> length (h_nextSymbol h')" using f(6) by (cases r) (simp add: run_rep_def lists_rep_def)
  moreover have "32 \<le> length (h_table h)" using assms(8) by (simp add: clen_reads_def prefix_table_def)
  ultimately have ar: "prefix_arena h2" using f(7) by (simp add: prefix_arena_def h2_def)
  have "huffman_LengthSymbols sizeLimit table s = Some (ResultSuccess, table', m, s\<lparr>ds_br := br', ds_headerArena := h2\<rparr>)"
    using f(1,8) sp t(1) by (simp add: huffman_LengthSymbols_def h2_def put_header_def Let_def)
  then show ?thesis unfolding code_read_def using f(2,3) rd ar t(2-5) by blast
qed

lemma code_read_state:
  "code_read P sz rest table (s\<lparr>ds_br := b, ds_headerArena := h\<rparr>) x = code_read P sz rest table s x"
  by (simp add: code_read_def)

lemma huffman_Complex_ok:
  assumes "complete ls" and "length ls \<le> sizeLimit" and "sizeLimit \<le> 704" and "spells toks ls" and "length ls + 376 \<le> length table"
    and "complex_code bd0 bd sy skip n toks" and "h = ds_headerArena s" and "h_subLoopCounter h = skip" and "h_repeat h = 0" and "h_space h = 32"
    and "h_codeLengthHisto h = replicate 16 0" and "h_codeLengthCodeLengths h = replicate 18 0"
    and "length (h_symbolListsArray h) = 720" and "16 \<le> length (h_nextSymbol h)" and "32 \<le> length (h_table h)"
    and "br_inv (ds_br s)" and "br_ready (ds_br s)"
    and "br_bits (ds_br s) = fields_bits (depth_fields bd0 [skip..<n]) @ fields_bits (concat (map (tok_fields bd sy) toks)) @ rest"
  shows "code_read (code_table ls) (length ls) rest table s (huffman_Complex sizeLimit table s)"
proof -
  obtain br' hs where l: "readCodeLengthCodeLengths s = Some (ResultSuccess,
      s\<lparr>ds_br := br', ds_headerArena := h\<lparr>h_codeLengthCodeLengths := bd0, h_codeLengthHisto := hs\<rparr>\<rparr>)"
    "br_inv br'" "br_bits br' = fields_bits (concat (map (tok_fields bd sy) toks)) @ rest"
    "br_fastEnd br' = br_fastEnd (ds_br s)" "br_inputLen br' = br_inputLen (ds_br s)" "clen_counts bd0 hs"
    by (rule readCodeLengthCodeLengths_ok [OF assms(6,16,18,7-12)])
  have cc: "clen_code bd0 bd sy toks" and tok: "\<forall>t\<in>set toks. tok_ok t" using assms(6) by (simp_all add: complex_code_def)
  obtain codes where t: "BuildCodeLengthsHuffmanTable (h_table h) bd0 hs = Some codes" "length codes = length (h_table h)" "clen_reads codes bd sy toks"
    using clen_code_reads [OF cc l(6) assms(15)] by blast
  define h1 where "h1 = h\<lparr>h_codeLengthCodeLengths := bd0, h_codeLengthHisto := hs, h_table := codes\<rparr>"
  define s1 where "s1 = s\<lparr>ds_br := br', ds_headerArena := lengths_start h1\<rparr>"
  have rd: "br_ready br'" using assms(17) l(4,5) by (simp add: br_ready_def)
  have "huffman_Complex sizeLimit table s = huffman_LengthSymbols sizeLimit table s1"
    using l(1) t(1) by (simp add: huffman_Complex_def s1_def h1_def put_header_def)
  moreover have "code_read (code_table ls) (length ls) rest table s1 (huffman_LengthSymbols sizeLimit table s1)"
    by (rule huffman_LengthSymbols_ok [OF assms(1-5) tok, of s1 h1 bd sy]) (use t l(2,3) rd assms(13,14) in \<open>simp_all add: s1_def h1_def\<close>)
  ultimately show ?thesis by (simp add: s1_def code_read_state)
qed

text \<open>The two bits in front of a code, and a complex code from the start.\<close>

lemma read_field:
  assumes "br_inv br" and "br_ready br" and "n \<le> 57" and "unat v < 2 ^ n" and "br_bits br = bits_of n (v :: u64) @ rest"
  obtains x br' where "safeReadBits n br = Some (Some x, br')" "unat x = unat v" "br_inv br'" "br_ready br'" "br_bits br' = rest"
proof -
  obtain br' r where r: "safeReadBits n br = Some (r, br')" "br_inv br'"
    "if n \<le> length (br_bits br) then map_option unat r = Some (val_of (take n (br_bits br))) \<and> br_bits br' = drop n (br_bits br)
     else r = None \<and> br_bits br' = br_bits br" "br_inputLen br' = br_inputLen br" "br_fastEnd br' = br_fastEnd br"
    using safeReadBits_ok [OF assms(1,3)] by blast
  have "val_of (take n (br_bits br)) = unat v" using assms(4,5) by (simp add: val_of_bits_of_exact)
  then obtain x where "r = Some x" "unat x = unat v" "br_bits br' = rest" using r(3) assms(5) by auto
  then show thesis using that r assms(2) by (simp add: br_ready_def)
qed

lemma readHuffmanCode_complex:
  assumes "complete ls" and "length ls \<le> sizeLimit" and "sizeLimit \<le> 704" and "spells toks ls" and "length ls + 376 \<le> length table"
    and "complex_code bd0 bd sy skip n toks" and "prefix_arena (ds_headerArena s)"
    and "br_inv (ds_br s)" and "br_ready (ds_br s)" and "br_bits (ds_br s) = fields_bits (complex_fields bd0 bd sy skip n toks) @ rest"
  shows "code_read (code_table ls) (length ls) rest table s (readHuffmanCode sizeMax sizeLimit table s)"
proof -
  have sk: "skip \<le> 3" "skip \<noteq> 1" using assms(6) by (auto simp: complex_code_def sent_range_def)
  have us: "unat (of_nat skip :: u64) = skip" using sk by (simp add: unat_of_nat64)
  have bits: "br_bits (ds_br s) = bits_of 2 (of_nat skip :: u64) @ fields_bits (depth_fields bd0 [skip..<n]) @
      fields_bits (concat (map (tok_fields bd sy) toks)) @ rest"
    using assms(10) by (simp add: complex_fields_def clen_fields_def fields_bits_def)
  obtain x br' where x: "safeReadBits 2 (ds_br s) = Some (Some x, br')" "unat x = skip" "br_inv br'" "br_ready br'"
    "br_bits br' = fields_bits (depth_fields bd0 [skip..<n]) @ fields_bits (concat (map (tok_fields bd sy) toks)) @ rest"
    by (rule read_field [OF assms(8,9) _ _ bits]) (use us sk in simp_all)
  have x1: "x \<noteq> 1" using x(2) sk(2) by auto
  define h1 where "h1 = (ds_headerArena s)\<lparr>h_subLoopCounter := skip, h_space := 32, h_repeat := 0, h_codeLengthHisto := replicate 16 0,
      h_codeLengthCodeLengths := replicate AlphabetSizeCodeLengths 0, h_substateHuffman := huffmanComplex\<rparr>"
  define s1 where "s1 = s\<lparr>ds_br := br', ds_headerArena := h1\<rparr>"
  have "readHuffmanCode sizeMax sizeLimit table s = huffman_Complex sizeLimit table s1"
    using assms(7) x(1,2) x1 by (simp add: readHuffmanCode_def prefix_arena_def huffman_None_def s1_def h1_def upd_header_def Let_def)
  moreover have "code_read (code_table ls) (length ls) rest table s1 (huffman_Complex sizeLimit table s1)"
    by (rule huffman_Complex_ok [OF assms(1-6), of h1])
      (use assms(7) x in \<open>simp_all add: s1_def h1_def AlphabetSizeCodeLengths_def prefix_arena_def\<close>)
  ultimately show ?thesis by (simp add: s1_def code_read_state)
qed

end
