(* ===== verification/Prefix_Simple.thy ===== *)
theory Prefix_Simple
  imports Prefix_Complex
begin

unbundle bit_operations_syntax

text \<open>
  Simple prefix codes: what \<^verbatim>\<open>writeSimpleHuffmanTree\<close> writes, and \<^verbatim>\<open>readSimpleHuffmanSymbols\<close> and
  \<^verbatim>\<open>BuildSimpleHuffmanTable\<close> on it.
\<close>

subsection \<open>The order of the symbols\<close>

definition exchange :: "(nat \<Rightarrow> nat) \<Rightarrow> nat \<times> nat \<Rightarrow> nat list \<Rightarrow> nat list" where
  "exchange d = (\<lambda>(i, j) xs. if d (xs ! j) < d (xs ! i) then xs[i := xs ! j, j := xs ! i] else xs)"

lemma exchange_mset: "i < length xs \<Longrightarrow> j < length xs \<Longrightarrow> mset (exchange d (i, j) xs) = mset xs"
  by (simp add: exchange_def mset_swap)

lemma swap_pairs_exchange:
  assumes "\<forall>(i, j)\<in>set ps. i < length xs \<and> j < length xs" and "\<forall>x\<in>set xs. x < length depths"
  shows "swap_pairs depths ps xs = Some (fold (exchange ((!) depths)) ps xs)"
  using assms
proof (induction ps arbitrary: xs)
  case (Cons p ps)
  obtain i j where p: "p = (i, j)" by fastforce
  have ij: "i < length xs" "j < length xs" using Cons.prems(1) by (simp_all add: p)
  have "set (exchange ((!) depths) (i, j) xs) = set xs" using exchange_mset [OF ij] by (metis set_mset_mset)
  moreover have "length (exchange ((!) depths) (i, j) xs) = length xs" by (simp add: exchange_def)
  ultimately have "swap_pairs depths ps (exchange ((!) depths) (i, j) xs) = Some (fold (exchange ((!) depths)) ps (exchange ((!) depths) (i, j) xs))"
    using Cons.prems by (intro Cons.IH) auto
  moreover have "xs ! i < length depths" "xs ! j < length depths" using Cons.prems(2) ij by simp_all
  ultimately show ?case using ij by (simp add: p exchange_def go_index_nat)
qed simp

lemma swap_order_simps:
  "swap_order 2 = [(0, 1)]" "swap_order 3 = [(0, 1), (0, 2), (1, 2)]" "swap_order 4 = [(0, 1), (0, 2), (0, 3), (1, 2), (1, 3), (2, 3)]"
  by (simp_all add: swap_order_def upt_rec)

lemma sorted_2: "sorted (map d (take 2 (fold (exchange d) (swap_order 2) [a, b, x, y])))"
  and sorted_3: "sorted (map d (take 3 (fold (exchange d) (swap_order 3) [a, b, c, x])))"
  by (auto simp: swap_order_simps exchange_def)

lemma exchange_4:
  "exchange d (0, 1) [a, b, c, e] = (if d b < d a then [b, a, c, e] else [a, b, c, e])"
  "exchange d (0, 2) [a, b, c, e] = (if d c < d a then [c, b, a, e] else [a, b, c, e])"
  "exchange d (0, 3) [a, b, c, e] = (if d e < d a then [e, b, c, a] else [a, b, c, e])"
  "exchange d (1, 2) [a, b, c, e] = (if d c < d b then [a, c, b, e] else [a, b, c, e])"
  "exchange d (1, 3) [a, b, c, e] = (if d e < d b then [a, e, c, b] else [a, b, c, e])"
  "exchange d (2, 3) [a, b, c, e] = (if d e < d c then [a, b, e, c] else [a, b, c, e])"
  by (simp_all add: exchange_def numeral_2_eq_2 numeral_3_eq_3)

lemma sorted_4: "sorted (map d (take 4 (fold (exchange d) (swap_order 4) [a, b, c, e])))"
proof -
  have "\<exists>a1 b1. exchange d (0, 1) [a, b, c, e] = [a1, b1, c, e] \<and> d a1 \<le> d b1"
    unfolding exchange_4 by (cases "d b < d a") auto
  then obtain a1 b1 where 1: "exchange d (0, 1) [a, b, c, e] = [a1, b1, c, e]" "d a1 \<le> d b1" by blast
  have "\<exists>a2 c1. exchange d (0, 2) [a1, b1, c, e] = [a2, b1, c1, e] \<and> d a2 \<le> d c1 \<and> d a2 \<le> d b1"
    unfolding exchange_4 using 1(2) by (cases "d c < d a1") auto
  then obtain a2 c1 where 2: "exchange d (0, 2) [a1, b1, c, e] = [a2, b1, c1, e]" "d a2 \<le> d c1" "d a2 \<le> d b1" by blast
  have "\<exists>a3 e1. exchange d (0, 3) [a2, b1, c1, e] = [a3, b1, c1, e1] \<and> d a3 \<le> d e1 \<and> d a3 \<le> d c1 \<and> d a3 \<le> d b1"
    unfolding exchange_4 using 2(2,3) by (cases "d e < d a2") auto
  then obtain a3 e1 where 3: "exchange d (0, 3) [a2, b1, c1, e] = [a3, b1, c1, e1]" "d a3 \<le> d e1" "d a3 \<le> d c1" "d a3 \<le> d b1" by blast
  have "\<exists>b2 c2. exchange d (1, 2) [a3, b1, c1, e1] = [a3, b2, c2, e1] \<and> d b2 \<le> d c2 \<and> d a3 \<le> d b2 \<and> d a3 \<le> d c2"
    unfolding exchange_4 using 3(2-4) by (cases "d c1 < d b1") auto
  then obtain b2 c2 where 4: "exchange d (1, 2) [a3, b1, c1, e1] = [a3, b2, c2, e1]" "d b2 \<le> d c2" "d a3 \<le> d b2" "d a3 \<le> d c2" by blast
  have "\<exists>b3 e2. exchange d (1, 3) [a3, b2, c2, e1] = [a3, b3, c2, e2] \<and> d b3 \<le> d e2 \<and> d b3 \<le> d c2 \<and> d a3 \<le> d b3"
    unfolding exchange_4 using 3(2) 4(2-4) by (cases "d e1 < d b2") auto
  then obtain b3 e2 where 5: "exchange d (1, 3) [a3, b2, c2, e1] = [a3, b3, c2, e2]" "d b3 \<le> d e2" "d b3 \<le> d c2" "d a3 \<le> d b3" by blast
  have "\<exists>c3 e3. exchange d (2, 3) [a3, b3, c2, e2] = [a3, b3, c3, e3] \<and> d c3 \<le> d e3 \<and> d b3 \<le> d c3"
    unfolding exchange_4 using 5(2-4) by (cases "d e2 < d c2") auto
  then obtain c3 e3 where 6: "exchange d (2, 3) [a3, b3, c2, e2] = [a3, b3, c3, e3]" "d c3 \<le> d e3" "d b3 \<le> d c3" by blast
  have "fold (exchange d) (swap_order 4) [a, b, c, e] = [a3, b3, c3, e3]"
    unfolding swap_order_simps fold_simps id_apply 1(1) 2(1) 3(1) 4(1) 5(1) 6(1) ..
  then show ?thesis using 6 5(4) by simp
qed

lemma fold_exchange:
  assumes "\<forall>(i, j)\<in>set ps. i < n \<and> j < n" and "n \<le> length xs"
  shows "mset (take n (fold (exchange d) ps xs)) = mset (take n xs) \<and> drop n (fold (exchange d) ps xs) = drop n xs"
  using assms
proof (induction ps arbitrary: xs)
  case (Cons p ps)
  obtain i j where p: "p = (i, j)" by fastforce
  have ij: "i < n" "j < n" using Cons.prems(1) by (simp_all add: p)
  have "take n (exchange d (i, j) xs) = exchange d (i, j) (take n xs)" "drop n (exchange d (i, j) xs) = drop n xs"
    using ij Cons.prems(2) by (simp_all add: exchange_def take_update_swap)
  moreover have "mset (exchange d (i, j) (take n xs)) = mset (take n xs)" using ij Cons.prems(2) by (intro exchange_mset) simp_all
  moreover have "length (exchange d (i, j) xs) = length xs" by (simp add: exchange_def)
  ultimately show ?case using Cons by (simp add: p)
qed simp


subsection \<open>The lengths of a simple code\<close>

lemma power_at_least: "c \<le> a \<Longrightarrow> (2::nat) ^ (15 - a) \<le> 2 ^ (15 - c)"
  by (rule power_increasing) simp_all

lemma lengths_2:
  assumes "(2::nat) ^ (15 - a) + 2 ^ (15 - b) = 2 ^ 15" and "1 \<le> a" and "a \<le> b"
  shows "a = 1 \<and> b = 1"
proof -
  have "a < 2" using power_at_least [of 2 a] power_at_least [of 2 b] assms(1,3) by (cases "a < 2") auto
  then have a: "a = 1" using assms(2) by simp
  then have "b < 2" using power_at_least [of 2 b] assms(1) by (cases "b < 2") auto
  then show ?thesis using a assms(3) by simp
qed

lemma lengths_3:
  assumes "(2::nat) ^ (15 - a) + 2 ^ (15 - b) + 2 ^ (15 - c) = 2 ^ 15" and "1 \<le> a" and "a \<le> b" and "b \<le> c"
  shows "a = 1 \<and> b = 2 \<and> c = 2"
proof -
  have "a < 2" using power_at_least [of 2 a] power_at_least [of 2 b] power_at_least [of 2 c] assms(1,3,4) by (cases "a < 2") auto
  then have a: "a = 1" using assms(2) by simp
  have "b < 3" using power_at_least [of 3 b] power_at_least [of 3 c] assms(1,4) a by (cases "b < 3") auto
  moreover have "b \<noteq> 1" using assms(1) a by auto
  ultimately have b: "b = 2" using assms(2,3) by simp
  then have "c < 3" using power_at_least [of 3 c] assms(1) a by (cases "c < 3") auto
  then show ?thesis using a b assms(4) by simp
qed

lemma lengths_4:
  assumes "(2::nat) ^ (15 - a) + 2 ^ (15 - b) + 2 ^ (15 - c) + 2 ^ (15 - e) = 2 ^ 15" and "1 \<le> a" and "a \<le> b" and "b \<le> c" and "c \<le> e"
  shows "a = 2 \<and> b = 2 \<and> c = 2 \<and> e = 2 \<or> a = 1 \<and> b = 2 \<and> c = 3 \<and> e = 3"
proof -
  have "a < 3" using power_at_least [of 3 a] power_at_least [of 3 b] power_at_least [of 3 c] power_at_least [of 3 e] assms(1,3-5)
    by (cases "a < 3") auto
  then consider "a = 1" | "a = 2" using assms(2) by linarith
  then show ?thesis
  proof cases
    case 2
    have "e < 3" using power_at_least [of 2 b] power_at_least [of 2 c] power_at_least [of 3 e] assms(1,3-5) 2 by (cases "e < 3") auto
    then show ?thesis using 2 assms(3-5) by simp
  next
    case 1
    have "b < 3" using power_at_least [of 3 b] power_at_least [of 3 c] power_at_least [of 3 e] assms(1,4,5) 1 by (cases "b < 3") auto
    moreover have "b \<noteq> 1" using assms(1) 1 by auto
    ultimately have b: "b = 2" using assms(2,3) by simp
    have "c < 4" using power_at_least [of 4 c] power_at_least [of 4 e] assms(1,5) 1 b by (cases "c < 4") auto
    moreover have "c \<noteq> 2" using assms(1) 1 b by auto
    ultimately have c: "c = 3" using assms(4) b by simp
    then have "e < 4" using power_at_least [of 4 e] assms(1) 1 b by (cases "e < 4") auto
    then show ?thesis using 1 b c assms(5) by simp
  qed
qed

text \<open>The sum of a code over its symbols.\<close>

lemma kraft_used: "kraft ls = sum_list (map (\<lambda>k. 2 ^ (15 - ls ! k)) (used_symbols ls))"
proof -
  have "kraft ls = sum_list (map (\<lambda>k. if ls ! k = 0 then 0 else 2 ^ (15 - ls ! k)) [0..<length ls])"
  proof -
    have "map (\<lambda>x. if x = 0 then 0 else (2::nat) ^ (15 - x)) ls = map (\<lambda>k. if ls ! k = 0 then 0 else 2 ^ (15 - ls ! k)) [0..<length ls]"
      by (intro nth_equalityI) simp_all
    then show ?thesis by (simp add: kraft_def)
  qed
  also have "\<dots> = sum_list (map (\<lambda>k. 2 ^ (15 - ls ! k)) (filter (\<lambda>k. ls ! k \<noteq> 0) [0..<length ls]))"
  proof -
    have "sum_list (map (\<lambda>k. if P k then 0 else f k) ks) = sum_list (map f (filter (\<lambda>k. \<not> P k) ks))" for P and f :: "nat \<Rightarrow> nat" and ks
      by (induction ks) simp_all
    then show ?thesis by simp
  qed
  finally show ?thesis by (simp add: used_symbols_def)
qed


subsection \<open>The code of a simple code\<close>

definition simple_codes :: "nat \<Rightarrow> nat list \<Rightarrow> (nat \<times> nat) list" where
  "simple_codes n val = (if n = 1 then map (Pair 1) (sort (take 2 val))
     else if n = 2 then (1, val ! 0) # map (Pair 2) (sort [val ! 1, val ! 2])
     else if n = 3 then map (Pair 2) (sort (take 4 val))
     else [(1, val ! 0), (2, val ! 1)] @ map (Pair 3) (sort [val ! 2, val ! 3]))"

lemma simple_codes_short:
  assumes "\<forall>x\<in>set ls. x \<le> 3"
  shows "codes_of ls = map (Pair 1) (syms ls 1) @ map (Pair 2) (syms ls 2) @ map (Pair 3) (syms ls 3)"
proof -
  have z: "syms ls l = []" if "4 \<le> l" for l
  proof -
    have "s \<notin> set (syms ls l)" for s using bspec [OF assms nth_mem, of s] that by (auto simp: in_syms)
    then show ?thesis by (cases "syms ls l") auto
  qed
  have up: "[1..<16] = [1, 2, 3] @ [4..<16 :: nat]" by (simp add: upt_rec)
  have "concat (map (\<lambda>l. map (Pair l) (syms ls l)) [4..<16]) = []" using z by (simp del: upt_rec_numeral)
  then show ?thesis unfolding codes_of_def up by (simp del: upt_rec_numeral)
qed

lemma syms_sort:
  assumes "distinct xs" and "set xs = set (used_symbols ls)" and "l \<noteq> 0"
  shows "syms ls l = sort (filter (\<lambda>k. ls ! k = l) xs)"
proof (rule sorted_distinct_set_unique)
  show "sorted (syms ls l)" by (simp add: syms_def sorted_filter [of id, simplified])
  show "distinct (syms ls l)" by (rule distinct_syms)
  show "set (syms ls l) = set (sort (filter (\<lambda>k. ls ! k = l) xs))" using assms(2,3) by (auto simp: in_syms used_symbols)
qed (use assms(1) in simp_all)

text \<open>The shape of a complete code of two to four symbols, in the order they are sent.\<close>

lemma simple_shape:
  assumes "complete ls" and "mset xs = mset (used_symbols ls)" and "sorted (map ((!) ls) xs)" and "length xs = cnt" and "cnt \<in> {2, 3, 4}"
  shows "map ((!) ls) xs = (if cnt = 2 then [1, 1] else if cnt = 3 then [1, 2, 2] else if ls ! (xs ! 0) = 1 then [1, 2, 3, 3] else [2, 2, 2, 2])"
proof -
  have k: "sum_list (map (\<lambda>k. 2 ^ (15 - ls ! k)) xs) = (2 ^ 15 :: nat)"
  proof -
    have "sum_list (map (\<lambda>k. 2 ^ (15 - ls ! k)) xs) = (sum_list (map (\<lambda>k. 2 ^ (15 - ls ! k)) (used_symbols ls)) :: nat)"
      using assms(2) by (metis mset_map sum_mset_sum_list)
    then show ?thesis using assms(1) by (simp add: complete_def kraft_used)
  qed
  have pos: "1 \<le> ls ! x" if "x \<in> set xs" for x
  proof -
    have "x \<in> set (used_symbols ls)" using that assms(2) by (metis set_mset_mset)
    then show ?thesis by (auto simp: used_symbols Suc_le_eq)
  qed
  consider a b where "xs = [a, b]" "cnt = 2" | a b c where "xs = [a, b, c]" "cnt = 3" | a b c e where "xs = [a, b, c, e]" "cnt = 4"
    using assms(4,5) by (auto simp: numeral_eq_Suc length_Suc_conv)
  then show ?thesis
  proof cases
    case 1
    then show ?thesis using lengths_2 [of "ls ! a" "ls ! b"] k assms(3) pos by simp
  next
    case 2
    then show ?thesis using lengths_3 [of "ls ! a" "ls ! b" "ls ! c"] k assms(3) pos by simp
  next
    case 3
    have "(2::nat) ^ (15 - ls ! a) + 2 ^ (15 - ls ! b) + 2 ^ (15 - ls ! c) + 2 ^ (15 - ls ! e) = 2 ^ 15" using k by (simp add: 3(1))
    moreover have "1 \<le> ls ! a" "ls ! a \<le> ls ! b" "ls ! b \<le> ls ! c" "ls ! c \<le> ls ! e" using assms(3) pos by (simp_all add: 3(1))
    ultimately have "ls ! a = 2 \<and> ls ! b = 2 \<and> ls ! c = 2 \<and> ls ! e = 2 \<or> ls ! a = 1 \<and> ls ! b = 2 \<and> ls ! c = 3 \<and> ls ! e = 3"
      by (rule lengths_4)
    then show ?thesis using 3 by (elim disjE) simp_all
  qed
qed

lemma simple_codes_of:
  assumes "complete ls" and "mset xs = mset (used_symbols ls)" and "sorted (map ((!) ls) xs)" and "length xs = cnt" and "cnt \<in> {2, 3, 4}"
    and "n = (if cnt = 4 \<and> ls ! (xs ! 0) = 1 then 4 else cnt - 1)"
  shows "codes_of ls = simple_codes n (xs @ rest)"
proof -
  note sh = simple_shape [OF assms(1-5)]
  have d: "distinct (used_symbols ls)" by (simp add: used_symbols_def)
  have xs: "distinct xs" "set xs = set (used_symbols ls)"
    using assms(2) d by (metis mset_eq_imp_distinct_iff, metis set_mset_mset)
  have short: "\<forall>x\<in>set ls. x \<le> 3"
  proof
    fix x assume "x \<in> set ls"
    then obtain k where k: "k < length ls" "x = ls ! k" by (metis in_set_conv_nth)
    show "x \<le> 3"
    proof (cases "x = 0")
      case False
      then have "k \<in> set xs" using xs(2) k by (simp add: used_symbols)
      then have "x \<in> set (map ((!) ls) xs)" using k(2) by simp
      then show ?thesis unfolding sh by (auto split: if_splits)
    qed simp
  qed
  have cs: "codes_of ls = map (Pair 1) (sort (filter (\<lambda>k. ls ! k = 1) xs)) @ map (Pair 2) (sort (filter (\<lambda>k. ls ! k = 2) xs)) @
      map (Pair 3) (sort (filter (\<lambda>k. ls ! k = 3) xs))"
    unfolding simple_codes_short [OF short] by (simp only: syms_sort [OF xs])
  consider a b where "xs = [a, b]" "cnt = 2" | a b c where "xs = [a, b, c]" "cnt = 3" | a b c e where "xs = [a, b, c, e]" "cnt = 4"
    using assms(4,5) by (auto simp: numeral_eq_Suc length_Suc_conv)
  then show ?thesis
  proof cases
    case 1
    then show ?thesis using sh assms(6) by (simp add: cs simple_codes_def)
  next
    case 2
    then show ?thesis using sh assms(6) by (simp add: cs simple_codes_def)
  next
    case 3
    then show ?thesis using sh assms(6) by (cases "ls ! a = 1") (simp_all add: cs simple_codes_def)
  qed
qed


subsection \<open>The table of a simple code\<close>

lemma doubled_table:
  assumes "t \<le> 3" and "256 \<le> length table" and "\<forall>i<2 ^ t. Bits (table ! i) \<le> 3"
  shows "\<exists>table'. double_table 256 (2 ^ t) table = Some table' \<and> length table' = length table \<and>
    (\<forall>p<256. table' ! p = table ! (p mod 2 ^ t)) \<and>
    (\<forall>w. sym_look (take 256 table') w = Some (Value (table ! (w mod 2 ^ t)), Bits (table ! (w mod 2 ^ t))))"
proof -
  obtain table' where t: "double_table (2 ^ 8) (2 ^ t) table = Some table'" "length table' = length table"
    "\<forall>p<length table. table' ! p = (if p < 2 ^ 8 then table ! (p mod 2 ^ t) else table ! p)"
    using double_table_ok [of t 8 table] assms(1,2) by auto
  have e: "table' ! p = table ! (p mod 2 ^ t)" if "p < 256" for p using t(3) assms(2) that by simp
  have "sym_look (take 256 table') w = Some (Value (table ! (w mod 2 ^ t)), Bits (table ! (w mod 2 ^ t)))" for w
  proof -
    have "(2::nat) ^ t dvd 2 ^ 8" using assms(1) by (intro le_imp_power_dvd) simp
    then have m: "w mod 256 mod 2 ^ t = w mod 2 ^ t" by (simp add: mod_mod_cancel)
    have g: "go_index (take 256 table') (int (w mod 256)) = Some (table ! (w mod 2 ^ t))"
      using e [of "w mod 256"] assms(2) t(2) by (simp add: m)
    have "Bits (table ! (w mod 2 ^ t)) \<le> 8" 
      using spec [OF assms(3), of "w mod 2 ^ t"] by simp
    then show ?thesis unfolding sym_look_def g Option.bind.bind_lunit by simp
  qed
  then show ?thesis using t(1,2) e by auto
qed

lemma sort_pairs_exchange:
  "\<forall>(i, k)\<in>set ps. i \<noteq> k \<Longrightarrow> sort_pairs ps val = fold (exchange id) ps val"
  by (induction ps val rule: sort_pairs.induct) (auto simp: exchange_def list_update_swap)

lemma sort_pairs_4: "sort_pairs [(0, 1), (0, 2), (0, 3), (1, 2), (1, 3), (2, 3)] [a, b, c, e] = sort [a, b, c, e]"
proof -
  define ys where "ys = fold (exchange id) (swap_order 4) [a, b, c, e]"
  have l: "take 4 [a, b, c, e] = [a, b, c, e]" by simp
  have "mset (take 4 ys) = mset (take 4 [a, b, c, e]) \<and> drop 4 ys = drop 4 [a, b, c, e]"
    unfolding ys_def by (rule fold_exchange) (simp_all add: swap_order_simps)
  then have f: "mset (take 4 ys) = mset [a, b, c, e]" "drop 4 ys = drop 4 [a, b, c, e]" unfolding l by blast+
  then have "take 4 ys = ys" using append_take_drop_id [of 4 ys] by simp
  moreover have "sorted (take 4 ys)" using sorted_4 [of id a b c e] by (simp add: ys_def)
  ultimately have "sort [a, b, c, e] = ys" using f(1) by (intro properties_for_sort) simp_all
  then show ?thesis unfolding ys_def swap_order_simps by (subst sort_pairs_exchange) simp_all
qed

lemma bitrev_small:
  "bitrev 1 0 = 0" "bitrev 1 1 = 1" "bitrev 2 0 = 0" "bitrev 2 1 = 2" "bitrev 2 2 = 1" "bitrev 2 3 = 3" "bitrev 3 6 = 3" "bitrev 3 7 = 7"
  by code_simp+

lemma matches_mod:
  assumes "fst (cs ! j) \<le> t"
  shows "matches cs j (x mod 2 ^ t) = matches cs j x"
  using assms le_imp_power_dvd [of "fst (cs ! j)" t "2::nat"] by (simp add: matches_def mod_mod_cancel)

text \<open>A table of \<open>2 ^ t\<close> entries that agrees with the code on every window of \<open>t\<close> bits.\<close>

lemma small_table:
  assumes "t \<le> 3" and "256 \<le> length table" and "\<forall>i<2 ^ t. Bits (table ! i) \<le> 3"
    and "\<forall>j<length cs. fst (cs ! j) \<le> t \<and> (\<forall>i<2 ^ t. matches cs j i \<longrightarrow> table ! i = \<lparr>Bits = fst (cs ! j), Value = snd (cs ! j)\<rparr>)"
  shows "\<exists>table'. double_table 256 (2 ^ t) table = Some table' \<and> length table' = length table \<and> decodes cs (take 256 table') \<and>
    (\<forall>p<256. table' ! p = table ! (p mod 2 ^ t))"
proof -
  obtain table' where t: "double_table 256 (2 ^ t) table = Some table'" "length table' = length table"
    "\<forall>p<256. table' ! p = table ! (p mod 2 ^ t)"
    "\<forall>w. sym_look (take 256 table') w = Some (Value (table ! (w mod 2 ^ t)), Bits (table ! (w mod 2 ^ t)))"
    using doubled_table [OF assms(1-3)] by blast
  have "decodes cs (take 256 table')"
    unfolding decodes_def
  proof (intro allI impI)
    fix j w assume j: "j < length cs" "matches cs j w"
    then have "matches cs j (w mod 2 ^ t)" using matches_mod [of cs j t w] assms(4) by simp
    moreover have "w mod 2 ^ t < 2 ^ t" by simp
    ultimately have "table ! (w mod 2 ^ t) = \<lparr>Bits = fst (cs ! j), Value = snd (cs ! j)\<rparr>" using assms(4) j(1) by blast
    then show "sym_look (take 256 table') w = Some (snd (cs ! j), fst (cs ! j))" using t(4) by simp
  qed
  then show ?thesis using t(1-3) by blast
qed

text \<open>What \<^verbatim>\<open>BuildSimpleHuffmanTable\<close> promises for its four inputs of more than one symbol.\<close>

definition simple_built :: "nat \<Rightarrow> nat list \<Rightarrow> HuffmanCode list \<Rightarrow> (HuffmanCode list \<times> nat list \<times> nat) option \<Rightarrow> bool" where
  "simple_built n val table result \<longleftrightarrow> (\<exists>table' val'. result = Some (table', val', 256) \<and> length table' = length table \<and> length val' = 4 \<and>
     decodes (simple_codes n val) (take 256 table') \<and> (\<forall>p<256. Bits (table' ! p) \<le> 3))"

lemma simple_built_by:
  assumes "t \<le> 3" and "256 \<le> length table" and "length table1 = length table"
    and "\<forall>i<2 ^ t. Bits (table1 ! i) \<le> 3" and "length val' = 4"
    and "\<forall>j<length (simple_codes n val). fst (simple_codes n val ! j) \<le> t \<and>
      (\<forall>i<2 ^ t. matches (simple_codes n val) j i \<longrightarrow> table1 ! i = \<lparr>Bits = fst (simple_codes n val ! j), Value = snd (simple_codes n val ! j)\<rparr>)"
  shows "simple_built n val table (Option.bind (double_table 256 (2 ^ t) table1) (\<lambda>table. Some (table, val', 256)))"
proof -
  obtain table' where t: "double_table 256 (2 ^ t) table1 = Some table'" "length table' = length table1"
    "decodes (simple_codes n val) (take 256 table')" "\<forall>p<256. table' ! p = table1 ! (p mod 2 ^ t)"
    using small_table [OF assms(1) _ assms(4,6)] assms(2,3) by auto
  have "\<forall>p<256. Bits (table' ! p) \<le> 3" using t(4) assms(4) by simp
  then show ?thesis unfolding simple_built_def t(1) using t(2,3) assms(3,5) by simp
qed

lemma below_2: "(\<forall>i<2. P i) \<longleftrightarrow> P 0 \<and> P (1::nat)"
  and below_3: "(\<forall>i<3. P i) \<longleftrightarrow> P 0 \<and> P 1 \<and> P (2::nat)"
  and below_4: "(\<forall>i<4. P i) \<longleftrightarrow> P 0 \<and> P 1 \<and> P 2 \<and> P (3::nat)"
  and below_8: "(\<forall>i<8. P i) \<longleftrightarrow> P 0 \<and> P 1 \<and> P 2 \<and> P 3 \<and> P 4 \<and> P 5 \<and> P 6 \<and> P (7::nat)"
  by (simp_all add: eval_nat_numeral All_less_Suc conj_ac)

lemma all_entries:
  "(\<forall>j<length [x, y]. P j) \<longleftrightarrow> P 0 \<and> P (1::nat)"
  "(\<forall>j<length [x, y, z]. P j) \<longleftrightarrow> P 0 \<and> P 1 \<and> P (2::nat)"
  "(\<forall>j<length [x, y, z, v]. P j) \<longleftrightarrow> P 0 \<and> P 1 \<and> P 2 \<and> P (3::nat)"
  by (simp_all add: eval_nat_numeral All_less_Suc conj_ac)

lemma nth_entries:
  "[x, y] ! 0 = x" "[x, y] ! 1 = y" "[x, y, z] ! 0 = x" "[x, y, z] ! 1 = y" "[x, y, z] ! 2 = z"
  "[x, y, z, v] ! 0 = x" "[x, y, z, v] ! 1 = y" "[x, y, z, v] ! 2 = z" "[x, y, z, v] ! 3 = v"
  by (simp_all add: eval_nat_numeral)

lemma matches_11: "matches [(1, x), (1, y)] 0 i \<longleftrightarrow> i mod 2 = 0" "matches [(1, x), (1, y)] 1 i \<longleftrightarrow> i mod 2 = 1"
  using bitrev_small by (simp_all add: matches_def code_bits_def base_def weight_def)

lemma matches_122:
  "matches [(1, x), (2, y), (2, z)] 0 i \<longleftrightarrow> i mod 2 = 0" "matches [(1, x), (2, y), (2, z)] 1 i \<longleftrightarrow> i mod 4 = 1"
  "matches [(1, x), (2, y), (2, z)] 2 i \<longleftrightarrow> i mod 4 = 3"
  using bitrev_small by (simp_all add: matches_def code_bits_def base_def weight_def nth_entries)

lemma matches_2222:
  "matches [(2, x), (2, y), (2, z), (2, v)] 0 i \<longleftrightarrow> i mod 4 = 0" "matches [(2, x), (2, y), (2, z), (2, v)] 1 i \<longleftrightarrow> i mod 4 = 2"
  "matches [(2, x), (2, y), (2, z), (2, v)] 2 i \<longleftrightarrow> i mod 4 = 1" "matches [(2, x), (2, y), (2, z), (2, v)] 3 i \<longleftrightarrow> i mod 4 = 3"
  using bitrev_small by (simp_all add: matches_def code_bits_def base_def weight_def nth_entries)

lemma matches_1233:
  "matches [(1, x), (2, y), (3, z), (3, v)] 0 i \<longleftrightarrow> i mod 2 = 0" "matches [(1, x), (2, y), (3, z), (3, v)] 1 i \<longleftrightarrow> i mod 4 = 1"
  "matches [(1, x), (2, y), (3, z), (3, v)] 2 i \<longleftrightarrow> i mod 8 = 3" "matches [(1, x), (2, y), (3, z), (3, v)] 3 i \<longleftrightarrow> i mod 8 = 7"
  using bitrev_small by (simp_all add: matches_def code_bits_def base_def weight_def nth_entries)

lemma BuildSimple_1:
  assumes "256 \<le> length table"
  shows "simple_built 1 [a, b, c, e] table (BuildSimpleHuffmanTable table huffmanTableBits [a, b, c, e] 1)"
proof -
  define x y where "x = min a b" and "y = max a b"
  have cs: "simple_codes 1 [a, b, c, e] = [(1, x), (1, y)]" by (simp add: simple_codes_def x_def y_def min_def max_def)
  define T where "T = table[0 := \<lparr>Bits = 1, Value = x\<rparr>, 1 := \<lparr>Bits = 1, Value = y\<rparr>]"
  have l: "1 < length table" "0 < length table" using assms by linarith+
  have T: "T ! 0 = \<lparr>Bits = 1, Value = x\<rparr>" "T ! 1 = \<lparr>Bits = 1, Value = y\<rparr>" using l by (simp_all add: T_def)
  have "BuildSimpleHuffmanTable table huffmanTableBits [a, b, c, e] 1 = Option.bind (double_table 256 (2 ^ 1) T) (\<lambda>table. Some (table, [a, b, c, e], 256))"
    using l by (auto simp: BuildSimpleHuffmanTable_def huffmanTableBits_def go_update_def T_def x_def y_def)
  moreover have "simple_built 1 [a, b, c, e] table (Option.bind (double_table 256 (2 ^ 1) T) (\<lambda>table. Some (table, [a, b, c, e], 256)))"
  proof (rule simple_built_by)
    show "length T = length table" by (simp add: T_def)
    show "\<forall>i<2 ^ 1. Bits (T ! i) \<le> 3" unfolding power_one_right below_2 T by simp
    show "\<forall>j<length (simple_codes 1 [a, b, c, e]). fst (simple_codes 1 [a, b, c, e] ! j) \<le> 1 \<and> (\<forall>i<2 ^ 1. matches (simple_codes 1 [a, b, c, e]) j i \<longrightarrow>
        T ! i = \<lparr>Bits = fst (simple_codes 1 [a, b, c, e] ! j), Value = snd (simple_codes 1 [a, b, c, e] ! j)\<rparr>)"
      unfolding cs all_entries nth_entries power_one_right below_2 matches_11 T by simp
  qed (use assms in simp_all)
  ultimately show ?thesis by simp
qed

lemma BuildSimple_2:
  assumes "256 \<le> length table"
  shows "simple_built 2 [a, b, c, e] table (BuildSimpleHuffmanTable table huffmanTableBits [a, b, c, e] 2)"
proof -
  define x y where "x = min b c" and "y = max b c"
  have cs: "simple_codes 2 [a, b, c, e] = [(1, a), (2, x), (2, y)]" by (simp add: simple_codes_def x_def y_def min_def max_def nth_entries)
  define T where "T = table[0 := \<lparr>Bits = 1, Value = a\<rparr>, 2 := \<lparr>Bits = 1, Value = a\<rparr>, 1 := \<lparr>Bits = 2, Value = x\<rparr>, 3 := \<lparr>Bits = 2, Value = y\<rparr>]"
  have l: "3 < length table" "2 < length table" "1 < length table" "0 < length table" using assms by linarith+
  have T: "T ! 0 = \<lparr>Bits = 1, Value = a\<rparr>" "T ! 1 = \<lparr>Bits = 2, Value = x\<rparr>" "T ! 2 = \<lparr>Bits = 1, Value = a\<rparr>" "T ! 3 = \<lparr>Bits = 2, Value = y\<rparr>"
    using l by (simp_all add: T_def)
  have "BuildSimpleHuffmanTable table huffmanTableBits [a, b, c, e] 2 = Option.bind (double_table 256 (2 ^ 2) T) (\<lambda>table. Some (table, [a, b, c, e], 256))"
    using l by (auto simp: BuildSimpleHuffmanTable_def huffmanTableBits_def go_update_def T_def x_def y_def nth_entries)
  moreover have "simple_built 2 [a, b, c, e] table (Option.bind (double_table 256 (2 ^ 2) T) (\<lambda>table. Some (table, [a, b, c, e], 256)))"
  proof (rule simple_built_by)
    have p: "(2::nat) ^ 2 = 4" by simp
    show "length T = length table" by (simp add: T_def)
    show "\<forall>i<2 ^ 2. Bits (T ! i) \<le> 3" unfolding p below_4 T by simp
    show "\<forall>j<length (simple_codes 2 [a, b, c, e]). fst (simple_codes 2 [a, b, c, e] ! j) \<le> 2 \<and> (\<forall>i<2 ^ 2. matches (simple_codes 2 [a, b, c, e]) j i \<longrightarrow>
        T ! i = \<lparr>Bits = fst (simple_codes 2 [a, b, c, e] ! j), Value = snd (simple_codes 2 [a, b, c, e] ! j)\<rparr>)"
      unfolding cs all_entries nth_entries p below_4 matches_122 T by simp
  qed (use assms in simp_all)
  ultimately show ?thesis by simp
qed

lemma list_of_4: "length xs = 4 \<Longrightarrow> \<exists>x y z v. xs = [x, y, z, v]"
  by (auto simp: numeral_eq_Suc length_Suc_conv)

lemma BuildSimple_3:
  assumes "256 \<le> length table"
  shows "simple_built 3 [a, b, c, e] table (BuildSimpleHuffmanTable table huffmanTableBits [a, b, c, e] 3)"
proof -
  have "length (sort [a, b, c, e]) = 4" by (simp only: length_sort) simp
  then obtain x y z v where s: "sort [a, b, c, e] = [x, y, z, v]" using list_of_4 by blast
  have cs: "simple_codes 3 [a, b, c, e] = [(2, x), (2, y), (2, z), (2, v)]"
  proof -
    have "take 4 [a, b, c, e] = [a, b, c, e]" by simp
    then show ?thesis by (simp only: simple_codes_def s) simp
  qed
  define T where "T = table[0 := \<lparr>Bits = 2, Value = x\<rparr>, 2 := \<lparr>Bits = 2, Value = y\<rparr>, 1 := \<lparr>Bits = 2, Value = z\<rparr>, 3 := \<lparr>Bits = 2, Value = v\<rparr>]"
  have l: "3 < length table" "2 < length table" "1 < length table" "0 < length table" using assms by linarith+
  have T: "T ! 0 = \<lparr>Bits = 2, Value = x\<rparr>" "T ! 1 = \<lparr>Bits = 2, Value = z\<rparr>" "T ! 2 = \<lparr>Bits = 2, Value = y\<rparr>" "T ! 3 = \<lparr>Bits = 2, Value = v\<rparr>"
    using l by (simp_all add: T_def)
  have "BuildSimpleHuffmanTable table huffmanTableBits [a, b, c, e] 3 = Option.bind (double_table 256 (2 ^ 2) T) (\<lambda>table. Some (table, [x, y, z, v], 256))"
    unfolding BuildSimpleHuffmanTable_def sort_pairs_4 s using l
    by (simp add: huffmanTableBits_def go_update_def T_def nth_entries del: sort_pairs.simps)
  moreover have "simple_built 3 [a, b, c, e] table (Option.bind (double_table 256 (2 ^ 2) T) (\<lambda>table. Some (table, [x, y, z, v], 256)))"
  proof (rule simple_built_by)
    have p: "(2::nat) ^ 2 = 4" by simp
    show "length T = length table" by (simp add: T_def)
    show "\<forall>i<2 ^ 2. Bits (T ! i) \<le> 3" unfolding p below_4 T by simp
    show "\<forall>j<length (simple_codes 3 [a, b, c, e]). fst (simple_codes 3 [a, b, c, e] ! j) \<le> 2 \<and> (\<forall>i<2 ^ 2. matches (simple_codes 3 [a, b, c, e]) j i \<longrightarrow>
        T ! i = \<lparr>Bits = fst (simple_codes 3 [a, b, c, e] ! j), Value = snd (simple_codes 3 [a, b, c, e] ! j)\<rparr>)"
      unfolding cs all_entries nth_entries p below_4 matches_2222 T by simp
  qed (use assms in simp_all)
  ultimately show ?thesis by simp
qed

lemma BuildSimple_4:
  assumes "256 \<le> length table"
  shows "simple_built 4 [a, b, c, e] table (BuildSimpleHuffmanTable table huffmanTableBits [a, b, c, e] 4)"
proof -
  define x y where "x = min c e" and "y = max c e"
  have cs: "simple_codes 4 [a, b, c, e] = [(1, a), (2, b), (3, x), (3, y)]" by (simp add: simple_codes_def x_def y_def min_def max_def nth_entries)
  define T where "T = table[0 := \<lparr>Bits = 1, Value = a\<rparr>, 1 := \<lparr>Bits = 2, Value = b\<rparr>, 2 := \<lparr>Bits = 1, Value = a\<rparr>, 3 := \<lparr>Bits = 3, Value = x\<rparr>,
      4 := \<lparr>Bits = 1, Value = a\<rparr>, 5 := \<lparr>Bits = 2, Value = b\<rparr>, 6 := \<lparr>Bits = 1, Value = a\<rparr>, 7 := \<lparr>Bits = 3, Value = y\<rparr>]"
  have l: "7 < length table" "6 < length table" "5 < length table" "4 < length table" "3 < length table" "2 < length table" "1 < length table"
    "0 < length table" using assms by linarith+
  have T: "T ! 0 = \<lparr>Bits = 1, Value = a\<rparr>" "T ! 1 = \<lparr>Bits = 2, Value = b\<rparr>" "T ! 2 = \<lparr>Bits = 1, Value = a\<rparr>" "T ! 3 = \<lparr>Bits = 3, Value = x\<rparr>"
    "T ! 4 = \<lparr>Bits = 1, Value = a\<rparr>" "T ! 5 = \<lparr>Bits = 2, Value = b\<rparr>" "T ! 6 = \<lparr>Bits = 1, Value = a\<rparr>" "T ! 7 = \<lparr>Bits = 3, Value = y\<rparr>"
    using l by (simp_all add: T_def)
  define val' where "val' = [a, b, x, y]"
  have v: "(if [a, b, c, e] ! 3 < [a, b, c, e] ! 2 then [a, b, c, e][3 := [a, b, c, e] ! 2, 2 := [a, b, c, e] ! 3] else [a, b, c, e]) = val'"
    by (simp add: val'_def x_def y_def nth_entries numeral_2_eq_2 numeral_3_eq_3)
  have "BuildSimpleHuffmanTable table huffmanTableBits [a, b, c, e] 4 = Option.bind (double_table 256 (2 ^ 3) T) (\<lambda>table. Some (table, val', 256))"
    unfolding BuildSimpleHuffmanTable_def v using l
    by (simp add: huffmanTableBits_def go_update_def T_def val'_def nth_entries)
  moreover have "simple_built 4 [a, b, c, e] table (Option.bind (double_table 256 (2 ^ 3) T) (\<lambda>table. Some (table, val', 256)))"
  proof (rule simple_built_by)
    have p: "(2::nat) ^ 3 = 8" by simp
    show "length T = length table" by (simp add: T_def)
    show "\<forall>i<2 ^ 3. Bits (T ! i) \<le> 3" unfolding p below_8 T by simp
    show "\<forall>j<length (simple_codes 4 [a, b, c, e]). fst (simple_codes 4 [a, b, c, e] ! j) \<le> 3 \<and> (\<forall>i<2 ^ 3. matches (simple_codes 4 [a, b, c, e]) j i \<longrightarrow>
        T ! i = \<lparr>Bits = fst (simple_codes 4 [a, b, c, e] ! j), Value = snd (simple_codes 4 [a, b, c, e] ! j)\<rparr>)"
      unfolding cs all_entries nth_entries p below_8 matches_1233 T by simp
  qed (use assms in \<open>simp_all add: val'_def\<close>)
  ultimately show ?thesis by simp
qed

lemma BuildSimple_ok:
  assumes "256 \<le> length table" and "n \<in> {1, 2, 3, 4}" and "length val = 4"
  shows "simple_built n val table (BuildSimpleHuffmanTable table huffmanTableBits val n)"
proof -
  obtain a b c e where "val = [a, b, c, e]" using list_of_4 [OF assms(3)] by blast
  then show ?thesis using assms(2) BuildSimple_1 BuildSimple_2 BuildSimple_3 BuildSimple_4 assms(1) by blast
qed

end
