(* ===== verification/Prefix_Code.thy ===== *)
theory Prefix_Code
  imports Prefix_Simple
begin

unbundle bit_operations_syntax

text \<open>
  Prefix codes in the stream, both sides together: \<^verbatim>\<open>readHuffmanCode\<close> reads back what \<^verbatim>\<open>buildAndWriteHuffmanTree\<close>
  writes, for codes of one symbol, simple codes and complex codes.
\<close>

subsection \<open>Writing a simple code\<close>

definition simple_fields :: "nat \<Rightarrow> nat list \<Rightarrow> bool \<Rightarrow> (nat \<times> u64) list" where
  "simple_fields mb xs deep = [(2, 1), (2, of_nat (length xs) - 1)] @ map (\<lambda>x. (mb, of_nat x)) xs @
     (if length xs = 4 then [(1, if deep then 1 else 0)] else [])"

lemma put_fields_append_fun: "put_fields put (fs @ gs) = (\<lambda>w. put_fields put fs w \<bind> put_fields put gs)"
  by (simp add: put_fields_append fun_eq_iff)

lemma write_symbols_fields: "write_symbols mb xs = put_fields writeBits (map (\<lambda>x. (mb, of_nat x)) xs)"
proof (induction xs)
  case (Cons x xs)
  then show ?case by (intro ext) simp
qed (simp add: fun_eq_iff)

lemma writeSimpleHuffmanTree_fields:
  assumes "length s4 = 4" and "\<forall>x\<in>set s4. x < length depths" and "cnt \<in> {2, 3, 4}"
  obtains xs where "length xs = cnt" "mset xs = mset (take cnt s4)" "sorted (map ((!) depths) xs)"
    "writeSimpleHuffmanTree depths s4 cnt mb b = put_fields writeBits (simple_fields mb xs (depths ! (xs ! 0) = 1)) b"
proof -
  define ys where "ys = fold (exchange ((!) depths)) (swap_order cnt) s4"
  define xs where "xs = take cnt ys"
  have in4: "\<forall>(i, j)\<in>set (swap_order cnt). i < cnt \<and> j < cnt" using assms(3) by (auto simp: swap_order_def)
  have c4: "cnt \<le> length s4" using assms(1,3) by auto
  have f: "mset xs = mset (take cnt s4)" "drop cnt ys = drop cnt s4"
    using fold_exchange [OF in4 c4, of "(!) depths"] unfolding xs_def ys_def by blast+
  have lx: "length xs = cnt" using mset_eq_length [OF f(1)] c4 by simp
  have "length (drop cnt ys) = length (drop cnt s4)" by (simp only: f(2))
  then have ly: "length ys = 4" using lx assms(1) c4 by (simp add: xs_def)
  have "\<forall>(i, j)\<in>set (swap_order cnt). i < length s4 \<and> j < length s4" using in4 c4 by (auto simp: split_beta)
  then have sp: "swap_pairs depths (swap_order cnt) s4 = Some ys" unfolding ys_def using assms(2) by (rule swap_pairs_exchange)
  obtain a b' c e where s4: "s4 = [a, b', c, e]" using list_of_4 [OF assms(1)] by blast
  have so: "sorted (map ((!) depths) xs)" unfolding xs_def ys_def s4 using assms(3) sorted_2 sorted_3 sorted_4 by auto
  have "set ys = set s4"
  proof -
    have "mset (take cnt ys @ drop cnt ys) = mset (take cnt s4 @ drop cnt s4)" using f unfolding xs_def mset_append by (simp only:)
    then show ?thesis by (metis append_take_drop_id set_mset_mset)
  qed
  then have y0: "ys ! 0 < length depths" using assms(2) ly by (metis nth_mem zero_less_numeral)
  have x0: "xs ! 0 = ys ! 0" using assms(3) by (auto simp: xs_def)
  have "writeSimpleHuffmanTree depths s4 cnt mb b = put_fields writeBits (simple_fields mb xs (depths ! (xs ! 0) = 1)) b"
  proof (cases "cnt = 4")
    case True
    then have x: "take 4 ys = xs" by (simp add: xs_def)
    have "go_index depths (int (ys ! 0)) = Some (depths ! (xs ! 0))" using y0 by (simp add: x0)
    then show ?thesis unfolding writeSimpleHuffmanTree_def sp Option.bind.bind_lunit
      using True lx by (simp add: simple_fields_def x write_symbols_fields put_fields_append_fun put_fields_fun del: go_index_Some)
  next
    case False
    then show ?thesis using assms(3) lx unfolding writeSimpleHuffmanTree_def sp
      by (auto simp: simple_fields_def xs_def write_symbols_fields put_fields_fun)
  qed
  then show thesis using that lx f(1) so by blast
qed


subsection \<open>Reading a simple code\<close>

lemma simple_loop_ok:
  assumes "mb \<le> 57" and "\<forall>x\<in>set xs. x < 2 ^ mb \<and> x < 2 ^ 16 \<and> x < limit" and "i + length xs = n + 1" and "i + length xs \<le> length (h_symbolListsArray (ds_headerArena s))"
    and "br_inv (ds_br s)" and "br_ready (ds_br s)" and "br_bits (ds_br s) = fields_bits (map (\<lambda>x. (mb, of_nat x)) xs) @ rest"
  shows "\<exists>br' arr'. simple_loop mb limit n i s = Some (ResultSuccess, s\<lparr>ds_br := br', ds_headerArena := (ds_headerArena s)\<lparr>h_symbolListsArray := arr'\<rparr>\<rparr>) \<and>
    br_inv br' \<and> br_ready br' \<and> br_bits br' = rest \<and> length arr' = length (h_symbolListsArray (ds_headerArena s)) \<and>
    (\<forall>j<length xs. arr' ! (i + j) = xs ! j) \<and> (\<forall>j<i. arr' ! j = h_symbolListsArray (ds_headerArena s) ! j)"
  using assms(2-)
proof (induction xs arbitrary: i s)
  case Nil
  have "simple_loop mb limit n i s = Some (ResultSuccess, s)" by (subst simple_loop.simps) (use Nil.prems(2) in simp)
  then show ?case using Nil.prems by (intro exI [of _ "ds_br s"] exI [of _ "h_symbolListsArray (ds_headerArena s)"]) simp
next
  case (Cons x xs)
  have x: "x < 2 ^ mb" "x < 2 ^ 16" "x < limit" using Cons.prems(1) by simp_all
  have ux: "unat (of_nat x :: u64) = x" using x(2) by (simp add: unat_of_nat64)
  have bits: "br_bits (ds_br s) = bits_of mb (of_nat x :: u64) @ fields_bits (map (\<lambda>x. (mb, of_nat x)) xs) @ rest"
    using Cons.prems(6) by simp
  obtain v br1 where v: "safeReadBits mb (ds_br s) = Some (Some v, br1)" "unat v = x" "br_inv br1" "br_ready br1"
    "br_bits br1 = fields_bits (map (\<lambda>x. (mb, of_nat x)) xs) @ rest"
    by (rule read_field [OF Cons.prems(4,5) assms(1) _ bits]) (use x(1) ux in simp_all)
  define arr where "arr = h_symbolListsArray (ds_headerArena s)"
  define s1 where "s1 = s\<lparr>ds_br := br1, ds_headerArena := (ds_headerArena s)\<lparr>h_symbolListsArray := arr[i := x]\<rparr>\<rparr>"
  have i: "i < length arr" "i \<le> n" using Cons.prems(2,3) by (simp_all add: arr_def)
  have "simple_loop mb limit n i s = simple_loop mb limit n (i + 1) s1"
    by (subst simple_loop.simps) (use i x v(1,2) in \<open>simp add: go_update_def s1_def upd_header_def arr_def [symmetric]\<close>)
  moreover have "\<exists>br' arr'. simple_loop mb limit n (i + 1) s1 = Some (ResultSuccess, s1\<lparr>ds_br := br', ds_headerArena := (ds_headerArena s1)\<lparr>h_symbolListsArray := arr'\<rparr>\<rparr>) \<and>
    br_inv br' \<and> br_ready br' \<and> br_bits br' = rest \<and> length arr' = length (h_symbolListsArray (ds_headerArena s1)) \<and>
    (\<forall>j<length xs. arr' ! (i + 1 + j) = xs ! j) \<and> (\<forall>j<i + 1. arr' ! j = h_symbolListsArray (ds_headerArena s1) ! j)"
    by (rule Cons.IH) (use Cons.prems(1-3) v(3-5) in \<open>simp_all add: s1_def arr_def\<close>)
  ultimately obtain br' arr' where r: "simple_loop mb limit n i s = Some (ResultSuccess, s1\<lparr>ds_br := br', ds_headerArena := (ds_headerArena s1)\<lparr>h_symbolListsArray := arr'\<rparr>\<rparr>)"
    "br_inv br'" "br_ready br'" "br_bits br' = rest" "length arr' = length arr" "\<forall>j<length xs. arr' ! (i + 1 + j) = xs ! j" "\<forall>j<i + 1. arr' ! j = arr[i := x] ! j"
    by (auto simp: s1_def)
  have "\<forall>j<length (x # xs). arr' ! (i + j) = (x # xs) ! j"
  proof (intro allI impI)
    fix j assume j: "j < length (x # xs)"
    show "arr' ! (i + j) = (x # xs) ! j"
    proof (cases j)
      case 0
      then show ?thesis using spec [OF r(7), of i] i(1) by simp
    next
      case (Suc k)
      then show ?thesis using spec [OF r(6), of k] j by simp
    qed
  qed
  moreover have "\<forall>j<i. arr' ! j = arr ! j" using r(7) by simp
  ultimately show ?case using r(1-5) by (intro exI [of _ br'] exI [of _ arr']) (simp add: s1_def arr_def)
qed

lemma readSimpleHuffmanSymbols_ok:
  assumes "simple_bits sizeMax \<le> 57" and "\<forall>x\<in>set xs. x < 2 ^ simple_bits sizeMax \<and> x < 2 ^ 16 \<and> x < limit" and "distinct xs" and "length xs \<in> {1, 2, 3, 4}"
    and "h = ds_headerArena s" and "h_symbol h = length xs - 1" and "h_subLoopCounter h = 0" and "4 \<le> length (h_symbolListsArray h)"
    and "br_inv (ds_br s)" and "br_ready (ds_br s)" and "br_bits (ds_br s) = fields_bits (map (\<lambda>x. (simple_bits sizeMax, of_nat x)) xs) @ rest"
  obtains br' arr' where "readSimpleHuffmanSymbols sizeMax limit s = Some (ResultSuccess, s\<lparr>ds_br := br', ds_headerArena := h\<lparr>h_symbolListsArray := arr'\<rparr>\<rparr>)"
    "br_inv br'" "br_ready br'" "br_bits br' = rest" "length arr' = length (h_symbolListsArray h)" "take (length xs) arr' = xs"
proof -
  have n: "0 + length xs = h_symbol h + 1" "0 + length xs \<le> length (h_symbolListsArray (ds_headerArena s))" using assms(4,6,8) by (auto simp: assms(5))
  obtain br' arr' where r: "simple_loop (simple_bits sizeMax) limit (h_symbol h) 0 s = Some (ResultSuccess, s\<lparr>ds_br := br', ds_headerArena := h\<lparr>h_symbolListsArray := arr'\<rparr>\<rparr>)"
    "br_inv br'" "br_ready br'" "br_bits br' = rest" "length arr' = length (h_symbolListsArray h)" "\<forall>j<length xs. arr' ! (0 + j) = xs ! j"
    using simple_loop_ok [OF assms(1,2) n assms(9-11)] unfolding assms(5) by blast
  have t: "take (length xs) arr' = xs" using r(5,6) assms(4,8) n(2) by (intro nth_equalityI) (auto simp: assms(5))
  have "\<not> simple_duplicates arr' (h_symbol h)"
  proof
    assume "simple_duplicates arr' (h_symbol h)"
    then obtain i k where "i < h_symbol h" "i < k" "k < h_symbol h + 1" "arr' ! i = arr' ! k"
      by (auto simp: simple_duplicates_def list_ex_iff Suc_le_eq)
    then have "i < length xs" "k < length xs" "xs ! i = xs ! k" "i \<noteq> k" using n(1) r(6) by auto
    then show False using assms(3) by (simp add: nth_eq_iff_index_eq)
  qed
  then have "readSimpleHuffmanSymbols sizeMax limit s = Some (ResultSuccess, s\<lparr>ds_br := br', ds_headerArena := h\<lparr>h_symbolListsArray := arr'\<rparr>\<rparr>)"
    using r(1) by (simp add: readSimpleHuffmanSymbols_def assms(5) [symmetric] assms(7) Let_def)
  then show thesis using that r(2-5) t by blast
qed

text \<open>The table of a simple code.\<close>

lemma simple_code_table:
  assumes "complete ls" and "length ls \<le> 704" and "decodes (codes_of ls) (take 256 table')" and "\<forall>p<256. Bits (table' ! p) \<le> 3" and "256 \<le> length table'"
  shows "code_table ls (take 256 table')"
proof -
  have c: "canon (codes_of ls)" using canon_codes_of [OF assms(1)] assms(2) by simp
  have b: "Bits (table' ! p) \<le> 8" if "p < 256" for p using assms(4) that by fastforce
  have e: "Bits (take 256 table' ! p) \<le> 15 \<and> Value (take 256 table' ! p) < 2 ^ 16" if p: "p < 256" for p
  proof -
    obtain j where j: "j < length (codes_of ls)" "matches (codes_of ls) j p" by (rule code_exists [OF c])
    then have "sym_look (take 256 table') p = Some (snd (codes_of ls ! j), fst (codes_of ls ! j))" using assms(3) by (simp add: decodes_def)
    moreover have g: "go_index (take 256 table') (int (p mod 256)) = Some (table' ! p)" using p assms(5) by simp
    then have "sym_look (take 256 table') p = Some (Value (table' ! p), Bits (table' ! p))"
      unfolding sym_look_def g Option.bind.bind_lunit using b [OF p] by simp
    moreover have "codes_of ls ! j \<in> set (codes_of ls)" using j(1) by simp
    then have "snd (codes_of ls ! j) < 0xFFFF" using c unfolding canon_def by blast
    ultimately show ?thesis using b [OF p] p by simp
  qed
  have "table_ok (take 256 table')" by (rule decodes_table_ok [OF c assms(3) _ _ e]) (use b assms(5) in simp_all)
  then show ?thesis using assms(3) by (simp add: code_table_def)
qed

text \<open>The build that ends a simple code.\<close>

lemma huffman_SimpleBuild_ok:
  assumes "h = ds_headerArena s" and "4 \<le> length (h_symbolListsArray h)" and "h_symbol h < 4" and "br_inv (ds_br s)" and "br_ready (ds_br s)"
    and "br_bits (ds_br s) = fields_bits (if h_symbol h = 3 then [(1, if deep then 1 else 0)] else []) @ rest"
    and "n = (if h_symbol h = 3 \<and> deep then 4 else h_symbol h)" and "length (h_symbolListsArray h) = 720" and "16 \<le> length (h_nextSymbol h)" and "32 \<le> length (h_table h)"
    and "BuildSimpleHuffmanTable table huffmanTableBits (take 4 (h_symbolListsArray h)) n = Some (table', val', 256)" and "length val' = 4"
    and "length table' = length table" and "P (take 256 table')"
  shows "code_read P sz rest table s (huffman_SimpleBuild table s)"
proof -
  have gs: "go_slice (h_symbolListsArray h) 0 4 = Some (take 4 (h_symbolListsArray h))" using assms(2) by (simp add: go_slice_def)
  define h2 where "h2 = h\<lparr>h_symbol := n, h_symbolListsArray := overwrite (h_symbolListsArray h) 0 val', h_substateHuffman := huffmanNone\<rparr>"
  have lo: "length (overwrite (h_symbolListsArray h) 0 val') = 720" using assms(8,12) by (simp add: overwrite_def)
  have ar: "prefix_arena h2" using assms(9,10) lo by (simp add: prefix_arena_def h2_def)
  have "\<exists>br'. huffman_SimpleBuild table s = Some (ResultSuccess, table', 256, s\<lparr>ds_br := br', ds_headerArena := h2\<rparr>) \<and>
      br_inv br' \<and> br_ready br' \<and> br_bits br' = rest"
  proof (cases "h_symbol h = 3")
    case False
    have nn: "n = h_symbol h" using assms(7) False by simp
    have same: "s\<lparr>ds_br := ds_br s\<rparr> = s" by simp
    have "huffman_SimpleBuild table s = Some (ResultSuccess, table', 256, s\<lparr>ds_br := ds_br s, ds_headerArena := h2\<rparr>)"
      using False gs assms(11) by (simp add: huffman_SimpleBuild_def assms(1) [symmetric] nn h2_def put_header_def Let_def)
    then show ?thesis using assms(4-6) False by (intro exI [of _ "ds_br s"]) simp
  next
    case True
    define v :: u64 where "v = (if deep then 1 else 0)"
    have bits: "br_bits (ds_br s) = bits_of 1 v @ rest" using assms(6) True by (simp add: v_def)
    have uv: "unat v = (if deep then 1 else 0)" by (simp add: v_def)
    obtain x br' where x: "safeReadBits 1 (ds_br s) = Some (Some x, br')" "unat x = unat v" "br_inv br'" "br_ready br'" "br_bits br' = rest"
      by (rule read_field [OF assms(4,5) _ _ bits]) (use uv in simp_all)
    have nn: "uadd 3 (unat x) = n" using assms(7) True x(2) uv by (simp add: uadd_exact)
    have "huffman_SimpleBuild table s = Some (ResultSuccess, table', 256, s\<lparr>ds_br := br', ds_headerArena := h2\<rparr>)"
      using True gs assms(11) x(1) nn by (simp add: huffman_SimpleBuild_def assms(1) [symmetric] h2_def put_header_def upd_header_def Let_def)
    then show ?thesis using x(3-5) by blast
  qed
  then obtain br' where r: "huffman_SimpleBuild table s = Some (ResultSuccess, table', 256, s\<lparr>ds_br := br', ds_headerArena := h2\<rparr>)"
    "br_inv br'" "br_ready br'" "br_bits br' = rest" by blast
  show ?thesis unfolding code_read_def
    by (rule exI [of _ br'], rule exI [of _ h2], rule exI [of _ table'], rule exI [of _ 256]) (use r ar assms(13,14) in simp)
qed

text \<open>From the two bits that announce a simple code to its symbols.\<close>

lemma readHuffmanCode_symbols:
  assumes "prefix_arena (ds_headerArena s)" and "br_inv (ds_br s)" and "br_ready (ds_br s)"
    and "br_bits (ds_br s) = fields_bits ([(2, 1), (2, of_nat (length xs) - 1)] @ map (\<lambda>x. (simple_bits sizeMax, of_nat x)) xs) @ rest"
    and "simple_bits sizeMax \<le> 57" and "\<forall>x\<in>set xs. x < 2 ^ simple_bits sizeMax \<and> x < 2 ^ 16 \<and> x < sizeLimit" and "distinct xs" and "length xs \<in> {1, 2, 3, 4}"
  obtains br' h' where "readHuffmanCode sizeMax sizeLimit table s = huffman_SimpleBuild table (s\<lparr>ds_br := br', ds_headerArena := h'\<rparr>)"
    "br_inv br'" "br_ready br'" "br_bits br' = rest" "h_symbol h' = length xs - 1" "take (length xs) (h_symbolListsArray h') = xs"
    "length (h_symbolListsArray h') = 720" "16 \<le> length (h_nextSymbol h')" "32 \<le> length (h_table h')"
proof -
  define c :: u64 where "c = of_nat (length xs) - 1"
  define fs where "fs = map (\<lambda>x. (simple_bits sizeMax, of_nat x :: u64)) xs"
  have uc: "unat c = length xs - 1" using assms(8) by (auto simp: c_def)
  have bits: "br_bits (ds_br s) = bits_of 2 (1 :: u64) @ bits_of 2 c @ fields_bits fs @ rest" using assms(4) by (simp add: c_def fs_def)
  obtain x1 br1 where x1: "safeReadBits 2 (ds_br s) = Some (Some x1, br1)" "unat x1 = unat (1 :: u64)" "br_inv br1" "br_ready br1"
    "br_bits br1 = bits_of 2 c @ fields_bits fs @ rest"
    by (rule read_field [OF assms(2,3) _ _ bits]) simp_all
  obtain x2 br2 where x2: "safeReadBits 2 br1 = Some (Some x2, br2)" "unat x2 = unat c" "br_inv br2" "br_ready br2" "br_bits br2 = fields_bits fs @ rest"
    by (rule read_field [OF x1(3,4) _ _ x1(5)]) (use uc assms(8) in auto)
  have one: "x1 = 1" using x1(2) by (simp add: word_unat_eq_iff)
  define h2 where "h2 = (ds_headerArena s)\<lparr>h_symbol := length xs - 1, h_subLoopCounter := 0\<rparr>"
  define s2 where "s2 = s\<lparr>ds_br := br2, ds_headerArena := h2\<rparr>"
  have r: "readHuffmanCode sizeMax sizeLimit table s = huffman_SimpleRead sizeMax sizeLimit table s2"
    using assms(1) x1(1) x2(1,2) one uc
    by (simp add: readHuffmanCode_def prefix_arena_def huffman_None_def huffman_SimpleSize_def upd_header_def s2_def h2_def Let_def)
  have ar: "length (h_symbolListsArray h2) = 720" "16 \<le> length (h_nextSymbol h2)" "32 \<le> length (h_table h2)"
    using assms(1) by (simp_all add: prefix_arena_def h2_def)
  obtain br' arr' where q: "readSimpleHuffmanSymbols sizeMax sizeLimit s2 = Some (ResultSuccess, s2\<lparr>ds_br := br', ds_headerArena := h2\<lparr>h_symbolListsArray := arr'\<rparr>\<rparr>)"
    "br_inv br'" "br_ready br'" "br_bits br' = rest" "length arr' = length (h_symbolListsArray h2)" "take (length xs) arr' = xs"
    by (rule readSimpleHuffmanSymbols_ok [OF assms(5-8), of h2 s2 rest]) (use x2 ar in \<open>simp_all add: s2_def h2_def fs_def\<close>)
  show thesis
  proof (rule that [of "h2\<lparr>h_symbolListsArray := arr'\<rparr>" br'])
    show "readHuffmanCode sizeMax sizeLimit table s = huffman_SimpleBuild table (s\<lparr>ds_br := br', ds_headerArena := h2\<lparr>h_symbolListsArray := arr'\<rparr>\<rparr>)"
      unfolding r huffman_SimpleRead_def q(1) by (simp add: s2_def)
  qed (use q ar in \<open>simp_all add: h2_def\<close>)
qed

lemma readHuffmanCode_simple:
  assumes "complete ls" and "length ls \<le> 704" and "mset xs = mset (used_symbols ls)" and "sorted (map ((!) ls) xs)" and "length xs \<in> {2, 3, 4}"
    and "simple_bits sizeMax \<le> 57" and "\<forall>x\<in>set xs. x < 2 ^ simple_bits sizeMax \<and> x < 2 ^ 16 \<and> x < sizeLimit"
    and "prefix_arena (ds_headerArena s)" and "br_inv (ds_br s)" and "br_ready (ds_br s)" and "256 \<le> length table"
    and "br_bits (ds_br s) = fields_bits (simple_fields (simple_bits sizeMax) xs (ls ! (xs ! 0) = 1)) @ rest"
  shows "code_read (code_table ls) (length ls) rest table s (readHuffmanCode sizeMax sizeLimit table s)"
proof -
  have d: "distinct xs" using assms(3) by (metis mset_eq_imp_distinct_iff used_symbols_def distinct_filter distinct_upt)
  define deep where "deep = (ls ! (xs ! 0) = 1)"
  define tail where "tail = fields_bits (if length xs = 4 then [(1, if deep then 1 else 0 :: u64)] else []) @ rest"
  have bits: "br_bits (ds_br s) = fields_bits ([(2, 1), (2, of_nat (length xs) - 1)] @ map (\<lambda>x. (simple_bits sizeMax, of_nat x)) xs) @ tail"
    using assms(12) by (simp add: simple_fields_def tail_def deep_def fields_bits_def)
  have l4: "length xs \<in> {1, 2, 3, 4}" using assms(5) by auto
  obtain br' h' where r: "readHuffmanCode sizeMax sizeLimit table s = huffman_SimpleBuild table (s\<lparr>ds_br := br', ds_headerArena := h'\<rparr>)"
    "br_inv br'" "br_ready br'" "br_bits br' = tail" "h_symbol h' = length xs - 1" "take (length xs) (h_symbolListsArray h') = xs"
    "length (h_symbolListsArray h') = 720" "16 \<le> length (h_nextSymbol h')" "32 \<le> length (h_table h')"
    by (rule readHuffmanCode_symbols [OF assms(8-10) bits assms(6,7) d l4])
  define n val where "n = (if length xs = 4 \<and> deep then 4 else length xs - 1)" and "val = take 4 (h_symbolListsArray h')"
  have v: "length val = 4" "val = xs @ drop (length xs) val"
  proof -
    show "length val = 4" using r(7) by (simp add: val_def)
    have "take (length xs) val = xs" using r(6) assms(5) by (auto simp: val_def min_def)
    then show "val = xs @ drop (length xs) val" by (metis append_take_drop_id)
  qed
  have "n \<in> {1, 2, 3, 4}" using assms(5) by (auto simp: n_def)
  note sb = BuildSimple_ok [OF assms(11) this v(1)]
  then obtain table' val' where b: "BuildSimpleHuffmanTable table huffmanTableBits val n = Some (table', val', 256)" "length table' = length table"
    "length val' = 4" "decodes (simple_codes n val) (take 256 table')" "\<forall>p<256. Bits (table' ! p) \<le> 3" unfolding simple_built_def by blast
  have "codes_of ls = simple_codes n (xs @ drop (length xs) val)"
    by (rule simple_codes_of [OF assms(1,3,4) refl assms(5)]) (simp add: n_def deep_def)
  then have cs: "codes_of ls = simple_codes n val" using v(2) by simp
  have ct: "code_table ls (take 256 table')"
    by (rule simple_code_table [OF assms(1,2)]) (use b cs assms(11) in simp_all)
  have "code_read (code_table ls) (length ls) rest table (s\<lparr>ds_br := br', ds_headerArena := h'\<rparr>) (huffman_SimpleBuild table (s\<lparr>ds_br := br', ds_headerArena := h'\<rparr>))"
  proof (rule huffman_SimpleBuild_ok)
    have e: "h_symbol h' = 3 \<longleftrightarrow> length xs = 4" using r(5) assms(5) by auto
    show "br_bits (ds_br (s\<lparr>ds_br := br', ds_headerArena := h'\<rparr>)) = fields_bits (if h_symbol h' = 3 then [(1, if deep then 1 else 0)] else []) @ rest"
      using r(4) by (simp add: tail_def e)
    show "n = (if h_symbol h' = 3 \<and> deep then 4 else h_symbol h')" unfolding e using r(5) by (simp add: n_def)
    show "BuildSimpleHuffmanTable table huffmanTableBits (take 4 (h_symbolListsArray h')) n = Some (table', val', 256)" using b(1) by (simp add: val_def)
    show "h_symbol h' < 4" using r(5) assms(5) by auto
  qed (use r b(2,3) ct in simp_all)
  then show ?thesis unfolding r(1) by (simp add: code_read_state)
qed

end
