(* ===== verification/Decode_Plain.thy ===== *)
theory Decode_Plain
  imports Decode_Stream
begin

text \<open>
  Whole streams: what \<^verbatim>\<open>Decompress\<close> returns for a stream without compressed metablocks. \<open>plain_stream\<close> says,
  over bits, which bytes such a stream stands for; the decoder (window size, headers, padding, raw and metadata
  metablocks, the ring buffer with its reallocations and wraps, suspensions for output, the final flush) returns exactly these.
\<close>

subsection \<open>What the parts of the decoder leave alone\<close>

definition ring_frame :: "decodeState \<Rightarrow> decodeState" where
  "ring_frame s = s\<lparr>ds_br := zero_br, ds_ringbuffer := sl_nil, ds_ringbufferSize := 0, ds_ringbufferMask := 0,
     ds_newRingbufferSize := 0, ds_pos := 0, ds_metaBlockRemainingLen := 0, ds_partialPosOut := 0, ds_rbRoundtrips := 0,
     ds_maxDistance := 0, ds_outChunks := \<lparr>cw_chunks = [], cw_size = 0, cw_n = 0\<rparr>, ds_substateUncompressed := uncompressedNone\<rparr>"

lemma ring_frame_upd [simp]:
  "ring_frame (s\<lparr>ds_br := a\<rparr>) = ring_frame s" "ring_frame (s\<lparr>ds_ringbuffer := b\<rparr>) = ring_frame s"
  "ring_frame (s\<lparr>ds_ringbufferSize := i\<rparr>) = ring_frame s" "ring_frame (s\<lparr>ds_ringbufferMask := i\<rparr>) = ring_frame s"
  "ring_frame (s\<lparr>ds_newRingbufferSize := i\<rparr>) = ring_frame s" "ring_frame (s\<lparr>ds_pos := i\<rparr>) = ring_frame s"
  "ring_frame (s\<lparr>ds_metaBlockRemainingLen := i\<rparr>) = ring_frame s" "ring_frame (s\<lparr>ds_partialPosOut := n\<rparr>) = ring_frame s"
  "ring_frame (s\<lparr>ds_rbRoundtrips := n\<rparr>) = ring_frame s" "ring_frame (s\<lparr>ds_maxDistance := i\<rparr>) = ring_frame s"
  "ring_frame (s\<lparr>ds_outChunks := w\<rparr>) = ring_frame s" "ring_frame (s\<lparr>ds_substateUncompressed := u\<rparr>) = ring_frame s"
  by (simp_all add: ring_frame_def)

lemma ring_realloc_frame: "ring_realloc v n s = Some s' \<Longrightarrow> ring_frame s' = ring_frame s"
  by (auto simp: ring_realloc_def Let_def split: if_splits bind_splits)

lemma ensureRingBuffer_frame: "ensureRingBuffer pool s = Some s' \<Longrightarrow> ring_frame s' = ring_frame s"
  by (auto simp: ensureRingBuffer_def dest!: ring_realloc_frame split: if_splits bind_splits)

lemma ring_grow_frame: "ring_grow pool s = Some s' \<Longrightarrow> ring_frame s' = ring_frame s"
  by (auto simp: ring_grow_def dest!: ring_realloc_frame ensureRingBuffer_frame split: if_splits bind_splits)

lemma emit_frame: "emit get data (outp, s) = Some (outp', s') \<Longrightarrow> ring_frame s' = ring_frame s"
  by (auto simp: emit_def split: if_splits bind_splits)

lemma ring_wrap_frame: "ring_wrap get (outp, s) = Some (outp', s') \<Longrightarrow> ring_frame s' = ring_frame s"
  by (auto simp: ring_wrap_def Let_def dest!: emit_frame split: if_splits bind_splits)

lemma writeRingBuffer_frame: "writeRingBuffer get pool (outp, s) = Some (outp', s') \<Longrightarrow> ring_frame s' = ring_frame s"
  by (auto simp: writeRingBuffer_def dest!: ring_wrap_frame ring_grow_frame split: if_splits bind_splits)

lemma uncompressed_copy_frame: "uncompressed_copy s = Some s' \<Longrightarrow> ring_frame s' = ring_frame s"
  by (auto simp: uncompressed_copy_def Let_def split: bind_splits)

lemma copyUncompressed_loop_frame:
  assumes "copyUncompressed_loop get pools k outp s = Some x"
  shows "ring_frame (snd (snd x)) = ring_frame s"
  using assms
proof (rule copyUncompressed_loop.raw_induct [where P = "\<lambda>_ _ _ _ s x. ring_frame (snd (snd x)) = ring_frame s", rotated], goal_cases)
  case (1 f get pools k outp s x)
  note ih = 1(1) and eq = 1(2)
  consider x1 where "writeRingBuffer get (pools k) (outp, s) = Some x1"
      "f get pools (k + 1) (fst x1) ((snd x1)\<lparr>ds_substateUncompressed := uncompressedNone\<rparr>) = Some x"
    | "snd (snd x) = s" | t where "uncompressed_copy s = Some t" "snd (snd x) = t\<lparr>ds_substateUncompressed := uncompressedWrite\<rparr>"
    | t where "uncompressed_copy s = Some t" "f get pools k outp t = Some x"
    using eq by (auto split: if_splits bind_splits)
  then show ?case
  proof cases
    case w: 1
    obtain a b where "x1 = (a, b)" by force
    then show ?thesis using ih [OF w(2)] writeRingBuffer_frame [of get "pools k" outp s a b] w(1) by simp
  next
    case 4
    then show ?thesis using ih [OF 4(2)] uncompressed_copy_frame [OF 4(1)] by simp
  qed (auto dest!: uncompressed_copy_frame)
qed

lemma copyUncompressedBlock_frame:
  "copyUncompressedBlock get pools (outp, s) = Some (r, outp', s') \<Longrightarrow> ring_frame s' = ring_frame s"
  by (auto simp: copyUncompressedBlock_def dest!: copyUncompressed_loop_frame ensureRingBuffer_frame split: bind_splits)

lemma hdr_frame_eq:
  "hdr_frame s = hdr_frame t \<Longrightarrow> s = t\<lparr>ds_br := ds_br s, ds_loopCounter := ds_loopCounter s,
     ds_metaBlockRemainingLen := ds_metaBlockRemainingLen s, ds_substateMetablockHeader := ds_substateMetablockHeader s,
     ds_sizeNibbles := ds_sizeNibbles s, ds_isLastMetablock := ds_isLastMetablock s,
     ds_isUncompressed := ds_isUncompressed s, ds_isMetadata := ds_isMetadata s\<rparr>"
  by (cases s; cases t) (simp add: hdr_frame_def)


subsection \<open>Flushing\<close>

lemma flushOutput_ok:
  assumes inv: "ring_inv s" and ps: "ds_pos s \<le> ds_ringbufferSize s" and sink: "sink_ok get s" and rem: "0 \<le> ds_metaBlockRemainingLen s"
  obtains outp' s' where "flushOutput get (outp, s) = Some (outp', s')" "ring_inv s'" "sink_ok get s'" "delivered outp' s' = delivered outp s @ pending s"
    "pending s' = []" "ds_pos s' = ds_pos s" "ds_ringbufferSize s' = ds_ringbufferSize s" "ds_br s' = ds_br s" "ring_frame s' = ring_frame s"
    "ds_metaBlockRemainingLen s' = ds_metaBlockRemainingLen s" "ds_substateUncompressed s' = ds_substateUncompressed s"
    "ds_rbRoundtrips s' = ds_rbRoundtrips s" "ds_newRingbufferSize s' = ds_newRingbufferSize s"
proof -
  obtain S P F where S: "ds_ringbufferSize s = int S" and P: "ds_pos s = int P" and F: "flushed_pos s = int F"
    and FS: "F \<le> S" "F \<le> P" and D: "S + 542 \<le> length (sl_data (ds_ringbuffer s))"
    and pp: "ds_partialPosOut s = ds_rbRoundtrips s * S + F" "(ds_rbRoundtrips s + 1) * S < 2 ^ 62"
    by (rule ring_invE [OF inv]) blast
  have PS: "P \<le> S" using ps S P by simp
  have pend: "pending s = take (P - F) (drop F (sl_data (ds_ringbuffer s)))"
    using FS by (simp add: pending_def P F nat_diff_distrib)
  have len: "length (pending s) = P - F" using D PS by (simp add: pend)
  have po: "pendingOutput s = Some (pending s)"
    using rem PS FS D len unfolding pendingOutput_def Let_def S P F sl_slice_def go_slice_def pend by (auto simp: nat_diff_distrib)
  show thesis
  proof (cases "pending s = []")
    case True
    then show ?thesis using that [of outp s] assms po by (simp add: flushOutput_def)
  next
    case False
    obtain outp' w where e: "emit get (pending s) (outp, s) = Some (outp', s\<lparr>ds_outChunks := w\<rparr>)"
      "delivered outp' (s\<lparr>ds_outChunks := w\<rparr>) = delivered outp s @ pending s" "sink_ok get (s\<lparr>ds_outChunks := w\<rparr>)"
      by (rule emit_ok [OF sink])
    define s' where "s' = (s\<lparr>ds_outChunks := w\<rparr>)\<lparr>ds_partialPosOut := ds_rbRoundtrips s * S + P\<rparr>"
    have lt: "ds_rbRoundtrips s * S + P < 2 ^ 64" using pp(2) PS by simp
    have "consumeOutput (int (length (pending s))) (s\<lparr>ds_outChunks := w\<rparr>) = s'"
      unfolding consumeOutput_def len s'_def using pp(1) FS lt by simp
    then have f: "flushOutput get (outp, s) = Some (outp', s')" using False po e(1) by (simp add: flushOutput_def)
    have fp: "flushed_pos s' = int P" by (simp add: s'_def flushed_pos_def S)
    have "ring_inv s'" using inv fp PS unfolding ring_inv_def s'_def by (simp add: S P)
    moreover have "pending s' = []" using fp by (simp add: pending_def) (simp add: s'_def P)
    moreover have "delivered outp' s' = delivered outp s @ pending s" "sink_ok get s'"
      using e by (cases "ds_sink s"; simp add: s'_def delivered_def sink_ok_def)+
    ultimately show ?thesis using that [OF f] by (simp add: s'_def)
  qed
qed

subsection \<open>Rounds of the decoder\<close>

lemma decodeAll_again:
  assumes "stream_step env k x = Some (Inr y)"
  shows "decodeAll env k x = decodeAll env (k + 1) y"
proof -
  have "decompressStream env k x = decompressStream env (k + 1) y"
    unfolding decompressStream_def using assms by (subst stream_loop.simps) simp
  then show ?thesis by (subst (1 2) decodeAll.simps) simp
qed

lemma decodeAll_flush:
  assumes "stream_step env k x = Some (Inl (ResultNeedsMoreOutput, y))" and "flushOutput (e_get env) y = Some z"
  shows "decodeAll env k x = decodeAll env (k + 1) z"
proof -
  have "decompressStream env k x = Some (ResultNeedsMoreOutput, y, k + 1)"
    unfolding decompressStream_def using assms(1) by (subst stream_loop.simps) simp
  then show ?thesis using assms(2) by (subst decodeAll.simps) simp
qed

lemma decodeAll_end:
  assumes "stream_step env k x = Some (Inl (ResultSuccess, outp, s))" and "excessiveInput s = (False, t)"
    and "flushOutput (e_get env) (outp, t) = Some z"
  shows "decodeAll env k x = Some (None, z)"
proof -
  have "decompressStream env k x = Some (ResultSuccess, (outp, s), k + 1)"
    unfolding decompressStream_def using assms(1) by (subst stream_loop.simps) simp
  then show ?thesis using assms(2,3) by (subst decodeAll.simps) simp
qed


subsection \<open>Counting the decoded bytes\<close>

text \<open>Rounds of the ring times its size, plus the position, plus what the metablock still owes.\<close>

definition count1 :: "decodeState \<Rightarrow> int" where
  "count1 s = int (ds_rbRoundtrips s) * ds_ringbufferSize s + ds_pos s + ds_metaBlockRemainingLen s"

lemma writeRingBuffer_count:
  assumes inv: "ring_inv s" and sink: "sink_ok get s"
    and bound: "(ds_rbRoundtrips s + 2) * nat (ds_ringbufferSize s) < 2 ^ 62"
    and w: "writeRingBuffer get pool (outp, s) = Some (outp', s')"
  shows "count1 s' = count1 s"
proof -
  have wrap: "count1 t' = count1 t"
    if h: "ring_inv t" "ds_ringbufferSize t = 2 ^ nat (ds_windowBits t)" "ds_ringbufferSize t \<le> ds_pos t" "sink_ok get t"
      "(ds_rbRoundtrips t + 2) * nat (ds_ringbufferSize t) < 2 ^ 62" "ring_wrap get (outp, t) = Some (outp', t')" for t t'
  proof -
    obtain o2 t2 where "ring_wrap get (outp, t) = Some (o2, t2)" "ds_pos t2 = ds_pos t - ds_ringbufferSize t"
      "ds_metaBlockRemainingLen t2 = ds_metaBlockRemainingLen t" "ds_rbRoundtrips t2 = ds_rbRoundtrips t + 1"
      "ds_ringbufferSize t2 = ds_ringbufferSize t"
      by (rule ring_wrap_ok [OF h(1-5)]) blast
    then show ?thesis using h(6) by (auto simp: count1_def algebra_simps)
  qed
  consider "ds_pos s < ds_ringbufferSize s" | "\<not> ds_pos s < ds_ringbufferSize s" "ds_ringbufferSize s < 2 ^ nat (ds_windowBits s)"
    | "\<not> ds_pos s < ds_ringbufferSize s" "\<not> ds_ringbufferSize s < 2 ^ nat (ds_windowBits s)" by linarith
  then show ?thesis
  proof cases
    case 1
    then show ?thesis using w by (simp add: writeRingBuffer_def)
  next
    case 2
    obtain rb where g: "ring_grow pool s = Some (s\<lparr>ds_ringbuffer := rb, ds_ringbufferSize := 2 * ds_ringbufferSize s,
        ds_ringbufferMask := 2 * ds_ringbufferSize s - 1, ds_newRingbufferSize := 2 * ds_ringbufferSize s\<rparr>)"
      "ds_pos s < 2 * ds_ringbufferSize s"
      by (rule ring_grow_ok [OF inv 2(2)]) (use 2 in auto)
    have "ds_rbRoundtrips s = 0" using inv 2(2) by (auto simp: ring_inv_def)
    then show ?thesis using w 2 g by (auto simp: writeRingBuffer_def count1_def)
  next
    case 3
    have win: "ds_ringbufferSize s = 2 ^ nat (ds_windowBits s)"
    proof -
      obtain k where "k \<le> nat (ds_windowBits s)" "ds_ringbufferSize s = 2 ^ k" using inv by (auto simp: ring_inv_def)
      then show ?thesis using 3(2) by (metis antisym_conv2 power_increasing one_le_numeral)
    qed
    have "ds_ringbufferSize s \<le> ds_pos s" using 3(1) by simp
    then show ?thesis using wrap [OF inv win _ sink bound] w 3 by (simp add: writeRingBuffer_def)
  qed
qed

lemma uncompressed_copy_count: "uncompressed_copy s = Some s' \<Longrightarrow> count1 s' = count1 s \<and> ds_substateUncompressed s' = ds_substateUncompressed s"
  by (auto simp: uncompressed_copy_def count1_def Let_def split: bind_splits)

lemma copyUncompressed_loop_count:
  assumes "copyUncompressed_loop get pools k outp s = Some x" and "ds_substateUncompressed s = uncompressedNone"
  shows "count1 (snd (snd x)) = count1 s"
proof -
  have "ds_substateUncompressed s = uncompressedNone \<longrightarrow> count1 (snd (snd x)) = count1 s"
    using assms(1)
  proof (rule copyUncompressed_loop.raw_induct [where P = "\<lambda>_ _ _ _ s x. ds_substateUncompressed s = uncompressedNone \<longrightarrow>
      count1 (snd (snd x)) = count1 s", rotated], goal_cases)
    case (1 f get pools k outp s x)
    have c: "count1 (s\<lparr>ds_substateUncompressed := u\<rparr>) = count1 s" for s u by (simp add: count1_def)
    show ?case
    proof
      assume none: "ds_substateUncompressed s = uncompressedNone"
      then consider "snd (snd x) = s" | t where "uncompressed_copy s = Some t" "snd (snd x) = t\<lparr>ds_substateUncompressed := uncompressedWrite\<rparr>"
        | t where "uncompressed_copy s = Some t" "f get pools k outp t = Some x"
        using 1(2) by (auto split: if_splits bind_splits)
      then show "count1 (snd (snd x)) = count1 s"
      proof cases
        case 3
        then show ?thesis using 1(1) [OF 3(2)] uncompressed_copy_count [OF 3(1)] none by simp
      qed (auto dest!: uncompressed_copy_count simp: c)
    qed
  qed
  then show ?thesis using assms(2) by simp
qed

lemma copyUncompressedBlock_count:
  assumes w: "ring_wait s" and sink: "sink_ok get s" and bound: "(ds_rbRoundtrips s + 2) * nat (ds_newRingbufferSize s) < 2 ^ 62"
    and c: "copyUncompressedBlock get pools (outp, s) = Some (r, outp', s')"
  shows "count1 s' = count1 s"
proof -
  obtain rb mask where e: "ensureRingBuffer (pools 0) s = Some (s\<lparr>ds_ringbuffer := rb, ds_ringbufferSize := ds_newRingbufferSize s,
      ds_ringbufferMask := mask\<rparr>)"
    "ring_inv (s\<lparr>ds_ringbuffer := rb, ds_ringbufferSize := ds_newRingbufferSize s, ds_ringbufferMask := mask\<rparr>)"
    by (rule ensureRingBuffer_ok [OF w]) blast
  define t where "t = s\<lparr>ds_ringbuffer := rb, ds_ringbufferSize := ds_newRingbufferSize s, ds_ringbufferMask := mask\<rparr>"
  have t: "ring_inv t" "sink_ok get t" "count1 t = count1 s" "(ds_rbRoundtrips t + 2) * nat (ds_ringbufferSize t) < 2 ^ 62"
    using e(2) sink bound w by (auto simp: t_def sink_ok_def count1_def ring_wait_def ring_inv_def)
  have l: "copyUncompressed_loop get pools 1 outp t = Some (r, outp', s')"
    using c e(1) by (simp add: copyUncompressedBlock_def t_def)
  show ?thesis
  proof (cases "ds_substateUncompressed t")
    case uncompressedNone
    then show ?thesis using copyUncompressed_loop_count [OF l] t by simp
  next
    case uncompressedWrite
    then obtain a b where x: "writeRingBuffer get (pools 1) (outp, t) = Some (a, b)"
      "copyUncompressed_loop get pools 2 a (b\<lparr>ds_substateUncompressed := uncompressedNone\<rparr>) = Some (r, outp', s')"
      using l by (subst (asm) copyUncompressed_loop.simps) (auto simp: numeral_2_eq_2 split: bind_splits)
    have "count1 (b\<lparr>ds_substateUncompressed := uncompressedNone\<rparr>) = count1 b" by (simp add: count1_def)
    then show ?thesis using copyUncompressed_loop_count [OF x(2)] writeRingBuffer_count [OF t(1,2,4) x(1)] t(3) by simp
  qed
qed


subsection \<open>The bytes of a stream without compressed metablocks\<close>

fun bits_bytes :: "bool list \<Rightarrow> byte list" where
  "bits_bytes bs = (if length bs < 8 then [] else of_nat (val_of (take 8 bs)) # bits_bytes (drop 8 bs))"

declare bits_bytes.simps [simp del]

lemma bits_bytes_bits [simp]: "bits_bytes (bytes_bits bs) = bs"
proof (induction bs)
  case Nil
  then show ?case by (simp add: bits_bytes.simps)
next
  case (Cons b bs)
  have "val_of (bits_of 8 b) = unat b"
    unfolding val_of_bits_of by (rule arg_cong [of _ _ unat], rule bit_word_eqI) (simp add: bit_simps)
  then show ?case using Cons by (subst bits_bytes.simps) simp
qed

lemma bytes_bits_inj: "bytes_bits xs = bytes_bits ys \<Longrightarrow> xs = ys"
  by (metis bits_bytes_bits)

lemma bytes_bits_prefix:
  assumes "bytes_bits xs @ u = bytes_bits ys @ v" and "length xs \<le> length ys"
  shows "xs = take (length xs) ys" and "u = bytes_bits (drop (length xs) ys) @ v"
proof -
  have "bytes_bits xs = take (8 * length xs) (bytes_bits ys @ v)"
    unfolding assms(1) [symmetric] by simp
  also have "\<dots> = take (8 * length xs) (bytes_bits ys)" using assms(2) by simp
  also have "\<dots> = bytes_bits (take (length xs) ys)" by (simp only: take_bytes_bits)
  finally show "xs = take (length xs) ys" by (rule bytes_bits_inj)
  have "u = drop (8 * length xs) (bytes_bits ys @ v)" unfolding assms(1) [symmetric] by simp
  also have "\<dots> = drop (8 * length xs) (bytes_bits ys) @ v" using assms(2) by simp
  finally show "u = bytes_bits (drop (length xs) ys) @ v" by (simp only: drop_bytes_bits)
qed

lemma bytes_bits_surj: "length bs = 8 * n \<Longrightarrow> \<exists>xs. bs = bytes_bits xs \<and> length xs = n"
proof (induction n arbitrary: bs)
  case 0
  then show ?case by simp
next
  case (Suc n)
  then obtain xs where xs: "drop 8 bs = bytes_bits xs" "length xs = n" using Suc.IH [of "drop 8 bs"] by force
  have len: "length (take 8 bs) = 8" using Suc.prems by simp
  have "val_of (take 8 bs) < 2 ^ 8" using val_of_lt [of "take 8 bs"] unfolding len .
  then have "bits_of 8 (of_nat (val_of (take 8 bs)) :: byte) = take 8 bs"
    using nat_bits_val_of [of "take 8 bs"] unfolding len by (simp add: bits_of_of_nat)
  then have "bs = bytes_bits (of_nat (val_of (take 8 bs)) # xs)" using xs(1) by (simp flip: xs(1))
  then show ?case using xs(2) by (metis length_Cons)
qed

text \<open>A metablock header, and the zero bits up to the next byte boundary.\<close>

definition header_at :: "bool list \<Rightarrow> ((bool \<times> bool \<times> bool \<times> int) \<times> bool list) option" where
  "header_at bs = (case hdr_parse zero_state bs of Good (h, _) rest \<Rightarrow> Some (h, rest) | _ \<Rightarrow> None)"

definition skip_padding :: "bool list \<Rightarrow> bool list option" where
  "skip_padding bs = (let n = length bs mod 8 in if \<forall>b \<in> set (take n bs). \<not> b then Some (drop n bs) else None)"

definition reframe :: "decodeState \<Rightarrow> hdr_result parse \<Rightarrow> hdr_result parse" where
  "reframe f p = (case p of Good (h, m, _) rest \<Rightarrow> Good (h, m, f) rest | Bad e \<Rightarrow> Bad e | Short \<Rightarrow> Short)"

lemma hdr_reframe:
  "hdr_unc f l n bs = reframe f (hdr_unc g l n bs)"
  "hdr_size f l n js acc bs = reframe f (hdr_size g l n js acc bs)"
  "hdr_meta f l n js acc bs = reframe f (hdr_meta g l n js acc bs)"
proof -
  show u: "hdr_unc f l n bs = reframe f (hdr_unc g l n bs)" for n bs by (simp add: hdr_unc_def reframe_def p_bits_def)
  show "hdr_size f l n js acc bs = reframe f (hdr_size g l n js acc bs)"
    by (induction js arbitrary: acc bs) (simp_all add: u [symmetric] p_bits_def, simp add: reframe_def)
  show "hdr_meta f l n js acc bs = reframe f (hdr_meta g l n js acc bs)"
    by (induction js arbitrary: acc bs) (simp_all add: p_bits_def, simp_all add: reframe_def)
qed

lemma hdr_parse_reframe: "hdr_parse f bs = reframe f (hdr_parse g bs)"
  unfolding hdr_parse_def hdr_empty_def hdr_nibbles_def hdr_reserved_def hdr_bytes_def p_bits_def
  using hdr_reframe [where f = f and g = g] by (simp add: reframe_def split: parse.splits)

definition hdr_out :: "decodeState \<Rightarrow> (bool list \<Rightarrow> hdr_result parse) \<Rightarrow> bool" where
  "hdr_out f p \<longleftrightarrow> (\<forall>bs h m g rest. p bs = Good (h, m, g) rest \<longrightarrow> m = metablockHeaderNone \<and> g = f \<and> length rest \<le> length bs)"

lemma hdr_out_bits: "(\<And>v. hdr_out f (k v)) \<Longrightarrow> hdr_out f (p_bits n k)"
  unfolding hdr_out_def p_bits_def by (fastforce split: if_splits)

lemma hdr_out_Good: "hdr_out f (Good (h, metablockHeaderNone, f))" "hdr_out f (\<lambda>_. Bad e)"
  by (simp_all add: hdr_out_def)

lemma hdr_out_parts: "hdr_out f (hdr_unc f l n)" "hdr_out f (hdr_size f l n js acc)" "hdr_out f (hdr_meta f l n js acc)"
proof -
  show u: "hdr_out f (hdr_unc f l n)" for n by (auto simp: hdr_unc_def intro!: hdr_out_bits hdr_out_Good)
  show "hdr_out f (hdr_size f l n js acc)"
    by (induction js arbitrary: acc) (auto simp: u intro!: hdr_out_bits hdr_out_Good)
  show "hdr_out f (hdr_meta f l n js acc)"
    by (induction js arbitrary: acc) (auto intro!: hdr_out_bits hdr_out_Good)
qed

lemma hdr_out_nibbles: "hdr_out f (hdr_empty f)" "hdr_out f (hdr_nibbles f l)"
  unfolding hdr_empty_def hdr_nibbles_def hdr_reserved_def hdr_bytes_def
  by (auto intro!: hdr_out_bits hdr_out_Good hdr_out_parts)

lemma header_at_parse: "header_at bs = Some (h, rest) \<Longrightarrow> hdr_parse f bs = Good (h, metablockHeaderNone, f) rest"
proof -
  assume a: "header_at bs = Some (h, rest)"
  then obtain m g where p: "hdr_parse zero_state bs = Good (h, m, g) rest"
    by (auto simp: header_at_def split: parse.splits prod.splits)
  have "hdr_out zero_state (hdr_parse zero_state)"
    unfolding hdr_parse_def by (auto intro!: hdr_out_bits hdr_out_nibbles)
  then have "m = metablockHeaderNone" using p unfolding hdr_out_def by blast
  then show ?thesis using hdr_parse_reframe [of f bs zero_state] p by (simp add: reframe_def)
qed

lemma parse_header_at: "hdr_parse f bs = Good (h, m, f) rest \<Longrightarrow> header_at bs = Some (h, rest)"
  using hdr_parse_reframe [of zero_state bs f] by (simp add: header_at_def reframe_def)

lemma header_at_shorter: "header_at bs = Some (h, rest) \<Longrightarrow> length rest < length bs"
proof -
  assume "header_at bs = Some (h, rest)"
  then have p: "hdr_parse zero_state bs = Good (h, metablockHeaderNone, zero_state) rest" by (rule header_at_parse)
  define b where "b = val_of (take 1 bs)"
  have b: "(if b \<noteq> 0 then hdr_empty zero_state else hdr_nibbles zero_state False) (drop 1 bs) =
      Good (h, metablockHeaderNone, zero_state) rest" "bs \<noteq> []"
    using p unfolding hdr_parse_def p_bits_def b_def by (simp_all split: if_splits)
  have "hdr_out zero_state (if b \<noteq> 0 then hdr_empty zero_state else hdr_nibbles zero_state False)"
    using hdr_out_nibbles by simp
  then have "length rest \<le> length (drop 1 bs)" using b(1) unfolding hdr_out_def by blast
  then show ?thesis using b(2) by (cases bs) auto
qed

text \<open>The decoded bytes of a stream behind the window size; \<open>None\<close> when it is not well formed or has a compressed metablock.\<close>

function plain_bytes :: "bool list \<Rightarrow> byte list option" where
  "plain_bytes bs = (case header_at bs of
     None \<Rightarrow> None
   | Some ((isLast, unc, meta, len), bs1) \<Rightarrow>
       if isLast then (if \<not> meta \<and> len = 0 \<and> skip_padding bs1 = Some [] then Some [] else None)
       else if unc \<or> meta then
         (case skip_padding bs1 of None \<Rightarrow> None
          | Some bs2 \<Rightarrow> if 8 * nat len \<le> length bs2
              then map_option ((@) (if unc then bits_bytes (take (8 * nat len) bs2) else [])) (plain_bytes (drop (8 * nat len) bs2))
              else None)
       else None)"
  by pat_completeness auto
termination
  by (relation "measure length") (auto simp: skip_padding_def Let_def dest!: header_at_shorter split: if_splits)

declare plain_bytes.simps [simp del]

end
