(* ===== verification/Prefix_Roundtrip.thy ===== *)
theory Prefix_Roundtrip
  imports Prefix_Code Decode_Plain
begin

unbundle bit_operations_syntax

text \<open>
  The round trip of a prefix code: \<^verbatim>\<open>buildAndWriteHuffmanTree\<close> of the encoder, \<^verbatim>\<open>readHuffmanCode\<close> of the decoder, and
  \<^verbatim>\<open>safeReadSymbol\<close> with the table that was read on the code values that were chosen.
\<close>

subsection \<open>Reading symbols with the table\<close>

definition reads_symbols :: "nat list \<Rightarrow> nat list \<Rightarrow> nat list \<Rightarrow> HuffmanCode list \<Rightarrow> bool" where
  "reads_symbols histogram depth codes table \<longleftrightarrow> table_ok table \<and> (\<forall>k<length histogram. histogram ! k \<noteq> 0 \<longrightarrow>
     depth ! k \<le> 15 \<and> codes ! k < 2 ^ (depth ! k) \<and>
     (\<forall>br rest. br_inv br \<and> br_bits br = bits_of (depth ! k) (of_nat (codes ! k) :: u64) @ rest \<longrightarrow>
        (\<exists>br'. safeReadSymbol table br = Some (Some k, br') \<and> br_inv br' \<and> br_bits br' = rest)))"

lemma small_unat:
  assumes "l \<le> 15" and "c < 2 ^ l"
  shows "unat (of_nat c :: u64) = c"
proof -
  have "(2::nat) ^ l \<le> 2 ^ 15" using assms(1) by (intro power_increasing) simp_all
  then show ?thesis using assms(2) by (simp add: unat_of_nat64)
qed

lemma symbol_read:
  assumes "table_ok table" and "br_inv br" and "br_bits br = bits_of l (of_nat c :: u64) @ rest" and "sym_look table (window (br_bits br)) = Some (k, l)"
  shows "\<exists>br'. safeReadSymbol table br = Some (Some k, br') \<and> br_inv br' \<and> br_bits br' = rest"
proof -
  have "l \<le> length (br_bits br)" by (simp add: assms(3))
  then show ?thesis using safeReadSymbol_ok [OF assms(1,2,4)] by (auto simp: assms(3))
qed

lemma code_table_reads:
  assumes "code_table ls table" and "complete ls" and "length ls \<le> 704" and "length ls = length histogram"
    and "\<forall>k<length histogram. histogram ! k \<noteq> 0 \<longrightarrow> ls ! k \<noteq> 0 \<and> depth ! k = ls ! k \<and> codes ! k = symbol_code ls k"
  shows "reads_symbols histogram depth codes table"
proof -
  have t: "table_ok table" "decodes (codes_of ls) table" using assms(1) by (simp_all add: code_table_def)
  have "depth ! k \<le> 15 \<and> codes ! k < 2 ^ (depth ! k) \<and>
     (\<forall>br rest. br_inv br \<and> br_bits br = bits_of (depth ! k) (of_nat (codes ! k) :: u64) @ rest \<longrightarrow>
        (\<exists>br'. safeReadSymbol table br = Some (Some k, br') \<and> br_inv br' \<and> br_bits br' = rest))"
    if k: "k < length histogram" "histogram ! k \<noteq> 0" for k
  proof (intro conjI allI impI)
    have s: "ls ! k \<noteq> 0" "depth ! k = ls ! k" "codes ! k = symbol_code ls k" using assms(5) k by simp_all
    show d: "depth ! k \<le> 15" using assms(2,4) k(1) s(2) by (simp add: complete_def)
    show c: "codes ! k < 2 ^ (depth ! k)" unfolding s(2,3) symbol_code_def by (rule bitrev_less)
    fix br rest assume b: "br_inv br \<and> br_bits br = bits_of (depth ! k) (of_nat (codes ! k) :: u64) @ rest"
    have u: "unat (of_nat (codes ! k) :: u64) = codes ! k" by (rule small_unat [OF d c])
    have "window (br_bits br) mod 2 ^ (depth ! k) = codes ! k"
      using val_of_prefix [OF d, of "of_nat (codes ! k) :: u64" rest] b c by (simp add: window_def u)
    then obtain j where "j < length (codes_of ls)" "codes_of ls ! j = (ls ! k, k)" "matches (codes_of ls) j (window (br_bits br))"
      using symbol_code_matches [OF assms(2,3) _ s(1), of "window (br_bits br)"] k(1) assms(4) s by auto
    then have "sym_look table (window (br_bits br)) = Some (k, depth ! k)" using t(2) s(2) unfolding decodes_def by fastforce
    then show "\<exists>br'. safeReadSymbol table br = Some (Some k, br') \<and> br_inv br' \<and> br_bits br' = rest"
      using symbol_read [OF t(1)] b by blast
  qed
  then show ?thesis using t(1) by (simp add: reads_symbols_def)
qed

lemma single_table_reads:
  assumes "table_ok table" and "\<forall>w. sym_look table w = Some (s, 0)" and "\<forall>k<length histogram. histogram ! k \<noteq> 0 \<longrightarrow> k = s"
    and "depth ! s = 0" and "codes ! s = 0"
  shows "reads_symbols histogram depth codes table"
  using assms symbol_read [OF assms(1), of _ 0 0] by (auto simp: reads_symbols_def)


subsection \<open>A code of one symbol\<close>

lemma BuildSimple_single:
  assumes "256 \<le> length table" and "length val = 4" and "val ! 0 = s" and "s < 2 ^ 16"
  obtains table' where "BuildSimpleHuffmanTable table huffmanTableBits val 0 = Some (table', val, 256)" "length table' = length table"
    "table_ok (take 256 table')" "\<forall>w. sym_look (take 256 table') w = Some (s, 0)"
proof -
  define T where "T = table[0 := \<lparr>Bits = 0, Value = s\<rparr>]"
  have "0 < length table" using assms(1) by linarith
  then have T0: "T ! 0 = \<lparr>Bits = 0, Value = s\<rparr>" by (simp add: T_def)
  have l: "256 \<le> length T" using assms(1) by (simp add: T_def)
  have b: "\<forall>i<2 ^ 0. Bits (T ! i) \<le> 3" using T0 by simp
  obtain table' where t: "double_table 256 (2 ^ 0) T = Some table'" "length table' = length T" "\<forall>p<256. table' ! p = T ! (p mod 2 ^ 0)"
    "\<forall>w. sym_look (take 256 table') w = Some (Value (T ! (w mod 2 ^ 0)), Bits (T ! (w mod 2 ^ 0)))"
    using doubled_table [OF _ l b] by auto
  have look: "\<forall>w. sym_look (take 256 table') w = Some (s, 0)" using t(4) T0 by simp
  have e: "table' ! p = \<lparr>Bits = 0, Value = s\<rparr>" if "p < 256" for p using t(3) T0 that by simp
  have "table_ok (take 256 table')"
    using look e assms(4) l t(2) by (simp add: table_ok_def)
  moreover have "BuildSimpleHuffmanTable table huffmanTableBits val 0 = Some (table', val, 256)"
    using t(1) assms(2,3) \<open>0 < length table\<close> by (simp add: BuildSimpleHuffmanTable_def huffmanTableBits_def go_update_def T_def)
  ultimately show thesis using that look t(2) by (simp add: T_def)
qed

lemma readHuffmanCode_single:
  assumes "prefix_arena (ds_headerArena s)" and "br_inv (ds_br s)" and "br_ready (ds_br s)" and "256 \<le> length table"
    and "br_bits (ds_br s) = fields_bits [(4, 1), (simple_bits sizeMax, of_nat k)] @ rest"
    and "simple_bits sizeMax \<le> 57" and "k < 2 ^ simple_bits sizeMax" and "k < 2 ^ 16" and "k < sizeLimit"
    and "\<And>t. table_ok t \<Longrightarrow> \<forall>w. sym_look t w = Some (k, 0) \<Longrightarrow> P t"
  shows "code_read P sz rest table s (readHuffmanCode sizeMax sizeLimit table s)"
proof -
  have four: "bits_of 4 (1 :: u64) = bits_of 2 (1 :: u64) @ bits_of 2 (of_nat (length [k]) - 1 :: u64)" by (simp add: bits_of_def upt_rec bit_1_iff)
  have bits: "br_bits (ds_br s) = fields_bits ([(2, 1), (2, of_nat (length [k]) - 1)] @ map (\<lambda>x. (simple_bits sizeMax, of_nat x)) [k]) @ rest"
    using assms(5) four by simp
  obtain br' h' where r: "readHuffmanCode sizeMax sizeLimit table s = huffman_SimpleBuild table (s\<lparr>ds_br := br', ds_headerArena := h'\<rparr>)"
    "br_inv br'" "br_ready br'" "br_bits br' = rest" "h_symbol h' = length [k] - 1" "take (length [k]) (h_symbolListsArray h') = [k]"
    "length (h_symbolListsArray h') = 720" "16 \<le> length (h_nextSymbol h')" "32 \<le> length (h_table h')"
  proof -
    have "\<forall>x\<in>set [k]. x < 2 ^ simple_bits sizeMax \<and> x < 2 ^ 16 \<and> x < sizeLimit" "distinct [k]" "length [k] \<in> {1, 2, 3, 4}"
      using assms(7-9) by simp_all
    then show thesis by (rule readHuffmanCode_symbols [OF assms(1-3) bits assms(6)]) (rule that)
  qed
  define val where "val = take 4 (h_symbolListsArray h')"
  have v: "length val = 4" "val ! 0 = k"
    using r(6,7) by (simp_all add: val_def) (cases "h_symbolListsArray h'", simp_all)
  obtain table' where b: "BuildSimpleHuffmanTable table huffmanTableBits val 0 = Some (table', val, 256)" "length table' = length table"
    "table_ok (take 256 table')" "\<forall>w. sym_look (take 256 table') w = Some (k, 0)"
    by (rule BuildSimple_single [OF assms(4) v assms(8)])
  have "code_read P sz rest table (s\<lparr>ds_br := br', ds_headerArena := h'\<rparr>) (huffman_SimpleBuild table (s\<lparr>ds_br := br', ds_headerArena := h'\<rparr>))"
  proof (rule huffman_SimpleBuild_ok)
    show "BuildSimpleHuffmanTable table huffmanTableBits (take 4 (h_symbolListsArray h')) 0 = Some (table', val, 256)" using b(1) by (simp add: val_def)
    show "br_bits (ds_br (s\<lparr>ds_br := br', ds_headerArena := h'\<rparr>)) = fields_bits (if h_symbol h' = 3 then [(1, if False then 1 else 0)] else []) @ rest"
      using r(4,5) by simp
  qed (use r b v assms(10) in simp_all)
  then show ?thesis unfolding r(1) by (simp add: code_read_state)
qed


subsection \<open>Writing any code\<close>

lemma alphabet_bits_Len: "alphabet_bits v = bits_Len v"
proof (induction v rule: alphabet_bits.induct)
  case (1 v)
  then show ?case by (subst alphabet_bits.simps) (cases "v = 0", simp_all add: bits_Len_pos)
qed

lemma scan_used_ok:
  assumes "length s4 = 4" and "cnt \<le> 5" and "scan_used i vs (cnt, s4) = (cnt', s4')" and "u = map ((+) i) (used_symbols vs)"
  shows "cnt' = min 5 (cnt + length u) \<and> length s4' = 4 \<and> take cnt' s4' = take 4 (take cnt s4 @ u) \<and> set s4' \<subseteq> set s4 \<union> set u"
  using assms
proof (induction vs arbitrary: i cnt s4 u)
  case Nil
  then show ?case by (cases "cnt \<le> 4") (auto simp: used_symbols_def)
next
  case (Cons v vs)
  define u' where "u' = map ((+) (i + 1)) (used_symbols vs)"
  have u: "u = (if v = 0 then u' else i # u')" using Cons.prems(4) by (simp add: used_symbols_Cons u'_def comp_def)
  consider "v = 0" | "v \<noteq> 0" "cnt < 4" | "v \<noteq> 0" "cnt = 4" | "v \<noteq> 0" "cnt = 5" using Cons.prems(2) by linarith
  then show ?case
  proof cases
    case 1
    then have "scan_used (i + 1) vs (cnt, s4) = (cnt', s4')" using Cons.prems(3) by simp
    from Cons.IH [OF Cons.prems(1,2) this u'_def] show ?thesis unfolding u if_P [OF 1] .
  next
    case 2
    then have s: "scan_used (i + 1) vs (cnt + 1, s4[cnt := i]) = (cnt', s4')" using Cons.prems(3) by simp
    have "length (s4[cnt := i]) = 4" "cnt + 1 \<le> 5" using Cons.prems(1) 2 by simp_all
    from Cons.IH [OF this s u'_def] have r: "cnt' = min 5 (cnt + 1 + length u')" "length s4' = 4"
      "take cnt' s4' = take 4 (take (cnt + 1) (s4[cnt := i]) @ u')" "set s4' \<subseteq> set (s4[cnt := i]) \<union> set u'" by blast+
    have "take (cnt + 1) (s4[cnt := i]) = take cnt s4 @ [i]" using 2 Cons.prems(1) by (simp add: take_Suc_conv_app_nth)
    then show ?thesis using r 2(1) set_update_subset_insert [of s4 cnt i] by (auto simp: u)
  next
    case 3
    then have s: "scan_used (i + 1) vs (5, s4) = (cnt', s4')" using Cons.prems(3) by simp
    from Cons.IH [OF Cons.prems(1) _ s u'_def] show ?thesis using 3 Cons.prems(1) by (auto simp: u)
  next
    case 4
    then show ?thesis using Cons.prems(1,3) by (auto simp: u)
  qed
qed

text \<open>A writer of a code: it writes the fields, and whoever reads them gets a table for the codes.\<close>

definition code_written :: "nat list \<Rightarrow> nat \<Rightarrow> nat list \<Rightarrow> nat list \<Rightarrow> (nat \<times> u64) list \<Rightarrow> bool" where
  "code_written histogram alphabetSize depth codes fs \<longleftrightarrow> fields_ok fs \<and>
     (\<forall>sizeLimit table s rest. length histogram \<le> sizeLimit \<and> sizeLimit \<le> 704 \<and> length histogram + 376 \<le> length table \<and>
        prefix_arena (ds_headerArena s) \<and> br_inv (ds_br s) \<and> br_ready (ds_br s) \<and> br_bits (ds_br s) = fields_bits fs @ rest \<longrightarrow>
        code_read (reads_symbols histogram depth codes) (length histogram) rest table s (readHuffmanCode alphabetSize sizeLimit table s))"

lemma code_read_weaken:
  assumes "code_read P sz rest table s x" and "\<And>t. P t \<Longrightarrow> Q t"
  shows "code_read Q sz rest table s x"
  using assms unfolding code_read_def by blast

lemma symbol_field:
  assumes "k < n" and "n \<le> alphabetSize" and "alphabetSize \<le> 2 ^ 16"
  shows "simple_bits alphabetSize \<le> 16" and "k < 2 ^ simple_bits alphabetSize" and "unat (of_nat k :: u64) < 2 ^ simple_bits alphabetSize"
    and "alphabet_bits (usub alphabetSize 1) = simple_bits alphabetSize"
proof -
  have "usub alphabetSize 1 = alphabetSize - 1" using assms by (intro usub_exact) simp_all
  then show "alphabet_bits (usub alphabetSize 1) = simple_bits alphabetSize" by (simp add: alphabet_bits_Len simple_bits_def)
  show "simple_bits alphabetSize \<le> 16" 
  proof -
    have "alphabetSize - 1 < 2 ^ 16" using assms by linarith
    then have "bits_Len (alphabetSize - 1) \<le> 16" by (simp only: bits_Len_le_iff)
    then show ?thesis by (simp add: simple_bits_def)
  qed
  have "alphabetSize - 1 < 2 ^ simple_bits alphabetSize"
    using bits_Len_le_iff [of "alphabetSize - 1" "bits_Len (alphabetSize - 1)"] by (simp add: simple_bits_def)
  then show k: "k < 2 ^ simple_bits alphabetSize" using assms(1,2) by linarith
  have "k < 2 ^ 64" using assms by simp
  then show "unat (of_nat k :: u64) < 2 ^ simple_bits alphabetSize" using k by (simp add: unat_of_nat64)
qed

lemma single_written:
  assumes "k < length histogram" and "length histogram \<le> alphabetSize" and "alphabetSize \<le> 2 ^ 16"
    and "\<forall>i<length histogram. histogram ! i \<noteq> 0 \<longrightarrow> i = k" and "depth ! k = 0" and "codes ! k = 0"
  shows "code_written histogram alphabetSize depth codes [(4, 1), (simple_bits alphabetSize, of_nat k)]"
proof -
  note f = symbol_field [OF assms(1-3)]
  have k16: "k < 2 ^ 16" using assms(1-3) by simp
  have "code_read (reads_symbols histogram depth codes) (length histogram) rest table s (readHuffmanCode alphabetSize sizeLimit table s)"
    if h: "length histogram \<le> sizeLimit" "length histogram + 376 \<le> length table" "prefix_arena (ds_headerArena s)" "br_inv (ds_br s)" "br_ready (ds_br s)"
      "br_bits (ds_br s) = fields_bits [(4, 1), (simple_bits alphabetSize, of_nat k)] @ rest" for sizeLimit table s rest
    by (rule readHuffmanCode_single [OF h(3-5) _ h(6) _ f(2) k16])
      (use f(1) h assms single_table_reads in auto)
  moreover have "fields_ok [(4, 1), (simple_bits alphabetSize, of_nat k :: u64)]" using f(1,3) by simp
  ultimately show ?thesis by (simp add: code_written_def)
qed

lemma simple_written:
  assumes "complete ls" and "length ls = length histogram" and "length histogram \<le> 704" and "length histogram \<le> alphabetSize" and "alphabetSize \<le> 2 ^ 16"
    and "mset xs = mset (used_symbols ls)" and "sorted (map ((!) ls) xs)" and "length xs \<in> {2, 3, 4}"
    and "\<forall>k<length histogram. histogram ! k \<noteq> 0 \<longrightarrow> ls ! k \<noteq> 0 \<and> depth ! k = ls ! k \<and> codes ! k = symbol_code ls k"
  shows "code_written histogram alphabetSize depth codes (simple_fields (simple_bits alphabetSize) xs (ls ! (xs ! 0) = 1))"
proof -
  have l704: "length ls \<le> 704" using assms(2,3) by simp
  have lt: "x < length histogram" if "x \<in> set xs" for x
  proof -
    have "x \<in> set (used_symbols ls)" using that assms(6) by (metis set_mset_mset)
    then show ?thesis using assms(2) by (simp add: used_symbols)
  qed
  have f: "simple_bits alphabetSize \<le> 16" "x < 2 ^ simple_bits alphabetSize" "unat (of_nat x :: u64) < 2 ^ simple_bits alphabetSize"
    if "x \<in> set xs" for x using symbol_field [OF lt [OF that] assms(4,5)] by simp_all
  have ne: "xs ! 0 \<in> set xs" using assms(8) by (cases xs) auto
  have "code_read (reads_symbols histogram depth codes) (length histogram) rest table s (readHuffmanCode alphabetSize sizeLimit table s)"
    if h: "length histogram \<le> sizeLimit" "length histogram + 376 \<le> length table" "prefix_arena (ds_headerArena s)" "br_inv (ds_br s)" "br_ready (ds_br s)"
      "br_bits (ds_br s) = fields_bits (simple_fields (simple_bits alphabetSize) xs (ls ! (xs ! 0) = 1)) @ rest" for sizeLimit table s rest
  proof -
    have b: "simple_bits alphabetSize \<le> 57" "256 \<le> length table" using f(1) [OF ne] h(2) by simp_all
    have r: "\<forall>x\<in>set xs. x < 2 ^ simple_bits alphabetSize \<and> x < 2 ^ 16 \<and> x < sizeLimit" using f(2) lt h(1) assms(3) by fastforce
    have "code_read (code_table ls) (length ls) rest table s (readHuffmanCode alphabetSize sizeLimit table s)"
      by (rule readHuffmanCode_simple [OF assms(1) l704 assms(6-8) b(1) r h(3-5) b(2) h(6)])
    then show ?thesis using code_table_reads [OF _ assms(1) l704 assms(2,9)] assms(2) by (auto elim: code_read_weaken)
  qed
  moreover have "fields_ok (simple_fields (simple_bits alphabetSize) xs deep)" for deep
  proof -
    have "fields_ok (map (\<lambda>x. (simple_bits alphabetSize, of_nat x :: u64)) ys)" if "set ys \<subseteq> set xs" for ys
      using that f by (induction ys) (auto intro: order_trans [of _ 16])
    moreover have "unat (of_nat (length xs) - 1 :: u64) < 2 ^ 2" using assms(8) by auto
    ultimately show ?thesis by (auto simp: simple_fields_def fields_ok_append)
  qed
  ultimately show ?thesis by (simp add: code_written_def)
qed

lemma complex_written:
  assumes "complete ls" and "length ls = length histogram" and "complex_code bd0 bd sy skip n toks" and "spells toks ls"
    and "fields_ok (complex_fields bd0 bd sy skip n toks)"
    and "\<forall>k<length histogram. histogram ! k \<noteq> 0 \<longrightarrow> ls ! k \<noteq> 0 \<and> depth ! k = ls ! k \<and> codes ! k = symbol_code ls k"
  shows "code_written histogram alphabetSize depth codes (complex_fields bd0 bd sy skip n toks)"
proof -
  have "code_read (reads_symbols histogram depth codes) (length histogram) rest table s (readHuffmanCode alphabetSize sizeLimit table s)"
    if h: "length histogram \<le> sizeLimit" "sizeLimit \<le> 704" "length histogram + 376 \<le> length table" "prefix_arena (ds_headerArena s)" "br_inv (ds_br s)"
      "br_ready (ds_br s)" "br_bits (ds_br s) = fields_bits (complex_fields bd0 bd sy skip n toks) @ rest" for sizeLimit table s rest
  proof -
    have l: "length ls \<le> sizeLimit" "length ls + 376 \<le> length table" "length ls \<le> 704" using h(1-3) assms(2) by simp_all
    have "code_read (code_table ls) (length ls) rest table s (readHuffmanCode alphabetSize sizeLimit table s)"
      by (rule readHuffmanCode_complex [OF assms(1) l(1) h(2) assms(4) l(2) assms(3) h(4-7)])
    then show ?thesis using code_table_reads [OF _ assms(1) l(3) assms(2,6)] assms(2) by (auto elim: code_read_weaken)
  qed
  then show ?thesis using assms(5) by (simp add: code_written_def)
qed


subsection \<open>Both sides\<close>

text \<open>What \<^verbatim>\<open>buildAndWriteHuffmanTree\<close> does to its arrays and to the stream.\<close>

definition built_code :: "nat list \<Rightarrow> nat \<Rightarrow> huffmanTreeNode list \<Rightarrow> nat list \<Rightarrow> nat list \<Rightarrow> bitWriter \<Rightarrow>
    (huffmanTreeNode list \<times> nat list \<times> nat list \<times> bitWriter) option \<Rightarrow> bool" where
  "built_code histogram alphabetSize tree depth codes b result \<longleftrightarrow> (\<exists>tree' depth' codes' fs.
     result = map_option (\<lambda>b'. (tree', depth', codes', b')) (put_fields writeBits fs b) \<and>
     length tree' = length tree \<and> length depth' = length depth \<and> length codes' = length codes \<and>
     code_written histogram alphabetSize depth' codes' fs)"

lemma built_codeI:
  assumes "result = map_option (\<lambda>b'. (tree', depth', codes', b')) (put_fields writeBits fs b)"
    and "length tree' = length tree" and "length depth' = length depth" and "length codes' = length codes"
    and "code_written histogram alphabetSize depth' codes' fs"
  shows "built_code histogram alphabetSize tree depth codes b result"
  using assms unfolding built_code_def by blast

lemma build_scan:
  assumes "length histogram \<le> length depth" and "length histogram \<le> length codes" and "u = used_symbols histogram"
    and "depth0 = overwrite depth 0 (replicate (length histogram) 0)" and "codes0 = overwrite codes 0 (replicate (length histogram) 0)"
    and "0 < length histogram" and "length histogram \<le> alphabetSize" and "alphabetSize \<le> 2 ^ 16"
  obtains s4 where "length s4 = 4" "take (min 4 (length u)) s4 = take 4 u" "\<forall>x\<in>set s4. x < length histogram"
    "buildAndWriteHuffmanTree histogram alphabetSize tree depth codes b =
      (if length u \<le> 1 then do {
         b \<leftarrow> writeBits 4 1 b;
         b \<leftarrow> writeBits (simple_bits alphabetSize) (of_nat (s4 ! 0)) b;
         depth \<leftarrow> go_update depth0 (int (s4 ! 0)) 0;
         codes \<leftarrow> go_update codes0 (int (s4 ! 0)) 0;
         Some (tree, depth, codes, b) }
       else do {
         (tree, depth) \<leftarrow> createHuffmanTree histogram 15 tree depth0;
         cs \<leftarrow> convertBitDepthsToSymbols (take (length histogram) depth) (take (length histogram) codes0);
         let codes = overwrite codes0 0 cs;
         if length u \<le> 4 then do {
           b \<leftarrow> writeSimpleHuffmanTree depth s4 (length u) (simple_bits alphabetSize) b;
           Some (tree, depth, codes, b) }
         else do {
           (tree, b) \<leftarrow> writeHuffmanTree (take (length histogram) depth) tree b;
           Some (tree, depth, codes, b) } })"
proof -
  obtain cnt s4 where sc: "scan_used 0 histogram (0, [0, 0, 0, 0]) = (cnt, s4)" by fastforce
  have u: "u = map ((+) 0) (used_symbols histogram)" unfolding assms(3) by (rule map_idI [symmetric]) simp
  have r: "cnt = min 5 (length u)" "length s4 = 4" "take cnt s4 = take 4 u" "set s4 \<subseteq> {0} \<union> set u"
    using scan_used_ok [OF _ _ sc u] by auto
  have g: "go_slice depth 0 (int (length histogram)) \<noteq> None" "go_slice codes 0 (int (length histogram)) \<noteq> None"
    using assms(1,2) by (simp_all add: go_slice_def)
  have mb: "alphabet_bits (usub alphabetSize 1) = simple_bits alphabetSize" using symbol_field(4) [OF assms(6-8)] .
  have c: "cnt \<le> 1 \<longleftrightarrow> length u \<le> 1" "cnt \<le> 4 \<longleftrightarrow> length u \<le> 4" using r(1) by auto
  have c4: "length u \<le> 4 \<Longrightarrow> cnt = length u" using r(1) by simp
  have t: "take (min 4 (length u)) s4 = take 4 u"
  proof (cases "length u \<le> 4")
    case True
    then show ?thesis using r(3) c4 by simp
  next
    case False
    then show ?thesis using r(1-3) by simp
  qed
  have "\<forall>x\<in>set s4. x < length histogram" using r(4) assms(3,6) by (auto simp: used_symbols)
  moreover have "buildAndWriteHuffmanTree histogram alphabetSize tree depth codes b =
      (if length u \<le> 1 then do {
         b \<leftarrow> writeBits 4 1 b;
         b \<leftarrow> writeBits (simple_bits alphabetSize) (of_nat (s4 ! 0)) b;
         depth \<leftarrow> go_update depth0 (int (s4 ! 0)) 0;
         codes \<leftarrow> go_update codes0 (int (s4 ! 0)) 0;
         Some (tree, depth, codes, b) }
       else do {
         (tree, depth) \<leftarrow> createHuffmanTree histogram 15 tree depth0;
         cs \<leftarrow> convertBitDepthsToSymbols (take (length histogram) depth) (take (length histogram) codes0);
         let codes = overwrite codes0 0 cs;
         if length u \<le> 4 then do {
           b \<leftarrow> writeSimpleHuffmanTree depth s4 (length u) (simple_bits alphabetSize) b;
           Some (tree, depth, codes, b) }
         else do {
           (tree, b) \<leftarrow> writeHuffmanTree (take (length histogram) depth) tree b;
           Some (tree, depth, codes, b) } })"
    unfolding buildAndWriteHuffmanTree_def Let_def sc mb prod.case c assms(4,5) [symmetric]
    using g c4 by (auto split: option.splits cong: if_cong)
  ultimately show thesis using that r(2) t by blast
qed

lemma overwrite_zeros:
  assumes "n \<le> length xs"
  shows "length (overwrite xs 0 (replicate n 0)) = length xs" and "k < n \<Longrightarrow> overwrite xs 0 (replicate n 0) ! k = (0 :: nat)"
  using assms by (simp_all add: overwrite_def nth_append)

lemma used_symbols_cong:
  assumes "length ls = length xs" and "\<forall>k<length xs. (ls ! k = 0) = (xs ! k = 0)"
  shows "used_symbols ls = used_symbols xs"
  unfolding used_symbols_def assms(1) by (rule filter_cong) (use assms(2) in auto)

text \<open>The lengths and codes of two or more symbols.\<close>

lemma build_codes:
  assumes "length histogram \<le> 704" and "2 \<le> length (used_symbols histogram)" and "\<forall>c\<in>set histogram. c \<le> 2 ^ 21"
    and "length histogram \<le> length depth" and "length histogram \<le> length codes" and "2 * length histogram < length tree"
  obtains tree' depth' cs where "createHuffmanTree histogram 15 tree (overwrite depth 0 (replicate (length histogram) 0)) = Some (tree', depth')"
    "length tree' = length tree" "length depth' = length depth" "complete (take (length histogram) depth')"
    "used_symbols (take (length histogram) depth') = used_symbols histogram"
    "convertBitDepthsToSymbols (take (length histogram) depth') (take (length histogram) (overwrite codes 0 (replicate (length histogram) 0))) = Some cs"
    "length (overwrite (overwrite codes 0 (replicate (length histogram) 0)) 0 cs) = length codes"
    "\<forall>k<length histogram. histogram ! k \<noteq> 0 \<longrightarrow> take (length histogram) depth' ! k \<noteq> 0 \<and> depth' ! k = take (length histogram) depth' ! k \<and>
      overwrite (overwrite codes 0 (replicate (length histogram) 0)) 0 cs ! k = symbol_code (take (length histogram) depth') k"
proof -
  define n where "n = length histogram"
  define depth0 codes0 where "depth0 = overwrite depth 0 (replicate n 0)" and "codes0 = overwrite codes 0 (replicate n 0)"
  have z: "length depth0 = length depth" "\<forall>k<n. depth0 ! k = 0" "length codes0 = length codes"
    using overwrite_zeros [of n depth] overwrite_zeros [of n codes] assms(4,5) by (simp_all add: n_def depth0_def codes0_def)
  have ul: "length (used_symbols histogram) \<le> n" using length_used [of histogram] by (simp add: n_def)
  have "length (used_symbols histogram) \<le> 2 ^ 15" "2 * length (used_symbols histogram) < length tree" "length histogram \<le> length depth0"
    "\<forall>k<length histogram. depth0 ! k = 0"
    using ul assms(1,4,6) z by (simp_all add: n_def)
  then obtain tree' depth' where t: "createHuffmanTree histogram 15 tree depth0 = Some (tree', depth')" "length tree' = length tree"
    "length depth' = length depth" "complete (take n depth')" "\<forall>k<n. (depth' ! k = 0 \<longleftrightarrow> histogram ! k = 0) \<and> depth' ! k \<le> 15"
    using createHuffmanTree_ok [OF assms(1,2) _ _ _ assms(3), of 15 depth0 tree] z(1) unfolding n_def by auto
  define ls where "ls = take n depth'"
  have ll: "length ls = n" using t(3) assms(4) by (simp add: ls_def n_def)
  have lk: "ls ! k = depth' ! k" if "k < n" for k using that by (simp add: ls_def)
  have us: "used_symbols ls = used_symbols histogram" by (rule used_symbols_cong) (use ll lk t(5) in \<open>simp_all add: n_def\<close>)
  have l2: "length ls \<le> 704" "length ls \<le> length (take n codes0)" using ll assms(1,5) z(3) by (simp_all add: n_def)
  obtain cs where c: "convertBitDepthsToSymbols ls (take n codes0) = Some cs" "length cs = length (take n codes0)"
    "\<forall>k<length (take n codes0). cs ! k = (if k < length ls \<and> ls ! k \<noteq> 0 then symbol_code ls k else take n codes0 ! k)"
    using convert_symbol_code [OF t(4) [folded ls_def] l2] by blast
  have lc: "length cs = n" using c(2) z(3) assms(5) by (simp add: n_def)
  have o: "length (overwrite codes0 0 cs) = length codes" "\<And>k. k < n \<Longrightarrow> overwrite codes0 0 cs ! k = cs ! k"
    using lc z(3) assms(5) by (simp_all add: overwrite_def nth_append n_def)
  have "\<forall>k<n. histogram ! k \<noteq> 0 \<longrightarrow> ls ! k \<noteq> 0 \<and> depth' ! k = ls ! k \<and> overwrite codes0 0 cs ! k = symbol_code ls k"
    using t(5) lk o(2) c(2,3) lc ll by simp
  then show thesis using that t(1-4) us c(1) o(1) unfolding n_def ls_def depth0_def codes0_def by blast
qed

lemma buildAndWriteHuffmanTree_ok:
  assumes "0 < length histogram" and "length histogram \<le> 704" and "length histogram \<le> alphabetSize" and "alphabetSize \<le> 2 ^ 16"
    and "\<forall>c\<in>set histogram. c \<le> 2 ^ 21" and "length histogram \<le> length depth" and "length histogram \<le> length codes"
    and "2 * length histogram < length tree" and "37 \<le> length tree"
  shows "built_code histogram alphabetSize tree depth codes b (buildAndWriteHuffmanTree histogram alphabetSize tree depth codes b)"
proof -
  define n u where "n = length histogram" and "u = used_symbols histogram"
  define depth0 codes0 where "depth0 = overwrite depth 0 (replicate n 0)" and "codes0 = overwrite codes 0 (replicate n 0)"
  obtain s4 where s4: "length s4 = 4" "take (min 4 (length u)) s4 = take 4 u" "\<forall>x\<in>set s4. x < n" and W:
    "buildAndWriteHuffmanTree histogram alphabetSize tree depth codes b =
      (if length u \<le> 1 then do {
         b \<leftarrow> writeBits 4 1 b;
         b \<leftarrow> writeBits (simple_bits alphabetSize) (of_nat (s4 ! 0)) b;
         depth \<leftarrow> go_update depth0 (int (s4 ! 0)) 0;
         codes \<leftarrow> go_update codes0 (int (s4 ! 0)) 0;
         Some (tree, depth, codes, b) }
       else do {
         (tree, depth) \<leftarrow> createHuffmanTree histogram 15 tree depth0;
         cs \<leftarrow> convertBitDepthsToSymbols (take n depth) (take n codes0);
         let codes = overwrite codes0 0 cs;
         if length u \<le> 4 then do {
           b \<leftarrow> writeSimpleHuffmanTree depth s4 (length u) (simple_bits alphabetSize) b;
           Some (tree, depth, codes, b) }
         else do {
           (tree, b) \<leftarrow> writeHuffmanTree (take n depth) tree b;
           Some (tree, depth, codes, b) } })"
    using build_scan [OF assms(6,7) u_def, of depth0 codes0 alphabetSize tree b] assms(1,3,4) unfolding depth0_def codes0_def n_def by blast
  show ?thesis
  proof (cases "length u \<le> 1")
    case True
    define k where "k = s4 ! 0"
    have k: "k < n" using s4(1,3) by (simp add: k_def)
    have z: "length depth0 = length depth" "length codes0 = length codes" "depth0 ! k = 0" "codes0 ! k = 0"
      using overwrite_zeros [of n depth] overwrite_zeros [of n codes] assms(6,7) k by (simp_all add: n_def depth0_def codes0_def)
    have only: "\<forall>i<length histogram. histogram ! i \<noteq> 0 \<longrightarrow> i = k"
    proof (intro allI impI)
      fix i assume "i < length histogram" "histogram ! i \<noteq> 0"
      then have i: "i \<in> set u" by (simp add: u_def used_symbols)
      then have "u = [i]" using True by (cases u) auto
      then show "i = k" using s4(1,2) by (cases s4) (simp_all add: k_def)
    qed
    have cw: "code_written histogram alphabetSize depth0 codes0 [(4, 1), (simple_bits alphabetSize, of_nat k)]"
      by (rule single_written) (use k only z(3,4) assms(3,4) in \<open>simp_all add: n_def\<close>)
    have go: "go_update depth0 (int k) 0 = Some depth0" "go_update codes0 (int k) 0 = Some codes0"
      using k z assms(6,7) by (simp_all add: go_update_def n_def) (metis list_update_id)+
    show ?thesis
      by (rule built_codeI [OF _ refl z(1,2) cw]) (use True go in \<open>simp add: W k_def [symmetric] map_option_case split: option.splits bind_splits\<close>)
  next
    case False
    then have two: "2 \<le> length (used_symbols histogram)" by (simp add: u_def)
    obtain tree' depth' cs where c: "createHuffmanTree histogram 15 tree depth0 = Some (tree', depth')"
      "length tree' = length tree" "length depth' = length depth" "complete (take n depth')" "used_symbols (take n depth') = u"
      "convertBitDepthsToSymbols (take n depth') (take n codes0) = Some cs" "length (overwrite codes0 0 cs) = length codes"
      "\<forall>k<length histogram. histogram ! k \<noteq> 0 \<longrightarrow> take n depth' ! k \<noteq> 0 \<and> depth' ! k = take n depth' ! k \<and> overwrite codes0 0 cs ! k = symbol_code (take n depth') k"
      using build_codes [OF assms(2) two assms(5-8)] unfolding n_def u_def depth0_def codes0_def by metis
    have ll: "length (take n depth') = length histogram" using c(3) assms(6) by (simp add: n_def)
    show ?thesis
    proof (cases "length u \<le> 4")
      case True
      then have cnt: "length u \<in> {2, 3, 4}" using False by auto
      have tu: "take (length u) s4 = u" using s4(2) True by simp
      have r: "\<forall>x\<in>set s4. x < length depth'" using s4(3) c(3) assms(6) by (auto simp: n_def)
      obtain xs where xs: "length xs = length u" "mset xs = mset (take (length u) s4)" "sorted (map ((!) depth') xs)"
        "writeSimpleHuffmanTree depth' s4 (length u) (simple_bits alphabetSize) b = put_fields writeBits (simple_fields (simple_bits alphabetSize) xs (depth' ! (xs ! 0) = 1)) b"
        by (rule writeSimpleHuffmanTree_fields [OF s4(1) r cnt])
      have sx: "set xs \<subseteq> set s4" using xs(2) by (metis set_mset_mset set_take_subset)
      have m: "map ((!) (take n depth')) xs = map ((!) depth') xs" using sx s4(3) by (intro map_cong refl) auto
      have x0: "take n depth' ! (xs ! 0) = depth' ! (xs ! 0)"
      proof -
        have "xs ! 0 \<in> set xs" using xs(1) cnt by (intro nth_mem) auto
        then show ?thesis using sx s4(3) by auto
      qed
      have "code_written histogram alphabetSize depth' (overwrite codes0 0 cs) (simple_fields (simple_bits alphabetSize) xs (take n depth' ! (xs ! 0) = 1))"
      proof (rule simple_written [OF c(4) ll assms(2-4) _ _ _ c(8)])
        show "mset xs = mset (used_symbols (take n depth'))" using xs(2) by (simp only: tu c(5))
        show "sorted (map ((!) (take n depth')) xs)" unfolding m by (rule xs(3))
        show "length xs \<in> {2, 3, 4}" unfolding xs(1) by (rule cnt)
      qed
      then have cw: "code_written histogram alphabetSize depth' (overwrite codes0 0 cs) (simple_fields (simple_bits alphabetSize) xs (depth' ! (xs ! 0) = 1))"
        by (simp only: x0)
      show ?thesis
        by (rule built_codeI [OF _ c(2,3,7) cw]) (use True False c(1,6) xs(4) in \<open>simp add: W map_option_case split: option.splits bind_splits\<close>)
    next
      case deep: False
      have l704: "length (take n depth') \<le> 704" "37 \<le> length tree'" using ll assms(2,9) c(2) by simp_all
      obtain tree2 toks bd0 bd sy skip m where w:
        "writeHuffmanTree (take n depth') tree' b = map_option (Pair tree2) (put_fields writeBits (complex_fields bd0 bd sy skip m toks) b)"
        "complex_code bd0 bd sy skip m toks" "spells toks (take n depth')" "fields_ok (complex_fields bd0 bd sy skip m toks)" "length tree2 = length tree'"
        by (rule writeHuffmanTree_fields [OF c(4) l704])
      have cw: "code_written histogram alphabetSize depth' (overwrite codes0 0 cs) (complex_fields bd0 bd sy skip m toks)"
        by (rule complex_written [OF c(4) ll w(2-4) c(8)])
      have l2: "length tree2 = length tree" using w(5) c(2) by simp
      show ?thesis
        by (rule built_codeI [OF _ l2 c(3,7) cw]) (use deep False c(1,6) w(1) in \<open>simp add: W map_option_case split: option.splits bind_splits\<close>)
    qed
  qed
qed

text \<open>C4. A prefix code survives its way through the stream: for every histogram of up to 704 symbols with counts of at most
  \<open>2 ^ 21\<close>, \<^verbatim>\<open>buildAndWriteHuffmanTree\<close> writes a sequence of fields, and \<^verbatim>\<open>readHuffmanCode\<close>, started in any decoder state with
  these bits in front of it, succeeds, leaves exactly the bits behind them, and returns a table of at most 376 entries more
  than symbols with which \<^verbatim>\<open>safeReadSymbol\<close> reads, for every symbol that occurs, the code value chosen for it as this
  symbol. This covers codes of one symbol, simple codes of two to four, and complex codes, whose own lengths go through the
  code length code; and reading by the batched loop, by the loop with four bytes of room and byte by byte.\<close>

theorem prefix_code_roundtrip:
  assumes "0 < length histogram" and "length histogram \<le> 704" and "length histogram \<le> alphabetSize" and "alphabetSize \<le> 2 ^ 16"
    and "\<forall>c\<in>set histogram. c \<le> 2 ^ 21" and "length histogram \<le> length depth" and "length histogram \<le> length codes"
    and "2 * length histogram < length tree" and "37 \<le> length tree"
  shows "\<exists>tree' depth' codes' fs.
    buildAndWriteHuffmanTree histogram alphabetSize tree depth codes b =
      map_option (\<lambda>b'. (tree', depth', codes', b')) (put_fields writeBits fs b) \<and> fields_ok fs \<and>
    (\<forall>sizeLimit table s rest. length histogram \<le> sizeLimit \<and> sizeLimit \<le> 704 \<and> length histogram + 376 \<le> length table \<and>
       prefix_arena (ds_headerArena s) \<and> br_inv (ds_br s) \<and> br_ready (ds_br s) \<and> br_bits (ds_br s) = fields_bits fs @ rest \<longrightarrow>
       (\<exists>table' m s'. readHuffmanCode alphabetSize sizeLimit table s = Some (ResultSuccess, table', m, s') \<and> m \<le> length histogram + 376 \<and>
          br_inv (ds_br s') \<and> br_ready (ds_br s') \<and> br_bits (ds_br s') = rest \<and> prefix_arena (ds_headerArena s') \<and>
          reads_symbols histogram depth' codes' (take m table')))"
proof -
  obtain tree' depth' codes' fs where w: "buildAndWriteHuffmanTree histogram alphabetSize tree depth codes b =
      map_option (\<lambda>b'. (tree', depth', codes', b')) (put_fields writeBits fs b)" "code_written histogram alphabetSize depth' codes' fs"
    using buildAndWriteHuffmanTree_ok [OF assms, of b] unfolding built_code_def by blast
  then show ?thesis unfolding code_written_def code_read_def
    by (intro exI [of _ tree'] exI [of _ depth'] exI [of _ codes'] exI [of _ fs]) fastforce
qed

lemma reader_of_bits:
  obtains data rest where "br_bits (setInput data zero_br) = bs @ rest" "br_inv (setInput data zero_br)" "br_ready (setInput data zero_br)"
proof -
  define pad where "pad = replicate (7 * length bs) False"
  obtain data where d: "bs @ pad = bytes_bits data" using bytes_bits_surj [of "bs @ pad" "length bs"] by (auto simp: pad_def)
  show thesis
    by (rule that [of data pad])
      (simp_all add: d setInput_def br_bits_def br_inv_def br_ready_def acc_ok_def zero_br_def)
qed

theorem prefix_code_roundtrip_witness:
  "\<exists>tree' depth' codes' fs data rest table' m s'.
    buildAndWriteHuffmanTree [3, 1, 0, 1, 1, 1] 6 (replicate 37 sentinel) [0, 0, 0, 0, 0, 0] [0, 0, 0, 0, 0, 0] \<lparr>buf = replicate 64 0, bitOffset = 0\<rparr> =
      map_option (\<lambda>b'. (tree', depth', codes', b')) (put_fields writeBits fs \<lparr>buf = replicate 64 0, bitOffset = 0\<rparr>) \<and> fields_ok fs \<and>
    br_bits (setInput data zero_br) = fields_bits fs @ rest \<and>
    readHuffmanCode 6 6 (replicate 382 (mkCode 0 0)) (zero_state\<lparr>ds_br := setInput data zero_br\<rparr>) = Some (ResultSuccess, table', m, s') \<and>
    br_bits (ds_br s') = rest \<and> reads_symbols [3, 1, 0, 1, 1, 1] depth' codes' (take m table')"
proof -
  define h :: "nat list" where "h = [3, 1, 0, 1, 1, 1]"
  have "\<exists>tree' depth' codes' fs.
    buildAndWriteHuffmanTree h 6 (replicate 37 sentinel) [0, 0, 0, 0, 0, 0] [0, 0, 0, 0, 0, 0] \<lparr>buf = replicate 64 0, bitOffset = 0\<rparr> =
      map_option (\<lambda>b'. (tree', depth', codes', b')) (put_fields writeBits fs \<lparr>buf = replicate 64 0, bitOffset = 0\<rparr>) \<and> fields_ok fs \<and>
    (\<forall>sizeLimit table s rest. length h \<le> sizeLimit \<and> sizeLimit \<le> 704 \<and> length h + 376 \<le> length table \<and>
       prefix_arena (ds_headerArena s) \<and> br_inv (ds_br s) \<and> br_ready (ds_br s) \<and> br_bits (ds_br s) = fields_bits fs @ rest \<longrightarrow>
       (\<exists>table' m s'. readHuffmanCode 6 sizeLimit table s = Some (ResultSuccess, table', m, s') \<and> m \<le> length h + 376 \<and>
          br_inv (ds_br s') \<and> br_ready (ds_br s') \<and> br_bits (ds_br s') = rest \<and> prefix_arena (ds_headerArena s') \<and>
          reads_symbols h depth' codes' (take m table')))"
    by (rule prefix_code_roundtrip) (simp_all add: h_def)
  then obtain tree' depth' codes' fs where w: "buildAndWriteHuffmanTree h 6 (replicate 37 sentinel) [0, 0, 0, 0, 0, 0] [0, 0, 0, 0, 0, 0] \<lparr>buf = replicate 64 0, bitOffset = 0\<rparr> =
      map_option (\<lambda>b'. (tree', depth', codes', b')) (put_fields writeBits fs \<lparr>buf = replicate 64 0, bitOffset = 0\<rparr>)" "fields_ok fs"
    "\<And>sizeLimit table s rest. length h \<le> sizeLimit \<and> sizeLimit \<le> 704 \<and> length h + 376 \<le> length table \<and>
       prefix_arena (ds_headerArena s) \<and> br_inv (ds_br s) \<and> br_ready (ds_br s) \<and> br_bits (ds_br s) = fields_bits fs @ rest \<Longrightarrow>
       \<exists>table' m s'. readHuffmanCode 6 sizeLimit table s = Some (ResultSuccess, table', m, s') \<and> m \<le> length h + 376 \<and>
          br_inv (ds_br s') \<and> br_ready (ds_br s') \<and> br_bits (ds_br s') = rest \<and> prefix_arena (ds_headerArena s') \<and>
          reads_symbols h depth' codes' (take m table')" by blast
  obtain data rest where d: "br_bits (setInput data zero_br) = fields_bits fs @ rest" "br_inv (setInput data zero_br)" "br_ready (setInput data zero_br)"
    by (rule reader_of_bits)
  define s where "s = zero_state\<lparr>ds_br := setInput data zero_br\<rparr>"
  have "prefix_arena (ds_headerArena s)"
    by (simp add: prefix_arena_def s_def zero_state_def zero_header_def HuffmanMaxCodeLength_def AlphabetSizeInsertAndCopyLength_def)
  then obtain table' m s' where "readHuffmanCode 6 6 (replicate 382 (mkCode 0 0)) s = Some (ResultSuccess, table', m, s')" "br_bits (ds_br s') = rest"
    "reads_symbols h depth' codes' (take m table')"
    using w(3) [of 6 "replicate 382 (mkCode 0 0)" s rest] d by (auto simp: h_def s_def)
  then show ?thesis using w(1,2) d(1) unfolding h_def s_def by blast
qed

end
