(* ===== verification/Decode_Fast_Command.thy ===== *)
theory Decode_Fast_Command
  imports Decode_Fast
begin

unbundle bit_operations_syntax

text \<open>
  The fast paths of commands and distances. With input to spare \<^verbatim>\<open>processCommands\<close> reads a command through
  the packed and cached copies of \<^verbatim>\<open>core.CmdLut\<close> and a distance with one refill; both give what the
  resumable readers give.
\<close>

subsection \<open>Packed commands\<close>

definition entry_ok :: "CmdLutElement \<Rightarrow> bool" where
  "entry_ok e \<longleftrightarrow> InsertLenExtraBits e \<le> 24 \<and> CopyLenExtraBits e \<le> 24 \<and> (DistanceCode e = -1 \<or> DistanceCode e = 0) \<and>
     Context e < 4 \<and> InsertLenOffset e < 2 ^ 15 \<and> 0 < CopyLenOffset e \<and> CopyLenOffset e < 2 ^ 15"

lemma insert_fields: "i \<in> set [0..<24] \<Longrightarrow> insertExtra ! i \<le> 24 \<and> insert_offset ! i < 2 ^ 15"
  by (simp add: upt_rec insertExtra_def insert_offset_def) auto

lemma copy_fields: "i \<in> set [0..<24] \<Longrightarrow> copyExtra ! i \<le> 24 \<and> 0 < copy_offset ! i \<and> copy_offset ! i < 2 ^ 15"
  by (simp add: upt_rec copyExtra_def copy_offset_def) auto

lemma rfc_entry_ok: "i < 24 \<Longrightarrow> c < 24 \<Longrightarrow> entry_ok (rfc_entry u i c)"
  using insert_fields [of i] copy_fields [of c] by (simp add: rfc_entry_def entry_ok_def cmdE_def)

lemma CmdLut_entry_ok:
  assumes "code < 704"
  shows "entry_ok (CmdLut ! code)"
proof -
  define q i c where "q = code div 64" and "i = code mod 64 div 8" and "c = code mod 64 mod 8"
  have b: "q < 11" "i < 8" "c < 8" "code = 64 * q + (8 * i + c)" using assms by (auto simp: q_def i_def c_def)
  obtain u r k where x: "rfc_cells ! q = (u, r, k)" by (cases "rfc_cells ! q")
  have "q < length rfc_cells" using b(1) by (simp add: rfc_cells_def)
  then have "rfc_cells ! q \<in> set rfc_cells" by simp
  then have "r \<le> 2" "k \<le> 2" unfolding x by (auto simp: rfc_cells_def)
  then show ?thesis using CmdLut_nth [OF b(1-3) x] b rfc_entry_ok [of "8 * r + i" "8 * k + c" u] by simp
qed

lemma bit_of_nat_bound: "n < 2 ^ k \<Longrightarrow> bit (of_nat n :: 'a::len word) j \<Longrightarrow> j < k"
proof (rule ccontr)
  assume a: "n < 2 ^ k" "bit (of_nat n :: 'a word) j" "\<not> j < k"
  have "bit n j" using a(2) by (simp add: bit_simps)
  moreover have "n < 2 ^ j" using a(1,3) by (meson leI less_le_trans one_le_numeral power_increasing)
  ultimately show False by (simp add: bit_iff_odd)
qed

text \<open>Six fields packed into 64 bits are read back.\<close>

lemma packed_fields:
  fixes a b c d i k :: u64
  assumes "\<forall>j. bit a j \<longrightarrow> j < 8" "\<forall>j. bit b j \<longrightarrow> j < 8" "\<forall>j. bit d j \<longrightarrow> j < 8" "\<forall>j. bit c j \<longrightarrow> j < 8"
    "\<forall>j. bit i j \<longrightarrow> j < 16" "\<forall>j. bit k j \<longrightarrow> j < 16"
  defines "w \<equiv> a OR push_bit 8 b OR push_bit 16 d OR push_bit 24 c OR push_bit 32 i OR push_bit 48 k"
  shows "(ucast (drop_bit 0 w) :: byte) = ucast a" "(ucast (drop_bit 8 w) :: byte) = ucast b" "(ucast (drop_bit 16 w) :: byte) = ucast d"
    "(ucast (drop_bit 24 w) :: byte) = ucast c" "(ucast (drop_bit 32 w) :: u16) = ucast i" "drop_bit 48 w = k"
proof -
  have n: "\<not> bit a j" "\<not> bit b j" "\<not> bit c j" "\<not> bit d j" if "8 \<le> j" for j using assms(1-4) that not_less by blast+
  have m: "\<not> bit i j" "\<not> bit k j" if "16 \<le> j" for j using assms(5,6) that not_less by blast+
  have lt: "j < 64" if "bit x j" for x :: u64 and j using bit_imp_le_length [OF that] by simp
  show "(ucast (drop_bit 0 w) :: byte) = ucast a" "(ucast (drop_bit 8 w) :: byte) = ucast b" "(ucast (drop_bit 16 w) :: byte) = ucast d"
    "(ucast (drop_bit 24 w) :: byte) = ucast c"
    unfolding w_def by (rule bit_word_eqI; use n m in \<open>auto simp: bit_simps dest!: lt\<close>)+
  show "(ucast (drop_bit 32 w) :: u16) = ucast i" "drop_bit 48 w = k"
    unfolding w_def by (rule bit_word_eqI; use n m in \<open>auto simp: bit_simps dest: assms(5,6) [rule_format]\<close>)+
qed

lemma packEntry_fields:
  assumes "entry_ok e"
  shows "lut_byte 0 (packEntry e) = InsertLenExtraBits e" "lut_byte 8 (packEntry e) = CopyLenExtraBits e"
    "sint (ucast (drop_bit 16 (packEntry e)) :: byte) = DistanceCode e" "lut_byte 24 (packEntry e) = Context e"
    "uint (ucast (drop_bit 32 (packEntry e)) :: u16) = int (InsertLenOffset e)" "uint (drop_bit 48 (packEntry e)) = int (CopyLenOffset e)"
    "packEntry e \<noteq> 0"
proof -
  note b = assms [unfolded entry_ok_def]
  have bits: "n < 256 \<Longrightarrow> \<forall>j. bit (of_nat n :: u64) j \<longrightarrow> j < 8" "n < 2 ^ 15 \<Longrightarrow> \<forall>j. bit (of_nat n :: u64) j \<longrightarrow> j < 16" for n
    using bit_of_nat_bound [of n 8, where 'a = 64] bit_of_nat_bound [of n 15, where 'a = 64] by fastforce+
  have db: "\<forall>j. bit (ucast (of_int (DistanceCode e) :: byte) :: u64) j \<longrightarrow> j < 8" by (simp add: bit_simps)
  have f: "InsertLenExtraBits e < 256" "CopyLenExtraBits e < 256" "Context e < 256" "InsertLenOffset e < 2 ^ 15" "CopyLenOffset e < 2 ^ 15"
    using b by auto
  note p = packed_fields [of "of_nat (InsertLenExtraBits e)" "of_nat (CopyLenExtraBits e)" "ucast (of_int (DistanceCode e) :: byte)"
    "of_nat (Context e)" "of_nat (InsertLenOffset e)" "of_nat (CopyLenOffset e)",
    OF bits(1) [OF f(1)] bits(1) [OF f(2)] db bits(1) [OF f(3)] bits(2) [OF f(4)] bits(2) [OF f(5)], folded packEntry_def]
  have u: "(ucast (of_nat n :: u64) :: byte) = of_nat n" "(ucast (of_nat n :: u64) :: u16) = of_nat n" for n
    by (rule bit_word_eqI; simp add: bit_simps)+
  show "lut_byte 0 (packEntry e) = InsertLenExtraBits e" "lut_byte 8 (packEntry e) = CopyLenExtraBits e" "lut_byte 24 (packEntry e) = Context e"
    unfolding lut_byte_def unfolding p unfolding u using f by (simp_all add: unat_of_nat)
  have uc: "(ucast (ucast x :: u64) :: byte) = x" for x :: byte by (rule bit_word_eqI) (simp add: bit_simps)
  show "sint (ucast (drop_bit 16 (packEntry e)) :: byte) = DistanceCode e"
    unfolding p uc using b by auto
  show "uint (ucast (drop_bit 32 (packEntry e)) :: u16) = int (InsertLenOffset e)" unfolding p u using f by (simp add: uint_nat unat_of_nat)
  show k: "uint (drop_bit 48 (packEntry e)) = int (CopyLenOffset e)" unfolding p using f by (simp add: uint_nat unat_of_nat)
  show "packEntry e \<noteq> 0" using k b by auto
qed

definition cmd_ready :: "decodeState \<Rightarrow> bool" where
  "cmd_ready s \<longleftrightarrow> table_ok (ds_htreeCommand s) \<and> symbols_below 704 (ds_htreeCommand s) \<and> length (ds_distCodesCache s) = 4 \<and>
     sl_ok (ds_cmdLuts s) \<and> (\<exists>start1. ds_htreeCommandLut s = Some start1 \<and> start1 + 256 \<le> sl_len (ds_cmdLuts s) \<and>
       (\<forall>i<256. sl_data (ds_cmdLuts s) ! (start1 + i) = 0 \<or>
          sl_data (ds_cmdLuts s) ! (start1 + i) = packEntry (CmdLut ! Value (ds_htreeCommand s ! i))))"

lemma cmdLutPacked_nth: "code < 704 \<Longrightarrow> go_index cmdLutPacked (int code) = Some (packEntry (CmdLut ! code))"
  by (simp add: cmdLutPacked_def packCmdLut_def length_CmdLut)

text \<open>The cached lookup: the number of bits of the symbol and its packed entry; the cache stays valid.\<close>

lemma command_lut_look:
  assumes ready: "cmd_ready s" and idx: "uint idx = int (unat v mod 256)"
    and l: "sym_look (ds_htreeCommand s) (unat v mod 2 ^ 15) = Some (x, d)" and d: "d \<le> 15" and x: "x < 704"
  obtains luts where "command_lut idx v s = Some (d, packEntry (CmdLut ! x), s\<lparr>ds_cmdLuts := luts\<rparr>)"
    "cmd_ready (s\<lparr>ds_cmdLuts := luts\<rparr>)"
proof -
  define i where "i = unat v mod 256"
  have i: "i < 256" by (simp add: i_def)
  let ?t = "ds_htreeCommand s"
  obtain start1 where st: "ds_htreeCommandLut s = Some start1" "start1 + 256 \<le> sl_len (ds_cmdLuts s)"
    "\<And>j. j < 256 \<Longrightarrow> sl_data (ds_cmdLuts s) ! (start1 + j) = 0 \<or>
       sl_data (ds_cmdLuts s) ! (start1 + j) = packEntry (CmdLut ! Value (?t ! j))"
    using ready by (auto simp: cmd_ready_def)
  have ok: "table_ok ?t" "symbols_below 704 ?t" "sl_ok (ds_cmdLuts s)" using ready by (auto simp: cmd_ready_def)
  have "idx = word_of_int (uint idx)" by (simp only: word_of_int_uint)
  then have mi: "idx = of_nat i" unfolding idx i_def by (simp only: of_int_of_nat_eq)
  have slot: "int start1 + uint idx = int (start1 + i)" using idx i_def by simp
  note e = table_entry [OF ok(1) i]
  have h: "huffmanEntry ?t 0 (of_nat i) = Some (Bits (?t ! i) OR push_bit 16 (Value (?t ! i)))"
    using huffmanEntry_drop [of 0 ?t "of_nat i"] e(1) idx unfolding mi i_def [symmetric] by simp
  have b: "Bits (?t ! i) < 256" using e(2) by simp
  define lut where "lut = sl_data (ds_cmdLuts s) ! (start1 + i)"
  have g: "sl_get (ds_cmdLuts s) (int (start1 + i)) = Some lut"
    unfolding sl_get_def go_index_Some using st(2) i length_sl_list [OF ok(3)] by (simp add: lut_def sl_list_def)
  note sl = l [unfolded sym_look_def mod_mod_256, folded i_def, unfolded e(1) Option.bind.bind_lunit]
  note p = pack_entry_fields [OF b, of "Value (?t ! i)"]
  have t8: "huffmanTableBits = 8" by (simp add: huffmanTableBits_def)
  show thesis
  proof (cases "Bits (?t ! i) \<le> 8")
    case False
    define n where "n = Bits (?t ! i) - 8"
    have n: "n \<le> 7" "Bits (?t ! i) = n + 8" using e(2) False by (auto simp: n_def)
    have sl2: "(do { e2 \<leftarrow> go_index ?t (int (i + Value (?t ! i) + unat v div 256 mod 2 ^ n)); Some (Value e2, 8 + Bits e2) }) = Some (x, d)"
      using sl False unfolding n_def [symmetric] mod_div_mod [OF n(1)] by simp
    then obtain e2 where e2: "go_index ?t (int (i + Value (?t ! i) + unat v div 256 mod 2 ^ n)) = Some e2"
      "x = Value e2" "d = 8 + Bits e2" by (auto split: bind_splits)
    have b2: "Bits e2 < 256" using e2(3) d by simp
    have h2: "huffmanEntry ?t 0 (of_nat i + of_nat (Value (?t ! i)) + (drop_bit 8 v AND bitMask n)) =
        Some (Bits e2 OR push_bit 16 (Value e2))"
      using huffmanEntry_drop [of 0 ?t] e2(1) by (simp add: second_index [OF i e(3) n(1)])
    have g8: "8 < n + 8" using False n(2) by auto
    have "command_lut idx v s = Some (d, packEntry (CmdLut ! x), s)"
      unfolding command_lut_def Let_def mi h Option.bind.bind_lunit st(1) slot [unfolded mi] g p t8 unfolding n(2) if_P [OF g8]
      using e2 x by (simp add: cmdLutPacked_nth h2 pack_entry_fields [OF b2] drop_push small_drop [OF b2])
    then show thesis using that [of "ds_cmdLuts s"] ready by simp
  next
    case True
    then have xd: "x = Value (?t ! i)" "d = Bits (?t ! i)" using sl by auto
    show thesis
    proof (cases "lut = 0")
      case False
      then have "lut = packEntry (CmdLut ! x)" using st(3) [OF i] by (simp add: lut_def xd)
      then have "command_lut idx v s = Some (d, packEntry (CmdLut ! x), s)"
        unfolding command_lut_def Let_def mi h Option.bind.bind_lunit st(1) slot [unfolded mi] g p t8 using True False xd by simp
      then show thesis using that [of "ds_cmdLuts s"] ready by simp
    next
      case zero: True
      let ?luts = "(ds_cmdLuts s)\<lparr>sl_data := (sl_data (ds_cmdLuts s))[start1 + i := packEntry (CmdLut ! x)]\<rparr>"
      have set1: "sl_set (ds_cmdLuts s) (int (start1 + i)) (packEntry (CmdLut ! x)) = Some ?luts"
        by (rule sl_set_ok(1) [OF ok(3)]) (use st(2) i in simp)
      have "command_lut idx v s = Some (d, packEntry (CmdLut ! x), s\<lparr>ds_cmdLuts := ?luts\<rparr>)"
        unfolding command_lut_def Let_def mi h Option.bind.bind_lunit st(1) slot [unfolded mi] g p t8
        using True zero xd(2) set1 by (simp add: xd(1) [symmetric] cmdLutPacked_nth [OF x] del: go_index_Some)
      moreover have "cmd_ready (s\<lparr>ds_cmdLuts := ?luts\<rparr>)"
        using ready st xd(1) ok(3) i unfolding cmd_ready_def by (auto simp: nth_list_update sl_ok_def)
      ultimately show thesis by (rule that)
    qed
  qed
qed


subsection \<open>A command on the fast path\<close>

text \<open>The reader built from the local variables of the fast path.\<close>

abbreviation (input) reader :: "u64 \<Rightarrow> nat \<Rightarrow> bitReader \<Rightarrow> bitReader" where
  "reader v bp br \<equiv> br\<lparr>br_val := v, br_bitPos := bp\<rparr>"

lemma reader_drop: "reader (drop_bit (n mod 64) v) (usub bp n) br = dropBits n (reader v bp br)"
  by (simp add: dropBits_def)

lemma refill64_reader:
  assumes "br_inv (reader v bp br)" and "bp < 64" and "nat (br_pos br) + 8 \<le> length (br_input br)"
  obtains v' bp' br' where "refill64 v bp br = Some (v', bp', br')" "br_inv (reader v' bp' br')"
    "br_bits (reader v' bp' br') = br_bits (reader v bp br)" "56 \<le> bp'" "bp' < 64"
    "br_input br' = br_input br" "nat (br_pos br') \<le> nat (br_pos br) + 8"
proof -
  let ?b = "reader v bp br"
  obtain v' bp' b' where r: "refill64 (br_val ?b) (br_bitPos ?b) ?b = Some (v', bp', b')" "br_inv (b'\<lparr>br_val := v', br_bitPos := bp'\<rparr>)"
    "br_bits (b'\<lparr>br_val := v', br_bitPos := bp'\<rparr>) = br_bits ?b" "56 \<le> bp'" "bp' < 64"
    by (rule refill64_ok [OF assms(1)]) (use assms(2,3) in simp_all)
  define br' where "br' = br\<lparr>br_pos := br_pos b'\<rparr>"
  have "usub 63 bp = 63 - bp" using assms(2) by simp
  then have "refill64 v bp br = Some (v', bp', br')" "reader v' bp' br' = b'\<lparr>br_val := v', br_bitPos := bp'\<rparr>"
    "nat (br_pos br') \<le> nat (br_pos br) + 8"
    using r(1) by (auto simp: refill64_def br'_def split: bind_splits)
  then show thesis using that [of v' bp' br'] r(2-5) by (simp add: br'_def)
qed

lemma low_byte_window:
  assumes "8 \<le> br_bitPos br"
  shows "unat (br_val br) mod 256 = window (br_bits br) mod 256"
proof -
  have e: "take 8 (br_bits br) = bits_of 8 (br_val br)" using assms by (simp add: br_bits_def take_bits_of)
  have len: "8 \<le> length (take 15 (br_bits br))" using arg_cong [OF e, of length] by simp
  have "window (br_bits br) mod 2 ^ 8 = val_of (take 8 (take 15 (br_bits br)))"
    unfolding window_def using len by (rule val_of_take_mod)
  also have "\<dots> = val_of (bits_of 8 (br_val br))" using e by (simp add: min_def)
  also have "\<dots> = unat (br_val br) mod 2 ^ 8" by (simp only: val_of_bits_of unsigned_take_bit_eq) (simp only: take_bit_eq_mod)
  finally show ?thesis by simp
qed

lemma sint_small: "unat (w :: u64) < 2 ^ 63 \<Longrightarrow> sint w = int (unat w)"
proof -
  assume a: "unat w < 2 ^ 63"
  have u: "uint w = int (unat w)" by (rule uint_nat)
  have "int (unat w) < int (2 ^ 63)" using a by (simp only: of_nat_less_iff)
  then have lt: "uint w < 2 ^ 63" unfolding u by simp
  have "- (2 ^ 63) \<le> uint w" by (rule order_trans [of _ 0]) simp_all
  then have "signed_take_bit 63 (uint w) = uint w" using lt by (rule signed_take_bit_int_eq_self)
  then show ?thesis unfolding u [symmetric] sint_uint by simp
qed

text \<open>The command at the front of the bits: insert and copy length with their extra bits, and the rest.\<close>

definition command_of :: "nat \<Rightarrow> bool list \<Rightarrow> nat \<times> nat \<times> bool list" where
  "command_of x bs = (let e = CmdLut ! x; bs2 = drop (InsertLenExtraBits e) bs in
     (val_of (take (InsertLenExtraBits e) bs), CopyLenOffset e + val_of (take (CopyLenExtraBits e) bs2), drop (CopyLenExtraBits e) bs2))"

definition command_state :: "nat \<Rightarrow> nat \<Rightarrow> bitReader \<Rightarrow> decodeState \<Rightarrow> decodeState" where
  "command_state x n br s = s\<lparr>ds_br := br, ds_distanceCode := DistanceCode (CmdLut ! x), ds_distanceContext := int (Context (CmdLut ! x)),
     ds_distCodesOffset := ds_distCodesCache s ! Context (CmdLut ! x), ds_copyLength := int n\<rparr>"

lemma val_of_take_less: "n \<le> 24 \<Longrightarrow> val_of (take n bs) < 2 ^ 24"
proof -
  assume "n \<le> 24"
  have "val_of (take n bs) < 2 ^ length (take n bs)" by (rule val_of_lt)
  also have "\<dots> \<le> 2 ^ 24" using \<open>n \<le> 24\<close> by (intro power_increasing) auto
  finally show ?thesis .
qed

lemma masked_field:
  assumes "br_inv (reader v bp br)" and "n \<le> bp" and "n \<le> 24"
  shows "v AND bitMask n = of_nat (val_of (take n (br_bits (reader v bp br))))"
    "br_inv (dropBits n (reader v bp br))" "br_bits (dropBits n (reader v bp br)) = drop n (br_bits (reader v bp br))"
proof -
  have t: "unat (fst (takeBits n (reader v bp br))) = val_of (take n (br_bits (reader v bp br)))"
    using takeBits_ok(1) [OF assms(1)] assms(2,3) by simp
  show "v AND bitMask n = of_nat (val_of (take n (br_bits (reader v bp br))))"
    unfolding t [symmetric] by (simp add: takeBits_def)
  show "br_inv (dropBits n (reader v bp br))" "br_bits (dropBits n (reader v bp br)) = drop n (br_bits (reader v bp br))"
    using dropBits_ok [OF assms(1)] assms(2,3) by simp_all
qed

lemma command_fast_ok:
  assumes ready: "cmd_ready s" and inv: "br_inv (ds_br s)" and bp: "8 \<le> br_bitPos (ds_br s)" "br_bitPos (ds_br s) < 64"
    and room: "nat (br_pos (ds_br s)) + 32 \<le> length (br_input (ds_br s))"
    and l: "sym_look (ds_htreeCommand s) (window (br_bits (ds_br s))) = Some (x, d)"
    and c: "command_of x (drop d (br_bits (ds_br s))) = (ins, n, rest)"
  shows "\<exists>br' luts. command_fast s = Some (int (InsertLenOffset (CmdLut ! x)), of_nat ins, command_state x n br' (s\<lparr>ds_cmdLuts := luts\<rparr>)) \<and>
    br_inv br' \<and> br_bits br' = rest \<and> cmd_ready (s\<lparr>ds_cmdLuts := luts\<rparr>) \<and> ins < 2 ^ 24"
proof -
  let ?br = "ds_br s" let ?bits = "br_bits ?br"
  define e where "e = CmdLut ! x"
  have tab: "table_ok (ds_htreeCommand s)" "symbols_below 704 (ds_htreeCommand s)" using ready by (auto simp: cmd_ready_def)
  have x: "x < 704" using tab(2) l window_less unfolding symbols_below_def by blast
  have d: "d \<le> 15" using table_okD [OF tab(1) window_less, of ?bits] l by (metis option.inject prod.inject)
  have e: "entry_ok e" using CmdLut_entry_ok [OF x] by (simp add: e_def)
  note eb = e [unfolded entry_ok_def]
  note pf = packEntry_fields [OF e, unfolded e_def, folded e_def]
  obtain v b br1 where r1: "refill64 (br_val ?br) (br_bitPos ?br) ?br = Some (v, b, br1)" "br_inv (reader v b br1)"
    "br_bits (reader v b br1) = ?bits" "56 \<le> b" "b < 64" "br_input br1 = br_input ?br" "nat (br_pos br1) \<le> nat (br_pos ?br) + 8"
    by (rule refill64_reader [where v = "br_val ?br" and bp = "br_bitPos ?br" and br = ?br]) (use inv bp room in simp_all)
  have w: "unat v mod 2 ^ 15 = window ?bits" using window_unat [of "reader v b br1"] r1(3,4) by simp
  have idx: "uint (br_val ?br AND huffmanTableMask) = int (unat v mod 256)"
    unfolding uint_mask_index low_byte_window [OF bp(1)] w [symmetric] mod_mod_256 ..
  let ?s1 = "s\<lparr>ds_br := br1\<rparr>"
  have "cmd_ready ?s1" using ready by (simp add: cmd_ready_def)
  then obtain luts where lut: "command_lut (br_val ?br AND huffmanTableMask) v ?s1 = Some (d, packEntry e, ?s1\<lparr>ds_cmdLuts := luts\<rparr>)"
    "cmd_ready (?s1\<lparr>ds_cmdLuts := luts\<rparr>)"
    unfolding e_def by (rule command_lut_look [OF _ idx _ d x]) (use l w in simp_all)
  have "int (Context e) AND 3 = int (Context e)" using eb take_bit_int_eq_self [of "int (Context e)" 2] by (simp add: take_bit_eq_mask mask_eq_exp_minus_1)
  then have ctx: "go_index (ds_distCodesCache s) (int (Context e) AND 3) = Some (ds_distCodesCache s ! Context e)"
    using ready eb by (simp add: cmd_ready_def)
  define bs where "bs = drop d ?bits"
  define n1 n2 where "n1 = InsertLenExtraBits e" and "n2 = CopyLenExtraBits e"
  have n12: "n1 \<le> 24" "n2 \<le> 24" using eb by (simp_all add: n1_def n2_def)
  have cc: "ins = val_of (take n1 bs)" "n = CopyLenOffset e + val_of (take n2 (drop n1 bs))" "rest = drop n2 (drop n1 bs)"
    using c by (auto simp: command_of_def Let_def e_def bs_def n1_def n2_def)
  define vd bd where "vd = drop_bit (d mod 64) v" and "bd = usub b d"
  have b2: "bd = b - d" "41 \<le> bd" "bd < 64" using r1(4,5) d by (simp_all add: bd_def)
  have i2: "br_inv (reader vd bd br1)" "br_bits (reader vd bd br1) = bs"
    unfolding vd_def bd_def reader_drop using dropBits_ok [OF r1(2), of d] r1(3,4) d by (simp_all add: bs_def)
  have ins: "\<exists>v3 b3 br3. (if n1 \<noteq> 0 then do {
         (v', bp, br) \<leftarrow> refill64 (drop_bit (n1 mod 64) vd) (usub bd n1) br1;
         Some (vd AND bitMask n1, v', bp, br) }
       else Some (0, vd, bd, br1)) = Some (of_nat ins, v3, b3, br3) \<and> br_inv (reader v3 b3 br3) \<and>
       br_bits (reader v3 b3 br3) = drop n1 bs \<and> 24 \<le> b3 \<and> b3 < 64"
  proof (cases "n1 = 0")
    case True
    then show ?thesis using i2 b2 cc(1) by simp
  next
    case False
    note f = masked_field [OF i2(1), of n1, folded reader_drop, unfolded i2(2)]
    have le: "n1 \<le> bd" using n12 b2 by simp
    have lt: "usub bd n1 < 64" using le b2(3) by simp
    obtain v3 b3 br3 where r3: "refill64 (drop_bit (n1 mod 64) vd) (usub bd n1) br1 = Some (v3, b3, br3)" "br_inv (reader v3 b3 br3)"
      "br_bits (reader v3 b3 br3) = br_bits (reader (drop_bit (n1 mod 64) vd) (usub bd n1) br1)" "56 \<le> b3" "b3 < 64"
      by (rule refill64_reader [OF f(2) [OF le n12(1)] lt]) (use r1(6,7) room in simp_all)
    then show ?thesis using False f(1,3) [OF le n12(1)] cc(1) by (simp add: case_prod_unfold)
  qed
  then obtain v3 b3 br3 where r3: "(if n1 \<noteq> 0 then do {
         (v', bp, br) \<leftarrow> refill64 (drop_bit (n1 mod 64) vd) (usub bd n1) br1;
         Some (vd AND bitMask n1, v', bp, br) }
       else Some (0, vd, bd, br1)) = Some (of_nat ins, v3, b3, br3)" "br_inv (reader v3 b3 br3)"
       "br_bits (reader v3 b3 br3) = drop n1 bs" "24 \<le> b3" "b3 < 64" by blast
  have le3: "n2 \<le> b3" using n12 r3(4) by simp
  note f3 = masked_field [OF r3(2) le3 n12(2), unfolded r3(3), folded reader_drop]
  define cp where "cp = val_of (take n2 (drop n1 bs))"
  have cp: "cp < 2 ^ 24" "ins < 2 ^ 24" using val_of_take_less n12 by (simp_all add: cp_def cc(1))
  have "sint (of_nat cp :: u64) = int cp" using cp(1) sint_small [of "of_nat cp"] by (simp add: unat_of_nat)
  then have sc: "uint (drop_bit 48 (packEntry e)) + sint (v3 AND bitMask n2) = int n"
    unfolding f3(1) cp_def [symmetric] using pf(6) cc(2) cp_def by simp
  let ?br4 = "reader (drop_bit (n2 mod 64) v3) (usub b3 n2) br3"
  have "command_fast s = Some (int (InsertLenOffset e), of_nat ins, command_state x n ?br4 (s\<lparr>ds_cmdLuts := luts\<rparr>))"
    unfolding command_fast_def Let_def r1(1) Option.bind.bind_lunit prod.case lut(1) pf n1_def [symmetric] n2_def [symmetric]
      vd_def [symmetric] bd_def [symmetric]
    using ctx r3(1) sc pf(6)
    by (cases "n1 = 0") (auto simp: command_state_def e_def [symmetric] split: bind_splits)
  then show ?thesis using f3(2,3) lut(2) cp(2) cc(3) by (auto simp: e_def cmd_ready_def)
qed

lemma command_safe_ok:
  assumes tab: "table_ok (ds_htreeCommand s)" "length (ds_distCodesCache s) = 4" and x: "x < 704" and inv: "br_inv (ds_br s)"
    and l: "sym_look (ds_htreeCommand s) (window (br_bits (ds_br s))) = Some (x, d)"
    and c: "command_of x (drop d (br_bits (ds_br s))) = (ins, n, rest)"
    and len: "d + InsertLenExtraBits (CmdLut ! x) + CopyLenExtraBits (CmdLut ! x) \<le> length (br_bits (ds_br s))"
  shows "\<exists>br'. command_safe s = Some (Inr (int (InsertLenOffset (CmdLut ! x)), of_nat ins,
      command_state x n br' (s\<lparr>ds_safeCmdMemento := saveState (ds_br s)\<rparr>))) \<and> br_inv br' \<and> br_bits br' = rest"
proof -
  define e where "e = CmdLut ! x"
  have e: "entry_ok e" using CmdLut_entry_ok [OF x] by (simp add: e_def)
  note eb = e [unfolded entry_ok_def]
  define n1 n2 where "n1 = InsertLenExtraBits e" and "n2 = CopyLenExtraBits e"
  have n12: "n1 \<le> 24" "n2 \<le> 24" using eb by (simp_all add: n1_def n2_def)
  define bs where "bs = drop d (br_bits (ds_br s))"
  have cc: "ins = val_of (take n1 bs)" "n = CopyLenOffset e + val_of (take n2 (drop n1 bs))" "rest = drop n2 (drop n1 bs)"
    using c by (auto simp: command_of_def Let_def e_def bs_def n1_def n2_def)
  have room: "d \<le> length (br_bits (ds_br s))" "n1 + n2 \<le> length bs" using len by (simp_all add: bs_def n1_def n2_def e_def)
  obtain br1 where r1: "safeReadSymbol (ds_htreeCommand s) (ds_br s) = Some (Some x, br1)" "br_inv br1" "br_bits br1 = bs"
    using safeReadSymbol_ok [OF tab(1) inv l] room(1) by (auto simp: bs_def)
  have ex: "\<exists>br2. (if n1 \<noteq> 0 then safeReadBits n1 br1 else Some (Some 0, br1)) = Some (Some (of_nat ins), br2) \<and> br_inv br2 \<and>
      br_bits br2 = drop n1 bs"
  proof (cases "n1 = 0")
    case False
    obtain r br2 where "safeReadBits n1 br1 = Some (r, br2)" "br_inv br2" "map_option unat r = Some ins" "br_bits br2 = drop n1 bs"
      using safeReadBits_ok [OF r1(2), of n1] n12 room r1(3) cc(1) by auto
    then show ?thesis using False by auto
  qed (use r1 cc(1) in simp)
  then obtain br2 where r2: "(if n1 \<noteq> 0 then safeReadBits n1 br1 else Some (Some 0, br1)) = Some (Some (of_nat ins), br2)"
    "br_inv br2" "br_bits br2 = drop n1 bs" by blast
  have l2: "n2 \<le> length (br_bits br2)" using room(2) r2(3) by simp
  obtain v br3 where r3: "safeReadBits n2 br2 = Some (Some v, br3)" "br_inv br3" "unat v = val_of (take n2 (drop n1 bs))" "br_bits br3 = rest"
    using safeReadBits_ok [OF r2(2), of n2] n12 l2 r2(3) cc(3) by auto
  have "unat v < 2 ^ 24" using r3(3) val_of_take_less [OF n12(2)] by simp
  then have sv: "int (CopyLenOffset e) + sint v = int n" using sint_small [of v] cc(2) r3(3) by simp
  have g: "go_index CmdLut (int x) = Some e" using x by (simp add: e_def length_CmdLut)
  have ctx: "go_index (ds_distCodesCache s) (int (Context e)) = Some (ds_distCodesCache s ! Context e)"
    using tab(2) eb by simp
  have "command_safe s = Some (Inr (int (InsertLenOffset e), of_nat ins,
      command_state x n br3 (s\<lparr>ds_safeCmdMemento := saveState (ds_br s)\<rparr>)))"
    unfolding command_safe_def Let_def r1(1) Option.bind.bind_lunit prod.case option.case g ctx n1_def [symmetric] n2_def [symmetric]
    using r2(1) r3(1) sv by (cases "n1 = 0") (auto simp: command_state_def e_def [symmetric])
  then show ?thesis using r3 by (auto simp: e_def)
qed

text \<open>C15. A command read on the fast path of \<^verbatim>\<open>processCommands\<close> is the command read on the resumable path. When the
  check for the fast path succeeds, both paths succeed and agree on the insert length, on its extra bits, on
  the copy length, the implied distance code, the distance context and table, and leave the same bits to be read; the fast
  path changes nothing else but the cache of packed commands, whose entries stay what \<^verbatim>\<open>core.CmdLut\<close> says.
\<close>

theorem command_paths_agree:
  assumes "cmd_ready s" and "br_inv (ds_br s)" and "br_ready (ds_br s)" and "br_bitPos (ds_br s) < 64"
    and "checkInputAmountAndBits huffmanTableBits (ds_br s)"
  shows "\<exists>i x s1 s2 luts. command_fast s = Some (i, x, s1) \<and> command_safe s = Some (Inr (i, x, s2)) \<and>
    s1 = s2\<lparr>ds_br := ds_br s1, ds_cmdLuts := luts, ds_safeCmdMemento := ds_safeCmdMemento s\<rparr> \<and> cmd_ready s1 \<and>
    br_inv (ds_br s1) \<and> br_inv (ds_br s2) \<and> br_bits (ds_br s1) = br_bits (ds_br s2)"
proof -
  let ?bits = "br_bits (ds_br s)"
  have tab: "table_ok (ds_htreeCommand s)" "symbols_below 704 (ds_htreeCommand s)" "length (ds_distCodesCache s) = 4"
    using assms(1) by (auto simp: cmd_ready_def)
  have chk: "8 \<le> br_bitPos (ds_br s)" "checkInputAmount (ds_br s)"
    using assms(5) unfolding checkInputAmountAndBits_iff by (simp_all add: huffmanTableBits_def)
  note room = fast_room [OF assms(2,3) chk(2)]
  obtain x d where l: "sym_look (ds_htreeCommand s) (window ?bits) = Some (x, d)" "d \<le> 15"
    using table_okD [OF tab(1) window_less] by metis
  have x: "x < 704" using tab(2) l(1) window_less unfolding symbols_below_def by blast
  note eb = CmdLut_entry_ok [OF x, unfolded entry_ok_def]
  have "8 * 32 \<le> length ?bits" using room by (simp add: br_bits_def)
  then have len: "d + InsertLenExtraBits (CmdLut ! x) + CopyLenExtraBits (CmdLut ! x) \<le> length ?bits" using l(2) eb by simp
  obtain ins n rest where c: "command_of x (drop d ?bits) = (ins, n, rest)" by (metis prod.exhaust)
  obtain b1 luts where f: "command_fast s = Some (int (InsertLenOffset (CmdLut ! x)), of_nat ins, command_state x n b1 (s\<lparr>ds_cmdLuts := luts\<rparr>))"
    "br_inv b1" "br_bits b1 = rest" "cmd_ready (s\<lparr>ds_cmdLuts := luts\<rparr>)"
    using command_fast_ok [OF assms(1,2) chk(1) assms(4) room l(1) c] by blast
  obtain b2 where g: "command_safe s = Some (Inr (int (InsertLenOffset (CmdLut ! x)), of_nat ins,
      command_state x n b2 (s\<lparr>ds_safeCmdMemento := saveState (ds_br s)\<rparr>)))" "br_inv b2" "br_bits b2 = rest"
    using command_safe_ok [OF tab(1,3) x assms(2) l(1) c len] by blast
  have r: "cmd_ready (command_state x n b1 (s\<lparr>ds_cmdLuts := luts\<rparr>))" using f(4) by (simp add: cmd_ready_def command_state_def)
  show ?thesis
    by (rule exI, rule exI, rule exI, rule exI, rule exI [of _ luts], rule conjI [OF f(1) conjI [OF g(1)]])
      (use f(2,3) g(2,3) r in \<open>simp add: command_state_def\<close>)
qed

text \<open>A reader with eight bits in its accumulator, for the witnesses.\<close>

definition primed :: "nat \<Rightarrow> bitReader" where
  "primed n = (setInput (replicate (Suc n) 0x55) zero_br)\<lparr>br_val := 0x55, br_bitPos := 8, br_pos := 1\<rparr>"

lemma primed_ok:
  shows "br_inv (primed n)" and "br_ready (primed n)" and "br_bitPos (primed n) = 8"
    and "32 \<le> n \<Longrightarrow> checkInputAmountAndBits huffmanTableBits (primed n)"
proof -
  let ?b = "setInput (replicate (Suc n) 0x55) zero_br"
  have f: "br_inv ?b" "br_bitPos ?b \<le> 56" "br_pos ?b < br_inputLen ?b"
    by (simp_all add: setInput_def zero_br_def br_inv_def acc_ok_empty)
  have p: "pullByte ?b = Some (True, primed n)"
    by (simp add: pullByte_def setInput_def zero_br_def primed_def go_index_def uadd_def)
  obtain b where "pullByte ?b = Some (True, b)" "br_inv b" using pullByte_True [OF f] by blast
  then show "br_inv (primed n)" using p by simp
  show "br_ready (primed n)" "br_bitPos (primed n) = 8"
    by (simp_all add: primed_def setInput_def zero_br_def br_ready_def)
  show "32 \<le> n \<Longrightarrow> checkInputAmountAndBits huffmanTableBits (primed n)"
    by (simp add: checkInputAmountAndBits_iff checkInputAmount_def primed_def setInput_def zero_br_def fastInputSlack_def huffmanTableBits_def)
qed

theorem command_paths_agree_witness:
  "\<exists>s i x s1 s2 luts. ds_br s = primed 40 \<and> ds_htreeCommand s = bit_table \<and>
    command_fast s = Some (i, x, s1) \<and> command_safe s = Some (Inr (i, x, s2)) \<and>
    s1 = s2\<lparr>ds_br := ds_br s1, ds_cmdLuts := luts, ds_safeCmdMemento := ds_safeCmdMemento s\<rparr> \<and> cmd_ready s1 \<and>
    br_inv (ds_br s1) \<and> br_inv (ds_br s2) \<and> br_bits (ds_br s1) = br_bits (ds_br s2)"
proof -
  define s where "s = zero_state\<lparr>ds_br := primed 40, ds_htreeCommand := bit_table, ds_htreeCommandLut := Some 0,
    ds_distCodesCache := [0, 0, 0, 0], ds_cmdLuts := \<lparr>sl_data = replicate 256 0, sl_len = 256\<rparr>\<rparr>"
  have f: "ds_br s = primed 40" "ds_htreeCommand s = bit_table" by (simp_all add: s_def)
  have "symbols_below 704 bit_table" using bit_table_ok(2) by (auto simp: symbols_below_def)
  then have r: "cmd_ready s" by (simp add: s_def cmd_ready_def bit_table_ok(1) sl_ok_def)
  show ?thesis using command_paths_agree [of s, unfolded f, OF r primed_ok(1,2) _ primed_ok(4)] f primed_ok(3) [of 40] by fastforce
qed


subsection \<open>A distance on the fast path\<close>

definition distance_tree :: "decodeState \<Rightarrow> HuffmanCode list" where
  "distance_tree s = drop (nat (ds_distCodesOffset s)) (sl_list (g_codes (ds_distanceHGroup s)))"

definition distance_ready :: "decodeState \<Rightarrow> bool" where
  "distance_ready s \<longleftrightarrow> 0 \<le> ds_distCodesOffset s \<and> ds_distCodesOffset s \<le> int (length (sl_list (g_codes (ds_distanceHGroup s)))) \<and>
     length (ds_blockLength s) = 3 \<and> table_ok (distance_tree s) \<and> symbols_below (length (b_distExtraBits (ds_bodyArena s))) (distance_tree s) \<and>
     length (b_distOffset (ds_bodyArena s)) = length (b_distExtraBits (ds_bodyArena s)) \<and>
     (\<forall>e \<in> set (b_distExtraBits (ds_bodyArena s)). e \<le> 24)"

text \<open>The state after the distance with symbol \<open>code\<close> and extra bits \<open>x\<close> has been read.\<close>

definition distance_read :: "nat \<Rightarrow> nat \<Rightarrow> bitReader \<Rightarrow> decodeState \<Rightarrow> decodeState option" where
  "distance_read code x br s = (let s = (take_block 2 1 (s\<lparr>ds_br := br\<rparr>))\<lparr>ds_distanceContext := 0\<rparr> in
     if code < 16 then takeDistanceFromRingBuffer (s\<lparr>ds_distanceCode := int code\<rparr>)
     else Some (s\<lparr>ds_distanceCode := dist_value (b_distOffset (ds_bodyArena s) ! code) (ds_distancePostfixBits s) (of_nat x)\<rparr>))"

definition distance_extra :: "decodeState \<Rightarrow> nat \<Rightarrow> nat" where
  "distance_extra s code = (if code < 16 then 0 else b_distExtraBits (ds_bodyArena s) ! code)"

lemma put_reader: "s\<lparr>ds_blockLength := l, ds_distanceContext := c, ds_br := br, ds_distanceCode := x\<rparr> =
    s\<lparr>ds_br := br, ds_blockLength := l, ds_distanceContext := c, ds_distanceCode := x\<rparr>"
  by simp

lemma distance_extra_le: "distance_ready s \<Longrightarrow> code < length (b_distExtraBits (ds_bodyArena s)) \<Longrightarrow> distance_extra s code \<le> 24"
  by (auto simp: distance_ready_def distance_extra_def)

lemma distExtra_at:
  "distance_ready s \<Longrightarrow> code < length (b_distExtraBits (ds_bodyArena s)) \<Longrightarrow>
   distExtra (ds_bodyArena s) code = Some (b_distExtraBits (ds_bodyArena s) ! code, b_distOffset (ds_bodyArena s) ! code)"
  by (simp add: distExtra_def distance_ready_def go_index_at)

lemma distance_fast_ok:
  assumes ready: "distance_ready s" and inv: "br_inv (ds_br s)" and bp: "8 \<le> br_bitPos (ds_br s)" "br_bitPos (ds_br s) < 64"
    and room: "nat (br_pos (ds_br s)) + 32 \<le> length (br_input (ds_br s))"
    and l: "sym_look (distance_tree s) (window (br_bits (ds_br s))) = Some (code, d)"
  defines "bs \<equiv> drop d (br_bits (ds_br s))" and "k \<equiv> distance_extra s code"
  shows "\<exists>br'. distance_fast s = distance_read code (val_of (take k bs)) br' s \<and> br_inv br' \<and> br_bits br' = drop k bs"
proof -
  let ?br = "ds_br s" let ?bits = "br_bits ?br" let ?codes = "sl_list (g_codes (ds_distanceHGroup s))"
  define off where "off = nat (ds_distCodesOffset s)"
  have off: "ds_distCodesOffset s = int off" "off \<le> length ?codes" using ready by (auto simp: distance_ready_def off_def)
  have tree: "distance_tree s = drop off ?codes" by (simp add: distance_tree_def off_def)
  have tab: "table_ok (drop off ?codes)" "symbols_below (length (b_distExtraBits (ds_bodyArena s))) (drop off ?codes)"
    using ready by (auto simp: distance_ready_def tree)
  have code: "code < length (b_distExtraBits (ds_bodyArena s))" using tab(2) l window_less unfolding symbols_below_def tree by blast
  have d: "d \<le> 15" using table_okD [OF tab(1) window_less, of ?bits] l unfolding tree by (metis option.inject prod.inject)
  obtain v b br1 where r1: "refill64 (br_val ?br) (br_bitPos ?br) ?br = Some (v, b, br1)" "br_inv (reader v b br1)"
    "br_bits (reader v b br1) = ?bits" "56 \<le> b" "b < 64"
    by (rule refill64_reader [where v = "br_val ?br" and bp = "br_bitPos ?br" and br = ?br]) (use inv bp room in simp_all)
  have w: "unat v mod 2 ^ 15 = window ?bits" using window_unat [of "reader v b br1"] r1(3,4) by simp
  have low: "br_val ?br AND huffmanTableMask = v AND huffmanTableMask"
  proof (rule word_unat_eq_iff [THEN iffD2])
    show "unat (br_val ?br AND huffmanTableMask) = unat (v AND huffmanTableMask)"
      unfolding unat_table_mask low_byte_window [OF bp(1)] w [symmetric] mod_mod_256 ..
  qed
  have sy: "symbol_entry ?codes (int off) v = Some (code, d)"
    by (rule symbol_entry_look [OF tab(1) off(2) _ d]) (use l w tree in simp)
  define vd bd where "vd = drop_bit (d mod 64) v" and "bd = usub b d"
  have i2: "br_inv (reader vd bd br1)" "br_bits (reader vd bd br1) = bs" "24 \<le> bd"
    unfolding vd_def bd_def reader_drop using dropBits_ok [OF r1(2), of d] r1(3-5) d by (simp_all add: bs_def)
  have k: "k \<le> 24" unfolding k_def by (rule distance_extra_le [OF ready code])
  note f = masked_field [OF i2(1), of k, unfolded i2(2), folded reader_drop]
  have step: "distance_fast s = (let s = (take_block 2 1 s)\<lparr>ds_distanceContext := 0\<rparr> in
     if code < 16 then takeDistanceFromRingBuffer (s\<lparr>ds_br := reader vd bd br1, ds_distanceCode := int code\<rparr>)
     else do {
       (nExtra, offset) \<leftarrow> distExtra (ds_bodyArena s) code;
       Some (s\<lparr>ds_br := reader (drop_bit (nExtra mod 64) vd) (usub bd nExtra) br1,
               ds_distanceCode := dist_value offset (ds_distancePostfixBits s) (vd AND bitMask nExtra)\<rparr>) })"
  proof -
    have "(do { raw \<leftarrow> huffmanEntry ?codes (int off) (v AND huffmanTableMask);
        if (raw AND 0xFF) > huffmanTableBits
        then decodeDistanceSymbolSecondLevel v ?codes (int off) (drop_bit 16 raw) (raw AND 0xFF)
        else Some (drop_bit 16 raw, raw AND 0xFF) }) = Some (code, d)"
      using sy unfolding symbol_entry_def decodeDistanceSymbolSecondLevel_def Let_def .
    then obtain raw where raw: "huffmanEntry ?codes (int off) (v AND huffmanTableMask) = Some raw"
      "(if (raw AND 0xFF) > huffmanTableBits
        then decodeDistanceSymbolSecondLevel v ?codes (int off) (drop_bit 16 raw) (raw AND 0xFF)
        else Some (drop_bit 16 raw, raw AND 0xFF)) = Some (code, d)"
      unfolding bind_eq_Some_conv by blast
    show ?thesis
      unfolding distance_fast_def Let_def r1(1) Option.bind.bind_lunit prod.case off(1) distanceSymbolEntryFast_def low raw
        vd_def bd_def ..
  qed
  show ?thesis
  proof (cases "code < 16")
    case True
    then have "distance_fast s = distance_read code (val_of (take k bs)) (reader vd bd br1) s" "k = 0"
      unfolding step distance_read_def Let_def k_def by (simp_all add: take_block_def distance_extra_def put_reader)
    then show ?thesis using i2 by auto
  next
    case False
    then have ke: "k = b_distExtraBits (ds_bodyArena s) ! code" by (simp add: k_def distance_extra_def)
    have "distance_fast s = distance_read code (val_of (take k bs)) (reader (drop_bit (k mod 64) vd) (usub bd k) br1) s"
      unfolding step distance_read_def Let_def using False distExtra_at [OF ready code] f(1) k i2(3)
      by (simp add: take_block_def ke [symmetric] put_reader)
    then show ?thesis using f(2,3) k i2(3) by auto
  qed
qed

lemma readDistance_ok:
  assumes ready: "distance_ready s" and inv: "br_inv (ds_br s)" and rdy: "br_ready (ds_br s)" and chk: "checkInputAmount (ds_br s)"
    and l: "sym_look (distance_tree s) (window (br_bits (ds_br s))) = Some (code, d)"
  defines "bs \<equiv> drop d (br_bits (ds_br s))" and "k \<equiv> distance_extra s code"
  shows "\<exists>br'. readDistance s = map_option (Pair ResultSuccess) (distance_read code (val_of (take k bs)) br' s) \<and> br_inv br' \<and> br_bits br' = drop k bs"
proof -
  let ?br = "ds_br s" let ?bits = "br_bits ?br" let ?codes = "sl_list (g_codes (ds_distanceHGroup s))"
  have off: "0 \<le> ds_distCodesOffset s" "ds_distCodesOffset s \<le> int (length ?codes)" "length (ds_blockLength s) = 3"
    using ready by (auto simp: distance_ready_def)
  have gs: "go_slice ?codes (ds_distCodesOffset s) (int (length ?codes)) = Some (distance_tree s)"
    using off by (simp add: go_slice_def distance_tree_def)
  have tab: "table_ok (distance_tree s)" "symbols_below (length (b_distExtraBits (ds_bodyArena s))) (distance_tree s)"
    using ready by (auto simp: distance_ready_def)
  have code: "code < length (b_distExtraBits (ds_bodyArena s))" using tab(2) l window_less unfolding symbols_below_def by blast
  note room = fast_room [OF inv rdy chk]
  obtain br1 where b1: "fillBitWindow ?br = Some br1" "br_inv br1" "br_bits br1 = ?bits" "32 \<le> br_bitPos br1"
    by (rule fillBitWindow_ok [OF inv]) (use room in simp_all)
  have p1: "nat (br_pos br1) \<le> nat (br_pos ?br) + 4" "br_input br1 = br_input ?br"
    using b1(1) by (auto simp: fillBitWindow_def split: if_splits bind_splits)
  have "unat (br_val br1) mod 2 ^ 15 = window (br_bits br1)" using window_unat b1(4) by simp
  then obtain v d' br2 where b2: "decodeSymbol (br_val br1) (distance_tree s) br1 = Some (v, br2)"
    "sym_look (distance_tree s) (window (br_bits br1)) = Some (v, d')" "br_inv br2" "br_bits br2 = drop d' (br_bits br1)"
    "br_input br2 = br_input br1" "br_pos br2 = br_pos br1"
    by (rule decodeSymbol_ok [OF tab(1) b1(2), rotated]) (use b1(4) in simp_all)
  have e: "v = code" "d' = d" "br_bits br2 = bs" using b2(2,4) l b1(3) by (simp_all add: bs_def)
  note step = readDistance_def [of s, unfolded Let_def gs Option.bind.bind_lunit if_P [OF chk] b1(1) b2(1) prod.case e(1)]
  have bl: "go_index (ds_blockLength s) 2 = Some (ds_blockLength s ! 2)" using off(3) by (simp add: go_index_def)
  show ?thesis
  proof (cases "code < 16")
    case True
    then have "readDistance s = map_option (Pair ResultSuccess) (distance_read code (val_of (take k bs)) br2 s)" "k = 0"
      unfolding step bl Option.bind.bind_lunit distance_read_def Let_def k_def
      by (simp_all add: take_block_def distance_extra_def split: bind_splits)
    then show ?thesis using b2(3) e(3) by auto
  next
    case False
    then have ke: "k = b_distExtraBits (ds_bodyArena s) ! code" by (simp add: k_def distance_extra_def)
    have k24: "k \<le> 24" unfolding k_def by (rule distance_extra_le [OF ready code])
    obtain x br3 where r: "readBits k br2 = Some (x, br3)" "br_inv br3" "unat x = val_of (take k bs)" "br_bits br3 = drop k bs"
      using readBits_ok [OF b2(3), of k] b2(5,6) p1 room k24 e(3) by auto
    have "x = of_nat (val_of (take k bs))" unfolding r(3) [symmetric] by simp
    then have r32: "readBits32 k br2 = Some (of_nat (val_of (take k bs)), br3)" using r(1) by (simp add: readBits32_def readBits_def)
    have "readDistance s = map_option (Pair ResultSuccess) (distance_read code (val_of (take k bs)) br3 s)"
      unfolding step bl Option.bind.bind_lunit distance_read_def Let_def using False distExtra_at [OF ready code] r32
      by (simp add: take_block_def ke [symmetric] put_reader)
    then show ?thesis using r by auto
  qed
qed

lemma takeDistance_put_reader:
  "takeDistanceFromRingBuffer (s\<lparr>ds_br := br\<rparr>) = map_option (\<lambda>s. s\<lparr>ds_br := br\<rparr>) (takeDistanceFromRingBuffer s)"
  by (simp add: takeDistanceFromRingBuffer_def Let_def)

lemma distance_read_some:
  "\<exists>s'. \<forall>br. distance_read code x br s = Some (s'\<lparr>ds_br := br\<rparr>)"
proof -
  let ?s = "(take_block 2 1 s)\<lparr>ds_distanceContext := 0\<rparr>"
  define r where "r = (if code < 16 then the (takeDistanceFromRingBuffer (?s\<lparr>ds_distanceCode := int code\<rparr>))
     else ?s\<lparr>ds_distanceCode := dist_value (b_distOffset (ds_bodyArena s) ! code) (ds_distancePostfixBits s) (of_nat x)\<rparr>)"
  have t: "takeDistanceFromRingBuffer (?s\<lparr>ds_distanceCode := int code\<rparr>) = Some r" if "code < 16"
    using that by (simp add: r_def takeDistanceFromRingBuffer_def Let_def)
  have p: "(take_block 2 1 (s\<lparr>ds_br := br\<rparr>))\<lparr>ds_distanceContext := 0, ds_distanceCode := c\<rparr> = (?s\<lparr>ds_distanceCode := c\<rparr>)\<lparr>ds_br := br\<rparr>" for br c
    by (simp add: take_block_def)
  have f: "ds_bodyArena (take_block 2 1 (s\<lparr>ds_br := br\<rparr>)) = ds_bodyArena s"
    "ds_distancePostfixBits (take_block 2 1 (s\<lparr>ds_br := br\<rparr>)) = ds_distancePostfixBits s" for br
    by (simp_all add: take_block_def)
  have "distance_read code x br s = Some (r\<lparr>ds_br := br\<rparr>)" for br
  proof (cases "code < 16")
    case True
    then show ?thesis unfolding distance_read_def Let_def if_P [OF True] p takeDistance_put_reader t [OF True] by simp
  next
    case False
    then show ?thesis unfolding distance_read_def Let_def if_not_P [OF False] p using f by (simp add: r_def)
  qed
  then show ?thesis by blast
qed

text \<open>C16. A distance read on the fast path is the distance the general reader reads: when the check for the fast path
  succeeds both succeed, with the same distance (from the ring of the last distances or from the extra bits), the same
  block counter and ring index, and the same bits left to be read; the two states differ in the representation of the bit
  reader only.
\<close>

theorem distance_paths_agree:
  assumes "distance_ready s" and "br_inv (ds_br s)" and "br_ready (ds_br s)" and "br_bitPos (ds_br s) < 64"
    and "checkInputAmountAndBits huffmanTableBits (ds_br s)"
  shows "\<exists>s1 s2. distance_fast s = Some s1 \<and> readDistance s = Some (ResultSuccess, s2) \<and> s1 = s2\<lparr>ds_br := ds_br s1\<rparr> \<and>
    br_inv (ds_br s1) \<and> br_inv (ds_br s2) \<and> br_bits (ds_br s1) = br_bits (ds_br s2)"
proof -
  have chk: "8 \<le> br_bitPos (ds_br s)" "checkInputAmount (ds_br s)"
    using assms(5) unfolding checkInputAmountAndBits_iff by (simp_all add: huffmanTableBits_def)
  note room = fast_room [OF assms(2,3) chk(2)]
  have tab: "table_ok (distance_tree s)" using assms(1) by (auto simp: distance_ready_def)
  obtain code d where l: "sym_look (distance_tree s) (window (br_bits (ds_br s))) = Some (code, d)"
    using table_okD [OF tab window_less] by metis
  obtain x rest b1 b2 where f: "distance_fast s = distance_read code x b1 s" "br_inv b1" "br_bits b1 = rest"
    and g: "readDistance s = map_option (Pair ResultSuccess) (distance_read code x b2 s)" "br_inv b2" "br_bits b2 = rest"
    using distance_fast_ok [OF assms(1,2) chk(1) assms(4) room l] readDistance_ok [OF assms(1-3) chk(2) l] by metis
  obtain s' where "\<forall>br. distance_read code x br s = Some (s'\<lparr>ds_br := br\<rparr>)" using distance_read_some by blast
  then show ?thesis using f g by simp
qed

theorem distance_paths_agree_witness:
  "\<exists>s s1 s2. ds_br s = primed 40 \<and> distance_tree s = bit_table \<and> ds_distRB s = [16, 15, 11, 4] \<and>
    distance_fast s = Some s1 \<and> readDistance s = Some (ResultSuccess, s2) \<and> s1 = s2\<lparr>ds_br := ds_br s1\<rparr> \<and>
    br_inv (ds_br s1) \<and> br_inv (ds_br s2) \<and> br_bits (ds_br s1) = br_bits (ds_br s2)"
proof -
  define s where "s = zero_state\<lparr>ds_br := primed 40, ds_distRB := [16, 15, 11, 4], ds_blockLength := [1, 1, 1],
    ds_distanceHGroup := (ds_distanceHGroup zero_state)\<lparr>g_codes := \<lparr>sl_data = bit_table, sl_len = 256\<rparr>\<rparr>,
    ds_distCodesOffset := 0,
    ds_bodyArena := (ds_bodyArena zero_state)\<lparr>b_distExtraBits := replicate 544 0, b_distOffset := replicate 544 0\<rparr>\<rparr>"
  have f: "ds_br s = primed 40" "distance_tree s = bit_table" "ds_distRB s = [16, 15, 11, 4]"
    by (simp_all add: s_def distance_tree_def sl_list_def bit_table_ok)
  have "symbols_below 544 bit_table" using bit_table_ok(2) by (auto simp: symbols_below_def)
  then have r: "distance_ready s" unfolding distance_ready_def f(2) by (simp add: s_def sl_list_def bit_table_ok)
  show ?thesis using distance_paths_agree [of s, unfolded f(1), OF r primed_ok(1,2) _ primed_ok(4)] f primed_ok(3) [of 40] by fastforce
qed

end
