(* ===== verification/Distance_Decode.thy ===== *)
theory Distance_Decode
  imports Decode_Fast_Command Decode_Distance
begin

unbundle bit_operations_syntax

text \<open>
  A distance from the encoder to the decoder: \<^verbatim>\<open>computeDistanceCode\<close> and \<^verbatim>\<open>prefixEncodeCopyDistance\<close> on one side, \<^verbatim>\<open>calculateDistanceLut\<close>
  and \<^verbatim>\<open>readDistance\<close> on the other, for the codes that stand for a last distance as well as for those with extra bits, and for both
  ways \<^verbatim>\<open>readDistance\<close> reads, with many bytes left or near the end of the input.
\<close>

subsection \<open>Reading a distance\<close>

text \<open>The tree of the distances is in place.\<close>

definition distance_tree_ready :: "decodeState \<Rightarrow> bool" where
  "distance_tree_ready s \<longleftrightarrow> 0 \<le> ds_distCodesOffset s \<and> ds_distCodesOffset s \<le> int (length (sl_list (g_codes (ds_distanceHGroup s)))) \<and>
     length (ds_blockLength s) = 3 \<and> table_ok (distance_tree s)"

text \<open>What the state says of a symbol: a last distance, or extra bits and an offset.\<close>

definition symbol_extra :: "decodeState \<Rightarrow> nat \<Rightarrow> nat \<Rightarrow> bool" where
  "symbol_extra s code k \<longleftrightarrow> (if code < 16 then k = 0 else k \<le> 24 \<and> distExtra (ds_bodyArena s) code = Some (k, b_distOffset (ds_bodyArena s) ! code))"

lemma tree_slice:
  "distance_tree_ready s \<Longrightarrow>
   go_slice (sl_list (g_codes (ds_distanceHGroup s))) (ds_distCodesOffset s) (int (length (sl_list (g_codes (ds_distanceHGroup s))))) = Some (distance_tree s)"
  by (simp add: distance_tree_ready_def go_slice_def distance_tree_def)

lemma readDistance_many:
  assumes ready: "distance_tree_ready s" and inv: "br_inv (ds_br s)" and rdy: "br_ready (ds_br s)" and chk: "checkInputAmount (ds_br s)"
    and l: "sym_look (distance_tree s) (window (br_bits (ds_br s))) = Some (code, d)" and k: "symbol_extra s code k"
  defines "bs \<equiv> drop d (br_bits (ds_br s))"
  shows "\<exists>br'. readDistance s = map_option (Pair ResultSuccess) (distance_read code (val_of (take k bs)) br' s) \<and> br_inv br' \<and> br_bits br' = drop k bs"
proof -
  let ?br = "ds_br s" let ?bits = "br_bits ?br"
  have tab: "table_ok (distance_tree s)" "length (ds_blockLength s) = 3" using ready by (auto simp: distance_tree_ready_def)
  note room = fast_room [OF inv rdy chk]
  obtain br1 where b1: "fillBitWindow ?br = Some br1" "br_inv br1" "br_bits br1 = ?bits" "32 \<le> br_bitPos br1"
    by (rule fillBitWindow_ok [OF inv]) (use room in simp_all)
  have p1: "nat (br_pos br1) \<le> nat (br_pos ?br) + 4" "br_input br1 = br_input ?br"
    using b1(1) by (auto simp: fillBitWindow_def split: if_splits bind_splits)
  have "unat (br_val br1) mod 2 ^ 15 = window (br_bits br1)" using window_unat b1(4) by simp
  then obtain v d' br2 where b2: "decodeSymbol (br_val br1) (distance_tree s) br1 = Some (v, br2)"
    "sym_look (distance_tree s) (window (br_bits br1)) = Some (v, d')" "br_inv br2" "br_bits br2 = drop d' (br_bits br1)"
    "br_input br2 = br_input br1" "br_pos br2 = br_pos br1"
    by (rule decodeSymbol_ok [OF tab(1) b1(2), rotated]) (use b1(4) in simp_all)
  have e: "v = code" "d' = d" "br_bits br2 = bs" using b2(2,4) l b1(3) by (simp_all add: bs_def)
  note step = readDistance_def [of s, unfolded Let_def tree_slice [OF ready] Option.bind.bind_lunit if_P [OF chk] b1(1) b2(1) prod.case e(1)]
  have bl: "go_index (ds_blockLength s) 2 = Some (ds_blockLength s ! 2)" using tab(2) by (simp add: go_index_def)
  show ?thesis
  proof (cases "code < 16")
    case True
    then have "readDistance s = map_option (Pair ResultSuccess) (distance_read code (val_of (take k bs)) br2 s)" "k = 0"
      using k unfolding step bl Option.bind.bind_lunit distance_read_def Let_def
      by (simp_all add: take_block_def symbol_extra_def split: bind_splits)
    then show ?thesis using b2(3) e(3) by auto
  next
    case False
    then have x: "k \<le> 24" "distExtra (ds_bodyArena s) code = Some (k, b_distOffset (ds_bodyArena s) ! code)"
      using k by (auto simp: symbol_extra_def)
    obtain x br3 where r: "readBits k br2 = Some (x, br3)" "br_inv br3" "unat x = val_of (take k bs)" "br_bits br3 = drop k bs"
      using readBits_ok [OF b2(3), of k] b2(5,6) p1 room x(1) e(3) by auto
    have "x = of_nat (val_of (take k bs))" unfolding r(3) [symmetric] by simp
    then have r32: "readBits32 k br2 = Some (of_nat (val_of (take k bs)), br3)" using r(1) by (simp add: readBits32_def readBits_def)
    have "readDistance s = map_option (Pair ResultSuccess) (distance_read code (val_of (take k bs)) br3 s)"
      unfolding step bl Option.bind.bind_lunit distance_read_def Let_def using False x(2) r32
      by (simp add: take_block_def put_reader)
    then show ?thesis using r by auto
  qed
qed

lemma readDistance_few:
  assumes ready: "distance_tree_ready s" and inv: "br_inv (ds_br s)" and chk: "\<not> checkInputAmount (ds_br s)"
    and l: "sym_look (distance_tree s) (window (br_bits (ds_br s))) = Some (code, d)" and k: "symbol_extra s code k"
    and enough: "d + k \<le> length (br_bits (ds_br s))"
  defines "bs \<equiv> drop d (br_bits (ds_br s))"
  shows "\<exists>br'. readDistance s = map_option (Pair ResultSuccess) (distance_read code (val_of (take k bs)) br' s) \<and> br_inv br' \<and> br_bits br' = drop k bs"
proof -
  let ?br = "ds_br s"
  have tab: "table_ok (distance_tree s)" "length (ds_blockLength s) = 3" using ready by (auto simp: distance_tree_ready_def)
  obtain br1 where b1: "safeReadSymbol (distance_tree s) ?br = Some (Some code, br1)" "br_inv br1" "br_bits br1 = bs"
    using safeReadSymbol_ok [OF tab(1) inv l] enough by (auto simp: bs_def)
  have bl: "go_index (ds_blockLength s) 2 = Some (ds_blockLength s ! 2)" using tab(2) by (simp add: go_index_def)
  note step = readDistance_def [of s, unfolded Let_def tree_slice [OF ready] Option.bind.bind_lunit if_not_P [OF chk] b1(1) prod.case option.case bl]
  show ?thesis
  proof (cases "code < 16")
    case True
    then have "readDistance s = map_option (Pair ResultSuccess) (distance_read code (val_of (take k bs)) br1 s)" "k = 0"
      using k unfolding step distance_read_def Let_def by (simp_all add: take_block_def symbol_extra_def split: bind_splits)
    then show ?thesis using b1 by auto
  next
    case False
    then have x: "k \<le> 24" "distExtra (ds_bodyArena s) code = Some (k, b_distOffset (ds_bodyArena s) ! code)"
      using k by (auto simp: symbol_extra_def)
    obtain br3 where r: "(if k \<noteq> 0 then safeReadBits32 k br1 else Some (Some 0, br1)) = Some (Some (of_nat (val_of (take k bs))), br3)"
      "br_inv br3" "br_bits br3 = drop k bs"
    proof (cases "k = 0")
      case True
      then show thesis using that [of br1] b1 by simp
    next
      case k0: False
      have en: "k \<le> length (br_bits br1)" using enough b1(3) by (simp add: bs_def)
      obtain y br3 where y: "safeReadBits32 k br1 = Some (y, br3)" "br_inv br3" "map_option unat y = Some (val_of (take k bs))" "br_bits br3 = drop k bs"
        using safeReadBits32_ok [OF b1(2), of k] x(1) en b1(3) by auto
      then obtain z where z: "y = Some z" "unat z = val_of (take k bs)" by auto
      have "z = of_nat (val_of (take k bs))" unfolding z(2) [symmetric] by simp
      then show thesis using that [of br3] k0 y z(1) by simp
    qed
    have "readDistance s = map_option (Pair ResultSuccess) (distance_read code (val_of (take k bs)) br3 s)"
    proof (cases "k = 0")
      case True
      then show ?thesis unfolding step distance_read_def Let_def using False x(2) r(1) by (simp add: take_block_def put_reader)
    next
      case k0: False
      then have "safeReadBits32 k br1 = Some (Some (of_nat (val_of (take k bs))), br3)" using r(1) by simp
      then show ?thesis unfolding step distance_read_def Let_def using False x(2) k0 by (simp add: take_block_def put_reader)
    qed
    then show ?thesis using r by auto
  qed
qed


lemma readDistance_reads:
  assumes "distance_tree_ready s" and "br_inv (ds_br s)" and "br_ready (ds_br s)"
    and "sym_look (distance_tree s) (window (br_bits (ds_br s))) = Some (code, d)" and "symbol_extra s code k"
    and "d + k \<le> length (br_bits (ds_br s))"
  shows "\<exists>br'. readDistance s = map_option (Pair ResultSuccess) (distance_read code (val_of (take k (drop d (br_bits (ds_br s))))) br' s) \<and>
    br_inv br' \<and> br_bits br' = drop k (drop d (br_bits (ds_br s)))"
  using readDistance_many [OF assms(1-3) _ assms(4,5)] readDistance_few [OF assms(1,2) _ assms(4-6)]
  by (cases "checkInputAmount (ds_br s)") simp_all

lemma takeDistance_br: "takeDistanceFromRingBuffer s = Some s' \<Longrightarrow> ds_br s' = ds_br s"
  by (auto simp: takeDistanceFromRingBuffer_def Let_def split: if_splits)

text \<open>The distance that comes out: of a last distance, and of an offset with extra bits.\<close>

lemma distance_read_last:
  assumes "dist_cache_rel cache s" and "1 \<le> distance" and "distance < 2 ^ 62"
    and "c = computeDistanceCode distance maxDist cache" and "c < 16"
  shows "\<exists>s'. distance_read c x br s = Some s' \<and> ds_distanceCode s' = int distance \<and> ds_br s' = br"
proof -
  define t where "t = (take_block 2 1 (s\<lparr>ds_br := br\<rparr>))\<lparr>ds_distanceContext := 0\<rparr>"
  have "dist_cache_rel cache t" using assms(1) by (simp add: dist_cache_rel_def t_def take_block_def)
  then obtain s' where s': "takeDistanceFromRingBuffer (t\<lparr>ds_distanceCode := int c\<rparr>) = Some s'" "ds_distanceCode s' = int distance"
    using computeDistanceCode_ring [of cache t distance c maxDist] assms(2-5) by (auto simp: NumDistanceShortCodes_def)
  then show ?thesis using takeDistance_br [OF s'(1)] assms(5) unfolding distance_read_def Let_def t_def [symmetric]
    by (simp add: t_def take_block_def)
qed

lemma distance_read_far:
  assumes "distExtra (ds_bodyArena s) c = Some (k, off)" and "16 \<le> c" and "off + x * 2 ^ ds_distancePostfixBits s = distance"
    and "distance < 2 ^ 62"
  shows "\<exists>s'. distance_read c x br s = Some s' \<and> ds_distanceCode s' = int distance \<and> ds_br s' = br"
proof -
  let ?p = "2 ^ ds_distancePostfixBits s"
  have off: "b_distOffset (ds_bodyArena s) ! c = off"
    using assms(1) by (auto simp: distExtra_def simp del: go_index_Some split: bind_splits) (auto simp: go_index_def split: if_splits)
  have b: "x * ?p < 2 ^ 62" "x < 2 ^ 62"
  proof -
    show "x * ?p < 2 ^ 62" using assms(3,4) by linarith
    moreover have "x * 1 \<le> x * ?p" by (rule mult_le_mono2) simp
    ultimately show "x < 2 ^ 62" by linarith
  qed
  then have u: "unat (of_nat x :: u64) = x" by (simp add: unsigned_of_nat take_bit_nat_eq_self)
  have sh: "shl x (ds_distancePostfixBits s) = x * ?p" using b by (simp add: shl_def)
  have ua: "uadd off (x * ?p) = distance" using assms(3,4) by simp
  have "dist_value off (ds_distancePostfixBits s) (of_nat x) = int distance"
    unfolding dist_value_def u sh ua Let_def using assms(4) by simp
  then show ?thesis using assms(2) off by (simp add: distance_read_def Let_def take_block_def)
qed

text \<open>C31. A distance goes from the encoder to the decoder. The encoder takes a code from its cache of last distances or the
  distance itself and splits it into symbol and extra bits; the decoder, with the table it builds for the parameters of the
  metablock and the same last distances, reads symbol and extra bits with \<^verbatim>\<open>readDistance\<close> and has exactly that distance, for
  every distance the format can express, every choice of parameters, both ways of reading, and it is behind the extra bits
  then.\<close>

theorem computeDistanceCode_decodes:
  assumes "dist_setup nd np s" and "distance_tree_ready s" and "dist_cache_rel cache s"
    and "br_inv (ds_br s)" and "br_ready (ds_br s)"
    and "1 \<le> distance" and "distance_code_ok nd np (distance + 15)"
    and "prefixEncodeCopyDistance (computeDistanceCode distance maxDist cache) nd np = (dp, de)"
    and "dp AND 0x3FF < g_alphabetSizeLimit (ds_distanceHGroup s)"
    and "sym_look (distance_tree s) (window (br_bits (ds_br s))) = Some (dp AND 0x3FF, length code)"
    and "br_bits (ds_br s) = code @ bits_of (drop_bit 10 dp) (of_nat de :: u64) @ rest"
  shows "\<exists>s1 s2. calculateDistanceLut s = Some s1 \<and> readDistance s1 = Some (ResultSuccess, s2) \<and>
    ds_distanceCode s2 = int distance \<and> br_inv (ds_br s2) \<and> br_bits (ds_br s2) = rest"
proof -
  define c where "c = computeDistanceCode distance maxDist cache"
  define k where "k = drop_bit 10 dp"
  have ok: "distance_params_ok nd np" and np: "ds_distancePostfixBits s = np" using assms(1) by (simp_all add: dist_setup_def)
  obtain b where b: "calculateDistanceLut s = Some (s\<lparr>ds_bodyArena := b\<rparr>)" "body_inv b"
    "lut_entries nd np (g_alphabetSizeLimit (ds_distanceHGroup s)) b"
    by (rule calculateDistanceLut_ok [OF assms(1)])
  define s1 where "s1 = s\<lparr>ds_bodyArena := b\<rparr>"
  have s1: "distance_tree_ready s1" "dist_cache_rel cache s1" "ds_br s1 = ds_br s" "distance_tree s1 = distance_tree s"
    "ds_distancePostfixBits s1 = np" "ds_bodyArena s1 = b"
    using assms(2,3) np by (simp_all add: s1_def distance_tree_ready_def distance_tree_def dist_cache_rel_def)
  have lim: "g_alphabetSizeLimit (ds_distanceHGroup s) \<le> NumHistogramDistanceSymbols"
    using assms(1) group_small(4) [OF ok, of 47] by (auto simp: dist_setup_def group_start_def)
  have small: "distance < 2 ^ 62"
    using assms(7) params_bounds [OF ok] mult_le_mono2 [OF params_bounds(1) [OF ok], of "2 ^ (MaxDistanceBits + 2)"]
    by (simp add: distance_code_ok_def NumDistanceShortCodes_def MaxDistanceBits_def)
  have cases: "if c < 16 then cache_distance cache c = int distance else c = distance + 15"
    using computeDistanceCode_cache [of cache distance c maxDist] assms(3,6) small by (simp add: dist_cache_rel_def c_def)
  have goal: "\<exists>s2. readDistance s1 = Some (ResultSuccess, s2) \<and> ds_distanceCode s2 = int distance \<and> br_inv (ds_br s2) \<and> br_bits (ds_br s2) = rest"
    if e: "symbol_extra s1 (dp AND 0x3FF) k" "de < 2 ^ k" "k \<le> 24"
      and r: "\<And>br. \<exists>s'. distance_read (dp AND 0x3FF) de br s1 = Some s' \<and> ds_distanceCode s' = int distance \<and> ds_br s' = br"
  proof -
    have "(2 :: nat) ^ k \<le> 2 ^ 24" by (rule power_increasing [OF e(3)]) simp
    then have "unat (of_nat de :: u64) = de" using e(2) by (simp add: unsigned_of_nat take_bit_nat_eq_self)
    then have v: "val_of (bits_of k (of_nat de :: u64)) = de" using val_of_bits_of_exact [of "of_nat de :: u64" k] e(2) by simp
    define bs where "bs = drop (length code) (br_bits (ds_br s))"
    have bs: "take k bs = bits_of k (of_nat de :: u64)" "drop k bs = rest" by (simp_all add: bs_def assms(11) k_def)
    have len: "length code + k \<le> length (br_bits (ds_br s))" by (simp add: assms(11) k_def)
    obtain br' where br': "readDistance s1 = map_option (Pair ResultSuccess) (distance_read (dp AND 0x3FF) de br' s1)"
      "br_inv br'" "br_bits br' = rest"
      using readDistance_reads [OF s1(1), unfolded s1(3,4), OF assms(4,5,10) e(1) len, folded bs_def, unfolded bs v] by blast
    obtain s' where "distance_read (dp AND 0x3FF) de br' s1 = Some s'" "ds_distanceCode s' = int distance" "ds_br s' = br'"
      using r [of br'] by blast
    then show ?thesis using br' by simp
  qed
  show ?thesis
  proof (cases "c < 16")
    case True
    then have dp: "dp = c" "de = 0" using assms(8) by (auto simp: prefixEncodeCopyDistance_def to_u16_def NumDistanceShortCodes_def c_def [symmetric])
    have m: "c AND 0x3FF = c" "k = 0" using small_and_mask [of c] True by (simp_all add: to_u16_def k_def dp drop_bit_eq_div)
    have "\<exists>s2. readDistance s1 = Some (ResultSuccess, s2) \<and> ds_distanceCode s2 = int distance \<and> br_inv (ds_br s2) \<and> br_bits (ds_br s2) = rest"
      by (rule goal) (use True distance_read_last [OF s1(2) assms(6) small c_def] in \<open>simp_all add: dp m symbol_extra_def\<close>)
    then show ?thesis using b(1) s1_def by blast
  next
    case False
    then have enc: "prefixEncodeCopyDistance (distance + 15) nd np = (dp, de)" using assms(8) cases by (simp add: c_def)
    have bo: "body_ok b" using b(2) by (simp add: body_inv_def)
    obtain off where x: "distExtra b (dp AND 0x3FF) = Some (k, off)" "k \<le> 24" "de < 2 ^ k" "off + de * 2 ^ np = distance"
      and ge: "16 \<le> dp AND 0x3FF" using lut_inverts [OF ok bo b(3) lim assms(6,7) enc assms(9)] by (auto simp: k_def)
    have off: "b_distOffset b ! (dp AND 0x3FF) = off"
      using x(1) by (auto simp: distExtra_def simp del: go_index_Some split: bind_splits) (auto simp: go_index_def split: if_splits)
    have "\<exists>s2. readDistance s1 = Some (ResultSuccess, s2) \<and> ds_distanceCode s2 = int distance \<and> br_inv (ds_br s2) \<and> br_bits (ds_br s2) = rest"
      by (rule goal) (use distance_read_far [of s1 "dp AND 0x3FF" k off de distance] s1(5,6) x ge small off in \<open>simp_all add: symbol_extra_def\<close>)
    then show ?thesis using b(1) s1_def by blast
  qed
qed

lemma all_below_4: "(\<forall>k < 4. P k) \<longleftrightarrow> P 0 \<and> P 1 \<and> P 2 \<and> P (3 :: nat)"
  by (auto simp: numeral_nat less_Suc_eq)

text \<open>A state with one symbol, \<open>20\<close>, for every distance; it has three extra bits, and \<open>5\<close> is next in the input.\<close>

definition demo_distance_state :: decodeState where
  "demo_distance_state = zero_state\<lparr>ds_distRB := [16, 15, 11, 4], ds_br := setInput [0x05] zero_br,
     ds_distanceHGroup := zero_group\<lparr>g_alphabetSizeLimit := 64,
       g_codes := \<lparr>sl_data = replicate 256 \<lparr>Bits = 0, Value = 20\<rparr>, sl_len = 256\<rparr>\<rparr>\<rparr>"

theorem computeDistanceCode_decodes_witness:
  "\<exists>s1 s2. calculateDistanceLut demo_distance_state = Some s1 \<and> readDistance s1 = Some (ResultSuccess, s2) \<and>
    ds_distanceCode s2 = 18 \<and> br_bits (ds_br s2) = replicate 5 False"
proof -
  let ?s = demo_distance_state and ?t = "replicate 256 \<lparr>Bits = 0, Value = 20\<rparr>"
  have tree: "distance_tree ?s = ?t"
    by (simp add: distance_tree_def sl_list_def demo_distance_state_def zero_state_def zero_group_def)
  have "dist_setup 0 0 ?s"
    by (simp add: dist_setup_def distance_params_ok_def group_start_def NumDistanceShortCodes_def demo_distance_state_def
        zero_state_def zero_body_def body_inv_def body_ok_def)
  moreover have "distance_tree_ready ?s"
    unfolding distance_tree_ready_def tree using const_table_ok(1) [of ?t 20]
    by (simp add: sl_list_def demo_distance_state_def zero_state_def zero_group_def)
  moreover have "dist_cache_rel [4, 11, 15, 16] ?s"
    unfolding dist_cache_rel_def all_below_4 and_3_mod by (simp add: demo_distance_state_def zero_state_def)
  moreover have rd: "br_inv (ds_br ?s)" "br_ready (ds_br ?s)" "br_bits (ds_br ?s) = bits_of 8 (0x05 :: byte)"
  proof -
    have z: "br_inv zero_br" by (simp add: zero_br_def br_inv_def acc_ok_def)
    have e: "ds_br ?s = setInput [0x05] zero_br" by (simp add: demo_distance_state_def zero_state_def)
    show "br_inv (ds_br ?s)" "br_ready (ds_br ?s)" "br_bits (ds_br ?s) = bits_of 8 (0x05 :: byte)"
      unfolding e using setInput_ok [OF z, of "[0x05]"] by (simp_all add: zero_br_def bits_of_def)
  qed
  moreover have enc: "prefixEncodeCopyDistance (computeDistanceCode 18 100 [4, 11, 15, 16]) 0 0 = (3092, 5)"
    using bits_Len_eq_iff [of 21 4] by (simp add: computeDistanceCode_def prefixEncodeCopyDistance_def NumDistanceShortCodes_def to_u16_def to_u32_def Let_def)
  moreover have "distance_code_ok 0 0 (18 + 15)"
    by (simp add: distance_code_ok_def NumDistanceShortCodes_def MaxDistanceBits_def)
  moreover have "sym_look ?t (window (br_bits (ds_br ?s))) = Some (20, 0)"
    by (simp add: sym_look_def go_index_def)
  moreover have "bits_of 8 (0x05 :: byte) = bits_of 3 (5 :: u64) @ replicate 5 False"
    by (simp add: bits_of_def numeral_nat)
  moreover have "g_alphabetSizeLimit (ds_distanceHGroup ?s) = 64"
    by (simp add: demo_distance_state_def zero_state_def zero_group_def)
  moreover have "(3092 :: nat) AND 0x3FF = 20" "drop_bit 10 (3092 :: nat) = 3" by (simp_all add: drop_bit_eq_div)
  ultimately show ?thesis
    using computeDistanceCode_decodes [of 0 0 ?s "[4, 11, 15, 16]" 18 100 3092 5 "[]" "replicate 5 False", unfolded tree] by auto
qed

end
