(* ===== verification/Encode_State.thy ===== *)
theory Encode_State
  imports Stream_Writer Command_Codes
begin

unbundle bit_operations_syntax

text \<open>
  The state the streaming encoders share and their ring buffer, \<^verbatim>\<open>internal/encoder/encode_state.go\<close> and
  \<^verbatim>\<open>ringbuffer.go\<close>, with the parts of \<^verbatim>\<open>encoder.go\<close> that open and close the output of a metablock.

  \<^verbatim>\<open>data\<close> is the view \<^verbatim>\<open>ringBufAlloc[2:]\<close>: the record has the array behind both, and an access to \<^verbatim>\<open>data[i]\<close> is one to
  entry \<open>i + 2\<close>. A \<^verbatim>\<open>uint32\<close> is a \<^typ>\<open>nat\<close> whose sums are taken modulo \<open>2 ^ 32\<close>. Of the registered hashers only the
  flag \<^verbatim>\<open>ready\<close> is used here; of a prepared dictionary only its \<^verbatim>\<open>source\<close>. What \<^verbatim>\<open>ringBufPool\<close> returns is the parameter
  \<open>v\<close>; giving a buffer back to the pool has no effect on the encoder.
\<close>

subsection \<open>State\<close>

record compoundDictionary =
  cd_chunkSource :: "byte list list"
  cd_chunkOffsets :: "nat list"
  cd_totalSize :: nat
  cd_numChunks :: nat

definition MaxCompoundDicts :: nat where "MaxCompoundDicts = 15"

definition compound_zero :: compoundDictionary where
  "compound_zero = \<lparr>cd_chunkSource = replicate MaxCompoundDicts [], cd_chunkOffsets = replicate (MaxCompoundDicts + 1) 0,
     cd_totalSize = 0, cd_numChunks = 0\<rparr>"

record encodeState =
  es_commands :: "command list"
  es_ringBufAlloc :: "byte goslice"
  es_outBuf :: "byte goslice"
  es_hashers :: "bool list"
  es_litHisto :: "nat list option"
  es_cmdHisto :: "nat list option"
  es_distHisto :: "nat list option"
  es_b :: bitWriter
  es_compound :: compoundDictionary
  es_distCache :: "nat list"
  es_savedDistCache :: "nat list"
  es_lgblock :: nat
  es_sizeHint :: nat
  es_dictNumLookups :: nat
  es_lastFlushPos :: nat
  es_inputPos :: nat
  es_lastProcessedPos :: nat
  es_dictNumMatches :: nat
  es_quality :: nat
  es_distAlphabetSizeMax :: nat
  es_distAlphabetSizeLimit :: nat
  es_numLiterals :: nat
  es_numCommands :: nat
  es_lastInsertLen :: nat
  es_lgwin :: nat
  es_mask :: nat
  es_ringBufSize :: nat
  es_ringBufPos :: nat
  es_distParams :: distanceParams
  es_lastBytes :: u16
  es_lastBytesBits :: nat
  es_prevByte :: byte
  es_prevByte2 :: byte
  es_userSizeHint :: bool


subsection \<open>Positions and sizes\<close>

definition inputBlockSize :: "encodeState \<Rightarrow> nat" where
  "inputBlockSize s = 2 ^ es_lgblock s"

definition unprocessedInputSize :: "encodeState \<Rightarrow> nat" where
  "unprocessedInputSize s = usub (es_inputPos s) (es_lastProcessedPos s)"

definition remainingInputBlockSize :: "encodeState \<Rightarrow> nat" where
  "remainingInputBlockSize s = (let delta = unprocessedInputSize s; blockSize = inputBlockSize s in
     if delta \<ge> blockSize then 0 else usub blockSize delta)"

definition updateSizeHint :: "nat \<Rightarrow> encodeState \<Rightarrow> encodeState" where
  "updateSizeHint availableIn s = (if es_sizeHint s \<noteq> 0 then s
     else s\<lparr>es_sizeHint := min (uadd (unprocessedInputSize s) availableIn) (2 ^ 30)\<rparr>)"

text \<open>\<^verbatim>\<open>wrapPosition\<close> of a position that is counted by a \<^typ>\<open>nat\<close>.\<close>

definition wrapPos :: "nat \<Rightarrow> nat" where
  "wrapPos position = unat (wrapPosition (of_nat position))"

definition updateLastProcessedPos :: "encodeState \<Rightarrow> encodeState" where
  "updateLastProcessedPos s =
     (let wrappedLast = wrapPos (es_lastProcessedPos s); wrappedCur = wrapPos (es_inputPos s);
          s = s\<lparr>es_lastProcessedPos := es_inputPos s\<rparr> in
      if wrappedCur < wrappedLast then s\<lparr>es_hashers := map (\<lambda>_. False) (es_hashers s)\<rparr> else s)"

definition maxMetablockSize :: "encodeState \<Rightarrow> nat" where
  "maxMetablockSize s = 2 ^ min (1 + max (es_lgwin s) (es_lgblock s)) 24"

definition compute_lgblock :: "nat \<Rightarrow> nat \<Rightarrow> nat" where
  "compute_lgblock quality lgwin = (if quality < 4 then 14 else if quality < 9 then 16 else min 18 (max 16 lgwin))"

text \<open>The slice \<^verbatim>\<open>ringBufAlloc\<close> after \<^verbatim>\<open>reset\<close>: a slice of length 0 with room for a full ring from quality 10 on.\<close>

definition reset_alloc :: "byte goslice option \<Rightarrow> nat \<Rightarrow> byte goslice \<Rightarrow> byte goslice" where
  "reset_alloc v needed alloc =
     (if needed \<le> length (sl_data alloc) then alloc
      else case v of
        Some bp \<Rightarrow> if needed \<le> length (sl_data bp) then bp\<lparr>sl_len := 0\<rparr> else \<lparr>sl_data = replicate needed 0, sl_len = 0\<rparr>
      | None \<Rightarrow> \<lparr>sl_data = replicate needed 0, sl_len = 0\<rparr>)"

definition reset_state :: "byte goslice option \<Rightarrow> nat \<Rightarrow> nat \<Rightarrow> nat \<Rightarrow> encodeState \<Rightarrow> encodeState" where
  "reset_state v quality lgwin sizeHint s =
     (let lgblock = compute_lgblock quality lgwin;
          size1 = 2 ^ (1 + max lgwin lgblock);
          params = initDistanceParams 0 0;
          (bits, n) = encodeWindowBits (int lgwin);
          s = s\<lparr>es_quality := quality, es_lgwin := lgwin, es_sizeHint := sizeHint, es_userSizeHint := sizeHint > 0,
                es_lgblock := lgblock, es_ringBufSize := size1, es_mask := size1 - 1, es_ringBufPos := 0, es_inputPos := 0,
                es_lastProcessedPos := 0, es_lastFlushPos := 0, es_prevByte := 0, es_prevByte2 := 0,
                es_distCache := [4, 11, 15, 16], es_savedDistCache := [4, 11, 15, 16], es_distParams := params,
                es_distAlphabetSizeMax := alphabetSizeMax params, es_distAlphabetSizeLimit := alphabetSizeLimit params,
                es_lastBytes := bits, es_lastBytesBits := n, es_commands := [], es_numLiterals := 0, es_numCommands := 0,
                es_lastInsertLen := 0, es_litHisto := None, es_cmdHisto := None, es_distHisto := None,
                es_dictNumLookups := 0, es_dictNumMatches := 0, es_compound := compound_zero\<rparr> in
      if quality \<ge> 10
      then s\<lparr>es_ringBufAlloc := reset_alloc v (2 + (size1 + 2 ^ lgblock) + 7) (es_ringBufAlloc s)\<rparr>
      else s)"


subsection \<open>The ring buffer\<close>

text \<open>\<^verbatim>\<open>copy(e.data[i:i+len], ys)\<close>, bounded by the capacity.\<close>

definition enc_put :: "nat \<Rightarrow> byte list \<Rightarrow> encodeState \<Rightarrow> encodeState option" where
  "enc_put i ys s = (let a = es_ringBufAlloc s in
     if i + 2 + length ys \<le> length (sl_data a)
     then Some (s\<lparr>es_ringBufAlloc := a\<lparr>sl_data := overwrite (sl_data a) (i + 2) ys\<rparr>\<rparr>) else None)"

definition getRingBuf :: "byte goslice option \<Rightarrow> nat \<Rightarrow> byte goslice" where
  "getRingBuf v needed = (case v of
     Some bp \<Rightarrow> if needed \<le> length (sl_data bp) then bp\<lparr>sl_len := needed\<rparr> else \<lparr>sl_data = replicate needed 0, sl_len = needed\<rparr>
   | None \<Rightarrow> \<lparr>sl_data = replicate needed 0, sl_len = needed\<rparr>)"

text \<open>\<^verbatim>\<open>clear(e.ringBufAlloc[len(old):])\<close> and \<^verbatim>\<open>copy(newAlloc, e.ringBufAlloc)\<close>.\<close>

definition grow_alloc :: "byte goslice option \<Rightarrow> nat \<Rightarrow> byte goslice \<Rightarrow> byte goslice" where
  "grow_alloc v needed old =
     (if needed \<le> length (sl_data old)
      then \<lparr>sl_data = (if sl_len old < needed then overwrite (sl_data old) (sl_len old) (replicate (needed - sl_len old) 0) else sl_data old),
            sl_len = needed\<rparr>
      else let newAlloc = getRingBuf v needed in
        newAlloc\<lparr>sl_data := overwrite (sl_data newAlloc) 0 (take needed (sl_list old))\<rparr>)"

definition initRingBuffer :: "byte goslice option \<Rightarrow> nat \<Rightarrow> encodeState \<Rightarrow> encodeState option" where
  "initRingBuffer v buflen s = do {
     let needed = (2 + buflen + 7) mod 2 ^ 32;
     a \<leftarrow> sl_set (grow_alloc v needed (es_ringBufAlloc s)) 0 0;
     a \<leftarrow> sl_set a 1 0;
     enc_put buflen (replicate 7 0) (s\<lparr>es_ringBufAlloc := a\<rparr>) }"

definition full_len :: "encodeState \<Rightarrow> nat" where
  "full_len s = 2 + es_ringBufSize s + 2 ^ es_lgblock s + 7"

definition ringBufPos_add :: "nat \<Rightarrow> nat \<Rightarrow> nat" where
  "ringBufPos_add p n = (let q = ((p AND (2 ^ 31 - 1)) + (n AND (2 ^ 31 - 1))) mod 2 ^ 32 in
     if p AND 2 ^ 31 \<noteq> 0 then q OR 2 ^ 31 else q)"

definition copy_main :: "nat \<Rightarrow> byte list \<Rightarrow> encodeState \<Rightarrow> encodeState option" where
  "copy_main maskedPos input s =
     (let n = length input; size1 = es_ringBufSize s in
      if maskedPos + n \<le> size1 then enc_put maskedPos input s
      else let totalSize = size1 + 2 ^ es_lgblock s; first = min n (totalSize - maskedPos); wrap = size1 - maskedPos in do {
        s \<leftarrow> enc_put maskedPos (take first input) s;
        enc_put 0 (drop wrap input) s })"

text \<open>\<^verbatim>\<open>e.data[i]\<close>\<close>

definition ring_get :: "encodeState \<Rightarrow> nat \<Rightarrow> byte option" where
  "ring_get s i = sl_get (es_ringBufAlloc s) (int (i + 2))"

text \<open>The lazy allocation of the full ring, and the write into it.\<close>

definition full_alloc :: "byte goslice option \<Rightarrow> encodeState \<Rightarrow> encodeState option" where
  "full_alloc v s = (if sl_len (es_ringBufAlloc s) < full_len s then do {
     s \<leftarrow> initRingBuffer v (es_ringBufSize s + 2 ^ es_lgblock s) s;
     a \<leftarrow> sl_set (es_ringBufAlloc s) (int (es_ringBufSize s)) 0;
     a \<leftarrow> sl_set a (int (es_ringBufSize s + 1)) 0;
     Some (s\<lparr>es_ringBufAlloc := a\<rparr>) } else Some s)"

definition put_full :: "nat \<Rightarrow> byte list \<Rightarrow> encodeState \<Rightarrow> encodeState option" where
  "put_full maskedPos input s = do {
     s \<leftarrow> (if maskedPos < 2 ^ es_lgblock s
          then enc_put (es_ringBufSize s + maskedPos) (take (2 ^ es_lgblock s - maskedPos) input) s else Some s);
     copy_main maskedPos input s }"

definition copy_full :: "byte list \<Rightarrow> encodeState \<Rightarrow> encodeState option" where
  "copy_full input s =
     (let n = length input; size1 = es_ringBufSize s; rbMask = size1 - 1 in do {
        s \<leftarrow> put_full (es_ringBufPos s AND rbMask) input s;
        p0 \<leftarrow> ring_get s (size1 - 2);
        p1 \<leftarrow> ring_get s (size1 - 1);
        a \<leftarrow> sl_set (es_ringBufAlloc s) 0 p0;
        a \<leftarrow> sl_set a 1 p1;
        let s = s\<lparr>es_ringBufAlloc := a, es_ringBufPos := ringBufPos_add (es_ringBufPos s) n, es_inputPos := uadd (es_inputPos s) n\<rparr>;
        if es_ringBufPos s \<le> rbMask then enc_put (es_ringBufPos s AND rbMask) (replicate 7 0) s else Some s })"

definition copyInputToRingBuffer :: "byte goslice option \<Rightarrow> byte list \<Rightarrow> encodeState \<Rightarrow> encodeState option" where
  "copyInputToRingBuffer v input s =
     (let n = length input in
      if es_ringBufPos s = 0 \<and> n < 2 ^ es_lgblock s \<and> length (sl_data (es_ringBufAlloc s)) < full_len s
      then do {
        s \<leftarrow> initRingBuffer v n (s\<lparr>es_ringBufPos := n\<rparr>);
        s \<leftarrow> enc_put 0 input s;
        Some (s\<lparr>es_inputPos := uadd (es_inputPos s) n\<rparr>) }
      else do { s \<leftarrow> full_alloc v s; copy_full input s })"

definition releaseRingBuffer :: "encodeState \<Rightarrow> encodeState" where
  "releaseRingBuffer s = s\<lparr>es_ringBufAlloc := sl_nil\<rparr>"

definition ringLimit :: "nat \<Rightarrow> nat \<Rightarrow> nat \<Rightarrow> nat" where
  "ringLimit m curMasked bestLen = (let lim = usub (uadd m 1) bestLen in if curMasked \<ge> lim then 0 else lim)"


subsection \<open>Uncompressed metablocks\<close>

text \<open>\<^verbatim>\<open>b.writeBytes(data[i:j])\<close>\<close>

definition ring_slice :: "encodeState \<Rightarrow> nat \<Rightarrow> nat \<Rightarrow> byte list option" where
  "ring_slice s i j = go_slice (drop 2 (sl_data (es_ringBufAlloc s))) (int i) (int j)"

text \<open>The two halves of the input in the ring, written one after the other.\<close>

definition write_ring :: "nat \<Rightarrow> encodeState \<Rightarrow> bitWriter \<Rightarrow> bitWriter option" where
  "write_ring len s b = do {
     let maskedPos = wrapPos (es_lastFlushPos s) AND es_mask s;
     (b, len, maskedPos) \<leftarrow> (if maskedPos + len > es_mask s + 1
        then do {
          let len1 = es_mask s + 1 - maskedPos;
          xs \<leftarrow> ring_slice s maskedPos (maskedPos + len1);
          b \<leftarrow> writeBytes xs b;
          Some (b, len - len1, 0) }
        else Some (b, len, maskedPos));
     xs \<leftarrow> ring_slice s maskedPos (maskedPos + len);
     writeBytes xs b }"

definition es_writeUncompressedMetaBlock :: "nat \<Rightarrow> bool \<Rightarrow> encodeState \<Rightarrow> encodeState option" where
  "es_writeUncompressedMetaBlock len isLast s = do {
     b \<leftarrow> writeMetaBlockHeader (int len) False True (es_b s);
     b \<leftarrow> write_ring len s (byteAlign b);
     b \<leftarrow> (if isLast then do { b \<leftarrow> writeBits 1 1 b; b \<leftarrow> writeBits 1 1 b; Some (byteAlign b) } else Some b);
     Some (s\<lparr>es_b := b\<rparr>) }"


subsection \<open>What the ring holds\<close>

definition ring_sizes :: "encodeState \<Rightarrow> bool" where
  "ring_sizes s \<longleftrightarrow> (\<exists>rb. es_ringBufSize s = 2 ^ rb \<and> es_lgblock s < rb \<and> 2 \<le> rb \<and> rb \<le> 25) \<and> es_mask s = es_ringBufSize s - 1"

definition ring_pos :: "nat \<Rightarrow> nat" where
  "ring_pos n = (if n < 2 ^ 31 then n else 2 ^ 31 + n mod 2 ^ 31)"

text \<open>The last \<^verbatim>\<open>ringBufSize\<close> bytes of the input are in the ring, each at its position modulo the size, and those of a
  later lap that fall on the first \<open>2 ^ lgblock\<close> entries also behind the end.\<close>

definition lap_ok :: "nat \<Rightarrow> nat \<Rightarrow> byte list \<Rightarrow> byte list \<Rightarrow> bool" where
  "lap_ok size1 tb d xs \<longleftrightarrow>
     (\<forall>i<length xs. length xs \<le> i + size1 \<longrightarrow> 2 + i mod size1 < length d \<and> d ! (2 + i mod size1) = xs ! i) \<and>
     (\<forall>i<length xs. length xs \<le> i + size1 \<longrightarrow> size1 \<le> i \<longrightarrow> i mod size1 < tb \<longrightarrow> d ! (2 + (size1 + i mod size1)) = xs ! i)"

text \<open>The two bytes in front of \<^verbatim>\<open>data\<close>, its entries \<open>-2\<close> and \<open>-1\<close>, are those of the last two positions of the lap, once the
  input has reached them.\<close>

definition ring_prefix :: "nat \<Rightarrow> byte list \<Rightarrow> byte list \<Rightarrow> bool" where
  "ring_prefix size1 d xs \<longleftrightarrow>
     (\<forall>j<2. \<forall>i<length xs. length xs \<le> i + size1 \<longrightarrow> i mod size1 + 2 = size1 + j \<longrightarrow> d ! j = xs ! i)"

definition ring_rep :: "encodeState \<Rightarrow> byte list \<Rightarrow> bool" where
  "ring_rep s xs \<longleftrightarrow> ring_sizes s \<and> es_inputPos s = length xs \<and> length xs < 2 ^ 63 \<and> es_ringBufPos s = ring_pos (length xs) \<and>
     sl_ok (es_ringBufAlloc s) \<and>
     lap_ok (es_ringBufSize s) (2 ^ es_lgblock s) (sl_data (es_ringBufAlloc s)) xs \<and>
     ring_prefix (es_ringBufSize s) (sl_data (es_ringBufAlloc s)) xs \<and>
     (xs = [] \<or> length xs < 2 ^ es_lgblock s \<and> sl_len (es_ringBufAlloc s) = length xs + 9 \<or> full_len s \<le> sl_len (es_ringBufAlloc s))"

lemma ring_sizesE:
  assumes "ring_sizes s"
  obtains rb where "es_ringBufSize s = 2 ^ rb" "es_mask s = 2 ^ rb - 1" "2 * 2 ^ es_lgblock s \<le> (2 :: nat) ^ rb" "4 \<le> (2 :: nat) ^ rb" "rb \<le> 25"
    "(2 :: nat) ^ rb \<le> 2 ^ 25"
proof -
  obtain rb where rb: "es_ringBufSize s = 2 ^ rb" "es_lgblock s < rb" "2 \<le> rb" "rb \<le> 25" "es_mask s = es_ringBufSize s - 1"
    using assms by (auto simp: ring_sizes_def)
  have "(2 :: nat) ^ Suc (es_lgblock s) \<le> 2 ^ rb" "(2 :: nat) ^ 2 \<le> 2 ^ rb" "(2 :: nat) ^ rb \<le> 2 ^ 25"
    using rb by (intro power_increasing; simp)+
  then show thesis using that rb by simp
qed

lemma and_low: "(n :: nat) AND (2 ^ k - 1) = n mod 2 ^ k"
  by (simp add: take_bit_eq_mod [symmetric] take_bit_eq_mask mask_eq_exp_minus_1)

lemma ring_pos_mod: "rb \<le> 31 \<Longrightarrow> ring_pos n mod 2 ^ rb = n mod 2 ^ rb"
proof -
  assume "rb \<le> 31"
  then have d: "(2 :: nat) ^ rb dvd 2 ^ 31" by (rule le_imp_power_dvd)
  then have "n mod 2 ^ 31 mod 2 ^ rb = n mod 2 ^ rb" by (rule mod_mod_cancel)
  moreover have "(2 ^ 31 + n mod 2 ^ 31) mod 2 ^ rb = n mod 2 ^ 31 mod 2 ^ rb"
    using d by (metis mod_add_self1 mod_add_left_eq dvd_imp_mod_0 add_0)
  ultimately show ?thesis by (simp add: ring_pos_def)
qed

lemma and_exp: "(x :: nat) AND 2 ^ k = (if bit x k then 2 ^ k else 0)"
  by (rule bit_eqI) (auto simp: bit_simps)

lemma or_exp: "bit (x :: nat) k \<Longrightarrow> x OR 2 ^ k = x"
  by (rule bit_eqI) (auto simp: bit_simps)

lemma ring_pos_add:
  assumes "n \<le> 2 ^ 25"
  shows "ringBufPos_add (ring_pos len) n = ring_pos (len + n)"
proof -
  define q where "q = len mod 2 ^ 31"
  have q: "q < 2 ^ 31" by (simp add: q_def)
  have low: "ring_pos len AND (2 ^ 31 - 1) = q" "n AND (2 ^ 31 - 1) = n"
    unfolding and_low using ring_pos_mod [of 31 len] assms by (simp_all add: q_def)
  have sum: "(q + n) mod 2 ^ 32 = q + n" using q assms by simp
  note bit = and_exp [of _ 31]
  show ?thesis
  proof (cases "len < 2 ^ 31")
    case True
    then have "\<not> bit (ring_pos len) 31" by (simp add: ring_pos_def bit_iff_odd)
    then show ?thesis using True sum assms low unfolding ringBufPos_add_def Let_def low bit
      by (auto simp: ring_pos_def q_def mod_if)
  next
    case False
    have rp: "ring_pos len = 2 ^ 31 + q" "ring_pos (len + n) = 2 ^ 31 + (len + n) mod 2 ^ 31"
      using False by (simp_all add: ring_pos_def q_def)
    have b: "bit (2 ^ 31 + q) 31"
    proof -
      have "(2 ^ 31 + q) div 2 ^ 31 = 1" using q by simp
      then show ?thesis by (simp add: bit_iff_odd)
    qed
    have or: "x OR 2 ^ 31 = 2 ^ 31 + x" if "x < 2 ^ 31" for x :: nat
      using or_disjoint_add [OF that, of 1] unfolding or.commute [of x] mult_1_right .
    have m: "(len + n) mod 2 ^ 31 = (if q + n < 2 ^ 31 then q + n else q + n - 2 ^ 31)"
    proof -
      have e: "(len + n) mod 2 ^ 31 = (q + n) mod 2 ^ 31" unfolding q_def by (simp only: mod_add_left_eq)
      have "q + n - 2 ^ 31 < 2 ^ 31" using q assms by simp
      then show ?thesis unfolding e by (simp add: le_mod_geq)
    qed
    show ?thesis
    proof (cases "q + n < 2 ^ 31")
      case True
      then show ?thesis using b sum m or [of "q + n"] unfolding ringBufPos_add_def Let_def low bit unfolding rp by simp
    next
      case wrap: False
      have "bit (q + n) 31"
      proof -
        have "(q + n) div 2 ^ 31 = 1" using wrap q assms by (intro div_nat_eqI) auto
        then show ?thesis by (simp add: bit_iff_odd)
      qed
      then have "(q + n) OR 2 ^ 31 = q + n" by (rule or_exp)
      then show ?thesis using b sum m wrap unfolding ringBufPos_add_def Let_def low bit unfolding rp by simp
    qed
  qed
qed

text \<open>Where a byte of the last lap lies when \<open>n\<close> bytes are written at position \<open>len\<close>.\<close>

lemma lap:
  fixes len n size1 i :: nat
  assumes "n \<le> size1" "0 < size1" "i < len + n" "len + n \<le> i + size1"
  defines "m \<equiv> len mod size1" and "r \<equiv> i mod size1"
  shows "(len \<le> i \<and> m + (i - len) < size1 \<and> r = m + (i - len)) \<or> (len \<le> i \<and> size1 \<le> m + (i - len) \<and> r + size1 = m + (i - len)) \<or>
    (i < len \<and> r < m \<and> m + n \<le> size1 + r) \<or> (i < len \<and> m + n \<le> r)"
proof -
  define q where "q = len div size1"
  have len: "len = q * size1 + m" "m < size1" using assms(2) by (simp_all add: q_def m_def)
  consider "len \<le> i" "m + (i - len) < size1" | "len \<le> i" "size1 \<le> m + (i - len)" | "i < len" "q * size1 \<le> i" | "i < q * size1"
    by linarith
  then show ?thesis
  proof cases
    case 1
    then have "i = q * size1 + (m + (i - len))" using len by simp
    then have "r = m + (i - len)" using 1 unfolding r_def by (metis mod_less mod_mult_self3)
    then show ?thesis using 1 by simp
  next
    case 2
    then have i: "i = (q + 1) * size1 + (m + (i - len) - size1)" using len by simp
    have "m + (i - len) - size1 < size1" using assms(1,3) len 2 by linarith
    then have "r = m + (i - len) - size1" using i unfolding r_def by (metis mod_less mod_mult_self3)
    then show ?thesis using 2 by simp
  next
    case 3
    then have i: "i = q * size1 + (i - q * size1)" by simp
    have "i - q * size1 < size1" using 3 len by linarith
    then have "r = i - q * size1" using i unfolding r_def by (metis mod_less mod_mult_self3)
    then show ?thesis using 3 assms(4) len by linarith
  next
    case 4
    then obtain p where p: "q = Suc p" by (cases q) auto
    have ge: "p * size1 \<le> i" using assms(1,4) len p by simp
    then have i: "i = p * size1 + (i - p * size1)" by simp
    have "i < p * size1 + size1" using 4 p by simp
    then have "i - p * size1 < size1" using ge by linarith
    then have "r = i - p * size1" using i unfolding r_def by (metis mod_less mod_mult_self3)
    then have "m + n \<le> r" using assms(4) len p ge by simp
    then show ?thesis using 4 len by linarith
  qed
qed

text \<open>The three writes of a full ring, on the array behind it.\<close>

definition ring_written :: "nat \<Rightarrow> nat \<Rightarrow> nat \<Rightarrow> byte list \<Rightarrow> byte list \<Rightarrow> byte list" where
  "ring_written size1 tb m input d =
     (let d = (if m < tb then overwrite d (size1 + m + 2) (take (tb - m) input) else d); n = length input in
      if m + n \<le> size1 then overwrite d (m + 2) input
      else overwrite (overwrite d (m + 2) input) 2 (drop (size1 - m) input))"

lemma ring_written_nth:
  assumes "length input \<le> tb" "2 * tb \<le> size1" "m < size1" "2 + size1 + tb \<le> length d" "k < length d"
  shows "length (ring_written size1 tb m input d) = length d"
    and "ring_written size1 tb m input d ! k =
      (if m + 2 \<le> k \<and> k < m + 2 + length input then input ! (k - (m + 2))
       else if m < tb \<and> size1 + m + 2 \<le> k \<and> k < size1 + m + 2 + length (take (tb - m) input) then input ! (k - (size1 + m + 2))
       else if size1 < m + length input \<and> 2 \<le> k \<and> k < 2 + (m + length input - size1) then input ! (size1 - m + (k - 2))
       else d ! k)"
proof -
  define d1 where "d1 = (if m < tb then overwrite d (size1 + m + 2) (take (tb - m) input) else d)"
  have fit: "size1 + m + 2 + length (take (tb - m) input) \<le> length d" if "m < tb" using assms(4) that by simp
  have d1: "length d1 = length d" using fit by (auto simp: d1_def)
  have n1: "d1 ! k = (if m < tb \<and> size1 + m + 2 \<le> k \<and> k < size1 + m + 2 + length (take (tb - m) input)
      then input ! (k - (size1 + m + 2)) else d ! k)"
    using fit assms(5) unfolding d1_def by (auto simp: nth_overwrite)
  have fit2: "m + 2 + length input \<le> length d1" using assms d1 by linarith
  define d2 where "d2 = overwrite d1 (m + 2) input"
  have d2: "length d2 = length d" "d2 ! k = (if m + 2 \<le> k \<and> k < m + 2 + length input then input ! (k - (m + 2)) else d1 ! k)"
    using fit2 d1 assms(5) by (auto simp: d2_def nth_overwrite)
  have w: "ring_written size1 tb m input d = (if m + length input \<le> size1 then d2 else overwrite d2 2 (drop (size1 - m) input))"
    unfolding ring_written_def Let_def d1_def [symmetric] d2_def by simp
  have fit3: "2 + length (drop (size1 - m) input) \<le> length d2" using assms d2(1) by simp
  show "length (ring_written size1 tb m input d) = length d" using w d2(1) fit3 by simp
  show "ring_written size1 tb m input d ! k =
      (if m + 2 \<le> k \<and> k < m + 2 + length input then input ! (k - (m + 2))
       else if m < tb \<and> size1 + m + 2 \<le> k \<and> k < size1 + m + 2 + length (take (tb - m) input) then input ! (k - (size1 + m + 2))
       else if size1 < m + length input \<and> 2 \<le> k \<and> k < 2 + (m + length input - size1) then input ! (size1 - m + (k - 2))
       else d ! k)"
    using w d2 n1 fit3 assms by (auto simp: nth_overwrite)
qed

lemma lap_ok_written:
  assumes ok: "lap_ok size1 tb d xs" and sz: "length input \<le> tb" "2 * tb \<le> size1" "0 < size1" "2 + size1 + tb \<le> length d"
  shows "lap_ok size1 tb (ring_written size1 tb (length xs mod size1) input d) (xs @ input)"
proof -
  define len n m where "len = length xs" and "n = length input" and "m = len mod size1"
  have m: "m < size1" using sz by (simp add: m_def)
  note w = ring_written_nth [of input tb size1 m d, OF sz(1,2) m sz(4)]
  have old: "d ! (2 + i mod size1) = xs ! i" "size1 \<le> i \<Longrightarrow> i mod size1 < tb \<Longrightarrow> d ! (2 + (size1 + i mod size1)) = xs ! i"
    if "i < len" "len + n \<le> i + size1" for i
    using ok that unfolding lap_ok_def len_def by auto
  have fit: "2 + i mod size1 < length d" for i using sz mod_less_divisor [of size1 i] by linarith
  have ns: "n \<le> size1" using sz by (simp add: n_def)
  note wlen = w(1) [OF fit [of 0]]
  have main: "ring_written size1 tb m input d ! (2 + i mod size1) = (xs @ input) ! i"
    if i: "i < len + n" "len + n \<le> i + size1" for i
  proof -
    have mid: "i mod size1 < size1" using sz by simp
    note v = w(2) [OF fit [of i]]
    consider "len \<le> i" "m + (i - len) < size1" "i mod size1 = m + (i - len)"
      | "len \<le> i" "size1 \<le> m + (i - len)" "i mod size1 + size1 = m + (i - len)"
      | "i < len" "i mod size1 < m" "m + n \<le> size1 + i mod size1" | "i < len" "m + n \<le> i mod size1"
      using lap [OF ns sz(3) i] unfolding m_def by blast
    then show ?thesis
    proof cases
      case 1
      then obtain j where j: "i = len + j" by (metis le_add_diff_inverse)
      then have "i mod size1 = m + j" "j < n" using 1 i by simp_all
      then show ?thesis using j unfolding v n_def len_def by (simp add: nth_append)
    next
      case 2
      then have a: "i mod size1 < m" "size1 - m + i mod size1 = i - len" "size1 < m + n" "i mod size1 < m + n - size1"
        using i ns m by linarith+
      then show ?thesis using 2 i mid unfolding v n_def len_def by (simp add: nth_append)
    next
      case 3
      have "\<not> (size1 < m + n \<and> i mod size1 < m + n - size1)" using 3(3) by linarith
      then show ?thesis using 3 old(1) [OF 3(1) i(2)] mid unfolding v n_def len_def by (auto simp: nth_append)
    next
      case 4
      then show ?thesis using old(1) [OF 4(1) i(2)] mid unfolding v n_def len_def by (simp add: nth_append)
    qed
  qed
  have mirror: "ring_written size1 tb m input d ! (2 + (size1 + i mod size1)) = (xs @ input) ! i"
    if i: "i < len + n" "len + n \<le> i + size1" and big: "size1 \<le> i" "i mod size1 < tb" for i
  proof -
    have fit2: "2 + (size1 + i mod size1) < length d" using big(2) sz(4) by linarith
    note v = w(2) [OF fit2]
    consider "len \<le> i" "m + (i - len) < size1" "i mod size1 = m + (i - len)"
      | "len \<le> i" "size1 \<le> m + (i - len)" "i mod size1 + size1 = m + (i - len)"
      | "i < len" "i mod size1 < m" "m + n \<le> size1 + i mod size1" | "i < len" "m + n \<le> i mod size1"
      using lap [OF ns sz(3) i] unfolding m_def by blast
    then show ?thesis
    proof cases
      case 1
      then obtain j where j: "i = len + j" by (metis le_add_diff_inverse)
      then have e: "i mod size1 = m + j" "j < n" using 1 i by simp_all
      have "m < tb" "m + n \<le> size1" "j < tb - m" using e big sz unfolding n_def by linarith+
      then show ?thesis using j e sz unfolding v n_def len_def by (simp add: nth_append)
    next
      case 2
      then obtain j where j: "i = len + j" by (metis le_add_diff_inverse)
      then have e: "size1 + i mod size1 = m + j" "j < n" using 2 i by simp_all
      then have "2 + (size1 + i mod size1) = m + 2 + j" by simp
      then show ?thesis using j e m unfolding v n_def len_def by (simp add: nth_append)
    next
      case 3
      have "\<not> size1 + i mod size1 < m + n - size1" using 3(3) sz by linarith
      then show ?thesis using 3 old(2) [OF 3(1) i(2) big] m unfolding v n_def len_def by (simp add: nth_append)
    next
      case 4
      have "\<not> size1 + i mod size1 < m + n - size1" "\<not> i mod size1 < m + min n (tb - m)" using 4(2) sz ns by linarith+
      then show ?thesis using 4 old(2) [OF 4(1) i(2) big] m sz unfolding v n_def len_def by (simp add: nth_append)
    qed
  qed
  show ?thesis
    using main mirror fit wlen unfolding lap_ok_def m_def len_def n_def by simp
qed

lemma lap_ok_cong:
  assumes "lap_ok size1 tb d xs" "length d' = length d" "0 < size1"
    and "\<And>k. 2 \<le> k \<Longrightarrow> k < 2 + length xs \<or> size1 \<le> length xs \<Longrightarrow> d' ! k = d ! k"
  shows "lap_ok size1 tb d' xs"
proof -
  have "i mod size1 \<le> i" for i by simp
  then have k: "2 + i mod size1 < 2 + length xs" if "i < length xs" for i
    using that by (meson add_less_cancel_left le_less_trans)
  have main: "d' ! (2 + i mod size1) = d ! (2 + i mod size1)" if "i < length xs" for i
    using assms(4) [of "2 + i mod size1"] k [OF that] by simp
  have mirror: "d' ! (2 + (size1 + i mod size1)) = d ! (2 + (size1 + i mod size1))" if "i < length xs" "size1 \<le> i" for i
    using assms(4) [of "2 + (size1 + i mod size1)"] that by simp
  show ?thesis using assms(1,2) main mirror unfolding lap_ok_def by simp
qed

lemma ring_prefix_short: "length xs + 2 \<le> size1 \<Longrightarrow> ring_prefix size1 d xs"
  by (simp add: ring_prefix_def)

lemma ring_prefix_set:
  assumes "lap_ok size1 tb d xs" and "2 \<le> size1" and "\<And>j. j < 2 \<Longrightarrow> d' ! j = d ! (size1 + j)"
  shows "ring_prefix size1 d' xs"
  unfolding ring_prefix_def
proof (intro allI impI)
  fix j i assume a: "j < (2 :: nat)" "i < length xs" "length xs \<le> i + size1" "i mod size1 + 2 = size1 + j"
  have "d ! (2 + i mod size1) = xs ! i" using assms(1) a(2,3) unfolding lap_ok_def by blast
  moreover have "2 + i mod size1 = size1 + j" using a(4) by simp
  ultimately have "d ! (size1 + j) = xs ! i" by (simp only:)
  then show "d' ! j = xs ! i" using assms(3) a(1) by simp
qed

lemma getRingBuf_ok: "sl_len (getRingBuf v n) = n" "n \<le> length (sl_data (getRingBuf v n))"
  by (auto simp: getRingBuf_def split: option.split)

lemma grow_alloc_ok:
  assumes "sl_ok old"
  shows "sl_ok (grow_alloc v needed old)" and "sl_len (grow_alloc v needed old) = needed"
    and "k < sl_len old \<Longrightarrow> k < needed \<Longrightarrow> sl_data (grow_alloc v needed old) ! k = sl_data old ! k"
  using assms getRingBuf_ok [where v = v and n = needed]
  by (auto simp: grow_alloc_def sl_ok_def sl_list_def Let_def nth_overwrite)

lemma initRingBuffer_ok:
  assumes ok: "sl_ok (es_ringBufAlloc s)" and small: "buflen < 2 ^ 31"
  obtains a where "initRingBuffer v buflen s = Some (s\<lparr>es_ringBufAlloc := a\<rparr>)" "sl_ok a" "sl_len a = buflen + 9"
    "\<And>k. 2 \<le> k \<Longrightarrow> k < 2 + buflen \<Longrightarrow> k < sl_len (es_ringBufAlloc s) \<Longrightarrow> sl_data a ! k = sl_data (es_ringBufAlloc s) ! k"
proof -
  define g where "g = grow_alloc v (buflen + 9) (es_ringBufAlloc s)"
  note g = grow_alloc_ok [OF ok, where v = v and needed = "buflen + 9", folded g_def]
  have needed: "(2 + buflen + 7) mod 2 ^ 32 = buflen + 9" using small by simp
  define a1 where "a1 = g\<lparr>sl_data := (sl_data g)[0 := 0]\<rparr>"
  define a2 where "a2 = a1\<lparr>sl_data := (sl_data a1)[1 := 0]\<rparr>"
  have s1: "sl_set g (int 0) 0 = Some a1" "sl_ok a1" "sl_len a1 = buflen + 9"
    using sl_set_ok [OF g(1), of 0] g(2) by (simp_all add: a1_def)
  have s2: "sl_set a1 (int 1) 0 = Some a2" "sl_ok a2" "sl_len a2 = buflen + 9"
    using sl_set_ok [OF s1(2), of 1] s1(3) by (simp_all add: a2_def)
  have len: "buflen + 9 \<le> length (sl_data a2)" using s2(2,3) by (simp add: sl_ok_def)
  define a where "a = a2\<lparr>sl_data := overwrite (sl_data a2) (buflen + 2) (replicate 7 0)\<rparr>"
  have "initRingBuffer v buflen s = Some (s\<lparr>es_ringBufAlloc := a\<rparr>)"
    using s1(1) s2(1) len unfolding initRingBuffer_def Let_def needed g_def [symmetric]
    by (simp add: enc_put_def a_def)
  moreover have "sl_ok a" "sl_len a = buflen + 9" using s2(2,3) len by (simp_all add: a_def sl_ok_def)
  moreover have "sl_data a ! k = sl_data (es_ringBufAlloc s) ! k" if "2 \<le> k" "k < 2 + buflen" "k < sl_len (es_ringBufAlloc s)" for k
    using that len g(3) [of k] by (simp add: a_def nth_overwrite a2_def a1_def)
  ultimately show thesis using that by blast
qed

lemma enc_put_ok:
  assumes "i + 2 + length ys \<le> length (sl_data (es_ringBufAlloc s))"
  shows "enc_put i ys s = Some (s\<lparr>es_ringBufAlloc := (es_ringBufAlloc s)\<lparr>sl_data := overwrite (sl_data (es_ringBufAlloc s)) (i + 2) ys\<rparr>\<rparr>)"
  using assms by (simp add: enc_put_def Let_def)

text \<open>A write into a full ring: the three copies give \<open>ring_written\<close>.\<close>

lemma full_write:
  assumes sz: "es_ringBufSize s = size1" "2 ^ es_lgblock s = tb" "length input \<le> tb" "2 * tb \<le> size1" "m < size1"
    and len: "2 + size1 + tb \<le> length (sl_data (es_ringBufAlloc s))"
  shows "put_full m input s =
    Some (s\<lparr>es_ringBufAlloc := (es_ringBufAlloc s)\<lparr>sl_data := ring_written size1 tb m input (sl_data (es_ringBufAlloc s))\<rparr>\<rparr>)"
proof -
  define d where "d = sl_data (es_ringBufAlloc s)"
  define d1 where "d1 = (if m < tb then overwrite d (size1 + m + 2) (take (tb - m) input) else d)"
  define s1 where "s1 = s\<lparr>es_ringBufAlloc := (es_ringBufAlloc s)\<lparr>sl_data := d1\<rparr>\<rparr>"
  have first: "(if m < tb then enc_put (size1 + m) (take (tb - m) input) s else Some s) = Some s1"
  proof (cases "m < tb")
    case True
    then have "size1 + m + 2 + length (take (tb - m) input) \<le> length (sl_data (es_ringBufAlloc s))" using len by simp
    then show ?thesis using True enc_put_ok [of "size1 + m" "take (tb - m) input" s] by (simp add: s1_def d1_def d_def)
  qed (simp add: s1_def d1_def d_def)
  have d1: "length d1 = length d" using len by (simp add: d1_def d_def)
  have sz1: "es_ringBufSize s1 = size1" "2 ^ es_lgblock s1 = tb" "sl_data (es_ringBufAlloc s1) = d1"
    "es_ringBufAlloc s1 = (es_ringBufAlloc s)\<lparr>sl_data := d1\<rparr>"
    using sz by (simp_all add: s1_def)
  have fit: "m + 2 + length input \<le> length d1" using sz len d1 by (simp add: d_def)
  have "copy_main m input s1 = Some (s\<lparr>es_ringBufAlloc := (es_ringBufAlloc s)\<lparr>sl_data := ring_written size1 tb m input d\<rparr>\<rparr>)"
  proof (cases "m + length input \<le> size1")
    case True
    then show ?thesis using fit sz1
      by (simp add: copy_main_def enc_put_def ring_written_def Let_def d1_def [symmetric]) (simp add: s1_def)
  next
    case False
    have whole: "take (size1 + tb - m) input = input" using sz by simp
    have fit2: "length input - (size1 - m) + 2 \<le> length d1" using fit by simp
    show ?thesis using False fit fit2 sz1 whole
      by (simp add: copy_main_def enc_put_def ring_written_def Let_def min_def d1_def [symmetric] d_def [symmetric])
        (simp add: s1_def numeral_2_eq_2)
  qed
  then show ?thesis unfolding put_full_def sz first d_def by simp
qed

text \<open>The 2-byte prefix and the cleared bytes touch nothing of the last lap.\<close>

lemma list_update_nth_other: "k \<noteq> i \<Longrightarrow> xs[i := v] ! k = xs ! k"
  by simp

lemma copy_full_ok:
  assumes rep: "ring_sizes s" "es_inputPos s = length xs" "es_ringBufPos s = ring_pos (length xs)" "sl_ok (es_ringBufAlloc s)"
      "lap_ok (es_ringBufSize s) (2 ^ es_lgblock s) (sl_data (es_ringBufAlloc s)) xs" "full_len s \<le> sl_len (es_ringBufAlloc s)"
    and n: "length input \<le> 2 ^ es_lgblock s" and total: "length xs + length input < 2 ^ 63"
  shows "\<exists>s'. copy_full input s = Some s' \<and> ring_rep s' (xs @ input) \<and> full_len s' \<le> sl_len (es_ringBufAlloc s') \<and>
      s' = s\<lparr>es_ringBufAlloc := es_ringBufAlloc s', es_ringBufPos := ring_pos (length (xs @ input)), es_inputPos := length (xs @ input)\<rparr>"
proof -
  obtain rb where rb: "es_ringBufSize s = 2 ^ rb" "es_mask s = 2 ^ rb - 1" "2 * 2 ^ es_lgblock s \<le> (2 :: nat) ^ rb" "4 \<le> (2 :: nat) ^ rb" "rb \<le> 25"
    "(2 :: nat) ^ rb \<le> 2 ^ 25" by (rule ring_sizesE [OF rep(1)])
  define size1 tb len a where "size1 = (2 :: nat) ^ rb" and "tb = (2 :: nat) ^ es_lgblock s" and "len = length xs" and "a = es_ringBufAlloc s"
  define m where "m = len mod size1"
  have sz: "es_ringBufSize s = size1" "2 ^ es_lgblock s = tb" "2 * tb \<le> size1" "4 \<le> size1" "size1 \<le> 2 ^ 25" "m < size1"
    using rb by (simp_all add: size1_def tb_def m_def)
  have masked: "ring_pos k AND (size1 - 1) = k mod size1" for k
    unfolding size1_def and_low using ring_pos_mod [of rb k] rb(5) by simp
  have alen: "2 + size1 + tb + 7 \<le> sl_len a" "sl_len a \<le> length (sl_data a)"
    using rep(4,6) sz by (simp_all add: full_len_def sl_ok_def a_def)
  define d1 where "d1 = ring_written size1 tb m input (sl_data a)"
  have d1len: "length d1 = length (sl_data a)"
  proof -
    have "0 < length (sl_data a)" using alen by linarith
    then show ?thesis unfolding d1_def using ring_written_nth(1) [of input tb size1 m "sl_data a" 0] sz n alen by simp
  qed
  have d1ok: "lap_ok size1 tb d1 (xs @ input)"
    unfolding d1_def m_def len_def by (rule lap_ok_written) (use rep(5) sz n alen in \<open>simp_all add: a_def\<close>)
  define s1 where "s1 = s\<lparr>es_ringBufAlloc := a\<lparr>sl_data := d1\<rparr>\<rparr>"
  have w: "put_full m input s = Some s1"
    using full_write [OF sz(1,2) _ sz(3,6), of input] n sz(2) alen by (simp add: s1_def a_def d1_def)
  define p0 p1 where "p0 = d1 ! size1" and "p1 = d1 ! (size1 + 1)"
  have g: "ring_get s1 (size1 - 2) = Some p0" "ring_get s1 (size1 - 1) = Some p1"
    using sz(4) alen d1len by (auto simp: ring_get_def sl_get_def s1_def sl_list_def go_index_def p0_def p1_def nat_add_distrib
      nat_diff_distrib)
  define a2 where "a2 = a\<lparr>sl_data := d1[0 := p0, 1 := p1]\<rparr>"
  have set2: "sl_set (es_ringBufAlloc s1) 0 p0 = Some (a\<lparr>sl_data := d1[0 := p0]\<rparr>)" "sl_set (a\<lparr>sl_data := d1[0 := p0]\<rparr>) 1 p1 = Some a2"
    using alen d1len by (auto simp: sl_set_def s1_def a2_def)
  define s2 where "s2 = s\<lparr>es_ringBufAlloc := a2, es_ringBufPos := ring_pos (len + length input), es_inputPos := len + length input\<rparr>"
  have nb: "length input \<le> 2 ^ 25" using n sz by linarith
  have upd: "s1\<lparr>es_ringBufAlloc := a2, es_ringBufPos := ringBufPos_add (es_ringBufPos s1) (length input),
      es_inputPos := uadd (es_inputPos s1) (length input)\<rparr> = s2"
    using rep(2,3) ring_pos_add [OF nb, of len] total by (simp add: s1_def s2_def len_def)
  have ok2: "lap_ok size1 tb (sl_data a2) (xs @ input)"
    by (rule lap_ok_cong [OF d1ok]) (use sz in \<open>simp_all add: a2_def\<close>)
  define q where "q = (len + length input) mod size1"
  define a3 where "a3 = (if ring_pos (len + length input) \<le> size1 - 1 then a2\<lparr>sl_data := overwrite (sl_data a2) (q + 2) (replicate 7 0)\<rparr> else a2)"
  define s3 where "s3 = s2\<lparr>es_ringBufAlloc := a3\<rparr>"
  have qlt: "q < size1" using sz by (simp add: q_def)
  have fit: "q + 2 + 7 \<le> length (sl_data a2)" using qlt alen d1len by (simp add: a2_def)
  have fin: "(if es_ringBufPos s2 \<le> size1 - 1 then enc_put (es_ringBufPos s2 AND (size1 - 1)) (replicate 7 0) s2 else Some s2) = Some s3"
    using fit masked [of "len + length input"] by (simp add: enc_put_def s2_def s3_def a3_def q_def Let_def)
  have ok3: "lap_ok size1 tb (sl_data a3) (xs @ input)"
  proof (cases "ring_pos (len + length input) \<le> size1 - 1")
    case True
    then have small: "len + length input < size1" using sz(4,5) by (auto simp: ring_pos_def split: if_splits)
    then have "q = len + length input" by (simp add: q_def)
    then show ?thesis using True small fit sz(4)
      by (intro lap_ok_cong [OF ok2]) (auto simp: a3_def nth_overwrite len_def)
  next
    case False
    then show ?thesis using ok2 by (simp add: a3_def)
  qed
  have len3: "length (sl_data a3) = length (sl_data a)" "sl_len a3 = sl_len a" using fit d1len by (auto simp: a3_def a2_def)
  have "ring_prefix size1 (sl_data a3) (xs @ input)"
  proof (rule ring_prefix_set [OF d1ok])
    fix j :: nat assume j: "j < 2"
    have two: "2 \<le> length d1" using alen d1len by linarith
    have "sl_data a3 ! j = sl_data a2 ! j" using fit j by (auto simp: a3_def nth_overwrite)
    then show "sl_data a3 ! j = d1 ! (size1 + j)" using j two nth_list_update_eq [of 0 d1] by (fastforce simp: a2_def p0_def p1_def less_2_cases_iff)
  qed (use sz in simp)
  then have "ring_rep s3 (xs @ input)"
    using ok3 rep(1) total len3 alen sz unfolding ring_rep_def
    by (simp add: s3_def s2_def len_def ring_sizes_def sl_ok_def full_len_def)
  moreover have "full_len s3 \<le> sl_len (es_ringBufAlloc s3)" using len3 alen sz by (simp add: s3_def s2_def full_len_def)
  moreover have "s3 = s\<lparr>es_ringBufAlloc := es_ringBufAlloc s3, es_ringBufPos := ring_pos (length (xs @ input)), es_inputPos := length (xs @ input)\<rparr>"
    by (simp add: s3_def s2_def len_def)
  moreover have "es_ringBufPos s AND (size1 - 1) = m" using masked rep(3) by (simp add: m_def len_def)
  moreover have "es_ringBufSize s1 = size1" "es_ringBufSize s2 = size1" using sz(1) by (simp_all add: s1_def s2_def)
  ultimately show ?thesis
    using w g set2 upd fin unfolding copy_full_def sz(1) Let_def by auto
qed

lemma ring_pos_0: "ring_pos n = 0 \<longleftrightarrow> n = 0"
  by (simp add: ring_pos_def)

lemma first_copy_ok:
  assumes rep: "ring_rep s xs" and xs: "xs = []" and n: "length input < 2 ^ es_lgblock s"
  shows "\<exists>s'. (do {
        s \<leftarrow> initRingBuffer v (length input) (s\<lparr>es_ringBufPos := length input\<rparr>);
        s \<leftarrow> enc_put 0 input s;
        Some (s\<lparr>es_inputPos := uadd (es_inputPos s) (length input)\<rparr>) }) = Some s' \<and> ring_rep s' input \<and>
      s' = s\<lparr>es_ringBufAlloc := es_ringBufAlloc s', es_ringBufPos := ring_pos (length input), es_inputPos := length input\<rparr>"
proof -
  obtain rb where rb: "es_ringBufSize s = 2 ^ rb" "2 * 2 ^ es_lgblock s \<le> (2 :: nat) ^ rb" "(2 :: nat) ^ rb \<le> 2 ^ 25"
    by (rule ring_sizesE [of s]) (use rep in \<open>auto simp: ring_rep_def\<close>)
  have small: "length input < 2 ^ 25" using n rb by linarith
  have rep0: "ring_sizes s" "sl_ok (es_ringBufAlloc s)" "es_inputPos s = 0" using rep xs by (auto simp: ring_rep_def)
  obtain a where a: "initRingBuffer v (length input) (s\<lparr>es_ringBufPos := length input\<rparr>) =
      Some (s\<lparr>es_ringBufPos := length input, es_ringBufAlloc := a\<rparr>)" "sl_ok a" "sl_len a = length input + 9"
    by (rule initRingBuffer_ok [of "s\<lparr>es_ringBufPos := length input\<rparr>" "length input" v]) (use rep0 small in auto)
  have fit: "2 + length input \<le> length (sl_data a)" using a by (simp add: sl_ok_def)
  define s' where "s' = s\<lparr>es_ringBufPos := length input, es_ringBufAlloc := a\<lparr>sl_data := overwrite (sl_data a) 2 input\<rparr>, es_inputPos := length input\<rparr>"
  have "lap_ok (2 ^ rb) (2 ^ es_lgblock s) (overwrite (sl_data a) 2 input) input"
    using fit n rb(2) by (auto simp: lap_ok_def nth_overwrite)
  moreover have "ring_pos (length input) = length input" using small by (simp add: ring_pos_def)
  moreover have "ring_prefix (2 ^ rb) (overwrite (sl_data a) 2 input) input"
    by (rule ring_prefix_short) (use n rb(2) in linarith)
  ultimately have "ring_rep s' input"
    using rep0 rb(1) a fit n small by (simp add: ring_rep_def s'_def ring_sizes_def sl_ok_def full_len_def)
  moreover have "(do { s \<leftarrow> enc_put 0 input (s\<lparr>es_ringBufPos := length input, es_ringBufAlloc := a\<rparr>);
        Some (s\<lparr>es_inputPos := uadd (es_inputPos s) (length input)\<rparr>) }) = Some s'"
    using fit rep0 uadd_exact [of 0 "length input"] small by (simp add: enc_put_def s'_def Let_def) (simp add: numeral_2_eq_2)
  ultimately show ?thesis using a(1) \<open>ring_pos (length input) = length input\<close> by (simp add: s'_def)
qed

lemma full_alloc_ok:
  assumes rep: "ring_rep s xs"
  obtains a where "full_alloc v s = Some (s\<lparr>es_ringBufAlloc := a\<rparr>)"
    "sl_ok a" "full_len s \<le> sl_len a" "lap_ok (es_ringBufSize s) (2 ^ es_lgblock s) (sl_data a) xs"
proof (cases "sl_len (es_ringBufAlloc s) < full_len s")
  case False
  then show thesis using that [of "es_ringBufAlloc s"] rep by (simp add: ring_rep_def full_alloc_def)
next
  case True
  define tb where "tb = (2 :: nat) ^ es_lgblock s"
  obtain rb where rb: "es_ringBufSize s = 2 ^ rb" "2 * tb \<le> 2 ^ rb" "4 \<le> (2 :: nat) ^ rb" "(2 :: nat) ^ rb \<le> 2 ^ 25"
    by (rule ring_sizesE [of s]) (use rep in \<open>auto simp: ring_rep_def tb_def\<close>)
  define size1 where "size1 = (2 :: nat) ^ rb"
  have sz: "es_ringBufSize s = size1" "2 ^ es_lgblock s = tb" "2 * tb \<le> size1" "4 \<le> size1" "size1 \<le> 2 ^ 25"
    using rb by (simp_all add: size1_def tb_def)
  have ok: "sl_ok (es_ringBufAlloc s)" "lap_ok size1 tb (sl_data (es_ringBufAlloc s)) xs"
    using rep sz by (simp_all add: ring_rep_def)
  have small: "size1 + tb < 2 ^ 31" using sz by simp
  obtain a where a: "initRingBuffer v (size1 + tb) s = Some (s\<lparr>es_ringBufAlloc := a\<rparr>)" "sl_ok a" "sl_len a = size1 + tb + 9"
    "\<And>k. 2 \<le> k \<Longrightarrow> k < 2 + (size1 + tb) \<Longrightarrow> k < sl_len (es_ringBufAlloc s) \<Longrightarrow> sl_data a ! k = sl_data (es_ringBufAlloc s) ! k"
    by (rule initRingBuffer_ok [OF ok(1) small]) blast
  define a1 a2 where "a1 = a\<lparr>sl_data := (sl_data a)[size1 := 0]\<rparr>" and "a2 = a\<lparr>sl_data := (sl_data a)[size1 := 0, size1 + 1 := 0]\<rparr>"
  have s1: "sl_set a (int size1) 0 = Some a1" using sl_set_ok(1) [OF a(2), of size1 0] a(3) by (simp add: a1_def)
  have s2: "sl_set a1 (int (size1 + 1)) 0 = Some a2"
    using sl_set_ok(1) [of a1 "size1 + 1" 0] sl_set_ok(2) [OF a(2), of size1 0] a(3) by (simp add: a1_def a2_def)
  have len: "xs = [] \<or> length xs < tb \<and> sl_len (es_ringBufAlloc s) = length xs + 9"
    using rep True sz by (auto simp: ring_rep_def)
  have "lap_ok size1 tb (sl_data a2) xs"
  proof (cases "xs = []")
    case False
    then have n: "length xs < tb" "sl_len (es_ringBufAlloc s) = length xs + 9" using len by auto
    have lt: "length xs < size1" using n sz by linarith
    have "sl_data a2 ! (2 + i) = xs ! i \<and> 2 + i < length (sl_data a2)" if i: "i < length xs" for i
    proof -
      have "2 + i < size1" using i n sz by linarith
      moreover have "sl_data (es_ringBufAlloc s) ! (2 + i) = xs ! i" using ok(2) i lt by (auto simp: lap_ok_def)
      ultimately show ?thesis using a(2,3) a(4) [of "2 + i"] i n by (simp add: a2_def sl_ok_def)
    qed
    then show ?thesis using lt by (auto simp: lap_ok_def)
  qed (simp add: lap_ok_def)
  moreover have "sl_ok a2" "full_len s \<le> sl_len a2" using a sz by (simp_all add: a2_def sl_ok_def full_len_def)
  ultimately show thesis using that [of a2] True a(1) s1 s2 sz by (simp add: full_alloc_def)
qed

text \<open>A chunk of input and the ring.\<close>

lemma copyInputToRingBuffer_ring:
  assumes rep: "ring_rep s xs" and n: "length input \<le> 2 ^ es_lgblock s" and total: "length xs + length input < 2 ^ 63"
  shows "\<exists>s'. copyInputToRingBuffer v input s = Some s' \<and> ring_rep s' (xs @ input) \<and>
    s' = s\<lparr>es_ringBufAlloc := es_ringBufAlloc s', es_ringBufPos := ring_pos (length (xs @ input)), es_inputPos := length (xs @ input)\<rparr>"
proof (cases "es_ringBufPos s = 0 \<and> length input < 2 ^ es_lgblock s \<and> length (sl_data (es_ringBufAlloc s)) < full_len s")
  case True
  then have "xs = []" using rep by (simp add: ring_rep_def ring_pos_0)
  then show ?thesis using first_copy_ok [OF rep _ , of input v] True by (simp add: copyInputToRingBuffer_def Let_def)
next
  case False
  obtain a where a: "full_alloc v s = Some (s\<lparr>es_ringBufAlloc := a\<rparr>)"
    "sl_ok a" "full_len s \<le> sl_len a" "lap_ok (es_ringBufSize s) (2 ^ es_lgblock s) (sl_data a) xs"
    by (rule full_alloc_ok [OF rep])
  define s1 where "s1 = s\<lparr>es_ringBufAlloc := a\<rparr>"
  have s1: "es_ringBufSize s1 = es_ringBufSize s" "es_lgblock s1 = es_lgblock s" "es_ringBufPos s1 = es_ringBufPos s"
    "es_inputPos s1 = es_inputPos s" "es_ringBufAlloc s1 = a" "full_len s1 = full_len s" "ring_sizes s1 = ring_sizes s"
    by (simp_all add: s1_def full_len_def ring_sizes_def)
  note full = copy_full_ok [of s1 xs input, unfolded s1, OF _ _ _ a(2,4,3) n total]
  have pre: "ring_sizes s" "es_inputPos s = length xs" "es_ringBufPos s = ring_pos (length xs)"
    using rep by (simp_all add: ring_rep_def)
  obtain s' where s': "ring_rep s' (xs @ input)"
      "s' = s1\<lparr>es_ringBufAlloc := es_ringBufAlloc s', es_ringBufPos := ring_pos (length (xs @ input)), es_inputPos := length (xs @ input)\<rparr>"
    and eq: "copyInputToRingBuffer v input s = Some s'"
    using full [OF pre] a(1) False unfolding copyInputToRingBuffer_def Let_def s1_def [symmetric] by auto
  then show ?thesis by (auto simp: s1_def)
qed

text \<open>C12. The encoder's ring buffer: \<^verbatim>\<open>copyInputToRingBuffer\<close> never panics on a chunk of at most one input block, and
  afterwards the ring holds the last \<^verbatim>\<open>ringBufSize\<close> bytes of all the input there has been, each at its position modulo the
  size, with the bytes of a later lap mirrored behind the end and those of the last two positions of a lap in front of the
  beginning, in this order. This covers the small first allocation, the growth to the full
  buffer on the second write, writes that wrap, positions beyond \<open>2 ^ 31\<close>, and every buffer the pool may return; nothing but
  the buffer and the two positions changes.\<close>

theorem copyInputToRingBuffer_holds:
  assumes rep: "ring_rep s xs" and n: "length input \<le> 2 ^ es_lgblock s" and total: "length xs + length input < 2 ^ 63"
  shows "\<exists>s'. copyInputToRingBuffer v input s = Some s' \<and> ring_rep s' (xs @ input) \<and>
    s' = s\<lparr>es_ringBufAlloc := es_ringBufAlloc s', es_ringBufPos := ring_pos (length (xs @ input)), es_inputPos := length (xs @ input)\<rparr>"
  by (rule copyInputToRingBuffer_ring [OF assms])

definition es_zero :: encodeState where
  "es_zero = \<lparr>es_commands = [], es_ringBufAlloc = sl_nil, es_outBuf = sl_nil, es_hashers = [], es_litHisto = None, es_cmdHisto = None,
     es_distHisto = None, es_b = \<lparr>buf = [], bitOffset = 0\<rparr>, es_compound = compound_zero, es_distCache = replicate 4 0,
     es_savedDistCache = replicate 4 0, es_lgblock = 0, es_sizeHint = 0, es_dictNumLookups = 0, es_lastFlushPos = 0, es_inputPos = 0,
     es_lastProcessedPos = 0, es_dictNumMatches = 0, es_quality = 0, es_distAlphabetSizeMax = 0, es_distAlphabetSizeLimit = 0,
     es_numLiterals = 0, es_numCommands = 0, es_lastInsertLen = 0, es_lgwin = 0, es_mask = 0, es_ringBufSize = 0, es_ringBufPos = 0,
     es_distParams = \<lparr>postfixBits = 0, numDirectCodes = 0, alphabetSizeMax = 0, alphabetSizeLimit = 0, maxDistance = 0\<rparr>,
     es_lastBytes = 0, es_lastBytesBits = 0, es_prevByte = 0, es_prevByte2 = 0, es_userSizeHint = False\<rparr>"

lemma reset_fields:
  "es_lgblock (reset_state v q w h s) = compute_lgblock q w" "es_ringBufSize (reset_state v q w h s) = 2 ^ (1 + max w (compute_lgblock q w))"
  "es_mask (reset_state v q w h s) = 2 ^ (1 + max w (compute_lgblock q w)) - 1" "es_inputPos (reset_state v q w h s) = 0"
  "es_ringBufPos (reset_state v q w h s) = 0" "es_lastFlushPos (reset_state v q w h s) = 0" "es_lastProcessedPos (reset_state v q w h s) = 0"
  "es_lastBytes (reset_state v q w h s) = fst (encodeWindowBits (int w))" "es_lastBytesBits (reset_state v q w h s) = snd (encodeWindowBits (int w))"
  "es_ringBufAlloc (reset_state v q w h s) = (if q \<ge> 10
     then reset_alloc v (2 + (2 ^ (1 + max w (compute_lgblock q w)) + 2 ^ compute_lgblock q w) + 7) (es_ringBufAlloc s) else es_ringBufAlloc s)"
  by (simp_all add: reset_state_def Let_def split: prod.split)

lemma reset_rep:
  assumes "w \<le> 24" and "sl_ok (es_ringBufAlloc s)"
  shows "ring_rep (reset_state v q w h s) []"
proof -
  have "compute_lgblock q w \<le> 18" by (simp add: compute_lgblock_def)
  then have "ring_sizes (reset_state v q w h s)"
    unfolding ring_sizes_def reset_fields
    by (intro conjI exI [of _ "1 + max w (compute_lgblock q w)"]) (use assms in \<open>auto simp: compute_lgblock_def\<close>)
  moreover have "sl_ok (es_ringBufAlloc (reset_state v q w h s))"
    using assms(2) by (auto simp: reset_fields reset_alloc_def sl_ok_def split: option.split)
  ultimately show ?thesis by (simp add: ring_rep_def reset_fields lap_ok_def ring_prefix_def ring_pos_def)
qed

theorem copyInputToRingBuffer_holds_witness:
  "\<exists>s'. copyInputToRingBuffer None [1, 2, 3] (reset_state None 5 18 0 es_zero) = Some s' \<and> ring_rep s' [1, 2, 3] \<and>
    s' = (reset_state None 5 18 0 es_zero)\<lparr>es_ringBufAlloc := es_ringBufAlloc s', es_ringBufPos := 3, es_inputPos := 3\<rparr>"
proof -
  have "ring_rep (reset_state None 5 18 0 es_zero) []" by (rule reset_rep) (simp_all add: es_zero_def sl_ok_def sl_nil_def)
  moreover have "length [1, 2, 3 :: byte] \<le> 2 ^ es_lgblock (reset_state None 5 18 0 es_zero)"
    by (simp add: reset_fields compute_lgblock_def)
  ultimately show ?thesis
    using copyInputToRingBuffer_holds [of "reset_state None 5 18 0 es_zero" "[]" "[1, 2, 3]" None] by (simp add: ring_pos_def numeral_3_eq_3)
qed

end
