(* ===== verification/Decode_Run.thy ===== *)
theory Decode_Run
  imports Decode_Plain
begin

text \<open>
  \<^verbatim>\<open>Decompress\<close> on whole streams without compressed metablocks: the decoder returns the bytes \<open>plain_bytes\<close> reads off
  the bits, whatever the pools hand out and however often the ring buffer grows, wraps or suspends the loop for output.
\<close>

subsection \<open>The decoder between metablocks\<close>

definition plain_inv :: "environment \<Rightarrow> byte list \<Rightarrow> decodeState \<Rightarrow> byte list \<Rightarrow> bool" where
  "plain_inv env outp s h \<longleftrightarrow> sink_ok (e_get env) s \<and> br_inv (ds_br s) \<and> ds_substateMetablockHeader s = metablockHeaderNone \<and>
     ds_cannyRingbufferAllocation s \<and> ds_maxDecodedBytes s = 0 \<and> delivered outp s @ pending s = h \<and>
     count1 s = int (length h) + ds_metaBlockRemainingLen s \<and> 0 \<le> ds_metaBlockRemainingLen s"

definition at_begin :: "environment \<Rightarrow> byte list \<Rightarrow> decodeState \<Rightarrow> byte list \<Rightarrow> bool" where
  "at_begin env outp s h \<longleftrightarrow> plain_inv env outp s h \<and> ring_idle s \<and> ds_state s = StateMetablockBegin \<and>
     ds_substateUncompressed s = uncompressedNone"

text \<open>Inside a raw metablock whose next bytes are at the front of the input.\<close>

definition at_raw :: "environment \<Rightarrow> byte list \<Rightarrow> decodeState \<Rightarrow> byte list \<Rightarrow> bool" where
  "at_raw env outp s h \<longleftrightarrow> plain_inv env outp s h \<and> ring_wait s \<and> ds_state s = StateUncompressed \<and> \<not> ds_isLastMetablock s \<and>
     br_bitPos (ds_br s) mod 8 = 0 \<and> (ds_substateUncompressed s = uncompressedNone \<longrightarrow> ds_pos s < ds_newRingbufferSize s) \<and>
     (ds_rbRoundtrips s + 2) * nat (ds_newRingbufferSize s) < 2 ^ 62"

definition hdr_shape :: "(bool list \<Rightarrow> hdr_result parse) \<Rightarrow> bool" where
  "hdr_shape p \<longleftrightarrow> (\<forall>bs l u m n x rest. p bs = Good ((l, u, m, n), x) rest \<longrightarrow> 0 \<le> n \<and> (u \<longrightarrow> \<not> l \<and> \<not> m \<and> 0 < n))"

lemma hdr_shape_bits: "(\<And>v. hdr_shape (k v)) \<Longrightarrow> hdr_shape (p_bits n k)"
  unfolding hdr_shape_def p_bits_def by (fastforce split: if_splits)

lemma hdr_shape_Good: "0 \<le> n \<Longrightarrow> (u \<Longrightarrow> \<not> l \<and> \<not> m \<and> 0 < n) \<Longrightarrow> hdr_shape (Good ((l, u, m, n), x))" "hdr_shape (\<lambda>_. Bad e)"
  by (simp_all add: hdr_shape_def)

lemma hdr_shape_parts: "hdr_shape (hdr_unc f l n)" "hdr_shape (hdr_size f l n js acc)" "hdr_shape (hdr_meta f l n js acc)"
proof -
  show u: "hdr_shape (hdr_unc f l n)" for n by (auto simp: hdr_unc_def intro!: hdr_shape_bits hdr_shape_Good)
  show "hdr_shape (hdr_size f l n js acc)"
    by (induction js arbitrary: acc) (auto simp: u intro!: hdr_shape_bits hdr_shape_Good)
  show "hdr_shape (hdr_meta f l n js acc)"
    by (induction js arbitrary: acc) (auto intro!: hdr_shape_bits hdr_shape_Good)
qed

lemma header_at_shape:
  assumes "header_at bs = Some ((l, u, m, n), rest)"
  shows "0 \<le> n" and "u \<Longrightarrow> \<not> l \<and> \<not> m \<and> 0 < n"
proof -
  have "hdr_shape (hdr_empty zero_state)" "hdr_shape (hdr_nibbles zero_state False)"
    unfolding hdr_empty_def hdr_nibbles_def hdr_reserved_def hdr_bytes_def
    by (auto intro!: hdr_shape_bits hdr_shape_Good hdr_shape_parts)
  then have "hdr_shape (hdr_parse zero_state)" unfolding hdr_parse_def by (auto intro!: hdr_shape_bits)
  then show "0 \<le> n" "u \<Longrightarrow> \<not> l \<and> \<not> m \<and> 0 < n"
    using header_at_parse [OF assms, of zero_state] unfolding hdr_shape_def by blast+
qed

text \<open>What the header leaves: the state at the start of the metablock with the six fields it sets.\<close>

definition headed :: "decodeState \<Rightarrow> bitReader \<Rightarrow> int \<Rightarrow> int \<Rightarrow> bool \<times> bool \<times> bool \<times> int \<Rightarrow> decodeState" where
  "headed s br lc sn h = (case h of (l, u, m, n) \<Rightarrow> (metablockBegin s)\<lparr>ds_state := StateMetablockHeader, ds_br := br, ds_loopCounter := lc,
     ds_metaBlockRemainingLen := n, ds_substateMetablockHeader := metablockHeaderNone, ds_sizeNibbles := sn,
     ds_isLastMetablock := l, ds_isUncompressed := u, ds_isMetadata := m\<rparr>)"

lemma header_step:
  assumes none: "ds_substateMetablockHeader s = metablockHeaderNone" and inv: "br_inv (ds_br s)"
    and h: "header_at (br_bits (ds_br s)) = Some (h, rest)"
  obtains br lc sn where "decodeMetaBlockLength ((metablockBegin s)\<lparr>ds_state := StateMetablockHeader\<rparr>) = Some (ResultSuccess, headed s br lc sn h)"
    "br_inv br" "br_bits br = rest"
proof -
  obtain l u m n where hh: "h = (l, u, m, n)" by (metis surj_pair)
  define t where "t = (metablockBegin s)\<lparr>ds_state := StateMetablockHeader\<rparr>"
  have t: "ds_br t = ds_br s" "ds_substateMetablockHeader t = metablockHeaderNone"
    using none by (simp_all add: t_def metablockBegin_def)
  have good: "hdr_good t" and res: "hdr_resid t (br_bits (ds_br t)) = Good (h, metablockHeaderNone, hdr_frame t) rest"
    using t header_at_parse [OF h, of "hdr_frame t"] by (simp_all add: hdr_good_def hdr_resid_def Let_def)
  obtain t' where t': "decodeMetaBlockLength t = Some (ResultSuccess, t')" "hdr_fin t' = (h, metablockHeaderNone, hdr_frame t)"
    "br_inv (ds_br t')" "br_bits (ds_br t') = rest"
    by (rule header.run_Good [OF good _ res]) (use inv t in auto)
  have fr: "hdr_frame t' = hdr_frame t" using t'(2) by (simp add: hdr_fin_def)
  have "t' = headed s (ds_br t') (ds_loopCounter t') (ds_sizeNibbles t') h"
    using hdr_frame_eq [OF fr] t'(2) unfolding headed_def hh hdr_fin_def t_def by simp
  then show thesis using that t' unfolding t_def by metis
qed

lemma br_bits_mod: "length (br_bits br) mod 8 = br_bitPos br mod 8"
  by (simp add: br_bits_def)

lemma padding_step:
  assumes inv: "br_inv br" and p: "skip_padding (br_bits br) = Some rest"
  obtains br' where "jumpToByteBoundary br = (True, br')" "br_inv br'" "br_bits br' = rest" "br_bitPos br' mod 8 = 0" "br_clean br'"
proof -
  obtain ok br' where j: "jumpToByteBoundary br = (ok, br')" "br_inv br'" "br_bits br' = drop (br_bitPos br mod 8) (br_bits br)"
    "ok \<longleftrightarrow> (\<forall>b \<in> set (take (br_bitPos br mod 8) (br_bits br)). \<not> b)" "br_bitPos br' = 8 * (br_bitPos br div 8)"
    by (rule jumpToByteBoundary_ok [OF inv]) blast
  have "ok" "br_bits br' = rest" using p j(3,4) by (auto simp: skip_padding_def Let_def br_bits_mod split: if_splits)
  moreover have "br_clean br'" using jumpToByteBoundary_clean [OF inv] j(1) by simp
  ultimately show thesis using that j by simp
qed

lemma ring_fields_cong:
  assumes "ds_ringbuffer s' = ds_ringbuffer s" "ds_ringbufferSize s' = ds_ringbufferSize s" "ds_newRingbufferSize s' = ds_newRingbufferSize s"
    "ds_windowBits s' = ds_windowBits s" "ds_rbRoundtrips s' = ds_rbRoundtrips s" "ds_partialPosOut s' = ds_partialPosOut s"
    "ds_pos s' = ds_pos s"
  shows "ring_inv s' = ring_inv s" "ring_idle s' = ring_idle s" "ring_wait s' = ring_wait s" "pending s' = pending s"
proof -
  show inv: "ring_inv s' = ring_inv s" using assms by (simp add: ring_inv_def flushed_pos_def)
  show "ring_idle s' = ring_idle s" "ring_wait s' = ring_wait s" "pending s' = pending s"
    using assms by (simp_all add: inv ring_idle_def ring_wait_def pending_def flushed_pos_def)
qed

lemma sink_cong:
  assumes "ds_sink s' = ds_sink s" "ds_outChunks s' = ds_outChunks s"
  shows "sink_ok get s' = sink_ok get s" "delivered outp s' = delivered outp s"
  using assms by (simp_all add: sink_ok_def delivered_def)

text \<open>An update of fields outside the ring, the sink and the reader.\<close>

lemma plain_state_upd [simp]:
  "ring_idle (s\<lparr>ds_state := x\<rparr>) = ring_idle s" "ring_wait (s\<lparr>ds_state := x\<rparr>) = ring_wait s"
  "pending (s\<lparr>ds_state := x\<rparr>) = pending s" "sink_ok get (s\<lparr>ds_state := x\<rparr>) = sink_ok get s"
  "delivered outp (s\<lparr>ds_state := x\<rparr>) = delivered outp s" "count1 (s\<lparr>ds_state := x\<rparr>) = count1 s"
  "plain_inv env outp (s\<lparr>ds_state := x\<rparr>) h = plain_inv env outp s h"
proof -
  note c = ring_fields_cong [of "s\<lparr>ds_state := x\<rparr>" s] sink_cong [of "s\<lparr>ds_state := x\<rparr>" s]
  show "ring_idle (s\<lparr>ds_state := x\<rparr>) = ring_idle s" "ring_wait (s\<lparr>ds_state := x\<rparr>) = ring_wait s"
    "pending (s\<lparr>ds_state := x\<rparr>) = pending s" "sink_ok get (s\<lparr>ds_state := x\<rparr>) = sink_ok get s"
    "delivered outp (s\<lparr>ds_state := x\<rparr>) = delivered outp s" using c by simp_all
  show "count1 (s\<lparr>ds_state := x\<rparr>) = count1 s" by (simp add: count1_def)
  then show "plain_inv env outp (s\<lparr>ds_state := x\<rparr>) h = plain_inv env outp s h" using c by (simp add: plain_inv_def)
qed

lemma headed_fields [simp]:
  "ds_br (headed s br lc sn h) = br" "ds_substateUncompressed (headed s br lc sn h) = ds_substateUncompressed s"
  "ds_cannyRingbufferAllocation (headed s br lc sn h) = ds_cannyRingbufferAllocation s"
  "ds_maxDecodedBytes (headed s br lc sn h) = ds_maxDecodedBytes s"
  "ds_substateMetablockHeader (headed s br lc sn h) = metablockHeaderNone"
  "ds_isLastMetablock (headed s br lc sn (l, u, m, n)) = l" "ds_isUncompressed (headed s br lc sn (l, u, m, n)) = u"
  "ds_isMetadata (headed s br lc sn (l, u, m, n)) = m" "ds_metaBlockRemainingLen (headed s br lc sn (l, u, m, n)) = n"
  "(headed s br lc sn h)\<lparr>ds_br := br'\<rparr> = headed s br' lc sn h"
  by (simp_all add: headed_def metablockBegin_def split: prod.split)

lemma headed_ring [simp]:
  "ring_idle (headed s br lc sn h) = ring_idle s" "pending (headed s br lc sn h) = pending s"
  "sink_ok get (headed s br lc sn h) = sink_ok get s" "delivered outp (headed s br lc sn h) = delivered outp s"
  "ds_rbRoundtrips (headed s br lc sn h) = ds_rbRoundtrips s" "ds_pos (headed s br lc sn h) = ds_pos s"
  "ds_ringbufferSize (headed s br lc sn h) = ds_ringbufferSize s" "ds_windowBits (headed s br lc sn h) = ds_windowBits s"
  "ds_sink (headed s br lc sn h) = ds_sink s"
proof -
  let ?t = "headed s br lc sn h"
  have f: "ds_ringbuffer ?t = ds_ringbuffer s" "ds_ringbufferSize ?t = ds_ringbufferSize s" "ds_newRingbufferSize ?t = ds_newRingbufferSize s"
    "ds_windowBits ?t = ds_windowBits s" "ds_rbRoundtrips ?t = ds_rbRoundtrips s" "ds_partialPosOut ?t = ds_partialPosOut s"
    "ds_pos ?t = ds_pos s" "ds_sink ?t = ds_sink s" "ds_outChunks ?t = ds_outChunks s"
    by (simp_all add: headed_def metablockBegin_def split: prod.split)
  show "ring_idle ?t = ring_idle s" "pending ?t = pending s" "sink_ok get ?t = sink_ok get s" "delivered outp ?t = delivered outp s"
    using ring_fields_cong [OF f(1-7)] sink_cong [OF f(8,9)] by simp_all
  show "ds_rbRoundtrips ?t = ds_rbRoundtrips s" "ds_pos ?t = ds_pos s" "ds_ringbufferSize ?t = ds_ringbufferSize s"
    "ds_windowBits ?t = ds_windowBits s" "ds_sink ?t = ds_sink s" using f by simp_all
qed

lemma plain_inv_headed:
  assumes "plain_inv env outp s h" and "ds_metaBlockRemainingLen s = 0" and "br_inv br" and "0 \<le> n"
  shows "plain_inv env outp (headed s br lc sn (l, u, m, n)) h"
  using assms by (simp add: plain_inv_def count1_def)


subsection \<open>A raw metablock\<close>

lemma ring_frame_fields:
  assumes "ring_frame s' = ring_frame s"
  shows "ds_state s' = ds_state s" "ds_isLastMetablock s' = ds_isLastMetablock s" "ds_sink s' = ds_sink s"
    "ds_cannyRingbufferAllocation s' = ds_cannyRingbufferAllocation s" "ds_maxDecodedBytes s' = ds_maxDecodedBytes s"
    "ds_substateMetablockHeader s' = ds_substateMetablockHeader s" "ds_windowBits s' = ds_windowBits s"
  using arg_cong [OF assms, of ds_state] arg_cong [OF assms, of ds_isLastMetablock] arg_cong [OF assms, of ds_sink]
    arg_cong [OF assms, of ds_cannyRingbufferAllocation] arg_cong [OF assms, of ds_maxDecodedBytes]
    arg_cong [OF assms, of ds_substateMetablockHeader] arg_cong [OF assms, of ds_windowBits]
  by (simp_all add: ring_frame_def)

lemma done_step:
  assumes "ds_metaBlockRemainingLen s = 0" and "\<not> ds_isLastMetablock s"
  shows "stream_step env k (outp, s\<lparr>ds_state := StateMetablockDone\<rparr>) = Some (Inr (outp, s\<lparr>ds_state := StateMetablockBegin\<rparr>))"
  using assms by (simp add: stream_step_def case_MetablockDone_def s_again_def)

lemma size_bound: "rt * S < 2 ^ 59 \<Longrightarrow> S \<le> 2 ^ 30 \<Longrightarrow> (rt + 2) * S < (2 :: nat) ^ 62"
  by (simp add: algebra_simps)

lemma ring_rounds:
  assumes "ring_inv s" and "count1 s = int m" and "m < 2 ^ 59" and "0 \<le> ds_metaBlockRemainingLen s"
  shows "ds_rbRoundtrips s * nat (ds_ringbufferSize s) < 2 ^ 59" and "nat (ds_ringbufferSize s) \<le> 2 ^ 30"
proof -
  obtain S P where S: "ds_ringbufferSize s = int S" "ds_pos s = int P" by (rule ring_invE [OF assms(1)]) blast
  have "int (ds_rbRoundtrips s * S) \<le> int m" using assms(2,4) S by (simp add: count1_def)
  then show "ds_rbRoundtrips s * nat (ds_ringbufferSize s) < 2 ^ 59" using assms(3) S by (simp only: of_nat_le_iff nat_int)
  obtain k where k: "k \<le> nat (ds_windowBits s)" "nat (ds_windowBits s) \<le> 30" "ds_ringbufferSize s = 2 ^ k"
    using assms(1) by (auto simp: ring_inv_def)
  then have "int S \<le> 2 ^ 30" using S(1) power_increasing [of k 30 "2 :: int"] by simp
  then show "nat (ds_ringbufferSize s) \<le> 2 ^ 30" using S(1) by simp
qed

lemma raw_run:
  assumes "at_raw env outp s h" and "br_bits (ds_br s) = bytes_bits bs @ rest" and "int (length bs) = ds_metaBlockRemainingLen s"
    and "length h + length bs < 2 ^ 59"
  shows "\<exists>k' outp' s'. decodeAll env k (outp, s) = decodeAll env k' (outp', s') \<and> at_begin env outp' s' (h @ bs) \<and>
    br_bits (ds_br s') = rest \<and> ds_metaBlockRemainingLen s' = 0 \<and> ds_sink s' = ds_sink s"
  using assms
proof (induction "length bs" arbitrary: bs k outp s h rule: less_induct)
  case less
  note raw = less.prems(1) [unfolded at_raw_def plain_inv_def]
  obtain r o1 s1 cs where c: "copyUncompressedBlock (e_get env) (e_pool env k) (outp, s) = Some (r, o1, s1)"
    "copied (e_get env) outp s r o1 s1 cs"
    using copyUncompressedBlock_ok [of s "e_get env" "e_pool env k" outp] raw by auto
  note cp = c(2) [unfolded copied_def]
  have fr: "ring_frame s1 = ring_frame s" by (rule copyUncompressedBlock_frame [OF c(1)])
  have cnt: "count1 s1 = count1 s" by (rule copyUncompressedBlock_count [OF _ _ _ c(1)]) (use raw in auto)
  have nonneg: "0 \<le> ds_metaBlockRemainingLen s1" using cp by (cases r) auto
  have len: "length cs \<le> length bs" using nonneg cp less.prems(3) by auto
  have "bytes_bits cs @ br_bits (ds_br s1) = bytes_bits bs @ rest" using cp less.prems(2) by simp
  note pre = bytes_bits_prefix [OF this len]
  have split: "bs = cs @ drop (length cs) bs" using append_take_drop_id [of "length cs" bs] pre(1) by simp
  have inv1: "plain_inv env o1 s1 (h @ cs)"
    using raw cp cnt nonneg by (simp add: plain_inv_def ring_frame_fields [OF fr])
  show ?case
  proof (cases r)
    case ResultSuccess
    then have fin: "cs = bs" "ds_metaBlockRemainingLen s1 = 0" "br_bits (ds_br s1) = rest"
      using cp less.prems(3) pre by auto
    have "stream_step env k (outp, s) = Some (Inr (o1, s1\<lparr>ds_state := StateMetablockDone\<rparr>))"
      using raw c(1) ResultSuccess by (simp add: stream_step_def case_Uncompressed_def s_again_def)
    moreover have "stream_step env (k + 1) (o1, s1\<lparr>ds_state := StateMetablockDone\<rparr>) = Some (Inr (o1, s1\<lparr>ds_state := StateMetablockBegin\<rparr>))"
      by (rule done_step) (use fin raw ring_frame_fields [OF fr] in auto)
    ultimately have "decodeAll env k (outp, s) = decodeAll env (k + 1 + 1) (o1, s1\<lparr>ds_state := StateMetablockBegin\<rparr>)"
      using decodeAll_again by metis
    moreover have "ring_idle s1" using cp ResultSuccess by (auto simp: ring_idle_def ring_inv_def)
    then have "at_begin env o1 (s1\<lparr>ds_state := StateMetablockBegin\<rparr>) (h @ bs)"
      using inv1 cp ResultSuccess unfolding at_begin_def fin(1) by simp
    ultimately show ?thesis using fin ring_frame_fields [OF fr] by (intro exI conjI) (assumption | simp)+
  next
    case ResultNeedsMoreOutput
    then have more: "cs \<noteq> []" "ds_substateUncompressed s1 = uncompressedWrite" "ds_pos s1 = ds_ringbufferSize s1" using cp by auto
    have step: "stream_step env k (outp, s) = Some (Inl (ResultNeedsMoreOutput, (o1, s1)))"
      using raw c(1) ResultNeedsMoreOutput by (simp add: stream_step_def case_Uncompressed_def s_return_def)
    obtain o2 s2 where f: "flushOutput (e_get env) (o1, s1) = Some (o2, s2)" "ring_inv s2" "sink_ok (e_get env) s2"
      "delivered o2 s2 = delivered o1 s1 @ pending s1" "pending s2 = []" "ds_pos s2 = ds_pos s1"
      "ds_ringbufferSize s2 = ds_ringbufferSize s1" "ds_br s2 = ds_br s1" "ring_frame s2 = ring_frame s1"
      "ds_metaBlockRemainingLen s2 = ds_metaBlockRemainingLen s1" "ds_substateUncompressed s2 = ds_substateUncompressed s1"
      "ds_rbRoundtrips s2 = ds_rbRoundtrips s1"
      by (rule flushOutput_ok [of s1 "e_get env" o1]) (use cp more nonneg in auto)
    have inv2: "plain_inv env o2 s2 (h @ cs)"
      using inv1 f by (simp add: plain_inv_def ring_frame_fields [OF f(9)] count1_def)
    have "count1 s2 = int (length h + length bs)" using inv2 cp f(10) less.prems(3) by (simp add: plain_inv_def)
    note b = ring_rounds [OF f(2) this less.prems(4)]
    have "(ds_rbRoundtrips s2 + 2) * nat (ds_newRingbufferSize s2) < 2 ^ 62"
      using size_bound [OF b] nonneg f(2,10) by (simp add: ring_inv_def)
    then have "at_raw env o2 s2 (h @ cs)"
      using inv2 f more raw cp unfolding at_raw_def
      by (simp add: ring_frame_fields [OF f(9)] ring_frame_fields [OF fr] ring_wait_def)
    moreover have "length (drop (length cs) bs) < length bs" using more(1) len by (cases bs; cases cs) auto
    moreover have "int (length (drop (length cs) bs)) = ds_metaBlockRemainingLen s2" using len cp f(10) less.prems(3) by simp
    moreover have "length (h @ cs) + length (drop (length cs) bs) < 2 ^ 59" using less.prems(4) len by simp
    ultimately have "\<exists>k' outp' s'. decodeAll env (k + 1) (o2, s2) = decodeAll env k' (outp', s') \<and>
        at_begin env outp' s' ((h @ cs) @ drop (length cs) bs) \<and> br_bits (ds_br s') = rest \<and> ds_metaBlockRemainingLen s' = 0 \<and>
        ds_sink s' = ds_sink s2"
      using less.hyps [of "drop (length cs) bs" o2 s2 "h @ cs" "k + 1"] pre(2) f(8) by simp
    moreover have "(h @ cs) @ drop (length cs) bs = h @ bs" using split by simp
    ultimately show ?thesis
      using decodeAll_flush [OF step f(1)] ring_frame_fields [OF fr] ring_frame_fields [OF f(9)] by simp
  next
    case ResultNeedsMoreInput
    then have "0 < ds_metaBlockRemainingLen s1" "br_bits (ds_br s1) = []" using cp by auto
    moreover have "length (bytes_bits (drop (length cs) bs)) = 0" using calculation(2) pre(2) by simp
    then have "length bs \<le> length cs" by simp
    ultimately show ?thesis using cp less.prems(3) by auto
  next
    case ResultError
    then show ?thesis using cp by simp
  qed
qed


subsection \<open>One metablock\<close>

lemma begin_fields:
  assumes "at_begin env outp s h" and "ds_metaBlockRemainingLen s = 0"
  shows "ring_idle s" "int (ds_rbRoundtrips s) * ds_ringbufferSize s + ds_pos s = int (length h)" "0 \<le> ds_pos s"
    "ds_state s = StateMetablockBegin" "br_inv (ds_br s)" "ds_substateMetablockHeader s = metablockHeaderNone" "plain_inv env outp s h"
  using assms by (auto simp: at_begin_def plain_inv_def count1_def ring_idle_def elim!: ring_invE)

lemma window_at_most: "nat w \<le> 30 \<Longrightarrow> (2 :: int) ^ nat w \<le> 2 ^ 30"
  by (rule power_increasing) auto

lemma raw_step:
  assumes b: "at_begin env outp s h" "ds_metaBlockRemainingLen s = 0"
    and h: "header_at (br_bits (ds_br s)) = Some ((False, True, m, n), bs1)" and p: "skip_padding bs1 = Some bs2"
    and len: "length h < 2 ^ 59"
  obtains s' where "stream_step env k (outp, s) = Some (Inr (outp, s'))" "at_raw env outp s' h" "br_bits (ds_br s') = bs2"
    "ds_metaBlockRemainingLen s' = n" "ds_sink s' = ds_sink s"
proof -
  note f = begin_fields [OF b]
  have n: "0 < n" "\<not> m" using header_at_shape [OF h] by auto
  obtain br lc sn where hd: "decodeMetaBlockLength ((metablockBegin s)\<lparr>ds_state := StateMetablockHeader\<rparr>) =
      Some (ResultSuccess, headed s br lc sn (False, True, m, n))" "br_inv br" "br_bits br = bs1"
    by (rule header_step [OF f(6,5) h])
  obtain br' where j: "jumpToByteBoundary br = (True, br')" "br_inv br'" "br_bits br' = bs2" "br_bitPos br' mod 8 = 0"
    by (rule padding_step [of br bs2]) (use hd p in auto)
  define t where "t = headed s br' lc sn (False, True, m, n)"
  have t: "ring_idle t" "ds_metaBlockRemainingLen t = n" "\<not> ds_isMetadata t" "ds_cannyRingbufferAllocation t" "ds_isUncompressed t"
    "ds_maxDecodedBytes t = 0" "ds_br t = br'" "ds_substateUncompressed t = uncompressedNone" "ds_sink t = ds_sink s"
    "\<not> ds_isLastMetablock t" "ds_rbRoundtrips t = ds_rbRoundtrips s" "ds_ringbufferSize t = ds_ringbufferSize s" "ds_pos t = ds_pos s"
    "ds_windowBits t = ds_windowBits s"
    using f n b by (simp_all add: t_def at_begin_def plain_inv_def)
  have pt: "plain_inv env outp t h" unfolding t_def by (rule plain_inv_headed) (use f b j n in auto)
  have len_t: "0 < ds_metaBlockRemainingLen t" using t n by simp
  obtain nn where c: "calculateRingBufferSize t = Some (t\<lparr>ds_newRingbufferSize := nn\<rparr>)" "ring_wait (t\<lparr>ds_newRingbufferSize := nn\<rparr>)"
    "nn \<le> 2 ^ nat (ds_windowBits t)" by (rule calculateRingBufferSize_ok [OF t(1) len_t t(3,4)])
  define s' where "s' = t\<lparr>ds_newRingbufferSize := nn, ds_state := StateUncompressed\<rparr>"
  have step: "stream_step env k (outp, s) = Some (Inr (outp, s'))"
  proof -
    have "begin_body outp t = Some (Inr (outp, s'))"
      using c(1) t unfolding s'_def by (simp add: begin_body_def declare_length_def s_again_def)
    then show ?thesis using f(4) hd(1) j(1) n unfolding t_def
      by (simp add: stream_step_def case_MetablockBegin_def case_MetablockHeader_def header_done_def)
  qed
  have w: "ring_wait s'" using c(2) by (simp add: s'_def)
  have less: "ds_pos s' < ds_newRingbufferSize s'"
    using w t(1) by (auto simp: ring_wait_def ring_idle_def ring_inv_def s'_def)
  have "nat (ds_windowBits t) \<le> 30" using t(1) by (simp add: ring_idle_def)
  then have nn: "0 \<le> nn" "nn \<le> 2 ^ 30" using c(3) window_at_most [of "ds_windowBits t"] less f(3) t(13) by (auto simp: s'_def)
  have rounds: "int (ds_rbRoundtrips s) * nn \<le> int (length h)"
  proof (cases "ds_rbRoundtrips s = 0")
    case False
    then have "nn \<le> ds_ringbufferSize s" using f(1) c(3) t(14) by (auto simp: ring_idle_def ring_inv_def)
    then have "int (ds_rbRoundtrips s) * nn \<le> int (ds_rbRoundtrips s) * ds_ringbufferSize s" by (rule mult_left_mono) simp
    then show ?thesis using f(2,3) by simp
  qed simp
  then have "int (ds_rbRoundtrips s * nat nn) \<le> int (length h)" using nn by simp
  then have "ds_rbRoundtrips s * nat nn < 2 ^ 59" using len by linarith
  then have "(ds_rbRoundtrips s + 2) * nat nn < 2 ^ 62" by (rule size_bound) (use nn in simp)
  moreover have "plain_inv env outp s' h"
  proof -
    have "pending s' = pending t" by (simp add: pending_def flushed_pos_def s'_def)
    moreover have "sink_ok (e_get env) s' = sink_ok (e_get env) t" "delivered outp s' = delivered outp t"
      by (rule sink_cong; simp add: s'_def)+
    ultimately show ?thesis using pt by (simp add: plain_inv_def count1_def) (simp add: s'_def)
  qed
  ultimately have "at_raw env outp s' h"
    using w less t j(4) unfolding at_raw_def by (simp add: s'_def)
  then show thesis using that [OF step] j t by (simp add: s'_def)
qed

lemma metadata_run:
  assumes b: "at_begin env outp s h" "ds_metaBlockRemainingLen s = 0"
    and h: "header_at (br_bits (ds_br s)) = Some ((False, False, True, n), bs1)" and p: "skip_padding bs1 = Some bs2"
    and len: "8 * nat n \<le> length bs2"
  shows "\<exists>k' s'. decodeAll env k (outp, s) = decodeAll env k' (outp, s') \<and> at_begin env outp s' h \<and>
    br_bits (ds_br s') = drop (8 * nat n) bs2 \<and> ds_metaBlockRemainingLen s' = 0 \<and> ds_sink s' = ds_sink s"
proof -
  note f = begin_fields [OF b]
  have n: "0 \<le> n" using header_at_shape [OF h] by auto
  obtain br lc sn where hd: "decodeMetaBlockLength ((metablockBegin s)\<lparr>ds_state := StateMetablockHeader\<rparr>) =
      Some (ResultSuccess, headed s br lc sn (False, False, True, n))" "br_inv br" "br_bits br = bs1"
    by (rule header_step [OF f(6,5) h])
  obtain br' where j: "jumpToByteBoundary br = (True, br')" "br_inv br'" "br_bits br' = bs2" "br_bitPos br' mod 8 = 0" "br_clean br'"
    by (rule padding_step [of br bs2]) (use hd p in auto)
  define t where "t = (headed s br' lc sn (False, False, True, n))\<lparr>ds_state := StateMetadata\<rparr>"
  have step1: "stream_step env k (outp, s) = Some (Inr (outp, t))"
    using f(4) hd(1) j(1) unfolding t_def
    by (simp add: stream_step_def case_MetablockBegin_def case_MetablockHeader_def header_done_def s_again_def)
  obtain r br2 q where sk: "skipMetadataBlock t = Some (r, t\<lparr>ds_br := br2, ds_metaBlockRemainingLen := ds_metaBlockRemainingLen t - int q\<rparr>)"
    "br_inv br2" "br_bits br2 = drop (8 * q) (br_bits (ds_br t))"
    "if 8 * ds_metaBlockRemainingLen t \<le> int (length (br_bits (ds_br t)))
     then r = ResultSuccess \<and> int q = ds_metaBlockRemainingLen t else r = ResultNeedsMoreInput \<and> br_bits br2 = []"
    using skipMetadataBlock_ok [of t] j n by (auto simp: t_def)
  have q: "r = ResultSuccess" "int q = n" using sk(4) j len n by (auto simp: t_def split: if_splits)
  then have "q = nat n" using n by simp
  define u where "u = (headed s br2 lc sn (False, False, True, 0))"
  have "t\<lparr>ds_br := br2, ds_metaBlockRemainingLen := ds_metaBlockRemainingLen t - int q\<rparr> = u\<lparr>ds_state := StateMetadata\<rparr>"
    unfolding t_def u_def using q by (simp add: headed_def)
  then have "stream_step env (k + 1) (outp, t) = Some (Inr (outp, u\<lparr>ds_state := StateMetablockDone\<rparr>))"
    using sk(1) q(1) by (simp add: stream_step_def t_def case_Metadata_def s_again_def)
  moreover have "stream_step env (k + 1 + 1) (outp, u\<lparr>ds_state := StateMetablockDone\<rparr>) = Some (Inr (outp, u\<lparr>ds_state := StateMetablockBegin\<rparr>))"
    by (rule done_step) (simp_all add: u_def)
  ultimately have "decodeAll env k (outp, s) = decodeAll env (k + 1 + 1 + 1) (outp, u\<lparr>ds_state := StateMetablockBegin\<rparr>)"
    using decodeAll_again step1 by metis
  moreover have "plain_inv env outp u h" unfolding u_def by (rule plain_inv_headed) (use f b sk in auto)
  then have "at_begin env outp (u\<lparr>ds_state := StateMetablockBegin\<rparr>) h"
    using b(1) f(1) unfolding at_begin_def by (simp add: u_def)
  moreover have "br_bits br2 = drop (8 * nat n) bs2" using sk(3) j(3) \<open>q = nat n\<close> by (simp add: t_def)
  ultimately show ?thesis by (intro exI conjI) (assumption | simp add: u_def)+
qed

lemma idle_flush:
  assumes "ring_idle s" and "sink_ok get s" and "0 \<le> ds_metaBlockRemainingLen s"
  obtains outp' s' where "flushOutput get (outp, s) = Some (outp', s')" "delivered outp' s' = delivered outp s @ pending s"
    "sink_ok get s'" "ds_sink s' = ds_sink s"
proof (cases "ds_ringbufferSize s = 0")
  case True
  then have e: "ds_pos s = 0" "flushed_pos s = 0" using assms(1) by (auto simp: ring_idle_def ring_inv_def flushed_pos_def)
  then have "pendingOutput s = Some []" using True by (simp add: pendingOutput_def)
  then show thesis using that [of outp s] e assms(2) by (simp add: flushOutput_def pending_def)
next
  case False
  then have inv: "ring_inv s" "ds_pos s \<le> ds_ringbufferSize s" using assms(1) by (auto simp: ring_idle_def)
  obtain o2 s2 where fl: "flushOutput get (outp, s) = Some (o2, s2)" "sink_ok get s2" "delivered o2 s2 = delivered outp s @ pending s"
    "ring_frame s2 = ring_frame s"
    by (rule flushOutput_ok [OF inv assms(2,3), of outp])
  then show thesis using that [OF fl(1,3,2)] ring_frame_fields [OF fl(4)] by simp
qed

lemma no_bits_left:
  assumes "br_inv br" and "br_bits br = []"
  shows "br_inv (unload br)" "\<not> availIn (unload br) > 0"
proof -
  note u = unload_ok [OF assms(1)]
  then show "br_inv (unload br)" by simp
  have "bytes_bits (drop (nat (br_pos (unload br))) (br_input (unload br))) = []" using u(2) assms(2) by (simp add: br_bits_def)
  then have "length (bytes_bits (drop (nat (br_pos (unload br))) (br_input (unload br)))) = 0" by (simp only: list.size)
  then show "\<not> availIn (unload br) > 0" using br_invD [OF u(1)] by (simp add: availIn_def)
qed

lemma last_run:
  assumes b: "at_begin env outp s h" "ds_metaBlockRemainingLen s = 0"
    and h: "header_at (br_bits (ds_br s)) = Some ((True, u, False, 0), bs1)" and p: "skip_padding bs1 = Some []"
  shows "\<exists>outp' s'. decodeAll env k (outp, s) = Some (None, outp', s') \<and> delivered outp' s' = h \<and> sink_ok (e_get env) s' \<and>
    ds_sink s' = ds_sink s"
proof -
  note f = begin_fields [OF b]
  have u: "\<not> u" using header_at_shape [OF h] by auto
  obtain br lc sn where hd: "decodeMetaBlockLength ((metablockBegin s)\<lparr>ds_state := StateMetablockHeader\<rparr>) =
      Some (ResultSuccess, headed s br lc sn (True, False, False, 0))" "br_inv br" "br_bits br = bs1"
    by (rule header_step [OF f(6,5)]) (use h u in auto)
  obtain br' where j: "jumpToByteBoundary br = (True, br')" "br_inv br'" "br_bits br' = []"
    by (rule padding_step [of br "[]"]) (use hd p in auto)
  define t where "t = headed s br lc sn (True, False, False, 0)"
  have step1: "stream_step env k (outp, s) = Some (Inr (outp, t\<lparr>ds_state := StateMetablockDone\<rparr>))"
    using f(4) hd(1) by (simp add: stream_step_def case_MetablockBegin_def case_MetablockHeader_def header_done_def s_again_def t_def)
  define v where "v = t\<lparr>ds_state := StateMetablockDone, ds_br := br', ds_state := StateDone\<rparr>"
  have step2: "stream_step env (k + 1) (outp, t\<lparr>ds_state := StateMetablockDone\<rparr>) = Some (Inl (ResultSuccess, outp, v))"
    using j(1) by (simp add: stream_step_def case_MetablockDone_def case_Done_def s_return_def v_def t_def)
  define w where "w = v\<lparr>ds_br := unload br'\<rparr>"
  have ex: "excessiveInput v = (False, w)"
    using no_bits_left [OF j(2,3)] by (simp add: excessiveInput_def w_def Let_def) (simp add: v_def)
  have fields: "ds_ringbuffer w = ds_ringbuffer t" "ds_ringbufferSize w = ds_ringbufferSize t" "ds_newRingbufferSize w = ds_newRingbufferSize t"
    "ds_windowBits w = ds_windowBits t" "ds_rbRoundtrips w = ds_rbRoundtrips t" "ds_partialPosOut w = ds_partialPosOut t"
    "ds_pos w = ds_pos t" "ds_sink w = ds_sink t" "ds_outChunks w = ds_outChunks t" "ds_metaBlockRemainingLen w = 0"
    by (simp_all add: w_def v_def t_def headed_def)
  note rc = ring_fields_cong [OF fields(1-7)] sink_cong [OF fields(8,9)]
  have pt: "plain_inv env outp t h" unfolding t_def by (rule plain_inv_headed) (use f b hd in auto)
  obtain o2 s2 where fl: "flushOutput (e_get env) (outp, w) = Some (o2, s2)" "delivered o2 s2 = delivered outp w @ pending w"
    "sink_ok (e_get env) s2" "ds_sink s2 = ds_sink w"
    by (rule idle_flush [of w "e_get env" outp]) (use pt f(1) in \<open>simp_all add: rc fields plain_inv_def t_def\<close>)
  have "decodeAll env k (outp, s) = Some (None, o2, s2)"
    using decodeAll_again [OF step1] decodeAll_end [OF step2 ex fl(1)] by simp
  moreover have "delivered o2 s2 = h" using fl(2) pt by (simp add: rc plain_inv_def)
  ultimately show ?thesis using fl fields(8) by (auto simp: t_def)
qed


subsection \<open>Whole streams\<close>

lemma bits_bytes_spec:
  assumes "8 * n \<le> length bs"
  shows "bs = bytes_bits (bits_bytes (take (8 * n) bs)) @ drop (8 * n) bs" and "length (bits_bytes (take (8 * n) bs)) = n"
proof -
  obtain xs where "take (8 * n) bs = bytes_bits xs" "length xs = n"
    using bytes_bits_surj [of "take (8 * n) bs" n] assms by auto
  then show "bs = bytes_bits (bits_bytes (take (8 * n) bs)) @ drop (8 * n) bs" "length (bits_bytes (take (8 * n) bs)) = n"
    by (metis append_take_drop_id bits_bytes_bits) (simp add: \<open>take (8 * n) bs = bytes_bits xs\<close> \<open>length xs = n\<close>)
qed

lemma skip_padding_length: "skip_padding bs = Some rest \<Longrightarrow> length rest \<le> length bs"
  by (auto simp: skip_padding_def Let_def split: if_splits)

lemma plain_bytes_length: "plain_bytes bs = Some out \<Longrightarrow> 8 * length out \<le> length bs"
proof (induction bs arbitrary: out rule: plain_bytes.induct)
  case (1 bs)
  obtain l u m n bs1 where h: "header_at bs = Some ((l, u, m, n), bs1)"
    using 1(2) by (subst (asm) plain_bytes.simps) (auto split: option.splits)
  have sh: "length bs1 < length bs" by (rule header_at_shorter [OF h])
  show ?case
  proof (cases l)
    case True
    then show ?thesis using 1(2) h by (subst (asm) plain_bytes.simps) (auto split: if_splits)
  next
    case False
    then obtain bs2 out2 where p: "u \<or> m" "skip_padding bs1 = Some bs2" "8 * nat n \<le> length bs2"
      "plain_bytes (drop (8 * nat n) bs2) = Some out2" "out = (if u then bits_bytes (take (8 * nat n) bs2) else []) @ out2"
      using 1(2) h by (subst (asm) plain_bytes.simps) (auto split: if_splits option.splits)
    have "8 * length out2 \<le> length (drop (8 * nat n) bs2)"
      by (rule "1.IH" [OF h refl refl refl refl False p(1,2,3,4)])
    then show ?thesis using p sh skip_padding_length [OF p(2)] bits_bytes_spec(2) [OF p(3)] by auto
  qed
qed

lemma plain_run:
  assumes "at_begin env outp s h" "ds_metaBlockRemainingLen s = 0" "plain_bytes (br_bits (ds_br s)) = Some out"
    and "length h + length out < 2 ^ 59"
  shows "\<exists>outp' s'. decodeAll env k (outp, s) = Some (None, outp', s') \<and> delivered outp' s' = h @ out \<and> sink_ok (e_get env) s' \<and>
    ds_sink s' = ds_sink s"
  using assms
proof (induction "length (br_bits (ds_br s))" arbitrary: k outp s h out rule: less_induct)
  case less
  obtain l u m n bs1 where h: "header_at (br_bits (ds_br s)) = Some ((l, u, m, n), bs1)"
    using less.prems(3) by (subst (asm) plain_bytes.simps) (auto split: option.splits)
  have sh: "length bs1 < length (br_bits (ds_br s))" by (rule header_at_shorter [OF h])
  show ?case
  proof (cases l)
    case True
    then have "out = []" "\<not> m" "n = 0" "skip_padding bs1 = Some []"
      using less.prems(3) h by (subst (asm) plain_bytes.simps; auto split: if_splits)+
    then show ?thesis using last_run [OF less.prems(1,2)] h True by simp
  next
    case False
    then obtain bs2 out2 where p: "u \<or> m" "skip_padding bs1 = Some bs2" "8 * nat n \<le> length bs2"
      "plain_bytes (drop (8 * nat n) bs2) = Some out2" "out = (if u then bits_bytes (take (8 * nat n) bs2) else []) @ out2"
      using less.prems(3) h by (subst (asm) plain_bytes.simps) (auto split: if_splits option.splits)
    note len = skip_padding_length [OF p(2)]
    define ds where "ds = (if u then bits_bytes (take (8 * nat n) bs2) else [])"
    obtain k' o' s' where r: "decodeAll env k (outp, s) = decodeAll env k' (o', s')" "at_begin env o' s' (h @ ds)"
      "br_bits (ds_br s') = drop (8 * nat n) bs2" "ds_metaBlockRemainingLen s' = 0" "ds_sink s' = ds_sink s"
    proof (cases u)
      case True
      have n: "0 < n" "\<not> m" using header_at_shape [OF h] True by auto
      obtain s1 where s1: "stream_step env k (outp, s) = Some (Inr (outp, s1))" "at_raw env outp s1 h" "br_bits (ds_br s1) = bs2"
        "ds_metaBlockRemainingLen s1 = n" "ds_sink s1 = ds_sink s"
        by (rule raw_step [OF less.prems(1,2) _ p(2)]) (use h False True less.prems(4) in auto)
      note sp = bits_bytes_spec [OF p(3)]
      have "\<exists>k' outp' s'. decodeAll env (k + 1) (outp, s1) = decodeAll env k' (outp', s') \<and> at_begin env outp' s' (h @ ds) \<and>
          br_bits (ds_br s') = drop (8 * nat n) bs2 \<and> ds_metaBlockRemainingLen s' = 0 \<and> ds_sink s' = ds_sink s1"
        by (rule raw_run [OF s1(2)]) (use s1 sp n True less.prems(4) p(5) in \<open>auto simp: ds_def\<close>)
      then show ?thesis using that decodeAll_again [OF s1(1)] s1(5) by metis
    next
      case no: False
      then have m: m using p(1) by simp
      obtain k' s' where "decodeAll env k (outp, s) = decodeAll env k' (outp, s')" "at_begin env outp s' h"
        "br_bits (ds_br s') = drop (8 * nat n) bs2" "ds_metaBlockRemainingLen s' = 0" "ds_sink s' = ds_sink s"
        using metadata_run [OF less.prems(1,2) _ p(2,3), of k] h False no m by auto
      then show ?thesis using that no by (simp add: ds_def)
    qed
    have out: "out = ds @ out2" using p(5) by (simp add: ds_def)
    have "\<exists>o2 s2. decodeAll env k' (o', s') = Some (None, o2, s2) \<and> delivered o2 s2 = (h @ ds) @ out2 \<and> sink_ok (e_get env) s2 \<and>
        ds_sink s2 = ds_sink s'"
      by (rule less.hyps) (use r sh len p(4) less.prems(4) out in auto)
    then show ?thesis using r(1,5) out by simp
  qed
qed


subsection \<open>Decompress\<close>

lemma decodeAll_same: "stream_step env k x = stream_step env k y \<Longrightarrow> decodeAll env k x = decodeAll env k y"
  by (subst (1 2) decodeAll.simps) (simp add: decompressStream_def stream_loop.simps [of env k x] stream_loop.simps [of env k y])

lemma win_range: "win_parse bs = Good w rest \<Longrightarrow> 10 \<le> w \<and> w \<le> 24 \<and> length rest \<le> length bs \<and> bs \<noteq> []"
proof -
  have v: "val_of (take 3 xs) < 8" for xs :: "bool list"
  proof -
    have "val_of (take 3 xs) < 2 ^ length (take 3 xs)" by (rule val_of_lt)
    also have "\<dots> \<le> (2 :: nat) ^ 3" by (rule power_increasing) auto
    finally show ?thesis by simp
  qed
  assume "win_parse bs = Good w rest"
  then show ?thesis using v [of "drop 1 bs"] v [of "drop 3 (drop 1 bs)"]
    unfolding win_parse_def p_bits_def by (auto split: if_splits)
qed

lemma start_reader:
  assumes "br_bitPos br = 0" and "data \<noteq> []"
  obtains b where "warmup (setInput data br) = Some (True, b)" "br_inv b" "br_bits b = bytes_bits data" "br_bitPos b = 8"
proof -
  define a where "a = (setInput data br)\<lparr>br_val := 0\<rparr>"
  have a: "br_inv a" "br_bitPos a = 0" "br_bits a = bytes_bits data" "br_pos a < br_inputLen a"
    using assms by (simp_all add: a_def setInput_def br_inv_def acc_ok_def br_bits_def)
  obtain b where "pullByte a = Some (True, b)" "br_inv b" "br_bits b = br_bits a" "br_bitPos b = br_bitPos a + 8"
    by (rule pullByte_True [OF a(1) _ a(4)]) (use a in auto)
  then show thesis using that [of b] a assms(1) by (simp add: warmup_def a_def setInput_def)
qed

definition ready_pool :: "environment \<Rightarrow> decodeState \<Rightarrow> bool" where
  "ready_pool env s \<longleftrightarrow> cw_chunks (ds_outChunks s) = [] \<and> cw_n (ds_outChunks s) = 0 \<and> 0 < cw_size (ds_outChunks s) \<and>
     (\<forall>k. length (e_get env k) = cw_size (ds_outChunks s))"

text \<open>The first round of the loop reads the window size and goes on to the first metablock.\<close>

lemma first_round:
  assumes win: "win_parse (bytes_bits data) = Good w rest" and pool: "ready_pool env s"
    and s0: "s0 = (initForReuse s)\<lparr>ds_br := setInput data (ds_br (initForReuse s)), ds_sink := True\<rparr>"
  obtains s' where "decodeAll env 0 ([], s0) = decodeAll env 0 ([], s')" "at_begin env [] s' []" "ds_metaBlockRemainingLen s' = 0"
    "br_bits (ds_br s') = rest" "ds_sink s'"
proof -
  note r = win_range [OF win]
  have s: "ds_br s0 = setInput data (ds_br (initForReuse s))" "ds_state s0 = StateUninited" "ds_sink s0"
    by (simp_all add: s0 initForReuse_def initDefaults_def)
  have "data \<noteq> []" using r by auto
  then obtain b where b: "warmup (ds_br s0) = Some (True, b)" "br_inv b" "br_bits b = bytes_bits data" "br_bitPos b = 8"
    using start_reader [of "ds_br (initForReuse s)" data] s(1)
    by (auto simp: initForReuse_def initDefaults_def clearScalarFields_def)
  define s1 where "s1 = s0\<lparr>ds_br := b\<rparr>"
  obtain e br' w' where d: "decodeWindowBits s1 = (e, s1\<lparr>ds_br := br', ds_windowBits := w'\<rparr>)" "br_inv br'"
    "win_parse (br_bits (ds_br s1)) = (case e of None \<Rightarrow> Good w' (br_bits br') | Some m \<Rightarrow> Bad m)"
    by (rule decodeWindowBits_parse [of s1]) (use b in \<open>auto simp: s1_def\<close>)
  have e: "e = None" "w' = w" "br_bits br' = rest" using d(3) win b(3) by (auto simp: s1_def split: option.splits)
  define t where "t = s1\<lparr>ds_br := br', ds_windowBits := w, ds_maxBackwardDistance := 2 ^ nat w - WindowGap,
     ds_blockTypeTrees := (reuseHuffmanCodes (ds_blockTypeTrees s0) (3 * (huffmanMaxSize258 + huffmanMaxSize26)))\<lparr>sl_len := 3 * huffmanMaxSize258\<rparr>,
     ds_blockLenTrees := Some (3 * huffmanMaxSize258), ds_state := StateMetablockBegin\<rparr>"
  have "case_Initialize [] (s1\<lparr>ds_br := br', ds_windowBits := w', ds_state := StateInitialize\<rparr>) = case_MetablockBegin [] t"
    unfolding case_Initialize_def Let_def t_def e(2) by (simp add: s1_def)
  then have "stream_step env 0 ([], s0) = stream_step env 0 ([], t)"
    using s(2) b(1) d(1) e(1) by (simp add: stream_step_def case_Uninited_def s1_def [symmetric]) (simp add: t_def)
  moreover have "at_begin env [] t []"
  proof -
    have f: "ds_pos t = 0" "ds_ringbufferSize t = 0" "ds_rbRoundtrips t = 0" "ds_partialPosOut t = 0" "ds_metaBlockRemainingLen t = 0"
      "ds_substateMetablockHeader t = metablockHeaderNone" "ds_substateUncompressed t = uncompressedNone" "ds_cannyRingbufferAllocation t"
      "ds_maxDecodedBytes t = 0" "ds_outChunks t = ds_outChunks s" "ds_sink t" "ds_state t = StateMetablockBegin" "ds_br t = br'" "ds_windowBits t = w"
      by (simp_all add: t_def s1_def s0 initForReuse_def initDefaults_def clearScalarFields_def)
    have "sink_ok (e_get env) t" "delivered [] t = []" using pool f by (auto simp: ready_pool_def sink_ok_def cw_inv_def delivered_def chunk_content_def)
    moreover have "pending t = []" "count1 t = 0" "ring_idle t"
      using f r nat_mono [of 10 w] nat_mono [of w 30] by (simp_all add: pending_def flushed_pos_def count1_def ring_idle_def)
    ultimately show ?thesis using f d(2) by (simp add: at_begin_def plain_inv_def)
  qed
  moreover have "ds_metaBlockRemainingLen t = 0" "br_bits (ds_br t) = rest" "ds_sink t"
    using e(3) by (simp_all add: t_def s1_def s0 initForReuse_def initDefaults_def clearScalarFields_def)
  ultimately show thesis by (intro that [of t] decodeAll_same)
qed

text \<open>A whole stream of raw and metadata metablocks.\<close>

lemma Decompress_runs:
  assumes "win_parse (bytes_bits data) = Good w rest" and "plain_bytes rest = Some out" and "ready_pool env s"
    and "length data < 2 ^ 59"
  shows "\<exists>s'. Decompress env data s = Some (Inr out, s') \<and> cw_chunks (ds_outChunks s') = [] \<and> \<not> ds_sink s'"
proof -
  define s0 where "s0 = (initForReuse s)\<lparr>ds_br := setInput data (ds_br (initForReuse s)), ds_sink := True\<rparr>"
  obtain t where t: "decodeAll env 0 ([], s0) = decodeAll env 0 ([], t)" "at_begin env [] t []" "ds_metaBlockRemainingLen t = 0"
    "br_bits (ds_br t) = rest" "ds_sink t"
    by (rule first_round [OF assms(1,3) s0_def])
  have "8 * length out \<le> 8 * length data"
    using plain_bytes_length [OF assms(2)] win_range [OF assms(1)] by simp
  then obtain outp' s' where r: "decodeAll env 0 ([], t) = Some (None, outp', s')" "delivered outp' s' = out"
    "sink_ok (e_get env) s'" "ds_sink s' = ds_sink t"
    using plain_run [OF t(2,3), of out 0] assms(2,4) t(4) by auto
  have "cw_inv (ds_outChunks s')" "chunk_content (ds_outChunks s') = out"
    using r t(5) by (auto simp: sink_ok_def delivered_def)
  then show ?thesis using chunk_take_ok t(1) r(1)
    by (simp add: Decompress_def Let_def s0_def [symmetric] chunk_discard_def)
qed

text \<open>C2. Whole streams: for every input whose bits are a window size and a sequence of raw and metadata metablocks closed by
  the empty last metablock, with zero padding and nothing behind it, \<^verbatim>\<open>Decompress\<close> terminates without an error and returns
  exactly the bytes \<open>plain_bytes\<close> reads off the bits, whatever ring buffers and chunks the pools hand out, however often the
  ring buffer grows, wraps or is flushed, and whatever the recycled decoder state held.\<close>

theorem Decompress_plain:
  assumes "win_parse (bytes_bits data) = Good w rest" and "plain_bytes rest = Some out" and "ready_pool env s"
    and "length data < 2 ^ 59"
  shows "\<exists>s'. Decompress env data s = Some (Inr out, s') \<and> cw_chunks (ds_outChunks s') = [] \<and> \<not> ds_sink s'"
  by (rule Decompress_runs [OF assms])

definition small_env :: environment where
  "small_env = \<lparr>e_dict = [], e_get = (\<lambda>_. replicate 4 0), e_pool = (\<lambda>_ _ _. None)\<rparr>"

text \<open>The stream of the bytes 7, 8, 9: window size 16, a raw metablock of three bytes, the empty last metablock.\<close>

definition small_stream :: "byte list" where
  "small_stream = [0x20, 0x00, 0x10, 7, 8, 9, 3]"

lemma small_stream_plain:
  "win_parse (bytes_bits small_stream) = Good 16 (drop 1 (bytes_bits small_stream))"
  "plain_bytes (drop 1 (bytes_bits small_stream)) = Some [7, 8, 9]"
  by code_simp+

theorem Decompress_plain_witness:
  "\<exists>s'. Decompress small_env small_stream (zero_state\<lparr>ds_outChunks := \<lparr>cw_chunks = [], cw_size = 4, cw_n = 0\<rparr>\<rparr>) =
     Some (Inr [7, 8, 9], s') \<and> cw_chunks (ds_outChunks s') = [] \<and> \<not> ds_sink s'"
  by (rule Decompress_plain [OF small_stream_plain]) (simp_all add: ready_pool_def small_env_def small_stream_def)

end
