(* ===== verification/Encode_Raw.thy ===== *)
theory Encode_Raw
  imports Encode_State Decode_Run
begin

unbundle bit_operations_syntax

text \<open>
  Uncompressed metablocks end to end. The output of a metablock is opened with the bits carried over from the last one and
  closed again (\<^verbatim>\<open>encoder.go\<close>: \<^verbatim>\<open>initMetaBlockOutput\<close>, \<^verbatim>\<open>finishMetaBlock\<close>); between them the fallback branch of
  \<^verbatim>\<open>writeMetaBlockInternal\<close> writes the pending input out of the ring buffer. The streams made this way are decoded by
  \<^verbatim>\<open>Decompress\<close> of the decoder to the input.
\<close>

subsection \<open>Operations\<close>

definition initMetaBlockOutput :: "nat \<Rightarrow> encodeState \<Rightarrow> encodeState option" where
  "initMetaBlockOutput metablockSize s = do {
     let outBuf = sl_reuse 0 (es_outBuf s) (2 * metablockSize + 503);
     outBuf \<leftarrow> sl_set outBuf 0 (ucast (es_lastBytes s));
     outBuf \<leftarrow> sl_set outBuf 1 (ucast (drop_bit 8 (es_lastBytes s)));
     Some (s\<lparr>es_outBuf := outBuf, es_b := \<lparr>buf = sl_list outBuf, bitOffset = es_lastBytesBits s\<rparr>\<rparr>) }"

text \<open>\<^verbatim>\<open>s.data[(uint32(s.lastFlushPos)-back)\&s.mask]\<close>\<close>

definition last_byte :: "nat \<Rightarrow> encodeState \<Rightarrow> byte option" where
  "last_byte back s = ring_get s ((es_lastFlushPos s mod 2 ^ 32 + 2 ^ 32 - back) mod 2 ^ 32 AND es_mask s)"

text \<open>\<^verbatim>\<open>outBuf\<close> is the array the writer wrote into. Returns the whole bytes of the output.\<close>

definition finishMetaBlock :: "encodeState \<Rightarrow> (byte list \<times> encodeState) option" where
  "finishMetaBlock s = do {
     let off = bitOffset (es_b s) div 8;
     x \<leftarrow> go_index (buf (es_b s)) (int off);
     let s = s\<lparr>es_outBuf := (es_outBuf s)\<lparr>sl_data := overwrite (sl_data (es_outBuf s)) 0 (buf (es_b s))\<rparr>,
               es_lastBytes := ucast x, es_lastBytesBits := bitOffset (es_b s) mod 8, es_lastFlushPos := es_inputPos s\<rparr>;
     let s = updateLastProcessedPos s;
     p1 \<leftarrow> (if es_lastFlushPos s > 0 then last_byte 1 s else Some (es_prevByte s));
     p2 \<leftarrow> (if es_lastFlushPos s > 1 then last_byte 2 s else Some (es_prevByte2 s));
     out \<leftarrow> go_slice (buf (es_b s)) 0 (int off);
     Some (out, s\<lparr>es_prevByte := p1, es_prevByte2 := p2, es_numCommands := 0, es_numLiterals := 0, es_commands := [],
                 es_savedDistCache := es_distCache s\<rparr>) }"

text \<open>The branch of \<^verbatim>\<open>writeMetaBlockInternal\<close> for incompressible input.\<close>

definition write_incompressible :: "nat \<Rightarrow> bool \<Rightarrow> encodeState \<Rightarrow> encodeState option" where
  "write_incompressible len isLast s = es_writeUncompressedMetaBlock len isLast
     (s\<lparr>es_distCache := es_savedDistCache s, es_litHisto := None, es_cmdHisto := None, es_distHisto := None\<rparr>)"

text \<open>\<^verbatim>\<open>prepareMetaBlock\<close> on an empty stream: the carried bits, ISLAST and ISEMPTY.\<close>

definition empty_stream :: "encodeState \<Rightarrow> (byte list \<times> encodeState) option" where
  "empty_stream s =
     (let lb = es_lastBytes s OR push_bit (es_lastBytesBits s) 3; n = es_lastBytesBits s + 2; len = (n + 7) div 8 in do {
        out \<leftarrow> go_update (replicate len 0) 0 (ucast lb);
        out \<leftarrow> (if len > 1 then go_update out 1 (ucast (drop_bit 8 lb)) else Some out);
        Some (out, s\<lparr>es_lastBytes := 0, es_lastBytesBits := 0\<rparr>) })"

text \<open>One incompressible metablock of all pending input.\<close>

definition raw_metablock :: "bool \<Rightarrow> encodeState \<Rightarrow> (byte list \<times> encodeState) option" where
  "raw_metablock isLast s = do {
     let len = es_inputPos s - es_lastFlushPos s;
     s \<leftarrow> initMetaBlockOutput len s;
     s \<leftarrow> write_incompressible len isLast s;
     finishMetaBlock s }"

text \<open>The stream of a list of incompressible input blocks.\<close>

fun raw_stream :: "byte goslice option \<Rightarrow> byte list list \<Rightarrow> encodeState \<Rightarrow> (byte list \<times> encodeState) option" where
  "raw_stream v [] s = empty_stream s"
| "raw_stream v (b # bs) s = do {
     s \<leftarrow> copyInputToRingBuffer v b s;
     (o1, s) \<leftarrow> raw_metablock (bs = []) s;
     if bs = [] then Some (o1, s) else do { (o2, s) \<leftarrow> raw_stream v bs s; Some (o1 @ o2, s) } }"


subsection \<open>Reading the ring\<close>

lemma wrapPos_mod:
  assumes "rb \<le> 30"
  shows "wrapPos p AND (2 ^ rb - 1) = p mod 2 ^ rb"
proof -
  have m30: "(2 ^ 30 - 1 :: u32) = mask 30" by (simp add: mask_eq_exp_minus_1)
  have "take_bit rb (wrapPosition (of_nat p)) = take_bit rb (of_nat p :: u64)"
    unfolding wrapPosition_def Let_def m30 using assms by (intro bit_eqI) (auto simp: bit_simps)
  then have "take_bit rb (unat (wrapPosition (of_nat p))) = take_bit rb (unat (of_nat p :: u64))"
    by (metis unsigned_take_bit_eq)
  also have "\<dots> = p mod 2 ^ 64 mod 2 ^ rb" by (simp add: unat_of_nat take_bit_eq_mod)
  also have "\<dots> = p mod 2 ^ rb" using assms by (intro mod_mod_cancel le_imp_power_dvd) simp
  finally show ?thesis unfolding wrapPos_def and_low by (simp add: take_bit_eq_mod)
qed

lemma ring_slice_ok:
  assumes rep: "ring_rep s xs" and f: "f < g" "g \<le> length xs" "length xs \<le> f + es_ringBufSize s"
    and m: "f mod es_ringBufSize s + (g - f) \<le> es_ringBufSize s"
  shows "ring_slice s (f mod es_ringBufSize s) (f mod es_ringBufSize s + (g - f)) = Some (take (g - f) (drop f xs))"
proof -
  define size1 d where "size1 = es_ringBufSize s" and "d = sl_data (es_ringBufAlloc s)"
  define n q where "n = g - f" and "q = f mod size1"
  have at: "2 + (q + k) < length d \<and> d ! (2 + (q + k)) = xs ! (f + k)" if k: "k < n" for k
  proof -
    have "q + k < size1" using k m by (simp add: size1_def q_def n_def)
    then have "(f + k) mod size1 = q + k" unfolding q_def by (metis mod_add_left_eq mod_less)
    moreover have "f + k < length xs" "length xs \<le> f + k + size1" using k f by (simp_all add: size1_def n_def)
    ultimately show ?thesis using rep unfolding ring_rep_def lap_ok_def size1_def d_def by metis
  qed
  have n0: "0 < n" using f(1) by (simp add: n_def)
  have len: "q + n + 2 \<le> length d" using at [of "n - 1"] n0 by linarith
  have "take n (drop q (drop 2 d)) = take n (drop f xs)"
  proof (rule nth_equalityI)
    show "length (take n (drop q (drop 2 d))) = length (take n (drop f xs))" using len f by (simp add: n_def)
    fix k assume "k < length (take n (drop q (drop 2 d)))"
    then have k: "k < n" by simp
    then show "take n (drop q (drop 2 d)) ! k = take n (drop f xs) ! k"
      using at [OF k] len f by (simp add: add.assoc n_def)
  qed
  then show ?thesis using len
    unfolding size1_def [symmetric] n_def [symmetric] q_def [symmetric] ring_slice_def d_def [symmetric] go_slice_def by auto
qed

lemma ring_slice_run:
  assumes "ring_rep s xs" "0 < n" "f + n \<le> length xs" "length xs \<le> f + es_ringBufSize s" "f mod es_ringBufSize s + n \<le> es_ringBufSize s"
  shows "ring_slice s (f mod es_ringBufSize s) (f mod es_ringBufSize s + n) = Some (take n (drop f xs))"
  using ring_slice_ok [of s xs f "f + n"] assms unfolding diff_add_inverse by simp


subsection \<open>The bits of an uncompressed metablock\<close>

text \<open>The bits a raw metablock adds to a stream of \<open>off\<close> bits; the last one is followed by the empty last metablock.\<close>

definition raw_bits :: "nat \<Rightarrow> byte list \<Rightarrow> bool \<Rightarrow> bool list" where
  "raw_bits off data isLast =
     (let h = fields_bits (header_fields (length data) False True); n = off + length h in
      h @ replicate ((n + 7) div 8 * 8 - n) False @ bytes_bits data @ (if isLast then [True, True] @ replicate 6 False else []))"

definition writer_fits :: "bitWriter \<Rightarrow> nat \<Rightarrow> bool" where
  "writer_fits b n \<longleftrightarrow> bitOffset b + n + 64 \<le> 8 * length (buf b)"

lemma put_fields_fits:
  assumes "bw_inv b" "fields_ok fs" "writer_fits b (length (fields_bits fs))"
  obtains b' where "put_fields writeBits fs b = Some b'" "bw_inv b'" "bw_bits b' = bw_bits b @ fields_bits fs"
    "bitOffset b' = bitOffset b + length (fields_bits fs)" "length (buf b') = length (buf b)"
proof -
  have lt: "length (fields_bits fs) < bw_room b" using assms(3) by (auto simp: writer_fits_def bw_room_def)
  obtain b' where b': "put_fields writeBits fs b = Some b'" "bw_inv b'" "bw_bits b' = bw_bits b @ fields_bits fs"
    "bw_room b' = bw_room b - length (fields_bits fs)"
    using writer_sink.put_fields_ok [OF assms(1,2) lt] by blast
  have "length (bw_bits b') = length (bw_bits b) + length (fields_bits fs)" using b'(3) by simp
  then have off: "bitOffset b' = bitOffset b + length (fields_bits fs)" using assms(1) b'(2) by simp
  have "length (buf b') = length (buf b)" using b'(4) lt off assms(3) by (simp add: bw_room_def writer_fits_def)
  then show thesis using that b' off by blast
qed

lemma byteAlign_fits:
  assumes "bw_inv b" "writer_fits b 0"
  shows "bw_bits (byteAlign b) = bw_bits b @ replicate ((bitOffset b + 7) div 8 * 8 - bitOffset b) False"
    and "bitOffset (byteAlign b) = (bitOffset b + 7) div 8 * 8" and "buf (byteAlign b) = buf b"
    and "length (bw_bits (byteAlign b)) = bitOffset (byteAlign b)"
proof -
  show o: "bitOffset (byteAlign b) = (bitOffset b + 7) div 8 * 8" "buf (byteAlign b) = buf b" by (simp_all add: byteAlign_def)
  have "(bitOffset b + 7) div 8 * 8 \<le> 8 * length (buf b)" using assms(2) by (simp add: writer_fits_def)
  then show "bw_bits (byteAlign b) = bw_bits b @ replicate ((bitOffset b + 7) div 8 * 8 - bitOffset b) False"
    "length (bw_bits (byteAlign b)) = bitOffset (byteAlign b)"
    using bw_bits_byteAlign [OF assms(1)] o assms(1) by (simp_all add: bw_bits_def bits_upto_def)
qed

lemma writeBytes_fits:
  assumes "bitOffset b mod 8 = 0" "bitOffset b + 8 * length data < 8 * length (buf b)"
  obtains b' where "writeBytes data b = Some b'" "bw_inv b'" "bw_bits b' = bw_bits b @ bytes_bits data"
    "bitOffset b' = bitOffset b + 8 * length data" "length (buf b') = length (buf b)"
proof -
  have "bitOffset b div 8 + length data < length (buf b)" using assms by linarith
  then obtain b' where b': "writeBytes data b = Some b'" "bw_inv b'" "bw_bits b' = bw_bits b @ bytes_bits data" "length (buf b') = length (buf b)"
    by (rule writeBytes_ok [OF assms(1)])
  have "bitOffset b' = bitOffset b + 8 * length data"
    using b'(1) by (auto simp: writeBytes_def Let_def split: if_splits bind_splits)
  then show thesis using that b' by blast
qed

lemma header_length:
  assumes "0 < n" "n \<le> 2 ^ 24"
  shows "length (fields_bits (header_fields n False True)) \<le> 28" "3 \<le> length (fields_bits (header_fields n False True))"
proof -
  define nib where nib: "nib = (max (bits_Len (n - 1)) 16 + 3) div 4"
  have "nib \<le> 6" "4 \<le> nib" using header_nibbles [OF assms nib] by simp_all
  then show "length (fields_bits (header_fields n False True)) \<le> 28" "3 \<le> length (fields_bits (header_fields n False True))"
    unfolding header_fields_def Let_def nib [symmetric] by (simp_all add: length_fields_bits)
qed

lemma write_ring_ok:
  assumes rep: "ring_rep s xs" and n: "es_lastFlushPos s + n = length xs" "0 < n" "n \<le> es_ringBufSize s"
    and b: "bitOffset b mod 8 = 0" "bitOffset b + 8 * n < 8 * length (buf b)"
  obtains b' where "write_ring n s b = Some b'" "bw_inv b'" "bw_bits b' = bw_bits b @ bytes_bits (drop (es_lastFlushPos s) xs)"
    "bitOffset b' = bitOffset b + 8 * n" "length (buf b') = length (buf b)"
proof -
  define f size1 m where "f = es_lastFlushPos s" and "size1 = es_ringBufSize s" and "m = f mod size1"
  obtain rb where rb: "size1 = 2 ^ rb" "es_mask s = size1 - 1" "rb \<le> 25"
    by (rule ring_sizesE [of s]) (use rep in \<open>auto simp: ring_rep_def size1_def\<close>)
  have masked: "wrapPos f AND es_mask s = m" unfolding rb(2) m_def unfolding rb(1) by (rule wrapPos_mod) (use rb in simp)
  have size1: "es_mask s + 1 = size1" using rb by simp
  have m: "m < size1" using rb by (simp add: m_def)
  have whole: "drop f xs = take n (drop f xs)" using n by (simp add: f_def)
  show thesis
  proof (cases "m + n \<le> size1")
    case True
    have sl: "ring_slice s m (m + n) = Some (drop f xs)"
      using ring_slice_run [OF rep, of n f] n True whole by (simp add: f_def size1_def m_def)
    have len: "length (drop f xs) = n" using n by (simp add: f_def)
    obtain b' where b': "writeBytes (drop f xs) b = Some b'" "bw_inv b'" "bw_bits b' = bw_bits b @ bytes_bits (drop f xs)"
      "bitOffset b' = bitOffset b + 8 * length (drop f xs)" "length (buf b') = length (buf b)"
      by (rule writeBytes_fits [OF b(1), of "drop f xs"]) (use b len in simp)
    have "write_ring n s b = Some b'"
      unfolding write_ring_def Let_def size1 f_def [symmetric] masked using True sl b'(1) by simp
    then show thesis using that [of b'] b' len by (simp add: f_def)
  next
    case False
    define k where "k = size1 - m"
    have k: "0 < k" "k < n" "m + k = size1" using False m by (simp_all add: k_def)
    have "f + k = (f div size1 + 1) * size1" using k(3) unfolding m_def by (simp add: div_mod_decomp add.commute) (metis add.assoc add.commute div_mult_mod_eq mult.commute)
    then have f2: "(f + k) mod size1 = 0" by simp
    have s1: "ring_slice s m (m + k) = Some (take k (drop f xs))"
      using ring_slice_run [OF rep, of k f] n k by (simp add: f_def size1_def m_def)
    have s2: "ring_slice s 0 (n - k) = Some (drop k (drop f xs))"
      using ring_slice_run [OF rep, of "n - k" "f + k"] n k f2 by (simp add: f_def size1_def add.commute)
    have l1: "length (take k (drop f xs)) = k" "length (drop k (drop f xs)) = n - k" using n k by (simp_all add: f_def)
    obtain b1 where b1: "writeBytes (take k (drop f xs)) b = Some b1" "bw_bits b1 = bw_bits b @ bytes_bits (take k (drop f xs))"
      "bitOffset b1 = bitOffset b + 8 * k" "length (buf b1) = length (buf b)"
      by (rule writeBytes_fits [OF b(1), of "take k (drop f xs)"]) (use b l1 k in auto)
    obtain b2 where b2: "writeBytes (drop k (drop f xs)) b1 = Some b2" "bw_inv b2" "bw_bits b2 = bw_bits b1 @ bytes_bits (drop k (drop f xs))"
      "bitOffset b2 = bitOffset b1 + 8 * (n - k)" "length (buf b2) = length (buf b1)"
      by (rule writeBytes_fits [of b1 "drop k (drop f xs)"]) (use b b1 l1 k in auto)
    have "write_ring n s b = Some b2"
      unfolding write_ring_def Let_def size1 f_def [symmetric] masked k_def [symmetric] using False s1 s2 b1(1) b2(1) by simp
    moreover have "bw_bits b2 = bw_bits b @ bytes_bits (drop f xs)"
      unfolding b2(3) b1(2) append_assoc bytes_bits_append [symmetric] append_take_drop_id ..
    ultimately show thesis using that [of b2] b1 b2 k by (simp add: f_def)
  qed
qed

lemma es_write_ok:
  assumes rep: "ring_rep s xs" and n: "es_lastFlushPos s + n = length xs" "0 < n" "n \<le> es_ringBufSize s" "n \<le> 2 ^ 24"
    and b: "bw_inv (es_b s)" "writer_fits (es_b s) (8 * n + 60)"
  obtains b' where "es_writeUncompressedMetaBlock n isLast s = Some (s\<lparr>es_b := b'\<rparr>)"
    "bw_bits b' = bw_bits (es_b s) @ raw_bits (bitOffset (es_b s)) (drop (es_lastFlushPos s) xs) isLast"
    "bitOffset b' mod 8 = 0" "bitOffset b' div 8 < length (buf b')" "length (bw_bits b') = bitOffset b'"
    "\<not> isLast \<longrightarrow> bw_inv b'" "length (buf b') = length (buf (es_b s))"
proof -
  define data where "data = drop (es_lastFlushPos s) xs"
  have len: "length data = n" using n by (simp add: data_def)
  define h where "h = fields_bits (header_fields n False True)"
  have h28: "length h \<le> 28" unfolding h_def by (rule header_length [OF n(2,4)])
  have fitsh: "writer_fits (es_b s) (length h)" using b(2) h28 by (simp add: writer_fits_def)
  obtain b1 where b1: "put_fields writeBits (header_fields n False True) (es_b s) = Some b1" "bw_inv b1"
    "bw_bits b1 = bw_bits (es_b s) @ h" "bitOffset b1 = bitOffset (es_b s) + length h" "length (buf b1) = length (buf (es_b s))"
    unfolding h_def by (rule put_fields_fits [OF b(1) header_fields_ok [OF n(2,4)] fitsh [unfolded h_def]])
  have fits1: "writer_fits b1 0" using b(2) b1(4,5) h28 by (simp add: writer_fits_def)
  note al = byteAlign_fits [OF b1(2) fits1]
  have "bitOffset (byteAlign b1) \<le> bitOffset b1 + 7" unfolding al(2) by simp
  then have room: "bitOffset (byteAlign b1) + 8 * n + 80 \<le> 8 * length (buf (byteAlign b1))"
    using b(2) b1(4,5) h28 al(3) by (simp add: writer_fits_def)
  obtain b2 where b2: "write_ring n s (byteAlign b1) = Some b2" "bw_inv b2" "bw_bits b2 = bw_bits (byteAlign b1) @ bytes_bits data"
    "bitOffset b2 = bitOffset (byteAlign b1) + 8 * n" "length (buf b2) = length (buf (byteAlign b1))"
    unfolding data_def by (rule write_ring_ok [OF rep n(1-3), of "byteAlign b1"]) (use room al(2) in auto)
  have hd: "writeMetaBlockHeader (int n) False True (es_b s) = Some b1"
    using writeMetaBlockHeader_fields [OF n(2,4)] b1(1) by simp
  define pad where "pad = replicate ((bitOffset (es_b s) + length h + 7) div 8 * 8 - (bitOffset (es_b s) + length h)) False"
  have bits2: "bw_bits b2 = bw_bits (es_b s) @ h @ pad @ bytes_bits data"
    unfolding b2(3) al(1) b1(3) b1(4) pad_def by simp
  have mod2: "bitOffset b2 mod 8 = 0" unfolding b2(4) al(2) by simp
  show thesis
  proof (cases isLast)
    case False
    have bits: "bw_bits b2 = bw_bits (es_b s) @ raw_bits (bitOffset (es_b s)) data isLast"
      unfolding bits2 raw_bits_def len h_def [symmetric] Let_def pad_def using False by simp
    have in_buf: "bitOffset b2 div 8 < length (buf b2)" using b2(4,5) room by linarith
    have eq: "es_writeUncompressedMetaBlock n isLast s = Some (s\<lparr>es_b := b2\<rparr>)"
      using hd b2(1) False by (simp add: es_writeUncompressedMetaBlock_def)
    show thesis
      by (rule that [OF eq bits [unfolded data_def] mod2 in_buf length_bw_bits [OF b2(2)]]) (use b2(2,5) al(3) b1(5) in simp_all)
  next
    case True
    have fok: "fields_ok [(1, 1), (1, 1)]" by simp
    obtain b3 where b3: "put_fields writeBits [(1, 1), (1, 1)] b2 = Some b3" "bw_inv b3" "bw_bits b3 = bw_bits b2 @ [True, True]"
      "bitOffset b3 = bitOffset b2 + 2" "length (buf b3) = length (buf b2)"
    proof -
      have fb: "fields_bits [(1, 1), (1, 1)] = [True, True]" by (simp add: bits_of_def)
      have "writer_fits b2 (length (fields_bits [(1, 1), (1, 1)]))" using b2(4,5) room
        unfolding fb writer_fits_def by simp
      then show thesis using put_fields_fits [OF b2(2) fok, of thesis] that unfolding fb by simp
    qed
    have fits3: "writer_fits b3 0" using b2(4,5) b3(4,5) room by (simp add: writer_fits_def)
    note al3 = byteAlign_fits [OF b3(2) fits3]
    obtain k where k: "bitOffset b2 = 8 * k" using mod2 by auto
    have off: "(bitOffset b3 + 7) div 8 * 8 = 8 * (k + 1)" unfolding b3(4) k by simp
    have bits3: "bw_bits (byteAlign b3) = bw_bits (es_b s) @ raw_bits (bitOffset (es_b s)) data isLast"
      unfolding al3(1) b3(3) bits2 off b3(4) k raw_bits_def len h_def [symmetric] Let_def pad_def using True by simp
    have "es_writeUncompressedMetaBlock n isLast s = Some (s\<lparr>es_b := byteAlign b3\<rparr>)"
      using hd b2(1) b3(1) True by (auto simp: es_writeUncompressedMetaBlock_def put_fields_fun split: bind_splits)
    note eq = this
    have mod3: "bitOffset (byteAlign b3) mod 8 = 0" unfolding al3(2) by simp
    have in_buf: "bitOffset (byteAlign b3) div 8 < length (buf (byteAlign b3))"
      using fits3 unfolding al3(2,3) by (simp add: writer_fits_def)
    show thesis
      by (rule that [OF eq bits3 [unfolded data_def] mod3 in_buf al3(4)]) (use True b3(5) b2(5) al(3) b1(5) al3(3) in simp_all)
  qed
qed


subsection \<open>Opening and closing a metablock\<close>

definition carry :: "encodeState \<Rightarrow> bool list" where
  "carry s = bits_of (es_lastBytesBits s) (es_lastBytes s)"

definition carry_ok :: "encodeState \<Rightarrow> bool" where
  "carry_ok s \<longleftrightarrow> es_lastBytesBits s < 8 \<and> unat (es_lastBytes s) < 2 ^ es_lastBytesBits s"

lemma ring_rep_cong:
  assumes "es_ringBufAlloc s' = es_ringBufAlloc s" "es_ringBufSize s' = es_ringBufSize s" "es_lgblock s' = es_lgblock s"
    "es_mask s' = es_mask s" "es_inputPos s' = es_inputPos s" "es_ringBufPos s' = es_ringBufPos s"
  shows "ring_rep s' xs = ring_rep s xs"
  using assms by (simp add: ring_rep_def ring_sizes_def full_len_def)

lemma initMetaBlockOutput_ok:
  assumes "carry_ok s"
  obtains ob b where "initMetaBlockOutput n s = Some (s\<lparr>es_outBuf := ob, es_b := b\<rparr>)" "bw_inv b" "bw_bits b = carry s"
    "length (buf b) = 2 * n + 503" "bitOffset b = es_lastBytesBits s"
proof -
  define o0 where "o0 = sl_reuse 0 (es_outBuf s) (2 * n + 503)"
  define k where "k = es_lastBytesBits s"
  have k: "k < 8" "unat (es_lastBytes s) < 2 ^ k" using assms by (simp_all add: carry_ok_def k_def)
  define o1 where "o1 = o0\<lparr>sl_data := (sl_data o0)[0 := ucast (es_lastBytes s)]\<rparr>"
  define o2 where "o2 = o1\<lparr>sl_data := (sl_data o1)[1 := ucast (drop_bit 8 (es_lastBytes s))]\<rparr>"
  have o0: "sl_ok o0" "sl_len o0 = 2 * n + 503" by (simp_all add: o0_def)
  have s1: "sl_set o0 (int 0) (ucast (es_lastBytes s)) = Some o1" "sl_ok o1" "sl_len o1 = 2 * n + 503"
    using sl_set_ok [OF o0(1), of 0] o0(2) by (simp_all add: o1_def)
  have s2: "sl_set o1 (int 1) (ucast (drop_bit 8 (es_lastBytes s))) = Some o2" "sl_ok o2" "sl_len o2 = 2 * n + 503"
    using sl_set_ok [OF s1(2), of 1] s1(3) by (simp_all add: o2_def)
  define b where "b = \<lparr>buf = sl_list o2, bitOffset = k\<rparr>"
  have len: "length (sl_list o2) = 2 * n + 503" using s2 by simp
  have b0: "sl_list o2 ! 0 = ucast (es_lastBytes s)"
  proof -
    have "0 < length (sl_data o0)" using o0 by (auto simp: sl_ok_def)
    then show ?thesis using o0 by (simp add: sl_list_def o2_def o1_def)
  qed
  have init: "initMetaBlockOutput n s = Some (s\<lparr>es_outBuf := o2, es_b := b\<rparr>)"
    using s1(1) s2(1) unfolding initMetaBlockOutput_def Let_def o0_def [symmetric] b_def k_def by simp
  have at: "bytes_bits (sl_list o2) ! j = bit (es_lastBytes s) j" if "j < 8" for j
  proof -
    have "j < 8 * length (sl_list o2)" using that len by simp
    then show ?thesis using that b0 by (simp add: nth_bytes_bits bit_simps)
  qed
  have "bw_inv b"
    unfolding bw_inv_def clean_at_def b_def bitWriter.simps len
  proof (intro conjI allI impI)
    show "k < 8 * (2 * n + 503)" using k by simp
    fix j assume j: "k \<le> j \<and> j < 8 * (k div 8 + 1)"
    then have "j < 8" using k by simp
    then show "\<not> bytes_bits (sl_list o2) ! j" using at bit_high_unset [OF k(2)] j by simp
  qed
  moreover have "bw_bits b = carry s"
    unfolding bw_bits_def bits_upto_def b_def bitWriter.simps carry_def k_def [symmetric]
    by (rule nth_equalityI) (use k len at in \<open>simp_all add: nth_bits_of\<close>)
  ultimately show thesis using that [OF init] len by (simp add: b_def k_def)
qed

lemma last_byte_ok:
  assumes rep: "ring_rep s xs" and f: "es_lastFlushPos s = length xs" and bk: "0 < back" "back \<le> length xs" "back \<le> 2"
  shows "\<exists>x. last_byte back s = Some x"
proof -
  obtain rb where rb: "es_ringBufSize s = 2 ^ rb" "es_mask s = 2 ^ rb - 1" "2 * 2 ^ es_lgblock s \<le> (2 :: nat) ^ rb"
    "rb \<le> 25" "(2 :: nat) ^ rb \<le> 2 ^ 25" by (rule ring_sizesE [of s]) (use rep in \<open>auto simp: ring_rep_def\<close>)
  define q where "q = (es_lastFlushPos s mod 2 ^ 32 + 2 ^ 32 - back) mod 2 ^ 32 AND es_mask s"
  have qs: "q < 2 ^ rb" unfolding q_def rb(2) and_low by simp
  have small: "q + 2 < length xs + 9" if "length xs < 2 ^ es_lgblock s"
  proof -
    have lt: "length xs < 2 ^ 25" using that rb by linarith
    have "q = (length xs - back) mod 2 ^ rb"
    proof -
      have lt32: "length xs < 2 ^ 32" using lt by (rule less_le_trans) simp
      then have "length xs mod 2 ^ 32 + 2 ^ 32 - back = length xs - back + 2 ^ 32" using bk by (simp only: mod_less)
      then have e: "(length xs mod 2 ^ 32 + 2 ^ 32 - back) mod 2 ^ 32 = length xs - back"
        using lt32 by (simp only: mod_add_self2) (simp add: less_imp_diff_less)
      show ?thesis unfolding q_def f rb(2) and_low e ..
    qed
    then have "q \<le> length xs - back" by simp
    then show ?thesis by linarith
  qed
  have "q + 2 < sl_len (es_ringBufAlloc s)"
    using rep small qs rb bk unfolding ring_rep_def full_len_def by auto
  then show ?thesis using rep unfolding last_byte_def q_def [symmetric] ring_get_def sl_get_def
    by (auto simp: go_index_def sl_list_def ring_rep_def sl_ok_def nat_add_distrib)
qed

lemma updateLastProcessedPos_eq:
  obtains hs where "updateLastProcessedPos s = s\<lparr>es_lastProcessedPos := es_inputPos s, es_hashers := hs\<rparr>"
proof (cases "wrapPos (es_inputPos s) < wrapPos (es_lastProcessedPos s)")
  case True
  then show thesis using that by (simp add: updateLastProcessedPos_def)
next
  case False
  have "updateLastProcessedPos s = s\<lparr>es_lastProcessedPos := es_inputPos s, es_hashers := es_hashers s\<rparr>"
    using False by (simp add: updateLastProcessedPos_def)
  then show thesis by (rule that)
qed

lemma finishMetaBlock_ok:
  assumes rep: "ring_rep s xs"
    and b: "bitOffset (es_b s) mod 8 = 0" "bitOffset (es_b s) div 8 < length (buf (es_b s))" "length (bw_bits (es_b s)) = bitOffset (es_b s)"
  obtains out s' where "finishMetaBlock s = Some (out, s')" "bytes_bits out = bw_bits (es_b s)" "es_lastBytesBits s' = 0"
    "bw_inv (es_b s) \<longrightarrow> es_lastBytes s' = 0" "ring_rep s' xs" "es_lastFlushPos s' = length xs" "es_lgblock s' = es_lgblock s"
    "es_distCache s' = es_distCache s"
proof -
  define off where "off = bitOffset (es_b s) div 8"
  have off: "bitOffset (es_b s) = 8 * off" "off < length (buf (es_b s))" using b by (auto simp: off_def)
  define x where "x = buf (es_b s) ! off"
  define s1 where "s1 = s\<lparr>es_outBuf := (es_outBuf s)\<lparr>sl_data := overwrite (sl_data (es_outBuf s)) 0 (buf (es_b s))\<rparr>,
               es_lastBytes := ucast x, es_lastBytesBits := bitOffset (es_b s) mod 8, es_lastFlushPos := es_inputPos s\<rparr>"
  obtain hs where "updateLastProcessedPos s1 = s1\<lparr>es_lastProcessedPos := es_inputPos s1, es_hashers := hs\<rparr>"
    by (rule updateLastProcessedPos_eq)
  then have u: "updateLastProcessedPos s1 = s1\<lparr>es_lastProcessedPos := es_inputPos s, es_hashers := hs\<rparr>" by (simp add: s1_def)
  define s2 where "s2 = s1\<lparr>es_lastProcessedPos := es_inputPos s, es_hashers := hs\<rparr>"
  have rep2: "ring_rep s2 xs" using rep ring_rep_cong [of s2 s xs] by (simp add: s2_def s1_def)
  have f2: "es_lastFlushPos s2 = length xs" using rep by (simp add: s2_def s1_def ring_rep_def)
  obtain p1 where p1: "(if es_lastFlushPos s2 > 0 then last_byte 1 s2 else Some (es_prevByte s2)) = Some p1"
    using last_byte_ok [OF rep2 f2, of 1] f2 by (cases "0 < length xs") (auto simp: Suc_le_eq)
  obtain p2 where p2: "(if es_lastFlushPos s2 > 1 then last_byte 2 s2 else Some (es_prevByte2 s2)) = Some p2"
    using last_byte_ok [OF rep2 f2, of 2] f2 by (cases "1 < length xs") (auto simp: Suc_le_eq)
  define out where "out = take off (buf (es_b s))"
  define s3 where "s3 = s2\<lparr>es_prevByte := p1, es_prevByte2 := p2, es_numCommands := 0, es_numLiterals := 0, es_commands := [],
                 es_savedDistCache := es_distCache s2\<rparr>"
  have sl: "go_slice (buf (es_b s2)) 0 (int off) = Some out" using off by (simp add: go_slice_def out_def s2_def s1_def)
  have "finishMetaBlock s = Some (out, s3)"
    unfolding finishMetaBlock_def Let_def off_def [symmetric] go_index_at [OF off(2)] x_def [symmetric] bind.bind_lunit
      s1_def [symmetric] u s2_def [symmetric] p1 p2 sl s3_def by simp
  moreover have "bytes_bits out = bw_bits (es_b s)"
    unfolding out_def bw_bits_def bits_upto_def off(1) by (simp add: take_bytes_bits)
  moreover have "bw_inv (es_b s) \<longrightarrow> es_lastBytes s3 = 0"
  proof
    assume inv: "bw_inv (es_b s)"
    have "\<not> bytes_bits (buf (es_b s)) ! (8 * off + j)" if "j < 8" for j
      using inv that off(1) by (simp add: bw_inv_def clean_at_def)
    then have "x = 0" unfolding x_def using off(2)
      by (intro bit_word_eqI) (simp add: nth_bytes_bits)
    then show "es_lastBytes s3 = 0" by (simp add: s3_def s2_def s1_def)
  qed
  moreover have "ring_rep s3 xs" using rep2 ring_rep_cong [of s3 s2 xs] by (simp add: s3_def)
  moreover have "es_lastBytesBits s3 = 0" "es_lastFlushPos s3 = length xs" "es_lgblock s3 = es_lgblock s" "es_distCache s3 = es_distCache s"
    using b(1) f2 by (simp_all add: s3_def s2_def s1_def)
  ultimately show thesis using that by blast
qed


subsection \<open>One metablock and the whole stream\<close>

lemma raw_metablock_ok:
  assumes rep: "ring_rep s xs" and f: "es_lastFlushPos s < length xs" "length xs \<le> es_lastFlushPos s + es_ringBufSize s"
      "length xs - es_lastFlushPos s \<le> 2 ^ 24"
    and c: "carry_ok s"
  obtains out s' where "raw_metablock isLast s = Some (out, s')"
    "bytes_bits out = carry s @ raw_bits (es_lastBytesBits s) (drop (es_lastFlushPos s) xs) isLast"
    "es_lastBytesBits s' = 0" "\<not> isLast \<longrightarrow> es_lastBytes s' = 0" "ring_rep s' xs" "es_lastFlushPos s' = length xs" "es_lgblock s' = es_lgblock s"
    "es_distCache s' = es_savedDistCache s"
proof -
  define n where "n = length xs - es_lastFlushPos s"
  have n: "es_inputPos s - es_lastFlushPos s = n" using rep by (simp add: ring_rep_def n_def)
  obtain ob b where i: "initMetaBlockOutput n s = Some (s\<lparr>es_outBuf := ob, es_b := b\<rparr>)" "bw_inv b" "bw_bits b = carry s"
    "length (buf b) = 2 * n + 503" "bitOffset b = es_lastBytesBits s" by (rule initMetaBlockOutput_ok [OF c])
  define s1 where "s1 = s\<lparr>es_outBuf := ob, es_b := b, es_distCache := es_savedDistCache s, es_litHisto := None, es_cmdHisto := None, es_distHisto := None\<rparr>"
  have rep1: "ring_rep s1 xs" using rep ring_rep_cong [of s1 s xs] by (simp add: s1_def)
  have f1: "es_lastFlushPos s1 = es_lastFlushPos s" "es_b s1 = b" "es_ringBufSize s1 = es_ringBufSize s" by (simp_all add: s1_def)
  have b1: "bw_inv (es_b s1)" "writer_fits (es_b s1) (8 * n + 60)"
    using i c by (simp_all add: s1_def writer_fits_def carry_ok_def)
  have n1: "es_lastFlushPos s1 + n = length xs" "0 < n" "n \<le> es_ringBufSize s1" "n \<le> 2 ^ 24" using f by (simp_all add: n_def f1)
  obtain b' where w: "es_writeUncompressedMetaBlock n isLast s1 = Some (s1\<lparr>es_b := b'\<rparr>)"
    "bw_bits b' = bw_bits (es_b s1) @ raw_bits (bitOffset (es_b s1)) (drop (es_lastFlushPos s1) xs) isLast"
    "bitOffset b' mod 8 = 0" "bitOffset b' div 8 < length (buf b')" "length (bw_bits b') = bitOffset b'" "\<not> isLast \<longrightarrow> bw_inv b'"
    "length (buf b') = length (buf (es_b s1))"
    by (rule es_write_ok [OF rep1 n1 b1, of isLast])
  define s2 where "s2 = s1\<lparr>es_b := b'\<rparr>"
  have rep2: "ring_rep s2 xs" using rep1 ring_rep_cong [of s2 s1 xs] by (simp add: s2_def)
  obtain out s' where fin: "finishMetaBlock s2 = Some (out, s')" "bytes_bits out = bw_bits (es_b s2)" "es_lastBytesBits s' = 0"
    "bw_inv (es_b s2) \<longrightarrow> es_lastBytes s' = 0" "ring_rep s' xs" "es_lastFlushPos s' = length xs" "es_lgblock s' = es_lgblock s2"
    "es_distCache s' = es_distCache s2"
    by (rule finishMetaBlock_ok [OF rep2]) (use w(3-5) in \<open>simp_all add: s2_def\<close>)
  have "raw_metablock isLast s = Some (out, s')"
    using i(1) w(1) fin(1) unfolding raw_metablock_def n Let_def write_incompressible_def s1_def s2_def by simp
  moreover have "bytes_bits out = carry s @ raw_bits (es_lastBytesBits s) (drop (es_lastFlushPos s) xs) isLast"
    using fin(2) w(2) i(3,5) by (simp add: s2_def f1)
  moreover have "\<not> isLast \<longrightarrow> es_lastBytes s' = 0" using fin(4) w(6) by (simp add: s2_def)
  moreover have "es_lgblock s' = es_lgblock s" "es_distCache s' = es_savedDistCache s" using fin(7,8) by (simp_all add: s2_def s1_def)
  ultimately show thesis using fin(3,5,6) by (intro that [of out s'])
qed

fun blocks_bits :: "nat \<Rightarrow> byte list list \<Rightarrow> bool list" where
  "blocks_bits off [] = []"
| "blocks_bits off (b # bs) = raw_bits off b (bs = []) @ blocks_bits 0 bs"

lemma raw_stream_ok:
  assumes "ring_rep s xs" "es_lastFlushPos s = length xs" "carry_ok s" "blocks \<noteq> []"
    and "\<forall>b \<in> set blocks. b \<noteq> [] \<and> length b \<le> 2 ^ es_lgblock s" and "length xs + length (concat blocks) < 2 ^ 63"
  shows "\<exists>out s'. raw_stream v blocks s = Some (out, s') \<and> bytes_bits out = carry s @ blocks_bits (es_lastBytesBits s) blocks"
  using assms
proof (induction blocks arbitrary: s xs)
  case (Cons b bs)
  obtain s1 where s1: "copyInputToRingBuffer v b s = Some s1" "ring_rep s1 (xs @ b)"
    "s1 = s\<lparr>es_ringBufAlloc := es_ringBufAlloc s1, es_ringBufPos := ring_pos (length (xs @ b)), es_inputPos := length (xs @ b)\<rparr>"
    using copyInputToRingBuffer_ring [OF Cons.prems(1), of b v] Cons.prems(5,6) by auto
  have same: "es_lastFlushPos s1 = es_lastFlushPos s" "es_lastBytes s1 = es_lastBytes s" "es_lastBytesBits s1 = es_lastBytesBits s"
    "es_lgblock s1 = es_lgblock s" "es_ringBufSize s1 = es_ringBufSize s" by (subst s1(3); simp)+
  have c1: "carry_ok s1" "carry s1 = carry s" using Cons.prems(3) same by (simp_all add: carry_ok_def carry_def)
  obtain rb where rb: "es_ringBufSize s = 2 ^ rb" "2 * 2 ^ es_lgblock s \<le> (2 :: nat) ^ rb" "(2 :: nat) ^ rb \<le> 2 ^ 25"
    by (rule ring_sizesE [of s]) (use Cons.prems(1) in \<open>auto simp: ring_rep_def\<close>)
  have b: "b \<noteq> []" "length b \<le> 2 ^ es_lgblock s" using Cons.prems(5) by auto
  have "2 * length b \<le> 2 ^ 25" using b rb by linarith
  then have bl: "length b \<le> 2 ^ 24" "length b \<le> es_ringBufSize s" using b rb by simp_all
  have sz: "es_lastFlushPos s1 < length (xs @ b)" "length (xs @ b) \<le> es_lastFlushPos s1 + es_ringBufSize s1"
    "length (xs @ b) - es_lastFlushPos s1 \<le> 2 ^ 24"
    using b bl same Cons.prems(2) by auto
  obtain o1 s2 where m: "raw_metablock (bs = []) s1 = Some (o1, s2)"
    "bytes_bits o1 = carry s1 @ raw_bits (es_lastBytesBits s1) (drop (es_lastFlushPos s1) (xs @ b)) (bs = [])"
    "es_lastBytesBits s2 = 0" "bs \<noteq> [] \<longrightarrow> es_lastBytes s2 = 0" "ring_rep s2 (xs @ b)" "es_lastFlushPos s2 = length (xs @ b)"
    "es_lgblock s2 = es_lgblock s1"
    "es_distCache s2 = es_savedDistCache s1"
    by (rule raw_metablock_ok [OF s1(2) sz c1(1), of "bs = []"])
  have o1: "bytes_bits o1 = carry s @ raw_bits (es_lastBytesBits s) b (bs = [])"
    using m(2) c1(2) same Cons.prems(2) by simp
  show ?case
  proof (cases "bs = []")
    case True
    then show ?thesis using s1(1) m(1) o1 by simp
  next
    case False
    have c2: "carry_ok s2" "carry s2 = []" using m(3,4) False by (simp_all add: carry_ok_def carry_def)
    obtain o2 s3 where r: "raw_stream v bs s2 = Some (o2, s3)" "bytes_bits o2 = carry s2 @ blocks_bits (es_lastBytesBits s2) bs"
      using Cons.IH [OF m(5,6) c2(1) False] Cons.prems(5,6) same m(7) by auto
    then show ?thesis using False s1(1) m(1,3) o1 c2(2) by simp
  qed
qed simp


subsection \<open>The decoder reads the streams back\<close>

lemma raw_header_at:
  assumes "0 < n" "n \<le> 2 ^ 24"
  shows "header_at (fields_bits (header_fields n False True) @ rest) = Some ((False, True, False, int n), rest)"
  by (simp add: header_at_def hdr_parse_fields [OF assms])

lemma pad_length: "(n + 7) div 8 * 8 - n < (8 :: nat)" "(n + ((n + 7) div 8 * 8 - n)) mod 8 = 0"
proof -
  define q where "q = (n + 7) div 8"
  have "n \<le> 8 * q" "8 * q \<le> n + 7" unfolding q_def by simp_all
  then show "(n + 7) div 8 * 8 - n < 8" "(n + ((n + 7) div 8 * 8 - n)) mod 8 = 0" by (simp_all add: q_def [symmetric])
qed

lemma plain_raw:
  assumes data: "data \<noteq> []" "length data \<le> 2 ^ 24" and rest: "length rest mod 8 = 0" "plain_bytes rest = Some out"
  shows "plain_bytes (raw_bits off data False @ rest) = Some (data @ out)"
proof -
  define n where "n = length data"
  define h where "h = fields_bits (header_fields n False True)"
  define k where "k = (off + length h + 7) div 8 * 8 - (off + length h)"
  have k: "k < 8" unfolding k_def by (rule pad_length)
  define body where "body = replicate k False @ bytes_bits data @ rest"
  have bits: "raw_bits off data False @ rest = h @ body"
    by (simp add: raw_bits_def Let_def n_def [symmetric] h_def [symmetric] k_def body_def)
  have head: "header_at (h @ body) = Some ((False, True, False, int n), body)"
    unfolding h_def by (rule raw_header_at) (use data in \<open>simp_all add: n_def\<close>)
  have "length body mod 8 = k"
  proof -
    have "length body = k + (length data + length rest div 8) * 8" using rest(1) by (simp add: body_def)  presburger
    then show ?thesis using k by (simp only: mod_mult_self1 mod_less)
  qed
  then have pad: "skip_padding body = Some (bytes_bits data @ rest)"
    by (simp add: skip_padding_def Let_def body_def)
  have t: "take (8 * n) (bytes_bits data @ rest) = bytes_bits data" "drop (8 * n) (bytes_bits data @ rest) = rest"
    by (simp_all add: n_def)
  show ?thesis unfolding bits
    by (subst plain_bytes.simps) (simp add: head pad t rest(2) n_def [symmetric])
qed

lemma plain_end: "plain_bytes ([True, True] @ replicate 6 False) = Some []"
  by code_simp

lemma raw_bits_length:
  assumes "data \<noteq> []" "length data \<le> 2 ^ 24"
  shows "(off + length (raw_bits off data isLast)) mod 8 = 0" and "length (raw_bits off data isLast) \<le> 43 + 8 * length data"
proof -
  define l where "l = length (fields_bits (header_fields (length data) False True))"
  define k where "k = (off + l + 7) div 8 * 8 - (off + l)"
  have l: "l \<le> 28" unfolding l_def using assms by (intro header_length) auto
  have k: "k < 8" "(off + l + k) mod 8 = 0" unfolding k_def by (rule pad_length)+
  have len: "length (raw_bits off data isLast) = l + k + 8 * (length data + (if isLast then 1 else 0))"
    by (simp add: raw_bits_def Let_def l_def [symmetric] k_def)
  show "length (raw_bits off data isLast) \<le> 43 + 8 * length data" using len l k(1) by simp
  have "off + length (raw_bits off data isLast) = (off + l + k) + (length data + (if isLast then 1 else 0)) * 8" using len by simp
  then show "(off + length (raw_bits off data isLast)) mod 8 = 0" using k(2) by (simp only: mod_mult_self1)
qed

lemma plain_blocks:
  assumes "blocks \<noteq> []" "\<forall>b \<in> set blocks. b \<noteq> [] \<and> length b \<le> 2 ^ 24"
  shows "plain_bytes (blocks_bits off blocks) = Some (concat blocks) \<and> (off + length (blocks_bits off blocks)) mod 8 = 0 \<and>
    length (blocks_bits off blocks) \<le> 51 * length (concat blocks)"
  using assms
proof (induction blocks arbitrary: off)
  case (Cons b bs)
  have b: "b \<noteq> []" "length b \<le> 2 ^ 24" "1 \<le> length b" using Cons.prems(2) by (auto simp: Suc_le_eq)
  show ?case
  proof (cases "bs = []")
    case True
    have "raw_bits off b True = raw_bits off b False @ [True, True] @ replicate 6 False" by (simp add: raw_bits_def Let_def)
    then show ?thesis using True plain_raw [OF b(1,2) _ plain_end, of off] raw_bits_length [OF b(1,2), of off True] b(3) by simp
  next
    case False
    have "\<forall>b \<in> set bs. b \<noteq> [] \<and> length b \<le> 2 ^ 24" using Cons.prems(2) by simp
    note ih = Cons.IH [OF False this, of 0]
    show ?thesis using False plain_raw [OF b(1,2), of "blocks_bits 0 bs" "concat bs" off] raw_bits_length [OF b(1,2), of off False] ih b(3)
      by (simp add: mod_add_eq [of "off + _", symmetric] add.assoc [symmetric])
  qed
qed simp

lemma empty_streams:
  "\<forall>w \<in> set [10, 11, 12, 13, 14, 15, 16, 17, 18, 19, 20, 21, 22, 23, 24].
     (case empty_stream (es_zero\<lparr>es_lastBytes := fst (encodeWindowBits w), es_lastBytesBits := snd (encodeWindowBits w)\<rparr>) of
        None \<Rightarrow> False
      | Some (out, _) \<Rightarrow> (case win_parse (bytes_bits out) of Good w' rest \<Rightarrow> w' = w \<and> plain_bytes rest = Some [] | _ \<Rightarrow> False))"
  by code_simp

lemma window_parse:
  assumes "10 \<le> w" "w \<le> 24"
  shows "win_parse (bits_of (snd (encodeWindowBits (int w))) (fst (encodeWindowBits (int w))) @ rest) = Good (int w) rest"
    and "snd (encodeWindowBits (int w)) < 8" and "unat (fst (encodeWindowBits (int w))) < 2 ^ snd (encodeWindowBits (int w))"
proof -
  have mem: "int w \<in> set [10, 11, 12, 13, 14, 15, 16, 17, 18, 19, 20, 21, 22, 23, 24]"
    using assms by simp presburger
  show "win_parse (bits_of (snd (encodeWindowBits (int w))) (fst (encodeWindowBits (int w))) @ rest) = Good (int w) rest"
    using win_fields [of rest] mem by blast
  have "\<forall>L \<in> set [10, 11, 12, 13, 14, 15, 16, 17, 18, 19, 20, 21, 22, 23, 24].
      snd (encodeWindowBits L) < 8 \<and> unat (fst (encodeWindowBits L)) < 2 ^ snd (encodeWindowBits L)" by code_simp
  then show "snd (encodeWindowBits (int w)) < 8" "unat (fst (encodeWindowBits (int w))) < 2 ^ snd (encodeWindowBits (int w))"
    using mem by blast+
qed

lemma empty_stream_reads:
  assumes "10 \<le> w" "w \<le> 24" "es_lastBytes s = fst (encodeWindowBits (int w))" "es_lastBytesBits s = snd (encodeWindowBits (int w))"
  obtains out s' rest where "empty_stream s = Some (out, s')" "win_parse (bytes_bits out) = Good (int w) rest" "plain_bytes rest = Some []"
    "length out \<le> 2"
proof -
  have mem: "int w \<in> set [10, 11, 12, 13, 14, 15, 16, 17, 18, 19, 20, 21, 22, 23, 24]"
    using assms(1,2) by simp presburger
  define z where "z = es_zero\<lparr>es_lastBytes := es_lastBytes s, es_lastBytesBits := es_lastBytesBits s\<rparr>"
  have eq: "map_option fst (empty_stream s) = map_option fst (empty_stream z)"
    by (simp add: empty_stream_def Let_def z_def split: bind_splits)
  have "case empty_stream z of None \<Rightarrow> False
      | Some (out, _) \<Rightarrow> (case win_parse (bytes_bits out) of Good w' rest \<Rightarrow> w' = int w \<and> plain_bytes rest = Some [] | _ \<Rightarrow> False)"
    using empty_streams mem unfolding z_def assms(3,4) by blast
  then obtain out z' rest where z: "empty_stream z = Some (out, z')" "win_parse (bytes_bits out) = Good (int w) rest" "plain_bytes rest = Some []"
    by (auto split: option.splits parse.splits)
  have "length out = (es_lastBytesBits z + 2 + 7) div 8"
    using z(1) by (auto simp: empty_stream_def Let_def go_update_def split: if_splits bind_splits)
  moreover have "es_lastBytesBits z < 8" using window_parse(2) [OF assms(1,2)] assms(4) by (simp add: z_def)
  ultimately have "length out \<le> 2" by simp
  moreover obtain s' where "empty_stream s = Some (out, s')" using eq z(1) by (auto simp: map_option_case split: option.splits)
  ultimately show thesis using that z(2,3) by blast
qed

text \<open>C1. Encoder and decoder together, uncompressed: for every window size, quality and split of the input into blocks of at
  most one input block, a freshly reset encoder that writes each block through its ring buffer as an uncompressed metablock
  (the fallback for incompressible input, or the empty stream when there is no input) produces a stream on which
  \<^verbatim>\<open>Decompress\<close> returns exactly the input. This joins the window size, the carried bits, metablock headers, alignment,
  the encoder's ring with its wrap-around, the decoder's headers, its ring buffer and its output.\<close>

theorem raw_stream_roundtrip:
  assumes "10 \<le> w" and "w \<le> 24" and "sl_ok (es_ringBufAlloc es)"
    and "\<forall>b \<in> set blocks. b \<noteq> [] \<and> length b \<le> 2 ^ compute_lgblock q w" and "length (concat blocks) < 2 ^ 50"
    and "ready_pool env ds"
  shows "\<exists>out es' ds'. raw_stream v blocks (reset_state u q w h es) = Some (out, es') \<and>
    Decompress env out ds = Some (Inr (concat blocks), ds')"
proof -
  define s where "s = reset_state u q w h es"
  have rep: "ring_rep s []" unfolding s_def by (rule reset_rep [OF assms(2,3)])
  note win = window_parse [OF assms(1,2)]
  have c: "carry_ok s" "carry s = bits_of (snd (encodeWindowBits (int w))) (fst (encodeWindowBits (int w)))"
    using win by (simp_all add: s_def carry_ok_def carry_def reset_fields)
  obtain out es' rest where o: "raw_stream v blocks s = Some (out, es')" "win_parse (bytes_bits out) = Good (int w) rest"
    "plain_bytes rest = Some (concat blocks)" "length out < 2 ^ 59"
  proof (cases "blocks = []")
    case True
    obtain out s' rest where "empty_stream s = Some (out, s')" "win_parse (bytes_bits out) = Good (int w) rest" "plain_bytes rest = Some []"
      "length out \<le> 2"
      by (rule empty_stream_reads [OF assms(1,2), of s]) (simp_all add: s_def reset_fields)
    then show thesis using that [of out s' rest] True by simp
  next
    case False
    have lg: "es_lgblock s = compute_lgblock q w" "es_lastBytesBits s = snd (encodeWindowBits (int w))" "es_lastFlushPos s = 0"
      by (simp_all add: s_def reset_fields)
    have total: "length [] + length (concat blocks) < 2 ^ 63" using assms(5) by simp
    obtain out es' where r: "raw_stream v blocks s = Some (out, es')" "bytes_bits out = carry s @ blocks_bits (es_lastBytesBits s) blocks"
      using raw_stream_ok [OF rep _ c(1) False _ total, of v] assms(4) lg by auto
    have "(2 :: nat) ^ compute_lgblock q w \<le> 2 ^ 24" by (rule power_increasing) (use assms(2) in \<open>simp_all add: compute_lgblock_def min_def\<close>)
    then have "\<forall>b \<in> set blocks. b \<noteq> [] \<and> length b \<le> 2 ^ 24" using assms(4) by (meson order_trans)
    note p = plain_blocks [OF False this, of "es_lastBytesBits s"]
    have "8 * length out \<le> 7 + 51 * length (concat blocks)"
    proof -
      have "length (bytes_bits out) = length (carry s) + length (blocks_bits (es_lastBytesBits s) blocks)" unfolding r(2) by simp
      then show ?thesis using p c(1) by (simp add: carry_def carry_ok_def)
    qed
    then have "length out < 2 ^ 59" using assms(5) by simp
    moreover have "win_parse (bytes_bits out) = Good (int w) (blocks_bits (es_lastBytesBits s) blocks)" unfolding r(2) c(2) by (rule win(1))
    ultimately show thesis using that [OF r(1)] p by simp
  qed
  then show ?thesis using Decompress_runs [OF o(2,3) assms(6) o(4)] unfolding s_def by blast
qed

theorem raw_stream_roundtrip_witness:
  "\<exists>out es' ds'. raw_stream None [[7, 8, 9], [10]] (reset_state None 5 18 0 es_zero) = Some (out, es') \<and>
    Decompress small_env out (zero_state\<lparr>ds_outChunks := \<lparr>cw_chunks = [], cw_size = 4, cw_n = 0\<rparr>\<rparr>) = Some (Inr [7, 8, 9, 10], ds')"
proof -
  have "ready_pool small_env (zero_state\<lparr>ds_outChunks := \<lparr>cw_chunks = [], cw_size = 4, cw_n = 0\<rparr>\<rparr>)"
    by (simp add: ready_pool_def small_env_def)
  moreover have "sl_ok (es_ringBufAlloc es_zero)" by (simp add: es_zero_def sl_ok_def sl_nil_def)
  moreover have "\<forall>b \<in> set [[7, 8, 9], [10 :: byte]]. b \<noteq> [] \<and> length b \<le> 2 ^ compute_lgblock 5 18"
    by (simp add: compute_lgblock_def)
  ultimately show ?thesis
    using raw_stream_roundtrip [of 18 es_zero "[[7, 8, 9], [10]]" 5 small_env _ None None 0] by simp
qed

end
