(* ===== verification/Stream_Reader.thy ===== *)
theory Stream_Reader
  imports Decode_Stream
begin

text \<open>
  The incremental reader (\<^verbatim>\<open>reader.go\<close>): \<open>NewReaderOptions\<close>, \<open>Read\<close>, \<open>Reset\<close>, \<open>Close\<close> and what they
  are made of. The source, an \<^verbatim>\<open>io.Reader\<close>, is a parameter: a function that reads at most \<open>n\<close> bytes from a
  state \<open>'src\<close> and may return an error; \<open>e_is_eof\<close> is \<^verbatim>\<open>errors.Is(err, io.EOF)\<close>. The caller's slice \<open>p\<close> is
  its length, and \<open>Read\<close> returns the bytes it puts there, the error and the reader. The 32 KB buffer is
  the \<open>br_input\<close> of the bit reader, which is all of it that is ever read. \<open>rd_rounds\<close> counts the
  rounds of the decoder, at which the pools of the environment are asked.

  The theorems: the limit on the bytes a reader delivers, and that an error, once returned, stays.
\<close>

record 'src source =
  so_read :: "nat \<Rightarrow> 'src \<Rightarrow> byte list \<times> string option \<times> 'src"
  so_is_eof :: "string \<Rightarrow> bool"

record 'src reader =
  rd_src :: "'src option"
  rd_err :: "string option"
  rd_srcErr :: "string option"
  rd_out :: "byte list"
  rd_dicts :: "byte list list"
  rd_state :: decodeState
  rd_outPos :: int
  rd_started :: bool
  rd_maxDecodedBytes :: nat
  rd_delivered :: nat
  rd_rounds :: nat

definition io_EOF :: string where "io_EOF = ''EOF''"

definition errReaderClosed :: string where "errReaderClosed = ''brrr: reader is closed''"

definition NewReader :: "'src \<Rightarrow> 'src reader" where
  "NewReader src = \<lparr>rd_src = Some src, rd_err = None, rd_srcErr = None, rd_out = [], rd_dicts = [], rd_state = zero_state,
     rd_outPos = 0, rd_started = False, rd_maxDecodedBytes = 0, rd_delivered = 0, rd_rounds = 0\<rparr>"

definition NewReaderOptions :: "'src \<Rightarrow> byte list list \<Rightarrow> nat \<Rightarrow> string + 'src reader" where
  "NewReaderOptions src dicts maxDecodedBytes =
     (if length dicts > 15 then Inl ErrTooManyDicts
      else if \<exists>d\<in>set dicts. length d = 0 then Inl ErrEmptyDict
      else Inr ((NewReader src)\<lparr>rd_dicts := dicts, rd_maxDecodedBytes := maxDecodedBytes\<rparr>))"

text \<open>\<open>serve\<close>: what is copied to \<open>p\<close>, first from \<^verbatim>\<open>r.out\<close>, then from the ring buffer.\<close>

definition room_left :: "'src reader \<Rightarrow> nat" where
  "room_left r = usub (rd_maxDecodedBytes r) (rd_delivered r)"

definition serve_out :: "nat \<Rightarrow> 'src reader \<Rightarrow> (byte list \<times> 'src reader) option" where
  "serve_out n r = do {
     rest \<leftarrow> go_slice (rd_out r) (rd_outPos r) (int (length (rd_out r)));
     let data = take n rest;
     let r = r\<lparr>rd_outPos := rd_outPos r + int (length data)\<rparr>;
     let r = (if rd_outPos r = int (length (rd_out r)) then r\<lparr>rd_out := [], rd_outPos := 0\<rparr> else r);
     Some (data, r\<lparr>rd_delivered := uadd (rd_delivered r) (length data)\<rparr>) }"

definition serve_up_to :: "nat \<Rightarrow> 'src reader \<Rightarrow> (byte list \<times> 'src reader) option" where
  "serve_up_to n r =
     (if rd_outPos r < int (length (rd_out r)) then serve_out n r
      else if \<not> rd_started r then Some ([], r)
      else do {
        pending \<leftarrow> pendingOutput (rd_state r);
        if length pending = 0 then Some ([], r) else
        let data = take n pending in
        Some (data, r\<lparr>rd_state := consumeOutput (int (length data)) (rd_state r), rd_delivered := uadd (rd_delivered r) (length data)\<rparr>) })"

definition serve :: "nat \<Rightarrow> 'src reader \<Rightarrow> (byte list \<times> 'src reader) option" where
  "serve n r =
     (if rd_maxDecodedBytes r \<noteq> 0 then
        (if room_left r = 0 then
           (if rd_outPos r < int (length (rd_out r)) then Some ([], r\<lparr>rd_err := Some ErrDecodedSizeLimit\<rparr>)
            else if \<not> rd_started r then Some ([], r)
            else do {
              pending \<leftarrow> pendingOutput (rd_state r);
              Some ([], if pending \<noteq> [] then r\<lparr>rd_err := Some ErrDecodedSizeLimit\<rparr> else r) })
         else serve_up_to (min n (room_left r)) r)
      else serve_up_to n r)"

text \<open>A nil source panics when it is read.\<close>

definition rd_fill :: "'src source \<Rightarrow> 'src reader \<Rightarrow> (string option \<times> 'src reader) option" where
  "rd_fill so r = do {
     let br = unload (ds_br (rd_state r));
     let remaining = availIn br;
     kept \<leftarrow> (if remaining > 0 then do {
                d \<leftarrow> go_slice (br_input br) (br_pos br) (br_pos br + remaining);
                if remaining \<le> 32768 then Some d else None }
              else if remaining = 0 then Some [] else None);
     src \<leftarrow> rd_src r;
     let (data, srcErr, src) = so_read so (32768 - length kept) src;
     let buf = kept @ data;
     let r = r\<lparr>rd_src := Some src\<rparr>;
     if length buf > 0 then
       Some (None, r\<lparr>rd_srcErr := srcErr, rd_state := (rd_state r)\<lparr>ds_br := setInput buf br\<rparr>\<rparr>)
     else Some (srcErr, r\<lparr>rd_state := (rd_state r)\<lparr>ds_br := br\<rparr>\<rparr>) }"

definition wrapInputError :: "'src source \<Rightarrow> string \<Rightarrow> string" where
  "wrapInputError so e = (if so_is_eof so e then decompressError ''truncated input'' else e)"

definition terminalReadError :: "'src source \<Rightarrow> 'src reader \<Rightarrow> string \<times> 'src reader" where
  "terminalReadError so r =
     (let srcErr = rd_srcErr r; r = r\<lparr>rd_srcErr := None\<rparr> in
      if (case srcErr of Some e \<Rightarrow> \<not> so_is_eof so e | None \<Rightarrow> False) then (the srcErr, r)
      else let (extra, s) = excessiveInput (rd_state r); r = r\<lparr>rd_state := s\<rparr> in
        (if extra then ErrExcessiveInput else io_EOF, r))"

fun attach_dicts :: "byte list list \<Rightarrow> 'src reader \<Rightarrow> (string option \<times> 'src reader) option" where
  "attach_dicts [] r = Some (None, r)"
| "attach_dicts (d # ds) r = do {
     (e, s) \<leftarrow> attachCompoundDict d (rd_state r);
     let r = r\<lparr>rd_state := s\<rparr>;
     (case e of None \<Rightarrow> attach_dicts ds r | Some _ \<Rightarrow> Some (e, r\<lparr>rd_err := e\<rparr>)) }"

text \<open>The first call; an error is also in \<^verbatim>\<open>r.err\<close>.\<close>

definition first_fill :: "'src source \<Rightarrow> 'src reader \<Rightarrow> (string option \<times> 'src reader) option" where
  "first_fill so r = do {
     (e, r) \<leftarrow> rd_fill so r;
     (case e of None \<Rightarrow> Some (None, r)
      | Some e \<Rightarrow> let e = wrapInputError so e in Some (Some e, r\<lparr>rd_err := Some e\<rparr>)) }"

definition lazy_init :: "'src source \<Rightarrow> 'src reader \<Rightarrow> (string option \<times> 'src reader) option" where
  "lazy_init so r = (if rd_started r then Some (None, r) else do {
     let r = r\<lparr>rd_state := (initForReuse (rd_state r))\<lparr>ds_maxDecodedBytes := rd_maxDecodedBytes r\<rparr>, rd_started := True\<rparr>;
     (e, r) \<leftarrow> attach_dicts (rd_dicts r) r;
     (case e of Some _ \<Rightarrow> Some (e, r) | None \<Rightarrow> first_fill so r) })"

text \<open>What \<open>Read\<close> does with a result of the decoder: \<open>Inl\<close> returns, \<open>Inr\<close> goes round again.\<close>

type_synonym 'src read_step = "((byte list \<times> string option \<times> 'src reader) + 'src reader) option"

definition needs_input :: "'src source \<Rightarrow> nat \<Rightarrow> 'src reader \<Rightarrow> 'src read_step" where
  "needs_input so n r = do {
     (data, r) \<leftarrow> serve n r;
     if length data > 0 then Some (Inl (data, None, r))
     else if rd_err r \<noteq> None then Some (Inl ([], rd_err r, r))
     else (case rd_srcErr r of
         Some e \<Rightarrow> let r = r\<lparr>rd_err := Some (wrapInputError so e), rd_srcErr := None\<rparr> in Some (Inl ([], rd_err r, r))
       | None \<Rightarrow> do {
           (e, r) \<leftarrow> first_fill so r;
           (case e of Some _ \<Rightarrow> Some (Inl ([], e, r)) | None \<Rightarrow> Some (Inr r)) }) }"

definition needs_output :: "nat \<Rightarrow> 'src reader \<Rightarrow> 'src read_step" where
  "needs_output n r = do {
     (data, r) \<leftarrow> serve n r;
     if length data > 0 then Some (Inl (data, None, r))
     else if rd_err r \<noteq> None then Some (Inl ([], rd_err r, r)) else Some (Inr r) }"

definition stream_done :: "'src source \<Rightarrow> nat \<Rightarrow> 'src reader \<Rightarrow> 'src read_step" where
  "stream_done so n r = do {
     let (e, r) = terminalReadError so r;
     let r = r\<lparr>rd_err := Some e\<rparr>;
     (data, r) \<leftarrow> serve n r;
     Some (Inl (if length data > 0 then (data, None, r) else ([], rd_err r, r))) }"

text \<open>\<^verbatim>\<open>consumeOutput(0)\<close> changes nothing.\<close>

definition stream_failed :: "'src reader \<Rightarrow> 'src read_step" where
  "stream_failed r = do {
     let r = r\<lparr>rd_err := ds_err (rd_state r), rd_out := [], rd_outPos := 0\<rparr>;
     pending \<leftarrow> pendingOutput (rd_state r);
     let r = (if length pending = 0 then r else r\<lparr>rd_state := consumeOutput (int (length pending)) (rd_state r)\<rparr>);
     Some (Inl ([], rd_err r, r)) }"

definition read_step :: "environment \<Rightarrow> 'src source \<Rightarrow> nat \<Rightarrow> 'src reader \<Rightarrow> 'src read_step" where
  "read_step env so n r = do {
     (res, (outp, s), k) \<leftarrow> decompressStream env (rd_rounds r) (rd_out r, rd_state r);
     let r = r\<lparr>rd_out := outp, rd_state := s, rd_rounds := k\<rparr>;
     (case res of
       ResultNeedsMoreInput \<Rightarrow> needs_input so n r
     | ResultNeedsMoreOutput \<Rightarrow> needs_output n r
     | ResultSuccess \<Rightarrow> stream_done so n r
     | ResultError \<Rightarrow> stream_failed r) }"

partial_function (option) read_loop :: "environment \<Rightarrow> 'src source \<Rightarrow> nat \<Rightarrow> 'src reader \<Rightarrow> (byte list \<times> string option \<times> 'src reader) option" where
  "read_loop env so n r = Option.bind (read_step env so n r) (\<lambda>x. case x of Inl y \<Rightarrow> Some y | Inr r \<Rightarrow> read_loop env so n r)"

text \<open>\<open>Read\<close> with a slice of \<open>n\<close> bytes.\<close>

definition rd_Read :: "environment \<Rightarrow> 'src source \<Rightarrow> nat \<Rightarrow> 'src reader \<Rightarrow> (byte list \<times> string option \<times> 'src reader) option" where
  "rd_Read env so n r = (if n = 0 then Some ([], None, r) else do {
     (data, r) \<leftarrow> serve n r;
     if length data > 0 then Some (data, None, r)
     else if rd_err r \<noteq> None then Some ([], rd_err r, r)
     else do {
       (e, r) \<leftarrow> lazy_init so r;
       (case e of Some _ \<Rightarrow> Some ([], e, r) | None \<Rightarrow> read_loop env so n r) } })"

definition rd_Reset :: "'src \<Rightarrow> 'src reader \<Rightarrow> 'src reader" where
  "rd_Reset src r = r\<lparr>rd_src := Some src, rd_err := None, rd_srcErr := None, rd_out := [], rd_outPos := 0,
     rd_delivered := 0, rd_started := False\<rparr>"

definition rd_Close :: "'src reader \<Rightarrow> 'src reader" where
  "rd_Close r = r\<lparr>rd_src := None, rd_state := zero_state, rd_out := [], rd_srcErr := None,
     rd_err := Some errReaderClosed, rd_started := True\<rparr>"


subsection \<open>The byte limit\<close>

text \<open>The calls of a client, with the bytes delivered since the last \<open>Reset\<close>.\<close>

datatype 'src reader_call = CallRead nat | CallReset 'src | CallClose

fun rd_run :: "environment \<Rightarrow> 'src source \<Rightarrow> 'src reader_call list \<Rightarrow> nat \<times> 'src reader \<Rightarrow> (nat \<times> 'src reader) option" where
  "rd_run env so [] x = Some x"
| "rd_run env so (CallRead n # cs) (got, r) = do {
     (data, e, r) \<leftarrow> rd_Read env so n r;
     rd_run env so cs (got + length data, r) }"
| "rd_run env so (CallReset src # cs) (got, r) = rd_run env so cs (0, rd_Reset src r)"
| "rd_run env so (CallClose # cs) (got, r) = rd_run env so cs (got, rd_Close r)"

definition same_limit :: "'src reader \<Rightarrow> 'src reader \<Rightarrow> bool" where
  "same_limit r r' \<longleftrightarrow> rd_maxDecodedBytes r' = rd_maxDecodedBytes r \<and> rd_delivered r' = rd_delivered r"

definition within :: "'src reader \<Rightarrow> bool" where
  "within r \<longleftrightarrow> 0 < rd_maxDecodedBytes r \<and> rd_maxDecodedBytes r < 2 ^ 64 \<and> rd_delivered r \<le> rd_maxDecodedBytes r"

text \<open>\<open>gives n r d r'\<close>: the bytes \<open>d\<close>, at most \<open>n\<close>, are counted.\<close>

definition gives :: "nat \<Rightarrow> 'src reader \<Rightarrow> byte list \<Rightarrow> 'src reader \<Rightarrow> bool" where
  "gives n r d r' \<longleftrightarrow> rd_maxDecodedBytes r' = rd_maxDecodedBytes r \<and> length d \<le> n \<and>
     (within r \<longrightarrow> rd_delivered r' = rd_delivered r + length d \<and> within r')"

named_theorems limit_simps

lemma gives_same: "same_limit r r' \<Longrightarrow> gives n r [] r'"
  by (simp add: gives_def same_limit_def within_def)

lemma gives_trans: "same_limit r r1 \<Longrightarrow> gives n r1 d r2 \<Longrightarrow> same_limit r2 r3 \<Longrightarrow> gives n r d r3"
  by (auto simp: gives_def same_limit_def within_def)

lemma gives_Nil_trans: "gives n r [] r1 \<Longrightarrow> gives n r1 d r2 \<Longrightarrow> gives n r d r2"
  by (auto simp: gives_def)

lemma same_limit_refl [simp]: "same_limit r r"
  by (simp add: same_limit_def)

lemma serve_up_to_gives:
  assumes "serve_up_to k r = Some (d, r')"
  shows "rd_maxDecodedBytes r' = rd_maxDecodedBytes r \<and> length d \<le> k \<and> rd_delivered r' = uadd (rd_delivered r) (length d) \<or>
    d = [] \<and> r' = r"
  using assms by (auto simp: serve_up_to_def serve_out_def Let_def split: bind_splits if_splits)

lemma serve_gives: "serve n r = Some (d, r') \<Longrightarrow> gives n r d r'"
proof -
  assume s: "serve n r = Some (d, r')"
  show ?thesis
  proof (cases "rd_maxDecodedBytes r = 0 \<or> room_left r = 0")
    case True
    then show ?thesis
      using s serve_up_to_gives [of n r d r']
      by (auto simp: serve_def gives_def within_def split: if_splits bind_splits)
  next
    case False
    then have u: "serve_up_to (min n (room_left r)) r = Some (d, r')" using s by (simp add: serve_def)
    have "room_left r = rd_maxDecodedBytes r - rd_delivered r" if "within r" using that by (simp add: room_left_def within_def)
    then show ?thesis using serve_up_to_gives [OF u] by (auto simp: gives_def within_def)
  qed
qed

lemma rd_fill_same: "rd_fill so r = Some (e, r') \<Longrightarrow> same_limit r r'"
  by (auto simp: rd_fill_def same_limit_def Let_def split: bind_splits if_splits prod.splits)

lemma first_fill_same: "first_fill so r = Some (e, r') \<Longrightarrow> same_limit r r'"
  by (auto simp: first_fill_def same_limit_def Let_def split: bind_splits option.splits dest!: rd_fill_same)

lemma attach_dicts_same: "attach_dicts ds r = Some (e, r') \<Longrightarrow> same_limit r r'"
proof (induction ds arbitrary: r)
  case (Cons d ds)
  then show ?case by (fastforce simp: same_limit_def Let_def split: bind_splits option.splits)
qed simp

lemma lazy_init_same:
  assumes "lazy_init so r = Some (e, r')"
  shows "same_limit r r'"
proof (cases "rd_started r")
  case False
  define r1 where "r1 = r\<lparr>rd_state := (initForReuse (rd_state r))\<lparr>ds_maxDecodedBytes := rd_maxDecodedBytes r\<rparr>, rd_started := True\<rparr>"
  have r1: "same_limit r r1" by (simp add: same_limit_def r1_def)
  obtain e2 r2 where a: "attach_dicts (rd_dicts r1) r1 = Some (e2, r2)"
    and b: "(case e2 of Some _ \<Rightarrow> Some (e2, r2) | None \<Rightarrow> first_fill so r2) = Some (e, r')"
    using assms False by (auto simp: lazy_init_def r1_def Let_def split: bind_splits)
  from b have "same_limit r2 r'" by (auto split: option.splits dest: first_fill_same)
  then show ?thesis using r1 attach_dicts_same [OF a] by (simp add: same_limit_def)
qed (use assms in \<open>simp add: lazy_init_def\<close>)

lemma terminalReadError_same: "terminalReadError so r = (e, r') \<Longrightarrow> same_limit r r'"
  by (auto simp: terminalReadError_def same_limit_def Let_def split: if_splits prod.splits)

lemma needs_input_gives:
  "needs_input so n r = Some (Inl (d, e, r')) \<Longrightarrow> gives n r d r'"
  "needs_input so n r = Some (Inr r') \<Longrightarrow> gives n r [] r'"
  by (auto simp: needs_input_def Let_def split: bind_splits if_splits option.splits
      dest!: serve_gives first_fill_same intro: gives_trans [OF same_limit_refl] simp: same_limit_def gives_def within_def)


lemma needs_output_gives:
  "needs_output n r = Some (Inl (d, e, r')) \<Longrightarrow> gives n r d r'"
  "needs_output n r = Some (Inr r') \<Longrightarrow> gives n r [] r'"
  by (auto simp: needs_output_def split: bind_splits if_splits dest!: serve_gives)

lemma stream_done_gives: "stream_done so n r = Some (Inl (d, e, r')) \<Longrightarrow> gives n r d r'"
proof -
  assume s: "stream_done so n r = Some (Inl (d, e, r'))"
  obtain e1 r1 where t: "terminalReadError so r = (e1, r1)" by fastforce
  define r2 where "r2 = r1\<lparr>rd_err := Some e1\<rparr>"
  have "same_limit r r2" using terminalReadError_same [OF t] by (simp add: same_limit_def r2_def)
  moreover obtain d2 where "serve n r2 = Some (d2, r')" "d = d2 \<or> d = [] \<and> d2 = []"
    using s t by (auto simp: stream_done_def r2_def split: bind_splits if_splits)
  ultimately show ?thesis using serve_gives gives_trans same_limit_refl by fastforce
qed

lemma stream_failed_gives: "stream_failed r = Some (Inl (d, e, r')) \<Longrightarrow> gives n r d r'"
  by (auto simp: stream_failed_def Let_def same_limit_def intro!: gives_same split: bind_splits)

lemma read_step_gives:
  assumes "read_step env so n r = Some x"
  shows "case x of Inl (d, e, r') \<Rightarrow> gives n r d r' | Inr r' \<Rightarrow> gives n r [] r'"
proof -
  obtain res outp s k where d: "decompressStream env (rd_rounds r) (rd_out r, rd_state r) = Some (res, (outp, s), k)"
    using assms by (auto simp: read_step_def split: bind_splits)
  define r1 where "r1 = r\<lparr>rd_out := outp, rd_state := s, rd_rounds := k\<rparr>"
  have sm: "same_limit r r1" by (simp add: same_limit_def r1_def)
  have x: "(case res of ResultNeedsMoreInput \<Rightarrow> needs_input so n r1 | ResultNeedsMoreOutput \<Rightarrow> needs_output n r1
    | ResultSuccess \<Rightarrow> stream_done so n r1 | ResultError \<Rightarrow> stream_failed r1) = Some x"
    using assms d unfolding r1_def by (simp add: read_step_def Let_def)
  show ?thesis
  proof (cases x)
    case (Inl y)
    obtain d e r' where y: "y = (d, e, r')" by (cases y) auto
    have "gives n r1 d r'"
      using x unfolding Inl y
      by (cases res) (auto dest: needs_input_gives needs_output_gives stream_done_gives stream_failed_gives)
    then show ?thesis using gives_trans [OF sm _ same_limit_refl] by (simp add: Inl y)
  next
    case (Inr r')
    have "gives n r1 [] r'" using x unfolding Inr
      by (cases res) (auto dest: needs_input_gives needs_output_gives simp: stream_done_def stream_failed_def Let_def split: bind_splits prod.splits)
    then show ?thesis using gives_trans [OF sm _ same_limit_refl] by (simp add: Inr)
  qed
qed

lemma read_loop_gives: "read_loop env so n r = Some (d, e, r') \<Longrightarrow> gives n r d r'"
proof -
  assume l: "read_loop env so n r = Some (d, e, r')"
  have "case (d, e, r') of (d, e, r') \<Rightarrow> gives n r d r'"
  proof (rule read_loop.raw_induct [where P = "\<lambda>env so n r x. case x of (d, e, r') \<Rightarrow> gives n r d r'", OF _ l], goal_cases)
    case (1 loop env so n r y)
    then obtain x where x: "read_step env so n r = Some x" and l: "(case x of Inl y \<Rightarrow> Some y | Inr r1 \<Rightarrow> loop env so n r1) = Some y"
      by (auto split: bind_splits)
    obtain d e r' where y: "y = (d, e, r')" by (cases y) auto
    show ?case
    proof (cases x)
      case (Inl z)
      then show ?thesis using l read_step_gives [OF x] by simp
    next
      case (Inr r1)
      then have "gives n r1 d r'" using 1(1) [of env so n r1 y] l by (simp add: y)
      then show ?thesis using gives_Nil_trans [of n r r1 d r'] read_step_gives [OF x] by (simp add: y Inr)
    qed
  qed
  then show ?thesis by simp
qed

lemma rd_Read_gives:
  assumes "rd_Read env so n r = Some (d, e, r')"
  shows "gives n r d r'"
proof (cases "n = 0")
  case False
  obtain d1 r1 where s: "serve n r = Some (d1, r1)" using assms False by (auto simp: rd_Read_def split: bind_splits)
  note g = serve_gives [OF s]
  show ?thesis
  proof (cases "0 < length d1 \<or> rd_err r1 \<noteq> None")
    case True
    then show ?thesis using assms False s g by (auto simp: rd_Read_def split: if_splits)
  next
    case no: False
    then obtain e2 r2 where i: "lazy_init so r1 = Some (e2, r2)"
      and rest: "(case e2 of Some _ \<Rightarrow> Some ([], e2, r2) | None \<Rightarrow> read_loop env so n r2) = Some (d, e, r')"
      using assms False s by (auto simp: rd_Read_def split: bind_splits)
    have "gives n r2 d r'"
    proof (cases e2)
      case (Some x)
      then have "d = [] \<and> r' = r2" using rest by simp
      then show ?thesis by (simp add: gives_same)
    next
      case None
      then show ?thesis using rest read_loop_gives [of env so n r2 d e r'] by simp
    qed
    then show ?thesis using gives_trans [OF lazy_init_same [OF i] _ same_limit_refl] g no gives_Nil_trans by fastforce
  qed
qed (use assms in \<open>simp add: rd_Read_def gives_same\<close>)

lemma rd_Read_length: "rd_Read env so n r = Some (d, e, r') \<Longrightarrow> length d \<le> n"
  by (drule rd_Read_gives) (simp add: gives_def)

lemma rd_run_within:
  assumes "rd_run env so cs (got, r) = Some (got', r')" and "within r" and "rd_delivered r = got"
  shows "within r' \<and> rd_delivered r' = got' \<and> rd_maxDecodedBytes r' = rd_maxDecodedBytes r"
  using assms
proof (induction cs arbitrary: got r)
  case (Cons c cs)
  show ?case
  proof (cases c)
    case (CallRead n)
    obtain d e r1 where d: "rd_Read env so n r = Some (d, e, r1)" "rd_run env so cs (got + length d, r1) = Some (got', r')"
      using Cons.prems(1) by (auto simp: CallRead split: bind_splits)
    show ?thesis using Cons.IH [OF d(2)] rd_Read_gives [OF d(1)] Cons.prems(2,3) by (simp add: gives_def)
  next
    case (CallReset src)
    then show ?thesis using Cons.IH [of 0 "rd_Reset src r"] Cons.prems by (simp add: rd_Reset_def within_def)
  next
    case CallClose
    then show ?thesis using Cons.IH [of got "rd_Close r"] Cons.prems by (simp add: rd_Close_def within_def)
  qed
qed simp

text \<open>C36. With a limit, a reader never delivers more bytes than the limit between two \<open>Reset\<close>s, whatever the calls, the
  source and the stream: its count \<^verbatim>\<open>delivered\<close> is what it delivered, and stays within the limit. \<open>Reset\<close> and \<open>Close\<close> keep the
  limit.\<close>

theorem Reader_keeps_limit:
  assumes "rd_run env so calls (rd_delivered r, r) = Some (got, r')"
    and "0 < rd_maxDecodedBytes r" "rd_maxDecodedBytes r < 2 ^ 64" "rd_delivered r \<le> rd_maxDecodedBytes r"
  shows "got \<le> rd_maxDecodedBytes r \<and> rd_delivered r' = got \<and> rd_maxDecodedBytes r' = rd_maxDecodedBytes r"
  using rd_run_within [OF assms(1)] assms(2-) by (auto simp: within_def)

text \<open>With three bytes decoded and a limit of two, two are delivered and the next call is the limit's error.\<close>

definition demo_source :: "nat source" where
  "demo_source = \<lparr>so_read = (\<lambda>n k. ([], Some io_EOF, k)), so_is_eof = (\<lambda>e. e = io_EOF)\<rparr>"

definition demo_env :: environment where
  "demo_env = \<lparr>e_dict = [], e_get = (\<lambda>_. []), e_pool = (\<lambda>_ _ _. None)\<rparr>"


definition demo_reader :: "nat reader" where
  "demo_reader = (NewReader 0)\<lparr>rd_out := [7, 8, 9], rd_maxDecodedBytes := 2, rd_started := True\<rparr>"

lemma demo_reads:
  "rd_Read demo_env demo_source 5 demo_reader = Some ([7, 8], None, demo_reader\<lparr>rd_outPos := 2, rd_delivered := 2\<rparr>)"
  "rd_Read demo_env demo_source 5 (demo_reader\<lparr>rd_outPos := 2, rd_delivered := 2\<rparr>) =
     Some ([], Some ErrDecodedSizeLimit, demo_reader\<lparr>rd_outPos := 2, rd_delivered := 2, rd_err := Some ErrDecodedSizeLimit\<rparr>)"
  by (simp_all add: rd_Read_def serve_def serve_up_to_def serve_out_def room_left_def demo_reader_def NewReader_def go_slice_def)

theorem Reader_keeps_limit_witness:
  "\<exists>got r'. rd_run demo_env demo_source [CallRead 5, CallRead 5] (0, demo_reader) = Some (got, r') \<and> got \<le> 2 \<and> rd_delivered r' = got"
proof -
  have r: "rd_run demo_env demo_source [CallRead 5, CallRead 5] (rd_delivered demo_reader, demo_reader) =
      Some (2, demo_reader\<lparr>rd_outPos := 2, rd_delivered := 2, rd_err := Some ErrDecodedSizeLimit\<rparr>)"
    by (simp add: demo_reads) (simp add: demo_reader_def NewReader_def)
  show ?thesis using Reader_keeps_limit [OF r] r by (simp add: demo_reader_def NewReader_def)
qed


subsection \<open>Errors stay\<close>

text \<open>\<open>drained\<close>: there is nothing to serve. \<open>flush_sane\<close>: the count of flushed bytes has not wrapped at \<open>2 ^ 64\<close>.\<close>

definition drained :: "'src reader \<Rightarrow> bool" where
  "drained r \<longleftrightarrow> int (length (rd_out r)) \<le> rd_outPos r \<and> (rd_started r \<longrightarrow> pendingOutput (rd_state r) = Some [])"

definition quiet :: "'src reader \<Rightarrow> bool" where
  "quiet r \<longleftrightarrow> (\<forall>n. serve n r = Some ([], r))"

definition flush_sane :: "decodeState \<Rightarrow> bool" where
  "flush_sane s \<longleftrightarrow> 0 \<le> flushed_pos s \<and> ds_ringbufferSize s < 2 ^ 63"

lemma drained_quiet: "drained r \<Longrightarrow> quiet r"
  by (auto simp: drained_def quiet_def serve_def serve_up_to_def)

lemma serve_up_to_Nil: "serve_up_to k r = Some ([], r') \<Longrightarrow> 0 < k \<Longrightarrow> r' = r \<and> drained r"
  by (auto simp: serve_up_to_def serve_out_def drained_def go_slice_def Let_def split: bind_splits if_splits)

lemma serve_Nil:
  assumes "serve n r = Some ([], r')" and "0 < n"
  shows "r' = r \<and> drained r \<or> rd_err r' = Some ErrDecodedSizeLimit \<and> quiet r'"
proof (cases "rd_maxDecodedBytes r \<noteq> 0 \<and> room_left r = 0")
  case True
  have "r' = r \<and> drained r \<or>
    r' = r\<lparr>rd_err := Some ErrDecodedSizeLimit\<rparr> \<and> (rd_outPos r < int (length (rd_out r)) \<or>
      rd_started r \<and> (\<exists>p. pendingOutput (rd_state r) = Some p \<and> p \<noteq> []))"
    using assms(1) True by (auto simp: serve_def drained_def split: if_splits bind_splits)
  then show ?thesis using True by (auto simp: quiet_def serve_def room_left_def)
next
  case False
  then have "serve_up_to (if rd_maxDecodedBytes r = 0 then n else min n (room_left r)) r = Some ([], r')"
    using assms(1) by (auto simp: serve_def)
  then show ?thesis using serve_up_to_Nil assms(2) False by fastforce
qed

corollary serve_Nil_quiet: "serve n r = Some ([], r') \<Longrightarrow> 0 < n \<Longrightarrow> quiet r'"
  using serve_Nil drained_quiet by blast

corollary serve_Nil_drained: "serve n r = Some ([], r') \<Longrightarrow> 0 < n \<Longrightarrow> rd_err r' = None \<Longrightarrow> drained r'"
  using serve_Nil by fastforce

lemma pendingOutput_br [simp]: "pendingOutput (s\<lparr>ds_br := b\<rparr>) = pendingOutput s"
  by (simp add: pendingOutput_def flushed_pos_def Let_def)

lemma pendingOutput_dict [simp]: "pendingOutput (s\<lparr>ds_compoundDict := b\<rparr>) = pendingOutput s"
  by (simp add: pendingOutput_def flushed_pos_def Let_def)

lemma pendingOutput_init: "pendingOutput ((initForReuse s)\<lparr>ds_maxDecodedBytes := m\<rparr>) = Some []"
  by (simp add: pendingOutput_def flushed_pos_def initForReuse_def initDefaults_def clearScalarFields_def)

lemma drained_cong:
  "drained r \<Longrightarrow> rd_out r' = rd_out r \<Longrightarrow> rd_outPos r' = rd_outPos r \<Longrightarrow> rd_started r' = rd_started r \<Longrightarrow>
     pendingOutput (rd_state r') = pendingOutput (rd_state r) \<Longrightarrow> drained r'"
  by (simp add: drained_def)

lemma drained_errors [simp]: "drained (r\<lparr>rd_err := e\<rparr>) = drained r" "drained (r\<lparr>rd_srcErr := e\<rparr>) = drained r"
  by (simp_all add: drained_def)

lemma rd_fill_drained: "rd_fill so r = Some (e, r') \<Longrightarrow> drained r \<Longrightarrow> drained r'"
  by (auto simp: rd_fill_def Let_def elim!: drained_cong split: bind_splits if_splits prod.splits)

lemma first_fill_drained:
  "first_fill so r = Some (Some e, r') \<Longrightarrow> drained r \<Longrightarrow> drained r' \<and> rd_err r' = Some e"
  by (auto simp: first_fill_def Let_def split: bind_splits option.splits dest!: rd_fill_drained)

lemma attachCompoundDict_pending: "attachCompoundDict d s = Some (e, s') \<Longrightarrow> pendingOutput s' = pendingOutput s"
  by (auto simp: attachCompoundDict_def split: bind_splits)

lemma attach_dicts_drained:
  "attach_dicts ds r = Some (e, r') \<Longrightarrow> drained r \<Longrightarrow> drained r' \<and> (e \<noteq> None \<longrightarrow> rd_err r' = e)"
proof (induction ds arbitrary: r)
  case (Cons d ds)
  obtain e1 s where a: "attachCompoundDict d (rd_state r) = Some (e1, s)"
    and b: "(case e1 of None \<Rightarrow> attach_dicts ds (r\<lparr>rd_state := s\<rparr>) | Some _ \<Rightarrow> Some (e1, r\<lparr>rd_state := s, rd_err := e1\<rparr>)) = Some (e, r')"
    using Cons.prems(1) by (auto simp: Let_def split: bind_splits)
  have "drained (r\<lparr>rd_state := s\<rparr>)" using Cons.prems(2) attachCompoundDict_pending [OF a] by (simp add: drained_def)
  then show ?case using b Cons.IH by (auto split: option.splits elim: drained_cong)
qed simp

lemma lazy_init_drained:
  assumes "lazy_init so r = Some (Some e, r')" and "drained r"
  shows "drained r' \<and> rd_err r' = Some e"
proof -
  have n: "\<not> rd_started r" using assms by (auto simp: lazy_init_def)
  define r1 where "r1 = r\<lparr>rd_state := (initForReuse (rd_state r))\<lparr>ds_maxDecodedBytes := rd_maxDecodedBytes r\<rparr>, rd_started := True\<rparr>"
  have "drained r1" using assms(2) by (simp add: drained_def r1_def pendingOutput_init)
  moreover obtain e2 r2 where "attach_dicts (rd_dicts r1) r1 = Some (e2, r2)"
    "(case e2 of Some _ \<Rightarrow> Some (e2, r2) | None \<Rightarrow> first_fill so r2) = Some (Some e, r')"
    using assms(1) n by (auto simp: lazy_init_def r1_def Let_def split: bind_splits)
  ultimately show ?thesis using attach_dicts_drained [of "rd_dicts r1" r1 e2 r2] first_fill_drained [of so r2 e r'] by (auto split: option.splits)
qed


lemma needs_input_quiet:
  assumes "needs_input so n r = Some (Inl ([], Some e, r'))" and "0 < n"
  shows "quiet r' \<and> rd_err r' = Some e"
proof -
  obtain r1 where s: "serve n r = Some ([], r1)"
    using assms by (auto simp: needs_input_def Let_def split: bind_splits if_splits)
  show ?thesis
  proof (cases "rd_err r1")
    case (Some x)
    then show ?thesis using assms s serve_Nil_quiet [OF s] by (simp add: needs_input_def)
  next
    case None
    have d: "drained r1" by (rule serve_Nil_drained [OF s assms(2) None])
    have "drained r' \<and> rd_err r' = Some e"
    proof (cases "rd_srcErr r1")
      case None
      then show ?thesis using assms s \<open>rd_err r1 = None\<close> first_fill_drained [of so r1 e r'] d
        by (auto simp: needs_input_def split: bind_splits option.splits)
    next
      case (Some x)
      then show ?thesis using assms s \<open>rd_err r1 = None\<close> d by (auto simp: needs_input_def Let_def)
    qed
    then show ?thesis using drained_quiet by blast
  qed
qed

lemma needs_output_quiet:
  "needs_output n r = Some (Inl ([], Some e, r')) \<Longrightarrow> 0 < n \<Longrightarrow> quiet r' \<and> rd_err r' = Some e"
  by (auto simp: needs_output_def split: bind_splits if_splits dest: serve_Nil_quiet)

lemma stream_done_quiet:
  "stream_done so n r = Some (Inl ([], Some e, r')) \<Longrightarrow> 0 < n \<Longrightarrow> quiet r' \<and> rd_err r' = Some e"
  by (auto simp: stream_done_def split: bind_splits if_splits prod.splits dest: serve_Nil_quiet)

lemma consume_all:
  assumes "pendingOutput s = Some p" and "p \<noteq> []" and "flush_sane (consumeOutput (int (length p)) s)"
  shows "pendingOutput (consumeOutput (int (length p)) s) = Some []"
proof -
  define f where "f = flushed_pos s"
  define ps where "ps = min (ds_pos s) (ds_ringbufferSize s)"
  define l where "l = length p"
  have p: "sl_slice (ds_ringbuffer s) f ps = Some p" "f < ps"
    using assms(1,2) by (auto simp: pendingOutput_def f_def ps_def Let_def split: if_splits)
  then have f: "0 \<le> f" "int l = ps - f" by (auto simp: sl_slice_def go_slice_def l_def split: if_splits)
  have big: "ps < 2 ^ 63" "0 \<le> flushed_pos (consumeOutput (int l) s)"
    using assms(3) by (auto simp: flush_sane_def ps_def l_def consumeOutput_def)
  have "l < 2 ^ 64" using f big(1) by simp
  then have "nat (int l mod 2 ^ 64) = l" by (simp add: nat_mod_as_int)
  then have e: "flushed_pos (consumeOutput (int l) s) = f + int (uadd (ds_partialPosOut s) l) - int (ds_partialPosOut s)"
    by (simp add: flushed_pos_def consumeOutput_def f_def)
  have "uadd (ds_partialPosOut s) l = ds_partialPosOut s + l"
  proof (rule ccontr)
    assume a: "uadd (ds_partialPosOut s) l \<noteq> ds_partialPosOut s + l"
    then have "2 ^ 64 \<le> ds_partialPosOut s + l" using uadd_exact not_le by blast
    then have "uadd (ds_partialPosOut s) l \<le> ds_partialPosOut s + l - 2 ^ 64" unfolding uadd_def by (simp add: le_mod_geq)
    then show False using e f big \<open>2 ^ 64 \<le> ds_partialPosOut s + l\<close> by simp
  qed
  then have "flushed_pos (consumeOutput (int l) s) = ps" using e f by simp
  then show ?thesis by (simp add: pendingOutput_def l_def ps_def consumeOutput_def)
qed

lemma stream_failed_quiet:
  assumes "stream_failed r = Some (Inl ([], Some e, r'))" and "flush_sane (rd_state r')"
  shows "quiet r' \<and> rd_err r' = Some e"
proof -
  obtain p where p: "pendingOutput (rd_state r) = Some p" using assms(1) by (auto simp: stream_failed_def Let_def split: bind_splits)
  have r': "rd_out r' = []" "rd_outPos r' = 0" "rd_err r' = Some e"
    "rd_state r' = (if p = [] then rd_state r else consumeOutput (int (length p)) (rd_state r))"
    using assms(1) p by (auto simp: stream_failed_def Let_def split: if_splits)
  have "pendingOutput (rd_state r') = Some []" using consume_all [OF p] p assms(2) r'(4) by (simp split: if_splits)
  then have "drained r'" using r' by (simp add: drained_def)
  then show ?thesis using r'(3) drained_quiet by blast
qed

lemma read_step_quiet:
  assumes "read_step env so n r = Some (Inl ([], Some e, r'))" and "0 < n" and "flush_sane (rd_state r')"
  shows "quiet r' \<and> rd_err r' = Some e"
proof -
  obtain res outp s k where d: "decompressStream env (rd_rounds r) (rd_out r, rd_state r) = Some (res, (outp, s), k)"
    using assms(1) by (auto simp: read_step_def split: bind_splits)
  define r1 where "r1 = r\<lparr>rd_out := outp, rd_state := s, rd_rounds := k\<rparr>"
  have x: "(case res of ResultNeedsMoreInput \<Rightarrow> needs_input so n r1 | ResultNeedsMoreOutput \<Rightarrow> needs_output n r1
    | ResultSuccess \<Rightarrow> stream_done so n r1 | ResultError \<Rightarrow> stream_failed r1) = Some (Inl ([], Some e, r'))"
    using assms(1) d unfolding r1_def by (simp add: read_step_def Let_def)
  then show ?thesis
    using needs_input_quiet [of so n r1 e r'] needs_output_quiet [of n r1 e r'] stream_done_quiet [of so n r1 e r']
      stream_failed_quiet [of r1 e r'] assms(2,3) by (cases res) simp_all
qed

lemma read_loop_quiet:
  assumes "read_loop env so n r = Some ([], Some e, r')" and "0 < n" and "flush_sane (rd_state r')"
  shows "quiet r' \<and> rd_err r' = Some e"
proof -
  have "0 < n \<longrightarrow> ([] :: byte list, Some e, r') = ([], Some e, r') \<longrightarrow> quiet r' \<and> rd_err r' = Some e"
  proof (rule read_loop.raw_induct [where P = "\<lambda>env so n r x. 0 < n \<longrightarrow> x = ([], Some e, r') \<longrightarrow> quiet r' \<and> rd_err r' = Some e", OF _ assms(1)], goal_cases)
    case (1 loop env so n r y)
    then obtain x where x: "read_step env so n r = Some x" and l: "(case x of Inl y \<Rightarrow> Some y | Inr r1 \<Rightarrow> loop env so n r1) = Some y"
      by (auto split: bind_splits)
    then show ?case
      using 1(1) read_step_quiet [of env so n r e r'] assms(3) by (cases x) auto
  qed
  then show ?thesis using assms(2) by simp
qed

lemma rd_Read_quiet:
  assumes "rd_Read env so n r = Some ([], Some e, r')" and "0 < n" and "flush_sane (rd_state r')"
  shows "quiet r' \<and> rd_err r' = Some e"
proof -
  obtain d r1 where s: "serve n r = Some (d, r1)" using assms by (auto simp: rd_Read_def split: bind_splits)
  then have d: "d = []" using assms by (auto simp: rd_Read_def split: if_splits)
  show ?thesis
  proof (cases "rd_err r1")
    case (Some x)
    then show ?thesis using assms s d serve_Nil_quiet [of n r r1] by (simp add: rd_Read_def)
  next
    case None
    have dr: "drained r1" using s d serve_Nil_drained None assms(2) by blast
    obtain e2 r2 where "lazy_init so r1 = Some (e2, r2)"
      "(case e2 of Some _ \<Rightarrow> Some ([], e2, r2) | None \<Rightarrow> read_loop env so n r2) = Some ([], Some e, r')"
      using assms s d None by (auto simp: rd_Read_def split: bind_splits)
    then show ?thesis
      using lazy_init_drained [of so r1 e r2] dr drained_quiet read_loop_quiet [of env so n r2 e r'] assms(2,3)
      by (cases e2) auto
  qed
qed

text \<open>C37. When \<open>Read\<close> on a nonempty slice returns no bytes and an error, every later \<open>Read\<close> on a nonempty slice
  returns no bytes and the same error and leaves the reader as it is: there is nothing left to serve, the source is not read
  again, and the limit's error does not replace another one.\<close>

theorem Read_error_stays:
  assumes "rd_Read env so n r = Some ([], Some e, r')" and "0 < n" and "flush_sane (rd_state r')" and "0 < m"
  shows "rd_Read env so m r' = Some ([], Some e, r')"
  using rd_Read_quiet [OF assms(1-3)] assms(4) by (simp add: rd_Read_def quiet_def)

text \<open>A source with nothing in it: the stream is truncated, and stays so.\<close>

theorem Read_error_stays_witness:
  "\<exists>r'. rd_Read demo_env demo_source 4 (NewReader 0) = Some ([], Some (decompressError ''truncated input''), r') \<and>
     rd_Read demo_env demo_source 9 r' = Some ([], Some (decompressError ''truncated input''), r')"
proof -
  obtain r' where r': "rd_Read demo_env demo_source 4 (NewReader 0) = Some ([], Some (decompressError ''truncated input''), r')"
    and s: "flush_sane (rd_state r')"
    by (simp add: rd_Read_def NewReader_def serve_def serve_up_to_def lazy_init_def first_fill_def rd_fill_def demo_source_def io_EOF_def
       wrapInputError_def unload_def availIn_def initForReuse_def initDefaults_def clearScalarFields_def zero_state_def zero_br_def Let_def
       flush_sane_def flushed_pos_def)
  show ?thesis using Read_error_stays [OF r' _ s, of 9] r' by simp
qed

end
