(* ===== verification/Match_Length.thy ===== *)
theory Match_Length
  imports Command_Codes
begin

unbundle bit_operations_syntax

text \<open>
  What the match finders share: the loads of \<^verbatim>\<open>le_generic.go\<close>, \<^verbatim>\<open>matchlen.go\<close>, and the hash, the scores and the search
  result of \<^verbatim>\<open>hash.go\<close>. Positions are \<^typ>\<open>nat\<close>: they stay below \<open>2 ^ 34\<close>, so their sums do not wrap; differences that can
  wrap go through \<open>usub\<close>, scores are taken modulo \<open>2 ^ 64\<close>.

  \<open>agree data a b n\<close> says that \<open>n\<close> bytes from \<open>a\<close> are \<open>n\<close> bytes from \<open>b\<close>; \<open>matchLenAt\<close> returns the largest such \<open>n\<close> within its
  limit.
\<close>

subsection \<open>Loads\<close>

definition loadByte :: "byte list \<Rightarrow> nat \<Rightarrow> byte option" where
  "loadByte b i = go_index b (int i)"

definition loadU32LE :: "byte list \<Rightarrow> nat \<Rightarrow> u32 option" where
  "loadU32LE b i = map_option (\<lambda>xs. ucast (le_load xs)) (go_slice b (int i) (int (i + 4)))"

definition loadU64LE :: "byte list \<Rightarrow> nat \<Rightarrow> u64 option" where
  "loadU64LE b i = map_option le_load (go_slice b (int i) (int (i + 8)))"

text \<open>\<^verbatim>\<open>bits.TrailingZeros64\<close>\<close>

definition TrailingZeros64 :: "u64 \<Rightarrow> nat" where
  "TrailingZeros64 x = length (takeWhile (\<lambda>i. \<not> bit x i) [0..<64])"


subsection \<open>\<^verbatim>\<open>matchlen.go\<close>\<close>

text \<open>The loop over words returns the length, or the index at which the loop over bytes starts.\<close>

function match_words :: "byte list \<Rightarrow> nat \<Rightarrow> nat \<Rightarrow> nat \<Rightarrow> nat \<Rightarrow> (nat + nat) option" where
  "match_words data a b limit i = (if i + 8 \<le> limit then do {
     x \<leftarrow> loadU64LE data (a + i);
     y \<leftarrow> loadU64LE data (b + i);
     if x XOR y \<noteq> 0 then Some (Inl (i + TrailingZeros64 (x XOR y) div 8)) else match_words data a b limit (i + 8) }
   else Some (Inr i))"
  by pat_completeness auto
termination by (relation "measure (\<lambda>(data, a, b, limit, i). limit - i)") auto

function match_tail :: "byte list \<Rightarrow> nat \<Rightarrow> nat \<Rightarrow> nat \<Rightarrow> nat \<Rightarrow> nat option" where
  "match_tail data a b limit i = (if i < limit then do {
     x \<leftarrow> loadByte data (a + i);
     y \<leftarrow> loadByte data (b + i);
     if x = y then match_tail data a b limit (i + 1) else Some i }
   else Some i)"
  by pat_completeness auto
termination by (relation "measure (\<lambda>(data, a, b, limit, i). limit - i)") auto

declare match_words.simps [simp del] match_tail.simps [simp del]

text \<open>\<^verbatim>\<open>matchLenAt\<close> and \<^verbatim>\<open>matchLenAtNoInline\<close>; a negative limit enters neither loop.\<close>

definition matchLenAt :: "byte list \<Rightarrow> nat \<Rightarrow> nat \<Rightarrow> int \<Rightarrow> nat option" where
  "matchLenAt data a b limit = do {
     r \<leftarrow> match_words data a b (nat limit) 0;
     (case r of Inl n \<Rightarrow> Some n | Inr i \<Rightarrow> match_tail data a b (nat limit) i) }"

definition matchLenLongBlock :: nat where "matchLenLongBlock = 4096"

function match_blocks :: "byte list \<Rightarrow> nat \<Rightarrow> nat \<Rightarrow> int \<Rightarrow> nat \<Rightarrow> nat option" where
  "match_blocks data a b limit i = (if int (i + matchLenLongBlock) \<le> limit then do {
     x \<leftarrow> go_slice data (int (a + i)) (int (a + i + matchLenLongBlock));
     y \<leftarrow> go_slice data (int (b + i)) (int (b + i + matchLenLongBlock));
     if x \<noteq> y then Some i else match_blocks data a b limit (i + matchLenLongBlock) }
   else Some i)"
  by pat_completeness auto
termination by (relation "measure (\<lambda>(data, a, b, limit, i). nat (limit - int i))") (auto simp: matchLenLongBlock_def)

declare match_blocks.simps [simp del]

definition matchLenAtLong :: "byte list \<Rightarrow> nat \<Rightarrow> nat \<Rightarrow> int \<Rightarrow> nat option" where
  "matchLenAtLong data a b limit = do {
     i \<leftarrow> match_blocks data a b limit 0;
     n \<leftarrow> matchLenAt data (a + i) (b + i) (limit - int i);
     Some (i + n) }"


subsection \<open>\<^verbatim>\<open>hash.go\<close>\<close>

record hasherSearchResult =
  sr_len :: nat
  sr_distance :: nat
  sr_score :: nat
  sr_lenCodeDelta :: int

definition bucketBits :: nat where "bucketBits = 16"
definition bucketSize :: nat where "bucketSize = 2 ^ 16"
definition hashTypeLength :: nat where "hashTypeLength = 8"
definition hashMul64Shifted :: u64 where "hashMul64Shifted = 0x7BD3579BD3000000"

definition literalByteScore :: nat where "literalByteScore = 135"
definition distanceBitPenalty :: nat where "distanceBitPenalty = 30"
definition scoreBase :: nat where "scoreBase = distanceBitPenalty * 8 * 8"
definition minScore :: nat where "minScore = scoreBase + 100"

text \<open>The hash of a word that is loaded already, and of the word at an offset.\<close>

definition hash_word :: "u64 \<Rightarrow> nat" where
  "hash_word v = unat (drop_bit (64 - bucketBits) (v * hashMul64Shifted))"

definition hashBytes :: "byte list \<Rightarrow> nat \<Rightarrow> nat option" where
  "hashBytes data i = map_option hash_word (loadU64LE data i)"

definition backwardReferenceScore :: "nat \<Rightarrow> nat \<Rightarrow> nat" where
  "backwardReferenceScore len off =
     nat ((int scoreBase + int literalByteScore * int len - int distanceBitPenalty * (int (bits_Len off) - 1)) mod 2 ^ 64)"

definition backwardReferenceScoreUsingLastDistance :: "nat \<Rightarrow> nat" where
  "backwardReferenceScoreUsingLastDistance len = (literalByteScore * len + scoreBase + 15) mod 2 ^ 64"


subsection \<open>The longest match\<close>

definition agree :: "byte list \<Rightarrow> nat \<Rightarrow> nat \<Rightarrow> nat \<Rightarrow> bool" where
  "agree data a b n \<longleftrightarrow> (\<forall>i<n. data ! (a + i) = data ! (b + i))"

text \<open>\<open>longest data a b limit n\<close>: the bytes agree for \<open>n\<close>, and not for one more within the limit.\<close>

definition longest :: "byte list \<Rightarrow> nat \<Rightarrow> nat \<Rightarrow> nat \<Rightarrow> nat \<Rightarrow> bool" where
  "longest data a b limit n \<longleftrightarrow> n \<le> limit \<and> agree data a b n \<and> (n < limit \<longrightarrow> data ! (a + n) \<noteq> data ! (b + n))"

lemma agree_add: "agree data a b (n + m) \<longleftrightarrow> agree data a b n \<and> agree data (a + n) (b + n) m"
proof -
  have "(\<forall>i<n + m. P i) \<longleftrightarrow> (\<forall>i<n. P i) \<and> (\<forall>i<m. P (n + i))" for P :: "nat \<Rightarrow> bool"
    by (auto simp: nat_less_iff) (metis add.commute less_diff_conv2 le_add_diff_inverse not_le)
  from this [of "\<lambda>i. data ! (a + i) = data ! (b + i)"] show ?thesis by (simp add: agree_def add.assoc)
qed

lemma longest_shift:
  "agree data a b i \<Longrightarrow> longest data (a + i) (b + i) (limit - i) n \<Longrightarrow> i \<le> limit \<Longrightarrow> longest data a b limit (i + n)"
  by (auto simp: longest_def agree_add add.assoc)

lemma longest_unique: "longest data a b limit n \<Longrightarrow> longest data a b limit m \<Longrightarrow> n = m"
  unfolding longest_def agree_def by (metis linorder_neqE_nat order.strict_trans2)

lemma loadU64LE_Some: "i + 8 \<le> length b \<Longrightarrow> loadU64LE b i = Some (le_load (take 8 (drop i b)))"
  by (simp add: loadU64LE_def go_slice_def)

lemma loadByte_Some: "i < length b \<Longrightarrow> loadByte b i = Some (b ! i)"
  by (simp add: loadByte_def)

lemma TrailingZeros64_eq:
  assumes "x \<noteq> 0"
  shows "TrailingZeros64 x < 64" "bit x (TrailingZeros64 x)" "i < TrailingZeros64 x \<Longrightarrow> \<not> bit x i"
proof -
  let ?t = "takeWhile (\<lambda>i. \<not> bit x i) [0..<64]"
  obtain k where k: "bit x k" using assms by (auto simp: bit_eq_iff)
  then have "k < 64" using bit_imp_le_length [of x k] by simp
  have t: "?t = [0..<length ?t]" by (metis length_upt minus_nat.diff_0 takeWhile_eq_take take_upt add_0 length_takeWhile_le)
  have "length ?t \<le> k" 
  proof (rule ccontr)
    assume "\<not> length ?t \<le> k"
    then have "k \<in> set ?t" by (subst t) simp
    then show False using k set_takeWhileD by fastforce
  qed
  then show l: "TrailingZeros64 x < 64" using \<open>k < 64\<close> by (simp add: TrailingZeros64_def)
  then show "bit x (TrailingZeros64 x)" using nth_length_takeWhile [of "\<lambda>i. \<not> bit x i" "[0..<64]"] by (simp add: TrailingZeros64_def)
  show "\<not> bit x i" if "i < TrailingZeros64 x"
  proof -
    have "i \<in> set ?t" using that by (subst t) (simp add: TrailingZeros64_def)
    then show ?thesis using set_takeWhileD by fastforce
  qed
qed


lemma bit_load_xor:
  assumes "length xs = 8" and "length ys = 8" and "k < 64"
  shows "bit (le_load xs XOR le_load ys) k \<longleftrightarrow> bit (xs ! (k div 8)) (k mod 8) \<noteq> bit (ys ! (k div 8)) (k mod 8)"
  using assms by (simp add: bit_xor_iff bit_le_load nth_bytes_bits)

lemma byte_differs: "x \<noteq> (y :: byte) \<Longrightarrow> \<exists>j<8. bit x j \<noteq> bit y j"
  using bit_imp_le_length by (fastforce simp: bit_eq_iff)

lemma load_xor_zero:
  assumes "length xs = 8" and "length ys = 8" and "le_load xs XOR le_load ys = 0"
  shows "xs = ys"
proof (rule nth_equalityI)
  fix i assume i: "i < length xs"
  show "xs ! i = ys ! i"
  proof (rule ccontr)
    assume "xs ! i \<noteq> ys ! i"
    then obtain j where j: "j < 8" "bit (xs ! i) j \<noteq> bit (ys ! i) j" using byte_differs by blast
    then have "bit (le_load xs XOR le_load ys) (8 * i + j)"
      using bit_load_xor [OF assms(1,2), of "8 * i + j"] i assms(1) by simp
    then show False using assms(3) by simp
  qed
qed (use assms in simp)

lemma load_xor_first:
  assumes "length xs = 8" and "length ys = 8" and "le_load xs XOR le_load ys \<noteq> 0"
  defines "q \<equiv> TrailingZeros64 (le_load xs XOR le_load ys) div 8"
  shows "q < 8" "xs ! q \<noteq> ys ! q" "i < q \<Longrightarrow> xs ! i = ys ! i"
proof -
  let ?x = "le_load xs XOR le_load ys"
  note t = TrailingZeros64_eq [OF assms(3)]
  show "q < 8" using t(1) by (simp add: q_def)
  show "xs ! q \<noteq> ys ! q" using t(2) bit_load_xor [OF assms(1,2) t(1)] by (auto simp: q_def)
  show "xs ! i = ys ! i" if "i < q"
  proof (rule ccontr)
    assume "xs ! i \<noteq> ys ! i"
    then obtain j where j: "j < 8" "bit (xs ! i) j \<noteq> bit (ys ! i) j" using byte_differs by blast
    have "8 * i + j < 8 * q" using that j(1) by linarith
    then have l: "8 * i + j < TrailingZeros64 ?x" unfolding q_def by linarith
    then have "bit ?x (8 * i + j)" using bit_load_xor [OF assms(1,2), of "8 * i + j"] j t(1) by simp
    then show False using t(3) [OF l] by simp
  qed
qed

text \<open>Two words: equal, or the first byte in which they differ.\<close>

lemma load_pair:
  assumes "a + 8 \<le> length data" and "b + 8 \<le> length data"
  obtains x y where "loadU64LE data a = Some x" "loadU64LE data b = Some y"
    "x XOR y = 0 \<longrightarrow> agree data a b 8"
    "x XOR y \<noteq> 0 \<longrightarrow> TrailingZeros64 (x XOR y) div 8 < 8 \<and> longest data a b 8 (TrailingZeros64 (x XOR y) div 8)"
proof (rule that)
  let ?xs = "take 8 (drop a data)" and ?ys = "take 8 (drop b data)"
  show "loadU64LE data a = Some (le_load ?xs)" "loadU64LE data b = Some (le_load ?ys)"
    using assms by (simp_all add: loadU64LE_Some)
  have l: "length ?xs = 8" "length ?ys = 8" using assms by simp_all
  have n: "?xs ! i = data ! (a + i)" "?ys ! i = data ! (b + i)" if "i < 8" for i using that assms by simp_all
  show "le_load ?xs XOR le_load ?ys = 0 \<longrightarrow> agree data a b 8"
    using load_xor_zero [OF l] n by (metis agree_def)
  show "le_load ?xs XOR le_load ?ys \<noteq> 0 \<longrightarrow> TrailingZeros64 (le_load ?xs XOR le_load ?ys) div 8 < 8 \<and>
      longest data a b 8 (TrailingZeros64 (le_load ?xs XOR le_load ?ys) div 8)"
  proof
    assume ne: "le_load ?xs XOR le_load ?ys \<noteq> 0"
    define q where "q = TrailingZeros64 (le_load ?xs XOR le_load ?ys) div 8"
    note f = load_xor_first [OF l ne, folded q_def]
    have "agree data a b q" unfolding agree_def using f(1,3) n by (metis order.strict_trans)
    then have "longest data a b 8 q" using f(1,2) n by (simp add: longest_def)
    then show "TrailingZeros64 (le_load ?xs XOR le_load ?ys) div 8 < 8 \<and>
      longest data a b 8 (TrailingZeros64 (le_load ?xs XOR le_load ?ys) div 8)" using f(1) by (simp add: q_def)
  qed
qed

lemma longest_widen: "longest data a b k n \<Longrightarrow> n < k \<Longrightarrow> k \<le> limit \<Longrightarrow> longest data a b limit n"
  by (simp add: longest_def)

lemma match_words_ok:
  assumes "a + limit \<le> length data" and "b + limit \<le> length data" and "agree data a b i" and "i \<le> limit"
  shows "\<exists>r. match_words data a b limit i = Some r \<and>
    (case r of Inl n \<Rightarrow> longest data a b limit n | Inr j \<Rightarrow> agree data a b j \<and> j \<le> limit)"
  using assms
proof (induction data a b limit i rule: match_words.induct)
  case (1 data a b limit i)
  show ?case
  proof (cases "i + 8 \<le> limit")
    case True
    obtain x y where w: "loadU64LE data (a + i) = Some x" "loadU64LE data (b + i) = Some y"
      "x XOR y = 0 \<longrightarrow> agree data (a + i) (b + i) 8"
      "x XOR y \<noteq> 0 \<longrightarrow> TrailingZeros64 (x XOR y) div 8 < 8 \<and> longest data (a + i) (b + i) 8 (TrailingZeros64 (x XOR y) div 8)"
      using load_pair [of "a + i" data "b + i"] 1(2,3) True by auto
    show ?thesis
    proof (cases "x XOR y = 0")
      case eq: True
      then have "agree data a b (i + 8)" using w(3) 1(4) by (simp add: agree_add)
      then show ?thesis using 1(1) [OF True w(1,2)] eq 1(2,3) True w(1,2) by (subst match_words.simps) simp
    next
      case False
      then have "longest data (a + i) (b + i) (limit - i) (TrailingZeros64 (x XOR y) div 8)"
        using w(4) longest_widen [of data "a + i" "b + i" 8 _ "limit - i"] True by simp
      then have "longest data a b limit (i + TrailingZeros64 (x XOR y) div 8)" using longest_shift 1(4,5) by blast
      then show ?thesis using False w(1,2) True by (subst match_words.simps) simp
    qed
  next
    case False
    then show ?thesis using 1(4,5) by (subst match_words.simps) simp
  qed
qed

lemma match_tail_ok:
  assumes "a + limit \<le> length data" and "b + limit \<le> length data" and "agree data a b i" and "i \<le> limit"
  shows "\<exists>n. match_tail data a b limit i = Some n \<and> longest data a b limit n"
  using assms
proof (induction data a b limit i rule: match_tail.induct)
  case (1 data a b limit i)
  show ?case
  proof (cases "i < limit")
    case True
    have l: "loadByte data (a + i) = Some (data ! (a + i))" "loadByte data (b + i) = Some (data ! (b + i))"
      using 1(2,3) True by (simp_all add: loadByte_Some)
    show ?thesis
    proof (cases "data ! (a + i) = data ! (b + i)")
      case eq: True
      then have "agree data a b (i + 1)" using 1(4) by (auto simp: agree_def less_Suc_eq)
      then show ?thesis using 1(1) [OF True l eq] 1(2,3) True l eq by (subst match_tail.simps) simp
    next
      case False
      then have "longest data a b limit i" using 1(4,5) by (simp add: longest_def)
      then show ?thesis using False True l by (subst match_tail.simps) simp
    qed
  next
    case False
    then have "longest data a b limit i" using 1(4,5) by (simp add: longest_def)
    then show ?thesis using False by (subst match_tail.simps) simp
  qed
qed

lemma matchLenAt_ok:
  assumes "a + nat limit \<le> length data" and "b + nat limit \<le> length data"
  shows "\<exists>n. matchLenAt data a b limit = Some n \<and> longest data a b (nat limit) n"
proof -
  have "agree data a b 0" by (simp add: agree_def)
  then obtain r where r: "match_words data a b (nat limit) 0 = Some r"
    "case r of Inl n \<Rightarrow> longest data a b (nat limit) n | Inr j \<Rightarrow> agree data a b j \<and> j \<le> nat limit"
    using match_words_ok [OF assms, of 0] by auto
  then show ?thesis using match_tail_ok [OF assms] by (cases r) (auto simp: matchLenAt_def)
qed

lemma go_slice_agree:
  assumes "a + k \<le> length data" and "b + k \<le> length data"
  shows "(take k (drop a data) = take k (drop b data)) = agree data a b k"
  using assms by (auto simp: list_eq_iff_nth_eq agree_def)

lemma match_blocks_ok:
  assumes "a + nat limit \<le> length data" and "b + nat limit \<le> length data" and "agree data a b i" and "i \<le> nat limit"
  shows "\<exists>j. match_blocks data a b limit i = Some j \<and> agree data a b j \<and> j \<le> nat limit"
  using assms
proof (induction data a b limit i rule: match_blocks.induct)
  case (1 data a b limit i)
  let ?k = matchLenLongBlock
  show ?case
  proof (cases "int (i + ?k) \<le> limit")
    case True
    then have le: "i + ?k \<le> nat limit" by linarith
    then have l: "go_slice data (int (a + i)) (int (a + i + ?k)) = Some (take ?k (drop (a + i) data))"
      "go_slice data (int (b + i)) (int (b + i + ?k)) = Some (take ?k (drop (b + i) data))"
      using 1(2,3) le by (simp_all add: go_slice_def nat_add_distrib)
    have eq: "(take ?k (drop (a + i) data) = take ?k (drop (b + i) data)) = agree data (a + i) (b + i) ?k"
      using 1(2,3) le by (intro go_slice_agree) simp_all
    show ?thesis
    proof (cases "agree data (a + i) (b + i) ?k")
      case ag: True
      then have "agree data a b (i + ?k)" using 1(4) by (simp add: agree_add)
      then show ?thesis using 1(1) [OF True l] eq ag 1(2,3) True l le by (subst match_blocks.simps) simp
    next
      case False
      then show ?thesis using eq True l 1(4,5) by (subst match_blocks.simps) simp
    qed
  next
    case False
    then show ?thesis using 1(4,5) by (subst match_blocks.simps) simp
  qed
qed

text \<open>C38. The two match length routines, by words of eight bytes and by blocks of 4096, return the length of the longest
  common prefix within the limit, and read nothing outside the data.\<close>

theorem matchLenAt_longest:
  assumes "a + nat limit \<le> length data" and "b + nat limit \<le> length data"
  shows "\<exists>n. matchLenAt data a b limit = Some n \<and> matchLenAtLong data a b limit = Some n \<and> longest data a b (nat limit) n"
proof -
  obtain n where n: "matchLenAt data a b limit = Some n" "longest data a b (nat limit) n" using matchLenAt_ok [OF assms] by blast
  have "agree data a b 0" by (simp add: agree_def)
  then obtain i where i: "match_blocks data a b limit 0 = Some i" "agree data a b i" "i \<le> nat limit"
    using match_blocks_ok [OF assms] by auto
  have lim: "nat (limit - int i) = nat limit - i" using i(3) by linarith
  obtain m where m: "matchLenAt data (a + i) (b + i) (limit - int i) = Some m" "longest data (a + i) (b + i) (nat limit - i) m"
    using matchLenAt_ok [of "a + i" "limit - int i" data "b + i"] assms i(3) lim by auto
  have "i + m = n" using longest_unique [OF longest_shift [OF i(2) m(2) i(3)] n(2)] .
  then show ?thesis using n i(1) m(1) by (simp add: matchLenAtLong_def)
qed

theorem matchLenAt_longest_witness:
  "\<exists>n. matchLenAt [1, 2, 3, 4, 1, 2, 3, 5] 0 4 4 = Some n \<and> longest [1, 2, 3, 4, 1, 2, 3, 5] 0 4 4 n"
  using matchLenAt_longest [of 0 4 "[1, 2, 3, 4, 1, 2, 3, 5]" 4] by auto

end
