(* ===== verification/Match_H2.thy ===== *)
theory Match_H2
  imports Match_Length Encode_State Transforms
begin

unbundle bit_operations_syntax

text \<open>
  The hasher of quality 2, \<^verbatim>\<open>hash2.go\<close>, and the static dictionary search it falls back to, \<^verbatim>\<open>static_dict.go\<close>.

  \<^verbatim>\<open>createBackwardReferences\<close> and \<^verbatim>\<open>createBackwardReferencesNoWrap\<close> are the same text but for the masking of positions and the
  stores after a match, so the definitions take the mask as an option: \<open>Some mask\<close> is the first, \<open>None\<close> the second. The
  search at a position is written out twice in each of them, once for the current position with nothing found yet, once for the
  next position; here it is \<open>h2_search\<close>, and \<open>bestLen\<close> is 0 in the first use.

  The tables the search needs are parameters: \<open>ents\<close> is \<^verbatim>\<open>staticDictHashEntries\<close>, which is filled from generated arrays, \<open>dict\<close> the
  embedded file \<^verbatim>\<open>DictData\<close>. Of the encoder state the ring buffer is read, and the commands, the caches and the counters are
  updated. A \<^verbatim>\<open>uint32\<close> in a bucket is a \<^typ>\<open>nat\<close> taken modulo \<open>2 ^ 32\<close>.
\<close>

subsection \<open>The static dictionary\<close>

definition cutoffTransformsCount :: nat where "cutoffTransformsCount = 10"
definition cutoffTransforms :: nat where "cutoffTransforms = 0x071B520ADA2D3200"
definition hashMul32 :: u32 where "hashMul32 = 0x1E35A7BD"
definition maxBackwardDistance :: nat where "maxBackwardDistance = 0x3FFFFFC"

fun findMatchLenDictAt :: "byte list \<Rightarrow> nat \<Rightarrow> byte list \<Rightarrow> nat option" where
  "findMatchLenDictAt data pos [] = Some 0"
| "findMatchLenDictAt data pos (w # word) = do {
     x \<leftarrow> loadByte data pos;
     if x \<noteq> w then Some 0 else map_option Suc (findMatchLenDictAt data (pos + 1) word) }"

definition cut_transform :: "nat \<Rightarrow> nat" where
  "cut_transform omit = 4 * omit + (drop_bit (omit * 6) cutoffTransforms AND 0x3F)"

text \<open>The word is sliced out of \<^verbatim>\<open>DictData\<close>; \<open>None\<close> inside is a match that is not taken.\<close>

definition matchStaticDictEntryAt ::
  "byte list \<Rightarrow> byte list \<Rightarrow> nat \<Rightarrow> nat \<Rightarrow> nat \<Rightarrow> nat \<Rightarrow> nat \<Rightarrow> hasherSearchResult option option" where
  "matchStaticDictEntryAt dict data pos wordLen wordIndex maxBackward minS = do {
     off \<leftarrow> go_index DictOffsetsByLength (int wordLen);
     let offset = off + wordLen * wordIndex;
     word \<leftarrow> go_slice dict (int offset) (int (offset + wordLen));
     ml \<leftarrow> findMatchLenDictAt data pos word;
     if ml + cutoffTransformsCount \<le> wordLen \<or> ml = 0 then Some None else do {
     let omit = wordLen - ml;
     bits \<leftarrow> go_index DictSizeBitsByLength (int wordLen);
     let backward = maxBackward + 1 + wordIndex + cut_transform omit * 2 ^ bits;
     if backward > maxBackwardDistance then Some None else
     let score = backwardReferenceScore ml backward in
     if score < minS then Some None
     else Some (Some \<lparr>sr_len = ml, sr_distance = backward, sr_score = score, sr_lenCodeDelta = int wordLen - int ml\<rparr>) } }"

text \<open>The filter: word length and index if it passes, and the number of lookups.\<close>

definition searchStaticDictAt ::
  "nat list \<Rightarrow> byte list \<Rightarrow> nat \<Rightarrow> nat \<Rightarrow> nat \<Rightarrow> nat \<Rightarrow> ((nat \<times> nat) option \<times> nat) option" where
  "searchStaticDictAt ents data pos maxLength lookups matches =
     (if matches < drop_bit 7 lookups then Some (None, lookups) else do {
        v \<leftarrow> loadU32LE data pos;
        let key = unat (drop_bit 18 (v * hashMul32)) * 2;
        e \<leftarrow> go_index ents (int key);
        let lb = drop_bit 8 e AND 0xFF;
        x \<leftarrow> loadByte data pos;
        Some (if unat x = e AND 0xFF \<and> lb \<noteq> 0 \<and> lb \<le> maxLength then Some (lb, drop_bit 16 e) else None, uadd lookups 1) })"


subsection \<open>The hash table\<close>

record h2 =
  h_buckets :: "nat list"
  h_nextBucket :: nat
  h_everWrapped :: bool
  h_ready :: bool

text \<open>\<^verbatim>\<open>p & mask\<close>, or \<open>p\<close> in the variant without wrap.\<close>

definition at :: "nat option \<Rightarrow> nat \<Rightarrow> nat" where
  "at m p = (case m of Some rbMask \<Rightarrow> p AND rbMask | None \<Rightarrow> p)"

definition put_bucket :: "nat \<Rightarrow> nat \<Rightarrow> h2 \<Rightarrow> h2 option" where
  "put_bucket key pos h = do {
     bs \<leftarrow> go_update (h_buckets h) (int key) (to_u32 pos);
     Some (h\<lparr>h_buckets := bs\<rparr>) }"

definition h2_store :: "nat option \<Rightarrow> byte list \<Rightarrow> nat \<Rightarrow> h2 \<Rightarrow> h2 option" where
  "h2_store m data pos h = do {
     key \<leftarrow> hashBytes data (at m pos);
     put_bucket key pos h }"

fun h2_stores :: "nat option \<Rightarrow> byte list \<Rightarrow> nat list \<Rightarrow> h2 \<Rightarrow> h2 option" where
  "h2_stores m data [] h = Some h"
| "h2_stores m data (i # is) h = do { h \<leftarrow> h2_store m data i h; h2_stores m data is h }"

definition h2_storeRange :: "nat option \<Rightarrow> byte list \<Rightarrow> nat \<Rightarrow> nat \<Rightarrow> h2 \<Rightarrow> h2 option" where
  "h2_storeRange m data i j h = h2_stores m data [i..<j] h"

text \<open>The unrolled loop of the variant without wrap: blocks of four from \<open>i\<close> below \<open>last1\<close>, then the last four.\<close>

function store_fours :: "byte list \<Rightarrow> nat \<Rightarrow> nat \<Rightarrow> h2 \<Rightarrow> h2 option" where
  "store_fours data i last1 h = (if i < last1 then do {
     h \<leftarrow> h2_stores None data [i, i + 1, i + 2, i + 3] h;
     store_fours data (i + 4) last1 h }
   else h2_stores None data [last1, last1 + 1, last1 + 2, last1 + 3] h)"
  by pat_completeness auto
termination by (relation "measure (\<lambda>(data, i, last1, h). last1 - i)") auto

declare store_fours.simps [simp del]

definition store_matched :: "nat option \<Rightarrow> byte list \<Rightarrow> bool \<Rightarrow> nat \<Rightarrow> nat \<Rightarrow> h2 \<Rightarrow> h2 option" where
  "store_matched m data direct i j h =
     (if m = None \<and> direct \<and> j \<ge> i + 4 then store_fours data i (j - 4) h else h2_storeRange m data i j h)"

fun clear_keys :: "byte list \<Rightarrow> nat list \<Rightarrow> nat list \<Rightarrow> nat list option" where
  "clear_keys data [] bs = Some bs"
| "clear_keys data (i # is) bs = do {
     key \<leftarrow> hashBytes data i;
     bs \<leftarrow> go_update bs (int key) 0;
     clear_keys data is bs }"

definition h2_reset :: "bool \<Rightarrow> nat \<Rightarrow> byte list \<Rightarrow> h2 \<Rightarrow> h2 option" where
  "h2_reset oneShot inputSize data h = do {
     bs \<leftarrow> (if oneShot \<and> inputSize \<le> bucketSize div 2 ^ 5 then clear_keys data [0..<inputSize] (h_buckets h)
           else Some (replicate bucketSize 0));
     Some (h\<lparr>h_buckets := bs, h_everWrapped := False, h_ready := True\<rparr>) }"

definition h2_stitchToPreviousBlock :: "nat \<Rightarrow> nat \<Rightarrow> byte list \<Rightarrow> nat \<Rightarrow> h2 \<Rightarrow> h2 option" where
  "h2_stitchToPreviousBlock numBytes position ringBuffer ringBufferMask h =
     (if numBytes \<ge> hashTypeLength - 1 \<and> position \<ge> 3
      then h2_stores (Some ringBufferMask) ringBuffer [position - 3, position - 2, position - 1] h else Some h)"


subsection \<open>The search at a position\<close>

text \<open>The length of the match of the bytes at \<open>prev\<close> with those at \<open>cur\<close>, whose first word is loaded already; both are masked.\<close>

definition match_length :: "byte list \<Rightarrow> nat \<Rightarrow> nat \<Rightarrow> u64 \<Rightarrow> nat \<Rightarrow> nat option" where
  "match_length data prev cur curWord maxLength = do {
     x \<leftarrow> loadU64LE data prev;
     if x XOR curWord \<noteq> 0 then Some (TrailingZeros64 (x XOR curWord) div 8)
     else map_option (\<lambda>n. 8 + n) (matchLenAt data (prev + 8) (cur + 8) (int maxLength - 8)) }"

text \<open>A candidate at distance \<open>d\<close> that is better than \<open>sr\<close>.\<close>

definition take_candidate :: "nat \<Rightarrow> nat \<Rightarrow> nat \<Rightarrow> hasherSearchResult \<Rightarrow> hasherSearchResult option" where
  "take_candidate len d score sr =
     (if len \<ge> 4 \<and> sr_score sr < score then Some (sr\<lparr>sr_len := len, sr_distance := d, sr_score := score\<rparr>) else None)"

definition probe_last :: "nat option \<Rightarrow> byte list \<Rightarrow> nat \<Rightarrow> nat \<Rightarrow> byte \<Rightarrow> u64 \<Rightarrow> nat \<Rightarrow> hasherSearchResult \<Rightarrow> hasherSearchResult option option" where
  "probe_last m data lastDistance cur guardByte curWord maxLength sr =
     (let prev = usub cur lastDistance in
      if prev < cur then do {
        x \<leftarrow> loadByte data (at m prev + sr_len sr);
        if guardByte = x then do {
          len \<leftarrow> match_length data (at m prev) (at m cur) curWord maxLength;
          Some (take_candidate len lastDistance (backwardReferenceScoreUsingLastDistance len) sr) }
        else Some None }
      else Some None)"

text \<open>The bucket holds \<open>prev\<close>; the flag says that it was a near miss, which makes the position eligible for the dictionary.\<close>

definition probe_bucket :: "nat option \<Rightarrow> byte list \<Rightarrow> nat \<Rightarrow> nat \<Rightarrow> byte \<Rightarrow> u64 \<Rightarrow> nat \<Rightarrow> nat \<Rightarrow> hasherSearchResult \<Rightarrow> (hasherSearchResult option \<times> bool) option" where
  "probe_bucket m data prev cur guardByte curWord maxLength maxDist sr = do {
     let backward = usub cur prev;
     x \<leftarrow> loadByte data (at m prev + sr_len sr);
     if guardByte = x \<and> backward \<noteq> 0 \<and> backward \<le> maxDist then do {
       len \<leftarrow> match_length data (at m prev) (at m cur) curWord maxLength;
       Some (take_candidate len backward (backwardReferenceScore len backward) sr, True) }
     else Some (None, False) }"

text \<open>\<open>sr\<close> comes in with the length to beat; \<^verbatim>\<open>byte(curWord)\<close> of the first use is the byte at \<open>cur\<close>.\<close>

definition h2_probe :: "nat option \<Rightarrow> byte list \<Rightarrow> nat \<Rightarrow> nat \<Rightarrow> nat \<Rightarrow> nat \<Rightarrow> hasherSearchResult \<Rightarrow> h2 \<Rightarrow> (hasherSearchResult \<times> bool \<times> h2) option" where
  "h2_probe m data lastDistance cur maxLength maxDist sr h = do {
     guardByte \<leftarrow> loadByte data (at m cur + sr_len sr);
     curWord \<leftarrow> loadU64LE data (at m cur);
     let key = hash_word curWord;
     hit \<leftarrow> probe_last m data lastDistance cur guardByte curWord maxLength sr;
     (case hit of
       Some sr \<Rightarrow> do { h \<leftarrow> put_bucket key cur h; Some (sr, False, h) }
     | None \<Rightarrow> do {
         prev \<leftarrow> go_index (h_buckets h) (int key);
         h \<leftarrow> put_bucket key cur h;
         (found, near) \<leftarrow> probe_bucket m data prev cur guardByte curWord maxLength maxDist sr;
         Some (case found of Some sr \<Rightarrow> sr | None \<Rightarrow> sr, near, h) }) }"

definition h2_search :: "nat list \<Rightarrow> byte list \<Rightarrow> nat option \<Rightarrow> byte list \<Rightarrow> nat \<Rightarrow> nat \<Rightarrow> nat \<Rightarrow> nat \<Rightarrow> hasherSearchResult \<Rightarrow>
    encodeState \<times> h2 \<Rightarrow> (hasherSearchResult \<times> encodeState \<times> h2) option" where
  "h2_search ents dict m data gap cur maxLength maxDist sr = (\<lambda>(s, h). do {
     (sr, near, h) \<leftarrow> h2_probe m data (es_distCache s ! 0) cur maxLength maxDist sr h;
     if near \<and> sr_score sr = minScore then do {
       (cand, lookups) \<leftarrow> searchStaticDictAt ents data (at m cur) maxLength (es_dictNumLookups s) (es_dictNumMatches s);
       let s = s\<lparr>es_dictNumLookups := lookups\<rparr>;
       (case cand of
         None \<Rightarrow> Some (sr, s, h)
       | Some (wl, wi) \<Rightarrow> do {
           r \<leftarrow> matchStaticDictEntryAt dict data (at m cur) wl wi (maxDist + gap) (sr_score sr);
           Some (case r of None \<Rightarrow> (sr, s, h)
             | Some sr \<Rightarrow> (sr, s\<lparr>es_dictNumMatches := uadd (es_dictNumMatches s) 1\<rparr>, h)) }) }
     else Some (sr, s, h) })"


subsection \<open>\<^verbatim>\<open>createBackwardReferences\<close>\<close>

text \<open>What is constant during a call.\<close>

record h2_call =
  c_ents :: "nat list"
  c_dict :: "byte list"
  c_mask :: "nat option"
  c_data :: "byte list"
  c_limit :: nat
  c_gap :: nat
  c_posEnd :: nat
  c_storeEnd :: nat
  c_direct :: bool

text \<open>The lazy search: \<open>k\<close> is \<^verbatim>\<open>delayedBackwardReferencesInRow\<close>, and \<open>maxLength\<close> is decremented before each round.\<close>

definition costDiffLazy :: nat where "costDiffLazy = 175"

function h2_lazy :: "h2_call \<Rightarrow> nat \<Rightarrow> nat \<Rightarrow> nat \<Rightarrow> nat \<Rightarrow> hasherSearchResult \<Rightarrow> encodeState \<times> h2 \<Rightarrow>
    (nat \<times> nat \<times> hasherSearchResult \<times> encodeState \<times> h2) option" where
  "h2_lazy c k position il maxLength sr x = do {
     let sr0 = \<lparr>sr_len = min (usub (sr_len sr) 1) maxLength, sr_distance = 0, sr_score = minScore, sr_lenCodeDelta = 0\<rparr>;
     let maxDist = min (position + 1) (c_limit c);
     (sr2, x) \<leftarrow> h2_search (c_ents c) (c_dict c) (c_mask c) (c_data c) (c_gap c) (position + 1) maxLength maxDist sr0 x;
     if sr_score sr2 \<ge> uadd (sr_score sr) costDiffLazy then
       if k + 1 < 4 \<and> position + 1 + hashTypeLength < c_posEnd c
       then h2_lazy c (k + 1) (position + 1) (il + 1) (maxLength - 1) sr2 x
       else Some (position + 1, il + 1, sr2, x)
     else Some (position, il, sr, x) }"
  by pat_completeness auto
termination by (relation "measure (\<lambda>(c, k, r). 4 - k)") auto

declare h2_lazy.simps [simp del]

fun tally_literals :: "nat option \<Rightarrow> byte list \<Rightarrow> nat list \<Rightarrow> nat list \<Rightarrow> nat list option" where
  "tally_literals m data [] hs = Some hs"
| "tally_literals m data (p # ps) hs = do {
     x \<leftarrow> loadByte data (at m p);
     n \<leftarrow> go_index hs (int (unat x));
     hs \<leftarrow> go_update hs (int (unat x)) (to_u32 (n + 1));
     tally_literals m data ps hs }"

definition tally_one :: "nat \<Rightarrow> nat list \<Rightarrow> nat list option" where
  "tally_one i hs = do { n \<leftarrow> go_index hs (int i); go_update hs (int i) (to_u32 (n + 1)) }"

text \<open>The histograms, when they are kept, and the literals \<open>ps\<close> of the command; a nil histogram panics.\<close>

definition h2_tally :: "nat option \<Rightarrow> byte list \<Rightarrow> command \<Rightarrow> nat list \<Rightarrow> encodeState \<Rightarrow> encodeState option" where
  "h2_tally m data c ps s = (case es_cmdHisto s of None \<Rightarrow> Some s | Some ch \<Rightarrow> do {
     ch \<leftarrow> tally_one (cmdPrefix c) ch;
     dh \<leftarrow> (if cmdPrefix c \<ge> 128 then do { dh \<leftarrow> es_distHisto s; map_option Some (tally_one (distPrefix c AND 0x3FF) dh) } else Some (es_distHisto s));
     lh \<leftarrow> (if ps = [] then Some (es_litHisto s) else do { lh \<leftarrow> es_litHisto s; map_option Some (tally_literals m data ps lh) });
     Some (s\<lparr>es_cmdHisto := Some ch, es_distHisto := dh, es_litHisto := lh\<rparr>) })"

definition push_distance :: "nat \<Rightarrow> nat \<Rightarrow> nat \<Rightarrow> nat list \<Rightarrow> nat list" where
  "push_distance d code reach cache = (if d \<le> reach \<and> code > 0 then [d, cache ! 0, cache ! 1, cache ! 2] else cache)"

text \<open>The command of the match \<open>sr\<close> at \<open>position\<close>, after \<open>il\<close> literals.\<close>

definition h2_emit :: "h2_call \<Rightarrow> nat \<Rightarrow> nat \<Rightarrow> hasherSearchResult \<Rightarrow> encodeState \<Rightarrow> encodeState option" where
  "h2_emit c position il sr s = do {
     let reach = min position (c_limit c) + c_gap c;
     let code = computeDistanceCode (sr_distance sr) reach (es_distCache s);
     let s = s\<lparr>es_distCache := push_distance (sr_distance sr) code reach (es_distCache s)\<rparr>;
     cmds \<leftarrow> pushCommandSimpleDist il (sr_len sr) (sr_lenCodeDelta sr) code (es_commands s);
     s \<leftarrow> h2_tally (c_mask c) (c_data c) (last cmds) (map (uadd (usub position il)) [0..<il]) (s\<lparr>es_commands := cmds\<rparr>);
     Some (s\<lparr>es_numLiterals := uadd (es_numLiterals s) il\<rparr>) }"

text \<open>The stores for the matched range, without those that would fill the table with a run.\<close>

definition h2_after :: "h2_call \<Rightarrow> nat \<Rightarrow> hasherSearchResult \<Rightarrow> h2 \<Rightarrow> h2 option" where
  "h2_after c position sr h = do {
     let nxt = position + sr_len sr;
     h \<leftarrow> (if nxt + hashTypeLength < c_posEnd c then do {
            key \<leftarrow> hashBytes (c_data c) (at (c_mask c) nxt);
            b \<leftarrow> go_index (h_buckets h) (int key);
            Some (h\<lparr>h_nextBucket := b\<rparr>) } else Some h);
     let rangeEnd = min nxt (c_storeEnd c);
     let rangeStart = (if sr_distance sr < sr_len sr div 4
                       then min rangeEnd (max (position + 2) (nxt - 4 * sr_distance sr)) else position + 2);
     store_matched (c_mask c) (c_data c) (c_direct c) rangeStart rangeEnd h }"

text \<open>Runs without matches: store and step.\<close>

function h2_skip :: "h2_call \<Rightarrow> nat \<Rightarrow> nat \<Rightarrow> nat \<Rightarrow> nat \<Rightarrow> h2 \<Rightarrow> (nat \<times> nat \<times> h2) option" where
  "h2_skip c jump stride position il h = (if position < jump \<and> 0 < stride then do {
     h \<leftarrow> h2_store (c_mask c) (c_data c) position h;
     h2_skip c jump stride (position + stride) (il + stride) h }
   else Some (position, il, h))"
  by pat_completeness auto
termination by (relation "measure (\<lambda>(c, jump, stride, position, il, h). jump - position)") auto

declare h2_skip.simps [simp del]

definition h2_literal :: "h2_call \<Rightarrow> nat \<Rightarrow> nat \<Rightarrow> nat \<Rightarrow> h2 \<Rightarrow> (nat \<times> nat \<times> h2) option" where
  "h2_literal c heur position il h =
     (if position > heur then
        (if position > heur + 4 * 64
         then h2_skip c (min (position + 16) (usub (c_posEnd c) (hashTypeLength - 1))) 4 position il h
         else h2_skip c (min (position + 8) (usub (c_posEnd c) (hashTypeLength - 1))) 2 position il h)
      else Some (position, il, h))"

partial_function (option) h2_loop :: "h2_call \<Rightarrow> nat \<Rightarrow> nat \<Rightarrow> nat \<Rightarrow> encodeState \<times> h2 \<Rightarrow> (nat \<times> nat \<times> encodeState \<times> h2) option" where
  "h2_loop c position il heur x = (if position + hashTypeLength < c_posEnd c then do {
     let maxLength = c_posEnd c - position;
     let sr0 = \<lparr>sr_len = 0, sr_distance = 0, sr_score = minScore, sr_lenCodeDelta = 0\<rparr>;
     (sr, x) \<leftarrow> h2_search (c_ents c) (c_dict c) (c_mask c) (c_data c) (c_gap c) position maxLength (min position (c_limit c)) sr0 x;
     if sr_score sr > minScore then do {
       (position, il, sr, s, h) \<leftarrow> h2_lazy c 0 position il (maxLength - 1) sr x;
       s \<leftarrow> h2_emit c position il sr s;
       h \<leftarrow> h2_after c position sr h;
       h2_loop c (position + sr_len sr) 0 (position + 2 * sr_len sr + 64) (s, h) }
     else do {
       (position, il, h) \<leftarrow> h2_literal c heur (position + 1) (il + 1) (snd x);
       h2_loop c position il heur (fst x, h) } }
   else Some (position, il, x))"

text \<open>\<^verbatim>\<open>s.data\<close> is the view behind the first two bytes of the allocation.\<close>

definition es_data :: "encodeState \<Rightarrow> byte list" where
  "es_data s = drop 2 (sl_list (es_ringBufAlloc s))"

definition h2_call_of :: "nat list \<Rightarrow> byte list \<Rightarrow> nat option \<Rightarrow> nat \<Rightarrow> nat \<Rightarrow> encodeState \<Rightarrow> h2_call" where
  "h2_call_of ents dict m bytes wrappedPos s = \<lparr>c_ents = ents, c_dict = dict, c_mask = m, c_data = es_data s,
     c_limit = usub (2 ^ es_lgwin s) 16, c_gap = compoundDictionary.cd_totalSize (es_compound s), c_posEnd = wrappedPos + bytes,
     c_storeEnd = (if bytes \<ge> hashTypeLength then wrappedPos + bytes - hashTypeLength + 1 else wrappedPos),
     c_direct = (bytes \<ge> 4096)\<rparr>"

definition h2_run :: "nat list \<Rightarrow> byte list \<Rightarrow> nat option \<Rightarrow> nat \<Rightarrow> nat \<Rightarrow> encodeState \<times> h2 \<Rightarrow> (encodeState \<times> h2) option" where
  "h2_run ents dict m bytes wrappedPos = (\<lambda>(s, h). do {
     let c = h2_call_of ents dict m bytes wrappedPos s;
     (position, il, s', h) \<leftarrow> h2_loop c wrappedPos (es_lastInsertLen s) (wrappedPos + 64) (s, h);
     Some (s'\<lparr>es_lastInsertLen := il + usub (c_posEnd c) position,
              es_numCommands := uadd (es_numCommands s') (usub (length (es_commands s')) (length (es_commands s)))\<rparr>, h) })"

definition h2_createBackwardReferencesNoWrap :: "nat list \<Rightarrow> byte list \<Rightarrow> nat \<Rightarrow> nat \<Rightarrow> encodeState \<times> h2 \<Rightarrow> (encodeState \<times> h2) option" where
  "h2_createBackwardReferencesNoWrap ents dict bytes wrappedPos = h2_run ents dict None bytes wrappedPos"

definition h2_createBackwardReferences :: "nat list \<Rightarrow> byte list \<Rightarrow> nat \<Rightarrow> nat \<Rightarrow> encodeState \<times> h2 \<Rightarrow> (encodeState \<times> h2) option" where
  "h2_createBackwardReferences ents dict bytes wrappedPos = (\<lambda>(s, h).
     if \<not> h_everWrapped h \<and> wrappedPos + bytes \<le> es_mask s + 1
     then h2_createBackwardReferencesNoWrap ents dict bytes wrappedPos (s, h)
     else h2_run ents dict (Some (es_mask s)) bytes wrappedPos (s, h\<lparr>h_everWrapped := True\<rparr>))"

end
