(* ===== verification/Spec2Isabelle.thy ===== *)
theory Spec2Isabelle
  imports Decode_Ring Decode_Blocks Prefix_Roundtrip Decode_Fast_Command Distance_Decode Encode_Raw Stream_Reader Match_H2
begin

text \<open>
  A model of go-brrr, a Brotli encoder and decoder in Go, and proofs about it. The definitions follow the sources
  under \<^verbatim>\<open>src/\<close>; they keep the names of the Go functions and types, with a suffix or the receiver as a prefix where
  HOL needs it.

  The program. \<^verbatim>\<open>bitreader.go\<close>, \<^verbatim>\<open>decode.go\<close>, \<^verbatim>\<open>decode_state.go\<close> and \<^verbatim>\<open>decode_mem*.go\<close> are the decoder, a state machine
  that may stop at any bit of its input and resumes with the next chunk. \<^verbatim>\<open>internal/core\<close> holds what both sides share:
  alphabets, the insert-and-copy table, contexts, prefix code tables. \<^verbatim>\<open>internal/encoder\<close> is the encoder: a bit writer,
  metablock headers, commands, distance parameters, prefix codes, and match finders. \<^verbatim>\<open>output_chunks.go\<close> collects
  decoded output in pooled chunks.

  Conventions. Go's \<^verbatim>\<open>int\<close> is \<open>int\<close>; \<^verbatim>\<open>uint\<close> counters are \<open>nat\<close> with \<open>uadd\<close> and \<open>usub\<close>, which wrap at 2^64; values used as bit
  strings are \<open>64 word\<close>; a byte is \<open>8 word\<close> in data and a \<open>nat\<close> where it is a small number. A slice is a list, a
  \<open>goslice\<close> where its capacity matters. An operation that can panic returns an option and \<open>None\<close> is the panic, or a loop
  that does not end. Parameters Go passes by pointer are arguments and results. The build modelled is the one with
  bounds checks (\<^verbatim>\<open>le_generic.go\<close>, \<^verbatim>\<open>mem_checked.go\<close>, \<^verbatim>\<open>decode_mem_checked.go\<close>); pools are parameters.

  The theories.
  \<^item> \<open>Prelude\<close>: wrapping arithmetic, checked slices, bit strings and little-endian words, shared by all.
  \<^item> \<open>Core_Constants\<close>, \<open>Cmd_Lut\<close>, \<open>Context_Table\<close>: the constants and tables of \<^verbatim>\<open>internal/core\<close>.
  \<^item> \<open>Bit_Writer\<close>, \<open>Stream_Writer\<close>: \<^verbatim>\<open>bitwriter.go\<close> and the headers of \<^verbatim>\<open>encoder.go\<close> and \<^verbatim>\<open>metablock.go\<close>.
  \<^item> \<open>Bit_Reader\<close>: \<^verbatim>\<open>bitreader.go\<close>; the lemmas say how each operation changes the bits still to be read.
  \<^item> \<open>Huffman_Table\<close>, \<open>Canonical_Code\<close>, \<open>Table_Build\<close>, \<open>Table_Levels\<close>, \<open>Table_Correct\<close>: the table builders of
    \<^verbatim>\<open>internal/core/huffman.go\<close>, and the proof that the two-level table decodes the canonical code.
  \<^item> \<open>Output_Chunks\<close>, \<open>Decode_State\<close>, \<open>Decode_Header\<close>, \<open>Decode_Ring\<close>: the decoder's state, its headers, and the ring buffer
    with the copying of stored metablocks. \<open>Suspend\<close> states what a resumable operation promises: given its input in any
    pieces it does what a parser does with the whole of it.
  \<^item> \<open>Decode_Symbol\<close>, \<open>Decode_Blocks\<close>, \<open>Decode_Distance\<close>: reading symbols, block switches, literals, distances.
  \<^item> \<open>Decode_Huffman\<close>, \<open>Huffman_Lists\<close>: reading prefix codes and context maps, and the lists of symbols that describe
    the code lengths read.
  \<^item> \<open>Command_Codes\<close>: \<^verbatim>\<open>command.go\<close> and \<^verbatim>\<open>distance_params.go\<close>.
  \<^item> \<open>Huffman_Encode\<close>, \<open>Rle_Encode\<close>, \<open>Huffman_Roundtrip\<close>: code values and the run-length coding of code lengths of
    \<^verbatim>\<open>huffman_encode.go\<close>, and their way through the decoder. \<open>Huffman_Create\<close>: \<^verbatim>\<open>createHuffmanTree\<close>, the merge of the
    sorted leaves and the depths, with the proof that it ends and yields a complete code. \<open>Clen_Table\<close>: the table of the
    code length code.
  \<^item> \<open>Prefix_Write\<close>: the prefix codes \<^verbatim>\<open>bitwriter.go\<close> writes, as sequences of fields. \<open>Prefix_Read\<close>, \<open>Prefix_Lengths\<close>,
    \<open>Prefix_Tokens\<close>, \<open>Prefix_Loops\<close>, \<open>Prefix_Complex\<close>: \<^verbatim>\<open>readHuffmanCode\<close> of \<^verbatim>\<open>decode.go\<close> on a complex code, from the lengths
    of the code length code to the end of the symbols, in the batched loop, the loop with four bytes of room and the
    byte-wise loop. \<open>Prefix_Simple\<close>: the table of a simple code. \<open>Prefix_Code\<close>, \<open>Prefix_Roundtrip\<close>: both sides together.
  \<^item> \<open>Decode_Copy\<close>: the copies \<^verbatim>\<open>processCommands\<close> makes in the ring buffer, against copying byte by byte from the history.
  \<^item> \<open>Transforms\<close>: the static dictionary's word transforms. \<open>Decode_Compound\<close>: attached dictionaries.
  \<^item> \<open>Decode_Commands\<close>, \<open>Decode_Stream\<close>: \<^verbatim>\<open>processCommands\<close> and \<^verbatim>\<open>decompressStream\<close>, one definition per label or state, each a
    step that returns or goes on; \<^verbatim>\<open>decodeAll\<close> and \<^verbatim>\<open>Decompress\<close>. The loops over the steps are partial functions.
  \<^item> \<open>Decode_Fast\<close>, \<open>Decode_Fast_Command\<close>: the fast paths of literals, commands and distances agree with the resumable ones.
  \<^item> \<open>Decode_Plain\<close>, \<open>Decode_Run\<close>: streams of raw and metadata metablocks through \<^verbatim>\<open>Decompress\<close>, which is shown to end.
  \<^item> \<open>Encode_State\<close>, \<open>Encode_Raw\<close>: \<^verbatim>\<open>encode_state.go\<close>, \<^verbatim>\<open>ringbuffer.go\<close> and the part of \<^verbatim>\<open>encoder.go\<close> that opens and
    closes the output of a metablock; encoder and decoder joined for uncompressed metablocks.
  \<^item> \<open>Distance_Decode\<close>: a distance from \<^verbatim>\<open>computeDistanceCode\<close> of the encoder to \<^verbatim>\<open>readDistance\<close> of the decoder.
  \<^item> \<open>Stream_Reader\<close>: \<^verbatim>\<open>reader.go\<close>, the decoder behind Go's \<^verbatim>\<open>io.Reader\<close>: the limit on the bytes delivered, and errors that stay.
  \<^item> \<open>Match_Length\<close>, \<open>Match_H2\<close>: \<^verbatim>\<open>matchlen.go\<close> and \<^verbatim>\<open>hash.go\<close>, and the match finder of quality 2, \<^verbatim>\<open>hash2.go\<close>, with the shallow
    search of \<^verbatim>\<open>static_dict.go\<close>.

  Fuel and bounds. No definition takes fuel: a loop that is not structural is a \<open>function\<close> with a measure or a
  \<open>partial_function\<close> whose result is shown to exist where a property needs it. Bounds on lengths (2^50 bytes of input, 2^59
  bytes of stream) keep the 64-bit counters from wrapping; windows and alphabets have the bounds of the format.

  Not modelled: the match finders of the other qualities, the search for shortest paths \<^verbatim>\<open>zopfli*.go\<close>, the cost models, the block
  splitter and the clustering, which work in floating point or only choose among encodings; the compressors of quality
  0 and 1 (\<^verbatim>\<open>compress_fragment*.go\<close>); \<^verbatim>\<open>writer.go\<close>, which wraps the encoder in Go's interface; the generated
  dictionary tables; the builds that use \<^verbatim>\<open>unsafe\<close> or assembly; tests, benchmarks and command line tools.
\<close>

subsection \<open>Bit streams\<close>

definition new_writer :: "nat \<Rightarrow> bitWriter" where
  "new_writer n = \<lparr>buf = replicate n 0, bitOffset = 0\<rparr>"

definition new_reader :: "byte list \<Rightarrow> bitReader" where
  "new_reader data = setInput data \<lparr>br_input = [], br_pos = 0, br_val = 0, br_bitPos = 0,
     br_inputLen = 0, br_fastEnd = -1\<rparr>"

definition written :: "bitWriter \<Rightarrow> byte list" where
  "written b = take ((bitOffset b + 7) div 8) (buf b)"

lemma new_writer_ok: "0 < n \<Longrightarrow> bw_inv (new_writer n) \<and> bw_bits (new_writer n) = [] \<and>
    bw_room (new_writer n) = 8 * n - 56"
  by (auto simp: bw_inv_def clean_at_def new_writer_def bw_bits_def bits_upto_def bw_room_def nth_bytes_bits)

lemma new_reader_ok:
  "br_inv (new_reader data)" "br_ready (new_reader data)" "br_bits (new_reader data) = bytes_bits data"
  by (auto simp: new_reader_def setInput_def br_inv_def br_ready_def br_bits_def acc_ok_def)

lemma written_bits:
  assumes "bw_inv b"
  obtains pad where "bytes_bits (written b) = bw_bits b @ pad"
proof -
  define d where "d = (bitOffset b + 7) div 8"
  have "bitOffset b \<le> 8 * d" unfolding d_def by linarith
  then have "bytes_bits (written b) = bw_bits b @ drop (bitOffset b) (take (8 * d) (bytes_bits (buf b)))"
    by (simp add: written_def d_def [symmetric] take_bytes_bits [symmetric] bw_bits_def bits_upto_def)
      (metis append_take_drop_id min.absorb1 take_take)
  then show thesis by (rule that)
qed

text \<open>C3. Reading back what was written: whatever sequence of fields of at most 56 bits the encoder's
  bit writer stores in an empty buffer with room for it, the decoder's safe bit reader, given the
  bytes written and asked for fields of the same widths, returns exactly the values written.\<close>

theorem bit_stream_roundtrip:
  assumes "fields_ok fs" and "length (fields_bits fs) + 56 < 8 * n"
  shows "\<exists>w r. put_fields writeBits fs (new_writer n) = Some w \<and>
    get_fields safeReadBits (map fst fs) (new_reader (written w)) = Some (Some (map snd fs), r)"
proof -
  have "0 < n" using assms(2) by simp
  note nw = new_writer_ok [OF this]
  moreover have "length (fields_bits fs) < 8 * n - 56" using assms(2) by simp
  ultimately obtain w where
    w: "put_fields writeBits fs (new_writer n) = Some w" "bw_inv w" "bw_bits w = fields_bits fs"
    using writer_sink.put_fields_ok [of "new_writer n" fs] assms(1) by auto
  from written_bits [OF w(2)] obtain pad where
    bits: "br_bits (new_reader (written w)) = fields_bits fs @ pad" using w(3) new_reader_ok(3) by metis
  have "\<forall>(m, v) \<in> set fs. m \<le> 57" using assms(1) by (induction fs rule: fields_ok.induct) auto
  with safe_source.get_fields_ok [OF new_reader_ok(1) assms(1) _ bits] w show ?thesis by blast
qed

theorem bit_stream_roundtrip_witness:
  "\<exists>w r. put_fields writeBits [(1, 1), (3, 5), (12, 0xABC)] (new_writer 10) = Some w \<and>
    get_fields safeReadBits [1, 3, 12] (new_reader (written w)) = Some (Some [1, 5, 0xABC], r)"
  using bit_stream_roundtrip [of "[(1, 1), (3, 5), (12, 0xABC)]" 10] by simp

end
